(* ===== verification/Prelude.thy ===== *)
theory Prelude
  imports "HOL-Library.Word" "HOL-Library.Monad_Syntax"
begin

text \<open>
  Shared vocabulary of the development.

  The kernel is compiled for 32-bit x86 (\<open>uarch_t\<close> is a 32-bit unsigned integer,
  \<open>error_t\<close> and \<open>status_t\<close> are 32-bit signed integers whose negative values are error
  codes).  Every operation of the model runs in the option monad: \<open>None\<close> means that the
  machine does not return normally (a NULL or dangling pointer is dereferenced, an array is
  indexed out of bounds, \<open>assert_fatal\<close> or \<open>panic\<close> fires, or a non-recursive
  \<open>WaitLock\<close> is acquired by the code that already holds it and spins forever).
\<close>

unbundle bit_operations_syntax

section \<open>Machine types\<close>

type_synonym u8 = "8 word"
type_synonym u16 = "16 word"
type_synonym u32 = "32 word"
type_synonym u64 = "64 word"

type_synonym error_t = int
type_synonym status_t = int

text \<open>A pointer is \<open>None\<close> for NULL and \<open>Some a\<close> for an address.  A store maps the
  addresses of the allocated nodes of one node type to their contents.\<close>

type_synonym addr = nat
type_synonym ptr = "addr option"
type_synonym 'n store = "addr \<Rightarrow> 'n option"

text \<open>What an allocator hands out: NULL, or an address with indeterminate contents.\<close>

type_synonym 'n mem = "(addr \<times> 'n) option"

section \<open>Error codes (\<open>__kerror.h\<close>)\<close>

abbreviation (input) ERROR_SUCCESS :: error_t where "ERROR_SUCCESS \<equiv> 0"
abbreviation (input) ERROR_GENERAL :: error_t where "ERROR_GENERAL \<equiv> - 1"
abbreviation (input) ERROR_UNKNOWN :: error_t where "ERROR_UNKNOWN \<equiv> - 2"
abbreviation (input) ERROR_CRITICAL :: error_t where "ERROR_CRITICAL \<equiv> - 3"
abbreviation (input) ERROR_FATAL :: error_t where "ERROR_FATAL \<equiv> - 4"
abbreviation (input) ERROR_INVALID_ARG :: error_t where "ERROR_INVALID_ARG \<equiv> - 10"
abbreviation (input) ERROR_INVALID_ARG_VAL :: error_t where "ERROR_INVALID_ARG_VAL \<equiv> - 11"
abbreviation (input) ERROR_INVALID_OPERATION :: error_t where "ERROR_INVALID_OPERATION \<equiv> - 12"
abbreviation (input) ERROR_MEMORY_NOMEM :: error_t where "ERROR_MEMORY_NOMEM \<equiv> - 20"
abbreviation (input) ERROR_MEMORY_NOMEM_PHYSICAL :: error_t
  where "ERROR_MEMORY_NOMEM_PHYSICAL \<equiv> - 22"
abbreviation (input) ERROR_UNIMPLEMENTED :: error_t where "ERROR_UNIMPLEMENTED \<equiv> - 30"
abbreviation (input) ERROR_UNSUPPORTED :: error_t where "ERROR_UNSUPPORTED \<equiv> - 31"
abbreviation (input) ERROR_UNINITIALIZED :: error_t where "ERROR_UNINITIALIZED \<equiv> - 32"
abbreviation (input) ERROR_RESOURCE_BUSY :: error_t where "ERROR_RESOURCE_BUSY \<equiv> - 40"
abbreviation (input) ERROR_WOULD_BLOCK :: error_t where "ERROR_WOULD_BLOCK \<equiv> - 50"
abbreviation (input) ERROR_NOT_FOUND :: error_t where "ERROR_NOT_FOUND \<equiv> - 51"
abbreviation (input) ERROR_LIMIT_OVERFLOWED :: error_t where "ERROR_LIMIT_OVERFLOWED \<equiv> - 52"

section \<open>Pointers and arrays\<close>

definition deref :: "'n store \<Rightarrow> ptr \<Rightarrow> 'n option" where
  "deref h p = (case p of None \<Rightarrow> None | Some a \<Rightarrow> h a)"

definition store_upd :: "'n store \<Rightarrow> ptr \<Rightarrow> ('n \<Rightarrow> 'n) \<Rightarrow> 'n store option" where
  "store_upd h p f =
     (case p of None \<Rightarrow> None
      | Some a \<Rightarrow> (case h a of None \<Rightarrow> None | Some n \<Rightarrow> Some (h(a \<mapsto> f n))))"

definition arr_get :: "'a list \<Rightarrow> nat \<Rightarrow> 'a option" where
  "arr_get xs i = (if i < length xs then Some (xs ! i) else None)"

definition arr_set :: "'a list \<Rightarrow> nat \<Rightarrow> 'a \<Rightarrow> 'a list option" where
  "arr_set xs i v = (if i < length xs then Some (xs[i := v]) else None)"

text \<open>\<open>assert_fatal\<close>: execution continues only if the condition holds.\<close>

definition assert_fatal :: "bool \<Rightarrow> unit option" where
  "assert_fatal b = (if b then Some () else None)"

text \<open>A \<open>WaitLock\<close> is a flag; acquiring a lock that is held does not return to a
  caller that is the only one who could release it.\<close>

definition lock_acquire :: "bool \<Rightarrow> bool option" where
  "lock_acquire held = (if held then None else Some True)"

abbreviation (input) lock_release :: bool where "lock_release \<equiv> False"

named_theorems exec_simps \<open>unfolding the option monad of the model\<close>

lemma deref_simps [simp]:
  "deref h None = None" "deref h (Some a) = h a"
  by (simp_all add: deref_def)

lemma deref_eq_Some: "deref h p = Some n \<longleftrightarrow> (\<exists>a. p = Some a \<and> h a = Some n)"
  by (cases p) simp_all

lemma store_upd_simps [simp]:
  "store_upd h None f = None"
  "h a = Some n \<Longrightarrow> store_upd h (Some a) f = Some (h(a \<mapsto> f n))"
  "h a = None \<Longrightarrow> store_upd h (Some a) f = None"
  by (simp_all add: store_upd_def)

lemma lock_acquire_simps [simp]:
  "lock_acquire False = Some True" "lock_acquire True = None"
  by (simp_all add: lock_acquire_def)

lemma assert_fatal_simps [simp]:
  "assert_fatal True = Some ()" "assert_fatal False = None"
  by (simp_all add: assert_fatal_def)

lemma assert_fatal_eq_Some [simp]: "assert_fatal b = Some u \<longleftrightarrow> b"
  by (simp add: assert_fatal_def)

lemma arr_get_Some [simp]: "i < length xs \<Longrightarrow> arr_get xs i = Some (xs ! i)"
  by (simp add: arr_get_def)

lemma arr_set_Some [simp]: "i < length xs \<Longrightarrow> arr_set xs i v = Some (xs[i := v])"
  by (simp add: arr_set_def)

lemma arr_get_eq_Some: "arr_get xs i = Some v \<longleftrightarrow> i < length xs \<and> v = xs ! i"
  by (auto simp: arr_get_def)

lemma arr_set_eq_Some: "arr_set xs i v = Some ys \<longleftrightarrow> i < length xs \<and> ys = xs[i := v]"
  by (auto simp: arr_set_def)

section \<open>Word facts used by several components\<close>

lemma unat_bound: "unat (x::'a::len word) < 2 ^ LENGTH('a)"
  by (fact unsigned_less)

lemma unat_ucast_up:
  "LENGTH('a) \<le> LENGTH('b) \<Longrightarrow> unat (ucast (w :: 'a::len word) :: 'b::len word) = unat w"
  by (simp add: unsigned_ucast_eq take_bit_nat_eq_self_iff less_le_trans [OF unat_bound])

lemma unat_Suc_less: "(i::'a::len word) < n \<Longrightarrow> unat (i + 1) = Suc (unat i)"
proof -
  assume "i < n"
  then have "unat i < unat n" by (simp add: word_less_nat_alt)
  with unat_bound [of n] have "unat i + 1 < 2 ^ LENGTH('a)" by linarith
  then show ?thesis by (simp add: unat_word_ariths)
qed

lemma word_diff_Suc_less: "(i::'a::len word) < n \<Longrightarrow> unat n - unat (i + 1) < unat n - unat i"
  by (simp add: unat_Suc_less word_less_nat_alt)

lemma unat_add_no_wrap:
  "unat (a::'a::len word) + unat b < 2 ^ LENGTH('a) \<Longrightarrow> unat (a + b) = unat a + unat b"
  by (simp add: unat_word_ariths)

lemma unat_sub_le: "b \<le> (a::'a::len word) \<Longrightarrow> unat (a - b) = unat a - unat b"
  by (rule unat_sub)

lemma unat_pred: "Suc k = unat (n :: 'a::len word) \<Longrightarrow> unat (n - 1) = k"
  by (metis Suc_n_not_le_n diff_Suc_1 unat_0 unat_1 unat_sub word_le_nat_alt word_less_1
      word_not_simps(1) not_less word_neq_0_conv less_Suc_eq_le zero_less_Suc)

lemma sint_small: "unat (w :: u32) < 2 ^ 31 \<Longrightarrow> sint w = int (unat w)"
proof -
  assume less: "unat w < 2 ^ 31"
  have eq: "uint w = int (unat w)" by simp
  from less have "uint w < 2 ^ 31" unfolding eq of_nat_less_iff [symmetric, where 'a = int] by simp
  moreover have "- 2147483648 \<le> uint w" using uint_ge_0 [of w] by linarith
  ultimately show ?thesis
    by (simp add: sint_uint signed_take_bit_int_eq_self_iff)
qed

section \<open>Counting loops\<close>

text \<open>\<open>for (i = a; i < b; i++) body\<close> over an unsigned counter.\<close>

function word_for :: "u32 \<Rightarrow> u32 \<Rightarrow> (u32 \<Rightarrow> 's \<Rightarrow> 's option) \<Rightarrow> 's \<Rightarrow> 's option" where
  "word_for i e body s =
     (if i < e then Option.bind (body i s) (word_for (i + 1) e body) else Some s)"
  by pat_completeness auto
termination
  by (relation "measure (\<lambda>(i, e, body, s). unat e - unat i)") (simp_all add: word_diff_Suc_less)

declare word_for.simps [simp del]

lemma word_for_rule:
  assumes "P i s" "i \<le> e"
    and "\<And>j t. i \<le> j \<Longrightarrow> j < e \<Longrightarrow> P j t \<Longrightarrow> \<exists>t'. body j t = Some t' \<and> P (j + 1) t'"
  shows "\<exists>s'. word_for i e body s = Some s' \<and> P e s'"
  using assms
proof (induction i e body s rule: word_for.induct)
  case (1 i e body s)
  show ?case
  proof (cases "i < e")
    case True
    with "1.prems" obtain t where t: "body i s = Some t" "P (i + 1) t" by blast
    have le: "i + 1 \<le> e" "i \<le> i + 1"
      using True unat_Suc_less [OF True] by (simp_all add: word_le_nat_alt word_less_nat_alt)
    have "\<exists>s'. word_for (i + 1) e body t = Some s' \<and> P e s'"
      by (rule "1.IH") (use True t le "1.prems" in \<open>auto intro: order_trans\<close>)
    with True t show ?thesis by (simp add: word_for.simps [of i])
  next
    case False
    with "1.prems" have "i = e" by simp
    with "1.prems" show ?thesis by (simp add: word_for.simps [of e])
  qed
qed

lemma word_for_empty: "e \<le> i \<Longrightarrow> word_for i e body s = Some s"
  by (subst word_for.simps) (auto dest: leD)

section \<open>Alignment\<close>

lemma mask_aligned: "x AND mask k = 0 \<longleftrightarrow> 2 ^ k dvd unat x" if "k < 32" for x :: u32
proof -
  have "x AND mask k = 0 \<longleftrightarrow> take_bit k (unat x) = 0" by (simp add: unsigned_take_bit_eq flip: take_bit_eq_mask unat_eq_0)
  then show ?thesis by (simp add: take_bit_eq_mod dvd_eq_mod_eq_0)
qed

lemma page_aligned: "x AND 0xFFF = 0 \<longleftrightarrow> 4096 dvd unat x" for x :: u32
  using mask_aligned [of 12 x] by (simp add: mask_eq_exp_minus_1)

end
