(* ===== verification/Dll.thy ===== *)
theory Dll
  imports Prelude
begin

text \<open>
  Doubly linked chains of nodes in a store.  \<open>HeapDoubleList\<close>,
  \<open>SortedHeapDoubleList\<close> and \<open>VSwamp\<close> all link their nodes through \<open>prev\<close> and
  \<open>next\<close> pointers; their node records extend \<open>dnode\<close>, so that the facts proved here about
  chains (splitting, framing, splicing a node in or out) serve all three.
\<close>

record dnode =
  n_prev :: ptr
  n_next :: ptr

section \<open>Segments\<close>

text \<open>\<open>dseg h p x as y l\<close>: following \<open>next\<close> pointers from \<open>x\<close> visits exactly the nodes
  \<open>as\<close> and arrives at \<open>y\<close>; the first node's \<open>prev\<close> is \<open>p\<close>, every other node's \<open>prev\<close> is
  its predecessor, and \<open>l\<close> is the last node (\<open>p\<close> if there is none).\<close>

fun dseg :: "('a dnode_scheme) store \<Rightarrow> ptr \<Rightarrow> ptr \<Rightarrow> addr list \<Rightarrow> ptr \<Rightarrow> ptr \<Rightarrow> bool" where
  "dseg h p x [] y l \<longleftrightarrow> x = y \<and> l = p"
| "dseg h p x (a # as) y l \<longleftrightarrow>
     x = Some a \<and>
     (case h a of None \<Rightarrow> False
      | Some n \<Rightarrow> n_prev n = p \<and> dseg h (Some a) (n_next n) as y l)"

lemma dseg_append [simp]:
  "dseg h p x (as @ bs) y l \<longleftrightarrow> (\<exists>m z. dseg h p x as z m \<and> dseg h m z bs y l)"
  by (induction as arbitrary: p x) (auto split: option.splits)

lemma dseg_frame [simp]:
  "a \<notin> set as \<Longrightarrow> dseg (h(a := v)) p x as y l = dseg h p x as y l"
  by (induction as arbitrary: p x) (auto split: option.splits)

lemma dseg_alloc: "dseg h p x as y l \<Longrightarrow> a \<in> set as \<Longrightarrow> \<exists>n. h a = Some n"
  by (induction as arbitrary: p x) (auto split: option.splits)

lemma dseg_last: "dseg h p x as y l \<Longrightarrow> l = (if as = [] then p else Some (last as))"
  by (induction as arbitrary: p x) (auto split: option.splits)

lemma dseg_first: "dseg h p x as y l \<Longrightarrow> x = (if as = [] then y else Some (hd as))"
  by (cases as) auto

lemma dseg_NoneD: "dseg h p None as y l \<Longrightarrow> as = [] \<and> y = None \<and> l = p"
  by (cases as) auto

lemma dseg_Some_None: "dseg h p (Some a) as None l \<Longrightarrow> \<exists>bs. as = a # bs"
  by (cases as) auto

lemma dseg_last_None: "dseg h None x as y None \<Longrightarrow> as = []"
  by (auto dest: dseg_last split: if_splits)

lemma dseg_last_Some:
  "dseg h None x as y (Some a) \<Longrightarrow> \<exists>bs. as = bs @ [a]"
  by (metis append_butlast_last_id dseg_last option.distinct(1) option.inject)

text \<open>Re-pointing the ends of a chain.\<close>

lemma dseg_set_first_prev:
  "dseg h p (Some a) (a # as) y l \<Longrightarrow> a \<notin> set as \<Longrightarrow> h a = Some n \<Longrightarrow>
   dseg (h(a \<mapsto> n\<lparr>n_prev := q\<rparr>)) q (Some a) (a # as) y l"
  by simp

lemma dseg_set_last_next:
  "dseg h p x (as @ [a]) y l \<Longrightarrow> a \<notin> set as \<Longrightarrow> h a = Some n \<Longrightarrow>
   dseg (h(a \<mapsto> n\<lparr>n_next := z\<rparr>)) p x (as @ [a]) z l"
  by (auto split: option.splits)

section \<open>Walking a chain\<close>

text \<open>The addresses reached from \<open>x\<close> in at most \<open>k\<close> steps; the length counters of the
  lists bound the walk.\<close>

fun walk :: "nat \<Rightarrow> ('a dnode_scheme) store \<Rightarrow> ptr \<Rightarrow> addr list" where
  "walk 0 h x = []"
| "walk (Suc k) h None = []"
| "walk (Suc k) h (Some a) =
     (case h a of None \<Rightarrow> [] | Some n \<Rightarrow> a # walk k h (n_next n))"

lemma walk_dseg: "dseg h p x as None l \<Longrightarrow> walk (length as) h x = as"
  by (induction as arbitrary: p x) (auto split: option.splits)

lemma walk_more: "dseg h p x as None l \<Longrightarrow> length as \<le> k \<Longrightarrow> walk k h x = as"
proof (induction as arbitrary: p x k)
  case Nil
  then show ?case by (cases k) auto
next
  case (Cons a as)
  then obtain k' where "k = Suc k'" by (cases k) auto
  with Cons show ?case by (auto split: option.splits)
qed

text \<open>A whole list: head, tail and a chain between them.\<close>

definition dlist :: "('a dnode_scheme) store \<Rightarrow> ptr \<Rightarrow> ptr \<Rightarrow> addr list \<Rightarrow> bool" where
  "dlist h x t as \<longleftrightarrow> distinct as \<and> dseg h None x as None t"

lemma dlist_Nil [simp]: "dlist h x y [] \<longleftrightarrow> x = None \<and> y = None"
  by (auto simp: dlist_def)

lemma dlist_head_NoneD: "dlist h None t as \<Longrightarrow> as = [] \<and> t = None"
  by (auto simp: dlist_def dest: dseg_NoneD)

lemma dlist_ends:
  assumes "dlist h x t as"
  shows "x = (if as = [] then None else Some (hd as))"
    and "t = (if as = [] then None else Some (last as))"
  using assms by (auto simp: dlist_def dest: dseg_first dseg_last)

lemma dlist_tail_NoneD: "dlist h x None as \<Longrightarrow> as = [] \<and> x = None"
  using dlist_ends [of h x None as] by (auto split: if_splits)

lemma dlist_head_SomeD: "dlist h (Some a) t as \<Longrightarrow> \<exists>bs. as = a # bs"
  by (auto simp: dlist_def dest: dseg_Some_None)

lemma dlist_tail_SomeD: "dlist h x (Some a) as \<Longrightarrow> \<exists>bs. as = bs @ [a]"
  by (auto simp: dlist_def dest: dseg_last_Some)

lemma dlist_eq_iff_single: "dlist h x t as \<Longrightarrow> as \<noteq> [] \<Longrightarrow> x = t \<longleftrightarrow> (\<exists>a. as = [a])"
  using dlist_ends [of h x t as] by (cases as) (auto simp: dlist_def)

lemma dlist_alloc: "dlist h x t as \<Longrightarrow> a \<in> set as \<Longrightarrow> \<exists>n. h a = Some n"
  by (auto simp: dlist_def dest: dseg_alloc)

lemma dlist_walk: "dlist h x t as \<Longrightarrow> walk (length as) h x = as"
  by (auto simp: dlist_def dest: walk_dseg)

lemma dlist_unique: "dlist h x t as \<Longrightarrow> dlist h x t' bs \<Longrightarrow> length as = length bs \<Longrightarrow> as = bs"
  by (metis dlist_walk)

text \<open>Splicing: push in front, push at the back, insert after a node, unlink a node.\<close>

lemma dlist_push_front:
  assumes "dlist h x t as" "a \<notin> set as"
    and "h' = (case x of None \<Rightarrow> h | Some b \<Rightarrow> (case h b of None \<Rightarrow> h | Some m \<Rightarrow> h(b \<mapsto> m\<lparr>n_prev := Some a\<rparr>)))"
    and "n_prev n = None" "n_next n = x"
  shows "dlist (h'(a \<mapsto> n)) (Some a) (if t = None then Some a else t) (a # as)"
proof (cases as)
  case Nil
  with assms show ?thesis by (auto simp: dlist_def)
next
  case (Cons b bs)
  with assms obtain m where "x = Some b" "h b = Some m" by (auto simp: dlist_def split: option.splits)
  moreover have "t \<noteq> None" using dlist_ends(2) [OF assms(1)] Cons by simp
  ultimately show ?thesis using Cons assms by (auto simp: dlist_def)
qed

lemma dlist_push_back:
  assumes "dlist h x t as" "a \<notin> set as"
    and "h' = (case t of None \<Rightarrow> h | Some b \<Rightarrow> (case h b of None \<Rightarrow> h | Some m \<Rightarrow> h(b \<mapsto> m\<lparr>n_next := Some a\<rparr>)))"
    and "n_prev n = t" "n_next n = None"
  shows "dlist (h'(a \<mapsto> n)) (if x = None then Some a else x) (Some a) (as @ [a])"
proof (cases as rule: rev_cases)
  case Nil
  with assms show ?thesis by (auto simp: dlist_def)
next
  case (snoc bs b)
  with assms obtain m where t: "t = Some b" "h b = Some m"
    by (auto simp: dlist_def split: option.splits)
  have "dseg (h(b \<mapsto> m\<lparr>n_next := Some a\<rparr>)) None x as (Some a) t"
    using assms snoc t by (intro dseg_set_last_next [of h None x bs b None, folded snoc]) (auto simp: dlist_def)
  moreover have "x \<noteq> None" using dlist_ends(1) [OF assms(1)] snoc by simp
  ultimately show ?thesis using assms snoc t by (auto simp: dlist_def)
qed

lemma dlist_unlink_first:
  assumes "dlist h x t (a # as)" "h a = Some n"
  shows "dlist (case n_next n of None \<Rightarrow> h
                | Some b \<Rightarrow> (case h b of None \<Rightarrow> h | Some m \<Rightarrow> h(b \<mapsto> m\<lparr>n_prev := None\<rparr>)))
           (n_next n) (if as = [] then None else t) as"
proof (cases as)
  case Nil
  with assms show ?thesis by (auto simp: dlist_def)
next
  case (Cons b bs)
  with assms show ?thesis by (auto simp: dlist_def split: option.splits)
qed

lemma dlist_unlink_last:
  assumes "dlist h x t (as @ [a])" "h a = Some n"
  shows "dlist (case n_prev n of None \<Rightarrow> h
                | Some b \<Rightarrow> (case h b of None \<Rightarrow> h | Some m \<Rightarrow> h(b \<mapsto> m\<lparr>n_next := None\<rparr>)))
           (if as = [] then None else x) (n_prev n) as"
proof (cases as rule: rev_cases)
  case Nil
  with assms show ?thesis by (auto simp: dlist_def)
next
  case (snoc bs b)
  with assms show ?thesis by (auto simp: dlist_def split: option.splits)
qed

lemma dlist_drop_node:
  "dlist h x t as \<Longrightarrow> a \<notin> set as \<Longrightarrow> dlist (h(a := v)) x t as"
  by (simp add: dlist_def)

lemma dlist_insert_after:
  assumes "dlist h x t (as @ b # c # bs)" "a \<notin> set (as @ b # c # bs)"
    and "h b = Some nb" "h c = Some nc"
    and "n_prev n = Some b" "n_next n = n_next nb"
  shows "dlist (h(b \<mapsto> nb\<lparr>n_next := Some a\<rparr>, c \<mapsto> nc\<lparr>n_prev := Some a\<rparr>, a \<mapsto> n)) x t
           (as @ b # a # c # bs)"
  using assms by (auto simp: dlist_def)

lemma dlist_unlink_mid:
  assumes "dlist h x t (as @ b # a # c # bs)"
    and "h b = Some nb" "h c = Some nc"
  shows "dlist (h(b \<mapsto> nb\<lparr>n_next := Some c\<rparr>, c \<mapsto> nc\<lparr>n_prev := Some b\<rparr>)) x t
           (as @ b # c # bs)"
  using assms by (auto simp: dlist_def split: option.splits)

end
