(* ===== verification/HeapDoubleList.thy ===== *)
theory HeapDoubleList
  imports Dll
begin

text \<open>
  \<open>HeapDoubleList<T>\<close> (\<open>include/__kclasses/heapDoubleList.h\<close>): a doubly linked list of item
  pointers whose nodes come from the kernel heap or from an object cache.  The model keeps the
  pointer structure: a store of nodes, the head and tail pointers, the item count and the lock.
  The abstract view is the list of items from head to tail.
\<close>

record lnode = dnode +
  n_item :: ptr

record 'x hdl =
  l_store :: "('x lnode_scheme) store"
  l_head :: ptr
  l_tail :: ptr
  l_nItems :: u32
  l_lock :: bool

abbreviation PTRDBLLIST_ADD_HEAD :: u8 where "PTRDBLLIST_ADD_HEAD \<equiv> 0"
abbreviation PTRDBLLIST_ADD_TAIL :: u8 where "PTRDBLLIST_ADD_TAIL \<equiv> 1"

section \<open>Operations\<close>

definition hdl_init :: "'x hdl" where
  "hdl_init = \<lparr>l_store = Map.empty, l_head = None, l_tail = None, l_nItems = 0, l_lock = False\<rparr>"

definition hdl_getNItems :: "'x hdl \<Rightarrow> (u32 \<times> 'x hdl) option" where
  "hdl_getNItems s = do {
     k \<leftarrow> lock_acquire (l_lock s);
     let ret = l_nItems s;
     Some (ret, s\<lparr>l_lock := lock_release\<rparr>)
   }"

text \<open>\<open>mem\<close> is what \<open>new\<close> or the object cache returned for the node.\<close>

definition hdl_addItem :: "('x lnode_scheme) mem \<Rightarrow> ptr \<Rightarrow> u8 \<Rightarrow> 'x hdl \<Rightarrow> (error_t \<times> 'x hdl) option" where
  "hdl_addItem mem itm mode s =
     (case mem of
        None \<Rightarrow> Some (ERROR_MEMORY_NOMEM, s)
      | Some (a, junk) \<Rightarrow>
          let node = junk\<lparr>n_item := itm\<rparr> in
          if mode = PTRDBLLIST_ADD_HEAD then do {
            k \<leftarrow> lock_acquire (l_lock s);
            let node = node\<lparr>n_prev := None, n_next := l_head s\<rparr>;
            h \<leftarrow> (if l_head s \<noteq> None
                   then store_upd (l_store s) (l_head s) (\<lambda>n. n\<lparr>n_prev := Some a\<rparr>)
                   else Some (l_store s));
            let t = (if l_head s \<noteq> None then l_tail s else Some a);
            Some (ERROR_SUCCESS,
              s\<lparr>l_store := h(a \<mapsto> node), l_head := Some a, l_tail := t,
                l_nItems := l_nItems s + 1, l_lock := lock_release\<rparr>)
          }
          else if mode = PTRDBLLIST_ADD_TAIL then do {
            k \<leftarrow> lock_acquire (l_lock s);
            let node = node\<lparr>n_next := None, n_prev := l_tail s\<rparr>;
            h \<leftarrow> (if l_tail s \<noteq> None
                   then store_upd (l_store s) (l_tail s) (\<lambda>n. n\<lparr>n_next := Some a\<rparr>)
                   else Some (l_store s));
            let x = (if l_tail s \<noteq> None then l_head s else Some a);
            Some (ERROR_SUCCESS,
              s\<lparr>l_store := h(a \<mapsto> node), l_head := x, l_tail := Some a,
                l_nItems := l_nItems s + 1, l_lock := lock_release\<rparr>)
          }
          else Some (ERROR_INVALID_ARG, s\<lparr>l_store := (l_store s)(a \<mapsto> node)\<rparr>))"

text \<open>The loop of \<open>removeItem\<close>: the first node that holds the item is unlinked and freed.
  The fuel bounds the walk; an unbounded chain would never be left.\<close>

definition hdl_unlink :: "addr \<Rightarrow> 'x lnode_scheme \<Rightarrow> 'x hdl \<Rightarrow> 'x hdl option" where
  "hdl_unlink a n s = do {
     s1 \<leftarrow> (if l_head s = Some a then do {
              let s' = s\<lparr>l_head := n_next n\<rparr>;
              if n_next n \<noteq> None then do {
                h \<leftarrow> store_upd (l_store s') (n_next n) (\<lambda>m. m\<lparr>n_prev := None\<rparr>);
                Some (s'\<lparr>l_store := h\<rparr>)
              } else Some s'
            }
            else do {
              h \<leftarrow> store_upd (l_store s) (n_prev n) (\<lambda>m. m\<lparr>n_next := n_next n\<rparr>);
              Some (s\<lparr>l_store := h\<rparr>)
            });
     s2 \<leftarrow> (if l_tail s1 = Some a then do {
              let s' = s1\<lparr>l_tail := n_prev n\<rparr>;
              if n_prev n \<noteq> None then do {
                h \<leftarrow> store_upd (l_store s') (n_prev n) (\<lambda>m. m\<lparr>n_next := None\<rparr>);
                Some (s'\<lparr>l_store := h\<rparr>)
              } else Some s'
            }
            else do {
              h \<leftarrow> store_upd (l_store s1) (n_next n) (\<lambda>m. m\<lparr>n_prev := n_prev n\<rparr>);
              Some (s1\<lparr>l_store := h\<rparr>)
            });
     Some (s2\<lparr>l_nItems := l_nItems s2 - 1, l_lock := lock_release,
              l_store := (l_store s2)(a := None)\<rparr>)
   }"

fun hdl_removeLoop :: "nat \<Rightarrow> ptr \<Rightarrow> ptr \<Rightarrow> 'x hdl \<Rightarrow> 'x hdl option" where
  "hdl_removeLoop fuel None itm s = Some (s\<lparr>l_lock := lock_release\<rparr>)"
| "hdl_removeLoop 0 (Some a) itm s = None"
| "hdl_removeLoop (Suc fuel) (Some a) itm s = do {
     n \<leftarrow> l_store s a;
     if n_item n = itm then hdl_unlink a n s
     else hdl_removeLoop fuel (n_next n) itm s
   }"

definition hdl_removeItem :: "ptr \<Rightarrow> 'x hdl \<Rightarrow> 'x hdl option" where
  "hdl_removeItem itm s = do {
     k \<leftarrow> lock_acquire (l_lock s);
     hdl_removeLoop (unat (l_nItems s)) (l_head s) itm (s\<lparr>l_lock := k\<rparr>)
   }"

definition hdl_popFromHead :: "'x hdl \<Rightarrow> (ptr \<times> 'x hdl) option" where
  "hdl_popFromHead s = do {
     k \<leftarrow> lock_acquire (l_lock s);
     let s = (if l_tail s = l_head s then s\<lparr>l_tail := None\<rparr> else s);
     case l_head s of
       None \<Rightarrow> Some (None, s\<lparr>l_lock := lock_release\<rparr>)
     | Some a \<Rightarrow> do {
         n \<leftarrow> l_store s a;
         h \<leftarrow> (if n_next n \<noteq> None
                then store_upd (l_store s) (n_next n) (\<lambda>m. m\<lparr>n_prev := None\<rparr>)
                else Some (l_store s));
         Some (n_item n,
           s\<lparr>l_store := h(a := None), l_head := n_next n,
             l_nItems := l_nItems s - 1, l_lock := lock_release\<rparr>)
       }
   }"

definition hdl_popFromTail :: "'x hdl \<Rightarrow> (ptr \<times> 'x hdl) option" where
  "hdl_popFromTail s = do {
     k \<leftarrow> lock_acquire (l_lock s);
     let s = (if l_head s = l_tail s then s\<lparr>l_head := None\<rparr> else s);
     case l_tail s of
       None \<Rightarrow> Some (None, s\<lparr>l_lock := lock_release\<rparr>)
     | Some a \<Rightarrow> do {
         n \<leftarrow> l_store s a;
         h \<leftarrow> (if n_prev n \<noteq> None
                then store_upd (l_store s) (n_prev n) (\<lambda>m. m\<lparr>n_next := None\<rparr>)
                else Some (l_store s));
         Some (n_item n,
           s\<lparr>l_store := h(a := None), l_tail := n_prev n,
             l_nItems := l_nItems s - 1, l_lock := lock_release\<rparr>)
       }
   }"

definition hdl_getHead :: "'x hdl \<Rightarrow> (ptr \<times> 'x hdl) option" where
  "hdl_getHead s = do {
     k \<leftarrow> lock_acquire (l_lock s);
     ret \<leftarrow> (case l_head s of None \<Rightarrow> Some None
              | Some a \<Rightarrow> map_option n_item (l_store s a));
     Some (ret, s\<lparr>l_lock := lock_release\<rparr>)
   }"

definition hdl_getTail :: "'x hdl \<Rightarrow> (ptr \<times> 'x hdl) option" where
  "hdl_getTail s = do {
     k \<leftarrow> lock_acquire (l_lock s);
     ret \<leftarrow> (case l_tail s of None \<Rightarrow> Some None
              | Some a \<Rightarrow> map_option n_item (l_store s a));
     Some (ret, s\<lparr>l_lock := lock_release\<rparr>)
   }"

section \<open>Invariant and abstraction\<close>

definition hdl_nodes :: "'x hdl \<Rightarrow> addr list" where
  "hdl_nodes s = walk (unat (l_nItems s)) (l_store s) (l_head s)"

definition items_of :: "('x lnode_scheme) store \<Rightarrow> addr list \<Rightarrow> ptr list" where
  "items_of h as = map (\<lambda>a. case h a of None \<Rightarrow> None | Some n \<Rightarrow> n_item n) as"

definition hdl_items :: "'x hdl \<Rightarrow> ptr list" where
  "hdl_items s = items_of (l_store s) (hdl_nodes s)"

definition hdl_rep :: "'x hdl \<Rightarrow> addr list \<Rightarrow> bool" where
  "hdl_rep s as \<longleftrightarrow> \<not> l_lock s \<and> length as = unat (l_nItems s) \<and>
     dlist (l_store s) (l_head s) (l_tail s) as"

definition hdl_inv :: "'x hdl \<Rightarrow> bool" where
  "hdl_inv s \<longleftrightarrow> hdl_rep s (hdl_nodes s)"

lemma hdl_rep_nodes: "hdl_rep s as \<Longrightarrow> hdl_nodes s = as"
  unfolding hdl_nodes_def hdl_rep_def by (metis dlist_walk)

lemma hdl_repD:
  "hdl_rep s as \<Longrightarrow> hdl_inv s \<and> hdl_items s = items_of (l_store s) as"
  by (simp add: hdl_inv_def hdl_items_def hdl_rep_nodes)

lemma hdl_invE:
  assumes "hdl_inv s"
  obtains as where "hdl_rep s as" "hdl_items s = items_of (l_store s) as"
    "dlist (l_store s) (l_head s) (l_tail s) as"
    "\<not> l_lock s" "length as = unat (l_nItems s)"
  using assms by (auto simp: hdl_inv_def hdl_rep_def hdl_items_def)

lemma items_of_append [simp]: "items_of h (as @ bs) = items_of h as @ items_of h bs"
  by (simp add: items_of_def)

lemma items_of_simps [simp]:
  "items_of h [] = []"
  "items_of h (a # as) = (case h a of None \<Rightarrow> None | Some n \<Rightarrow> n_item n) # items_of h as"
  by (simp_all add: items_of_def)

lemma items_of_frame [simp]: "a \<notin> set as \<Longrightarrow> items_of (h(a := v)) as = items_of h as"
  by (induction as) auto

lemma items_of_upd:
  "h b = Some n \<Longrightarrow> n_item n' = n_item n \<Longrightarrow> items_of (h(b \<mapsto> n')) as = items_of h as"
  by (auto simp: items_of_def)

lemma hdl_init_inv: "hdl_inv hdl_init" "hdl_items hdl_init = []"
  by (simp_all add: hdl_init_def hdl_inv_def hdl_rep_def hdl_nodes_def hdl_items_def)

section \<open>Correctness of the operations\<close>

lemma fresh_notin: "dlist h x t as \<Longrightarrow> h a = None \<Longrightarrow> a \<notin> set as"
  by (auto dest: dlist_alloc)

lemma hdl_addItem_tail:
  assumes inv: "hdl_inv s" and fresh: "l_store s a = None" and room: "unat (l_nItems s) + 1 < 2 ^ 32"
  shows "\<exists>s'. hdl_addItem (Some (a, junk)) itm PTRDBLLIST_ADD_TAIL s = Some (ERROR_SUCCESS, s') \<and>
           hdl_inv s' \<and> hdl_items s' = hdl_items s @ [itm]"
proof -
  from inv obtain as where as: "hdl_items s = items_of (l_store s) as"
    "dlist (l_store s) (l_head s) (l_tail s) as" "\<not> l_lock s" "length as = unat (l_nItems s)"
    by (rule hdl_invE)
  let ?n = "junk\<lparr>n_item := itm, n_next := None, n_prev := l_tail s\<rparr>"
  have a: "a \<notin> set as" using as(2) fresh by (rule fresh_notin)
  show ?thesis
  proof (cases "l_tail s")
    case None
    with as have "as = []" "l_head s = None" by (auto dest: dlist_tail_NoneD)
    let ?s = "s\<lparr>l_store := (l_store s)(a \<mapsto> ?n), l_head := Some a, l_tail := Some a,
                l_nItems := l_nItems s + 1, l_lock := False\<rparr>"
    have "hdl_rep ?s [a]"
      using as \<open>as = []\<close> None by (simp add: hdl_rep_def dlist_def unat_word_ariths)
    from hdl_repD [OF this] None as \<open>as = []\<close> \<open>l_head s = None\<close> show ?thesis
      by (simp add: hdl_addItem_def)
  next
    case (Some b)
    with as obtain bs where bs: "as = bs @ [b]" by (auto dest: dlist_tail_SomeD)
    with as obtain m where m: "l_store s b = Some m" by (auto dest: dlist_alloc)
    have hd: "l_head s \<noteq> None" using dlist_ends [OF as(2)] bs by simp
    let ?h = "(l_store s)(b \<mapsto> m\<lparr>n_next := Some a\<rparr>, a \<mapsto> ?n)"
    let ?s = "s\<lparr>l_store := ?h, l_head := l_head s, l_tail := Some a,
                l_nItems := l_nItems s + 1, l_lock := False\<rparr>"
    have "dlist ?h (l_head s) (Some a) (as @ [a])"
      using dlist_push_back [OF as(2) a refl, of ?n] hd Some m by simp
    then have "hdl_rep ?s (as @ [a])"
      using as room by (simp add: hdl_rep_def unat_word_ariths)
    moreover have "items_of ?h as = items_of (l_store s) as"
      using a m by (simp add: items_of_upd)
    ultimately show ?thesis using hdl_repD [of ?s] Some m as
      by (fastforce simp: hdl_addItem_def)
  qed
qed

lemma hdl_addItem_head:
  assumes inv: "hdl_inv s" and fresh: "l_store s a = None" and room: "unat (l_nItems s) + 1 < 2 ^ 32"
  shows "\<exists>s'. hdl_addItem (Some (a, junk)) itm PTRDBLLIST_ADD_HEAD s = Some (ERROR_SUCCESS, s') \<and>
           hdl_inv s' \<and> hdl_items s' = itm # hdl_items s"
proof -
  from inv obtain as where as: "hdl_items s = items_of (l_store s) as"
    "dlist (l_store s) (l_head s) (l_tail s) as" "\<not> l_lock s" "length as = unat (l_nItems s)"
    by (rule hdl_invE)
  let ?n = "junk\<lparr>n_item := itm, n_prev := None, n_next := l_head s\<rparr>"
  have a: "a \<notin> set as" using as(2) fresh by (rule fresh_notin)
  show ?thesis
  proof (cases "l_head s")
    case None
    with as have "as = []" "l_tail s = None" by (auto dest: dlist_head_NoneD)
    let ?s = "s\<lparr>l_store := (l_store s)(a \<mapsto> ?n), l_head := Some a, l_tail := Some a,
                l_nItems := l_nItems s + 1, l_lock := False\<rparr>"
    have "hdl_rep ?s [a]"
      using as \<open>as = []\<close> None by (simp add: hdl_rep_def dlist_def unat_word_ariths)
    from hdl_repD [OF this] None as \<open>as = []\<close> show ?thesis
      by (simp add: hdl_addItem_def)
  next
    case (Some b)
    with as obtain bs where bs: "as = b # bs" by (auto dest: dlist_head_SomeD)
    with as obtain m where m: "l_store s b = Some m" by (auto dest: dlist_alloc)
    have tl: "l_tail s \<noteq> None" using dlist_ends [OF as(2)] bs by simp
    let ?h = "(l_store s)(b \<mapsto> m\<lparr>n_prev := Some a\<rparr>, a \<mapsto> ?n)"
    let ?s = "s\<lparr>l_store := ?h, l_head := Some a, l_tail := l_tail s,
                l_nItems := l_nItems s + 1, l_lock := False\<rparr>"
    have "dlist ?h (Some a) (l_tail s) (a # as)"
      using dlist_push_front [OF as(2) a refl, of ?n] tl Some m by simp
    then have "hdl_rep ?s (a # as)"
      using as room by (simp add: hdl_rep_def unat_word_ariths)
    moreover have "items_of ?h as = items_of (l_store s) as"
      using a m by (simp add: items_of_upd)
    ultimately show ?thesis using hdl_repD [of ?s] Some m as
      by (fastforce simp: hdl_addItem_def)
  qed
qed

lemma hdl_popFromHead_Nil:
  assumes "hdl_inv s" "hdl_items s = []"
  shows "hdl_popFromHead s = Some (None, s)"
proof -
  from assms(1) obtain as where as: "hdl_items s = items_of (l_store s) as"
    "dlist (l_store s) (l_head s) (l_tail s) as" "\<not> l_lock s"
    by (rule hdl_invE)
  with assms(2) have "as = []" by (simp add: items_of_def)
  with as show ?thesis by (simp add: hdl_popFromHead_def)
qed

lemma hdl_popFromHead_Cons:
  assumes "hdl_inv s" "hdl_items s = x # xs"
  shows "\<exists>s'. hdl_popFromHead s = Some (x, s') \<and> hdl_inv s' \<and> hdl_items s' = xs"
proof -
  from assms(1) obtain as where as: "hdl_items s = items_of (l_store s) as"
    "dlist (l_store s) (l_head s) (l_tail s) as" "\<not> l_lock s" "length as = unat (l_nItems s)"
    by (rule hdl_invE)
  with assms(2) obtain a bs where bs: "as = a # bs" by (cases as) auto
  with as obtain n where n: "l_head s = Some a" "l_store s a = Some n" by (auto simp: dlist_def split: option.splits)
  have a: "a \<notin> set bs" using as bs by (simp add: dlist_def)
  let ?h = "case n_next n of None \<Rightarrow> l_store s
      | Some b \<Rightarrow> (case l_store s b of None \<Rightarrow> l_store s
                  | Some m \<Rightarrow> (l_store s)(b \<mapsto> m\<lparr>n_prev := None\<rparr>))"
  have dl: "dlist ?h (n_next n) (if bs = [] then None else l_tail s) bs"
    by (rule dlist_unlink_first) (use as bs n in auto)
  let ?s = "s\<lparr>l_store := ?h(a := None), l_head := n_next n,
              l_tail := (if bs = [] then None else l_tail s),
              l_nItems := l_nItems s - 1, l_lock := False\<rparr>"
  have "hdl_rep ?s bs"
    using dlist_drop_node [OF dl a] as(4) bs by (simp add: hdl_rep_def unat_pred [of "length bs"])
  moreover have "items_of (?h(a := None)) bs = items_of (l_store s) bs"
    using a by (auto split: option.splits simp: items_of_upd)
  moreover have "hdl_popFromHead s = Some (n_item n, ?s)"
    using as bs n dlist_eq_iff_single [OF as(2)]
    by (cases bs) (auto simp: hdl_popFromHead_def dlist_def split: option.splits)
  ultimately show ?thesis using hdl_repD [of ?s bs] assms(2) as(1) bs n
    by fastforce
qed

lemma hdl_popFromTail_Nil:
  assumes "hdl_inv s" "hdl_items s = []"
  shows "hdl_popFromTail s = Some (None, s)"
proof -
  from assms(1) obtain as where as: "hdl_items s = items_of (l_store s) as"
    "dlist (l_store s) (l_head s) (l_tail s) as" "\<not> l_lock s"
    by (rule hdl_invE)
  with assms(2) have "as = []" by (simp add: items_of_def)
  with as show ?thesis by (simp add: hdl_popFromTail_def)
qed

lemma hdl_popFromTail_snoc:
  assumes "hdl_inv s" "hdl_items s = xs @ [x]"
  shows "\<exists>s'. hdl_popFromTail s = Some (x, s') \<and> hdl_inv s' \<and> hdl_items s' = xs"
proof -
  from assms(1) obtain as where as: "hdl_items s = items_of (l_store s) as"
    "dlist (l_store s) (l_head s) (l_tail s) as" "\<not> l_lock s" "length as = unat (l_nItems s)"
    by (rule hdl_invE)
  with assms(2) obtain a bs where bs: "as = bs @ [a]" by (cases as rule: rev_cases) auto
  with as obtain n where n: "l_tail s = Some a" "l_store s a = Some n"
    by (auto simp: dlist_def split: option.splits)
  have a: "a \<notin> set bs" using as bs by (simp add: dlist_def)
  let ?h = "case n_prev n of None \<Rightarrow> l_store s
      | Some b \<Rightarrow> (case l_store s b of None \<Rightarrow> l_store s
                  | Some m \<Rightarrow> (l_store s)(b \<mapsto> m\<lparr>n_next := None\<rparr>))"
  have dl: "dlist ?h (if bs = [] then None else l_head s) (n_prev n) bs"
    by (rule dlist_unlink_last) (use as bs n in auto)
  let ?s = "s\<lparr>l_store := ?h(a := None), l_tail := n_prev n,
              l_head := (if bs = [] then None else l_head s),
              l_nItems := l_nItems s - 1, l_lock := False\<rparr>"
  have "hdl_rep ?s bs"
    using dlist_drop_node [OF dl a] as(4) bs
    by (simp add: hdl_rep_def unat_pred [of "length bs"])
  moreover have "items_of (?h(a := None)) bs = items_of (l_store s) bs"
    using a by (auto split: option.splits simp: items_of_upd)
  moreover have "hdl_popFromTail s = Some (n_item n, ?s)"
    using as bs n dlist_eq_iff_single [OF as(2)]
    by (cases bs rule: rev_cases) (auto simp: hdl_popFromTail_def dlist_def split: option.splits)
  ultimately show ?thesis using hdl_repD [of ?s bs] assms(2) as(1) bs n
    by fastforce
qed

lemma hdl_getHead_items:
  assumes "hdl_inv s"
  shows "hdl_getHead s = Some (if hdl_items s = [] then None else hd (hdl_items s), s)"
proof -
  from assms obtain as where as: "hdl_items s = items_of (l_store s) as"
    "dlist (l_store s) (l_head s) (l_tail s) as" "\<not> l_lock s"
    by (rule hdl_invE)
  then show ?thesis
    by (cases as) (auto simp: hdl_getHead_def dlist_def split: option.splits)
qed

lemma hdl_getTail_items:
  assumes "hdl_inv s"
  shows "hdl_getTail s = Some (if hdl_items s = [] then None else last (hdl_items s), s)"
proof -
  from assms obtain as where as: "hdl_items s = items_of (l_store s) as"
    "dlist (l_store s) (l_head s) (l_tail s) as" "\<not> l_lock s"
    by (rule hdl_invE)
  then show ?thesis
    by (cases as rule: rev_cases) (auto simp: hdl_getTail_def dlist_def split: option.splits)
qed

lemma hdl_getNItems_items:
  assumes "hdl_inv s"
  shows "\<exists>n. hdl_getNItems s = Some (n, s) \<and> unat n = length (hdl_items s)"
proof -
  from assms obtain as where "hdl_items s = items_of (l_store s) as" "\<not> l_lock s"
    "length as = unat (l_nItems s)"
    by (rule hdl_invE)
  then show ?thesis by (simp add: hdl_getNItems_def items_of_def)
qed

lemma hdl_unlink_rep:
  assumes rep: "hdl_rep (s\<lparr>l_lock := False\<rparr>) (bs @ a # cs)" and n: "l_store s a = Some n"
  shows "\<exists>s'. hdl_unlink a n s = Some s' \<and> hdl_rep s' (bs @ cs) \<and>
           items_of (l_store s') (bs @ cs) = items_of (l_store s) (bs @ cs)"
proof -
  from rep have dl: "dlist (l_store s) (l_head s) (l_tail s) (bs @ a # cs)"
    and len: "unat (l_nItems s - 1) = length (bs @ cs)"
    by (auto simp: hdl_rep_def unat_pred)
  then have a: "a \<notin> set (bs @ cs)" by (simp add: dlist_def)
  note ends = dlist_ends [OF dl]
  show ?thesis
  proof (cases bs rule: rev_cases)
    case Nil
    note bs = Nil
    show ?thesis
    proof (cases cs)
      case Nil
      with bs dl len n show ?thesis
        by (auto simp: hdl_unlink_def hdl_rep_def dlist_def)
    next
      case (Cons c cs')
      with bs dl n obtain m where m: "n_next n = Some c" "l_store s c = Some m" "n_prev n = None"
        by (auto simp: dlist_def split: option.splits)
      have "dlist ((l_store s)(c \<mapsto> m\<lparr>n_prev := None\<rparr>)) (Some c) (l_tail s) cs"
        using dlist_unlink_first [of "l_store s" "l_head s" "l_tail s" a cs n] dl n bs m Cons by simp
      from dlist_drop_node [OF this, of a None] show ?thesis
        using a bs Cons m len ends by (auto simp: hdl_unlink_def hdl_rep_def items_of_upd dlist_def)
    qed
  next
    case (snoc bs' b)
    with dl n obtain mb where mb: "n_prev n = Some b" "l_store s b = Some mb"
      by (auto simp: dlist_def split: option.splits)
    have hda: "l_head s \<noteq> Some a" using ends(1) snoc a by (cases bs') auto
    show ?thesis
    proof (cases cs)
      case Nil
      have "n_next n = None" using dl n Nil by (auto simp: dlist_def)
      have "dlist ((l_store s)(b \<mapsto> mb\<lparr>n_next := None\<rparr>)) (l_head s) (Some b) bs"
        using dlist_unlink_last [of "l_store s" "l_head s" "l_tail s" bs a n] dl n snoc mb Nil by simp
      from dlist_drop_node [OF this, of a None] show ?thesis
        using a snoc Nil mb len ends hda \<open>n_next n = None\<close>
        by (auto simp: hdl_unlink_def hdl_rep_def items_of_upd)
    next
      case (Cons c cs')
      with dl n obtain mc where mc: "n_next n = Some c" "l_store s c = Some mc"
        by (auto simp: dlist_def split: option.splits)
      have "b \<noteq> c" using dl snoc Cons by (auto simp: dlist_def)
      have tla: "l_tail s \<noteq> Some a" using ends(2) Cons a by auto
      have "dlist ((l_store s)(b \<mapsto> mb\<lparr>n_next := Some c\<rparr>, c \<mapsto> mc\<lparr>n_prev := Some b\<rparr>))
              (l_head s) (l_tail s) (bs @ cs)"
        using dlist_unlink_mid [of "l_store s" "l_head s" "l_tail s" bs' b a c cs' mb mc]
          dl snoc Cons mb mc by simp
      from dlist_drop_node [OF this, of a None] show ?thesis
        using a snoc Cons mb mc len hda tla \<open>b \<noteq> c\<close>
        by (auto simp: hdl_unlink_def hdl_rep_def items_of_upd)
    qed
  qed
qed

lemma hdl_removeLoop_rep:
  assumes "hdl_rep (s\<lparr>l_lock := False\<rparr>) (bs @ cs)" "dseg (l_store s) p x cs None t"
    and "itm \<notin> set (items_of (l_store s) bs)" "length cs \<le> fuel"
  shows "\<exists>s'. hdl_removeLoop fuel x itm s = Some s' \<and> hdl_inv s' \<and>
           hdl_items s' = remove1 itm (items_of (l_store s) (bs @ cs))"
  using assms
proof (induction cs arbitrary: bs p x fuel)
  case Nil
  then have "x = None" by simp
  with hdl_repD [OF Nil.prems(1)] Nil.prems(3) show ?case
    by (cases fuel) (simp_all add: remove1_idem)
next
  case (Cons a cs)
  then obtain f where f: "fuel = Suc f" by (cases fuel) auto
  from Cons.prems(2) obtain n where n: "x = Some a" "l_store s a = Some n"
    "dseg (l_store s) (Some a) (n_next n) cs None t" by (auto split: option.splits)
  show ?case
  proof (cases "n_item n = itm")
    case True
    obtain s' where s': "hdl_unlink a n s = Some s'" "hdl_rep s' (bs @ cs)"
      "items_of (l_store s') (bs @ cs) = items_of (l_store s) (bs @ cs)"
      using hdl_unlink_rep [OF Cons.prems(1) n(2)] by blast
    with hdl_repD [OF s'(2)] True n f Cons.prems(3) show ?thesis
      by (simp add: remove1_append)
  next
    case False
    have "\<exists>s'. hdl_removeLoop f (n_next n) itm s = Some s' \<and> hdl_inv s' \<and>
           hdl_items s' = remove1 itm (items_of (l_store s) ((bs @ [a]) @ cs))"
      by (rule Cons.IH [OF _ n(3)]) (use Cons.prems False n f in auto)
    with False n f show ?thesis by simp
  qed
qed

lemma hdl_removeItem_items:
  assumes "hdl_inv s"
  shows "\<exists>s'. hdl_removeItem itm s = Some s' \<and> hdl_inv s' \<and>
           hdl_items s' = remove1 itm (hdl_items s)"
proof -
  from assms obtain as where as: "hdl_rep s as" "hdl_items s = items_of (l_store s) as"
    "dlist (l_store s) (l_head s) (l_tail s) as" "\<not> l_lock s" "length as = unat (l_nItems s)"
    by (rule hdl_invE)
  have "\<exists>s'. hdl_removeLoop (unat (l_nItems s)) (l_head s) itm (s\<lparr>l_lock := True\<rparr>) = Some s' \<and>
      hdl_inv s' \<and> hdl_items s' = remove1 itm (items_of (l_store (s\<lparr>l_lock := True\<rparr>)) ([] @ as))"
    by (rule hdl_removeLoop_rep [of _ _ _ None _ "l_tail s"])
       (use as in \<open>auto simp: dlist_def hdl_rep_def\<close>)
  with as show ?thesis by (simp add: hdl_removeItem_def)
qed

section \<open>The contract as an interface\<close>

text \<open>What the clients of a list rely on: a queue that is extended at the back and consumed at
  the front.  \<open>SingleWaiterQueue\<close>, the message streams and the timer queues are such clients.
  \<open>ok s a\<close> says that the allocator's answer \<open>a\<close> can be used in state \<open>s\<close>.\<close>

locale fifo =
  fixes inv :: "'s \<Rightarrow> bool" and items :: "'s \<Rightarrow> 'i list" and none :: 'i
    and ok :: "'s \<Rightarrow> 'm \<Rightarrow> bool"
    and put :: "'m \<Rightarrow> 'i \<Rightarrow> 's \<Rightarrow> (error_t \<times> 's) option"
    and take_first :: "'s \<Rightarrow> ('i \<times> 's) option"
  assumes put_ok: "inv s \<Longrightarrow> ok s m \<Longrightarrow>
      \<exists>s'. put m x s = Some (ERROR_SUCCESS, s') \<and> inv s' \<and> items s' = items s @ [x]"
    and take_Nil: "inv s \<Longrightarrow> items s = [] \<Longrightarrow> take_first s = Some (none, s)"
    and take_Cons: "inv s \<Longrightarrow> items s = x # xs \<Longrightarrow>
      \<exists>s'. take_first s = Some (x, s') \<and> inv s' \<and> items s' = xs"
begin

text \<open>Draining \<open>n\<close> items yields the first \<open>n\<close> items in order.\<close>

fun drain :: "nat \<Rightarrow> 's \<Rightarrow> ('i list \<times> 's) option" where
  "drain 0 s = Some ([], s)"
| "drain (Suc n) s = do { (x, s1) \<leftarrow> take_first s; (xs, s2) \<leftarrow> drain n s1; Some (x # xs, s2) }"

lemma drain_items:
  "inv s \<Longrightarrow> n \<le> length (items s) \<Longrightarrow>
   \<exists>s'. drain n s = Some (take n (items s), s') \<and> inv s' \<and> items s' = drop n (items s)"
proof (induction n arbitrary: s)
  case 0
  then show ?case by simp
next
  case (Suc n)
  then obtain x xs where x: "items s = x # xs" by (cases "items s") auto
  with Suc.prems take_Cons obtain s1 where s1: "take_first s = Some (x, s1)" "inv s1" "items s1 = xs"
    by blast
  with Suc.prems x Suc.IH [of s1] show ?case by auto
qed

lemma put_then_drain:
  assumes "inv s" "ok s m"
  shows "\<exists>s1 s2. put m x s = Some (ERROR_SUCCESS, s1) \<and>
           drain (Suc (length (items s))) s1 = Some (items s @ [x], s2) \<and> items s2 = []"
proof -
  from put_ok [OF assms] obtain s1 where
    s1: "put m x s = Some (ERROR_SUCCESS, s1)" "inv s1" "items s1 = items s @ [x]" by blast
  with drain_items [of s1 "Suc (length (items s))"] show ?thesis by auto
qed

end

definition hdl_room :: "'x hdl \<Rightarrow> ('x lnode_scheme) mem \<Rightarrow> bool" where
  "hdl_room s m \<longleftrightarrow> unat (l_nItems s) + 1 < 2 ^ 32 \<and>
     (case m of None \<Rightarrow> False | Some (a, junk) \<Rightarrow> l_store s a = None)"

interpretation hdl: fifo hdl_inv hdl_items None hdl_room
  "\<lambda>m x s. hdl_addItem m x PTRDBLLIST_ADD_TAIL s" hdl_popFromHead
proof
  show "hdl_inv s \<Longrightarrow> hdl_room s m \<Longrightarrow>
      \<exists>s'. hdl_addItem m x PTRDBLLIST_ADD_TAIL s = Some (ERROR_SUCCESS, s') \<and>
        hdl_inv s' \<and> hdl_items s' = hdl_items s @ [x]" for s :: "'x hdl" and m x
    by (auto simp: hdl_room_def split: option.splits intro: hdl_addItem_tail)
qed (auto intro: hdl_popFromHead_Nil hdl_popFromHead_Cons)

text \<open>A list with two items, used to exercise the theorems below.\<close>

definition hdl_ex :: "unit hdl" where
  "hdl_ex = \<lparr>l_store = [1 \<mapsto> \<lparr>n_prev = None, n_next = Some 2, n_item = Some 10\<rparr>,
                2 \<mapsto> \<lparr>n_prev = Some 1, n_next = None, n_item = Some 20\<rparr>],
     l_head = Some 1, l_tail = Some 2, l_nItems = 2, l_lock = False\<rparr>"

lemma hdl_ex_inv: "hdl_inv hdl_ex" "hdl_items hdl_ex = [Some 10, Some 20]"
proof -
  have "hdl_rep hdl_ex [1, 2]" by (simp add: hdl_ex_def hdl_rep_def dlist_def)
  from hdl_repD [OF this] show "hdl_inv hdl_ex" "hdl_items hdl_ex = [Some 10, Some 20]"
    by (simp_all add: hdl_ex_def items_of_def)
qed

text \<open>C26: First in, first out: after an item is appended to a list, popping from the head until the
  list is empty returns the old items in order and then the new one.\<close>

theorem hdl_fifo_order:
  assumes "hdl_inv (s :: 'x hdl)" "hdl_room s m"
  shows "\<exists>s1 s2. hdl_addItem m x PTRDBLLIST_ADD_TAIL s = Some (ERROR_SUCCESS, s1) \<and>
     hdl.drain (Suc (length (hdl_items s))) s1 = Some (hdl_items s @ [x], s2) \<and> hdl_items s2 = []"
  by (rule hdl.put_then_drain [OF assms])

theorem hdl_fifo_order_witness:
  "\<exists>s1 s2. hdl_addItem (Some (3, \<lparr>n_prev = None, n_next = None, n_item = None\<rparr>)) (Some 30) PTRDBLLIST_ADD_TAIL hdl_ex = Some (ERROR_SUCCESS, s1) \<and>
     hdl.drain 3 s1 = Some ([Some 10, Some 20, Some 30], s2) \<and> hdl_items s2 = []"
proof -
  have "hdl_room hdl_ex (Some (3, \<lparr>n_prev = None, n_next = None, n_item = None\<rparr>))" by (simp add: hdl_room_def hdl_ex_def)
  from hdl_fifo_order [OF hdl_ex_inv(1) this, of "Some 30"] show ?thesis
    by (simp add: hdl_ex_inv(2) eval_nat_numeral)
qed

text \<open>\<open>removeItem\<close> unlinks the first node that holds the item and frees it; if the item is not in
  the list nothing changes.  The search terminates, the links of the remaining nodes stay
  consistent in both directions and the lock is released.\<close>

theorem hdl_removeItem_correct:
  assumes "hdl_inv (s :: 'x hdl)"
  shows "\<exists>s'. hdl_removeItem itm s = Some s' \<and> hdl_inv s' \<and>
     hdl_items s' = remove1 itm (hdl_items s)"
  by (rule hdl_removeItem_items [OF assms])

theorem hdl_removeItem_correct_witness:
  "\<exists>s'. hdl_removeItem (Some 10) hdl_ex = Some s' \<and> hdl_items s' = [Some 20]"
  using hdl_removeItem_correct [OF hdl_ex_inv(1), of "Some 10"] by (auto simp: hdl_ex_inv(2))

end
