(* ===== verification/SortedDList.thy ===== *)
theory SortedDList
  imports HeapDoubleList "HOL-Library.Multiset"
begin

text \<open>
  \<open>SortedHeapDoubleList<T, criterionType>\<close> (\<open>include/__kclasses/sortedHeapDoubleList.h\<close>), the
  list behind the timer queues.  Its nodes are those of \<open>HeapDoubleList\<close> plus a criterion, and
  its removal, pop and peek methods have the same bodies, so they are the operations of
  \<open>HeapDoubleList\<close> at the extended node type.  Only the insertion differs.
\<close>

record snode = lnode +
  n_criterion :: int

type_synonym sdl = "(unit snode_ext) hdl"

abbreviation SRT_PTRDBLLIST_ADD_ASCENDING :: u8 where "SRT_PTRDBLLIST_ADD_ASCENDING \<equiv> 0"
abbreviation SRT_PTRDBLLIST_ADD_DESCENDING :: u8 where "SRT_PTRDBLLIST_ADD_DESCENDING \<equiv> 1"

section \<open>Operations\<close>

definition sdl_getNItems :: "sdl \<Rightarrow> (u32 \<times> sdl) option" where
  "sdl_getNItems = hdl_getNItems"

definition sdl_removeItem :: "ptr \<Rightarrow> sdl \<Rightarrow> sdl option" where
  "sdl_removeItem = hdl_removeItem"

definition sdl_popFromHead :: "sdl \<Rightarrow> (ptr \<times> sdl) option" where
  "sdl_popFromHead = hdl_popFromHead"

definition sdl_popFromTail :: "sdl \<Rightarrow> (ptr \<times> sdl) option" where
  "sdl_popFromTail = hdl_popFromTail"

definition sdl_getHead :: "sdl \<Rightarrow> (ptr \<times> sdl) option" where
  "sdl_getHead = hdl_getHead"

definition sdl_getTail :: "sdl \<Rightarrow> (ptr \<times> sdl) option" where
  "sdl_getTail = hdl_getTail"

text \<open>The two link patterns of \<open>addItem\<close>: in front of the head and behind the tail.\<close>

definition sdl_link_front :: "addr \<Rightarrow> snode \<Rightarrow> sdl \<Rightarrow> (error_t \<times> sdl) option" where
  "sdl_link_front a node s = do {
     let node = node\<lparr>n_prev := None, n_next := l_head s\<rparr>;
     h \<leftarrow> store_upd (l_store s) (l_head s) (\<lambda>n. n\<lparr>n_prev := Some a\<rparr>);
     Some (ERROR_SUCCESS, s\<lparr>l_store := h(a \<mapsto> node), l_head := Some a,
             l_nItems := l_nItems s + 1, l_lock := lock_release\<rparr>)
   }"

definition sdl_link_back :: "addr \<Rightarrow> snode \<Rightarrow> sdl \<Rightarrow> (error_t \<times> sdl) option" where
  "sdl_link_back a node s = do {
     let node = node\<lparr>n_prev := l_tail s, n_next := None\<rparr>;
     h \<leftarrow> store_upd (l_store s) (l_tail s) (\<lambda>n. n\<lparr>n_next := Some a\<rparr>);
     Some (ERROR_SUCCESS, s\<lparr>l_store := h(a \<mapsto> node), l_tail := Some a,
             l_nItems := l_nItems s + 1, l_lock := lock_release\<rparr>)
   }"

text \<open>The search loop for a position in the middle; falling off the end returns without
  releasing the lock.\<close>

fun sdl_insertLoop :: "nat \<Rightarrow> ptr \<Rightarrow> addr \<Rightarrow> snode \<Rightarrow> sdl \<Rightarrow> (error_t \<times> sdl) option" where
  "sdl_insertLoop fuel None a node s = Some (ERROR_UNKNOWN, s\<lparr>l_store := (l_store s)(a \<mapsto> node)\<rparr>)"
| "sdl_insertLoop 0 (Some c) a node s = None"
| "sdl_insertLoop (Suc fuel) (Some c) a node s = do {
     n \<leftarrow> l_store s c;
     if n_criterion node \<ge> n_criterion n then do {
       let node = node\<lparr>n_prev := Some c, n_next := n_next n\<rparr>;
       h1 \<leftarrow> store_upd (l_store s) (n_next n) (\<lambda>m. m\<lparr>n_prev := Some a\<rparr>);
       h2 \<leftarrow> store_upd h1 (Some c) (\<lambda>m. m\<lparr>n_next := Some a\<rparr>);
       Some (ERROR_SUCCESS, s\<lparr>l_store := h2(a \<mapsto> node), l_nItems := l_nItems s + 1,
               l_lock := lock_release\<rparr>)
     }
     else sdl_insertLoop fuel (n_next n) a node s
   }"

definition sdl_addItem :: "snode mem \<Rightarrow> ptr \<Rightarrow> int \<Rightarrow> u8 \<Rightarrow> sdl \<Rightarrow> (error_t \<times> sdl) option" where
  "sdl_addItem mem itm criterion mode s =
     (if mode = SRT_PTRDBLLIST_ADD_DESCENDING then Some (ERROR_UNIMPLEMENTED, s)
      else case mem of
        None \<Rightarrow> Some (ERROR_MEMORY_NOMEM, s)
      | Some (a, junk) \<Rightarrow> do {
          let node = junk\<lparr>n_item := itm, n_criterion := criterion\<rparr>;
          k \<leftarrow> lock_acquire (l_lock s);
          let s = s\<lparr>l_lock := k\<rparr>;
          case l_head s of
            None \<Rightarrow> Some (ERROR_SUCCESS,
              s\<lparr>l_store := (l_store s)(a \<mapsto> node\<lparr>n_prev := None, n_next := None\<rparr>),
                l_head := Some a, l_tail := Some a, l_nItems := l_nItems s + 1,
                l_lock := lock_release\<rparr>)
          | Some hp \<Rightarrow> do {
              nh \<leftarrow> l_store s hp;
              if l_head s = l_tail s then
                (if n_criterion node \<ge> n_criterion nh then sdl_link_back a node s
                 else sdl_link_front a node s)
              else if n_criterion nh > n_criterion node then sdl_link_front a node s
              else do {
                nt \<leftarrow> deref (l_store s) (l_tail s);
                if n_criterion nt \<le> n_criterion node then sdl_link_back a node s
                else sdl_insertLoop (unat (l_nItems s)) (l_head s) a node s
              }
            }
        })"

section \<open>Abstraction\<close>

definition entries_of :: "snode store \<Rightarrow> addr list \<Rightarrow> (int \<times> ptr) list" where
  "entries_of h as = map (\<lambda>a. case h a of None \<Rightarrow> (0, None) | Some n \<Rightarrow> (n_criterion n, n_item n)) as"

definition sdl_entries :: "sdl \<Rightarrow> (int \<times> ptr) list" where
  "sdl_entries s = entries_of (l_store s) (hdl_nodes s)"

abbreviation sorted_entries :: "(int \<times> ptr) list \<Rightarrow> bool" where
  "sorted_entries es \<equiv> sorted (map fst es)"

text \<open>What the insertion does to the abstract list.\<close>

fun sdl_insert_abs :: "int \<times> ptr \<Rightarrow> (int \<times> ptr) list \<Rightarrow> (int \<times> ptr) list" where
  "sdl_insert_abs e [] = [e]"
| "sdl_insert_abs e (x # xs) =
     (if fst e < fst x then e # x # xs
      else if fst (last (x # xs)) \<le> fst e then (x # xs) @ [e]
      else x # e # xs)"

lemma entries_of_simps [simp]:
  "entries_of h [] = []"
  "entries_of h (a # as) =
     (case h a of None \<Rightarrow> (0, None) | Some n \<Rightarrow> (n_criterion n, n_item n)) # entries_of h as"
  "entries_of h (as @ bs) = entries_of h as @ entries_of h bs"
  by (simp_all add: entries_of_def)

lemma entries_of_frame [simp]: "a \<notin> set as \<Longrightarrow> entries_of (h(a := v)) as = entries_of h as"
  by (induction as) auto

lemma entries_of_upd:
  "h b = Some n \<Longrightarrow> n_item n' = n_item n \<Longrightarrow> n_criterion n' = n_criterion n \<Longrightarrow>
   entries_of (h(b \<mapsto> n')) as = entries_of h as"
  by (auto simp: entries_of_def)

lemma entries_items: "items_of h as = map snd (entries_of h as)"
  by (auto simp: items_of_def entries_of_def split: option.splits)

lemma sdl_items: "hdl_items s = map snd (sdl_entries s)"
  by (simp add: hdl_items_def sdl_entries_def entries_items)

lemma mset_sdl_insert_abs: "mset (sdl_insert_abs e es) = add_mset e (mset es)"
  by (cases es) auto

lemma sorted_entries_le_last: "sorted_entries es \<Longrightarrow> x \<in> set es \<Longrightarrow> fst x \<le> fst (last es)"
  by (induction es rule: rev_induct) (auto simp: sorted_append)

lemma sdl_insert_abs_sorted_iff:
  assumes "sorted_entries es"
  shows "sorted_entries (sdl_insert_abs e es) \<longleftrightarrow>
     es = [] \<or> fst e < fst (hd es) \<or> fst (last es) \<le> fst e \<or> fst e \<le> fst (es ! 1)"
proof (cases es)
  case (Cons x xs)
  note es = Cons
  show ?thesis
  proof (cases "fst (last es) \<le> fst e")
    case True
    then have "\<forall>z \<in> set es. fst z \<le> fst e"
      using sorted_entries_le_last [OF assms] by force
    with es True assms show ?thesis by (auto simp: sorted_append)
  next
    case False
    with es assms show ?thesis by (cases xs) auto
  qed
qed simp

lemma sdl_repD:
  "hdl_rep s as \<Longrightarrow> hdl_inv s \<and> sdl_entries s = entries_of (l_store s) as"
  using hdl_repD [of s as] by (simp add: sdl_entries_def hdl_rep_nodes)

section \<open>Functional correctness of the insertion\<close>

lemma sdl_link_front_rep:
  assumes "dlist (l_store s) (l_head s) (l_tail s) as" "length as = unat (l_nItems s)" "as \<noteq> []"
    and "l_store s a = None" "unat (l_nItems s) + 1 < 2 ^ 32"
  shows "\<exists>s'. sdl_link_front a node s = Some (ERROR_SUCCESS, s') \<and> hdl_inv s' \<and>
     sdl_entries s' = (n_criterion node, n_item node) # entries_of (l_store s) as"
proof -
  obtain b bs where bs: "as = b # bs" using assms(3) by (cases as) auto
  with assms obtain m where m: "l_head s = Some b" "l_store s b = Some m"
    by (auto simp: dlist_def split: option.splits)
  have a: "a \<notin> set as" using assms by (auto dest: dlist_alloc)
  have tl: "l_tail s \<noteq> None" using dlist_ends(2) [OF assms(1)] bs by simp
  let ?n = "node\<lparr>n_prev := None, n_next := l_head s\<rparr>"
  let ?h = "(l_store s)(b \<mapsto> m\<lparr>n_prev := Some a\<rparr>, a \<mapsto> ?n)"
  let ?s = "s\<lparr>l_store := ?h, l_head := Some a, l_nItems := l_nItems s + 1, l_lock := False\<rparr>"
  have "dlist ?h (Some a) (l_tail s) (a # as)"
    using dlist_push_front [OF assms(1) a refl, of ?n] tl m by simp
  then have "hdl_rep ?s (a # as)" using assms by (simp add: hdl_rep_def unat_word_ariths)
  from sdl_repD [OF this] show ?thesis using a m
    by (auto simp: sdl_link_front_def entries_of_upd)
qed

lemma sdl_link_back_rep:
  assumes "dlist (l_store s) (l_head s) (l_tail s) as" "length as = unat (l_nItems s)" "as \<noteq> []"
    and "l_store s a = None" "unat (l_nItems s) + 1 < 2 ^ 32"
  shows "\<exists>s'. sdl_link_back a node s = Some (ERROR_SUCCESS, s') \<and> hdl_inv s' \<and>
     sdl_entries s' = entries_of (l_store s) as @ [(n_criterion node, n_item node)]"
proof -
  obtain b bs where bs: "as = bs @ [b]" using assms(3) by (cases as rule: rev_cases) auto
  with assms obtain m where m: "l_tail s = Some b" "l_store s b = Some m"
    by (auto simp: dlist_def split: option.splits)
  have a: "a \<notin> set as" using assms by (auto dest: dlist_alloc)
  have hd: "l_head s \<noteq> None" using dlist_ends(1) [OF assms(1)] bs by simp
  let ?n = "node\<lparr>n_prev := l_tail s, n_next := None\<rparr>"
  let ?h = "(l_store s)(b \<mapsto> m\<lparr>n_next := Some a\<rparr>, a \<mapsto> ?n)"
  let ?s = "s\<lparr>l_store := ?h, l_tail := Some a, l_nItems := l_nItems s + 1, l_lock := False\<rparr>"
  have "dlist ?h (l_head s) (Some a) (as @ [a])"
    using dlist_push_back [OF assms(1) a refl, of ?n] hd m by simp
  then have "hdl_rep ?s (as @ [a])" using assms by (simp add: hdl_rep_def unat_word_ariths)
  from sdl_repD [OF this] show ?thesis using a m
    by (auto simp: sdl_link_back_def entries_of_upd)
qed

text \<open>The search loop starts at the head, whose criterion is not greater than the new one,
  so it always stops there: the new node becomes the second node of the list.\<close>

lemma sdl_insertLoop_rep:
  assumes "dlist (l_store s) (l_head s) (l_tail s) (b # c # cs)"
    and "length (b # c # cs) = unat (l_nItems s)"
    and "l_store s b = Some nb" "n_criterion nb \<le> n_criterion node"
    and "l_store s a = None" "unat (l_nItems s) + 1 < 2 ^ 32"
  shows "\<exists>s'. sdl_insertLoop (unat (l_nItems s)) (l_head s) a node s = Some (ERROR_SUCCESS, s') \<and>
     hdl_inv s' \<and>
     sdl_entries s' = (n_criterion nb, n_item nb) # (n_criterion node, n_item node) #
       entries_of (l_store s) (c # cs)"
proof -
  from assms obtain nc where nc: "l_head s = Some b" "n_next nb = Some c" "l_store s c = Some nc"
    by (auto simp: dlist_def split: option.splits)
  have a: "a \<notin> set ([] @ b # c # cs)" using assms(1,5) by (auto dest: dlist_alloc)
  have "b \<noteq> c" "b \<notin> set cs" "c \<notin> set cs" using assms(1) by (auto simp: dlist_def)
  let ?n = "node\<lparr>n_prev := Some b, n_next := n_next nb\<rparr>"
  let ?h = "(l_store s)(c \<mapsto> nc\<lparr>n_prev := Some a\<rparr>, b \<mapsto> nb\<lparr>n_next := Some a\<rparr>, a \<mapsto> ?n)"
  let ?s = "s\<lparr>l_store := ?h, l_nItems := l_nItems s + 1, l_lock := False\<rparr>"
  obtain f where f: "unat (l_nItems s) = Suc f" using assms(2) by (metis length_Cons)
  have "dlist ?h (l_head s) (l_tail s) ([] @ b # a # c # cs)"
    using dlist_insert_after [of "l_store s" "l_head s" "l_tail s" "[]" b c cs a nb nc ?n]
      assms nc a \<open>b \<noteq> c\<close> by (simp add: fun_upd_twist)
  then have "hdl_rep ?s (b # a # c # cs)" using assms by (simp add: hdl_rep_def unat_word_ariths)
  from sdl_repD [OF this] show ?thesis
    using a nc assms f \<open>b \<noteq> c\<close> \<open>b \<notin> set cs\<close> \<open>c \<notin> set cs\<close> by (simp add: Let_def)
qed

lemma sdl_addItem_entries:
  assumes inv: "hdl_inv s" and fresh: "l_store s a = None"
    and room: "unat (l_nItems s) + 1 < 2 ^ 32" and mode: "mode \<noteq> SRT_PTRDBLLIST_ADD_DESCENDING"
  shows "\<exists>s'. sdl_addItem (Some (a, junk)) itm crit mode s = Some (ERROR_SUCCESS, s') \<and>
     hdl_inv s' \<and> sdl_entries s' = sdl_insert_abs (crit, itm) (sdl_entries s)"
proof -
  from inv obtain as where as: "hdl_rep s as" "dlist (l_store s) (l_head s) (l_tail s) as"
    "\<not> l_lock s" "length as = unat (l_nItems s)" by (rule hdl_invE)
  let ?s = "s\<lparr>l_lock := True\<rparr>" and ?n = "junk\<lparr>n_item := itm, n_criterion := crit\<rparr>"
  have es: "sdl_entries s = entries_of (l_store s) as" using as(1) by (simp add: sdl_repD)
  have len: "length as = unat (l_nItems ?s)" and dl: "dlist (l_store ?s) (l_head ?s) (l_tail ?s) as"
    and fr: "l_store ?s a = None" and rm: "unat (l_nItems ?s) + 1 < 2 ^ 32"
    using as fresh room by simp_all
  note front = sdl_link_front_rep [OF dl len _ fr rm, of ?n]
  note bck = sdl_link_back_rep [OF dl len _ fr rm, of ?n]
  show ?thesis
  proof (cases as)
    case Nil
    let ?s' = "s\<lparr>l_store := (l_store s)(a \<mapsto> ?n\<lparr>n_prev := None, n_next := None\<rparr>),
        l_head := Some a, l_tail := Some a, l_nItems := l_nItems s + 1, l_lock := False\<rparr>"
    have "hdl_rep ?s' [a]" using as Nil by (simp add: hdl_rep_def dlist_def unat_word_ariths)
    from sdl_repD [OF this] as Nil es mode show ?thesis by (simp add: sdl_addItem_def)
  next
    case (Cons b bs)
    then obtain nb where nb: "l_head s = Some b" "l_store s b = Some nb"
      using as(2) by (auto simp: dlist_def split: option.splits)
    show ?thesis
    proof (cases bs)
      case Nil
      with Cons as(2) have "l_tail s = Some b" by (auto simp: dlist_def split: option.splits)
      with front bck es Cons Nil nb as mode show ?thesis
        by (auto simp: sdl_addItem_def)
    next
      case (Cons c cs)
      then obtain z ys where ys: "bs = ys @ [z]" by (metis list.distinct(1) rev_exhaust)
      with \<open>as = b # bs\<close> as(2) obtain zs where z: "as = zs @ [z]" "last as = z" "z \<noteq> b"
        by (auto simp: dlist_def)
      with as(2) obtain nz where nz: "l_tail s = Some z" "l_store s z = Some nz"
        by (auto simp: dlist_def split: option.splits)
      have last: "fst (last (entries_of (l_store s) as)) = n_criterion nz" using z nz by simp
      note mid = sdl_insertLoop_rep [of ?s b c cs nb ?n a]
      show ?thesis
        using front bck mid es last as mode nb nz z(3) \<open>as = b # bs\<close> Cons fr rm
        by (auto simp: sdl_addItem_def)
    qed
  qed
qed

text \<open>C28: Inserting into a sorted list always succeeds, keeps the list invariant and adds exactly the
  new entry; the order of the keys is kept exactly when the list was empty, the new key is smaller
  than the first, not smaller than the last, or not greater than the second key.\<close>

theorem sdl_addItem_correct:
  assumes "hdl_inv s" "sorted_entries (sdl_entries s)" "l_store s a = None"
    and "unat (l_nItems s) + 1 < 2 ^ 32"
  shows "\<exists>s'. sdl_addItem (Some (a, junk)) itm crit SRT_PTRDBLLIST_ADD_ASCENDING s = Some (ERROR_SUCCESS, s') \<and>
     hdl_inv s' \<and> mset (sdl_entries s') = add_mset (crit, itm) (mset (sdl_entries s)) \<and>
     (sorted_entries (sdl_entries s') \<longleftrightarrow>
        sdl_entries s = [] \<or> crit < fst (hd (sdl_entries s)) \<or>
        fst (last (sdl_entries s)) \<le> crit \<or> crit \<le> fst (sdl_entries s ! 1))"
proof -
  obtain s' where s': "sdl_addItem (Some (a, junk)) itm crit SRT_PTRDBLLIST_ADD_ASCENDING s = Some (ERROR_SUCCESS, s')"
    "hdl_inv s'" "sdl_entries s' = sdl_insert_abs (crit, itm) (sdl_entries s)"
    using sdl_addItem_entries [OF assms(1,3,4), of SRT_PTRDBLLIST_ADD_ASCENDING junk itm crit] by auto
  have "mset (sdl_entries s') = add_mset (crit, itm) (mset (sdl_entries s))"
    by (simp only: s'(3) mset_sdl_insert_abs)
  with s' sdl_insert_abs_sorted_iff [OF assms(2), of "(crit, itm)"] show ?thesis by auto
qed

definition sdl_ex :: sdl where
  "sdl_ex = \<lparr>l_store = [1 \<mapsto> \<lparr>n_prev = None, n_next = Some 2, n_item = Some 10, n_criterion = 1\<rparr>,
                2 \<mapsto> \<lparr>n_prev = Some 1, n_next = Some 3, n_item = Some 20, n_criterion = 5\<rparr>,
                3 \<mapsto> \<lparr>n_prev = Some 2, n_next = None, n_item = Some 30, n_criterion = 9\<rparr>],
     l_head = Some 1, l_tail = Some 3, l_nItems = 3, l_lock = False\<rparr>"

lemma sdl_ex_inv:
  "hdl_inv sdl_ex" "sdl_entries sdl_ex = [(1, Some 10), (5, Some 20), (9, Some 30)]"
proof -
  have "hdl_rep sdl_ex [1, 2, 3]" by (simp add: sdl_ex_def hdl_rep_def dlist_def)
  from sdl_repD [OF this] show "hdl_inv sdl_ex"
    "sdl_entries sdl_ex = [(1, Some 10), (5, Some 20), (9, Some 30)]"
    by (simp_all add: sdl_ex_def)
qed

theorem sdl_addItem_correct_witness:
  "\<exists>s'. sdl_addItem (Some (4, \<lparr>n_prev = None, n_next = None, n_item = None, n_criterion = 0\<rparr>)) None 3 SRT_PTRDBLLIST_ADD_ASCENDING sdl_ex = Some (ERROR_SUCCESS, s') \<and>
     hdl_inv s' \<and> sorted_entries (sdl_entries s')"
proof -
  have "sorted_entries (sdl_entries sdl_ex)" "l_store sdl_ex 4 = None" "unat (l_nItems sdl_ex) + 1 < 2 ^ 32"
    by (simp_all add: sdl_ex_inv(2)) (simp_all add: sdl_ex_def)
  from sdl_addItem_correct [OF sdl_ex_inv(1) this] show ?thesis
    by (fastforce simp: sdl_ex_inv(2))
qed

text \<open>An insertion between the second and the last key breaks the order: the search loop starts
  at the head, whose key is not greater, and links the new node right behind it.\<close>

theorem sdl_addItem_breaks_order:
  "\<exists>s'. sdl_addItem (Some (4, junk)) itm 7 SRT_PTRDBLLIST_ADD_ASCENDING sdl_ex = Some (ERROR_SUCCESS, s') \<and>
     sdl_entries s' = [(1, Some 10), (7, itm), (5, Some 20), (9, Some 30)]"
proof -
  have "l_store sdl_ex 4 = None" "unat (l_nItems sdl_ex) + 1 < 2 ^ 32" by (simp_all add: sdl_ex_def)
  from sdl_addItem_entries [OF sdl_ex_inv(1) this, of SRT_PTRDBLLIST_ADD_ASCENDING junk itm 7]
  show ?thesis by (auto simp: sdl_ex_inv(2))
qed

end
