(* ===== verification/BitOps.thy ===== *)
theory BitOps
  imports Prelude
begin

text \<open>
  \<open>include/__kstdlib/__kbitManipulation.h\<close> and the arithmetic macros of \<open>__kmath.h\<close>: bit
  tests and updates on arrays of 32-bit words, and the search for a run of clear bits that the
  physical memory manager uses for constrained allocations.
\<close>

section \<open>Macros\<close>

definition KBIT_SET :: "u32 \<Rightarrow> u32 \<Rightarrow> u32" where
  "KBIT_SET var b = var OR push_bit (unat b) 1"

definition KBIT_UNSET :: "u32 \<Rightarrow> u32 \<Rightarrow> u32" where
  "KBIT_UNSET var b = var AND NOT (push_bit (unat b) 1)"

definition KBIT_TEST :: "u32 \<Rightarrow> u32 \<Rightarrow> bool" where
  "KBIT_TEST var b \<longleftrightarrow> var AND push_bit (unat b) 1 \<noteq> 0"

text \<open>\<open>__KBIT_NBITS_IN\<close> of a 32-bit array element.\<close>

abbreviation (input) NBITS :: u32 where "NBITS \<equiv> 32"

definition KMATH_NELEMENTS :: "u32 \<Rightarrow> u32 \<Rightarrow> u32" where
  "KMATH_NELEMENTS raw block = raw div block + (if raw mod block \<noteq> 0 then 1 else 0)"

definition P2ROUND_UP_BY :: "u32 \<Rightarrow> u32 \<Rightarrow> u32" where
  "P2ROUND_UP_BY it boundary =
     (if it AND (boundary - 1) \<noteq> 0 then (it AND NOT (boundary - 1)) + boundary else it)"

definition ROUND_UP_BY :: "u32 \<Rightarrow> u32 \<Rightarrow> u32" where
  "ROUND_UP_BY it boundary =
     (if it mod boundary \<noteq> 0 then it - it mod boundary + boundary else it)"

section \<open>Bit arrays\<close>

definition BITMAP_WHICH_INDEX :: "u32 \<Rightarrow> u32" where
  "BITMAP_WHICH_INDEX b = b div NBITS"

definition BITMAP_WHICH_BIT :: "u32 \<Rightarrow> u32" where
  "BITMAP_WHICH_BIT b = b mod NBITS"

definition bitIsSet :: "u32 list \<Rightarrow> u32 \<Rightarrow> bool option" where
  "bitIsSet bmp b = do {
     w \<leftarrow> arr_get bmp (unat (BITMAP_WHICH_INDEX b));
     Some (KBIT_TEST w (BITMAP_WHICH_BIT b))
   }"

definition setBit :: "u32 list \<Rightarrow> u32 \<Rightarrow> u32 list option" where
  "setBit bmp b = do {
     w \<leftarrow> arr_get bmp (unat (BITMAP_WHICH_INDEX b));
     arr_set bmp (unat (BITMAP_WHICH_INDEX b)) (KBIT_SET w (BITMAP_WHICH_BIT b))
   }"

definition unsetBit :: "u32 list \<Rightarrow> u32 \<Rightarrow> u32 list option" where
  "unsetBit bmp b = do {
     w \<leftarrow> arr_get bmp (unat (BITMAP_WHICH_INDEX b));
     arr_set bmp (unat (BITMAP_WHICH_INDEX b)) (KBIT_UNSET w (BITMAP_WHICH_BIT b))
   }"

text \<open>The loop of \<open>checkForContiguousBitsAt\<close>; \<open>lim\<close> is \<open>startBit + nValidBits\<close>, \<open>nf\<close> the
  value of \<open>*nFound\<close>.  The result is the returned status and the final \<open>*nFound\<close>.\<close>

function cfc_loop :: "u32 list \<Rightarrow> u32 \<Rightarrow> u32 \<Rightarrow> u32 \<Rightarrow> u32 \<Rightarrow> u32 \<Rightarrow> (status_t \<times> u32) option" where
  "cfc_loop bmp i lim mn mx nf =
     (if i < lim then
        case bitIsSet bmp i of
          None \<Rightarrow> None
        | Some True \<Rightarrow>
            if nf = 0 then cfc_loop bmp (i + 1) lim mn mx nf
            else if nf \<ge> mn then Some (sint (i - nf), nf)
            else cfc_loop bmp (i + 1) lim mn mx 0
        | Some False \<Rightarrow>
            if nf + 1 \<ge> mn \<and> nf + 1 = mx then Some (sint (i - (nf + 1 - 1)), nf + 1)
            else cfc_loop bmp (i + 1) lim mn mx (nf + 1)
      else Some (ERROR_NOT_FOUND, nf))"
  by pat_completeness auto
termination
  by (relation "measure (\<lambda>(bmp, i, lim, mn, mx, nf). unat lim - unat i)")
     (simp_all add: word_diff_Suc_less)

declare cfc_loop.simps [simp del]

definition checkForContiguousBitsAt ::
  "u32 list \<Rightarrow> u32 \<Rightarrow> u32 \<Rightarrow> u32 \<Rightarrow> u32 \<Rightarrow> u32 \<Rightarrow> (status_t \<times> u32) option" where
  "checkForContiguousBitsAt bmp startBit minNFrames maxNFrames nValidBits nFound =
     (if maxNFrames < minNFrames then Some (ERROR_INVALID_ARG_VAL, nFound)
      else cfc_loop bmp startBit (startBit + nValidBits) minNFrames maxNFrames 0)"

section \<open>The bits as a predicate on positions\<close>

definition bit_at :: "u32 list \<Rightarrow> nat \<Rightarrow> bool" where
  "bit_at bmp k = bit (bmp ! (k div 32)) (k mod 32)"

abbreviation nbits :: "u32 list \<Rightarrow> nat" where
  "nbits bmp \<equiv> 32 * length bmp"

lemma KBIT_TEST_bit: "unat b < 32 \<Longrightarrow> KBIT_TEST w b = bit w (unat b)"
  by (simp add: KBIT_TEST_def push_bit_of_1 and_exp_eq_0_iff_not_bit)

lemma bit_KBIT_SET: "unat b < 32 \<Longrightarrow> bit (KBIT_SET w b) k \<longleftrightarrow> k < 32 \<and> (bit w k \<or> k = unat b)"
  by (auto simp: KBIT_SET_def push_bit_of_1 bit_or_iff bit_exp_iff dest: bit_imp_le_length)

lemma bit_KBIT_UNSET: "unat b < 32 \<Longrightarrow> bit (KBIT_UNSET w b) k \<longleftrightarrow> bit w k \<and> k \<noteq> unat b"
  by (auto simp: KBIT_UNSET_def push_bit_of_1 bit_and_iff bit_not_iff bit_exp_iff dest: bit_imp_le_length)

lemma unat_which [simp]:
  "unat (BITMAP_WHICH_INDEX b) = unat b div 32" "unat (BITMAP_WHICH_BIT b) = unat b mod 32"
  by (simp_all add: BITMAP_WHICH_INDEX_def BITMAP_WHICH_BIT_def unat_div_distrib unat_mod_distrib)

lemma which_in_range: "unat b < nbits bmp \<longleftrightarrow> unat b div 32 < length bmp"
  by (simp add: div_less_iff_less_mult mult.commute)

lemma bitIsSet_eq:
  "bitIsSet bmp b = (if unat b < nbits bmp then Some (bit_at bmp (unat b)) else None)"
  by (auto simp: bitIsSet_def arr_get_def which_in_range KBIT_TEST_bit bit_at_def)

lemma setBit_eq_Some:
  "setBit bmp b = Some bmp' \<Longrightarrow> length bmp' = length bmp \<and> unat b < nbits bmp \<and>
     (\<forall>k < nbits bmp. bit_at bmp' k = (bit_at bmp k \<or> k = unat b))"
  apply (auto simp: setBit_def bind_eq_Some_conv arr_get_eq_Some arr_set_eq_Some which_in_range
      bit_at_def nth_list_update bit_KBIT_SET div_less_iff_less_mult mult.commute)
  by (metis div_mod_decomp)

lemma unsetBit_eq_Some:
  "unsetBit bmp b = Some bmp' \<Longrightarrow> length bmp' = length bmp \<and> unat b < nbits bmp \<and>
     (\<forall>k < nbits bmp. bit_at bmp' k = (bit_at bmp k \<and> k \<noteq> unat b))"
  apply (auto simp: unsetBit_def bind_eq_Some_conv arr_get_eq_Some arr_set_eq_Some which_in_range
      bit_at_def nth_list_update bit_KBIT_UNSET div_less_iff_less_mult mult.commute)
  by (metis div_mod_decomp)

lemma setBit_defined: "unat b < nbits bmp \<Longrightarrow> \<exists>bmp'. setBit bmp b = Some bmp'"
  by (simp add: setBit_def which_in_range)

lemma unsetBit_defined: "unat b < nbits bmp \<Longrightarrow> \<exists>bmp'. unsetBit bmp b = Some bmp'"
  by (simp add: unsetBit_def which_in_range)

section \<open>The search for a run of clear bits\<close>

definition clear_run :: "u32 list \<Rightarrow> nat \<Rightarrow> nat \<Rightarrow> bool" where
  "clear_run bmp a l \<longleftrightarrow> (\<forall>k. a \<le> k \<and> k < a + l \<longrightarrow> \<not> bit_at bmp k)"

lemma clear_run_0 [simp]: "clear_run bmp a 0"
  by (auto simp: clear_run_def)

text \<open>What the search accepts: a run of exactly \<open>mx\<close> clear bits, or of at least \<open>mn\<close> that is
  followed by a set bit inside the range.\<close>

definition cfc_candidate :: "u32 list \<Rightarrow> nat \<Rightarrow> nat \<Rightarrow> nat \<Rightarrow> nat \<Rightarrow> nat \<Rightarrow> bool" where
  "cfc_candidate bmp lim mn mx a l \<longleftrightarrow> 0 < l \<and> mn \<le> l \<and> clear_run bmp a l \<and>
     (l = mx \<and> a + l \<le> lim \<or> l < mx \<and> a + l < lim \<and> bit_at bmp (a + l))"

lemma cfc_loop_sound:
  assumes "cfc_loop bmp i lim mn mx nf = Some (r, n)"
    and "mn \<le> mx" "nf < mx" "unat start + unat nf \<le> unat i" "clear_run bmp (unat i - unat nf) (unat nf)"
    and "unat lim < 2 ^ 31" "i \<le> lim"
  shows "r = ERROR_NOT_FOUND \<or>
     (\<exists>a. r = int a \<and> unat start \<le> a \<and> cfc_candidate bmp (unat lim) (unat mn) (unat mx) a (unat n))"
  using assms
proof (induction bmp i lim mn mx nf rule: cfc_loop.induct)
  case (1 bmp i lim mn mx nf)
  show ?case
  proof (cases "i < lim")
    case False
    with "1.prems"(1) show ?thesis by (simp add: cfc_loop.simps [of bmp i])
  next
    case True
    then have i1: "unat (i + 1) = Suc (unat i)" and le: "i + 1 \<le> lim"
      by (simp_all add: unat_Suc_less word_le_nat_alt Suc_le_eq word_less_nat_alt)
    have n1: "unat (nf + 1) = Suc (unat nf)" using "1.prems"(3) by (rule unat_Suc_less)
    have mx0: "0 < mx" using "1.prems"(3) by (rule le_less_trans [OF word_zero_le])
    have sub: "sint (i - nf) = int (unat i - unat nf)"
      using "1.prems" True by (simp add: sint_small unat_sub word_le_nat_alt word_less_nat_alt)
    from "1.prems"(1) True obtain b where b: "bitIsSet bmp i = Some b"
      by (auto simp: cfc_loop.simps [of bmp i] split: option.splits)
    then have bit: "bit_at bmp (unat i) = b" by (simp add: bitIsSet_eq split: if_splits)
    show ?thesis
    proof (cases b)
      case set: True
      consider (z) "nf = 0" | (hit) "nf \<noteq> 0" "mn \<le> nf" | (short) "nf \<noteq> 0" "\<not> mn \<le> nf"
        by fastforce
      then show ?thesis
      proof cases
        case z
        then show ?thesis
          using "1.IH"(1) [OF True b] "1.prems" set b True i1 le
          by (simp add: cfc_loop.simps [of bmp i])
      next
        case hit
        with "1.prems" set b True sub have "r = int (unat i - unat nf)" "n = nf"
          by (auto simp: cfc_loop.simps [of bmp i])
        moreover have "cfc_candidate bmp (unat lim) (unat mn) (unat mx) (unat i - unat nf) (unat nf)"
          using hit "1.prems" True bit set
          by (auto simp: cfc_candidate_def word_le_nat_alt word_less_nat_alt unat_gt_0)
        ultimately show ?thesis using "1.prems"(4) by auto
      next
        case short
        then show ?thesis
          using "1.IH"(2) [OF True b] "1.prems" set b True i1 le mx0
          by (auto simp: cfc_loop.simps [of bmp i] clear_run_def)
      qed
    next
      case clear: False
      have run: "clear_run bmp (unat i - unat nf) (Suc (unat nf))"
        using "1.prems"(4,5) bit clear
        by (auto simp: clear_run_def less_Suc_eq)
      show ?thesis
      proof (cases "mn \<le> nf + 1 \<and> nf + 1 = mx")
        case hit: True
        with "1.prems" clear b True sub have "r = int (unat i - unat nf)" "n = nf + 1"
          by (auto simp: cfc_loop.simps [of bmp i])
        moreover have "cfc_candidate bmp (unat lim) (unat mn) (unat mx) (unat i - unat nf) (unat (nf + 1))"
          using hit "1.prems"(4) True run n1
          by (auto simp: cfc_candidate_def word_le_nat_alt word_less_nat_alt)
        ultimately show ?thesis using "1.prems"(4) by auto
      next
        case no: False
        have lt: "nf + 1 < mx"
          using no "1.prems"(2,3) n1
          by (auto simp: word_less_nat_alt word_le_nat_alt word_unat_eq_iff)
        show ?thesis
          using "1.IH"(3) [OF True b] "1.prems" clear b True i1 le no n1 run lt
          by (simp add: cfc_loop.simps [of bmp i])
      qed
    qed
  qed
qed

lemma cfc_loop_complete:
  assumes "cfc_loop bmp i lim mn mx nf = Some (ERROR_NOT_FOUND, n)"
    and "mn \<le> mx" "nf < mx" "unat nf \<le> unat i" "clear_run bmp (unat i - unat nf) (unat nf)"
    and "unat lim < 2 ^ 31" "unat i - unat nf \<le> a"
  shows "\<not> cfc_candidate bmp (unat lim) (unat mn) (unat mx) a l"
  using assms
proof (induction bmp i lim mn mx nf rule: cfc_loop.induct)
  case (1 bmp i lim mn mx nf)
  have n1: "unat (nf + 1) = Suc (unat nf)" using "1.prems"(3) by (rule unat_Suc_less)
  have nlt: "unat nf < unat mx" using "1.prems"(3) by (simp add: word_less_nat_alt)
  show ?case
  proof (cases "i < lim")
    case False
    with nlt "1.prems"(4,5,7) show ?thesis
      by (auto simp: cfc_candidate_def clear_run_def word_less_nat_alt)
  next
    case True
    then have i1: "unat (i + 1) = Suc (unat i)" by (rule unat_Suc_less)
    have mx0: "0 < mx" using "1.prems"(3) by (rule le_less_trans [OF word_zero_le])
    have "sint (i - nf) = int (unat i - unat nf)"
      using "1.prems" True by (simp add: sint_small unat_sub word_le_nat_alt word_less_nat_alt)
    then have nonneg: "sint (i - nf) \<noteq> ERROR_NOT_FOUND" by linarith
    from "1.prems"(1) True obtain b where b: "bitIsSet bmp i = Some b"
      by (auto simp: cfc_loop.simps [of bmp i] split: option.splits)
    then have bit: "bit_at bmp (unat i) = b" by (simp add: bitIsSet_eq split: if_splits)
    show ?thesis
    proof (cases b)
      case set: True
      with "1.prems"(1) True b nonneg have short: "nf = 0 \<or> nf < mn"
        and rest: "cfc_loop bmp (i + 1) lim mn mx 0 = Some (ERROR_NOT_FOUND, n)"
        by (auto simp: cfc_loop.simps [of bmp i] split: if_splits)
      show ?thesis
      proof (cases "unat i < a")
        case after: True
        have "\<not> mn \<le> nf \<or> nf = 0" using short by auto
        then show ?thesis
          using "1.IH"(1,2) [OF True b] set rest after i1 mx0 "1.prems"(2,6) by auto
      next
        case False
        have "l \<le> unat nf" if "a + l \<le> unat i"
          using "1.prems"(4,7) that by linarith
        moreover have "unat i < a + l \<Longrightarrow> \<not> clear_run bmp a l"
          using False bit set by (fastforce simp: clear_run_def not_less)
        ultimately show ?thesis
          using short by (cases "a + l \<le> unat i") (auto simp: cfc_candidate_def word_less_nat_alt)
      qed
    next
      case clear: False
      have run: "clear_run bmp (unat i - unat nf) (Suc (unat nf))"
        using "1.prems"(4,5) bit clear by (auto simp: clear_run_def less_Suc_eq)
      from "1.prems"(1) True b clear nonneg have no: "\<not> (mn \<le> nf + 1 \<and> nf + 1 = mx)"
        and rest: "cfc_loop bmp (i + 1) lim mn mx (nf + 1) = Some (ERROR_NOT_FOUND, n)"
        by (auto simp: cfc_loop.simps [of bmp i] split: if_splits)
      have "nf + 1 < mx" using no "1.prems"(2,3) n1
        by (auto simp: word_less_nat_alt word_le_nat_alt word_unat_eq_iff)
      then show ?thesis
        using "1.IH"(3) [OF True b _ no rest] clear "1.prems" run n1 i1 by simp
    qed
  qed
qed

lemma cfc_loop_total:
  "unat lim \<le> nbits bmp \<Longrightarrow> \<exists>r n. cfc_loop bmp i lim mn mx nf = Some (r, n)"
proof (induction bmp i lim mn mx nf rule: cfc_loop.induct)
  case (1 bmp i lim mn mx nf)
  then show ?case
    by (subst cfc_loop.simps)
       (auto simp: bitIsSet_eq word_less_nat_alt split: bool.splits if_splits)
qed

text \<open>C25: On a bitmap that covers the searched range (and fewer than $2^{31}$ bits) the search
  always returns; it returns either the start of a run of free frames that satisfies the size
  bounds, lies in the range and ends at a used frame or at the maximum size, or
  \<open>ERROR_NOT_FOUND\<close>, and the latter only if no such run exists in the range.\<close>

theorem checkForContiguousBitsAt_correct:
  assumes "unat startBit + unat nValidBits \<le> nbits bmp"
    and "unat startBit + unat nValidBits < 2 ^ 31"
    and "minNFrames \<le> maxNFrames" "0 < maxNFrames"
  shows "\<exists>r n. checkForContiguousBitsAt bmp startBit minNFrames maxNFrames nValidBits nFound = Some (r, n) \<and>
     (if r = ERROR_NOT_FOUND
      then \<forall>a l. unat startBit \<le> a \<longrightarrow>
        \<not> cfc_candidate bmp (unat startBit + unat nValidBits) (unat minNFrames) (unat maxNFrames) a l
      else 0 \<le> r \<and> unat startBit \<le> nat r \<and>
        cfc_candidate bmp (unat startBit + unat nValidBits) (unat minNFrames) (unat maxNFrames)
          (nat r) (unat n))"
proof -
  have lim: "unat (startBit + nValidBits) = unat startBit + unat nValidBits"
    using assms(2) by (intro unat_add_no_wrap) simp
  from cfc_loop_total [of "startBit + nValidBits" bmp startBit minNFrames maxNFrames 0] assms(1) lim
  obtain r n where r: "cfc_loop bmp startBit (startBit + nValidBits) minNFrames maxNFrames 0 = Some (r, n)"
    by auto
  have le: "startBit \<le> startBit + nValidBits" using lim by (simp add: word_le_nat_alt)
  note sound = cfc_loop_sound [OF r assms(3,4), of startBit]
  show ?thesis
  proof (cases "r = ERROR_NOT_FOUND")
    case True
    with r cfc_loop_complete [of bmp startBit "startBit + nValidBits" minNFrames maxNFrames 0 n]
      assms lim show ?thesis
      by (auto simp: checkForContiguousBitsAt_def)
  next
    case False
    with r sound assms lim le show ?thesis
      by (auto simp: checkForContiguousBitsAt_def)
  qed
qed

theorem checkForContiguousBitsAt_correct_witness:
  "checkForContiguousBitsAt [0xFFFFFFFF, 0xFFFFFFF9] 0 2 2 64 0 = Some (33, 2) \<and>
   cfc_candidate [0xFFFFFFFF, 0xFFFFFFF9] 64 2 2 33 2"
proof -
  have eq: "checkForContiguousBitsAt [0xFFFFFFFF, 0xFFFFFFF9] 0 2 2 64 0 = Some (33, 2)"
    by code_simp
  show ?thesis
    using eq checkForContiguousBitsAt_correct [of 0 64 "[0xFFFFFFFF, 0xFFFFFFF9]" 2 2 0] by simp
qed

text \<open>A run of free frames that reaches the end of the valid bits is not reported unless it
  has the maximum size: with frames 2 and 3 of four free, a search for one to three frames
  fails, although the comment of the function promises the start of any run of at least the
  minimum size.\<close>

theorem checkForContiguousBitsAt_misses_final_run:
  "checkForContiguousBitsAt [0xFFFFFFF3] 0 1 3 4 0 = Some (ERROR_NOT_FOUND, 2)
   \<and> clear_run [0xFFFFFFF3] 2 2"
proof
  show "checkForContiguousBitsAt [0xFFFFFFF3] 0 1 3 4 0 = Some (ERROR_NOT_FOUND, 2)"
    by code_simp
  have "\<not> bit_at [0xFFFFFFF3] 2" "\<not> bit_at [0xFFFFFFF3] 3" by code_simp+
  moreover have "k = 2 \<or> k = 3" if "2 \<le> k" "k < 4" for k :: nat using that by auto
  ultimately show "clear_run [0xFFFFFFF3] 2 2" by (auto simp: clear_run_def)
qed

end
