(* ===== verification/IndexSet.thy ===== *)
theory IndexSet
  imports BitOps
begin

text \<open>
  The interface the bitmap classes provide to their clients: a set of indices with insertion and
  deletion of one valid index.  The loops that mark whole ranges (\<open>mapMemUsed\<close>,
  \<open>releaseFrames\<close>, \<open>merge\<close>, \<open>\<dots>\<close>) are verified once, against this interface.
\<close>

locale index_set =
  fixes inv :: "'s \<Rightarrow> bool" and elems :: "'s \<Rightarrow> nat set" and valid :: "'s \<Rightarrow> u32 \<Rightarrow> bool"
    and add :: "u32 \<Rightarrow> 's \<Rightarrow> 's option" and del :: "u32 \<Rightarrow> 's \<Rightarrow> 's option"
  assumes add_ok: "inv s \<Longrightarrow> valid s b \<Longrightarrow>
      \<exists>s'. add b s = Some s' \<and> inv s' \<and> elems s' = insert (unat b) (elems s) \<and> valid s' = valid s"
    and del_ok: "inv s \<Longrightarrow> valid s b \<Longrightarrow>
      \<exists>s'. del b s = Some s' \<and> inv s' \<and> elems s' = elems s - {unat b} \<and> valid s' = valid s"
begin

lemma atLeastLessThan_unat_Suc:
  "a \<le> j \<Longrightarrow> j < (e :: u32) \<Longrightarrow> {unat a..<unat (j + 1)} = insert (unat j) {unat a..<unat j}"
  by (auto simp: unat_Suc_less word_le_nat_alt)

lemma add_range:
  assumes "inv s" "a \<le> e" "\<And>b. a \<le> b \<Longrightarrow> b < e \<Longrightarrow> valid s b"
  shows "\<exists>s'. word_for a e add s = Some s' \<and> inv s' \<and>
     elems s' = elems s \<union> {unat a..<unat e} \<and> valid s' = valid s"
proof (rule word_for_rule [where P = "\<lambda>j t. inv t \<and> elems t = elems s \<union> {unat a..<unat j} \<and> valid t = valid s"])
  fix j t assume "a \<le> j" "j < e" "inv t \<and> elems t = elems s \<union> {unat a..<unat j} \<and> valid t = valid s"
  then show "\<exists>t'. add j t = Some t' \<and> inv t' \<and> elems t' = elems s \<union> {unat a..<unat (j + 1)} \<and> valid t' = valid s"
    using add_ok [of t j] assms(3) by (auto simp: atLeastLessThan_unat_Suc)
qed (use assms in auto)

lemma del_range:
  assumes "inv s" "a \<le> e" "\<And>b. a \<le> b \<Longrightarrow> b < e \<Longrightarrow> valid s b"
  shows "\<exists>s'. word_for a e del s = Some s' \<and> inv s' \<and>
     elems s' = elems s - {unat a..<unat e} \<and> valid s' = valid s"
proof (rule word_for_rule [where P = "\<lambda>j t. inv t \<and> elems t = elems s - {unat a..<unat j} \<and> valid t = valid s"])
  fix j t assume "a \<le> j" "j < e" "inv t \<and> elems t = elems s - {unat a..<unat j} \<and> valid t = valid s"
  then show "\<exists>t'. del j t = Some t' \<and> inv t' \<and> elems t' = elems s - {unat a..<unat (j + 1)} \<and> valid t' = valid s"
    using del_ok [of t j] assms(3) by (auto simp: atLeastLessThan_unat_Suc)
qed (use assms in auto)

text \<open>Or-ing another set into this one, index by index, counting the hits in \<open>n\<close>.\<close>

lemma merge_range:
  assumes "inv s" "a \<le> e" "\<And>b. a \<le> b \<Longrightarrow> b < e \<Longrightarrow> valid s b"
    and tst: "\<And>b. a \<le> b \<Longrightarrow> b < e \<Longrightarrow> tst b = Some (unat b \<in> M)"
  shows "\<exists>s'. word_for a e (\<lambda>i t. do { h \<leftarrow> tst i; if h then add i t else Some t }) s = Some s' \<and>
     inv s' \<and> elems s' = elems s \<union> (M \<inter> {unat a..<unat e}) \<and> valid s' = valid s"
proof (rule word_for_rule [where P = "\<lambda>j t. inv t \<and> elems t = elems s \<union> (M \<inter> {unat a..<unat j}) \<and> valid t = valid s"])
  fix j t assume j: "a \<le> j" "j < e"
    and t: "inv t \<and> elems t = elems s \<union> (M \<inter> {unat a..<unat j}) \<and> valid t = valid s"
  show "\<exists>t'. do { h \<leftarrow> tst j; if h then add j t else Some t } = Some t' \<and>
      inv t' \<and> elems t' = elems s \<union> (M \<inter> {unat a..<unat (j + 1)}) \<and> valid t' = valid s"
    using add_ok [of t j] assms(3) tst [OF j] j t by (auto simp: atLeastLessThan_unat_Suc)
qed (use assms in auto)

end

end
