(* ===== verification/KBitmap.thy ===== *)
theory KBitmap
  imports IndexSet
begin

text \<open>
  The \<open>Bitmap\<close> class (\<open>include/__kclasses/bitmap.h\<close>, \<open>__kclasses/bitmap.cpp\<close>): a lockable set
  of small integers used for CPU and NUMA bank sets and for the sleep flags of message streams.
  The element array is NULL or a list of 32-bit elements; memory handed out by \<open>new\<close> has
  arbitrary contents, which are an argument of the operations that allocate.
\<close>

record bmap =
  b_bmp :: "u32 list option"
  b_nBits :: u32
  b_pre :: "u16 option"  \<comment> \<open>size in bytes of the preallocated memory, if there is any\<close>
  b_lock :: bool

section \<open>Byte operations on element arrays (little endian)\<close>

definition elem_mask :: "nat \<Rightarrow> nat \<Rightarrow> u32" where
  "elem_mask m i = mask (8 * min 4 (m - 4 * i))"

definition memset0 :: "u32 list \<Rightarrow> nat \<Rightarrow> u32 list option" where
  "memset0 xs m = (if m \<le> 4 * length xs
     then Some (map (\<lambda>i. xs ! i AND NOT (elem_mask m i)) [0..<length xs]) else None)"

definition memcpy_elems :: "u32 list \<Rightarrow> u32 list \<Rightarrow> nat \<Rightarrow> u32 list option" where
  "memcpy_elems dst src m = (if m \<le> 4 * length dst \<and> m \<le> 4 * length src
     then Some (map (\<lambda>i. dst ! i AND NOT (elem_mask m i) OR
                        (if i < length src then src ! i AND elem_mask m i else 0)) [0..<length dst])
     else None)"

section \<open>Operations\<close>

definition BITMAP_NELEMENTS_FOR_BITS :: "u32 \<Rightarrow> u32" where
  "BITMAP_NELEMENTS_FOR_BITS n = KMATH_NELEMENTS n 32"

definition bmap_init :: bmap where
  "bmap_init = \<lparr>b_bmp = None, b_nBits = 0, b_pre = None, b_lock = False\<rparr>"

text \<open>\<open>pre\<close> is the preallocated array with its size in bytes; \<open>mem\<close> is what
  \<open>new element_t[nIndexes]\<close> returned.\<close>

definition bmap_initialize ::
  "u32 \<Rightarrow> (u32 list \<times> u16) option \<Rightarrow> u32 list option \<Rightarrow> bmap \<Rightarrow> (error_t \<times> bmap) option" where
  "bmap_initialize nBits pre mem s =
     (let nIndexes = BITMAP_NELEMENTS_FOR_BITS nBits in
      case pre of
        Some (arr, sz) \<Rightarrow>
          if nBits > ucast sz * 8 then Some (ERROR_LIMIT_OVERFLOWED, s)
          else do {
            z \<leftarrow> memset0 arr (if nIndexes > 0 then unat nIndexes * 4 else unat sz);
            Some (ERROR_SUCCESS, s\<lparr>b_pre := Some sz, b_bmp := Some z, b_nBits := nBits\<rparr>)
          }
      | None \<Rightarrow>
          if nIndexes = 0 then Some (ERROR_SUCCESS, s)
          else (case mem of
              None \<Rightarrow> Some (ERROR_MEMORY_NOMEM, s\<lparr>b_bmp := None\<rparr>)
            | Some arr \<Rightarrow> do {
                z \<leftarrow> memset0 arr (unat nIndexes * 4);
                Some (ERROR_SUCCESS, s\<lparr>b_bmp := Some z, b_nBits := nBits\<rparr>)
              }))"

definition bmap_set :: "u32 \<Rightarrow> bmap \<Rightarrow> bmap option" where
  "bmap_set b s =
     (if b < b_nBits s then do {
        arr \<leftarrow> b_bmp s;
        arr' \<leftarrow> setBit arr b;
        Some (s\<lparr>b_bmp := Some arr'\<rparr>)
      } else Some s)"

definition bmap_unset :: "u32 \<Rightarrow> bmap \<Rightarrow> bmap option" where
  "bmap_unset b s =
     (if b < b_nBits s then do {
        arr \<leftarrow> b_bmp s;
        arr' \<leftarrow> unsetBit arr b;
        Some (s\<lparr>b_bmp := Some arr'\<rparr>)
      } else Some s)"

definition bmap_test :: "u32 \<Rightarrow> bmap \<Rightarrow> bool option" where
  "bmap_test b s =
     (if b < b_nBits s then do { arr \<leftarrow> b_bmp s; bitIsSet arr b } else Some False)"

definition bmap_setSingle :: "u32 \<Rightarrow> bmap \<Rightarrow> bmap option" where
  "bmap_setSingle b s = do {
     k \<leftarrow> lock_acquire (b_lock s);
     s \<leftarrow> bmap_set b (s\<lparr>b_lock := k\<rparr>);
     Some (s\<lparr>b_lock := lock_release\<rparr>)
   }"

definition bmap_unsetSingle :: "u32 \<Rightarrow> bmap \<Rightarrow> bmap option" where
  "bmap_unsetSingle b s = do {
     k \<leftarrow> lock_acquire (b_lock s);
     s \<leftarrow> bmap_unset b (s\<lparr>b_lock := k\<rparr>);
     Some (s\<lparr>b_lock := lock_release\<rparr>)
   }"

definition bmap_testSingle :: "u32 \<Rightarrow> bmap \<Rightarrow> (bool \<times> bmap) option" where
  "bmap_testSingle b s = do {
     k \<leftarrow> lock_acquire (b_lock s);
     r \<leftarrow> bmap_test b s;
     Some (r, s\<lparr>b_lock := lock_release\<rparr>)
   }"

text \<open>\<open>merge\<close> of two distinct objects, both locked for the duration of the loop.\<close>

definition bmap_merge :: "bmap \<Rightarrow> bmap \<Rightarrow> bmap option" where
  "bmap_merge b s = do {
     k \<leftarrow> lock_acquire (b_lock s);
     kb \<leftarrow> lock_acquire (b_lock b);
     s \<leftarrow> word_for 0 (if b_nBits b < b_nBits s then b_nBits b else b_nBits s)
            (\<lambda>i s. do { t \<leftarrow> bmap_test i b; if t then bmap_set i s else Some s }) (s\<lparr>b_lock := k\<rparr>);
     Some (s\<lparr>b_lock := lock_release\<rparr>)
   }"

definition bmap_getBitCapacity :: "bmap \<Rightarrow> u32 option" where
  "bmap_getBitCapacity s =
     (case b_pre s of
        Some sz \<Rightarrow> Some (ucast sz * 8)
      | None \<Rightarrow> do {
          let cap = BITMAP_NELEMENTS_FOR_BITS (b_nBits s) * 4 * 8;
          u \<leftarrow> assert_fatal (cap \<ge> b_nBits s);
          u \<leftarrow> assert_fatal (cap < b_nBits s + 4 * 8);
          Some cap
        })"

definition bmap_resizeTo :: "u32 \<Rightarrow> u32 list option \<Rightarrow> bmap \<Rightarrow> (error_t \<times> bmap) option" where
  "bmap_resizeTo n mem s = do {
     k \<leftarrow> lock_acquire (b_lock s);
     if n = 0 then
       Some (ERROR_SUCCESS, s\<lparr>b_nBits := 0, b_bmp := None, b_pre := None, b_lock := lock_release\<rparr>)
     else do {
       cap \<leftarrow> bmap_getBitCapacity s;
       if n < cap then Some (ERROR_SUCCESS, s\<lparr>b_nBits := n, b_lock := lock_release\<rparr>)
       else case mem of
         None \<Rightarrow> Some (ERROR_MEMORY_NOMEM, s\<lparr>b_lock := lock_release\<rparr>)
       | Some tmp \<Rightarrow> do {
           tmp \<leftarrow> memset0 tmp (unat (KMATH_NELEMENTS n 8));
           tmp \<leftarrow> (case b_bmp s of
                    None \<Rightarrow> Some tmp
                  | Some old \<Rightarrow> memcpy_elems tmp old (unat (KMATH_NELEMENTS (b_nBits s) 8)));
           Some (ERROR_SUCCESS, s\<lparr>b_nBits := n, b_bmp := Some tmp, b_pre := None,
                   b_lock := lock_release\<rparr>)
         }
     }
   }"

section \<open>Invariant and abstraction\<close>

definition bmap_wf :: "bmap \<Rightarrow> bool" where
  "bmap_wf s \<longleftrightarrow>
     (case b_bmp s of
        None \<Rightarrow> b_nBits s = 0 \<and> b_pre s = None
      | Some arr \<Rightarrow> unat (b_nBits s) \<le> nbits arr \<and>
          (case b_pre s of None \<Rightarrow> True | Some sz \<Rightarrow>
             unat (b_nBits s) \<le> 8 * unat sz \<and> 8 * unat sz \<le> nbits arr))"

definition bmap_inv :: "bmap \<Rightarrow> bool" where
  "bmap_inv s \<longleftrightarrow> \<not> b_lock s \<and> bmap_wf s"

definition bmap_elems :: "bmap \<Rightarrow> nat set" where
  "bmap_elems s = {k. k < unat (b_nBits s) \<and> (case b_bmp s of None \<Rightarrow> False | Some arr \<Rightarrow> bit_at arr k)}"

lemma bmap_wf_lock [simp]: "bmap_wf (s\<lparr>b_lock := l\<rparr>) = bmap_wf s"
  by (auto simp: bmap_wf_def split: option.splits)

lemma bmap_elems_lock [simp]: "bmap_elems (s\<lparr>b_lock := l\<rparr>) = bmap_elems s"
  by (simp add: bmap_elems_def)

lemma bmap_test_elems:
  "bmap_wf s \<Longrightarrow> bmap_test b s = Some (unat b \<in> bmap_elems s)"
  by (auto simp: bmap_test_def bmap_wf_def bmap_elems_def bitIsSet_eq word_less_nat_alt
      split: option.splits)

lemma bmap_set_elems:
  assumes "bmap_wf s"
  shows "\<exists>s'. bmap_set b s = Some s' \<and> bmap_wf s' \<and> b_nBits s' = b_nBits s \<and>
     bmap_elems s' = (if b < b_nBits s then insert (unat b) (bmap_elems s) else bmap_elems s)"
proof (cases "b < b_nBits s")
  case True
  with assms obtain arr where arr: "b_bmp s = Some arr" "unat (b_nBits s) \<le> nbits arr"
    by (auto simp: bmap_wf_def split: option.splits)
  with True have "unat b < nbits arr" by (simp add: word_less_nat_alt)
  then obtain arr' where arr': "setBit arr b = Some arr'" using setBit_defined by blast
  from setBit_eq_Some [OF this] arr True show ?thesis
    using arr' assms by (auto simp: bmap_set_def bmap_wf_def bmap_elems_def word_less_nat_alt
        split: option.splits)
qed (use assms in \<open>simp add: bmap_set_def\<close>)

lemma bmap_unset_elems:
  assumes "bmap_wf s"
  shows "\<exists>s'. bmap_unset b s = Some s' \<and> bmap_wf s' \<and> b_nBits s' = b_nBits s \<and>
     bmap_elems s' = bmap_elems s - {unat b}"
proof (cases "b < b_nBits s")
  case True
  with assms obtain arr where arr: "b_bmp s = Some arr" "unat (b_nBits s) \<le> nbits arr"
    by (auto simp: bmap_wf_def split: option.splits)
  with True have "unat b < nbits arr" by (simp add: word_less_nat_alt)
  then obtain arr' where arr': "unsetBit arr b = Some arr'" using unsetBit_defined by blast
  from unsetBit_eq_Some [OF this] arr True show ?thesis
    using arr' assms by (auto simp: bmap_unset_def bmap_wf_def bmap_elems_def word_less_nat_alt
        split: option.splits)
qed (use assms in \<open>auto simp: bmap_unset_def bmap_elems_def word_less_nat_alt\<close>)

interpretation bm: index_set "\<lambda>s. bmap_wf s" bmap_elems "\<lambda>s b. b < b_nBits s"
  bmap_set bmap_unset
proof
  show "\<exists>s'. bmap_set b s = Some s' \<and> bmap_wf s' \<and>
      bmap_elems s' = insert (unat b) (bmap_elems s) \<and> (\<lambda>c. c < b_nBits s') = (\<lambda>c. c < b_nBits s)"
    if "bmap_wf s" "b < b_nBits s" for s b
    using bmap_set_elems [OF that(1), of b] that(2) by auto
  show "\<exists>s'. bmap_unset b s = Some s' \<and> bmap_wf s' \<and>
      bmap_elems s' = bmap_elems s - {unat b} \<and> (\<lambda>c. c < b_nBits s') = (\<lambda>c. c < b_nBits s)"
    if "bmap_wf s" "b < b_nBits s" for s b
    using bmap_unset_elems [OF that(1), of b] by auto
qed

section \<open>Correctness\<close>

lemma bmap_setSingle_elems:
  "bmap_inv s \<Longrightarrow> \<exists>s'. bmap_setSingle b s = Some s' \<and> bmap_inv s' \<and>
     bmap_elems s' = (if b < b_nBits s then insert (unat b) (bmap_elems s) else bmap_elems s)"
  using bmap_set_elems [of "s\<lparr>b_lock := True\<rparr>" b]
  by (auto simp: bmap_setSingle_def bmap_inv_def)

lemma bmap_unsetSingle_elems:
  "bmap_inv s \<Longrightarrow> \<exists>s'. bmap_unsetSingle b s = Some s' \<and> bmap_inv s' \<and>
     bmap_elems s' = bmap_elems s - {unat b}"
  using bmap_unset_elems [of "s\<lparr>b_lock := True\<rparr>" b]
  by (auto simp: bmap_unsetSingle_def bmap_inv_def)

lemma bmap_testSingle_elems:
  "bmap_inv s \<Longrightarrow> bmap_testSingle b s = Some (unat b \<in> bmap_elems s, s)"
  using bmap_test_elems [of s b]
  by (auto simp: bmap_testSingle_def bmap_inv_def)

lemma bmap_merge_elems:
  assumes "bmap_inv s" "bmap_inv b"
  shows "\<exists>s'. bmap_merge b s = Some s' \<and> bmap_inv s' \<and>
     bmap_elems s' = bmap_elems s \<union> (bmap_elems b \<inter> {..<unat (b_nBits s)})"
proof -
  let ?e = "if b_nBits b < b_nBits s then b_nBits b else b_nBits s"
  let ?s = "s\<lparr>b_lock := True\<rparr>"
  have tst: "bmap_test i b = Some (unat i \<in> bmap_elems b)" for i
    using assms(2) by (intro bmap_test_elems) (simp add: bmap_inv_def)
  have cut: "bmap_elems b \<inter> {unat (0::u32)..<unat ?e} = bmap_elems b \<inter> {..<unat (b_nBits s)}"
    by (auto simp: bmap_elems_def word_less_nat_alt)
  have "\<exists>s'. word_for 0 ?e (\<lambda>i t. do { h \<leftarrow> bmap_test i b; if h then bmap_set i t else Some t }) ?s
      = Some s' \<and> bmap_wf s' \<and>
      bmap_elems s' = bmap_elems ?s \<union> (bmap_elems b \<inter> {unat (0::u32)..<unat ?e}) \<and>
      (\<lambda>c. c < b_nBits s') = (\<lambda>c. c < b_nBits ?s)"
    by (rule bm.merge_range) (use assms tst in \<open>auto simp: bmap_inv_def split: if_splits\<close>)
  then obtain s' where s': "word_for 0 ?e (\<lambda>i t. do { h \<leftarrow> bmap_test i b; if h then bmap_set i t else Some t }) ?s
      = Some s'" "bmap_wf s'"
      "bmap_elems s' = bmap_elems s \<union> (bmap_elems b \<inter> {..<unat (b_nBits s)})"
    using cut by auto
  then show ?thesis
    using assms by (simp add: bmap_merge_def bmap_inv_def)
qed

text \<open>Merging another bitmap into this one yields the union of the two sets, cut off at
  the capacity of this bitmap, and releases both locks.\<close>

theorem bmap_merge_union:
  assumes "bmap_inv s" "bmap_inv b"
  shows "\<exists>s'. bmap_merge b s = Some s' \<and> bmap_inv s' \<and>
     bmap_elems s' = bmap_elems s \<union> (bmap_elems b \<inter> {..<unat (b_nBits s)})"
  by (rule bmap_merge_elems [OF assms])

theorem bmap_merge_union_witness:
  "\<exists>s'. bmap_merge \<lparr>b_bmp = Some [5], b_nBits = 8, b_pre = None, b_lock = False\<rparr>
           \<lparr>b_bmp = Some [2], b_nBits = 2, b_pre = None, b_lock = False\<rparr> = Some s' \<and>
     bmap_elems s' = {0, 1}"
proof -
  let ?s = "\<lparr>b_bmp = Some [2], b_nBits = 2, b_pre = None, b_lock = False\<rparr>"
  let ?b = "\<lparr>b_bmp = Some [5], b_nBits = 8, b_pre = None, b_lock = False\<rparr>"
  have "bmap_inv ?s" "bmap_inv ?b" by (simp_all add: bmap_inv_def bmap_wf_def)
  note m = bmap_merge_union [OF this]
  have bits: "bit (2::u32) 0 = False" "bit (2::u32) 1" "bit (5::u32) 0" by code_simp+
  have "bmap_elems ?s = {1}" "bmap_elems ?b \<inter> {..<2} = {0}"
    using bits by (auto simp: bmap_elems_def bit_at_def less_2_cases_iff)
  with m show ?thesis by auto
qed

lemma bit_elem_mask: "bit (elem_mask m i) k \<longleftrightarrow> k < 32 \<and> 32 * i + k < 8 * m"
  by (auto simp: elem_mask_def bit_mask_iff min_def)

lemma bit_at_memset0:
  assumes "memset0 xs m = Some ys" "k < nbits xs"
  shows "length ys = length xs \<and> bit_at ys k = (bit_at xs k \<and> 8 * m \<le> k)"
proof -
  have "k div 32 < length xs" using assms(2) by (simp add: div_less_iff_less_mult mult.commute)
  with assms show ?thesis
    by (auto simp: memset0_def bit_at_def bit_and_iff bit_not_iff bit_elem_mask
        split: if_splits dest: bit_imp_le_length)
qed

lemma bit_at_memcpy:
  assumes "memcpy_elems dst src m = Some ys" "k < nbits dst"
  shows "length ys = length dst \<and> bit_at ys k = (if k < 8 * m then bit_at src k else bit_at dst k)"
proof -
  have d: "k div 32 < length dst" using assms(2) by (simp add: div_less_iff_less_mult mult.commute)
  have s: "k < 8 * m \<Longrightarrow> k div 32 < length src"
    using assms(1) by (auto simp: memcpy_elems_def div_less_iff_less_mult split: if_splits)
  show ?thesis using assms(1) d s
    by (auto simp: memcpy_elems_def bit_at_def bit_and_iff bit_or_iff bit_not_iff bit_elem_mask
        split: if_splits dest: bit_imp_le_length)
qed

lemma unat_KMATH_NELEMENTS:
  assumes "1 < d"
  shows "unat (KMATH_NELEMENTS n d) = (unat n + unat d - 1) div unat d"
proof -
  let ?n = "unat n" and ?d = "unat d"
  have d: "1 < ?d" using assms by (simp add: word_less_nat_alt)
  have "?n div ?d < ?n \<or> ?n = 0" using d div_less_dividend [of ?d ?n] by auto
  then have "?n div ?d + 1 < 2 ^ 32" using unat_bound [of n] by auto
  moreover have "(?n + ?d - 1) div ?d = ?n div ?d + (if ?n mod ?d \<noteq> 0 then 1 else 0)"
  proof (cases "?n mod ?d = 0")
    case True
    then obtain q where q: "?n = ?d * q" by auto
    with d have "?n + ?d - 1 = (?d - 1) + q * ?d" by (simp add: mult.commute)
    then have "(?n + ?d - 1) div ?d = q" using d by (simp only: div_mult_self1) simp
    with q d show ?thesis by simp
  next
    case False
    have eq: "?n + ?d - 1 = (?n mod ?d - 1) + (?n div ?d + 1) * ?d"
      using False d div_mult_mod_eq [of ?n ?d] by (simp only: add_mult_distrib mult_1)
    have "?n mod ?d - 1 < ?d" using d by (meson less_imp_diff_less mod_less_divisor order.strict_trans zero_less_one)
    then have "(?n + ?d - 1) div ?d = ?n div ?d + 1"
      unfolding eq using d by (subst div_mult_self1) auto
    with False show ?thesis by simp
  qed
  moreover have "n mod d = 0 \<longleftrightarrow> ?n mod ?d = 0"
    using unat_mod_distrib [of n d] by (metis unat_0 word_unat_eq_iff)
  ultimately show ?thesis
    by (auto simp: KMATH_NELEMENTS_def unat_word_ariths unat_div_distrib)
qed

text \<open>The capacity computed from the bit count: the next multiple of the element width.\<close>

lemma bmap_getBitCapacity_ok:
  assumes "bmap_wf s" "unat (b_nBits s) < 2 ^ 31"
  shows "\<exists>cap. bmap_getBitCapacity s = Some cap \<and>
     (case b_bmp s of None \<Rightarrow> cap = 0 | Some arr \<Rightarrow> unat cap \<le> nbits arr) \<and>
     b_nBits s \<le> cap \<and> (\<forall>sz. b_pre s = Some sz \<longrightarrow> unat cap = 8 * unat sz)"
proof (cases "b_pre s")
  case (Some sz)
  have "unat (ucast sz * 8 :: u32) = 8 * unat sz"
    using unat_bound [of sz] by (simp add: unat_word_ariths unat_ucast_up)
  with Some assms show ?thesis
    by (auto simp: bmap_getBitCapacity_def bmap_wf_def word_le_nat_alt split: option.splits)
next
  case None
  let ?n = "unat (b_nBits s)" and ?e = "BITMAP_NELEMENTS_FOR_BITS (b_nBits s)"
  have e: "unat ?e = (?n + 31) div 32"
    by (simp add: BITMAP_NELEMENTS_FOR_BITS_def unat_KMATH_NELEMENTS)
  have b: "unat ?e * 32 < ?n + 32" "?n \<le> unat ?e * 32" unfolding e by linarith+
  then have cap: "unat (?e * 4 * 8) = unat ?e * 32"
    using assms(2) by (simp add: unat_word_ariths mult.assoc)
  have n32: "unat (b_nBits s + 4 * 8) = ?n + 32" using assms(2) by (simp add: unat_word_ariths)
  have fits: "unat ?e * 32 \<le> nbits arr" if "b_bmp s = Some arr" for arr
  proof -
    have "?n \<le> 32 * length arr" using assms(1) that by (simp add: bmap_wf_def)
    then show ?thesis unfolding e by simp
  qed
  have "?e * 4 * 8 = 0" if "b_bmp s = None"
    using assms(1) that cap b(1) by (simp add: bmap_wf_def word_unat_eq_iff)
  moreover have "bmap_getBitCapacity s = Some (?e * 4 * 8)"
    using None b cap n32 by (simp add: bmap_getBitCapacity_def word_le_nat_alt word_less_nat_alt Let_def)
  ultimately show ?thesis
    using None b cap fits by (auto simp: word_le_nat_alt split: option.splits)
qed

lemma bmap_resizeTo_elems:
  assumes inv: "bmap_inv s" and n: "0 < n" "unat n < 2 ^ 31" "unat (b_nBits s) < 2 ^ 31"
    and mem: "\<forall>tmp. mem = Some tmp \<longrightarrow> length tmp = unat (BITMAP_NELEMENTS_FOR_BITS n)"
  shows "\<exists>r s'. bmap_resizeTo n mem s = Some (r, s') \<and> bmap_inv s' \<and>
     (if r = ERROR_SUCCESS
      then b_nBits s' = n \<and>
        (\<forall>k. k < unat n \<and> k < unat (b_nBits s) \<longrightarrow> (k \<in> bmap_elems s' \<longleftrightarrow> k \<in> bmap_elems s))
      else r = ERROR_MEMORY_NOMEM \<and> mem = None \<and> s' = s)"
proof -
  from inv have wf: "bmap_wf s" and l: "\<not> b_lock s" by (simp_all add: bmap_inv_def)
  from bmap_getBitCapacity_ok [OF wf n(3)] obtain cap where cap: "bmap_getBitCapacity s = Some cap"
    "case b_bmp s of None \<Rightarrow> cap = 0 | Some arr \<Rightarrow> unat cap \<le> nbits arr"
    "b_nBits s \<le> cap" "\<forall>sz. b_pre s = Some sz \<longrightarrow> unat cap = 8 * unat sz" by blast
  have n0: "n \<noteq> 0" using n(1) by auto
  show ?thesis
  proof (cases "n < cap")
    case True
    with cap n0 l wf show ?thesis
      by (auto simp: bmap_resizeTo_def bmap_inv_def bmap_wf_def bmap_elems_def word_less_nat_alt
          split: option.splits)
  next
    case False
    show ?thesis
    proof (cases mem)
      case None
      with l have "s\<lparr>b_lock := False\<rparr> = s" by simp
      with None False cap n0 l wf show ?thesis by (simp add: bmap_resizeTo_def bmap_inv_def)
    next
      case (Some tmp)
      have len: "length tmp = (unat n + 31) div 32"
        using mem Some by (simp add: BITMAP_NELEMENTS_FOR_BITS_def unat_KMATH_NELEMENTS)
      have bytes: "unat (KMATH_NELEMENTS k 8) = (unat k + 7) div 8" for k
        by (simp add: unat_KMATH_NELEMENTS)
      have f1: "x \<le> 32 * y \<Longrightarrow> (x + 7) div 8 \<le> 4 * y" for x y :: nat by linarith
      have f2: "y \<le> 32 * ((y + 31) div 32)" for y :: nat by linarith
      have fit: "x \<le> y \<Longrightarrow> (x + 7) div 8 \<le> 4 * ((y + 31) div 32)" for x y :: nat
        using f1 f2 order_trans by blast
      obtain t1 where t1: "memset0 tmp (unat (KMATH_NELEMENTS n 8)) = Some t1" "length t1 = length tmp"
        using len fit by (auto simp: memset0_def bytes)
      show ?thesis
      proof (cases "b_bmp s")
        case None
        with wf have "bmap_elems s = {}" "b_nBits s = 0" by (auto simp: bmap_elems_def bmap_wf_def)
        with None Some False cap n0 l t1 len show ?thesis
          by (auto simp: bmap_resizeTo_def bmap_inv_def bmap_wf_def)
      next
        case old: (Some old)
        have le: "unat (b_nBits s) \<le> unat n" "unat (b_nBits s) \<le> nbits old"
          using cap(3) False wf old by (simp_all add: bmap_wf_def word_less_nat_alt word_le_nat_alt)
        obtain t2 where t2: "memcpy_elems t1 old (unat (KMATH_NELEMENTS (b_nBits s) 8)) = Some t2"
          using len t1 le fit f1 by (auto simp: memcpy_elems_def bytes)
        have same: "bit_at t2 k = bit_at old k" if "k < unat (b_nBits s)" for k
          using bit_at_memcpy [OF t2, of k] that le len t1 by (auto simp: bytes)
        have lt2: "length t2 = length tmp" using t2 t1 by (auto simp: memcpy_elems_def split: if_splits)
        show ?thesis
          using old Some False cap n0 l t1 t2 same lt2 len le
          by (auto simp: bmap_resizeTo_def bmap_inv_def bmap_wf_def bmap_elems_def)
      qed
    qed
  qed
qed

text \<open>C27: Resizing a bitmap never loses a bit: whatever the allocator's memory contains, on
  success every bit below both the old and the new size keeps its value, the invariant holds
  and the lock is free; if the allocation fails the bitmap is unchanged.\<close>

theorem bmap_resizeTo_preserves:
  assumes inv: "bmap_inv s" and n: "0 < n" "unat n < 2 ^ 31" "unat (b_nBits s) < 2 ^ 31"
    and mem: "\<forall>tmp. mem = Some tmp \<longrightarrow> length tmp = unat (BITMAP_NELEMENTS_FOR_BITS n)"
  shows "\<exists>r s'. bmap_resizeTo n mem s = Some (r, s') \<and> bmap_inv s' \<and>
     (if r = ERROR_SUCCESS
      then b_nBits s' = n \<and>
        (\<forall>k. k < unat n \<and> k < unat (b_nBits s) \<longrightarrow> (k \<in> bmap_elems s' \<longleftrightarrow> k \<in> bmap_elems s))
      else r = ERROR_MEMORY_NOMEM \<and> mem = None \<and> s' = s)"
  by (rule bmap_resizeTo_elems [OF assms])

theorem bmap_resizeTo_preserves_witness:
  "\<exists>r s'. bmap_resizeTo 40 (Some [7, 7]) \<lparr>b_bmp = Some [2], b_nBits = 2, b_pre = None, b_lock = False\<rparr>
       = Some (r, s') \<and> r = ERROR_SUCCESS \<and> 1 \<in> bmap_elems s' \<and> 0 \<notin> bmap_elems s'"
proof -
  let ?s = "\<lparr>b_bmp = Some [2], b_nBits = 2, b_pre = None, b_lock = False\<rparr> :: bmap"
  have inv: "bmap_inv ?s" by (simp add: bmap_inv_def bmap_wf_def)
  have len: "\<forall>tmp. Some [7, 7] = Some tmp \<longrightarrow> length tmp = unat (BITMAP_NELEMENTS_FOR_BITS 40)"
    by (auto simp: BITMAP_NELEMENTS_FOR_BITS_def unat_KMATH_NELEMENTS)
  obtain r s' where rs: "bmap_resizeTo 40 (Some [7, 7]) ?s = Some (r, s')" "r = ERROR_SUCCESS"
    "\<forall>k. k < 40 \<and> k < 2 \<longrightarrow> (k \<in> bmap_elems s' \<longleftrightarrow> k \<in> bmap_elems ?s)"
    using bmap_resizeTo_preserves [OF inv _ _ _ len] by (auto split: if_splits)
  have "bit (2::u32) 0 = False" "bit (2::u32) 1" by code_simp+
  then have "0 \<notin> bmap_elems ?s" "1 \<in> bmap_elems ?s" by (simp_all add: bmap_elems_def bit_at_def)
  with rs show ?thesis by auto
qed

text \<open>Growing a bitmap in place exposes bits that were never cleared.  \<open>resizeTo\<close> clears only
  the bytes that hold the requested bits of the new array; when a later \<open>resizeTo\<close> stays within
  the element capacity, the remaining bytes become valid bits without being initialised: after
  growing an empty bitmap to 33 and then to 50 bits, bit 45 is whatever the allocator left.\<close>

theorem bmap_resizeTo_exposes_uninitialised:
  "do { (r1, s1) \<leftarrow> bmap_resizeTo 33 (Some [g0, g1]) bmap_init;
        (r2, s2) \<leftarrow> bmap_resizeTo 50 None s1;
        t \<leftarrow> bmap_test 45 s2;
        Some (r1, r2, t) } = Some (ERROR_SUCCESS, ERROR_SUCCESS, bit g1 13)"
proof -
  have k: "KMATH_NELEMENTS 33 8 = 5" "BITMAP_NELEMENTS_FOR_BITS 33 = 2" "KMATH_NELEMENTS 0 32 = 0"
    by code_simp+
  let ?arr = "[g0 AND NOT (elem_mask 5 0), g1 AND NOT (elem_mask 5 1)]"
  have m: "memset0 [g0, g1] 5 = Some ?arr" by (simp add: memset0_def upt_rec)
  have "bitIsSet ?arr 45 = Some (bit g1 13)"
    by (simp add: bitIsSet_eq bit_at_def bit_and_iff bit_not_iff bit_elem_mask)
  with k m show ?thesis
    by (simp add: bmap_resizeTo_def bmap_init_def bmap_getBitCapacity_def bmap_test_def
        BITMAP_NELEMENTS_FOR_BITS_def)
qed

text \<open>Initialisation clears every bit.\<close>

lemma bmap_initialize_empty:
  assumes "\<not> b_lock s" "b_pre s = None" "0 < nBits"
    and "mem = Some arr" "length arr = unat (BITMAP_NELEMENTS_FOR_BITS nBits)"
  shows "\<exists>s'. bmap_initialize nBits None mem s = Some (ERROR_SUCCESS, s') \<and> bmap_inv s' \<and> bmap_elems s' = {}"
proof -
  let ?e = "BITMAP_NELEMENTS_FOR_BITS nBits"
  have e: "unat ?e = (unat nBits + 31) div 32"
    by (simp add: BITMAP_NELEMENTS_FOR_BITS_def unat_KMATH_NELEMENTS)
  have "0 < unat nBits" using assms(3) by (simp add: word_less_nat_alt)
  then have "?e \<noteq> 0" "unat nBits \<le> nbits arr" using e assms(5) by (auto simp: word_unat_eq_iff)
  moreover obtain z where z: "memset0 arr (unat ?e * 4) = Some z" "length z = length arr"
    using assms(5) by (auto simp: memset0_def)
  moreover have "\<not> bit_at z k" if "k < unat nBits" for k
    using bit_at_memset0 [OF z(1), of k] that assms(5) e \<open>unat nBits \<le> nbits arr\<close> by auto
  ultimately show ?thesis using assms
    by (auto simp: bmap_initialize_def bmap_inv_def bmap_wf_def bmap_elems_def)
qed

end
