(* ===== verification/MemBmp.thy ===== *)
theory MemBmp
  imports KBitmap
begin

text \<open>
  \<open>MemoryBmp\<close> (\<open>include/__kclasses/memBmp.h\<close>, \<open>__kclasses/memBmp.cpp\<close>): the bitmap of physical
  page frames of one NUMA memory bank.  A set bit is a used frame.  The model is the 32-bit
  build without PAE: physical addresses and page frame numbers are 32-bit words and a page is
  \<open>2 ^ 12\<close> bytes.
\<close>

abbreviation (input) PAGING_BASE_SHIFT :: nat where "PAGING_BASE_SHIFT \<equiv> 12"
abbreviation (input) PAGING_BASE_MASK_LOW :: u32 where "PAGING_BASE_MASK_LOW \<equiv> 0xFFF"
abbreviation (input) MEMBMP_FULL_SLOT :: u32 where "MEMBMP_FULL_SLOT \<equiv> 0xFFFFFFFF"
abbreviation (input) MEMBMP_FLAGS_DYNAMIC :: u32 where "MEMBMP_FLAGS_DYNAMIC \<equiv> 1"

record membmp =
  m_basePfn :: u32
  m_endPfn :: u32
  m_bmpNFrames :: u32
  m_flags :: u32
  m_nIndexes :: u32
  m_bmpSize :: u32
  m_baseAddr :: u32
  m_endAddr :: u32
  m_bmp :: "u32 list option"
  m_lastAllocIndex :: u32
  m_lock :: bool

section \<open>Operations\<close>

definition mb_construct :: "u32 \<Rightarrow> u32 \<Rightarrow> membmp" where
  "mb_construct base sz =
     (let endA = base + (sz - 1);
          basePfn = drop_bit PAGING_BASE_SHIFT base;
          endPfn = drop_bit PAGING_BASE_SHIFT endA;
          nFrames = (endPfn - basePfn) + 1;
          nIndexes = KMATH_NELEMENTS nFrames 32
      in \<lparr>m_basePfn = basePfn, m_endPfn = endPfn, m_bmpNFrames = nFrames, m_flags = 0,
          m_nIndexes = nIndexes, m_bmpSize = nIndexes * 4, m_baseAddr = base, m_endAddr = endA,
          m_bmp = None, m_lastAllocIndex = 0, m_lock = False\<rparr>)"

definition mb_setFrame :: "u32 \<Rightarrow> membmp \<Rightarrow> membmp option" where
  "mb_setFrame pfn s = do {
     u \<leftarrow> assert_fatal (pfn \<ge> m_basePfn s \<and> pfn \<le> m_endPfn s);
     bmp \<leftarrow> m_bmp s;
     bmp' \<leftarrow> setBit bmp (pfn - m_basePfn s);
     Some (s\<lparr>m_bmp := Some bmp'\<rparr>)
   }"

definition mb_unsetFrame :: "u32 \<Rightarrow> membmp \<Rightarrow> membmp option" where
  "mb_unsetFrame pfn s = do {
     u \<leftarrow> assert_fatal (pfn \<ge> m_basePfn s \<and> pfn \<le> m_endPfn s);
     bmp \<leftarrow> m_bmp s;
     bmp' \<leftarrow> unsetBit bmp (pfn - m_basePfn s);
     Some (s\<lparr>m_bmp := Some bmp'\<rparr>)
   }"

definition mb_testFrame :: "u32 \<Rightarrow> membmp \<Rightarrow> bool option" where
  "mb_testFrame pfn s = do {
     u \<leftarrow> assert_fatal (pfn \<ge> m_basePfn s \<and> pfn \<le> m_endPfn s);
     bmp \<leftarrow> m_bmp s;
     bitIsSet bmp (pfn - m_basePfn s)
   }"

text \<open>\<open>pre\<close> is the preallocated array, if one was passed, \<open>mem\<close> what the kernel memory stream
  returned otherwise.\<close>

definition mb_initialize ::
  "u32 list option \<Rightarrow> u32 list option \<Rightarrow> membmp \<Rightarrow> (error_t \<times> membmp) option" where
  "mb_initialize pre mem s =
     (case (if pre \<noteq> None then pre else mem) of
        None \<Rightarrow> Some (ERROR_MEMORY_NOMEM, s\<lparr>m_bmp := None\<rparr>)
      | Some arr \<Rightarrow> do {
          let s = (if pre \<noteq> None then s
                   else s\<lparr>m_flags := m_flags s OR MEMBMP_FLAGS_DYNAMIC\<rparr>);
          z \<leftarrow> memset0 arr (unat (m_bmpSize s));
          let s = s\<lparr>m_bmp := Some z\<rparr>;
          s \<leftarrow> (if m_baseAddr s AND PAGING_BASE_MASK_LOW \<noteq> 0 then mb_setFrame (m_basePfn s) s
                else Some s);
          s \<leftarrow> (if m_endAddr s AND PAGING_BASE_MASK_LOW = 0 then mb_setFrame (m_endPfn s) s
                else Some s);
          Some (ERROR_SUCCESS, s)
        })"

definition mb_merge :: "membmp \<Rightarrow> membmp \<Rightarrow> (status_t \<times> membmp) option" where
  "mb_merge b s =
     (if m_basePfn b > m_endPfn s \<or> m_endPfn b < m_basePfn s then Some (0, s)
      else do {
        let loopStartPfn = (if m_basePfn b < m_basePfn s then m_basePfn s else m_basePfn b);
        let loopMaxPfn = (if m_endPfn b > m_endPfn s then m_endPfn s else m_endPfn b);
        k \<leftarrow> lock_acquire (m_lock s);
        (ret, s) \<leftarrow> word_for loopStartPfn loopMaxPfn
           (\<lambda>pfn (ret, s). do {
              t \<leftarrow> mb_testFrame pfn b;
              if t then do { s \<leftarrow> mb_setFrame pfn s; Some (ret + 1, s) } else Some (ret, s)
            }) (0, s\<lparr>m_lock := k\<rparr>);
        Some (ret, s\<lparr>m_lock := lock_release\<rparr>)
      })"

definition mb_releaseFrames :: "u32 \<Rightarrow> u32 \<Rightarrow> membmp \<Rightarrow> (int \<times> membmp) option" where
  "mb_releaseFrames frameAddr nFrames s =
     (if nFrames = 0 then Some (0, s)
      else let rangeStartPfn = drop_bit PAGING_BASE_SHIFT frameAddr;
               rangeEndPfn = rangeStartPfn + nFrames
      in if \<not> ((frameAddr \<ge> rangeStartPfn \<and> frameAddr \<le> m_endPfn s)
               \<or> (rangeEndPfn > rangeStartPfn \<and> rangeEndPfn \<le> m_endPfn s))
         then Some (0, s)
         else do {
           k \<leftarrow> lock_acquire (m_lock s);
           s \<leftarrow> word_for rangeStartPfn rangeEndPfn mb_unsetFrame (s\<lparr>m_lock := k\<rparr>);
           Some (1, s\<lparr>m_lastAllocIndex := (rangeStartPfn - m_basePfn s) div 32,
                      m_lock := lock_release\<rparr>)
         })"

definition mb_mapMemUsed :: "u32 \<Rightarrow> u32 \<Rightarrow> membmp \<Rightarrow> membmp option" where
  "mb_mapMemUsed rangeBaseAddr rangeNFrames s = do {
     let rangeStartPfn = (if rangeBaseAddr \<ge> m_baseAddr s
                          then drop_bit PAGING_BASE_SHIFT rangeBaseAddr else m_basePfn s);
     let rangeEndPfn = drop_bit PAGING_BASE_SHIFT rangeBaseAddr + rangeNFrames;
     let rangeEndPfn = (if rangeEndPfn > m_endPfn s then m_endPfn s + 1 else rangeEndPfn);
     k \<leftarrow> lock_acquire (m_lock s);
     s \<leftarrow> word_for rangeStartPfn rangeEndPfn mb_setFrame (s\<lparr>m_lock := k\<rparr>);
     Some (s\<lparr>m_lock := lock_release\<rparr>)
   }"

definition mb_mapMemUnused :: "u32 \<Rightarrow> u32 \<Rightarrow> membmp \<Rightarrow> membmp option" where
  "mb_mapMemUnused rangeBaseAddr rangeNFrames s = do {
     let rangeStartPfn = (if rangeBaseAddr \<ge> m_baseAddr s
                          then drop_bit PAGING_BASE_SHIFT rangeBaseAddr else m_basePfn s);
     let rangeEndPfn = drop_bit PAGING_BASE_SHIFT rangeBaseAddr + rangeNFrames;
     let rangeEndPfn = (if rangeEndPfn > m_endPfn s then m_endPfn s + 1 else rangeEndPfn);
     k \<leftarrow> lock_acquire (m_lock s);
     s \<leftarrow> word_for rangeStartPfn rangeEndPfn mb_unsetFrame (s\<lparr>m_lock := k\<rparr>);
     Some (s\<lparr>m_lock := lock_release\<rparr>)
   }"

subsection \<open>\<open>fragmentedGetFrames\<close>\<close>

text \<open>The bit limit of the last element.\<close>

definition fgf_limit :: "u32 \<Rightarrow> u32 \<Rightarrow> u32 \<Rightarrow> u32 \<Rightarrow> u32" where
  "fgf_limit nIndexes nFrames i bitLimit =
     (if i = nIndexes - 1 then (if nFrames mod 32 = 0 then 32 else nFrames mod 32) else bitLimit)"

text \<open>The innermost loop over \<open>k\<close>: \<open>(True, nFound)\<close> is \<open>goto out\<close>.\<close>

function fgf_k :: "u32 \<Rightarrow> u32 \<Rightarrow> u32 \<Rightarrow> u32 \<Rightarrow> u32 \<Rightarrow> bool \<times> u32" where
  "fgf_k w k bitLimit nFound n =
     (if k < bitLimit then
        if KBIT_TEST w k then (True, nFound)
        else if nFound + 1 \<ge> n then (True, nFound + 1)
        else fgf_k w (k + 1) bitLimit (nFound + 1) n
      else (False, nFound))"
  by pat_completeness auto
termination
  by (relation "measure (\<lambda>(w, k, bitLimit, nFound, n). unat bitLimit - unat k)")
     (simp_all add: word_diff_Suc_less)

text \<open>The loop that continues from the element \<open>i\<close> of the first free bit \<open>j\<close>.\<close>

function fgf_i :: "u32 list \<Rightarrow> u32 \<Rightarrow> u32 \<Rightarrow> u32 \<Rightarrow> u32 \<Rightarrow> u32 \<Rightarrow> u32 \<Rightarrow> u32 \<Rightarrow>
    (bool \<times> u32 \<times> u32) option" where
  "fgf_i bmp nIndexes nFrames i j bitLimit nFound n =
     (if i < nIndexes then
        case arr_get bmp (unat i) of
          None \<Rightarrow> None
        | Some w \<Rightarrow>
            if w = MEMBMP_FULL_SLOT then Some (True, nFound, bitLimit)
            else let bitLimit = fgf_limit nIndexes nFrames i bitLimit;
                     (out, nf) = fgf_k w (if nFound = 0 then j else 0) bitLimit nFound n
                 in if out then Some (True, nf, bitLimit)
                    else fgf_i bmp nIndexes nFrames (i + 1) j bitLimit nf n
      else Some (False, nFound, bitLimit))"
  by pat_completeness auto
termination
  by (relation "measure (\<lambda>(bmp, nIndexes, nFrames, i, j, bitLimit, nFound, n). unat nIndexes - unat i)")
     (simp_all add: word_diff_Suc_less)

declare fgf_k.simps [simp del] fgf_i.simps [simp del]

lemma fgf_limit_le: "unat (fgf_limit nIndexes nFrames i bitLimit) \<le> max 32 (unat bitLimit)"
  using unat_mod_distrib [of nFrames 32] mod_less_divisor [of 32 "unat nFrames"]
  by (auto simp: fgf_limit_def)

lemma fgf_i_limit:
  "fgf_i bmp nIndexes nFrames i j bitLimit nFound n = Some (out, nf, lim) \<Longrightarrow>
   unat lim \<le> max 32 (unat bitLimit)"
proof (induction bmp nIndexes nFrames i j bitLimit nFound n rule: fgf_i.induct)
  case (1 bmp nIndexes nFrames i j bitLimit nFound n)
  show ?case
  proof (cases "i < nIndexes")
    case True
    with "1.prems" obtain w where w: "arr_get bmp (unat i) = Some w"
      by (auto simp: fgf_i.simps [of bmp nIndexes nFrames i] split: option.splits)
    obtain o' nf' where k: "fgf_k w (if nFound = 0 then j else 0)
        (fgf_limit nIndexes nFrames i bitLimit) nFound n = (o', nf')" by fastforce
    show ?thesis
      using "1.prems" "1.IH" [OF True w _ refl k [symmetric] refl] True w k
        fgf_limit_le [of nIndexes nFrames i bitLimit]
      by (auto simp: fgf_i.simps [of bmp nIndexes nFrames i] Let_def split: if_splits)
  next
    case False
    with "1.prems" show ?thesis by (simp add: fgf_i.simps [of bmp nIndexes nFrames i])
  qed
qed

text \<open>The loop over \<open>j\<close> in element \<open>i\<close>.  The result is \<open>Inl (startPfn, nFound)\<close> for
  \<open>goto out\<close>, \<open>Inr (i, bitLimit, nFound)\<close> when the loop is left.  Note that \<open>fgf_i\<close> moves \<open>i\<close>
  past the end and the loop then goes on reading element \<open>i\<close>.\<close>

function fgf_j :: "u32 list \<Rightarrow> u32 \<Rightarrow> u32 \<Rightarrow> u32 \<Rightarrow> u32 \<Rightarrow> u32 \<Rightarrow> u32 \<Rightarrow> u32 \<Rightarrow> u32 \<Rightarrow>
    ((u32 \<times> u32) + (u32 \<times> u32 \<times> u32)) option" where
  "fgf_j bmp nIndexes nFrames basePfn i j bitLimit nFound n =
     (if j < bitLimit then
        case arr_get bmp (unat i) of
          None \<Rightarrow> None
        | Some w \<Rightarrow>
            if \<not> KBIT_TEST w j then
              case fgf_i bmp nIndexes nFrames i j bitLimit nFound n of
                None \<Rightarrow> None
              | Some (out, nf, lim) \<Rightarrow>
                  if out then Some (Inl (basePfn + i * 32 + j, nf))
                  else fgf_j bmp nIndexes nFrames basePfn (if i < nIndexes then nIndexes else i)
                         (j + 1) lim nf n
            else fgf_j bmp nIndexes nFrames basePfn i (j + 1) bitLimit nFound n
      else Some (Inr (i, bitLimit, nFound)))"
  by pat_completeness auto
termination
proof (relation "measure (\<lambda>(bmp, nIndexes, nFrames, basePfn, i, j, bitLimit, nFound, n).
    max 32 (unat bitLimit) - unat j)", goal_cases)
  case (2 bmp nIndexes nFrames basePfn i j bitLimit nFound n w y out yb nf lim)
  then have "unat lim \<le> max 32 (unat bitLimit)" using fgf_i_limit by metis
  moreover have "unat j < unat bitLimit" using 2 by (simp add: word_less_nat_alt)
  ultimately show ?case using unat_Suc_less [of j bitLimit] 2 by auto
next
  case (3 bmp nIndexes nFrames basePfn i j bitLimit nFound n w)
  then have "unat j < unat bitLimit" by (simp add: word_less_nat_alt)
  with 3 show ?case using unat_Suc_less [of j bitLimit] by auto
qed simp

declare fgf_j.simps [simp del]

lemma fgf_j_index:
  "fgf_j bmp nIndexes nFrames basePfn i j bitLimit nFound n = Some (Inr (i', bl, nf)) \<Longrightarrow>
   i' = i \<or> i' = nIndexes \<and> i < nIndexes"
proof (induction bmp nIndexes nFrames basePfn i j bitLimit nFound n rule: fgf_j.induct)
  case (1 bmp nIndexes nFrames basePfn i j bitLimit nFound n)
  show ?case
  proof (cases "j < bitLimit")
    case True
    with "1.prems" obtain w where w: "arr_get bmp (unat i) = Some w"
      by (auto simp: fgf_j.simps [of bmp nIndexes nFrames basePfn i] split: option.splits)
    note eq = fgf_j.simps [of bmp nIndexes nFrames basePfn i j bitLimit nFound n]
    show ?thesis
    proof (cases "KBIT_TEST w j")
      case t: True
      with "1.prems" True w "1.IH"(2) [OF True w] show ?thesis by (simp add: eq)
    next
      case f: False
      with "1.prems" True w obtain y where y: "fgf_i bmp nIndexes nFrames i j bitLimit nFound n = Some y"
        by (auto simp: eq split: option.splits)
      obtain out nf2 lim where yy: "y = (out, nf2, lim)" by (cases y) auto
      with "1.prems" True w f y "1.IH"(1) [OF True w f y] show ?thesis
        by (auto simp: eq split: if_splits)
    qed
  next
    case False
    with "1.prems" show ?thesis by (simp add: fgf_j.simps [of bmp nIndexes nFrames basePfn i])
  qed
qed

text \<open>The outermost loop; \<open>Some None\<close> is the exhausted search.  Leaving the inner loops with
  \<open>i = nIndexes\<close> ends it (the increment cannot wrap, \<open>nIndexes\<close> is at most \<open>2 ^ 27\<close>).\<close>

function fgf_outer :: "u32 list \<Rightarrow> u32 \<Rightarrow> u32 \<Rightarrow> u32 \<Rightarrow> u32 \<Rightarrow> u32 \<Rightarrow> u32 \<Rightarrow> u32 \<Rightarrow>
    (u32 \<times> u32) option option" where
  "fgf_outer bmp nIndexes nFrames basePfn i bitLimit nFound n =
     (if i < nIndexes then
        case arr_get bmp (unat i) of
          None \<Rightarrow> None
        | Some w \<Rightarrow>
            if w = MEMBMP_FULL_SLOT then fgf_outer bmp nIndexes nFrames basePfn (i + 1) bitLimit nFound n
            else case fgf_j bmp nIndexes nFrames basePfn i 0
                        (fgf_limit nIndexes nFrames i bitLimit) nFound n of
              None \<Rightarrow> None
            | Some (Inl r) \<Rightarrow> Some (Some r)
            | Some (Inr (i', bl, nf)) \<Rightarrow>
                if i' < nIndexes then fgf_outer bmp nIndexes nFrames basePfn (i' + 1) bl nf n
                else Some None
      else Some None)"
  by pat_completeness auto
termination
proof (relation "measure (\<lambda>(bmp, nIndexes, nFrames, basePfn, i, bitLimit, nFound, n). unat nIndexes - unat i)",
    goal_cases)
  case (3 bmp nIndexes nFrames basePfn i bitLimit nFound n w y z i' q bl nf)
  then have "i' = i" using fgf_j_index by (metis order_less_irrefl)
  with 3 show ?case by (simp add: word_diff_Suc_less)
qed (simp_all add: word_diff_Suc_less)

declare fgf_outer.simps [simp del]

text \<open>The whole operation: the returned status, the address stored through \<open>paddr\<close> if any, and
  the new state.\<close>

definition mb_fragmentedGetFrames ::
  "u32 \<Rightarrow> bool \<Rightarrow> membmp \<Rightarrow> (status_t \<times> u32 option \<times> membmp) option" where
  "mb_fragmentedGetFrames n paddrIsNull s =
     (if paddrIsNull then Some (ERROR_INVALID_ARG, None, s)
      else if n = 0 then Some (ERROR_SUCCESS, None, s)
      else do {
        k \<leftarrow> lock_acquire (m_lock s);
        bmp \<leftarrow> m_bmp s;
        r \<leftarrow> fgf_outer bmp (m_nIndexes s) (m_bmpNFrames s) (m_basePfn s) (m_lastAllocIndex s) 32 0 n;
        case r of
          None \<Rightarrow> Some (ERROR_MEMORY_NOMEM_PHYSICAL, None, s\<lparr>m_lock := lock_release\<rparr>)
        | Some (startPfn, nFound) \<Rightarrow> do {
            let endPfn = startPfn + nFound;
            s \<leftarrow> word_for startPfn endPfn mb_setFrame (s\<lparr>m_lock := k\<rparr>);
            Some (sint nFound, Some (push_bit PAGING_BASE_SHIFT startPfn),
              s\<lparr>m_lastAllocIndex := (endPfn - m_basePfn s) div 32, m_lock := lock_release\<rparr>)
          }
      })"

section \<open>Invariant and abstraction\<close>

definition mb_wf :: "membmp \<Rightarrow> bool" where
  "mb_wf s \<longleftrightarrow> m_basePfn s \<le> m_endPfn s \<and> unat (m_endPfn s) < 2 ^ 20 \<and>
     m_bmpNFrames s = m_endPfn s - m_basePfn s + 1 \<and>
     m_nIndexes s = KMATH_NELEMENTS (m_bmpNFrames s) 32 \<and>
     m_basePfn s = drop_bit 12 (m_baseAddr s) \<and>
     (case m_bmp s of None \<Rightarrow> False | Some bmp \<Rightarrow> length bmp = unat (m_nIndexes s))"

definition mb_inv :: "membmp \<Rightarrow> bool" where
  "mb_inv s \<longleftrightarrow> mb_wf s \<and> \<not> m_lock s"

text \<open>The used frames, as absolute frame numbers.\<close>

definition mb_used :: "membmp \<Rightarrow> nat set" where
  "mb_used s = {p. unat (m_basePfn s) \<le> p \<and> p \<le> unat (m_endPfn s) \<and>
     (case m_bmp s of None \<Rightarrow> False | Some bmp \<Rightarrow> bit_at bmp (p - unat (m_basePfn s)))}"

definition mb_frames :: "membmp \<Rightarrow> nat set" where
  "mb_frames s = {unat (m_basePfn s)..unat (m_endPfn s)}"

lemma mb_wf_upd [simp]:
  "mb_wf (s\<lparr>m_lock := l\<rparr>) = mb_wf s" "mb_wf (s\<lparr>m_lastAllocIndex := i\<rparr>) = mb_wf s"
  "mb_used (s\<lparr>m_lock := l\<rparr>) = mb_used s" "mb_used (s\<lparr>m_lastAllocIndex := i\<rparr>) = mb_used s"
  by (auto simp: mb_wf_def mb_used_def split: option.splits)

lemma mb_wf_sizes:
  assumes "mb_wf s"
  shows "unat (m_bmpNFrames s) = Suc (unat (m_endPfn s) - unat (m_basePfn s))"
    and "unat (m_nIndexes s) = (unat (m_bmpNFrames s) + 31) div 32"
    and "unat (m_bmpNFrames s) \<le> 32 * unat (m_nIndexes s)"
proof -
  from assms have le: "m_basePfn s \<le> m_endPfn s" and lim: "unat (m_endPfn s) < 2 ^ 20"
    and nf: "m_bmpNFrames s = m_endPfn s - m_basePfn s + 1" by (auto simp: mb_wf_def)
  from le have d: "unat (m_endPfn s - m_basePfn s) = unat (m_endPfn s) - unat (m_basePfn s)"
    by (rule unat_sub)
  show n: "unat (m_bmpNFrames s) = Suc (unat (m_endPfn s) - unat (m_basePfn s))"
    unfolding nf using lim d by (subst unat_add_no_wrap) auto
  show i: "unat (m_nIndexes s) = (unat (m_bmpNFrames s) + 31) div 32"
    using assms by (simp add: mb_wf_def unat_KMATH_NELEMENTS)
  show "unat (m_bmpNFrames s) \<le> 32 * unat (m_nIndexes s)" unfolding i by linarith
qed

lemma mb_setFrame_used:
  assumes "mb_wf s" "m_basePfn s \<le> p" "p \<le> m_endPfn s"
  shows "\<exists>s'. mb_setFrame p s = Some s' \<and> mb_wf s' \<and> mb_used s' = insert (unat p) (mb_used s) \<and>
     m_basePfn s' = m_basePfn s \<and> m_endPfn s' = m_endPfn s \<and> m_lock s' = m_lock s"
proof -
  from assms obtain bmp where bmp: "m_bmp s = Some bmp" "length bmp = unat (m_nIndexes s)"
    by (auto simp: mb_wf_def split: option.splits)
  have off: "unat (p - m_basePfn s) = unat p - unat (m_basePfn s)" using assms by (simp add: unat_sub)
  have le: "unat (m_basePfn s) \<le> unat p" "unat p \<le> unat (m_endPfn s)"
    using assms by (simp_all add: word_le_nat_alt)
  have "unat p - unat (m_basePfn s) < nbits bmp"
    using mb_wf_sizes [OF assms(1)] bmp le by linarith
  with off obtain bmp' where b: "setBit bmp (p - m_basePfn s) = Some bmp'"
    using setBit_defined by metis
  have rng: "q - unat (m_basePfn s) < nbits bmp" if "q \<le> unat (m_endPfn s)" for q
    using that mb_wf_sizes [OF assms(1)] bmp(2) by linarith
  have "q \<in> mb_used (s\<lparr>m_bmp := Some bmp'\<rparr>) \<longleftrightarrow> q = unat p \<or> q \<in> mb_used s" for q
    using setBit_eq_Some [OF b] rng [of q] bmp(1) off le by (auto simp: mb_used_def)
  with assms bmp b setBit_eq_Some [OF b] show ?thesis
    by (auto simp: mb_setFrame_def mb_wf_def)
qed

lemma mb_unsetFrame_used:
  assumes "mb_wf s" "m_basePfn s \<le> p" "p \<le> m_endPfn s"
  shows "\<exists>s'. mb_unsetFrame p s = Some s' \<and> mb_wf s' \<and> mb_used s' = mb_used s - {unat p} \<and>
     m_basePfn s' = m_basePfn s \<and> m_endPfn s' = m_endPfn s \<and> m_lock s' = m_lock s"
proof -
  from assms obtain bmp where bmp: "m_bmp s = Some bmp" "length bmp = unat (m_nIndexes s)"
    by (auto simp: mb_wf_def split: option.splits)
  have off: "unat (p - m_basePfn s) = unat p - unat (m_basePfn s)" using assms by (simp add: unat_sub)
  have le: "unat (m_basePfn s) \<le> unat p" "unat p \<le> unat (m_endPfn s)"
    using assms by (simp_all add: word_le_nat_alt)
  have "unat p - unat (m_basePfn s) < nbits bmp"
    using mb_wf_sizes [OF assms(1)] bmp le by linarith
  with off obtain bmp' where b: "unsetBit bmp (p - m_basePfn s) = Some bmp'"
    using unsetBit_defined by metis
  have rng: "q - unat (m_basePfn s) < nbits bmp" if "q \<le> unat (m_endPfn s)" for q
    using that mb_wf_sizes [OF assms(1)] bmp(2) by linarith
  have "q \<in> mb_used (s\<lparr>m_bmp := Some bmp'\<rparr>) \<longleftrightarrow> q \<noteq> unat p \<and> q \<in> mb_used s" for q
    using unsetBit_eq_Some [OF b] rng [of q] bmp(1) off le by (auto simp: mb_used_def)
  with assms bmp b unsetBit_eq_Some [OF b] show ?thesis
    by (auto simp: mb_unsetFrame_def mb_wf_def)
qed

lemma mb_testFrame_used:
  assumes "mb_wf s" "m_basePfn s \<le> p" "p \<le> m_endPfn s"
  shows "mb_testFrame p s = Some (unat p \<in> mb_used s)"
proof -
  from assms obtain bmp where bmp: "m_bmp s = Some bmp" "length bmp = unat (m_nIndexes s)"
    by (auto simp: mb_wf_def split: option.splits)
  have off: "unat (p - m_basePfn s) = unat p - unat (m_basePfn s)" using assms by (simp add: unat_sub)
  have le: "unat (m_basePfn s) \<le> unat p" "unat p \<le> unat (m_endPfn s)"
    using assms by (simp_all add: word_le_nat_alt)
  have "unat p - unat (m_basePfn s) < nbits bmp"
    using mb_wf_sizes [OF assms(1)] bmp le by linarith
  with assms bmp off le show ?thesis
    by (simp add: mb_testFrame_def bitIsSet_eq mb_used_def)
qed

interpretation mb: index_set mb_wf mb_used "\<lambda>s p. m_basePfn s \<le> p \<and> p \<le> m_endPfn s"
  mb_setFrame mb_unsetFrame
proof
  show "\<exists>s'. mb_setFrame p s = Some s' \<and> mb_wf s' \<and> mb_used s' = insert (unat p) (mb_used s) \<and>
      (\<lambda>p. m_basePfn s' \<le> p \<and> p \<le> m_endPfn s') = (\<lambda>p. m_basePfn s \<le> p \<and> p \<le> m_endPfn s)"
    if "mb_wf s" "m_basePfn s \<le> p \<and> p \<le> m_endPfn s" for s p
    using mb_setFrame_used [of s p] that by auto
  show "\<exists>s'. mb_unsetFrame p s = Some s' \<and> mb_wf s' \<and> mb_used s' = mb_used s - {unat p} \<and>
      (\<lambda>p. m_basePfn s' \<le> p \<and> p \<le> m_endPfn s') = (\<lambda>p. m_basePfn s \<le> p \<and> p \<le> m_endPfn s)"
    if "mb_wf s" "m_basePfn s \<le> p \<and> p \<le> m_endPfn s" for s p
    using mb_unsetFrame_used [of s p] that by auto
qed

section \<open>Marking ranges\<close>

lemma mb_used_subset: "mb_used s \<subseteq> mb_frames s"
  by (auto simp: mb_used_def mb_frames_def)

lemma mb_wf_bounds:
  "mb_wf s \<Longrightarrow> m_basePfn s \<le> m_endPfn s"
  "mb_wf s \<Longrightarrow> unat (m_endPfn s + 1) = Suc (unat (m_endPfn s))"
  "mb_wf s \<Longrightarrow> unat (m_basePfn s) = unat (drop_bit 12 (m_baseAddr s))"
  by (auto simp: mb_wf_def unat_word_ariths)

text \<open>The range the two mapping loops run over.\<close>

lemma mapMem_range:
  assumes "mb_wf s" and fit: "unat (drop_bit 12 addr) + unat nf < 2 ^ 32"
  defines "a \<equiv> (if addr \<ge> m_baseAddr s then drop_bit 12 addr else m_basePfn s)"
    and "e \<equiv> (if drop_bit 12 addr + nf > m_endPfn s then m_endPfn s + 1 else drop_bit 12 addr + nf)"
  shows "\<And>b. a \<le> b \<Longrightarrow> b < e \<Longrightarrow> m_basePfn s \<le> b \<and> b \<le> m_endPfn s"
    and "{unat a..<unat e} = {unat (drop_bit 12 addr)..<unat (drop_bit 12 addr) + unat nf} \<inter> mb_frames s"
proof -
  have sum: "unat (drop_bit 12 addr + nf) = unat (drop_bit 12 addr) + unat nf"
    using fit by (intro unat_add_no_wrap) simp
  have mono: "addr \<ge> m_baseAddr s \<Longrightarrow> unat (m_basePfn s) \<le> unat (drop_bit 12 addr)"
    "addr < m_baseAddr s \<Longrightarrow> unat (drop_bit 12 addr) \<le> unat (m_basePfn s)"
    using mb_wf_bounds(3) [OF assms(1)]
    by (simp_all add: drop_bit_eq_div unat_div_distrib word_le_nat_alt word_less_nat_alt div_le_mono)
  show "m_basePfn s \<le> b \<and> b \<le> m_endPfn s" if "a \<le> b" "b < e" for b
    using that mono sum mb_wf_bounds(2) [OF assms(1)]
    by (auto simp: a_def e_def word_le_nat_alt word_less_nat_alt split: if_splits)
  show "{unat a..<unat e} = {unat (drop_bit 12 addr)..<unat (drop_bit 12 addr) + unat nf} \<inter> mb_frames s"
    using mono sum mb_wf_bounds(1,2) [OF assms(1)]
    by (auto simp: a_def e_def mb_frames_def word_le_nat_alt word_less_nat_alt split: if_splits)
qed

lemma word_for_range_total:
  "(a \<le> e \<Longrightarrow> \<exists>s'. word_for a e f s = Some s' \<and> P {unat a..<unat e} s') \<Longrightarrow> P {} s \<Longrightarrow>
   \<exists>s'. word_for a e f s = Some s' \<and> P {unat a..<unat e} s'"
  by (cases "a \<le> e") (auto simp: word_for_empty word_le_nat_alt not_le)

text \<open>C24: \<open>mapMemUsed\<close> marks exactly the frames of the given physical range that lie in this bank,
  wherever the range starts and ends relative to the bank, and \<open>mapMemUnused\<close> clears exactly
  those; no other frame changes and the lock is released.\<close>

theorem mb_mapMem_exact:
  assumes inv: "mb_inv s" and fit: "unat (drop_bit 12 addr) + unat nf < 2 ^ 32"
  shows "\<exists>s1 s2. mb_mapMemUsed addr nf s = Some s1 \<and> mb_mapMemUnused addr nf s = Some s2 \<and>
     mb_inv s1 \<and> mb_inv s2 \<and>
     mb_used s1 = mb_used s \<union>
       ({unat (drop_bit 12 addr)..<unat (drop_bit 12 addr) + unat nf} \<inter> mb_frames s) \<and>
     mb_used s2 = mb_used s -
       {unat (drop_bit 12 addr)..<unat (drop_bit 12 addr) + unat nf}"
proof -
  from inv have wf: "mb_wf (s\<lparr>m_lock := True\<rparr>)" and wf0: "mb_wf s" and l: "\<not> m_lock s"
    by (simp_all add: mb_inv_def)
  let ?a = "if addr \<ge> m_baseAddr s then drop_bit 12 addr else m_basePfn s"
  let ?e = "if drop_bit 12 addr + nf > m_endPfn s then m_endPfn s + 1 else drop_bit 12 addr + nf"
  note r = mapMem_range [OF wf0 fit]
  have sub: "mb_used s - ({unat (drop_bit 12 addr)..<unat (drop_bit 12 addr) + unat nf} \<inter> mb_frames s)
      = mb_used s - {unat (drop_bit 12 addr)..<unat (drop_bit 12 addr) + unat nf}"
    using mb_used_subset [of s] by auto
  have "\<exists>s'. word_for ?a ?e mb_setFrame (s\<lparr>m_lock := True\<rparr>) = Some s' \<and>
      (mb_wf s' \<and> mb_used s' = mb_used s \<union> {unat ?a..<unat ?e})"
    by (rule word_for_range_total) (use mb.add_range [OF wf, of ?a ?e] r(1) wf in auto)
  moreover have "\<exists>s'. word_for ?a ?e mb_unsetFrame (s\<lparr>m_lock := True\<rparr>) = Some s' \<and>
      (mb_wf s' \<and> mb_used s' = mb_used s - {unat ?a..<unat ?e})"
    by (rule word_for_range_total) (use mb.del_range [OF wf, of ?a ?e] r(1) wf in auto)
  ultimately show ?thesis
    unfolding r(2) sub using l
    by (auto simp: mb_mapMemUsed_def mb_mapMemUnused_def mb_inv_def Let_def)
qed

definition bank0 :: membmp where
  "bank0 = \<lparr>m_basePfn = 16, m_endPfn = 50, m_bmpNFrames = 35, m_flags = 0, m_nIndexes = 2,
     m_bmpSize = 8, m_baseAddr = 0x10000, m_endAddr = 0x32FFF, m_bmp = Some [0xFFFF00FF, 0],
     m_lastAllocIndex = 0, m_lock = False\<rparr>"

lemma bank0_inv: "mb_inv bank0"
proof -
  have "KMATH_NELEMENTS 35 32 = 2" "drop_bit 12 (0x10000 :: u32) = 16" by code_simp+
  then show ?thesis by (simp add: bank0_def mb_inv_def mb_wf_def)
qed

theorem mb_mapMem_exact_witness:
  "\<exists>s1 s2. mb_mapMemUsed 0x8000 10 bank0 = Some s1 \<and> mb_mapMemUnused 0x8000 10 bank0 = Some s2 \<and>
     17 \<in> mb_used s1 \<and> 17 \<notin> mb_used s2"
proof -
  have d: "drop_bit 12 (0x8000 :: u32) = 8" by code_simp
  then have "unat (drop_bit 12 (0x8000 :: u32)) + unat (10 :: u32) < 2 ^ 32" by simp
  from mb_mapMem_exact [OF bank0_inv this] show ?thesis
    unfolding d by (auto simp: mb_frames_def bank0_def)
qed

section \<open>Releasing frames\<close>

text \<open>Releasing a range that lies below the last frame of the bank frees exactly that range,
  reports success, and makes the next search start at the released frames.\<close>

theorem mb_releaseFrames_ok:
  assumes inv: "mb_inv s" and n: "nf \<noteq> 0"
    and lo: "m_basePfn s \<le> drop_bit 12 addr"
    and hi: "unat (drop_bit 12 addr) + unat nf \<le> unat (m_endPfn s)"
  shows "\<exists>s'. mb_releaseFrames addr nf s = Some (1, s') \<and> mb_inv s' \<and>
     mb_used s' = mb_used s - {unat (drop_bit 12 addr)..<unat (drop_bit 12 addr) + unat nf} \<and>
     unat (m_lastAllocIndex s') = (unat (drop_bit 12 addr) - unat (m_basePfn s)) div 32"
proof -
  from inv have wf: "mb_wf (s\<lparr>m_lock := True\<rparr>)" and wf0: "mb_wf s" and l: "\<not> m_lock s"
    by (simp_all add: mb_inv_def)
  let ?a = "drop_bit 12 addr"
  have sum: "unat (?a + nf) = unat ?a + unat nf"
    using hi unat_bound [of "m_endPfn s"] by (intro unat_add_no_wrap) simp
  have "0 < unat nf" using n by (simp add: unat_gt_0)
  then have guard: "?a < ?a + nf" "?a \<le> ?a + nf" "?a + nf \<le> m_endPfn s"
    using sum hi by (simp_all add: word_less_nat_alt word_le_nat_alt)
  have "\<exists>s'. word_for ?a (?a + nf) mb_unsetFrame (s\<lparr>m_lock := True\<rparr>) = Some s' \<and> mb_wf s' \<and>
      mb_used s' = mb_used s - {unat ?a..<unat (?a + nf)} \<and>
      (\<lambda>p. m_basePfn s' \<le> p \<and> p \<le> m_endPfn s') = (\<lambda>p. m_basePfn s \<le> p \<and> p \<le> m_endPfn s)"
    using mb.del_range [OF wf guard(2)] order_trans [OF lo] order_trans [OF less_imp_le guard(3)]
    by simp
  then obtain s' where s': "word_for ?a (?a + nf) mb_unsetFrame (s\<lparr>m_lock := True\<rparr>) = Some s'"
    "mb_wf s'" "mb_used s' = mb_used s - {unat ?a..<unat (?a + nf)}"
    and v: "(\<lambda>p. m_basePfn s' \<le> p \<and> p \<le> m_endPfn s') = (\<lambda>p. m_basePfn s \<le> p \<and> p \<le> m_endPfn s)"
    by blast
  have "m_basePfn s' = m_basePfn s"
    using fun_cong [OF v, of "m_basePfn s"] fun_cong [OF v, of "m_basePfn s'"]
      mb_wf_bounds(1) [OF wf0] mb_wf_bounds(1) [OF s'(2)] by auto
  with s' l n guard lo sum show ?thesis
    by (simp add: mb_releaseFrames_def mb_inv_def Let_def unat_div_distrib unat_sub)
qed

theorem mb_releaseFrames_ok_witness:
  "\<exists>s'. mb_releaseFrames 0x18000 8 bank0 = Some (1, s') \<and> mb_inv s' \<and> 30 \<notin> mb_used s'"
proof -
  have d: "drop_bit 12 (0x18000 :: u32) = 24" by code_simp
  have "8 \<noteq> (0 :: u32)" "m_basePfn bank0 \<le> drop_bit 12 0x18000"
    "unat (drop_bit 12 (0x18000 :: u32)) + unat (8 :: u32) \<le> unat (m_endPfn bank0)"
    unfolding d by (simp_all add: bank0_def)
  from mb_releaseFrames_ok [OF bank0_inv this] show ?thesis unfolding d by auto
qed

text \<open>The range check compares the frame \<^emph>\<open>address\<close> with frame \<^emph>\<open>numbers\<close> and treats
  the last frame number as an exclusive bound: the last frame of a bank (any bank that ends above
  the first page of memory) can never be given back, the call returns 0 and leaves it used.\<close>

theorem mb_releaseFrames_last_frame:
  assumes "mb_inv s" and "0 < m_endPfn s"
  shows "mb_releaseFrames (push_bit 12 (m_endPfn s)) 1 s = Some (0, s)"
proof -
  have lim: "unat (m_endPfn s) < 2 ^ 20" using assms(1) by (simp add: mb_inv_def mb_wf_def)
  let ?e = "unat (m_endPfn s)"
  have e: "0 < ?e" using assms(2) by (simp add: word_less_nat_alt)
  have push: "unat (push_bit 12 (m_endPfn s)) = 4096 * ?e"
    using lim by (simp add: unsigned_push_bit_eq push_bit_nat_def take_bit_nat_eq_self)
  then have "drop_bit 12 (push_bit 12 (m_endPfn s)) = m_endPfn s"
    by (simp add: word_unat_eq_iff drop_bit_eq_div unat_div_distrib)
  moreover have "unat (m_endPfn s + 1) = Suc ?e" using lim by (simp add: unat_word_ariths)
  ultimately show ?thesis using push e
    by (simp add: mb_releaseFrames_def Let_def word_le_nat_alt word_less_nat_alt)
qed

theorem mb_releaseFrames_last_frame_witness:
  "mb_releaseFrames (push_bit 12 (m_endPfn bank0)) 1 bank0 = Some (0, bank0)"
  by (rule mb_releaseFrames_last_frame [OF bank0_inv]) (simp add: bank0_def)

section \<open>Merging\<close>

text \<open>\<open>merge\<close> marks as used every frame that is used in the other bank and belongs to both, and
  counts them, except the last frame of the overlap, which the loop bound leaves out.\<close>

theorem mb_merge_overlap:
  assumes "mb_inv s" "mb_inv b"
  defines "hi \<equiv> min (unat (m_endPfn s)) (unat (m_endPfn b))"
  shows "\<exists>r s'. mb_merge b s = Some (r, s') \<and> mb_inv s' \<and>
     mb_used s' = mb_used s \<union> (mb_used b \<inter> mb_frames s - {hi}) \<and>
     r = int (card (mb_used b \<inter> mb_frames s - {hi}))"
proof (cases "m_basePfn b > m_endPfn s \<or> m_endPfn b < m_basePfn s")
  case True
  then have none: "mb_used b \<inter> mb_frames s = {}"
    by (auto simp: mb_used_def mb_frames_def word_less_nat_alt)
  from True assms(1) show ?thesis by (simp add: mb_merge_def none)
next
  case False
  from assms have wf: "mb_wf s" "mb_wf b" and l: "\<not> m_lock s" by (simp_all add: mb_inv_def)
  let ?lo = "if m_basePfn b < m_basePfn s then m_basePfn s else m_basePfn b"
  let ?hi = "if m_endPfn b > m_endPfn s then m_endPfn s else m_endPfn b"
  let ?body = "\<lambda>pfn (ret, s). do {
      t \<leftarrow> mb_testFrame pfn b;
      if t then do { s \<leftarrow> mb_setFrame pfn s; Some (ret + 1, s) } else Some (ret, s) }"
  let ?P = "\<lambda>j (r :: int, t). mb_wf t \<and> m_basePfn t = m_basePfn s \<and> m_endPfn t = m_endPfn s \<and>
      mb_used t = mb_used s \<union> (mb_used b \<inter> {unat ?lo..<unat j}) \<and>
      r = int (card (mb_used b \<inter> {unat ?lo..<unat j}))"
  note bounds = mb_wf_bounds(1) [OF wf(1)] mb_wf_bounds(1) [OF wf(2)]
  have "\<exists>t. word_for ?lo ?hi ?body (0, s\<lparr>m_lock := True\<rparr>) = Some t \<and> ?P ?hi t"
  proof (rule word_for_rule)
    show "?lo \<le> ?hi" using False bounds by auto
    fix j :: u32 and t :: "int \<times> membmp"
    assume j: "?lo \<le> j" "j < ?hi" and P: "?P j t"
    obtain r u where t: "t = (r, u)" by fastforce
    have v: "m_basePfn b \<le> j" "j \<le> m_endPfn b" "m_basePfn u \<le> j" "j \<le> m_endPfn u"
      using j P t by (auto split: if_splits)
    have ins: "{unat ?lo..<unat (j + 1)} = insert (unat j) {unat ?lo..<unat j}"
      by (rule mb.atLeastLessThan_unat_Suc [OF j])
    show "\<exists>t'. ?body j t = Some t' \<and> ?P (j + 1) t'"
      using mb_testFrame_used [OF wf(2) v(1,2)] mb_setFrame_used [OF _ v(3,4)] P
      unfolding t ins by (cases "unat j \<in> mb_used b") auto
  qed (use wf in auto)
  moreover have "mb_used b \<inter> mb_frames s - {hi} = mb_used b \<inter> {unat ?lo..<unat ?hi}"
    by (auto simp: mb_used_def mb_frames_def hi_def word_less_nat_alt min_def split: if_splits)
  ultimately show ?thesis
    using False l by (auto simp: mb_merge_def mb_inv_def)
qed

theorem mb_merge_overlap_witness:
  "\<exists>r s'. mb_merge bank0 (bank0\<lparr>m_bmp := Some [0, 0]\<rparr>) = Some (r, s') \<and> 16 \<in> mb_used s'"
proof -
  have "mb_inv (bank0\<lparr>m_bmp := Some [0, 0]\<rparr>)"
    using bank0_inv by (simp add: mb_inv_def mb_wf_def bank0_def)
  from mb_merge_overlap [OF this bank0_inv] obtain r s' where
    s': "mb_merge bank0 (bank0\<lparr>m_bmp := Some [0, 0]\<rparr>) = Some (r, s')"
    "mb_used bank0 \<inter> mb_frames bank0 - {50} \<subseteq> mb_used s'"
    by (auto simp: bank0_def mb_frames_def)
  have "bit (0xFFFF00FF :: u32) 0" by code_simp
  then have "16 \<in> mb_used bank0 \<inter> mb_frames bank0 - {50}"
    by (simp add: bank0_def mb_used_def mb_frames_def bit_at_def)
  with s' show ?thesis by blast
qed

section \<open>Allocation\<close>

text \<open>One element: the scan over \<open>k\<close> extends the run by \<open>d\<close> clear bits.\<close>

lemma fgf_k_spec:
  assumes "fgf_k w k lim nf n = (out, nf')" "unat lim \<le> 32" "k \<le> lim" "nf < n"
  shows "\<exists>d. unat nf' = unat nf + d \<and> (\<forall>m < d. \<not> bit w (unat k + m)) \<and> unat k + d \<le> unat lim \<and>
     unat nf' \<le> unat n \<and> (if out then nf' = n \<or> unat k + d < unat lim \<and> bit w (unat k + d)
      else unat k + d = unat lim \<and> nf' < n)"
  using assms
proof (induction w k lim nf n rule: fgf_k.induct)
  case (1 w k lim nf n)
  show ?case
  proof (cases "k < lim")
    case False
    with "1.prems" show ?thesis
      by (intro exI [of _ 0]) (auto simp: fgf_k.simps [of w k] word_less_nat_alt)
  next
    case True
    then have k: "unat k < unat lim" "unat (k + 1) = Suc (unat k)" "k + 1 \<le> lim"
      by (simp_all add: unat_Suc_less word_less_nat_alt word_le_nat_alt)
    have n1: "unat (nf + 1) = Suc (unat nf)" using "1.prems"(4) by (rule unat_Suc_less)
    have nn: "unat nf < unat n" using "1.prems"(4) by (simp add: word_less_nat_alt)
    have bit: "KBIT_TEST w k = bit w (unat k)" using k "1.prems"(2) by (intro KBIT_TEST_bit) simp
    consider (set) "bit w (unat k)" | (hit) "\<not> bit w (unat k)" "n \<le> nf + 1"
      | (go) "\<not> bit w (unat k)" "nf + 1 < n" by fastforce
    then show ?thesis
    proof cases
      case set
      with True "1.prems" bit nn k show ?thesis
        by (intro exI [of _ 0]) (auto simp: fgf_k.simps [of w k])
    next
      case hit
      then have "n = nf + 1" using n1 nn by (simp add: word_le_nat_alt word_unat_eq_iff)
      with hit True "1.prems" bit k n1 show ?thesis
        by (intro exI [of _ 1]) (auto simp: fgf_k.simps [of w k])
    next
      case go
      then have "fgf_k w (k + 1) lim (nf + 1) n = (out, nf')" "\<not> n \<le> nf + 1"
        using True "1.prems"(1) bit by (auto simp: fgf_k.simps [of w k] dest: leD split: if_splits)
      with "1.IH" True bit go "1.prems"(2) k(3) obtain d where d: "unat nf' = Suc (unat nf) + d"
        "\<forall>m < d. \<not> bit w (Suc (unat k) + m)" "Suc (unat k) + d \<le> unat lim" "unat nf' \<le> unat n"
        "if out then nf' = n \<or> Suc (unat k) + d < unat lim \<and> bit w (Suc (unat k) + d)
         else Suc (unat k) + d = unat lim \<and> nf' < n"
        unfolding n1 [symmetric] k(2) [symmetric] by metis
      have "\<forall>m < Suc d. \<not> bit w (unat k + m)"
        using d(2) go(1) by (auto simp: less_Suc_eq_0_disj)
      with d show ?thesis by (intro exI [of _ "Suc d"]) auto
    qed
  qed
qed

text \<open>The geometry the loops rely on: \<open>nI\<close> elements hold \<open>nF\<close> frame bits.\<close>

definition fgf_geo :: "u32 list \<Rightarrow> u32 \<Rightarrow> u32 \<Rightarrow> bool" where
  "fgf_geo bmp nI nF \<longleftrightarrow> length bmp = unat nI \<and> 0 < unat nF \<and> unat nI = (unat nF + 31) div 32"

lemma div32_up:
  assumes "x mod 32 \<noteq> 0"
  shows "(x + 31) div 32 = x div 32 + (1 :: nat)"
proof -
  have eq: "x + 31 = (x mod 32 - 1) + (x div 32 + 1) * 32"
    using assms div_mult_mod_eq [of x 32] by (simp only: add_mult_distrib mult_1)
  have z: "(x mod 32 - 1) div 32 = 0" by (simp add: less_imp_diff_less)
  show ?thesis unfolding eq by (subst div_mult_self1) (simp_all add: z)
qed

lemma fgf_limit_geo:
  assumes "fgf_geo bmp nI nF" "i < nI" "i < nI \<and> i \<noteq> nI - 1 \<longrightarrow> bitLimit = 32"
  defines "lim \<equiv> fgf_limit nI nF i bitLimit"
  shows "unat lim \<le> 32" "0 < lim" "i \<noteq> nI - 1 \<Longrightarrow> lim = 32 \<and> 32 * unat i + 32 < unat nF \<and> i + 1 < nI"
    "i = nI - 1 \<Longrightarrow> 32 * unat i + unat lim = unat nF" "32 * unat i + unat lim \<le> unat nF"
proof -
  have nI: "unat nI = (unat nF + 31) div 32" "0 < unat nF" "unat i < unat nI"
    using assms by (simp_all add: fgf_geo_def word_less_nat_alt)
  then have last: "unat (nI - 1) = unat nI - 1" by (intro unat_pred) simp
  have m: "unat (nF mod 32) = unat nF mod 32" by (simp add: unat_mod_distrib)
  have z: "nF mod 32 = 0 \<longleftrightarrow> unat nF mod 32 = 0" unfolding m [symmetric] by (simp add: unat_eq_0)
  show le: "unat lim \<le> 32"
    using assms(2,3) m mod_less_divisor [of 32 "unat nF"] by (auto simp: lim_def fgf_limit_def)
  show "0 < lim" using assms(2,3) by (auto simp: lim_def fgf_limit_def word_gt_0)
  show a: "lim = 32 \<and> 32 * unat i + 32 < unat nF \<and> i + 1 < nI" if "i \<noteq> nI - 1"
  proof -
    have "unat i \<noteq> unat nI - 1" using that last by (metis word_unat_eq_iff)
    then have "Suc (unat i) < unat nI" using nI(3) by linarith
    moreover from this have "32 * unat i + 32 < unat nF" using nI(1) by linarith
    ultimately show ?thesis
      using that assms(2,3) unat_Suc_less [OF assms(2)]
      by (simp add: lim_def fgf_limit_def word_less_nat_alt)
  qed
  show b: "32 * unat i + unat lim = unat nF" if "i = nI - 1"
  proof (cases "unat nF mod 32 = 0")
    case True
    then obtain q where "unat nF = 32 * q" by auto
    with True that last nI z show ?thesis by (simp add: lim_def fgf_limit_def)
  next
    case False
    note div32_up [OF False]
    with False that last nI(1) z m show ?thesis by (simp add: lim_def fgf_limit_def)
  qed
  show "32 * unat i + unat lim \<le> unat nF" 
  proof (cases "i = nI - 1")
    case True
    from b [OF this] show ?thesis by simp
  next
    case False
    from a [OF this] show ?thesis by simp
  qed
qed

lemma bit_at_elem: "m < 32 \<Longrightarrow> bit_at bmp (32 * i + m) = bit (bmp ! i) m"
  by (simp add: bit_at_def)

lemma clear_run_append:
  "clear_run bmp p (d + e) \<longleftrightarrow> clear_run bmp p d \<and> clear_run bmp (p + d) e"
proof -
  have "p \<le> k \<and> k < p + (d + e) \<longleftrightarrow> p \<le> k \<and> k < p + d \<or> p + d \<le> k \<and> k < p + d + e" for k
    by auto
  then show ?thesis unfolding clear_run_def by blast
qed

lemma clear_run_elem:
  "k + d \<le> 32 \<Longrightarrow> clear_run bmp (32 * i + k) d \<longleftrightarrow> (\<forall>m < d. \<not> bit (bmp ! i) (k + m))"
proof
  assume le: "k + d \<le> 32" and run: "clear_run bmp (32 * i + k) d"
  show "\<forall>m < d. \<not> bit (bmp ! i) (k + m)"
  proof (intro allI impI)
    fix m assume "m < d"
    with le run bit_at_elem [of "k + m" bmp i] show "\<not> bit (bmp ! i) (k + m)"
      by (simp add: clear_run_def)
  qed
next
  assume le: "k + d \<le> 32" and all: "\<forall>m < d. \<not> bit (bmp ! i) (k + m)"
  show "clear_run bmp (32 * i + k) d" unfolding clear_run_def
  proof (intro allI impI)
    fix q assume "32 * i + k \<le> q \<and> q < 32 * i + k + d"
    then obtain m where "q = 32 * i + (k + m)" "m < d" by (metis add.assoc le_Suc_ex nat_add_left_cancel_less)
    with le all bit_at_elem [of "k + m" bmp i] show "\<not> bit_at bmp q" by simp
  qed
qed

lemma bit_full_slot: "k < 32 \<Longrightarrow> bit MEMBMP_FULL_SLOT k"
proof -
  have "MEMBMP_FULL_SLOT = - 1" by code_simp
  then show "k < 32 \<Longrightarrow> bit MEMBMP_FULL_SLOT k" by (simp only: bit_minus_1_iff) simp
qed

lemma fgf_i_spec:
  assumes "fgf_i bmp nI nF i j bitLimit nf n = Some (out, nf', lim')"
    and geo: "fgf_geo bmp nI nF" and "i \<le> nI" "i < nI \<and> i \<noteq> nI - 1 \<longrightarrow> bitLimit = 32" "nf < n"
    and "nf = 0 \<longrightarrow> i < nI \<and> unat j < 32 \<and> 32 * unat i + unat j < unat nF \<and>
      \<not> bit_at bmp (32 * unat i + unat j)"
  defines "p \<equiv> 32 * unat i + (if nf = 0 then unat j else 0)"
  shows "\<exists>d. unat nf' = unat nf + d \<and> 0 < unat nf' \<and> nf' \<le> n \<and> clear_run bmp p d \<and>
     (i < nI \<longrightarrow> p + d \<le> unat nF \<and> (\<not> out \<longrightarrow> p + d = unat nF)) \<and> (\<not> i < nI \<longrightarrow> d = 0 \<and> \<not> out)"
  using assms(1,3-6) unfolding p_def
proof (induction "unat nI - unat i" arbitrary: i nf bitLimit rule: less_induct)
  case less
  note prems = less.prems
  show ?case
  proof (cases "i < nI")
    case False
    with prems have nz: "nf \<noteq> 0" by auto
    have "Some (out, nf', lim') = Some (False, nf, bitLimit)"
      using prems(1) False by (simp add: fgf_i.simps [of bmp nI nF i])
    with nz False prems(4) show ?thesis by (intro exI [of _ 0]) (simp add: unat_gt_0)
  next
    case True
    let ?w = "bmp ! unat i" and ?lim = "fgf_limit nI nF i bitLimit" and ?k = "if nf = 0 then j else 0"
    note L = fgf_limit_geo [OF geo True prems(3)]
    have w: "arr_get bmp (unat i) = Some ?w" using True geo by (simp add: fgf_geo_def word_less_nat_alt)
    obtain o1 nf1 where k: "fgf_k ?w ?k ?lim nf n = (o1, nf1)" by fastforce
    have j: "unat j < unat ?lim \<and> \<not> bit ?w (unat j)" if "nf = 0"
      using that prems(5) L(3,4) bit_at_elem [of "unat j" bmp "unat i"] by (cases "i = nI - 1") auto
    then have kle: "?k \<le> ?lim" by (auto simp: word_le_nat_alt)
    have uk: "unat ?k = (if nf = 0 then unat j else 0)" by simp
    from fgf_k_spec [OF k L(1) kle prems(4)] obtain d1 where d1:
      "unat nf1 = unat nf + d1" "\<forall>m < d1. \<not> bit ?w (unat ?k + m)" "unat ?k + d1 \<le> unat ?lim"
      "unat nf1 \<le> unat n"
      "if o1 then nf1 = n \<or> unat ?k + d1 < unat ?lim \<and> bit ?w (unat ?k + d1)
       else unat ?k + d1 = unat ?lim \<and> nf1 < n" by blast
    have run1: "clear_run bmp (32 * unat i + unat ?k) d1"
      using d1(2,3) L(1) by (subst clear_run_elem) auto
    have pos: "0 < unat nf1"
    proof (cases "nf = 0")
      case z: True
      have "d1 \<noteq> 0"
        using d1(1,5) j [OF z] prems(4) z
        by (cases "d1 = 0") (auto simp: word_less_nat_alt split: if_splits)
      then show ?thesis using d1(1) by simp
    qed (simp add: d1(1) unat_gt_0)
    consider (full) "?w = MEMBMP_FULL_SLOT" | (out) "?w \<noteq> MEMBMP_FULL_SLOT" "o1"
      | (go) "?w \<noteq> MEMBMP_FULL_SLOT" "\<not> o1" by blast
    then show ?thesis
    proof cases
      case full
      have "bit ?w (unat j)" if "unat j < 32"
        unfolding full using that by (rule bit_full_slot)
      with j L(1) have nz: "nf \<noteq> 0" by force
      with full True prems w L(5) show ?thesis
        by (intro exI [of _ 0]) (auto simp: fgf_i.simps [of bmp nI nF i] unat_gt_0 order_less_imp_le)
    next
      case out
      with True prems(1) w k have "out" "nf' = nf1" by (auto simp: fgf_i.simps [of bmp nI nF i] Let_def)
      with d1 run1 pos L(5) True show ?thesis
        by (intro exI [of _ d1]) (simp add: word_le_nat_alt uk)
    next
      case go
      with True prems(1) w k have rec: "fgf_i bmp nI nF (i + 1) j ?lim nf1 n = Some (out, nf', lim')"
        by (auto simp: fgf_i.simps [of bmp nI nF i] Let_def)
      have i1: "unat (i + 1) = Suc (unat i)" "i + 1 \<le> nI"
        using unat_Suc_less [OF True] True by (simp_all add: word_le_nat_alt word_less_nat_alt)
      have lim32: "?lim = 32" if "i + 1 < nI"
        using that L(3) by (cases "i = nI - 1") auto
      have full: "32 * Suc (unat i) = 32 * unat i + unat ?k + d1" if "i + 1 < nI"
        using that L(3) d1(5) go(2) True by (cases "i = nI - 1") auto
      have e: "\<exists>d. unat nf' = unat nf1 + d \<and> 0 < unat nf' \<and> nf' \<le> n \<and>
          clear_run bmp (32 * unat (i + 1)) d \<and>
          (i + 1 < nI \<longrightarrow> 32 * unat (i + 1) + d \<le> unat nF \<and> (\<not> out \<longrightarrow> 32 * unat (i + 1) + d = unat nF)) \<and>
          (\<not> i + 1 < nI \<longrightarrow> d = 0 \<and> \<not> out)"
        using less.hyps [OF _ rec i1(2)] word_diff_Suc_less [OF True] lim32 d1(5) go(2) pos
        by (simp add: unat_gt_0)
      then obtain d where d: "unat nf' = unat nf1 + d" "0 < unat nf'" "nf' \<le> n"
        "clear_run bmp (32 * unat (i + 1)) d" "\<not> i + 1 < nI \<longrightarrow> d = 0"
        "i + 1 < nI \<longrightarrow> 32 * unat (i + 1) + d \<le> unat nF \<and> (\<not> out \<longrightarrow> 32 * unat (i + 1) + d = unat nF)"
        by blast
      let ?p = "32 * unat i + unat ?k"
      have "clear_run bmp ?p (d1 + d) \<and> ?p + (d1 + d) \<le> unat nF \<and> (\<not> out \<longrightarrow> ?p + (d1 + d) = unat nF)"
      proof (cases "i + 1 < nI")
        case more: True
        from full [OF more] have p: "?p + d1 = 32 * unat (i + 1)" unfolding i1(1) by simp
        show ?thesis using d(4,6) more run1 unfolding clear_run_append add.assoc [symmetric] p by simp
      next
        case False
        then have "i + 1 = nI" using i1(2) by simp
        then have "i = nI - 1" by auto
        from L(4) [OF this] have "?p + d1 = unat nF" using d1(5) go(2) by simp
        with False d(5) run1 show ?thesis by simp
      qed
      with d(1-3) d1(1) True uk show ?thesis
        by (intro exI [of _ "d1 + d"]) (simp del: add.assoc)
    qed
  qed
qed

lemma fgf_i_total: "length bmp = unat nI \<Longrightarrow> \<exists>r. fgf_i bmp nI nF i j bitLimit nf n = Some r"
proof (induction bmp nI nF i j bitLimit nf n rule: fgf_i.induct)
  case (1 bmp nI nF i j bitLimit nf n)
  show ?case
  proof (cases "i < nI")
    case True
    then have w: "arr_get bmp (unat i) = Some (bmp ! unat i)"
      using "1.prems" by (simp add: word_less_nat_alt)
    obtain o1 nf1 where k: "fgf_k (bmp ! unat i) (if nf = 0 then j else 0)
        (fgf_limit nI nF i bitLimit) nf n = (o1, nf1)" by fastforce
    show ?thesis
      using "1.IH" [OF True w _ refl k [symmetric] refl] "1.prems" True w k
      by (auto simp: fgf_i.simps [of bmp nI nF i] Let_def)
  qed (auto simp: fgf_i.simps [of bmp nI nF i])
qed

text \<open>What the search hands to the caller: a run of \<open>l \<le> n\<close> clear bits at position \<open>a\<close>.\<close>

definition fgf_hit :: "u32 list \<Rightarrow> u32 \<Rightarrow> u32 \<Rightarrow> u32 \<Rightarrow> u32 \<times> u32 \<Rightarrow> bool" where
  "fgf_hit bmp nF basePfn n r \<longleftrightarrow> (\<exists>a. fst r = basePfn + word_of_nat a \<and> 0 < unat (snd r) \<and>
     snd r \<le> n \<and> clear_run bmp a (unat (snd r)) \<and> a + unat (snd r) \<le> unat nF)"

lemma fgf_j_spec:
  assumes geo: "fgf_geo bmp nI nF" and i: "i < nI" and n: "0 < n"
    and lim: "unat bitLimit \<le> 32" "32 * unat i + unat bitLimit \<le> unat nF"
      "i < nI \<and> i \<noteq> nI - 1 \<longrightarrow> bitLimit = 32"
  shows "case fgf_j bmp nI nF basePfn i j bitLimit 0 n of
      None \<Rightarrow> \<not> bit_at bmp (unat nF - 1)
    | Some (Inl r) \<Rightarrow> fgf_hit bmp nF basePfn n r
    | Some (Inr (i', bl, nf)) \<Rightarrow> i' = i \<and> bl = bitLimit \<and> nf = 0 \<or> i' = nI"
proof (induction "unat bitLimit - unat j" arbitrary: j rule: less_induct)
  case less
  let ?w = "bmp ! unat i"
  note eq = fgf_j.simps [of bmp nI nF basePfn i j bitLimit 0 n]
  show ?case
  proof (cases "j < bitLimit")
    case True
    then have j: "unat j < 32" "unat j < unat bitLimit" using lim(1) by (simp_all add: word_less_nat_alt)
    have w: "arr_get bmp (unat i) = Some ?w" using i geo by (simp add: fgf_geo_def word_less_nat_alt)
    have bit: "KBIT_TEST ?w j = bit_at bmp (32 * unat i + unat j)"
      using j by (simp add: KBIT_TEST_bit bit_at_elem)
    show ?thesis
    proof (cases "KBIT_TEST ?w j")
      case set: True
      with True w less.hyps [of "j + 1"] word_diff_Suc_less [OF True] show ?thesis by (simp add: eq)
    next
      case clear: False
      obtain out nf' lim' where r: "fgf_i bmp nI nF i j bitLimit 0 n = Some (out, nf', lim')"
        using fgf_i_total [of bmp nI nF i j bitLimit 0 n] geo by (auto simp: fgf_geo_def)
      obtain d where d: "unat nf' = d" "0 < d" "nf' \<le> n" "clear_run bmp (32 * unat i + unat j) d"
        "32 * unat i + unat j + d \<le> unat nF" "\<not> out \<longrightarrow> 32 * unat i + unat j + d = unat nF"
        using fgf_i_spec [OF r geo _ lim(3)] i n j lim(2) clear bit by auto
      have hit: "fgf_hit bmp nF basePfn n (basePfn + i * 32 + j, nf')"
        unfolding fgf_hit_def using d
        by (intro exI [of _ "32 * unat i + unat j"]) (simp add: mult.commute)
      show ?thesis
      proof (cases out)
        case True
        with hit \<open>j < bitLimit\<close> w clear r show ?thesis by (simp add: eq)
      next
        case False
        with d(6) have "unat nF = 32 * unat i + unat j + d" by simp
        with d(2) have "unat nF - 1 = 32 * unat i + unat j + (d - 1)" by simp
        then have "\<not> bit_at bmp (unat nF - 1)" using d(2,4) by (simp add: clear_run_def)
        moreover have "fgf_j bmp nI nF basePfn nI (j + 1) lim' nf' n =
            (if j + 1 < lim' then None else Some (Inr (nI, lim', nf')))"
          using geo by (simp add: fgf_j.simps [of bmp nI nF basePfn nI] arr_get_def fgf_geo_def)
        ultimately show ?thesis using False True w clear r i by (simp add: eq)
      qed
    qed
  qed (simp add: eq)
qed

lemma fgf_outer_spec:
  assumes geo: "fgf_geo bmp nI nF" and n: "0 < n" and "i < nI \<and> i \<noteq> nI - 1 \<longrightarrow> bitLimit = 32"
  shows "case fgf_outer bmp nI nF basePfn i bitLimit 0 n of
      None \<Rightarrow> \<not> bit_at bmp (unat nF - 1)
    | Some None \<Rightarrow> True
    | Some (Some r) \<Rightarrow> fgf_hit bmp nF basePfn n r"
  using assms(3)
proof (induction "unat nI - unat i" arbitrary: i bitLimit rule: less_induct)
  case less
  note eq = fgf_outer.simps [of bmp nI nF basePfn i bitLimit 0 n]
  show ?case
  proof (cases "i < nI")
    case True
    let ?lim = "fgf_limit nI nF i bitLimit"
    have w: "arr_get bmp (unat i) = Some (bmp ! unat i)"
      using True geo by (simp add: fgf_geo_def word_less_nat_alt)
    note L = fgf_limit_geo [OF geo True less.prems]
    have next': "i + 1 < nI \<Longrightarrow> i \<noteq> nI - 1" by auto
    have lim32: "?lim = 32 \<and> bitLimit = 32" if "i + 1 < nI \<and> i + 1 \<noteq> nI - 1"
      using that next' L(3) less.prems True by blast
    note ih = less.hyps [of "i + 1", OF word_diff_Suc_less [OF True]]
    have J: "case fgf_j bmp nI nF basePfn i 0 ?lim 0 n of
        None \<Rightarrow> \<not> bit_at bmp (unat nF - 1)
      | Some (Inl r) \<Rightarrow> fgf_hit bmp nF basePfn n r
      | Some (Inr (i', bl, nf)) \<Rightarrow> i' = i \<and> bl = ?lim \<and> nf = 0 \<or> i' = nI"
      by (rule fgf_j_spec [OF geo True n L(1,5)]) (use L(3) in blast)
    show ?thesis
    proof (cases "bmp ! unat i = MEMBMP_FULL_SLOT")
      case full: True
      with True w ih [of bitLimit] lim32 show ?thesis by (simp add: eq)
    next
      case False
      have "i + 1 < nI \<and> i + 1 \<noteq> nI - 1 \<longrightarrow> ?lim = 32" using lim32 by blast
      from ih [OF this] False True w J show ?thesis
        by (auto simp: eq split: option.splits sum.splits prod.splits)
    qed
  qed (simp add: eq)
qed

lemma mb_wf_geo: "mb_wf s \<Longrightarrow> m_bmp s = Some bmp \<Longrightarrow> fgf_geo bmp (m_nIndexes s) (m_bmpNFrames s)"
proof -
  assume wf: "mb_wf s" and bmp: "m_bmp s = Some bmp"
  then have "length bmp = unat (m_nIndexes s)" by (simp add: mb_wf_def)
  with mb_wf_sizes [OF wf] show ?thesis by (simp add: fgf_geo_def)
qed

lemma clear_run_unused:
  assumes "mb_wf s" "m_bmp s = Some bmp" "clear_run bmp a l"
  shows "mb_used s \<inter> {unat (m_basePfn s) + a..<unat (m_basePfn s) + a + l} = {}"
proof -
  have "q \<notin> mb_used s" if "unat (m_basePfn s) + a \<le> q" "q < unat (m_basePfn s) + a + l" for q
  proof -
    have "a \<le> q - unat (m_basePfn s) \<and> q - unat (m_basePfn s) < a + l" using that by linarith
    with assms(2,3) show ?thesis by (simp add: mb_used_def clear_run_def)
  qed
  then show ?thesis by auto
qed

text \<open>What a frame allocation that returns has done.\<close>

definition fgf_done :: "u32 \<Rightarrow> membmp \<Rightarrow> status_t \<Rightarrow> u32 option \<Rightarrow> membmp \<Rightarrow> bool" where
  "fgf_done n s r p s' \<longleftrightarrow> mb_inv s' \<and>
     (case p of
        None \<Rightarrow> r = ERROR_MEMORY_NOMEM_PHYSICAL \<and> s' = s
      | Some paddr \<Rightarrow> \<exists>start k. paddr = push_bit 12 (word_of_nat start) \<and> r = int k \<and> 0 < k \<and> k \<le> unat n \<and>
          {start..<start + k} \<subseteq> mb_frames s \<and> {start..<start + k} \<inter> mb_used s = {} \<and>
          mb_used s' = mb_used s \<union> {start..<start + k})"

lemma fgf_returns:
  assumes inv: "mb_inv s" and n: "0 < n" and bmp: "m_bmp s = Some bmp"
    and r: "fgf_outer bmp (m_nIndexes s) (m_bmpNFrames s) (m_basePfn s) (m_lastAllocIndex s) 32 0 n = Some r"
    and hit: "\<And>x. r = Some x \<Longrightarrow> fgf_hit bmp (m_bmpNFrames s) (m_basePfn s) n x"
  shows "\<exists>r p s'. mb_fragmentedGetFrames n False s = Some (r, p, s') \<and> fgf_done n s r p s'"
proof -
  from inv have wf: "mb_wf s" and wfl: "mb_wf (s\<lparr>m_lock := True\<rparr>)" and l: "\<not> m_lock s"
    by (simp_all add: mb_inv_def)
  from l have unl: "s\<lparr>m_lock := False\<rparr> = s" by simp
  note sz = mb_wf_sizes [OF wf]
  have n0: "n \<noteq> 0" using n by auto
  show ?thesis
  proof (cases r)
    case None
    with r bmp l n0 wf unl show ?thesis by (simp add: mb_fragmentedGetFrames_def mb_inv_def fgf_done_def)
  next
    case (Some x)
    obtain p nf where x: "x = (p, nf)" by fastforce
    from hit [OF Some] x obtain a where a: "p = m_basePfn s + word_of_nat a" "0 < unat nf" "nf \<le> n"
      "clear_run bmp a (unat nf)" "a + unat nf \<le> unat (m_bmpNFrames s)" by (auto simp: fgf_hit_def)
    have lim: "unat (m_endPfn s) < 2 ^ 20" and be: "unat (m_basePfn s) \<le> unat (m_endPfn s)"
      using wf by (auto simp: mb_wf_def word_le_nat_alt)
    define start where "start = unat (m_basePfn s) + a"
    have top: "start + unat nf \<le> Suc (unat (m_endPfn s))" using a(5) sz(1) be by (simp add: start_def)
    have p: "p = word_of_nat start" by (simp add: a(1) start_def)
    have up: "unat p = start" using top lim a(2) by (simp add: p unsigned_of_nat take_bit_nat_eq_self)
    have upn: "unat (p + nf) = start + unat nf" using top lim up by (subst unat_add_no_wrap) auto
    have "\<exists>s'. word_for p (p + nf) mb_setFrame (s\<lparr>m_lock := True\<rparr>) = Some s' \<and> mb_wf s' \<and>
        mb_used s' = mb_used s \<union> {unat p..<unat (p + nf)}"
      using mb.add_range [OF wfl, of p "p + nf"] up upn top
      by (auto simp: word_le_nat_alt word_less_nat_alt start_def)
    then obtain s' where s': "word_for p (p + nf) mb_setFrame (s\<lparr>m_lock := True\<rparr>) = Some s'" "mb_wf s'"
      "mb_used s' = mb_used s \<union> {start..<start + unat nf}" unfolding up upn by blast
    have sint: "sint nf = int (unat nf)" using top lim a(2) by (intro sint_small) simp
    have fresh: "{start..<start + unat nf} \<inter> mb_used s = {}"
      using clear_run_unused [OF wf bmp a(4)] unfolding start_def by blast
    have sub: "{start..<start + unat nf} \<subseteq> mb_frames s"
      using top by (auto simp: mb_frames_def start_def)
    have "mb_fragmentedGetFrames n False s = Some (int (unat nf), Some (push_bit 12 (word_of_nat start)),
        s'\<lparr>m_lastAllocIndex := (p + nf - m_basePfn s') div 32, m_lock := False\<rparr>)"
      using r Some x bmp l n0 s'(1) sint p by (simp add: mb_fragmentedGetFrames_def Let_def)
    moreover have "mb_inv (s'\<lparr>m_lastAllocIndex := i, m_lock := False\<rparr>)"
      "mb_used (s'\<lparr>m_lastAllocIndex := i, m_lock := False\<rparr>) = mb_used s \<union> {start..<start + unat nf}" for i
      using s'(2,3) by (simp_all add: mb_inv_def)
    moreover have "unat nf \<le> unat n" using a(3) by (simp add: word_le_nat_alt)
    ultimately show ?thesis using a(2) fresh sub unfolding fgf_done_def
      by (intro exI [of _ "int (unat nf)"] exI [of _ "Some (push_bit 12 (word_of_nat start))"] exI
          [of _ "s'\<lparr>m_lastAllocIndex := (p + nf - m_basePfn s') div 32, m_lock := False\<rparr>"] conjI)
         (simp_all only: option.case, (rule exI [of _ start], rule exI [of _ "unat nf"], simp)?)
  qed
qed

text \<open>C23: A frame allocation, from any state of the bank: when it succeeds it returns between one and the requested number of
  contiguous frames of this bank, none of which was in use, and marks exactly those as used; when it fails it
  changes nothing; the lock is released in both cases.  The only way not to return is the search that runs off the end of the bitmap, which needs the last
  frame of the bank to be free (see the next theorem).\<close>

theorem mb_fragmentedGetFrames_correct:
  assumes inv: "mb_inv s" and n: "0 < n"
  shows "case mb_fragmentedGetFrames n False s of
      None \<Rightarrow> unat (m_endPfn s) \<notin> mb_used s
    | Some (r, p, s') \<Rightarrow> mb_inv s' \<and>
       (case p of
          None \<Rightarrow> r = ERROR_MEMORY_NOMEM_PHYSICAL \<and> s' = s
        | Some paddr \<Rightarrow> \<exists>start k. paddr = push_bit 12 (word_of_nat start) \<and> r = int k \<and> 0 < k \<and> k \<le> unat n \<and>
            {start..<start + k} \<subseteq> mb_frames s \<and> {start..<start + k} \<inter> mb_used s = {} \<and>
            mb_used s' = mb_used s \<union> {start..<start + k})"
proof -
  from inv have wf: "mb_wf s" and l: "\<not> m_lock s" by (simp_all add: mb_inv_def)
  from wf obtain bmp where bmp: "m_bmp s = Some bmp" by (auto simp: mb_wf_def split: option.splits)
  note spec = fgf_outer_spec [OF mb_wf_geo [OF wf bmp] n, of "m_lastAllocIndex s" 32 "m_basePfn s"]
  show ?thesis
  proof (cases "fgf_outer bmp (m_nIndexes s) (m_bmpNFrames s) (m_basePfn s) (m_lastAllocIndex s) 32 0 n")
    case None
    have n0: "n \<noteq> 0" using n by auto
    have "\<not> bit_at bmp (unat (m_bmpNFrames s) - 1)" using spec None by simp
    then have "unat (m_endPfn s) \<notin> mb_used s" using bmp mb_wf_sizes(1) [OF wf] by (simp add: mb_used_def)
    then show ?thesis using None bmp l n0 by (simp add: mb_fragmentedGetFrames_def)
  next
    case (Some r)
    have "\<And>x. r = Some x \<Longrightarrow> fgf_hit bmp (m_bmpNFrames s) (m_basePfn s) n x" using spec Some by simp
    from fgf_returns [OF inv n bmp Some this] obtain r p s' where "mb_fragmentedGetFrames n False s = Some (r, p, s')" "fgf_done n s r p s'" by blast
    then show ?thesis by (simp add: fgf_done_def)
  qed
qed

text \<open>The witness is a bank whose last frame is free.\<close>

theorem mb_fragmentedGetFrames_correct_witness:
  "\<exists>r paddr s'. mb_fragmentedGetFrames 4 False (bank0\<lparr>m_bmp := Some [0xFFFF00FF, 0]\<rparr>) = Some (r, Some paddr, s') \<and>
     0 < r \<and> r \<le> 4 \<and> mb_inv s'"
proof -
  let ?s = "bank0\<lparr>m_bmp := Some [0xFFFF00FF, 0]\<rparr>"
  have inv: "mb_inv ?s" using bank0_inv by (simp add: mb_inv_def mb_wf_def bank0_def)
  have o: "fgf_outer [0xFFFF00FF, 0] 2 35 16 0 32 0 4 = Some (Some (24, 4))" by code_simp
  have hit: "fgf_hit [0xFFFF00FF, 0] 35 16 4 (24, 4)" using o fgf_outer_spec [OF mb_wf_geo [of ?s], of "[0xFFFF00FF, 0]" 4 0 32 16] inv
    by (simp add: mb_inv_def bank0_def)
  have bmp: "m_bmp ?s = Some [0xFFFF00FF, 0]" by simp
  from fgf_returns [OF inv _ bmp, of 4 "Some (24, 4)"] o hit obtain r p s' where
    c: "mb_fragmentedGetFrames 4 False ?s = Some (r, p, s')" by (auto simp: bank0_def)
  then have "p \<noteq> None" using o by (auto simp: mb_fragmentedGetFrames_def bank0_def bind_eq_Some_conv)
  with c mb_fragmentedGetFrames_correct [OF inv, of 4] show ?thesis by (fastforce split: option.splits)
qed

text \<open>When the free frames at the end of the bank are fewer than requested, the loop over the
  elements runs off the end and the enclosing loop goes on testing bits of the element behind the
  array: an allocation of four frames from a bank whose last two frames are free faults (in C, an
  out-of-bounds read of the bitmap).\<close>

theorem mb_fragmentedGetFrames_overrun:
  "mb_inv (bank0\<lparr>m_bmp := Some [0xFFFFFFFF, 1]\<rparr>) \<and>
   mb_fragmentedGetFrames 4 False (bank0\<lparr>m_bmp := Some [0xFFFFFFFF, 1]\<rparr>) = None"
proof
  show "mb_inv (bank0\<lparr>m_bmp := Some [0xFFFFFFFF, 1]\<rparr>)"
    using bank0_inv by (simp add: mb_inv_def mb_wf_def bank0_def)
  have "fgf_outer [0xFFFFFFFF, 1] 2 35 16 0 32 0 4 = None" by code_simp
  then show "mb_fragmentedGetFrames 4 False (bank0\<lparr>m_bmp := Some [0xFFFFFFFF, 1]\<rparr>) = None"
    by (simp add: mb_fragmentedGetFrames_def bank0_def)
qed

end
