(* ===== verification/X86State.thy ===== *)
theory X86State
  imports Prelude
begin

text \<open>
  The machine state of the real mode emulator that the IBM-PC firmware driver runs BIOS code with
  (\<open>firmware/ibmPcBios/x86emu/regs.h\<close>, the global \<open>M\<close>) and the flag macros.  Memory is the byte
  array behind \<open>M.mem_base\<close>.  What stands behind the I/O ports is a parameter: \<open>io_dev\<close> gives the
  value a device returns for a read of a port at a width in bytes, depending on all port accesses
  made before, which \<open>io_log\<close> records (latest first).  \<open>fault\<close> is set when the emulator's own C code
  does what the processor running the kernel traps: it dereferences a null pointer or divides with
  overflow; \<open>tsc\<close> is the counter that RDTSC keeps in a static variable.  The debug build (macro \<open>DEBUG\<close>)
  is not modelled: of the debug fields only \<open>DEBUG_EXIT\<close> is read.
\<close>

section \<open>State\<close>

datatype io_event = IoIn u16 nat u32 | IoOut u16 nat u32

record x86 =
  gA :: u32  gB :: u32  gC :: u32  gD :: u32
  gSP :: u32  gBP :: u32  gSI :: u32  gDI :: u32  gIP :: u32
  FLAGS :: u32
  R_CS :: u16  R_DS :: u16  R_SS :: u16  R_ES :: u16  R_FS :: u16  R_GS :: u16
  mode :: u32  intr :: u32  debug :: u32  intno :: u8
  mem_size :: u32
  ram :: "u32 \<Rightarrow> u8"
  io_dev :: "io_event list \<Rightarrow> u16 \<Rightarrow> nat \<Rightarrow> u32"
  io_log :: "io_event list"
  fault :: bool
  tsc :: u32

text \<open>The machine as the loader leaves \<open>_X86EMU_env\<close>: a static object, zero throughout.\<close>

definition x86_zero :: x86 where
  "x86_zero = \<lparr>gA = 0, gB = 0, gC = 0, gD = 0, gSP = 0, gBP = 0, gSI = 0, gDI = 0, gIP = 0, FLAGS = 0,
     R_CS = 0, R_DS = 0, R_SS = 0, R_ES = 0, R_FS = 0, R_GS = 0, mode = 0, intr = 0, debug = 0, intno = 0,
     mem_size = 0, ram = (\<lambda>_. 0), io_dev = (\<lambda>_ _ _. 0), io_log = [], fault = False, tsc = 0\<rparr>"

text \<open>The 8 and 16 bit registers are views of the 32 bit ones.\<close>

definition lo8 :: "u32 \<Rightarrow> u8" where "lo8 r = ucast r"
definition hi8 :: "u32 \<Rightarrow> u8" where "hi8 r = ucast (drop_bit 8 r)"
definition lo16 :: "u32 \<Rightarrow> u16" where "lo16 r = ucast r"
definition put_lo8 :: "u8 \<Rightarrow> u32 \<Rightarrow> u32" where "put_lo8 v r = (r AND 0xFFFFFF00) OR ucast v"
definition put_hi8 :: "u8 \<Rightarrow> u32 \<Rightarrow> u32" where
  "put_hi8 v r = (r AND 0xFFFF00FF) OR push_bit 8 (ucast v)"
definition put_lo16 :: "u16 \<Rightarrow> u32 \<Rightarrow> u32" where "put_lo16 v r = (r AND 0xFFFF0000) OR ucast v"

abbreviation (input) R_AL :: "x86 \<Rightarrow> u8" where "R_AL m \<equiv> lo8 (gA m)"
abbreviation (input) R_AH :: "x86 \<Rightarrow> u8" where "R_AH m \<equiv> hi8 (gA m)"
abbreviation (input) R_AX :: "x86 \<Rightarrow> u16" where "R_AX m \<equiv> lo16 (gA m)"
abbreviation (input) R_EAX :: "x86 \<Rightarrow> u32" where "R_EAX m \<equiv> gA m"
abbreviation (input) R_EBX :: "x86 \<Rightarrow> u32" where "R_EBX m \<equiv> gB m"
abbreviation (input) R_CX :: "x86 \<Rightarrow> u16" where "R_CX m \<equiv> lo16 (gC m)"
abbreviation (input) R_ECX :: "x86 \<Rightarrow> u32" where "R_ECX m \<equiv> gC m"
abbreviation (input) R_DX :: "x86 \<Rightarrow> u16" where "R_DX m \<equiv> lo16 (gD m)"
abbreviation (input) R_EDX :: "x86 \<Rightarrow> u32" where "R_EDX m \<equiv> gD m"
abbreviation (input) R_BX :: "x86 \<Rightarrow> u16" where "R_BX m \<equiv> lo16 (gB m)"
abbreviation (input) R_SP :: "x86 \<Rightarrow> u16" where "R_SP m \<equiv> lo16 (gSP m)"
abbreviation (input) R_BP :: "x86 \<Rightarrow> u16" where "R_BP m \<equiv> lo16 (gBP m)"
abbreviation (input) R_SI :: "x86 \<Rightarrow> u16" where "R_SI m \<equiv> lo16 (gSI m)"
abbreviation (input) R_DI :: "x86 \<Rightarrow> u16" where "R_DI m \<equiv> lo16 (gDI m)"
abbreviation (input) R_IP :: "x86 \<Rightarrow> u16" where "R_IP m \<equiv> lo16 (gIP m)"

lemma view_masks:
  "(0xFFFFFF00 :: u32) = NOT (mask 8)" "(0xFFFF0000 :: u32) = NOT (mask 16)"
  "(0xFFFF00FF :: u32) = NOT (mask 16) OR mask 8"
  by code_simp+

lemma reg_views [simp]:
  "lo8 (put_lo8 v r) = v" "hi8 (put_lo8 v r) = hi8 r"
  "hi8 (put_hi8 v r) = v" "lo8 (put_hi8 v r) = lo8 r"
  "lo16 (put_lo16 w r) = w"
  unfolding lo8_def hi8_def lo16_def put_lo8_def put_hi8_def put_lo16_def view_masks
  by (rule bit_word_eqI; auto simp: bit_simps dest: bit_imp_le_length)+

lemma lo16_bytes: "lo16 r = push_bit 8 (ucast (hi8 r)) OR ucast (lo8 r)"
  by (rule bit_word_eqI) (auto simp: lo8_def hi8_def lo16_def bit_simps dest: bit_imp_le_length)

section \<open>Flags\<close>

definition F_CF :: u32 where "F_CF = 0x0001"
definition F_PF :: u32 where "F_PF = 0x0004"
definition F_AF :: u32 where "F_AF = 0x0010"
definition F_ZF :: u32 where "F_ZF = 0x0040"
definition F_SF :: u32 where "F_SF = 0x0080"
definition F_TF :: u32 where "F_TF = 0x0100"
definition F_IF :: u32 where "F_IF = 0x0200"
definition F_DF :: u32 where "F_DF = 0x0400"
definition F_OF :: u32 where "F_OF = 0x0800"

definition TOGGLE_FLAG :: "u32 \<Rightarrow> x86 \<Rightarrow> x86" where
  "TOGGLE_FLAG f m = m\<lparr>FLAGS := FLAGS m XOR f\<rparr>"

definition SET_FLAG :: "u32 \<Rightarrow> x86 \<Rightarrow> x86" where
  "SET_FLAG f m = m\<lparr>FLAGS := FLAGS m OR f\<rparr>"

definition CLEAR_FLAG :: "u32 \<Rightarrow> x86 \<Rightarrow> x86" where
  "CLEAR_FLAG f m = m\<lparr>FLAGS := FLAGS m AND NOT f\<rparr>"

definition ACCESS_FLAG :: "u32 \<Rightarrow> x86 \<Rightarrow> bool" where
  "ACCESS_FLAG f m \<longleftrightarrow> FLAGS m AND f \<noteq> 0"

definition CONDITIONAL_SET_FLAG :: "bool \<Rightarrow> u32 \<Rightarrow> x86 \<Rightarrow> x86" where
  "CONDITIONAL_SET_FLAG c f m = (if c then SET_FLAG f m else CLEAR_FLAG f m)"

text \<open>Each flag is one bit of the register.\<close>

lemma flag_bits:
  "F_CF = push_bit 0 1" "F_PF = push_bit 2 1" "F_AF = push_bit 4 1" "F_ZF = push_bit 6 1"
  "F_SF = push_bit 7 1" "F_TF = push_bit 8 1" "F_IF = push_bit 9 1" "F_DF = push_bit 10 1"
  "F_OF = push_bit 11 1"
  by (simp_all add: F_CF_def F_PF_def F_AF_def F_ZF_def F_SF_def F_TF_def F_IF_def F_DF_def F_OF_def)

lemma access_single: "i < 32 \<Longrightarrow> ACCESS_FLAG (push_bit i 1) m = bit (FLAGS m) i"
  by (simp add: ACCESS_FLAG_def push_bit_of_1 and_exp_eq_0_iff_not_bit)

lemma set_single:
  "i < 32 \<Longrightarrow> bit (FLAGS (SET_FLAG (push_bit i 1) m)) k \<longleftrightarrow> k = i \<or> bit (FLAGS m) k"
  by (auto simp: SET_FLAG_def push_bit_of_1 bit_or_iff bit_exp_iff)

lemma clear_single:
  "i < 32 \<Longrightarrow> bit (FLAGS (CLEAR_FLAG (push_bit i 1) m)) k \<longleftrightarrow> k \<noteq> i \<and> bit (FLAGS m) k"
  by (auto simp: CLEAR_FLAG_def push_bit_of_1 bit_and_iff bit_not_iff bit_exp_iff dest: bit_imp_le_length)

lemma cond_single:
  "i < 32 \<Longrightarrow> bit (FLAGS (CONDITIONAL_SET_FLAG c (push_bit i 1) m)) k \<longleftrightarrow>
     (if k = i then c else bit (FLAGS m) k)"
  unfolding CONDITIONAL_SET_FLAG_def by (cases c) (simp_all only: set_single clear_single if_True if_False, auto)

named_theorems flag_simps \<open>reading flags after flag updates\<close>

lemma access_flags [flag_simps]:
  "ACCESS_FLAG F_CF m = bit (FLAGS m) 0" "ACCESS_FLAG F_PF m = bit (FLAGS m) 2"
  "ACCESS_FLAG F_AF m = bit (FLAGS m) 4" "ACCESS_FLAG F_ZF m = bit (FLAGS m) 6"
  "ACCESS_FLAG F_SF m = bit (FLAGS m) 7" "ACCESS_FLAG F_TF m = bit (FLAGS m) 8"
  "ACCESS_FLAG F_IF m = bit (FLAGS m) 9" "ACCESS_FLAG F_DF m = bit (FLAGS m) 10"
  "ACCESS_FLAG F_OF m = bit (FLAGS m) 11"
  unfolding flag_bits by (rule access_single, simp)+

lemma set_flags [flag_simps]:
  "bit (FLAGS (SET_FLAG F_CF m)) k \<longleftrightarrow> k = 0 \<or> bit (FLAGS m) k"
  "bit (FLAGS (SET_FLAG F_PF m)) k \<longleftrightarrow> k = 2 \<or> bit (FLAGS m) k"
  "bit (FLAGS (SET_FLAG F_AF m)) k \<longleftrightarrow> k = 4 \<or> bit (FLAGS m) k"
  "bit (FLAGS (SET_FLAG F_ZF m)) k \<longleftrightarrow> k = 6 \<or> bit (FLAGS m) k"
  "bit (FLAGS (SET_FLAG F_SF m)) k \<longleftrightarrow> k = 7 \<or> bit (FLAGS m) k"
  "bit (FLAGS (SET_FLAG F_OF m)) k \<longleftrightarrow> k = 11 \<or> bit (FLAGS m) k"
  unfolding flag_bits by (rule set_single, simp)+

lemma clear_flags [flag_simps]:
  "bit (FLAGS (CLEAR_FLAG F_CF m)) k \<longleftrightarrow> k \<noteq> 0 \<and> bit (FLAGS m) k"
  "bit (FLAGS (CLEAR_FLAG F_PF m)) k \<longleftrightarrow> k \<noteq> 2 \<and> bit (FLAGS m) k"
  "bit (FLAGS (CLEAR_FLAG F_AF m)) k \<longleftrightarrow> k \<noteq> 4 \<and> bit (FLAGS m) k"
  "bit (FLAGS (CLEAR_FLAG F_ZF m)) k \<longleftrightarrow> k \<noteq> 6 \<and> bit (FLAGS m) k"
  "bit (FLAGS (CLEAR_FLAG F_SF m)) k \<longleftrightarrow> k \<noteq> 7 \<and> bit (FLAGS m) k"
  "bit (FLAGS (CLEAR_FLAG F_TF m)) k \<longleftrightarrow> k \<noteq> 8 \<and> bit (FLAGS m) k"
  "bit (FLAGS (CLEAR_FLAG F_IF m)) k \<longleftrightarrow> k \<noteq> 9 \<and> bit (FLAGS m) k"
  "bit (FLAGS (CLEAR_FLAG F_OF m)) k \<longleftrightarrow> k \<noteq> 11 \<and> bit (FLAGS m) k"
  unfolding flag_bits by (rule clear_single, simp)+

lemma cond_flags [flag_simps]:
  "bit (FLAGS (CONDITIONAL_SET_FLAG c F_CF m)) k \<longleftrightarrow> (if k = 0 then c else bit (FLAGS m) k)"
  "bit (FLAGS (CONDITIONAL_SET_FLAG c F_PF m)) k \<longleftrightarrow> (if k = 2 then c else bit (FLAGS m) k)"
  "bit (FLAGS (CONDITIONAL_SET_FLAG c F_AF m)) k \<longleftrightarrow> (if k = 4 then c else bit (FLAGS m) k)"
  "bit (FLAGS (CONDITIONAL_SET_FLAG c F_ZF m)) k \<longleftrightarrow> (if k = 6 then c else bit (FLAGS m) k)"
  "bit (FLAGS (CONDITIONAL_SET_FLAG c F_SF m)) k \<longleftrightarrow> (if k = 7 then c else bit (FLAGS m) k)"
  "bit (FLAGS (CONDITIONAL_SET_FLAG c F_OF m)) k \<longleftrightarrow> (if k = 11 then c else bit (FLAGS m) k)"
  unfolding flag_bits by (rule cond_single, simp)+

text \<open>Flag updates touch nothing but the flags register.\<close>

definition only_flags :: "x86 \<Rightarrow> x86 \<Rightarrow> bool" where
  "only_flags m m' \<longleftrightarrow> m' = m\<lparr>FLAGS := FLAGS m'\<rparr>"

lemma flag_upd_FLAGS [flag_simps]:
  "(SET_FLAG f m)\<lparr>FLAGS := v\<rparr> = m\<lparr>FLAGS := v\<rparr>"
  "(CLEAR_FLAG f m)\<lparr>FLAGS := v\<rparr> = m\<lparr>FLAGS := v\<rparr>"
  "(CONDITIONAL_SET_FLAG c f m)\<lparr>FLAGS := v\<rparr> = m\<lparr>FLAGS := v\<rparr>"
  by (simp_all add: SET_FLAG_def CLEAR_FLAG_def CONDITIONAL_SET_FLAG_def)

lemma only_flags_iff [flag_simps]: "only_flags m m' \<longleftrightarrow> m'\<lparr>FLAGS := 0\<rparr> = m\<lparr>FLAGS := 0\<rparr>"
  unfolding only_flags_def by (cases m, cases m') simp

lemma flag_upd_regs [flag_simps]:
  "gA (SET_FLAG f m) = gA m" "gA (CLEAR_FLAG f m) = gA m" "gA (CONDITIONAL_SET_FLAG c f m) = gA m"
  "gD (SET_FLAG f m) = gD m" "gD (CLEAR_FLAG f m) = gD m" "gD (CONDITIONAL_SET_FLAG c f m) = gD m"
  by (simp_all add: SET_FLAG_def CLEAR_FLAG_def CONDITIONAL_SET_FLAG_def)

section \<open>Parity and masks\<close>

definition x86emu_parity_tab :: "u32 list" where
  "x86emu_parity_tab = [0x96696996, 0x69969669, 0x69969669, 0x96696996,
                        0x69969669, 0x96696996, 0x96696996, 0x69969669]"

text \<open>\<open>PARITY\<close> is only used on values below 256.\<close>

definition PARITY :: "u32 \<Rightarrow> bool" where
  "PARITY x \<longleftrightarrow> drop_bit (unat x mod 32) (x86emu_parity_tab ! (unat x div 32)) AND 1 = 0"

definition XOR2 :: "u32 \<Rightarrow> bool" where
  "XOR2 x \<longleftrightarrow> (x XOR drop_bit 1 x) AND 1 \<noteq> 0"

text \<open>Even parity of a byte: an even number of its bits is set.\<close>

definition even_parity :: "u8 \<Rightarrow> bool" where
  "even_parity b \<longleftrightarrow> even (length (filter (bit b) [0..<8]))"

lemma PARITY_table: "x < 256 \<Longrightarrow> PARITY (word_of_nat x) = even_parity (word_of_nat x)"
proof -
  have "\<forall>x \<in> set [0..<256]. PARITY (word_of_nat x) = even_parity (word_of_nat x)" by code_simp
  then show "x < 256 \<Longrightarrow> PARITY (word_of_nat x) = even_parity (word_of_nat x)" by simp
qed

lemma and_ff: "(x :: u32) AND 0xFF = ucast (ucast x :: u8)"
proof -
  have "(0xFF :: u32) = mask 8" by code_simp
  then show ?thesis by (simp only: take_bit_eq_mask [symmetric] unsigned_ucast_eq) (simp add: unsigned_ucast_eq)
qed

end
