(* ===== verification/CarryChain.thy ===== *)
theory CarryChain
  imports Prelude
begin

text \<open>
  The mathematics behind the carry and borrow chains of \<open>prim_ops.c\<close> (the note at its top): for
  \<open>r = x + y + c\<close> the word \<open>xy + r'(x + y)\<close> holds in every bit the carry out of that position, and
  for \<open>r = x - y - c\<close> the word \<open>x'y + r(x' + y)\<close> the borrow.  Carries and borrows are defined on
  integers, so that the flag theorems can speak about unbounded arithmetic.
\<close>

section \<open>Carry into and borrow from a position\<close>

definition carry :: "nat \<Rightarrow> int \<Rightarrow> int \<Rightarrow> bool \<Rightarrow> bool" where
  "carry i a b c \<longleftrightarrow> 2 ^ i \<le> take_bit i a + take_bit i b + of_bool c"

definition borrow :: "nat \<Rightarrow> int \<Rightarrow> int \<Rightarrow> bool \<Rightarrow> bool" where
  "borrow i a b c \<longleftrightarrow> take_bit i a < take_bit i b + of_bool c"

lemma carry_0 [simp]: "carry 0 a b c = c"
  by (simp add: carry_def)

lemma borrow_0 [simp]: "borrow 0 a b c = c"
  by (simp add: borrow_def)

lemma take_bit_bounds: "0 \<le> take_bit i (a :: int)" "take_bit i (a :: int) < 2 ^ i"
  by simp_all

lemma carry_arith:
  assumes "0 \<le> A" "A < P" "0 \<le> B" "B < (P :: int)"
  shows "2 * P \<le> P * of_bool p + A + (P * of_bool q + B) + of_bool c \<longleftrightarrow>
      (p \<and> q) \<or> ((p \<or> q) \<and> P \<le> A + B + of_bool c)"
    and "P * of_bool p + A < P * of_bool q + B + of_bool c \<longleftrightarrow>
      (\<not> p \<and> q) \<or> ((\<not> p \<or> q) \<and> A < B + of_bool c)"
    and "A + B + of_bool c < 2 * P" "- P \<le> A - B - of_bool c" "A - B - of_bool c < P"
proof -
  show "2 * P \<le> P * of_bool p + A + (P * of_bool q + B) + of_bool c \<longleftrightarrow>
      (p \<and> q) \<or> ((p \<or> q) \<and> P \<le> A + B + of_bool c)"
    using assms by (cases p; cases q; cases c) (simp_all add: add.assoc)
  show "P * of_bool p + A < P * of_bool q + B + of_bool c \<longleftrightarrow>
      (\<not> p \<and> q) \<or> ((\<not> p \<or> q) \<and> A < B + of_bool c)"
    using assms by (cases p; cases q; cases c) simp_all
  show "A + B + of_bool c < 2 * P" "- P \<le> A - B - of_bool c" "A - B - of_bool c < P"
    using assms by (cases c, simp_all)+
qed

lemma carry_Suc:
  "carry (Suc i) a b c \<longleftrightarrow> (bit a i \<and> bit b i) \<or> ((bit a i \<or> bit b i) \<and> carry i a b c)"
  using carry_arith(1) [OF take_bit_bounds [of i a] take_bit_bounds [of i b], of "bit a i" "bit b i" c]
  by (simp add: carry_def take_bit_Suc_from_most)

lemma borrow_Suc:
  "borrow (Suc i) a b c \<longleftrightarrow> (\<not> bit a i \<and> bit b i) \<or> ((\<not> bit a i \<or> bit b i) \<and> borrow i a b c)"
  using carry_arith(2) [OF take_bit_bounds [of i a] take_bit_bounds [of i b], of "bit a i" "bit b i" c]
  by (simp add: borrow_def take_bit_Suc_from_most)

lemma div_exp_decomp: "(a :: int) = take_bit i a + 2 ^ i * (a div 2 ^ i)"
  by (simp add: take_bit_eq_mod)

lemma bit_add_carry: "bit (a + b + of_bool c) i \<longleftrightarrow> (bit a i \<noteq> (bit b i \<noteq> carry i a b c))"
proof -
  let ?t = "take_bit i a + take_bit i b + of_bool c"
  have "a + b + of_bool c = ?t + 2 ^ i * (a div 2 ^ i + b div 2 ^ i)"
    using div_exp_decomp [of a i] div_exp_decomp [of b i] by (simp add: distrib_left)
  then have d: "(a + b + of_bool c) div 2 ^ i = a div 2 ^ i + b div 2 ^ i + ?t div 2 ^ i"
    by (metis add.commute div_mult_self4 power_not_zero zero_neq_numeral)
  have lim: "0 \<le> ?t" "?t < 2 * 2 ^ i"
    using carry_arith(3) [OF take_bit_bounds take_bit_bounds, of i a b c] by simp_all
  have "?t div 2 ^ i = of_bool (carry i a b c)"
  proof (cases "carry i a b c")
    case True
    then have "?t div 2 ^ i = 1" using lim by (intro int_div_pos_eq [where r = "?t - 2 ^ i"]) (auto simp: carry_def)
    with True show ?thesis by simp
  next
    case False
    with lim show ?thesis by (simp add: carry_def div_pos_pos_trivial)
  qed
  with d show ?thesis by (auto simp: bit_iff_odd)
qed

lemma bit_sub_borrow: "bit (a - b - of_bool c) i \<longleftrightarrow> (bit a i \<noteq> (bit b i \<noteq> borrow i a b c))"
proof -
  let ?t = "take_bit i a - take_bit i b - of_bool c"
  have "a - b - of_bool c = ?t + 2 ^ i * (a div 2 ^ i - b div 2 ^ i)"
    using div_exp_decomp [of a i] div_exp_decomp [of b i] by (simp add: right_diff_distrib)
  then have d: "(a - b - of_bool c) div 2 ^ i = a div 2 ^ i - b div 2 ^ i + ?t div 2 ^ i"
    by (metis add.commute div_mult_self4 power_not_zero zero_neq_numeral)
  have lim: "- (2 ^ i) \<le> ?t" "?t < 2 ^ i"
    by (rule carry_arith(4,5) [OF take_bit_bounds take_bit_bounds])+
  have "?t div 2 ^ i = - of_bool (borrow i a b c)"
  proof (cases "borrow i a b c")
    case True
    then have "?t div 2 ^ i = - 1" using lim by (intro int_div_pos_eq [where r = "?t + 2 ^ i"]) (auto simp: borrow_def)
    with True show ?thesis by simp
  next
    case False
    with lim show ?thesis by (simp add: borrow_def div_pos_pos_trivial)
  qed
  with d show ?thesis by (auto simp: bit_iff_odd)
qed

section \<open>The chains on words\<close>

lemma uint_of_bool: "uint (of_bool c :: 'a::len word) = of_bool c"
  by (cases c) simp_all

lemma bit_uint: "bit (uint (x :: 'a::len word)) i = bit x i"
  by (simp add: bit_simps)

lemma bit_word_add:
  "i < LENGTH('a) \<Longrightarrow> bit (x + y + of_bool c :: 'a::len word) i \<longleftrightarrow>
     (bit x i \<noteq> (bit y i \<noteq> carry i (uint x) (uint y) c))"
proof -
  assume i: "i < LENGTH('a)"
  have "uint (x + y + of_bool c) = take_bit LENGTH('a) (uint x + uint y + of_bool c)"
    by (simp add: uint_word_arith_bintrs uint_of_bool take_bit_eq_mod mod_simps)
  then have "bit (x + y + of_bool c) i = bit (uint x + uint y + of_bool c) i"
    using i by (metis bit_take_bit_iff bit_uint)
  then show ?thesis by (simp add: bit_add_carry bit_uint)
qed

lemma bit_word_sub:
  "i < LENGTH('a) \<Longrightarrow> bit (x - y - of_bool c :: 'a::len word) i \<longleftrightarrow>
     (bit x i \<noteq> (bit y i \<noteq> borrow i (uint x) (uint y) c))"
proof -
  assume i: "i < LENGTH('a)"
  have "uint (x - y - of_bool c) = take_bit LENGTH('a) (uint x - uint y - of_bool c)"
    by (simp add: uint_word_arith_bintrs uint_of_bool take_bit_eq_mod mod_simps)
  then have "bit (x - y - of_bool c) i = bit (uint x - uint y - of_bool c) i"
    using i by (metis bit_take_bit_iff bit_uint)
  then show ?thesis by (simp add: bit_sub_borrow bit_uint)
qed

text \<open>The formulas of the source.\<close>

lemma carry_chain:
  fixes x y :: "'a::len word"
  assumes "i < LENGTH('a)"
  shows "bit ((y AND x) OR (NOT (x + y + of_bool c) AND (y OR x))) i \<longleftrightarrow> carry (Suc i) (uint x) (uint y) c"
  using assms bit_word_add [OF assms, of x y c]
  by (auto simp: bit_simps carry_Suc bit_uint)

lemma borrow_chain:
  fixes x y :: "'a::len word"
  assumes "i < LENGTH('a)"
  shows "bit (((x - y - of_bool c) AND (NOT x OR y)) OR (NOT x AND y)) i \<longleftrightarrow> borrow (Suc i) (uint x) (uint y) c"
  using assms bit_word_sub [OF assms, of x y c]
  by (auto simp: bit_simps borrow_Suc bit_uint)

section \<open>Signed overflow\<close>

lemma sint_split:
  "LENGTH('a::len) = Suc n \<Longrightarrow> sint (x :: 'a word) = take_bit n (uint x) - 2 ^ n * of_bool (bit x n)"
  by (simp add: sint_uint signed_take_bit_eq_take_bit_minus take_bit_Suc_from_most bit_uint)

lemma take_bit_uint_add:
  assumes "LENGTH('a::len) = Suc n"
  shows "take_bit n (uint (x + y + of_bool c :: 'a word)) =
     take_bit n (uint x) + take_bit n (uint y) + of_bool c - 2 ^ n * of_bool (carry n (uint x) (uint y) c)"
proof -
  let ?t = "take_bit n (uint x) + take_bit n (uint y) + of_bool c"
  have "uint (x + y + of_bool c) = take_bit (Suc n) (uint x + uint y + of_bool c)"
    by (simp add: uint_word_arith_bintrs uint_of_bool take_bit_eq_mod mod_simps assms)
  then have "take_bit n (uint (x + y + of_bool c)) = take_bit n ?t"
    by (simp add: take_bit_add) (metis (no_types) take_bit_add take_bit_take_bit min.idem)
  moreover have "take_bit n ?t = ?t - 2 ^ n * of_bool (carry n (uint x) (uint y) c)"
  proof -
    have lim: "0 \<le> ?t" "?t < 2 * 2 ^ n"
      using carry_arith(3) [OF take_bit_bounds take_bit_bounds, of n "uint x" "uint y" c] by simp_all
    show ?thesis
    proof (cases "2 ^ n \<le> ?t")
      case True
      then have "take_bit n ?t = take_bit n (?t - 2 ^ n)"
        by (simp add: take_bit_eq_mod)
      also have "\<dots> = ?t - 2 ^ n" using True lim by (intro take_bit_int_eq_self) auto
      finally show ?thesis using True by (simp add: carry_def)
    next
      case False
      with lim show ?thesis by (simp add: carry_def take_bit_int_eq_self)
    qed
  qed
  ultimately show ?thesis by simp
qed

lemma take_bit_uint_sub:
  assumes "LENGTH('a::len) = Suc n"
  shows "take_bit n (uint (x - y - of_bool c :: 'a word)) =
     take_bit n (uint x) - take_bit n (uint y) - of_bool c + 2 ^ n * of_bool (borrow n (uint x) (uint y) c)"
proof -
  let ?t = "take_bit n (uint x) - take_bit n (uint y) - of_bool c"
  have "uint (x - y - of_bool c) = take_bit (Suc n) (uint x - uint y - of_bool c)"
    by (simp add: uint_word_arith_bintrs uint_of_bool take_bit_eq_mod mod_simps assms)
  then have "take_bit n (uint (x - y - of_bool c)) = take_bit n ?t"
    by simp (metis (no_types) take_bit_diff take_bit_take_bit min.idem)
  moreover have "take_bit n ?t = ?t + 2 ^ n * of_bool (borrow n (uint x) (uint y) c)"
  proof -
    have lim: "- (2 ^ n) \<le> ?t" "?t < 2 ^ n"
      by (rule carry_arith(4,5) [OF take_bit_bounds take_bit_bounds])+
    show ?thesis
    proof (cases "?t < 0")
      case True
      then have "take_bit n ?t = take_bit n (?t + 2 ^ n)"
        by (simp add: take_bit_eq_mod)
      also have "\<dots> = ?t + 2 ^ n" using True lim by (intro take_bit_int_eq_self) auto
      finally show ?thesis using True by (simp add: borrow_def)
    next
      case False
      with lim show ?thesis by (simp add: borrow_def take_bit_int_eq_self)
    qed
  qed
  ultimately show ?thesis by simp
qed

lemma add_overflow:
  fixes x y :: "'a::len word"
  assumes "LENGTH('a) = Suc n"
  shows "sint (x + y + of_bool c) \<noteq> sint x + sint y + of_bool c \<longleftrightarrow>
     carry n (uint x) (uint y) c \<noteq> carry (Suc n) (uint x) (uint y) c"
proof -
  have "bit (x + y + of_bool c) n = (bit x n \<noteq> (bit y n \<noteq> carry n (uint x) (uint y) c))"
    using assms by (intro bit_word_add) simp
  then show ?thesis
    unfolding sint_split [OF assms] take_bit_uint_add [OF assms] carry_Suc bit_uint
    by (cases "bit x n"; cases "bit y n"; cases "carry n (uint x) (uint y) c") simp_all
qed

lemma sub_overflow:
  fixes x y :: "'a::len word"
  assumes "LENGTH('a) = Suc n"
  shows "sint (x - y - of_bool c) \<noteq> sint x - sint y - of_bool c \<longleftrightarrow>
     borrow n (uint x) (uint y) c \<noteq> borrow (Suc n) (uint x) (uint y) c"
proof -
  have "bit (x - y - of_bool c) n = (bit x n \<noteq> (bit y n \<noteq> borrow n (uint x) (uint y) c))"
    using assms by (intro bit_word_sub) simp
  then show ?thesis
    unfolding sint_split [OF assms] take_bit_uint_sub [OF assms] borrow_Suc bit_uint
    by (cases "bit x n"; cases "bit y n"; cases "borrow n (uint x) (uint y) c") simp_all
qed

end
