(* ===== verification/X86Arith.thy ===== *)
theory X86Arith
  imports X86State CarryChain
begin

text \<open>
  The arithmetic, logical and decimal primitives of the emulator (\<open>prim_ops.c\<close>), one definition per
  C function.  Operands are promoted to 32 bit as the C code does (\<open>register u32 res\<close>); the flags
  are set in the order of the source.  The theorems compare every flag with unbounded integer
  arithmetic.
\<close>

section \<open>Decimal adjustment\<close>

definition aaa_word :: "u16 \<Rightarrow> x86 \<Rightarrow> u16 \<times> x86" where
  "aaa_word d m =
     (let (d, m) = (if d AND 0xf > 0x9 \<or> ACCESS_FLAG F_AF m
                    then (d + 0x6 + 0x100, SET_FLAG F_CF (SET_FLAG F_AF m))
                    else (d, CLEAR_FLAG F_AF (CLEAR_FLAG F_CF m)));
          res = d AND 0xFF0F;
          m = CLEAR_FLAG F_SF m;
          m = CONDITIONAL_SET_FLAG (res = 0) F_ZF m;
          m = CONDITIONAL_SET_FLAG (PARITY (ucast (res AND 0xff))) F_PF m
      in (res, m))"

definition aas_word :: "u16 \<Rightarrow> x86 \<Rightarrow> u16 \<times> x86" where
  "aas_word d m =
     (let (d, m) = (if d AND 0xf > 0x9 \<or> ACCESS_FLAG F_AF m
                    then (d - 0x6 - 0x100, SET_FLAG F_CF (SET_FLAG F_AF m))
                    else (d, CLEAR_FLAG F_AF (CLEAR_FLAG F_CF m)));
          res = d AND 0xFF0F;
          m = CLEAR_FLAG F_SF m;
          m = CONDITIONAL_SET_FLAG (res = 0) F_ZF m;
          m = CONDITIONAL_SET_FLAG (PARITY (ucast (res AND 0xff))) F_PF m
      in (res, m))"

definition aad_word :: "u16 \<Rightarrow> x86 \<Rightarrow> u16 \<times> x86" where
  "aad_word d m =
     (let hb = ucast (drop_bit 8 d AND 0xff) :: u8;
          lb = ucast (d AND 0xff) :: u8;
          l = ucast ((ucast lb + 10 * ucast hb :: u32) AND 0xFF) :: u16;
          m = CLEAR_FLAG F_CF m;
          m = CLEAR_FLAG F_AF m;
          m = CLEAR_FLAG F_OF m;
          m = CONDITIONAL_SET_FLAG (l AND 0x80 \<noteq> 0) F_SF m;
          m = CONDITIONAL_SET_FLAG (l = 0) F_ZF m;
          m = CONDITIONAL_SET_FLAG (PARITY (ucast (l AND 0xff))) F_PF m
      in (l, m))"

definition aam_word :: "u8 \<Rightarrow> x86 \<Rightarrow> u16 \<times> x86" where
  "aam_word d m =
     (let h = ucast (d div 10) :: u16;
          l = ucast (d mod 10) :: u16;
          l = l OR push_bit 8 h;
          m = CLEAR_FLAG F_CF m;
          m = CLEAR_FLAG F_AF m;
          m = CLEAR_FLAG F_OF m;
          m = CONDITIONAL_SET_FLAG (l AND 0x80 \<noteq> 0) F_SF m;
          m = CONDITIONAL_SET_FLAG (l = 0) F_ZF m;
          m = CONDITIONAL_SET_FLAG (PARITY (ucast (l AND 0xff))) F_PF m
      in (l, m))"

section \<open>Arithmetic and logic\<close>

definition adc_byte :: "u8 \<Rightarrow> u8 \<Rightarrow> x86 \<Rightarrow> u8 \<times> x86" where
  "adc_byte d s m =
     (let res = (if ACCESS_FLAG F_CF m then 1 + ucast d + ucast s else ucast d + ucast s) :: u32;
          m = CONDITIONAL_SET_FLAG (res AND 0x100 \<noteq> 0) F_CF m;
          m = CONDITIONAL_SET_FLAG (res AND 0xff = 0) F_ZF m;
          m = CONDITIONAL_SET_FLAG (res AND 0x80 \<noteq> 0) F_SF m;
          m = CONDITIONAL_SET_FLAG (PARITY (res AND 0xff)) F_PF m;
          cc = (ucast s AND ucast d) OR (NOT res AND (ucast s OR ucast d));
          m = CONDITIONAL_SET_FLAG (XOR2 (drop_bit 6 cc)) F_OF m;
          m = CONDITIONAL_SET_FLAG (cc AND 0x8 \<noteq> 0) F_AF m
      in (ucast res, m))"

definition adc_word :: "u16 \<Rightarrow> u16 \<Rightarrow> x86 \<Rightarrow> u16 \<times> x86" where
  "adc_word d s m =
     (let res = (if ACCESS_FLAG F_CF m then 1 + ucast d + ucast s else ucast d + ucast s) :: u32;
          m = CONDITIONAL_SET_FLAG (res AND 0x10000 \<noteq> 0) F_CF m;
          m = CONDITIONAL_SET_FLAG (res AND 0xffff = 0) F_ZF m;
          m = CONDITIONAL_SET_FLAG (res AND 0x8000 \<noteq> 0) F_SF m;
          m = CONDITIONAL_SET_FLAG (PARITY (res AND 0xff)) F_PF m;
          cc = (ucast s AND ucast d) OR (NOT res AND (ucast s OR ucast d));
          m = CONDITIONAL_SET_FLAG (XOR2 (drop_bit 14 cc)) F_OF m;
          m = CONDITIONAL_SET_FLAG (cc AND 0x8 \<noteq> 0) F_AF m
      in (ucast res, m))"

definition adc_long :: "u32 \<Rightarrow> u32 \<Rightarrow> x86 \<Rightarrow> u32 \<times> x86" where
  "adc_long d s m =
     (let (lo, res) = (if ACCESS_FLAG F_CF m then (1 + (d AND 0xFFFF) + (s AND 0xFFFF), 1 + d + s)
                       else ((d AND 0xFFFF) + (s AND 0xFFFF), d + s));
          hi = drop_bit 16 lo + drop_bit 16 d + drop_bit 16 s;
          m = CONDITIONAL_SET_FLAG (hi AND 0x10000 \<noteq> 0) F_CF m;
          m = CONDITIONAL_SET_FLAG (res AND 0xffffffff = 0) F_ZF m;
          m = CONDITIONAL_SET_FLAG (res AND 0x80000000 \<noteq> 0) F_SF m;
          m = CONDITIONAL_SET_FLAG (PARITY (res AND 0xff)) F_PF m;
          cc = (s AND d) OR (NOT res AND (s OR d));
          m = CONDITIONAL_SET_FLAG (XOR2 (drop_bit 30 cc)) F_OF m;
          m = CONDITIONAL_SET_FLAG (cc AND 0x8 \<noteq> 0) F_AF m
      in (res, m))"

definition add_byte :: "u8 \<Rightarrow> u8 \<Rightarrow> x86 \<Rightarrow> u8 \<times> x86" where
  "add_byte d s m =
     (let res = ucast d + ucast s :: u32;
          m = CONDITIONAL_SET_FLAG (res AND 0x100 \<noteq> 0) F_CF m;
          m = CONDITIONAL_SET_FLAG (res AND 0xff = 0) F_ZF m;
          m = CONDITIONAL_SET_FLAG (res AND 0x80 \<noteq> 0) F_SF m;
          m = CONDITIONAL_SET_FLAG (PARITY (res AND 0xff)) F_PF m;
          cc = (ucast s AND ucast d) OR (NOT res AND (ucast s OR ucast d));
          m = CONDITIONAL_SET_FLAG (XOR2 (drop_bit 6 cc)) F_OF m;
          m = CONDITIONAL_SET_FLAG (cc AND 0x8 \<noteq> 0) F_AF m
      in (ucast res, m))"

definition add_word :: "u16 \<Rightarrow> u16 \<Rightarrow> x86 \<Rightarrow> u16 \<times> x86" where
  "add_word d s m =
     (let res = ucast d + ucast s :: u32;
          m = CONDITIONAL_SET_FLAG (res AND 0x10000 \<noteq> 0) F_CF m;
          m = CONDITIONAL_SET_FLAG (res AND 0xffff = 0) F_ZF m;
          m = CONDITIONAL_SET_FLAG (res AND 0x8000 \<noteq> 0) F_SF m;
          m = CONDITIONAL_SET_FLAG (PARITY (res AND 0xff)) F_PF m;
          cc = (ucast s AND ucast d) OR (NOT res AND (ucast s OR ucast d));
          m = CONDITIONAL_SET_FLAG (XOR2 (drop_bit 14 cc)) F_OF m;
          m = CONDITIONAL_SET_FLAG (cc AND 0x8 \<noteq> 0) F_AF m
      in (ucast res, m))"

definition add_long :: "u32 \<Rightarrow> u32 \<Rightarrow> x86 \<Rightarrow> u32 \<times> x86" where
  "add_long d s m =
     (let lo = (d AND 0xFFFF) + (s AND 0xFFFF);
          res = d + s;
          hi = drop_bit 16 lo + drop_bit 16 d + drop_bit 16 s;
          m = CONDITIONAL_SET_FLAG (hi AND 0x10000 \<noteq> 0) F_CF m;
          m = CONDITIONAL_SET_FLAG (res AND 0xffffffff = 0) F_ZF m;
          m = CONDITIONAL_SET_FLAG (res AND 0x80000000 \<noteq> 0) F_SF m;
          m = CONDITIONAL_SET_FLAG (PARITY (res AND 0xff)) F_PF m;
          cc = (s AND d) OR (NOT res AND (s OR d));
          m = CONDITIONAL_SET_FLAG (XOR2 (drop_bit 30 cc)) F_OF m;
          m = CONDITIONAL_SET_FLAG (cc AND 0x8 \<noteq> 0) F_AF m
      in (res, m))"

definition and_byte :: "u8 \<Rightarrow> u8 \<Rightarrow> x86 \<Rightarrow> u8 \<times> x86" where
  "and_byte d s m =
     (let res = d AND s;
          m = CLEAR_FLAG F_OF m;
          m = CLEAR_FLAG F_CF m;
          m = CLEAR_FLAG F_AF m;
          m = CONDITIONAL_SET_FLAG (res AND 0x80 \<noteq> 0) F_SF m;
          m = CONDITIONAL_SET_FLAG (res = 0) F_ZF m;
          m = CONDITIONAL_SET_FLAG (PARITY (ucast res)) F_PF m
      in (res, m))"

definition and_word :: "u16 \<Rightarrow> u16 \<Rightarrow> x86 \<Rightarrow> u16 \<times> x86" where
  "and_word d s m =
     (let res = d AND s;
          m = CLEAR_FLAG F_OF m;
          m = CLEAR_FLAG F_CF m;
          m = CLEAR_FLAG F_AF m;
          m = CONDITIONAL_SET_FLAG (res AND 0x8000 \<noteq> 0) F_SF m;
          m = CONDITIONAL_SET_FLAG (res = 0) F_ZF m;
          m = CONDITIONAL_SET_FLAG (PARITY (ucast (res AND 0xff))) F_PF m
      in (res, m))"

definition and_long :: "u32 \<Rightarrow> u32 \<Rightarrow> x86 \<Rightarrow> u32 \<times> x86" where
  "and_long d s m =
     (let res = d AND s;
          m = CLEAR_FLAG F_OF m;
          m = CLEAR_FLAG F_CF m;
          m = CLEAR_FLAG F_AF m;
          m = CONDITIONAL_SET_FLAG (res AND 0x80000000 \<noteq> 0) F_SF m;
          m = CONDITIONAL_SET_FLAG (res = 0) F_ZF m;
          m = CONDITIONAL_SET_FLAG (PARITY (res AND 0xff)) F_PF m
      in (res, m))"

definition cmp_byte :: "u8 \<Rightarrow> u8 \<Rightarrow> x86 \<Rightarrow> u8 \<times> x86" where
  "cmp_byte d s m =
     (let res = ucast d - ucast s :: u32;
          m = CLEAR_FLAG F_CF m;
          m = CONDITIONAL_SET_FLAG (res AND 0x80 \<noteq> 0) F_SF m;
          m = CONDITIONAL_SET_FLAG (res AND 0xff = 0) F_ZF m;
          m = CONDITIONAL_SET_FLAG (PARITY (res AND 0xff)) F_PF m;
          bc = (res AND (NOT (ucast d) OR ucast s)) OR (NOT (ucast d) AND ucast s);
          m = CONDITIONAL_SET_FLAG (bc AND 0x80 \<noteq> 0) F_CF m;
          m = CONDITIONAL_SET_FLAG (XOR2 (drop_bit 6 bc)) F_OF m;
          m = CONDITIONAL_SET_FLAG (bc AND 0x8 \<noteq> 0) F_AF m
      in (d, m))"

definition cmp_word :: "u16 \<Rightarrow> u16 \<Rightarrow> x86 \<Rightarrow> u16 \<times> x86" where
  "cmp_word d s m =
     (let res = ucast d - ucast s :: u32;
          m = CONDITIONAL_SET_FLAG (res AND 0x8000 \<noteq> 0) F_SF m;
          m = CONDITIONAL_SET_FLAG (res AND 0xffff = 0) F_ZF m;
          m = CONDITIONAL_SET_FLAG (PARITY (res AND 0xff)) F_PF m;
          bc = (res AND (NOT (ucast d) OR ucast s)) OR (NOT (ucast d) AND ucast s);
          m = CONDITIONAL_SET_FLAG (bc AND 0x8000 \<noteq> 0) F_CF m;
          m = CONDITIONAL_SET_FLAG (XOR2 (drop_bit 14 bc)) F_OF m;
          m = CONDITIONAL_SET_FLAG (bc AND 0x8 \<noteq> 0) F_AF m
      in (d, m))"

definition cmp_long :: "u32 \<Rightarrow> u32 \<Rightarrow> x86 \<Rightarrow> u32 \<times> x86" where
  "cmp_long d s m =
     (let res = d - s;
          m = CONDITIONAL_SET_FLAG (res AND 0x80000000 \<noteq> 0) F_SF m;
          m = CONDITIONAL_SET_FLAG (res AND 0xffffffff = 0) F_ZF m;
          m = CONDITIONAL_SET_FLAG (PARITY (res AND 0xff)) F_PF m;
          bc = (res AND (NOT d OR s)) OR (NOT d AND s);
          m = CONDITIONAL_SET_FLAG (bc AND 0x80000000 \<noteq> 0) F_CF m;
          m = CONDITIONAL_SET_FLAG (XOR2 (drop_bit 30 bc)) F_OF m;
          m = CONDITIONAL_SET_FLAG (bc AND 0x8 \<noteq> 0) F_AF m
      in (d, m))"

definition daa_byte :: "u8 \<Rightarrow> x86 \<Rightarrow> u8 \<times> x86" where
  "daa_byte d m =
     (let res = ucast d :: u32;
          (res, m) = (if d AND 0xf > 9 \<or> ACCESS_FLAG F_AF m then (res + 6, SET_FLAG F_AF m) else (res, m));
          (res, m) = (if res > 0x9F \<or> ACCESS_FLAG F_CF m then (res + 0x60, SET_FLAG F_CF m) else (res, m));
          m = CONDITIONAL_SET_FLAG (res AND 0x80 \<noteq> 0) F_SF m;
          m = CONDITIONAL_SET_FLAG (res AND 0xFF = 0) F_ZF m;
          m = CONDITIONAL_SET_FLAG (PARITY (res AND 0xff)) F_PF m
      in (ucast res, m))"

definition das_byte :: "u8 \<Rightarrow> x86 \<Rightarrow> u8 \<times> x86" where
  "das_byte d m =
     (let (d, m) = (if d AND 0xf > 9 \<or> ACCESS_FLAG F_AF m then (d - 6, SET_FLAG F_AF m) else (d, m));
          (d, m) = (if d > 0x9F \<or> ACCESS_FLAG F_CF m then (d - 0x60, SET_FLAG F_CF m) else (d, m));
          m = CONDITIONAL_SET_FLAG (d AND 0x80 \<noteq> 0) F_SF m;
          m = CONDITIONAL_SET_FLAG (d = 0) F_ZF m;
          m = CONDITIONAL_SET_FLAG (PARITY (ucast (d AND 0xff))) F_PF m
      in (d, m))"

definition dec_byte :: "u8 \<Rightarrow> x86 \<Rightarrow> u8 \<times> x86" where
  "dec_byte d m =
     (let res = ucast d - 1 :: u32;
          m = CONDITIONAL_SET_FLAG (res AND 0x80 \<noteq> 0) F_SF m;
          m = CONDITIONAL_SET_FLAG (res AND 0xff = 0) F_ZF m;
          m = CONDITIONAL_SET_FLAG (PARITY (res AND 0xff)) F_PF m;
          bc = (res AND (NOT (ucast d) OR 1)) OR (NOT (ucast d) AND 1);
          m = CONDITIONAL_SET_FLAG (XOR2 (drop_bit 6 bc)) F_OF m;
          m = CONDITIONAL_SET_FLAG (bc AND 0x8 \<noteq> 0) F_AF m
      in (ucast res, m))"

definition dec_word :: "u16 \<Rightarrow> x86 \<Rightarrow> u16 \<times> x86" where
  "dec_word d m =
     (let res = ucast d - 1 :: u32;
          m = CONDITIONAL_SET_FLAG (res AND 0x8000 \<noteq> 0) F_SF m;
          m = CONDITIONAL_SET_FLAG (res AND 0xffff = 0) F_ZF m;
          m = CONDITIONAL_SET_FLAG (PARITY (res AND 0xff)) F_PF m;
          bc = (res AND (NOT (ucast d) OR 1)) OR (NOT (ucast d) AND 1);
          m = CONDITIONAL_SET_FLAG (XOR2 (drop_bit 14 bc)) F_OF m;
          m = CONDITIONAL_SET_FLAG (bc AND 0x8 \<noteq> 0) F_AF m
      in (ucast res, m))"

definition dec_long :: "u32 \<Rightarrow> x86 \<Rightarrow> u32 \<times> x86" where
  "dec_long d m =
     (let res = d - 1;
          m = CONDITIONAL_SET_FLAG (res AND 0x80000000 \<noteq> 0) F_SF m;
          m = CONDITIONAL_SET_FLAG (res AND 0xffffffff = 0) F_ZF m;
          m = CONDITIONAL_SET_FLAG (PARITY (res AND 0xff)) F_PF m;
          bc = (res AND (NOT d OR 1)) OR (NOT d AND 1);
          m = CONDITIONAL_SET_FLAG (XOR2 (drop_bit 30 bc)) F_OF m;
          m = CONDITIONAL_SET_FLAG (bc AND 0x8 \<noteq> 0) F_AF m
      in (res, m))"

definition inc_byte :: "u8 \<Rightarrow> x86 \<Rightarrow> u8 \<times> x86" where
  "inc_byte d m =
     (let res = ucast d + 1 :: u32;
          m = CONDITIONAL_SET_FLAG (res AND 0xff = 0) F_ZF m;
          m = CONDITIONAL_SET_FLAG (res AND 0x80 \<noteq> 0) F_SF m;
          m = CONDITIONAL_SET_FLAG (PARITY (res AND 0xff)) F_PF m;
          cc = ((1 AND ucast d) OR NOT res) AND (1 OR ucast d);
          m = CONDITIONAL_SET_FLAG (XOR2 (drop_bit 6 cc)) F_OF m;
          m = CONDITIONAL_SET_FLAG (cc AND 0x8 \<noteq> 0) F_AF m
      in (ucast res, m))"

definition inc_word :: "u16 \<Rightarrow> x86 \<Rightarrow> u16 \<times> x86" where
  "inc_word d m =
     (let res = ucast d + 1 :: u32;
          m = CONDITIONAL_SET_FLAG (res AND 0xffff = 0) F_ZF m;
          m = CONDITIONAL_SET_FLAG (res AND 0x8000 \<noteq> 0) F_SF m;
          m = CONDITIONAL_SET_FLAG (PARITY (res AND 0xff)) F_PF m;
          cc = (1 AND ucast d) OR (NOT res AND (1 OR ucast d));
          m = CONDITIONAL_SET_FLAG (XOR2 (drop_bit 14 cc)) F_OF m;
          m = CONDITIONAL_SET_FLAG (cc AND 0x8 \<noteq> 0) F_AF m
      in (ucast res, m))"

definition inc_long :: "u32 \<Rightarrow> x86 \<Rightarrow> u32 \<times> x86" where
  "inc_long d m =
     (let res = d + 1;
          m = CONDITIONAL_SET_FLAG (res AND 0xffffffff = 0) F_ZF m;
          m = CONDITIONAL_SET_FLAG (res AND 0x80000000 \<noteq> 0) F_SF m;
          m = CONDITIONAL_SET_FLAG (PARITY (res AND 0xff)) F_PF m;
          cc = (1 AND d) OR (NOT res AND (1 OR d));
          m = CONDITIONAL_SET_FLAG (XOR2 (drop_bit 30 cc)) F_OF m;
          m = CONDITIONAL_SET_FLAG (cc AND 0x8 \<noteq> 0) F_AF m
      in (res, m))"

definition or_byte :: "u8 \<Rightarrow> u8 \<Rightarrow> x86 \<Rightarrow> u8 \<times> x86" where
  "or_byte d s m =
     (let res = d OR s;
          m = CLEAR_FLAG F_OF m;
          m = CLEAR_FLAG F_CF m;
          m = CLEAR_FLAG F_AF m;
          m = CONDITIONAL_SET_FLAG (res AND 0x80 \<noteq> 0) F_SF m;
          m = CONDITIONAL_SET_FLAG (res = 0) F_ZF m;
          m = CONDITIONAL_SET_FLAG (PARITY (ucast res)) F_PF m
      in (res, m))"

definition or_word :: "u16 \<Rightarrow> u16 \<Rightarrow> x86 \<Rightarrow> u16 \<times> x86" where
  "or_word d s m =
     (let res = d OR s;
          m = CLEAR_FLAG F_OF m;
          m = CLEAR_FLAG F_CF m;
          m = CLEAR_FLAG F_AF m;
          m = CONDITIONAL_SET_FLAG (res AND 0x8000 \<noteq> 0) F_SF m;
          m = CONDITIONAL_SET_FLAG (res = 0) F_ZF m;
          m = CONDITIONAL_SET_FLAG (PARITY (ucast (res AND 0xff))) F_PF m
      in (res, m))"

definition or_long :: "u32 \<Rightarrow> u32 \<Rightarrow> x86 \<Rightarrow> u32 \<times> x86" where
  "or_long d s m =
     (let res = d OR s;
          m = CLEAR_FLAG F_OF m;
          m = CLEAR_FLAG F_CF m;
          m = CLEAR_FLAG F_AF m;
          m = CONDITIONAL_SET_FLAG (res AND 0x80000000 \<noteq> 0) F_SF m;
          m = CONDITIONAL_SET_FLAG (res = 0) F_ZF m;
          m = CONDITIONAL_SET_FLAG (PARITY (res AND 0xff)) F_PF m
      in (res, m))"

definition neg_byte :: "u8 \<Rightarrow> x86 \<Rightarrow> u8 \<times> x86" where
  "neg_byte s m =
     (let m = CONDITIONAL_SET_FLAG (s \<noteq> 0) F_CF m;
          res = - s;
          m = CONDITIONAL_SET_FLAG (res AND 0xff = 0) F_ZF m;
          m = CONDITIONAL_SET_FLAG (res AND 0x80 \<noteq> 0) F_SF m;
          m = CONDITIONAL_SET_FLAG (PARITY (ucast res)) F_PF m;
          bc = res OR s;
          m = CONDITIONAL_SET_FLAG (XOR2 (ucast (drop_bit 6 bc))) F_OF m;
          m = CONDITIONAL_SET_FLAG (bc AND 0x8 \<noteq> 0) F_AF m
      in (res, m))"

definition neg_word :: "u16 \<Rightarrow> x86 \<Rightarrow> u16 \<times> x86" where
  "neg_word s m =
     (let m = CONDITIONAL_SET_FLAG (s \<noteq> 0) F_CF m;
          res = - s;
          m = CONDITIONAL_SET_FLAG (res AND 0xffff = 0) F_ZF m;
          m = CONDITIONAL_SET_FLAG (res AND 0x8000 \<noteq> 0) F_SF m;
          m = CONDITIONAL_SET_FLAG (PARITY (ucast (res AND 0xff))) F_PF m;
          bc = res OR s;
          m = CONDITIONAL_SET_FLAG (XOR2 (ucast (drop_bit 14 bc))) F_OF m;
          m = CONDITIONAL_SET_FLAG (bc AND 0x8 \<noteq> 0) F_AF m
      in (res, m))"

definition neg_long :: "u32 \<Rightarrow> x86 \<Rightarrow> u32 \<times> x86" where
  "neg_long s m =
     (let m = CONDITIONAL_SET_FLAG (s \<noteq> 0) F_CF m;
          res = - s;
          m = CONDITIONAL_SET_FLAG (res AND 0xffffffff = 0) F_ZF m;
          m = CONDITIONAL_SET_FLAG (res AND 0x80000000 \<noteq> 0) F_SF m;
          m = CONDITIONAL_SET_FLAG (PARITY (res AND 0xff)) F_PF m;
          bc = res OR s;
          m = CONDITIONAL_SET_FLAG (XOR2 (drop_bit 30 bc)) F_OF m;
          m = CONDITIONAL_SET_FLAG (bc AND 0x8 \<noteq> 0) F_AF m
      in (res, m))"

definition not_byte :: "u8 \<Rightarrow> u8" where
  "not_byte s = NOT s"

definition not_word :: "u16 \<Rightarrow> u16" where
  "not_word s = NOT s"

definition not_long :: "u32 \<Rightarrow> u32" where
  "not_long s = NOT s"

definition sbb_byte :: "u8 \<Rightarrow> u8 \<Rightarrow> x86 \<Rightarrow> u8 \<times> x86" where
  "sbb_byte d s m =
     (let res = (if ACCESS_FLAG F_CF m then ucast d - ucast s - 1 else ucast d - ucast s) :: u32;
          m = CONDITIONAL_SET_FLAG (res AND 0x80 \<noteq> 0) F_SF m;
          m = CONDITIONAL_SET_FLAG (res AND 0xff = 0) F_ZF m;
          m = CONDITIONAL_SET_FLAG (PARITY (res AND 0xff)) F_PF m;
          bc = (res AND (NOT (ucast d) OR ucast s)) OR (NOT (ucast d) AND ucast s);
          m = CONDITIONAL_SET_FLAG (bc AND 0x80 \<noteq> 0) F_CF m;
          m = CONDITIONAL_SET_FLAG (XOR2 (drop_bit 6 bc)) F_OF m;
          m = CONDITIONAL_SET_FLAG (bc AND 0x8 \<noteq> 0) F_AF m
      in (ucast res, m))"

definition sbb_word :: "u16 \<Rightarrow> u16 \<Rightarrow> x86 \<Rightarrow> u16 \<times> x86" where
  "sbb_word d s m =
     (let res = (if ACCESS_FLAG F_CF m then ucast d - ucast s - 1 else ucast d - ucast s) :: u32;
          m = CONDITIONAL_SET_FLAG (res AND 0x8000 \<noteq> 0) F_SF m;
          m = CONDITIONAL_SET_FLAG (res AND 0xffff = 0) F_ZF m;
          m = CONDITIONAL_SET_FLAG (PARITY (res AND 0xff)) F_PF m;
          bc = (res AND (NOT (ucast d) OR ucast s)) OR (NOT (ucast d) AND ucast s);
          m = CONDITIONAL_SET_FLAG (bc AND 0x8000 \<noteq> 0) F_CF m;
          m = CONDITIONAL_SET_FLAG (XOR2 (drop_bit 14 bc)) F_OF m;
          m = CONDITIONAL_SET_FLAG (bc AND 0x8 \<noteq> 0) F_AF m
      in (ucast res, m))"

definition sbb_long :: "u32 \<Rightarrow> u32 \<Rightarrow> x86 \<Rightarrow> u32 \<times> x86" where
  "sbb_long d s m =
     (let res = (if ACCESS_FLAG F_CF m then d - s - 1 else d - s);
          m = CONDITIONAL_SET_FLAG (res AND 0x80000000 \<noteq> 0) F_SF m;
          m = CONDITIONAL_SET_FLAG (res AND 0xffffffff = 0) F_ZF m;
          m = CONDITIONAL_SET_FLAG (PARITY (res AND 0xff)) F_PF m;
          bc = (res AND (NOT d OR s)) OR (NOT d AND s);
          m = CONDITIONAL_SET_FLAG (bc AND 0x80000000 \<noteq> 0) F_CF m;
          m = CONDITIONAL_SET_FLAG (XOR2 (drop_bit 30 bc)) F_OF m;
          m = CONDITIONAL_SET_FLAG (bc AND 0x8 \<noteq> 0) F_AF m
      in (res, m))"

definition sub_byte :: "u8 \<Rightarrow> u8 \<Rightarrow> x86 \<Rightarrow> u8 \<times> x86" where
  "sub_byte d s m =
     (let res = ucast d - ucast s :: u32;
          m = CONDITIONAL_SET_FLAG (res AND 0x80 \<noteq> 0) F_SF m;
          m = CONDITIONAL_SET_FLAG (res AND 0xff = 0) F_ZF m;
          m = CONDITIONAL_SET_FLAG (PARITY (res AND 0xff)) F_PF m;
          bc = (res AND (NOT (ucast d) OR ucast s)) OR (NOT (ucast d) AND ucast s);
          m = CONDITIONAL_SET_FLAG (bc AND 0x80 \<noteq> 0) F_CF m;
          m = CONDITIONAL_SET_FLAG (XOR2 (drop_bit 6 bc)) F_OF m;
          m = CONDITIONAL_SET_FLAG (bc AND 0x8 \<noteq> 0) F_AF m
      in (ucast res, m))"

definition sub_word :: "u16 \<Rightarrow> u16 \<Rightarrow> x86 \<Rightarrow> u16 \<times> x86" where
  "sub_word d s m =
     (let res = ucast d - ucast s :: u32;
          m = CONDITIONAL_SET_FLAG (res AND 0x8000 \<noteq> 0) F_SF m;
          m = CONDITIONAL_SET_FLAG (res AND 0xffff = 0) F_ZF m;
          m = CONDITIONAL_SET_FLAG (PARITY (res AND 0xff)) F_PF m;
          bc = (res AND (NOT (ucast d) OR ucast s)) OR (NOT (ucast d) AND ucast s);
          m = CONDITIONAL_SET_FLAG (bc AND 0x8000 \<noteq> 0) F_CF m;
          m = CONDITIONAL_SET_FLAG (XOR2 (drop_bit 14 bc)) F_OF m;
          m = CONDITIONAL_SET_FLAG (bc AND 0x8 \<noteq> 0) F_AF m
      in (ucast res, m))"

definition sub_long :: "u32 \<Rightarrow> u32 \<Rightarrow> x86 \<Rightarrow> u32 \<times> x86" where
  "sub_long d s m =
     (let res = d - s;
          m = CONDITIONAL_SET_FLAG (res AND 0x80000000 \<noteq> 0) F_SF m;
          m = CONDITIONAL_SET_FLAG (res AND 0xffffffff = 0) F_ZF m;
          m = CONDITIONAL_SET_FLAG (PARITY (res AND 0xff)) F_PF m;
          bc = (res AND (NOT d OR s)) OR (NOT d AND s);
          m = CONDITIONAL_SET_FLAG (bc AND 0x80000000 \<noteq> 0) F_CF m;
          m = CONDITIONAL_SET_FLAG (XOR2 (drop_bit 30 bc)) F_OF m;
          m = CONDITIONAL_SET_FLAG (bc AND 0x8 \<noteq> 0) F_AF m
      in (res, m))"

definition test_byte :: "u8 \<Rightarrow> u8 \<Rightarrow> x86 \<Rightarrow> x86" where
  "test_byte d s m =
     (let res = ucast (d AND s) :: u32;
          m = CLEAR_FLAG F_OF m;
          m = CONDITIONAL_SET_FLAG (res AND 0x80 \<noteq> 0) F_SF m;
          m = CONDITIONAL_SET_FLAG (res = 0) F_ZF m;
          m = CONDITIONAL_SET_FLAG (PARITY (res AND 0xff)) F_PF m;
          m = CLEAR_FLAG F_CF m
      in m)"

definition test_word :: "u16 \<Rightarrow> u16 \<Rightarrow> x86 \<Rightarrow> x86" where
  "test_word d s m =
     (let res = ucast (d AND s) :: u32;
          m = CLEAR_FLAG F_OF m;
          m = CONDITIONAL_SET_FLAG (res AND 0x8000 \<noteq> 0) F_SF m;
          m = CONDITIONAL_SET_FLAG (res = 0) F_ZF m;
          m = CONDITIONAL_SET_FLAG (PARITY (res AND 0xff)) F_PF m;
          m = CLEAR_FLAG F_CF m
      in m)"

definition test_long :: "u32 \<Rightarrow> u32 \<Rightarrow> x86 \<Rightarrow> x86" where
  "test_long d s m =
     (let res = d AND s;
          m = CLEAR_FLAG F_OF m;
          m = CONDITIONAL_SET_FLAG (res AND 0x80000000 \<noteq> 0) F_SF m;
          m = CONDITIONAL_SET_FLAG (res = 0) F_ZF m;
          m = CONDITIONAL_SET_FLAG (PARITY (res AND 0xff)) F_PF m;
          m = CLEAR_FLAG F_CF m
      in m)"

definition xor_byte :: "u8 \<Rightarrow> u8 \<Rightarrow> x86 \<Rightarrow> u8 \<times> x86" where
  "xor_byte d s m =
     (let res = d XOR s;
          m = CLEAR_FLAG F_OF m;
          m = CONDITIONAL_SET_FLAG (res AND 0x80 \<noteq> 0) F_SF m;
          m = CONDITIONAL_SET_FLAG (res = 0) F_ZF m;
          m = CONDITIONAL_SET_FLAG (PARITY (ucast res)) F_PF m;
          m = CLEAR_FLAG F_CF m;
          m = CLEAR_FLAG F_AF m
      in (res, m))"

definition xor_word :: "u16 \<Rightarrow> u16 \<Rightarrow> x86 \<Rightarrow> u16 \<times> x86" where
  "xor_word d s m =
     (let res = d XOR s;
          m = CLEAR_FLAG F_OF m;
          m = CONDITIONAL_SET_FLAG (res AND 0x8000 \<noteq> 0) F_SF m;
          m = CONDITIONAL_SET_FLAG (res = 0) F_ZF m;
          m = CONDITIONAL_SET_FLAG (PARITY (ucast (res AND 0xff))) F_PF m;
          m = CLEAR_FLAG F_CF m;
          m = CLEAR_FLAG F_AF m
      in (res, m))"

definition xor_long :: "u32 \<Rightarrow> u32 \<Rightarrow> x86 \<Rightarrow> u32 \<times> x86" where
  "xor_long d s m =
     (let res = d XOR s;
          m = CLEAR_FLAG F_OF m;
          m = CONDITIONAL_SET_FLAG (res AND 0x80000000 \<noteq> 0) F_SF m;
          m = CONDITIONAL_SET_FLAG (res = 0) F_ZF m;
          m = CONDITIONAL_SET_FLAG (PARITY (res AND 0xff)) F_PF m;
          m = CLEAR_FLAG F_CF m;
          m = CLEAR_FLAG F_AF m
      in (res, m))"

section \<open>Bits of masks\<close>

lemma test_bit_masks:
  fixes w :: "'a::len word"
  shows "w AND 0x8 \<noteq> 0 \<longleftrightarrow> bit w 3" "w AND 0x80 \<noteq> 0 \<longleftrightarrow> bit w 7" "w AND 0x100 \<noteq> 0 \<longleftrightarrow> bit w 8"
    "w AND 0x8000 \<noteq> 0 \<longleftrightarrow> bit w 15" "w AND 0x10000 \<noteq> 0 \<longleftrightarrow> bit w 16"
    "w AND 0x80000000 \<noteq> 0 \<longleftrightarrow> bit w 31" "w AND 1 \<noteq> 0 \<longleftrightarrow> bit w 0"
  using and_exp_eq_0_iff_not_bit [of w 3] and_exp_eq_0_iff_not_bit [of w 7]
    and_exp_eq_0_iff_not_bit [of w 8] and_exp_eq_0_iff_not_bit [of w 15]
    and_exp_eq_0_iff_not_bit [of w 16] and_exp_eq_0_iff_not_bit [of w 31]
    and_exp_eq_0_iff_not_bit [of w 0]
  by simp_all

lemma XOR2_drop_bit: "XOR2 (drop_bit k x) \<longleftrightarrow> bit x k \<noteq> bit x (Suc k)"
  by (simp only: XOR2_def test_bit_masks) (simp add: bit_simps)

lemma low_masks: "(0xffff :: u32) = mask 16" "(0xffffffff :: u32) = mask 32" "(0xff :: u32) = mask 8"
  "(0xff :: u16) = mask 8" "(0xffff :: u16) = mask 16" "(0xff :: u8) = mask 8"
  by code_simp+

lemma and_mask_0:
  "(w :: u32) AND 0xff = 0 \<longleftrightarrow> (ucast w :: u8) = 0" "(w :: u32) AND 0xffff = 0 \<longleftrightarrow> (ucast w :: u16) = 0"
  "(w :: u32) AND 0xffffffff = 0 \<longleftrightarrow> w = 0"
  "(v :: u16) AND 0xffff = 0 \<longleftrightarrow> v = 0" "(b :: u8) AND 0xff = 0 \<longleftrightarrow> b = 0"
proof -
  have z: "(ucast x :: 'b::len word) = 0 \<longleftrightarrow> (\<forall>k < LENGTH('b). \<not> bit x k)" for x :: "'a::len word"
    by (auto simp: bit_eq_iff bit_simps)
  show "w AND 0xff = 0 \<longleftrightarrow> (ucast w :: u8) = 0" "w AND 0xffff = 0 \<longleftrightarrow> (ucast w :: u16) = 0"
    unfolding low_masks z by (auto simp: bit_eq_iff bit_simps) (drule spec, drule mp, erule less_trans, simp, simp)+
  show "w AND 0xffffffff = 0 \<longleftrightarrow> w = 0" "(v :: u16) AND 0xffff = 0 \<longleftrightarrow> v = 0"
    "(b :: u8) AND 0xff = 0 \<longleftrightarrow> b = 0"
    unfolding low_masks by (auto simp: bit_eq_iff bit_simps dest: bit_imp_le_length)
qed

lemma PARITY_byte: "PARITY (ucast (b :: u8)) = even_parity b"
proof -
  have "unat b < 256" using unat_bound [of b] by simp
  from PARITY_table [OF this] show ?thesis by (simp add: of_nat_unat)
qed

lemma ucast_and_ff: "ucast ((v :: u16) AND 0xff) = (ucast (ucast v :: u8) :: u32)"
  "ucast ((b :: u8) AND 0xff) = (ucast b :: u32)"
  unfolding low_masks by (rule bit_word_eqI, auto simp: bit_simps dest: bit_imp_le_length)+

lemmas PARITY_masked = and_ff ucast_and_ff PARITY_byte

section \<open>Flag specifications\<close>

text \<open>Zero, sign and parity of a result.\<close>

definition result_flags :: "'a::len word \<Rightarrow> x86 \<Rightarrow> bool" where
  "result_flags r m' \<longleftrightarrow> ACCESS_FLAG F_ZF m' = (r = 0) \<and> ACCESS_FLAG F_SF m' = (sint r < 0) \<and>
     ACCESS_FLAG F_PF m' = even_parity (ucast r)"

text \<open>Nothing but the flags at the given positions changes.\<close>

definition keeps_flags :: "nat set \<Rightarrow> x86 \<Rightarrow> x86 \<Rightarrow> bool" where
  "keeps_flags ks m m' \<longleftrightarrow> only_flags m m' \<and> (\<forall>k. k \<notin> ks \<longrightarrow> bit (FLAGS m') k = bit (FLAGS m) k)"

definition add_ok :: "'a::len word \<Rightarrow> 'a word \<Rightarrow> bool \<Rightarrow> x86 \<Rightarrow> 'a word \<times> x86 \<Rightarrow> bool" where
  "add_ok d s c m rm \<longleftrightarrow> (case rm of (r, m') \<Rightarrow>
     r = d + s + of_bool c \<and> result_flags r m' \<and>
     ACCESS_FLAG F_CF m' = (2 ^ LENGTH('a) \<le> uint d + uint s + of_bool c) \<and>
     ACCESS_FLAG F_OF m' = (sint r \<noteq> sint d + sint s + of_bool c) \<and>
     ACCESS_FLAG F_AF m' = (16 \<le> uint d mod 16 + uint s mod 16 + of_bool c) \<and>
     keeps_flags {0, 2, 4, 6, 7, 11} m m')"

definition sub_ok :: "'a::len word \<Rightarrow> 'a word \<Rightarrow> bool \<Rightarrow> x86 \<Rightarrow> 'a word \<times> x86 \<Rightarrow> bool" where
  "sub_ok d s c m rm \<longleftrightarrow> (case rm of (r, m') \<Rightarrow>
     r = d - s - of_bool c \<and> result_flags r m' \<and>
     ACCESS_FLAG F_CF m' = (uint d < uint s + of_bool c) \<and>
     ACCESS_FLAG F_OF m' = (sint r \<noteq> sint d - sint s - of_bool c) \<and>
     ACCESS_FLAG F_AF m' = (uint d mod 16 < uint s mod 16 + of_bool c) \<and>
     keeps_flags {0, 2, 4, 6, 7, 11} m m')"

section \<open>Addition and subtraction in a wider register\<close>

lemma uint_ucast32: "LENGTH('a::len) \<le> 32 \<Longrightarrow> uint (ucast (d :: 'a word) :: u32) = uint d"
proof -
  assume "LENGTH('a) \<le> 32"
  then have "(2 :: int) ^ LENGTH('a) \<le> 2 ^ 32" by (rule power_increasing) simp
  with uint_lt2p [of d] have "uint d < 2 ^ 32" by (rule less_le_trans)
  then show ?thesis by (simp add: unsigned_ucast_eq take_bit_int_eq_self)
qed

lemma ucast_down_ring:
  assumes "LENGTH('a::len) \<le> 32"
  shows "(ucast (ucast (d :: 'a word) + ucast (s :: 'a word) + of_bool c :: u32) :: 'a word) = d + s + of_bool c"
    and "(ucast (ucast d - ucast s - of_bool c :: u32) :: 'a word) = d - s - of_bool c"
proof -
  have e: "take_bit LENGTH('a) (uint (w :: u32)) = uint (ucast w :: 'a word)" for w
    by (simp add: unsigned_ucast_eq)
  have "take_bit LENGTH('a) (take_bit 32 k) = take_bit LENGTH('a) (k :: int)" for k
    using assms by (simp add: take_bit_take_bit min_def)
  then have t: "k mod 4294967296 mod 2 ^ LENGTH('a) = k mod 2 ^ LENGTH('a)" for k :: int
    by (simp add: take_bit_eq_mod)
  show "(ucast (ucast d + ucast s + of_bool c :: u32) :: 'a word) = d + s + of_bool c"
    by (rule word_uint_eqI)
       (simp add: e [symmetric] uint_word_arith_bintrs uint_of_bool uint_ucast32 assms t take_bit_eq_mod mod_simps)
  show "(ucast (ucast d - ucast s - of_bool c :: u32) :: 'a word) = d - s - of_bool c"
    by (rule word_uint_eqI)
       (simp add: e [symmetric] uint_word_arith_bintrs uint_of_bool uint_ucast32 assms t take_bit_eq_mod mod_simps)
qed

lemma sint_neg_bit: "LENGTH('a) = Suc n \<Longrightarrow> sint (r :: 'a::len word) < 0 \<longleftrightarrow> bit r n"
  using bit_last_iff [of r] by simp

lemma bit_ucast_down: "k < LENGTH('a::len) \<Longrightarrow> bit (ucast (w :: u32) :: 'a word) k = bit w k"
  by (simp add: bit_simps)

lemma carry_top: "carry LENGTH('a) (uint d) (uint (s :: 'a::len word)) c \<longleftrightarrow>
    2 ^ LENGTH('a) \<le> uint (d :: 'a word) + uint s + of_bool c"
  by (simp add: carry_def take_bit_int_eq_self)

lemma borrow_top: "borrow LENGTH('a) (uint d) (uint (s :: 'a::len word)) c \<longleftrightarrow>
    uint (d :: 'a word) < uint s + of_bool c"
  by (simp add: borrow_def take_bit_int_eq_self)

lemma carry_4: "carry 4 a b c \<longleftrightarrow> 16 \<le> a mod 16 + b mod 16 + of_bool c"
  "borrow 4 a b c \<longleftrightarrow> a mod 16 < b mod 16 + of_bool c"
  by (simp_all add: carry_def borrow_def take_bit_eq_mod)

text \<open>What the flag computations of the additive primitives read from the 32 bit registers.\<close>

lemma add_core:
  fixes d s :: "'a::len word" and c :: bool
  assumes n: "LENGTH('a) = Suc n" "n < 32" "3 \<le> n"
  defines "r \<equiv> ucast d + ucast s + of_bool c :: u32"
  defines "cc \<equiv> (ucast s AND ucast d) OR (NOT r AND (ucast s OR ucast d))"
  shows "ucast r = d + s + of_bool c" "bit r n \<longleftrightarrow> sint (d + s + of_bool c) < 0"
    "Suc n < 32 \<Longrightarrow> bit r (Suc n) \<longleftrightarrow> 2 ^ Suc n \<le> uint d + uint s + of_bool c"
    "bit cc (n - 1) \<noteq> bit cc n \<longleftrightarrow> sint (d + s + of_bool c) \<noteq> sint d + sint s + of_bool c"
    "bit cc 3 \<longleftrightarrow> 16 \<le> uint d mod 16 + uint s mod 16 + of_bool c"
proof -
  have w: "LENGTH('a) \<le> 32" using n by simp
  show r: "ucast r = d + s + of_bool c" unfolding r_def by (rule ucast_down_ring(1) [OF w])
  show "bit r n \<longleftrightarrow> sint (d + s + of_bool c) < 0"
    using n bit_ucast_down [where 'a = 'a, of n r] by (simp add: sint_neg_bit r)
  have cc: "bit cc i \<longleftrightarrow> carry (Suc i) (uint d) (uint s) c" if "i < 32" for i
    unfolding cc_def r_def using carry_chain [where 'a = 32, of i "ucast s" "ucast d" c] that
    by (simp add: uint_ucast32 w)
  show "bit r (Suc n) \<longleftrightarrow> 2 ^ Suc n \<le> uint d + uint s + of_bool c" if "Suc n < 32"
  proof -
    have "\<not> bit (ucast d :: u32) (Suc n)" "\<not> bit (ucast s :: u32) (Suc n)"
      using n(1) by (auto simp: bit_simps dest: bit_imp_le_length)
    then show ?thesis unfolding r_def
      using that bit_word_add [where 'a = 32, of "Suc n" "ucast d" "ucast s" c] carry_top [of d s c]
      by (simp add: uint_ucast32 w n(1))
  qed
  show "bit cc (n - 1) \<noteq> bit cc n \<longleftrightarrow> sint (d + s + of_bool c) \<noteq> sint d + sint s + of_bool c"
    using n cc [of "n - 1"] cc [of n] add_overflow [OF n(1), of d s c] by (simp add: Suc_diff_le)
  show "bit cc 3 \<longleftrightarrow> 16 \<le> uint d mod 16 + uint s mod 16 + of_bool c"
    using cc [of 3] by (simp add: carry_4)
qed

lemma sub_core:
  fixes d s :: "'a::len word" and c :: bool
  assumes n: "LENGTH('a) = Suc n" "n < 32" "3 \<le> n"
  defines "r \<equiv> ucast d - ucast s - of_bool c :: u32"
  defines "bc \<equiv> (r AND (NOT (ucast d) OR ucast s)) OR (NOT (ucast d) AND ucast s)"
  shows "ucast r = d - s - of_bool c" "bit r n \<longleftrightarrow> sint (d - s - of_bool c) < 0"
    "bit bc n \<longleftrightarrow> uint d < uint s + of_bool c"
    "bit bc (n - 1) \<noteq> bit bc n \<longleftrightarrow> sint (d - s - of_bool c) \<noteq> sint d - sint s - of_bool c"
    "bit bc 3 \<longleftrightarrow> uint d mod 16 < uint s mod 16 + of_bool c"
proof -
  have w: "LENGTH('a) \<le> 32" using n by simp
  show r: "ucast r = d - s - of_bool c" unfolding r_def by (rule ucast_down_ring(2) [OF w])
  show "bit r n \<longleftrightarrow> sint (d - s - of_bool c) < 0"
    using n bit_ucast_down [where 'a = 'a, of n r] by (simp add: sint_neg_bit r)
  have bc: "bit bc i \<longleftrightarrow> borrow (Suc i) (uint d) (uint s) c" if "i < 32" for i
    unfolding bc_def r_def using borrow_chain [where 'a = 32, of i "ucast d" "ucast s" c] that
    by (simp add: uint_ucast32 w)
  show "bit bc n \<longleftrightarrow> uint d < uint s + of_bool c"
    using n bc [of n] borrow_top [of d s c] by simp
  show "bit bc (n - 1) \<noteq> bit bc n \<longleftrightarrow> sint (d - s - of_bool c) \<noteq> sint d - sint s - of_bool c"
    using n bc [of "n - 1"] bc [of n] sub_overflow [OF n(1), of d s c] by (simp add: Suc_diff_le)
  show "bit bc 3 \<longleftrightarrow> uint d mod 16 < uint s mod 16 + of_bool c"
    using bc [of 3] by (simp add: carry_4)
qed

section \<open>Correctness of the additive primitives\<close>

lemma ucast_u16_u8: "(ucast (w :: u32) :: u8) = ucast (ucast w :: u16)"
  by (rule bit_word_eqI) (simp add: bit_simps)

lemma ucast_u8_0: "(ucast (b :: u8) :: u32) = 0 \<longleftrightarrow> b = 0"
  by (simp add: word_unat_eq_iff unat_ucast_up)

lemmas alu_simps = Let_def result_flags_def keeps_flags_def flag_simps test_bit_masks XOR2_drop_bit
  and_mask_0 PARITY_masked ucast_u8_0

lemma carry_halves:
  fixes d s :: nat and c :: bool
  assumes "d < 2 ^ 32" "s < 2 ^ 32"
  defines "lo \<equiv> d mod 65536 + s mod 65536 + of_bool c"
  defines "hi \<equiv> lo div 65536 + d div 65536 + s div 65536"
  shows "65536 \<le> hi \<longleftrightarrow> 2 ^ 32 \<le> d + s + of_bool c" "hi < 131072" "lo < 131072"
proof -
  have c: "of_bool c \<le> (1 :: nat)" by simp
  have v: "d = 65536 * (d div 65536) + d mod 65536" "s = 65536 * (s div 65536) + s mod 65536"
    "lo = 65536 * (lo div 65536) + lo mod 65536" by simp_all
  have lt: "d mod 65536 < 65536" "s mod 65536 < 65536" "lo mod 65536 < 65536" by simp_all
  have q: "d div 65536 < 65536" "s div 65536 < 65536" using assms(1,2) by (simp_all add: div_less_iff_less_mult)
  show lo: "lo < 131072" using lt(1,2) c unfolding lo_def by linarith
  then have l: "lo div 65536 \<le> 1" using v(3) by linarith
  have "d + s + of_bool c = 65536 * hi + lo mod 65536"
    using v lo_def unfolding hi_def distrib_left by linarith
  moreover have "(2 :: nat) ^ 32 = 4294967296" by simp
  ultimately show "65536 \<le> hi \<longleftrightarrow> 2 ^ 32 \<le> d + s + of_bool c" using lt(3) by linarith
  show "hi < 131072" using q l unfolding hi_def by linarith
qed

lemma long_carry:
  fixes d s :: u32
  assumes "lo = (d AND 0xFFFF) + (s AND 0xFFFF) + of_bool c"
  shows "bit (drop_bit 16 lo + drop_bit 16 d + drop_bit 16 s) 16 \<longleftrightarrow> 2 ^ 32 \<le> uint d + uint s + of_bool c"
proof -
  let ?lo = "unat d mod 65536 + unat s mod 65536 + of_bool c"
  let ?hi = "drop_bit 16 lo + drop_bit 16 d + drop_bit 16 s"
  have m: "unat (x AND 0xFFFF) = unat x mod 65536" for x :: u32
    unfolding low_masks take_bit_eq_mask [symmetric] by (simp add: unsigned_take_bit_eq) (simp add: take_bit_eq_mod)
  have q: "unat (drop_bit 16 x) = unat x div 65536" for x :: u32
    by (simp add: drop_bit_eq_div unat_div_distrib)
  have b: "unat (of_bool c :: u32) = of_bool c" by (cases c) simp_all
  have "unat d < 2 ^ 32" "unat s < 2 ^ 32" using unat_bound [of d] unat_bound [of s] by simp_all
  note half = carry_halves [OF this, of c]
  have s1: "unat ((d AND 0xFFFF) + (s AND 0xFFFF)) = unat d mod 65536 + unat s mod 65536"
    using half(3) by (subst unat_add_no_wrap) (simp_all only: m, simp)
  have lo: "unat lo = ?lo"
    unfolding assms using half(3) by (subst unat_add_no_wrap) (simp_all only: s1 b, simp)
  have s2: "unat (drop_bit 16 lo + drop_bit 16 d) = ?lo div 65536 + unat d div 65536"
    using half(2) by (subst unat_add_no_wrap) (simp_all only: q lo, simp)
  have hi: "unat ?hi = ?lo div 65536 + unat d div 65536 + unat s div 65536"
    using half(2) by (subst unat_add_no_wrap) (simp_all only: s2 q, simp)
  have "bit ?hi 16 \<longleftrightarrow> odd (unat ?hi div 65536)"
    using bit_unsigned_iff [where 'a = nat, of ?hi 16] by (simp add: bit_iff_odd)
  also have "\<dots> \<longleftrightarrow> 65536 \<le> unat ?hi"
  proof (cases "65536 \<le> unat ?hi")
    case True
    then have "unat ?hi div 65536 = 1" using half(2) unfolding hi by (intro div_nat_eqI) simp_all
    with True show ?thesis by simp
  qed simp
  also have "\<dots> \<longleftrightarrow> 2 ^ 32 \<le> unat d + unat s + of_bool c" unfolding hi by (rule half(1))
  also have "\<dots> \<longleftrightarrow> int (2 ^ 32) \<le> int (unat d + unat s + of_bool c)" by (simp only: of_nat_le_iff)
  finally show ?thesis by simp
qed

lemma add_byte_ok: "add_ok d s False m (add_byte d s m)"
  using add_core [where n = 7 and d = d and s = s and c = False] by (simp add: add_byte_def add_ok_def alu_simps)

lemma add_word_ok: "add_ok d s False m (add_word d s m)"
  using add_core [where n = 15 and d = d and s = s and c = False]
  by (simp add: add_word_def add_ok_def alu_simps ucast_u16_u8)

lemma sub_byte_ok: "sub_ok d s False m (sub_byte d s m)"
  using sub_core [where n = 7 and d = d and s = s and c = False] by (simp add: sub_byte_def sub_ok_def alu_simps)

lemma sub_word_ok: "sub_ok d s False m (sub_word d s m)"
  using sub_core [where n = 15 and d = d and s = s and c = False]
  by (simp add: sub_word_def sub_ok_def alu_simps ucast_u16_u8)

lemma sub_long_ok: "sub_ok d s False m (sub_long d s m)"
  using sub_core [where n = 31 and d = d and s = s and c = False] by (simp add: sub_long_def sub_ok_def alu_simps)

lemma add_long_ok: "add_ok d s False m (add_long d s m)"
  using add_core [where n = 31 and d = d and s = s and c = False] long_carry [OF refl, of d s False]
  by (simp add: add_long_def add_ok_def alu_simps)

lemma adc_byte_ok: "add_ok d s (ACCESS_FLAG F_CF m) m (adc_byte d s m)"
  using add_core [where n = 7 and d = d and s = s and c = "ACCESS_FLAG F_CF m"]
  by (cases "ACCESS_FLAG F_CF m") (simp_all add: adc_byte_def add_ok_def alu_simps add.assoc add.commute [of 1])

lemma adc_word_ok: "add_ok d s (ACCESS_FLAG F_CF m) m (adc_word d s m)"
  using add_core [where n = 15 and d = d and s = s and c = "ACCESS_FLAG F_CF m"]
  by (cases "ACCESS_FLAG F_CF m")
     (simp_all add: adc_word_def add_ok_def alu_simps ucast_u16_u8 add.assoc add.commute [of 1])

lemma adc_long_ok: "add_ok d s (ACCESS_FLAG F_CF m) m (adc_long d s m)"
  using add_core [where n = 31 and d = d and s = s and c = "ACCESS_FLAG F_CF m"]
    long_carry [OF refl, of d s "ACCESS_FLAG F_CF m"]
  by (cases "ACCESS_FLAG F_CF m")
     (simp_all add: adc_long_def add_ok_def alu_simps add.assoc add.commute [of 1])

lemma sbb_byte_ok: "sub_ok d s (ACCESS_FLAG F_CF m) m (sbb_byte d s m)"
  using sub_core [where n = 7 and d = d and s = s and c = "ACCESS_FLAG F_CF m"]
  by (cases "ACCESS_FLAG F_CF m") (simp_all add: sbb_byte_def sub_ok_def alu_simps)

lemma sbb_word_ok: "sub_ok d s (ACCESS_FLAG F_CF m) m (sbb_word d s m)"
  using sub_core [where n = 15 and d = d and s = s and c = "ACCESS_FLAG F_CF m"]
  by (cases "ACCESS_FLAG F_CF m") (simp_all add: sbb_word_def sub_ok_def alu_simps ucast_u16_u8)

lemma sbb_long_ok: "sub_ok d s (ACCESS_FLAG F_CF m) m (sbb_long d s m)"
  using sub_core [where n = 31 and d = d and s = s and c = "ACCESS_FLAG F_CF m"]
  by (cases "ACCESS_FLAG F_CF m") (simp_all add: sbb_long_def sub_ok_def alu_simps)

text \<open>\<open>CMP\<close> sets the flags of \<open>SUB\<close> and returns its first operand.\<close>

lemma x86_flags_eqI:
  "m1\<lparr>FLAGS := 0\<rparr> = m2\<lparr>FLAGS := 0\<rparr> \<Longrightarrow> (\<And>k. bit (FLAGS m1) k = bit (FLAGS m2) k) \<Longrightarrow> m1 = (m2 :: x86)"
  by (cases m1, cases m2) (simp add: bit_eq_iff)

lemma cmp_byte_sub: "cmp_byte d s m = (d, snd (sub_byte d s m))"
  by (simp add: cmp_byte_def sub_byte_def Let_def) (rule x86_flags_eqI; simp add: flag_simps)

lemma cmp_word_sub: "cmp_word d s m = (d, snd (sub_word d s m))"
  by (simp add: cmp_word_def sub_word_def Let_def)

lemma cmp_long_sub: "cmp_long d s m = (d, snd (sub_long d s m))"
  by (simp add: cmp_long_def sub_long_def Let_def)

section \<open>Increment, decrement, negation\<close>

definition inc_ok :: "'a::len word \<Rightarrow> x86 \<Rightarrow> 'a word \<times> x86 \<Rightarrow> bool" where
  "inc_ok d m rm \<longleftrightarrow> (case rm of (r, m') \<Rightarrow>
     r = d + 1 \<and> result_flags r m' \<and> ACCESS_FLAG F_OF m' = (sint r \<noteq> sint d + 1) \<and>
     ACCESS_FLAG F_AF m' = (uint d mod 16 = 15) \<and> keeps_flags {2, 4, 6, 7, 11} m m')"

definition dec_ok :: "'a::len word \<Rightarrow> x86 \<Rightarrow> 'a word \<times> x86 \<Rightarrow> bool" where
  "dec_ok d m rm \<longleftrightarrow> (case rm of (r, m') \<Rightarrow>
     r = d - 1 \<and> result_flags r m' \<and> ACCESS_FLAG F_OF m' = (sint r \<noteq> sint d - 1) \<and>
     ACCESS_FLAG F_AF m' = (uint d mod 16 = 0) \<and> keeps_flags {2, 4, 6, 7, 11} m m')"

definition neg_ok :: "'a::len word \<Rightarrow> x86 \<Rightarrow> 'a word \<times> x86 \<Rightarrow> bool" where
  "neg_ok s m rm \<longleftrightarrow> (case rm of (r, m') \<Rightarrow>
     r = - s \<and> result_flags r m' \<and> ACCESS_FLAG F_CF m' = (s \<noteq> 0) \<and>
     ACCESS_FLAG F_OF m' = (sint r \<noteq> - sint s) \<and>
     ACCESS_FLAG F_AF m' = (uint s mod 16 \<noteq> 0) \<and> keeps_flags {0, 2, 4, 6, 7, 11} m m')"

lemma mod16: "16 \<le> (a :: int) mod 16 + 1 \<longleftrightarrow> a mod 16 = 15" "(a :: int) mod 16 < 1 \<longleftrightarrow> a mod 16 = 0"
  "0 < (a :: int) mod 16 \<longleftrightarrow> a mod 16 \<noteq> 0"
  using pos_mod_bound [of 16 a] pos_mod_sign [of 16 a] by linarith+

lemma inc_byte_chain: "((1 AND d) OR NOT r) AND (1 OR d) = (1 AND d) OR (NOT r AND (1 OR d))" for d r :: u32
  by (rule bit_word_eqI) (auto simp: bit_simps)

lemma inc_byte_ok: "inc_ok d m (inc_byte d m)"
  using add_core [where n = 7 and d = d and s = 1 and c = False]
  by (simp add: inc_byte_def inc_ok_def alu_simps inc_byte_chain mod16)

lemma inc_word_ok: "inc_ok d m (inc_word d m)"
  using add_core [where n = 15 and d = d and s = 1 and c = False]
  by (simp add: inc_word_def inc_ok_def alu_simps ucast_u16_u8 mod16)

lemma inc_long_ok: "inc_ok d m (inc_long d m)"
  using add_core [where n = 31 and d = d and s = 1 and c = False]
  by (simp add: inc_long_def inc_ok_def alu_simps mod16)

lemma dec_byte_ok: "dec_ok d m (dec_byte d m)"
  using sub_core [where n = 7 and d = d and s = 1 and c = False]
  by (simp add: dec_byte_def dec_ok_def alu_simps mod16)

lemma dec_word_ok: "dec_ok d m (dec_word d m)"
  using sub_core [where n = 15 and d = d and s = 1 and c = False]
  by (simp add: dec_word_def dec_ok_def alu_simps ucast_u16_u8 mod16)

lemma dec_long_ok: "dec_ok d m (dec_long d m)"
  using sub_core [where n = 31 and d = d and s = 1 and c = False]
  by (simp add: dec_long_def dec_ok_def alu_simps mod16)

lemma neg_core:
  fixes s :: "'a::len word"
  assumes n: "LENGTH('a) = Suc n" "n < 32" "3 \<le> n"
  shows "bit (- s OR s) (n - 1) \<noteq> bit (- s OR s) n \<longleftrightarrow> sint (- s) \<noteq> - sint s"
    "bit (- s OR s) 3 \<longleftrightarrow> uint s mod 16 \<noteq> 0"
proof -
  let ?bc = "((0 - ucast s - of_bool False) AND (NOT 0 OR ucast s)) OR (NOT 0 AND ucast s) :: u32"
  note core = sub_core [OF n, where d = 0 and s = s and c = False]
  have eq: "bit ?bc k = bit (- s OR s) k" if "k \<le> n" for k
    using that n core(1) bit_ucast_down [where 'a = 'a, of k "0 - ucast s :: u32"]
    by (simp add: bit_simps)
  show "bit (- s OR s) (n - 1) \<noteq> bit (- s OR s) n \<longleftrightarrow> sint (- s) \<noteq> - sint s"
    using core(4) eq [of "n - 1"] eq [of n] by simp
  show "bit (- s OR s) 3 \<longleftrightarrow> uint s mod 16 \<noteq> 0"
    using core(5) eq [of 3] n(3) by (simp add: mod16)
qed

lemma XOR2_ucast_drop:
  "XOR2 (ucast (drop_bit k (x :: 'a::len word))) \<longleftrightarrow> bit x k \<noteq> bit x (Suc k)" if "LENGTH('a) \<le> 32"
  by (simp only: XOR2_def test_bit_masks) (simp add: bit_simps)

lemma sint_neg_masks:
  "sint (b :: u8) < 0 \<longleftrightarrow> bit b 7" "sint (v :: u16) < 0 \<longleftrightarrow> bit v 15" "sint (w :: u32) < 0 \<longleftrightarrow> bit w 31"
  by (simp_all add: sint_neg_bit)

lemma neg_byte_ok: "neg_ok s m (neg_byte s m)"
  using neg_core [where n = 7 and s = s]
  by (simp add: neg_byte_def neg_ok_def alu_simps XOR2_ucast_drop sint_neg_masks)

lemma neg_word_ok: "neg_ok s m (neg_word s m)"
  using neg_core [where n = 15 and s = s]
  by (simp add: neg_word_def neg_ok_def alu_simps XOR2_ucast_drop sint_neg_masks)

lemma neg_long_ok: "neg_ok s m (neg_long s m)"
  using neg_core [where n = 31 and s = s]
  by (simp add: neg_long_def neg_ok_def alu_simps sint_neg_masks)

section \<open>Logic\<close>

definition logic_ok :: "'a::len word \<Rightarrow> x86 \<Rightarrow> 'a word \<times> x86 \<Rightarrow> bool" where
  "logic_ok v m rm \<longleftrightarrow> (case rm of (r, m') \<Rightarrow>
     r = v \<and> result_flags r m' \<and> \<not> ACCESS_FLAG F_CF m' \<and> \<not> ACCESS_FLAG F_OF m' \<and>
     \<not> ACCESS_FLAG F_AF m' \<and> keeps_flags {0, 2, 4, 6, 7, 11} m m')"

lemmas logic_simps = logic_ok_def alu_simps sint_neg_masks

lemma and_ok:
  "logic_ok (d AND s) m (and_byte d s m)" "logic_ok (d' AND s') m (and_word d' s' m)"
  "logic_ok (d'' AND s'') m (and_long d'' s'' m)"
  by (simp_all add: and_byte_def and_word_def and_long_def logic_simps)

lemma or_ok:
  "logic_ok (d OR s) m (or_byte d s m)" "logic_ok (d' OR s') m (or_word d' s' m)"
  "logic_ok (d'' OR s'') m (or_long d'' s'' m)"
  by (simp_all add: or_byte_def or_word_def or_long_def logic_simps)

lemma xor_ok:
  "logic_ok (d XOR s) m (xor_byte d s m)" "logic_ok (d' XOR s') m (xor_word d' s' m)"
  "logic_ok (d'' XOR s'') m (xor_long d'' s'' m)"
  by (simp_all add: xor_byte_def xor_word_def xor_long_def logic_simps)

text \<open>\<open>TEST\<close> leaves the auxiliary flag alone.\<close>

definition test_ok :: "'a::len word \<Rightarrow> x86 \<Rightarrow> x86 \<Rightarrow> bool" where
  "test_ok v m m' \<longleftrightarrow> result_flags v m' \<and> \<not> ACCESS_FLAG F_CF m' \<and> \<not> ACCESS_FLAG F_OF m' \<and>
     keeps_flags {0, 2, 6, 7, 11} m m'"

lemma ucast_masks_u32:
  "bit (ucast (v :: u16) :: u32) 15 = bit v 15" "bit (ucast (b :: u8) :: u32) 7 = bit b 7"
  "(ucast (v :: u16) :: u32) = 0 \<longleftrightarrow> v = 0"
  by (simp_all add: bit_simps word_unat_eq_iff unat_ucast_up)

lemma ucast_u32_u8: "(ucast (ucast (v :: u16) :: u32) :: u8) = ucast v" "(ucast (ucast (b :: u8) :: u32) :: u8) = b"
  by (rule bit_word_eqI, simp add: bit_simps)+

lemma test_byte_ok: "test_ok (d AND s) m (test_byte d s m)"
  by (simp add: test_byte_def test_ok_def alu_simps sint_neg_masks ucast_masks_u32 ucast_u32_u8)

lemma test_word_ok: "test_ok (d AND s) m (test_word d s m)"
  by (simp add: test_word_def test_ok_def alu_simps sint_neg_masks ucast_masks_u32 ucast_u32_u8)

lemma test_long_ok: "test_ok (d AND s) m (test_long d s m)"
  by (simp add: test_long_def test_ok_def alu_simps sint_neg_masks)

section \<open>Main theorems\<close>

text \<open>C38: Addition: \<open>ADD\<close> and \<open>ADC\<close> of bytes, words and longs return the sum modulo the operand width and
  set the flags as the processor manual defines them: carry is the unsigned overflow, overflow the
  signed one, auxiliary carry the carry out of the low digit, and zero, sign and parity those of the
  result.  No other flag and no other part of the machine state changes.\<close>

theorem x86_addition_correct:
  "add_ok d8 s8 False m (add_byte d8 s8 m) \<and> add_ok d16 s16 False m (add_word d16 s16 m) \<and>
   add_ok d32 s32 False m (add_long d32 s32 m) \<and>
   add_ok d8 s8 (ACCESS_FLAG F_CF m) m (adc_byte d8 s8 m) \<and>
   add_ok d16 s16 (ACCESS_FLAG F_CF m) m (adc_word d16 s16 m) \<and>
   add_ok d32 s32 (ACCESS_FLAG F_CF m) m (adc_long d32 s32 m)"
  by (intro conjI add_byte_ok add_word_ok add_long_ok adc_byte_ok adc_word_ok adc_long_ok)

text \<open>Subtraction: \<open>SUB\<close> and \<open>SBB\<close> return the difference modulo the operand width and set carry to the
  unsigned borrow, overflow to signed overflow and auxiliary carry to the borrow from the low digit;
  \<open>CMP\<close> sets the same flags as \<open>SUB\<close> and returns its first operand.\<close>

theorem x86_subtraction_correct:
  "sub_ok d8 s8 False m (sub_byte d8 s8 m) \<and> sub_ok d16 s16 False m (sub_word d16 s16 m) \<and>
   sub_ok d32 s32 False m (sub_long d32 s32 m) \<and>
   sub_ok d8 s8 (ACCESS_FLAG F_CF m) m (sbb_byte d8 s8 m) \<and>
   sub_ok d16 s16 (ACCESS_FLAG F_CF m) m (sbb_word d16 s16 m) \<and>
   sub_ok d32 s32 (ACCESS_FLAG F_CF m) m (sbb_long d32 s32 m) \<and>
   cmp_byte d8 s8 m = (d8, snd (sub_byte d8 s8 m)) \<and>
   cmp_word d16 s16 m = (d16, snd (sub_word d16 s16 m)) \<and>
   cmp_long d32 s32 m = (d32, snd (sub_long d32 s32 m))"
  by (intro conjI sub_byte_ok sub_word_ok sub_long_ok sbb_byte_ok sbb_word_ok sbb_long_ok
      cmp_byte_sub cmp_word_sub cmp_long_sub)

text \<open>\<open>INC\<close>, \<open>DEC\<close> and \<open>NEG\<close>: the result, overflow exactly when the signed result is not representable,
  and the carry flag untouched by \<open>INC\<close> and \<open>DEC\<close> and set by \<open>NEG\<close> exactly for a nonzero operand.\<close>

theorem x86_inc_dec_neg_correct:
  "inc_ok d8 m (inc_byte d8 m) \<and> inc_ok d16 m (inc_word d16 m) \<and> inc_ok d32 m (inc_long d32 m) \<and>
   dec_ok d8 m (dec_byte d8 m) \<and> dec_ok d16 m (dec_word d16 m) \<and> dec_ok d32 m (dec_long d32 m) \<and>
   neg_ok d8 m (neg_byte d8 m) \<and> neg_ok d16 m (neg_word d16 m) \<and> neg_ok d32 m (neg_long d32 m)"
  by (intro conjI inc_byte_ok inc_word_ok inc_long_ok dec_byte_ok dec_word_ok dec_long_ok
      neg_byte_ok neg_word_ok neg_long_ok)

text \<open>\<open>AND\<close>, \<open>OR\<close>, \<open>XOR\<close> and \<open>TEST\<close>: the bitwise result, carry and overflow cleared, zero, sign and
  parity of the result, everything else (for \<open>TEST\<close> also the auxiliary flag) unchanged.\<close>

theorem x86_logic_correct:
  "logic_ok (d8 AND s8) m (and_byte d8 s8 m) \<and> logic_ok (d16 AND s16) m (and_word d16 s16 m) \<and>
   logic_ok (d32 AND s32) m (and_long d32 s32 m) \<and>
   logic_ok (d8 OR s8) m (or_byte d8 s8 m) \<and> logic_ok (d16 OR s16) m (or_word d16 s16 m) \<and>
   logic_ok (d32 OR s32) m (or_long d32 s32 m) \<and>
   logic_ok (d8 XOR s8) m (xor_byte d8 s8 m) \<and> logic_ok (d16 XOR s16) m (xor_word d16 s16 m) \<and>
   logic_ok (d32 XOR s32) m (xor_long d32 s32 m) \<and>
   test_ok (d8 AND s8) m (test_byte d8 s8 m) \<and> test_ok (d16 AND s16) m (test_word d16 s16 m) \<and>
   test_ok (d32 AND s32) m (test_long d32 s32 m)"
  by (intro conjI and_ok or_ok xor_ok test_byte_ok test_word_ok test_long_ok)

lemma aam_aad_value:
  "fst (aad_word (fst (aam_word d m)) m') = ucast d"
proof -
  let ?w = "ucast (d mod 10) OR push_bit 8 (ucast (d div 10)) :: u16"
  have hb: "ucast (drop_bit 8 ?w AND 0xff) = d div 10" and lb: "ucast (?w AND 0xff) = d mod 10"
    unfolding low_masks by (rule bit_word_eqI, auto simp: bit_simps dest: bit_imp_le_length)+
  have "unat (ucast (d mod 10) + 10 * ucast (d div 10) :: u32) = unat d"
  proof -
    have "unat (d mod 10) = unat d mod 10" "unat (d div 10) = unat d div 10"
      by (simp_all add: unat_mod_distrib unat_div_distrib)
    moreover have "unat d < 256" using unat_bound [of d] by simp
    ultimately show ?thesis by (simp add: unat_word_ariths unat_ucast_up)
  qed
  then have "(ucast (d mod 10) + 10 * ucast (d div 10) :: u32) = ucast d"
    by (simp add: word_unat_eq_iff unat_ucast_up)
  moreover have "ucast ((ucast d :: u32) AND 0xFF) = (ucast d :: u16)"
    unfolding low_masks by (rule bit_word_eqI) (auto simp: bit_simps dest: bit_imp_le_length)
  ultimately show ?thesis
    by (simp only: aam_word_def aad_word_def Let_def fst_conv hb lb)
qed

text \<open>\<open>AAM\<close> splits a byte into two decimal digits and \<open>AAD\<close> joins them again: the round trip returns the
  byte, and the split digits are the quotient and remainder by ten.\<close>

theorem x86_aam_aad_roundtrip:
  "fst (aad_word (fst (aam_word d m)) m') = ucast d \<and>
   hi8 (ucast (fst (aam_word d m))) = d div 10 \<and> lo8 (ucast (fst (aam_word d m))) = d mod 10"
proof -
  have "hi8 (ucast (ucast (d mod 10) OR push_bit 8 (ucast (d div 10)) :: u16)) = d div 10"
    "lo8 (ucast (ucast (d mod 10) OR push_bit 8 (ucast (d div 10)) :: u16)) = d mod 10"
    by (rule bit_word_eqI, auto simp: hi8_def lo8_def bit_simps dest: bit_imp_le_length)+
  then show ?thesis using aam_aad_value by (simp add: aam_word_def Let_def)
qed

end
