(* ===== verification/X86Shift.thy ===== *)
theory X86Shift
  imports X86Arith
begin

text \<open>
  Shifts and rotates of the emulator (\<open>prim_ops.c\<close>), one definition per C function.  Operands are
  promoted to 32 bit.  A C shift by 32 or more is undefined; the kernel is compiled for i386, where
  the shift instructions take the count modulo 32, and \<open>c_shl\<close> and \<open>c_shr\<close> follow them.
\<close>

definition c_shl :: "u32 \<Rightarrow> u32 \<Rightarrow> u32" where
  "c_shl x n = push_bit (unat n mod 32) x"

definition c_shr :: "u32 \<Rightarrow> u32 \<Rightarrow> u32" where
  "c_shr x n = drop_bit (unat n mod 32) x"

section \<open>Rotates\<close>

definition rcl_byte :: "u8 \<Rightarrow> u8 \<Rightarrow> x86 \<Rightarrow> u8 \<times> x86" where
  "rcl_byte d s m =
     (let cnt = ucast s mod 9 :: u32 in
      if cnt \<noteq> 0 then
        let cf = c_shr (ucast d) (8 - cnt) AND 0x1;
            res = c_shl (ucast d) cnt AND 0xff;
            mask = c_shl 1 (cnt - 1) - 1;
            res = res OR (c_shr (ucast d) (9 - cnt) AND mask);
            res = (if ACCESS_FLAG F_CF m then res OR c_shl 1 (cnt - 1) else res);
            m = CONDITIONAL_SET_FLAG (cf \<noteq> 0) F_CF m;
            m = CONDITIONAL_SET_FLAG (cnt = 1 \<and> XOR2 (cf + (drop_bit 6 res AND 0x2))) F_OF m
        in (ucast res, m)
      else (d, m))"

definition rcl_word :: "u16 \<Rightarrow> u8 \<Rightarrow> x86 \<Rightarrow> u16 \<times> x86" where
  "rcl_word d s m =
     (let cnt = ucast s mod 17 :: u32 in
      if cnt \<noteq> 0 then
        let cf = c_shr (ucast d) (16 - cnt) AND 0x1;
            res = c_shl (ucast d) cnt AND 0xffff;
            mask = c_shl 1 (cnt - 1) - 1;
            res = res OR (c_shr (ucast d) (17 - cnt) AND mask);
            res = (if ACCESS_FLAG F_CF m then res OR c_shl 1 (cnt - 1) else res);
            m = CONDITIONAL_SET_FLAG (cf \<noteq> 0) F_CF m;
            m = CONDITIONAL_SET_FLAG (cnt = 1 \<and> XOR2 (cf + (drop_bit 14 res AND 0x2))) F_OF m
        in (ucast res, m)
      else (d, m))"

definition rcl_long :: "u32 \<Rightarrow> u8 \<Rightarrow> x86 \<Rightarrow> u32 \<times> x86" where
  "rcl_long d s m =
     (let cnt = ucast s mod 33 :: u32 in
      if cnt \<noteq> 0 then
        let cf = c_shr d (32 - cnt) AND 0x1;
            res = c_shl d cnt AND 0xffffffff;
            mask = c_shl 1 (cnt - 1) - 1;
            res = res OR (c_shr d (33 - cnt) AND mask);
            res = (if ACCESS_FLAG F_CF m then res OR c_shl 1 (cnt - 1) else res);
            m = CONDITIONAL_SET_FLAG (cf \<noteq> 0) F_CF m;
            m = CONDITIONAL_SET_FLAG (cnt = 1 \<and> XOR2 (cf + (drop_bit 30 res AND 0x2))) F_OF m
        in (res, m)
      else (d, m))"

definition rcr_byte :: "u8 \<Rightarrow> u8 \<Rightarrow> x86 \<Rightarrow> u8 \<times> x86" where
  "rcr_byte d s m =
     (let cnt = ucast s mod 9 :: u32 in
      if cnt \<noteq> 0 then
        let cf = (if cnt = 1 then ucast d AND 0x1 else c_shr (ucast d) (cnt - 1) AND 0x1);
            ocf = (if cnt = 1 then (if ACCESS_FLAG F_CF m then 1 else 0) else 0) :: u32;
            mask = c_shl 1 (8 - cnt) - 1;
            res = c_shr (ucast d) cnt AND mask;
            res = res OR c_shl (ucast d) (9 - cnt);
            res = (if ACCESS_FLAG F_CF m then res OR c_shl 1 (8 - cnt) else res);
            m = CONDITIONAL_SET_FLAG (cf \<noteq> 0) F_CF m;
            m = (if cnt = 1 then CONDITIONAL_SET_FLAG (XOR2 (ocf + (drop_bit 6 (ucast d) AND 0x2))) F_OF m else m)
        in (ucast res, m)
      else (d, m))"

definition rcr_word :: "u16 \<Rightarrow> u8 \<Rightarrow> x86 \<Rightarrow> u16 \<times> x86" where
  "rcr_word d s m =
     (let cnt = ucast s mod 17 :: u32 in
      if cnt \<noteq> 0 then
        let cf = (if cnt = 1 then ucast d AND 0x1 else c_shr (ucast d) (cnt - 1) AND 0x1);
            ocf = (if cnt = 1 then (if ACCESS_FLAG F_CF m then 1 else 0) else 0) :: u32;
            mask = c_shl 1 (16 - cnt) - 1;
            res = c_shr (ucast d) cnt AND mask;
            res = res OR c_shl (ucast d) (17 - cnt);
            res = (if ACCESS_FLAG F_CF m then res OR c_shl 1 (16 - cnt) else res);
            m = CONDITIONAL_SET_FLAG (cf \<noteq> 0) F_CF m;
            m = (if cnt = 1 then CONDITIONAL_SET_FLAG (XOR2 (ocf + (drop_bit 14 (ucast d) AND 0x2))) F_OF m else m)
        in (ucast res, m)
      else (d, m))"

definition rcr_long :: "u32 \<Rightarrow> u8 \<Rightarrow> x86 \<Rightarrow> u32 \<times> x86" where
  "rcr_long d s m =
     (let cnt = ucast s mod 33 :: u32 in
      if cnt \<noteq> 0 then
        let cf = (if cnt = 1 then d AND 0x1 else c_shr d (cnt - 1) AND 0x1);
            ocf = (if cnt = 1 then (if ACCESS_FLAG F_CF m then 1 else 0) else 0) :: u32;
            mask = c_shl 1 (32 - cnt) - 1;
            res = c_shr d cnt AND mask;
            res = (if cnt \<noteq> 1 then res OR c_shl d (33 - cnt) else res);
            res = (if ACCESS_FLAG F_CF m then res OR c_shl 1 (32 - cnt) else res);
            m = CONDITIONAL_SET_FLAG (cf \<noteq> 0) F_CF m;
            m = (if cnt = 1 then CONDITIONAL_SET_FLAG (XOR2 (ocf + (drop_bit 30 d AND 0x2))) F_OF m else m)
        in (res, m)
      else (d, m))"

definition rol_byte :: "u8 \<Rightarrow> u8 \<Rightarrow> x86 \<Rightarrow> u8 \<times> x86" where
  "rol_byte d s m =
     (let res = ucast d :: u32;
          cnt = ucast s mod 8 :: u32;
          (res, m) =
            (if cnt \<noteq> 0 then
               let res = c_shl (ucast d) cnt;
                   mask = c_shl 1 cnt - 1;
                   res = res OR (c_shr (ucast d) (8 - cnt) AND mask);
                   m = CONDITIONAL_SET_FLAG (res AND 0x1 \<noteq> 0) F_CF m;
                   m = CONDITIONAL_SET_FLAG (s = 1 \<and> XOR2 ((res AND 0x1) + (drop_bit 6 res AND 0x2))) F_OF m
               in (res, m)
             else (res, m));
          m = (if s \<noteq> 0 then CONDITIONAL_SET_FLAG (res AND 0x1 \<noteq> 0) F_CF m else m)
      in (ucast res, m))"

definition rol_word :: "u16 \<Rightarrow> u8 \<Rightarrow> x86 \<Rightarrow> u16 \<times> x86" where
  "rol_word d s m =
     (let res = ucast d :: u32;
          cnt = ucast s mod 16 :: u32;
          (res, m) =
            (if cnt \<noteq> 0 then
               let res = c_shl (ucast d) cnt;
                   mask = c_shl 1 cnt - 1;
                   res = res OR (c_shr (ucast d) (16 - cnt) AND mask);
                   m = CONDITIONAL_SET_FLAG (res AND 0x1 \<noteq> 0) F_CF m;
                   m = CONDITIONAL_SET_FLAG (s = 1 \<and> XOR2 ((res AND 0x1) + (drop_bit 14 res AND 0x2))) F_OF m
               in (res, m)
             else (res, m));
          m = (if s \<noteq> 0 then CONDITIONAL_SET_FLAG (res AND 0x1 \<noteq> 0) F_CF m else m)
      in (ucast res, m))"

definition rol_long :: "u32 \<Rightarrow> u8 \<Rightarrow> x86 \<Rightarrow> u32 \<times> x86" where
  "rol_long d s m =
     (let res = d;
          cnt = ucast s mod 32 :: u32;
          (res, m) =
            (if cnt \<noteq> 0 then
               let res = c_shl d cnt;
                   mask = c_shl 1 cnt - 1;
                   res = res OR (c_shr d (32 - cnt) AND mask);
                   m = CONDITIONAL_SET_FLAG (res AND 0x1 \<noteq> 0) F_CF m;
                   m = CONDITIONAL_SET_FLAG (s = 1 \<and> XOR2 ((res AND 0x1) + (drop_bit 30 res AND 0x2))) F_OF m
               in (res, m)
             else (res, m));
          m = (if s \<noteq> 0 then CONDITIONAL_SET_FLAG (res AND 0x1 \<noteq> 0) F_CF m else m)
      in (res, m))"

definition ror_byte :: "u8 \<Rightarrow> u8 \<Rightarrow> x86 \<Rightarrow> u8 \<times> x86" where
  "ror_byte d s m =
     (let res = ucast d :: u32;
          cnt = ucast s mod 8 :: u32
      in if cnt \<noteq> 0 then
           let res = c_shl (ucast d) (8 - cnt);
               mask = c_shl 1 (8 - cnt) - 1;
               res = res OR (c_shr (ucast d) cnt AND mask);
               m = CONDITIONAL_SET_FLAG (res AND 0x80 \<noteq> 0) F_CF m;
               m = CONDITIONAL_SET_FLAG (s = 1 \<and> XOR2 (drop_bit 6 res)) F_OF m
           in (ucast res, m)
         else if s \<noteq> 0 then (ucast res, CONDITIONAL_SET_FLAG (res AND 0x80 \<noteq> 0) F_CF m)
         else (ucast res, m))"

definition ror_word :: "u16 \<Rightarrow> u8 \<Rightarrow> x86 \<Rightarrow> u16 \<times> x86" where
  "ror_word d s m =
     (let res = ucast d :: u32;
          cnt = ucast s mod 16 :: u32
      in if cnt \<noteq> 0 then
           let res = c_shl (ucast d) (16 - cnt);
               mask = c_shl 1 (16 - cnt) - 1;
               res = res OR (c_shr (ucast d) cnt AND mask);
               m = CONDITIONAL_SET_FLAG (res AND 0x8000 \<noteq> 0) F_CF m;
               m = CONDITIONAL_SET_FLAG (s = 1 \<and> XOR2 (drop_bit 14 res)) F_OF m
           in (ucast res, m)
         else if s \<noteq> 0 then (ucast res, CONDITIONAL_SET_FLAG (res AND 0x8000 \<noteq> 0) F_CF m)
         else (ucast res, m))"

definition ror_long :: "u32 \<Rightarrow> u8 \<Rightarrow> x86 \<Rightarrow> u32 \<times> x86" where
  "ror_long d s m =
     (let res = d;
          cnt = ucast s mod 32 :: u32
      in if cnt \<noteq> 0 then
           let res = c_shl d (32 - cnt);
               mask = c_shl 1 (32 - cnt) - 1;
               res = res OR (c_shr d cnt AND mask);
               m = CONDITIONAL_SET_FLAG (res AND 0x80000000 \<noteq> 0) F_CF m;
               m = CONDITIONAL_SET_FLAG (s = 1 \<and> XOR2 (drop_bit 30 res)) F_OF m
           in (res, m)
         else if s \<noteq> 0 then (res, CONDITIONAL_SET_FLAG (res AND 0x80000000 \<noteq> 0) F_CF m)
         else (res, m))"

section \<open>Shifts\<close>

definition shl_byte :: "u8 \<Rightarrow> u8 \<Rightarrow> x86 \<Rightarrow> u8 \<times> x86" where
  "shl_byte d s m =
     (if s < 8 then
        let cnt = ucast s mod 8 :: u32;
            (res, m) =
              (if cnt > 0 then
                 let res = c_shl (ucast d) cnt;
                     cf = ucast d AND c_shl 1 (8 - cnt);
                     m = CONDITIONAL_SET_FLAG (cf \<noteq> 0) F_CF m;
                     m = CONDITIONAL_SET_FLAG (res AND 0xff = 0) F_ZF m;
                     m = CONDITIONAL_SET_FLAG (res AND 0x80 \<noteq> 0) F_SF m;
                     m = CONDITIONAL_SET_FLAG (PARITY (res AND 0xff)) F_PF m
                 in (res, m)
               else (ucast d, m));
            m = (if cnt = 1 then CONDITIONAL_SET_FLAG ((res AND 0x80 = 0x80) \<noteq> ACCESS_FLAG F_CF m) F_OF m
                 else CLEAR_FLAG F_OF m)
        in (ucast res, m)
      else
        let m = CONDITIONAL_SET_FLAG (c_shl (ucast d) (ucast (s - 1)) AND 0x80 \<noteq> 0) F_CF m;
            m = CLEAR_FLAG F_OF m;
            m = CLEAR_FLAG F_SF m;
            m = SET_FLAG F_PF m;
            m = SET_FLAG F_ZF m
        in (0, m))"

definition shl_word :: "u16 \<Rightarrow> u8 \<Rightarrow> x86 \<Rightarrow> u16 \<times> x86" where
  "shl_word d s m =
     (if s < 16 then
        let cnt = ucast s mod 16 :: u32;
            (res, m) =
              (if cnt > 0 then
                 let res = c_shl (ucast d) cnt;
                     cf = ucast d AND c_shl 1 (16 - cnt);
                     m = CONDITIONAL_SET_FLAG (cf \<noteq> 0) F_CF m;
                     m = CONDITIONAL_SET_FLAG (res AND 0xffff = 0) F_ZF m;
                     m = CONDITIONAL_SET_FLAG (res AND 0x8000 \<noteq> 0) F_SF m;
                     m = CONDITIONAL_SET_FLAG (PARITY (res AND 0xff)) F_PF m
                 in (res, m)
               else (ucast d, m));
            m = (if cnt = 1 then CONDITIONAL_SET_FLAG ((res AND 0x8000 = 0x8000) \<noteq> ACCESS_FLAG F_CF m) F_OF m
                 else CLEAR_FLAG F_OF m)
        in (ucast res, m)
      else
        let m = CONDITIONAL_SET_FLAG (c_shl (ucast d) (ucast (s - 1)) AND 0x8000 \<noteq> 0) F_CF m;
            m = CLEAR_FLAG F_OF m;
            m = CLEAR_FLAG F_SF m;
            m = SET_FLAG F_PF m;
            m = SET_FLAG F_ZF m
        in (0, m))"

definition shl_long :: "u32 \<Rightarrow> u8 \<Rightarrow> x86 \<Rightarrow> u32 \<times> x86" where
  "shl_long d s m =
     (if s < 32 then
        let cnt = ucast s mod 32 :: u32;
            (res, m) =
              (if cnt > 0 then
                 let res = c_shl d cnt;
                     cf = d AND c_shl 1 (32 - cnt);
                     m = CONDITIONAL_SET_FLAG (cf \<noteq> 0) F_CF m;
                     m = CONDITIONAL_SET_FLAG (res AND 0xffffffff = 0) F_ZF m;
                     m = CONDITIONAL_SET_FLAG (res AND 0x80000000 \<noteq> 0) F_SF m;
                     m = CONDITIONAL_SET_FLAG (PARITY (res AND 0xff)) F_PF m
                 in (res, m)
               else (d, m));
            m = (if cnt = 1 then CONDITIONAL_SET_FLAG ((res AND 0x80000000 = 0x80000000) \<noteq> ACCESS_FLAG F_CF m) F_OF m
                 else CLEAR_FLAG F_OF m)
        in (res, m)
      else
        let m = CONDITIONAL_SET_FLAG (c_shl d (ucast (s - 1)) AND 0x80000000 \<noteq> 0) F_CF m;
            m = CLEAR_FLAG F_OF m;
            m = CLEAR_FLAG F_SF m;
            m = SET_FLAG F_PF m;
            m = SET_FLAG F_ZF m
        in (0, m))"

definition shr_byte :: "u8 \<Rightarrow> u8 \<Rightarrow> x86 \<Rightarrow> u8 \<times> x86" where
  "shr_byte d s m =
     (if s < 8 then
        let cnt = ucast s mod 8 :: u32;
            (res, m) =
              (if cnt > 0 then
                 let cf = ucast d AND c_shl 1 (cnt - 1);
                     res = c_shr (ucast d) cnt;
                     m = CONDITIONAL_SET_FLAG (cf \<noteq> 0) F_CF m;
                     m = CONDITIONAL_SET_FLAG (res AND 0xff = 0) F_ZF m;
                     m = CONDITIONAL_SET_FLAG (res AND 0x80 \<noteq> 0) F_SF m;
                     m = CONDITIONAL_SET_FLAG (PARITY (res AND 0xff)) F_PF m
                 in (res, m)
               else (ucast d, m));
            m = (if cnt = 1 then CONDITIONAL_SET_FLAG (XOR2 (drop_bit 6 res)) F_OF m
                 else CLEAR_FLAG F_OF m)
        in (ucast res, m)
      else
        let m = CONDITIONAL_SET_FLAG (c_shr (ucast d) (ucast (s - 1)) AND 0x1 \<noteq> 0) F_CF m;
            m = CLEAR_FLAG F_OF m;
            m = CLEAR_FLAG F_SF m;
            m = SET_FLAG F_PF m;
            m = SET_FLAG F_ZF m
        in (0, m))"

definition shr_word :: "u16 \<Rightarrow> u8 \<Rightarrow> x86 \<Rightarrow> u16 \<times> x86" where
  "shr_word d s m =
     (if s < 16 then
        let cnt = ucast s mod 16 :: u32;
            (res, m) =
              (if cnt > 0 then
                 let cf = ucast d AND c_shl 1 (cnt - 1);
                     res = c_shr (ucast d) cnt;
                     m = CONDITIONAL_SET_FLAG (cf \<noteq> 0) F_CF m;
                     m = CONDITIONAL_SET_FLAG (res AND 0xffff = 0) F_ZF m;
                     m = CONDITIONAL_SET_FLAG (res AND 0x8000 \<noteq> 0) F_SF m;
                     m = CONDITIONAL_SET_FLAG (PARITY (res AND 0xff)) F_PF m
                 in (res, m)
               else (ucast d, m));
            m = (if cnt = 1 then CONDITIONAL_SET_FLAG (XOR2 (drop_bit 14 res)) F_OF m
                 else CLEAR_FLAG F_OF m)
        in (ucast res, m)
      else
        let m = CLEAR_FLAG F_CF m;
            m = CLEAR_FLAG F_OF m;
            m = SET_FLAG F_ZF m;
            m = CLEAR_FLAG F_SF m;
            m = CLEAR_FLAG F_PF m
        in (0, m))"

definition shr_long :: "u32 \<Rightarrow> u8 \<Rightarrow> x86 \<Rightarrow> u32 \<times> x86" where
  "shr_long d s m =
     (if s < 32 then
        let cnt = ucast s mod 32 :: u32;
            (res, m) =
              (if cnt > 0 then
                 let cf = d AND c_shl 1 (cnt - 1);
                     res = c_shr d cnt;
                     m = CONDITIONAL_SET_FLAG (cf \<noteq> 0) F_CF m;
                     m = CONDITIONAL_SET_FLAG (res AND 0xffffffff = 0) F_ZF m;
                     m = CONDITIONAL_SET_FLAG (res AND 0x80000000 \<noteq> 0) F_SF m;
                     m = CONDITIONAL_SET_FLAG (PARITY (res AND 0xff)) F_PF m
                 in (res, m)
               else (d, m));
            m = (if cnt = 1 then CONDITIONAL_SET_FLAG (XOR2 (drop_bit 30 res)) F_OF m
                 else CLEAR_FLAG F_OF m)
        in (res, m)
      else
        let m = CLEAR_FLAG F_CF m;
            m = CLEAR_FLAG F_OF m;
            m = SET_FLAG F_ZF m;
            m = CLEAR_FLAG F_SF m;
            m = CLEAR_FLAG F_PF m
        in (0, m))"

definition sar_byte :: "u8 \<Rightarrow> u8 \<Rightarrow> x86 \<Rightarrow> u8 \<times> x86" where
  "sar_byte d s m =
     (let res = ucast d :: u32;
          sf = ucast d AND 0x80 :: u32;
          cnt = ucast s mod 8 :: u32
      in if cnt > 0 \<and> cnt < 8 then
           let mask = c_shl 1 (8 - cnt) - 1;
               cf = ucast d AND c_shl 1 (cnt - 1);
               res = c_shr (ucast d) cnt AND mask;
               m = CONDITIONAL_SET_FLAG (cf \<noteq> 0) F_CF m;
               res = (if sf \<noteq> 0 then res OR NOT mask else res);
               m = CONDITIONAL_SET_FLAG (res AND 0xff = 0) F_ZF m;
               m = CONDITIONAL_SET_FLAG (PARITY (res AND 0xff)) F_PF m;
               m = CONDITIONAL_SET_FLAG (res AND 0x80 \<noteq> 0) F_SF m
           in (ucast res, m)
         else if cnt \<ge> 8 then
           if sf \<noteq> 0 then (0xff, SET_FLAG F_PF (SET_FLAG F_SF (CLEAR_FLAG F_ZF (SET_FLAG F_CF m))))
           else (0, CLEAR_FLAG F_PF (CLEAR_FLAG F_SF (SET_FLAG F_ZF (CLEAR_FLAG F_CF m))))
         else (ucast res, m))"

definition sar_word :: "u16 \<Rightarrow> u8 \<Rightarrow> x86 \<Rightarrow> u16 \<times> x86" where
  "sar_word d s m =
     (let res = ucast d :: u32;
          sf = ucast d AND 0x8000 :: u32;
          cnt = ucast s mod 16 :: u32
      in if cnt > 0 \<and> cnt < 16 then
           let mask = c_shl 1 (16 - cnt) - 1;
               cf = ucast d AND c_shl 1 (cnt - 1);
               res = c_shr (ucast d) cnt AND mask;
               m = CONDITIONAL_SET_FLAG (cf \<noteq> 0) F_CF m;
               res = (if sf \<noteq> 0 then res OR NOT mask else res);
               m = CONDITIONAL_SET_FLAG (res AND 0xffff = 0) F_ZF m;
               m = CONDITIONAL_SET_FLAG (res AND 0x8000 \<noteq> 0) F_SF m;
               m = CONDITIONAL_SET_FLAG (PARITY (res AND 0xff)) F_PF m
           in (ucast res, m)
         else if cnt \<ge> 16 then
           if sf \<noteq> 0 then (0xffff, SET_FLAG F_PF (SET_FLAG F_SF (CLEAR_FLAG F_ZF (SET_FLAG F_CF m))))
           else (0, CLEAR_FLAG F_PF (CLEAR_FLAG F_SF (SET_FLAG F_ZF (CLEAR_FLAG F_CF m))))
         else (ucast res, m))"

definition sar_long :: "u32 \<Rightarrow> u8 \<Rightarrow> x86 \<Rightarrow> u32 \<times> x86" where
  "sar_long d s m =
     (let res = d;
          sf = d AND 0x80000000;
          cnt = ucast s mod 32 :: u32
      in if cnt > 0 \<and> cnt < 32 then
           let mask = c_shl 1 (32 - cnt) - 1;
               cf = d AND c_shl 1 (cnt - 1);
               res = c_shr d cnt AND mask;
               m = CONDITIONAL_SET_FLAG (cf \<noteq> 0) F_CF m;
               res = (if sf \<noteq> 0 then res OR NOT mask else res);
               m = CONDITIONAL_SET_FLAG (res AND 0xffffffff = 0) F_ZF m;
               m = CONDITIONAL_SET_FLAG (res AND 0x80000000 \<noteq> 0) F_SF m;
               m = CONDITIONAL_SET_FLAG (PARITY (res AND 0xff)) F_PF m
           in (res, m)
         else if cnt \<ge> 32 then
           if sf \<noteq> 0 then (0xffffffff, SET_FLAG F_PF (SET_FLAG F_SF (CLEAR_FLAG F_ZF (SET_FLAG F_CF m))))
           else (0, CLEAR_FLAG F_PF (CLEAR_FLAG F_SF (SET_FLAG F_ZF (CLEAR_FLAG F_CF m))))
         else (res, m))"

definition shld_word :: "u16 \<Rightarrow> u16 \<Rightarrow> u8 \<Rightarrow> x86 \<Rightarrow> u16 \<times> x86" where
  "shld_word d fill s m =
     (if s < 16 then
        let cnt = ucast s mod 16 :: u32;
            (res, m) =
              (if cnt > 0 then
                 let res = c_shl (ucast d) cnt OR c_shr (ucast fill) (16 - cnt);
                     cf = ucast d AND c_shl 1 (16 - cnt);
                     m = CONDITIONAL_SET_FLAG (cf \<noteq> 0) F_CF m;
                     m = CONDITIONAL_SET_FLAG (res AND 0xffff = 0) F_ZF m;
                     m = CONDITIONAL_SET_FLAG (res AND 0x8000 \<noteq> 0) F_SF m;
                     m = CONDITIONAL_SET_FLAG (PARITY (res AND 0xff)) F_PF m
                 in (res, m)
               else (ucast d, m));
            m = (if cnt = 1 then CONDITIONAL_SET_FLAG ((res AND 0x8000 = 0x8000) \<noteq> ACCESS_FLAG F_CF m) F_OF m
                 else CLEAR_FLAG F_OF m)
        in (ucast res, m)
      else
        let m = CONDITIONAL_SET_FLAG (c_shl (ucast d) (ucast (s - 1)) AND 0x8000 \<noteq> 0) F_CF m;
            m = CLEAR_FLAG F_OF m;
            m = CLEAR_FLAG F_SF m;
            m = SET_FLAG F_PF m;
            m = SET_FLAG F_ZF m
        in (0, m))"

definition shld_long :: "u32 \<Rightarrow> u32 \<Rightarrow> u8 \<Rightarrow> x86 \<Rightarrow> u32 \<times> x86" where
  "shld_long d fill s m =
     (if s < 32 then
        let cnt = ucast s mod 32 :: u32;
            (res, m) =
              (if cnt > 0 then
                 let res = c_shl d cnt OR c_shr fill (32 - cnt);
                     cf = d AND c_shl 1 (32 - cnt);
                     m = CONDITIONAL_SET_FLAG (cf \<noteq> 0) F_CF m;
                     m = CONDITIONAL_SET_FLAG (res AND 0xffffffff = 0) F_ZF m;
                     m = CONDITIONAL_SET_FLAG (res AND 0x80000000 \<noteq> 0) F_SF m;
                     m = CONDITIONAL_SET_FLAG (PARITY (res AND 0xff)) F_PF m
                 in (res, m)
               else (d, m));
            m = (if cnt = 1 then CONDITIONAL_SET_FLAG ((res AND 0x80000000 = 0x80000000) \<noteq> ACCESS_FLAG F_CF m) F_OF m
                 else CLEAR_FLAG F_OF m)
        in (res, m)
      else
        let m = CONDITIONAL_SET_FLAG (c_shl d (ucast (s - 1)) AND 0x80000000 \<noteq> 0) F_CF m;
            m = CLEAR_FLAG F_OF m;
            m = CLEAR_FLAG F_SF m;
            m = SET_FLAG F_PF m;
            m = SET_FLAG F_ZF m
        in (0, m))"

definition shrd_word :: "u16 \<Rightarrow> u16 \<Rightarrow> u8 \<Rightarrow> x86 \<Rightarrow> u16 \<times> x86" where
  "shrd_word d fill s m =
     (if s < 16 then
        let cnt = ucast s mod 16 :: u32;
            (res, m) =
              (if cnt > 0 then
                 let cf = ucast d AND c_shl 1 (cnt - 1);
                     res = c_shr (ucast d) cnt OR c_shl (ucast fill) (16 - cnt);
                     m = CONDITIONAL_SET_FLAG (cf \<noteq> 0) F_CF m;
                     m = CONDITIONAL_SET_FLAG (res AND 0xffff = 0) F_ZF m;
                     m = CONDITIONAL_SET_FLAG (res AND 0x8000 \<noteq> 0) F_SF m;
                     m = CONDITIONAL_SET_FLAG (PARITY (res AND 0xff)) F_PF m
                 in (res, m)
               else (ucast d, m));
            m = (if cnt = 1 then CONDITIONAL_SET_FLAG (XOR2 (drop_bit 14 res)) F_OF m
                 else CLEAR_FLAG F_OF m)
        in (ucast res, m)
      else
        let m = CLEAR_FLAG F_CF m;
            m = CLEAR_FLAG F_OF m;
            m = SET_FLAG F_ZF m;
            m = CLEAR_FLAG F_SF m;
            m = CLEAR_FLAG F_PF m
        in (0, m))"

definition shrd_long :: "u32 \<Rightarrow> u32 \<Rightarrow> u8 \<Rightarrow> x86 \<Rightarrow> u32 \<times> x86" where
  "shrd_long d fill s m =
     (if s < 32 then
        let cnt = ucast s mod 32 :: u32;
            (res, m) =
              (if cnt > 0 then
                 let cf = d AND c_shl 1 (cnt - 1);
                     res = c_shr d cnt OR c_shl fill (32 - cnt);
                     m = CONDITIONAL_SET_FLAG (cf \<noteq> 0) F_CF m;
                     m = CONDITIONAL_SET_FLAG (res AND 0xffffffff = 0) F_ZF m;
                     m = CONDITIONAL_SET_FLAG (res AND 0x80000000 \<noteq> 0) F_SF m;
                     m = CONDITIONAL_SET_FLAG (PARITY (res AND 0xff)) F_PF m
                 in (res, m)
               else (d, m));
            m = (if cnt = 1 then CONDITIONAL_SET_FLAG (XOR2 (drop_bit 30 res)) F_OF m
                 else CLEAR_FLAG F_OF m)
        in (res, m)
      else
        let m = CLEAR_FLAG F_CF m;
            m = CLEAR_FLAG F_OF m;
            m = SET_FLAG F_ZF m;
            m = CLEAR_FLAG F_SF m;
            m = CLEAR_FLAG F_PF m
        in (0, m))"

section \<open>Shifting in a wider register\<close>

lemma unat_count: "unat (ucast (s :: u8) mod n :: u32) = unat s mod unat n"
  by (simp add: unat_mod_distrib unat_ucast_up)

lemma mask_word: "k < 32 \<Longrightarrow> push_bit k 1 - 1 = (mask k :: u32)"
  by (simp add: mask_eq_exp_minus_1 push_bit_of_1)

lemma mod_wrap: "k \<le> n \<Longrightarrow> i < n \<Longrightarrow> (i + (n - k)) mod n = (if k \<le> i then i - k else i + (n - k))"
  for i k n :: nat
proof (cases "k \<le> i")
  case True
  moreover assume "k \<le> n" "i < n"
  ultimately have e: "i + (n - k) = n + (i - k)" and lt: "i - k < n" by simp_all
  show ?thesis unfolding e mod_add_self1 using lt True by simp
qed simp

lemma rotl_core:
  fixes d :: "'a::len word"
  assumes "LENGTH('a) \<le> 32" "0 < k" "k < LENGTH('a)"
  shows "ucast (push_bit k (ucast d) OR (drop_bit (LENGTH('a) - k) (ucast d) AND mask k) :: u32) = word_rotl k d"
proof (rule bit_word_eqI)
  fix i assume i: "i < LENGTH('a)"
  have "bit (ucast (push_bit k (ucast d) OR (drop_bit (LENGTH('a) - k) (ucast d) AND mask k) :: u32) :: 'a word) i
      \<longleftrightarrow> k \<le> i \<and> bit d (i - k) \<or> i < k \<and> bit d (i + (LENGTH('a) - k))"
    using assms i by (auto simp: bit_simps add.commute)
  with assms i show "bit (ucast (push_bit k (ucast d) OR (drop_bit (LENGTH('a) - k) (ucast d) AND mask k) :: u32) :: 'a word) i
      = bit (word_rotl k d) i"
    using mod_wrap [of k "LENGTH('a)" i] by (cases "k \<le> i") (auto simp: bit_word_rotl_iff)
qed

lemma rotr_core:
  fixes d :: "'a::len word"
  assumes "LENGTH('a) \<le> 32" "0 < k" "k < LENGTH('a)"
  shows "ucast (push_bit (LENGTH('a) - k) (ucast d) OR (drop_bit k (ucast d) AND mask (LENGTH('a) - k)) :: u32)
     = word_rotr k d"
proof -
  have "word_rotr k d = word_rotl (LENGTH('a) - k) d" using assms by (simp add: word_rotl_eq_word_rotr)
  with rotl_core [of "LENGTH('a) - k" d] assms show ?thesis by simp
qed

definition rotl_ok :: "'a::len word \<Rightarrow> u8 \<Rightarrow> x86 \<Rightarrow> 'a word \<times> x86 \<Rightarrow> bool" where
  "rotl_ok d s m rm \<longleftrightarrow> (case rm of (r, m') \<Rightarrow> r = word_rotl (unat s) d \<and>
     ACCESS_FLAG F_CF m' = (if s = 0 then ACCESS_FLAG F_CF m else bit r 0) \<and>
     ACCESS_FLAG F_OF m' = (if unat s mod LENGTH('a) = 0 then ACCESS_FLAG F_OF m
                            else s = 1 \<and> bit r 0 \<noteq> bit r (LENGTH('a) - 1)) \<and>
     keeps_flags {0, 11} m m')"

definition rotr_ok :: "'a::len word \<Rightarrow> u8 \<Rightarrow> x86 \<Rightarrow> 'a word \<times> x86 \<Rightarrow> bool" where
  "rotr_ok d s m rm \<longleftrightarrow> (case rm of (r, m') \<Rightarrow> r = word_rotr (unat s) d \<and>
     ACCESS_FLAG F_CF m' = (if s = 0 then ACCESS_FLAG F_CF m else bit r (LENGTH('a) - 1)) \<and>
     ACCESS_FLAG F_OF m' = (if unat s mod LENGTH('a) = 0 then ACCESS_FLAG F_OF m
                            else s = 1 \<and> bit r (LENGTH('a) - 2) \<noteq> bit r (LENGTH('a) - 1)) \<and>
     keeps_flags {0, 11} m m')"

lemma word_rotl_mod: "word_rotl (k mod LENGTH('a)) (d :: 'a::len word) = word_rotl k d"
  "word_rotr (k mod LENGTH('a)) d = word_rotr k d"
  by (rule bit_word_eqI, simp add: bit_word_rotl_iff bit_word_rotr_iff mod_add_right_eq)+

lemma and_exp_if: "z AND 2 ^ k = (if bit z k then 2 ^ k else (0 :: u32))"
  by (rule bit_word_eqI)
     (auto simp only: bit_and_iff bit_exp_iff bit_0_eq bot_apply bot_bool_def split: if_splits)

lemma XOR2_pair: "XOR2 ((x AND 1) + (drop_bit k y AND 2)) \<longleftrightarrow> bit x 0 \<noteq> bit y (Suc k)" for x y :: u32
proof -
  have one: "x AND 1 = (if bit x 0 then 1 else 0)" by (simp add: and_one_eq odd_iff_mod_2_eq_one bit_0)
  have two: "z AND 2 = (if bit z 1 then 2 else 0)" for z :: u32
    using and_exp_if [of z 1] by simp
  have "XOR2 0 = False" "XOR2 1" "XOR2 2" "XOR2 3 = False" by code_simp+
  then show ?thesis by (simp add: one two bit_drop_bit_eq)
qed

lemma c_shift_eqs:
  "k < 32 \<Longrightarrow> unat n = k \<Longrightarrow> c_shl x n = push_bit k x" "k < 32 \<Longrightarrow> unat n = k \<Longrightarrow> c_shr x n = drop_bit k x"
  by (simp_all add: c_shl_def c_shr_def)

lemma count_zero: "(ucast (s :: u8) mod n :: u32) = 0 \<longleftrightarrow> unat s mod unat n = 0"
  by (simp add: word_unat_eq_iff unat_count)

lemma word_rot_zero: "word_rotl 0 d = d" "word_rotr 0 d = (d :: 'a::len word)"
  by (rule bit_word_eqI, simp add: bit_word_rotl_iff bit_word_rotr_iff)+

lemma rot_multiple:
  "unat s mod LENGTH('a) = 0 \<Longrightarrow> word_rotl (unat (s :: u8)) (d :: 'a::len word) = d \<and> word_rotr (unat s) d = d"
  using word_rotl_mod [of "unat s" d] by (simp add: word_rot_zero)

text \<open>The register contents of the rotates, for the operand width \<open>N\<close>.\<close>

lemma rot_parts:
  fixes d :: "'a::len word" and s :: u8
  assumes N: "unat (N :: u32) = LENGTH('a)" "LENGTH('a) \<le> 32" and k: "unat s mod LENGTH('a) \<noteq> 0"
  defines "cnt \<equiv> ucast s mod N"
  defines "l \<equiv> c_shl (ucast d) cnt OR (c_shr (ucast d) (N - cnt) AND (c_shl 1 cnt - 1))"
    and "r \<equiv> c_shl (ucast d) (N - cnt) OR (c_shr (ucast d) cnt AND (c_shl 1 (N - cnt) - 1))"
  shows "ucast l = word_rotl (unat s) d" "ucast r = word_rotr (unat s) d"
    "i < LENGTH('a) \<Longrightarrow> bit l i = bit (word_rotl (unat s) d) i"
    "i < LENGTH('a) \<Longrightarrow> bit r i = bit (word_rotr (unat s) d) i"
proof -
  let ?k = "unat s mod LENGTH('a)"
  have kn: "?k < LENGTH('a)" by simp
  have cnt: "unat cnt = ?k" "unat (N - cnt) = LENGTH('a) - ?k"
    unfolding cnt_def using kn N(1) by (simp_all add: unat_count unat_sub_le word_le_nat_alt order_less_imp_le)
  have lt: "?k < 32" "LENGTH('a) - ?k < 32" using kn N(2) k by linarith+
  have l: "l = push_bit ?k (ucast d) OR (drop_bit (LENGTH('a) - ?k) (ucast d) AND mask ?k)"
    and r: "r = push_bit (LENGTH('a) - ?k) (ucast d) OR (drop_bit ?k (ucast d) AND mask (LENGTH('a) - ?k))"
    unfolding l_def r_def
    by (simp_all only: c_shift_eqs [OF lt(1) cnt(1)] c_shift_eqs [OF lt(2) cnt(2)] mask_word lt)
  show ul: "ucast l = word_rotl (unat s) d" and ur: "ucast r = word_rotr (unat s) d"
    unfolding l r using rotl_core [OF N(2) _ kn, of d] rotr_core [OF N(2) _ kn, of d] k
    by (simp_all add: word_rotl_mod)
  show "bit l i = bit (word_rotl (unat s) d) i" "bit r i = bit (word_rotr (unat s) d) i"
    if "i < LENGTH('a)" unfolding ul [symmetric] ur [symmetric] using that by (simp_all add: bit_simps)
qed

lemma bit_ucast_up: "LENGTH('a::len) \<le> 32 \<Longrightarrow> bit (ucast (d :: 'a word) :: u32) i = bit d i"
  by (auto simp: bit_simps dest: bit_imp_le_length)

lemma ucast_up_down: "LENGTH('a::len) \<le> 32 \<Longrightarrow> (ucast (ucast (d :: 'a word) :: u32) :: 'a word) = d"
  by (rule bit_word_eqI) (simp add: bit_simps)

lemma rol_byte_ok: "rotl_ok d s m (rol_byte d s m)"
proof (cases "unat s mod 8 = 0")
  case True
  with rot_multiple [of s d] show ?thesis
    by (simp add: rol_byte_def rotl_ok_def count_zero alu_simps bit_ucast_up ucast_up_down)
next
  case False
  with rot_parts [where N = 8 and d = d and s = s] show ?thesis
    by (auto simp: rol_byte_def rotl_ok_def count_zero XOR2_pair alu_simps)
qed

lemma rol_word_ok: "rotl_ok d s m (rol_word d s m)"
proof (cases "unat s mod 16 = 0")
  case True
  with rot_multiple [of s d] show ?thesis
    by (simp add: rol_word_def rotl_ok_def count_zero alu_simps bit_ucast_up ucast_up_down)
next
  case False
  with rot_parts [where N = 16 and d = d and s = s] show ?thesis
    by (auto simp: rol_word_def rotl_ok_def count_zero XOR2_pair alu_simps)
qed

lemma rol_long_ok: "rotl_ok d s m (rol_long d s m)"
proof (cases "unat s mod 32 = 0")
  case True
  with rot_multiple [of s d] show ?thesis
    by (simp add: rol_long_def rotl_ok_def count_zero alu_simps bit_ucast_up ucast_up_down)
next
  case False
  with rot_parts [where N = 32 and d = d and s = s] show ?thesis
    by (auto simp: rol_long_def rotl_ok_def count_zero XOR2_pair alu_simps)
qed

lemma ror_byte_ok: "rotr_ok d s m (ror_byte d s m)"
proof (cases "unat s mod 8 = 0")
  case True
  with rot_multiple [of s d] show ?thesis
    by (simp add: ror_byte_def rotr_ok_def count_zero alu_simps bit_ucast_up ucast_up_down)
next
  case False
  with rot_parts [where N = 8 and d = d and s = s] show ?thesis
    by (auto simp: ror_byte_def rotr_ok_def count_zero alu_simps)
qed

lemma ror_word_ok: "rotr_ok d s m (ror_word d s m)"
proof (cases "unat s mod 16 = 0")
  case True
  with rot_multiple [of s d] show ?thesis
    by (simp add: ror_word_def rotr_ok_def count_zero alu_simps bit_ucast_up ucast_up_down)
next
  case False
  with rot_parts [where N = 16 and d = d and s = s] show ?thesis
    by (auto simp: ror_word_def rotr_ok_def count_zero alu_simps)
qed

lemma ror_long_ok: "rotr_ok d s m (ror_long d s m)"
proof (cases "unat s mod 32 = 0")
  case True
  with rot_multiple [of s d] show ?thesis
    by (simp add: ror_long_def rotr_ok_def count_zero alu_simps bit_ucast_up ucast_up_down)
next
  case False
  with rot_parts [where N = 32 and d = d and s = s] show ?thesis
    by (auto simp: ror_long_def rotr_ok_def count_zero alu_simps)
qed

section \<open>Rotates through carry\<close>

text \<open>The operand with the carry flag as its topmost bit, and its rotation by \<open>k\<close> of \<open>n + 1\<close> bits.\<close>

definition cbit :: "'a::len word \<Rightarrow> bool \<Rightarrow> nat \<Rightarrow> bool" where
  "cbit d c i \<longleftrightarrow> (if i = LENGTH('a) then c else bit d i)"

definition rcl_ok :: "'a::len word \<Rightarrow> u8 \<Rightarrow> x86 \<Rightarrow> 'a word \<times> x86 \<Rightarrow> bool" where
  "rcl_ok d s m rm \<longleftrightarrow> (case rm of (r, m') \<Rightarrow> let k = unat s mod Suc LENGTH('a) in
     (\<forall>i \<le> LENGTH('a). cbit r (ACCESS_FLAG F_CF m') i =
        cbit d (ACCESS_FLAG F_CF m) ((i + (Suc LENGTH('a) - k)) mod Suc LENGTH('a))) \<and>
     ACCESS_FLAG F_OF m' = (if k = 0 then ACCESS_FLAG F_OF m
                            else k = 1 \<and> ACCESS_FLAG F_CF m' \<noteq> bit r (LENGTH('a) - 1)) \<and>
     keeps_flags {0, 11} m m')"

definition rcr_ok :: "'a::len word \<Rightarrow> u8 \<Rightarrow> x86 \<Rightarrow> 'a word \<times> x86 \<Rightarrow> bool" where
  "rcr_ok d s m rm \<longleftrightarrow> (case rm of (r, m') \<Rightarrow> let k = unat s mod Suc LENGTH('a) in
     (\<forall>i \<le> LENGTH('a). cbit r (ACCESS_FLAG F_CF m') i =
        cbit d (ACCESS_FLAG F_CF m) ((i + k) mod Suc LENGTH('a))) \<and>
     ACCESS_FLAG F_OF m' = (if k = 1 then ACCESS_FLAG F_CF m \<noteq> bit d (LENGTH('a) - 1)
                            else ACCESS_FLAG F_OF m) \<and>
     keeps_flags {0, 11} m m')"

lemma rcl_parts:
  fixes d :: "'a::len word" and s :: u8 and c :: bool
  assumes N: "unat (N :: u32) = LENGTH('a)" "LENGTH('a) \<le> 32" and k: "k = unat s mod Suc LENGTH('a)" "k \<noteq> 0" "k < 32"
  defines "cnt \<equiv> ucast s mod (N + 1)"
  defines "r0 \<equiv> (c_shl (ucast d) cnt AND mask LENGTH('a)) OR (c_shr (ucast d) (N + 1 - cnt) AND (c_shl 1 (cnt - 1) - 1))"
  defines "r \<equiv> (if c then r0 OR c_shl 1 (cnt - 1) else r0)"
  shows "bit (c_shr (ucast d) (N - cnt)) 0 = bit d (LENGTH('a) - k)"
    "i < LENGTH('a) \<Longrightarrow> bit r i = cbit d c ((i + (Suc LENGTH('a) - k)) mod Suc LENGTH('a))"
    "unat cnt = k"
proof -
  have kn: "k \<le> LENGTH('a)" using k(1) by (metis less_Suc_eq_le mod_less_divisor zero_less_Suc)
  have N1: "unat (N + 1) = Suc LENGTH('a)" using N by (simp add: unat_word_ariths)
  show cnt: "unat cnt = k" unfolding cnt_def using k(1) N1 by (simp add: unat_count)
  have n1: "unat (N - cnt) = LENGTH('a) - k" "unat (N + 1 - cnt) = Suc LENGTH('a) - k" "unat (cnt - 1) = k - 1"
    using cnt kn k(2) N N1 by (simp_all add: unat_sub_le word_le_nat_alt)
  have s1: "c_shl x cnt = push_bit k x" "c_shl x (cnt - 1) = push_bit (k - 1) x"
    "c_shr x (N - cnt) = drop_bit (LENGTH('a) - k) x" for x
    using cnt n1 k N(2) by (simp_all add: c_shl_def c_shr_def)
  have s2: "c_shr (ucast d) (N + 1 - cnt) AND mask (k - 1) = drop_bit (Suc LENGTH('a) - k) (ucast d) AND mask (k - 1)"
    using n1(2) k N(2) kn by (cases "k = 1 \<and> LENGTH('a) = 32") (auto simp: c_shr_def)
  show "bit (c_shr (ucast d) (N - cnt)) 0 = bit d (LENGTH('a) - k)"
    by (simp add: s1 bit_drop_bit_eq bit_ucast_up N(2))
  have m: "push_bit (k - 1) 1 - 1 = (mask (k - 1) :: u32)" using k(3) by (intro mask_word) simp
  have r: "bit r i \<longleftrightarrow> k \<le> i \<and> bit d (i - k) \<or> i < k - 1 \<and> bit d (i + (Suc LENGTH('a) - k)) \<or> c \<and> i = k - 1"
    if i: "i < LENGTH('a)" for i
  proof -
    have "bit r0 i \<longleftrightarrow> k \<le> i \<and> bit d (i - k) \<or> i < k - 1 \<and> bit d (i + (Suc LENGTH('a) - k))"
      unfolding r0_def s1 m s2 using i N(2) by (auto simp: bit_simps bit_ucast_up add.commute)
    moreover have "bit (push_bit (k - 1) 1 :: u32) i \<longleftrightarrow> i = k - 1"
      using k(3) by (auto simp: push_bit_of_1 bit_exp_iff)
    ultimately show ?thesis unfolding r_def s1 by (cases c) (auto simp: bit_or_iff)
  qed
  show "bit r i = cbit d c ((i + (Suc LENGTH('a) - k)) mod Suc LENGTH('a))" if i: "i < LENGTH('a)" for i
  proof (cases "k \<le> i")
    case True
    with r [OF i] i mod_wrap [of k "Suc LENGTH('a)" i] kn k(2,3) show ?thesis
      by (auto simp: cbit_def)
  next
    case False
    with r [OF i] i mod_wrap [of k "Suc LENGTH('a)" i] kn k(2,3) show ?thesis
      by (auto simp: cbit_def)
  qed
qed

lemma XOR2_carry: "XOR2 ((x AND 1) + (drop_bit k y AND 2)) \<longleftrightarrow> (x AND 1 \<noteq> 0) \<noteq> bit y (Suc k)" for x y :: u32
  by (simp only: XOR2_pair test_bit_masks)

lemma cbit_rcl_ok:
  fixes d :: "'a::len word" and s :: u8
  assumes "k = unat s mod Suc LENGTH('a)" "k \<noteq> 0"
    and "\<And>i. i < LENGTH('a) \<Longrightarrow> bit r i = cbit d (ACCESS_FLAG F_CF m) ((i + (Suc LENGTH('a) - k)) mod Suc LENGTH('a))"
    and "ACCESS_FLAG F_CF m' = bit d (LENGTH('a) - k)"
    and "ACCESS_FLAG F_OF m' = (k = 1 \<and> ACCESS_FLAG F_CF m' \<noteq> bit r (LENGTH('a) - 1))"
    and "keeps_flags {0, 11} m m'"
  shows "rcl_ok d s m (r, m')"
proof -
  have "k \<le> LENGTH('a)" using assms(1) by (metis less_Suc_eq_le mod_less_divisor zero_less_Suc)
  then have top: "(LENGTH('a) + (Suc LENGTH('a) - k)) mod Suc LENGTH('a) = LENGTH('a) - k" and ne: "LENGTH('a) - k \<noteq> LENGTH('a)"
    using mod_wrap [of k "Suc LENGTH('a)" "LENGTH('a)"] assms(2) by simp_all
  have "cbit r (ACCESS_FLAG F_CF m') i =
      cbit d (ACCESS_FLAG F_CF m) ((i + (Suc LENGTH('a) - k)) mod Suc LENGTH('a))" if "i \<le> LENGTH('a)" for i
  proof (cases "i = LENGTH('a)")
    case True
    show ?thesis unfolding True top using assms(4) ne by (simp add: cbit_def)
  next
    case False
    with that assms(3) [of i] show ?thesis by (simp add: cbit_def [of r])
  qed
  with assms(2,5,6) show ?thesis unfolding rcl_ok_def Let_def assms(1) [symmetric] by auto
qed

lemma rcl_byte_ok: "rcl_ok d s m (rcl_byte d s m)"
proof (cases "unat s mod 9 = 0")
  case True
  then show ?thesis
    by (auto simp: rcl_byte_def rcl_ok_def count_zero keeps_flags_def only_flags_def)
next
  case False
  have lt: "unat s mod 9 < 32" using mod_less_divisor [of 9 "unat s"] by linarith
  have nz: "ucast s mod 9 \<noteq> (0 :: u32)" using False by (simp add: count_zero)
  have one: "ucast s mod 9 = (1 :: u32) \<longleftrightarrow> unat s mod 9 = 1" by (simp add: word_unat_eq_iff unat_count)
  note P = rcl_parts(1) [where N = 8 and d = d and s = s and k = "unat s mod 9"]
    and Q = rcl_parts(2) [where N = 8 and d = d and s = s and c = "ACCESS_FLAG F_CF m" and k = "unat s mod 9"]
  show ?thesis
    using False lt P Q unfolding rcl_byte_def Let_def
    by (simp only: nz simp_thms if_True)
       (rule cbit_rcl_ok [OF refl]; simp add: alu_simps XOR2_carry one low_masks bit_ucast_down cong: if_cong)
qed

lemma rcl_word_ok: "rcl_ok d s m (rcl_word d s m)"
proof (cases "unat s mod 17 = 0")
  case True
  then show ?thesis
    by (auto simp: rcl_word_def rcl_ok_def count_zero keeps_flags_def only_flags_def)
next
  case False
  have lt: "unat s mod 17 < 32" using mod_less_divisor [of 17 "unat s"] by linarith
  have nz: "ucast s mod 17 \<noteq> (0 :: u32)" using False by (simp add: count_zero)
  have one: "ucast s mod 17 = (1 :: u32) \<longleftrightarrow> unat s mod 17 = 1" by (simp add: word_unat_eq_iff unat_count)
  note P = rcl_parts(1) [where N = 16 and d = d and s = s and k = "unat s mod 17"]
    and Q = rcl_parts(2) [where N = 16 and d = d and s = s and c = "ACCESS_FLAG F_CF m" and k = "unat s mod 17"]
  show ?thesis
    using False lt P Q unfolding rcl_word_def Let_def
    by (simp only: nz simp_thms if_True)
       (rule cbit_rcl_ok [OF refl]; simp add: alu_simps XOR2_carry one low_masks bit_ucast_down cong: if_cong)
qed

lemma rcl_long_ok: "rcl_ok d s m (rcl_long d s m)" if "unat s mod 33 \<noteq> 32"
proof (cases "unat s mod 33 = 0")
  case True
  then show ?thesis
    by (auto simp: rcl_long_def rcl_ok_def count_zero keeps_flags_def only_flags_def)
next
  case False
  have lt: "unat s mod 33 < 32" using that mod_less_divisor [of 33 "unat s"] by linarith
  have nz: "ucast s mod 33 \<noteq> (0 :: u32)" using False by (simp add: count_zero)
  have one: "ucast s mod 33 = (1 :: u32) \<longleftrightarrow> unat s mod 33 = 1" by (simp add: word_unat_eq_iff unat_count)
  note P = rcl_parts(1) [where N = 32 and d = d and s = s and k = "unat s mod 33"]
    and Q = rcl_parts(2) [where N = 32 and d = d and s = s and c = "ACCESS_FLAG F_CF m" and k = "unat s mod 33"]
  show ?thesis
    using False lt P Q unfolding rcl_long_def Let_def
    by (simp only: nz simp_thms if_True)
       (rule cbit_rcl_ok [OF refl]; simp add: alu_simps XOR2_carry one low_masks bit_ucast_down cong: if_cong)
qed

lemma rcr_parts:
  fixes d :: "'a::len word" and s :: u8 and c b :: bool
  assumes N: "unat (N :: u32) = LENGTH('a)" "LENGTH('a) \<le> 32" and k: "k = unat s mod Suc LENGTH('a)" "k \<noteq> 0"
    and b: "b \<or> k = 1" "b \<longrightarrow> k \<noteq> 1 \<or> LENGTH('a) < 32"
  defines "cnt \<equiv> ucast s mod (N + 1)"
  defines "r0 \<equiv> c_shr (ucast d) cnt AND (c_shl 1 (N - cnt) - 1)"
  defines "r1 \<equiv> (if b then r0 OR c_shl (ucast d) (N + 1 - cnt) else r0)"
  defines "r \<equiv> (if c then r1 OR c_shl 1 (N - cnt) else r1)"
  shows "bit (c_shr (ucast d) (cnt - 1)) 0 = bit d (k - 1)"
    "i < LENGTH('a) \<Longrightarrow> bit r i = cbit d c ((i + k) mod Suc LENGTH('a))"
    "unat cnt = k"
proof -
  have kn: "k \<le> LENGTH('a)" using k(1) by (metis less_Suc_eq_le mod_less_divisor zero_less_Suc)
  have N1: "unat (N + 1) = Suc LENGTH('a)" using N by (simp add: unat_word_ariths)
  show cnt: "unat cnt = k" unfolding cnt_def using k(1) N1 by (simp add: unat_count)
  have n1: "unat (N - cnt) = LENGTH('a) - k" "unat (N + 1 - cnt) = Suc LENGTH('a) - k" "unat (cnt - 1) = k - 1"
    using cnt kn k(2) N N1 by (simp_all add: unat_sub_le word_le_nat_alt)
  have lt: "LENGTH('a) - k < 32" "k - 1 < 32" using kn k(2) N(2) by linarith+
  have s1: "c_shl x (N - cnt) = push_bit (LENGTH('a) - k) x" "c_shr x (cnt - 1) = drop_bit (k - 1) x" for x
    using n1 lt by (simp_all add: c_shl_def c_shr_def)
  have m: "push_bit (LENGTH('a) - k) 1 - 1 = (mask (LENGTH('a) - k) :: u32)" using lt(1) by (rule mask_word)
  show "bit (c_shr (ucast d) (cnt - 1)) 0 = bit d (k - 1)"
    by (simp add: s1 bit_drop_bit_eq bit_ucast_up N(2))
  have r0: "bit r0 i \<longleftrightarrow> i < LENGTH('a) - k \<and> bit d (i + k)" if i: "i < LENGTH('a)" for i
  proof (cases "k = 32")
    case True
    then have "LENGTH('a) - k = 0" using N(2) by simp
    then show ?thesis unfolding r0_def s1 m by simp
  next
    case False
    then have "k < 32" using kn N(2) by simp
    then show ?thesis unfolding r0_def s1 m
      using cnt i N(2) by (auto simp: c_shr_def bit_simps bit_ucast_up add.commute)
  qed
  have r1: "bit r1 i \<longleftrightarrow> i < LENGTH('a) - k \<and> bit d (i + k) \<or> Suc LENGTH('a) - k \<le> i \<and> bit d (i - (Suc LENGTH('a) - k))"
    if i: "i < LENGTH('a)" for i
  proof (cases b)
    case True
    then have "Suc LENGTH('a) - k < 32" using b(2) k(2) kn N(2) by linarith
    then have "bit (c_shl (ucast d) (N + 1 - cnt)) i \<longleftrightarrow> Suc LENGTH('a) - k \<le> i \<and> bit d (i - (Suc LENGTH('a) - k))"
      using n1(2) i N(2) by (auto simp: c_shl_def bit_simps bit_ucast_up)
    with True r0 [OF i] show ?thesis by (simp add: r1_def bit_or_iff)
  next
    case False
    with b(1) i r0 [OF i] show ?thesis by (simp add: r1_def)
  qed
  have one: "bit (push_bit (LENGTH('a) - k) 1 :: u32) i \<longleftrightarrow> i = LENGTH('a) - k" for i
    using lt(1) by (auto simp: push_bit_of_1 bit_exp_iff)
  show "bit r i = cbit d c ((i + k) mod Suc LENGTH('a))" if i: "i < LENGTH('a)" for i
  proof -
    have "(i + k) mod Suc LENGTH('a) = (if Suc LENGTH('a) - k \<le> i then i - (Suc LENGTH('a) - k) else i + k)"
      using mod_wrap [of "Suc LENGTH('a) - k" "Suc LENGTH('a)" i] i kn by simp
    moreover have "bit r i \<longleftrightarrow> i < LENGTH('a) - k \<and> bit d (i + k) \<or>
        Suc LENGTH('a) - k \<le> i \<and> bit d (i - (Suc LENGTH('a) - k)) \<or> c \<and> i = LENGTH('a) - k"
      unfolding r_def s1 using r1 [OF i] one [of i] by (cases c) (auto simp: bit_or_iff)
    ultimately show ?thesis using i kn k(2) by (auto simp: cbit_def)
  qed
qed

lemma cbit_rcr_ok:
  fixes d :: "'a::len word" and s :: u8
  assumes "k = unat s mod Suc LENGTH('a)" "k \<noteq> 0"
    and "\<And>i. i < LENGTH('a) \<Longrightarrow> bit r i = cbit d (ACCESS_FLAG F_CF m) ((i + k) mod Suc LENGTH('a))"
    and "ACCESS_FLAG F_CF m' = bit d (k - 1)"
    and "ACCESS_FLAG F_OF m' = (if k = 1 then ACCESS_FLAG F_CF m \<noteq> bit d (LENGTH('a) - 1) else ACCESS_FLAG F_OF m)"
    and "keeps_flags {0, 11} m m'"
  shows "rcr_ok d s m (r, m')"
proof -
  have kn: "k \<le> LENGTH('a)" using assms(1) by (metis less_Suc_eq_le mod_less_divisor zero_less_Suc)
  have e: "LENGTH('a) + k = (k - 1) + Suc LENGTH('a)" using assms(2) by simp
  have top: "(LENGTH('a) + k) mod Suc LENGTH('a) = k - 1" unfolding e mod_add_self2 using kn by simp
  have ne: "k - 1 \<noteq> LENGTH('a)" using kn assms(2) by simp
  have "cbit r (ACCESS_FLAG F_CF m') i = cbit d (ACCESS_FLAG F_CF m) ((i + k) mod Suc LENGTH('a))"
    if "i \<le> LENGTH('a)" for i
  proof (cases "i = LENGTH('a)")
    case True
    show ?thesis unfolding True top using assms(4) ne by (simp add: cbit_def)
  next
    case False
    with that assms(3) [of i] show ?thesis by (simp add: cbit_def [of r])
  qed
  with assms(5,6) show ?thesis unfolding rcr_ok_def Let_def assms(1) [symmetric] by auto
qed

lemma XOR2_ocf: "XOR2 ((if c then 1 else 0) + (drop_bit k y AND 2)) \<longleftrightarrow> c \<noteq> bit y (Suc k)" for y :: u32
  using XOR2_pair [of 1 k y] XOR2_pair [of 0 k y] by (cases c) simp_all

lemma rcr_byte_ok: "rcr_ok d s m (rcr_byte d s m)"
proof (cases "unat s mod 9 = 0")
  case True
  then show ?thesis
    by (auto simp: rcr_byte_def rcr_ok_def count_zero keeps_flags_def only_flags_def)
next
  case False
  have nz: "ucast s mod 9 \<noteq> (0 :: u32)" using False by (simp add: count_zero)
  have one: "ucast s mod 9 = (1 :: u32) \<longleftrightarrow> unat s mod 9 = 1" by (simp add: word_unat_eq_iff unat_count)
  have cf: "(if ucast s mod 9 = (1 :: u32) then ucast d AND 0x1 else c_shr (ucast d) (ucast s mod 9 - 1) AND 0x1) =
      c_shr (ucast d) (ucast s mod 9 - 1) AND 0x1"
    by (simp add: c_shr_def)
  note P = rcr_parts(1) [where N = 8 and d = d and s = s and k = "unat s mod 9" and b = "True"]
    and Q = rcr_parts(2) [where N = 8 and d = d and s = s and c = "ACCESS_FLAG F_CF m" and k = "unat s mod 9" and b = "True"]
  show ?thesis
    using False P Q unfolding rcr_byte_def Let_def cf
    by (simp only: nz simp_thms if_True)
       (rule cbit_rcr_ok [OF refl]; simp add: alu_simps XOR2_ocf one bit_ucast_down bit_ucast_up cong: if_cong)
qed

lemma rcr_word_ok: "rcr_ok d s m (rcr_word d s m)"
proof (cases "unat s mod 17 = 0")
  case True
  then show ?thesis
    by (auto simp: rcr_word_def rcr_ok_def count_zero keeps_flags_def only_flags_def)
next
  case False
  have nz: "ucast s mod 17 \<noteq> (0 :: u32)" using False by (simp add: count_zero)
  have one: "ucast s mod 17 = (1 :: u32) \<longleftrightarrow> unat s mod 17 = 1" by (simp add: word_unat_eq_iff unat_count)
  have cf: "(if ucast s mod 17 = (1 :: u32) then ucast d AND 0x1 else c_shr (ucast d) (ucast s mod 17 - 1) AND 0x1) =
      c_shr (ucast d) (ucast s mod 17 - 1) AND 0x1"
    by (simp add: c_shr_def)
  note P = rcr_parts(1) [where N = 16 and d = d and s = s and k = "unat s mod 17" and b = "True"]
    and Q = rcr_parts(2) [where N = 16 and d = d and s = s and c = "ACCESS_FLAG F_CF m" and k = "unat s mod 17" and b = "True"]
  show ?thesis
    using False P Q unfolding rcr_word_def Let_def cf
    by (simp only: nz simp_thms if_True)
       (rule cbit_rcr_ok [OF refl]; simp add: alu_simps XOR2_ocf one bit_ucast_down bit_ucast_up cong: if_cong)
qed

lemma rcr_long_ok: "rcr_ok d s m (rcr_long d s m)"
proof (cases "unat s mod 33 = 0")
  case True
  then show ?thesis
    by (auto simp: rcr_long_def rcr_ok_def count_zero keeps_flags_def only_flags_def)
next
  case False
  have nz: "ucast s mod 33 \<noteq> (0 :: u32)" using False by (simp add: count_zero)
  have one: "ucast s mod 33 = (1 :: u32) \<longleftrightarrow> unat s mod 33 = 1" by (simp add: word_unat_eq_iff unat_count)
  have cf: "(if ucast s mod 33 = (1 :: u32) then d AND 0x1 else c_shr (d) (ucast s mod 33 - 1) AND 0x1) =
      c_shr (d) (ucast s mod 33 - 1) AND 0x1"
    by (simp add: c_shr_def)
  note P = rcr_parts(1) [where N = 32 and d = d and s = s and k = "unat s mod 33" and b = "ucast s mod 33 \<noteq> (1 :: u32)"]
    and Q = rcr_parts(2) [where N = 32 and d = d and s = s and c = "ACCESS_FLAG F_CF m" and k = "unat s mod 33" and b = "ucast s mod 33 \<noteq> (1 :: u32)"]
  show ?thesis
    using False P Q unfolding rcr_long_def Let_def cf
    by (simp only: nz simp_thms if_True)
       (rule cbit_rcr_ok [OF refl]; simp add: alu_simps XOR2_ocf one cong: if_cong)
qed

section \<open>Shifts\<close>

text \<open>What the shifts by \<open>k\<close> do, for \<open>r\<close> the shifted operand and \<open>c\<close> the last bit shifted out; \<open>v\<close> is the
  overflow a shift by one produces.  A shift by zero only clears the overflow flag.\<close>

definition shift_ok :: "'a::len word \<Rightarrow> nat \<Rightarrow> bool \<Rightarrow> bool \<Rightarrow> x86 \<Rightarrow> 'a word \<times> x86 \<Rightarrow> bool" where
  "shift_ok r k c v m rm \<longleftrightarrow> (case rm of (r', m') \<Rightarrow> r' = r \<and>
     (if k = 0 then keeps_flags {11} m m'
      else ACCESS_FLAG F_CF m' = c \<and> result_flags r m' \<and> keeps_flags {0, 2, 6, 7, 11} m m') \<and>
     ACCESS_FLAG F_OF m' = (k = 1 \<and> v))"

lemma shl_parts:
  fixes d :: "'a::len word" and s :: u8
  assumes N: "unat (N :: u32) = LENGTH('a)" "LENGTH('a) \<le> 32" and k: "0 < unat s" "unat s < LENGTH('a)"
  defines "cnt \<equiv> ucast s mod N"
  shows "ucast (c_shl (ucast d) cnt) = push_bit (unat s) d"
    "i < LENGTH('a) \<Longrightarrow> bit (c_shl (ucast d) cnt) i = bit (push_bit (unat s) d) i"
    "ucast d AND c_shl 1 (N - cnt) \<noteq> 0 \<longleftrightarrow> bit d (LENGTH('a) - unat s)"
    "ucast (c_shr (ucast d) cnt) = drop_bit (unat s) d"
    "i < LENGTH('a) \<Longrightarrow> bit (c_shr (ucast d) cnt) i = bit (drop_bit (unat s) d) i"
    "ucast d AND c_shl 1 (cnt - 1) \<noteq> 0 \<longleftrightarrow> bit d (unat s - 1)"
    "unat cnt = unat s"
proof -
  show cnt: "unat cnt = unat s" unfolding cnt_def using k N(1) by (simp add: unat_count)
  have n1: "unat (N - cnt) = LENGTH('a) - unat s" "unat (cnt - 1) = unat s - 1"
    using cnt k N by (simp_all add: unat_sub_le word_le_nat_alt)
  have s1: "c_shl x cnt = push_bit (unat s) x" "c_shr x cnt = drop_bit (unat s) x"
    "c_shl x (N - cnt) = push_bit (LENGTH('a) - unat s) x" "c_shl x (cnt - 1) = push_bit (unat s - 1) x" for x
    using cnt n1 k N(2) by (simp_all add: c_shl_def c_shr_def)
  have one: "ucast d AND push_bit j 1 \<noteq> (0 :: u32) \<longleftrightarrow> bit d j" if "j < 32" for j
    using that by (simp add: push_bit_of_1 and_exp_eq_0_iff_not_bit bit_ucast_up N(2))
  show "ucast (c_shl (ucast d) cnt) = push_bit (unat s) d" "ucast (c_shr (ucast d) cnt) = drop_bit (unat s) d"
    unfolding s1 using N(2) by (rule_tac [!] bit_word_eqI) (auto simp: bit_simps bit_ucast_up dest: bit_imp_le_length)
  show "bit (c_shl (ucast d) cnt) i = bit (push_bit (unat s) d) i"
    "bit (c_shr (ucast d) cnt) i = bit (drop_bit (unat s) d) i" if "i < LENGTH('a)"
    unfolding s1 using that N(2) by (auto simp: bit_simps bit_ucast_up dest: bit_imp_le_length)
  show "ucast d AND c_shl 1 (N - cnt) \<noteq> 0 \<longleftrightarrow> bit d (LENGTH('a) - unat s)"
    "ucast d AND c_shl 1 (cnt - 1) \<noteq> 0 \<longleftrightarrow> bit d (unat s - 1)"
    unfolding s1 using k N(2) by (simp_all only: one)
qed

lemma top_mask_eq:
  "(w :: u32) AND 0x80 = 0x80 \<longleftrightarrow> bit w 7" "w AND 0x8000 = 0x8000 \<longleftrightarrow> bit w 15"
  "w AND 0x80000000 = 0x80000000 \<longleftrightarrow> bit w 31"
proof -
  have e: "w AND 2 ^ k = 2 ^ k \<longleftrightarrow> bit w k" if "k < 32" for k
    using that by (simp add: and_exp_if)
  show "w AND 0x80 = 0x80 \<longleftrightarrow> bit w 7" "w AND 0x8000 = 0x8000 \<longleftrightarrow> bit w 15"
    "w AND 0x80000000 = 0x80000000 \<longleftrightarrow> bit w 31"
    using e [of 7] e [of 15] e [of 31] by simp_all
qed

lemma count_lt: "(s :: u8) < N \<longleftrightarrow> unat s < unat N" "(0 :: u32) < ucast s mod M \<longleftrightarrow> unat s mod unat M \<noteq> 0"
  by (simp_all add: word_less_nat_alt unat_count)

lemma count_one: "ucast (s :: u8) mod M = (1 :: u32) \<longleftrightarrow> unat s mod unat M = 1"
  by (simp add: word_unat_eq_iff unat_count)

lemma bit_top_double:
  "bit ((b :: u8) * 2) 7 = bit b 6" "bit ((v :: u16) * 2) 15 = bit v 14" "bit ((w :: u32) * 2) 31 = bit w 30"
  using bit_push_bit_iff [of 1 b 7] bit_push_bit_iff [of 1 v 15] bit_push_bit_iff [of 1 w 31] by simp_all

lemma shl_byte_ok:
  assumes "unat s < 8"
  shows "shift_ok (push_bit (unat s) d) (unat s) (bit d (8 - unat s)) (bit d 6 \<noteq> bit d 7) m (shl_byte d s m)"
proof (cases "unat s = 0")
  case True
  then show ?thesis by (simp add: shl_byte_def shift_ok_def count_lt alu_simps count_one ucast_up_down)
next
  case False
  then have lt: "s < 8" "unat s mod 8 = unat s" using assms by (simp_all add: count_lt)
  note P = shl_parts(1,3) [where N = 8 and d = d and s = s] and Q = shl_parts(2) [where N = 8 and d = d and s = s and i = 7]
  show ?thesis using False assms lt P Q
    by (simp add: shl_byte_def shift_ok_def count_lt alu_simps count_one sint_neg_masks top_mask_eq bit_top_double) blast?
qed

lemma shl_word_ok:
  assumes "unat s < 16"
  shows "shift_ok (push_bit (unat s) d) (unat s) (bit d (16 - unat s)) (bit d 14 \<noteq> bit d 15) m (shl_word d s m)"
proof (cases "unat s = 0")
  case True
  then show ?thesis by (simp add: shl_word_def shift_ok_def count_lt alu_simps count_one ucast_up_down)
next
  case False
  then have lt: "s < 16" "unat s mod 16 = unat s" using assms by (simp_all add: count_lt)
  note P = shl_parts(1,3) [where N = 16 and d = d and s = s] and Q = shl_parts(2) [where N = 16 and d = d and s = s and i = 15]
  show ?thesis using False assms lt P Q
    by (simp add: shl_word_def shift_ok_def count_lt alu_simps count_one sint_neg_masks top_mask_eq bit_top_double ucast_u16_u8) blast?
qed

lemma shl_long_ok:
  assumes "unat s < 32"
  shows "shift_ok (push_bit (unat s) d) (unat s) (bit d (32 - unat s)) (bit d 30 \<noteq> bit d 31) m (shl_long d s m)"
proof (cases "unat s = 0")
  case True
  then show ?thesis by (simp add: shl_long_def shift_ok_def count_lt alu_simps count_one ucast_up_down)
next
  case False
  then have lt: "s < 32" "unat s mod 32 = unat s" using assms by (simp_all add: count_lt)
  note P = shl_parts(1,3) [where N = 32 and d = d and s = s] and Q = shl_parts(2) [where N = 32 and d = d and s = s and i = 31]
  show ?thesis using False assms lt P Q
    by (simp add: shl_long_def shift_ok_def count_lt alu_simps count_one sint_neg_masks top_mask_eq bit_top_double) blast?
qed

lemma bit_top_half:
  "bit (drop_bit (Suc 0) (b :: u8)) 7 = False" "bit (drop_bit (Suc 0) b) 6 = bit b 7"
  "bit (drop_bit (Suc 0) (v :: u16)) 15 = False" "bit (drop_bit (Suc 0) v) 14 = bit v 15"
  "bit (drop_bit (Suc 0) (w :: u32)) 31 = False" "bit (drop_bit (Suc 0) w) 30 = bit w 31"
  by (auto simp: bit_drop_bit_eq dest: bit_imp_le_length)

lemma bit_u32_32 [simp]: "\<not> bit (w :: u32) 32"
  by (auto dest: bit_imp_le_length)

lemma XOR2_drop: "XOR2 (drop_bit k x) \<longleftrightarrow> bit x k \<noteq> bit x (Suc k)" for x :: u32
proof -
  have "w AND 1 \<noteq> 0 \<longleftrightarrow> bit w 0" for w :: u32 using and_exp_if [of w 0] by simp
  then show ?thesis unfolding XOR2_def by (simp only: bit_xor_iff bit_drop_bit_eq drop_bit_drop_bit) simp
qed

lemma shr_byte_ok:
  assumes "unat s < 8"
  shows "shift_ok (drop_bit (unat s) d) (unat s) (bit d (unat s - 1)) (bit d 7) m (shr_byte d s m)"
proof (cases "unat s = 0")
  case True
  then show ?thesis by (simp add: shr_byte_def shift_ok_def count_lt alu_simps count_one ucast_up_down)
next
  case False
  then have lt: "s < 8" "unat s mod 8 = unat s" using assms by (simp_all add: count_lt)
  note P = shl_parts(4,6) [where N = 8 and d = d and s = s]
    and Q = shl_parts(5) [where N = 8 and d = d and s = s and i = 7] shl_parts(5) [where N = 8 and d = d and s = s and i = 6]
  show ?thesis using False assms lt P Q
    by (simp add: shr_byte_def shift_ok_def count_lt alu_simps count_one sint_neg_masks bit_top_half XOR2_drop)
qed

lemma shr_word_ok:
  assumes "unat s < 16"
  shows "shift_ok (drop_bit (unat s) d) (unat s) (bit d (unat s - 1)) (bit d 15) m (shr_word d s m)"
proof (cases "unat s = 0")
  case True
  then show ?thesis by (simp add: shr_word_def shift_ok_def count_lt alu_simps count_one ucast_up_down)
next
  case False
  then have lt: "s < 16" "unat s mod 16 = unat s" using assms by (simp_all add: count_lt)
  note P = shl_parts(4,6) [where N = 16 and d = d and s = s]
    and Q = shl_parts(5) [where N = 16 and d = d and s = s and i = 15] shl_parts(5) [where N = 16 and d = d and s = s and i = 14]
  show ?thesis using False assms lt P Q
    by (simp add: shr_word_def shift_ok_def count_lt alu_simps count_one sint_neg_masks bit_top_half XOR2_drop ucast_u16_u8)
qed

lemma shr_long_ok:
  assumes "unat s < 32"
  shows "shift_ok (drop_bit (unat s) d) (unat s) (bit d (unat s - 1)) (bit d 31) m (shr_long d s m)"
proof (cases "unat s = 0")
  case True
  then show ?thesis by (simp add: shr_long_def shift_ok_def count_lt alu_simps count_one ucast_up_down)
next
  case False
  then have lt: "s < 32" "unat s mod 32 = unat s" using assms by (simp_all add: count_lt)
  note P = shl_parts(4,6) [where N = 32 and d = d and s = s]
    and Q = shl_parts(5) [where N = 32 and d = d and s = s and i = 31] shl_parts(5) [where N = 32 and d = d and s = s and i = 30]
  show ?thesis using False assms lt P Q
    by (simp add: shr_long_def shift_ok_def count_lt alu_simps count_one sint_neg_masks bit_top_half XOR2_drop)
qed

text \<open>The arithmetic shift right copies the sign bit into the vacated places and leaves the overflow flag
  alone.  The count is taken modulo the width of the operand.\<close>

definition sar_ok :: "'a::len word \<Rightarrow> u8 \<Rightarrow> x86 \<Rightarrow> 'a word \<times> x86 \<Rightarrow> bool" where
  "sar_ok d s m rm \<longleftrightarrow> (let k = unat s mod LENGTH('a) in case rm of (r, m') \<Rightarrow> r = signed_drop_bit k d \<and>
     (if k = 0 then m' = m
      else ACCESS_FLAG F_CF m' = bit d (k - 1) \<and> result_flags r m' \<and> keeps_flags {0, 2, 6, 7} m m'))"

lemma sar_parts:
  fixes d :: "'a::len word" and s :: u8
  assumes N: "unat (N :: u32) = LENGTH('a)" "LENGTH('a) \<le> 32" and k: "0 < unat s mod LENGTH('a)"
  defines "cnt \<equiv> ucast s mod N"
  defines "msk \<equiv> c_shl 1 (N - cnt) - 1"
  defines "res \<equiv> (let r = c_shr (ucast d) cnt AND msk in if bit d (LENGTH('a) - 1) then r OR NOT msk else r)"
  shows "ucast res = signed_drop_bit (unat s mod LENGTH('a)) d"
    "i < LENGTH('a) \<Longrightarrow> bit res i = bit (signed_drop_bit (unat s mod LENGTH('a)) d) i"
    "ucast d AND c_shl 1 (cnt - 1) \<noteq> 0 \<longleftrightarrow> bit d (unat s mod LENGTH('a) - 1)"
proof -
  let ?k = "unat s mod LENGTH('a)"
  have cnt: "unat cnt = ?k" unfolding cnt_def by (simp add: unat_count N(1))
  have kl: "?k < LENGTH('a)" by simp
  then have k32: "?k < 32" "?k - 1 < 32" using N(2) by linarith+
  have n1: "unat (N - cnt) = LENGTH('a) - ?k" "unat (cnt - 1) = ?k - 1"
    using cnt k kl N by (simp_all add: unat_sub_le word_le_nat_alt)
  have mk: "msk = mask (LENGTH('a) - ?k)"
    unfolding msk_def using n1(1) k kl N(2) by (simp add: c_shl_def mask_eq_exp_minus_1)
  have c1: "c_shr x cnt = drop_bit ?k x" "c_shl x (cnt - 1) = push_bit (?k - 1) x" for x
    using cnt n1(2) k32 by (simp_all add: c_shl_def c_shr_def)
  show b: "bit res i = bit (signed_drop_bit ?k d) i" if "i < LENGTH('a)" for i
    unfolding res_def Let_def mk c1 using that kl N(2)
    by (auto simp: bit_simps bit_ucast_up add.commute dest: bit_imp_le_length)
  show "ucast res = signed_drop_bit ?k d"
    using N(2) b by (intro bit_word_eqI) (simp add: bit_simps)
  show "ucast d AND c_shl 1 (cnt - 1) \<noteq> 0 \<longleftrightarrow> bit d (?k - 1)"
    unfolding c1 using kl N(2)
    by (simp add: push_bit_of_1 and_exp_eq_0_iff_not_bit bit_ucast_up)
qed

lemma count_bound: "unat M \<noteq> 0 \<Longrightarrow> (ucast (s :: u8) mod M :: u32) < M"
  "unat M \<noteq> 0 \<Longrightarrow> \<not> M \<le> (ucast s mod M :: u32)"
  by (simp_all add: word_less_nat_alt word_le_nat_alt unat_count not_le)

lemma sar_byte_ok: "sar_ok d s m (sar_byte d s m)"
proof (cases "unat s mod 8 = 0")
  case True
  then show ?thesis by (simp add: sar_byte_def sar_ok_def count_lt count_bound ucast_up_down count_zero)
next
  case False
  note P = sar_parts(1,3) [where N = 8 and d = d and s = s] and Q = sar_parts(2) [where N = 8 and d = d and s = s and i = 7]
  show ?thesis using False P Q
    by (cases "bit d 7")
       (simp_all add: sar_byte_def sar_ok_def count_lt count_bound alu_simps sint_neg_masks bit_ucast_up)
qed

lemma sar_word_ok: "sar_ok d s m (sar_word d s m)"
proof (cases "unat s mod 16 = 0")
  case True
  then show ?thesis by (simp add: sar_word_def sar_ok_def count_lt count_bound ucast_up_down count_zero)
next
  case False
  note P = sar_parts(1,3) [where N = 16 and d = d and s = s] and Q = sar_parts(2) [where N = 16 and d = d and s = s and i = 15]
  show ?thesis using False P Q
    by (cases "bit d 15")
       (simp_all add: sar_word_def sar_ok_def count_lt count_bound alu_simps sint_neg_masks bit_ucast_up ucast_u16_u8)
qed

lemma sar_long_ok: "sar_ok d s m (sar_long d s m)"
proof (cases "unat s mod 32 = 0")
  case True
  then show ?thesis by (simp add: sar_long_def sar_ok_def count_lt count_bound ucast_up_down count_zero)
next
  case False
  note P = sar_parts(1,3) [where N = 32 and d = d and s = s] and Q = sar_parts(2) [where N = 32 and d = d and s = s and i = 31]
  show ?thesis using False P Q
    by (cases "bit d 31")
       (simp_all add: sar_long_def sar_ok_def count_lt count_bound alu_simps sint_neg_masks bit_ucast_up)
qed

text \<open>The double shifts by \<open>k\<close>, for \<open>0 < k\<close> below the width, fill the vacated places from the other
  operand.\<close>

lemma double_shift_parts:
  fixes d f :: "'a::len word" and s :: u8
  assumes N: "unat (N :: u32) = LENGTH('a)" "LENGTH('a) \<le> 32" and k: "0 < unat s" "unat s < LENGTH('a)"
  defines "cnt \<equiv> ucast s mod N"
  defines "l \<equiv> c_shl (ucast d) cnt OR c_shr (ucast f) (N - cnt)" and "r \<equiv> c_shr (ucast d) cnt OR c_shl (ucast f) (N - cnt)"
  shows "ucast l = push_bit (unat s) d OR drop_bit (LENGTH('a) - unat s) f"
    "i < LENGTH('a) \<Longrightarrow> bit l i = bit (push_bit (unat s) d OR drop_bit (LENGTH('a) - unat s) f) i"
    "ucast r = drop_bit (unat s) d OR push_bit (LENGTH('a) - unat s) f"
    "i < LENGTH('a) \<Longrightarrow> bit r i = bit (drop_bit (unat s) d OR push_bit (LENGTH('a) - unat s) f) i"
proof -
  have cnt: "unat cnt = unat s" unfolding cnt_def using k N(1) by (simp add: unat_count)
  have n1: "unat (N - cnt) = LENGTH('a) - unat s" using cnt k N by (simp add: unat_sub_le word_le_nat_alt)
  have s1: "c_shl x cnt = push_bit (unat s) x" "c_shr x cnt = drop_bit (unat s) x"
    "c_shl x (N - cnt) = push_bit (LENGTH('a) - unat s) x" "c_shr x (N - cnt) = drop_bit (LENGTH('a) - unat s) x" for x
    using cnt n1 k N(2) by (simp_all add: c_shl_def c_shr_def)
  show l: "bit l i = bit (push_bit (unat s) d OR drop_bit (LENGTH('a) - unat s) f) i"
    and r: "bit r i = bit (drop_bit (unat s) d OR push_bit (LENGTH('a) - unat s) f) i" if "i < LENGTH('a)" for i
    unfolding l_def r_def s1 using that N(2) by (auto simp: bit_simps bit_ucast_up dest: bit_imp_le_length)
  show "ucast l = push_bit (unat s) d OR drop_bit (LENGTH('a) - unat s) f"
    "ucast r = drop_bit (unat s) d OR push_bit (LENGTH('a) - unat s) f"
    using N(2) l r by (rule_tac [!] bit_word_eqI) (simp_all add: bit_simps)
qed

lemma shld_word_ok:
  assumes "0 < unat s" "unat s < 16"
  shows "shift_ok (push_bit (unat s) d OR drop_bit (16 - unat s) f) (unat s) (bit d (16 - unat s)) (bit d 14 \<noteq> bit d 15)
    m (shld_word d f s m)"
proof -
  have lt: "s < 16" "unat s mod 16 = unat s" using assms by (simp_all add: count_lt)
  note P = shl_parts(3) [where N = 16 and d = d and s = s] double_shift_parts(1) [where N = 16 and d = d and s = s and f = f]
    and Q = double_shift_parts(2) [where N = 16 and d = d and s = s and f = f and i = 15]
  show ?thesis using assms lt P Q
    by (simp add: shld_word_def shift_ok_def count_lt alu_simps count_one sint_neg_masks top_mask_eq bit_top_double ucast_u16_u8
        bit_or_iff bit_drop_bit_eq) (auto dest: bit_imp_le_length)
qed

lemma shrd_word_ok:
  assumes "0 < unat s" "unat s < 16"
  shows "shift_ok (drop_bit (unat s) d OR push_bit (16 - unat s) f) (unat s) (bit d (unat s - 1)) (bit d 15 \<noteq> bit f 0)
    m (shrd_word d f s m)"
proof -
  have lt: "s < 16" "unat s mod 16 = unat s" using assms by (simp_all add: count_lt)
  note P = shl_parts(6) [where N = 16 and d = d and s = s] double_shift_parts(3) [where N = 16 and d = d and s = s and f = f]
    and Q = double_shift_parts(4) [where N = 16 and d = d and s = s and f = f and i = 15]
      double_shift_parts(4) [where N = 16 and d = d and s = s and f = f and i = 14]
  show ?thesis using assms lt P Q
    by (simp add: shrd_word_def shift_ok_def count_lt alu_simps count_one sint_neg_masks bit_top_half XOR2_drop ucast_u16_u8
        bit_or_iff bit_push_bit_iff del: drop_bit_or)
qed

lemma shld_long_ok:
  assumes "0 < unat s" "unat s < 32"
  shows "shift_ok (push_bit (unat s) d OR drop_bit (32 - unat s) f) (unat s) (bit d (32 - unat s)) (bit d 30 \<noteq> bit d 31)
    m (shld_long d f s m)"
proof -
  have lt: "s < 32" "unat s mod 32 = unat s" using assms by (simp_all add: count_lt)
  note P = shl_parts(3) [where N = 32 and d = d and s = s] double_shift_parts(1) [where N = 32 and d = d and s = s and f = f]
    and Q = double_shift_parts(2) [where N = 32 and d = d and s = s and f = f and i = 31]
  show ?thesis using assms lt P Q
    by (simp add: shld_long_def shift_ok_def count_lt alu_simps count_one sint_neg_masks top_mask_eq bit_top_double
        bit_or_iff bit_drop_bit_eq) (auto dest: bit_imp_le_length)
qed

lemma shrd_long_ok:
  assumes "0 < unat s" "unat s < 32"
  shows "shift_ok (drop_bit (unat s) d OR push_bit (32 - unat s) f) (unat s) (bit d (unat s - 1)) (bit d 31 \<noteq> bit f 0)
    m (shrd_long d f s m)"
proof -
  have lt: "s < 32" "unat s mod 32 = unat s" using assms by (simp_all add: count_lt)
  note P = shl_parts(6) [where N = 32 and d = d and s = s] double_shift_parts(3) [where N = 32 and d = d and s = s and f = f]
    and Q = double_shift_parts(4) [where N = 32 and d = d and s = s and f = f and i = 31]
      double_shift_parts(4) [where N = 32 and d = d and s = s and f = f and i = 30]
  show ?thesis using assms lt P Q
    by (simp add: shrd_long_def shift_ok_def count_lt alu_simps count_one sint_neg_masks bit_top_half XOR2_drop
        bit_or_iff bit_push_bit_iff del: drop_bit_or)
qed

section \<open>Counts beyond the width\<close>

lemma parity_zero [simp]: "even_parity 0"
  by code_simp

lemma big_count:
  fixes s :: u8
  assumes "0 < unat s" "unat s \<le> 32"
  shows "c_shl x (ucast (s - 1)) = push_bit (unat s - 1) x" "c_shr x (ucast (s - 1)) = drop_bit (unat s - 1) x"
proof -
  have "unat (s - 1) = unat s - 1" using assms(1) by (simp add: unat_sub_le word_le_nat_alt)
  then have "unat (ucast (s - 1) :: u32) = unat s - 1" by (simp add: unat_ucast_up)
  then show "c_shl x (ucast (s - 1)) = push_bit (unat s - 1) x" "c_shr x (ucast (s - 1)) = drop_bit (unat s - 1) x"
    using assms(2) by (simp_all add: c_shl_def c_shr_def)
qed

lemma bit0_and: "(w :: u32) AND 1 \<noteq> 0 \<longleftrightarrow> bit w 0"
  using and_exp_if [of w 0] by simp

lemma shl_byte_big:
  assumes "8 \<le> unat s" "unat s \<le> 32"
  shows "shift_ok (0 :: u8) (unat s) (unat s = 8 \<and> bit d 0) False m (shl_byte d s m)"
proof -
  have *: "unat s = 0 \<longleftrightarrow> False" "7 - (unat s - Suc 0) = 8 - unat s" "unat s - Suc 0 \<le> 7 \<longleftrightarrow> unat s = 8" using assms by arith+
  show ?thesis using assms
    by (auto simp: shl_byte_def shift_ok_def count_lt alu_simps big_count sint_neg_masks top_mask_eq bit_push_bit_iff bit_ucast_up *)
qed

lemma shl_word_big:
  assumes "16 \<le> unat s" "unat s \<le> 32"
  shows "shift_ok (0 :: u16) (unat s) (unat s = 16 \<and> bit d 0) False m (shl_word d s m)"
proof -
  have *: "unat s = 0 \<longleftrightarrow> False" "15 - (unat s - Suc 0) = 16 - unat s" "unat s - Suc 0 \<le> 15 \<longleftrightarrow> unat s = 16" using assms by arith+
  show ?thesis using assms
    by (auto simp: shl_word_def shift_ok_def count_lt alu_simps big_count sint_neg_masks top_mask_eq bit_push_bit_iff bit_ucast_up *)
qed

lemma shr_byte_big:
  assumes "8 \<le> unat s" "unat s \<le> 32"
  shows "shift_ok (0 :: u8) (unat s) (unat s = 8 \<and> bit d 7) False m (shr_byte d s m)"
proof -
  have *: "unat s = 0 \<longleftrightarrow> False" using assms by arith
  have b: "bit d (unat s - Suc 0) \<longleftrightarrow> unat s = 8 \<and> bit d 7"
    using assms by (cases "unat s = 8") (auto dest: bit_imp_le_length)
  show ?thesis using assms
    by (simp add: shr_byte_def shift_ok_def count_lt alu_simps big_count bit0_and bit_drop_bit_eq bit_ucast_up b *)
qed

section \<open>Properties\<close>

lemma shift_ok_fst: "shift_ok r k c v m rm \<Longrightarrow> fst rm = r"
  by (simp add: shift_ok_def split: prod.splits)

lemma rcl_rcr_inverse:
  assumes l: "rcl_ok d s m (r, m')" and r: "rcr_ok r s m' (r', m'')"
  shows "r' = (d :: 'a::len word) \<and> ACCESS_FLAG F_CF m'' = ACCESS_FLAG F_CF m"
proof -
  let ?L = "Suc LENGTH('a)"
  let ?k = "unat s mod ?L"
  have e: "cbit r' (ACCESS_FLAG F_CF m'') i = cbit d (ACCESS_FLAG F_CF m) i" if "i \<le> LENGTH('a)" for i
  proof -
    have "(i + ?k) mod ?L \<le> LENGTH('a)" by (simp add: less_Suc_eq_le [symmetric])
    moreover have "((i + ?k) mod ?L + (?L - ?k)) mod ?L = i"
    proof -
      have "((i + ?k) mod ?L + (?L - ?k)) mod ?L = (i + ?k + (?L - ?k)) mod ?L" by (rule mod_add_left_eq)
      also have "i + ?k + (?L - ?k) = i + ?L" using mod_less_divisor [of ?L "unat s"] by linarith
      finally have "((i + ?k) mod ?L + (?L - ?k)) mod ?L = (i + ?L) mod ?L" .
      also have "(i + ?L) mod ?L = i" using that by (simp only: mod_add_self2) simp
      finally show ?thesis .
    qed
    ultimately show ?thesis using l r that by (simp add: rcl_ok_def rcr_ok_def Let_def)
  qed
  have "bit r' i = bit d i" if "i < LENGTH('a)" for i using e [of i] that by (simp add: cbit_def)
  then show ?thesis using e [of "LENGTH('a)"] by (auto simp: cbit_def intro: bit_word_eqI)
qed

lemma rcl_rcr_let:
  assumes "rcl_ok d s m (f d s m)" "\<And>r m'. rcr_ok r s m' (g r s m')"
  shows "let (r, m') = f d s m; (r', m'') = g r s m' in r' = (d :: 'a::len word) \<and> ACCESS_FLAG F_CF m'' = ACCESS_FLAG F_CF m"
proof (cases "f d s m")
  case (Pair r m')
  then show ?thesis using rcl_rcr_inverse [of d s m r m' "fst (g r s m')" "snd (g r s m')"] assms by (simp add: case_prod_beta)
qed

lemma rot_inverse: "rotl_ok d s m rm \<Longrightarrow> rotr_ok (fst rm) s m' rm' \<Longrightarrow> fst rm' = d"
  by (auto simp: rotl_ok_def rotr_ok_def split: prod.splits)

text \<open>Rotates: \<open>ROL\<close> and \<open>ROR\<close> at every width are the rotation by the count, carry receives the bit that
  was rotated around, overflow is defined for a count of one and no other flag or register changes; rotating
  left and then right by the same count returns the operand.\<close>

theorem x86_rotates_correct:
  "rotl_ok d8 s m (rol_byte d8 s m) \<and> rotl_ok d16 s m (rol_word d16 s m) \<and> rotl_ok d32 s m (rol_long d32 s m) \<and>
   rotr_ok d8 s m (ror_byte d8 s m) \<and> rotr_ok d16 s m (ror_word d16 s m) \<and> rotr_ok d32 s m (ror_long d32 s m) \<and>
   fst (ror_byte (fst (rol_byte d8 s m)) s m') = d8 \<and> fst (ror_word (fst (rol_word d16 s m)) s m') = d16 \<and>
   fst (ror_long (fst (rol_long d32 s m)) s m') = d32"
  by (intro conjI rol_byte_ok rol_word_ok rol_long_ok ror_byte_ok ror_word_ok ror_long_ok
      rot_inverse [OF rol_byte_ok ror_byte_ok] rot_inverse [OF rol_word_ok ror_word_ok]
      rot_inverse [OF rol_long_ok ror_long_ok])

text \<open>Rotates through carry: \<open>RCL\<close> and \<open>RCR\<close> rotate the operand extended by the carry flag, at every
  width and count (for the 32-bit \<open>RCL\<close>, every count but 32), and \<open>RCR\<close> undoes \<open>RCL\<close>, carry included.\<close>

theorem x86_rotate_through_carry_correct:
  assumes "unat s mod 33 \<noteq> 32"
  shows "rcl_ok d8 s m (rcl_byte d8 s m) \<and> rcl_ok d16 s m (rcl_word d16 s m) \<and> rcl_ok d32 s m (rcl_long d32 s m) \<and>
    rcr_ok d8 s m (rcr_byte d8 s m) \<and> rcr_ok d16 s m (rcr_word d16 s m) \<and> rcr_ok d32 s m (rcr_long d32 s m) \<and>
    (let (r, m') = rcl_byte d8 s m; (r', m'') = rcr_byte r s m' in r' = d8 \<and> ACCESS_FLAG F_CF m'' = ACCESS_FLAG F_CF m) \<and>
    (let (r, m') = rcl_word d16 s m; (r', m'') = rcr_word r s m' in r' = d16 \<and> ACCESS_FLAG F_CF m'' = ACCESS_FLAG F_CF m) \<and>
    (let (r, m') = rcl_long d32 s m; (r', m'') = rcr_long r s m' in r' = d32 \<and> ACCESS_FLAG F_CF m'' = ACCESS_FLAG F_CF m)"
proof -
  note L = rcl_byte_ok [of d8 s m] rcl_word_ok [of d16 s m] rcl_long_ok [OF assms, of d32 m]
  show ?thesis
    by (intro conjI L rcr_byte_ok rcr_word_ok rcr_long_ok 
        rcl_rcr_let [where f = rcl_byte and g = rcr_byte] rcl_rcr_let [where f = rcl_word and g = rcr_word]
        rcl_rcr_let [where f = rcl_long and g = rcr_long])
qed

theorem x86_rotate_through_carry_correct_witness:
  "rcl_ok (0x80000001 :: u32) 1 x86_zero (rcl_long 0x80000001 1 x86_zero) \<and>
   fst (rcl_long 0x80000001 1 x86_zero) = 2"
proof -
  have "unat (1 :: u8) mod 33 \<noteq> 32" by simp
  from x86_rotate_through_carry_correct [OF this, of 0 x86_zero 0 "0x80000001"]
  have "rcl_ok (0x80000001 :: u32) 1 x86_zero (rcl_long 0x80000001 1 x86_zero)" by blast
  moreover have "fst (rcl_long 0x80000001 1 x86_zero) = 2" by code_simp
  ultimately show ?thesis ..
qed

text \<open>Shifts: \<open>SHL\<close> and \<open>SHR\<close> by any count below the width, and at 8 bit also by counts up to 32, return
  the shifted operand, carry holds the last bit shifted out, overflow is that of a shift by one, and zero,
  sign and parity describe the result; \<open>SAR\<close> is the arithmetic shift by the count modulo the width.\<close>

theorem x86_shifts_correct:
  assumes "unat s8 < 8" "unat s16 < 16" "unat s32 < 32" "8 \<le> unat sb" "unat sb \<le> 32"
  shows "shift_ok (push_bit (unat s8) d8) (unat s8) (bit d8 (8 - unat s8)) (bit d8 6 \<noteq> bit d8 7) m (shl_byte d8 s8 m) \<and>
    shift_ok (push_bit (unat s16) d16) (unat s16) (bit d16 (16 - unat s16)) (bit d16 14 \<noteq> bit d16 15) m (shl_word d16 s16 m) \<and>
    shift_ok (push_bit (unat s32) d32) (unat s32) (bit d32 (32 - unat s32)) (bit d32 30 \<noteq> bit d32 31) m (shl_long d32 s32 m) \<and>
    shift_ok (drop_bit (unat s8) d8) (unat s8) (bit d8 (unat s8 - 1)) (bit d8 7) m (shr_byte d8 s8 m) \<and>
    shift_ok (drop_bit (unat s16) d16) (unat s16) (bit d16 (unat s16 - 1)) (bit d16 15) m (shr_word d16 s16 m) \<and>
    shift_ok (drop_bit (unat s32) d32) (unat s32) (bit d32 (unat s32 - 1)) (bit d32 31) m (shr_long d32 s32 m) \<and>
    shift_ok 0 (unat sb) (unat sb = 8 \<and> bit d8 0) False m (shl_byte d8 sb m) \<and>
    shift_ok 0 (unat sb) (unat sb = 8 \<and> bit d8 7) False m (shr_byte d8 sb m) \<and>
    sar_ok d8 sa m (sar_byte d8 sa m) \<and> sar_ok d16 sa m (sar_word d16 sa m) \<and> sar_ok d32 sa m (sar_long d32 sa m)"
  using assms by (intro conjI shl_byte_ok shl_word_ok shl_long_ok shr_byte_ok shr_word_ok shr_long_ok
      shl_byte_big shr_byte_big sar_byte_ok sar_word_ok sar_long_ok)

theorem x86_shifts_correct_witness:
  "shift_ok (0xA0 :: u8) 4 True True x86_zero (shl_byte 0x9A 4 x86_zero)"
proof -
  have "unat (4 :: u8) < 8" "unat (5 :: u8) < 16" "unat (6 :: u8) < 32" "8 \<le> unat (8 :: u8)" "unat (8 :: u8) \<le> 32" by simp_all
  from x86_shifts_correct [OF this, of "0x9A" x86_zero]
  have "shift_ok (push_bit (unat (4 :: u8)) (0x9A :: u8)) (unat (4 :: u8)) (bit (0x9A :: u8) (8 - unat (4 :: u8)))
    (bit (0x9A :: u8) 6 \<noteq> bit (0x9A :: u8) 7) x86_zero (shl_byte 0x9A 4 x86_zero)" by blast
  moreover have "push_bit (unat (4 :: u8)) (0x9A :: u8) = 0xA0" "bit (0x9A :: u8) (8 - unat (4 :: u8)) = True"
    "(bit (0x9A :: u8) 6 \<noteq> bit (0x9A :: u8) 7) = True" "unat (4 :: u8) = 4" by code_simp+
  ultimately show ?thesis by (simp only:)
qed

text \<open>Double shifts: for a count strictly between zero and the width, \<open>SHLD\<close> and \<open>SHRD\<close> fill the vacated
  places from the second operand and set the flags as the single shifts do.\<close>

theorem x86_double_shifts_correct:
  assumes "0 < unat s" "unat s < 16" "0 < unat t" "unat t < 32"
  shows "shift_ok (push_bit (unat s) d OR drop_bit (16 - unat s) f) (unat s) (bit d (16 - unat s)) (bit d 14 \<noteq> bit d 15)
      m (shld_word d f s m) \<and>
    shift_ok (push_bit (unat t) d' OR drop_bit (32 - unat t) f') (unat t) (bit d' (32 - unat t)) (bit d' 30 \<noteq> bit d' 31)
      m (shld_long d' f' t m) \<and>
    shift_ok (drop_bit (unat s) d OR push_bit (16 - unat s) f) (unat s) (bit d (unat s - 1)) (bit d 15 \<noteq> bit f 0)
      m (shrd_word d f s m) \<and>
    shift_ok (drop_bit (unat t) d' OR push_bit (32 - unat t) f') (unat t) (bit d' (unat t - 1)) (bit d' 31 \<noteq> bit f' 0)
      m (shrd_long d' f' t m)"
  using assms by (intro conjI shld_word_ok shld_long_ok shrd_word_ok shrd_long_ok)

theorem x86_double_shifts_correct_witness:
  "fst (shld_word 0x1234 0xABCD 4 x86_zero) = 0x234A \<and> fst (shrd_word 0x1234 0xABCD 4 x86_zero) = 0xD123"
proof -
  have "0 < unat (4 :: u8)" "unat (4 :: u8) < 16" "0 < unat (4 :: u8)" "unat (4 :: u8) < 32" by simp_all
  from x86_double_shifts_correct [OF this, of "0x1234" "0xABCD" x86_zero]
  have "fst (shld_word 0x1234 0xABCD 4 x86_zero) = push_bit (unat (4 :: u8)) 0x1234 OR drop_bit (16 - unat (4 :: u8)) 0xABCD"
    "fst (shrd_word 0x1234 0xABCD 4 x86_zero) = drop_bit (unat (4 :: u8)) 0x1234 OR push_bit (16 - unat (4 :: u8)) 0xABCD"
    by (blast dest: shift_ok_fst)+
  moreover have "push_bit (unat (4 :: u8)) 0x1234 OR drop_bit (16 - unat (4 :: u8)) (0xABCD :: u16) = 0x234A"
    "drop_bit (unat (4 :: u8)) 0x1234 OR push_bit (16 - unat (4 :: u8)) (0xABCD :: u16) = 0xD123" by code_simp+
  ultimately show ?thesis by (simp only:)
qed

text \<open>Where the shifts deviate from the instructions they implement: \<open>shr_word\<close> and \<open>shr_long\<close> by the
  width or more return zero with the parity flag clear (zero has even parity, and \<open>shr_byte\<close> sets it);
  \<open>sar_byte\<close> and \<open>sar_word\<close> by the operand width return the operand unchanged instead of its sign, their
  branch for larger counts being unreachable; a 32-bit \<open>RCL\<close> by 32 does not rotate.\<close>

theorem x86_shift_deviations:
  "fst (shr_word d 16 m) = 0 \<and> \<not> ACCESS_FLAG F_PF (snd (shr_word d 16 m)) \<and>
   fst (shr_long d' 32 m) = 0 \<and> \<not> ACCESS_FLAG F_PF (snd (shr_long d' 32 m)) \<and>
   fst (shr_byte b 8 m) = 0 \<and> ACCESS_FLAG F_PF (snd (shr_byte b 8 m)) \<and>
   sar_byte b 8 m = (b, m) \<and> sar_word d 16 m = (d, m) \<and>
   \<not> rcl_ok (1 :: u32) 32 x86_zero (rcl_long 1 32 x86_zero)"
proof -
  have "cbit (fst (rcl_long 1 32 x86_zero)) (ACCESS_FLAG F_CF (snd (rcl_long 1 32 x86_zero))) 0 = True" by code_simp
  moreover have "unat (32 :: u8) mod 33 = 32" "ACCESS_FLAG F_CF x86_zero = False" by code_simp+
  ultimately have "\<not> rcl_ok (1 :: u32) 32 x86_zero (rcl_long 1 32 x86_zero)"
    by (auto simp: rcl_ok_def Let_def cbit_def split: prod.splits intro!: exI [of _ 0])
  moreover have "ACCESS_FLAG F_PF (snd (shr_byte b 8 m))"
    using shr_byte_big [of 8 b m] by (auto simp: shift_ok_def result_flags_def split: prod.splits)
  ultimately show ?thesis
    by (simp add: shr_word_def shr_long_def shr_byte_def sar_byte_def sar_word_def alu_simps ucast_up_down)
qed

end
