(* ===== verification/X86MulDiv.thy ===== *)
theory X86MulDiv
  imports X86Shift "HOL-Library.Signed_Division"
begin

text \<open>
  Multiplication and division of the emulator (\<open>prim_ops.c\<close>), one definition per C function.  The macro
  \<open>__HAS_LONG_LONG__\<close> is never defined, so the 64-bit operations are the ones built from 32-bit words.
  A host division that traps (the quotient of the most negative number by minus one) is \<open>None\<close>.
\<close>

definition INTR_SYNCH :: u32 where "INTR_SYNCH = 0x1"
definition INTR_HALTED :: u32 where "INTR_HALTED = 0x4"

definition x86emu_intr_raise :: "u8 \<Rightarrow> x86 \<Rightarrow> x86" where
  "x86emu_intr_raise intrnum m = m\<lparr>intno := intrnum, intr := intr m OR INTR_SYNCH\<rparr>"

text \<open>\<open>abs\<close> on a C \<open>int\<close>; the most negative number is its own absolute value.\<close>

definition c_abs :: "u32 \<Rightarrow> u32" where
  "c_abs val = (if sint val < 0 then - val else val)"

section \<open>Multiplication\<close>

definition set_CF_OF :: "bool \<Rightarrow> x86 \<Rightarrow> x86" where
  "set_CF_OF c m = (if c then SET_FLAG F_OF (SET_FLAG F_CF m) else CLEAR_FLAG F_OF (CLEAR_FLAG F_CF m))"

definition imul_byte :: "u8 \<Rightarrow> x86 \<Rightarrow> x86" where
  "imul_byte s m =
     (let res = ucast (scast (R_AL m) * scast s :: u32) :: u16;
          m = m\<lparr>gA := put_lo16 res (gA m)\<rparr>
      in set_CF_OF (\<not> ((R_AL m AND 0x80 = 0 \<and> R_AH m = 0x00) \<or> (R_AL m AND 0x80 \<noteq> 0 \<and> R_AH m = 0xFF))) m)"

definition imul_word :: "u16 \<Rightarrow> x86 \<Rightarrow> x86" where
  "imul_word s m =
     (let res = scast (R_AX m) * scast s :: u32;
          m = m\<lparr>gA := put_lo16 (ucast res) (gA m)\<rparr>;
          m = m\<lparr>gD := put_lo16 (ucast (signed_drop_bit 16 res)) (gD m)\<rparr>
      in set_CF_OF (\<not> ((R_AX m AND 0x8000 = 0 \<and> R_DX m = 0x00) \<or> (R_AX m AND 0x8000 \<noteq> 0 \<and> R_DX m = 0xFF))) m)"

definition imul_long_direct :: "u32 \<Rightarrow> u32 \<Rightarrow> u32 \<times> u32" where
  "imul_long_direct d s =
     (let d_sign = d AND 0x80000000;
          d = (if d_sign \<noteq> 0 then - d else d);
          d_lo = d AND 0xFFFF;
          d_hi = drop_bit 16 d;
          s_sign = s AND 0x80000000;
          s = (if s_sign \<noteq> 0 then - s else s);
          s_lo = s AND 0xFFFF;
          s_hi = drop_bit 16 s;
          rlo_lo = d_lo * s_lo;
          rlo_hi = (d_hi * s_lo + d_lo * s_hi) + drop_bit 16 rlo_lo;
          rhi_lo = d_hi * s_hi + drop_bit 16 rlo_hi;
          res_lo = push_bit 16 rlo_hi OR (rlo_lo AND 0xFFFF);
          res_hi = rhi_lo
      in if d_sign \<noteq> s_sign then
           let d = NOT res_lo;
               s = drop_bit 16 ((d AND 0xFFFF) + 1) + drop_bit 16 d
           in (NOT res_lo + 1, NOT res_hi + drop_bit 16 s)
         else (res_lo, res_hi))"

definition imul_long :: "u32 \<Rightarrow> x86 \<Rightarrow> x86" where
  "imul_long s m =
     (let (lo, hi) = imul_long_direct (R_EAX m) s;
          m = m\<lparr>gA := lo, gD := hi\<rparr>
      in set_CF_OF (\<not> ((R_EAX m AND 0x80000000 = 0 \<and> R_EDX m = 0x00) \<or>
                        (R_EAX m AND 0x80000000 \<noteq> 0 \<and> R_EDX m = 0xFF))) m)"

definition mul_byte :: "u8 \<Rightarrow> x86 \<Rightarrow> x86" where
  "mul_byte s m =
     (let res = ucast (ucast (R_AL m) * ucast s :: u32) :: u16;
          m = m\<lparr>gA := put_lo16 res (gA m)\<rparr>
      in set_CF_OF (R_AH m \<noteq> 0) m)"

definition mul_word :: "u16 \<Rightarrow> x86 \<Rightarrow> x86" where
  "mul_word s m =
     (let res = ucast (R_AX m) * ucast s :: u32;
          m = m\<lparr>gA := put_lo16 (ucast res) (gA m)\<rparr>;
          m = m\<lparr>gD := put_lo16 (ucast (drop_bit 16 res)) (gD m)\<rparr>
      in set_CF_OF (R_DX m \<noteq> 0) m)"

definition mul_long :: "u32 \<Rightarrow> x86 \<Rightarrow> x86" where
  "mul_long s m =
     (let a = R_EAX m;
          a_lo = a AND 0xFFFF;
          a_hi = drop_bit 16 a;
          s_lo = s AND 0xFFFF;
          s_hi = drop_bit 16 s;
          rlo_lo = a_lo * s_lo;
          rlo_hi = (a_hi * s_lo + a_lo * s_hi) + drop_bit 16 rlo_lo;
          rhi_lo = a_hi * s_hi + drop_bit 16 rlo_hi;
          m = m\<lparr>gA := push_bit 16 rlo_hi OR (rlo_lo AND 0xFFFF)\<rparr>;
          m = m\<lparr>gD := rhi_lo\<rparr>
      in set_CF_OF (R_EDX m \<noteq> 0) m)"

section \<open>Division\<close>

definition idiv_byte :: "u8 \<Rightarrow> x86 \<Rightarrow> x86" where
  "idiv_byte s m =
     (let dvdnd = sint (R_AX m) in
      if s = 0 then x86emu_intr_raise 0 m
      else
        let dv = word_of_int (dvdnd sdiv sint s) :: u32;
            md = word_of_int (dvdnd smod sint s) :: u32
        in if sint (c_abs dv) > 0x7f then x86emu_intr_raise 0 m
           else
             let m = m\<lparr>gA := put_lo8 (ucast dv) (gA m)\<rparr>
             in m\<lparr>gA := put_hi8 (ucast md) (gA m)\<rparr>)"

definition idiv_word :: "u16 \<Rightarrow> x86 \<Rightarrow> x86 option" where
  "idiv_word s m =
     (let dvdnd = sint (push_bit 16 (ucast (R_DX m)) OR ucast (R_AX m) :: u32) in
      if s = 0 then Some (x86emu_intr_raise 0 m)
      else if dvdnd = - (2 ^ 31) \<and> sint s = - 1 then None
      else
        let dv = word_of_int (dvdnd sdiv sint s) :: u32;
            md = word_of_int (dvdnd smod sint s) :: u32
        in if sint (c_abs dv) > 0x7fff then Some (x86emu_intr_raise 0 m)
           else
             let m = CLEAR_FLAG F_CF m;
                 m = CLEAR_FLAG F_SF m;
                 m = CONDITIONAL_SET_FLAG (dv = 0) F_ZF m;
                 m = CONDITIONAL_SET_FLAG (PARITY (md AND 0xff)) F_PF m;
                 m = m\<lparr>gA := put_lo16 (ucast dv) (gA m)\<rparr>
             in Some (m\<lparr>gD := put_lo16 (ucast md) (gD m)\<rparr>))"

text \<open>One pass of the loop of \<open>idiv_long\<close> and of \<open>div_long\<close>; they differ in how the dividend is compared.\<close>

function idiv_long_loop :: "int \<Rightarrow> u32 \<Rightarrow> u32 \<Rightarrow> u32 \<Rightarrow> u32 \<Rightarrow> u32 \<Rightarrow> u32 \<Rightarrow> u32 \<times> u32 \<times> u32" where
  "idiv_long_loop counter abs_s h_s l_s h l dv =
     (let dv = push_bit 1 dv;
          carry = (if l \<ge> l_s then 0 else 1);
          (h, l, dv) =
            (if h < h_s + carry then (h, l, dv)
             else (h - (h_s + carry), if carry \<noteq> 0 then (0xFFFFFFFF - l_s) + l + 1 else l - l_s, dv OR 1));
          h_s = drop_bit 1 h_s;
          counter = counter - 1;
          l_s = c_shl abs_s (word_of_int counter)
      in if counter > -1 then idiv_long_loop counter abs_s h_s l_s h l dv else (h, l, dv))"
  by pat_completeness auto
termination
  by (relation "measure (\<lambda>(counter, _). nat counter)") auto

definition idiv_long :: "u32 \<Rightarrow> x86 \<Rightarrow> x86" where
  "idiv_long s m =
     (let h_dvd = R_EDX m;
          l_dvd = R_EAX m;
          abs_s = s AND 0x7FFFFFFF;
          abs_h_dvd = h_dvd AND 0x7FFFFFFF;
          h_s = drop_bit 1 abs_s;
          l_s = push_bit 31 abs_s
      in if s = 0 then x86emu_intr_raise 0 m
         else
           let (abs_h_dvd, l_dvd, dv) = idiv_long_loop 31 abs_s h_s l_s abs_h_dvd l_dvd 0
           in if abs_h_dvd \<noteq> 0 \<or> l_dvd > abs_s then x86emu_intr_raise 0 m
              else
                let dv = dv OR ((h_dvd AND 0x10000000) XOR (s AND 0x10000000));
                    md = l_dvd;
                    m = CLEAR_FLAG F_CF m;
                    m = CLEAR_FLAG F_AF m;
                    m = CLEAR_FLAG F_SF m;
                    m = SET_FLAG F_ZF m;
                    m = CONDITIONAL_SET_FLAG (PARITY (md AND 0xff)) F_PF m
                in m\<lparr>gA := dv, gD := md\<rparr>)"

definition div_byte :: "u8 \<Rightarrow> x86 \<Rightarrow> x86" where
  "div_byte s m =
     (let dvdnd = ucast (R_AX m) :: u32 in
      if s = 0 then x86emu_intr_raise 0 m
      else
        let dv = dvdnd div ucast s;
            md = dvdnd mod ucast s
        in if sint (c_abs dv) > 0xff then x86emu_intr_raise 0 m
           else
             let m = m\<lparr>gA := put_lo8 (ucast dv) (gA m)\<rparr>
             in m\<lparr>gA := put_hi8 (ucast md) (gA m)\<rparr>)"

definition div_word :: "u16 \<Rightarrow> x86 \<Rightarrow> x86" where
  "div_word s m =
     (let dvdnd = push_bit 16 (ucast (R_DX m)) OR ucast (R_AX m) :: u32 in
      if s = 0 then x86emu_intr_raise 0 m
      else
        let dv = dvdnd div ucast s;
            md = dvdnd mod ucast s
        in if sint (c_abs dv) > 0xffff then x86emu_intr_raise 0 m
           else
             let m = CLEAR_FLAG F_CF m;
                 m = CLEAR_FLAG F_SF m;
                 m = CONDITIONAL_SET_FLAG (dv = 0) F_ZF m;
                 m = CONDITIONAL_SET_FLAG (PARITY (md AND 0xff)) F_PF m;
                 m = m\<lparr>gA := put_lo16 (ucast dv) (gA m)\<rparr>
             in m\<lparr>gD := put_lo16 (ucast md) (gD m)\<rparr>)"

function div_long_loop :: "int \<Rightarrow> u32 \<Rightarrow> u32 \<Rightarrow> u32 \<Rightarrow> u32 \<Rightarrow> u32 \<Rightarrow> u32 \<Rightarrow> u32 \<times> u32 \<times> u32" where
  "div_long_loop counter s h_s l_s h l dv =
     (let dv = push_bit 1 dv;
          carry = (if l \<ge> l_s then 0 else 1);
          (h, l, dv) =
            (if sint h < sint (h_s + carry) then (h, l, dv)
             else (h - (h_s + carry), if carry \<noteq> 0 then (0xFFFFFFFF - l_s) + l + 1 else l - l_s, dv OR 1));
          h_s = drop_bit 1 h_s;
          counter = counter - 1;
          l_s = c_shl s (word_of_int counter)
      in if counter > -1 then div_long_loop counter s h_s l_s h l dv else (h, l, dv))"
  by pat_completeness auto
termination
  by (relation "measure (\<lambda>(counter, _). nat counter)") auto

definition div_long :: "u32 \<Rightarrow> x86 \<Rightarrow> x86" where
  "div_long s m =
     (let h_dvd = R_EDX m;
          l_dvd = R_EAX m;
          h_s = s;
          l_s = 0
      in if s = 0 then x86emu_intr_raise 0 m
         else
           let (h_dvd, l_dvd, dv) = div_long_loop 32 s h_s l_s h_dvd l_dvd 0
           in if h_dvd \<noteq> 0 \<or> l_dvd > s then x86emu_intr_raise 0 m
              else
                let md = l_dvd;
                    m = CLEAR_FLAG F_CF m;
                    m = CLEAR_FLAG F_AF m;
                    m = CLEAR_FLAG F_SF m;
                    m = SET_FLAG F_ZF m;
                    m = CONDITIONAL_SET_FLAG (PARITY (md AND 0xff)) F_PF m
                in m\<lparr>gA := dv, gD := md\<rparr>)"

declare idiv_long_loop.simps [simp del] div_long_loop.simps [simp del]

section \<open>Products from half words\<close>

lemma limb_split: "(a :: u32) = drop_bit 16 a * 2 ^ 16 + (a AND 0xFFFF)"
proof -
  have m: "(0xFFFF :: u32) = mask 16" by code_simp
  have "push_bit 16 (drop_bit 16 a) + take_bit 16 a = a" by (rule bits_ident)
  then show ?thesis unfolding m by (simp only: push_bit_eq_mult take_bit_eq_mask)
qed

lemma limb_join: "push_bit 16 x OR (y AND 0xFFFF) = x * 2 ^ 16 + (y AND 0xFFFF :: u32)"
proof -
  have m: "(0xFFFF :: u32) = mask 16" by code_simp
  have "push_bit 16 x OR take_bit 16 y = push_bit 16 x + take_bit 16 y"
    by (rule disjunctive_add [symmetric]) (auto simp: bit_simps)
  then show ?thesis unfolding m by (simp only: push_bit_eq_mult take_bit_eq_mask)
qed

lemma limb_lo:
  fixes a s :: u32
  shows "push_bit 16 ((drop_bit 16 a * (s AND 0xFFFF) + (a AND 0xFFFF) * drop_bit 16 s) + drop_bit 16 ((a AND 0xFFFF) * (s AND 0xFFFF))) OR
    ((a AND 0xFFFF) * (s AND 0xFFFF) AND 0xFFFF) = a * s"
proof -
  define ah al sh sl where h: "ah = drop_bit 16 a" "al = a AND 0xFFFF" "sh = drop_bit 16 s" "sl = s AND 0xFFFF"
  have e: "a = ah * 2 ^ 16 + al" "s = sh * 2 ^ 16 + sl" unfolding h by (rule limb_split)+
  have "push_bit 16 ((ah * sl + al * sh) + drop_bit 16 (al * sl)) OR (al * sl AND 0xFFFF) =
    (ah * sl + al * sh) * 2 ^ 16 + (drop_bit 16 (al * sl) * 2 ^ 16 + (al * sl AND 0xFFFF))"
    unfolding limb_join by (simp only: distrib_right add.assoc)
  also have "\<dots> = (ah * sl + al * sh) * 2 ^ 16 + al * sl" by (simp only: limb_split [symmetric])
  also have "\<dots> = ah * sh * (2 ^ 16 * 2 ^ 16) + (ah * sl + al * sh) * 2 ^ 16 + al * sl"
  proof -
    have "(2 ^ 16 * 2 ^ 16 :: u32) = 0" by code_simp
    then show ?thesis by (simp only: mult_zero_right add_0)
  qed
  also have "\<dots> = (ah * 2 ^ 16 + al) * (sh * 2 ^ 16 + sl)" by (simp add: algebra_simps)
  finally show ?thesis using e unfolding h by simp
qed

lemma limb_unat: "unat (a AND 0xFFFF :: u32) = unat a mod 2 ^ 16" "unat (drop_bit 16 a :: u32) = unat a div 2 ^ 16"
proof -
  have m: "(0xFFFF :: u32) = mask 16" by code_simp
  show "unat (a AND 0xFFFF :: u32) = unat a mod 2 ^ 16"
    unfolding m take_bit_eq_mask [symmetric] unsigned_take_bit_eq by (rule take_bit_eq_mod)
  show "unat (drop_bit 16 a :: u32) = unat a div 2 ^ 16" unfolding unat_drop_bit_eq by (rule drop_bit_eq_div)
qed

text \<open>The middle column of the schoolbook product, with the carry from the low column.\<close>

definition mid_sum :: "u32 \<Rightarrow> u32 \<Rightarrow> nat" where
  "mid_sum a s = unat a div 2 ^ 16 * (unat s mod 2 ^ 16) + unat a mod 2 ^ 16 * (unat s div 2 ^ 16) +
     unat a mod 2 ^ 16 * (unat s mod 2 ^ 16) div 2 ^ 16"

lemma limb_product:
  fixes x y :: nat
  assumes "x < 2 ^ 32" "y < 2 ^ 32"
  defines "lo \<equiv> x mod 2 ^ 16 * (y mod 2 ^ 16)"
  defines "X \<equiv> x div 2 ^ 16 * (y mod 2 ^ 16) + x mod 2 ^ 16 * (y div 2 ^ 16) + lo div 2 ^ 16"
  shows "(x div 2 ^ 16 * (y div 2 ^ 16) + X div 2 ^ 16) * 2 ^ 32 + (x * y) mod 2 ^ 32 = x * y"
    "x div 2 ^ 16 * (y div 2 ^ 16) + X div 2 ^ 16 < 2 ^ 32"
proof -
  define a b c d where h: "a = x div 2 ^ 16" "b = x mod 2 ^ 16" "c = y div 2 ^ 16" "d = y mod 2 ^ (16 :: nat)"
  define B :: nat where "B = 2 ^ 16"
  have B: "2 ^ 32 = B * B" "2 ^ 16 = B" "0 < B" unfolding B_def by simp_all
  have xy: "x = a * B + b" "y = c * B + d" unfolding h B_def by (simp_all only: div_mult_mod_eq)
  have lo: "b * d = lo div B * B + lo mod B" unfolding lo_def h B_def by (simp only: div_mult_mod_eq)
  have X: "X = a * d + b * c + lo div B" unfolding X_def h B_def ..
  have XB: "X = X div B * B + X mod B" by (simp only: div_mult_mod_eq)
  have e: "x * y = (a * c + X div B) * (B * B) + (X mod B * B + lo mod B)"
  proof -
    have "x * y = a * c * (B * B) + (a * d + b * c) * B + b * d" unfolding xy by (simp only: algebra_simps)
    also have "\<dots> = a * c * (B * B) + X * B + lo mod B" unfolding lo X by (simp only: algebra_simps)
    also have "\<dots> = a * c * (B * B) + (X div B * B + X mod B) * B + lo mod B" using XB by (simp only:)
    finally show ?thesis by (simp only: algebra_simps)
  qed
  have "X mod B * B + lo mod B < (X mod B + 1) * B" using B(3) by (simp add: distrib_right)
  also have "\<dots> \<le> B * B" using B(3) by (intro mult_le_mono1) (simp add: Suc_leI)
  finally have q: "x * y div (B * B) = a * c + X div B" using B(3) unfolding e by simp
  then show "(x div 2 ^ 16 * (y div 2 ^ 16) + X div 2 ^ 16) * 2 ^ 32 + (x * y) mod 2 ^ 32 = x * y"
    unfolding B h [symmetric, unfolded B] by (metis div_mult_mod_eq)
  have "x * y < (B * B) * (B * B)" using assms(1,2) unfolding B using B(3) by (intro mult_strict_mono) simp_all
  then have "x * y div (B * B) < B * B" by (rule less_mult_imp_div_less)
  then show "x div 2 ^ 16 * (y div 2 ^ 16) + X div 2 ^ 16 < 2 ^ 32" using q unfolding B h [symmetric, unfolded B] by simp
qed

lemma unat_add_mult:
  fixes x y :: "'a::len word"
  shows "unat x + unat y < 2 ^ LENGTH('a) \<Longrightarrow> unat (x + y) = unat x + unat y"
    "unat x * unat y < 2 ^ LENGTH('a) \<Longrightarrow> unat (x * y) = unat x * unat y"
  by (simp_all add: unat_word_ariths)

lemma limb_hi:
  fixes a s :: u32
  assumes X: "mid_sum a s < 2 ^ 32"
  shows "unat (drop_bit 16 a * drop_bit 16 s + drop_bit 16 ((drop_bit 16 a * (s AND 0xFFFF) +
      (a AND 0xFFFF) * drop_bit 16 s) + drop_bit 16 ((a AND 0xFFFF) * (s AND 0xFFFF)))) * 2 ^ 32 + unat (a * s) = unat a * unat s"
proof -
  define ah al sh sl where h: "ah = drop_bit 16 a" "al = a AND 0xFFFF" "sh = drop_bit 16 s" "sl = s AND 0xFFFF"
  have u: "unat ah = unat a div 2 ^ 16" "unat al = unat a mod 2 ^ 16" "unat sh = unat s div 2 ^ 16" "unat sl = unat s mod 2 ^ 16"
    unfolding h by (rule limb_unat)+
  have ub: "unat a < 2 ^ 32" "unat s < 2 ^ 32" using unat_bound [of a] unat_bound [of s] by simp_all
  have lt: "unat ah \<le> 2 ^ 16 - 1" "unat al \<le> 2 ^ 16 - 1" "unat sh \<le> 2 ^ 16 - 1" "unat sl \<le> 2 ^ 16 - 1" using ub unfolding u by auto
  have p: "unat x * unat y < 2 ^ 32" if "unat x \<le> 2 ^ 16 - 1" "unat y \<le> 2 ^ 16 - 1" for x y :: u32
    using mult_le_mono [OF that] by simp
  have ms: "unat ah * unat sl + unat al * unat sh + unat al * unat sl div 2 ^ 16 < 2 ^ 32"
    using X unfolding mid_sum_def u .
  have m: "unat (ah * sl) = unat ah * unat sl" "unat (al * sh) = unat al * unat sh" "unat (al * sl) = unat al * unat sl"
    "unat (ah * sh) = unat ah * unat sh" using lt by (auto intro!: unat_add_mult(2) p [simplified])
  then have "unat (ah * sl + al * sh + drop_bit 16 (al * sl)) = unat ah * unat sl + unat al * unat sh + unat al * unat sl div 2 ^ 16"
    using ms by (subst unat_add_mult(1)) (simp_all add: unat_add_mult limb_unat)
  then have d: "unat (drop_bit 16 (ah * sl + al * sh + drop_bit 16 (al * sl))) =
    (unat ah * unat sl + unat al * unat sh + unat al * unat sl div 2 ^ 16) div 2 ^ 16" by (simp only: limb_unat)
  note L = limb_product [OF ub]
  have "unat (ah * sh + drop_bit 16 (ah * sl + al * sh + drop_bit 16 (al * sl))) =
    unat ah * unat sh + (unat ah * unat sl + unat al * unat sh + unat al * unat sl div 2 ^ 16) div 2 ^ 16"
    using L(2) m(4) d unfolding u by (subst unat_add_mult(1)) simp_all
  moreover have "unat (a * s) = unat a * unat s mod 2 ^ 32" by (simp add: unat_word_ariths)
  ultimately show ?thesis using L(1) unfolding h [symmetric] u by (simp only:)
qed

section \<open>The multiplications\<close>

definition mul_flags :: "bool \<Rightarrow> x86 \<Rightarrow> x86 \<Rightarrow> bool" where
  "mul_flags c m m' \<longleftrightarrow> ACCESS_FLAG F_CF m' = c \<and> ACCESS_FLAG F_OF m' = c \<and>
     (\<forall>k. k \<noteq> 0 \<and> k \<noteq> 11 \<longrightarrow> bit (FLAGS m') k = bit (FLAGS m) k)"

lemma set_CF_OF_flags [flag_simps]:
  "bit (FLAGS (set_CF_OF c m)) k = (if k = 0 \<or> k = 11 then c else bit (FLAGS m) k)"
  by (cases c) (auto simp: set_CF_OF_def flag_simps)

lemma set_CF_OF_regs [simp]:
  "gA (set_CF_OF c m) = gA m" "gD (set_CF_OF c m) = gD m" "(set_CF_OF c m)\<lparr>FLAGS := f\<rparr> = m\<lparr>FLAGS := f\<rparr>"
  "(set_CF_OF c m)\<lparr>gA := r\<rparr> = set_CF_OF c (m\<lparr>gA := r\<rparr>)" "(set_CF_OF c m)\<lparr>gD := r\<rparr> = set_CF_OF c (m\<lparr>gD := r\<rparr>)"
  by (simp_all add: set_CF_OF_def flag_simps SET_FLAG_def CLEAR_FLAG_def)

lemma put_lo16_hi [simp]: "drop_bit 16 (put_lo16 v r) = drop_bit 16 r"
  unfolding put_lo16_def view_masks by (rule bit_word_eqI) (auto simp: bit_simps dest: bit_imp_le_length)

lemma bytes_of_lo16: "lo8 (put_lo16 v r) = ucast v" "hi8 (put_lo16 v r) = ucast (drop_bit 8 v)"
  unfolding lo8_def hi8_def put_lo16_def view_masks
  by (rule bit_word_eqI; auto simp: bit_simps dest: bit_imp_le_length)+

lemma unat_ucast_down: "unat (ucast (w :: u32) :: u16) = unat w mod 65536" "unat (ucast (v :: u16) :: u8) = unat v mod 256"
  by (simp_all add: unsigned_ucast_eq take_bit_eq_mod)

lemma unat_ucast_mult8: "unat (ucast (ucast (a :: u8) * ucast b :: u32) :: u16) = unat a * unat (b :: u8)"
proof -
  have "unat a * unat b \<le> 255 * 255" using unat_bound [of a] unat_bound [of b] by (intro mult_le_mono) simp_all
  then show ?thesis by (simp add: unat_ucast_up unat_word_ariths unat_ucast_down)
qed

lemma unat_ucast_mult16: "unat (ucast a * ucast b :: u32) = unat (a :: u16) * unat (b :: u16)"
proof -
  have "unat a * unat b \<le> 65535 * 65535" using unat_bound [of a] unat_bound [of b] by (intro mult_le_mono) simp_all
  then show ?thesis by (simp add: unat_ucast_up unat_word_ariths)
qed

lemma unat_drop: "unat (drop_bit n (w :: 'a::len word)) = unat w div 2 ^ n"
  unfolding unat_drop_bit_eq by (rule drop_bit_eq_div)

lemma unat_high: "unat (ucast (drop_bit 8 (v :: u16)) :: u8) = unat v div 256"
    "unat (ucast (drop_bit 16 (w :: u32)) :: u16) = unat w div 65536"
  unfolding unat_ucast_down unat_drop using unat_bound [of v] unat_bound [of w] by simp_all

lemma high_half_zero: "ucast (drop_bit 8 (v :: u16)) = (0 :: u8) \<longleftrightarrow> unat v < 256"
    "ucast (drop_bit 16 (w :: u32)) = (0 :: u16) \<longleftrightarrow> unat w < 65536"
  by (simp_all only: word_unat_eq_iff unat_high) (simp_all add: div_eq_0_iff)

lemma mul_byte_ok:
  defines "p m s \<equiv> unat (R_AL m) * unat s"
  shows "unat (lo16 (gA (mul_byte s m))) = p m s \<and> drop_bit 16 (gA (mul_byte s m)) = drop_bit 16 (gA m) \<and>
    mul_flags (256 \<le> p m s) m (mul_byte s m) \<and> (mul_byte s m)\<lparr>gA := gA m, FLAGS := FLAGS m\<rparr> = m"
  by (simp add: mul_byte_def p_def mul_flags_def unat_ucast_mult8 bytes_of_lo16 high_half_zero not_less flag_simps Let_def)

lemma mul_word_ok:
  defines "p m s \<equiv> unat (R_AX m) * unat s"
  shows "unat (R_DX (mul_word s m)) * 2 ^ 16 + unat (R_AX (mul_word s m)) = p m s \<and>
    drop_bit 16 (gA (mul_word s m)) = drop_bit 16 (gA m) \<and> drop_bit 16 (gD (mul_word s m)) = drop_bit 16 (gD m) \<and>
    mul_flags (2 ^ 16 \<le> p m s) m (mul_word s m) \<and> (mul_word s m)\<lparr>gA := gA m, gD := gD m, FLAGS := FLAGS m\<rparr> = m"
  by (simp add: mul_word_def p_def mul_flags_def unat_ucast_mult16 unat_ucast_down(1) [of "ucast a * ucast b" for a b]
      unat_high high_half_zero not_less flag_simps
      Let_def del: ucast_drop_bit_eq)

lemma mul_long_ok:
  "gA (mul_long s m) = gA m * s \<and>
    (mid_sum (gA m) s < 2 ^ 32 \<longrightarrow> unat (gD (mul_long s m)) * 2 ^ 32 + unat (gA (mul_long s m)) = unat (gA m) * unat s) \<and>
    mul_flags (gD (mul_long s m) \<noteq> 0) m (mul_long s m) \<and> (mul_long s m)\<lparr>gA := gA m, gD := gD m, FLAGS := FLAGS m\<rparr> = m"
  using limb_hi [of "gA m" s] by (simp add: mul_long_def mul_flags_def limb_lo flag_simps Let_def)

section \<open>Signed numbers\<close>

lemma top_bit: "Suc k = LENGTH('a) \<Longrightarrow> bit x k \<longleftrightarrow> 2 ^ k \<le> unat (x :: 'a::len word)"
proof -
  assume k: "Suc k = LENGTH('a)"
  have "unat x div 2 ^ k < 2" using unat_bound [of x] k [symmetric] by (simp add: less_mult_imp_div_less)
  then have "odd (unat x div 2 ^ k) \<longleftrightarrow> unat x div 2 ^ k \<noteq> 0" by (auto simp: less_2_cases_iff)
  moreover have "bit x k \<longleftrightarrow> odd (unat x div 2 ^ k)"
    using bit_unsigned_iff [of x k, where ?'a = nat] by (auto simp: bit_iff_odd [of "unat x"] possible_bit_def)
  ultimately show ?thesis by (simp add: div_eq_0_iff not_less)
qed

lemma sint_cases: "sint (x :: 'a::len word) = (if unat x < 2 ^ (LENGTH('a) - 1) then int (unat x) else int (unat x) - 2 ^ LENGTH('a))"
proof -
  obtain n where n: "LENGTH('a) = Suc n" using len_gt_0 [where ?'a = 'a] by (cases "LENGTH('a)") auto
  show ?thesis using top_bit [of n x] n by (simp add: sint_uint signed_take_bit_eq_take_bit_minus bit_unsigned_iff flip: uint_nat)
      (use unsigned_less [of x, where ?'a = int] n in \<open>simp add: take_bit_int_eq_self_iff\<close>)
qed

lemma sint_nat:
  obtains u where "unat (x :: 'a::len word) = u" "u < 2 ^ LENGTH('a)"
    "sint x = (if u < 2 ^ (LENGTH('a) - 1) then int u else int u - 2 ^ LENGTH('a))"
  using sint_cases [of x] unat_bound [of x] by blast

lemma sint_prod8: "sint (ucast (scast (a :: u8) * scast b :: u32) :: u16) = sint a * sint (b :: u8)"
proof -
  have e: "(scast a * scast b :: u32) = word_of_int (sint a * sint b)" by simp
  have u: "ucast (scast a * scast b :: u32) = (word_of_int (sint a * sint b) :: u16)"
    unfolding e by (rule bit_word_eqI) (simp only: bit_simps, simp)
  have "\<bar>sint a * sint b\<bar> \<le> 128 * 128" unfolding abs_mult
    using sint_ge [of a] sint_lt [of a] sint_ge [of b] sint_lt [of b] by (intro mult_mono) auto
  then show ?thesis unfolding u signed_of_int by (simp add: signed_take_bit_int_eq_self_iff abs_le_iff)
qed

lemma sint_prod16: "sint (scast (a :: u16) * scast b :: u32) = sint a * sint (b :: u16)"
proof -
  have e: "(scast a * scast b :: u32) = word_of_int (sint a * sint b)" by simp
  have "\<bar>sint a * sint b\<bar> \<le> 32768 * 32768" unfolding abs_mult
    using sint_ge [of a] sint_lt [of a] sint_ge [of b] sint_lt [of b] by (intro mult_mono) auto
  then show ?thesis unfolding e signed_of_int by (simp add: signed_take_bit_int_eq_self_iff abs_le_iff)
qed

lemma fits_byte:
  fixes v :: u16
  defines "l \<equiv> ucast v :: u8" and "h \<equiv> ucast (drop_bit 8 v) :: u8"
  shows "(l AND 0x80 = 0 \<and> h = 0x00) \<or> (l AND 0x80 \<noteq> 0 \<and> h = 0xFF) \<longleftrightarrow> - 128 \<le> sint v \<and> sint v < 128"
proof -
  have t: "l AND 0x80 = 0 \<longleftrightarrow> unat v mod 256 < 128"
    using top_bit [of 7 l] and_exp_eq_0_iff_not_bit [of l 7] by (simp add: l_def unat_ucast_down not_le)
  have h: "h = 0 \<longleftrightarrow> unat v div 256 = 0" "h = 0xFF \<longleftrightarrow> unat v div 256 = 255"
    unfolding h_def by (simp_all only: word_unat_eq_iff unat_high) simp_all
  define q r where qr: "q = unat v div 256" "r = unat v mod 256"
  have v: "unat v = q * 256 + r" "r < 256" "q < 256" using unat_bound [of v] unfolding qr by simp_all
  have "sint v = (if unat v < 32768 then int (unat v) else int (unat v) - 65536)" using sint_cases [of v] by simp
  then show ?thesis unfolding t h qr [symmetric] v(1) using v(2,3) by (cases "q < 128") auto
qed

lemma fits_word:
  fixes v :: u32
  defines "l \<equiv> ucast v :: u16" and "h \<equiv> ucast (drop_bit 16 v) :: u16"
  shows "(l AND 0x8000 = 0 \<and> h = 0x00) \<or> (l AND 0x8000 \<noteq> 0 \<and> h = 0xFF) \<longleftrightarrow>
    (0 \<le> sint v \<and> sint v < 2 ^ 15) \<or> (0xFF8000 \<le> sint v \<and> sint v < 0x1000000)"
proof -
  have t: "l AND 0x8000 = 0 \<longleftrightarrow> unat v mod 65536 < 32768"
    using top_bit [of 15 l] and_exp_eq_0_iff_not_bit [of l 15] by (simp add: l_def unat_ucast_down not_le)
  have h: "h = 0 \<longleftrightarrow> unat v div 65536 = 0" "h = 0xFF \<longleftrightarrow> unat v div 65536 = 255"
    unfolding h_def by (simp_all only: word_unat_eq_iff unat_high) simp_all
  define q r where qr: "q = unat v div 65536" "r = unat v mod 65536"
  have v: "unat v = q * 65536 + r" "r < 65536" "q < 65536" using unat_bound [of v] unfolding qr by simp_all
  have sv: "sint v = (if q * 65536 + r < 2147483648 then int (q * 65536 + r) else int (q * 65536 + r) - 4294967296)"
    using sint_cases [of v] unfolding v(1) by simp
  show ?thesis unfolding t h qr [symmetric] sv using v(2,3) by (cases "q < 32768"; cases "q < 255"; cases "q = 255") auto
qed

lemma sdiv_facts:
  fixes a b :: int
  assumes "b \<noteq> 0"
  shows "\<bar>a smod b\<bar> < \<bar>b\<bar>" "a = (a sdiv b) * b + a smod b" "0 \<le> a \<Longrightarrow> 0 \<le> a smod b" "a \<le> 0 \<Longrightarrow> a smod b \<le> 0" "\<bar>a sdiv b\<bar> \<le> \<bar>a\<bar>"
proof -
  show "a = (a sdiv b) * b + a smod b" by (simp add: sdiv_mult_smod_eq)
  show "\<bar>a smod b\<bar> < \<bar>b\<bar>" using smod_int_range [of b a] assms by auto
  show "\<bar>a sdiv b\<bar> \<le> \<bar>a\<bar>" using sdiv_int_range [of a b] by (simp add: abs_le_iff)
  show "0 \<le> a \<Longrightarrow> 0 \<le> a smod b" "a \<le> 0 \<Longrightarrow> a smod b \<le> 0"
    using smod_int_compares [of a b] assms by (cases "b < 0"; simp)+
qed

lemma imul_byte_ok:
  defines "p m s \<equiv> sint (R_AL m) * sint s"
  shows "sint (R_AX (imul_byte s m)) = p m s \<and> drop_bit 16 (gA (imul_byte s m)) = drop_bit 16 (gA m) \<and>
    mul_flags (\<not> (- 128 \<le> p m s \<and> p m s < 128)) m (imul_byte s m) \<and>
    (imul_byte s m)\<lparr>gA := gA m, FLAGS := FLAGS m\<rparr> = m"
proof -
  let ?v = "ucast (scast (R_AL m) * scast s :: u32) :: u16"
  have "sint ?v = p m s" unfolding p_def by (rule sint_prod8)
  then show ?thesis using fits_byte [of ?v]
    by (simp add: imul_byte_def mul_flags_def bytes_of_lo16 flag_simps Let_def del: de_Morgan_disj)
qed

text \<open>The value of the 16-bit signed product is right; its flags compare \<open>DX\<close> with \<open>0xFF\<close>, so they are clear
  exactly for the products below.\<close>

lemma imul_word_ok:
  defines "p m s \<equiv> sint (R_AX m) * sint s"
  shows "sint (push_bit 16 (ucast (R_DX (imul_word s m))) OR ucast (R_AX (imul_word s m)) :: u32) = p m s \<and>
    drop_bit 16 (gA (imul_word s m)) = drop_bit 16 (gA m) \<and> drop_bit 16 (gD (imul_word s m)) = drop_bit 16 (gD m) \<and>
    mul_flags (\<not> ((0 \<le> p m s \<and> p m s < 2 ^ 15) \<or> (0xFF8000 \<le> p m s \<and> p m s < 0x1000000))) m (imul_word s m) \<and>
    (imul_word s m)\<lparr>gA := gA m, gD := gD m, FLAGS := FLAGS m\<rparr> = m"
proof -
  let ?v = "scast (R_AX m) * scast s :: u32"
  have v: "sint ?v = p m s" unfolding p_def by (rule sint_prod16)
  have h: "ucast (signed_drop_bit 16 w) = (ucast (drop_bit 16 w) :: u16)" for w :: u32
    by (rule bit_word_eqI) (auto simp: bit_simps dest: bit_imp_le_length)
  have j: "push_bit 16 (ucast (ucast (drop_bit 16 w) :: u16)) OR ucast (ucast w :: u16) = w" for w :: u32
    by (rule bit_word_eqI) (auto simp: bit_simps dest: bit_imp_le_length)
  show ?thesis using fits_word [of ?v] v unfolding imul_word_def h
    by (simp add: j mul_flags_def flag_simps Let_def del: de_Morgan_disj)
qed

lemma sint_of_int32: "- (2 ^ 31) \<le> q \<Longrightarrow> q < 2 ^ 31 \<Longrightarrow> sint (word_of_int q :: u32) = q"
  by (simp add: signed_of_int signed_take_bit_int_eq_self_iff)

lemma sint_trunc:
  "- 128 \<le> q \<Longrightarrow> q < 128 \<Longrightarrow> sint (ucast (word_of_int q :: u32) :: u8) = q"
  "- 32768 \<le> q \<Longrightarrow> q < 32768 \<Longrightarrow> sint (ucast (word_of_int q :: u32) :: u16) = q"
proof -
  have "ucast (word_of_int q :: u32) = (word_of_int q :: u8)" "ucast (word_of_int q :: u32) = (word_of_int q :: u16)"
    by (rule bit_word_eqI, simp only: bit_simps, simp)+
  then show "- 128 \<le> q \<Longrightarrow> q < 128 \<Longrightarrow> sint (ucast (word_of_int q :: u32) :: u8) = q"
    "- 32768 \<le> q \<Longrightarrow> q < 32768 \<Longrightarrow> sint (ucast (word_of_int q :: u32) :: u16) = q"
    by (simp_all add: signed_of_int signed_take_bit_int_eq_self_iff)
qed

lemma c_abs_int: "\<bar>q\<bar> < 2 ^ 31 \<Longrightarrow> sint (c_abs (word_of_int q)) = \<bar>q\<bar>"
proof -
  assume q: "\<bar>q\<bar> < 2 ^ 31"
  have "- (word_of_int q :: u32) = word_of_int (- q)" by simp
  then show ?thesis using q sint_of_int32 [of q] sint_of_int32 [of "- q"] by (simp add: c_abs_def del: of_int_minus)
qed

lemma c_abs_nat: "unat x < 2 ^ 31 \<Longrightarrow> sint (c_abs x) = int (unat x)"
  using sint_cases [of x] by (simp add: c_abs_def)

section \<open>The 64-bit signed product\<close>

lemma sign_mask: "(d :: u32) AND 0x80000000 = (if sint d < 0 then 0x80000000 else 0)"
proof -
  have "d AND 0x80000000 = (if bit d 31 then 0x80000000 else 0)" using and_exp_if [of d 31] by simp
  moreover have "bit d 31 \<longleftrightarrow> sint d < 0" using top_bit [of 31 d] by (rule_tac sint_nat [of d]) auto
  ultimately show ?thesis by simp
qed

lemma unat_neg: "x \<noteq> 0 \<Longrightarrow> unat (- x :: u32) = 4294967296 - unat x"
  using unat_sub_if' [of 0 x] unat_bound [of x] by (auto simp: unat_eq_zero)

lemma uint_c_abs: "int (unat (c_abs d)) = \<bar>sint d\<bar>"
proof -
  obtain u where u: "unat d = u" "u < 4294967296" "sint d = (if u < 2147483648 then int u else int u - 4294967296)"
    by (rule sint_nat [of d]) simp
  then have "c_abs d = (if u < 2147483648 then d else - d)" by (cases "u < 2147483648") (simp_all add: c_abs_def)
  moreover have "unat (- d) = 4294967296 - u" if "\<not> u < 2147483648"
  proof -
    have "d \<noteq> 0" using that u(1) by (metis unat_eq_zero not_less zero_less_numeral gr0I)
    then show ?thesis using unat_neg [of d] u(1) by blast
  qed
  ultimately have "unat (c_abs d) = (if u < 2147483648 then u else 4294967296 - u)" using u(1) by (cases "u < 2147483648") simp_all
  then show ?thesis unfolding u(3) using u(2) by (simp only:) (auto simp: of_nat_diff)
qed

lemma carry_out:
  "drop_bit 16 (drop_bit 16 ((x AND 0xFFFF) + 1) + drop_bit 16 x) = (if x = - 1 then 1 else 0 :: u32)"
proof (cases "x = - 1")
  case True
  have "drop_bit 16 (drop_bit 16 ((- 1 AND 0xFFFF) + 1) + drop_bit 16 (- 1)) = (1 :: u32)" by code_simp
  then show ?thesis using True by simp
next
  case False
  define h l where hl: "h = unat x div 2 ^ 16" "l = unat x mod 2 ^ 16"
  have x: "unat x = h * 2 ^ 16 + l" "l < 2 ^ 16" "h < 2 ^ 16" using unat_bound [of x] unfolding hl by simp_all
  have n: "\<not> (l = 2 ^ 16 - 1 \<and> h = 2 ^ 16 - 1)"
  proof
    assume "l = 2 ^ 16 - 1 \<and> h = 2 ^ 16 - 1"
    moreover have "unat (- 1 :: u32) = 4294967295" by (simp add: unsigned_minus_1_eq_mask mask_eq_exp_minus_1)
    ultimately have "unat x = unat (- 1 :: u32)" using x(1) by simp
    then show False using False by (simp add: word_unat_eq_iff)
  qed
  have l1: "unat ((x AND 0xFFFF) + 1) = l + 1" using x(2) by (subst unat_add_mult(1)) (simp_all only: limb_unat hl [symmetric], simp_all)
  have "(l + 1) div 2 ^ 16 + h < 2 ^ 16"
  proof (cases "l = 2 ^ 16 - 1")
    case True
    then show ?thesis using n x(3) by auto
  next
    case False
    then have "(l + 1) div 2 ^ 16 = 0" using x(2) by (intro div_less) linarith
    then show ?thesis using x(3) by simp
  qed
  moreover then have "unat (drop_bit 16 ((x AND 0xFFFF) + 1) + drop_bit 16 x) = (l + 1) div 2 ^ 16 + h"
    by (subst unat_add_mult(1)) (simp_all only: limb_unat(2) l1 hl(1) [symmetric], simp_all)
  ultimately have "unat (drop_bit 16 (drop_bit 16 ((x AND 0xFFFF) + 1) + drop_bit 16 x)) = 0"
    by (subst limb_unat(2)) (simp only: div_less)
  then show ?thesis using False by (simp only: unat_eq_zero if_False)
qed

lemma neg64:
  fixes lo hi :: u32
  shows "(int (unat (NOT hi + (if NOT lo = - 1 then 1 else 0))) * 2 ^ 32 + int (unat (NOT lo + 1))) =
    (- (int (unat hi) * 2 ^ 32 + int (unat lo))) mod 2 ^ 64"
proof -
  obtain h l where hl: "unat hi = h" "unat lo = l" "h < 2 ^ 32" "l < 2 ^ 32" using unat_bound [of hi] unat_bound [of lo] by simp
  have nl: "NOT lo + 1 = - lo" "NOT hi + 1 = - hi" by (simp_all add: minus_eq_not_plus_1)
  have flip: "(- x) mod 2 ^ 64 = 2 ^ 64 - x" if "0 < x" "x < 2 ^ 64" for x :: int
  proof -
    have "(2 ^ 64 - x) mod 2 ^ 64 = 2 ^ 64 - x" using that by (intro mod_pos_pos_trivial) auto
    then show ?thesis by (simp add: mod_simps)
  qed
  have n: "NOT lo = - 1 \<longleftrightarrow> l = 0" using hl(2) by (metis bit.double_compl bit.compl_zero unat_eq_zero)
  have z: "h = 0 \<longleftrightarrow> hi = 0" "l = 0 \<longleftrightarrow> lo = 0" using hl by (auto simp: unat_eq_zero)
  consider "l = 0" "h = 0" | "l = 0" "h \<noteq> 0" | "l \<noteq> 0" by blast
  then show ?thesis
  proof cases
    case 1 then show ?thesis using z n nl by simp
  next
    case 2
    then have "unat (- hi) = 4294967296 - h" using unat_neg z hl by simp
    then have "int (unat (- hi)) * 2 ^ 32 = 2 ^ 64 - int h * 2 ^ 32" using hl(3) by (simp only:) (simp add: of_nat_diff algebra_simps)
    moreover have "(- (int h * 2 ^ 32)) mod 2 ^ 64 = 2 ^ 64 - int h * 2 ^ 32" using 2 hl(3) by (intro flip) simp_all
    ultimately show ?thesis using 2 z n nl hl by (simp only: if_True) simp
  next
    case 3
    then have "unat (- lo) = 4294967296 - l" using unat_neg z hl by simp
    moreover have "unat (NOT hi) = 4294967295 - h"
    proof -
      have "NOT hi = - 1 - hi" by (simp add: not_eq_complement)
      moreover have "unat (- 1 :: u32) = 4294967295" by (simp add: unsigned_minus_1_eq_mask mask_eq_exp_minus_1)
      ultimately show ?thesis using unat_sub_le [of hi "- 1"] hl(1,3) by (simp add: word_le_nat_alt)
    qed
    ultimately have "int (unat (NOT hi)) * 2 ^ 32 + int (unat (- lo)) = 2 ^ 64 - (int h * 2 ^ 32 + int l)"
      using hl(3,4) by (simp only:) (simp add: of_nat_diff algebra_simps)
    moreover have "(- (int h * 2 ^ 32 + int l)) mod 2 ^ 64 = 2 ^ 64 - (int h * 2 ^ 32 + int l)" using 3 hl(3,4) by (intro flip) simp_all
    ultimately show ?thesis using 3 n nl hl by (simp only: if_False) simp
  qed
qed

lemma imul_long_direct_ok:
  fixes d s :: u32
  assumes "mid_sum (c_abs d) (c_abs s) < 2 ^ 32"
  shows "int (unat (snd (imul_long_direct d s))) * 2 ^ 32 + int (unat (fst (imul_long_direct d s))) = (sint d * sint s) mod 2 ^ 64"
proof -
  define lo hi where lh: "lo = c_abs d * c_abs s"
    "hi = drop_bit 16 (c_abs d) * drop_bit 16 (c_abs s) + drop_bit 16 ((drop_bit 16 (c_abs d) * (c_abs s AND 0xFFFF) +
      (c_abs d AND 0xFFFF) * drop_bit 16 (c_abs s)) + drop_bit 16 ((c_abs d AND 0xFFFF) * (c_abs s AND 0xFFFF)))"
  have "int (unat hi * 2 ^ 32 + unat lo) = int (unat (c_abs d) * unat (c_abs s))"
    using limb_hi [OF assms] unfolding lh by (rule arg_cong)
  then have P: "int (unat hi) * 2 ^ 32 + int (unat lo) = \<bar>sint d\<bar> * \<bar>sint s\<bar>"
    by (simp only: of_nat_add of_nat_mult of_nat_power of_nat_numeral uint_c_abs)
  have ab: "(if d AND 0x80000000 \<noteq> 0 then - d else d) = c_abs d" for d unfolding sign_mask c_abs_def by simp
  have sg: "d AND 0x80000000 \<noteq> s AND 0x80000000 \<longleftrightarrow> (sint d < 0) \<noteq> (sint s < 0)" unfolding sign_mask by simp
  have D: "imul_long_direct d s = (if (sint d < 0) \<noteq> (sint s < 0)
    then (NOT lo + 1, NOT hi + (if NOT lo = - 1 then 1 else 0)) else (lo, hi))"
    unfolding imul_long_direct_def Let_def ab sg limb_lo carry_out lh by (rule refl)
  have bound: "\<bar>sint d\<bar> * \<bar>sint s\<bar> < 2 ^ 64"
  proof -
    have "\<bar>sint d\<bar> \<le> 2 ^ 31" "\<bar>sint s\<bar> \<le> 2 ^ 31"
      using sint_ge [of d] sint_lt [of d] sint_ge [of s] sint_lt [of s] by (auto simp: abs_le_iff)
    then have "\<bar>sint d\<bar> * \<bar>sint s\<bar> \<le> 2 ^ 31 * 2 ^ 31" by (intro mult_mono) auto
    then show ?thesis by simp
  qed
  show ?thesis
  proof (cases "(sint d < 0) \<noteq> (sint s < 0)")
    case True
    then have "sint d * sint s = - (\<bar>sint d\<bar> * \<bar>sint s\<bar>)" by (auto simp: abs_if)
    then show ?thesis using neg64 [where hi = hi and lo = lo, unfolded P] True unfolding D by (simp only: if_True simp_thms fst_conv snd_conv)
  next
    case False
    then have "sint d * sint s = \<bar>sint d\<bar> * \<bar>sint s\<bar>" by (auto simp: abs_if)
    moreover have "(\<bar>sint d\<bar> * \<bar>sint s\<bar>) mod 2 ^ 64 = \<bar>sint d\<bar> * \<bar>sint s\<bar>" using bound by (intro mod_pos_pos_trivial) auto
    ultimately show ?thesis unfolding D using False P by simp
  qed
qed

text \<open>The low word is the product modulo \<open>2 ^ 32\<close> without any condition.\<close>

lemma imul_long_direct_lo: "fst (imul_long_direct d s) = d * s"
proof -
  have ab: "(if d AND 0x80000000 \<noteq> 0 then - d else d) = c_abs d" for d unfolding sign_mask c_abs_def by simp
  have sg: "d AND 0x80000000 \<noteq> s AND 0x80000000 \<longleftrightarrow> (sint d < 0) \<noteq> (sint s < 0)" unfolding sign_mask by simp
  have "fst (imul_long_direct d s) = (if (sint d < 0) \<noteq> (sint s < 0) then NOT (c_abs d * c_abs s) + 1 else c_abs d * c_abs s)"
    unfolding imul_long_direct_def Let_def ab sg limb_lo by (simp only: fst_conv if_distrib [of fst])
  then show ?thesis by (auto simp: c_abs_def minus_eq_not_plus_1 [symmetric])
qed

section \<open>Division by bytes and words\<close>

lemma idiv_byte_ok:
  fixes s :: u8
  defines "q m \<equiv> sint (R_AX m) sdiv sint s" and "r m \<equiv> sint (R_AX m) smod sint s"
  assumes "s \<noteq> 0"
  shows "127 < \<bar>q m\<bar> \<Longrightarrow> idiv_byte s m = x86emu_intr_raise 0 m"
    "\<bar>q m\<bar> \<le> 127 \<Longrightarrow> sint (R_AL (idiv_byte s m)) = q m \<and> sint (R_AH (idiv_byte s m)) = r m \<and>
      drop_bit 16 (gA (idiv_byte s m)) = drop_bit 16 (gA m) \<and> (idiv_byte s m)\<lparr>gA := gA m\<rparr> = m"
proof -
  have nz: "sint s \<noteq> 0" using assms(3) by (metis signed_0 signed_word_eqI)
  note F = sdiv_facts [OF nz, of "sint (R_AX m)", folded q_def r_def]
  have "\<bar>sint (R_AX m)\<bar> \<le> 2 ^ 15" "\<bar>sint s\<bar> \<le> 2 ^ 7"
    using sint_ge [of "R_AX m"] sint_lt [of "R_AX m"] sint_ge [of s] sint_lt [of s] by (auto simp: abs_le_iff)
  then have b: "\<bar>q m\<bar> < 2 ^ 31" "\<bar>r m\<bar> < 128" using F(1,5) by simp_all
  have top: "drop_bit 16 (put_hi8 a (put_lo8 b x)) = drop_bit 16 x" for a b x
    unfolding put_hi8_def put_lo8_def view_masks by (rule bit_word_eqI) (auto simp: bit_simps dest: bit_imp_le_length)
  show "127 < \<bar>q m\<bar> \<Longrightarrow> idiv_byte s m = x86emu_intr_raise 0 m"
    using assms(3) c_abs_int [OF b(1)] by (simp add: idiv_byte_def q_def Let_def)
  assume q: "\<bar>q m\<bar> \<le> 127"
  then have "\<not> 127 < \<bar>q m\<bar>" "- 128 \<le> q m" "q m < 128" "- 128 \<le> r m" "r m < 128" using b(2) by auto
  then show "sint (R_AL (idiv_byte s m)) = q m \<and> sint (R_AH (idiv_byte s m)) = r m \<and>
      drop_bit 16 (gA (idiv_byte s m)) = drop_bit 16 (gA m) \<and> (idiv_byte s m)\<lparr>gA := gA m\<rparr> = m"
    using assms(3) c_abs_int [OF b(1)] sint_trunc(1) [of "q m"] sint_trunc(1) [of "r m"]
    by (simp add: idiv_byte_def Let_def top flip: q_def r_def)
qed

lemma idiv_word_ok:
  fixes s :: u16
  defines "n m \<equiv> sint (push_bit 16 (ucast (R_DX m)) OR ucast (R_AX m) :: u32)"
  defines "q m \<equiv> n m sdiv sint s" and "r m \<equiv> n m smod sint s"
  assumes "s \<noteq> 0"
  shows "0x7fff < \<bar>q m\<bar> \<Longrightarrow> \<bar>q m\<bar> < 2 ^ 31 \<Longrightarrow> idiv_word s m = Some (x86emu_intr_raise 0 m)"
    "\<bar>q m\<bar> \<le> 0x7fff \<Longrightarrow> \<exists>m'. idiv_word s m = Some m' \<and> sint (R_AX m') = q m \<and> sint (R_DX m') = r m \<and>
      drop_bit 16 (gA m') = drop_bit 16 (gA m) \<and> drop_bit 16 (gD m') = drop_bit 16 (gD m) \<and>
      m'\<lparr>gA := gA m, gD := gD m, FLAGS := FLAGS m\<rparr> = m"
proof -
  have nz: "sint s \<noteq> 0" using assms(4) by (metis signed_0 signed_word_eqI)
  note F = sdiv_facts [OF nz, of "n m", folded q_def r_def]
  have "\<bar>sint s\<bar> \<le> 2 ^ 15" using sint_ge [of s] sint_lt [of s] by (auto simp: abs_le_iff)
  then have b: "\<bar>r m\<bar> < 32768" using F(1) by simp
  have nf: "\<bar>q m\<bar> < 2 ^ 31 \<Longrightarrow> \<not> (n m = - (2 ^ 31) \<and> sint s = - 1)" by (auto simp: q_def)
  show "0x7fff < \<bar>q m\<bar> \<Longrightarrow> \<bar>q m\<bar> < 2 ^ 31 \<Longrightarrow> idiv_word s m = Some (x86emu_intr_raise 0 m)"
    using assms(4) c_abs_int [of "q m"] nf by (simp add: idiv_word_def q_def n_def Let_def)
  assume q: "\<bar>q m\<bar> \<le> 0x7fff"
  define Q R where QR: "Q = q m" "R = r m"
  have E: "idiv_word s m = Some (let m = CLEAR_FLAG F_SF (CLEAR_FLAG F_CF m);
      m = CONDITIONAL_SET_FLAG (word_of_int Q = (0 :: u32)) F_ZF m;
      m = CONDITIONAL_SET_FLAG (PARITY (word_of_int R AND 0xff)) F_PF m
    in m\<lparr>gA := put_lo16 (ucast (word_of_int Q :: u32)) (gA m), gD := put_lo16 (ucast (word_of_int R :: u32)) (gD m)\<rparr>)"
    using assms(4) c_abs_int [of "q m"] nf q unfolding idiv_word_def Let_def n_def [symmetric] q_def [symmetric] r_def [symmetric] QR
    by simp
  show "\<exists>m'. idiv_word s m = Some m' \<and> sint (R_AX m') = q m \<and> sint (R_DX m') = r m \<and>
      drop_bit 16 (gA m') = drop_bit 16 (gA m) \<and> drop_bit 16 (gD m') = drop_bit 16 (gD m) \<and>
      m'\<lparr>gA := gA m, gD := gD m, FLAGS := FLAGS m\<rparr> = m"
    unfolding E QR using sint_trunc(2) [of "q m"] sint_trunc(2) [of "r m"] b q
    by (simp add: Let_def flag_simps abs_le_iff abs_less_iff CLEAR_FLAG_def CONDITIONAL_SET_FLAG_def SET_FLAG_def)
qed

lemma unat_ucast_small: "unat x < 2 ^ LENGTH('a) \<Longrightarrow> unat (ucast (x :: u32) :: 'a::len word) = unat x"
  by (simp add: unsigned_ucast_eq take_bit_eq_mod)

lemma div_byte_ok:
  fixes s :: u8
  assumes "s \<noteq> 0"
  defines "q m \<equiv> unat (R_AX m) div unat s" and "r m \<equiv> unat (R_AX m) mod unat s"
  shows "255 < q m \<Longrightarrow> div_byte s m = x86emu_intr_raise 0 m"
    "q m \<le> 255 \<Longrightarrow> unat (R_AL (div_byte s m)) = q m \<and> unat (R_AH (div_byte s m)) = r m \<and>
      drop_bit 16 (gA (div_byte s m)) = drop_bit 16 (gA m) \<and> (div_byte s m)\<lparr>gA := gA m\<rparr> = m"
proof -
  let ?d = "ucast (R_AX m) div ucast s :: u32" and ?r = "ucast (R_AX m) mod ucast s :: u32"
  have d: "unat ?d = q m" "unat ?r = r m" by (simp_all add: unat_div unat_mod unat_ucast_up q_def r_def)
  have "q m \<le> unat (R_AX m)" unfolding q_def by simp
  then have q: "q m < 2 ^ 31" using unat_bound [of "R_AX m"] by simp
  have "unat s \<noteq> 0" using assms(1) by (simp add: unat_eq_zero)
  then have r: "r m < 256" unfolding r_def using unat_bound [of s] by (simp add: less_trans [OF mod_less_divisor])
  have top: "drop_bit 16 (put_hi8 a (put_lo8 b x)) = drop_bit 16 x" for a b x
    unfolding put_hi8_def put_lo8_def view_masks by (rule bit_word_eqI) (auto simp: bit_simps dest: bit_imp_le_length)
  have c: "sint (c_abs ?d) = int (q m)" using c_abs_nat [of ?d] q by (simp only: d)
  show "255 < q m \<Longrightarrow> div_byte s m = x86emu_intr_raise 0 m" using assms(1) c by (simp add: div_byte_def Let_def)
  show "q m \<le> 255 \<Longrightarrow> unat (R_AL (div_byte s m)) = q m \<and> unat (R_AH (div_byte s m)) = r m \<and>
      drop_bit 16 (gA (div_byte s m)) = drop_bit 16 (gA m) \<and> (div_byte s m)\<lparr>gA := gA m\<rparr> = m"
    using assms(1) c r unat_ucast_small [of ?d, where ?'a = 8] unat_ucast_small [of ?r, where ?'a = 8]
    by (simp add: div_byte_def Let_def d top)
qed

text \<open>The quotient of \<open>div_word\<close> is checked as a signed number: quotients from \<open>2 ^ 31\<close> on are not caught reliably.\<close>

lemma div_word_ok:
  fixes s :: u16
  assumes "s \<noteq> 0"
  defines "n m \<equiv> unat (R_DX m) * 2 ^ 16 + unat (R_AX m)"
  defines "q m \<equiv> n m div unat s" and "r m \<equiv> n m mod unat s"
  shows "0xffff < q m \<Longrightarrow> q m < 2 ^ 31 \<Longrightarrow> div_word s m = x86emu_intr_raise 0 m"
    "q m \<le> 0xffff \<Longrightarrow> unat (R_AX (div_word s m)) = q m \<and> unat (R_DX (div_word s m)) = r m \<and>
      drop_bit 16 (gA (div_word s m)) = drop_bit 16 (gA m) \<and> drop_bit 16 (gD (div_word s m)) = drop_bit 16 (gD m) \<and>
      (div_word s m)\<lparr>gA := gA m, gD := gD m, FLAGS := FLAGS m\<rparr> = m"
proof -
  let ?n = "push_bit 16 (ucast (R_DX m)) OR ucast (R_AX m) :: u32"
  let ?d = "?n div ucast s :: u32" and ?r = "?n mod ucast s :: u32"
  have "?n = ucast (R_DX m) * 2 ^ 16 + ucast (R_AX m)"
  proof -
    have "push_bit 16 (ucast (R_DX m)) + ucast (R_AX m) = ?n"
      by (rule disjunctive_add) (auto simp: bit_simps dest: bit_imp_le_length)
    then show ?thesis by (simp only: push_bit_eq_mult)
  qed
  then have n: "unat ?n = n m"
    using unat_bound [of "R_DX m"] unat_bound [of "R_AX m"]
    by (simp only: n_def) (simp add: unat_word_ariths unat_ucast_up)
  have d: "unat ?d = q m" "unat ?r = r m" by (simp_all add: unat_div unat_mod unat_ucast_up q_def r_def n)
  have "unat s \<noteq> 0" using assms(1) by (simp add: unat_eq_zero)
  then have r: "r m < 65536" unfolding r_def using unat_bound [of s] by (simp add: less_trans [OF mod_less_divisor])
  have c: "q m < 2 ^ 31 \<Longrightarrow> sint (c_abs ?d) = int (q m)" using c_abs_nat [of ?d] by (simp only: d)
  show "0xffff < q m \<Longrightarrow> q m < 2 ^ 31 \<Longrightarrow> div_word s m = x86emu_intr_raise 0 m" using assms(1) c by (simp add: div_word_def Let_def)
  show "q m \<le> 0xffff \<Longrightarrow> unat (R_AX (div_word s m)) = q m \<and> unat (R_DX (div_word s m)) = r m \<and>
      drop_bit 16 (gA (div_word s m)) = drop_bit 16 (gA m) \<and> drop_bit 16 (gD (div_word s m)) = drop_bit 16 (gD m) \<and>
      (div_word s m)\<lparr>gA := gA m, gD := gD m, FLAGS := FLAGS m\<rparr> = m"
    using assms(1) c r unat_ucast_small [of ?d, where ?'a = 16] unat_ucast_small [of ?r, where ?'a = 16]
    by (simp add: div_word_def Let_def d flag_simps CLEAR_FLAG_def CONDITIONAL_SET_FLAG_def SET_FLAG_def)
qed

section \<open>Division by long words\<close>

text \<open>One step of the long division: comparing and subtracting the two-word numbers \<open>(h, l)\<close> and \<open>(hs, ls)\<close>.\<close>

lemma sub_two_words:
  fixes h l hs ls :: u32
  defines "c \<equiv> (if l \<ge> ls then 0 else 1 :: u32)"
  defines "R \<equiv> unat h * 2 ^ 32 + unat l" and "T \<equiv> unat hs * 2 ^ 32 + unat ls"
  assumes hs: "unat hs + 1 < 2 ^ 32"
  shows "h < hs + c \<longleftrightarrow> R < T"
    "T \<le> R \<Longrightarrow> unat (h - (hs + c)) * 2 ^ 32 + unat (if c \<noteq> 0 then (0xFFFFFFFF - ls) + l + 1 else l - ls) = R - T"
proof -
  have ub: "unat l < 2 ^ 32" "unat ls < 2 ^ 32" using unat_bound [of l] unat_bound [of ls] by simp_all
  have hc: "unat (hs + c) = unat hs + (if unat ls \<le> unat l then 0 else 1)"
    using hs by (auto simp: c_def word_le_nat_alt unat_add_mult)
  show lt: "h < hs + c \<longleftrightarrow> R < T"
    unfolding word_less_nat_alt hc R_def T_def using ub by (cases "unat ls \<le> unat l") auto
  assume TR: "T \<le> R"
  then have ge: "hs + c \<le> h" using lt by (simp add: not_less [symmetric])
  have h1: "unat (h - (hs + c)) = unat h - (unat hs + (if unat ls \<le> unat l then 0 else 1))"
    using ge by (simp add: unat_sub_le hc)
  show "unat (h - (hs + c)) * 2 ^ 32 + unat (if c \<noteq> 0 then (0xFFFFFFFF - ls) + l + 1 else l - ls) = R - T"
  proof (cases "unat ls \<le> unat l")
    case True
    then have "unat (l - ls) = unat l - unat ls" by (simp add: unat_sub_le word_le_nat_alt)
    moreover have c0: "c = 0" using True by (simp add: c_def word_le_nat_alt)
    moreover have "unat (h - (hs + c)) = unat h - unat hs" using h1 True by simp
    moreover have "unat hs \<le> unat h" using ge True hc c0 by (simp add: word_le_nat_alt)
    ultimately show ?thesis using True mult_le_mono1 [of "unat hs" "unat h" "2 ^ 32"] unfolding R_def T_def
      by (simp add: diff_mult_distrib)
  next
    case False
    have w: "(0xFFFFFFFF - ls) + l + 1 = l - ls" by simp
    have "unat (l - ls) = unat l + 2 ^ 32 - unat ls" using False unat_sub_if' [of l ls] by simp
    moreover have c1: "c = 1" using False by (simp add: c_def word_le_nat_alt)
    moreover have "unat (h - (hs + c)) = unat h - (unat hs + 1)" using h1 False by simp
    moreover have "unat hs + 1 \<le> unat h" using ge False hc by (simp add: word_le_nat_alt)
    ultimately show ?thesis using False ub mult_le_mono1 [of "unat hs + 1" "unat h" "2 ^ 32"] unfolding R_def T_def w
      by (simp add: diff_mult_distrib)
  qed
qed

text \<open>The shifted divisor, split into its two words.\<close>

lemma shifted_divisor:
  "c \<le> 32 \<Longrightarrow> unat (drop_bit (32 - c) (s :: u32)) * 2 ^ 32 + unat (push_bit c s) = unat s * 2 ^ c"
proof -
  assume c: "c \<le> 32"
  have "unat (push_bit c s) = unat s * 2 ^ c mod 2 ^ 32" unfolding unsigned_push_bit_eq by (simp add: take_bit_eq_mod push_bit_eq_mult)
  moreover have "unat s * 2 ^ c div 2 ^ 32 = unat s div 2 ^ (32 - c)"
  proof -
    have "(2 :: nat) ^ 32 = 2 ^ (32 - c) * 2 ^ c" using c by (simp flip: power_add)
    then have "unat s * 2 ^ c div 2 ^ 32 = unat s * 2 ^ c div (2 ^ (32 - c) * 2 ^ c)" by (simp only:)
    also have "\<dots> = unat s div 2 ^ (32 - c)" by (rule div_mult_mult2) simp
    finally show ?thesis .
  qed
  ultimately show ?thesis unfolding unat_drop by (metis div_mult_mod_eq)
qed

lemma double_plus: "push_bit 1 x OR 1 = 2 * x + (1 :: u32)" "push_bit 1 x = 2 * x"
proof -
  have "push_bit 1 x + 1 = push_bit 1 x OR 1" by (rule disjunctive_add) (simp only: bit_push_bit_iff bit_1_iff, simp)
  then show "push_bit 1 x OR 1 = 2 * x + (1 :: u32)" by (simp add: mult.commute)
qed simp

lemma idiv_long_step:
  fixes s h l dv :: u32
  assumes c: "c \<le> 32" and s: "unat s < 2 ^ 31"
  defines "R \<equiv> unat h * 2 ^ 32 + unat l"
  obtains h' l' where
    "idiv_long_loop (int c) s (drop_bit (32 - c) s) (push_bit c s) h l dv =
      (if c = 0 then (h', l', 2 * dv + of_bool (unat s * 2 ^ c \<le> R))
       else idiv_long_loop (int (c - 1)) s (drop_bit (32 - (c - 1)) s) (push_bit (c - 1) s) h' l' (2 * dv + of_bool (unat s * 2 ^ c \<le> R)))"
    "unat h' * 2 ^ 32 + unat l' = R - (if unat s * 2 ^ c \<le> R then unat s * 2 ^ c else 0)"
proof -
  let ?hs = "drop_bit (32 - c) s" and ?ls = "push_bit c s"
  let ?c = "if l \<ge> ?ls then 0 else 1 :: u32"
  let ?l = "if ?c \<noteq> 0 then (0xFFFFFFFF - ?ls) + l + 1 else l - ?ls"
  have "unat ?hs \<le> unat s" unfolding unat_drop by simp
  then have hs: "unat ?hs + 1 < 2 ^ 32" using s by simp
  note step = sub_two_words [OF hs, where l = l and ls = ?ls and h = h, unfolded shifted_divisor [OF c], folded R_def]
  define h' l' where hl: "h' = (if unat s * 2 ^ c \<le> R then h - (?hs + ?c) else h)" "l' = (if unat s * 2 ^ c \<le> R then ?l else l)"
  have val: "unat h' * 2 ^ 32 + unat l' = R - (if unat s * 2 ^ c \<le> R then unat s * 2 ^ c else 0)"
    unfolding hl using step(2) by (auto simp: R_def)
  have nx: "c_shl s (word_of_int (int c - 1)) = push_bit (c - 1) s" "drop_bit 1 ?hs = drop_bit (32 - (c - 1)) s" if "c \<noteq> 0"
  proof -
    have "word_of_int (int c - 1) = (of_nat (c - 1) :: u32)" using that by (simp add: of_nat_diff)
    moreover have "unat (of_nat (c - 1) :: u32) = c - 1" using c by (simp add: unsigned_of_nat take_bit_nat_eq_self)
    ultimately show "c_shl s (word_of_int (int c - 1)) = push_bit (c - 1) s" using c that by (simp add: c_shl_def)
    have "1 + (32 - c) = 32 - (c - 1)" using that c by arith
    then show "drop_bit 1 ?hs = drop_bit (32 - (c - 1)) s" by (simp only: drop_bit_drop_bit)
  qed
  have "(if h < ?hs + ?c then (h, l, push_bit 1 dv) else (h - (?hs + ?c), ?l, push_bit 1 dv OR 1)) =
    (h', l', 2 * dv + of_bool (unat s * 2 ^ c \<le> R))"
    unfolding hl step(1) double_plus(1) by (simp add: double_plus(2) not_less [symmetric])
  then have E: "idiv_long_loop (int c) s ?hs ?ls h l dv =
     (if int c - 1 > - 1 then idiv_long_loop (int c - 1) s (drop_bit 1 ?hs) (c_shl s (word_of_int (int c - 1))) h' l'
        (2 * dv + of_bool (unat s * 2 ^ c \<le> R)) else (h', l', 2 * dv + of_bool (unat s * 2 ^ c \<le> R)))"
    by (subst idiv_long_loop.simps) (simp only: Let_def split_conv)
  show thesis
  proof (rule that [OF _ val])
    show "idiv_long_loop (int c) s ?hs ?ls h l dv =
      (if c = 0 then (h', l', 2 * dv + of_bool (unat s * 2 ^ c \<le> R))
       else idiv_long_loop (int (c - 1)) s (drop_bit (32 - (c - 1)) s) (push_bit (c - 1) s) h' l' (2 * dv + of_bool (unat s * 2 ^ c \<le> R)))"
      unfolding E using nx by (cases "c = 0") (simp_all add: of_nat_diff)
  qed
qed

lemma idiv_long_loop_correct:
  fixes s h l dv :: u32
  assumes "c \<le> 32" "unat s < 2 ^ 31" "unat h * 2 ^ 32 + unat l < unat s * 2 ^ Suc c"
  shows "\<exists>h' l'. idiv_long_loop (int c) s (drop_bit (32 - c) s) (push_bit c s) h l dv =
      (h', l', dv * 2 ^ Suc c + of_nat ((unat h * 2 ^ 32 + unat l) div unat s)) \<and>
    unat h' * 2 ^ 32 + unat l' = (unat h * 2 ^ 32 + unat l) mod unat s"
  using assms
proof (induction c arbitrary: h l dv)
  case 0
  define R where R: "R = unat h * 2 ^ 32 + unat l"
  obtain h' l' where st: "idiv_long_loop (int 0) s (drop_bit (32 - 0) s) (push_bit 0 s) h l dv = (h', l', 2 * dv + of_bool (unat s \<le> R))"
    "unat h' * 2 ^ 32 + unat l' = R - (if unat s \<le> R then unat s else 0)"
    by (rule idiv_long_step [OF 0(1,2), of h l dv, folded R]) simp
  have "R < 2 * unat s" using 0(3) R by simp
  then have "R div unat s = of_bool (unat s \<le> R)" "R mod unat s = R - (if unat s \<le> R then unat s else 0)"
    by (auto simp: div_nat_eqI mod_if)
  then show ?case using st unfolding R [symmetric] by (auto simp: mult.commute)
next
  case (Suc c)
  define R where R: "R = unat h * 2 ^ 32 + unat l"
  let ?T = "unat s * 2 ^ Suc c"
  obtain h' l' where st: "idiv_long_loop (int (Suc c)) s (drop_bit (32 - Suc c) s) (push_bit (Suc c) s) h l dv =
      idiv_long_loop (int c) s (drop_bit (32 - c) s) (push_bit c s) h' l' (2 * dv + of_bool (?T \<le> R))"
    "unat h' * 2 ^ 32 + unat l' = R - (if ?T \<le> R then ?T else 0)"
    by (rule idiv_long_step [OF Suc.prems(1,2), of h l dv, folded R]) simp
  have RT: "R < 2 * ?T" using Suc.prems(3) R by simp
  then have lt: "unat h' * 2 ^ 32 + unat l' < unat s * 2 ^ Suc c" unfolding st(2) by auto
  have pos: "0 < unat s" using Suc.prems(3) by (cases "unat s") auto
  have dm: "R div unat s = (if ?T \<le> R then 2 ^ Suc c else 0) + (unat h' * 2 ^ 32 + unat l') div unat s"
    "R mod unat s = (unat h' * 2 ^ 32 + unat l') mod unat s"
  proof -
    have "R = (if ?T \<le> R then 2 ^ Suc c else 0) * unat s + (unat h' * 2 ^ 32 + unat l')" unfolding st(2) by auto
    then show "R div unat s = (if ?T \<le> R then 2 ^ Suc c else 0) + (unat h' * 2 ^ 32 + unat l') div unat s"
      "R mod unat s = (unat h' * 2 ^ 32 + unat l') mod unat s" using pos by (metis div_mult_self3 neq0_conv, metis mod_mult_self3)
  qed
  obtain h2 l2 where "idiv_long_loop (int c) s (drop_bit (32 - c) s) (push_bit c s) h' l' (2 * dv + of_bool (?T \<le> R)) =
      (h2, l2, (2 * dv + of_bool (?T \<le> R)) * 2 ^ Suc c + of_nat ((unat h' * 2 ^ 32 + unat l') div unat s))"
    "unat h2 * 2 ^ 32 + unat l2 = (unat h' * 2 ^ 32 + unat l') mod unat s"
    using Suc.IH [OF Suc_leD [OF Suc.prems(1)] Suc.prems(2) lt] by blast
  moreover have "(2 * dv + of_bool (?T \<le> R)) * 2 ^ Suc c + of_nat ((unat h' * 2 ^ 32 + unat l') div unat s) =
    dv * 2 ^ Suc (Suc c) + (of_nat (R div unat s) :: u32)"
    unfolding dm by (simp add: algebra_simps)
  ultimately show ?case unfolding st(1) R [symmetric] dm(2) by (simp only:) blast
qed

text \<open>The signed comparison of \<open>div_long\<close> agrees with the unsigned one while the top bits are clear.\<close>

lemma signed_less: "unat a < 2 ^ 31 \<Longrightarrow> unat b < 2 ^ 31 \<Longrightarrow> sint a < sint (b :: u32) \<longleftrightarrow> a < b"
  using sint_cases [of a] sint_cases [of b] by (simp add: word_less_alt)

lemma div_long_loop_eq:
  assumes "unat h < 2 ^ 31" "unat hs + (if ls \<le> l then 0 else 1) < 2 ^ 31"
  shows "div_long_loop (int c) s hs ls h l dv = idiv_long_loop (int c) s hs ls h l dv"
  using assms
proof (induction c arbitrary: hs ls h l dv)
  case 0
  have "unat (hs + (if l \<ge> ls then 0 else 1)) < 2 ^ 31" using 0(2) by (auto simp: unat_add_mult split: if_splits)
  then show ?case using signed_less [OF 0(1)] by (simp add: div_long_loop.simps [of 0] idiv_long_loop.simps [of 0] Let_def)
next
  case (Suc c)
  have u: "unat (hs + (if l \<ge> ls then 0 else 1)) < 2 ^ 31" using Suc.prems(2) by (auto simp: unat_add_mult split: if_splits)
  note lt = signed_less [OF Suc.prems(1) u]
  let ?h = "h - (hs + (if l \<ge> ls then 0 else 1))"
  have h: "unat ?h < 2 ^ 31" if "\<not> h < hs + (if l \<ge> ls then 0 else 1)"
    using that Suc.prems(1) unat_sub_le [of "hs + (if l \<ge> ls then 0 else 1)" h] by (simp add: not_less)
  have "unat (drop_bit 1 hs) < 2 ^ 30" unfolding unat_drop using Suc.prems(2) by (auto split: if_splits)
  then have hs: "unat (drop_bit 1 hs) + (if a \<le> b then 0 else 1) < 2 ^ 31" for a b :: u32 by (cases "a \<le> b") simp_all
  show ?case
    unfolding div_long_loop.simps [of "int (Suc c)"] idiv_long_loop.simps [of "int (Suc c)"] lt Let_def
    using Suc.IH [OF h hs] Suc.IH [OF Suc.prems(1) hs] by (cases "h < hs + (if l \<ge> ls then 0 else 1)") simp_all
qed

lemma div_long_ok:
  fixes s :: u32
  assumes "unat s < 2 ^ 31" "unat (gD m) < 2 ^ 31" "unat (gD m) < 2 * unat s"
  defines "n \<equiv> unat (gD m) * 2 ^ 32 + unat (gA m)"
  shows "gA (div_long s m) = of_nat (n div unat s) \<and> unat (gD (div_long s m)) = n mod unat s \<and>
    (div_long s m)\<lparr>gA := gA m, gD := gD m, FLAGS := FLAGS m\<rparr> = m"
proof -
  have s0: "s \<noteq> 0" "0 < unat s" using assms(3) by auto
  have "n < (unat (gD m) + 1) * 2 ^ 32" unfolding n_def using unat_bound [of "gA m"] by simp
  also have "\<dots> \<le> (2 * unat s) * 2 ^ 32" using assms(3) by (intro mult_le_mono1) simp
  finally have "n < unat s * 2 ^ Suc 32" by simp
  then obtain h l where L: "idiv_long_loop (int 32) s (drop_bit (32 - 32) s) (push_bit 32 s) (gD m) (gA m) 0 =
      (h, l, 0 * 2 ^ Suc 32 + of_nat (n div unat s))" "unat h * 2 ^ 32 + unat l = n mod unat s"
    using idiv_long_loop_correct [of 32 s "gD m" "gA m" 0, OF _ assms(1)] unfolding n_def by blast
  have z: "push_bit 32 s = 0" by (rule bit_word_eqI) (simp add: bit_simps)
  have "div_long_loop 32 s s 0 (gD m) (gA m) 0 = (h, l, of_nat (n div unat s))"
    using L(1) div_long_loop_eq [of "gD m" s 0 "gA m" 32 s 0] assms(1,2) unfolding z by simp
  moreover have r: "n mod unat s < unat s" using s0(2) by (rule mod_less_divisor)
  then have "unat h = 0" using L(2) assms(1) by (cases "unat h") auto
  then have "h = 0" "unat l = n mod unat s" using L(2) by (simp_all add: unat_eq_zero)
  moreover have "\<not> l > s" using r \<open>unat l = n mod unat s\<close> by (simp add: word_less_nat_alt)
  ultimately show ?thesis using s0(1)
    by (simp add: div_long_def Let_def CLEAR_FLAG_def CONDITIONAL_SET_FLAG_def SET_FLAG_def)
qed

lemma div_long_exact:
  fixes s :: u32
  assumes "unat s < 2 ^ 31" "unat (gD m) < unat s"
  defines "n \<equiv> unat (gD m) * 2 ^ 32 + unat (gA m)"
  shows "unat (gA (div_long s m)) = n div unat s"
proof -
  have "n < (unat (gD m) + 1) * 2 ^ 32" unfolding n_def using unat_bound [of "gA m"] by simp
  also have "\<dots> \<le> unat s * 2 ^ 32" using assms(2) by (intro mult_le_mono1) simp
  finally have "n div unat s < 2 ^ 32" by (simp add: less_mult_imp_div_less mult.commute)
  then show ?thesis using div_long_ok [of s m] assms by (simp add: unsigned_of_nat take_bit_nat_eq_self)
qed

lemma idiv_long_ok:
  fixes s :: u32
  defines "n m \<equiv> sint (gD m) * 2 ^ 32 + int (unat (gA m))"
  assumes "0 < sint s" "0 \<le> sint (gD m)" "n m < sint s * 2 ^ 31" "bit (gD m) 28 = bit s 28"
  shows "sint (gA (idiv_long s m)) = n m div sint s \<and> sint (gD (idiv_long s m)) = n m mod sint s \<and>
    (idiv_long s m)\<lparr>gA := gA m, gD := gD m, FLAGS := FLAGS m\<rparr> = m"
proof -
  obtain S where S: "unat s = S" "sint s = int S" "0 < S" "S < 2 ^ 31"
    by (rule sint_nat [of s]) (use assms(2) in \<open>auto split: if_splits\<close>)
  obtain D where D: "unat (gD m) = D" "sint (gD m) = int D" "D < 2 ^ 31"
    by (rule sint_nat [of "gD m"]) (use assms(3) in \<open>auto split: if_splits\<close>)
  define N where N: "N = D * 2 ^ 32 + unat (gA m)"
  have nN: "n m = int N" unfolding n_def N D(2) by simp
  have lt: "N < S * 2 ^ 31" using assms(4) unfolding nN S(2) by (metis of_nat_less_iff of_nat_mult of_nat_numeral of_nat_power)
  have ab: "s AND 0x7FFFFFFF = s" "gD m AND 0x7FFFFFFF = gD m"
  proof -
    have "(0x7FFFFFFF :: u32) = mask 31" by code_simp
    moreover have "take_bit 31 x = x" if "unat x < 2 ^ 31" for x :: u32
      using that by (intro word_unat_eq_iff [THEN iffD2]) (simp add: unsigned_take_bit_eq take_bit_nat_eq_self)
    ultimately show "s AND 0x7FFFFFFF = s" "gD m AND 0x7FFFFFFF = gD m" using S D by (simp_all add: take_bit_eq_mask)
  qed
  have sg: "(gD m AND 0x10000000) XOR (s AND 0x10000000) = 0"
    using and_exp_if [of "gD m" 28] and_exp_if [of s 28] assms(5) by simp
  have "unat (gD m) * 2 ^ 32 + unat (gA m) < unat s * 2 ^ Suc 31" using lt unfolding N D(1) S(1) by simp
  then obtain h l where L: "idiv_long_loop (int 31) s (drop_bit (32 - 31) s) (push_bit 31 s) (gD m) (gA m) 0 =
      (h, l, 0 * 2 ^ Suc 31 + of_nat (N div S))" "unat h * 2 ^ 32 + unat l = N mod S"
    using idiv_long_loop_correct [of 31 s "gD m" "gA m" 0] S unfolding N D(1) by auto
  have r: "N mod S < S" using S(3) by (rule mod_less_divisor)
  then have "unat h = 0" using L(2) S(4) by (cases "unat h") auto
  then have hl: "h = 0" "unat l = N mod S" using L(2) by (simp_all add: unat_eq_zero)
  have ls: "\<not> l > s" using r hl(2) S(1) by (simp add: word_less_nat_alt)
  have "N div S < 2 ^ 31" using lt by (simp add: less_mult_imp_div_less mult.commute)
  then have q: "unat (of_nat (N div S) :: u32) = N div S" by (simp add: unsigned_of_nat take_bit_nat_eq_self)
  have si: "sint (of_nat (N div S) :: u32) = int (N div S)" "sint l = int (N mod S)"
    using sint_cases [of "of_nat (N div S) :: u32"] sint_cases [of l] \<open>N div S < 2 ^ 31\<close> q hl(2) r S(4) by (simp_all del: of_nat_unat)
  have "idiv_long_loop 31 s (drop_bit 1 s) (push_bit 31 s) (gD m) (gA m) 0 = (0, l, of_nat (N div S))" using L(1) hl(1) by simp
  moreover have "s \<noteq> 0" using S by auto
  ultimately show ?thesis using ls si unfolding nN S(2)
    by (simp add: idiv_long_def ab sg Let_def CLEAR_FLAG_def CONDITIONAL_SET_FLAG_def SET_FLAG_def zdiv_int zmod_int)
qed

text \<open>Clearing the sign bit is not negation: a dividend between \<open>- 2 ^ 32\<close> and \<open>- 1\<close> looks huge to the loop.\<close>

lemma idiv_long_loop_lower:
  fixes s h l dv :: u32
  assumes "c \<le> 32" "unat s < 2 ^ 31"
  shows "unat h * 2 ^ 32 + unat l + unat s \<le> (case idiv_long_loop (int c) s (drop_bit (32 - c) s) (push_bit c s) h l dv of
    (h', l', _) \<Rightarrow> unat h' * 2 ^ 32 + unat l') + unat s * 2 ^ Suc c"
  using assms
proof (induction c arbitrary: h l dv)
  case 0
  obtain h' l' where st: "idiv_long_loop (int 0) s (drop_bit (32 - 0) s) (push_bit 0 s) h l dv =
      (h', l', 2 * dv + of_bool (unat s \<le> unat h * 2 ^ 32 + unat l))"
    "unat h' * 2 ^ 32 + unat l' = unat h * 2 ^ 32 + unat l - (if unat s \<le> unat h * 2 ^ 32 + unat l then unat s else 0)"
    by (rule idiv_long_step [OF 0(1,2), of h l dv]) simp
  show ?case unfolding st(1) split_conv st(2) by simp
next
  case (Suc c)
  define R where R: "R = unat h * 2 ^ 32 + unat l"
  let ?T = "unat s * 2 ^ Suc c"
  obtain h' l' where st: "idiv_long_loop (int (Suc c)) s (drop_bit (32 - Suc c) s) (push_bit (Suc c) s) h l dv =
      idiv_long_loop (int c) s (drop_bit (32 - c) s) (push_bit c s) h' l' (2 * dv + of_bool (?T \<le> R))"
    "unat h' * 2 ^ 32 + unat l' = R - (if ?T \<le> R then ?T else 0)"
    by (rule idiv_long_step [OF Suc.prems, of h l dv, folded R]) simp
  have "R \<le> unat h' * 2 ^ 32 + unat l' + ?T" unfolding st(2) by simp
  then show ?case using Suc.IH [OF Suc_leD [OF Suc.prems(1)] Suc.prems(2), of h' l' "2 * dv + of_bool (?T \<le> R)"]
    unfolding st(1) R [symmetric] by simp
qed

lemma idiv_long_negative:
  assumes "s \<noteq> 0" "unat s < 0x7FFFFFFF" "gD m = - 1"
  shows "idiv_long s m = x86emu_intr_raise 0 m"
proof -
  have "(0x7FFFFFFF :: u32) = mask 31" by code_simp
  moreover have "take_bit 31 s = s" using assms(2) by (intro word_unat_eq_iff [THEN iffD2]) (simp add: unsigned_take_bit_eq take_bit_nat_eq_self)
  ultimately have a: "s AND 0x7FFFFFFF = s" by (simp add: take_bit_eq_mask)
  obtain h l q where L: "idiv_long_loop 31 s (drop_bit 1 s) (push_bit 31 s) 0x7FFFFFFF (gA m) 0 = (h, l, q)"
    by (cases "idiv_long_loop 31 s (drop_bit 1 s) (push_bit 31 s) 0x7FFFFFFF (gA m) 0") auto
  have "0x7FFFFFFF * 2 ^ 32 + unat (gA m) + unat s \<le> unat h * 2 ^ 32 + unat l + unat s * 2 ^ 32"
    using idiv_long_loop_lower [of 31 s "0x7FFFFFFF" "gA m" 0] assms(2) L by simp
  then have "h \<noteq> 0" using assms(2) unat_bound [of l] by (cases "h = 0") auto
  then show ?thesis using assms(1,3) L by (simp add: idiv_long_def a)
qed

section \<open>Properties\<close>

text \<open>C39: Unsigned and signed multiplication: the byte and word forms of \<open>MUL\<close> and \<open>IMUL\<close> leave the whole
  double-width product in \<open>AX\<close> or \<open>DX:AX\<close>, keep the upper halves of the registers and everything else, and
  carry and overflow of \<open>MUL\<close> and of the byte \<open>IMUL\<close> are set exactly when the product does not fit the operand
  width; carry and overflow of the word \<open>IMUL\<close> are clear exactly for the two ranges shown.\<close>

theorem x86_multiplication_correct:
  "(let m' = mul_byte b m; p = unat (R_AL m) * unat b in unat (R_AX m') = p \<and> drop_bit 16 (gA m') = drop_bit 16 (gA m) \<and>
     mul_flags (256 \<le> p) m m' \<and> m'\<lparr>gA := gA m, FLAGS := FLAGS m\<rparr> = m) \<and>
   (let m' = mul_word w m; p = unat (R_AX m) * unat w in unat (R_DX m') * 2 ^ 16 + unat (R_AX m') = p \<and>
     drop_bit 16 (gA m') = drop_bit 16 (gA m) \<and> drop_bit 16 (gD m') = drop_bit 16 (gD m) \<and>
     mul_flags (2 ^ 16 \<le> p) m m' \<and> m'\<lparr>gA := gA m, gD := gD m, FLAGS := FLAGS m\<rparr> = m) \<and>
   (let m' = imul_byte b m; p = sint (R_AL m) * sint b in sint (R_AX m') = p \<and> drop_bit 16 (gA m') = drop_bit 16 (gA m) \<and>
     mul_flags (\<not> (- 128 \<le> p \<and> p < 128)) m m' \<and> m'\<lparr>gA := gA m, FLAGS := FLAGS m\<rparr> = m) \<and>
   (let m' = imul_word w m; p = sint (R_AX m) * sint w in
     sint (push_bit 16 (ucast (R_DX m')) OR ucast (R_AX m') :: u32) = p \<and>
     drop_bit 16 (gA m') = drop_bit 16 (gA m) \<and> drop_bit 16 (gD m') = drop_bit 16 (gD m) \<and>
     mul_flags (\<not> ((0 \<le> p \<and> p < 2 ^ 15) \<or> (0xFF8000 \<le> p \<and> p < 0x1000000))) m m' \<and>
     m'\<lparr>gA := gA m, gD := gD m, FLAGS := FLAGS m\<rparr> = m)"
  unfolding Let_def by (intro conjI; insert mul_byte_ok [of b m] mul_word_ok [of w m] imul_byte_ok [of b m] imul_word_ok [of w m]; blast)

text \<open>The 32-bit products built from half words: \<open>EAX\<close> is always the product modulo \<open>2 ^ 32\<close>, and \<open>EDX:EAX\<close>
  is the full product of \<open>MUL\<close>, and the two's complement 64-bit product of \<open>imul_long_direct\<close>, whenever the
  middle column of the schoolbook product does not overflow a word.\<close>

theorem x86_long_product_correct:
  assumes "mid_sum (gA m) s < 2 ^ 32" "mid_sum (c_abs d) (c_abs e) < 2 ^ 32"
  shows "gA (mul_long s' m) = gA m * s' \<and> fst (imul_long_direct d' e') = d' * e' \<and>
    unat (gD (mul_long s m)) * 2 ^ 32 + unat (gA (mul_long s m)) = unat (gA m) * unat s \<and>
    mul_flags (gD (mul_long s m) \<noteq> 0) m (mul_long s m) \<and>
    (mul_long s m)\<lparr>gA := gA m, gD := gD m, FLAGS := FLAGS m\<rparr> = m \<and>
    int (unat (snd (imul_long_direct d e))) * 2 ^ 32 + int (unat (fst (imul_long_direct d e))) = (sint d * sint e) mod 2 ^ 64"
  using mul_long_ok [of s m] mul_long_ok [of s' m] imul_long_direct_lo imul_long_direct_ok [OF assms(2)] assms(1) by blast

theorem x86_long_product_correct_witness:
  "unat (gD (mul_long 0x10000 (x86_zero\<lparr>gA := 0x12345678\<rparr>))) * 2 ^ 32 +
   unat (gA (mul_long 0x10000 (x86_zero\<lparr>gA := 0x12345678\<rparr>))) = 0x12345678 * 0x10000"
proof -
  have "mid_sum (gA (x86_zero\<lparr>gA := 0x12345678\<rparr>)) 0x10000 < 2 ^ 32" "mid_sum (c_abs 3) (c_abs 5) < 2 ^ 32"
    by (simp_all add: mid_sum_def c_abs_def)
  from x86_long_product_correct [OF this]
  have "unat (gD (mul_long 0x10000 (x86_zero\<lparr>gA := 0x12345678\<rparr>))) * 2 ^ 32 + unat (gA (mul_long 0x10000 (x86_zero\<lparr>gA := 0x12345678\<rparr>))) =
    unat (gA (x86_zero\<lparr>gA := 0x12345678\<rparr>)) * unat (0x10000 :: u32)" by blast
  then show ?thesis by (rule trans) simp
qed

text \<open>Division by bytes and words: for a divisor other than zero and a quotient that fits, \<open>DIV\<close> and \<open>IDIV\<close>
  leave quotient and remainder (truncated towards zero for \<open>IDIV\<close>) and keep the rest; a quotient that does not
  fit (for the word forms, below \<open>2 ^ 31\<close> in size) raises interrupt 0 and changes nothing else.\<close>

theorem x86_division_correct:
  fixes m :: x86 and b :: u8 and w :: u16
  assumes "b \<noteq> 0" "w \<noteq> 0"
  defines "N \<equiv> sint (push_bit 16 (ucast (R_DX m)) OR ucast (R_AX m) :: u32)"
    and "n \<equiv> unat (R_DX m) * 2 ^ 16 + unat (R_AX m)"
  shows "(if unat (R_AX m) div unat b \<le> 255
      then unat (R_AL (div_byte b m)) = unat (R_AX m) div unat b \<and> unat (R_AH (div_byte b m)) = unat (R_AX m) mod unat b \<and>
        (div_byte b m)\<lparr>gA := gA m\<rparr> = m
      else div_byte b m = x86emu_intr_raise 0 m) \<and>
    (if \<bar>sint (R_AX m) sdiv sint b\<bar> \<le> 127
      then sint (R_AL (idiv_byte b m)) = sint (R_AX m) sdiv sint b \<and> sint (R_AH (idiv_byte b m)) = sint (R_AX m) smod sint b \<and>
        (idiv_byte b m)\<lparr>gA := gA m\<rparr> = m
      else idiv_byte b m = x86emu_intr_raise 0 m) \<and>
    (if n div unat w \<le> 0xffff
      then unat (R_AX (div_word w m)) = n div unat w \<and> unat (R_DX (div_word w m)) = n mod unat w \<and>
        (div_word w m)\<lparr>gA := gA m, gD := gD m, FLAGS := FLAGS m\<rparr> = m
      else n div unat w < 2 ^ 31 \<longrightarrow> div_word w m = x86emu_intr_raise 0 m) \<and>
    (if \<bar>N sdiv sint w\<bar> \<le> 0x7fff
      then \<exists>m'. idiv_word w m = Some m' \<and> sint (R_AX m') = N sdiv sint w \<and> sint (R_DX m') = N smod sint w \<and>
        m'\<lparr>gA := gA m, gD := gD m, FLAGS := FLAGS m\<rparr> = m
      else \<bar>N sdiv sint w\<bar> < 2 ^ 31 \<longrightarrow> idiv_word w m = Some (x86emu_intr_raise 0 m))"
proof -
  note B = div_byte_ok [OF assms(1), of m] idiv_byte_ok [OF assms(1), of m]
  note W = div_word_ok [OF assms(2), of m, folded n_def] idiv_word_ok [OF assms(2), of m, folded N_def]
  show ?thesis using B W by (auto simp only: not_le split: if_split)
qed

theorem x86_division_correct_witness:
  "unat (R_AL (div_byte 7 (x86_zero\<lparr>gA := 100\<rparr>))) = 14 \<and> unat (R_AH (div_byte 7 (x86_zero\<lparr>gA := 100\<rparr>))) = 2"
proof -
  have "(7 :: u8) \<noteq> 0" "(1 :: u16) \<noteq> 0" by simp_all
  from x86_division_correct [OF this, of "x86_zero\<lparr>gA := 100\<rparr>"] show ?thesis
    by (simp add: lo16_def)
qed

text \<open>C40: Division by long words: the shift-and-subtract loop of \<open>div_long\<close> computes quotient and remainder of
  \<open>EDX:EAX\<close> whenever \<open>EDX\<close> is below the divisor and the divisor below \<open>2 ^ 31\<close>; that of \<open>idiv_long\<close> does so for
  operands that are not negative, a quotient below \<open>2 ^ 31\<close> and equal bits 28 in \<open>EDX\<close> and the divisor.  \<open>x86_muldiv_deviations\<close> below shows that the conditions matter.\<close>

theorem x86_long_division_correct:
  assumes "unat s < 2 ^ 31" "unat (gD m) < unat s"
    and "0 < sint t" "0 \<le> sint (gD k)" "sint (gD k) * 2 ^ 32 + int (unat (gA k)) < sint t * 2 ^ 31" "bit (gD k) 28 = bit t 28"
  shows "unat (gA (div_long s m)) = (unat (gD m) * 2 ^ 32 + unat (gA m)) div unat s \<and>
    unat (gD (div_long s m)) = (unat (gD m) * 2 ^ 32 + unat (gA m)) mod unat s \<and>
    (div_long s m)\<lparr>gA := gA m, gD := gD m, FLAGS := FLAGS m\<rparr> = m \<and>
    sint (gA (idiv_long t k)) = (sint (gD k) * 2 ^ 32 + int (unat (gA k))) div sint t \<and>
    sint (gD (idiv_long t k)) = (sint (gD k) * 2 ^ 32 + int (unat (gA k))) mod sint t \<and>
    (idiv_long t k)\<lparr>gA := gA k, gD := gD k, FLAGS := FLAGS k\<rparr> = k"
  using div_long_ok [of s m] div_long_exact [OF assms(1,2)] idiv_long_ok [OF assms(3-6)] assms(1,2) by simp

theorem x86_long_division_correct_witness:
  "unat (gA (div_long 10 (x86_zero\<lparr>gA := 5, gD := 1\<rparr>))) = 429496730 \<and> unat (gD (div_long 10 (x86_zero\<lparr>gA := 5, gD := 1\<rparr>))) = 1 \<and>
   sint (gA (idiv_long 10 (x86_zero\<lparr>gA := 5, gD := 1\<rparr>))) = 429496730 \<and> sint (gD (idiv_long 10 (x86_zero\<lparr>gA := 5, gD := 1\<rparr>))) = 1"
proof -
  let ?m = "x86_zero\<lparr>gA := 5, gD := 1\<rparr>"
  have "unat (10 :: u32) < 2 ^ 31" "unat (gD ?m) < unat (10 :: u32)" "0 < sint (10 :: u32)" "0 \<le> sint (gD ?m)"
    "sint (gD ?m) * 2 ^ 32 + int (unat (gA ?m)) < sint (10 :: u32) * 2 ^ 31" "bit (gD ?m) 28 = bit (10 :: u32) 28" by simp_all
  from x86_long_division_correct [OF this] show ?thesis by simp
qed

text \<open>Where multiplication and division deviate from the instructions: \<open>mul_long\<close> loses the carry of the
  middle column; \<open>imul_word\<close> reports overflow for a product that fits; \<open>div_word\<close> accepts a quotient of 32 bits;
  \<open>div_long\<close> accepts a quotient of 33 bits and truncates it; \<open>idiv_long\<close> raises interrupt 0 for every dividend
  from \<open>- 2 ^ 32\<close> to \<open>- 1\<close> divided by \<open>2\<close>; and \<open>idiv_word\<close> of the most negative dividend by \<open>- 1\<close> traps in the
  host instead of raising interrupt 0.\<close>

theorem x86_muldiv_deviations:
  "gD (mul_long 0xFFFFFFFF (x86_zero\<lparr>gA := 0xFFFFFFFF\<rparr>)) = 0xFFFEFFFE \<and>
   ACCESS_FLAG F_OF (imul_word 1 (x86_zero\<lparr>gA := 0xFFFF\<rparr>)) \<and>
   intr (div_word 1 (x86_zero\<lparr>gA := 0xFFFF, gD := 0xFFFF\<rparr>)) = 0 \<and>
   gA (div_long 1 (x86_zero\<lparr>gA := 0, gD := 1\<rparr>)) = 0 \<and> intr (div_long 1 (x86_zero\<lparr>gA := 0, gD := 1\<rparr>)) = 0 \<and>
   idiv_long 2 (m\<lparr>gD := 0xFFFFFFFF\<rparr>) = x86emu_intr_raise 0 (m\<lparr>gD := 0xFFFFFFFF\<rparr>) \<and>
   idiv_word 0xFFFF (x86_zero\<lparr>gA := 0, gD := 0x8000\<rparr>) = None"
proof -
  let ?m = "x86_zero\<lparr>gA := 0, gD := 1\<rparr>"
  have d: "gA (div_long 1 ?m) = of_nat (2 ^ 32)" "(div_long 1 ?m)\<lparr>gA := gA ?m, gD := gD ?m, FLAGS := FLAGS ?m\<rparr> = ?m"
    using div_long_ok [of 1 ?m] by simp_all
  from arg_cong [OF d(2), of intr] have i: "intr (div_long 1 ?m) = 0" by (simp add: x86_zero_def)
  have "(0xFFFFFFFF :: u32) = - 1" by simp
  then have "idiv_long 2 (m\<lparr>gD := 0xFFFFFFFF\<rparr>) = x86emu_intr_raise 0 (m\<lparr>gD := 0xFFFFFFFF\<rparr>)"
    by (intro idiv_long_negative) simp_all
  moreover have "gD (mul_long 0xFFFFFFFF (x86_zero\<lparr>gA := 0xFFFFFFFF\<rparr>)) = 0xFFFEFFFE" by code_simp
  moreover have "ACCESS_FLAG F_OF (imul_word 1 (x86_zero\<lparr>gA := 0xFFFF\<rparr>))" by code_simp
  moreover have "intr (div_word 1 (x86_zero\<lparr>gA := 0xFFFF, gD := 0xFFFF\<rparr>)) = 0" by code_simp
  moreover have "idiv_word 0xFFFF (x86_zero\<lparr>gA := 0, gD := 0x8000\<rparr>) = None" by code_simp
  ultimately show ?thesis using d(1) i by simp
qed

end
