(* ===== verification/Locks.thy ===== *)
theory Locks
  imports Prelude
begin

text \<open>
  The spin locks (\<open>include/kernel/common/lock.h\<close>, \<open>waitLock.cpp\<close>, \<open>recursiveLock.cpp\<close>, \<open>multipleReaderLock.cpp\<close>) as concurrent objects.  The lock
  words are shared; every processor (or thread) has a program counter that says where in \<open>acquire\<close> or \<open>release\<close> it is.  A step
  is one access to the shared words with the local computation up to the next one, so the step relations cover every interleaving of
  the atomic instructions (\<open>arch/x8632/atomic.h\<close>).  The build is the multiprocessor build without \<open>CONFIG_DEBUG_LOCKS\<close>, which
  would report a spin of bounded length.
\<close>

section \<open>Runs\<close>

inductive runs :: "('s \<Rightarrow> 's \<Rightarrow> bool) \<Rightarrow> 's \<Rightarrow> 's \<Rightarrow> bool" for step where
  stop: "runs step s s"
| more: "runs step s s' \<Longrightarrow> step s' s'' \<Longrightarrow> runs step s s''"

lemma runs_inv: "runs step s s' \<Longrightarrow> P s \<Longrightarrow> (\<And>s s'. P s \<Longrightarrow> step s s' \<Longrightarrow> P s') \<Longrightarrow> P s'"
  by (induction rule: runs.induct) blast+

lemma runs_one: "step s s' \<Longrightarrow> runs step s s'"
  using runs.more [OF runs.stop] by fast

lemma runs_trans: "runs step s s' \<Longrightarrow> runs step s' s'' \<Longrightarrow> runs step s s''"
  by (rotate_tac, induction rule: runs.induct) (auto intro: runs.more)

text \<open>The contract of a lock that at most one party holds.\<close>

locale exclusive_lock =
  fixes start :: "'s \<Rightarrow> bool" and step :: "'s \<Rightarrow> 's \<Rightarrow> bool" and linv :: "'s \<Rightarrow> bool" and inside :: "'s \<Rightarrow> 'p \<Rightarrow> bool"
  assumes start_inv: "start s \<Longrightarrow> linv s"
    and step_inv: "linv s \<Longrightarrow> step s s' \<Longrightarrow> linv s'"
    and inv_exclusive: "linv s \<Longrightarrow> inside s p \<Longrightarrow> inside s q \<Longrightarrow> p = q"
begin

lemma reach_inv: "start s \<Longrightarrow> runs step s s' \<Longrightarrow> linv s'"
  using runs_inv [of step s s' linv] start_inv step_inv by blast

lemma exclusive: "start s \<Longrightarrow> runs step s s' \<Longrightarrow> inside s' p \<Longrightarrow> inside s' q \<Longrightarrow> p = q"
  using inv_exclusive reach_inv by blast

end

section \<open>Atomic instructions and flags\<close>

text \<open>Each returns the value read and the value written.\<close>

definition atomic_exchange :: "u32 \<Rightarrow> u32 \<Rightarrow> u32 \<times> u32" where "atomic_exchange lock val = (lock, val)"

definition atomic_bitTestAndSet :: "u32 \<Rightarrow> nat \<Rightarrow> bool \<times> u32" where "atomic_bitTestAndSet lock b = (bit lock b, lock OR push_bit b 1)"

definition atomic_bitTestAndClear :: "u32 \<Rightarrow> nat \<Rightarrow> bool \<times> u32" where
  "atomic_bitTestAndClear lock b = (bit lock b, lock AND NOT (push_bit b 1))"

definition atomic_compareAndExchange :: "u32 \<Rightarrow> u32 \<Rightarrow> u32 \<Rightarrow> u32 \<times> u32" where
  "atomic_compareAndExchange lock cmpval val = (lock, if lock = cmpval then val else lock)"

definition FLAGS_ENUM_START :: nat where "FLAGS_ENUM_START = 24"

definition FLAGS_IRQS_WERE_ENABLED :: u32 where "FLAGS_IRQS_WERE_ENABLED = 0x1000000"

section \<open>WaitLock\<close>

text \<open>The field \<open>wc_entry\<close> is only observed: the interrupt state of the processor when it called \<open>acquire\<close>.\<close>

datatype wl_pc = WL_Out | WL_Try | WL_Got | WL_In | WL_Rel bool

record wl_cpu =
  wc_pc :: wl_pc
  wc_irqs :: bool
  wc_contenderFlags :: u32
  wc_entry :: bool

record waitlock =
  wl_lock :: u32
  wl_flags :: u32
  wl_cpu :: "u32 \<Rightarrow> wl_cpu"

definition wl_put :: "u32 \<Rightarrow> wl_cpu \<Rightarrow> waitlock \<Rightarrow> waitlock" where
  "wl_put c k s = s\<lparr>wl_cpu := (wl_cpu s)(c := k)\<rparr>"

definition wl_acquire_enter :: "u32 \<Rightarrow> waitlock \<Rightarrow> waitlock" where
  "wl_acquire_enter c s = (let k = wl_cpu s c in
     wl_put c (k\<lparr>wc_pc := WL_Try, wc_contenderFlags := (if wc_irqs k then FLAGS_IRQS_WERE_ENABLED else 0), wc_irqs := False,
       wc_entry := wc_irqs k\<rparr>) s)"

text \<open>One attempt.  While it spins the processor enables and disables interrupts; it tries again with interrupts disabled.\<close>

definition wl_acquire_try :: "u32 \<Rightarrow> waitlock \<Rightarrow> waitlock" where
  "wl_acquire_try c s = (let (old, new) = atomic_exchange (wl_lock s) 1 in
     wl_put c ((wl_cpu s c)\<lparr>wc_pc := (if old \<noteq> 0 then WL_Try else WL_Got)\<rparr>) (s\<lparr>wl_lock := new\<rparr>))"

definition wl_acquire_flags :: "u32 \<Rightarrow> waitlock \<Rightarrow> waitlock" where
  "wl_acquire_flags c s = wl_put c ((wl_cpu s c)\<lparr>wc_pc := WL_In\<rparr>) (s\<lparr>wl_flags := wl_flags s OR wc_contenderFlags (wl_cpu s c)\<rparr>)"

definition wl_release_flags :: "u32 \<Rightarrow> waitlock \<Rightarrow> waitlock" where
  "wl_release_flags c s = (let enableIrqs = wl_flags s AND FLAGS_IRQS_WERE_ENABLED \<noteq> 0 in
     wl_put c ((wl_cpu s c)\<lparr>wc_pc := WL_Rel enableIrqs\<rparr>)
       (s\<lparr>wl_flags := (if enableIrqs then wl_flags s AND NOT FLAGS_IRQS_WERE_ENABLED else wl_flags s)\<rparr>))"

definition wl_release_open :: "bool \<Rightarrow> u32 \<Rightarrow> waitlock \<Rightarrow> waitlock" where
  "wl_release_open enableIrqs c s = (let (old, new) = atomic_exchange (wl_lock s) 0; k = wl_cpu s c in
     wl_put c (k\<lparr>wc_pc := WL_Out, wc_irqs := wc_irqs k \<or> enableIrqs\<rparr>) (s\<lparr>wl_lock := new\<rparr>))"

definition wl_releaseNoIrqs :: "u32 \<Rightarrow> waitlock \<Rightarrow> waitlock" where
  "wl_releaseNoIrqs c s = (let (old, new) = atomic_exchange (wl_lock s) 0 in
     wl_put c ((wl_cpu s c)\<lparr>wc_pc := WL_Out\<rparr>) (s\<lparr>wl_flags := wl_flags s AND NOT FLAGS_IRQS_WERE_ENABLED, wl_lock := new\<rparr>))"

inductive wl_step :: "waitlock \<Rightarrow> waitlock \<Rightarrow> bool" where
  enter: "wc_pc (wl_cpu s c) = WL_Out \<Longrightarrow> wl_step s (wl_acquire_enter c s)"
| attempt: "wc_pc (wl_cpu s c) = WL_Try \<Longrightarrow> wl_step s (wl_acquire_try c s)"
| flags: "wc_pc (wl_cpu s c) = WL_Got \<Longrightarrow> wl_step s (wl_acquire_flags c s)"
| leave: "wc_pc (wl_cpu s c) = WL_In \<Longrightarrow> wl_step s (wl_release_flags c s)"
| leave_open: "wc_pc (wl_cpu s c) = WL_Rel e \<Longrightarrow> wl_step s (wl_release_open e c s)"
| leave_no_irqs: "wc_pc (wl_cpu s c) = WL_In \<Longrightarrow> wl_step s (wl_releaseNoIrqs c s)"

definition wl_start :: "waitlock \<Rightarrow> bool" where
  "wl_start s \<longleftrightarrow> wl_lock s = 0 \<and> wl_flags s = 0 \<and> (\<forall>c. wc_pc (wl_cpu s c) = WL_Out)"

definition wl_holds :: "waitlock \<Rightarrow> u32 \<Rightarrow> bool" where
  "wl_holds s c \<longleftrightarrow> wc_pc (wl_cpu s c) \<noteq> WL_Out \<and> wc_pc (wl_cpu s c) \<noteq> WL_Try"

definition wl_inside :: "waitlock \<Rightarrow> u32 \<Rightarrow> bool" where
  "wl_inside s c \<longleftrightarrow> wc_pc (wl_cpu s c) = WL_In"

text \<open>What holds at each program point, given the flags of the lock.\<close>

fun wl_point :: "u32 \<Rightarrow> wl_pc \<Rightarrow> u32 \<Rightarrow> bool" where
  "wl_point fl WL_Out con \<longleftrightarrow> True"
| "wl_point fl WL_Try con \<longleftrightarrow> True"
| "wl_point fl WL_Got con \<longleftrightarrow> fl = 0"
| "wl_point fl WL_In con \<longleftrightarrow> fl = con"
| "wl_point fl (WL_Rel e) con \<longleftrightarrow> fl = 0 \<and> e = (con \<noteq> 0)"

definition wl_local :: "u32 \<Rightarrow> wl_cpu \<Rightarrow> bool" where
  "wl_local fl k \<longleftrightarrow> wc_pc k = WL_Out \<or> \<not> wc_irqs k \<and> wc_contenderFlags k = (if wc_entry k then FLAGS_IRQS_WERE_ENABLED else 0) \<and> wl_point fl (wc_pc k) (wc_contenderFlags k)"

definition wl_rep :: "waitlock \<Rightarrow> u32 option \<Rightarrow> bool" where
  "wl_rep s h \<longleftrightarrow> wl_lock s = (if h = None then 0 else 1) \<and> (h = None \<longrightarrow> wl_flags s = 0) \<and> (\<forall>c. wl_holds s c \<longleftrightarrow> h = Some c) \<and>
     (\<forall>c. wl_local (wl_flags s) (wl_cpu s c))"

definition wl_inv :: "waitlock \<Rightarrow> bool" where
  "wl_inv s \<longleftrightarrow> (\<exists>h. wl_rep s h)"

lemma wl_put_simps [simp]:
  "wl_cpu (wl_put c k s) = (wl_cpu s)(c := k)" "wl_lock (wl_put c k s) = wl_lock s" "wl_flags (wl_put c k s) = wl_flags s"
  by (simp_all add: wl_put_def)

lemmas wl_defs = wl_acquire_enter_def wl_acquire_try_def wl_acquire_flags_def wl_release_flags_def wl_release_open_def wl_releaseNoIrqs_def
  atomic_exchange_def Let_def

lemma wl_local_other: "wl_local fl k \<Longrightarrow> wc_pc k = WL_Out \<or> wc_pc k = WL_Try \<Longrightarrow> wl_local fl' k"
  by (auto simp: wl_local_def)

text \<open>A step of one processor: its own part of the invariant, and the new holder.\<close>

lemma wl_rep_upd:
  assumes r: "wl_rep s h" and s': "wl_cpu s' = (wl_cpu s)(c := k')" and k: "wl_local (wl_flags s') k'"
    and l: "wl_lock s' = (if h' = None then 0 else 1)" "h' = None \<longrightarrow> wl_flags s' = 0"
    and h: "wc_pc k' \<noteq> WL_Out \<and> wc_pc k' \<noteq> WL_Try \<longleftrightarrow> h' = Some c" "h' = h \<or> (h = None \<or> h = Some c) \<and> (h' = None \<or> h' = Some c)"
    and fl: "wl_flags s' = wl_flags s \<or> h = Some c"
  shows "wl_inv s'"
proof -
  have "wl_local (wl_flags s') (wl_cpu s d)" if "d \<noteq> c" for d
  proof -
    have "wl_local (wl_flags s) (wl_cpu s d)" "wl_holds s d \<longleftrightarrow> h = Some d" using r by (simp_all add: wl_rep_def)
    then show ?thesis using fl that wl_local_other [of "wl_flags s" "wl_cpu s d" "wl_flags s'"] by (auto simp: wl_holds_def)
  qed
  moreover have "(wc_pc (wl_cpu s d) \<noteq> WL_Out \<and> wc_pc (wl_cpu s d) \<noteq> WL_Try) \<longleftrightarrow> h' = Some d" if "d \<noteq> c" for d
    using r h(2) that by (auto simp: wl_rep_def wl_holds_def)
  ultimately have "wl_rep s' h'" using k l h(1) by (simp add: wl_rep_def wl_holds_def s')
  then show ?thesis by (auto simp: wl_inv_def)
qed

lemma FLAGS_IRQS_simps [simp]:
  "FLAGS_IRQS_WERE_ENABLED \<noteq> 0" "FLAGS_IRQS_WERE_ENABLED AND NOT FLAGS_IRQS_WERE_ENABLED = 0"
  by (simp_all add: FLAGS_IRQS_WERE_ENABLED_def)

lemma wl_step_inv: "wl_inv s \<Longrightarrow> wl_step s s' \<Longrightarrow> wl_inv s'"
proof -
  assume "wl_inv s" and st: "wl_step s s'"
  then obtain h where r: "wl_rep s h" by (auto simp: wl_inv_def)
  have loc: "wl_local (wl_flags s) (wl_cpu s c)" and hold: "wl_holds s c \<longleftrightarrow> h = Some c" and lk: "wl_lock s = (if h = None then 0 else 1)"
    and fl: "h = None \<longrightarrow> wl_flags s = 0" for c using r by (simp_all add: wl_rep_def)
  show "wl_inv s'" using st
  proof cases
    case (enter c)
    have "h \<noteq> Some c" using hold [of c] enter by (simp add: wl_holds_def)
    then show ?thesis using lk fl
      by (intro wl_rep_upd [OF r, where h' = h and c = c]) (auto simp: enter(1) wl_defs wl_local_def)
  next
    case (attempt c)
    have "h \<noteq> Some c" using hold [of c] attempt by (simp add: wl_holds_def)
    then show ?thesis using lk fl loc [of c] attempt
      by (intro wl_rep_upd [OF r, where h' = "if h = None then Some c else h" and c = c]) (auto simp: attempt(1) wl_defs wl_local_def)
  next
    case (flags c)
    have "h = Some c" using hold [of c] flags by (simp add: wl_holds_def)
    then show ?thesis using lk loc [of c] flags
      by (intro wl_rep_upd [OF r, where h' = h and c = c]) (auto simp: flags(1) wl_defs wl_local_def)
  next
    case (leave c)
    have "h = Some c" using hold [of c] leave by (simp add: wl_holds_def)
    then show ?thesis using lk loc [of c] leave
      by (intro wl_rep_upd [OF r, where h' = h and c = c]) (auto simp: leave(1) wl_defs wl_local_def)
  next
    case (leave_open c e)
    have "h = Some c" using hold [of c] leave_open by (simp add: wl_holds_def)
    then show ?thesis using loc [of c] leave_open
      by (intro wl_rep_upd [OF r, where h' = None and c = c]) (auto simp: leave_open(1) wl_defs wl_local_def)
  next
    case (leave_no_irqs c)
    have "h = Some c" using hold [of c] leave_no_irqs by (simp add: wl_holds_def)
    then show ?thesis using loc [of c] leave_no_irqs
      by (intro wl_rep_upd [OF r, where h' = None and c = c]) (auto simp: leave_no_irqs(1) wl_defs wl_local_def)
  qed
qed

lemma wl_inv_exclusive: "wl_inv s \<Longrightarrow> wl_holds s p \<Longrightarrow> wl_holds s q \<Longrightarrow> p = q"
  by (auto simp: wl_inv_def wl_rep_def)

interpretation wl: exclusive_lock wl_start wl_step wl_inv wl_holds
proof
  show "wl_inv s" if "wl_start s" for s using that
    by (auto simp: wl_start_def wl_inv_def wl_rep_def wl_holds_def wl_local_def intro!: exI [of _ None])
qed (fact wl_step_inv wl_inv_exclusive)+

text \<open>The lock word is taken exactly while a processor is between its successful exchange and its release.\<close>

lemma wl_inv_lock: "wl_inv s \<Longrightarrow> wl_lock s = 0 \<longleftrightarrow> (\<forall>c. \<not> wl_holds s c)"
  by (force simp: wl_inv_def wl_rep_def)

text \<open>The interrupt state found by \<open>acquire\<close> is what \<open>release\<close> restores, and interrupts are off in between.\<close>

lemma wl_inv_irqs:
  assumes "wl_inv s"
  shows "wl_holds s c \<Longrightarrow> \<not> wc_irqs (wl_cpu s c)"
    and "wc_pc (wl_cpu s c) = WL_Rel e \<Longrightarrow> e \<longleftrightarrow> wc_entry (wl_cpu s c)"
proof -
  have "wl_local (wl_flags s) (wl_cpu s c)" using assms by (auto simp: wl_inv_def wl_rep_def)
  then show "wl_holds s c \<Longrightarrow> \<not> wc_irqs (wl_cpu s c)"
    "wc_pc (wl_cpu s c) = WL_Rel e \<Longrightarrow> e \<longleftrightarrow> wc_entry (wl_cpu s c)"
    by (auto simp: wl_holds_def wl_local_def)
qed

text \<open>The holder can always leave: from wherever it is, its own steps free the lock and change no other processor.\<close>

lemma wl_drain:
  assumes "wl_holds s h"
  shows "\<exists>s'. runs wl_step s s' \<and> wl_lock s' = 0 \<and> (\<forall>d. d \<noteq> h \<longrightarrow> wl_cpu s' d = wl_cpu s d)"
proof -
  have rel: "\<exists>s'. wl_step s s' \<and> wl_lock s' = 0 \<and> (\<forall>d. d \<noteq> h \<longrightarrow> wl_cpu s' d = wl_cpu s d)"
    if "wc_pc (wl_cpu s h) = WL_Rel e" for s e
    using wl_step.leave_open [OF that] by (intro exI [of _ "wl_release_open e h s"]) (simp add: wl_defs)
  have ins: "\<exists>s'. runs wl_step s s' \<and> wl_lock s' = 0 \<and> (\<forall>d. d \<noteq> h \<longrightarrow> wl_cpu s' d = wl_cpu s d)"
    if a: "wc_pc (wl_cpu s h) = WL_In" for s
  proof -
    obtain e where "wc_pc (wl_cpu (wl_release_flags h s) h) = WL_Rel e" by (simp add: wl_defs)
    from rel [OF this] obtain s' where s': "wl_step (wl_release_flags h s) s'" "wl_lock s' = 0" "\<forall>d. d \<noteq> h \<longrightarrow> wl_cpu s' d = wl_cpu (wl_release_flags h s) d"
      by blast
    moreover have "\<forall>d. d \<noteq> h \<longrightarrow> wl_cpu (wl_release_flags h s) d = wl_cpu s d" by (simp add: wl_defs)
    ultimately show ?thesis using runs.more [OF runs_one [of wl_step, OF wl_step.leave [OF a]]] by auto
  qed
  have got: "\<exists>s'. runs wl_step s s' \<and> wl_lock s' = 0 \<and> (\<forall>d. d \<noteq> h \<longrightarrow> wl_cpu s' d = wl_cpu s d)"
    if a: "wc_pc (wl_cpu s h) = WL_Got" for s
  proof -
    have "wc_pc (wl_cpu (wl_acquire_flags h s) h) = WL_In" "\<forall>d. d \<noteq> h \<longrightarrow> wl_cpu (wl_acquire_flags h s) d = wl_cpu s d"
      by (simp_all add: wl_defs)
    then show ?thesis using ins [of "wl_acquire_flags h s"] runs_trans [OF runs_one [of wl_step, OF wl_step.flags [OF a]]] by auto
  qed
  show ?thesis
  proof (cases "wc_pc (wl_cpu s h)")
    case (WL_Rel e)
    then show ?thesis using rel [of s e] runs_one [of wl_step s] by blast
  qed (use assms ins got in \<open>auto simp: wl_holds_def\<close>)
qed

lemma wl_enter_free:
  assumes "wl_lock s = 0" "wc_pc (wl_cpu s c) = WL_Try"
  shows "\<exists>s'. runs wl_step s s' \<and> wc_pc (wl_cpu s' c) = WL_In"
proof -
  have g: "wc_pc (wl_cpu (wl_acquire_try c s) c) = WL_Got" using assms by (simp add: wl_defs)
  have "runs wl_step s (wl_acquire_flags c (wl_acquire_try c s))"
    by (rule runs_trans [OF runs_one [of wl_step, OF wl_step.attempt [OF assms(2)]] runs_one [of wl_step, OF wl_step.flags [OF g]]])
  then show ?thesis by (intro exI conjI) (auto simp: wl_defs)
qed

lemma wl_can_enter:
  assumes "wl_inv s" "wc_pc (wl_cpu s c) = WL_Try"
  shows "\<exists>s'. runs wl_step s s' \<and> wc_pc (wl_cpu s' c) = WL_In"
proof (cases "\<exists>h. wl_holds s h")
  case True
  then obtain h where h: "wl_holds s h" by blast
  obtain t where t: "runs wl_step s t" "wl_lock t = 0" "\<forall>d. d \<noteq> h \<longrightarrow> wl_cpu t d = wl_cpu s d" using wl_drain [OF h] by blast
  have "c \<noteq> h" using h assms(2) by (auto simp: wl_holds_def)
  then have "wc_pc (wl_cpu t c) = WL_Try" using t(3) assms(2) by simp
  from wl_enter_free [OF t(2) this] show ?thesis using runs_trans [OF t(1)] by blast
qed (use assms wl_inv_lock wl_enter_free in blast)

section \<open>RecursiveLock\<close>

definition PROCID_INVALID :: u32 where "PROCID_INVALID = 0xFFFF0000"

text \<open>
  The parties are threads, identified by \<open>getFullId()\<close>; \<open>rt_irqs\<close> is the interrupt state of the processor the thread runs on.  Two
  fields are only observed: \<open>rt_depth\<close> is the number of acquisitions not yet released and \<open>rt_entry\<close> the interrupt state at the
  outermost \<open>acquire\<close>.
\<close>

datatype rl_pc = RL_Out | RL_Try bool | RL_Got bool | RL_Again | RL_In | RL_Rel bool

record rl_thread =
  rt_pc :: rl_pc
  rt_irqs :: bool
  rt_depth :: nat
  rt_entry :: bool

record recursivelock =
  rl_lock :: u32
  rl_flags :: u32
  rl_recursionCount :: u32
  rl_thread :: "u32 \<Rightarrow> rl_thread"

definition rl_put :: "u32 \<Rightarrow> rl_thread \<Rightarrow> recursivelock \<Rightarrow> recursivelock" where
  "rl_put t k s = s\<lparr>rl_thread := (rl_thread s)(t := k)\<rparr>"

definition rl_acquire_enter :: "u32 \<Rightarrow> recursivelock \<Rightarrow> recursivelock" where
  "rl_acquire_enter t s = (let k = rl_thread s t in
     rl_put t (k\<lparr>rt_pc := RL_Try (rt_irqs k), rt_irqs := False, rt_entry := (if rt_depth k = 0 then rt_irqs k else rt_entry k)\<rparr>) s)"

definition rl_acquire_try :: "bool \<Rightarrow> u32 \<Rightarrow> recursivelock \<Rightarrow> recursivelock" where
  "rl_acquire_try irqsWereEnabled t s = (let (oldValue, new) = atomic_compareAndExchange (rl_lock s) PROCID_INVALID t in
     rl_put t ((rl_thread s t)\<lparr>rt_pc := (if oldValue = PROCID_INVALID then RL_Got irqsWereEnabled else if oldValue = t then RL_Again
       else RL_Try irqsWereEnabled)\<rparr>) (s\<lparr>rl_lock := new\<rparr>))"

definition rl_acquire_first :: "bool \<Rightarrow> u32 \<Rightarrow> recursivelock \<Rightarrow> recursivelock" where
  "rl_acquire_first irqsWereEnabled t s = rl_put t ((rl_thread s t)\<lparr>rt_pc := RL_In, rt_depth := 1\<rparr>)
     (s\<lparr>rl_recursionCount := 1, rl_flags := (if irqsWereEnabled then rl_flags s OR FLAGS_IRQS_WERE_ENABLED else rl_flags s)\<rparr>)"

definition rl_acquire_again :: "u32 \<Rightarrow> recursivelock \<Rightarrow> recursivelock" where
  "rl_acquire_again t s = rl_put t ((rl_thread s t)\<lparr>rt_pc := RL_In, rt_depth := Suc (rt_depth (rl_thread s t))\<rparr>)
     (s\<lparr>rl_recursionCount := rl_recursionCount s + 1\<rparr>)"

definition rl_release_count :: "u32 \<Rightarrow> recursivelock \<Rightarrow> recursivelock" where
  "rl_release_count t s = (let n = rl_recursionCount s - 1; k = (rl_thread s t)\<lparr>rt_depth := rt_depth (rl_thread s t) - 1\<rparr> in
     if n = 0 then rl_put t (k\<lparr>rt_pc := RL_Rel (rl_flags s AND FLAGS_IRQS_WERE_ENABLED \<noteq> 0)\<rparr>)
       (s\<lparr>rl_recursionCount := n, rl_flags := rl_flags s AND NOT FLAGS_IRQS_WERE_ENABLED\<rparr>)
     else rl_put t k (s\<lparr>rl_recursionCount := n\<rparr>))"

definition rl_release_open :: "bool \<Rightarrow> u32 \<Rightarrow> recursivelock \<Rightarrow> recursivelock" where
  "rl_release_open irqsWereEnabled t s = (let (old, new) = atomic_exchange (rl_lock s) PROCID_INVALID; k = rl_thread s t in
     rl_put t (k\<lparr>rt_pc := RL_Out, rt_irqs := rt_irqs k \<or> irqsWereEnabled\<rparr>) (s\<lparr>rl_lock := new\<rparr>))"

text \<open>A thread's id is not \<open>PROCID_INVALID\<close>, and it nests fewer acquisitions than the counter can hold.\<close>

inductive rl_step :: "recursivelock \<Rightarrow> recursivelock \<Rightarrow> bool" where
  enter: "rt_pc (rl_thread s t) \<in> {RL_Out, RL_In} \<Longrightarrow> t \<noteq> PROCID_INVALID \<Longrightarrow> Suc (rt_depth (rl_thread s t)) < 2 ^ 32 \<Longrightarrow> rl_step s (rl_acquire_enter t s)"
| attempt: "rt_pc (rl_thread s t) = RL_Try i \<Longrightarrow> rl_step s (rl_acquire_try i t s)"
| first: "rt_pc (rl_thread s t) = RL_Got i \<Longrightarrow> rl_step s (rl_acquire_first i t s)"
| again: "rt_pc (rl_thread s t) = RL_Again \<Longrightarrow> rl_step s (rl_acquire_again t s)"
| leave: "rt_pc (rl_thread s t) = RL_In \<Longrightarrow> rl_step s (rl_release_count t s)"
| leave_open: "rt_pc (rl_thread s t) = RL_Rel e \<Longrightarrow> rl_step s (rl_release_open e t s)"

definition rl_start :: "recursivelock \<Rightarrow> bool" where
  "rl_start s \<longleftrightarrow> rl_lock s = PROCID_INVALID \<and> rl_flags s = 0 \<and> rl_recursionCount s = 0 \<and>
     (\<forall>t. rt_pc (rl_thread s t) = RL_Out \<and> rt_depth (rl_thread s t) = 0)"

text \<open>The thread has the lock word: it holds the lock, or is about to finish taking or returning it.\<close>

definition rl_owns :: "rl_thread \<Rightarrow> bool" where
  "rl_owns k \<longleftrightarrow> 0 < rt_depth k \<or> (case rt_pc k of RL_Got _ \<Rightarrow> True | RL_Rel _ \<Rightarrow> True | _ \<Rightarrow> False)"

definition rl_holds :: "recursivelock \<Rightarrow> u32 \<Rightarrow> bool" where
  "rl_holds s t \<longleftrightarrow> rl_owns (rl_thread s t)"

definition rl_saved :: "bool \<Rightarrow> u32" where
  "rl_saved e = (if e then FLAGS_IRQS_WERE_ENABLED else 0)"

definition rl_deep :: "u32 \<Rightarrow> u32 \<Rightarrow> rl_thread \<Rightarrow> bool" where
  "rl_deep cnt fl k \<longleftrightarrow> 0 < rt_depth k \<and> rt_depth k < 2 ^ 32 \<and> cnt = word_of_nat (rt_depth k) \<and> fl = rl_saved (rt_entry k)"

fun rl_point :: "u32 \<Rightarrow> u32 \<Rightarrow> rl_pc \<Rightarrow> rl_thread \<Rightarrow> bool" where
  "rl_point cnt fl RL_Out k \<longleftrightarrow> rt_depth k = 0"
| "rl_point cnt fl (RL_Try i) k \<longleftrightarrow> (rt_depth k = 0 \<and> i = rt_entry k \<or> rl_deep cnt fl k \<and> Suc (rt_depth k) < 2 ^ 32)"
| "rl_point cnt fl (RL_Got i) k \<longleftrightarrow> rt_depth k = 0 \<and> i = rt_entry k \<and> fl = 0"
| "rl_point cnt fl RL_Again k \<longleftrightarrow> rl_deep cnt fl k \<and> Suc (rt_depth k) < 2 ^ 32"
| "rl_point cnt fl RL_In k \<longleftrightarrow> rl_deep cnt fl k"
| "rl_point cnt fl (RL_Rel e) k \<longleftrightarrow> rt_depth k = 0 \<and> e = rt_entry k \<and> fl = 0"

definition rl_local :: "u32 \<Rightarrow> u32 \<Rightarrow> rl_thread \<Rightarrow> bool" where
  "rl_local cnt fl k \<longleftrightarrow> (rt_pc k = RL_Out \<or> \<not> rt_irqs k) \<and> rl_point cnt fl (rt_pc k) k"

definition rl_rep :: "recursivelock \<Rightarrow> u32 option \<Rightarrow> bool" where
  "rl_rep s h \<longleftrightarrow> rl_lock s = (case h of None \<Rightarrow> PROCID_INVALID | Some t \<Rightarrow> t) \<and> h \<noteq> Some PROCID_INVALID \<and> (h = None \<longrightarrow> rl_flags s = 0) \<and>
     (\<forall>t. rl_holds s t \<longleftrightarrow> h = Some t) \<and> (\<forall>t. rl_local (rl_recursionCount s) (rl_flags s) (rl_thread s t)) \<and>
     rt_pc (rl_thread s PROCID_INVALID) = RL_Out"

definition rl_inv :: "recursivelock \<Rightarrow> bool" where
  "rl_inv s \<longleftrightarrow> (\<exists>h. rl_rep s h)"

lemma rl_put_simps [simp]:
  "rl_thread (rl_put t k s) = (rl_thread s)(t := k)" "rl_lock (rl_put t k s) = rl_lock s" "rl_flags (rl_put t k s) = rl_flags s"
  "rl_recursionCount (rl_put t k s) = rl_recursionCount s"
  by (simp_all add: rl_put_def)

lemmas rl_defs = rl_acquire_enter_def rl_acquire_try_def rl_acquire_first_def rl_acquire_again_def rl_release_count_def rl_release_open_def
  atomic_exchange_def atomic_compareAndExchange_def Let_def

lemma rl_local_other: "rl_local cnt fl k \<Longrightarrow> \<not> rl_owns k \<Longrightarrow> rl_local cnt' fl' k"
  by (cases "rt_pc k") (auto simp: rl_local_def rl_owns_def rl_deep_def)

lemma rl_rep_upd:
  assumes r: "rl_rep s h" and s': "rl_thread s' = (rl_thread s)(t := k')" and k: "rl_local (rl_recursionCount s') (rl_flags s') k'"
    and l: "rl_lock s' = (case h' of None \<Rightarrow> PROCID_INVALID | Some t \<Rightarrow> t)" "h' = None \<longrightarrow> rl_flags s' = 0" and t: "t \<noteq> PROCID_INVALID"
    and h: "rl_owns k' \<longleftrightarrow> h' = Some t" "h' = h \<or> (h = None \<or> h = Some t) \<and> (h' = None \<or> h' = Some t)"
    and fl: "rl_flags s' = rl_flags s \<and> rl_recursionCount s' = rl_recursionCount s \<or> h = Some t"
  shows "rl_inv s'"
proof -
  have "rl_local (rl_recursionCount s') (rl_flags s') (rl_thread s d)" if "d \<noteq> t" for d
  proof -
    have "rl_local (rl_recursionCount s) (rl_flags s) (rl_thread s d)" "rl_owns (rl_thread s d) \<longleftrightarrow> h = Some d"
      using r by (simp_all add: rl_rep_def rl_holds_def)
    then show ?thesis using fl that rl_local_other by fastforce
  qed
  moreover have "rl_owns (rl_thread s d) \<longleftrightarrow> h' = Some d" if "d \<noteq> t" for d
    using r h(2) that by (auto simp: rl_rep_def rl_holds_def)
  moreover have "h' \<noteq> Some PROCID_INVALID" "rt_pc (rl_thread s PROCID_INVALID) = RL_Out" using r h(2) t by (auto simp: rl_rep_def)
  ultimately have "rl_rep s' h'" using k l h(1) t by (simp add: rl_rep_def rl_holds_def s')
  then show ?thesis by (auto simp: rl_inv_def)
qed

lemma word_of_nat_pred: "0 < d \<Longrightarrow> (word_of_nat d :: u32) - 1 = word_of_nat (d - 1)"
  by (metis Suc_diff_1 add_diff_cancel_left' of_nat_Suc)

lemma word_of_nat_eq_0: "d < 2 ^ 32 \<Longrightarrow> (word_of_nat d :: u32) = 0 \<longleftrightarrow> d = 0"
  unfolding word_of_nat_eq_0_iff by (auto dest: nat_dvd_not_less)

lemma rl_deep_leave:
  assumes "rl_deep cnt fl k"
  shows "cnt - 1 = word_of_nat (rt_depth k - 1)" and "cnt - 1 = 0 \<longleftrightarrow> rt_depth k = 1"
    and "fl AND FLAGS_IRQS_WERE_ENABLED \<noteq> 0 \<longleftrightarrow> rt_entry k" and "fl AND NOT FLAGS_IRQS_WERE_ENABLED = 0"
proof -
  have d: "0 < rt_depth k" "rt_depth k < 2 ^ 32" "cnt = word_of_nat (rt_depth k)" "fl = rl_saved (rt_entry k)"
    using assms by (simp_all only: rl_deep_def)
  show c: "cnt - 1 = word_of_nat (rt_depth k - 1)" unfolding d(3) by (rule word_of_nat_pred [OF d(1)])
  have "rt_depth k - 1 < 2 ^ 32" using d(2) by (rule less_imp_diff_less)
  then have "cnt - 1 = 0 \<longleftrightarrow> rt_depth k - 1 = 0" unfolding c by (rule word_of_nat_eq_0)
  then show "cnt - 1 = 0 \<longleftrightarrow> rt_depth k = 1" using d(1) by linarith
  show "fl AND FLAGS_IRQS_WERE_ENABLED \<noteq> 0 \<longleftrightarrow> rt_entry k" "fl AND NOT FLAGS_IRQS_WERE_ENABLED = 0"
    by (simp_all add: d(4) rl_saved_def)
qed

lemma rl_step_inv: "rl_inv s \<Longrightarrow> rl_step s s' \<Longrightarrow> rl_inv s'"
proof -
  assume "rl_inv s" and st: "rl_step s s'"
  then obtain h where r: "rl_rep s h" by (auto simp: rl_inv_def)
  have loc: "rl_local (rl_recursionCount s) (rl_flags s) (rl_thread s t)" and hold: "rl_owns (rl_thread s t) \<longleftrightarrow> h = Some t"
    and lk: "rl_lock s = (case h of None \<Rightarrow> PROCID_INVALID | Some t \<Rightarrow> t)" "h \<noteq> Some PROCID_INVALID"
    and fl: "h = None \<longrightarrow> rl_flags s = 0" and out: "rt_pc (rl_thread s PROCID_INVALID) = RL_Out" for t
    using r by (auto simp: rl_rep_def rl_holds_def)
  show "rl_inv s'" using st
  proof cases
    case (enter t)
    have "rl_owns (rl_thread (rl_acquire_enter t s) t) \<longleftrightarrow> h = Some t"
      using hold [of t] enter(2) loc [of t] by (auto simp: rl_owns_def rl_defs rl_local_def rl_deep_def)
    then show ?thesis using lk fl loc [of t] enter(2-4)
      by (intro rl_rep_upd [OF r, where h' = h and t = t]) (auto simp: enter(1) rl_defs rl_local_def rl_deep_def)
  next
    case (attempt t i)
    have t: "t \<noteq> PROCID_INVALID" using out attempt by auto
    show ?thesis
    proof (cases "h = None")
      case True
      then show ?thesis using lk fl loc [of t] attempt(2) t hold [of t]
        by (intro rl_rep_upd [OF r, where h' = "Some t" and t = t]) (auto simp: attempt(1) rl_defs rl_local_def rl_deep_def rl_owns_def)
    next
      case False
      then have "rl_lock s \<noteq> PROCID_INVALID" "rl_lock s = t \<longleftrightarrow> h = Some t" using lk by (auto split: option.splits)
      then show ?thesis using lk fl loc [of t] attempt(2) t hold [of t]
        by (intro rl_rep_upd [OF r, where h' = h and t = t]) (auto simp: attempt(1) rl_defs rl_local_def rl_deep_def rl_owns_def)
    qed
  next
    case (first t i)
    have t: "t \<noteq> PROCID_INVALID" "h = Some t" using out first hold [of t] by (auto simp: rl_owns_def)
    then show ?thesis using lk loc [of t] first(2)
      by (intro rl_rep_upd [OF r, where h' = h and t = t]) (auto simp: first(1) rl_defs rl_local_def rl_deep_def rl_owns_def rl_saved_def)
  next
    case (again t)
    have t: "t \<noteq> PROCID_INVALID" "h = Some t" using out again hold [of t] loc [of t] by (auto simp: rl_owns_def rl_local_def rl_deep_def)
    then show ?thesis using lk loc [of t] again(2)
      by (intro rl_rep_upd [OF r, where h' = h and t = t]) (auto simp: again(1) rl_defs rl_local_def rl_deep_def rl_owns_def)
  next
    case (leave t)
    have t: "t \<noteq> PROCID_INVALID" "h = Some t" using out leave hold [of t] loc [of t] by (auto simp: rl_owns_def rl_local_def rl_deep_def)
    have d: "rl_deep (rl_recursionCount s) (rl_flags s) (rl_thread s t)" "\<not> rt_irqs (rl_thread s t)" using loc [of t] leave(2) by (auto simp: rl_local_def)
    show ?thesis
    proof (cases "rt_depth (rl_thread s t) = 1")
      case True
      have s': "s' = rl_put t ((rl_thread s t)\<lparr>rt_depth := 0, rt_pc := RL_Rel (rt_entry (rl_thread s t))\<rparr>) (s\<lparr>rl_recursionCount := 0, rl_flags := 0\<rparr>)"
        unfolding leave(1) rl_release_count_def Let_def rl_deep_leave [OF d(1)] by (simp add: True)
      have "rl_local 0 0 ((rl_thread s t)\<lparr>rt_depth := 0, rt_pc := RL_Rel (rt_entry (rl_thread s t))\<rparr>)"
        "rl_owns ((rl_thread s t)\<lparr>rt_depth := 0, rt_pc := RL_Rel (rt_entry (rl_thread s t))\<rparr>)"
        using d(2) by (simp_all add: rl_local_def rl_owns_def)
      then show ?thesis unfolding s' using t lk by (intro rl_rep_upd [OF r, where h' = h and t = t]) simp_all
    next
      case False
      let ?k = "(rl_thread s t)\<lparr>rt_depth := rt_depth (rl_thread s t) - 1\<rparr>"
      have s': "s' = rl_put t ?k (s\<lparr>rl_recursionCount := rl_recursionCount s - 1\<rparr>)"
        unfolding leave(1) rl_release_count_def Let_def rl_deep_leave(2) [OF d(1)] using False by (simp only: if_False)
      have "rl_deep (rl_recursionCount s - 1) (rl_flags s) ?k"
        using d False rl_deep_leave(1) [OF d(1)] by (auto simp: rl_deep_def)
      then have "rl_local (rl_recursionCount s - 1) (rl_flags s) ?k" "rl_owns ?k"
        using d(2) leave(2) by (auto simp: rl_local_def rl_owns_def rl_deep_def)
      then show ?thesis unfolding s' using t lk by (intro rl_rep_upd [OF r, where h' = h and t = t]) simp_all
    qed
  next
    case (leave_open t e)
    have t: "t \<noteq> PROCID_INVALID" "h = Some t" using out leave_open hold [of t] by (auto simp: rl_owns_def)
    then show ?thesis using loc [of t] leave_open(2)
      by (intro rl_rep_upd [OF r, where h' = None and t = t]) (auto simp: leave_open(1) rl_defs rl_local_def rl_deep_def rl_owns_def)
  qed
qed

interpretation rl: exclusive_lock rl_start rl_step rl_inv rl_holds
proof
  show "rl_inv s" if "rl_start s" for s using that
    by (auto simp: rl_start_def rl_inv_def rl_rep_def rl_holds_def rl_owns_def rl_local_def intro!: exI [of _ None])
  show "p = q" if "rl_inv s" "rl_holds s p" "rl_holds s q" for s p q using that by (auto simp: rl_inv_def rl_rep_def)
qed (fact rl_step_inv)

text \<open>The recursion count is the number of acquisitions the holder has not yet released, and the interrupt state of its outermost
  \<open>acquire\<close> is what the last \<open>release\<close> restores.\<close>

lemma rl_inv_count:
  assumes "rl_inv s"
  shows "rt_pc (rl_thread s t) = RL_In \<Longrightarrow> 0 < rt_depth (rl_thread s t) \<and> unat (rl_recursionCount s) = rt_depth (rl_thread s t)"
    and "rt_pc (rl_thread s t) = RL_Rel e \<Longrightarrow> rt_depth (rl_thread s t) = 0 \<and> e = rt_entry (rl_thread s t)"
proof -
  have "rl_local (rl_recursionCount s) (rl_flags s) (rl_thread s t)" using assms by (auto simp: rl_inv_def rl_rep_def)
  then show "rt_pc (rl_thread s t) = RL_In \<Longrightarrow> 0 < rt_depth (rl_thread s t) \<and> unat (rl_recursionCount s) = rt_depth (rl_thread s t)"
    "rt_pc (rl_thread s t) = RL_Rel e \<Longrightarrow> rt_depth (rl_thread s t) = 0 \<and> e = rt_entry (rl_thread s t)"
    by (auto simp: rl_local_def rl_deep_def unat_of_nat)
qed

section \<open>Properties\<close>

text \<open>C6: From a new wait lock, in every interleaving: at most one processor is between its successful exchange in \<open>acquire\<close> and the
  opening store of its \<open>release\<close>; the lock word is zero exactly when none is; the holder runs with interrupts disabled; and the
  last store of \<open>release\<close> leaves interrupts enabled exactly when they were enabled at the call of \<open>acquire\<close>.\<close>

theorem waitlock_exclusive:
  assumes "wl_start s" "runs wl_step s s'"
  shows "(\<forall>p q. wl_holds s' p \<longrightarrow> wl_holds s' q \<longrightarrow> p = q) \<and> (wl_lock s' = 0 \<longleftrightarrow> (\<forall>c. \<not> wl_holds s' c)) \<and>
    (\<forall>c. wl_holds s' c \<longrightarrow> \<not> wc_irqs (wl_cpu s' c)) \<and>
    (\<forall>c e. wc_pc (wl_cpu s' c) = WL_Rel e \<longrightarrow> (wc_irqs (wl_cpu (wl_release_open e c s') c) \<longleftrightarrow> wc_entry (wl_cpu s' c)))"
proof -
  note inv = wl.reach_inv [OF assms]
  have irqs: "wc_irqs (wl_cpu (wl_release_open e c s') c) \<longleftrightarrow> wc_entry (wl_cpu s' c)" if "wc_pc (wl_cpu s' c) = WL_Rel e" for c e
    using wl_inv_irqs [OF inv, of c] that by (auto simp: wl_defs wl_holds_def)
  show ?thesis using wl.exclusive [OF assms] wl_inv_lock [OF inv] wl_inv_irqs(1) [OF inv] irqs by blast
qed

definition wl_new :: waitlock where
  "wl_new = \<lparr>wl_lock = 0, wl_flags = 0, wl_cpu = (\<lambda>c. \<lparr>wc_pc = WL_Out, wc_irqs = True, wc_contenderFlags = 0, wc_entry = False\<rparr>)\<rparr>"

abbreviation wl_cycle :: waitlock where
  "wl_cycle \<equiv> wl_release_flags 0 (wl_acquire_flags 0 (wl_acquire_try 0 (wl_acquire_enter 0 wl_new)))"

theorem waitlock_exclusive_witness:
  "wl_start wl_new \<and> runs wl_step wl_new wl_cycle \<and> wl_holds wl_cycle 0 \<and> wc_entry (wl_cpu wl_cycle 0) \<and>
    wc_irqs (wl_cpu (wl_release_open True 0 wl_cycle) 0) \<and> {c. wl_holds wl_cycle c} = {0}"
proof -
  let ?s1 = "wl_acquire_enter 0 wl_new"
  let ?s2 = "wl_acquire_try 0 ?s1"
  let ?s3 = "wl_acquire_flags 0 ?s2"
  have start: "wl_start wl_new" by (simp add: wl_start_def wl_new_def)
  have st: "wl_step wl_new ?s1" "wl_step ?s1 ?s2" "wl_step ?s2 ?s3" "wl_step ?s3 wl_cycle"
    by (rule wl_step.enter wl_step.attempt wl_step.flags wl_step.leave; simp add: wl_defs wl_new_def)+
  have run: "runs wl_step wl_new wl_cycle" by (rule runs.more [OF runs.more [OF runs.more [OF runs_one [of wl_step, OF st(1)] st(2)] st(3)] st(4)])
  have pc: "wc_pc (wl_cpu wl_cycle 0) = WL_Rel True" "wc_entry (wl_cpu wl_cycle 0)" by (simp_all add: wl_defs wl_new_def)
  then have h: "wl_holds wl_cycle 0" by (simp add: wl_holds_def)
  from waitlock_exclusive [OF start run] have "{c. wl_holds wl_cycle c} = {0}" "wc_irqs (wl_cpu (wl_release_open True 0 wl_cycle) 0)"
    using h pc by blast+
  with start run h pc(2) show ?thesis by blast
qed

text \<open>C7: A wait lock never deadlocks: in every reachable state every processor that is trying to take it can still get it, by steps of
  the holder and its own.\<close>

theorem waitlock_progress:
  assumes "wl_start s" "runs wl_step s s'" "wc_pc (wl_cpu s' c) = WL_Try"
  shows "\<exists>s''. runs wl_step s' s'' \<and> wc_pc (wl_cpu s'' c) = WL_In"
  using wl_can_enter [OF wl.reach_inv [OF assms(1,2)] assms(3)] .

theorem waitlock_progress_witness:
  "wl_start wl_new \<and> (\<exists>s. runs wl_step (wl_acquire_enter 0 wl_new) s \<and> wc_pc (wl_cpu s 0) = WL_In)"
proof -
  have start: "wl_start wl_new" by (simp add: wl_start_def wl_new_def)
  have "wl_step wl_new (wl_acquire_enter 0 wl_new)" by (rule wl_step.enter) (simp add: wl_new_def)
  then have run: "runs wl_step wl_new (wl_acquire_enter 0 wl_new)" by (rule runs_one)
  show ?thesis using waitlock_progress [OF start run, of 0] start by (simp add: wl_defs)
qed

text \<open>C8: From a new recursive lock, in every interleaving of threads that nest fewer than \<open>2\<^sup>3\<^sup>2\<close> acquisitions: at most one thread has
  the lock; the recursion count is the number of acquisitions its holder has still to release, so only the release of the outermost
  one opens the lock; and the interrupt state that release restores is the one found by the outermost \<open>acquire\<close>.\<close>

theorem recursivelock_exclusive:
  assumes "rl_start s" "runs rl_step s s'"
  shows "(\<forall>p q. rl_holds s' p \<longrightarrow> rl_holds s' q \<longrightarrow> p = q) \<and>
    (\<forall>t. rt_pc (rl_thread s' t) = RL_In \<longrightarrow> 0 < rt_depth (rl_thread s' t) \<and> unat (rl_recursionCount s') = rt_depth (rl_thread s' t)) \<and>
    (\<forall>t e. rt_pc (rl_thread s' t) = RL_Rel e \<longrightarrow> rt_depth (rl_thread s' t) = 0 \<and> e = rt_entry (rl_thread s' t))"
  using rl.exclusive [OF assms] rl_inv_count [OF rl.reach_inv [OF assms]] by blast

definition rl_new :: recursivelock where
  "rl_new = \<lparr>rl_lock = PROCID_INVALID, rl_flags = 0, rl_recursionCount = 0,
     rl_thread = (\<lambda>t. \<lparr>rt_pc = RL_Out, rt_irqs = True, rt_depth = 0, rt_entry = False\<rparr>)\<rparr>"

theorem recursivelock_exclusive_witness:
  "rl_start rl_new \<and> (let s = rl_acquire_first True 1 (rl_acquire_try True 1 (rl_acquire_enter 1 rl_new)) in
     runs rl_step rl_new s \<and> 0 < rt_depth (rl_thread s 1) \<and> unat (rl_recursionCount s) = rt_depth (rl_thread s 1))"
proof -
  let ?a = "rl_acquire_enter 1 rl_new" let ?b = "rl_acquire_try True 1 ?a" let ?c = "rl_acquire_first True 1 ?b"
  have start: "rl_start rl_new" by (simp add: rl_start_def rl_new_def)
  have "rl_step rl_new ?a" by (rule rl_step.enter) (simp_all add: rl_new_def PROCID_INVALID_def)
  moreover have "rl_step ?a ?b" by (rule rl_step.attempt) (simp add: rl_defs rl_new_def)
  moreover have "rl_step ?b ?c" by (rule rl_step.first) (simp add: rl_defs rl_new_def)
  ultimately have run: "runs rl_step rl_new ?c" using runs.more [OF runs.more [OF runs_one [of rl_step]]] by blast
  have "rt_pc (rl_thread ?c 1) = RL_In" by (simp add: rl_defs)
  then show ?thesis using recursivelock_exclusive [OF start run] start run by (simp only: Let_def)
qed

end
