(* ===== verification/RwLock.thy ===== *)
theory RwLock
  imports Locks
begin

text \<open>
  The reader-writer spin lock (\<open>kernel/common/multipleReaderLock.cpp\<close>).  The low 24 bits of the lock word count the readers, bit 25
  is the request of a writer.  As in \<open>Locks\<close> a step is one access to the shared words, by any of the parties in any order.  The
  invariant ties the lock word to the program counters of the parties; it gives the exclusion of writers.  It also shows that the
  lock deadlocks: \<open>readAcquire\<close> counts the reader before it waits for the writer's request to go away, and the writer waits for
  the count to become zero.
\<close>

section \<open>The lock\<close>

definition MR_FLAGS_WRITE_REQUEST_SHIFT :: nat where "MR_FLAGS_WRITE_REQUEST_SHIFT = 25"

definition MR_FLAGS_WRITE_REQUEST :: u32 where "MR_FLAGS_WRITE_REQUEST = 0x2000000"

text \<open>Where a party is: outside; in \<open>readAcquire\<close> before and after the increment; reading; in \<open>writeAcquire\<close> before the request
  bit is set and while it waits for the readers; in \<open>readReleaseWriteAcquire\<close> before the bit is set, before its decrement and
  while it waits; after the last wait, before the flags are saved; writing; in \<open>writeRelease\<close> before the bit is cleared.\<close>

datatype mr_pc = MR_Out | MR_RInc | MR_RSpin | MR_Reading | MR_WTry | MR_WWait | MR_UTry | MR_UDec | MR_UWait | MR_Got | MR_Writing | MR_WRel bool

text \<open>\<open>mc_flags\<close> is the caller's \<open>rwFlags\<close> variable of a reader and the local \<open>contenderFlags\<close> of a writer.\<close>

record mr_cpu =
  mc_pc :: mr_pc
  mc_irqs :: bool
  mc_flags :: u32

record mrlock =
  mr_lock :: u32
  mr_flags :: u32
  mr_cpu :: "u32 \<Rightarrow> mr_cpu"

definition mr_put :: "u32 \<Rightarrow> mr_cpu \<Rightarrow> mrlock \<Rightarrow> mrlock" where
  "mr_put c k s = s\<lparr>mr_cpu := (mr_cpu s)(c := k)\<rparr>"

definition mr_goto :: "u32 \<Rightarrow> mr_pc \<Rightarrow> mrlock \<Rightarrow> mrlock" where
  "mr_goto c pc s = mr_put c ((mr_cpu s c)\<lparr>mc_pc := pc\<rparr>) s"

definition mr_readAcquire_enter :: "u32 \<Rightarrow> u32 \<Rightarrow> mrlock \<Rightarrow> mrlock" where
  "mr_readAcquire_enter flags c s = (let k = mr_cpu s c in
     mr_put c \<lparr>mc_pc = MR_RInc, mc_irqs = False, mc_flags = (if mc_irqs k then flags OR FLAGS_IRQS_WERE_ENABLED else flags)\<rparr> s)"

definition mr_readAcquire_inc :: "u32 \<Rightarrow> mrlock \<Rightarrow> mrlock" where
  "mr_readAcquire_inc c s = mr_goto c MR_RSpin (s\<lparr>mr_lock := mr_lock s + 1\<rparr>)"

definition mr_readAcquire_spin :: "u32 \<Rightarrow> mrlock \<Rightarrow> mrlock" where
  "mr_readAcquire_spin c s = (if mr_lock s AND MR_FLAGS_WRITE_REQUEST \<noteq> 0 then s else mr_goto c MR_Reading s)"

definition mr_readRelease :: "u32 \<Rightarrow> mrlock \<Rightarrow> mrlock" where
  "mr_readRelease c s = (let k = mr_cpu s c in
     mr_put c (k\<lparr>mc_pc := MR_Out, mc_irqs := mc_irqs k \<or> mc_flags k AND FLAGS_IRQS_WERE_ENABLED \<noteq> 0\<rparr>) (s\<lparr>mr_lock := mr_lock s - 1\<rparr>))"

definition mr_writeAcquire_enter :: "u32 \<Rightarrow> mrlock \<Rightarrow> mrlock" where
  "mr_writeAcquire_enter c s = (let k = mr_cpu s c in
     mr_put c \<lparr>mc_pc = MR_WTry, mc_irqs = False, mc_flags = (if mc_irqs k then FLAGS_IRQS_WERE_ENABLED else 0)\<rparr> s)"

definition mr_request :: "mr_pc \<Rightarrow> u32 \<Rightarrow> mrlock \<Rightarrow> mrlock" where
  "mr_request won c s = (let (was, new) = atomic_bitTestAndSet (mr_lock s) MR_FLAGS_WRITE_REQUEST_SHIFT; s = s\<lparr>mr_lock := new\<rparr> in
     if was then s else mr_goto c won s)"

definition mr_wait :: "u32 \<Rightarrow> mrlock \<Rightarrow> mrlock" where
  "mr_wait c s = (if mr_lock s AND (push_bit FLAGS_ENUM_START 1 - 1) \<noteq> 0 then s else mr_goto c MR_Got s)"

definition mr_save_flags :: "u32 \<Rightarrow> mrlock \<Rightarrow> mrlock" where
  "mr_save_flags c s = mr_goto c MR_Writing (s\<lparr>mr_flags := mr_flags s OR mc_flags (mr_cpu s c)\<rparr>)"

definition mr_writeRelease_flags :: "u32 \<Rightarrow> mrlock \<Rightarrow> mrlock" where
  "mr_writeRelease_flags c s = (let enableIrqs = mr_flags s AND FLAGS_IRQS_WERE_ENABLED \<noteq> 0 in
     mr_goto c (MR_WRel enableIrqs) (s\<lparr>mr_flags := (if enableIrqs then mr_flags s AND NOT FLAGS_IRQS_WERE_ENABLED else mr_flags s)\<rparr>))"

definition mr_writeRelease_open :: "bool \<Rightarrow> u32 \<Rightarrow> mrlock \<Rightarrow> mrlock" where
  "mr_writeRelease_open enableIrqs c s = (let (was, new) = atomic_bitTestAndClear (mr_lock s) MR_FLAGS_WRITE_REQUEST_SHIFT; k = mr_cpu s c in
     mr_put c (k\<lparr>mc_pc := MR_Out, mc_irqs := mc_irqs k \<or> enableIrqs\<rparr>) (s\<lparr>mr_lock := new\<rparr>))"

definition mr_upgrade_dec :: "u32 \<Rightarrow> mrlock \<Rightarrow> mrlock" where
  "mr_upgrade_dec c s = mr_goto c MR_UWait (s\<lparr>mr_lock := mr_lock s - 1\<rparr>)"

text \<open>The count has 24 bits: there are fewer parties than that.\<close>

definition MR_PARTIES :: u32 where "MR_PARTIES = 0xFFFFFF"

inductive mr_step :: "mrlock \<Rightarrow> mrlock \<Rightarrow> bool" where
  read_enter: "mc_pc (mr_cpu s c) = MR_Out \<Longrightarrow> c < MR_PARTIES \<Longrightarrow> mr_step s (mr_readAcquire_enter flags c s)"
| read_inc: "mc_pc (mr_cpu s c) = MR_RInc \<Longrightarrow> mr_step s (mr_readAcquire_inc c s)"
| read_spin: "mc_pc (mr_cpu s c) = MR_RSpin \<Longrightarrow> mr_step s (mr_readAcquire_spin c s)"
| read_leave: "mc_pc (mr_cpu s c) = MR_Reading \<Longrightarrow> mr_step s (mr_readRelease c s)"
| write_enter: "mc_pc (mr_cpu s c) = MR_Out \<Longrightarrow> c < MR_PARTIES \<Longrightarrow> mr_step s (mr_writeAcquire_enter c s)"
| write_request: "mc_pc (mr_cpu s c) = MR_WTry \<Longrightarrow> mr_step s (mr_request MR_WWait c s)"
| write_wait: "mc_pc (mr_cpu s c) = MR_WWait \<Longrightarrow> mr_step s (mr_wait c s)"
| upgrade_enter: "mc_pc (mr_cpu s c) = MR_Reading \<Longrightarrow> mr_step s (mr_goto c MR_UTry s)"
| upgrade_request: "mc_pc (mr_cpu s c) = MR_UTry \<Longrightarrow> mr_step s (mr_request MR_UDec c s)"
| upgrade_dec: "mc_pc (mr_cpu s c) = MR_UDec \<Longrightarrow> mr_step s (mr_upgrade_dec c s)"
| upgrade_wait: "mc_pc (mr_cpu s c) = MR_UWait \<Longrightarrow> mr_step s (mr_wait c s)"
| got: "mc_pc (mr_cpu s c) = MR_Got \<Longrightarrow> mr_step s (mr_save_flags c s)"
| write_leave: "mc_pc (mr_cpu s c) = MR_Writing \<Longrightarrow> mr_step s (mr_writeRelease_flags c s)"
| write_open: "mc_pc (mr_cpu s c) = MR_WRel e \<Longrightarrow> mr_step s (mr_writeRelease_open e c s)"

definition mr_start :: "mrlock \<Rightarrow> bool" where
  "mr_start s \<longleftrightarrow> mr_lock s = 0 \<and> mr_flags s = 0 \<and> (\<forall>c. mc_pc (mr_cpu s c) = MR_Out)"

section \<open>Invariant\<close>

text \<open>The program points at which the party is in the reader count, has the request bit, may read, may write.\<close>

definition mr_counted :: "mr_pc \<Rightarrow> bool" where "mr_counted p \<longleftrightarrow> p \<in> {MR_RSpin, MR_Reading, MR_UTry, MR_UDec}"

definition mr_reads :: "mr_pc \<Rightarrow> bool" where "mr_reads p \<longleftrightarrow> p \<in> {MR_Reading, MR_UTry}"

definition mr_writes :: "mr_pc \<Rightarrow> bool" where "mr_writes p \<longleftrightarrow> p \<in> {MR_Got, MR_Writing, MR_WRel True, MR_WRel False}"

definition mr_requests :: "mr_pc \<Rightarrow> bool" where "mr_requests p \<longleftrightarrow> p \<in> {MR_WWait, MR_UDec, MR_UWait} \<or> mr_writes p"

definition mr_rep :: "mrlock \<Rightarrow> u32 set \<Rightarrow> u32 option \<Rightarrow> bool" where
  "mr_rep s R w \<longleftrightarrow> mr_lock s = word_of_nat (card R) + (if w = None then 0 else 0x2000000) \<and>
     (\<forall>c. mc_pc (mr_cpu s c) \<noteq> MR_Out \<longrightarrow> c < MR_PARTIES) \<and>
     R = {c. mr_counted (mc_pc (mr_cpu s c))} \<and> (\<forall>c. mr_requests (mc_pc (mr_cpu s c)) \<longleftrightarrow> w = Some c) \<and>
     (\<forall>c d. mr_writes (mc_pc (mr_cpu s c)) \<longrightarrow> \<not> mr_reads (mc_pc (mr_cpu s d)))"

definition mr_inv :: "mrlock \<Rightarrow> bool" where
  "mr_inv s \<longleftrightarrow> (\<exists>R w. mr_rep s R w)"

subsection \<open>The lock word\<close>

text \<open>The count below the request bit.\<close>

lemma bit_count:
  assumes "n < 2 ^ 24"
  shows "bit (word_of_nat n :: u32) i \<Longrightarrow> i < 24"
proof -
  have "take_bit 24 n = n" using assms by (rule take_bit_nat_eq_self)
  then show "bit (word_of_nat n :: u32) i \<Longrightarrow> i < 24" by (metis bit_take_bit_iff bit_of_nat_iff)
qed

lemma bit_request_iff: "bit (0x2000000 :: u32) i \<longleftrightarrow> i = 25"
proof -
  have "(0x2000000 :: u32) = push_bit 25 1" by (simp add: push_bit_eq_mult)
  then show ?thesis by (simp only: bit_push_bit_iff bit_1_iff) auto
qed

lemma bit_count_iff: "bit (0xFFFFFF :: u32) i \<longleftrightarrow> i < 24"
proof -
  have "(0xFFFFFF :: u32) = mask 24" by (simp add: mask_eq_exp_minus_1)
  then show ?thesis by (simp only: bit_mask_iff) auto
qed

lemmas mr_bits = bit_and_iff bit_or_iff bit_not_iff bit_request_iff bit_count_iff

lemma mr_word:
  assumes n: "n < 2 ^ 24"
  shows "(word_of_nat n :: u32) AND 0x2000000 = 0" "((word_of_nat n :: u32) + 0x2000000) AND 0x2000000 = 0x2000000"
    "(word_of_nat n :: u32) AND 0xFFFFFF = word_of_nat n" "((word_of_nat n :: u32) + 0x2000000) AND 0xFFFFFF = word_of_nat n"
    "(word_of_nat n :: u32) OR 0x2000000 = word_of_nat n + 0x2000000" "((word_of_nat n :: u32) + 0x2000000) OR 0x2000000 = word_of_nat n + 0x2000000"
    "((word_of_nat n :: u32) + 0x2000000) AND NOT 0x2000000 = word_of_nat n"
proof -
  obtain a :: u32 where a: "a = word_of_nat n" by blast
  have lt: "bit a i \<Longrightarrow> i < 24" for i unfolding a by (rule bit_count [OF n])
  have z: "a AND 0x2000000 = 0" by (rule bit_word_eqI) (auto simp: mr_bits simp del: bit_numeral_word_iff dest: lt)
  have p: "a + 0x2000000 = a OR 0x2000000" by (rule disjunctive_add_eq_or) (rule z)
  show "(word_of_nat n :: u32) AND 0x2000000 = 0" unfolding a [symmetric] by (rule z)
  show "((word_of_nat n :: u32) + 0x2000000) AND 0x2000000 = 0x2000000" unfolding a [symmetric] p
    by (rule bit_word_eqI) (auto simp: mr_bits simp del: bit_numeral_word_iff)
  show "(word_of_nat n :: u32) AND 0xFFFFFF = word_of_nat n" unfolding a [symmetric]
    by (rule bit_word_eqI) (auto simp: mr_bits simp del: bit_numeral_word_iff dest: lt)
  show "((word_of_nat n :: u32) + 0x2000000) AND 0xFFFFFF = word_of_nat n" unfolding a [symmetric] p
    by (rule bit_word_eqI) (auto simp: mr_bits simp del: bit_numeral_word_iff dest: lt)
  show "(word_of_nat n :: u32) OR 0x2000000 = word_of_nat n + 0x2000000" unfolding a [symmetric] p ..
  show "((word_of_nat n :: u32) + 0x2000000) OR 0x2000000 = word_of_nat n + 0x2000000" unfolding a [symmetric] p
    by (rule bit_word_eqI) (auto simp: mr_bits simp del: bit_numeral_word_iff)
  show "((word_of_nat n :: u32) + 0x2000000) AND NOT 0x2000000 = word_of_nat n" unfolding a [symmetric] p
    by (rule bit_word_eqI, unfold mr_bits) (auto dest: lt)
qed

lemma bit_request: "bit (x :: u32) 25 \<longleftrightarrow> x AND 0x2000000 \<noteq> 0"
  unfolding bit_eq_iff by (auto simp: mr_bits simp del: bit_numeral_word_iff)

text \<open>The parties that the count can reach.\<close>

lemma parties_finite: "finite {c. c < MR_PARTIES}" by simp

lemma card_parties: "card {c. c < MR_PARTIES} < 2 ^ 24"
proof -
  have "inj_on unat {c. c < MR_PARTIES}" by (rule inj_onI) (simp add: word_unat_eq_iff)
  moreover have "unat ` {c. c < MR_PARTIES} \<subseteq> {..<0xFFFFFF}" by (auto simp: word_less_nat_alt MR_PARTIES_def)
  ultimately have "card {c. c < MR_PARTIES} \<le> card {..<0xFFFFFF :: nat}" by (metis card_image card_mono finite_lessThan)
  then show ?thesis by simp
qed

subsection \<open>Steps\<close>

lemma mr_put_simps [simp]:
  "mr_cpu (mr_put c k s) = (mr_cpu s)(c := k)" "mr_lock (mr_put c k s) = mr_lock s" "mr_flags (mr_put c k s) = mr_flags s"
  by (simp_all add: mr_put_def)

lemma mr_goto_simps [simp]:
  "mr_cpu (mr_goto c p s) = (mr_cpu s)(c := (mr_cpu s c)\<lparr>mc_pc := p\<rparr>)" "mr_lock (mr_goto c p s) = mr_lock s"
  "mr_flags (mr_goto c p s) = mr_flags s"
  by (simp_all add: mr_goto_def)

lemmas mr_defs = mr_readAcquire_enter_def mr_readAcquire_inc_def mr_readRelease_def mr_writeAcquire_enter_def
  mr_save_flags_def mr_writeRelease_flags_def mr_writeRelease_open_def mr_upgrade_dec_def Let_def

lemmas mr_points = mr_counted_def mr_reads_def mr_requests_def mr_writes_def

lemma mr_reads_counted: "mr_reads p \<Longrightarrow> mr_counted p"
  and mr_writes_requests: "mr_writes p \<Longrightarrow> mr_requests p"
  and mr_writes_not_reads: "mr_writes p \<Longrightarrow> \<not> mr_reads p"
  by (auto simp: mr_points)

lemma mr_rep_card:
  assumes "mr_rep s R w"
  shows "finite R" "card R < 2 ^ 24"
proof -
  have sub: "R \<subseteq> {c. c < MR_PARTIES}" using assms by (auto simp: mr_rep_def mr_counted_def)
  then show "finite R" using finite_subset by auto
  show "card R < 2 ^ 24" using card_mono [OF parties_finite sub] card_parties by (rule le_less_trans)
qed

text \<open>What the tests on the lock word say of the parties.\<close>

lemma mr_rep_tests:
  assumes r: "mr_rep s R w"
  shows "mr_lock s AND 0x2000000 \<noteq> 0 \<longleftrightarrow> w \<noteq> None" and "mr_lock s AND 0xFFFFFF \<noteq> 0 \<longleftrightarrow> R \<noteq> {}"
    and "mr_lock s OR 0x2000000 = word_of_nat (card R) + 0x2000000" and "w \<noteq> None \<Longrightarrow> mr_lock s AND NOT 0x2000000 = word_of_nat (card R)"
proof -
  have c: "card R < 2 ^ 24" and l: "mr_lock s = word_of_nat (card R) + (if w = None then 0 else 0x2000000)"
    using mr_rep_card [OF r] r by (simp_all add: mr_rep_def)
  note word = mr_word [OF c]
  show "mr_lock s AND 0x2000000 \<noteq> 0 \<longleftrightarrow> w \<noteq> None" unfolding l using word(1,2) by (cases w) simp_all
  have "word_of_nat (card R) \<noteq> (0 :: u32) \<longleftrightarrow> R \<noteq> {}"
    using word_of_nat_eq_0 [of "card R"] c mr_rep_card(1) [OF r] by (simp add: card_eq_0_iff)
  then show "mr_lock s AND 0xFFFFFF \<noteq> 0 \<longleftrightarrow> R \<noteq> {}" unfolding l using word(3,4) by (cases w) simp_all
  show "mr_lock s OR 0x2000000 = word_of_nat (card R) + 0x2000000" unfolding l using word(5,6) by (cases w) simp_all
  show "w \<noteq> None \<Longrightarrow> mr_lock s AND NOT 0x2000000 = word_of_nat (card R)" unfolding l using word(7) by (cases w) simp_all
qed

text \<open>A step of one party: how its program point enters the count and the request.\<close>

lemma mr_rep_upd:
  assumes r: "mr_rep s R w" and s': "\<And>d. d \<noteq> c \<Longrightarrow> mr_cpu s' d = mr_cpu s d" and p: "p = mc_pc (mr_cpu s' c)"
    and l: "mr_lock s' = word_of_nat (card (if mr_counted p then insert c R else R - {c})) + (if w' = None then 0 else 0x2000000)"
    and w: "mr_requests p \<longleftrightarrow> w' = Some c" "w' = w \<or> (w = None \<or> w = Some c) \<and> (w' = None \<or> w' = Some c)"
    and n: "p \<noteq> MR_Out \<longrightarrow> c < MR_PARTIES"
    and ex: "\<And>d. d \<noteq> c \<Longrightarrow> mr_writes p \<Longrightarrow> \<not> mr_reads (mc_pc (mr_cpu s d))" "\<And>d. d \<noteq> c \<Longrightarrow> mr_reads p \<Longrightarrow> \<not> mr_writes (mc_pc (mr_cpu s d))"
  shows "mr_inv s'"
proof -
  have "(if mr_counted p then insert c R else R - {c}) = {d. mr_counted (mc_pc (mr_cpu s' d))}"
  proof (rule set_eqI)
    have "R = {c. mr_counted (mc_pc (mr_cpu s c))}" using r by (simp add: mr_rep_def)
    then show "d \<in> (if mr_counted p then insert c R else R - {c}) \<longleftrightarrow> d \<in> {d. mr_counted (mc_pc (mr_cpu s' d))}" for d
      using s' [of d] by (cases "d = c") (auto simp: p)
  qed
  moreover have "mc_pc (mr_cpu s' d) \<noteq> MR_Out \<longrightarrow> d < MR_PARTIES" for d
    using r n s' unfolding p mr_rep_def by (cases "d = c") auto
  moreover have "mr_requests (mc_pc (mr_cpu s' d)) \<longleftrightarrow> w' = Some d" for d
    using r w s' unfolding p mr_rep_def by (cases "d = c") auto
  moreover have "mr_writes (mc_pc (mr_cpu s' d)) \<longrightarrow> \<not> mr_reads (mc_pc (mr_cpu s' e))" for d e
    using r ex s' mr_writes_not_reads unfolding p mr_rep_def by (cases "d = c"; cases "e = c") auto
  ultimately have "mr_rep s' (if mr_counted p then insert c R else R - {c}) w'" using l unfolding mr_rep_def by blast
  then show ?thesis unfolding mr_inv_def by blast
qed

lemma mr_rep_lock: "mr_rep s R w \<Longrightarrow> mr_lock s = word_of_nat (card R) + (if w = None then 0 else 0x2000000)"
  by (simp add: mr_rep_def)

lemma mr_repD:
  assumes "mr_rep s R w"
  shows "c \<in> R \<longleftrightarrow> mr_counted (mc_pc (mr_cpu s c))" and "w = Some c \<longleftrightarrow> mr_requests (mc_pc (mr_cpu s c))"
    and "mc_pc (mr_cpu s c) \<noteq> MR_Out \<longrightarrow> c < MR_PARTIES"
    and "mr_writes (mc_pc (mr_cpu s c)) \<Longrightarrow> \<not> mr_reads (mc_pc (mr_cpu s d))"
  using assms unfolding mr_rep_def by auto

lemma mr_rep_counts:
  assumes r: "mr_rep s R w"
  shows "c \<notin> R \<Longrightarrow> word_of_nat (card (insert c R)) = (word_of_nat (card R) :: u32) + 1"
    and "c \<in> R \<Longrightarrow> word_of_nat (card (R - {c})) = (word_of_nat (card R) :: u32) - 1"
    and "c \<in> R \<Longrightarrow> card (insert c R) = card R" and "c \<notin> R \<Longrightarrow> card (R - {c}) = card R"
proof -
  have fin: "finite R" by (rule mr_rep_card [OF r])
  show "c \<notin> R \<Longrightarrow> word_of_nat (card (insert c R)) = (word_of_nat (card R) :: u32) + 1" using fin by simp
  show "c \<in> R \<Longrightarrow> word_of_nat (card (R - {c})) = (word_of_nat (card R) :: u32) - 1"
    using fin card_Suc_Diff1 [of R c] by (metis add_diff_cancel_left' of_nat_Suc)
qed (simp_all add: insert_absorb)

text \<open>The two loops: a request that finds the bit set changes nothing, one that finds it clear makes the party the writer; a wait
  that finds readers changes nothing.\<close>

lemma mr_request_inv:
  assumes r: "mr_rep s R w" and c: "mc_pc (mr_cpu s c) = MR_WTry \<and> p = MR_WWait \<or> mc_pc (mr_cpu s c) = MR_UTry \<and> p = MR_UDec"
  shows "mr_inv (mr_request p c s)"
proof (cases "w = None")
  case True
  have "mr_request p c s = mr_goto c p (s\<lparr>mr_lock := word_of_nat (card R) + 0x2000000\<rparr>)"
    using mr_rep_tests(1,3) [OF r] True by (simp add: mr_request_def atomic_bitTestAndSet_def MR_FLAGS_WRITE_REQUEST_SHIFT_def bit_request)
  then show ?thesis using c True mr_repD(1-3) [OF r, of c] mr_rep_counts(3,4) [OF r, of c]
    by (intro mr_rep_upd [OF r _ refl, where c = c and w' = "Some c"]) (auto simp: mr_points)
next
  case False
  then have "mr_lock s OR 0x2000000 = mr_lock s" using mr_rep_tests(3) [OF r] mr_rep_lock [OF r] by simp
  then have "mr_request p c s = s"
    using mr_rep_tests(1) [OF r] False by (simp add: mr_request_def atomic_bitTestAndSet_def MR_FLAGS_WRITE_REQUEST_SHIFT_def bit_request)
  then show ?thesis using r by (auto simp: mr_inv_def)
qed

lemma mr_wait_inv:
  assumes r: "mr_rep s R w" and c: "mc_pc (mr_cpu s c) \<in> {MR_WWait, MR_UWait}"
  shows "mr_inv (mr_wait c s)"
proof (cases "R = {}")
  case True
  then have "\<not> mr_reads (mc_pc (mr_cpu s d))" for d using mr_repD(1) [OF r, of d] mr_reads_counted by auto
  moreover have "mr_wait c s = mr_goto c MR_Got s" using mr_rep_tests(2) [OF r] True by (simp add: mr_wait_def FLAGS_ENUM_START_def)
  ultimately show ?thesis using c True mr_rep_lock [OF r] mr_repD(2-3) [OF r, of c]
    by (intro mr_rep_upd [OF r _ refl, where c = c and w' = w]) (auto simp: mr_counted_def mr_requests_def mr_writes_def mr_reads_def)
next
  case False
  then have "mr_wait c s = s" using mr_rep_tests(2) [OF r] by (simp add: mr_wait_def FLAGS_ENUM_START_def)
  then show ?thesis using r by (auto simp: mr_inv_def)
qed

lemma mr_spin_inv:
  assumes r: "mr_rep s R w" and c: "mc_pc (mr_cpu s c) = MR_RSpin"
  shows "mr_inv (mr_readAcquire_spin c s)"
proof (cases "w = None")
  case True
  then have "\<not> mr_writes (mc_pc (mr_cpu s d))" for d using mr_repD(2) [OF r, of d] mr_writes_requests by auto
  then show ?thesis using c mr_rep_tests(1) [OF r] True mr_rep_lock [OF r] mr_repD(1-3) [OF r, of c] mr_rep_counts(3) [OF r, of c]
    by (intro mr_rep_upd [OF r _ refl, where c = c and w' = w])
      (auto simp: mr_readAcquire_spin_def MR_FLAGS_WRITE_REQUEST_def mr_counted_def mr_requests_def mr_writes_def)
next
  case False
  then show ?thesis using r mr_rep_tests(1) [OF r] by (auto simp: mr_readAcquire_spin_def MR_FLAGS_WRITE_REQUEST_def mr_inv_def)
qed

lemma mr_step_inv: "mr_inv s \<Longrightarrow> mr_step s s' \<Longrightarrow> mr_inv s'"
proof -
  assume inv: "mr_inv s" and st: "mr_step s s'"
  then obtain R w where r: "mr_rep s R w" by (auto simp: mr_inv_def)
  note rep = mr_repD [OF r] and counts = mr_rep_counts [OF r] and upd = mr_rep_upd [OF r _ refl]
  show "mr_inv s'" using st
  proof cases
    case (read_enter c flags)
    then show ?thesis using mr_rep_lock [OF r] rep(1-2) [of c] counts(4) [of c] by (intro upd [where c = c and w' = w]) (auto simp: mr_defs mr_points)
  next
    case (read_inc c)
    then show ?thesis using mr_rep_lock [OF r] rep(1-3) [of c] counts(1) [of c] by (intro upd [where c = c and w' = w]) (auto simp: mr_defs mr_points)
  next
    case (read_leave c)
    then show ?thesis using mr_rep_lock [OF r] rep(1-2) [of c] counts(2) [of c] by (intro upd [where c = c and w' = w]) (auto simp: mr_defs mr_points)
  next
    case (write_enter c)
    then show ?thesis using mr_rep_lock [OF r] rep(1-2) [of c] counts(4) [of c] by (intro upd [where c = c and w' = w]) (auto simp: mr_defs mr_points)
  next
    case (upgrade_enter c)
    have "\<not> mr_writes (mc_pc (mr_cpu s d))" for d using rep(4) [of d c] upgrade_enter by (auto simp: mr_reads_def)
    then show ?thesis using upgrade_enter mr_rep_lock [OF r] rep(1-3) [of c] counts(3) [of c]
      by (intro upd [where c = c and w' = w]) (auto simp: mr_counted_def mr_requests_def mr_writes_def)
  next
    case (upgrade_dec c)
    then show ?thesis using mr_rep_lock [OF r] rep(1-3) [of c] counts(2) [of c] by (intro upd [where c = c and w' = w]) (auto simp: mr_defs mr_points)
  next
    case (got c)
    have "\<not> mr_reads (mc_pc (mr_cpu s d))" for d using rep(4) [of c d] got by (auto simp: mr_writes_def)
    then show ?thesis using got mr_rep_lock [OF r] rep(1-3) [of c] counts(4) [of c]
      by (intro upd [where c = c and w' = w]) (auto simp: mr_defs mr_counted_def mr_requests_def mr_writes_def mr_reads_def)
  next
    case (write_leave c)
    have "\<not> mr_reads (mc_pc (mr_cpu s d))" for d using rep(4) [of c d] write_leave by (auto simp: mr_writes_def)
    then show ?thesis using write_leave mr_rep_lock [OF r] rep(1-3) [of c] counts(4) [of c]
      by (intro upd [where c = c and w' = w]) (auto simp: mr_defs mr_counted_def mr_requests_def mr_writes_def mr_reads_def)
  next
    case (write_open c e)
    then have w: "w = Some c" "c \<notin> R" using rep(1-2) [of c] by (cases e; auto simp: mr_points)+
    then show ?thesis using write_open mr_rep_tests(4) [OF r] counts(4) [of c]
      by (intro upd [where c = c and w' = None])
        (auto simp: mr_defs atomic_bitTestAndClear_def MR_FLAGS_WRITE_REQUEST_SHIFT_def mr_points)
  qed (use r in \<open>auto intro: mr_request_inv mr_wait_inv mr_spin_inv\<close>)
qed

interpretation mr: exclusive_lock mr_start mr_step mr_inv "\<lambda>s c. mr_writes (mc_pc (mr_cpu s c))"
proof
  show "mr_inv s" if "mr_start s" for s using that
    by (auto simp: mr_start_def mr_inv_def mr_rep_def mr_points intro!: exI [of _ "{}"] exI [of _ None])
  show "p = q" if "mr_inv s" "mr_writes (mc_pc (mr_cpu s p))" "mr_writes (mc_pc (mr_cpu s q))" for s p q
    using that mr_writes_requests [of "mc_pc (mr_cpu s p)"] mr_writes_requests [of "mc_pc (mr_cpu s q)"] by (auto simp: mr_inv_def mr_rep_def)
qed (fact mr_step_inv)

section \<open>Deadlock\<close>

text \<open>
  A party that is counted and waits for the request bit (a reader in \<open>readAcquire\<close>, or a reader in \<open>readReleaseWriteAcquire\<close>
  whose request came second), and a writer that has the request bit and waits for the count.
\<close>

definition mr_stuck :: "u32 \<Rightarrow> u32 \<Rightarrow> mrlock \<Rightarrow> bool" where
  "mr_stuck c d s \<longleftrightarrow> mc_pc (mr_cpu s c) \<in> {MR_RSpin, MR_UTry} \<and> mc_pc (mr_cpu s d) \<in> {MR_WWait, MR_UWait}"

lemma mr_stuck_step:
  assumes inv: "mr_inv s" and st: "mr_step s s'" and stuck: "mr_stuck c d s"
  shows "mc_pc (mr_cpu s' c) = mc_pc (mr_cpu s c) \<and> mc_pc (mr_cpu s' d) = mc_pc (mr_cpu s d)"
proof -
  obtain R w where r: "mr_rep s R w" using inv by (auto simp: mr_inv_def)
  have "c \<in> R" "w = Some d" using mr_repD(1) [OF r, of c] mr_repD(2) [OF r, of d] stuck by (auto simp: mr_stuck_def mr_points)
  then have full: "mr_lock s AND 0x2000000 \<noteq> 0" "mr_lock s AND 0xFFFFFF \<noteq> 0" using mr_rep_tests(1,2) [OF r] by auto
  have "mr_readAcquire_spin x s = s" "mr_wait x s = s" "mr_cpu (mr_request p x s) = mr_cpu s" for x p
    using full by (simp_all add: mr_readAcquire_spin_def MR_FLAGS_WRITE_REQUEST_def mr_wait_def FLAGS_ENUM_START_def mr_request_def
      atomic_bitTestAndSet_def MR_FLAGS_WRITE_REQUEST_SHIFT_def bit_request)
  then show ?thesis using stuck by (cases rule: mr_step.cases [OF st]) (auto simp: mr_stuck_def mr_defs atomic_bitTestAndClear_def)
qed

lemma mr_stuck_runs:
  assumes "mr_inv s" "mr_stuck c d s" "runs mr_step s s'"
  shows "mc_pc (mr_cpu s' c) = mc_pc (mr_cpu s c) \<and> mc_pc (mr_cpu s' d) = mc_pc (mr_cpu s d)"
  using assms(3,1,2)
proof (induction rule: runs.induct)
  case (more s s' s'')
  have "mr_inv s'" using runs_inv [of mr_step s s' mr_inv] more mr_step_inv by blast
  moreover have "mr_stuck c d s'" using more by (simp add: mr_stuck_def)
  ultimately show ?case using more mr_stuck_step [of s' s'' c d] by simp
qed simp

section \<open>Properties\<close>

text \<open>C9: From a new reader-writer lock with fewer than \<open>2\<^sup>2\<^sup>4\<close> parties, in every interleaving: at most one party writes, and while one
  does none reads (a party that waits in \<open>readReleaseWriteAcquire\<close> for its request counts as reading).\<close>

theorem rwlock_writer_excludes:
  assumes "mr_start s" "runs mr_step s s'" "mr_writes (mc_pc (mr_cpu s' c))"
  shows "\<not> mr_reads (mc_pc (mr_cpu s' d)) \<and> (mr_writes (mc_pc (mr_cpu s' d)) \<longrightarrow> d = c)"
proof -
  have "mr_inv s'" by (rule mr.reach_inv [OF assms(1,2)])
  then obtain R w where r: "mr_rep s' R w" by (auto simp: mr_inv_def)
  show ?thesis using mr_repD(4) [OF r assms(3)] mr.exclusive [OF assms(1,2) _ assms(3)] by blast
qed

text \<open>A run to the state in which a reader and a writer wait for each other: the writer sets its request bit between the reader's
  increment and the reader's test.\<close>

definition mrlock_new :: mrlock where
  "mrlock_new = \<lparr>mr_lock = 0, mr_flags = 0, mr_cpu = (\<lambda>c. \<lparr>mc_pc = MR_Out, mc_irqs = True, mc_flags = 0\<rparr>)\<rparr>"

lemma mr_start_new: "mr_start mrlock_new" by (simp add: mr_start_def mrlock_new_def)

lemma mrlock_new_steps: "runs mr_step mrlock_new (mr_request MR_WWait 1 (mr_readAcquire_inc 0 (mr_writeAcquire_enter 1 (mr_readAcquire_enter 0 0 mrlock_new))))"
proof -
  let ?a = "mr_readAcquire_enter 0 0 mrlock_new" and ?b = "mr_writeAcquire_enter 1 (mr_readAcquire_enter 0 0 mrlock_new)"
  have "mr_step mrlock_new ?a" by (rule mr_step.read_enter) (simp_all add: mrlock_new_def MR_PARTIES_def)
  moreover have "mr_step ?a ?b" by (rule mr_step.write_enter) (simp_all add: mr_defs mrlock_new_def MR_PARTIES_def)
  moreover have "mr_step ?b (mr_readAcquire_inc 0 ?b)" by (rule mr_step.read_inc) (simp add: mr_defs)
  moreover have "mr_step (mr_readAcquire_inc 0 ?b) (mr_request MR_WWait 1 (mr_readAcquire_inc 0 ?b))"
    by (rule mr_step.write_request) (simp add: mr_defs)
  ultimately show ?thesis using runs.more [OF runs.more [OF runs.more [OF runs_one [of mr_step]]]] by blast
qed

text \<open>C10: The reader-writer lock deadlocks.  From a new lock there is a run after which a reader in \<open>readAcquire\<close> and a writer in
  \<open>writeAcquire\<close> wait for each other; and whenever a counted party waits for the request bit while a writer waits for the count, no
  continuation in which any party takes any step ever moves either of them.\<close>

theorem rwlock_deadlock:
  shows "(\<exists>s. runs mr_step mrlock_new s \<and> mr_stuck 0 1 s) \<and>
    (\<forall>s s' c d. mr_start s \<longrightarrow> runs mr_step s s' \<longrightarrow> mr_stuck c d s' \<longrightarrow> (\<forall>s''. runs mr_step s' s'' \<longrightarrow>
      mc_pc (mr_cpu s'' c) = mc_pc (mr_cpu s' c) \<and> mc_pc (mr_cpu s'' d) = mc_pc (mr_cpu s' d)))"
proof
  have "mr_stuck 0 1 (mr_request MR_WWait 1 (mr_readAcquire_inc 0 (mr_writeAcquire_enter 1 (mr_readAcquire_enter 0 0 mrlock_new))))"
    by (simp add: mr_stuck_def mr_request_def atomic_bitTestAndSet_def mr_defs mrlock_new_def MR_FLAGS_WRITE_REQUEST_SHIFT_def)
  then show "\<exists>s. runs mr_step mrlock_new s \<and> mr_stuck 0 1 s" using mrlock_new_steps by blast
qed (use mr_stuck_runs mr.reach_inv in blast)

theorem rwlock_deadlock_witness:
  "\<exists>s. runs mr_step mrlock_new s \<and> (\<forall>s''. runs mr_step s s'' \<longrightarrow> mc_pc (mr_cpu s'' 0) = mc_pc (mr_cpu s 0) \<and> mc_pc (mr_cpu s'' 1) = mc_pc (mr_cpu s 1))"
  using rwlock_deadlock mr_start_new by blast

theorem rwlock_writer_excludes_witness:
  "\<exists>s. runs mr_step mrlock_new s \<and> mr_writes (mc_pc (mr_cpu s 0)) \<and> (\<forall>d. \<not> mr_reads (mc_pc (mr_cpu s d)))"
proof -
  let ?a = "mr_writeAcquire_enter 0 mrlock_new" and ?b = "mr_request MR_WWait 0 (mr_writeAcquire_enter 0 mrlock_new)"
  have "mr_step mrlock_new ?a" by (rule mr_step.write_enter) (simp_all add: mrlock_new_def MR_PARTIES_def)
  moreover have "mr_step ?a ?b" by (rule mr_step.write_request) (simp add: mr_defs)
  moreover have b: "mc_pc (mr_cpu ?b 0) = MR_WWait" "mr_lock ?b = 0x2000000"
    by (simp_all add: mr_request_def atomic_bitTestAndSet_def mr_defs mrlock_new_def MR_FLAGS_WRITE_REQUEST_SHIFT_def)
  moreover have "mr_step ?b (mr_wait 0 ?b)" by (rule mr_step.write_wait) (rule b)
  ultimately have run: "runs mr_step mrlock_new (mr_wait 0 ?b)" using runs.more [OF runs.more [OF runs_one [of mr_step]]] by blast
  have w: "mr_writes (mc_pc (mr_cpu (mr_wait 0 ?b) 0))" using b by (simp add: mr_wait_def FLAGS_ENUM_START_def mr_writes_def)
  show ?thesis using rwlock_writer_excludes [OF mr_start_new run w] run w by blast
qed

text \<open>
  \<open>readAcquire\<close> sets the interrupt bit of the caller's variable and never clears it: a caller that passes a variable with the bit set
  and interrupts disabled has them enabled by its \<open>readRelease\<close>.
\<close>

lemma mr_readRelease_irqs:
  assumes "\<not> mc_irqs (mr_cpu s c)" and "flags AND FLAGS_IRQS_WERE_ENABLED \<noteq> 0"
    and "mr_cpu s' c = (mr_cpu (mr_readAcquire_enter flags c s) c)\<lparr>mc_pc := MR_Reading\<rparr>"
  shows "mc_irqs (mr_cpu (mr_readRelease c s') c)"
  using assms by (simp add: mr_defs)

end
