(* ===== verification/VSwamp.thy ===== *)
theory VSwamp
  imports Dll
begin

text \<open>
  The allocator of virtual page ranges (\<open>kernel/common/vSwamp.cpp\<close>): a doubly linked list of free ranges in address order.
  \<open>getPages\<close> takes pages from the first range that is large enough, \<open>releasePages\<close> gives a range back and joins it with its neighbours
  where the code looks for them.  Nodes live in a store; the first node is embedded in the object and is never freed.  The abstract
  view of a swamp is the set of free addresses.
\<close>

record swnode = dnode +
  sw_baseAddr :: u32
  sw_nPages :: u32

record vswamp =
  vs_baseAddr :: u32
  vs_size :: u32
  vs_lock :: nat
  vs_head :: ptr
  vs_tail :: ptr
  vs_store :: "swnode store"
  vs_initNode :: addr

abbreviation (input) PAGING_BASE_SIZE :: u32 where "PAGING_BASE_SIZE \<equiv> 0x1000"
abbreviation (input) PAGING_BASE_SHIFT :: nat where "PAGING_BASE_SHIFT \<equiv> 12"
abbreviation (input) PAGING_BASE_MASK_LOW :: u32 where "PAGING_BASE_MASK_LOW \<equiv> 0xFFF"
abbreviation (input) VSWAMP_INSERT_BEFORE :: status_t where "VSWAMP_INSERT_BEFORE \<equiv> - 1"
abbreviation (input) VSWAMP_INSERT_AFTER :: status_t where "VSWAMP_INSERT_AFTER \<equiv> - 2"

definition PAGING_BYTES_TO_PAGES :: "u32 \<Rightarrow> u32" where
  "PAGING_BYTES_TO_PAGES bytes = bytes div PAGING_BASE_SIZE + (if bytes mod PAGING_BASE_SIZE \<noteq> 0 then 1 else 0)"

definition PAGING_BASE_ALIGN_TRUNCATED :: "u32 \<Rightarrow> u32" where
  "PAGING_BASE_ALIGN_TRUNCATED a = (if a AND PAGING_BASE_MASK_LOW \<noteq> 0 then a AND NOT PAGING_BASE_MASK_LOW else a)"

definition PAGING_BASE_ALIGN_FORWARD :: "u32 \<Rightarrow> u32" where
  "PAGING_BASE_ALIGN_FORWARD a = (if a AND PAGING_BASE_MASK_LOW \<noteq> 0 then (a + PAGING_BASE_SIZE) AND NOT PAGING_BASE_MASK_LOW else a)"

section \<open>Operations\<close>

text \<open>The lock is recursive; an operation leaves its depth as it found it.\<close>

definition vs_acquire :: "vswamp \<Rightarrow> vswamp" where "vs_acquire s = s\<lparr>vs_lock := Suc (vs_lock s)\<rparr>"

definition vs_release :: "vswamp \<Rightarrow> vswamp" where "vs_release s = s\<lparr>vs_lock := vs_lock s - 1\<rparr>"

definition vs_deleteSwampNode :: "ptr \<Rightarrow> vswamp \<Rightarrow> vswamp option" where
  "vs_deleteSwampNode node s = (case node of None \<Rightarrow> Some s | Some a \<Rightarrow> do {
     n \<leftarrow> vs_store s a;
     h \<leftarrow> (if n_next n \<noteq> None then store_upd (vs_store s) (n_next n) (\<lambda>m. m\<lparr>n_prev := n_prev n\<rparr>) else Some (vs_store s));
     h \<leftarrow> (if n_prev n \<noteq> None then store_upd h (n_prev n) (\<lambda>m. m\<lparr>n_next := n_next n\<rparr>) else Some h);
     if a = vs_initNode s then Some (s\<lparr>vs_store := h\<rparr>) else Some (s\<lparr>vs_store := h(a := None)\<rparr>)
   })"

text \<open>The placement \<open>new\<close> of the kernel runs the constructor on whatever the object cache returned: a null pointer is written through.\<close>

definition vs_getNewSwampNode :: "swnode mem \<Rightarrow> u32 \<Rightarrow> u32 \<Rightarrow> ptr \<Rightarrow> ptr \<Rightarrow> vswamp \<Rightarrow> (ptr \<times> vswamp) option" where
  "vs_getNewSwampNode mem startAddr nPages prev next s = (case mem of None \<Rightarrow> None
     | Some (a, junk) \<Rightarrow> Some (Some a, s\<lparr>vs_store := (vs_store s)(a \<mapsto> \<lparr>n_prev = prev, n_next = next, sw_baseAddr = startAddr, sw_nPages = nPages\<rparr>)\<rparr>))"

text \<open>The constructor; \<open>i\<close> is the address of the embedded node.  The object cache's \<open>initialize\<close> always succeeds.\<close>

definition vs_construct :: "addr \<Rightarrow> u32 \<Rightarrow> u32 \<Rightarrow> vswamp" where
  "vs_construct i swampStart swampSize = \<lparr>vs_baseAddr = PAGING_BASE_ALIGN_FORWARD swampStart, vs_size = PAGING_BASE_ALIGN_TRUNCATED swampSize,
     vs_lock = 0, vs_head = None, vs_tail = None, vs_store = [i \<mapsto> \<lparr>n_prev = None, n_next = None, sw_baseAddr = 0, sw_nPages = 0\<rparr>], vs_initNode = i\<rparr>"

definition vs_initialize :: "vswamp \<Rightarrow> error_t \<times> vswamp" where
  "vs_initialize s =
     (if vs_baseAddr s + vs_size s < vs_baseAddr s then (ERROR_FATAL, s)
      else (ERROR_SUCCESS, s\<lparr>vs_store := (vs_store s)(vs_initNode s \<mapsto> \<lparr>n_prev = None, n_next = None, sw_baseAddr = vs_baseAddr s,
              sw_nPages = PAGING_BYTES_TO_PAGES (vs_size s)\<rparr>), vs_head := Some (vs_initNode s), vs_tail := Some (vs_initNode s)\<rparr>))"

text \<open>Taking pages from the front of a node; a node without pages is unlinked.\<close>

definition vs_take :: "u32 \<Rightarrow> addr \<Rightarrow> swnode \<Rightarrow> vswamp \<Rightarrow> (u32 \<times> vswamp) option" where
  "vs_take nPages a n s = do {
     let ret = sw_baseAddr n;
     let n' = n\<lparr>sw_nPages := sw_nPages n - nPages, sw_baseAddr := sw_baseAddr n + nPages * PAGING_BASE_SIZE\<rparr>;
     let s = s\<lparr>vs_store := (vs_store s)(a \<mapsto> n')\<rparr>;
     s \<leftarrow> (if sw_nPages n' = 0 then do {
            let s = (if vs_head s = Some a then s\<lparr>vs_head := n_next n\<rparr> else s);
            let s = (if vs_tail s = Some a then s\<lparr>vs_tail := n_prev n\<rparr> else s);
            vs_deleteSwampNode (Some a) s
          } else Some s);
     Some (ret, vs_release s)
   }"

partial_function (option) vs_getLoop :: "u32 \<Rightarrow> ptr \<Rightarrow> vswamp \<Rightarrow> (u32 \<times> vswamp) option" where
  "vs_getLoop nPages cur s = (case cur of None \<Rightarrow> Some (0, vs_release s)
     | Some a \<Rightarrow> do {
         n \<leftarrow> vs_store s a;
         if nPages \<le> sw_nPages n then vs_take nPages a n s else vs_getLoop nPages (n_next n) s
       })"

definition vs_getPages :: "u32 \<Rightarrow> vswamp \<Rightarrow> (u32 \<times> vswamp) option" where
  "vs_getPages nPages s = vs_getLoop nPages (vs_head s) (vs_acquire s)"

partial_function (option) vs_findLoop :: "u32 \<Rightarrow> ptr \<Rightarrow> ptr \<Rightarrow> vswamp \<Rightarrow> (ptr \<times> status_t) option" where
  "vs_findLoop vaddr cur altNode s = (case cur of None \<Rightarrow> Some (altNode, VSWAMP_INSERT_AFTER)
     | Some a \<Rightarrow> do {
         n \<leftarrow> vs_store s a;
         if vaddr < sw_baseAddr n then Some (cur, VSWAMP_INSERT_BEFORE) else vs_findLoop vaddr (n_next n) cur s
       })"

definition vs_findInsertionNode :: "u32 \<Rightarrow> vswamp \<Rightarrow> (ptr \<times> status_t) option" where
  "vs_findInsertionNode vaddr s = vs_findLoop vaddr (vs_head s) None s"

text \<open>The two cases of an insertion before a node: joining the range to the node and perhaps to its predecessor, or a node of its own.\<close>

definition vs_joinBefore :: "u32 \<Rightarrow> u32 \<Rightarrow> addr \<Rightarrow> swnode \<Rightarrow> vswamp \<Rightarrow> vswamp option" where
  "vs_joinBefore vaddr nPages i n s = do {
     let n = n\<lparr>sw_baseAddr := vaddr, sw_nPages := sw_nPages n + nPages\<rparr>;
     let s = s\<lparr>vs_store := (vs_store s)(i \<mapsto> n)\<rparr>;
     if n_prev n = None then Some s
     else do {
       p \<leftarrow> deref (vs_store s) (n_prev n);
       if sw_baseAddr p + sw_nPages p * PAGING_BASE_SIZE = sw_baseAddr n then do {
         let s = s\<lparr>vs_store := (vs_store s)(i \<mapsto> n\<lparr>sw_baseAddr := sw_baseAddr p, sw_nPages := sw_nPages n + sw_nPages p\<rparr>)\<rparr>;
         let s = (if n_prev n = vs_head s then s\<lparr>vs_head := Some i\<rparr> else s);
         vs_deleteSwampNode (n_prev n) s
       } else Some s
     }
   }"

definition vs_newBefore :: "swnode mem \<Rightarrow> u32 \<Rightarrow> u32 \<Rightarrow> addr \<Rightarrow> swnode \<Rightarrow> vswamp \<Rightarrow> vswamp option" where
  "vs_newBefore mem vaddr nPages i n s = do {
     (new, s) \<leftarrow> vs_getNewSwampNode mem vaddr nPages (n_prev n) (Some i) s;
     if new = None then Some s
     else do {
       h \<leftarrow> store_upd (vs_store s) (Some i) (\<lambda>m. m\<lparr>n_prev := new\<rparr>);
       if n_prev n \<noteq> None then do {
         h \<leftarrow> store_upd h (n_prev n) (\<lambda>m. m\<lparr>n_next := new\<rparr>);
         Some (s\<lparr>vs_store := h\<rparr>)
       } else Some (s\<lparr>vs_store := h, vs_head := new\<rparr>)
     }
   }"

definition vs_insertAfter :: "swnode mem \<Rightarrow> u32 \<Rightarrow> u32 \<Rightarrow> addr \<Rightarrow> vswamp \<Rightarrow> vswamp option" where
  "vs_insertAfter mem vaddr nPages i s =
     (if vs_head s = None then
        Some (s\<lparr>vs_store := (vs_store s)(vs_initNode s \<mapsto> \<lparr>n_prev = None, n_next = None, sw_baseAddr = vaddr, sw_nPages = nPages\<rparr>),
               vs_head := Some (vs_initNode s), vs_tail := Some (vs_initNode s)\<rparr>)
      else do {
        (new, s) \<leftarrow> vs_getNewSwampNode mem vaddr nPages (Some i) None s;
        h \<leftarrow> store_upd (vs_store s) (Some i) (\<lambda>m. m\<lparr>n_next := new\<rparr>);
        Some (s\<lparr>vs_store := h, vs_tail := new\<rparr>)
      })"

definition vs_releasePages :: "swnode mem \<Rightarrow> u32 \<Rightarrow> u32 \<Rightarrow> vswamp \<Rightarrow> vswamp option" where
  "vs_releasePages mem vaddr nPages s =
     (if vaddr = 0 \<or> vaddr AND PAGING_BASE_MASK_LOW \<noteq> 0 \<or> nPages = 0 then Some s
      else do {
        let s = vs_acquire s;
        (insertionNode, status) \<leftarrow> vs_findInsertionNode vaddr s;
        case insertionNode of
          None \<Rightarrow> Some (vs_release s)
        | Some i \<Rightarrow> do {
            n \<leftarrow> vs_store s i;
            s \<leftarrow> (if status = VSWAMP_INSERT_BEFORE then
                   if vaddr + push_bit PAGING_BASE_SHIFT nPages = sw_baseAddr n then vs_joinBefore vaddr nPages i n s
                   else vs_newBefore mem vaddr nPages i n s
                 else vs_insertAfter mem vaddr nPages i s);
            Some (vs_release s)
          }
      })"

section \<open>Ranges\<close>

text \<open>The content of a list of nodes is a list of ranges, each a start address and a number of pages.  The operations act on it like
  \<open>rs_take\<close> and \<open>rs_put\<close>.\<close>

type_synonym range = "u32 \<times> u32"

definition sw_data :: "swnode \<Rightarrow> range" where "sw_data n = (sw_baseAddr n, sw_nPages n)"

definition r_end :: "range \<Rightarrow> nat" where "r_end r = unat (fst r) + 4096 * unat (snd r)"

definition r_ivl :: "range \<Rightarrow> nat set" where "r_ivl r = {unat (fst r)..<r_end r}"

definition r_ok :: "range \<Rightarrow> bool" where
  "r_ok r \<longleftrightarrow> 0 < unat (fst r) \<and> 4096 dvd unat (fst r) \<and> 0 < unat (snd r) \<and> r_end r \<le> 2 ^ 32"

definition r_before :: "range \<Rightarrow> range \<Rightarrow> bool" where "r_before q r \<longleftrightarrow> r_end q \<le> unat (fst r)"

definition rs_ok :: "range list \<Rightarrow> bool" where "rs_ok rs \<longleftrightarrow> (\<forall>r \<in> set rs. r_ok r) \<and> sorted_wrt r_before rs"

definition rs_free :: "range list \<Rightarrow> nat set" where "rs_free rs = (\<Union>r \<in> set rs. r_ivl r)"

fun rs_take :: "u32 \<Rightarrow> range list \<Rightarrow> u32 \<times> range list" where
  "rs_take n [] = (0, [])"
| "rs_take n (r # rs) =
     (if n \<le> snd r then (fst r, if snd r - n = 0 then rs else (fst r + n * PAGING_BASE_SIZE, snd r - n) # rs)
      else (fst (rs_take n rs), r # snd (rs_take n rs)))"

definition rs_put :: "u32 \<Rightarrow> u32 \<Rightarrow> range list \<Rightarrow> range list" where
  "rs_put v n rs = (let pre = takeWhile (\<lambda>r. fst r \<le> v) rs in
     case dropWhile (\<lambda>r. fst r \<le> v) rs of
       [] \<Rightarrow> if rs = [] then [] else rs @ [(v, n)]
     | q # post \<Rightarrow>
         if v + n * PAGING_BASE_SIZE = fst q then
           if pre \<noteq> [] \<and> fst (last pre) + snd (last pre) * PAGING_BASE_SIZE = v
           then butlast pre @ (fst (last pre), snd q + n + snd (last pre)) # post
           else pre @ (v, snd q + n) # post
         else pre @ (v, n) # q # post)"

definition datas :: "swnode store \<Rightarrow> addr list \<Rightarrow> range option list" where "datas h as = map (\<lambda>a. map_option sw_data (h a)) as"

lemma datas_simps [simp]:
  "datas h [] = []" "datas h (a # as) = map_option sw_data (h a) # datas h as" "datas h (as @ bs) = datas h as @ datas h bs" "length (datas h as) = length as"
  by (simp_all add: datas_def)

lemma datas_frame [simp]: "a \<notin> set as \<Longrightarrow> datas (h(a := v)) as = datas h as"
  by (auto simp: datas_def)

lemma datas_same: "h a = Some n \<Longrightarrow> sw_data m = sw_data n \<Longrightarrow> datas (h(a \<mapsto> m)) as = datas h as"
  by (auto simp: datas_def)

lemma datas_cong: "(\<And>x. map_option sw_data (h' x) = map_option sw_data (h x)) \<Longrightarrow> datas h' as = datas h as"
  by (simp add: datas_def)

text \<open>A state whose list has the nodes \<open>as\<close> with the ranges \<open>rs\<close>.\<close>

definition vs_rep :: "vswamp \<Rightarrow> addr list \<Rightarrow> range list \<Rightarrow> bool" where
  "vs_rep s as rs \<longleftrightarrow> dlist (vs_store s) (vs_head s) (vs_tail s) as \<and> vs_store s (vs_initNode s) \<noteq> None \<and>
     datas (vs_store s) as = map Some rs"

definition vs_frame :: "vswamp \<Rightarrow> vswamp \<Rightarrow> bool" where
  "vs_frame s s' \<longleftrightarrow> vs_lock s' = vs_lock s \<and> vs_baseAddr s' = vs_baseAddr s \<and> vs_size s' = vs_size s \<and> vs_initNode s' = vs_initNode s"

section \<open>The list operations\<close>

text \<open>Unlinking a node anywhere in a chain.\<close>

definition relink :: "swnode \<Rightarrow> swnode store \<Rightarrow> swnode store option" where
  "relink n h = do {
     h \<leftarrow> (if n_next n \<noteq> None then store_upd h (n_next n) (\<lambda>m. m\<lparr>n_prev := n_prev n\<rparr>) else Some h);
     if n_prev n \<noteq> None then store_upd h (n_prev n) (\<lambda>m. m\<lparr>n_next := n_next n\<rparr>) else Some h
   }"

lemma dlist_ends_node:
  assumes "dlist h x t (bs @ a # cs)"
  shows "x = Some a \<longleftrightarrow> bs = []" and "t = Some a \<longleftrightarrow> cs = []"
  using dlist_ends [OF assms] assms by (cases bs; cases cs rule: rev_cases; auto simp: dlist_def)+

lemma dlist_links:
  assumes "dlist h x t (bs @ a # cs)" "h a = Some n"
  shows "n_next n = (if cs = [] then None else Some (hd cs))" and "n_prev n = (if bs = [] then None else Some (last bs))"
proof -
  have "dseg h (n_prev n) (Some a) (a # cs) None t" "\<exists>m. dseg h None x bs (Some a) m \<and> m = n_prev n" using assms by (auto simp: dlist_def)
  then show "n_next n = (if cs = [] then None else Some (hd cs))" "n_prev n = (if bs = [] then None else Some (last bs))"
    using assms(2) dseg_first [of h "Some a" "n_next n" cs None t] dseg_last [of h None x bs "Some a" "n_prev n"] by auto
qed

lemma data_upd:
  "h c = Some m \<Longrightarrow> sw_data m' = sw_data m \<Longrightarrow> map_option sw_data ((h(c \<mapsto> m')) b) = map_option sw_data (h b)"
  by simp

lemma relink_dlist:
  assumes d: "dlist h x t (bs @ a # cs)" and n: "h a = Some n"
  shows "\<exists>h'. relink n h = Some h' \<and> dlist h' (if bs = [] then n_next n else x) (if cs = [] then n_prev n else t) (bs @ cs) \<and>
    (\<forall>b. map_option sw_data (h' b) = map_option sw_data (h b))"
proof -
  note links = dlist_links [OF d n]
  have dist: "distinct (bs @ a # cs)" using d by (simp add: dlist_def)
  have alloc: "\<exists>m. h b = Some m" if "b \<in> set bs \<union> set cs" for b using dlist_alloc [OF d] that by auto
  consider (one) "bs = []" "cs = []" | (first) c ds where "bs = []" "cs = c # ds" | (last) b ds where "bs = ds @ [b]" "cs = []"
    | (mid) b ds c es where "bs = ds @ [b]" "cs = c # es"
    by (metis list.exhaust rev_exhaust)
  then show ?thesis
  proof cases
    case one
    then show ?thesis using links by (simp add: relink_def)
  next
    case first
    obtain m where m: "h c = Some m" using alloc first by auto
    then show ?thesis using dlist_unlink_first [of h x t a cs n] d n first links
      by (intro exI [of _ "h(c \<mapsto> m\<lparr>n_prev := None\<rparr>)"]) (simp add: relink_def sw_data_def)
  next
    case last
    obtain m where m: "h b = Some m" using alloc last by auto
    then show ?thesis using dlist_unlink_last [of h x t bs a n] d n last links
      by (intro exI [of _ "h(b \<mapsto> m\<lparr>n_next := None\<rparr>)"]) (simp add: relink_def sw_data_def)
  next
    case mid
    obtain m k where m: "h b = Some m" "h c = Some k" using alloc mid by (metis UnI1 UnI2 in_set_conv_decomp list.set_intros(1))
    have bc: "b \<noteq> c" using dist mid by auto
    have "dlist (h(c \<mapsto> k\<lparr>n_prev := Some b\<rparr>, b \<mapsto> m\<lparr>n_next := Some c\<rparr>)) x t (bs @ cs)"
      using dlist_unlink_mid [of h x t ds b a c es m k] d m mid bc by (simp add: fun_upd_twist)
    then show ?thesis using m mid links bc
      by (intro exI [of _ "h(c \<mapsto> k\<lparr>n_prev := Some b\<rparr>, b \<mapsto> m\<lparr>n_next := Some c\<rparr>)"]) (simp add: relink_def sw_data_def)
  qed
qed

lemma vs_deleteSwampNode_relink:
  "vs_store s a = Some n \<Longrightarrow> vs_deleteSwampNode (Some a) s = do {
     h \<leftarrow> relink n (vs_store s);
     Some (s\<lparr>vs_store := (if a = vs_initNode s then h else h(a := None))\<rparr>)
   }"
  by (simp add: vs_deleteSwampNode_def relink_def if_distrib cong: if_cong)

text \<open>Deleting the node \<open>a\<close> once head and tail no longer point to it.\<close>

lemma vs_deleteSwampNode_rep:
  assumes d: "dlist (vs_store s) x t (bs @ a # cs)" and n: "vs_store s a = Some n" and i: "vs_store s (vs_initNode s) \<noteq> None"
    and ht: "vs_head s = (if bs = [] then n_next n else x)" "vs_tail s = (if cs = [] then n_prev n else t)"
    and r: "datas (vs_store s) (bs @ cs) = map Some rs"
  shows "\<exists>s'. vs_deleteSwampNode (Some a) s = Some s' \<and> vs_rep s' (bs @ cs) rs \<and> vs_frame s s'"
proof -
  obtain h where h: "relink n (vs_store s) = Some h"
    "dlist h (if bs = [] then n_next n else x) (if cs = [] then n_prev n else t) (bs @ cs)"
    "\<forall>b. map_option sw_data (h b) = map_option sw_data (vs_store s b)" using relink_dlist [OF d n] by blast
  define h' where "h' = (if a = vs_initNode s then h else h(a := None))"
  have a: "a \<notin> set (bs @ cs)" using d by (simp add: dlist_def)
  have "vs_deleteSwampNode (Some a) s = Some (s\<lparr>vs_store := h'\<rparr>)"
    using h(1) by (simp add: vs_deleteSwampNode_relink [OF n] h'_def)
  moreover have "map_option sw_data (h (vs_initNode s)) \<noteq> None" using h(3) i by simp
  then have "h' (vs_initNode s) \<noteq> None" by (auto simp: h'_def)
  moreover have "datas h' (bs @ cs) = map Some rs"
    unfolding r [symmetric] using a datas_cong [of h "vs_store s"] h(3) by (simp add: h'_def)
  moreover have "dlist h' (vs_head s) (vs_tail s) (bs @ cs)"
    unfolding ht h'_def using h(2) dlist_drop_node [OF h(2) a] by (cases "a = vs_initNode s") (simp_all only: if_True if_False simp_thms)
  ultimately show ?thesis by (auto simp: vs_rep_def vs_frame_def)
qed

lemma vs_rep_split:
  assumes "vs_rep s (bs @ a # cs) (ps @ r # qs)" "length ps = length bs"
  obtains n where "vs_store s a = Some n" "sw_data n = r" "dlist (vs_store s) (vs_head s) (vs_tail s) (bs @ a # cs)"
    "datas (vs_store s) bs = map Some ps" "datas (vs_store s) cs = map Some qs"
  using assms by (auto simp: vs_rep_def append_eq_append_conv)

text \<open>Changing the data of one node.\<close>

lemma dlist_data_upd:
  assumes "dlist h x t as" "h a = Some n" "n_prev m = n_prev n" "n_next m = n_next n"
  shows "dlist (h(a \<mapsto> m)) x t as"
proof -
  have "dseg (h(a \<mapsto> m)) p y bs z l = dseg h p y bs z l" for p y bs z l
    using assms(2-4) by (induction bs arbitrary: p y) (auto split: option.splits)
  then show ?thesis using assms(1) by (simp add: dlist_def)
qed

lemma vs_take_rep:
  assumes rep: "vs_rep s (bs @ a # cs) (ps @ r # qs)" and len: "length ps = length bs" and n: "vs_store s a = Some n"
  shows "\<exists>s' as'. vs_take k a n s = Some (fst r, s') \<and> vs_frame (vs_release s) s' \<and>
    vs_rep s' as' (ps @ (if snd r - k = 0 then qs else (fst r + k * PAGING_BASE_SIZE, snd r - k) # qs))"
proof -
  from vs_rep_split [OF rep len] n have r: "sw_data n = r" and d: "dlist (vs_store s) (vs_head s) (vs_tail s) (bs @ a # cs)"
    and m: "datas (vs_store s) bs = map Some ps" "datas (vs_store s) cs = map Some qs"
    by (metis option.inject)+
  have i: "vs_store s (vs_initNode s) \<noteq> None" using rep by (simp add: vs_rep_def)
  let ?n = "n\<lparr>sw_nPages := sw_nPages n - k, sw_baseAddr := sw_baseAddr n + k * PAGING_BASE_SIZE\<rparr>"
  let ?h = "(vs_store s)(a \<mapsto> ?n)"
  have a: "a \<notin> set bs" "a \<notin> set cs" using d by (auto simp: dlist_def)
  have d': "dlist ?h (vs_head s) (vs_tail s) (bs @ a # cs)" using d n by (rule dlist_data_upd) simp_all
  have m': "datas ?h bs = map Some ps" "datas ?h cs = map Some qs"
    unfolding m [symmetric] using a by auto
  show ?thesis
  proof (cases "snd r - k = 0")
    case True
    note ends = dlist_ends_node [OF d]
    let ?s = "s\<lparr>vs_store := ?h, vs_head := (if bs = [] then n_next n else vs_head s), vs_tail := (if cs = [] then n_prev n else vs_tail s)\<rparr>"
    have "\<exists>s'. vs_deleteSwampNode (Some a) ?s = Some s' \<and> vs_rep s' (bs @ cs) (ps @ qs) \<and> vs_frame ?s s'"
      by (rule vs_deleteSwampNode_rep [of ?s "vs_head s" "vs_tail s" bs a cs ?n]) (use d' i m' in simp_all)
    then obtain s' where s': "vs_deleteSwampNode (Some a) ?s = Some s'" "vs_rep s' (bs @ cs) (ps @ qs)" "vs_frame ?s s'" by blast
    have "vs_take k a n s = Some (fst r, vs_release s')"
      using True r s'(1) ends by (cases "bs = []"; cases "cs = []") (auto simp: vs_take_def Let_def sw_data_def)
    moreover have "vs_rep (vs_release s') (bs @ cs) (ps @ qs)" using s'(2) by (simp add: vs_rep_def vs_release_def)
    moreover have "vs_frame (vs_release s) (vs_release s')" using s'(3) by (simp add: vs_frame_def vs_release_def)
    ultimately show ?thesis using True by auto
  next
    case False
    then show ?thesis using r d' m' i by (intro exI [of _ "vs_release (s\<lparr>vs_store := ?h\<rparr>)"] exI [of _ "bs @ a # cs"])
      (auto simp: vs_take_def Let_def sw_data_def vs_release_def vs_frame_def vs_rep_def)
  qed
qed

lemma vs_getLoop_rep:
  assumes "vs_rep s (bs @ cs) (ps @ qs)" "length ps = length bs"
  shows "\<exists>s' as'. vs_getLoop k (if cs = [] then None else Some (hd cs)) s = Some (fst (rs_take k qs), s') \<and> vs_frame (vs_release s) s' \<and>
    vs_rep s' as' (ps @ snd (rs_take k qs))"
  using assms
proof (induction cs arbitrary: bs ps qs)
  case Nil
  then have "qs = []" by (auto simp: vs_rep_def dest: arg_cong [where f = length])
  then show ?case using Nil
    by (intro exI [of _ "vs_release s"] exI [of _ bs]) (auto simp: vs_getLoop.simps [of k None] vs_frame_def vs_rep_def vs_release_def)
next
  case (Cons a cs)
  then obtain r rs where qs: "qs = r # rs" by (cases qs) (auto simp: vs_rep_def dest: arg_cong [where f = length])
  obtain n where n: "vs_store s a = Some n" "sw_data n = r" "dlist (vs_store s) (vs_head s) (vs_tail s) (bs @ a # cs)"
    using vs_rep_split [OF Cons.prems [unfolded qs]] by metis
  show ?case
  proof (cases "k \<le> snd r")
    case True
    then show ?thesis using vs_take_rep [OF Cons.prems [unfolded qs] n(1), of k] n
      by (auto simp: vs_getLoop.simps [of k "Some a"] qs sw_data_def)
  next
    case False
    have "\<exists>s' as'. vs_getLoop k (if cs = [] then None else Some (hd cs)) s = Some (fst (rs_take k rs), s') \<and> vs_frame (vs_release s) s' \<and>
      vs_rep s' as' ((ps @ [r]) @ snd (rs_take k rs))"
      by (rule Cons.IH [of "bs @ [a]"]) (use Cons.prems qs in simp_all)
    then show ?thesis using False n dlist_links(1) [OF n(3,1)] by (auto simp: vs_getLoop.simps [of k "Some a"] qs sw_data_def)
  qed
qed

lemma vs_getPages_rep:
  assumes "vs_rep s as rs"
  shows "\<exists>s' as'. vs_getPages k s = Some (fst (rs_take k rs), s') \<and> vs_frame s s' \<and> vs_rep s' as' (snd (rs_take k rs))"
proof -
  have "vs_rep (vs_acquire s) ([] @ as) ([] @ rs)" using assms by (simp add: vs_rep_def vs_acquire_def)
  from vs_getLoop_rep [OF this, of k] have "\<exists>s' as'. vs_getLoop k (if as = [] then None else Some (hd as)) (vs_acquire s) = Some (fst (rs_take k rs), s') \<and>
    vs_frame (vs_release (vs_acquire s)) s' \<and> vs_rep s' as' (snd (rs_take k rs))" by simp
  moreover have "vs_head s = (if as = [] then None else Some (hd as))" using assms dlist_ends(1) [of "vs_store s" "vs_head s" "vs_tail s" as] by (simp add: vs_rep_def)
  ultimately show ?thesis by (simp add: vs_getPages_def vs_frame_def vs_release_def vs_acquire_def)
qed

text \<open>The search stops at the first range above the address.\<close>

lemma vs_findLoop_rep:
  assumes "vs_rep s (bs @ cs) (ps @ qs)" "length ps = length bs"
  shows "vs_findLoop v (if cs = [] then None else Some (hd cs)) (if bs = [] then None else Some (last bs)) s =
    (let k = length (takeWhile (\<lambda>r. fst r \<le> v) qs) in
     if k < length cs then Some (Some (cs ! k), VSWAMP_INSERT_BEFORE)
     else Some (if bs @ cs = [] then None else Some (last (bs @ cs)), VSWAMP_INSERT_AFTER))"
  using assms
proof (induction cs arbitrary: bs ps qs)
  case Nil
  then show ?case by (simp add: vs_findLoop.simps)
next
  case (Cons a cs)
  then obtain r rs where qs: "qs = r # rs" by (cases qs) (auto simp: vs_rep_def dest: arg_cong [where f = length])
  obtain n where n: "vs_store s a = Some n" "sw_data n = r" "dlist (vs_store s) (vs_head s) (vs_tail s) (bs @ a # cs)"
    using vs_rep_split [OF Cons.prems [unfolded qs]] by metis
  show ?case
  proof (cases "v < fst r")
    case True
    then show ?thesis using n by (auto simp: vs_findLoop.simps [of v "Some a"] qs sw_data_def)
  next
    case False
    have "vs_findLoop v (if cs = [] then None else Some (hd cs)) (if bs @ [a] = [] then None else Some (last (bs @ [a]))) s =
      (let k = length (takeWhile (\<lambda>r. fst r \<le> v) rs) in
       if k < length cs then Some (Some (cs ! k), VSWAMP_INSERT_BEFORE)
       else Some (if (bs @ [a]) @ cs = [] then None else Some (last ((bs @ [a]) @ cs)), VSWAMP_INSERT_AFTER))"
      by (rule Cons.IH [of "bs @ [a]" "ps @ [r]"]) (use Cons.prems qs in simp_all)
    moreover have "fst r = sw_baseAddr n" "fst r \<le> v" "\<not> v < sw_baseAddr n" using n(2) False by (auto simp: sw_data_def)
    ultimately show ?thesis using n dlist_links(1) [OF n(3,1)] by (simp add: vs_findLoop.simps [of v "Some a"] qs Let_def)
  qed
qed

lemma vs_rep_length: "vs_rep s as rs \<Longrightarrow> length as = length rs"
  unfolding vs_rep_def by (metis datas_simps(4) length_map)

text \<open>Inserting a node in front of node \<open>c\<close>.\<close>

lemma vs_newBefore_rep:
  assumes rep: "vs_rep s (bs @ c # cs) (ps @ qs)" and len: "length ps = length bs" and n: "vs_store s c = Some n" and new: "vs_store s a = None"
  shows "\<exists>s'. vs_newBefore (Some (a, junk)) v k c n s = Some s' \<and> vs_frame s s' \<and> vs_rep s' (bs @ a # c # cs) (ps @ (v, k) # qs)"
proof -
  obtain q qs' where qs: "qs = q # qs'" using vs_rep_length [OF rep] len by (cases qs) auto
  obtain d: "dlist (vs_store s) (vs_head s) (vs_tail s) (bs @ c # cs)" and i: "vs_store s (vs_initNode s) \<noteq> None"
    and m: "datas (vs_store s) bs = map Some ps" "datas (vs_store s) (c # cs) = map Some qs"
    using rep len by (auto simp: vs_rep_def append_eq_append_conv)
  have a: "a \<notin> set (bs @ c # cs)" using dlist_alloc [OF d, of a] new by auto
  let ?new = "\<lparr>n_prev = n_prev n, n_next = Some c, sw_baseAddr = v, sw_nPages = k\<rparr>"
  show ?thesis
  proof (cases bs rule: rev_cases)
    case Nil
    let ?h = "(vs_store s)(c \<mapsto> n\<lparr>n_prev := Some a\<rparr>, a \<mapsto> ?new)"
    have h: "vs_head s = Some c" "n_prev n = None" "vs_tail s \<noteq> None" using dlist_ends [OF d] dlist_links [OF d n] Nil by auto
    have "dlist ?h (Some a) (vs_tail s) (a # c # cs)"
      using dlist_push_front [OF d [unfolded Nil append_Nil], of a, OF _ refl, of ?new] a h n Nil by simp
    moreover have "datas ?h (a # c # cs) = map Some ((v, k) # qs)"
      using m(2) a n datas_same [of "vs_store s" c n "n\<lparr>n_prev := Some a\<rparr>"] by (simp add: sw_data_def)
    ultimately show ?thesis using h n i a Nil m(1)
      by (intro exI [of _ "s\<lparr>vs_store := ?h, vs_head := Some a\<rparr>"]) (auto simp: vs_newBefore_def vs_getNewSwampNode_def vs_rep_def vs_frame_def fun_upd_twist)
  next
    case (snoc ds b)
    obtain nb where nb: "vs_store s b = Some nb" using dlist_alloc [OF d] snoc by auto
    let ?h = "(vs_store s)(b \<mapsto> nb\<lparr>n_next := Some a\<rparr>, c \<mapsto> n\<lparr>n_prev := Some a\<rparr>, a \<mapsto> ?new)"
    have bc: "b \<noteq> c" "b \<noteq> a" "c \<noteq> a" using d a snoc by (auto simp: dlist_def)
    have l: "n_prev n = Some b" "n_next nb = Some c" using dlist_links [OF d n] dlist_links(1) [of "vs_store s" "vs_head s" "vs_tail s" ds b "c # cs" nb] d nb snoc by auto
    have "dlist ?h (vs_head s) (vs_tail s) (bs @ a # c # cs)"
      using dlist_insert_after [of "vs_store s" "vs_head s" "vs_tail s" ds b c cs a nb n ?new] d a nb n l snoc by simp
    moreover have "datas ?h (bs @ a # c # cs) = map Some (ps @ (v, k) # qs)"
      using m a bc n nb datas_same [of "vs_store s" b nb "nb\<lparr>n_next := Some a\<rparr>"]
        datas_same [of "(vs_store s)(b \<mapsto> nb\<lparr>n_next := Some a\<rparr>)" c n "n\<lparr>n_prev := Some a\<rparr>"] by (simp add: sw_data_def)
    moreover have "vs_newBefore (Some (a, junk)) v k c n s = Some (s\<lparr>vs_store := ?h\<rparr>)"
      using l bc n nb by (simp add: vs_newBefore_def vs_getNewSwampNode_def fun_upd_twist)
    ultimately show ?thesis using i bc by (auto simp: vs_rep_def vs_frame_def)
  qed
qed

text \<open>Appending behind the last node.\<close>

lemma vs_insertAfter_rep:
  assumes rep: "vs_rep s (bs @ [c]) rs" and new: "vs_store s a = None"
  shows "\<exists>s'. vs_insertAfter (Some (a, junk)) v k c s = Some s' \<and> vs_frame s s' \<and> vs_rep s' (bs @ [c, a]) (rs @ [(v, k)])"
proof -
  obtain d: "dlist (vs_store s) (vs_head s) (vs_tail s) (bs @ [c])" and i: "vs_store s (vs_initNode s) \<noteq> None"
    and m: "datas (vs_store s) (bs @ [c]) = map Some rs"
    using rep by (auto simp: vs_rep_def)
  have a: "a \<notin> set (bs @ [c])" using dlist_alloc [OF d, of a] new by auto
  obtain n where n: "vs_store s c = Some n" using dlist_alloc [OF d, of c] by auto
  let ?new = "\<lparr>n_prev = Some c, n_next = None, sw_baseAddr = v, sw_nPages = k\<rparr>"
  let ?h = "(vs_store s)(c \<mapsto> n\<lparr>n_next := Some a\<rparr>, a \<mapsto> ?new)"
  have ht: "vs_tail s = Some c" "vs_head s \<noteq> None" using dlist_ends [OF d] by auto
  have "dlist ?h (vs_head s) (Some a) (bs @ [c, a])"
    using dlist_push_back [OF d a refl, of ?new] ht n by simp
  moreover have "datas ?h (bs @ [c, a]) = map Some (rs @ [(v, k)])"
    using datas_same [of "vs_store s" c n "n\<lparr>n_next := Some a\<rparr>"] a n m by (simp add: sw_data_def)
  moreover have "vs_insertAfter (Some (a, junk)) v k c s = Some (s\<lparr>vs_store := ?h, vs_tail := Some a\<rparr>)"
    using ht n a by (auto simp: vs_insertAfter_def vs_getNewSwampNode_def fun_upd_twist)
  ultimately show ?thesis using i a by (auto simp: vs_rep_def vs_frame_def)
qed

text \<open>Extending a node downwards, and joining it with its predecessor when they touch.\<close>

lemma vs_joinBefore_rep:
  assumes rep: "vs_rep s (bs @ c # cs) (ps @ q # qs)" and len: "length ps = length bs" and n: "vs_store s c = Some n"
  shows "\<exists>s' as'. vs_joinBefore v k c n s = Some s' \<and> vs_frame s s' \<and> vs_rep s' as'
    (if ps \<noteq> [] \<and> fst (last ps) + snd (last ps) * PAGING_BASE_SIZE = v then butlast ps @ (fst (last ps), snd q + k + snd (last ps)) # qs
     else ps @ (v, snd q + k) # qs)"
proof -
  from vs_rep_split [OF rep len] n have q: "sw_data n = q" and d: "dlist (vs_store s) (vs_head s) (vs_tail s) (bs @ c # cs)"
    and m: "datas (vs_store s) bs = map Some ps" "datas (vs_store s) cs = map Some qs"
    by (metis option.inject)+
  have i: "vs_store s (vs_initNode s) \<noteq> None" using rep by (simp add: vs_rep_def)
  have c: "c \<notin> set bs" "c \<notin> set cs" using d by (auto simp: dlist_def)
  define h where "h w p = (vs_store s)(c \<mapsto> n\<lparr>sw_baseAddr := w, sw_nPages := p\<rparr>)" for w p
  have h: "dlist (h w p) (vs_head s) (vs_tail s) (bs @ c # cs)" "datas (h w p) bs = map Some ps"
    "datas (h w p) cs = map Some qs" "h w p c = Some (n\<lparr>sw_baseAddr := w, sw_nPages := p\<rparr>)" "h w p (vs_initNode s) \<noteq> None" for w p
    using dlist_data_upd [OF d n, of "n\<lparr>sw_baseAddr := w, sw_nPages := p\<rparr>"] m c i
    by (simp_all add: h_def)
  have plain: "vs_rep (s\<lparr>vs_store := h w p\<rparr>) (bs @ c # cs) (ps @ (w, p) # qs)" for w p
    using h by (simp add: vs_rep_def sw_data_def)
  show ?thesis
  proof (cases bs rule: rev_cases)
    case Nil
    then have "n_prev n = None" "ps = []" using dlist_links [OF d n] len by auto
    then show ?thesis using plain [of v "snd q + k"] q
      by (intro exI [of _ "s\<lparr>vs_store := h v (snd q + k)\<rparr>"] exI [of _ "bs @ c # cs"]) (auto simp: vs_joinBefore_def Let_def vs_frame_def h_def sw_data_def)
  next
    case (snoc ds b)
    then obtain ps' r where ps: "ps = ps' @ [r]" "length ps' = length ds" using len by (cases ps rule: rev_cases) auto
    obtain p where p: "vs_store s b = Some p" "sw_data p = r" using m(1) snoc ps by (auto simp: append_eq_append_conv)
    have l: "n_prev n = Some b" "b \<noteq> c" using dlist_links [OF d n] snoc c by auto
    show ?thesis
    proof (cases "fst r + snd r * PAGING_BASE_SIZE = v")
      case False
      then show ?thesis using plain [of v "snd q + k"] q l p ps
        by (intro exI [of _ "s\<lparr>vs_store := h v (snd q + k)\<rparr>"] exI [of _ "bs @ c # cs"]) (auto simp: vs_joinBefore_def Let_def vs_frame_def h_def sw_data_def)
    next
      case True
      let ?h = "h (fst r) (snd q + k + snd r)"
      let ?s = "s\<lparr>vs_store := ?h, vs_head := (if ds = [] then Some c else vs_head s)\<rparr>"
      have hb: "?h b = Some p" using p l by (simp add: h_def)
      have d': "dlist ?h (vs_head s) (vs_tail s) (ds @ b # c # cs)" using h(1) snoc by simp
      have head: "Some b = vs_head s \<longleftrightarrow> ds = []" using dlist_ends_node(1) [OF d'] by auto
      have "\<exists>s'. vs_deleteSwampNode (Some b) ?s = Some s' \<and> vs_rep s' (ds @ c # cs) (ps' @ (fst r, snd q + k + snd r) # qs) \<and> vs_frame ?s s'"
      proof (rule vs_deleteSwampNode_rep [of ?s "vs_head s" "vs_tail s" ds b "c # cs" p])
        show "datas (vs_store ?s) (ds @ c # cs) = map Some (ps' @ (fst r, snd q + k + snd r) # qs)"
          using h(2-4) [of "fst r" "snd q + k + snd r"] snoc ps by (simp add: sw_data_def append_eq_append_conv)
      qed (use d' hb h(5) [of "fst r" "snd q + k + snd r"] dlist_links(1) [OF d' hb] in simp_all)
      then obtain s' where s': "vs_deleteSwampNode (Some b) ?s = Some s'" "vs_rep s' (ds @ c # cs) (ps' @ (fst r, snd q + k + snd r) # qs)" "vs_frame ?s s'"
        by blast
      have "vs_joinBefore v k c n s = Some s'"
      proof -
        have r: "sw_baseAddr p = fst r" "sw_nPages p = snd r" "sw_nPages n = snd q" using p(2) q by (auto simp: sw_data_def)
        show ?thesis using True l p(1) s'(1) head r by (auto simp: vs_joinBefore_def Let_def h_def)
      qed
      then show ?thesis using s' True ps by (auto simp: vs_frame_def)
    qed
  qed
qed

lemma page_shift: "push_bit PAGING_BASE_SHIFT (n :: u32) = n * PAGING_BASE_SIZE"
  by (simp add: push_bit_eq_mult)

lemma vs_releasePages_run:
  assumes "v \<noteq> 0" "v AND 0xFFF = 0" "k \<noteq> 0" "vs_findInsertionNode v (vs_acquire s) = Some (Some i, st)" "vs_store (vs_acquire s) i = Some n"
  shows "vs_releasePages mem v k s = map_option vs_release
    (if st = VSWAMP_INSERT_BEFORE then if v + k * PAGING_BASE_SIZE = sw_baseAddr n then vs_joinBefore v k i n (vs_acquire s)
       else vs_newBefore mem v k i n (vs_acquire s) else vs_insertAfter mem v k i (vs_acquire s))"
proof -
  have bind: "Option.bind x (\<lambda>s. Some (vs_release s)) = map_option vs_release x" for x by (cases x) simp_all
  show ?thesis using assms by (simp add: vs_releasePages_def Let_def page_shift bind del: bind_assoc)
qed

text \<open>\<open>releasePages\<close> of an aligned non-empty range acts on the ranges as \<open>rs_put\<close>.\<close>

lemma vs_releasePages_rep:
  assumes rep: "vs_rep s as rs" and v: "v \<noteq> 0" "v AND 0xFFF = 0" "k \<noteq> 0" and new: "vs_store s a = None"
  shows "\<exists>s' as'. vs_releasePages (Some (a, junk)) v k s = Some s' \<and> vs_frame s s' \<and> vs_rep s' as' (rs_put v k rs)"
proof -
  let ?s = "vs_acquire s" and ?pre = "takeWhile (\<lambda>r. fst r \<le> v) rs" and ?post = "dropWhile (\<lambda>r. fst r \<le> v) rs"
  have rep': "vs_rep ?s as rs" and new': "vs_store ?s a = None" using rep new by (simp_all add: vs_rep_def vs_acquire_def)
  have fin: "vs_frame s (vs_release t)" "vs_rep (vs_release t) bs ps" if "vs_frame ?s t" "vs_rep t bs ps" for t bs ps
    using that by (simp_all add: vs_frame_def vs_rep_def vs_acquire_def vs_release_def)
  have len: "length as = length rs" by (rule vs_rep_length [OF rep])
  have head: "vs_head ?s = (if as = [] then None else Some (hd as))" using rep' dlist_ends(1) [of "vs_store ?s" "vs_head ?s" "vs_tail ?s" as] by (simp add: vs_rep_def)
  have find: "vs_findInsertionNode v ?s = (if length ?pre < length as then Some (Some (as ! length ?pre), VSWAMP_INSERT_BEFORE)
      else Some (if as = [] then None else Some (last as), VSWAMP_INSERT_AFTER))"
    using vs_findLoop_rep [of ?s "[]" as "[]" rs v] rep' head by (simp add: vs_findInsertionNode_def Let_def)
  show ?thesis
  proof (cases ?post)
    case (Cons q qs)
    then have lt: "length ?pre < length as" and rs: "rs = ?pre @ q # qs" unfolding len by (metis add_less_cancel_left length_append length_greater_0_conv list.distinct(1) takeWhile_dropWhile_id add_0_right, metis takeWhile_dropWhile_id)
    define i bs cs where "i = as ! length ?pre" and "bs = take (length ?pre) as" and "cs = drop (Suc (length ?pre)) as"
    have as: "as = bs @ i # cs" "length ?pre = length bs" using lt by (simp_all add: i_def bs_def cs_def id_take_nth_drop)
    have rep2: "vs_rep ?s (bs @ i # cs) (?pre @ q # qs)" using rep' as(1) rs by simp
    obtain n where n: "vs_store ?s i = Some n" "sw_data n = q" using vs_rep_split [OF rep2 as(2)] by metis
    note join = vs_joinBefore_rep [OF rep2 as(2) n(1), of v k] and new = vs_newBefore_rep [OF rep2 as(2) n(1) new', of junk v k]
    have f: "vs_findInsertionNode v ?s = Some (Some i, VSWAMP_INSERT_BEFORE)" and q: "sw_baseAddr n = fst q"
      using find lt n(2) by (auto simp: i_def sw_data_def)
    note run = vs_releasePages_run [OF v f n(1), of "Some (a, junk)", unfolded q simp_thms if_True]
    show ?thesis
    proof (cases "v + k * PAGING_BASE_SIZE = fst q")
      case True
      from join obtain t bs' where t: "vs_joinBefore v k i n ?s = Some t" "vs_frame ?s t" "vs_rep t bs' (if ?pre \<noteq> [] \<and> fst (last ?pre) + snd (last ?pre) * PAGING_BASE_SIZE = v
        then butlast ?pre @ (fst (last ?pre), snd q + k + snd (last ?pre)) # qs else ?pre @ (v, snd q + k) # qs)" by blast
      then show ?thesis using run True fin [OF t(2,3)] by (auto simp: rs_put_def Cons Let_def)
    next
      case False
      from new obtain t where t: "vs_newBefore (Some (a, junk)) v k i n ?s = Some t" "vs_frame ?s t" "vs_rep t (bs @ a # i # cs) (?pre @ (v, k) # q # qs)" by blast
      then show ?thesis using run False fin [OF t(2,3)] by (auto simp: rs_put_def Cons Let_def)
    qed
  next
    case Nil
    then have all: "?pre = rs" by (metis append_Nil2 takeWhile_dropWhile_id)
    show ?thesis
    proof (cases as rule: rev_cases)
      case Nil
      then have "rs = []" using len by simp
      then show ?thesis using v find Nil fin(1) [of ?s as rs] fin(2) [of ?s as rs] rep'
        by (intro exI [of _ "vs_release ?s"] exI [of _ as]) (auto simp: vs_releasePages_def Let_def rs_put_def vs_frame_def)
    next
      case (snoc bs c)
      obtain n where n: "vs_store ?s c = Some n" using rep' snoc dlist_alloc [of "vs_store ?s" _ _ as c] by (auto simp: vs_rep_def)
      have "vs_rep ?s (bs @ [c]) rs" using rep' snoc by simp
      from vs_insertAfter_rep [OF this new', of junk v k] obtain t where
        t: "vs_insertAfter (Some (a, junk)) v k c ?s = Some t" "vs_frame ?s t" "vs_rep t (bs @ [c, a]) (rs @ [(v, k)])" by blast
      have "vs_releasePages (Some (a, junk)) v k s = Some (vs_release t)"
        using vs_releasePages_run [OF v _ n, of VSWAMP_INSERT_AFTER "Some (a, junk)"] find all len snoc t(1) by simp
      moreover have "rs_put v k rs = rs @ [(v, k)]" using len snoc unfolding rs_put_def Nil by (auto simp: Let_def)
      ultimately show ?thesis using fin [OF t(2,3)] by auto
    qed
  qed
qed

section \<open>The ranges as sets of addresses\<close>

lemma r_end_word:
  assumes "0 < unat (fst r)" "r_end r \<le> 2 ^ 32"
  shows "unat (fst r + snd r * PAGING_BASE_SIZE) = (if r_end r = 2 ^ 32 then 0 else r_end r)"
proof -
  have "unat (snd r * PAGING_BASE_SIZE) = 4096 * unat (snd r)"
    using assms by (simp add: unat_word_ariths r_end_def)
  then show ?thesis using assms by (simp add: unat_word_ariths r_end_def mult.commute)
qed

lemma r_ok_end: "r_ok r \<Longrightarrow> unat (fst r) < r_end r"
  by (simp add: r_ok_def r_end_def)

lemma rs_ok_Cons: "rs_ok (r # rs) \<longleftrightarrow> r_ok r \<and> (\<forall>q \<in> set rs. r_before r q) \<and> rs_ok rs"
  by (auto simp: rs_ok_def)

lemma rs_ok_append: "rs_ok (ps @ qs) \<longleftrightarrow> rs_ok ps \<and> rs_ok qs \<and> (\<forall>p \<in> set ps. \<forall>q \<in> set qs. r_before p q)"
  by (auto simp: rs_ok_def sorted_wrt_append)

lemma rs_free_simps [simp]:
  "rs_free [] = {}" "rs_free (r # rs) = r_ivl r \<union> rs_free rs" "rs_free (ps @ qs) = rs_free ps \<union> rs_free qs"
  by (auto simp: rs_free_def)

lemma r_before_disjoint: "r_before p q \<Longrightarrow> r_ivl p \<inter> r_ivl q = {}"
  by (auto simp: r_before_def r_ivl_def)

lemma rs_free_after: "(\<forall>q \<in> set rs. r_before r q) \<Longrightarrow> r_ivl r \<inter> rs_free rs = {}"
  using r_before_disjoint by (fastforce simp: rs_free_def)

text \<open>Taking from the front of a range.\<close>

lemma r_split:
  assumes r: "r_ok r" and k: "0 < unat k" "k \<le> snd r"
  shows "r_ok (fst r, k)" "r_ivl (fst r, k) \<subseteq> r_ivl r"
    "snd r - k = 0 \<Longrightarrow> r_ivl r - r_ivl (fst r, k) = {}"
    "snd r - k \<noteq> 0 \<Longrightarrow> r_ok (fst r + k * PAGING_BASE_SIZE, snd r - k) \<and> r_end (fst r + k * PAGING_BASE_SIZE, snd r - k) = r_end r \<and>
      unat (fst r) \<le> unat (fst r + k * PAGING_BASE_SIZE) \<and> r_ivl (fst r + k * PAGING_BASE_SIZE, snd r - k) = r_ivl r - r_ivl (fst r, k)"
proof -
  have le: "unat k \<le> unat (snd r)" using k(2) by (simp add: word_le_nat_alt)
  then show o: "r_ok (fst r, k)" and "r_ivl (fst r, k) \<subseteq> r_ivl r" using r k by (auto simp: r_ok_def r_end_def r_ivl_def)
  show "snd r - k = 0 \<Longrightarrow> r_ivl r - r_ivl (fst r, k) = {}" by (simp add: r_ivl_def r_end_def)
  assume "snd r - k \<noteq> 0"
  then have lt: "unat k < unat (snd r)" "unat (snd r - k) = unat (snd r) - unat k" using le k(2) by (auto simp: unat_sub word_unat_eq_iff le_less)
  then have "r_end (fst r, k) < r_end r" by (simp add: r_end_def)
  then have "unat (fst r + k * PAGING_BASE_SIZE) = r_end (fst r, k)" using r_end_word [of "(fst r, k)"] o r by (simp add: r_ok_def)
  then have e: "unat (fst r + k * PAGING_BASE_SIZE) = unat (fst r) + 4096 * unat k" by (simp add: r_end_def)
  then have en: "r_end (fst r + k * PAGING_BASE_SIZE, snd r - k) = r_end r" using lt by (simp add: r_end_def algebra_simps)
  then show "r_ok (fst r + k * PAGING_BASE_SIZE, snd r - k) \<and> r_end (fst r + k * PAGING_BASE_SIZE, snd r - k) = r_end r \<and>
      unat (fst r) \<le> unat (fst r + k * PAGING_BASE_SIZE) \<and> r_ivl (fst r + k * PAGING_BASE_SIZE, snd r - k) = r_ivl r - r_ivl (fst r, k)"
    using e r lt by (auto simp: r_ok_def r_ivl_def) (simp_all add: r_end_def)
qed

text \<open>First fit: fails only if no range is large enough; otherwise takes free addresses and leaves exactly the others.\<close>

definition rs_took :: "u32 \<Rightarrow> range list \<Rightarrow> u32 \<Rightarrow> range list \<Rightarrow> bool" where
  "rs_took k rs v rs' \<longleftrightarrow> r_ok (v, k) \<and> r_ivl (v, k) \<subseteq> rs_free rs \<and> rs_free rs' = rs_free rs - r_ivl (v, k) \<and> rs_ok rs' \<and>
     (\<forall>q \<in> set rs'. \<exists>r \<in> set rs. unat (fst r) \<le> unat (fst q))"

lemma rs_took_here:
  assumes r: "r_ok r" "\<forall>q \<in> set rs. r_before r q" "rs_ok rs" and k: "0 < unat k" "k \<le> snd r"
  shows "rs_took k (r # rs) (fst r) (if snd r - k = 0 then rs else (fst r + k * PAGING_BASE_SIZE, snd r - k) # rs)"
proof -
  note sp = r_split [OF r(1) k]
  have dis: "rs_free rs - r_ivl (fst r, k) = rs_free rs" using rs_free_after [OF r(2)] sp(2) by auto
  show ?thesis
  proof (cases "snd r - k = 0")
    case True
    then have "r_ivl r - r_ivl (fst r, k) = {}" by (rule sp(3))
    then have "rs_free (r # rs) - r_ivl (fst r, k) = rs_free rs" using dis by auto
    then show ?thesis using True sp(1,2) r(3) by (auto simp: rs_took_def)
  next
    case False
    let ?q = "(fst r + k * PAGING_BASE_SIZE, snd r - k)"
    have q: "r_ok ?q" "r_end ?q = r_end r" "unat (fst r) \<le> unat (fst ?q)" "r_ivl ?q = r_ivl r - r_ivl (fst r, k)" using sp(4) [OF False] by auto
    have "rs_ok (?q # rs)" using q(1,2) r(2,3) by (simp add: rs_ok_Cons r_before_def)
    moreover have "rs_free (?q # rs) = rs_free (r # rs) - r_ivl (fst r, k)" unfolding rs_free_simps q(4) using dis by auto
    ultimately show ?thesis using False sp(1,2) q(3) by (auto simp: rs_took_def)
  qed
qed

lemma rs_took_later:
  assumes r: "r_ok r" "\<forall>q \<in> set rs. r_before r q" and t: "rs_took k rs v rs'"
  shows "rs_took k (r # rs) v (r # rs')"
proof -
  have "\<forall>q \<in> set rs'. r_before r q" using t r(2) by (fastforce simp: rs_took_def r_before_def)
  moreover have "r_ivl r - r_ivl (v, k) = r_ivl r" using t rs_free_after [OF r(2)] by (auto simp: rs_took_def)
  ultimately show ?thesis using t r(1) by (auto simp: rs_took_def rs_ok_Cons)
qed

lemma rs_take_correct:
  assumes "rs_ok rs" "0 < unat k"
  shows "if \<forall>r \<in> set rs. snd r < k then rs_take k rs = (0, rs) else rs_took k rs (fst (rs_take k rs)) (snd (rs_take k rs))"
  using assms
proof (induction rs)
  case (Cons r rs)
  then have r: "r_ok r" "\<forall>q \<in> set rs. r_before r q" "rs_ok rs" by (simp_all add: rs_ok_Cons)
  show ?case
  proof (cases "k \<le> snd r")
    case True
    then have t: "rs_take k (r # rs) = (fst r, if snd r - k = 0 then rs else (fst r + k * PAGING_BASE_SIZE, snd r - k) # rs)" by simp
    have "\<not> (\<forall>q \<in> set (r # rs). snd q < k)" using True by (auto simp: not_less)
    then show ?thesis using rs_took_here [OF r Cons.prems(2) True] unfolding t by (simp only: if_False fst_conv snd_conv)
  next
    case False
    then show ?thesis using Cons.IH [OF r(3) Cons.prems(2)] rs_took_later [OF r(1,2)] by (auto simp: not_le split: if_splits)
  qed
qed simp

text \<open>Giving back: the search point splits the ranges at the address.\<close>

lemma rs_put_parts:
  assumes "rs_ok rs"
  shows "\<And>p. p \<in> set (takeWhile (\<lambda>r. fst r \<le> v) rs) \<Longrightarrow> unat (fst p) \<le> unat v"
    and "\<And>q. q \<in> set (dropWhile (\<lambda>r. fst r \<le> v) rs) \<Longrightarrow> unat v < unat (fst q)"
proof -
  show "unat (fst p) \<le> unat v" if "p \<in> set (takeWhile (\<lambda>r. fst r \<le> v) rs)" for p using set_takeWhileD [OF that] by (simp add: word_le_nat_alt)
  show "unat v < unat (fst q)" if q: "q \<in> set (dropWhile (\<lambda>r. fst r \<le> v) rs)" for q
  proof (cases "dropWhile (\<lambda>r. fst r \<le> v) rs")
    case (Cons p ps)
    then have "\<not> fst p \<le> v" using hd_dropWhile [of "\<lambda>r. fst r \<le> v" rs] by simp
    moreover have "rs_ok (p # ps)" using assms rs_ok_append [of "takeWhile (\<lambda>r. fst r \<le> v) rs" "p # ps"] Cons by (metis takeWhile_dropWhile_id)
    then have "q = p \<or> unat (fst p) \<le> unat (fst q)" using q Cons r_ok_end [of p] by (auto simp: rs_ok_Cons r_before_def)
    ultimately show ?thesis by (auto simp: word_le_nat_alt)
  next
    case Nil
    have "q \<in> set []" using q unfolding Nil .
    then show ?thesis by simp
  qed
qed

text \<open>A range that starts at or above \<open>p\<close>, or below \<open>q\<close>, and does not meet it lies behind, or before, it.\<close>

lemma disjoint_before:
  assumes "r_ok p" "r_ok q" "unat (fst p) \<le> unat (fst q)" "r_ivl p \<inter> r_ivl q = {}"
  shows "r_before p q"
proof (rule ccontr)
  assume "\<not> r_before p q"
  then have "unat (fst q) \<in> r_ivl p \<inter> r_ivl q" using assms(1-3) r_ok_end [OF assms(2)] by (auto simp: r_before_def r_ivl_def)
  then show False using assms(4) by simp
qed

lemma r_join:
  assumes a: "r_ok a" and b: "r_ok b" and e: "fst a + snd a * PAGING_BASE_SIZE = fst b"
  shows "r_ok (fst a, snd b + snd a)" "r_end (fst a, snd b + snd a) = r_end b" "r_ivl (fst a, snd b + snd a) = r_ivl a \<union> r_ivl b"
proof -
  have "r_end a = unat (fst b)" using r_end_word [of a] a b e by (auto simp: r_ok_def split: if_splits)
  moreover have "unat (snd b + snd a) = unat (snd b) + unat (snd a)"
    using a b calculation by (intro unat_add_no_wrap) (simp add: r_ok_def r_end_def)
  ultimately show "r_end (fst a, snd b + snd a) = r_end b" by (simp add: r_end_def)
  then show "r_ok (fst a, snd b + snd a)" "r_ivl (fst a, snd b + snd a) = r_ivl a \<union> r_ivl b"
    using a b \<open>r_end a = unat (fst b)\<close> \<open>unat (snd b + snd a) = _\<close> r_ok_end [OF a] r_ok_end [OF b] by (auto simp: r_ok_def r_ivl_def)
qed

lemma rs_put_correct:
  assumes rs: "rs_ok rs" "rs \<noteq> []" and new: "r_ok (v, k)" "r_ivl (v, k) \<inter> rs_free rs = {}"
  shows "rs_ok (rs_put v k rs) \<and> rs_free (rs_put v k rs) = rs_free rs \<union> r_ivl (v, k)"
proof -
  define pre where "pre = takeWhile (\<lambda>r. fst r \<le> v) rs"
  define post where "post = dropWhile (\<lambda>r. fst r \<le> v) rs"
  have split: "rs = pre @ post" by (simp add: pre_def post_def)
  then have ok: "rs_ok pre" "rs_ok post" "\<forall>p \<in> set pre. \<forall>q \<in> set post. r_before p q" using rs(1) by (simp_all add: rs_ok_append)
  have dis: "r_ivl (v, k) \<inter> r_ivl p = {}" if "p \<in> set rs" for p using new(2) that by (auto simp: rs_free_def)
  have sub: "set pre \<subseteq> set rs" "set post \<subseteq> set rs" unfolding split by auto
  have pre: "r_before p (v, k)" if p: "p \<in> set pre" for p
  proof (rule disjoint_before)
    show "unat (fst p) \<le> unat (fst (v, k))" using rs_put_parts(1) [OF rs(1)] p by (simp add: pre_def)
    show "r_ivl p \<inter> r_ivl (v, k) = {}" using dis [of p] sub p by auto
  qed (use p ok(1) new(1) in \<open>auto simp: rs_ok_def\<close>)
  have post: "r_before (v, k) q" if q: "q \<in> set post" for q
  proof (rule disjoint_before)
    show "unat (fst (v, k)) \<le> unat (fst q)" using rs_put_parts(2) [OF rs(1), of q v] q by (simp add: post_def)
    show "r_ivl (v, k) \<inter> r_ivl q = {}" using dis [of q] sub q by auto
  qed (use q ok(2) new(1) in \<open>auto simp: rs_ok_def\<close>)
  have put: "rs_put v k rs = (case post of [] \<Rightarrow> rs @ [(v, k)] | q # post \<Rightarrow>
      if v + k * PAGING_BASE_SIZE = fst q then
        if pre \<noteq> [] \<and> fst (last pre) + snd (last pre) * PAGING_BASE_SIZE = v then butlast pre @ (fst (last pre), snd q + k + snd (last pre)) # post
        else pre @ (v, snd q + k) # post
      else pre @ (v, k) # q # post)"
    unfolding rs_put_def Let_def pre_def [symmetric] post_def [symmetric] using rs(2) by simp
  show ?thesis
  proof (cases post)
    case Nil
    then have "rs_put v k rs = rs @ [(v, k)]" "set pre = set rs" using put split by simp_all
    then show ?thesis using rs(1) pre new(1) by (simp add: rs_ok_def sorted_wrt_append)
  next
    case (Cons q qs)
    have q: "r_ok q" "\<forall>r \<in> set qs. r_before q r" "rs_ok qs" using ok(2) Cons by (simp_all add: rs_ok_Cons)
    show ?thesis
    proof (cases "v + k * PAGING_BASE_SIZE = fst q")
      case False
      then have "rs_put v k rs = pre @ (v, k) # post" using put Cons by simp
      moreover have "rs_ok (pre @ (v, k) # post)" using ok pre post new(1) by (auto simp: rs_ok_append rs_ok_Cons)
      ultimately show ?thesis using split by auto
    next
      case True
      note m = r_join [OF new(1) q(1), unfolded fst_conv snd_conv, OF True]
      show ?thesis
      proof (cases "pre \<noteq> [] \<and> fst (last pre) + snd (last pre) * PAGING_BASE_SIZE = v")
        case False
        then have "rs_put v k rs = pre @ (v, snd q + k) # qs" using put Cons True by auto
        moreover have "rs_ok (pre @ (v, snd q + k) # qs)" using ok pre q m(1,2) Cons by (auto simp: rs_ok_append rs_ok_Cons r_before_def)
        moreover have "rs_free (pre @ (v, snd q + k) # qs) = rs_free rs \<union> r_ivl (v, k)" unfolding split Cons rs_free_simps m(3) by auto
        ultimately show ?thesis by simp
      next
        case j2: True
        let ?p = "last pre"
        have p: "pre = butlast pre @ [?p]" "r_ok ?p" using j2 ok(1) by (auto simp: rs_ok_def)
        have m2: "r_ok (fst ?p, snd q + k + snd ?p)" "r_end (fst ?p, snd q + k + snd ?p) = r_end q"
          "r_ivl (fst ?p, snd q + k + snd ?p) = r_ivl ?p \<union> (r_ivl (v, k) \<union> r_ivl q)" using r_join [OF p(2) m(1), unfolded fst_conv snd_conv, OF conjunct2 [OF j2]] unfolding m(2,3) by auto
        have bl: "rs_ok (butlast pre)" "\<forall>r \<in> set (butlast pre). r_before r ?p" using ok(1) p(1) rs_ok_append [of "butlast pre" "[?p]"] by auto
        have fr: "rs_free pre = rs_free (butlast pre) \<union> r_ivl ?p" by (subst p(1)) simp
        have "rs_put v k rs = butlast pre @ (fst ?p, snd q + k + snd ?p) # qs" using put Cons True j2 by simp
        moreover have "rs_ok (butlast pre @ (fst ?p, snd q + k + snd ?p) # qs)"
          using bl m2(1,2) q ok(3) in_set_butlastD [of _ pre] Cons by (auto simp: rs_ok_append rs_ok_Cons r_before_def)
        moreover have "rs_free (butlast pre @ (fst ?p, snd q + k + snd ?p) # qs) = rs_free rs \<union> r_ivl (v, k)"
          unfolding split Cons rs_free_simps fr m2(3) by auto
        ultimately show ?thesis by simp
      qed
    qed
  qed
qed

section \<open>Allocators of address ranges\<close>

text \<open>
  What a client of an allocator of page ranges relies on.  \<open>free\<close> is the set of free addresses; a failed request changes nothing, a
  successful one returns a range of free addresses and leaves exactly the others free; giving back a range that is in use makes it free
  again, unless the allocator is empty.
\<close>

locale page_allocator =
  fixes ok :: "'s \<Rightarrow> bool" and free :: "'s \<Rightarrow> nat set" and get :: "u32 \<Rightarrow> 's \<Rightarrow> (u32 \<times> 's) option"
    and put :: "'m \<Rightarrow> u32 \<Rightarrow> u32 \<Rightarrow> 's \<Rightarrow> 's option" and fresh :: "'m \<Rightarrow> 's \<Rightarrow> bool"
  assumes get_ok: "ok s \<Longrightarrow> k \<noteq> 0 \<Longrightarrow> \<exists>v s'. get k s = Some (v, s') \<and> ok s' \<and>
      (if v = 0 then free s' = free s else r_ok (v, k) \<and> r_ivl (v, k) \<subseteq> free s \<and> free s' = free s - r_ivl (v, k))"
    and put_ok: "ok s \<Longrightarrow> r_ok (v, k) \<Longrightarrow> r_ivl (v, k) \<inter> free s = {} \<Longrightarrow> fresh m s \<Longrightarrow>
      \<exists>s'. put m v k s = Some s' \<and> ok s' \<and> free s' = (if free s = {} then {} else free s \<union> r_ivl (v, k))"

text \<open>Clients that take ranges and give back what they hold: the ranges in use and the ranges that were lost.\<close>

inductive alloc_run :: "(u32 \<Rightarrow> 's \<Rightarrow> (u32 \<times> 's) option) \<Rightarrow> ('m \<Rightarrow> u32 \<Rightarrow> u32 \<Rightarrow> 's \<Rightarrow> 's option) \<Rightarrow> ('m \<Rightarrow> 's \<Rightarrow> bool) \<Rightarrow> ('s \<Rightarrow> nat set) \<Rightarrow>
    's \<Rightarrow> 's \<Rightarrow> range set \<Rightarrow> range set \<Rightarrow> bool" for get put fresh free s0 where
  start: "alloc_run get put fresh free s0 s0 {} {}"
| take: "alloc_run get put fresh free s0 s A L \<Longrightarrow> k \<noteq> 0 \<Longrightarrow> get k s = Some (v, s') \<Longrightarrow>
    alloc_run get put fresh free s0 s' (if v = 0 then A else insert (v, k) A) L"
| give: "alloc_run get put fresh free s0 s A L \<Longrightarrow> (v, k) \<in> A \<Longrightarrow> fresh m s \<Longrightarrow> put m v k s = Some s' \<Longrightarrow>
    alloc_run get put fresh free s0 s' (A - {(v, k)}) (if free s = {} then insert (v, k) L else L)"

text \<open>Every address is free, or in exactly one range in use, or in exactly one lost range.\<close>

definition partitioned :: "nat set \<Rightarrow> nat set \<Rightarrow> range set \<Rightarrow> range set \<Rightarrow> bool" where
  "partitioned whole fre A L \<longleftrightarrow> A \<inter> L = {} \<and> (\<forall>r \<in> A \<union> L. r_ok r \<and> r_ivl r \<inter> fre = {}) \<and>
     (\<forall>p \<in> A \<union> L. \<forall>q \<in> A \<union> L. p \<noteq> q \<longrightarrow> r_ivl p \<inter> r_ivl q = {}) \<and> fre \<union> (\<Union>r \<in> A \<union> L. r_ivl r) = whole"

lemma r_ivl_nonempty: "r_ok r \<Longrightarrow> r_ivl r \<noteq> {}"
  using r_ok_end by (fastforce simp: r_ivl_def)

lemma partitionedD:
  assumes "partitioned whole fre A L" "r \<in> A \<union> L"
  shows "r_ok r" "r_ivl r \<inter> fre = {}" "q \<in> A \<union> L \<Longrightarrow> q \<noteq> r \<Longrightarrow> r_ivl q \<inter> r_ivl r = {}"
  using assms unfolding partitioned_def by blast+

lemma partitioned_take:
  assumes p: "partitioned whole fre A L" and r: "r_ok r" "r_ivl r \<subseteq> fre"
  shows "partitioned whole (fre - r_ivl r) (insert r A) L"
proof -
  have sep: "r_ivl q \<inter> r_ivl r = {}" if "q \<in> A \<union> L" for q using partitionedD(2) [OF p that] r(2) by auto
  from this [of r] have "r \<notin> L" using r_ivl_nonempty [OF r(1)] by auto
  then have "insert r A \<inter> L = {}" using p by (auto simp: partitioned_def)
  moreover have "\<forall>q \<in> insert r A \<union> L. r_ok q \<and> r_ivl q \<inter> (fre - r_ivl r) = {}"
  proof
    fix q assume "q \<in> insert r A \<union> L"
    then show "r_ok q \<and> r_ivl q \<inter> (fre - r_ivl r) = {}" using partitionedD(1,2) [OF p, of q] r(1) by (cases "q = r") auto
  qed
  moreover have "\<forall>x \<in> insert r A \<union> L. \<forall>y \<in> insert r A \<union> L. x \<noteq> y \<longrightarrow> r_ivl x \<inter> r_ivl y = {}"
  proof (intro ballI impI)
    fix x y assume "x \<in> insert r A \<union> L" "y \<in> insert r A \<union> L" "x \<noteq> y"
    then show "r_ivl x \<inter> r_ivl y = {}" using partitionedD(3) [OF p, of y x] sep [of x] sep [of y] by (cases "x = r"; cases "y = r") auto
  qed
  moreover have "fre - r_ivl r \<union> (\<Union>q \<in> insert r A \<union> L. r_ivl q) = whole" using p r(2) by (auto simp: partitioned_def)
  ultimately show ?thesis unfolding partitioned_def by simp
qed

lemma partitioned_give:
  assumes p: "partitioned whole fre A L" and r: "r \<in> A"
  shows "partitioned whole (fre \<union> r_ivl r) (A - {r}) L" "partitioned whole fre (A - {r}) (insert r L)"
proof -
  have un: "A \<union> L = insert r ((A - {r}) \<union> L)" "r \<notin> L" "A \<inter> L = {}" using p r by (auto simp: partitioned_def)
  have "\<forall>q \<in> (A - {r}) \<union> L. r_ok q \<and> r_ivl q \<inter> (fre \<union> r_ivl r) = {}"
  proof
    fix q assume q: "q \<in> (A - {r}) \<union> L"
    then have "q \<in> A \<union> L" "q \<noteq> r" using un(2) by auto
    then show "r_ok q \<and> r_ivl q \<inter> (fre \<union> r_ivl r) = {}" using partitionedD(1,2) [OF p, of q] partitionedD(3) [OF p, of r q] r by auto
  qed
  moreover have "\<forall>x \<in> (A - {r}) \<union> L. \<forall>y \<in> (A - {r}) \<union> L. x \<noteq> y \<longrightarrow> r_ivl x \<inter> r_ivl y = {}"
  proof (intro ballI impI)
    fix x y assume "x \<in> (A - {r}) \<union> L" "y \<in> (A - {r}) \<union> L" "x \<noteq> y"
    then show "r_ivl x \<inter> r_ivl y = {}" using partitionedD(3) [OF p, of y x] by auto
  qed
  moreover have "fre \<union> r_ivl r \<union> (\<Union>q \<in> (A - {r}) \<union> L. r_ivl q) = whole"
  proof -
    have "fre \<union> (\<Union>q \<in> insert r ((A - {r}) \<union> L). r_ivl q) = whole" unfolding un(1) [symmetric] using p by (simp add: partitioned_def)
    then show ?thesis by auto
  qed
  moreover have "(A - {r}) \<inter> L = {}" using un(3) by auto
  ultimately show "partitioned whole (fre \<union> r_ivl r) (A - {r}) L" unfolding partitioned_def by simp
  have "(A - {r}) \<union> insert r L = A \<union> L" "(A - {r}) \<inter> insert r L = {}" using un by auto
  then show "partitioned whole fre (A - {r}) (insert r L)" using p unfolding partitioned_def by presburger
qed

context page_allocator
begin

lemma run_partitioned:
  assumes "alloc_run get put fresh free s0 s A L" "ok s0"
  shows "ok s \<and> partitioned (free s0) (free s) A L"
  using assms
proof (induction rule: alloc_run.induct)
  case start
  then show ?case by (simp add: partitioned_def)
next
  case (take s A L k v s')
  then have s: "ok s" "partitioned (free s0) (free s) A L" by auto
  from get_ok [OF s(1) take(2)] take(3) show ?case using s(2) partitioned_take [OF s(2), of "(v, k)"] by (auto split: if_splits)
next
  case (give s A L v k m s')
  then have s: "ok s" "partitioned (free s0) (free s) A L" by auto
  then have "r_ok (v, k)" "r_ivl (v, k) \<inter> free s = {}" using give(2) by (auto simp: partitioned_def)
  from put_ok [OF s(1) this give(3)] give(4) show ?case using partitioned_give [OF s(2) give(2)] by (auto split: if_splits)
qed

end

section \<open>The swamp as such an allocator\<close>

lemma dseg_None_unique: "dseg h p x as None l \<Longrightarrow> dseg h p' x bs None l' \<Longrightarrow> as = bs"
proof (induction as arbitrary: p p' x bs)
  case Nil
  then show ?case by (auto dest: dseg_NoneD)
next
  case (Cons a as)
  then obtain bs' where "bs = a # bs'" using dseg_Some_None [of h p' a bs l'] by auto
  with Cons show ?case by (auto split: option.splits)
qed

lemma vs_rep_unique: "vs_rep s as rs \<Longrightarrow> vs_rep s bs qs \<Longrightarrow> as = bs \<and> rs = qs"
proof -
  assume a: "vs_rep s as rs" and b: "vs_rep s bs qs"
  have "as = bs" using a b dseg_None_unique [of "vs_store s" None "vs_head s" as _ None bs] unfolding vs_rep_def dlist_def by blast
  moreover have "map Some rs = map Some qs" using a b calculation by (simp add: vs_rep_def)
  ultimately show ?thesis by (simp add: inj_map_eq_map)
qed

definition vs_ok :: "vswamp \<Rightarrow> bool" where "vs_ok s \<longleftrightarrow> (\<exists>as rs. vs_rep s as rs \<and> rs_ok rs)"

definition vs_free :: "vswamp \<Rightarrow> nat set" where "vs_free s = {x. \<exists>as rs. vs_rep s as rs \<and> x \<in> rs_free rs}"

definition vs_fresh :: "addr \<times> swnode \<Rightarrow> vswamp \<Rightarrow> bool" where "vs_fresh m s \<longleftrightarrow> vs_store s (fst m) = None"

lemma vs_free_rep:
  assumes "vs_rep s as rs"
  shows "vs_free s = rs_free rs"
proof -
  have "vs_rep s bs qs \<longleftrightarrow> bs = as \<and> qs = rs" for bs qs using vs_rep_unique [OF assms, of bs qs] assms by auto
  then show ?thesis by (simp add: vs_free_def)
qed

lemma rs_free_empty: "rs_ok rs \<Longrightarrow> rs_free rs = {} \<longleftrightarrow> rs = []"
  using r_ivl_nonempty by (cases rs) (auto simp: rs_ok_Cons)

interpretation vs: page_allocator vs_ok vs_free vs_getPages "\<lambda>m. vs_releasePages (Some m)" vs_fresh
proof
  fix s k
  assume "vs_ok s" "k \<noteq> (0 :: u32)"
  then obtain as rs where r: "vs_rep s as rs" "rs_ok rs" and k: "0 < unat k" by (auto simp: vs_ok_def word_neq_0_conv [symmetric] unat_gt_0)
  obtain s' as' where s': "vs_getPages k s = Some (fst (rs_take k rs), s')" "vs_rep s' as' (snd (rs_take k rs))"
    using vs_getPages_rep [OF r(1)] by blast
  have free: "vs_free s' = rs_free (snd (rs_take k rs))" "vs_free s = rs_free rs" using s'(2) r(1) by (simp_all add: vs_free_rep)
  show "\<exists>v s'. vs_getPages k s = Some (v, s') \<and> vs_ok s' \<and> (if v = 0 then vs_free s' = vs_free s
      else r_ok (v, k) \<and> r_ivl (v, k) \<subseteq> vs_free s \<and> vs_free s' = vs_free s - r_ivl (v, k))"
  proof (intro exI conjI)
    show "vs_getPages k s = Some (fst (rs_take k rs), s')" by (rule s')
    note t = rs_take_correct [OF r(2) k]
    show "vs_ok s'" using t s'(2) r(2) by (auto simp: vs_ok_def rs_took_def split: if_splits)
    show "if fst (rs_take k rs) = 0 then vs_free s' = vs_free s else r_ok (fst (rs_take k rs), k) \<and>
        r_ivl (fst (rs_take k rs), k) \<subseteq> vs_free s \<and> vs_free s' = vs_free s - r_ivl (fst (rs_take k rs), k)"
      unfolding free using t by (auto simp: rs_took_def r_ok_def split: if_splits)
  qed
next
  fix s v k and m :: "addr \<times> swnode"
  assume "vs_ok s" and new: "r_ok (v, k)" "r_ivl (v, k) \<inter> vs_free s = {}" "vs_fresh m s"
  then obtain as rs where r: "vs_rep s as rs" "rs_ok rs" by (auto simp: vs_ok_def)
  have v: "v \<noteq> 0" "v AND 0xFFF = 0" "k \<noteq> 0" using new(1) by (auto simp: r_ok_def page_aligned)
  obtain s' as' where s': "vs_releasePages (Some m) v k s = Some s'" "vs_rep s' as' (rs_put v k rs)"
    using vs_releasePages_rep [OF r(1) v, of "fst m" "snd m"] new(3) by (auto simp: vs_fresh_def)
  have free: "vs_free s' = rs_free (rs_put v k rs)" "vs_free s = rs_free rs" using s'(2) r(1) by (simp_all add: vs_free_rep)
  show "\<exists>s'. vs_releasePages (Some m) v k s = Some s' \<and> vs_ok s' \<and> vs_free s' = (if vs_free s = {} then {} else vs_free s \<union> r_ivl (v, k))"
  proof (cases "rs = []")
    case True
    then show ?thesis using s' free r(2) by (intro exI [of _ s']) (auto simp: vs_ok_def rs_put_def)
  next
    case False
    have "r_ivl (v, k) \<inter> rs_free rs = {}" using new(2) free(2) by simp
    from rs_put_correct [OF r(2) False new(1) this] show ?thesis using s' free False rs_free_empty [OF r(2)] by (auto simp: vs_ok_def)
  qed
qed

section \<open>Initialisation\<close>

lemma align_forward: "4096 dvd unat (PAGING_BASE_ALIGN_FORWARD a)"
  unfolding page_aligned [symmetric] PAGING_BASE_ALIGN_FORWARD_def
proof (cases "a AND 0xFFF \<noteq> 0")
  case True
  have "((a + 0x1000) AND NOT 0xFFF) AND 0xFFF = 0" by (simp only: and.assoc) simp
  then show "(if a AND 0xFFF \<noteq> 0 then (a + 0x1000) AND NOT 0xFFF else a) AND 0xFFF = 0" using True by simp
qed simp

lemma align_truncated: "4096 dvd unat (PAGING_BASE_ALIGN_TRUNCATED a)"
  unfolding page_aligned [symmetric] PAGING_BASE_ALIGN_TRUNCATED_def
proof (cases "a AND 0xFFF \<noteq> 0")
  case True
  have "(a AND NOT 0xFFF) AND 0xFFF = 0" by (simp only: and.assoc) simp
  then show "(if a AND 0xFFF \<noteq> 0 then a AND NOT 0xFFF else a) AND 0xFFF = 0" using True by simp
qed simp

lemma bytes_to_pages:
  assumes "4096 dvd unat n"
  shows "4096 * unat (PAGING_BYTES_TO_PAGES n) = unat n"
proof -
  have "n mod 0x1000 = 0" using assms by (simp add: word_unat_eq_iff unat_mod dvd_eq_mod_eq_0)
  then show ?thesis using assms by (simp add: PAGING_BYTES_TO_PAGES_def unat_div)
qed

text \<open>A swamp that initialises has the whole area free; one that would reach the end of the address space is refused.\<close>

lemma vs_initialize_rep:
  assumes pos: "0 < PAGING_BASE_ALIGN_FORWARD start" "0 < PAGING_BASE_ALIGN_TRUNCATED sz"
    and init: "vs_initialize (vs_construct i start sz) = (ERROR_SUCCESS, s)"
  shows "\<exists>r. vs_rep s [i] [r] \<and> rs_ok [r] \<and> r_ivl r = {unat (PAGING_BASE_ALIGN_FORWARD start)..<unat (PAGING_BASE_ALIGN_FORWARD start) + unat (PAGING_BASE_ALIGN_TRUNCATED sz)}"
proof -
  let ?b = "PAGING_BASE_ALIGN_FORWARD start" and ?n = "PAGING_BASE_ALIGN_TRUNCATED sz"
  let ?r = "(?b, PAGING_BYTES_TO_PAGES ?n)"
  have nowrap: "\<not> ?b + ?n < ?b" using init by (auto simp: vs_initialize_def vs_construct_def split: if_splits)
  then have sum: "unat ?b + unat ?n < 2 ^ 32" by (simp add: no_olen_add_nat not_less)
  have pages: "4096 * unat (PAGING_BYTES_TO_PAGES ?n) = unat ?n" by (rule bytes_to_pages [OF align_truncated])
  have n: "0 < unat ?b" "0 < unat ?n" using pos by (simp_all add: word_less_nat_alt)
  have "r_ok ?r" using n sum pages align_forward [of start] by (auto simp: r_ok_def r_end_def)
  moreover have "vs_rep s [i] [?r]" using init nowrap by (auto simp: vs_initialize_def vs_construct_def vs_rep_def dlist_def sw_data_def)
  ultimately show ?thesis using pages by (intro exI [of _ ?r]) (simp add: rs_ok_def r_ivl_def r_end_def)
qed

section \<open>Properties\<close>

text \<open>C22: A swamp hands out no address twice and loses none except on an empty list.  After any sequence of successful or failed requests
  and releases of ranges in use on a newly initialised swamp, every address of its area is free, or in exactly one range in use, or in
  exactly one range that was released while the swamp was empty; no address outside the area is ever handed out; and the next request
  returns.\<close>

theorem vswamp_partitions:
  assumes "0 < PAGING_BASE_ALIGN_FORWARD start" "0 < PAGING_BASE_ALIGN_TRUNCATED sz"
    and "vs_initialize (vs_construct i start sz) = (ERROR_SUCCESS, s0)"
    and "alloc_run vs_getPages (\<lambda>m. vs_releasePages (Some m)) vs_fresh vs_free s0 s A L"
  shows "partitioned {unat (PAGING_BASE_ALIGN_FORWARD start)..<unat (PAGING_BASE_ALIGN_FORWARD start) + unat (PAGING_BASE_ALIGN_TRUNCATED sz)} (vs_free s) A L \<and>
    (\<forall>k. k \<noteq> 0 \<longrightarrow> (\<exists>v s'. vs_getPages k s = Some (v, s')))"
proof -
  obtain r where r: "vs_rep s0 [i] [r]" "rs_ok [r]"
    "r_ivl r = {unat (PAGING_BASE_ALIGN_FORWARD start)..<unat (PAGING_BASE_ALIGN_FORWARD start) + unat (PAGING_BASE_ALIGN_TRUNCATED sz)}"
    using vs_initialize_rep [OF assms(1-3)] by blast
  then have "vs_ok s0" "vs_free s0 = r_ivl r" by (auto simp: vs_ok_def vs_free_rep)
  then show ?thesis using vs.run_partitioned [OF assms(4)] vs.get_ok [of s] r(3) by metis
qed

definition vs_example :: vswamp where "vs_example = snd (vs_initialize (vs_construct 7 0x10000 0x3000))"

theorem vswamp_partitions_witness:
  "\<exists>s. alloc_run vs_getPages (\<lambda>m. vs_releasePages (Some m)) vs_fresh vs_free vs_example s {(0x10000, 2)} {} \<and>
     partitioned {0x10000..<0x13000} (vs_free s) {(0x10000, 2)} {}"
proof -
  have i: "vs_initialize (vs_construct 7 0x10000 0x3000) = (ERROR_SUCCESS, vs_example)" by (simp add: vs_example_def vs_initialize_def vs_construct_def
    PAGING_BASE_ALIGN_FORWARD_def PAGING_BASE_ALIGN_TRUNCATED_def)
  obtain s where s: "vs_getPages 2 vs_example = Some (0x10000, s)"
    by (simp add: vs_example_def vs_initialize_def vs_construct_def vs_getPages_def vs_getLoop.simps vs_take_def vs_acquire_def
      PAGING_BASE_ALIGN_FORWARD_def PAGING_BASE_ALIGN_TRUNCATED_def PAGING_BYTES_TO_PAGES_def)
  have run: "alloc_run vs_getPages (\<lambda>m. vs_releasePages (Some m)) vs_fresh vs_free vs_example s {(0x10000, 2)} {}"
    using alloc_run.take [of vs_getPages, OF alloc_run.start _ s] by simp
  show ?thesis using vswamp_partitions [OF _ _ i run] run by (auto simp: PAGING_BASE_ALIGN_FORWARD_def PAGING_BASE_ALIGN_TRUNCATED_def)
qed

text \<open>Once a swamp is empty it stays empty: releasing any valid range, with or without memory for a node, changes nothing, and every
  later request fails.  (The branch that would put the range into the embedded node is never reached.)\<close>

theorem vswamp_empty_loses_pages:
  assumes "vs_ok s" "vs_free s = {}" "r_ok (v, k)"
  shows "vs_releasePages mem v k s = Some s \<and> (\<forall>j. j \<noteq> 0 \<longrightarrow> vs_getPages j s = Some (0, s))"
proof -
  obtain as where r: "vs_rep s as []" using assms(1,2) rs_free_empty vs_free_rep by (fastforce simp: vs_ok_def)
  then have h: "vs_head s = None" using vs_rep_length [OF r] by (simp add: vs_rep_def)
  then show ?thesis by (simp add: vs_releasePages_def vs_getPages_def vs_getLoop.simps vs_findInsertionNode_def vs_findLoop.simps
    vs_acquire_def vs_release_def Let_def)
qed

theorem vswamp_empty_loses_pages_witness:
  "\<exists>s. vs_getPages 3 vs_example = Some (0x10000, s) \<and> vs_releasePages None 0x10000 3 s = Some s"
proof -
  obtain s where s: "vs_getPages 3 vs_example = Some (0x10000, s)" "vs_head s = None" "vs_tail s = None" "vs_store s (vs_initNode s) \<noteq> None"
    by (simp add: vs_example_def vs_initialize_def vs_construct_def vs_getPages_def vs_getLoop.simps vs_take_def vs_acquire_def vs_deleteSwampNode_def
      vs_release_def PAGING_BASE_ALIGN_FORWARD_def PAGING_BASE_ALIGN_TRUNCATED_def PAGING_BYTES_TO_PAGES_def)
  then have r: "vs_rep s [] []" by (simp add: vs_rep_def)
  have "vs_ok s" unfolding vs_ok_def using r by (intro exI conjI) (auto simp: rs_ok_def)
  moreover have "vs_free s = {}" using vs_free_rep [OF r] by simp
  moreover have "r_ok (0x10000, 3)" by (simp add: r_ok_def r_end_def)
  ultimately show ?thesis using vswamp_empty_loses_pages [of s "0x10000" 3 None] s(1) by blast
qed

end
