(* ===== verification/Simulation.thy ===== *)
theory Simulation
  imports Prelude
begin

text \<open>
  Data refinement of an operation set, once for all components that promise it: a concrete step that may
  fault (\<open>None\<close>) simulates an abstract step that never does.  The relation is indexed by a budget, the number
  of further steps for which counters of machine width are known not to wrap.
\<close>

fun run_ops :: "('op \<Rightarrow> 's \<Rightarrow> ('r \<times> 's) option) \<Rightarrow> 'op list \<Rightarrow> 's \<Rightarrow> ('r list \<times> 's) option" where
  "run_ops exec [] s = Some ([], s)"
| "run_ops exec (op # ops) s = do {
     (r, s') \<leftarrow> exec op s;
     (rs, s'') \<leftarrow> run_ops exec ops s';
     Some (r # rs, s'')
   }"

fun run_spec :: "('op \<Rightarrow> 'a \<Rightarrow> 'r \<times> 'a) \<Rightarrow> 'op list \<Rightarrow> 'a \<Rightarrow> 'r list \<times> 'a" where
  "run_spec spec [] a = ([], a)"
| "run_spec spec (op # ops) a =
     (let (r, a') = spec op a; (rs, a'') = run_spec spec ops a' in (r # rs, a''))"

locale simulation =
  fixes exec :: "'op \<Rightarrow> 's \<Rightarrow> ('r \<times> 's) option"
    and spec :: "'op \<Rightarrow> 'a \<Rightarrow> 'r \<times> 'a"
    and related :: "nat \<Rightarrow> 's \<Rightarrow> 'a \<Rightarrow> bool"
    and legal :: "'op \<Rightarrow> bool"
  assumes step: "related (Suc k) s a \<Longrightarrow> legal op \<Longrightarrow>
    \<exists>s'. exec op s = Some (fst (spec op a), s') \<and> related k s' (snd (spec op a))"
begin

lemma run:
  assumes "related (length ops + k) s a" "list_all legal ops"
  shows "\<exists>s'. run_ops exec ops s = Some (fst (run_spec spec ops a), s') \<and> related k s' (snd (run_spec spec ops a))"
  using assms
proof (induction ops arbitrary: s a)
  case (Cons op ops)
  obtain s1 where s1: "exec op s = Some (fst (spec op a), s1)" "related (length ops + k) s1 (snd (spec op a))"
    using step [of "length ops + k" s a op] Cons.prems by auto
  obtain s2 where "run_ops exec ops s1 = Some (fst (run_spec spec ops (snd (spec op a))), s2)"
    "related k s2 (snd (run_spec spec ops (snd (spec op a))))" using Cons.IH [OF s1(2)] Cons.prems(2) by auto
  then show ?case using s1(1) by (simp add: split_beta Let_def)
qed simp

lemma no_fault: "related (length ops + k) s a \<Longrightarrow> list_all legal ops \<Longrightarrow> run_ops exec ops s \<noteq> None"
  using run [of ops k s a] by auto

end

text \<open>With operations that fault exactly where they are not legal, the behaviour of every sequence is known.\<close>

locale exact_simulation = simulation +
  assumes stuck: "related (Suc k) s a \<Longrightarrow> \<not> legal op \<Longrightarrow> exec op s = None"
begin

lemma run_stuck:
  assumes "related (length ops + k) s a" "\<not> list_all legal ops"
  shows "run_ops exec ops s = None"
  using assms
proof (induction ops arbitrary: s a)
  case (Cons op ops)
  then have rel: "related (Suc (length ops + k)) s a" by simp
  show ?case
  proof (cases "legal op")
    case True
    then obtain s' where "exec op s = Some (fst (spec op a), s')" "related (length ops + k) s' (snd (spec op a))" using step [OF rel] by blast
    with Cons True show ?thesis by auto
  qed (use stuck [OF rel] in simp)
qed simp

end

end
