(* ===== verification/PrioQueue.thy ===== *)
theory PrioQueue
  imports Simulation
begin

text \<open>
  \<open>PrioQueue<T>\<close> (\<open>include/__kclasses/prioQueue.h\<close>): an array of singly linked FIFO queues, one per
  priority number, and the number of the first queue that holds an item (\<open>-1\<close> if none does).  The
  model keeps the nodes in one store (all queues share the node cache), the head and tail pointers,
  the item counters and both kinds of lock.  What the node cache answers to an allocation is the
  argument \<open>mem\<close>.
\<close>

section \<open>State\<close>

record 'a qnode =
  qn_item :: 'a
  qn_next :: ptr

record queue =
  q_nItems :: u32
  q_head :: ptr
  q_tail :: ptr
  q_lock :: bool

record 'a prioq =
  pq_store :: "'a qnode store"
  pq_nPrios :: u16
  pq_queues :: "queue list"
  pq_headQueue :: u16
  pq_lock :: bool

text \<open>\<open>PRIOQUEUE_INSERT_FRONT\<close> is \<open>SCHEDOPTS_STICKY\<close>.\<close>

definition PRIOQUEUE_INSERT_FRONT :: u32 where "PRIOQUEUE_INSERT_FRONT = 1"

section \<open>One queue\<close>

definition queue_new :: queue where
  "queue_new = \<lparr>q_nItems = 0, q_head = None, q_tail = None, q_lock = False\<rparr>"

definition queue_getNItems :: "queue \<Rightarrow> u32 option" where
  "queue_getNItems q = do { k \<leftarrow> lock_acquire (q_lock q); Some (q_nItems q) }"

definition queue_insert ::
  "'a qnode mem \<Rightarrow> 'a \<Rightarrow> u32 \<Rightarrow> 'a qnode store \<Rightarrow> queue \<Rightarrow> (error_t \<times> 'a qnode store \<times> queue) option" where
  "queue_insert mem itm opt h q =
     (case mem of
        None \<Rightarrow> Some (ERROR_MEMORY_NOMEM, h, q)
      | Some (a, junk) \<Rightarrow> do {
          let tmp = junk\<lparr>qn_item := itm\<rparr>;
          k \<leftarrow> lock_acquire (q_lock q);
          if opt AND PRIOQUEUE_INSERT_FRONT \<noteq> 0 then do {
            let tmp = tmp\<lparr>qn_next := q_head q\<rparr>;
            Some (ERROR_SUCCESS, h(a \<mapsto> tmp),
              q\<lparr>q_head := Some a, q_tail := (if q_tail q = None then Some a else q_tail q),
                q_nItems := q_nItems q + 1, q_lock := lock_release\<rparr>)
          }
          else do {
            let tmp = tmp\<lparr>qn_next := None\<rparr>;
            h' \<leftarrow> (if q_tail q \<noteq> None then store_upd h (q_tail q) (\<lambda>n. n\<lparr>qn_next := Some a\<rparr>) else Some h);
            Some (ERROR_SUCCESS, h'(a \<mapsto> tmp),
              q\<lparr>q_head := (if q_tail q \<noteq> None then q_head q else Some a), q_tail := Some a,
                q_nItems := q_nItems q + 1, q_lock := lock_release\<rparr>)
          }
        })"

definition queue_pop :: "'a qnode store \<Rightarrow> queue \<Rightarrow> ('a option \<times> 'a qnode store \<times> queue) option" where
  "queue_pop h q = do {
     k \<leftarrow> lock_acquire (q_lock q);
     let tmp = q_head q;
     let q1 = (if q_head q = q_tail q then q\<lparr>q_tail := None\<rparr> else q);
     case tmp of
       None \<Rightarrow> Some (None, h, q1\<lparr>q_lock := lock_release\<rparr>)
     | Some a \<Rightarrow> do {
         n \<leftarrow> h a;
         Some (Some (qn_item n), h(a := None),
           q1\<lparr>q_head := qn_next n, q_nItems := q_nItems q1 - 1, q_lock := lock_release\<rparr>)
       }
   }"

text \<open>The loop of \<open>Queue::remove\<close>; the fuel is the item counter.\<close>

fun queue_removeLoop ::
  "nat \<Rightarrow> ptr \<Rightarrow> ptr \<Rightarrow> 'a \<Rightarrow> 'a qnode store \<Rightarrow> queue \<Rightarrow> ('a qnode store \<times> queue) option" where
  "queue_removeLoop fuel prev None itm h q = Some (h, q\<lparr>q_lock := lock_release\<rparr>)"
| "queue_removeLoop 0 prev (Some a) itm h q = None"
| "queue_removeLoop (Suc fuel) prev (Some a) itm h q = do {
     n \<leftarrow> h a;
     if qn_item n \<noteq> itm then queue_removeLoop fuel (Some a) (qn_next n) itm h q
     else do {
       h' \<leftarrow> (if prev = None then Some h else store_upd h prev (\<lambda>p. p\<lparr>qn_next := qn_next n\<rparr>));
       Some (h'(a := None),
         q\<lparr>q_head := (if prev = None then qn_next n else q_head q),
           q_tail := (if qn_next n = None then prev else q_tail q),
           q_nItems := q_nItems q - 1, q_lock := lock_release\<rparr>)
     }
   }"

definition queue_remove :: "'a \<Rightarrow> 'a qnode store \<Rightarrow> queue \<Rightarrow> ('a qnode store \<times> queue) option" where
  "queue_remove itm h q = do {
     k \<leftarrow> lock_acquire (q_lock q);
     queue_removeLoop (unat (q_nItems q)) None (q_head q) itm h (q\<lparr>q_lock := k\<rparr>)
   }"

fun queue_findLoop :: "nat \<Rightarrow> ptr \<Rightarrow> 'a \<Rightarrow> 'a qnode store \<Rightarrow> bool option" where
  "queue_findLoop fuel None itm h = Some False"
| "queue_findLoop 0 (Some a) itm h = None"
| "queue_findLoop (Suc fuel) (Some a) itm h = do {
     n \<leftarrow> h a;
     if qn_item n = itm then Some True else queue_findLoop fuel (qn_next n) itm h
   }"

definition queue_find :: "'a \<Rightarrow> 'a qnode store \<Rightarrow> queue \<Rightarrow> bool option" where
  "queue_find itm h q = do {
     k \<leftarrow> lock_acquire (q_lock q);
     queue_findLoop (unat (q_nItems q)) (q_head q) itm h
   }"

section \<open>The array of queues\<close>

definition prioq_new :: "u16 \<Rightarrow> 'a prioq" where
  "prioq_new nPriorities =
     \<lparr>pq_store = Map.empty, pq_nPrios = nPriorities, pq_queues = [], pq_headQueue = - 1, pq_lock = False\<rparr>"

text \<open>\<open>initialize\<close>: the node cache and the array may fail to be allocated.\<close>

definition prioq_initialize :: "bool \<Rightarrow> bool \<Rightarrow> 'a prioq \<Rightarrow> error_t \<times> 'a prioq" where
  "prioq_initialize cache_ok array_ok s =
     (if \<not> cache_ok then (ERROR_MEMORY_NOMEM, s)
      else if \<not> array_ok then (ERROR_MEMORY_NOMEM, s)
      else (ERROR_SUCCESS, s\<lparr>pq_queues := replicate (unat (pq_nPrios s)) queue_new\<rparr>))"

definition prioq_insert :: "'a qnode mem \<Rightarrow> 'a \<Rightarrow> u16 \<Rightarrow> u32 \<Rightarrow> 'a prioq \<Rightarrow> (error_t \<times> 'a prioq) option" where
  "prioq_insert mem itm prio opt s =
     (if prio \<ge> pq_nPrios s then Some (ERROR_INVALID_ARG_VAL, s)
      else do {
        q \<leftarrow> arr_get (pq_queues s) (unat prio);
        (ret, h, q') \<leftarrow> queue_insert mem itm opt (pq_store s) q;
        let s = s\<lparr>pq_store := h, pq_queues := (pq_queues s)[unat prio := q']\<rparr>;
        if ret \<noteq> ERROR_SUCCESS then Some (ret, s)
        else do {
          k \<leftarrow> lock_acquire (pq_lock s);
          let s = (if sint (pq_headQueue s) = - 1 \<or> uint prio < sint (pq_headQueue s)
                   then s\<lparr>pq_headQueue := prio\<rparr> else s);
          Some (ERROR_SUCCESS, s\<lparr>pq_lock := lock_release\<rparr>)
        }
      })"

text \<open>The search for another queue with items, shared by \<open>pop\<close> and \<open>remove\<close>: \<open>for (i = 0; i < nPrios; i++)\<close>,
  skipping the queue known to be empty.\<close>

fun prioq_scan :: "nat \<Rightarrow> nat \<Rightarrow> nat \<Rightarrow> queue list \<Rightarrow> nat option option" where
  "prioq_scan 0 i skp qs = Some None"
| "prioq_scan (Suc k) i skp qs =
     (if i = skp then prioq_scan k (Suc i) skp qs
      else do {
        q \<leftarrow> arr_get qs i;
        n \<leftarrow> queue_getNItems q;
        if n > 0 then Some (Some i) else prioq_scan k (Suc i) skp qs
      })"

definition prioq_rehead :: "nat \<Rightarrow> 'a prioq \<Rightarrow> 'a prioq option" where
  "prioq_rehead skp s = do {
     r \<leftarrow> prioq_scan (unat (pq_nPrios s)) 0 skp (pq_queues s);
     Some (case r of Some i \<Rightarrow> s\<lparr>pq_headQueue := of_nat i, pq_lock := lock_release\<rparr>
           | None \<Rightarrow> s\<lparr>pq_headQueue := - 1, pq_lock := lock_release\<rparr>)
   }"

definition prioq_pop :: "'a prioq \<Rightarrow> ('a option \<times> 'a prioq) option" where
  "prioq_pop s = do {
     k \<leftarrow> lock_acquire (pq_lock s);
     if sint (pq_headQueue s) = - 1 then Some (None, s\<lparr>pq_lock := lock_release\<rparr>)
     else do {
       let qId = unat (pq_headQueue s);
       q \<leftarrow> arr_get (pq_queues s) qId;
       (ret, h, q') \<leftarrow> queue_pop (pq_store s) q;
       let s = s\<lparr>pq_store := h, pq_queues := (pq_queues s)[qId := q'], pq_lock := k\<rparr>;
       n \<leftarrow> queue_getNItems q';
       if n = 0 then do { s' \<leftarrow> prioq_rehead qId s; Some (ret, s') }
       else Some (ret, s\<lparr>pq_lock := lock_release\<rparr>)
     }
   }"

definition prioq_remove :: "'a \<Rightarrow> u16 \<Rightarrow> 'a prioq \<Rightarrow> 'a prioq option" where
  "prioq_remove itm prio s = do {
     q \<leftarrow> arr_get (pq_queues s) (unat prio);
     (h, q') \<leftarrow> queue_remove itm (pq_store s) q;
     let s = s\<lparr>pq_store := h, pq_queues := (pq_queues s)[unat prio := q']\<rparr>;
     k \<leftarrow> lock_acquire (pq_lock s);
     if uint prio = sint (pq_headQueue s) then do {
       n \<leftarrow> queue_getNItems q';
       if n = 0 then prioq_rehead (unat prio) (s\<lparr>pq_lock := k\<rparr>)
       else Some (s\<lparr>pq_lock := lock_release\<rparr>)
     }
     else Some (s\<lparr>pq_lock := lock_release\<rparr>)
   }"

fun prioq_findLoop :: "nat \<Rightarrow> nat \<Rightarrow> 'a \<Rightarrow> 'a prioq \<Rightarrow> bool option" where
  "prioq_findLoop 0 i itm s = Some False"
| "prioq_findLoop (Suc k) i itm s = do {
     q \<leftarrow> arr_get (pq_queues s) i;
     b \<leftarrow> queue_find itm (pq_store s) q;
     if b then Some True else prioq_findLoop k (Suc i) itm s
   }"

definition prioq_find :: "'a \<Rightarrow> 'a prioq \<Rightarrow> bool option" where
  "prioq_find itm s = prioq_findLoop (unat (pq_nPrios s)) 0 itm s"

section \<open>Chains of nodes\<close>

fun lseg :: "'a qnode store \<Rightarrow> ptr \<Rightarrow> addr list \<Rightarrow> ptr \<Rightarrow> bool" where
  "lseg h x [] y \<longleftrightarrow> x = y"
| "lseg h x (a # as) y \<longleftrightarrow> x = Some a \<and> (case h a of None \<Rightarrow> False | Some n \<Rightarrow> lseg h (qn_next n) as y)"

definition node_item :: "'a qnode store \<Rightarrow> addr \<Rightarrow> 'a" where
  "node_item h a = qn_item (the (h a))"

lemma lseg_frame: "(\<And>a. a \<in> set as \<Longrightarrow> h' a = h a) \<Longrightarrow> lseg h' x as y = lseg h x as y"
  by (induction as arbitrary: x) (auto split: option.splits)

lemma lseg_upd [simp]: "a \<notin> set as \<Longrightarrow> lseg (h(a := v)) x as y = lseg h x as y"
  by (rule lseg_frame) auto

lemma lseg_append: "lseg h x (as @ bs) y \<longleftrightarrow> (\<exists>z. lseg h x as z \<and> lseg h z bs y)"
  by (induction as arbitrary: x) (auto split: option.splits)

lemma lseg_alloc: "lseg h x as y \<Longrightarrow> a \<in> set as \<Longrightarrow> \<exists>n. h a = Some n"
  by (induction as arbitrary: x) (auto split: option.splits)

lemma lseg_Cons_head: "lseg h x (a # as) y \<Longrightarrow> x = Some a \<and> (\<exists>n. h a = Some n \<and> lseg h (qn_next n) as y)"
  by (auto split: option.splits)

lemma lseg_redirect:
  assumes "lseg h x (as @ [a]) y" "a \<notin> set as" "h a = Some n"
  shows "lseg (h(a \<mapsto> n\<lparr>qn_next := z\<rparr>)) x (as @ [a]) z"
  using assms by (auto simp: lseg_append)

definition q_rep :: "'a qnode store \<Rightarrow> queue \<Rightarrow> addr list \<Rightarrow> bool" where
  "q_rep h q as \<longleftrightarrow> \<not> q_lock q \<and> unat (q_nItems q) = length as \<and> distinct as \<and>
     lseg h (q_head q) as None \<and> q_tail q = (if as = [] then None else Some (last as))"

lemma q_rep_frame: "(\<And>a. a \<in> set as \<Longrightarrow> h' a = h a) \<Longrightarrow> q_rep h' q as = q_rep h q as"
  unfolding q_rep_def using lseg_frame [of as h' h] by simp

lemma q_rep_alloc: "q_rep h q as \<Longrightarrow> a \<in> set as \<Longrightarrow> \<exists>n. h a = Some n"
  by (auto simp: q_rep_def dest: lseg_alloc)

lemma q_rep_new: "q_rep h queue_new []"
  by (simp add: q_rep_def queue_new_def)

lemma q_rep_nItems: "q_rep h q as \<Longrightarrow> queue_getNItems q = Some (q_nItems q)"
  by (simp add: q_rep_def queue_getNItems_def)

lemma q_rep_empty_iff: "q_rep h q as \<Longrightarrow> q_nItems q = 0 \<longleftrightarrow> as = []" "q_rep h q as \<Longrightarrow> q_nItems q > 0 \<longleftrightarrow> as \<noteq> []"
proof -
  assume r: "q_rep h q as"
  show e: "q_nItems q = 0 \<longleftrightarrow> as = []" using r by (auto simp: q_rep_def unat_eq_zero [symmetric])
  show "q_nItems q > 0 \<longleftrightarrow> as \<noteq> []" using e by (simp add: word_neq_0_conv [symmetric])
qed

lemma unat_inc: "unat (n :: u32) = k \<Longrightarrow> Suc k < 2 ^ 32 \<Longrightarrow> unat (n + 1) = Suc k"
  by (simp add: unat_add_no_wrap)

text \<open>Inserting at the front or at the back.\<close>

lemma queue_insert_rep:
  fixes opt :: u32
  assumes r: "q_rep h q as" and a: "h a = None" and n: "Suc (length as) < 2 ^ 32"
  defines "as' \<equiv> (if opt AND PRIOQUEUE_INSERT_FRONT \<noteq> 0 then a # as else as @ [a])"
  shows "\<exists>h' q'. queue_insert (Some (a, junk)) itm opt h q = Some (ERROR_SUCCESS, h', q') \<and> q_rep h' q' as' \<and>
    node_item h' a = itm \<and> (\<forall>b. b \<in> set as \<longrightarrow> node_item h' b = node_item h b) \<and> (\<forall>b. b \<notin> set as \<union> {a} \<longrightarrow> h' b = h b)"
proof -
  have fresh: "a \<notin> set as" using a r q_rep_alloc by fastforce
  show ?thesis
  proof (cases "opt AND PRIOQUEUE_INSERT_FRONT \<noteq> 0")
    case True
    then show ?thesis using r fresh n unat_inc [of "q_nItems q" "length as"]
      by (auto simp: queue_insert_def q_rep_def as'_def node_item_def)
  next
    case False
    show ?thesis
    proof (cases "as = []")
      case True
      then show ?thesis using r fresh n False unat_inc [of "q_nItems q" 0]
        by (auto simp: queue_insert_def q_rep_def as'_def node_item_def)
    next
      case ne: False
      obtain bs b where as: "as = bs @ [b]" using ne by (metis rev_exhaust)
      have lb: "lseg h (q_head q) (bs @ [b]) None" "distinct (bs @ [b])" "q_tail q = Some b" "q_head q \<noteq> None"
        using r ne unfolding as by (auto simp: q_rep_def) (cases bs; auto)
      obtain m where m: "h b = Some m" using r as q_rep_alloc by fastforce
      let ?t = "junk\<lparr>qn_item := itm, qn_next := None\<rparr>" and ?h = "h(b \<mapsto> m\<lparr>qn_next := Some a\<rparr>)"
      have "lseg ?h (q_head q) (bs @ [b]) (Some a)" using lb m by (intro lseg_redirect) auto
      then have "lseg (?h(a \<mapsto> ?t)) (q_head q) (bs @ [b]) (Some a)"
        using fresh unfolding as by (simp only: lseg_upd simp_thms)
      then have "lseg (?h(a \<mapsto> ?t)) (q_head q) (as @ [a]) None" unfolding as by (subst lseg_append) auto
      then show ?thesis using r fresh n False lb m as unat_inc [of "q_nItems q" "length as"]
        by (auto simp: queue_insert_def q_rep_def as'_def node_item_def)
    qed
  qed
qed

lemma queue_insert_nomem: "queue_insert None itm opt h q = Some (ERROR_MEMORY_NOMEM, h, q)"
  by (simp add: queue_insert_def)

lemma queue_pop_rep:
  assumes "q_rep h q (a # as)"
  shows "\<exists>q'. queue_pop h q = Some (Some (node_item h a), h(a := None), q') \<and> q_rep (h(a := None)) q' as"
proof -
  obtain n where n: "h a = Some n" "q_head q = Some a" "lseg h (qn_next n) as None" using assms by (auto simp: q_rep_def split: option.splits)
  have u: "unat (q_nItems q - 1) = length as" using assms by (auto simp: q_rep_def intro: unat_pred)
  have "lseg (h(a := None)) (qn_next n) as None" using n(3) assms by (simp add: q_rep_def)
  moreover have "as \<noteq> [] \<Longrightarrow> a \<noteq> last as" using assms by (auto simp: q_rep_def)
  ultimately show ?thesis using assms n u by (auto simp: queue_pop_def q_rep_def node_item_def)
qed

text \<open>Removing the first node that holds an item.\<close>

lemma queue_removeLoop_none:
  assumes "lseg h x cs None" "\<And>c. c \<in> set cs \<Longrightarrow> node_item h c \<noteq> itm" "length cs \<le> fuel"
  shows "queue_removeLoop fuel prev x itm h q = Some (h, q\<lparr>q_lock := False\<rparr>)"
  using assms
proof (induction cs arbitrary: x prev fuel)
  case (Cons c cs)
  then obtain n where n: "x = Some c" "h c = Some n" "lseg h (qn_next n) cs None" by (auto split: option.splits)
  obtain f where f: "fuel = Suc f" "length cs \<le> f" using Cons.prems(3) by (cases fuel) auto
  have "qn_item n \<noteq> itm" using Cons.prems(2) [of c] n by (simp add: node_item_def)
  then show ?case using Cons.IH [OF n(3) _ f(2), of "Some c"] Cons.prems(2) n f by simp
qed simp

lemma queue_removeLoop_found:
  fixes prev :: ptr
  assumes "lseg h x (cs @ a # ds) None" "\<And>c. c \<in> set cs \<Longrightarrow> node_item h c \<noteq> itm" "node_item h a = itm"
    and "length (cs @ a # ds) \<le> fuel" "h a = Some n"
  defines "p \<equiv> if cs = [] then prev else Some (last cs)"
  shows "queue_removeLoop fuel prev x itm h q = do {
    h' \<leftarrow> (if p = None then Some h else store_upd h p (\<lambda>m. m\<lparr>qn_next := qn_next n\<rparr>));
    Some (h'(a := None), q\<lparr>q_head := (if p = None then qn_next n else q_head q),
      q_tail := (if qn_next n = None then p else q_tail q), q_nItems := q_nItems q - 1, q_lock := False\<rparr>) }"
  unfolding p_def using assms(1-4)
proof (induction cs arbitrary: x prev fuel)
  case Nil
  then obtain f where "fuel = Suc f" by (cases fuel) auto
  then show ?case using Nil assms(5) by (simp add: node_item_def fun_upd_def)
next
  case (Cons c cs)
  then obtain m where m: "x = Some c" "h c = Some m" "lseg h (qn_next m) (cs @ a # ds) None" by (auto split: option.splits)
  obtain f where f: "fuel = Suc f" "length (cs @ a # ds) \<le> f" using Cons.prems(4) by (cases fuel) auto
  have ni: "qn_item m \<noteq> itm" using Cons.prems(2) [of c] m by (simp add: node_item_def)
  have "queue_removeLoop fuel prev x itm h q = queue_removeLoop f (Some c) (qn_next m) itm h q" using m f ni by simp
  then show ?case using Cons.IH [OF m(3) _ Cons.prems(3) f(2), of "Some c"] Cons.prems(2) by (auto simp: if_distrib)
qed

lemma queue_remove_absent:
  assumes "q_rep h q as" "\<And>c. c \<in> set as \<Longrightarrow> node_item h c \<noteq> itm"
  shows "queue_remove itm h q = Some (h, q)"
  using assms queue_removeLoop_none [of h "q_head q" as itm "unat (q_nItems q)" None "q\<lparr>q_lock := True\<rparr>"]
  by (auto simp: queue_remove_def q_rep_def)

lemma queue_remove_present:
  assumes r: "q_rep h q (cs @ a # ds)" and c: "\<And>c. c \<in> set cs \<Longrightarrow> node_item h c \<noteq> itm" and i: "node_item h a = itm"
  shows "\<exists>h' q'. queue_remove itm h q = Some (h', q') \<and> q_rep h' q' (cs @ ds) \<and>
    (\<forall>b \<in> set (cs @ ds). node_item h' b = node_item h b) \<and> (\<forall>b. b \<notin> set (cs @ a # ds) \<longrightarrow> h' b = h b) \<and> h' a = None"
proof -
  have L: "lseg h (q_head q) (cs @ a # ds) None" "distinct (cs @ a # ds)" "\<not> q_lock q"
    "unat (q_nItems q) = length (cs @ a # ds)" "q_tail q = Some (last (a # ds))" using r by (auto simp: q_rep_def)
  obtain n where n: "h a = Some n" "lseg h (qn_next n) ds None" "lseg h (q_head q) cs (Some a)"
    using L(1) by (auto simp: lseg_append split: option.splits)
  have dn: "qn_next n = None \<longleftrightarrow> ds = []" using n(2) by (cases ds) auto
  have u: "unat (q_nItems q - 1) = length (cs @ ds)" by (rule unat_pred) (use L(4) in simp)
  note loop = queue_removeLoop_found [OF L(1) c i _ n(1), of "unat (q_nItems q)" None "q\<lparr>q_lock := True\<rparr>"]
  show ?thesis
  proof (cases "cs = []")
    case True
    then show ?thesis using loop L n u dn by (auto simp: queue_remove_def q_rep_def node_item_def)
  next
    case False
    obtain bs b where cs: "cs = bs @ [b]" using False by (metis rev_exhaust)
    obtain m where m: "h b = Some m" using n(3) unfolding cs by (auto simp: lseg_append split: option.splits)
    let ?h = "h(b \<mapsto> m\<lparr>qn_next := qn_next n\<rparr>)"
    have "lseg ?h (q_head q) cs (qn_next n)" using n(3) L(2) m unfolding cs by (intro lseg_redirect) auto
    then have "lseg (?h(a := None)) (q_head q) cs (qn_next n)" using L(2) by (simp add: lseg_upd del: fun_upd_apply)
    moreover have "lseg (?h(a := None)) (qn_next n) ds None" using n(2) L(2) cs by simp
    ultimately have "lseg (?h(a := None)) (q_head q) (cs @ ds) None" by (auto simp: lseg_append)
    moreover have "queue_remove itm h q = Some (?h(a := None), q\<lparr>q_tail := (if ds = [] then Some b else q_tail q),
        q_nItems := q_nItems q - 1\<rparr>)"
      using loop L(3,4) False m cs dn by (simp add: queue_remove_def)
    ultimately show ?thesis using L(2,3,5) u m cs by (auto simp: q_rep_def node_item_def)
  qed
qed

lemma queue_find_rep: "q_rep h q as \<Longrightarrow> queue_find itm h q = Some (itm \<in> node_item h ` set as)"
proof -
  have "lseg h x as None \<Longrightarrow> length as \<le> fuel \<Longrightarrow> queue_findLoop fuel x itm h = Some (itm \<in> node_item h ` set as)" for x fuel
  proof (induction as arbitrary: x fuel)
    case (Cons a as)
    then obtain n where "x = Some a" "h a = Some n" "lseg h (qn_next n) as None" by (auto split: option.splits)
    moreover obtain f where "fuel = Suc f" "length as \<le> f" using Cons.prems(2) by (cases fuel) auto
    ultimately show ?case using Cons.IH by (auto simp: node_item_def)
  qed simp
  then show "q_rep h q as \<Longrightarrow> queue_find itm h q = Some (itm \<in> node_item h ` set as)"
    by (auto simp: queue_find_def q_rep_def)
qed

section \<open>Representation of the whole queue\<close>

text \<open>The number of the first queue that holds an item.\<close>

fun first_ne :: "'b list list \<Rightarrow> nat" where
  "first_ne [] = 0"
| "first_ne (l # ls) = (if l = [] then Suc (first_ne ls) else 0)"

lemma first_ne_less: "concat ls \<noteq> [] \<Longrightarrow> first_ne ls < length ls \<and> ls ! first_ne ls \<noteq> []"
  by (induction ls) auto

lemma first_ne_before: "j < first_ne ls \<Longrightarrow> ls ! j = []"
  by (induction ls arbitrary: j) (auto simp: nth_Cons split: nat.splits if_splits)

lemma first_ne_eqI: "i < length ls \<Longrightarrow> ls ! i \<noteq> [] \<Longrightarrow> (\<And>j. j < i \<Longrightarrow> ls ! j = []) \<Longrightarrow> first_ne ls = i \<and> concat ls \<noteq> []"
proof (induction ls arbitrary: i)
  case (Cons l ls)
  show ?case
  proof (cases i)
    case (Suc k)
    have "ls ! j = []" if "j < k" for j using Cons.prems(3) [of "Suc j"] that Suc by simp
    then have "first_ne ls = k \<and> concat ls \<noteq> []" using Cons.prems(1,2) Suc by (intro Cons.IH) auto
    moreover have "l = []" using Cons.prems(3) [of 0] Suc by simp
    ultimately show ?thesis using Suc by simp
  qed (use Cons.prems in auto)
qed simp

definition pq_rep0 :: "'a prioq \<Rightarrow> addr list list \<Rightarrow> bool" where
  "pq_rep0 s ass \<longleftrightarrow> length ass = unat (pq_nPrios s) \<and> length (pq_queues s) = length ass \<and> length ass < 2 ^ 15 \<and>
     (\<forall>i < length ass. \<forall>j < length ass. i \<noteq> j \<longrightarrow> set (ass ! i) \<inter> set (ass ! j) = {}) \<and>
     (\<forall>i < length ass. q_rep (pq_store s) (pq_queues s ! i) (ass ! i))"

definition pq_rep :: "'a prioq \<Rightarrow> addr list list \<Rightarrow> bool" where
  "pq_rep s ass \<longleftrightarrow> pq_rep0 s ass \<and> \<not> pq_lock s \<and>
     pq_headQueue s = (if concat ass = [] then - 1 else of_nat (first_ne ass))"

lemma pq_rep0_head [simp]: "pq_rep0 (s\<lparr>pq_headQueue := x\<rparr>) ass = pq_rep0 s ass" "pq_rep0 (s\<lparr>pq_lock := y\<rparr>) ass = pq_rep0 s ass"
  unfolding pq_rep0_def by simp_all

lemma pq_rep0D:
  assumes "pq_rep0 s ass"
  shows "length ass = unat (pq_nPrios s)" "length (pq_queues s) = length ass" "length ass < 2 ^ 15"
    "\<And>i j. i < length ass \<Longrightarrow> j < length ass \<Longrightarrow> i \<noteq> j \<Longrightarrow> set (ass ! i) \<inter> set (ass ! j) = {}"
    "\<And>i. i < length ass \<Longrightarrow> q_rep (pq_store s) (pq_queues s ! i) (ass ! i)"
  using assms unfolding pq_rep0_def by blast+

lemma sint_u16: "i < 2 ^ 15 \<Longrightarrow> sint (of_nat i :: u16) = int i" "i < 2 ^ 15 \<Longrightarrow> unat (of_nat i :: u16) = i"
proof -
  assume i: "i < 2 ^ 15"
  then show u: "unat (of_nat i :: u16) = i" by (simp add: unsigned_of_nat take_bit_nat_eq_self)
  show "sint (of_nat i :: u16) = int i"
    unfolding of_int_of_nat_eq [symmetric, where ?'a = "16 word"] signed_of_int using i by (simp add: signed_take_bit_int_eq_self_iff)
qed

lemma pq_head_value:
  assumes "pq_rep s ass"
  shows "concat ass = [] \<Longrightarrow> sint (pq_headQueue s) = - 1"
    "concat ass \<noteq> [] \<Longrightarrow> sint (pq_headQueue s) = int (first_ne ass) \<and> unat (pq_headQueue s) = first_ne ass"
proof -
  show "concat ass = [] \<Longrightarrow> sint (pq_headQueue s) = - 1" using assms by (simp add: pq_rep_def)
  assume ne: "concat ass \<noteq> []"
  then have "first_ne ass < 2 ^ 15" using first_ne_less [OF ne] assms by (simp add: pq_rep_def pq_rep0_def)
  then show "sint (pq_headQueue s) = int (first_ne ass) \<and> unat (pq_headQueue s) = first_ne ass"
    using assms sint_u16 [of "first_ne ass"] ne by (simp only: pq_rep_def if_False)
qed

lemma prioq_scan_rep:
  assumes q: "\<And>j. j < length ass \<Longrightarrow> q_rep h (qs ! j) (ass ! j)" and len: "length qs = length ass" and skp: "skp < length ass \<Longrightarrow> ass ! skp = []"
  shows "i + k = length ass \<Longrightarrow> prioq_scan k i skp qs =
    Some (if concat (drop i ass) = [] then None else Some (i + first_ne (drop i ass)))"
proof (induction k arbitrary: i)
  case (Suc k)
  have i: "i < length ass" using Suc.prems by simp
  have d: "drop i ass = ass ! i # drop (Suc i) ass" using i by (simp add: Cons_nth_drop_Suc)
  show ?case unfolding d using Suc.IH [of "Suc i"] Suc.prems i len skp q_rep_nItems [OF q [OF i]] q_rep_empty_iff [OF q [OF i]]
    by auto
qed simp

lemma prioq_rehead_rep:
  assumes "pq_rep0 s ass" "skp < length ass \<Longrightarrow> ass ! skp = []"
  shows "\<exists>s'. prioq_rehead skp s = Some s' \<and> pq_rep s' ass \<and> pq_store s' = pq_store s \<and> pq_nPrios s' = pq_nPrios s"
proof -
  note R = pq_rep0D [OF assms(1)]
  have "prioq_scan (unat (pq_nPrios s)) 0 skp (pq_queues s) = Some (if concat ass = [] then None else Some (first_ne ass))"
    using prioq_scan_rep [OF R(5,2) assms(2), of 0 "unat (pq_nPrios s)"] R(1) by simp
  then have "prioq_rehead skp s = Some (s\<lparr>pq_headQueue := (if concat ass = [] then - 1 else of_nat (first_ne ass)), pq_lock := False\<rparr>)"
    by (simp add: prioq_rehead_def)
  then show ?thesis using assms(1) by (simp add: pq_rep_def)
qed

text \<open>Changing one queue of the array.\<close>

lemma pq_rep0_update:
  assumes r: "pq_rep0 s ass" and i: "i < length ass" and q: "q_rep h' q' as'"
    and new: "\<And>b j. b \<in> set as' \<Longrightarrow> j < length ass \<Longrightarrow> j \<noteq> i \<Longrightarrow> b \<notin> set (ass ! j)"
    and frame: "\<And>b. b \<notin> set (ass ! i) \<union> set as' \<Longrightarrow> h' b = pq_store s b"
  shows "pq_rep0 (s\<lparr>pq_store := h', pq_queues := (pq_queues s)[i := q']\<rparr>) (ass[i := as'])"
proof -
  note L = pq_rep0D(1-3) [OF r] and D = pq_rep0D(4) [OF r] and R = pq_rep0D(5) [OF r]
  have apart: "b \<notin> set (ass ! i) \<union> set as'" if "j < length ass" "j \<noteq> i" "b \<in> set (ass ! j)" for b j
    using D [OF that(1) i that(2)] new [OF _ that(1,2), of b] that(3) by (auto simp: disjoint_iff)
  have other: "q_rep h' (pq_queues s ! j) (ass ! j)" if j: "j < length ass" "j \<noteq> i" for j
    using R [OF j(1)] q_rep_frame [of "ass ! j" h' "pq_store s"] frame [OF apart [OF j]] by simp
  have D': "set (ass[i := as'] ! j) \<inter> set (ass[i := as'] ! k) = {}" if jk: "j < length ass" "k < length ass" "j \<noteq> k" for j k
  proof -
    consider "j = i" "k \<noteq> i" | "j \<noteq> i" "k = i" | "j \<noteq> i" "k \<noteq> i" using jk(3) by blast
    then show ?thesis
    proof cases
      case 1 then show ?thesis using apart [OF jk(2)] i by (auto simp: disjoint_iff)
    next
      case 2 then show ?thesis using apart [OF jk(1)] i by (auto simp: disjoint_iff)
    next
      case 3 then show ?thesis using D [OF jk] by simp
    qed
  qed
  have R': "q_rep h' ((pq_queues s)[i := q'] ! j) (ass[i := as'] ! j)" if "j < length ass" for j
    using q other [OF that] that i L(2) by (cases "j = i") simp_all
  show ?thesis unfolding pq_rep0_def using L D' R' by simp
qed

section \<open>Abstract view: one list of items per priority number\<close>

definition pq_abs :: "'a prioq \<Rightarrow> 'a list list \<Rightarrow> bool" where
  "pq_abs s ls \<longleftrightarrow> (\<exists>ass. pq_rep s ass \<and> ls = map (map (node_item (pq_store s))) ass)"

lemma items_update:
  assumes r: "pq_rep0 s ass" and i: "i < length ass"
    and new: "\<And>b j. b \<in> set as' \<Longrightarrow> j < length ass \<Longrightarrow> j \<noteq> i \<Longrightarrow> b \<notin> set (ass ! j)"
    and frame: "\<And>b. b \<notin> set (ass ! i) \<union> set as' \<Longrightarrow> h' b = pq_store s b"
  shows "map (map (node_item h')) (ass[i := as']) = (map (map (node_item (pq_store s))) ass)[i := map (node_item h') as']"
proof (rule nth_equalityI)
  fix j assume "j < length (map (map (node_item h')) (ass[i := as']))"
  then have j: "j < length ass" by simp
  show "map (map (node_item h')) (ass[i := as']) ! j = (map (map (node_item (pq_store s))) ass)[i := map (node_item h') as'] ! j"
  proof (cases "j = i")
    case False
    have "h' b = pq_store s b" if "b \<in> set (ass ! j)" for b
      using pq_rep0D(4) [OF r j i False] new [OF _ j False, of b] that by (intro frame) (auto simp: disjoint_iff)
    then show ?thesis using j False by (simp add: node_item_def)
  qed (use i in simp)
qed simp

lemma first_ne_insert:
  assumes "i < length ass" "as' \<noteq> []"
  shows "first_ne (ass[i := as']) = (if concat ass = [] \<or> i < first_ne ass then i else first_ne ass) \<and> concat (ass[i := as']) \<noteq> []"
proof (cases "concat ass = [] \<or> i < first_ne ass")
  case True
  have "ass ! j = []" if "j < i" for j using True first_ne_before [of j ass] that assms(1) by auto
  then show ?thesis using True assms first_ne_eqI [of i "ass[i := as']"] by auto
next
  case False
  note F = first_ne_less [of ass]
  have "(ass[i := as']) ! first_ne ass \<noteq> []" using F False assms by (cases "i = first_ne ass") auto
  moreover have "(ass[i := as']) ! j = []" if "j < first_ne ass" for j using first_ne_before [OF that] that False by simp
  ultimately show ?thesis using False F first_ne_eqI [of "first_ne ass" "ass[i := as']"] by auto
qed

lemma pq_head_cmp:
  assumes "pq_rep s ass"
  shows "(sint (pq_headQueue s) = - 1 \<or> uint prio < sint (pq_headQueue s)) \<longleftrightarrow> (concat ass = [] \<or> unat prio < first_ne ass)"
    "uint prio = sint (pq_headQueue s) \<longleftrightarrow> concat ass \<noteq> [] \<and> unat prio = first_ne ass"
proof -
  have "sint (pq_headQueue s) = (if concat ass = [] then - 1 else int (first_ne ass))" using pq_head_value [OF assms] by (cases "concat ass = []") simp_all
  then show "(sint (pq_headQueue s) = - 1 \<or> uint prio < sint (pq_headQueue s)) \<longleftrightarrow> (concat ass = [] \<or> unat prio < first_ne ass)"
    "uint prio = sint (pq_headQueue s) \<longleftrightarrow> concat ass \<noteq> [] \<and> unat prio = first_ne ass"
    unfolding uint_nat by (simp_all del: of_nat_unat concat_eq_Nil_conv)
qed

lemma prioq_insert_refines:
  fixes opt :: u32 and prio :: u16
  assumes abs: "pq_abs s ls" and a: "pq_store s a = None" and p: "prio < pq_nPrios s" and n: "Suc (length (ls ! unat prio)) < 2 ^ 32"
  shows "\<exists>s'. prioq_insert (Some (a, junk)) itm prio opt s = Some (ERROR_SUCCESS, s') \<and>
    pq_abs s' (ls[unat prio := (if opt AND PRIOQUEUE_INSERT_FRONT \<noteq> 0 then itm # ls ! unat prio else ls ! unat prio @ [itm])]) \<and>
    dom (pq_store s') = insert a (dom (pq_store s)) \<and> pq_nPrios s' = pq_nPrios s"
proof -
  obtain ass where rep: "pq_rep s ass" and ls: "ls = map (map (node_item (pq_store s))) ass" using abs by (auto simp: pq_abs_def)
  have r0: "pq_rep0 s ass" using rep by (simp add: pq_rep_def)
  let ?i = "unat prio" and ?h = "pq_store s"
  have i: "?i < length ass" using p pq_rep0D(1) [OF r0] by (simp add: word_less_nat_alt)
  define as' where "as' = (if opt AND PRIOQUEUE_INSERT_FRONT \<noteq> 0 then a # ass ! ?i else ass ! ?i @ [a])"
  have "Suc (length (ass ! ?i)) < 2 ^ 32" using n i ls by simp
  then obtain h' q' where Q: "queue_insert (Some (a, junk)) itm opt ?h (pq_queues s ! ?i) = Some (ERROR_SUCCESS, h', q')"
    "q_rep h' q' as'" "node_item h' a = itm" "\<And>b. b \<in> set (ass ! ?i) \<Longrightarrow> node_item h' b = node_item ?h b"
    "\<And>b. b \<notin> set (ass ! ?i) \<union> {a} \<Longrightarrow> h' b = ?h b"
    using queue_insert_rep [OF pq_rep0D(5) [OF r0 i] a] unfolding as'_def by blast
  have sa: "set as' = insert a (set (ass ! ?i))" by (auto simp: as'_def)
  have fresh: "a \<notin> set (ass ! j)" if "j < length ass" for j using q_rep_alloc [OF pq_rep0D(5) [OF r0 that]] a by fastforce
  have new: "b \<notin> set (ass ! j)" if "b \<in> set as'" "j < length ass" "j \<noteq> ?i" for b j
    using pq_rep0D(4) [OF r0 that(2) i that(3)] fresh [OF that(2)] that(1) unfolding sa by (auto simp: disjoint_iff)
  have frame: "h' b = ?h b" if "b \<notin> set (ass ! ?i) \<union> set as'" for b using Q(5) that unfolding sa by blast
  define s1 where "s1 = s\<lparr>pq_store := h', pq_queues := (pq_queues s)[?i := q']\<rparr>"
  have r1: "pq_rep0 s1 (ass[?i := as'])" unfolding s1_def by (rule pq_rep0_update [OF r0 i Q(2) new frame])
  have "map (node_item h') as' = (if opt AND PRIOQUEUE_INSERT_FRONT \<noteq> 0 then itm # ls ! ?i else ls ! ?i @ [itm])"
    using Q(3,4) i unfolding ls as'_def by simp
  then have it: "map (map (node_item h')) (ass[?i := as']) =
      ls[?i := (if opt AND PRIOQUEUE_INSERT_FRONT \<noteq> 0 then itm # ls ! ?i else ls ! ?i @ [itm])]"
    using items_update [OF r0 i new frame] unfolding ls by simp
  define s' where "s' = (if concat ass = [] \<or> ?i < first_ne ass then s1\<lparr>pq_headQueue := prio\<rparr> else s1)\<lparr>pq_lock := False\<rparr>"
  have "prio = of_nat ?i" by simp
  moreover have "as' \<noteq> []" by (simp add: as'_def)
  ultimately have "pq_rep s' (ass[?i := as'])"
    using r1 first_ne_insert [OF i, of as'] rep unfolding s'_def s1_def by (simp add: pq_rep_def del: concat_eq_Nil_conv)
  moreover have "prioq_insert (Some (a, junk)) itm prio opt s = Some (ERROR_SUCCESS, s')"
  proof -
    have hd: "(sint (pq_headQueue s) = - 1 \<or> uint prio < sint (pq_headQueue s)) \<longleftrightarrow> (concat ass = [] \<or> ?i < first_ne ass)"
      by (rule pq_head_cmp [OF rep])
    have "\<not> pq_lock s" using rep by (simp add: pq_rep_def)
    then show ?thesis using p Q(1) i pq_rep0D(2) [OF r0] hd
      by (simp add: prioq_insert_def s'_def s1_def not_le Let_def del: concat_eq_Nil_conv)
  qed
  moreover have "dom h' = insert a (dom ?h)"
  proof -
    have "\<exists>n. h' b = Some n" if "b \<in> set as'" for b using q_rep_alloc [OF Q(2) that] .
    moreover have "\<exists>n. ?h b = Some n" if "b \<in> set (ass ! ?i)" for b using q_rep_alloc [OF pq_rep0D(5) [OF r0 i] that] .
    ultimately show ?thesis using Q(5) unfolding sa by (auto simp: dom_def) (metis Un_iff empty_iff insert_iff)+
  qed
  moreover have st: "pq_store s' = h'" "pq_nPrios s' = pq_nPrios s" by (simp_all add: s'_def s1_def)
  ultimately show ?thesis using it by (intro exI [of _ s'] conjI) (auto simp: pq_abs_def)
qed

lemma prioq_insert_fails:
  "prio \<ge> pq_nPrios s \<Longrightarrow> prioq_insert mem itm prio opt s = Some (ERROR_INVALID_ARG_VAL, s)"
  "pq_abs s ls \<Longrightarrow> prio < pq_nPrios s \<Longrightarrow> prioq_insert None itm prio opt s = Some (ERROR_MEMORY_NOMEM, s)"
proof -
  show "prio \<ge> pq_nPrios s \<Longrightarrow> prioq_insert mem itm prio opt s = Some (ERROR_INVALID_ARG_VAL, s)" by (simp add: prioq_insert_def)
  assume "pq_abs s ls" "prio < pq_nPrios s"
  then have "unat prio < length (pq_queues s)" by (auto simp: pq_abs_def pq_rep_def pq_rep0_def word_less_nat_alt)
  then show "prioq_insert None itm prio opt s = Some (ERROR_MEMORY_NOMEM, s)"
    using \<open>prio < pq_nPrios s\<close> by (simp add: prioq_insert_def queue_insert_nomem not_le)
qed

text \<open>Taking the first item of the first list that is not empty.\<close>

fun pop_first :: "'b list list \<Rightarrow> 'b list list" where
  "pop_first [] = []"
| "pop_first (l # ls) = (if l = [] then [] # pop_first ls else tl l # ls)"

lemma pop_first_concat: "concat (pop_first ls) = tl (concat ls)"
  by (induction ls) auto

lemma pop_first_length [simp]: "length (pop_first ls) = length ls"
  by (induction ls) auto

lemma pop_first_eq: "concat ls \<noteq> [] \<Longrightarrow> pop_first ls = ls[first_ne ls := tl (ls ! first_ne ls)]"
  by (induction ls) auto

lemma hd_concat_first: "concat ls \<noteq> [] \<Longrightarrow> hd (concat ls) = hd (ls ! first_ne ls)"
  by (induction ls) auto

lemma first_ne_map: "first_ne (map (map f) ls) = first_ne ls" "concat (map (map f) ls) = [] \<longleftrightarrow> concat ls = []"
  by (induction ls) auto

lemma prioq_pop_empty: "pq_abs s ls \<Longrightarrow> concat ls = [] \<Longrightarrow> prioq_pop s = Some (None, s)"
proof -
  assume "pq_abs s ls" "concat ls = []"
  then obtain ass where rep: "pq_rep s ass" and "concat ass = []" by (auto simp: pq_abs_def simp del: concat_eq_Nil_conv simp: first_ne_map)
  then have "sint (pq_headQueue s) = - 1" "\<not> pq_lock s" using pq_head_value(1) by (auto simp: pq_rep_def)
  then show "prioq_pop s = Some (None, s)" by (simp add: prioq_pop_def)
qed

text \<open>Replacing the nodes of the head queue by a list that may be empty.\<close>

lemma prioq_reheaded:
  assumes r: "pq_rep0 s ass" and i: "i < length ass" and hd: "pq_headQueue s = of_nat i" and b: "\<And>j. j < i \<Longrightarrow> ass ! j = []"
    and ne: "ass ! i \<noteq> []"
  shows "pq_rep (s\<lparr>pq_lock := False\<rparr>) ass"
  using assms first_ne_eqI [OF i ne b] by (simp add: pq_rep_def del: concat_eq_Nil_conv)

lemma prioq_pop_refines:
  assumes abs: "pq_abs s ls" and ne: "concat ls \<noteq> []"
  shows "\<exists>s'. prioq_pop s = Some (Some (hd (concat ls)), s') \<and> pq_abs s' (pop_first ls) \<and>
    dom (pq_store s') \<subseteq> dom (pq_store s) \<and> pq_nPrios s' = pq_nPrios s"
proof -
  obtain ass where rep: "pq_rep s ass" and ls: "ls = map (map (node_item (pq_store s))) ass" using abs by (auto simp: pq_abs_def)
  have r0: "pq_rep0 s ass" "\<not> pq_lock s" using rep by (simp_all add: pq_rep_def)
  have ne': "concat ass \<noteq> []" using ne unfolding ls first_ne_map .
  let ?i = "first_ne ass" and ?h = "pq_store s"
  have i: "?i < length ass" "ass ! ?i \<noteq> []" using first_ne_less [OF ne'] by simp_all
  obtain a as where as: "ass ! ?i = a # as" using i(2) by (cases "ass ! ?i") auto
  obtain q' where Q: "queue_pop ?h (pq_queues s ! ?i) = Some (Some (node_item ?h a), ?h(a := None), q')" "q_rep (?h(a := None)) q' as"
    using queue_pop_rep pq_rep0D(5) [OF r0(1) i(1)] unfolding as by blast
  have hd: "sint (pq_headQueue s) \<noteq> - 1" "unat (pq_headQueue s) = ?i" "pq_headQueue s = of_nat ?i"
    using pq_head_value(2) [OF rep ne'] rep ne' by (simp_all add: pq_rep_def del: concat_eq_Nil_conv)
  define s1 where "s1 = s\<lparr>pq_store := ?h(a := None), pq_queues := (pq_queues s)[?i := q']\<rparr>"
  have new: "b \<notin> set (ass ! j)" if "b \<in> set as" "j < length ass" "j \<noteq> ?i" for b j
    using pq_rep0D(4) [OF r0(1) that(2) i(1) that(3)] that(1) as by (auto simp: disjoint_iff)
  have frame: "(?h(a := None)) b = ?h b" if "b \<notin> set (ass ! ?i) \<union> set as" for b using that as by auto
  have r1: "pq_rep0 s1 (ass[?i := as])" unfolding s1_def by (rule pq_rep0_update [OF r0(1) i(1) Q(2) new frame])
  have "distinct (a # as)" using pq_rep0D(5) [OF r0(1) i(1)] unfolding as by (simp add: q_rep_def)
  then have "map (node_item (?h(a := None))) as = tl (ls ! ?i)" unfolding ls using i(1) as by (auto simp: node_item_def)
  moreover have "map (map (node_item (?h(a := None)))) (ass[?i := as]) = (map (map (node_item ?h)) ass)[?i := map (node_item (?h(a := None))) as]"
    by (rule items_update [OF r0(1) i(1) new frame])
  ultimately have it: "map (map (node_item (?h(a := None)))) (ass[?i := as]) = pop_first ls"
    using pop_first_eq [OF ne] unfolding ls first_ne_map by (simp only:)
  have "hd (concat ls) = node_item ?h a" using hd_concat_first [OF ne] i(1) as unfolding ls first_ne_map by simp
  moreover have "\<exists>s'. prioq_pop s = Some (Some (node_item ?h a), s') \<and> pq_rep s' (ass[?i := as]) \<and> pq_store s' = ?h(a := None) \<and>
    pq_nPrios s' = pq_nPrios s"
  proof (cases "as = []")
    case True
    obtain s' where "prioq_rehead ?i (s1\<lparr>pq_lock := True\<rparr>) = Some s' \<and> pq_rep s' (ass[?i := as]) \<and> pq_store s' = pq_store s1 \<and> pq_nPrios s' = pq_nPrios s1"
      using prioq_rehead_rep [of "s1\<lparr>pq_lock := True\<rparr>" "ass[?i := as]" ?i] r1 True by auto
    then show ?thesis using True Q r0(2) hd i pq_rep0D(2) [OF r0(1)] q_rep_nItems [OF Q(2)] q_rep_empty_iff(1) [OF Q(2)]
      by (auto simp: prioq_pop_def s1_def)
  next
    case False
    have "pq_rep (s1\<lparr>pq_lock := False\<rparr>) (ass[?i := as])"
      using prioq_reheaded [OF r1, of ?i] i(1) hd(3) first_ne_before [of _ ass] False by (auto simp: s1_def)
    then show ?thesis using False Q r0(2) hd i pq_rep0D(2) [OF r0(1)] q_rep_nItems [OF Q(2)] q_rep_empty_iff(1) [OF Q(2)]
      by (auto simp: prioq_pop_def s1_def)
  qed
  ultimately show ?thesis using it by (fastforce simp: pq_abs_def)
qed

lemma split_first: "x \<in> f ` set as \<Longrightarrow> \<exists>cs a ds. as = cs @ a # ds \<and> f a = x \<and> (\<forall>c \<in> set cs. f c \<noteq> x)"
proof -
  assume "x \<in> f ` set as"
  then have "\<exists>a \<in> set as. f a = x" by auto
  then show ?thesis by (rule split_list_first_propE) auto
qed

lemma remove1_map: "\<forall>c \<in> set cs. f c \<noteq> f a \<Longrightarrow> remove1 (f a) (map f (cs @ a # ds)) = map f (cs @ ds)"
  by (induction cs) auto

lemma prioq_remove_refines:
  fixes prio :: u16
  assumes abs: "pq_abs s ls" and p: "prio < pq_nPrios s"
  shows "\<exists>s'. prioq_remove itm prio s = Some s' \<and> pq_abs s' (ls[unat prio := remove1 itm (ls ! unat prio)]) \<and>
    dom (pq_store s') \<subseteq> dom (pq_store s) \<and> pq_nPrios s' = pq_nPrios s"
proof -
  obtain ass where rep: "pq_rep s ass" and ls: "ls = map (map (node_item (pq_store s))) ass" using abs by (auto simp: pq_abs_def)
  have r0: "pq_rep0 s ass" "\<not> pq_lock s" using rep by (simp_all add: pq_rep_def)
  let ?i = "unat prio" and ?h = "pq_store s"
  have i: "?i < length ass" "?i < length (pq_queues s)" using p pq_rep0D(1,2) [OF r0(1)] by (simp_all add: word_less_nat_alt)
  have q: "q_rep ?h (pq_queues s ! ?i) (ass ! ?i)" by (rule pq_rep0D(5) [OF r0(1) i(1)])
  have "\<exists>h' q' as'. queue_remove itm ?h (pq_queues s ! ?i) = Some (h', q') \<and> q_rep h' q' as' \<and> set as' \<subseteq> set (ass ! ?i) \<and>
    map (node_item h') as' = remove1 itm (ls ! ?i) \<and> (\<forall>b. b \<notin> set (ass ! ?i) \<longrightarrow> h' b = ?h b)"
  proof (cases "itm \<in> node_item ?h ` set (ass ! ?i)")
    case True
    then obtain cs a ds where as: "ass ! ?i = cs @ a # ds" "node_item ?h a = itm" "\<forall>c \<in> set cs. node_item ?h c \<noteq> itm"
      using split_first [OF True] by blast
    obtain h' q' where Q: "queue_remove itm ?h (pq_queues s ! ?i) = Some (h', q')" "q_rep h' q' (cs @ ds)"
      "\<forall>b \<in> set (cs @ ds). node_item h' b = node_item ?h b" "\<forall>b. b \<notin> set (cs @ a # ds) \<longrightarrow> h' b = ?h b"
      using queue_remove_present [OF q [unfolded as(1)], of itm] as(2,3) by blast
    have "ls ! ?i = map (node_item ?h) (cs @ a # ds)" unfolding ls using i(1) as(1) by simp
    then have "map (node_item h') (cs @ ds) = remove1 itm (ls ! ?i)" using remove1_map [of cs "node_item ?h" a ds] as(2,3) Q(3) by auto
    then show ?thesis using Q as(1) by (intro exI [of _ h'] exI [of _ q'] exI [of _ "cs @ ds"]) auto
  next
    case False
    then have "queue_remove itm ?h (pq_queues s ! ?i) = Some (?h, pq_queues s ! ?i)" by (intro queue_remove_absent [OF q]) auto
    moreover have "remove1 itm (ls ! ?i) = map (node_item ?h) (ass ! ?i)" unfolding ls using i(1) False by (simp add: remove1_idem image_def)
    ultimately show ?thesis using q by auto
  qed
  then obtain h' q' as' where Q: "queue_remove itm ?h (pq_queues s ! ?i) = Some (h', q')" "q_rep h' q' as'" "set as' \<subseteq> set (ass ! ?i)"
    "map (node_item h') as' = remove1 itm (ls ! ?i)" "\<And>b. b \<notin> set (ass ! ?i) \<Longrightarrow> h' b = ?h b" by blast
  define s1 where "s1 = s\<lparr>pq_store := h', pq_queues := (pq_queues s)[?i := q']\<rparr>"
  have new: "b \<notin> set (ass ! j)" if "b \<in> set as'" "j < length ass" "j \<noteq> ?i" for b j
    using pq_rep0D(4) [OF r0(1) that(2) i(1) that(3)] that(1) Q(3) by (auto simp: disjoint_iff)
  have frame: "h' b = ?h b" if "b \<notin> set (ass ! ?i) \<union> set as'" for b using that Q(5) by auto
  have r1: "pq_rep0 s1 (ass[?i := as'])" unfolding s1_def by (rule pq_rep0_update [OF r0(1) i(1) Q(2) new frame])
  have it: "map (map (node_item h')) (ass[?i := as']) = ls[?i := remove1 itm (ls ! ?i)]"
  proof -
    have "map (map (node_item h')) (ass[?i := as']) = (map (map (node_item ?h)) ass)[?i := map (node_item h') as']"
      by (rule items_update [OF r0(1) i(1) new frame])
    then show ?thesis using Q(4) unfolding ls by (simp only:)
  qed
  have n': "queue_getNItems q' = Some (q_nItems q')" "q_nItems q' = 0 \<longleftrightarrow> as' = []" using q_rep_nItems [OF Q(2)] q_rep_empty_iff(1) [OF Q(2)] by simp_all
  have "\<exists>s'. prioq_remove itm prio s = Some s' \<and> pq_rep s' (ass[?i := as']) \<and> pq_store s' = h' \<and> pq_nPrios s' = pq_nPrios s"
  proof (cases "uint prio = sint (pq_headQueue s) \<and> as' = []")
    case True
    obtain s' where "prioq_rehead ?i (s1\<lparr>pq_lock := True\<rparr>) = Some s' \<and> pq_rep s' (ass[?i := as']) \<and> pq_store s' = pq_store s1 \<and> pq_nPrios s' = pq_nPrios s1"
      using prioq_rehead_rep [of "s1\<lparr>pq_lock := True\<rparr>" "ass[?i := as']" ?i] r1 True by auto
    then show ?thesis using True Q(1) r0(2) i(2) n' by (auto simp: prioq_remove_def s1_def)
  next
    case False
    have hd: "pq_headQueue s = (if concat (ass[?i := as']) = [] then - 1 else of_nat (first_ne (ass[?i := as'])))"
    proof (cases "concat ass = []")
      case True
      then have "ass ! ?i = []" using i(1) by simp
      then have "as' = []" using Q(3) by simp
      then have "ass[?i := as'] = ass" using \<open>ass ! ?i = []\<close> by (metis list_update_id)
      then show ?thesis using rep by (simp add: pq_rep_def)
    next
      case ne: False
      let ?f = "first_ne ass"
      have "(ass[?i := as']) ! ?f \<noteq> []" using False pq_head_cmp(2) [OF rep, of prio] ne first_ne_less [OF ne] by (cases "?i = ?f") auto
      moreover have "(ass[?i := as']) ! j = []" if "j < ?f" for j
        using first_ne_before [OF that] Q(3) i(1) by (cases "j = ?i") auto
      ultimately have "first_ne (ass[?i := as']) = ?f \<and> concat (ass[?i := as']) \<noteq> []" using first_ne_less [OF ne] by (intro first_ne_eqI) auto
      then show ?thesis using rep ne by (simp add: pq_rep_def del: concat_eq_Nil_conv)
    qed
    have "prioq_remove itm prio s = Some (s1\<lparr>pq_lock := False\<rparr>)" using False Q(1) r0(2) i(2) n' by (auto simp: prioq_remove_def s1_def Let_def)
    moreover have "pq_rep (s1\<lparr>pq_lock := False\<rparr>) (ass[?i := as'])" using r1 hd by (simp add: pq_rep_def s1_def del: concat_eq_Nil_conv)
    ultimately show ?thesis by (simp add: s1_def)
  qed
  moreover have "dom h' \<subseteq> dom ?h"
  proof -
    have "\<exists>n. ?h b = Some n" if "b \<in> set (ass ! ?i)" for b using q_rep_alloc [OF q that] .
    then show ?thesis using Q(5) by (auto simp: dom_def) (metis option.distinct(1))
  qed
  ultimately show ?thesis using it [symmetric] unfolding pq_abs_def by blast
qed

lemma prioq_find_refines: "pq_abs s ls \<Longrightarrow> prioq_find itm s = Some (itm \<in> set (concat ls))"
proof -
  assume "pq_abs s ls"
  then obtain ass where rep: "pq_rep s ass" and ls: "ls = map (map (node_item (pq_store s))) ass" by (auto simp: pq_abs_def)
  have r0: "pq_rep0 s ass" using rep by (simp add: pq_rep_def)
  have "i + k = length ass \<Longrightarrow> prioq_findLoop k i itm s = Some (itm \<in> set (concat (drop i ls)))" for i k
  proof (induction k arbitrary: i)
    case (Suc k)
    then have i: "i < length ass" "i < length (pq_queues s)" using pq_rep0D(2) [OF r0] by simp_all
    then have li: "i < length ls" "ls ! i = map (node_item (pq_store s)) (ass ! i)" unfolding ls by simp_all
    have "drop i ls = ls ! i # drop (Suc i) ls" by (rule Cons_nth_drop_Suc [OF li(1), symmetric])
    then show ?case using Suc.IH [of "Suc i"] Suc.prems i li(2) queue_find_rep [OF pq_rep0D(5) [OF r0 i(1)]] by auto
  qed (simp add: ls)
  from this [of 0 "unat (pq_nPrios s)"] show "prioq_find itm s = Some (itm \<in> set (concat ls))"
    using pq_rep0D(1) [OF r0] by (simp add: prioq_find_def)
qed

lemma prioq_initialize_abs:
  assumes "n < 2 ^ 15"
  shows "pq_abs (snd (prioq_initialize True True (prioq_new n))) (replicate (unat n) [])"
proof -
  have "unat n < 2 ^ 15" using assms by (simp add: word_less_nat_alt)
  then have "pq_rep (snd (prioq_initialize True True (prioq_new n))) (replicate (unat n) [])"
    by (simp add: pq_rep_def pq_rep0_def prioq_initialize_def prioq_new_def q_rep_new)
  then show ?thesis unfolding pq_abs_def by (intro exI conjI) auto
qed

section \<open>Priority order as an interface\<close>

text \<open>What a client of a run queue relies on: items are taken from the first list that is not empty, in the
  order of each list, and insertion touches one list only.\<close>

fun pop_all :: "('s \<Rightarrow> ('i option \<times> 's) option) \<Rightarrow> nat \<Rightarrow> 's \<Rightarrow> ('i list \<times> 's) option" where
  "pop_all pop 0 s = Some ([], s)"
| "pop_all pop (Suc n) s = do {
     (r, s') \<leftarrow> pop s;
     case r of None \<Rightarrow> Some ([], s') | Some x \<Rightarrow> do { (xs, s'') \<leftarrow> pop_all pop n s'; Some (x # xs, s'') }
   }"

locale run_queue =
  fixes absr :: "'s \<Rightarrow> 'i list list \<Rightarrow> bool" and pop :: "'s \<Rightarrow> ('i option \<times> 's) option"
    and remove :: "'i \<Rightarrow> u16 \<Rightarrow> 's \<Rightarrow> 's option"
  assumes pop_none: "absr s ls \<Longrightarrow> concat ls = [] \<Longrightarrow> \<exists>s'. pop s = Some (None, s') \<and> absr s' ls"
    and pop_some: "absr s ls \<Longrightarrow> concat ls \<noteq> [] \<Longrightarrow> \<exists>s'. pop s = Some (Some (hd (concat ls)), s') \<and> absr s' (pop_first ls)"
    and remove_one: "absr s ls \<Longrightarrow> unat p < length ls \<Longrightarrow> \<exists>s'. remove x p s = Some s' \<and> absr s' (ls[unat p := remove1 x (ls ! unat p)])"
begin

lemma drain:
  assumes "absr s ls" "length (concat ls) \<le> n"
  shows "\<exists>s' ls'. pop_all pop n s = Some (concat ls, s') \<and> absr s' ls' \<and> concat ls' = []"
  using assms
proof (induction n arbitrary: s ls)
  case (Suc n)
  show ?case
  proof (cases "concat ls = []")
    case True
    then show ?thesis using pop_none [OF Suc.prems(1)] by auto
  next
    case False
    then obtain s1 where s1: "pop s = Some (Some (hd (concat ls)), s1)" "absr s1 (pop_first ls)" using pop_some [OF Suc.prems(1)] by blast
    have "length (concat (pop_first ls)) \<le> n" using Suc.prems(2) unfolding pop_first_concat by simp
    then obtain s2 ls2 where "pop_all pop n s1 = Some (tl (concat ls), s2)" "absr s2 ls2" "concat ls2 = []"
      using Suc.IH [OF s1(2)] unfolding pop_first_concat by blast
    then show ?thesis using s1(1) False by (intro exI [of _ s2] exI [of _ ls2]) (simp del: concat_eq_Nil_conv)
  qed
qed auto

lemma drain_count:
  assumes "absr s ls" "length (concat ls) \<le> n" "pop_all pop n s = Some (xs, s')"
  shows "count_list xs x = sum_list (map (\<lambda>l. count_list l x) ls)"
proof -
  have "count_list (concat ks) x = sum_list (map (\<lambda>l. count_list l x) ks)" for ks :: "'i list list"
    by (induction ks) simp_all
  moreover have "xs = concat ls" using drain [OF assms(1,2)] assms(3) by auto
  ultimately show ?thesis by simp
qed

text \<open>An item that is in the queue once is gone after it was removed: no later pop returns it.\<close>

lemma removed_not_popped:
  assumes a: "absr s ls" "unat p < length ls" and once: "count_list (concat ls) x = 1" "x \<in> set (ls ! unat p)"
    and r: "remove x p s = Some s'" and d: "pop_all pop n s' = Some (xs, s'')" "length (concat ls) \<le> n"
  shows "x \<notin> set xs"
proof -
  let ?i = "unat p"
  let ?ls = "ls[?i := remove1 x (ls ! ?i)]"
  have A: "absr s' ?ls" using remove_one [OF a] r by (metis option.inject)
  have dec: "ls = take ?i ls @ ls ! ?i # drop (Suc ?i) ls" "?ls = take ?i ls @ remove1 x (ls ! ?i) # drop (Suc ?i) ls"
    using a(2) by (rule id_take_nth_drop, rule upd_conv_take_nth_drop)
  have c: "concat ls = concat (take ?i ls) @ ls ! ?i @ concat (drop (Suc ?i) ls)" by (subst dec(1)) simp
  have c': "concat ?ls = concat (take ?i ls) @ remove1 x (ls ! ?i) @ concat (drop (Suc ?i) ls)" by (subst dec(2)) simp
  have "count_list (ls ! ?i) x > 0" using once(2) count_list_0_iff [of "ls ! ?i" x] by auto
  then have "count_list (concat (take ?i ls)) x = 0" "count_list (ls ! ?i) x = 1" "count_list (concat (drop (Suc ?i) ls)) x = 0"
    using once(1) unfolding c by simp_all
  then have "count_list (concat ?ls) x = 0" unfolding c' by (simp add: count_list_remove1)
  moreover have "length (concat ?ls) \<le> n" using d(2) unfolding c c' by (auto simp: length_remove1)
  ultimately show ?thesis using drain [OF A, of n] d(1) by (auto simp: count_list_0_iff)
qed

end

interpretation pq: run_queue pq_abs prioq_pop "\<lambda>x p s. if p < pq_nPrios s then prioq_remove x p s else None"
proof
  fix s :: "'a prioq" and ls x and p :: u16
  show "pq_abs s ls \<Longrightarrow> concat ls = [] \<Longrightarrow> \<exists>s'. prioq_pop s = Some (None, s') \<and> pq_abs s' ls"
    using prioq_pop_empty by blast
  show "pq_abs s ls \<Longrightarrow> concat ls \<noteq> [] \<Longrightarrow> \<exists>s'. prioq_pop s = Some (Some (hd (concat ls)), s') \<and> pq_abs s' (pop_first ls)"
    using prioq_pop_refines by blast
  assume a: "pq_abs s ls" and p: "unat p < length ls"
  then have "p < pq_nPrios s" by (auto simp: pq_abs_def pq_rep_def pq_rep0_def word_less_nat_alt)
  then show "\<exists>s'. (if p < pq_nPrios s then prioq_remove x p s else None) = Some s' \<and> pq_abs s' (ls[unat p := remove1 x (ls ! unat p)])"
    using prioq_remove_refines [OF a, of p x] by auto
qed

section \<open>Sequences of operations\<close>

datatype 'a pq_op = PqInsert 'a u16 u32 bool | PqPop | PqRemove 'a u16 | PqFind 'a

datatype 'a pq_res = PqError error_t | PqItem "'a option" | PqDone | PqFound bool

text \<open>The operations on the implementation; \<open>alloc\<close> is the node cache, which gives the address of a free
  node for the present store, and \<open>junk\<close> what that node held before.  The last argument of an insertion says whether the
  cache has a node to give.\<close>

fun pq_exec :: "('a qnode store \<Rightarrow> addr) \<Rightarrow> 'a qnode \<Rightarrow> 'a pq_op \<Rightarrow> 'a prioq \<Rightarrow> ('a pq_res \<times> 'a prioq) option" where
  "pq_exec alloc junk (PqInsert x p opt avail) s = do {
     (e, s') \<leftarrow> prioq_insert (if avail then Some (alloc (pq_store s), junk) else None) x p opt s; Some (PqError e, s') }"
| "pq_exec alloc junk PqPop s = do { (r, s') \<leftarrow> prioq_pop s; Some (PqItem r, s') }"
| "pq_exec alloc junk (PqRemove x p) s = do { s' \<leftarrow> prioq_remove x p s; Some (PqDone, s') }"
| "pq_exec alloc junk (PqFind x) s = do { b \<leftarrow> prioq_find x s; Some (PqFound b, s) }"

text \<open>The same operations on the contents, a list of items per priority.\<close>

fun pq_spec :: "'a pq_op \<Rightarrow> 'a list list \<Rightarrow> 'a pq_res \<times> 'a list list" where
  "pq_spec (PqInsert x p opt avail) ls =
     (if unat p \<ge> length ls then (PqError ERROR_INVALID_ARG_VAL, ls)
      else if \<not> avail then (PqError ERROR_MEMORY_NOMEM, ls)
      else (PqError ERROR_SUCCESS,
        ls[unat p := (if opt AND PRIOQUEUE_INSERT_FRONT \<noteq> 0 then x # ls ! unat p else ls ! unat p @ [x])]))"
| "pq_spec PqPop ls = (if concat ls = [] then (PqItem None, ls) else (PqItem (Some (hd (concat ls))), pop_first ls))"
| "pq_spec (PqRemove x p) ls = (PqDone, ls[unat p := remove1 x (ls ! unat p)])"
| "pq_spec (PqFind x) ls = (PqFound (x \<in> set (concat ls)), ls)"

fun pq_legal :: "u16 \<Rightarrow> 'a pq_op \<Rightarrow> bool" where
  "pq_legal n (PqRemove x p) = (p < n)"
| "pq_legal n op = True"

definition pq_related :: "u16 \<Rightarrow> nat \<Rightarrow> 'a prioq \<Rightarrow> 'a list list \<Rightarrow> bool" where
  "pq_related n k s ls \<longleftrightarrow> pq_abs s ls \<and> pq_nPrios s = n \<and> finite (dom (pq_store s)) \<and> length (concat ls) + k < 2 ^ 32"

lemma pq_abs_length: "pq_abs s ls \<Longrightarrow> length ls = unat (pq_nPrios s)"
  by (auto simp: pq_abs_def pq_rep_def pq_rep0_def)

lemma length_concat_update:
  "i < length ls \<Longrightarrow> length (concat (ls[i := l])) + length (ls ! i) = length (concat ls) + length l"
  by (induction ls arbitrary: i) (auto split: nat.split)

lemma length_nth_concat: "i < length ls \<Longrightarrow> length (ls ! i) \<le> length (concat ls)"
  by (induction ls arbitrary: i) (auto simp: nth_Cons trans_le_add2 split: nat.split)

lemma pq_step:
  assumes fresh: "\<And>h. finite (dom h) \<Longrightarrow> h (alloc h) = None" and rel: "pq_related n (Suc k) s ls" and ok: "pq_legal n op"
  shows "\<exists>s'. pq_exec alloc junk op s = Some (fst (pq_spec op ls), s') \<and> pq_related n k s' (snd (pq_spec op ls))"
proof -
  have abs: "pq_abs s ls" and n: "pq_nPrios s = n" and b: "length (concat ls) + Suc k < 2 ^ 32" and fin: "finite (dom (pq_store s))"
    using rel by (simp_all add: pq_related_def del: length_concat)
  have len: "length ls = unat n" using pq_abs_length [OF abs] n by simp
  show ?thesis
  proof (cases op)
    case (PqInsert x p opt avail)
    consider "p < n" "avail" | "p < n" "\<not> avail" | "\<not> p < n" by blast
    then show ?thesis
    proof cases
      case 1
      then have i: "unat p < length ls" using len by (simp add: word_less_nat_alt)
      let ?l = "if opt AND PRIOQUEUE_INSERT_FRONT \<noteq> 0 then x # ls ! unat p else ls ! unat p @ [x]"
      have "length (concat (ls[unat p := ?l])) = Suc (length (concat ls))" using length_concat_update [OF i, of ?l] by (simp del: length_concat split: if_splits)
      moreover have "Suc (length (ls ! unat p)) < 2 ^ 32" using length_nth_concat [OF i] b by simp
      ultimately show ?thesis using prioq_insert_refines [OF abs fresh [OF fin], where prio = p and junk = junk and itm = x and opt = opt] 1 n i b fin PqInsert
        by (auto simp: pq_related_def simp del: length_concat)
    next
      case 2
      then have "unat p < length ls" using len by (simp add: word_less_nat_alt)
      then show ?thesis using prioq_insert_fails(2) [OF abs, of p] 2 n PqInsert rel by (auto simp: pq_related_def simp del: length_concat)
    next
      case 3
      then have "unat p \<ge> length ls" using len by (simp add: word_less_nat_alt)
      then show ?thesis using prioq_insert_fails(1) [of s p] 3 n PqInsert rel by (auto simp: pq_related_def simp del: length_concat)
    qed
  next
    case PqPop
    show ?thesis
    proof (cases "concat ls = []")
      case True
      then show ?thesis using prioq_pop_empty [OF abs] abs n b fin PqPop by (simp add: pq_related_def)
    next
      case False
      obtain s' where "prioq_pop s = Some (Some (hd (concat ls)), s')" "pq_abs s' (pop_first ls)"
        "dom (pq_store s') \<subseteq> dom (pq_store s)" "pq_nPrios s' = n" using prioq_pop_refines [OF abs False] n by auto
      moreover have "finite (dom (pq_store s'))" using finite_subset [OF calculation(3) fin] .
      moreover have "length (concat (pop_first ls)) + k < 2 ^ 32" using b unfolding pop_first_concat by (simp del: length_concat)
      ultimately show ?thesis using False PqPop by (simp add: pq_related_def del: length_concat concat_eq_Nil_conv)
    qed
  next
    case (PqRemove x p)
    then have p: "p < n" using ok by simp
    then have i: "unat p < length ls" using len by (simp add: word_less_nat_alt)
    have "length (concat (ls[unat p := remove1 x (ls ! unat p)])) \<le> length (concat ls)"
      using length_concat_update [OF i, of "remove1 x (ls ! unat p)"] length_remove1 [of x "ls ! unat p"] by (simp del: length_concat split: if_splits)
    moreover obtain s' where "prioq_remove x p s = Some s'" "pq_abs s' (ls[unat p := remove1 x (ls ! unat p)])"
      "dom (pq_store s') \<subseteq> dom (pq_store s)" "pq_nPrios s' = n" using prioq_remove_refines [OF abs, of p x] p n by auto
    moreover have "finite (dom (pq_store s'))" using finite_subset [OF calculation(4) fin] .
    ultimately show ?thesis using b PqRemove by (simp add: pq_related_def del: length_concat)
  next
    case (PqFind x)
    then show ?thesis using prioq_find_refines [OF abs, of x] rel by (auto simp: pq_related_def simp del: length_concat)
  qed
qed

text \<open>\<open>remove\<close> does not check the priority, and leaves the array of queues when there is none of that number.\<close>

lemma pq_stuck:
  assumes "pq_related n (Suc k) s ls" "\<not> pq_legal n op"
  shows "pq_exec alloc junk op s = None"
proof -
  obtain x p where op: "op = PqRemove x p" "\<not> p < n" using assms(2) by (cases op) auto
  have "length (pq_queues s) = unat n" using assms(1) by (auto simp: pq_related_def pq_abs_def pq_rep_def pq_rep0_def)
  then show ?thesis using op by (simp add: prioq_remove_def arr_get_def word_less_nat_alt)
qed

interpretation pqs: exact_simulation "pq_exec alloc junk" pq_spec
    "\<lambda>k s ls. (\<forall>h. finite (dom h) \<longrightarrow> h (alloc h) = None) \<and> pq_related n k s ls" "pq_legal n" for alloc junk n
  by unfold_locales (use pq_step pq_stuck in blast)+

section \<open>Properties\<close>

text \<open>C1: a run queue of fewer than 2 to the 15 priorities, set up by the constructor and \<open>initialize\<close>, under any sequence of fewer than 2 to the 32
  insertions (with or without memory for a node), pops, removals and searches.  If every removal names a priority that exists, no step faults
  (no null or stale node is followed, no lock is taken twice), every result is that of the list of lists of items, an insertion without memory or
  with a priority that does not exist reports its error and changes nothing, and the contents at the end are the specified contents.
  Otherwise the sequence faults, because \<open>remove\<close> does not check the priority.\<close>

theorem prioq_trace_refines:
  assumes "n < 2 ^ 15" "length ops < 2 ^ 32" "\<And>h. finite (dom h) \<Longrightarrow> h (alloc h) = None"
  shows "if list_all (pq_legal n) ops
    then \<exists>s. run_ops (pq_exec alloc junk) ops (snd (prioq_initialize True True (prioq_new n))) =
        Some (fst (run_spec pq_spec ops (replicate (unat n) [])), s) \<and>
      pq_abs s (snd (run_spec pq_spec ops (replicate (unat n) [])))
    else run_ops (pq_exec alloc junk) ops (snd (prioq_initialize True True (prioq_new n))) = None"
proof -
  have "pq_related n (length ops + 0) (snd (prioq_initialize True True (prioq_new n))) (replicate (unat n) [])"
    using prioq_initialize_abs [OF assms(1)] assms(2)
    by (simp add: pq_related_def prioq_initialize_def prioq_new_def concat_replicate_trivial del: length_concat)
  then have rel: "(\<forall>h. finite (dom h) \<longrightarrow> h (alloc h) = None) \<and> pq_related n (length ops + 0) (snd (prioq_initialize True True (prioq_new n))) (replicate (unat n) [])"
    using assms(3) by blast
  show ?thesis
  proof (cases "list_all (pq_legal n) ops")
    case True
    with pqs.run [OF rel True] show ?thesis by (auto simp: pq_related_def)
  next
    case False
    with pqs.run_stuck [OF rel False] show ?thesis by simp
  qed
qed

definition fresh_node :: "'a store \<Rightarrow> addr" where
  "fresh_node h = Suc (Max (insert 0 (dom h)))"

lemma fresh_node: "finite (dom h) \<Longrightarrow> h (fresh_node h) = None"
proof (rule ccontr)
  assume f: "finite (dom h)" and "h (fresh_node h) \<noteq> None"
  then have "fresh_node h \<in> insert 0 (dom h)" by auto
  then have "fresh_node h \<le> Max (insert 0 (dom h))" using f by (intro Max_ge) auto
  then show False by (simp add: fresh_node_def)
qed

lemma replicate_2: "replicate 2 x = [x, x]" by (simp add: numeral_2_eq_2)

lemma replicate_3: "replicate 3 x = [x, x, x]" by (simp add: numeral_3_eq_3)

lemma prioq_trace_refines_witness:
  "(\<exists>s. run_ops (pq_exec fresh_node \<lparr>qn_item = 0, qn_next = None\<rparr>)
      [PqInsert (7::nat) 2 0 True, PqInsert 8 1 0 True, PqInsert 5 0 0 False, PqInsert 9 1 PRIOQUEUE_INSERT_FRONT True, PqInsert 6 3 0 True,
       PqPop, PqRemove 8 1, PqFind 8, PqPop, PqPop]
      (snd (prioq_initialize True True (prioq_new 3))) =
    Some ([PqError ERROR_SUCCESS, PqError ERROR_SUCCESS, PqError ERROR_MEMORY_NOMEM, PqError ERROR_SUCCESS, PqError ERROR_INVALID_ARG_VAL,
      PqItem (Some 9), PqDone, PqFound False, PqItem (Some 7), PqItem None], s) \<and> pq_abs s [[], [], []]) \<and>
   run_ops (pq_exec fresh_node \<lparr>qn_item = 0, qn_next = None\<rparr>) [PqInsert (7::nat) 2 0 True, PqRemove 7 3] (snd (prioq_initialize True True (prioq_new 3))) = None"
  using prioq_trace_refines [of 3 "[PqInsert (7::nat) 2 0 True, PqInsert 8 1 0 True, PqInsert 5 0 0 False, PqInsert 9 1 PRIOQUEUE_INSERT_FRONT True,
      PqInsert 6 3 0 True, PqPop, PqRemove 8 1, PqFind 8, PqPop, PqPop]" fresh_node "\<lparr>qn_item = 0, qn_next = None\<rparr>"]
    prioq_trace_refines [of 3 "[PqInsert (7::nat) 2 0 True, PqRemove 7 3]" fresh_node "\<lparr>qn_item = 0, qn_next = None\<rparr>"] replicate_3 [of "[] :: nat list"]
  by (simp add: PRIOQUEUE_INSERT_FRONT_def fresh_node)

text \<open>C2: popping a run queue until it is empty returns the items of the lowest-numbered priority first, those of one
  priority in queue order, every item once, and leaves the queue empty.\<close>

theorem prioq_drain_order:
  assumes "pq_abs s ls" "length (concat ls) \<le> k"
  shows "\<exists>s' ls'. pop_all prioq_pop k s = Some (concat ls, s') \<and> pq_abs s' ls' \<and> concat ls' = []"
  using pq.drain [OF assms] .

lemma prioq_drain_order_witness:
  "\<exists>s' ls'. pop_all prioq_pop 2 (snd (the (prioq_insert (Some (5, \<lparr>qn_item = 0, qn_next = None\<rparr>)) (7::nat) 1 0
      (snd (prioq_initialize True True (prioq_new 2)))))) = Some ([7], s') \<and> pq_abs s' ls' \<and> concat ls' = []"
proof -
  have a: "pq_abs (snd (prioq_initialize True True (prioq_new 2))) [[], [] :: nat list]"
    using prioq_initialize_abs [of 2, where 'a = nat] by (simp add: replicate_2)
  obtain s where s: "prioq_insert (Some (5, \<lparr>qn_item = 0, qn_next = None\<rparr>)) (7::nat) 1 0 (snd (prioq_initialize True True (prioq_new 2))) =
      Some (ERROR_SUCCESS, s)" "pq_abs s [[], [7]]"
    using prioq_insert_refines [OF a, where a = 5 and prio = 1 and opt = 0 and itm = 7 and junk = "\<lparr>qn_item = 0, qn_next = None\<rparr>"]
    by (auto simp: prioq_initialize_def prioq_new_def)
  show ?thesis using prioq_drain_order [OF s(2), of 2] s(1) by simp
qed

end
