(* ===== verification/Scheduler.thy ===== *)
theory Scheduler
  imports PrioQueue KBitmap
begin

text \<open>
  The scheduler: \<open>Thread\<close> (\<open>include/kernel/common/thread.h\<close>, \<open>thread.cpp\<close>), the run queues of one CPU
  (\<open>TaskStream\<close>, \<open>taskTrib/taskStream.cpp\<close>), the bank of CPUs (\<open>NumaCpuBank\<close>, \<open>numaCpuBank.cpp\<close>) and the
  tributary all clients call (\<open>TaskTrib\<close>, \<open>taskTrib/taskTrib.cpp\<close>), in the NUMA configuration.

  One state record holds what these objects share: the threads by address, the CPU trace bitmap of each
  process, the task stream of each CPU, the load and capacity of banks and tributary, and the bitmap of CPUs that
  are online.  The arguments \<open>dbg\<close> (\<open>CONFIG_DEBUG_SCHEDULER\<close>), \<open>alloc\<close> (the node cache of the run queues: a free
  node for the present store, or failure) and \<open>bmem\<close> (\<open>new\<close> for the elements of a bitmap of a given size) stand for
  the build and the allocators.  A context switch is the change of the current thread of a CPU; register
  contexts and translation look-aside buffers are not part of the state.
\<close>

section \<open>State\<close>

datatype schedState = INVALID | UNSCHEDULED | DORMANT | RUNNABLE | RUNNING | BLOCKED | SHUTTING_DOWN | ZOMBIE

datatype schedPolicy = POLICY_INVALID | ROUND_ROBIN | REAL_TIME

record thread =
  th_id :: u32
  th_parent :: addr
  th_schedState :: schedState
  th_schedPolicy :: schedPolicy
  th_schedOptions :: u8
  th_schedFlags :: u8
  th_flags :: u32           \<comment> \<open>\<open>Stream<Thread>::flags\<close>, inherited by \<open>_Task\<close>\<close>
  th_streamFlags :: u32     \<comment> \<open>\<open>Stream<ProcessStream>::flags\<close>, inherited by \<open>Thread\<close>\<close>
  th_schedPrio :: u16       \<comment> \<open>\<open>schedPrio->prio\<close>\<close>
  th_internalPrio :: u16    \<comment> \<open>\<open>internalPrio.prio\<close>\<close>
  th_currentCpu :: "u32 option"
  th_cpuAffinity :: bmap

record taskstream =
  ts_bankId :: u32
  ts_load :: u32
  ts_capacity :: u32
  ts_currentThread :: addr
  ts_roundRobinQ :: "addr prioq"
  ts_realTimeQ :: "addr prioq"

record loadinfo =
  li_load :: u32
  li_capacity :: u32

record sched =
  sc_threads :: "addr \<Rightarrow> thread option"
  sc_cpuTrace :: "addr \<Rightarrow> bmap option"
  sc_cpus :: "u32 \<Rightarrow> taskstream option"
  sc_banks :: "u32 \<Rightarrow> loadinfo option"
  sc_taskTrib :: loadinfo
  sc_onlineCpus :: bmap

type_synonym node_alloc = "addr qnode store \<Rightarrow> addr qnode mem"
type_synonym bmp_alloc = "u32 \<Rightarrow> u32 list option"

definition SCHEDPRIO_MAX_NPRIOS :: u16 where "SCHEDPRIO_MAX_NPRIOS = 20"
definition TASK_FLAGS_CUSTPRIO :: u32 where "TASK_FLAGS_CUSTPRIO = 1"
definition TASK_SCHEDFLAGS_SCHED_WAITING :: u8 where "TASK_SCHEDFLAGS_SCHED_WAITING = 1"
definition UPDATE_ADD :: u8 where "UPDATE_ADD = 1"
definition UPDATE_SUBTRACT :: u8 where "UPDATE_SUBTRACT = 2"
definition UPDATE_SET :: u8 where "UPDATE_SET = 3"

definition prioClasses :: "u16 list" where "prioClasses = [0, 4, 8, 12, 16]"

definition PROCID_PROCESS :: "u32 \<Rightarrow> u32" where "PROCID_PROCESS i = drop_bit 16 i AND 0xFFFF"

definition isPowerThread :: "u32 \<Rightarrow> bool" where
  "isPowerThread tid \<longleftrightarrow> tid = - 1 \<or> PROCID_PROCESS tid = PROCID_PROCESS 0"

definition thread_upd :: "addr \<Rightarrow> (thread \<Rightarrow> thread) \<Rightarrow> sched \<Rightarrow> sched option" where
  "thread_upd t f s = do { h \<leftarrow> store_upd (sc_threads s) (Some t) f; Some (s\<lparr>sc_threads := h\<rparr>) }"

definition ts_put :: "u32 \<Rightarrow> taskstream \<Rightarrow> sched \<Rightarrow> sched" where
  "ts_put c ts s = s\<lparr>sc_cpus := (sc_cpus s)(c \<mapsto> ts)\<rparr>"

section \<open>Scheduling attributes of a new thread (\<open>thread.cpp\<close>)\<close>

text \<open>
  \<open>inheritSchedPolicy\<close> and \<open>inheritSchedPrio\<close>; \<open>spawner\<close> is the current thread of the calling CPU.  A thread has two
  base classes with a member \<open>flags\<close>: the mark of a custom priority is set in the one of \<open>_Task\<close> and looked for in
  the one \<open>Thread\<close> has from \<open>Stream<ProcessStream>\<close>, which nothing sets.
\<close>

definition inheritSchedPolicy :: "schedPolicy \<Rightarrow> thread \<Rightarrow> thread \<Rightarrow> thread" where
  "inheritSchedPolicy pol spawner th =
     (if pol \<noteq> POLICY_INVALID then th\<lparr>th_schedPolicy := pol\<rparr>
      else th\<lparr>th_schedPolicy := th_schedPolicy spawner\<rparr>)"

definition inheritSchedPrio :: "u16 \<Rightarrow> u32 \<Rightarrow> thread \<Rightarrow> thread \<Rightarrow> thread" where
  "inheritSchedPrio prio flags spawner th =
     (if flags AND 0x40 \<noteq> 0 then
        th\<lparr>th_flags := th_flags th OR TASK_FLAGS_CUSTPRIO, th_internalPrio := prio, th_schedPrio := prio\<rparr>
      else if flags AND 0x80 \<noteq> 0 then
        (if th_streamFlags spawner AND TASK_FLAGS_CUSTPRIO \<noteq> 0 then
           th\<lparr>th_flags := th_flags th OR TASK_FLAGS_CUSTPRIO, th_internalPrio := th_internalPrio spawner,
              th_schedPrio := th_internalPrio spawner\<rparr>
         else th\<lparr>th_schedPrio := th_schedPrio spawner\<rparr>)
      else if flags AND 0x20 \<noteq> 0 \<and> unat prio < 5 then th\<lparr>th_schedPrio := prioClasses ! unat prio\<rparr>
      else th\<lparr>th_schedPrio := prioClasses ! 2\<rparr>)"

text \<open>The constructors of \<open>_Task\<close>, \<open>_TaskContext\<close> and \<open>Thread\<close>; \<open>PRIOCLASS_DEFAULT\<close> is 2.\<close>

definition thread_new :: "u32 \<Rightarrow> addr \<Rightarrow> thread" where
  "thread_new i parent = \<lparr>th_id = i, th_parent = parent, th_schedState = UNSCHEDULED, th_schedPolicy = ROUND_ROBIN, th_schedOptions = 0,
     th_schedFlags = 0, th_flags = 0, th_streamFlags = 0, th_schedPrio = 2, th_internalPrio = 2, th_currentCpu = None, th_cpuAffinity = bmap_init\<rparr>"

lemma custprio_not_recognised:
  "th_streamFlags (inheritSchedPrio prio flags spawner (thread_new i parent)) = 0"
  "th_streamFlags spawner = 0 \<Longrightarrow> flags AND 0x40 = 0 \<Longrightarrow> flags AND 0x80 \<noteq> 0 \<Longrightarrow>
     inheritSchedPrio prio flags spawner th = th\<lparr>th_schedPrio := th_schedPrio spawner\<rparr>"
  by (simp_all add: inheritSchedPrio_def thread_new_def)

definition PROCID_THREAD :: "u32 \<Rightarrow> u32" where "PROCID_THREAD i = i AND 0xFFFF"

definition resizeAndMergeBitmaps :: "u32 list option \<Rightarrow> bmap \<Rightarrow> bmap \<Rightarrow> (error_t \<times> bmap) option" where
  "resizeAndMergeBitmaps mem dest src = do {
     (ret, dest) \<leftarrow> bmap_resizeTo (b_nBits src) mem dest;
     if ret \<noteq> ERROR_SUCCESS then Some (ret, dest)
     else do { dest \<leftarrow> bmap_merge src dest; Some (ERROR_SUCCESS, dest) }
   }"

text \<open>\<open>inheritAffinity\<close>: \<open>given\<close> is the bitmap the caller passed (or NULL), \<open>process\<close> and \<open>spawner\<close> the affinities of the process and of
  the thread that spawns.\<close>

definition inheritAffinity :: "bmp_alloc \<Rightarrow> bmap option \<Rightarrow> u32 \<Rightarrow> bmap \<Rightarrow> bmap \<Rightarrow> thread \<Rightarrow> (error_t \<times> thread) option" where
  "inheritAffinity bmem given flags process spawner th =
     (if isPowerThread (th_id th) then do {
        (ret, b) \<leftarrow> bmap_initialize (PROCID_THREAD (th_id th) + 1) None (bmem (PROCID_THREAD (th_id th) + 1)) (th_cpuAffinity th);
        if ret \<noteq> ERROR_SUCCESS then Some (ret, th\<lparr>th_cpuAffinity := b\<rparr>)
        else do {
          b \<leftarrow> bmap_setSingle (PROCID_THREAD (th_id th)) b;
          Some (ERROR_SUCCESS, th\<lparr>th_cpuAffinity := b\<rparr>)
        }
      }
      else do {
        let src = (case given of None \<Rightarrow> if flags AND 2 \<noteq> 0 then process else spawner | Some b \<Rightarrow> b);
        (ret, b) \<leftarrow> resizeAndMergeBitmaps (bmem (b_nBits src)) (th_cpuAffinity th) src;
        Some (ret, th\<lparr>th_cpuAffinity := b\<rparr>)
      })"

text \<open>\<open>shouldPreemptCurrentThreadOn\<close>: \<open>th\<close> against the current thread of a CPU.\<close>

definition shouldPreemptCurrentThreadOn :: "thread \<Rightarrow> u32 \<Rightarrow> sched \<Rightarrow> bool option" where
  "shouldPreemptCurrentThreadOn th c s = do {
     ts \<leftarrow> sc_cpus s c;
     otherThread \<leftarrow> sc_threads s (ts_currentThread ts);
     if th_schedPrio th > th_schedPrio otherThread then
       Some (\<not> (th_schedPolicy otherThread = REAL_TIME \<and> th_schedPolicy th = ROUND_ROBIN))
     else Some False
   }"

section \<open>Load and capacity\<close>

text \<open>The \<open>switch\<close> all the update functions share; \<open>None\<close> is its default branch.\<close>

definition update_val :: "u8 \<Rightarrow> u32 \<Rightarrow> u32 \<Rightarrow> u32 option" where
  "update_val action val old =
     (if action = UPDATE_ADD then Some (old + val)
      else if action = UPDATE_SUBTRACT then Some (old - val)
      else if action = UPDATE_SET then Some val
      else None)"

definition tt_updateCapacity :: "u8 \<Rightarrow> u32 \<Rightarrow> sched \<Rightarrow> sched" where
  "tt_updateCapacity action val s =
     (case update_val action val (li_capacity (sc_taskTrib s)) of None \<Rightarrow> s
      | Some v \<Rightarrow> s\<lparr>sc_taskTrib := (sc_taskTrib s)\<lparr>li_capacity := v\<rparr>\<rparr>)"

definition tt_updateLoad :: "u8 \<Rightarrow> u32 \<Rightarrow> sched \<Rightarrow> sched" where
  "tt_updateLoad action val s =
     (case update_val action val (li_load (sc_taskTrib s)) of None \<Rightarrow> s
      | Some v \<Rightarrow> s\<lparr>sc_taskTrib := (sc_taskTrib s)\<lparr>li_load := v\<rparr>\<rparr>)"

text \<open>Every branch of the \<open>switch\<close> of a bank returns, the call of the tributary behind it is never reached.\<close>

definition ncb_updateCapacity :: "u32 \<Rightarrow> u8 \<Rightarrow> u32 \<Rightarrow> sched \<Rightarrow> sched" where
  "ncb_updateCapacity b action val s =
     (case sc_banks s b of None \<Rightarrow> s
      | Some li \<Rightarrow> (case update_val action val (li_capacity li) of None \<Rightarrow> s
          | Some v \<Rightarrow> s\<lparr>sc_banks := (sc_banks s)(b \<mapsto> li\<lparr>li_capacity := v\<rparr>)\<rparr>))"

definition ncb_updateLoad :: "u32 \<Rightarrow> u8 \<Rightarrow> u32 \<Rightarrow> sched \<Rightarrow> sched" where
  "ncb_updateLoad b action val s =
     (case sc_banks s b of None \<Rightarrow> s
      | Some li \<Rightarrow> (case update_val action val (li_load li) of None \<Rightarrow> s
          | Some v \<Rightarrow> s\<lparr>sc_banks := (sc_banks s)(b \<mapsto> li\<lparr>li_load := v\<rparr>)\<rparr>))"

definition ts_updateCapacity :: "u32 \<Rightarrow> u8 \<Rightarrow> u32 \<Rightarrow> sched \<Rightarrow> sched option" where
  "ts_updateCapacity c action val s = do {
     ts \<leftarrow> sc_cpus s c;
     case update_val action val (ts_capacity ts) of
       None \<Rightarrow> Some s
     | Some v \<Rightarrow> Some (ncb_updateCapacity (ts_bankId ts) action val (ts_put c (ts\<lparr>ts_capacity := v\<rparr>) s))
   }"

definition ts_updateLoad :: "u32 \<Rightarrow> u8 \<Rightarrow> u32 \<Rightarrow> sched \<Rightarrow> sched option" where
  "ts_updateLoad c action val s = do {
     ts \<leftarrow> sc_cpus s c;
     case update_val action val (ts_load ts) of
       None \<Rightarrow> Some s
     | Some v \<Rightarrow> Some (ncb_updateLoad (ts_bankId ts) action val (ts_put c (ts\<lparr>ts_load := v\<rparr>) s))
   }"

section \<open>The run queues of one CPU (\<open>taskStream.cpp\<close>)\<close>

definition ts_new :: "u32 \<Rightarrow> addr \<Rightarrow> taskstream" where
  "ts_new bank powerThread = \<lparr>ts_bankId = bank, ts_load = 0, ts_capacity = 0, ts_currentThread = powerThread,
     ts_roundRobinQ = prioq_new SCHEDPRIO_MAX_NPRIOS, ts_realTimeQ = prioq_new SCHEDPRIO_MAX_NPRIOS\<rparr>"

text \<open>\<open>initialize\<close>; \<open>rt\<close> and \<open>rr\<close> say which allocations of the two queues succeed, \<open>pwr\<close> what the initialisation of the
  power thread answers.\<close>

definition ts_initialize :: "(bool \<times> bool) \<Rightarrow> (bool \<times> bool) \<Rightarrow> error_t \<Rightarrow> taskstream \<Rightarrow> error_t \<times> taskstream" where
  "ts_initialize rt rr pwr ts =
     (let (ret, q) = prioq_initialize (fst rt) (snd rt) (ts_realTimeQ ts); ts = ts\<lparr>ts_realTimeQ := q\<rparr> in
      if ret \<noteq> ERROR_SUCCESS then (ret, ts)
      else let (ret, q) = prioq_initialize (fst rr) (snd rr) (ts_roundRobinQ ts); ts = ts\<lparr>ts_roundRobinQ := q\<rparr> in
      if ret \<noteq> ERROR_SUCCESS then (ret, ts)
      else if pwr \<noteq> ERROR_SUCCESS then (pwr, ts)
      else (ERROR_SUCCESS, ts))"

text \<open>The \<open>switch\<close> over the policy that inserts a thread into a queue of CPU \<open>c\<close>, and the one that removes it.  \<open>e\<close> is what the
  default branch returns.\<close>

definition ts_insertByPolicy :: "node_alloc \<Rightarrow> error_t \<Rightarrow> u32 \<Rightarrow> addr \<Rightarrow> sched \<Rightarrow> (error_t \<times> sched) option" where
  "ts_insertByPolicy alloc e c t s = do {
     th \<leftarrow> sc_threads s t;
     ts \<leftarrow> sc_cpus s c;
     case th_schedPolicy th of
       ROUND_ROBIN \<Rightarrow> do {
         (ret, q) \<leftarrow> prioq_insert (alloc (pq_store (ts_roundRobinQ ts))) t (th_schedPrio th) (ucast (th_schedOptions th)) (ts_roundRobinQ ts);
         Some (ret, ts_put c (ts\<lparr>ts_roundRobinQ := q\<rparr>) s) }
     | REAL_TIME \<Rightarrow> do {
         (ret, q) \<leftarrow> prioq_insert (alloc (pq_store (ts_realTimeQ ts))) t (th_schedPrio th) (ucast (th_schedOptions th)) (ts_realTimeQ ts);
         Some (ret, ts_put c (ts\<lparr>ts_realTimeQ := q\<rparr>) s) }
     | POLICY_INVALID \<Rightarrow> Some (e, s)
   }"

definition ts_removeByPolicy :: "u32 \<Rightarrow> addr \<Rightarrow> sched \<Rightarrow> sched option" where
  "ts_removeByPolicy c t s = do {
     th \<leftarrow> sc_threads s t;
     ts \<leftarrow> sc_cpus s c;
     case th_schedPolicy th of
       ROUND_ROBIN \<Rightarrow> do { q \<leftarrow> prioq_remove t (th_schedPrio th) (ts_roundRobinQ ts); Some (ts_put c (ts\<lparr>ts_roundRobinQ := q\<rparr>) s) }
     | REAL_TIME \<Rightarrow> do { q \<leftarrow> prioq_remove t (th_schedPrio th) (ts_realTimeQ ts); Some (ts_put c (ts\<lparr>ts_realTimeQ := q\<rparr>) s) }
     | POLICY_INVALID \<Rightarrow> Some s
   }"

text \<open>The check of the debug build that a thread is in no queue yet.\<close>

definition ts_checkNotQueued :: "bool \<Rightarrow> u32 \<Rightarrow> addr \<Rightarrow> sched \<Rightarrow> unit option" where
  "ts_checkNotQueued dbg c t s =
     (if dbg then do {
        ts \<leftarrow> sc_cpus s c;
        b1 \<leftarrow> prioq_find t (ts_roundRobinQ ts);
        b2 \<leftarrow> (if b1 then Some True else prioq_find t (ts_realTimeQ ts));
        assert_fatal (\<not> b2)
      } else Some ())"

definition ts_schedule :: "bool \<Rightarrow> node_alloc \<Rightarrow> bmp_alloc \<Rightarrow> u32 \<Rightarrow> addr \<Rightarrow> sched \<Rightarrow> (error_t \<times> sched) option" where
  "ts_schedule dbg alloc bmem c t s = do {
     th \<leftarrow> sc_threads s t;
     trace \<leftarrow> sc_cpuTrace s (th_parent th);
     (ret, trace) \<leftarrow> bmap_resizeTo (c + 1) (bmem (c + 1)) trace;
     let s = s\<lparr>sc_cpuTrace := (sc_cpuTrace s)(th_parent th \<mapsto> trace)\<rparr>;
     if ret \<noteq> ERROR_SUCCESS then Some (ret, s)
     else do {
       u \<leftarrow> ts_checkNotQueued dbg c t s;
       s \<leftarrow> thread_upd t (\<lambda>th. th\<lparr>th_schedState := RUNNABLE, th_currentCpu := Some c\<rparr>) s;
       (ret, s) \<leftarrow> ts_insertByPolicy alloc ERROR_INVALID_ARG_VAL c t s;
       if ret \<noteq> ERROR_SUCCESS then Some (ret, s)
       else do {
         trace \<leftarrow> bmap_setSingle c trace;
         s \<leftarrow> ts_updateLoad c UPDATE_ADD 1 (s\<lparr>sc_cpuTrace := (sc_cpuTrace s)(th_parent th \<mapsto> trace)\<rparr>);
         Some (ret, s)
       }
     }
   }"

text \<open>\<open>pullFromQ\<close>: the loop puts a thread the scheduler waits for back and pops again, so it need not end.\<close>

partial_function (option) ts_pullFromQ ::
  "bool \<Rightarrow> node_alloc \<Rightarrow> bmp_alloc \<Rightarrow> string \<Rightarrow> u32 \<Rightarrow> sched \<Rightarrow> (addr option \<times> sched) option" where
  "ts_pullFromQ dbg alloc bmem which c s =
     (if which \<noteq> ''realtime'' \<and> which \<noteq> ''roundrobin'' then Some (None, s)
      else do {
        ts \<leftarrow> sc_cpus s c;
        (ret, q) \<leftarrow> prioq_pop (if which = ''roundrobin'' then ts_roundRobinQ ts else ts_realTimeQ ts);
        let s = ts_put c (if which = ''roundrobin'' then ts\<lparr>ts_roundRobinQ := q\<rparr> else ts\<lparr>ts_realTimeQ := q\<rparr>) s;
        case ret of
          None \<Rightarrow> Some (None, s)
        | Some t \<Rightarrow> do {
            th \<leftarrow> sc_threads s t;
            if th_schedFlags th AND TASK_SCHEDFLAGS_SCHED_WAITING \<noteq> 0 then do {
              (status, s) \<leftarrow> ts_schedule dbg alloc bmem c t s;
              ts_pullFromQ dbg alloc bmem which c s
            }
            else Some (Some t, s)
          }
      })"

text \<open>\<open>pull\<close>: one round of its loop.  \<open>True\<close>: a thread was found and is the current thread now.  \<open>False\<close>: both queues are empty and the
  CPU halts until an interrupt, after which it starts over.\<close>

definition ts_pull :: "bool \<Rightarrow> node_alloc \<Rightarrow> bmp_alloc \<Rightarrow> u32 \<Rightarrow> sched \<Rightarrow> (bool \<times> sched) option" where
  "ts_pull dbg alloc bmem c s = do {
     (r, s) \<leftarrow> ts_pullFromQ dbg alloc bmem ''realtime'' c s;
     (r, s) \<leftarrow> (case r of Some t \<Rightarrow> Some (Some t, s) | None \<Rightarrow> ts_pullFromQ dbg alloc bmem ''roundrobin'' c s);
     case r of
       None \<Rightarrow> Some (False, s)
     | Some t \<Rightarrow> do {
         s \<leftarrow> thread_upd t (\<lambda>th. th\<lparr>th_schedState := RUNNING\<rparr>) s;
         ts \<leftarrow> sc_cpus s c;
         Some (True, ts_put c (ts\<lparr>ts_currentThread := t\<rparr>) s)
       }
   }"

definition ts_dormant :: "u32 \<Rightarrow> addr \<Rightarrow> sched \<Rightarrow> sched option" where
  "ts_dormant c t s = do {
     s \<leftarrow> thread_upd t (\<lambda>th. th\<lparr>th_schedState := DORMANT\<rparr>) s;
     ts_removeByPolicy c t s
   }"

definition ts_block :: "u32 \<Rightarrow> addr \<Rightarrow> sched \<Rightarrow> sched option" where
  "ts_block c t s = do {
     s \<leftarrow> thread_upd t (\<lambda>th. th\<lparr>th_schedState := BLOCKED\<rparr>) s;
     ts_removeByPolicy c t s
   }"

definition ts_unblock :: "node_alloc \<Rightarrow> u32 \<Rightarrow> addr \<Rightarrow> sched \<Rightarrow> (error_t \<times> sched) option" where
  "ts_unblock alloc c t s = do {
     s \<leftarrow> thread_upd t (\<lambda>th. th\<lparr>th_schedState := RUNNABLE\<rparr>) s;
     ts_insertByPolicy alloc ERROR_UNSUPPORTED c t s
   }"

text \<open>\<open>yield\<close> drops what the insertion answers.\<close>

definition ts_yield :: "node_alloc \<Rightarrow> u32 \<Rightarrow> addr \<Rightarrow> sched \<Rightarrow> sched option" where
  "ts_yield alloc c t s = do {
     s \<leftarrow> thread_upd t (\<lambda>th. th\<lparr>th_schedState := RUNNABLE\<rparr>) s;
     (ret, s) \<leftarrow> ts_insertByPolicy alloc ERROR_SUCCESS c t s;
     Some s
   }"

definition ts_wake :: "bool \<Rightarrow> node_alloc \<Rightarrow> u32 \<Rightarrow> addr \<Rightarrow> sched \<Rightarrow> (error_t \<times> sched) option" where
  "ts_wake dbg alloc c t s = do {
     th \<leftarrow> sc_threads s t;
     if th_schedState th = RUNNABLE \<or> th_schedState th = RUNNING then Some (ERROR_SUCCESS, s)
     else if th_schedState th = BLOCKED \<or> th_schedState th = SHUTTING_DOWN \<or> th_schedState th = ZOMBIE then do {
       u \<leftarrow> assert_fatal (\<not> dbg);
       Some (ERROR_UNSUPPORTED, s)
     }
     else do {
       s \<leftarrow> thread_upd t (\<lambda>th. th\<lparr>th_schedState := RUNNABLE\<rparr>) s;
       ts_insertByPolicy alloc ERROR_CRITICAL c t s
     }
   }"

section \<open>The bank and the tributary\<close>

text \<open>\<open>getStream\<close>: the CPU stream with an id, or NULL.\<close>

definition getStream :: "u32 \<Rightarrow> sched \<Rightarrow> u32 option" where
  "getStream i s = (if sc_cpus s i = None then None else Some i)"

definition getLoad :: "u32 option \<Rightarrow> sched \<Rightarrow> u32 option" where
  "getLoad p s = do { c \<leftarrow> p; ts \<leftarrow> sc_cpus s c; Some (ts_load ts) }"

definition tt_candidate :: "bmap \<Rightarrow> sched \<Rightarrow> u32 \<Rightarrow> u32 option \<Rightarrow> u32 option option" where
  "tt_candidate aff s i best = do {
     (a, aff') \<leftarrow> bmap_testSingle i aff;
     (b, on') \<leftarrow> (if a then bmap_testSingle i (sc_onlineCpus s) else Some (False, sc_onlineCpus s));
     if a \<and> b then
       (let cs = getStream i s in
        if best = None then Some cs
        else do {
          l \<leftarrow> getLoad cs s;
          lb \<leftarrow> getLoad best s;
          Some (if l < lb then cs else best)
        })
     else Some best
   }"

definition tt_schedule :: "bool \<Rightarrow> node_alloc \<Rightarrow> bmp_alloc \<Rightarrow> addr \<Rightarrow> sched \<Rightarrow> (error_t \<times> sched) option" where
  "tt_schedule dbg alloc bmem t s = do {
     th \<leftarrow> sc_threads s t;
     best \<leftarrow> word_for 0 (b_nBits (th_cpuAffinity th)) (tt_candidate (th_cpuAffinity th) s) None;
     case best of
       None \<Rightarrow> Some (ERROR_UNKNOWN, s)
     | Some c \<Rightarrow> ts_schedule dbg alloc bmem c t s
   }"

definition ncb_candidate :: "bmap \<Rightarrow> sched \<Rightarrow> u32 \<Rightarrow> u32 option \<times> u32 \<Rightarrow> (u32 option \<times> u32) option" where
  "ncb_candidate aff s i = (\<lambda>(best, lowestLoad). do {
     (a, aff') \<leftarrow> bmap_testSingle i aff;
     if a then
       (case getStream i s of
          None \<Rightarrow> Some (best, lowestLoad)
        | Some c \<Rightarrow> do {
            l \<leftarrow> getLoad (Some c) s;
            Some (if l < lowestLoad then (Some c, l) else (best, lowestLoad))
          })
     else Some (best, lowestLoad)
   })"

definition ncb_schedule :: "bool \<Rightarrow> node_alloc \<Rightarrow> bmp_alloc \<Rightarrow> addr \<Rightarrow> sched \<Rightarrow> (error_t \<times> sched) option" where
  "ncb_schedule dbg alloc bmem t s = do {
     th \<leftarrow> sc_threads s t;
     (best, l) \<leftarrow> word_for 0 (b_nBits (th_cpuAffinity th)) (ncb_candidate (th_cpuAffinity th) s) (None, 0xFFFFFFFF);
     case best of
       None \<Rightarrow> Some (ERROR_UNKNOWN, s)
     | Some c \<Rightarrow> ts_schedule dbg alloc bmem c t s
   }"

text \<open>\<open>me\<close> is the CPU that executes the call.  The debug build asserts that its current thread is running, or is a power thread
  that was not scheduled yet.  A call that switches the thread returns to its caller when that thread is pulled again; the model
  gives the state after the switch.\<close>

definition tt_checkCurrent :: "bool \<Rightarrow> thread \<Rightarrow> unit option" where
  "tt_checkCurrent dbg th =
     (if dbg then assert_fatal (th_schedState th = RUNNING \<or> (th_schedState th = UNSCHEDULED \<and> isPowerThread (th_id th)))
      else Some ())"

definition tt_yield :: "bool \<Rightarrow> node_alloc \<Rightarrow> bmp_alloc \<Rightarrow> u32 \<Rightarrow> sched \<Rightarrow> sched option" where
  "tt_yield dbg alloc bmem me s = do {
     ts \<leftarrow> sc_cpus s me;
     th \<leftarrow> sc_threads s (ts_currentThread ts);
     u \<leftarrow> tt_checkCurrent dbg th;
     s \<leftarrow> ts_yield alloc me (ts_currentThread ts) s;
     (r, s) \<leftarrow> ts_pull dbg alloc bmem me s;
     Some s
   }"

text \<open>The release of the caller's lock by \<open>unlockDescriptor\<close> does not touch the scheduler.\<close>

definition tt_block :: "bool \<Rightarrow> node_alloc \<Rightarrow> bmp_alloc \<Rightarrow> u32 \<Rightarrow> sched \<Rightarrow> sched option" where
  "tt_block dbg alloc bmem me s = do {
     ts \<leftarrow> sc_cpus s me;
     th \<leftarrow> sc_threads s (ts_currentThread ts);
     u \<leftarrow> tt_checkCurrent dbg th;
     s \<leftarrow> ts_block me (ts_currentThread ts) s;
     (r, s) \<leftarrow> ts_pull dbg alloc bmem me s;
     Some s
   }"

definition tt_dormant :: "bool \<Rightarrow> node_alloc \<Rightarrow> bmp_alloc \<Rightarrow> u32 \<Rightarrow> ptr \<Rightarrow> sched \<Rightarrow> (error_t \<times> sched) option" where
  "tt_dormant dbg alloc bmem me p s =
     (case p of
        None \<Rightarrow> Some (ERROR_INVALID_ARG, s)
      | Some t \<Rightarrow> do {
          th \<leftarrow> sc_threads s t;
          if th_schedState th = UNSCHEDULED \<or> th_schedState th = DORMANT then Some (ERROR_SUCCESS, s)
          else do {
            c \<leftarrow> th_currentCpu th;
            s \<leftarrow> ts_dormant c t s;
            ts \<leftarrow> sc_cpus s me;
            if c = me \<and> t = ts_currentThread ts then do {
              (r, s) \<leftarrow> ts_pull dbg alloc bmem c s;
              Some (ERROR_SUCCESS, s)
            }
            else Some (ERROR_SUCCESS, s)
          }
        })"

text \<open>The end of \<open>wake\<close> and \<open>unblock\<close>: the calling CPU yields if the thread that was made runnable should run there.\<close>

definition tt_preempt :: "bool \<Rightarrow> node_alloc \<Rightarrow> bmp_alloc \<Rightarrow> u32 \<Rightarrow> addr \<Rightarrow> sched \<Rightarrow> sched option" where
  "tt_preempt dbg alloc bmem me t s = do {
     th \<leftarrow> sc_threads s t;
     c \<leftarrow> th_currentCpu th;
     b \<leftarrow> shouldPreemptCurrentThreadOn th c s;
     if b \<and> c = me then tt_yield dbg alloc bmem me s else Some s
   }"

definition tt_wake :: "bool \<Rightarrow> node_alloc \<Rightarrow> bmp_alloc \<Rightarrow> u32 \<Rightarrow> ptr \<Rightarrow> sched \<Rightarrow> (error_t \<times> sched) option" where
  "tt_wake dbg alloc bmem me p s =
     (case p of
        None \<Rightarrow> Some (ERROR_INVALID_ARG, s)
      | Some t \<Rightarrow> do {
          th \<leftarrow> sc_threads s t;
          if th_schedState th = RUNNABLE \<or> th_schedState th = RUNNING then Some (ERROR_SUCCESS, s)
          else do {
            (err, s) \<leftarrow> (if th_schedState th = UNSCHEDULED then tt_schedule dbg alloc bmem t s else Some (ERROR_SUCCESS, s));
            th \<leftarrow> sc_threads s t;
            c \<leftarrow> th_currentCpu th;
            (err, s) \<leftarrow> ts_wake dbg alloc c t s;
            u \<leftarrow> assert_fatal (err = ERROR_SUCCESS);
            s \<leftarrow> tt_preempt dbg alloc bmem me t s;
            Some (err, s)
          }
        })"

definition tt_unblock :: "bool \<Rightarrow> node_alloc \<Rightarrow> bmp_alloc \<Rightarrow> u32 \<Rightarrow> ptr \<Rightarrow> sched \<Rightarrow> (error_t \<times> sched) option" where
  "tt_unblock dbg alloc bmem me p s =
     (case p of
        None \<Rightarrow> Some (ERROR_INVALID_ARG, s)
      | Some t \<Rightarrow> do {
          th \<leftarrow> sc_threads s t;
          if th_schedState th = RUNNABLE \<or> th_schedState th = RUNNING then Some (ERROR_SUCCESS, s)
          else if th_schedState th \<noteq> BLOCKED then Some (ERROR_INVALID_OPERATION, s)
          else do {
            c \<leftarrow> th_currentCpu th;
            (err, s) \<leftarrow> ts_unblock alloc c t s;
            u \<leftarrow> assert_fatal (err = ERROR_SUCCESS);
            s \<leftarrow> tt_preempt dbg alloc bmem me t s;
            Some (err, s)
          }
        })"

section \<open>Inherited affinity\<close>

text \<open>A thread that is not a power thread can run wherever the bitmap it inherits from allows; the bits below its former size keep their values
  beside that.\<close>

lemma inheritAffinity_elems:
  assumes "\<not> isPowerThread (th_id th)" and b: "bmap_inv (th_cpuAffinity th)" "unat (b_nBits (th_cpuAffinity th)) < 2 ^ 31"
    and src: "src = (case given of None \<Rightarrow> if flags AND 2 \<noteq> 0 then process else spawner | Some b \<Rightarrow> b)" "bmap_inv src"
      "0 < b_nBits src" "unat (b_nBits src) < 2 ^ 31"
    and m: "\<forall>tmp. bmem (b_nBits src) = Some tmp \<longrightarrow> length tmp = unat (BITMAP_NELEMENTS_FOR_BITS (b_nBits src))"
  shows "\<exists>ret th'. inheritAffinity bmem given flags process spawner th = Some (ret, th') \<and> bmap_inv (th_cpuAffinity th') \<and>
    (if ret = ERROR_SUCCESS then bmap_elems src \<subseteq> bmap_elems (th_cpuAffinity th') \<and>
       (\<forall>k < unat (b_nBits (th_cpuAffinity th)). k \<in> bmap_elems (th_cpuAffinity th') \<longrightarrow> k \<in> bmap_elems src \<union> bmap_elems (th_cpuAffinity th))
     else ret = ERROR_MEMORY_NOMEM \<and> th' = th)"
proof -
  obtain r d where d: "bmap_resizeTo (b_nBits src) (bmem (b_nBits src)) (th_cpuAffinity th) = Some (r, d)" "bmap_inv d"
    "if r = ERROR_SUCCESS then b_nBits d = b_nBits src \<and>
        (\<forall>k. k < unat (b_nBits src) \<and> k < unat (b_nBits (th_cpuAffinity th)) \<longrightarrow> (k \<in> bmap_elems d \<longleftrightarrow> k \<in> bmap_elems (th_cpuAffinity th)))
      else r = ERROR_MEMORY_NOMEM \<and> bmem (b_nBits src) = None \<and> d = th_cpuAffinity th"
    using bmap_resizeTo_elems [OF b(1) src(3,4) b(2) m] by blast
  show ?thesis
  proof (cases "r = ERROR_SUCCESS")
    case True
    obtain d' where d': "bmap_merge src d = Some d'" "bmap_inv d'" "bmap_elems d' = bmap_elems d \<union> (bmap_elems src \<inter> {..<unat (b_nBits d)})"
      using bmap_merge_elems [OF d(2) src(2)] by blast
    have "inheritAffinity bmem given flags process spawner th = Some (ERROR_SUCCESS, th\<lparr>th_cpuAffinity := d'\<rparr>)"
      using assms(1) d(1) d'(1) True unfolding inheritAffinity_def src(1) [symmetric] by (simp add: resizeAndMergeBitmaps_def)
    moreover have "bmap_elems src \<subseteq> {..<unat (b_nBits d)}" "bmap_elems d \<subseteq> {..<unat (b_nBits src)}" using d(3) True by (auto simp: bmap_elems_def)
    ultimately show ?thesis using d(3) d'(2,3) True by auto
  next
    case False
    have "inheritAffinity bmem given flags process spawner th = Some (r, th\<lparr>th_cpuAffinity := d\<rparr>)"
      using assms(1) d(1) False unfolding inheritAffinity_def src(1) [symmetric] by (simp add: resizeAndMergeBitmaps_def)
    then show ?thesis using d(2,3) False by auto
  qed
qed

end
