(* ===== verification/SchedInv.thy ===== *)
theory SchedInv
  imports Scheduler
begin

text \<open>
  The invariant of the scheduler: the run queues of every CPU hold exactly the runnable threads of that CPU, each once, in the
  queue of its policy and priority, and a running thread is the current thread of its CPU.  The set \<open>L\<close> holds the threads
  the scheduler lost: they are runnable but in no queue, because the insertion failed.
\<close>

section \<open>The invariant\<close>

fun ts_queue :: "schedPolicy \<Rightarrow> taskstream \<Rightarrow> addr prioq" where
  "ts_queue REAL_TIME ts = ts_realTimeQ ts"
| "ts_queue pol ts = ts_roundRobinQ ts"

fun ts_setQueue :: "schedPolicy \<Rightarrow> addr prioq \<Rightarrow> taskstream \<Rightarrow> taskstream" where
  "ts_setQueue REAL_TIME q ts = ts\<lparr>ts_realTimeQ := q\<rparr>"
| "ts_setQueue pol q ts = ts\<lparr>ts_roundRobinQ := q\<rparr>"

type_synonym run_queues = "u32 \<Rightarrow> schedPolicy \<Rightarrow> addr list list"

text \<open>The queue a thread belongs to.\<close>

definition at_home :: "thread \<Rightarrow> u32 \<Rightarrow> schedPolicy \<Rightarrow> nat \<Rightarrow> bool" where
  "at_home th c pol i \<longleftrightarrow> th_schedState th = RUNNABLE \<and> th_currentCpu th = Some c \<and> th_schedPolicy th = pol \<and> unat (th_schedPrio th) = i"

definition waiting :: "thread \<Rightarrow> bool" where
  "waiting th \<longleftrightarrow> th_schedFlags th AND TASK_SCHEDFLAGS_SCHED_WAITING \<noteq> 0"

definition wf_thread :: "(u32 \<Rightarrow> taskstream option) \<Rightarrow> thread \<Rightarrow> bool" where
  "wf_thread cpus th \<longleftrightarrow> th_schedPolicy th \<noteq> POLICY_INVALID \<and> unat (th_schedPrio th) < 20 \<and> \<not> waiting th \<and>
     (th_currentCpu th = None \<longrightarrow> th_schedState th = UNSCHEDULED) \<and> (\<forall>c. th_currentCpu th = Some c \<longrightarrow> cpus c \<noteq> None)"

definition queue_ok :: "addr prioq \<Rightarrow> addr list list \<Rightarrow> bool" where
  "queue_ok q ls \<longleftrightarrow> pq_abs q ls \<and> pq_nPrios q = 20 \<and> finite (dom (pq_store q))"

definition homes :: "addr set \<Rightarrow> (addr \<Rightarrow> thread option) \<Rightarrow> u32 \<Rightarrow> schedPolicy \<Rightarrow> nat \<Rightarrow> addr set" where
  "homes L threads c pol i = {t. t \<notin> L \<and> (\<exists>th. threads t = Some th \<and> at_home th c pol i)}"

definition sched_inv :: "addr set \<Rightarrow> sched \<Rightarrow> run_queues \<Rightarrow> bool" where
  "sched_inv L s Q \<longleftrightarrow>
     finite (dom (sc_threads s)) \<and> card (dom (sc_threads s)) < 2 ^ 32 \<and>
     (\<forall>t th. sc_threads s t = Some th \<longrightarrow> wf_thread (sc_cpus s) th) \<and>
     (\<forall>c ts pol. sc_cpus s c = Some ts \<longrightarrow> pol \<noteq> POLICY_INVALID \<longrightarrow>
        queue_ok (ts_queue pol ts) (Q c pol) \<and>
        (\<forall>i < 20. distinct (Q c pol ! i) \<and> set (Q c pol ! i) = homes L (sc_threads s) c pol i))"

definition current_inv :: "sched \<Rightarrow> bool" where
  "current_inv s \<longleftrightarrow>
     (\<forall>c ts. sc_cpus s c = Some ts \<longrightarrow> (\<exists>th. sc_threads s (ts_currentThread ts) = Some th \<and> th_currentCpu th = Some c)) \<and>
     (\<forall>t th. sc_threads s t = Some th \<longrightarrow> th_schedState th = RUNNING \<longrightarrow>
        (\<exists>c ts. th_currentCpu th = Some c \<and> sc_cpus s c = Some ts \<and> ts_currentThread ts = t))"

definition alloc_fresh :: "node_alloc \<Rightarrow> bool" where
  "alloc_fresh alloc \<longleftrightarrow> (\<forall>h a n. finite (dom h) \<longrightarrow> alloc h = Some (a, n) \<longrightarrow> h a = None)"

definition alloc_total :: "node_alloc \<Rightarrow> bool" where
  "alloc_total alloc \<longleftrightarrow> (\<forall>h. finite (dom h) \<longrightarrow> alloc h \<noteq> None)"

section \<open>Frames\<close>

lemma sched_invD:
  assumes "sched_inv L s Q"
  shows "finite (dom (sc_threads s))" "card (dom (sc_threads s)) < 2 ^ 32"
    "sc_threads s t = Some th \<Longrightarrow> wf_thread (sc_cpus s) th"
    "sc_cpus s c = Some ts \<Longrightarrow> pol \<noteq> POLICY_INVALID \<Longrightarrow> queue_ok (ts_queue pol ts) (Q c pol)"
    "sc_cpus s c = Some ts \<Longrightarrow> pol \<noteq> POLICY_INVALID \<Longrightarrow> i < 20 \<Longrightarrow> distinct (Q c pol ! i)"
    "sc_cpus s c = Some ts \<Longrightarrow> pol \<noteq> POLICY_INVALID \<Longrightarrow> i < 20 \<Longrightarrow>
      set (Q c pol ! i) = homes L (sc_threads s) c pol i"
  using assms unfolding sched_inv_def by blast+

lemma queue_ok_length: "queue_ok q ls \<Longrightarrow> length ls = 20"
  by (auto simp: queue_ok_def dest!: pq_abs_length)

text \<open>What the invariant reads of a task stream.\<close>

definition same_queues :: "(u32 \<Rightarrow> taskstream option) \<Rightarrow> (u32 \<Rightarrow> taskstream option) \<Rightarrow> bool" where
  "same_queues f g \<longleftrightarrow> (\<forall>c. rel_option (\<lambda>x y. ts_roundRobinQ x = ts_roundRobinQ y \<and> ts_realTimeQ x = ts_realTimeQ y) (f c) (g c))"

lemma same_queues_None: "same_queues f g \<Longrightarrow> f c = None \<longleftrightarrow> g c = None"
  unfolding same_queues_def by (drule spec [of _ c]) (cases "f c"; cases "g c"; simp)

lemma same_queuesD: "same_queues f g \<Longrightarrow> g c = Some y \<Longrightarrow> \<exists>x. f c = Some x \<and> ts_queue pol x = ts_queue pol y"
  unfolding same_queues_def by (drule spec [of _ c]) (cases "f c"; cases pol; simp)

lemma sched_inv_transfer:
  assumes inv: "sched_inv L s Q" and dom: "dom (sc_threads s') = dom (sc_threads s)"
    and wf: "\<And>t th. sc_threads s' t = Some th \<Longrightarrow> wf_thread (sc_cpus s') th"
    and h: "\<And>c pol i. homes L' (sc_threads s') c pol i = homes L (sc_threads s) c pol i" and q: "same_queues (sc_cpus s) (sc_cpus s')"
  shows "sched_inv L' s' Q"
  unfolding sched_inv_def
proof (intro conjI allI impI)
  show "finite (dom (sc_threads s'))" "card (dom (sc_threads s')) < 2 ^ 32" unfolding dom by (fact sched_invD(1,2) [OF inv])+
  show "wf_thread (sc_cpus s') th" if "sc_threads s' t = Some th" for t th by (rule wf [OF that])
  fix c ts pol assume c: "sc_cpus s' c = Some ts" and pol: "pol \<noteq> POLICY_INVALID"
  obtain ts0 where ts0: "sc_cpus s c = Some ts0" "ts_queue pol ts0 = ts_queue pol ts" using same_queuesD [OF q c] by blast
  show "queue_ok (ts_queue pol ts) (Q c pol)" using sched_invD(4) [OF inv ts0(1) pol] ts0(2) by simp
  fix i :: nat assume i: "i < 20"
  show "distinct (Q c pol ! i)" by (rule sched_invD(5) [OF inv ts0(1) pol i])
  show "set (Q c pol ! i) = homes L' (sc_threads s') c pol i" unfolding h by (rule sched_invD(6) [OF inv ts0(1) pol i])
qed

lemma wf_thread_same: "same_queues f g \<Longrightarrow> wf_thread f th \<Longrightarrow> wf_thread g th"
  using same_queues_None [of f g] by (auto simp: wf_thread_def)

lemma sched_inv_frame:
  assumes inv: "sched_inv L s Q" and t: "sc_threads s' = sc_threads s" and q: "same_queues (sc_cpus s) (sc_cpus s')"
  shows "sched_inv L s' Q"
  using wf_thread_same [OF q sched_invD(3) [OF inv]] by (intro sched_inv_transfer [OF inv _ _ _ q]) (simp_all add: t)

lemma same_queues_put:
  "sc_cpus s c = Some ts \<Longrightarrow> ts_roundRobinQ ts' = ts_roundRobinQ ts \<Longrightarrow> ts_realTimeQ ts' = ts_realTimeQ ts \<Longrightarrow>
   same_queues (sc_cpus s) (sc_cpus (ts_put c ts' s))"
  by (auto simp: same_queues_def ts_put_def option.rel_refl)

lemma same_queues_upd: "ts_roundRobinQ b = ts_roundRobinQ a \<Longrightarrow> ts_realTimeQ b = ts_realTimeQ a \<Longrightarrow> same_queues (f(c \<mapsto> a)) (f(c \<mapsto> b))"
  by (auto simp: same_queues_def option.rel_refl)

lemma same_queues_refl [simp]: "same_queues f f"
  by (simp add: same_queues_def option.rel_refl)

section \<open>Threads that are in no queue\<close>

definition put_thread :: "addr \<Rightarrow> thread \<Rightarrow> sched \<Rightarrow> sched" where
  "put_thread t th s = s\<lparr>sc_threads := (sc_threads s)(t \<mapsto> th)\<rparr>"

lemma put_thread_simps [simp]:
  "sc_threads (put_thread t th s) = (sc_threads s)(t \<mapsto> th)" "sc_cpus (put_thread t th s) = sc_cpus s"
  "sc_cpuTrace (put_thread t th s) = sc_cpuTrace s" "sc_onlineCpus (put_thread t th s) = sc_onlineCpus s"
  by (simp_all add: put_thread_def)

lemma thread_upd_Some: "sc_threads s t = Some th \<Longrightarrow> thread_upd t f s = Some (put_thread t (f th) s)"
  by (simp add: thread_upd_def put_thread_def)

lemma thread_upd_None: "sc_threads s t = None \<Longrightarrow> thread_upd t f s = None"
  by (simp add: thread_upd_def)

lemma sched_inv_park:
  assumes inv: "sched_inv L s Q" and t: "\<And>th. sc_threads s t = Some th \<Longrightarrow> th_schedState th \<noteq> RUNNABLE"
  shows "sched_inv (insert t L) s Q" "sched_inv (L - {t}) s Q"
proof -
  have "homes (insert t L) (sc_threads s) c pol i = homes L (sc_threads s) c pol i" "homes (L - {t}) (sc_threads s) c pol i = homes L (sc_threads s) c pol i"
    for c pol i using t by (auto simp: homes_def at_home_def)
  then show "sched_inv (insert t L) s Q" "sched_inv (L - {t}) s Q" using sched_invD(3) [OF inv] by (auto intro!: sched_inv_transfer [OF inv])
qed

lemma sched_inv_update:
  assumes inv: "sched_inv L s Q" and L: "t \<in> L" and t: "sc_threads s t = Some th0" and wf: "wf_thread (sc_cpus s) th"
  shows "sched_inv L (put_thread t th s) Q"
proof (rule sched_inv_transfer [OF inv])
  show "wf_thread (sc_cpus (put_thread t th s)) th'" if "sc_threads (put_thread t th s) u = Some th'" for u th'
    using that wf sched_invD(3) [OF inv, of u] by (auto split: if_splits)
  show "homes L (sc_threads (put_thread t th s)) c pol i = homes L (sc_threads s) c pol i" for c pol i using L by (auto simp: homes_def)
qed (use t in auto)

section \<open>The queue operations\<close>

lemma put_queue_simps [simp]:
  "sc_threads (ts_put c ts s) = sc_threads s" "sc_cpus (ts_put c ts s) = (sc_cpus s)(c \<mapsto> ts)"
  "sc_cpuTrace (ts_put c ts s) = sc_cpuTrace s" "sc_onlineCpus (ts_put c ts s) = sc_onlineCpus s"
  by (simp_all add: ts_put_def)

lemma ts_queue_set:
  "pol \<noteq> POLICY_INVALID \<Longrightarrow> pol' \<noteq> POLICY_INVALID \<Longrightarrow> ts_queue pol' (ts_setQueue pol q ts) = (if pol' = pol then q else ts_queue pol' ts)"
  by (cases pol; cases pol'; simp)

lemma ts_setQueue_simps [simp]:
  "ts_currentThread (ts_setQueue pol q ts) = ts_currentThread ts" "ts_load (ts_setQueue pol q ts) = ts_load ts"
  by (cases pol; simp)+

text \<open>Replacing one list of one queue, for a thread that enters or leaves it.\<close>

lemma sched_inv_requeue:
  assumes inv: "sched_inv L s Q" and c: "sc_cpus s c = Some ts" and pol: "pol \<noteq> POLICY_INVALID" and i: "i < 20"
    and q: "queue_ok q ((Q c pol)[i := l])" and d: "distinct l" and l: "set l = homes L' threads c pol i"
    and dom: "dom threads = dom (sc_threads s)" and wf: "\<And>t th. threads t = Some th \<Longrightarrow> wf_thread (sc_cpus s) th"
    and h: "\<And>c' pol' j. (c', pol', j) \<noteq> (c, pol, i) \<Longrightarrow> homes L' threads c' pol' j = homes L (sc_threads s) c' pol' j"
  shows "sched_inv L' (ts_put c (ts_setQueue pol q ts) (s\<lparr>sc_threads := threads\<rparr>)) (Q(c := (Q c)(pol := (Q c pol)[i := l])))"
  unfolding sched_inv_def
proof (intro conjI allI impI)
  let ?s = "ts_put c (ts_setQueue pol q ts) (s\<lparr>sc_threads := threads\<rparr>)" and ?Q = "Q(c := (Q c)(pol := (Q c pol)[i := l]))"
  show "finite (dom (sc_threads ?s))" "card (dom (sc_threads ?s)) < 2 ^ 32" using sched_invD(1,2) [OF inv] by (simp_all add: dom)
  show "wf_thread (sc_cpus ?s) th" if "sc_threads ?s t = Some th" for t th using wf [of t th] that by (auto simp: wf_thread_def)
  fix c' ts' pol' assume c': "sc_cpus ?s c' = Some ts'" and pol': "pol' \<noteq> POLICY_INVALID"
  then obtain ts0 where ts0: "sc_cpus s c' = Some ts0" "c' \<noteq> c \<Longrightarrow> ts' = ts0" "c' = c \<Longrightarrow> ts0 = ts" using c by (auto split: if_splits)
  have tq: "ts_queue pol' ts' = (if c' = c \<and> pol' = pol then q else ts_queue pol' ts0)"
    using c' ts0 ts_queue_set [OF pol pol', of q ts] by (auto split: if_splits)
  show "queue_ok (ts_queue pol' ts') (?Q c' pol')" using sched_invD(4) [OF inv ts0(1) pol'] q unfolding tq by auto
  have len: "length (Q c' pol') = 20" using queue_ok_length [OF sched_invD(4) [OF inv ts0(1) pol']] .
  fix j :: nat assume j: "j < 20"
  show "distinct (?Q c' pol' ! j)" using sched_invD(5) [OF inv ts0(1) pol' j] d len i by (auto simp: nth_list_update)
  show "set (?Q c' pol' ! j) = homes L' (sc_threads ?s) c' pol' j"
    using sched_invD(6) [OF inv ts0(1) pol' j] l h [of c' pol' j] len i by (cases "c' = c \<and> pol' = pol \<and> j = i") (auto simp: nth_list_update)
qed

lemma insertByPolicy_eq:
  "sc_threads s t = Some th \<Longrightarrow> sc_cpus s c = Some ts \<Longrightarrow> th_schedPolicy th \<noteq> POLICY_INVALID \<Longrightarrow>
   ts_insertByPolicy alloc e c t s = do {
     (ret, q) \<leftarrow> prioq_insert (alloc (pq_store (ts_queue (th_schedPolicy th) ts))) t (th_schedPrio th) (ucast (th_schedOptions th)) (ts_queue (th_schedPolicy th) ts);
     Some (ret, ts_put c (ts_setQueue (th_schedPolicy th) q ts) s) }"
  by (cases "th_schedPolicy th") (simp_all add: ts_insertByPolicy_def)

lemma removeByPolicy_eq:
  "sc_threads s t = Some th \<Longrightarrow> sc_cpus s c = Some ts \<Longrightarrow> th_schedPolicy th \<noteq> POLICY_INVALID \<Longrightarrow>
   ts_removeByPolicy c t s = do {
     q \<leftarrow> prioq_remove t (th_schedPrio th) (ts_queue (th_schedPolicy th) ts);
     Some (ts_put c (ts_setQueue (th_schedPolicy th) q ts) s) }"
  by (cases "th_schedPolicy th") (simp_all add: ts_removeByPolicy_def)

lemma at_home_unique: "at_home th c pol i \<Longrightarrow> at_home th c' pol' j \<Longrightarrow> c' = c \<and> pol' = pol \<and> j = i"
  by (auto simp: at_home_def)

lemma homes_other:
  assumes "threads t = Some th" "at_home th c pol i" "(c', pol', j) \<noteq> (c, pol, i)"
  shows "homes (L - {t}) threads c' pol' j = homes (insert t L) threads c' pol' j"
  using assms at_home_unique by (fastforce simp: homes_def)

lemma homes_here: "threads t = Some th \<Longrightarrow> at_home th c pol i \<Longrightarrow> homes (L - {t}) threads c pol i = insert t (homes (insert t L) threads c pol i)"
  by (auto simp: homes_def)

lemma not_home: "threads t = Some th \<Longrightarrow> at_home th c pol i \<Longrightarrow> (c', pol', j) \<noteq> (c, pol, i) \<Longrightarrow> t \<notin> homes L threads c' pol' j"
  by (auto simp: homes_def at_home_def)

lemma homes_subset: "homes L threads c pol i \<subseteq> dom threads - L"
  by (auto simp: homes_def)

text \<open>Only the queue of the thread changes.\<close>

definition requeued :: "u32 \<Rightarrow> sched \<Rightarrow> sched \<Rightarrow> bool" where
  "requeued c s s' \<longleftrightarrow> (\<exists>ts pol q. sc_cpus s c = Some ts \<and> s' = ts_put c (ts_setQueue pol q ts) s)"

lemma insertByPolicy_inv:
  assumes inv: "sched_inv (insert t L) s Q" and t: "sc_threads s t = Some th" and st: "th_schedState th = RUNNABLE" "th_currentCpu th = Some c"
    and a: "alloc_fresh alloc"
  shows "\<exists>e' s' Q'. ts_insertByPolicy alloc e c t s = Some (e', s') \<and> requeued c s s' \<and>
    (if e' = ERROR_SUCCESS then sched_inv (L - {t}) s' Q' else sched_inv (insert t L) s' Q') \<and>
    (alloc_total alloc \<longrightarrow> e' = ERROR_SUCCESS)"
proof -
  let ?pol = "th_schedPolicy th" and ?i = "unat (th_schedPrio th)"
  have wf: "?pol \<noteq> POLICY_INVALID" "?i < 20" "sc_cpus s c \<noteq> None" using sched_invD(3) [OF inv t] st by (auto simp: wf_thread_def)
  then obtain ts where ts: "sc_cpus s c = Some ts" by auto
  let ?q = "ts_queue ?pol ts" and ?ls = "Q c ?pol"
  have q: "pq_abs ?q ?ls" "pq_nPrios ?q = 20" "finite (dom (pq_store ?q))" using sched_invD(4) [OF inv ts wf(1)] by (simp_all add: queue_ok_def)
  have p: "th_schedPrio th < pq_nPrios ?q" using wf(2) q(2) by (simp add: word_less_nat_alt)
  have home: "at_home th c ?pol ?i" using st by (simp add: at_home_def)
  show ?thesis
  proof (cases "alloc (pq_store ?q)")
    case None
    have ident: "ts_setQueue ?pol ?q ts = ts" by (cases ?pol) simp_all
    have "ts_insertByPolicy alloc e c t s = Some (ERROR_MEMORY_NOMEM, ts_put c ts s)"
      using insertByPolicy_eq [OF t ts wf(1)] prioq_insert_fails(2) [OF q(1) p] None ident by simp
    moreover have "ts_put c ts s = s" using ts by (simp add: ts_put_def fun_upd_idem)
    moreover have "\<not> alloc_total alloc" using None q(3) unfolding alloc_total_def by blast
    moreover have "requeued c s s" unfolding requeued_def using ts ident \<open>ts_put c ts s = s\<close> by metis
    ultimately show ?thesis using inv by auto
  next
    case (Some an)
    obtain a n where an: "alloc (pq_store ?q) = Some (a, n)" using Some by (cases an) simp
    have fresh: "pq_store ?q a = None" using a q(3) an unfolding alloc_fresh_def by blast
    have len: "length ?ls = 20" by (rule queue_ok_length [OF sched_invD(4) [OF inv ts wf(1)]])
    have dist: "distinct (?ls ! ?i)" and mem: "set (?ls ! ?i) = homes (insert t L) (sc_threads s) c ?pol ?i"
      using sched_invD(5,6) [OF inv ts wf(1,2)] .
    have "length (?ls ! ?i) = card (set (?ls ! ?i))" using dist by (simp add: distinct_card)
    also have "\<dots> \<le> card (dom (sc_threads s) - {t})"
      using mem homes_subset [of "insert t L" "sc_threads s" c ?pol ?i] sched_invD(1) [OF inv] by (intro card_mono) auto
    also have "Suc \<dots> = card (dom (sc_threads s))" using t sched_invD(1) [OF inv] by (intro card_Suc_Diff1) auto
    finally have "Suc (length (?ls ! ?i)) \<le> card (dom (sc_threads s))" by simp
    then have n: "Suc (length (?ls ! ?i)) < 2 ^ 32" using sched_invD(2) [OF inv] by simp
    define opt :: u32 where "opt = ucast (th_schedOptions th)"
    define l where "l = (if opt AND PRIOQUEUE_INSERT_FRONT \<noteq> 0 then t # ?ls ! ?i else ?ls ! ?i @ [t])"
    obtain q' where q': "prioq_insert (Some (a, n)) t (th_schedPrio th) opt ?q = Some (ERROR_SUCCESS, q')" "pq_abs q' (?ls[?i := l])"
      "dom (pq_store q') = insert a (dom (pq_store ?q))" "pq_nPrios q' = pq_nPrios ?q"
      using prioq_insert_refines [OF q(1) fresh p n, where itm = t and opt = opt and junk = n] unfolding l_def by blast
    have "t \<notin> set (?ls ! ?i)" unfolding mem by (simp add: homes_def)
    then have l: "distinct l" "set l = homes (L - {t}) (sc_threads s) c ?pol ?i" using dist unfolding homes_here [of "sc_threads s", OF t home] l_def mem [symmetric] by auto
    have "sched_inv (L - {t}) (ts_put c (ts_setQueue ?pol q' ts) (s\<lparr>sc_threads := sc_threads s\<rparr>)) (Q(c := (Q c)(?pol := ?ls[?i := l])))"
      using q' q(2,3) l homes_other [of "sc_threads s", OF t home] sched_invD(3) [OF inv]
      by (intro sched_inv_requeue [OF inv ts wf(1,2)]) (auto simp: queue_ok_def)
    then have "sched_inv (L - {t}) (ts_put c (ts_setQueue ?pol q' ts) s) (Q(c := (Q c)(?pol := ?ls[?i := l])))" by simp
    moreover have "ts_insertByPolicy alloc e c t s = Some (ERROR_SUCCESS, ts_put c (ts_setQueue ?pol q' ts) s)"
      using insertByPolicy_eq [OF t ts wf(1)] q'(1) an by (simp add: opt_def)
    moreover have "requeued c s (ts_put c (ts_setQueue ?pol q' ts) s)" using ts unfolding requeued_def by blast
    ultimately show ?thesis by auto
  qed
qed

text \<open>A thread that stops being runnable leaves its queue.\<close>

lemma removeByPolicy_inv:
  assumes inv: "sched_inv L s Q" and t: "sc_threads s t = Some th" and c: "th_currentCpu th = Some c"
    and th': "th' = th\<lparr>th_schedState := st\<rparr>" "st \<noteq> RUNNABLE"
  shows "\<exists>s' Q'. ts_removeByPolicy c t (put_thread t th' s) = Some s' \<and> requeued c (put_thread t th' s) s' \<and> sched_inv (L - {t}) s' Q'"
proof -
  let ?pol = "th_schedPolicy th" and ?i = "unat (th_schedPrio th)" and ?s = "put_thread t th' s"
  have wf: "?pol \<noteq> POLICY_INVALID" "?i < 20" "sc_cpus s c \<noteq> None" "wf_thread (sc_cpus s) th'"
    using sched_invD(3) [OF inv t] c th' by (auto simp: wf_thread_def waiting_def)
  then obtain ts where ts: "sc_cpus s c = Some ts" by auto
  let ?q = "ts_queue ?pol ts" and ?ls = "Q c ?pol"
  have q: "pq_abs ?q ?ls" "pq_nPrios ?q = 20" "finite (dom (pq_store ?q))" using sched_invD(4) [OF inv ts wf(1)] by (simp_all add: queue_ok_def)
  have p: "th_schedPrio th < pq_nPrios ?q" using wf(2) q(2) by (simp add: word_less_nat_alt)
  obtain q' where q': "prioq_remove t (th_schedPrio th) ?q = Some q'" "pq_abs q' (?ls[?i := remove1 t (?ls ! ?i)])"
    "dom (pq_store q') \<subseteq> dom (pq_store ?q)" "pq_nPrios q' = pq_nPrios ?q" using prioq_remove_refines [OF q(1) p, of t] by blast
  let ?threads = "(sc_threads s)(t \<mapsto> th')"
  have gone: "homes (L - {t}) ?threads c' pol' j = homes L (sc_threads s) c' pol' j - {t}" for c' pol' j
    using th' by (auto simp: homes_def at_home_def)
  have other: "t \<notin> homes L (sc_threads s) c' pol' j" if "(c', pol', j) \<noteq> (c, ?pol, ?i)" for c' pol' j
    using that t c by (auto simp: homes_def at_home_def)
  have "distinct (?ls ! ?i)" "set (?ls ! ?i) = homes L (sc_threads s) c ?pol ?i" using sched_invD(5,6) [OF inv ts wf(1,2)] .
  then have l: "distinct (remove1 t (?ls ! ?i))" "set (remove1 t (?ls ! ?i)) = homes (L - {t}) ?threads c ?pol ?i" unfolding gone by simp_all
  have wf': "wf_thread (sc_cpus s) th2" if "?threads u = Some th2" for u th2 using that wf(4) sched_invD(3) [OF inv, of u] by (auto split: if_splits)
  have "sched_inv (L - {t}) (ts_put c (ts_setQueue ?pol q' ts) (s\<lparr>sc_threads := ?threads\<rparr>)) (Q(c := (Q c)(?pol := ?ls[?i := remove1 t (?ls ! ?i)])))"
  proof (rule sched_inv_requeue [OF inv ts wf(1,2) _ l])
    show "queue_ok q' (?ls[?i := remove1 t (?ls ! ?i)])" using q' q(2) finite_subset [OF q'(3) q(3)] by (simp add: queue_ok_def)
    show "dom ?threads = dom (sc_threads s)" using t by auto
    show "wf_thread (sc_cpus s) th2" if "?threads u = Some th2" for u th2 by (rule wf' [OF that])
    show "homes (L - {t}) ?threads c' pol' j = homes L (sc_threads s) c' pol' j" if "(c', pol', j) \<noteq> (c, ?pol, ?i)" for c' pol' j
      using other [OF that] unfolding gone by simp
  qed
  moreover have "ts_removeByPolicy c t ?s = Some (ts_put c (ts_setQueue ?pol q' ts) ?s)"
    using removeByPolicy_eq [of ?s t th' c ts] ts wf(1) q'(1) th' by simp
  moreover have "requeued c ?s (ts_put c (ts_setQueue ?pol q' ts) ?s)" using ts put_thread_simps(2) unfolding requeued_def by metis
  ultimately show ?thesis unfolding put_thread_def by blast
qed

text \<open>Taking the first thread of the queues of one policy.\<close>

lemma pop_inv:
  assumes inv: "sched_inv L s Q" and ts: "sc_cpus s c = Some ts" and pol: "pol \<noteq> POLICY_INVALID" and ne: "concat (Q c pol) \<noteq> []"
  shows "\<exists>q' Q' th. prioq_pop (ts_queue pol ts) = Some (Some (hd (concat (Q c pol))), q') \<and>
    sched_inv (insert (hd (concat (Q c pol))) L) (ts_put c (ts_setQueue pol q' ts) s) Q' \<and>
    hd (concat (Q c pol)) \<notin> L \<and> sc_threads s (hd (concat (Q c pol))) = Some th \<and> at_home th c pol (first_ne (Q c pol))"
proof -
  let ?q = "ts_queue pol ts" and ?ls = "Q c pol" and ?t = "hd (concat (Q c pol))"
  let ?i = "first_ne ?ls"
  have q: "pq_abs ?q ?ls" "pq_nPrios ?q = 20" "finite (dom (pq_store ?q))" using sched_invD(4) [OF inv ts pol] by (simp_all add: queue_ok_def)
  have i: "?i < 20" using first_ne_less [OF ne] queue_ok_length [OF sched_invD(4) [OF inv ts pol]] by simp
  have nei: "?ls ! ?i \<noteq> []" using first_ne_less [OF ne] by blast
  have t: "?t = hd (?ls ! ?i)" by (rule hd_concat_first [OF ne])
  have dist: "distinct (?ls ! ?i)" and mem: "set (?ls ! ?i) = homes L (sc_threads s) c pol ?i" using sched_invD(5,6) [OF inv ts pol i] .
  have "?t \<in> homes L (sc_threads s) c pol ?i" unfolding t mem [symmetric] using nei by (rule hd_in_set)
  then obtain th where th: "?t \<notin> L" "sc_threads s ?t = Some th" "at_home th c pol ?i" by (auto simp: homes_def)
  obtain q' where q': "prioq_pop ?q = Some (Some ?t, q')" "pq_abs q' (pop_first ?ls)" "dom (pq_store q') \<subseteq> dom (pq_store ?q)" "pq_nPrios q' = pq_nPrios ?q"
    using prioq_pop_refines [OF q(1) ne] by blast
  have gone: "homes (insert ?t L) (sc_threads s) c' pol' j = homes L (sc_threads s) c' pol' j - {?t}" for c' pol' j by (auto simp: homes_def)
  have cons: "?ls ! ?i = ?t # tl (?ls ! ?i)" unfolding t using nei by simp
  have "distinct (?t # tl (?ls ! ?i))" by (subst cons [symmetric]) (rule dist)
  moreover have "set (?t # tl (?ls ! ?i)) = homes L (sc_threads s) c pol ?i" by (subst cons [symmetric]) (rule mem)
  ultimately have l: "distinct (tl (?ls ! ?i))" "set (tl (?ls ! ?i)) = homes (insert ?t L) (sc_threads s) c pol ?i"
    unfolding gone distinct.simps list.set by blast+
  have "sched_inv (insert ?t L) (ts_put c (ts_setQueue pol q' ts) (s\<lparr>sc_threads := sc_threads s\<rparr>)) (Q(c := (Q c)(pol := ?ls[?i := tl (?ls ! ?i)])))"
  proof (rule sched_inv_requeue [OF inv ts pol i _ l])
    show "queue_ok q' (?ls[?i := tl (?ls ! ?i)])" using q' q(2) finite_subset [OF q'(3) q(3)] pop_first_eq [OF ne] by (simp add: queue_ok_def)
    show "homes (insert ?t L) (sc_threads s) c' pol' j = homes L (sc_threads s) c' pol' j" if "(c', pol', j) \<noteq> (c, pol, ?i)" for c' pol' j
    proof -
      have "?t \<notin> homes L (sc_threads s) c' pol' j" by (rule not_home [of "sc_threads s", OF th(2,3) that])
      then show ?thesis unfolding gone by simp
    qed
  qed (use sched_invD(3) [OF inv] in auto)
  then show ?thesis using q'(1) th by (intro exI conjI) simp_all
qed

lemma pop_none:
  assumes inv: "sched_inv L s Q" and ts: "sc_cpus s c = Some ts" and pol: "pol \<noteq> POLICY_INVALID" and ne: "concat (Q c pol) = []"
  shows "prioq_pop (ts_queue pol ts) = Some (None, ts_queue pol ts)"
  using prioq_pop_empty [OF _ ne] sched_invD(4) [OF inv ts pol] by (simp add: queue_ok_def)

section \<open>Choosing the next thread\<close>

definition next_thread :: "run_queues \<Rightarrow> u32 \<Rightarrow> addr option" where
  "next_thread Q c =
     (if concat (Q c REAL_TIME) \<noteq> [] then Some (hd (concat (Q c REAL_TIME)))
      else if concat (Q c ROUND_ROBIN) \<noteq> [] then Some (hd (concat (Q c ROUND_ROBIN)))
      else None)"

definition queue_name :: "schedPolicy \<Rightarrow> string" where
  "queue_name pol = (if pol = REAL_TIME then ''realtime'' else ''roundrobin'')"

lemma pullFromQ_none:
  assumes inv: "sched_inv L s Q" and ts: "sc_cpus s c = Some ts" and pol: "pol \<noteq> POLICY_INVALID" and e: "concat (Q c pol) = []"
  shows "ts_pullFromQ dbg alloc bmem (queue_name pol) c s = Some (None, s)"
proof -
  have "ts_put c ts s = s" using ts by (simp add: ts_put_def fun_upd_idem)
  then show ?thesis using pop_none [OF inv ts pol e] ts pol
    by (cases pol) (simp_all add: ts_pullFromQ.simps queue_name_def del: put_queue_simps)
qed

lemma pullFromQ_some:
  assumes inv: "sched_inv L s Q" and ts: "sc_cpus s c = Some ts" and pol: "pol \<noteq> POLICY_INVALID" and ne: "concat (Q c pol) \<noteq> []"
  shows "\<exists>q' Q' th. ts_pullFromQ dbg alloc bmem (queue_name pol) c s = Some (Some (hd (concat (Q c pol))), ts_put c (ts_setQueue pol q' ts) s) \<and>
    sched_inv (insert (hd (concat (Q c pol))) L) (ts_put c (ts_setQueue pol q' ts) s) Q' \<and>
    hd (concat (Q c pol)) \<notin> L \<and> sc_threads s (hd (concat (Q c pol))) = Some th \<and> th_currentCpu th = Some c \<and> th_schedState th = RUNNABLE"
proof -
  obtain q' Q' th where P: "prioq_pop (ts_queue pol ts) = Some (Some (hd (concat (Q c pol))), q')"
    "sched_inv (insert (hd (concat (Q c pol))) L) (ts_put c (ts_setQueue pol q' ts) s) Q'"
    "hd (concat (Q c pol)) \<notin> L" "sc_threads s (hd (concat (Q c pol))) = Some th" "at_home th c pol (first_ne (Q c pol))"
    using pop_inv [OF inv ts pol ne] by blast
  have "th_schedFlags th AND TASK_SCHEDFLAGS_SCHED_WAITING = 0" using sched_invD(3) [OF inv P(4)] by (simp add: wf_thread_def waiting_def)
  then have "ts_pullFromQ dbg alloc bmem (queue_name pol) c s = Some (Some (hd (concat (Q c pol))), ts_put c (ts_setQueue pol q' ts) s)"
    using P(1,4) ts pol by (cases pol) (simp_all add: ts_pullFromQ.simps queue_name_def)
  then show ?thesis using P(2-5) unfolding at_home_def by blast
qed

text \<open>The state after a switch of CPU \<open>c\<close> to the thread \<open>t\<close>.\<close>

definition switched :: "u32 \<Rightarrow> addr \<Rightarrow> sched \<Rightarrow> sched \<Rightarrow> bool" where
  "switched c t s s' \<longleftrightarrow> (\<exists>th ts'. sc_threads s t = Some th \<and> th_schedState th = RUNNABLE \<and> th_currentCpu th = Some c \<and> ts_currentThread ts' = t \<and>
     s' = ts_put c ts' (put_thread t (th\<lparr>th_schedState := RUNNING\<rparr>) s))"

lemma pull_from:
  assumes inv: "sched_inv L s Q" and ts: "sc_cpus s c = Some ts" and pol: "pol \<noteq> POLICY_INVALID" and ne: "concat (Q c pol) \<noteq> []"
  shows "\<exists>s1 s' Q'. ts_pullFromQ dbg alloc bmem (queue_name pol) c s = Some (Some (hd (concat (Q c pol))), s1) \<and>
    do { s \<leftarrow> thread_upd (hd (concat (Q c pol))) (\<lambda>th. th\<lparr>th_schedState := RUNNING\<rparr>) s1; ts \<leftarrow> sc_cpus s c;
         Some (True, ts_put c (ts\<lparr>ts_currentThread := hd (concat (Q c pol))\<rparr>) s) } = Some (True, s') \<and>
    sched_inv L s' Q' \<and> switched c (hd (concat (Q c pol))) s s'"
proof -
  define t where "t = hd (concat (Q c pol))"
  obtain q' Q' th where P: "ts_pullFromQ dbg alloc bmem (queue_name pol) c s = Some (Some t, ts_put c (ts_setQueue pol q' ts) s)"
    "sched_inv (insert t L) (ts_put c (ts_setQueue pol q' ts) s) Q'" "t \<notin> L" "sc_threads s t = Some th" "th_currentCpu th = Some c" "th_schedState th = RUNNABLE"
    using pullFromQ_some [OF inv ts pol ne] unfolding t_def by blast
  let ?s1 = "ts_put c (ts_setQueue pol q' ts) s" and ?th = "th\<lparr>th_schedState := RUNNING\<rparr>" and ?ts = "(ts_setQueue pol q' ts)\<lparr>ts_currentThread := t\<rparr>"
  let ?s' = "ts_put c ?ts (put_thread t ?th ?s1)"
  have "wf_thread (sc_cpus ?s1) ?th" using sched_invD(3) [OF P(2), of t th] P(4,5) by (simp add: wf_thread_def waiting_def)
  then have "sched_inv (insert t L) (put_thread t ?th ?s1) Q'" using sched_inv_update [OF P(2), of t th] P(4) by simp
  then have "sched_inv (insert t L - {t}) (put_thread t ?th ?s1) Q'" by (rule sched_inv_park(2)) simp
  then have "sched_inv L (put_thread t ?th ?s1) Q'" using P(3) by simp
  then have "sched_inv L ?s' Q'" by (rule sched_inv_frame) (simp_all add: same_queues_upd)
  moreover have "?s' = ts_put c ?ts (put_thread t ?th s)" by (simp add: ts_put_def put_thread_def)
  ultimately show ?thesis using P(1,4,5,6) unfolding t_def [symmetric] switched_def
    by (intro exI [of _ ?s1] exI [of _ ?s'] exI [of _ Q'] conjI exI [of _ th] exI [of _ ?ts]) (simp_all add: thread_upd_Some)
qed

lemma pull_inv:
  assumes inv: "sched_inv L s Q" and ts: "sc_cpus s c = Some ts"
  shows "case next_thread Q c of None \<Rightarrow> ts_pull dbg alloc bmem c s = Some (False, s)
    | Some t \<Rightarrow> \<exists>s' Q'. ts_pull dbg alloc bmem c s = Some (True, s') \<and> sched_inv L s' Q' \<and> switched c t s s'"
proof -
  have names: "''realtime'' = queue_name REAL_TIME" "''roundrobin'' = queue_name ROUND_ROBIN" by (simp_all add: queue_name_def)
  show ?thesis
  proof (cases "concat (Q c REAL_TIME) = []")
    case False
    then show ?thesis using pull_from [OF inv ts _ False, of dbg alloc bmem] unfolding next_thread_def ts_pull_def names
      by (auto simp del: concat_eq_Nil_conv)
  next
    case rt: True
    note none = pullFromQ_none [OF inv ts _ rt, of dbg alloc bmem]
    show ?thesis
    proof (cases "concat (Q c ROUND_ROBIN) = []")
      case True
      then show ?thesis using none pullFromQ_none [OF inv ts _ True, of dbg alloc bmem] rt
        unfolding next_thread_def ts_pull_def names by (simp del: concat_eq_Nil_conv)
    next
      case False
      then show ?thesis using none pull_from [OF inv ts _ False, of dbg alloc bmem] rt unfolding next_thread_def ts_pull_def names
        by (auto simp del: concat_eq_Nil_conv)
    qed
  qed
qed

section \<open>The current threads\<close>

definition sched_ok :: "addr set \<Rightarrow> sched \<Rightarrow> bool" where
  "sched_ok L s \<longleftrightarrow> (\<exists>Q. sched_inv L s Q) \<and> current_inv s"

lemma current_invD:
  assumes "current_inv s"
  shows "sc_cpus s c = Some ts \<Longrightarrow> \<exists>th. sc_threads s (ts_currentThread ts) = Some th \<and> th_currentCpu th = Some c"
    "sc_threads s t = Some th \<Longrightarrow> th_schedState th = RUNNING \<Longrightarrow> \<exists>c ts. th_currentCpu th = Some c \<and> sc_cpus s c = Some ts \<and> ts_currentThread ts = t"
  using assms unfolding current_inv_def by blast+

lemma current_inv_requeued: "current_inv s \<Longrightarrow> requeued c s s' \<Longrightarrow> current_inv s'"
  unfolding current_inv_def requeued_def by (force split: if_splits)

lemma requeued_threads: "requeued c s s' \<Longrightarrow> sc_threads s' = sc_threads s"
  by (auto simp: requeued_def)

lemma requeued_cpus: "requeued c s s' \<Longrightarrow> map_option ts_currentThread (sc_cpus s' d) = map_option ts_currentThread (sc_cpus s d)"
  by (auto simp: requeued_def)

lemma requeued_load: "requeued c s s' \<Longrightarrow> map_option ts_load (sc_cpus s' d) = map_option ts_load (sc_cpus s d)"
  by (auto simp: requeued_def)

lemma requeued_other: "requeued c s s' \<Longrightarrow> sc_cpuTrace s' = sc_cpuTrace s" "requeued c s s' \<Longrightarrow> sc_onlineCpus s' = sc_onlineCpus s"
  by (auto simp: requeued_def)

lemma current_inv_put:
  assumes "current_inv s" "sc_threads s t = Some th" "th_currentCpu th' = th_currentCpu th" "th_schedState th' \<noteq> RUNNING"
  shows "current_inv (put_thread t th' s)"
  unfolding current_inv_def
proof (intro conjI allI impI)
  show "\<exists>th2. sc_threads (put_thread t th' s) (ts_currentThread ts) = Some th2 \<and> th_currentCpu th2 = Some c"
    if "sc_cpus (put_thread t th' s) c = Some ts" for c ts using that current_invD(1) [OF assms(1), of c ts] assms(2,3) by auto
  show "\<exists>c ts. th_currentCpu th2 = Some c \<and> sc_cpus (put_thread t th' s) c = Some ts \<and> ts_currentThread ts = u"
    if "sc_threads (put_thread t th' s) u = Some th2" "th_schedState th2 = RUNNING" for u th2
    using that current_invD(2) [OF assms(1), of u th2] assms(4) by (auto split: if_splits)
qed

lemma current_inv_switched:
  assumes cur: "current_inv s" and sw: "switched c t s s'" and ts: "sc_cpus s c = Some ts"
    and nr: "\<And>th. sc_threads s (ts_currentThread ts) = Some th \<Longrightarrow> th_schedState th \<noteq> RUNNING"
  shows "current_inv s'"
proof -
  obtain th ts' where P: "sc_threads s t = Some th" "th_schedState th = RUNNABLE" "th_currentCpu th = Some c" "ts_currentThread ts' = t"
    "s' = ts_put c ts' (put_thread t (th\<lparr>th_schedState := RUNNING\<rparr>) s)" using sw by (auto simp: switched_def)
  show ?thesis unfolding current_inv_def
  proof (intro conjI allI impI)
    show "\<exists>th. sc_threads s' (ts_currentThread ts2) = Some th \<and> th_currentCpu th = Some d" if "sc_cpus s' d = Some ts2" for d ts2
      using that P current_invD(1) [OF cur, of d ts2] by (auto split: if_splits)
    show "\<exists>d ts2. th_currentCpu thu = Some d \<and> sc_cpus s' d = Some ts2 \<and> ts_currentThread ts2 = u"
      if u: "sc_threads s' u = Some thu" "th_schedState thu = RUNNING" for u thu
    proof (cases "u = t")
      case False
      then have "sc_threads s u = Some thu" using u P by simp
      then obtain d ts2 where "th_currentCpu thu = Some d" "sc_cpus s d = Some ts2" "ts_currentThread ts2 = u" using current_invD(2) [OF cur] u(2) by blast
      moreover have "d \<noteq> c" using calculation ts nr [of thu] \<open>sc_threads s u = Some thu\<close> u(2) by auto
      ultimately show ?thesis using P(5) by auto
    qed (use u P in auto)
  qed
qed

lemma pull_ok:
  assumes ok: "sched_inv L s Q" "current_inv s" and ts: "sc_cpus s c = Some ts"
    and nr: "\<And>th. sc_threads s (ts_currentThread ts) = Some th \<Longrightarrow> th_schedState th \<noteq> RUNNING"
  shows "\<exists>s'. ts_pull dbg alloc bmem c s = Some (next_thread Q c \<noteq> None, s') \<and> sched_ok L s' \<and>
    (case next_thread Q c of None \<Rightarrow> s' = s | Some t \<Rightarrow> switched c t s s')"
proof (cases "next_thread Q c")
  case None
  then show ?thesis using pull_inv [OF ok(1) ts, of dbg alloc bmem] ok by (auto simp: sched_ok_def)
next
  case (Some t)
  then obtain s' Q' where "ts_pull dbg alloc bmem c s = Some (True, s')" "sched_inv L s' Q'" "switched c t s s'"
    using pull_inv [OF ok(1) ts, of dbg alloc bmem] by auto
  then show ?thesis using current_inv_switched [OF ok(2) _ ts nr] Some by (auto simp: sched_ok_def)
qed

section \<open>The operations of the tributary\<close>

lemma schedState_wf:
  "wf_thread cpus th \<Longrightarrow> th_currentCpu th \<noteq> None \<Longrightarrow> wf_thread cpus (th\<lparr>th_schedState := st\<rparr>)"
  by (auto simp: wf_thread_def waiting_def)

text \<open>Making a thread runnable that is in no queue.\<close>

lemma runnable_inv:
  assumes inv: "sched_inv L s Q" "current_inv s" and t: "sc_threads s t = Some th" "th_currentCpu th = Some c" "th_schedState th \<noteq> RUNNABLE"
    and a: "alloc_fresh alloc"
  shows "\<exists>e' s' Q'. ts_insertByPolicy alloc e c t (put_thread t (th\<lparr>th_schedState := RUNNABLE\<rparr>) s) = Some (e', s') \<and>
    requeued c (put_thread t (th\<lparr>th_schedState := RUNNABLE\<rparr>) s) s' \<and>
    sched_inv (if e' = ERROR_SUCCESS then L - {t} else insert t L) s' Q' \<and> current_inv s' \<and> (alloc_total alloc \<longrightarrow> e' = ERROR_SUCCESS)"
proof -
  let ?th = "th\<lparr>th_schedState := RUNNABLE\<rparr>"
  have "sched_inv (insert t L) s Q" using inv(1) t(1,3) by (intro sched_inv_park) auto
  then have "sched_inv (insert t L) (put_thread t ?th s) Q"
    using schedState_wf [OF sched_invD(3) [OF inv(1) t(1)]] t(1,2) by (intro sched_inv_update) auto
  then obtain e' s' Q' where P: "ts_insertByPolicy alloc e c t (put_thread t ?th s) = Some (e', s')" "requeued c (put_thread t ?th s) s'"
    "if e' = ERROR_SUCCESS then sched_inv (L - {t}) s' Q' else sched_inv (insert t L) s' Q'" "alloc_total alloc \<longrightarrow> e' = ERROR_SUCCESS"
    using insertByPolicy_inv [of t L "put_thread t ?th s" Q ?th c alloc e] t(2) a by auto
  moreover have "current_inv s'" using current_inv_put [OF inv(2) t(1)] by (intro current_inv_requeued [OF _ P(2)]) simp
  ultimately show ?thesis by (intro exI [of _ e'] exI [of _ s'] exI [of _ Q']) (simp split: if_splits)
qed

text \<open>The precondition of a switch: a thread that is not queued runs, as far as the build checks it.\<close>

definition may_switch :: "bool \<Rightarrow> u32 \<Rightarrow> sched \<Rightarrow> bool" where
  "may_switch dbg me s \<longleftrightarrow> (\<exists>ts th. sc_cpus s me = Some ts \<and> sc_threads s (ts_currentThread ts) = Some th \<and> th_schedState th \<noteq> RUNNABLE \<and>
     tt_checkCurrent dbg th = Some ())"

lemma yield_ok:
  assumes ok: "sched_ok L s" and sw: "may_switch dbg me s" and a: "alloc_fresh alloc"
  shows "\<exists>s' L' t. tt_yield dbg alloc bmem me s = Some s' \<and> sched_ok L' s' \<and> map_option ts_currentThread (sc_cpus s me) = Some t \<and>
    (if alloc_total alloc then L' = L - {t} else L' = L - {t} \<or> L' = insert t L)"
proof -
  obtain Q ts th where inv: "sched_inv L s Q" "current_inv s" and P: "sc_cpus s me = Some ts" "sc_threads s (ts_currentThread ts) = Some th"
    "th_schedState th \<noteq> RUNNABLE" "tt_checkCurrent dbg th = Some ()" using ok sw by (auto simp: sched_ok_def may_switch_def)
  let ?t = "ts_currentThread ts"
  have c: "th_currentCpu th = Some me" using current_invD(1) [OF inv(2) P(1)] P(2) by simp
  let ?s0 = "put_thread ?t (th\<lparr>th_schedState := RUNNABLE\<rparr>) s"
  obtain e' s1 Q1 where I: "ts_insertByPolicy alloc ERROR_SUCCESS me ?t ?s0 = Some (e', s1)" "requeued me ?s0 s1"
    "sched_inv (if e' = ERROR_SUCCESS then L - {?t} else insert ?t L) s1 Q1" "current_inv s1" "alloc_total alloc \<longrightarrow> e' = ERROR_SUCCESS"
    using runnable_inv [OF inv P(2) c P(3) a, of ERROR_SUCCESS] by blast
  obtain ts1 where ts1: "sc_cpus s1 me = Some ts1" "ts_currentThread ts1 = ?t" using requeued_cpus [OF I(2), of me] P(1) by auto
  have "sc_threads s1 ?t = Some (th\<lparr>th_schedState := RUNNABLE\<rparr>)" using requeued_threads [OF I(2)] by simp
  then obtain s' where s': "ts_pull dbg alloc bmem me s1 = Some (next_thread Q1 me \<noteq> None, s')" "sched_ok (if e' = ERROR_SUCCESS then L - {?t} else insert ?t L) s'"
    using pull_ok [OF I(3,4) ts1(1), of dbg alloc bmem] ts1(2) by auto
  have "tt_yield dbg alloc bmem me s = Some s'" using P I(1) s'(1) by (simp add: tt_yield_def ts_yield_def thread_upd_Some)
  then show ?thesis using s'(2) I(5) P(1) by (intro exI [of _ s'] exI [of _ "if e' = ERROR_SUCCESS then L - {?t} else insert ?t L"] exI [of _ ?t]) auto
qed

text \<open>A thread that blocks or goes dormant.\<close>

lemma leave_inv:
  assumes inv: "sched_inv L s Q" "current_inv s" and t: "sc_threads s t = Some th" "th_currentCpu th = Some c" and st: "st \<noteq> RUNNABLE" "st \<noteq> RUNNING"
  shows "\<exists>s' Q'. ts_removeByPolicy c t (put_thread t (th\<lparr>th_schedState := st\<rparr>) s) = Some s' \<and> requeued c (put_thread t (th\<lparr>th_schedState := st\<rparr>) s) s' \<and>
    sched_inv (L - {t}) s' Q' \<and> current_inv s'"
proof -
  obtain s' Q' where P: "ts_removeByPolicy c t (put_thread t (th\<lparr>th_schedState := st\<rparr>) s) = Some s'" "requeued c (put_thread t (th\<lparr>th_schedState := st\<rparr>) s) s'"
    "sched_inv (L - {t}) s' Q'" using removeByPolicy_inv [OF inv(1) t refl st(1)] by blast
  moreover have "current_inv s'" using current_inv_put [OF inv(2) t(1)] st(2) by (intro current_inv_requeued [OF _ P(2)]) simp
  ultimately show ?thesis by blast
qed

lemma block_ok:
  assumes ok: "sched_ok L s" and ts: "sc_cpus s me = Some ts" "sc_threads s (ts_currentThread ts) = Some th" "tt_checkCurrent dbg th = Some ()"
  shows "\<exists>s'. tt_block dbg alloc bmem me s = Some s' \<and> sched_ok (L - {ts_currentThread ts}) s'"
proof -
  obtain Q where inv: "sched_inv L s Q" "current_inv s" using ok by (auto simp: sched_ok_def)
  let ?t = "ts_currentThread ts" and ?th = "th\<lparr>th_schedState := BLOCKED\<rparr>"
  have c: "th_currentCpu th = Some me" using current_invD(1) [OF inv(2) ts(1)] ts(2) by simp
  obtain s1 Q1 where I: "ts_removeByPolicy me ?t (put_thread ?t ?th s) = Some s1" "requeued me (put_thread ?t ?th s) s1"
    "sched_inv (L - {?t}) s1 Q1" "current_inv s1" using leave_inv [OF inv ts(2) c, of BLOCKED] by auto
  obtain ts1 where ts1: "sc_cpus s1 me = Some ts1" "ts_currentThread ts1 = ?t" using requeued_cpus [OF I(2), of me] ts(1) by auto
  have "sc_threads s1 ?t = Some ?th" using requeued_threads [OF I(2)] by simp
  then obtain s' where "ts_pull dbg alloc bmem me s1 = Some (next_thread Q1 me \<noteq> None, s')" "sched_ok (L - {?t}) s'"
    using pull_ok [OF I(3,4) ts1(1), of dbg alloc bmem] ts1(2) by auto
  then show ?thesis using ts I(1) by (simp add: tt_block_def ts_block_def thread_upd_Some)
qed

lemma dormant_ok:
  assumes ok: "sched_ok L s" and t: "sc_threads s t = Some th" and me: "sc_cpus s me \<noteq> None"
  shows "\<exists>s' L'. tt_dormant dbg alloc bmem me (Some t) s = Some (ERROR_SUCCESS, s') \<and> sched_ok L' s' \<and> L' \<subseteq> L"
proof (cases "th_schedState th = UNSCHEDULED \<or> th_schedState th = DORMANT")
  case True
  then show ?thesis using ok t by (auto simp: tt_dormant_def)
next
  case False
  obtain Q where inv: "sched_inv L s Q" "current_inv s" using ok by (auto simp: sched_ok_def)
  let ?th = "th\<lparr>th_schedState := DORMANT\<rparr>"
  obtain c where c: "th_currentCpu th = Some c" using sched_invD(3) [OF inv(1) t] False by (auto simp: wf_thread_def)
  obtain s1 Q1 where I: "ts_removeByPolicy c t (put_thread t ?th s) = Some s1" "requeued c (put_thread t ?th s) s1"
    "sched_inv (L - {t}) s1 Q1" "current_inv s1" using leave_inv [OF inv t c, of DORMANT] by auto
  obtain ts1 where ts1: "sc_cpus s1 me = Some ts1" using requeued_cpus [OF I(2), of me] me by (cases "sc_cpus s1 me") auto
  have "sc_threads s1 t = Some ?th" using requeued_threads [OF I(2)] by simp
  then have "\<exists>s'. ts_pull dbg alloc bmem me s1 = Some (next_thread Q1 me \<noteq> None, s') \<and> sched_ok (L - {t}) s'" if "t = ts_currentThread ts1"
    using pull_ok [OF I(3,4) ts1, of dbg alloc bmem] that by auto
  moreover have "sched_ok (L - {t}) s1" using I(3,4) by (auto simp: sched_ok_def)
  ultimately show ?thesis using t False c I(1) ts1
    by (cases "c = me \<and> t = ts_currentThread ts1") (auto simp: tt_dormant_def ts_dormant_def thread_upd_Some intro!: exI [of _ "L - {t}"])
qed

lemma may_switch_requeued:
  assumes sw: "may_switch dbg me s" and r: "requeued c (put_thread t th' s) s'" and t: "map_option ts_currentThread (sc_cpus s me) \<noteq> Some t"
  shows "may_switch dbg me s'"
proof -
  obtain ts th where P: "sc_cpus s me = Some ts" "sc_threads s (ts_currentThread ts) = Some th" "th_schedState th \<noteq> RUNNABLE" "tt_checkCurrent dbg th = Some ()"
    using sw by (auto simp: may_switch_def)
  obtain ts' where "sc_cpus s' me = Some ts'" "ts_currentThread ts' = ts_currentThread ts" using requeued_cpus [OF r, of me] P(1) by auto
  moreover have "sc_threads s' (ts_currentThread ts) = Some th" using requeued_threads [OF r] P(1,2) t by auto
  ultimately show ?thesis using P(3,4) unfolding may_switch_def by auto
qed

lemma preempt_ok:
  assumes ok: "sched_ok L s" and t: "sc_threads s t = Some th" "th_currentCpu th = Some c" and a: "alloc_fresh alloc" "alloc_total alloc"
    and sw: "map_option ts_currentThread (sc_cpus s me) \<noteq> Some t \<Longrightarrow> may_switch dbg me s"
  shows "\<exists>s' L'. tt_preempt dbg alloc bmem me t s = Some s' \<and> sched_ok L' s' \<and> L' \<subseteq> L"
proof -
  obtain Q where inv: "sched_inv L s Q" "current_inv s" using ok by (auto simp: sched_ok_def)
  obtain ts where ts: "sc_cpus s c = Some ts" using sched_invD(3) [OF inv(1) t(1)] t(2) by (auto simp: wf_thread_def)
  obtain tho where o: "sc_threads s (ts_currentThread ts) = Some tho" using current_invD(1) [OF inv(2) ts] by blast
  define b where "b \<longleftrightarrow> th_schedPrio tho < th_schedPrio th \<and> \<not> (th_schedPolicy tho = REAL_TIME \<and> th_schedPolicy th = ROUND_ROBIN)"
  have b: "shouldPreemptCurrentThreadOn th c s = Some b" "b \<Longrightarrow> th_schedPrio th > th_schedPrio tho"
    using ts o by (auto simp: shouldPreemptCurrentThreadOn_def b_def)
  show ?thesis
  proof (cases "b \<and> c = me")
    case True
    then have "ts_currentThread ts \<noteq> t" using b(2) o t(1) by auto
    then have "may_switch dbg me s" using sw True ts by simp
    then obtain s' L' u where "tt_yield dbg alloc bmem me s = Some s'" "sched_ok L' s'" "L' = L - {u}" using yield_ok [OF ok _ a(1)] a(2) by (metis (full_types))
    then show ?thesis using True b(1) t by (auto simp: tt_preempt_def)
  next
    case False
    then show ?thesis using b(1) t ok by (auto simp: tt_preempt_def)
  qed
qed

text \<open>Queueing a thread and letting it preempt: the common part of \<open>unblock\<close> and \<open>wake\<close>.\<close>

lemma enqueue_preempt_ok:
  assumes ok: "sched_ok L s" and t: "sc_threads s t = Some th" "th_currentCpu th = Some c" "th_schedState th \<noteq> RUNNABLE"
    and a: "alloc_fresh alloc" "alloc_total alloc" and sw: "may_switch dbg me s"
  shows "\<exists>s1 s' L'. ts_insertByPolicy alloc e c t (put_thread t (th\<lparr>th_schedState := RUNNABLE\<rparr>) s) = Some (ERROR_SUCCESS, s1) \<and>
    tt_preempt dbg alloc bmem me t s1 = Some s' \<and> sched_ok L' s' \<and> L' \<subseteq> L"
proof -
  obtain Q where inv: "sched_inv L s Q" "current_inv s" using ok by (auto simp: sched_ok_def)
  let ?s0 = "put_thread t (th\<lparr>th_schedState := RUNNABLE\<rparr>) s"
  obtain e' s1 Q1 where I: "ts_insertByPolicy alloc e c t ?s0 = Some (e', s1)" "requeued c ?s0 s1"
    "sched_inv (if e' = ERROR_SUCCESS then L - {t} else insert t L) s1 Q1" "current_inv s1" "e' = ERROR_SUCCESS"
    using runnable_inv [OF inv t a(1), of e] a(2) by blast
  have ok1: "sched_ok (L - {t}) s1" using I(3-5) by (auto simp: sched_ok_def)
  have t1: "sc_threads s1 t = Some (th\<lparr>th_schedState := RUNNABLE\<rparr>)" using requeued_threads [OF I(2)] by simp
  have sw1: "may_switch dbg me s1" if "map_option ts_currentThread (sc_cpus s1 me) \<noteq> Some t"
    using may_switch_requeued [OF sw I(2)] that requeued_cpus [OF I(2), of me] by simp
  obtain s' L' where "tt_preempt dbg alloc bmem me t s1 = Some s'" "sched_ok L' s'" "L' \<subseteq> L - {t}"
    using preempt_ok [OF ok1 t1 _ a sw1, of c bmem] t(2) by auto
  then show ?thesis using I(1,5) by blast
qed

lemma unblock_ok:
  assumes ok: "sched_ok L s" and t: "sc_threads s t = Some th" and a: "alloc_fresh alloc" "alloc_total alloc" and sw: "may_switch dbg me s"
  shows "\<exists>e s' L'. tt_unblock dbg alloc bmem me (Some t) s = Some (e, s') \<and> sched_ok L' s' \<and> L' \<subseteq> L \<and>
    (e = ERROR_SUCCESS \<longleftrightarrow> th_schedState th \<in> {RUNNABLE, RUNNING, BLOCKED})"
proof (cases "th_schedState th = BLOCKED")
  case True
  obtain Q where inv: "sched_inv L s Q" using ok by (auto simp: sched_ok_def)
  obtain c where c: "th_currentCpu th = Some c" using sched_invD(3) [OF inv t] True by (auto simp: wf_thread_def)
  then show ?thesis using enqueue_preempt_ok [OF ok t c _ a sw, of ERROR_UNSUPPORTED bmem] True t
    by (auto simp: tt_unblock_def ts_unblock_def thread_upd_Some)
next
  case False
  then show ?thesis using ok t by (auto simp: tt_unblock_def)
qed

section \<open>Placing a thread on a CPU\<close>

lemma updateLoad_frame:
  assumes "sc_cpus s c = Some ts"
  shows "\<exists>s'. ts_updateLoad c act v s = Some s' \<and> sc_threads s' = sc_threads s \<and> same_queues (sc_cpus s) (sc_cpus s') \<and>
    (\<forall>d. map_option ts_currentThread (sc_cpus s' d) = map_option ts_currentThread (sc_cpus s d)) \<and>
    sc_cpuTrace s' = sc_cpuTrace s \<and> sc_onlineCpus s' = sc_onlineCpus s \<and>
    (\<forall>d. map_option ts_load (sc_cpus s' d) =
      (if d = c then Some (case update_val act v (ts_load ts) of None \<Rightarrow> ts_load ts | Some l \<Rightarrow> l) else map_option ts_load (sc_cpus s d)))"
proof -
  have f: "sc_threads (ncb_updateLoad b act v u) = sc_threads u" "sc_cpus (ncb_updateLoad b act v u) = sc_cpus u"
    "sc_cpuTrace (ncb_updateLoad b act v u) = sc_cpuTrace u" "sc_onlineCpus (ncb_updateLoad b act v u) = sc_onlineCpus u" for b u
    by (simp_all add: ncb_updateLoad_def split: option.split)
  show ?thesis
  proof (cases "update_val act v (ts_load ts)")
    case (Some l)
    have "same_queues (sc_cpus s) (sc_cpus (ts_put c (ts\<lparr>ts_load := l\<rparr>) s))" by (rule same_queues_put [OF assms]) simp_all
    then show ?thesis using assms Some by (simp add: ts_updateLoad_def f)
  qed (use assms in \<open>simp add: ts_updateLoad_def\<close>)
qed

lemma current_inv_frame:
  assumes cur: "current_inv s" and t: "sc_threads s' = sc_threads s"
    and c: "\<And>d. map_option ts_currentThread (sc_cpus s' d) = map_option ts_currentThread (sc_cpus s d)"
  shows "current_inv s'"
  unfolding current_inv_def
proof (intro conjI allI impI)
  have eq: "(\<exists>x. sc_cpus s' d = Some x \<and> ts_currentThread x = u) \<longleftrightarrow> (\<exists>x. sc_cpus s d = Some x \<and> ts_currentThread x = u)" for d u
    using c [of d] by (cases "sc_cpus s' d"; cases "sc_cpus s d") auto
  show "\<exists>th. sc_threads s' (ts_currentThread ts) = Some th \<and> th_currentCpu th = Some d" if "sc_cpus s' d = Some ts" for d ts
    using eq [of d "ts_currentThread ts"] that current_invD(1) [OF cur, of d] unfolding t by metis
  show "\<exists>d ts. th_currentCpu th = Some d \<and> sc_cpus s' d = Some ts \<and> ts_currentThread ts = u" if "sc_threads s' u = Some th" "th_schedState th = RUNNING" for u th
    using current_invD(2) [OF cur, of u th] that eq unfolding t by metis
qed

lemma not_queued:
  assumes inv: "sched_inv L s Q" and ts: "sc_cpus s c = Some ts" and pol: "pol \<noteq> POLICY_INVALID"
    and t: "\<And>th. sc_threads s t = Some th \<Longrightarrow> th_schedState th \<noteq> RUNNABLE"
  shows "prioq_find t (ts_queue pol ts) = Some False"
proof -
  have q: "pq_abs (ts_queue pol ts) (Q c pol)" "length (Q c pol) = 20"
    using sched_invD(4) [OF inv ts pol] queue_ok_length by (auto simp: queue_ok_def)
  have "t \<notin> set l" if l: "l \<in> set (Q c pol)" for l
  proof -
    obtain i where i: "i < 20" "l = Q c pol ! i" using l q(2) by (auto simp: in_set_conv_nth)
    then show ?thesis using sched_invD(6) [OF inv ts pol i(1)] t by (auto simp: homes_def at_home_def)
  qed
  then show ?thesis using prioq_find_refines [OF q(1), of t] by simp
qed

lemma checkNotQueued_ok:
  assumes inv: "sched_inv L s Q" and ts: "sc_cpus s c = Some ts" and t: "\<And>th. sc_threads s t = Some th \<Longrightarrow> th_schedState th \<noteq> RUNNABLE"
  shows "ts_checkNotQueued dbg c t s = Some ()"
  using not_queued [OF inv ts _ t, of ROUND_ROBIN] not_queued [OF inv ts _ t, of REAL_TIME] ts by (simp add: ts_checkNotQueued_def)

text \<open>The allocator of bitmaps returns arrays of the size asked for, or nothing.\<close>

definition bmem_exact :: "bmp_alloc \<Rightarrow> bool" where
  "bmem_exact bmem \<longleftrightarrow> (\<forall>n arr. bmem n = Some arr \<longrightarrow> length arr = unat (BITMAP_NELEMENTS_FOR_BITS n))"

definition trace_ok :: "bmap \<Rightarrow> bool" where
  "trace_ok b \<longleftrightarrow> bmap_inv b \<and> unat (b_nBits b) < 2 ^ 31"

lemma bmap_setSingle_nBits: "bmap_setSingle b s = Some s' \<Longrightarrow> b_nBits s' = b_nBits s"
  by (auto simp: bmap_setSingle_def bmap_set_def lock_acquire_def split: if_splits bind_splits)

lemma schedule_ok:
  assumes ok: "sched_ok L s" and t: "sc_threads s t = Some th" "th_schedState th \<noteq> RUNNABLE" "th_schedState th \<noteq> RUNNING"
    and idle: "\<And>d ts. sc_cpus s d = Some ts \<Longrightarrow> ts_currentThread ts \<noteq> t"
    and c: "sc_cpus s c = Some ts" "unat c < 2 ^ 31 - 1" and tr: "sc_cpuTrace s (th_parent th) = Some tr" "trace_ok tr"
    and a: "alloc_fresh alloc" "alloc_total alloc" and b: "bmem_exact bmem" "bmem (c + 1) \<noteq> None"
  shows "\<exists>s' tr'. ts_schedule dbg alloc bmem c t s = Some (ERROR_SUCCESS, s') \<and> sched_ok (L - {t}) s' \<and>
    sc_threads s' = (sc_threads s)(t \<mapsto> th\<lparr>th_schedState := RUNNABLE, th_currentCpu := Some c\<rparr>) \<and>
    (\<forall>d. map_option ts_currentThread (sc_cpus s' d) = map_option ts_currentThread (sc_cpus s d)) \<and>
    (\<forall>d. map_option ts_load (sc_cpus s' d) = (if d = c then Some (ts_load ts + 1) else map_option ts_load (sc_cpus s d))) \<and>
    sc_cpuTrace s' = (sc_cpuTrace s)(th_parent th \<mapsto> tr') \<and> trace_ok tr' \<and> unat c \<in> bmap_elems tr' \<and> b_nBits tr' = c + 1"
proof -
  obtain Q where inv: "sched_inv L s Q" "current_inv s" using ok by (auto simp: sched_ok_def)
  have c1: "unat (c + 1) = Suc (unat c)" using c(2) by (simp add: unat_word_ariths)
  then have n: "0 < c + 1" "unat (c + 1) < 2 ^ 31" "unat (b_nBits tr) < 2 ^ 31" using c(2) tr(2) by (simp_all add: word_less_nat_alt trace_ok_def)
  have "\<forall>tmp. bmem (c + 1) = Some tmp \<longrightarrow> length tmp = unat (BITMAP_NELEMENTS_FOR_BITS (c + 1))" using b(1) by (simp add: bmem_exact_def)
  then obtain tr1 where tr1: "bmap_resizeTo (c + 1) (bmem (c + 1)) tr = Some (ERROR_SUCCESS, tr1)" "bmap_inv tr1" "b_nBits tr1 = c + 1"
    using bmap_resizeTo_elems [OF _ n, of "bmem (c + 1)"] tr(2) b(2) unfolding trace_ok_def by (metis (no_types, lifting))
  have "c < b_nBits tr1" using tr1(3) c1 by (simp add: word_less_nat_alt)
  then obtain tr2 where tr2: "bmap_setSingle c tr1 = Some tr2" "bmap_inv tr2" "unat c \<in> bmap_elems tr2" "b_nBits tr2 = c + 1"
    using bmap_setSingle_elems [OF tr1(2), of c] bmap_setSingle_nBits [of c tr1] tr1(3) by auto
  let ?th = "th\<lparr>th_schedState := RUNNABLE, th_currentCpu := Some c\<rparr>"
  let ?s1 = "s\<lparr>sc_cpuTrace := (sc_cpuTrace s)(th_parent th \<mapsto> tr1)\<rparr>"
  have inv1: "sched_inv L ?s1 Q" by (rule sched_inv_frame [OF inv(1)]) simp_all
  have chk: "ts_checkNotQueued dbg c t ?s1 = Some ()" by (rule checkNotQueued_ok [OF inv1]) (use t c in auto)
  have "sched_inv (insert t L) ?s1 Q" using t by (intro sched_inv_park(1) [OF inv1]) auto
  moreover have "wf_thread (sc_cpus ?s1) ?th" using sched_invD(3) [OF inv(1) t(1)] c(1) by (simp add: wf_thread_def waiting_def)
  ultimately have "sched_inv (insert t L) (put_thread t ?th ?s1) Q" using t(1) by (intro sched_inv_update) auto
  then obtain s2 Q2 where I: "ts_insertByPolicy alloc ERROR_INVALID_ARG_VAL c t (put_thread t ?th ?s1) = Some (ERROR_SUCCESS, s2)"
    "requeued c (put_thread t ?th ?s1) s2" "sched_inv (L - {t}) s2 Q2"
    using insertByPolicy_inv [of t L "put_thread t ?th ?s1" Q ?th c alloc ERROR_INVALID_ARG_VAL] a by auto
  have cur1: "current_inv (put_thread t ?th ?s1)" unfolding current_inv_def
    using current_invD [OF inv(2)] idle by simp
  let ?s3 = "s2\<lparr>sc_cpuTrace := (sc_cpuTrace s2)(th_parent th \<mapsto> tr2)\<rparr>"
  obtain ts2 where ts2: "sc_cpus ?s3 c = Some ts2" "ts_load ts2 = ts_load ts" using requeued_load [OF I(2), of c] c(1) by auto
  obtain s' where U: "ts_updateLoad c UPDATE_ADD 1 ?s3 = Some s'" "sc_threads s' = sc_threads ?s3" "same_queues (sc_cpus ?s3) (sc_cpus s')"
    "\<And>d. map_option ts_currentThread (sc_cpus s' d) = map_option ts_currentThread (sc_cpus ?s3 d)" "sc_cpuTrace s' = sc_cpuTrace ?s3"
    "\<And>d. map_option ts_load (sc_cpus s' d) = (if d = c then Some (ts_load ts + 1) else map_option ts_load (sc_cpus ?s3 d))"
    using updateLoad_frame [OF ts2(1), of UPDATE_ADD 1] ts2(2) by (auto simp: update_val_def)
  have "sched_inv (L - {t}) s' Q2" by (rule sched_inv_frame [OF I(3)]) (use U(2,3) in simp_all)
  moreover have "current_inv s'"
    by (rule current_inv_frame [OF current_inv_requeued [OF cur1 I(2)]]) (use U(2,4) in simp_all)
  ultimately have "sched_ok (L - {t}) s'" by (auto simp: sched_ok_def)
  moreover have "ts_schedule dbg alloc bmem c t s = Some (ERROR_SUCCESS, s')"
    using t(1) tr(1) tr1(1) chk I(1) tr2(1) U(1) by (simp add: ts_schedule_def thread_upd_Some)
  ultimately show ?thesis using U tr2 requeued_threads [OF I(2)] requeued_cpus [OF I(2)] requeued_load [OF I(2)] requeued_other(1) [OF I(2)] n(2)
    by (intro exI [of _ s'] exI [of _ tr2] conjI allI) (simp_all add: trace_ok_def)
qed

lemma schedule_preserves:
  assumes ok: "sched_ok L s" and t: "sc_threads s t = Some th" "th_schedState th \<noteq> RUNNABLE" "th_schedState th \<noteq> RUNNING"
    and idle: "\<And>d ts. sc_cpus s d = Some ts \<Longrightarrow> ts_currentThread ts \<noteq> t"
    and a: "alloc_fresh alloc" "alloc_total alloc" and r: "ts_schedule dbg alloc bmem c t s = Some (e, s')"
  shows "\<exists>L'. sched_ok L' s' \<and> L' \<subseteq> L" "\<And>d. map_option ts_currentThread (sc_cpus s' d) = map_option ts_currentThread (sc_cpus s d)"
    "\<And>u. u \<noteq> t \<Longrightarrow> sc_threads s' u = sc_threads s u"
    "e = ERROR_SUCCESS \<Longrightarrow> sc_threads s' t = Some (th\<lparr>th_schedState := RUNNABLE, th_currentCpu := Some c\<rparr>)"
    "e \<noteq> ERROR_SUCCESS \<Longrightarrow> sc_threads s' t = Some th"
proof -
  obtain Q where inv: "sched_inv L s Q" "current_inv s" using ok by (auto simp: sched_ok_def)
  obtain tr e1 tr1 where tr: "sc_cpuTrace s (th_parent th) = Some tr" "bmap_resizeTo (c + 1) (bmem (c + 1)) tr = Some (e1, tr1)"
    using r t(1) by (auto simp: ts_schedule_def split: bind_splits)
  let ?th = "th\<lparr>th_schedState := RUNNABLE, th_currentCpu := Some c\<rparr>"
  let ?s1 = "s\<lparr>sc_cpuTrace := (sc_cpuTrace s)(th_parent th \<mapsto> tr1)\<rparr>"
  have inv1: "sched_inv L ?s1 Q" by (rule sched_inv_frame [OF inv(1)]) simp_all
  have cur1: "current_inv ?s1" by (rule current_inv_frame [OF inv(2)]) simp_all
  have "(\<exists>L'. sched_ok L' s' \<and> L' \<subseteq> L) \<and> (\<forall>d. map_option ts_currentThread (sc_cpus s' d) = map_option ts_currentThread (sc_cpus s d)) \<and>
    sc_threads s' = (if e = ERROR_SUCCESS then (sc_threads s)(t \<mapsto> ?th) else sc_threads s)"
  proof (cases "e1 = ERROR_SUCCESS")
    case False
    then have "s' = ?s1" "e = e1" using r t(1) tr by (simp_all add: ts_schedule_def)
    then show ?thesis using inv1 cur1 False by (auto simp: sched_ok_def)
  next
    case True
    have r2: "do { u \<leftarrow> ts_checkNotQueued dbg c t ?s1;
         (ret, s) \<leftarrow> ts_insertByPolicy alloc ERROR_INVALID_ARG_VAL c t (put_thread t ?th ?s1);
         if ret \<noteq> ERROR_SUCCESS then Some (ret, s)
         else do { trace \<leftarrow> bmap_setSingle c tr1;
           s \<leftarrow> ts_updateLoad c UPDATE_ADD 1 (s\<lparr>sc_cpuTrace := (sc_cpuTrace s)(th_parent th \<mapsto> trace)\<rparr>);
           Some (ret, s) } } = Some (e, s')" using r t(1) tr True by (simp add: ts_schedule_def thread_upd_Some Let_def)
    have "\<exists>ts. sc_cpus s c = Some ts" using r2 by (auto simp: ts_insertByPolicy_def split: bind_splits)
    then obtain ts where ts: "sc_cpus s c = Some ts" by blast
    have "sched_inv (insert t L) ?s1 Q" using t by (intro sched_inv_park(1) [OF inv1]) auto
    moreover have "wf_thread (sc_cpus ?s1) ?th" using sched_invD(3) [OF inv(1) t(1)] ts by (simp add: wf_thread_def waiting_def)
    ultimately have "sched_inv (insert t L) (put_thread t ?th ?s1) Q" using t(1) by (intro sched_inv_update) auto
    then obtain s2 Q2 where I: "ts_insertByPolicy alloc ERROR_INVALID_ARG_VAL c t (put_thread t ?th ?s1) = Some (ERROR_SUCCESS, s2)"
      "requeued c (put_thread t ?th ?s1) s2" "sched_inv (L - {t}) s2 Q2"
      using insertByPolicy_inv [of t L "put_thread t ?th ?s1" Q ?th c alloc ERROR_INVALID_ARG_VAL] a by auto
    have cur2: "current_inv s2" by (rule current_inv_requeued [OF _ I(2)]) (use current_invD [OF inv(2)] idle in \<open>simp add: current_inv_def\<close>)
    obtain tr2 where U: "ts_updateLoad c UPDATE_ADD 1 (s2\<lparr>sc_cpuTrace := (sc_cpuTrace s2)(th_parent th \<mapsto> tr2)\<rparr>) = Some s'" "e = ERROR_SUCCESS"
      using r2 I(1) by (auto split: bind_splits)
    let ?s3 = "s2\<lparr>sc_cpuTrace := (sc_cpuTrace s2)(th_parent th \<mapsto> tr2)\<rparr>"
    obtain ts2 where ts2: "sc_cpus ?s3 c = Some ts2" using requeued_load [OF I(2), of c] ts by (cases "sc_cpus s2 c") auto
    have F: "sc_threads s' = sc_threads ?s3" "same_queues (sc_cpus ?s3) (sc_cpus s')"
      "\<And>d. map_option ts_currentThread (sc_cpus s' d) = map_option ts_currentThread (sc_cpus ?s3 d)"
      using updateLoad_frame [OF ts2, of UPDATE_ADD 1] U(1) by auto
    have "sched_inv (L - {t}) s' Q2" by (rule sched_inv_frame [OF I(3)]) (use F in simp_all)
    moreover have "current_inv s'" by (rule current_inv_frame [OF cur2]) (use F in simp_all)
    ultimately show ?thesis using F(1,3) U(2) requeued_threads [OF I(2)] requeued_cpus [OF I(2)] unfolding sched_ok_def by auto
  qed
  then show "\<exists>L'. sched_ok L' s' \<and> L' \<subseteq> L" "\<And>d. map_option ts_currentThread (sc_cpus s' d) = map_option ts_currentThread (sc_cpus s d)"
    "\<And>u. u \<noteq> t \<Longrightarrow> sc_threads s' u = sc_threads s u"
    "e = ERROR_SUCCESS \<Longrightarrow> sc_threads s' t = Some ?th" "e \<noteq> ERROR_SUCCESS \<Longrightarrow> sc_threads s' t = Some th" using t(1) by auto
qed

lemma tt_schedule_cases:
  assumes "tt_schedule dbg alloc bmem t s = Some (e, s')"
  obtains "e = ERROR_UNKNOWN" "s' = s" | c where "ts_schedule dbg alloc bmem c t s = Some (e, s')"
proof -
  obtain best where "(case best of None \<Rightarrow> Some (ERROR_UNKNOWN, s) | Some c \<Rightarrow> ts_schedule dbg alloc bmem c t s) = Some (e, s')"
    using assms unfolding tt_schedule_def by (auto simp: bind_eq_Some_conv)
  then show thesis using that by (cases best) auto
qed

lemma ncb_schedule_cases:
  assumes "ncb_schedule dbg alloc bmem t s = Some (e, s')"
  obtains "e = ERROR_UNKNOWN" "s' = s" | c where "ts_schedule dbg alloc bmem c t s = Some (e, s')"
proof -
  obtain best where "(case best of None \<Rightarrow> Some (ERROR_UNKNOWN, s) | Some c \<Rightarrow> ts_schedule dbg alloc bmem c t s) = Some (e, s')"
    using assms unfolding ncb_schedule_def by (auto simp: bind_eq_Some_conv)
  then show thesis using that by (cases best) auto
qed

lemma wake_preserves:
  assumes ok: "sched_ok L s" and sw: "may_switch dbg me s" and t: "sc_threads s t = Some th"
    and idle: "th_schedState th = UNSCHEDULED \<Longrightarrow> (\<And>d ts. sc_cpus s d = Some ts \<Longrightarrow> ts_currentThread ts \<noteq> t)"
    and a: "alloc_fresh alloc" "alloc_total alloc" and r: "tt_wake dbg alloc bmem me (Some t) s = Some (e, s')"
  shows "\<exists>L'. sched_ok L' s' \<and> L' \<subseteq> L"
proof (cases "th_schedState th = RUNNABLE \<or> th_schedState th = RUNNING")
  case True
  then show ?thesis using r t ok by (auto simp: tt_wake_def)
next
  case False
  define pre where "pre = (if th_schedState th = UNSCHEDULED then tt_schedule dbg alloc bmem t s else Some (ERROR_SUCCESS, s))"
  obtain e1 s1 where s1: "pre = Some (e1, s1)" using r t False by (auto simp: tt_wake_def pre_def split: bind_splits)
  have s1_ok: "\<exists>L'. sched_ok L' s1 \<and> L' \<subseteq> L" "may_switch dbg me s1"
    "sc_threads s1 t = Some th \<or> (\<exists>c. sc_threads s1 t = Some (th\<lparr>th_schedState := RUNNABLE, th_currentCpu := Some c\<rparr>))"
  proof -
    have "(\<exists>L'. sched_ok L' s1 \<and> L' \<subseteq> L) \<and> may_switch dbg me s1 \<and>
      (sc_threads s1 t = Some th \<or> (\<exists>c. sc_threads s1 t = Some (th\<lparr>th_schedState := RUNNABLE, th_currentCpu := Some c\<rparr>)))"
    proof (cases "th_schedState th = UNSCHEDULED")
      case True
      have "tt_schedule dbg alloc bmem t s = Some (e1, s1)" using s1 True by (simp add: pre_def)
      then show ?thesis
      proof (cases rule: tt_schedule_cases)
        case (2 c)
        have un: "th_schedState th \<noteq> RUNNABLE" "th_schedState th \<noteq> RUNNING" using True by simp_all
        have idle': "ts_currentThread ts \<noteq> t" if "sc_cpus s d = Some ts" for d ts by (rule idle [OF True that])
        have P: "\<exists>L'. sched_ok L' s1 \<and> L' \<subseteq> L" "\<And>d. map_option ts_currentThread (sc_cpus s1 d) = map_option ts_currentThread (sc_cpus s d)"
          "\<And>u. u \<noteq> t \<Longrightarrow> sc_threads s1 u = sc_threads s u"
          "e1 = ERROR_SUCCESS \<Longrightarrow> sc_threads s1 t = Some (th\<lparr>th_schedState := RUNNABLE, th_currentCpu := Some c\<rparr>)"
          "e1 \<noteq> ERROR_SUCCESS \<Longrightarrow> sc_threads s1 t = Some th"
          using schedule_preserves [OF ok t un _ a 2] idle' by blast+
        obtain ts thc where c: "sc_cpus s me = Some ts" "sc_threads s (ts_currentThread ts) = Some thc" "th_schedState thc \<noteq> RUNNABLE" "tt_checkCurrent dbg thc = Some ()"
          using sw by (auto simp: may_switch_def)
        obtain ts1 where "sc_cpus s1 me = Some ts1" "ts_currentThread ts1 = ts_currentThread ts" using P(2) [of me] c(1) by auto
        then have "may_switch dbg me s1" using P(3) [OF idle' [OF c(1)]] c unfolding may_switch_def by auto
        then show ?thesis using P(1,4,5) by blast
      qed (use ok sw t in auto)
    qed (use s1 ok sw t in \<open>auto simp: pre_def\<close>)
    then show "\<exists>L'. sched_ok L' s1 \<and> L' \<subseteq> L" "may_switch dbg me s1"
      "sc_threads s1 t = Some th \<or> (\<exists>c. sc_threads s1 t = Some (th\<lparr>th_schedState := RUNNABLE, th_currentCpu := Some c\<rparr>))" by blast+
  qed
  obtain th1 c where th1: "sc_threads s1 t = Some th1" "th_currentCpu th1 = Some c" "th1 = th \<or> th_schedState th1 = RUNNABLE"
    using s1_ok(3) r t False s1 unfolding pre_def by (auto simp: tt_wake_def split: bind_splits)
  obtain L1 where L1: "sched_ok L1 s1" "L1 \<subseteq> L" using s1_ok(1) by blast
  have r': "do { (err, s) \<leftarrow> ts_wake dbg alloc c t s1; u \<leftarrow> assert_fatal (err = ERROR_SUCCESS); s \<leftarrow> tt_preempt dbg alloc bmem me t s; Some (err, s) } = Some (e, s')"
    using r t False s1 th1(1,2) by (simp add: tt_wake_def pre_def)
  have "\<exists>s2 L2. tt_preempt dbg alloc bmem me t s2 = Some s' \<and> sched_ok L2 s' \<and> L2 \<subseteq> L1"
  proof (cases "th_schedState th1 = RUNNABLE")
    case True
    then have "ts_wake dbg alloc c t s1 = Some (ERROR_SUCCESS, s1)" using th1 by (simp add: ts_wake_def)
    then have "tt_preempt dbg alloc bmem me t s1 = Some s'" using r' by (auto split: bind_splits)
    then show ?thesis using preempt_ok [OF L1(1) th1(1,2) a s1_ok(2), of bmem] by auto
  next
    case nr: False
    then have st: "th_schedState th1 \<noteq> RUNNING" using th1(3) False by auto
    have "ts_wake dbg alloc c t s1 = ts_insertByPolicy alloc ERROR_CRITICAL c t (put_thread t (th1\<lparr>th_schedState := RUNNABLE\<rparr>) s1)"
      using r' st nr th1(1) by (auto simp: ts_wake_def thread_upd_Some split: if_splits bind_splits)
    then show ?thesis using enqueue_preempt_ok [OF L1(1) th1(1,2) nr a s1_ok(2), of ERROR_CRITICAL bmem] r' by (auto split: bind_splits)
  qed
  then show ?thesis using L1(2) by blast
qed

section \<open>Sequences of scheduler calls\<close>

text \<open>One call, made on CPU \<open>me\<close>.  The calls that may switch threads are made by a thread that is not in a run queue, and a thread is
  scheduled for the first time while it is on no CPU.\<close>

inductive sched_step :: "bool \<Rightarrow> node_alloc \<Rightarrow> bmp_alloc \<Rightarrow> sched \<Rightarrow> sched \<Rightarrow> bool" for dbg alloc bmem where
  yield: "may_switch dbg me s \<Longrightarrow> tt_yield dbg alloc bmem me s = Some s' \<Longrightarrow> sched_step dbg alloc bmem s s'"
| block: "tt_block dbg alloc bmem me s = Some s' \<Longrightarrow> sched_step dbg alloc bmem s s'"
| dormant: "sc_cpus s me \<noteq> None \<Longrightarrow> tt_dormant dbg alloc bmem me p s = Some (e, s') \<Longrightarrow> sched_step dbg alloc bmem s s'"
| unblock: "may_switch dbg me s \<Longrightarrow> tt_unblock dbg alloc bmem me p s = Some (e, s') \<Longrightarrow> sched_step dbg alloc bmem s s'"
| wake: "may_switch dbg me s \<Longrightarrow> (\<And>t th d ts. p = Some t \<Longrightarrow> sc_threads s t = Some th \<Longrightarrow> th_schedState th = UNSCHEDULED \<Longrightarrow>
      sc_cpus s d = Some ts \<Longrightarrow> ts_currentThread ts \<noteq> t) \<Longrightarrow>
    tt_wake dbg alloc bmem me p s = Some (e, s') \<Longrightarrow> sched_step dbg alloc bmem s s'"
| schedule: "sc_threads s t = Some th \<Longrightarrow> th_schedState th = UNSCHEDULED \<Longrightarrow> (\<And>d ts. sc_cpus s d = Some ts \<Longrightarrow> ts_currentThread ts \<noteq> t) \<Longrightarrow>
    tt_schedule dbg alloc bmem t s = Some (e, s') \<Longrightarrow> sched_step dbg alloc bmem s s'"
| bank_schedule: "sc_threads s t = Some th \<Longrightarrow> th_schedState th = UNSCHEDULED \<Longrightarrow> (\<And>d ts. sc_cpus s d = Some ts \<Longrightarrow> ts_currentThread ts \<noteq> t) \<Longrightarrow>
    ncb_schedule dbg alloc bmem t s = Some (e, s') \<Longrightarrow> sched_step dbg alloc bmem s s'"
| load: "ts_updateLoad c act v s = Some s' \<Longrightarrow> sched_step dbg alloc bmem s s'"
| resume: "sc_cpus s me = Some ts \<Longrightarrow> sc_threads s (ts_currentThread ts) = Some th \<Longrightarrow> th_schedState th \<noteq> RUNNING \<Longrightarrow>
    ts_pull dbg alloc bmem me s = Some (b, s') \<Longrightarrow> sched_step dbg alloc bmem s s'"

inductive sched_steps :: "bool \<Rightarrow> node_alloc \<Rightarrow> bmp_alloc \<Rightarrow> sched \<Rightarrow> sched \<Rightarrow> bool" for dbg alloc bmem where
  refl: "sched_steps dbg alloc bmem s s"
| step: "sched_steps dbg alloc bmem s s' \<Longrightarrow> sched_step dbg alloc bmem s' s'' \<Longrightarrow> sched_steps dbg alloc bmem s s''"

lemma sched_step_ok:
  assumes "sched_step dbg alloc bmem s s'" and a: "alloc_fresh alloc" "alloc_total alloc" and ok: "sched_ok L s"
  shows "\<exists>L'. sched_ok L' s' \<and> L' \<subseteq> L"
  using assms(1)
proof cases
  case (yield me)
  then show ?thesis using yield_ok [OF ok yield(1) a(1), of bmem] a(2) by auto
next
  case (block me)
  then obtain ts th where P: "sc_cpus s me = Some ts" "sc_threads s (ts_currentThread ts) = Some th" "tt_checkCurrent dbg th = Some ()"
    by (auto simp: tt_block_def split: bind_splits)
  then show ?thesis using block_ok [OF ok P, of alloc bmem] block by auto
next
  case (dormant me p e)
  show ?thesis
  proof (cases p)
    case (Some t)
    then obtain th where "sc_threads s t = Some th" using dormant by (auto simp: tt_dormant_def split: bind_splits)
    then show ?thesis using dormant_ok [OF ok _ dormant(1), of t th dbg alloc bmem] dormant(2) Some by auto
  qed (use dormant ok in \<open>auto simp: tt_dormant_def\<close>)
next
  case (unblock me p e)
  show ?thesis
  proof (cases p)
    case (Some t)
    then obtain th where "sc_threads s t = Some th" using unblock by (auto simp: tt_unblock_def split: bind_splits)
    then show ?thesis using unblock_ok [OF ok _ a unblock(1), of t th bmem] unblock Some by auto
  qed (use unblock ok in \<open>auto simp: tt_unblock_def\<close>)
next
  case (wake me p e)
  show ?thesis
  proof (cases p)
    case (Some t)
    then obtain th where th: "sc_threads s t = Some th" using wake by (auto simp: tt_wake_def split: bind_splits)
    have "tt_wake dbg alloc bmem me (Some t) s = Some (e, s')" using wake Some by simp
    moreover have "ts_currentThread ts \<noteq> t" if "th_schedState th = UNSCHEDULED" "sc_cpus s d = Some ts" for d ts by (rule wake(2) [OF Some th that])
    ultimately show ?thesis using wake_preserves [OF ok wake(1) th _ a] by blast
  qed (use wake ok in \<open>auto simp: tt_wake_def\<close>)
next
  case (schedule t th e)
  have un: "th_schedState th \<noteq> RUNNABLE" "th_schedState th \<noteq> RUNNING" using schedule by simp_all
  show ?thesis using schedule(4)
  proof (cases rule: tt_schedule_cases)
    case (2 c)
    show ?thesis by (rule schedule_preserves(1) [OF ok schedule(1) un schedule(3) a 2])
  qed (use ok in auto)
next
  case (bank_schedule t th e)
  have un: "th_schedState th \<noteq> RUNNABLE" "th_schedState th \<noteq> RUNNING" using bank_schedule by simp_all
  show ?thesis using bank_schedule(4)
  proof (cases rule: ncb_schedule_cases)
    case (2 c)
    show ?thesis by (rule schedule_preserves(1) [OF ok bank_schedule(1) un bank_schedule(3) a 2])
  qed (use ok in auto)
next
  case (load c act v)
  then obtain ts where "sc_cpus s c = Some ts" by (auto simp: ts_updateLoad_def split: bind_splits)
  from updateLoad_frame [OF this, of act v] load have "sc_threads s' = sc_threads s" "same_queues (sc_cpus s) (sc_cpus s')"
    "\<And>d. map_option ts_currentThread (sc_cpus s' d) = map_option ts_currentThread (sc_cpus s d)" by auto
  then show ?thesis using ok sched_inv_frame current_inv_frame unfolding sched_ok_def by blast
next
  case (resume me ts th b)
  then obtain Q where "sched_inv L s Q" "current_inv s" using ok by (auto simp: sched_ok_def)
  from pull_ok [OF this resume(1), of dbg alloc bmem] resume show ?thesis by auto
qed

lemma sched_steps_ok:
  assumes "sched_steps dbg alloc bmem s s'" "alloc_fresh alloc" "alloc_total alloc" "sched_ok {} s"
  shows "sched_ok {} s'"
  using assms
proof (induction rule: sched_steps.induct)
  case (step s s' s'')
  then show ?case using sched_step_ok [OF step.hyps(2) step.prems(1,2) step.IH [OF step.prems]] by auto
qed

section \<open>What the queues hold\<close>

lemma find_iff:
  assumes inv: "sched_inv L s Q" and ts: "sc_cpus s c = Some ts" and pol: "pol \<noteq> POLICY_INVALID"
  shows "prioq_find t (ts_queue pol ts) = Some (t \<notin> L \<and> (\<exists>th. sc_threads s t = Some th \<and> th_schedState th = RUNNABLE \<and>
    th_currentCpu th = Some c \<and> th_schedPolicy th = pol))"
proof -
  have q: "pq_abs (ts_queue pol ts) (Q c pol)" "length (Q c pol) = 20"
    using sched_invD(4) [OF inv ts pol] queue_ok_length by (auto simp: queue_ok_def)
  have "t \<in> set (concat (Q c pol)) \<longleftrightarrow> (\<exists>i < 20. t \<in> set (Q c pol ! i))" using q(2) by (auto simp: in_set_conv_nth) (metis nth_mem)+
  also have "\<dots> \<longleftrightarrow> (\<exists>i < 20. t \<in> homes L (sc_threads s) c pol i)" using sched_invD(6) [OF inv ts pol] by auto
  also have "\<dots> \<longleftrightarrow> t \<notin> L \<and> (\<exists>th. sc_threads s t = Some th \<and> th_schedState th = RUNNABLE \<and> th_currentCpu th = Some c \<and> th_schedPolicy th = pol)"
    using sched_invD(3) [OF inv, of t] by (auto simp: homes_def at_home_def wf_thread_def)
  finally show ?thesis using prioq_find_refines [OF q(1), of t] by simp
qed

definition ready :: "addr set \<Rightarrow> sched \<Rightarrow> u32 \<Rightarrow> schedPolicy \<Rightarrow> addr \<Rightarrow> bool" where
  "ready L s c pol t \<longleftrightarrow> t \<notin> L \<and> (\<exists>th. sc_threads s t = Some th \<and> th_schedState th = RUNNABLE \<and> th_currentCpu th = Some c \<and> th_schedPolicy th = pol)"

definition prio_of :: "sched \<Rightarrow> addr \<Rightarrow> u16" where
  "prio_of s t = (case sc_threads s t of None \<Rightarrow> 0 | Some th \<Rightarrow> th_schedPrio th)"

lemma queue_empty_iff:
  assumes inv: "sched_inv L s Q" and ts: "sc_cpus s c = Some ts" and pol: "pol \<noteq> POLICY_INVALID"
  shows "concat (Q c pol) = [] \<longleftrightarrow> \<not> (\<exists>t. ready L s c pol t)"
proof -
  have q: "pq_abs (ts_queue pol ts) (Q c pol)" using sched_invD(4) [OF inv ts pol] by (simp add: queue_ok_def)
  have "t \<in> set (concat (Q c pol)) \<longleftrightarrow> ready L s c pol t" for t
    using prioq_find_refines [OF q, of t] find_iff [OF inv ts pol, of t] by (simp add: ready_def)
  then show ?thesis by (metis ex_in_conv set_empty)
qed

lemma queue_head:
  assumes inv: "sched_inv L s Q" and ts: "sc_cpus s c = Some ts" and pol: "pol \<noteq> POLICY_INVALID" and ne: "concat (Q c pol) \<noteq> []"
  shows "ready L s c pol (hd (concat (Q c pol)))" "ready L s c pol u \<Longrightarrow> prio_of s (hd (concat (Q c pol))) \<le> prio_of s u"
proof -
  define t where "t = hd (concat (Q c pol))"
  obtain th where t: "t \<notin> L" "sc_threads s t = Some th" "at_home th c pol (first_ne (Q c pol))" using pop_inv [OF inv ts pol ne] unfolding t_def by blast
  then show "ready L s c pol (hd (concat (Q c pol)))" unfolding t_def [symmetric] by (auto simp: ready_def at_home_def)
  assume "ready L s c pol u"
  then obtain thu where u: "u \<notin> L" "sc_threads s u = Some thu" "th_schedState thu = RUNNABLE" "th_currentCpu thu = Some c" "th_schedPolicy thu = pol"
    by (auto simp: ready_def)
  let ?i = "unat (th_schedPrio thu)"
  have "?i < 20" using sched_invD(3) [OF inv u(2)] by (simp add: wf_thread_def)
  from sched_invD(6) [OF inv ts pol this] have "u \<in> set (Q c pol ! ?i)" using u by (auto simp: homes_def at_home_def)
  then have "\<not> ?i < first_ne (Q c pol)" using first_ne_before [of ?i "Q c pol"] by auto
  then show "prio_of s (hd (concat (Q c pol))) \<le> prio_of s u" using t(2,3) u(2) unfolding t_def [symmetric]
    by (simp add: prio_of_def at_home_def word_le_nat_alt)
qed

text \<open>The thread a CPU switches to.\<close>

definition chosen :: "addr set \<Rightarrow> sched \<Rightarrow> u32 \<Rightarrow> addr \<Rightarrow> bool" where
  "chosen L s c t \<longleftrightarrow> (\<exists>pol. pol \<noteq> POLICY_INVALID \<and> ready L s c pol t \<and> (\<forall>u. ready L s c pol u \<longrightarrow> prio_of s t \<le> prio_of s u) \<and>
     (pol = ROUND_ROBIN \<longrightarrow> (\<forall>u. \<not> ready L s c REAL_TIME u)))"

lemma next_thread_chosen:
  assumes inv: "sched_inv L s Q" and ts: "sc_cpus s c = Some ts"
  shows "case next_thread Q c of None \<Rightarrow> \<forall>u pol. pol \<noteq> POLICY_INVALID \<longrightarrow> \<not> ready L s c pol u | Some t \<Rightarrow> chosen L s c t"
proof (cases "concat (Q c REAL_TIME) = []")
  case False
  then show ?thesis using queue_head [OF inv ts _ False] unfolding next_thread_def chosen_def by (auto simp del: concat_eq_Nil_conv)
next
  case rt: True
  show ?thesis
  proof (cases "concat (Q c ROUND_ROBIN) = []")
    case True
    have "\<not> ready L s c pol u" if "pol \<noteq> POLICY_INVALID" for pol u using queue_empty_iff [OF inv ts that] rt True that by (cases pol) auto
    then show ?thesis using rt True by (simp add: next_thread_def del: concat_eq_Nil_conv)
  next
    case False
    then show ?thesis using queue_head [OF inv ts _ False] queue_empty_iff [OF inv ts, of REAL_TIME] rt unfolding next_thread_def chosen_def
      by (auto simp del: concat_eq_Nil_conv)
  qed
qed

lemma pull_chooses:
  assumes ok: "sched_ok L s" and ts: "sc_cpus s c = Some ts"
    and nr: "\<And>th. sc_threads s (ts_currentThread ts) = Some th \<Longrightarrow> th_schedState th \<noteq> RUNNING"
  shows "\<exists>r s'. ts_pull dbg alloc bmem c s = Some (r, s') \<and> sched_ok L s' \<and>
    (if r then (\<exists>t. chosen L s c t \<and> switched c t s s') else s' = s \<and> (\<forall>u pol. pol \<noteq> POLICY_INVALID \<longrightarrow> \<not> ready L s c pol u))"
proof -
  obtain Q where inv: "sched_inv L s Q" "current_inv s" using ok by (auto simp: sched_ok_def)
  obtain s' where "ts_pull dbg alloc bmem c s = Some (next_thread Q c \<noteq> None, s')" "sched_ok L s'"
    "case next_thread Q c of None \<Rightarrow> s' = s | Some t \<Rightarrow> switched c t s s'" using pull_ok [OF inv ts nr] by blast
  then show ?thesis using next_thread_chosen [OF inv(1) ts] by (cases "next_thread Q c") auto
qed

section \<open>The state at boot\<close>

definition boot_queues :: "taskstream \<Rightarrow> bool" where
  "boot_queues ts \<longleftrightarrow> (\<forall>pol. pol \<noteq> POLICY_INVALID \<longrightarrow> ts_queue pol ts = snd (prioq_initialize True True (prioq_new SCHEDPRIO_MAX_NPRIOS)))"

lemma boot_queues_initialize: "boot_queues (snd (ts_initialize (True, True) (True, True) ERROR_SUCCESS (ts_new b p)))"
proof -
  have "ts_queue pol (snd (ts_initialize (True, True) (True, True) ERROR_SUCCESS (ts_new b p))) = snd (prioq_initialize True True (prioq_new SCHEDPRIO_MAX_NPRIOS))"
    if "pol \<noteq> POLICY_INVALID" for pol using that by (cases pol) (simp_all add: ts_initialize_def ts_new_def prioq_initialize_def Let_def)
  then show ?thesis by (simp add: boot_queues_def)
qed

lemma boot_ok:
  assumes fin: "finite (dom (sc_threads s))" "card (dom (sc_threads s)) < 2 ^ 32"
    and th: "\<And>t th. sc_threads s t = Some th \<Longrightarrow> wf_thread (sc_cpus s) th \<and> th_schedState th \<noteq> RUNNABLE \<and>
      (th_schedState th = RUNNING \<longrightarrow> (\<exists>c ts. th_currentCpu th = Some c \<and> sc_cpus s c = Some ts \<and> ts_currentThread ts = t))"
    and cpu: "\<And>c ts. sc_cpus s c = Some ts \<Longrightarrow> boot_queues ts \<and> (\<exists>th. sc_threads s (ts_currentThread ts) = Some th \<and> th_currentCpu th = Some c)"
  shows "sched_ok {} s"
proof -
  have q: "queue_ok (snd (prioq_initialize True True (prioq_new SCHEDPRIO_MAX_NPRIOS))) (replicate 20 ([] :: addr list))"
    using prioq_initialize_abs [of SCHEDPRIO_MAX_NPRIOS, where 'a = addr]
    by (simp add: queue_ok_def SCHEDPRIO_MAX_NPRIOS_def) (simp add: prioq_initialize_def prioq_new_def)
  have h: "homes {} (sc_threads s) c pol i = {}" for c pol i using th by (auto simp: homes_def at_home_def)
  have "sched_inv {} s (\<lambda>c pol. replicate 20 [])" using fin th cpu q by (simp add: sched_inv_def h boot_queues_def)
  moreover have "current_inv s" using th cpu unfolding current_inv_def by blast
  ultimately show ?thesis by (auto simp: sched_ok_def)
qed

end
