(* ===== verification/SchedProps.thy ===== *)
theory SchedProps
  imports SchedInv
begin

text \<open>The properties of the scheduler: the invariant over all sequences of calls, the choice of the next thread, the choice of
  the CPU for a new thread, and the behaviours in which the code departs from what its comments promise.\<close>

section \<open>Helpers\<close>

lemma yield_pulls:
  assumes ok: "sched_ok L s" and ts: "sc_cpus s me = Some ts" "sc_threads s (ts_currentThread ts) = Some th"
    and st: "th_schedState th \<noteq> RUNNABLE" "tt_checkCurrent dbg th = Some ()" and a: "alloc_fresh alloc"
  shows "\<exists>e s1 ts1 r s'. ts_yield alloc me (ts_currentThread ts) s = Some s1 \<and> tt_yield dbg alloc bmem me s = Some s' \<and>
    ts_pull dbg alloc bmem me s1 = Some (r, s') \<and> sched_ok (if e = ERROR_SUCCESS then L - {ts_currentThread ts} else insert (ts_currentThread ts) L) s1 \<and>
    sc_threads s1 = (sc_threads s)(ts_currentThread ts \<mapsto> th\<lparr>th_schedState := RUNNABLE\<rparr>) \<and>
    sc_cpus s1 me = Some ts1 \<and> ts_currentThread ts1 = ts_currentThread ts \<and>
    ts_insertByPolicy alloc ERROR_SUCCESS me (ts_currentThread ts) (put_thread (ts_currentThread ts) (th\<lparr>th_schedState := RUNNABLE\<rparr>) s) = Some (e, s1) \<and>
    (alloc_total alloc \<longrightarrow> e = ERROR_SUCCESS)"
proof -
  obtain Q where inv: "sched_inv L s Q" "current_inv s" using ok by (auto simp: sched_ok_def)
  let ?t = "ts_currentThread ts"
  have c: "th_currentCpu th = Some me" using current_invD(1) [OF inv(2) ts(1)] ts(2) by simp
  let ?s0 = "put_thread ?t (th\<lparr>th_schedState := RUNNABLE\<rparr>) s"
  obtain e s1 Q1 where I: "ts_insertByPolicy alloc ERROR_SUCCESS me ?t ?s0 = Some (e, s1)" "requeued me ?s0 s1"
    "sched_inv (if e = ERROR_SUCCESS then L - {?t} else insert ?t L) s1 Q1" "current_inv s1" "alloc_total alloc \<longrightarrow> e = ERROR_SUCCESS"
    using runnable_inv [OF inv ts(2) c st(1) a, of ERROR_SUCCESS] by blast
  obtain ts1 where ts1: "sc_cpus s1 me = Some ts1" "ts_currentThread ts1 = ?t" using requeued_cpus [OF I(2), of me] ts(1) by auto
  have th1: "sc_threads s1 = (sc_threads s)(?t \<mapsto> th\<lparr>th_schedState := RUNNABLE\<rparr>)" using requeued_threads [OF I(2)] by simp
  obtain r s' where p: "ts_pull dbg alloc bmem me s1 = Some (r, s')"
    using pull_ok [OF I(3,4) ts1(1), of dbg alloc bmem] ts1(2) th1 by auto
  have y: "ts_yield alloc me ?t s = Some s1" using ts(2) I(1) by (simp add: ts_yield_def thread_upd_Some)
  then have "tt_yield dbg alloc bmem me s = Some s'" using ts st(2) p by (simp add: tt_yield_def)
  then show ?thesis using y p I ts1 th1 unfolding sched_ok_def by blast
qed

lemma count_list_distinct: "distinct xs \<Longrightarrow> x \<in> set xs \<Longrightarrow> count_list xs x = 1"
  by (induction xs) auto

lemma eligible_select:
  assumes aff: "bmap_inv aff" "bmap_inv (sc_onlineCpus s)"
    and cpu: "\<And>j. unat j \<in> bmap_elems aff \<inter> bmap_elems (sc_onlineCpus s) \<Longrightarrow> sc_cpus s j \<noteq> None"
  shows "\<exists>best. word_for 0 (b_nBits aff) (tt_candidate aff s) None = Some best \<and>
    (case best of None \<Rightarrow> \<forall>j::u32. unat j \<notin> bmap_elems aff \<inter> bmap_elems (sc_onlineCpus s)
     | Some c \<Rightarrow> unat c \<in> bmap_elems aff \<inter> bmap_elems (sc_onlineCpus s) \<and>
         (\<forall>j. unat j \<in> bmap_elems aff \<inter> bmap_elems (sc_onlineCpus s) \<longrightarrow> ts_load (the (sc_cpus s c)) \<le> ts_load (the (sc_cpus s j))))"
proof -
  define el where "el j \<longleftrightarrow> unat (j::u32) \<in> bmap_elems aff \<inter> bmap_elems (sc_onlineCpus s)" for j
  define ld where "ld j = ts_load (the (sc_cpus s j))" for j
  define P where "P i best \<longleftrightarrow> (case best of None \<Rightarrow> \<forall>j < i. \<not> el j | Some c \<Rightarrow> el c \<and> (\<forall>j < i. el j \<longrightarrow> ld c \<le> ld j))" for i :: u32 and best
  have step: "tt_candidate aff s i best = Some (if el i then (case best of None \<Rightarrow> Some i | Some c \<Rightarrow> if ld i < ld c then Some i else Some c) else best)"
    if "\<And>c. best = Some c \<Longrightarrow> el c" for i best
  proof -
    have gl: "getStream j s = Some j" "getLoad (Some j) s = Some (ld j)" if "el j" for j
      using cpu [of j] that by (auto simp: el_def ld_def getStream_def getLoad_def)
    note tst = bmap_testSingle_elems [OF aff(1), of i] bmap_testSingle_elems [OF aff(2), of i]
    show ?thesis
    proof (cases "el i")
      case True
      then have "tt_candidate aff s i best = (if best = None then Some (Some i) else do { lb \<leftarrow> getLoad best s; Some (if ld i < lb then Some i else best) })"
        using tst gl [OF True] by (simp add: tt_candidate_def el_def Let_def)
      then show ?thesis using True that gl by (cases best) auto
    next
      case False
      then show ?thesis using tst by (auto simp: tt_candidate_def el_def)
    qed
  qed
  have suc: "j < i + 1 \<longleftrightarrow> j < i \<or> j = i" if "i < b_nBits aff" for i j :: u32
    using unat_Suc_less [OF that] by (auto simp: word_less_nat_alt less_Suc_eq word_unat_eq_iff)
  have "\<exists>best. word_for 0 (b_nBits aff) (tt_candidate aff s) None = Some best \<and> P (b_nBits aff) best"
  proof (rule word_for_rule)
    show "P 0 None" by (simp add: P_def)
    fix j best assume j: "j < b_nBits aff" and P: "P j best"
    have "\<And>c. best = Some c \<Longrightarrow> el c" using P by (simp add: P_def)
    from step [of best j, OF this] show "\<exists>t'. tt_candidate aff s j best = Some t' \<and> P (j + 1) t'"
      using P unfolding P_def suc [OF j] by (cases best) (auto split: if_splits)
  qed simp
  moreover have "el j \<Longrightarrow> j < b_nBits aff" for j by (auto simp: el_def bmap_elems_def word_less_nat_alt)
  ultimately obtain best where b: "word_for 0 (b_nBits aff) (tt_candidate aff s) None = Some best" "P (b_nBits aff) best" by blast
  have "case best of None \<Rightarrow> \<forall>j. \<not> el j | Some c \<Rightarrow> el c \<and> (\<forall>j. el j \<longrightarrow> ld c \<le> ld j)"
    using b(2) \<open>\<And>j. el j \<Longrightarrow> j < b_nBits aff\<close> unfolding P_def by (cases best) auto
  then show ?thesis using b(1) unfolding el_def ld_def by (intro exI [of _ best] conjI) (simp_all only:)
qed

section \<open>Properties\<close>

text \<open>
  C3: Start from a consistent scheduler and let the CPUs make any sequence of the calls yield, block, unblock, wake,
  dormant, scheduling of new threads, load updates and pulls of CPUs that were idle, in the release or in the debug
  build, under these conditions: the allocator always has a fresh node for a run queue; a yield, an unblock or a wake
  is made on a CPU whose current thread is not itself runnable, that is, queued (in the debug build the code checks
  more, that it is running); and a thread is scheduled for the first time while it is current on no CPU.  Then in every state reached a run queue holds a thread
  if and only if the thread is runnable and belongs to that CPU and policy, a running thread is the current thread of
  its CPU, and no two CPUs have the same current thread.  The first two conditions are needed:
  \<open>yield_loses_thread\<close> and \<open>yield_queues_idle_thread_twice\<close> show what happens without them.
\<close>

theorem scheduler_invariant:
  assumes "sched_steps dbg alloc bmem s s'" "sched_ok {} s" "alloc_fresh alloc" "alloc_total alloc"
  shows "(\<forall>c ts pol t. sc_cpus s' c = Some ts \<longrightarrow> pol \<noteq> POLICY_INVALID \<longrightarrow>
      prioq_find t (ts_queue pol ts) = Some (\<exists>th. sc_threads s' t = Some th \<and> th_schedState th = RUNNABLE \<and>
        th_currentCpu th = Some c \<and> th_schedPolicy th = pol)) \<and>
    (\<forall>t th. sc_threads s' t = Some th \<longrightarrow> th_schedState th = RUNNING \<longrightarrow>
      (\<exists>c ts. th_currentCpu th = Some c \<and> sc_cpus s' c = Some ts \<and> ts_currentThread ts = t)) \<and>
    (\<forall>c d ts ts'. sc_cpus s' c = Some ts \<longrightarrow> sc_cpus s' d = Some ts' \<longrightarrow> ts_currentThread ts = ts_currentThread ts' \<longrightarrow> c = d)"
proof (intro conjI allI impI)
  have "sched_ok {} s'" by (rule sched_steps_ok [OF assms(1,3,4,2)])
  then obtain Q where inv: "sched_inv {} s' Q" and cur: "current_inv s'" by (auto simp: sched_ok_def)
  show "prioq_find t (ts_queue pol ts) = Some (\<exists>th. sc_threads s' t = Some th \<and> th_schedState th = RUNNABLE \<and>
      th_currentCpu th = Some c \<and> th_schedPolicy th = pol)" if "sc_cpus s' c = Some ts" "pol \<noteq> POLICY_INVALID" for c ts pol t
    using find_iff [OF inv that] by simp
  show "\<exists>c ts. th_currentCpu th = Some c \<and> sc_cpus s' c = Some ts \<and> ts_currentThread ts = t"
    if "sc_threads s' t = Some th" "th_schedState th = RUNNING" for t th by (rule current_invD(2) [OF cur that])
  show "c = d" if "sc_cpus s' c = Some ts" "sc_cpus s' d = Some ts'" "ts_currentThread ts = ts_currentThread ts'" for c d ts ts'
    using current_invD(1) [OF cur that(1)] current_invD(1) [OF cur that(2)] that(3) by auto
qed

text \<open>C4: a CPU that gives up its thread does not stay idle while a thread is ready for it.  It takes a real-time thread
  if one is ready, and among the threads of one policy one with the smallest priority number; the thread is the current thread, and
  running, afterwards.  Only without a ready thread does the CPU halt, with the state unchanged.\<close>

theorem pull_takes_ready_thread:
  assumes "sched_ok {} s" "sc_cpus s c = Some ts" "\<forall>th. sc_threads s (ts_currentThread ts) = Some th \<longrightarrow> th_schedState th \<noteq> RUNNING"
  shows "\<exists>r s'. ts_pull dbg alloc bmem c s = Some (r, s') \<and> sched_ok {} s' \<and>
    (r \<longleftrightarrow> (\<exists>t th. sc_threads s t = Some th \<and> th_schedState th = RUNNABLE \<and> th_currentCpu th = Some c)) \<and>
    (r \<longrightarrow> (\<exists>t th. map_option ts_currentThread (sc_cpus s' c) = Some t \<and> map_option th_schedState (sc_threads s' t) = Some RUNNING \<and>
       sc_threads s t = Some th \<and> th_schedState th = RUNNABLE \<and> th_currentCpu th = Some c \<and>
       (\<forall>u thu. sc_threads s u = Some thu \<longrightarrow> th_schedState thu = RUNNABLE \<longrightarrow> th_currentCpu thu = Some c \<longrightarrow>
          (th_schedPolicy thu = REAL_TIME \<longrightarrow> th_schedPolicy th = REAL_TIME) \<and>
          (th_schedPolicy thu = th_schedPolicy th \<longrightarrow> th_schedPrio th \<le> th_schedPrio thu)))) \<and>
    (\<not> r \<longrightarrow> s' = s)"
proof -
  obtain Q where inv: "sched_inv {} s Q" using assms(1) by (auto simp: sched_ok_def)
  have pol: "th_schedPolicy th \<noteq> POLICY_INVALID" if "sc_threads s t = Some th" for t th using sched_invD(3) [OF inv that] by (simp add: wf_thread_def)
  obtain r s' where P: "ts_pull dbg alloc bmem c s = Some (r, s')" "sched_ok {} s'"
    "if r then (\<exists>t. chosen {} s c t \<and> switched c t s s') else s' = s \<and> (\<forall>u pol. pol \<noteq> POLICY_INVALID \<longrightarrow> \<not> ready {} s c pol u)"
    using pull_chooses [OF assms(1,2)] assms(3) by metis
  show ?thesis
  proof (cases r)
    case False
    then have n: "s' = s" "\<And>u pol. pol \<noteq> POLICY_INVALID \<Longrightarrow> \<not> ready {} s c pol u" using P(3) by auto
    have "\<not> (\<exists>t th. sc_threads s t = Some th \<and> th_schedState th = RUNNABLE \<and> th_currentCpu th = Some c)"
      using n(2) pol unfolding ready_def by blast
    then show ?thesis using P(1,2) False n(1) by blast
  next
    case True
    then obtain t pl where t: "switched c t s s'" "pl \<noteq> POLICY_INVALID" "ready {} s c pl t" "\<forall>u. ready {} s c pl u \<longrightarrow> prio_of s t \<le> prio_of s u"
      "pl = ROUND_ROBIN \<longrightarrow> (\<forall>u. \<not> ready {} s c REAL_TIME u)" using P(3) by (auto simp: chosen_def)
    obtain th where th: "sc_threads s t = Some th" "th_schedState th = RUNNABLE" "th_currentCpu th = Some c" "th_schedPolicy th = pl" using t(3) by (auto simp: ready_def)
    have "(th_schedPolicy thu = REAL_TIME \<longrightarrow> pl = REAL_TIME) \<and> (th_schedPolicy thu = pl \<longrightarrow> th_schedPrio th \<le> th_schedPrio thu)"
      if "sc_threads s u = Some thu" "th_schedState thu = RUNNABLE" "th_currentCpu thu = Some c" for u thu
    proof -
      have "ready {} s c (th_schedPolicy thu) u" using that by (simp add: ready_def)
      then show ?thesis using t(2,4,5) that(1) th(1) by (cases pl) (auto simp: prio_of_def)
    qed
    moreover have "map_option ts_currentThread (sc_cpus s' c) = Some t" "map_option th_schedState (sc_threads s' t) = Some RUNNING"
      using t(1) by (auto simp: switched_def)
    ultimately show ?thesis using P(1,2) True th by blast
  qed
qed

text \<open>C5: a new thread goes to a CPU that its affinity allows and that is online, with the least load among those, or
  to none (\<open>ERROR_UNKNOWN\<close>, nothing changed) if there is no such CPU.  It is runnable there, the load of the CPU has grown by one,
  and the trace of its process records the CPU; the trace has room for that CPU and no higher one.\<close>

theorem schedule_least_loaded:
  assumes ok: "sched_ok {} s" and t: "sc_threads s t = Some th" "th_schedState th = UNSCHEDULED"
    and idle: "\<forall>d ts. sc_cpus s d = Some ts \<longrightarrow> ts_currentThread ts \<noteq> t"
    and bm: "bmap_inv (th_cpuAffinity th)" "bmap_inv (sc_onlineCpus s)"
    and E: "E = {j :: u32. unat j \<in> bmap_elems (th_cpuAffinity th) \<inter> bmap_elems (sc_onlineCpus s)}"
    and cpu: "\<forall>j \<in> E. sc_cpus s j \<noteq> None \<and> unat j < 2 ^ 31 - 1"
    and tr: "sc_cpuTrace s (th_parent th) = Some tr" "bmap_inv tr" "unat (b_nBits tr) < 2 ^ 31"
    and a: "alloc_fresh alloc" "alloc_total alloc" "bmem_exact bmem" "\<forall>n. bmem n \<noteq> None"
  shows "if E = {} then tt_schedule dbg alloc bmem t s = Some (ERROR_UNKNOWN, s)
    else \<exists>c s' tr'. c \<in> E \<and> (\<forall>j \<in> E. ts_load (the (sc_cpus s c)) \<le> ts_load (the (sc_cpus s j))) \<and>
      tt_schedule dbg alloc bmem t s = Some (ERROR_SUCCESS, s') \<and> sched_ok {} s' \<and>
      sc_threads s' t = Some (th\<lparr>th_schedState := RUNNABLE, th_currentCpu := Some c\<rparr>) \<and>
      map_option ts_load (sc_cpus s' c) = Some (ts_load (the (sc_cpus s c)) + 1) \<and>
      sc_cpuTrace s' (th_parent th) = Some tr' \<and> unat c \<in> bmap_elems tr' \<and> b_nBits tr' = c + 1"
proof -
  have ex: "sc_cpus s j \<noteq> None" if "unat j \<in> bmap_elems (th_cpuAffinity th) \<inter> bmap_elems (sc_onlineCpus s)" for j using cpu that unfolding E by auto
  obtain best where b: "word_for 0 (b_nBits (th_cpuAffinity th)) (tt_candidate (th_cpuAffinity th) s) None = Some best"
    and B: "case best of None \<Rightarrow> \<forall>j::u32. unat j \<notin> bmap_elems (th_cpuAffinity th) \<inter> bmap_elems (sc_onlineCpus s)
     | Some c \<Rightarrow> unat c \<in> bmap_elems (th_cpuAffinity th) \<inter> bmap_elems (sc_onlineCpus s) \<and>
         (\<forall>j. unat j \<in> bmap_elems (th_cpuAffinity th) \<inter> bmap_elems (sc_onlineCpus s) \<longrightarrow> ts_load (the (sc_cpus s c)) \<le> ts_load (the (sc_cpus s j)))"
    using eligible_select [OF bm ex] by blast
  show ?thesis
  proof (cases best)
    case None
    then have "E = {}" using B unfolding E by simp
    then show ?thesis using b t(1) None by (simp add: tt_schedule_def)
  next
    case (Some c)
    then have c: "c \<in> E" "\<forall>j \<in> E. ts_load (the (sc_cpus s c)) \<le> ts_load (the (sc_cpus s j))" using B unfolding E by auto
    obtain ts where ts: "sc_cpus s c = Some ts" "unat c < 2 ^ 31 - 1" using cpu c(1) by auto
    have un: "th_schedState th \<noteq> RUNNABLE" "th_schedState th \<noteq> RUNNING" using t(2) by simp_all
    have "\<exists>s' tr'. ts_schedule dbg alloc bmem c t s = Some (ERROR_SUCCESS, s') \<and> sched_ok ({} - {t}) s' \<and>
      sc_threads s' = (sc_threads s)(t \<mapsto> th\<lparr>th_schedState := RUNNABLE, th_currentCpu := Some c\<rparr>) \<and>
      (\<forall>d. map_option ts_currentThread (sc_cpus s' d) = map_option ts_currentThread (sc_cpus s d)) \<and>
      (\<forall>d. map_option ts_load (sc_cpus s' d) = (if d = c then Some (ts_load ts + 1) else map_option ts_load (sc_cpus s d))) \<and>
      sc_cpuTrace s' = (sc_cpuTrace s)(th_parent th \<mapsto> tr') \<and> trace_ok tr' \<and> unat c \<in> bmap_elems tr' \<and> b_nBits tr' = c + 1"
      by (rule schedule_ok [OF ok t(1) un _ ts tr(1) _ a(1-3)]) (use idle tr(2,3) a(4) in \<open>auto simp: trace_ok_def\<close>)
    then obtain s' tr' where S0: "ts_schedule dbg alloc bmem c t s = Some (ERROR_SUCCESS, s')" "sched_ok ({} - {t}) s'"
      "sc_threads s' = (sc_threads s)(t \<mapsto> th\<lparr>th_schedState := RUNNABLE, th_currentCpu := Some c\<rparr>)"
      "\<forall>d. map_option ts_load (sc_cpus s' d) = (if d = c then Some (ts_load ts + 1) else map_option ts_load (sc_cpus s d))"
      "sc_cpuTrace s' = (sc_cpuTrace s)(th_parent th \<mapsto> tr')" "unat c \<in> bmap_elems tr'" "b_nBits tr' = c + 1" by blast
    have S: "ts_schedule dbg alloc bmem c t s = Some (ERROR_SUCCESS, s')" "sched_ok {} s'"
      "sc_threads s' = (sc_threads s)(t \<mapsto> th\<lparr>th_schedState := RUNNABLE, th_currentCpu := Some c\<rparr>)"
      "map_option ts_load (sc_cpus s' c) = Some (ts_load ts + 1)"
      "sc_cpuTrace s' = (sc_cpuTrace s)(th_parent th \<mapsto> tr')" "unat c \<in> bmap_elems tr'" "b_nBits tr' = c + 1"
      using S0 S0(4) [rule_format, of c] by simp_all
    moreover have "tt_schedule dbg alloc bmem t s = Some (ERROR_SUCCESS, s')" using b t(1) Some S(1) by (simp add: tt_schedule_def)
    ultimately show ?thesis using c ts(1) by auto
  qed
qed

text \<open>priorities are compared in opposite directions.  A larger number makes \<open>unblock\<close> preempt the current thread, but the run
  queues serve smaller numbers first: when a round-robin thread of larger number is unblocked, the current thread is put back
  and the CPU never switches to the unblocked thread.\<close>

theorem unblock_preempts_for_nothing:
  assumes ok: "sched_ok {} s" and ts: "sc_cpus s me = Some ts" "sc_threads s (ts_currentThread ts) = Some thc"
    and cur: "th_schedState thc = RUNNING" "th_schedPolicy thc = ROUND_ROBIN"
    and t: "sc_threads s t = Some th" "th_schedState th = BLOCKED" "th_schedPolicy th = ROUND_ROBIN" "th_currentCpu th = Some me"
    and p: "th_schedPrio th > th_schedPrio thc" and a: "alloc_fresh alloc" "alloc_total alloc"
  shows "shouldPreemptCurrentThreadOn th me s = Some True \<and>
    (\<exists>s'. tt_unblock dbg alloc bmem me (Some t) s = Some (ERROR_SUCCESS, s') \<and> map_option ts_currentThread (sc_cpus s' me) \<noteq> Some t \<and>
      map_option th_schedState (sc_threads s' t) = Some RUNNABLE)"
proof
  show "shouldPreemptCurrentThreadOn th me s = Some True" using ts cur t(3) p by (simp add: shouldPreemptCurrentThreadOn_def)
  let ?cur = "ts_currentThread ts"
  have ne: "?cur \<noteq> t" using ts(2) t cur(1) by auto
  obtain Q where inv: "sched_inv {} s Q" "current_inv s" using ok by (auto simp: sched_ok_def)
  let ?s0 = "put_thread t (th\<lparr>th_schedState := RUNNABLE\<rparr>) s"
  have nr: "th_schedState th \<noteq> RUNNABLE" using t(2) by simp
  obtain s1 Q1 where I: "ts_insertByPolicy alloc ERROR_UNSUPPORTED me t ?s0 = Some (ERROR_SUCCESS, s1)" "requeued me ?s0 s1" "sched_inv {} s1 Q1" "current_inv s1"
    using runnable_inv [OF inv t(1,4) nr a(1), of ERROR_UNSUPPORTED] a(2) by auto
  have ok1: "sched_ok {} s1" using I(3,4) by (auto simp: sched_ok_def)
  obtain ts1 where ts1: "sc_cpus s1 me = Some ts1" "ts_currentThread ts1 = ?cur" using requeued_cpus [OF I(2), of me] ts(1) by auto
  have th1: "sc_threads s1 = (sc_threads s)(t \<mapsto> th\<lparr>th_schedState := RUNNABLE\<rparr>)" using requeued_threads [OF I(2)] by simp
  have cur1: "sc_threads s1 (ts_currentThread ts1) = Some thc" using th1 ts1(2) ts(2) ne by simp
  have chk: "tt_checkCurrent dbg thc = Some ()" using cur(1) by (simp add: tt_checkCurrent_def)
  have "th_schedState thc \<noteq> RUNNABLE" using cur(1) by simp
  then obtain s2 ts2 r s' where Y: "tt_yield dbg alloc bmem me s1 = Some s'" "ts_pull dbg alloc bmem me s2 = Some (r, s')" "sched_ok {} s2"
    "sc_threads s2 = (sc_threads s1)(?cur \<mapsto> thc\<lparr>th_schedState := RUNNABLE\<rparr>)" "sc_cpus s2 me = Some ts2" "ts_currentThread ts2 = ?cur"
    using yield_pulls [OF ok1 ts1(1) cur1 _ chk a(1), of bmem] a(2) ts1(2) by (auto simp: Diff_empty)
  have th2: "sc_threads s2 t = Some (th\<lparr>th_schedState := RUNNABLE\<rparr>)" "sc_threads s2 ?cur = Some (thc\<lparr>th_schedState := RUNNABLE\<rparr>)" using Y(4) th1 ne by simp_all
  have rdy: "ready {} s2 me ROUND_ROBIN t" "ready {} s2 me ROUND_ROBIN ?cur"
    using th2 t cur current_invD(1) [OF inv(2) ts(1)] ts(2) by (auto simp: ready_def)
  have "th_schedState thx \<noteq> RUNNING" if "sc_threads s2 (ts_currentThread ts2) = Some thx" for thx using that th2(2) Y(6) by auto
  then obtain u where u: "chosen {} s2 me u" "switched me u s2 s'" using pull_chooses [OF Y(3,5), of dbg alloc bmem] Y(2) rdy(1) by (auto split: if_splits)
  have "u \<noteq> t"
  proof
    assume "u = t"
    then have "prio_of s2 t \<le> prio_of s2 ?cur" using u(1) rdy th2(1) by (auto simp: chosen_def ready_def)
    then show False using th2 p by (simp add: prio_of_def)
  qed
  then have "map_option ts_currentThread (sc_cpus s' me) \<noteq> Some t" "map_option th_schedState (sc_threads s' t) = Some RUNNABLE"
    using u(2) th2(1) by (auto simp: switched_def)
  moreover have "tt_unblock dbg alloc bmem me (Some t) s = Some (ERROR_SUCCESS, s')"
  proof -
    have "shouldPreemptCurrentThreadOn (th\<lparr>th_schedState := RUNNABLE\<rparr>) me s1 = Some True"
      using ts1 cur1 cur(2) t(3) p by (simp add: shouldPreemptCurrentThreadOn_def)
    then have "tt_preempt dbg alloc bmem me t s1 = Some s'" using th1 t(4) Y(1) by (simp add: tt_preempt_def)
    then show ?thesis using t(1,2,4) I(1) by (simp add: tt_unblock_def ts_unblock_def thread_upd_Some)
  qed
  ultimately show "\<exists>s'. tt_unblock dbg alloc bmem me (Some t) s = Some (ERROR_SUCCESS, s') \<and> map_option ts_currentThread (sc_cpus s' me) \<noteq> Some t \<and>
      map_option th_schedState (sc_threads s' t) = Some RUNNABLE" by blast
qed

text \<open>\<open>yield\<close> drops the error of the insertion.  Without a free node the yielding thread stays marked as runnable although
  no run queue of any CPU holds it, so it is never pulled again.\<close>

theorem yield_loses_thread:
  assumes ok: "sched_ok {} s" and ts: "sc_cpus s me = Some ts" "sc_threads s (ts_currentThread ts) = Some th" "th_schedState th = RUNNING"
  shows "\<exists>s'. tt_yield dbg (\<lambda>h. None) bmem me s = Some s' \<and> map_option th_schedState (sc_threads s' (ts_currentThread ts)) = Some RUNNABLE \<and>
    (\<forall>c ts' pol. sc_cpus s' c = Some ts' \<longrightarrow> pol \<noteq> POLICY_INVALID \<longrightarrow> prioq_find (ts_currentThread ts) (ts_queue pol ts') = Some False)"
proof -
  let ?t = "ts_currentThread ts"
  have a: "alloc_fresh (\<lambda>h. None)" by (simp add: alloc_fresh_def)
  have st: "th_schedState th \<noteq> RUNNABLE" "tt_checkCurrent dbg th = Some ()" using ts(3) by (simp_all add: tt_checkCurrent_def)
  obtain e s1 ts1 r s' where Y: "tt_yield dbg (\<lambda>h. None) bmem me s = Some s'" "ts_pull dbg (\<lambda>h. None) bmem me s1 = Some (r, s')"
    "sched_ok (if e = ERROR_SUCCESS then {} - {?t} else insert ?t {}) s1" "sc_threads s1 = (sc_threads s)(?t \<mapsto> th\<lparr>th_schedState := RUNNABLE\<rparr>)"
    "sc_cpus s1 me = Some ts1" "ts_currentThread ts1 = ?t"
    "ts_insertByPolicy (\<lambda>h. None) ERROR_SUCCESS me ?t (put_thread ?t (th\<lparr>th_schedState := RUNNABLE\<rparr>) s) = Some (e, s1)"
    using yield_pulls [OF ok ts(1,2) st a, of bmem] by blast
  obtain Q where inv: "sched_inv {} s Q" using ok by (auto simp: sched_ok_def)
  have pol: "th_schedPolicy th \<noteq> POLICY_INVALID" "unat (th_schedPrio th) < 20" using sched_invD(3) [OF inv ts(2)] by (simp_all add: wf_thread_def)
  have q: "pq_abs (ts_queue (th_schedPolicy th) ts) (Q me (th_schedPolicy th))" "pq_nPrios (ts_queue (th_schedPolicy th) ts) = 20"
    using sched_invD(4) [OF inv ts(1) pol(1)] by (simp_all add: queue_ok_def)
  have "e = ERROR_MEMORY_NOMEM" using Y(7) insertByPolicy_eq [of "put_thread ?t (th\<lparr>th_schedState := RUNNABLE\<rparr>) s" ?t _ me ts] ts(1) pol
      prioq_insert_fails(2) [OF q(1), of "th_schedPrio th"] q(2) by (simp add: word_less_nat_alt)
  then have ok1: "sched_ok {?t} s1" using Y(3) by simp
  have "th_schedState thx \<noteq> RUNNING" if "sc_threads s1 (ts_currentThread ts1) = Some thx" for thx using that Y(4,6) by auto
  then have P: "sched_ok {?t} s'" "if r then (\<exists>t. chosen {?t} s1 me t \<and> switched me t s1 s') else s' = s1"
    using pull_chooses [OF ok1 Y(5), of dbg "\<lambda>h. None" bmem] Y(2) by auto
  have "map_option th_schedState (sc_threads s' ?t) = Some RUNNABLE"
    using P(2) Y(4) by (cases r) (auto simp: chosen_def ready_def switched_def)
  moreover obtain Q' where "sched_inv {?t} s' Q'" using P(1) by (auto simp: sched_ok_def)
  ultimately show ?thesis using Y(1) find_iff by auto
qed

text \<open>a CPU that halts keeps its old current thread.  If that thread is made runnable again while the CPU is idle, and a call of \<open>yield\<close>
  (from an interrupt that unblocks a thread of larger priority number) finds it, the release build queues it a second time; the debug
  build stops in the assertion.\<close>

theorem yield_queues_idle_thread_twice:
  assumes ok: "sched_ok {} s" and ts: "sc_cpus s me = Some ts" "sc_threads s (ts_currentThread ts) = Some th" "th_schedState th = RUNNABLE"
    and a: "alloc_fresh alloc" "alloc_total alloc" and n: "card (dom (sc_threads s)) < 2 ^ 32 - 1"
  shows "tt_yield True alloc bmem me s = None \<and> (\<exists>s' ts' ls. ts_yield alloc me (ts_currentThread ts) s = Some s' \<and> sc_cpus s' me = Some ts' \<and>
    pq_abs (ts_queue (th_schedPolicy th) ts') ls \<and> count_list (ls ! unat (th_schedPrio th)) (ts_currentThread ts) = 2)"
proof
  let ?t = "ts_currentThread ts" and ?pol = "th_schedPolicy th" and ?i = "unat (th_schedPrio th)"
  show "tt_yield True alloc bmem me s = None" using ts by (simp add: tt_yield_def tt_checkCurrent_def)
  obtain Q where inv: "sched_inv {} s Q" "current_inv s" using ok by (auto simp: sched_ok_def)
  have wf: "?pol \<noteq> POLICY_INVALID" "?i < 20" using sched_invD(3) [OF inv(1) ts(2)] by (simp_all add: wf_thread_def)
  let ?q = "ts_queue ?pol ts" and ?ls = "Q me ?pol"
  have q: "pq_abs ?q ?ls" "pq_nPrios ?q = 20" "finite (dom (pq_store ?q))" using sched_invD(4) [OF inv(1) ts(1) wf(1)] by (simp_all add: queue_ok_def)
  have c: "th_currentCpu th = Some me" using current_invD(1) [OF inv(2) ts(1)] ts(2) by simp
  have d: "distinct (?ls ! ?i)" "?t \<in> set (?ls ! ?i)" "set (?ls ! ?i) \<subseteq> dom (sc_threads s)"
    using sched_invD(5,6) [OF inv(1) ts(1) wf] ts(2,3) c by (auto simp: homes_def at_home_def)
  have "length (?ls ! ?i) \<le> card (dom (sc_threads s))" using card_mono [OF sched_invD(1) [OF inv(1)] d(3)] distinct_card [OF d(1)] by simp
  then have len: "Suc (length (?ls ! ?i)) < 2 ^ 32" using n by simp
  have p: "th_schedPrio th < pq_nPrios ?q" using wf(2) q(2) by (simp add: word_less_nat_alt)
  obtain b m where b: "alloc (pq_store ?q) = Some (b, m)" "pq_store ?q b = None" using a q(3) unfolding alloc_fresh_def alloc_total_def by fastforce
  define opt :: u32 where "opt = ucast (th_schedOptions th)"
  obtain q' where q': "prioq_insert (Some (b, m)) ?t (th_schedPrio th) opt ?q = Some (ERROR_SUCCESS, q')"
    "pq_abs q' (?ls[?i := (if opt AND PRIOQUEUE_INSERT_FRONT \<noteq> 0 then ?t # ?ls ! ?i else ?ls ! ?i @ [?t])])"
    using prioq_insert_refines [OF q(1) b(2) p len, where itm = ?t and opt = opt and junk = m] by blast
  have "put_thread ?t (th\<lparr>th_schedState := RUNNABLE\<rparr>) s = s" using ts(2,3) by (simp add: put_thread_def fun_upd_idem)
  then have "ts_yield alloc me ?t s = Some (ts_put me (ts_setQueue ?pol q' ts) s)"
    using insertByPolicy_eq [OF ts(2,1) wf(1)] q'(1) b(1) ts(2) by (simp add: ts_yield_def thread_upd_Some opt_def)
  moreover have "count_list (?ls ! ?i) ?t = 1" using d(1,2) by (rule count_list_distinct)
  moreover have "ts_queue ?pol (ts_setQueue ?pol q' ts) = q'" using ts_queue_set [OF wf(1,1)] by simp
  ultimately show "\<exists>s' ts' ls. ts_yield alloc me ?t s = Some s' \<and> sc_cpus s' me = Some ts' \<and>
    pq_abs (ts_queue ?pol ts') ls \<and> count_list (ls ! ?i) ?t = 2"
    using q'(2) queue_ok_length [OF sched_invD(4) [OF inv(1) ts(1) wf(1)]] wf(2)
    by (intro exI [of _ "ts_put me (ts_setQueue ?pol q' ts) s"] exI [of _ "ts_setQueue ?pol q' ts"] exI conjI) (auto simp: count_list_append)
qed

section \<open>Concrete instances\<close>

definition demo_bmap :: bmap where
  "demo_bmap = \<lparr>b_bmp = Some [1], b_nBits = 1, b_pre = None, b_lock = False\<rparr>"

definition demo_thread :: "schedState \<Rightarrow> u16 \<Rightarrow> u32 option \<Rightarrow> thread" where
  "demo_thread st p cpu = \<lparr>th_id = 0x10001, th_parent = 9, th_schedState = st, th_schedPolicy = ROUND_ROBIN, th_schedOptions = 0, th_schedFlags = 0,
     th_flags = 0, th_streamFlags = 0, th_schedPrio = p, th_internalPrio = 0, th_currentCpu = cpu, th_cpuAffinity = demo_bmap\<rparr>"

definition demo :: "schedState \<Rightarrow> u16 \<Rightarrow> schedState \<Rightarrow> u16 \<Rightarrow> u32 option \<Rightarrow> sched" where
  "demo st1 p1 st2 p2 cpu2 = \<lparr>sc_threads = [1 \<mapsto> demo_thread st1 p1 (Some 0), 2 \<mapsto> demo_thread st2 p2 cpu2], sc_cpuTrace = [9 \<mapsto> demo_bmap],
     sc_cpus = [0 \<mapsto> snd (ts_initialize (True, True) (True, True) ERROR_SUCCESS (ts_new 0 1))], sc_banks = Map.empty,
     sc_taskTrib = \<lparr>li_load = 0, li_capacity = 0\<rparr>, sc_onlineCpus = demo_bmap\<rparr>"

definition demo_alloc :: node_alloc where
  "demo_alloc h = Some (fresh_node h, \<lparr>qn_item = 0, qn_next = None\<rparr>)"

definition demo_bmem :: bmp_alloc where
  "demo_bmem n = Some (replicate (unat (BITMAP_NELEMENTS_FOR_BITS n)) 0)"

lemma demo_allocs: "alloc_fresh demo_alloc" "alloc_total demo_alloc" "bmem_exact demo_bmem" "demo_bmem n \<noteq> None"
  by (auto simp: alloc_fresh_def alloc_total_def bmem_exact_def demo_alloc_def demo_bmem_def fresh_node)

lemma demo_bmap: "bmap_inv demo_bmap" "bmap_elems demo_bmap = {0}" "b_nBits demo_bmap = 1"
  by (auto simp: bmap_inv_def bmap_wf_def bmap_elems_def demo_bmap_def bit_at_def)

lemma demo_simps:
  "sc_threads (demo st1 p1 st2 p2 cpu2) = [1 \<mapsto> demo_thread st1 p1 (Some 0), 2 \<mapsto> demo_thread st2 p2 cpu2]"
  "sc_cpuTrace (demo st1 p1 st2 p2 cpu2) = [9 \<mapsto> demo_bmap]" "sc_onlineCpus (demo st1 p1 st2 p2 cpu2) = demo_bmap"
  "\<exists>ts. sc_cpus (demo st1 p1 st2 p2 cpu2) = [0 \<mapsto> ts] \<and> ts_currentThread ts = 1 \<and> boot_queues ts"
proof -
  let ?ts = "snd (ts_initialize (True, True) (True, True) ERROR_SUCCESS (ts_new 0 1))"
  have "ts_currentThread ?ts = 1" by (simp add: ts_initialize_def ts_new_def prioq_initialize_def Let_def)
  then show "\<exists>ts. sc_cpus (demo st1 p1 st2 p2 cpu2) = [0 \<mapsto> ts] \<and> ts_currentThread ts = 1 \<and> boot_queues ts"
    using boot_queues_initialize [of 0 1] by (intro exI [of _ ?ts]) (simp add: demo_def)
qed (simp_all add: demo_def)

lemma demo_thread_simps [simp]:
  "th_schedState (demo_thread st p cpu) = st" "th_schedPolicy (demo_thread st p cpu) = ROUND_ROBIN" "th_schedPrio (demo_thread st p cpu) = p"
  "th_currentCpu (demo_thread st p cpu) = cpu" "th_cpuAffinity (demo_thread st p cpu) = demo_bmap" "th_parent (demo_thread st p cpu) = 9"
  "\<not> waiting (demo_thread st p cpu)"
  by (simp_all add: demo_thread_def waiting_def)

lemma demo_ok:
  assumes "st1 \<noteq> RUNNABLE" "st2 \<noteq> RUNNABLE" "st2 \<noteq> RUNNING" "unat p1 < 20" "unat p2 < 20" "cpu2 = Some 0 \<or> cpu2 = None \<and> st2 = UNSCHEDULED"
  shows "sched_ok {} (demo st1 p1 st2 p2 cpu2)"
proof -
  obtain ts where ts: "sc_cpus (demo st1 p1 st2 p2 cpu2) = [0 \<mapsto> ts]" "ts_currentThread ts = 1" "boot_queues ts" using demo_simps(4) by blast
  have d: "dom (sc_threads (demo st1 p1 st2 p2 cpu2)) = {1, 2}" by (auto simp: demo_simps(1))
  show ?thesis
  proof (rule boot_ok)
    show "finite (dom (sc_threads (demo st1 p1 st2 p2 cpu2)))" "card (dom (sc_threads (demo st1 p1 st2 p2 cpu2))) < 2 ^ 32" by (simp_all add: d)
    show "wf_thread (sc_cpus (demo st1 p1 st2 p2 cpu2)) th \<and> th_schedState th \<noteq> RUNNABLE \<and> (th_schedState th = RUNNING \<longrightarrow>
        (\<exists>c ts. th_currentCpu th = Some c \<and> sc_cpus (demo st1 p1 st2 p2 cpu2) c = Some ts \<and> ts_currentThread ts = t))"
      if "sc_threads (demo st1 p1 st2 p2 cpu2) t = Some th" for t th
      using that assms ts by (auto simp: demo_simps(1) wf_thread_def split: if_splits)
    show "boot_queues ts' \<and> (\<exists>th. sc_threads (demo st1 p1 st2 p2 cpu2) (ts_currentThread ts') = Some th \<and> th_currentCpu th = Some c)"
      if "sc_cpus (demo st1 p1 st2 p2 cpu2) c = Some ts'" for c ts' using that ts by (auto simp: demo_simps(1) split: if_splits)
  qed
qed

lemma demo_current:
  obtains ts where "sc_cpus (demo st1 p1 st2 p2 cpu2) 0 = Some ts" "ts_currentThread ts = 1"
    "sc_threads (demo st1 p1 st2 p2 cpu2) (ts_currentThread ts) = Some (demo_thread st1 p1 (Some 0))"
proof -
  obtain ts where "sc_cpus (demo st1 p1 st2 p2 cpu2) = [0 \<mapsto> ts]" "ts_currentThread ts = 1" using demo_simps(4) by blast
  then show thesis using that by (simp add: demo_simps(1))
qed

lemma scheduler_invariant_witness:
  "\<exists>s'. tt_yield True demo_alloc demo_bmem 0 (demo RUNNING 8 UNSCHEDULED 8 None) = Some s' \<and>
    (\<forall>c ts pol t. sc_cpus s' c = Some ts \<longrightarrow> pol \<noteq> POLICY_INVALID \<longrightarrow>
      prioq_find t (ts_queue pol ts) = Some (\<exists>th. sc_threads s' t = Some th \<and> th_schedState th = RUNNABLE \<and>
        th_currentCpu th = Some c \<and> th_schedPolicy th = pol))"
proof -
  let ?s = "demo RUNNING 8 UNSCHEDULED 8 None"
  have ok: "sched_ok {} ?s" by (rule demo_ok) simp_all
  obtain ts where "sc_cpus ?s 0 = Some ts" "sc_threads ?s (ts_currentThread ts) = Some (demo_thread RUNNING 8 (Some 0))" by (rule demo_current)
  then have sw: "may_switch True 0 ?s" by (simp add: may_switch_def tt_checkCurrent_def)
  obtain s' where s': "tt_yield True demo_alloc demo_bmem 0 ?s = Some s'" using yield_ok [OF ok sw demo_allocs(1), of demo_bmem] by blast
  have "sched_steps True demo_alloc demo_bmem ?s s'"
    using sched_steps.step [OF sched_steps.refl sched_step.yield [OF sw s']] .
  from scheduler_invariant [OF this ok demo_allocs(1,2)] s' show ?thesis by blast
qed

lemma pull_takes_ready_thread_witness:
  "ts_pull True demo_alloc demo_bmem 0 (demo BLOCKED 8 UNSCHEDULED 8 None) = Some (False, demo BLOCKED 8 UNSCHEDULED 8 None)"
proof -
  let ?s = "demo BLOCKED 8 UNSCHEDULED 8 None"
  have ok: "sched_ok {} ?s" by (rule demo_ok) simp_all
  obtain ts where ts: "sc_cpus ?s 0 = Some ts" "sc_threads ?s (ts_currentThread ts) = Some (demo_thread BLOCKED 8 (Some 0))" by (rule demo_current)
  have "\<not> (\<exists>t th. sc_threads ?s t = Some th \<and> th_schedState th = RUNNABLE \<and> th_currentCpu th = Some 0)" by (auto simp: demo_simps(1) split: if_splits)
  then show ?thesis using pull_takes_ready_thread [OF ok ts(1), of True demo_alloc demo_bmem] ts(2) by auto
qed

lemma schedule_least_loaded_witness:
  "\<exists>c s' tr'. c \<in> {0::u32} \<and> tt_schedule True demo_alloc demo_bmem 2 (demo RUNNING 8 UNSCHEDULED 8 None) = Some (ERROR_SUCCESS, s') \<and> sched_ok {} s' \<and>
    sc_threads s' 2 = Some (demo_thread RUNNABLE 8 (Some c)) \<and> sc_cpuTrace s' 9 = Some tr' \<and> unat c \<in> bmap_elems tr'"
proof -
  let ?s = "demo RUNNING 8 UNSCHEDULED 8 None"
  have ok: "sched_ok {} ?s" by (rule demo_ok) simp_all
  obtain ts where ts: "sc_cpus ?s = [0 \<mapsto> ts]" "ts_currentThread ts = 1" using demo_simps(4) by blast
  have E: "{0} = {j :: u32. unat j \<in> bmap_elems (th_cpuAffinity (demo_thread UNSCHEDULED 8 None)) \<inter> bmap_elems (sc_onlineCpus ?s)}"
    by (auto simp: demo_simps(3) demo_bmap unat_eq_zero)
  have up: "(demo_thread UNSCHEDULED 8 None)\<lparr>th_schedState := RUNNABLE, th_currentCpu := Some c\<rparr> = demo_thread RUNNABLE 8 (Some c)" for c
    by (simp add: demo_thread_def)
  have idle: "\<forall>d ts. sc_cpus ?s d = Some ts \<longrightarrow> ts_currentThread ts \<noteq> 2" using ts by (auto split: if_splits)
  show ?thesis using schedule_least_loaded [OF ok _ _ idle _ _ E, where tr = demo_bmap and alloc = demo_alloc and bmem = demo_bmem and dbg = True]
      ts demo_allocs demo_bmap up by (auto simp: demo_simps(1-3))
qed

lemma unblock_preempts_for_nothing_witness:
  "\<exists>s'. tt_unblock True demo_alloc demo_bmem 0 (Some 2) (demo RUNNING 0 BLOCKED 16 (Some 0)) = Some (ERROR_SUCCESS, s') \<and>
    map_option ts_currentThread (sc_cpus s' 0) \<noteq> Some 2"
proof -
  let ?s = "demo RUNNING 0 BLOCKED 16 (Some 0)"
  have ok: "sched_ok {} ?s" by (rule demo_ok) simp_all
  obtain ts where ts: "sc_cpus ?s 0 = Some ts" "sc_threads ?s (ts_currentThread ts) = Some (demo_thread RUNNING 0 (Some 0))" by (rule demo_current)
  have t: "sc_threads ?s 2 = Some (demo_thread BLOCKED 16 (Some 0))" by (simp add: demo_simps(1))
  show ?thesis using unblock_preempts_for_nothing [OF ok ts _ _ t _ _ _ _ demo_allocs(1,2), of True demo_bmem] by auto
qed

lemma yield_loses_thread_witness:
  "\<exists>s'. tt_yield True (\<lambda>h. None) demo_bmem 0 (demo RUNNING 8 UNSCHEDULED 8 None) = Some s' \<and> map_option th_schedState (sc_threads s' 1) = Some RUNNABLE \<and>
    (\<forall>c ts' pol. sc_cpus s' c = Some ts' \<longrightarrow> pol \<noteq> POLICY_INVALID \<longrightarrow> prioq_find 1 (ts_queue pol ts') = Some False)"
proof -
  let ?s = "demo RUNNING 8 UNSCHEDULED 8 None"
  have ok: "sched_ok {} ?s" by (rule demo_ok) simp_all
  obtain ts where ts: "sc_cpus ?s 0 = Some ts" "ts_currentThread ts = 1" "sc_threads ?s (ts_currentThread ts) = Some (demo_thread RUNNING 8 (Some 0))"
    by (rule demo_current)
  show ?thesis using yield_loses_thread [OF ok ts(1,3), of True demo_bmem] ts(2) by simp
qed

lemma yield_queues_idle_thread_twice_witness:
  "\<exists>s s' ts' ls. ts_unblock demo_alloc 0 1 (demo BLOCKED 8 UNSCHEDULED 8 None) = Some (ERROR_SUCCESS, s) \<and> tt_yield True demo_alloc demo_bmem 0 s = None \<and>
    ts_yield demo_alloc 0 1 s = Some s' \<and> sc_cpus s' 0 = Some ts' \<and> pq_abs (ts_roundRobinQ ts') ls \<and> count_list (ls ! 8) 1 = 2"
proof -
  let ?s = "demo BLOCKED 8 UNSCHEDULED 8 None" and ?th = "demo_thread BLOCKED 8 (Some 0)"
  have "sched_ok {} ?s" by (rule demo_ok) simp_all
  then obtain Q where inv: "sched_inv {} ?s Q" "current_inv ?s" by (auto simp: sched_ok_def)
  obtain ts where ts: "sc_cpus ?s 0 = Some ts" "ts_currentThread ts = 1" by (rule demo_current)
  have t: "sc_threads ?s 1 = Some ?th" by (simp add: demo_simps(1))
  let ?s0 = "put_thread 1 (?th\<lparr>th_schedState := RUNNABLE\<rparr>) ?s"
  have "th_currentCpu ?th = Some 0" "th_schedState ?th \<noteq> RUNNABLE" by simp_all
  from runnable_inv [OF inv t this demo_allocs(1), of ERROR_UNSUPPORTED] demo_allocs(2)
  obtain s1 Q1 where I: "ts_insertByPolicy demo_alloc ERROR_UNSUPPORTED 0 1 ?s0 = Some (ERROR_SUCCESS, s1)" "requeued 0 ?s0 s1" "sched_inv {} s1 Q1" "current_inv s1" by auto
  obtain ts1 where ts1: "sc_cpus s1 0 = Some ts1" "ts_currentThread ts1 = 1" using requeued_cpus [OF I(2), of 0] ts by auto
  have th1: "sc_threads s1 = [1 \<mapsto> ?th\<lparr>th_schedState := RUNNABLE\<rparr>, 2 \<mapsto> demo_thread UNSCHEDULED 8 None]"
    using requeued_threads [OF I(2)] by (auto simp: demo_simps(1) fun_eq_iff)
  then have d: "dom (sc_threads s1) = {1, 2}" "sc_threads s1 (ts_currentThread ts1) = Some (?th\<lparr>th_schedState := RUNNABLE\<rparr>)" using ts1(2) by auto
  have ok1: "sched_ok {} s1" using I(3,4) by (auto simp: sched_ok_def)
  show ?thesis using yield_queues_idle_thread_twice [OF ok1 ts1(1) d(2) _ demo_allocs(1,2), of demo_bmem] ts1(2) I(1) t
    by (auto simp: d(1) ts_unblock_def thread_upd_Some)
qed

end
