(* ===== verification/SlamCache.thy ===== *)
theory SlamCache
  imports Prelude
begin

text \<open>
  \<open>SlamCache\<close> (\<open>include/__kclasses/slamCache.h\<close>, \<open>__kclasses/slamCache.cpp\<close>): the allocator of fixed-size objects behind the node caches of lists and
  run queues.  A page is cut into objects; the objects that are not in use form the partial list through their first word,
  whole pages could wait on the free list.  The store holds the \<open>next\<close> words the cache wrote into objects it owns; the contents of an
  object that is in use belong to the client and are not in the store.  The page allocator is the argument \<open>page\<close>.
\<close>

section \<open>State and operations\<close>

record slam =
  sl_objSize :: u32
  sl_perPageExcess :: u32
  sl_perPageBlocks :: u32
  sl_partial :: ptr
  sl_partialLock :: bool
  sl_free :: ptr
  sl_freeLock :: bool
  sl_objs :: "addr \<Rightarrow> ptr option"

definition slam_new :: "u32 \<Rightarrow> slam" where
  "slam_new objSize = (let sz = (if objSize < 4 then 4 else objSize) in
     \<lparr>sl_objSize = sz, sl_perPageExcess = 4096 mod sz, sl_perPageBlocks = 4096 div sz,
      sl_partial = None, sl_partialLock = False, sl_free = None, sl_freeLock = False, sl_objs = Map.empty\<rparr>)"

text \<open>The loop that links the objects of a new page; the counter starts at \<open>perPageBlocks - 1\<close>.\<close>

fun slam_break :: "nat \<Rightarrow> nat \<Rightarrow> addr \<Rightarrow> (addr \<Rightarrow> ptr option) \<Rightarrow> (addr \<Rightarrow> ptr option)" where
  "slam_break 0 sz tmp h = h(tmp \<mapsto> None)"
| "slam_break (Suc i) sz tmp h = (let nxt = (tmp + sz) mod 2 ^ 32 in slam_break i sz nxt (h(tmp \<mapsto> Some nxt)))"

text \<open>\<open>allocate\<close>: the object (or NULL), whether a new page was asked for, and the new state.\<close>

definition slam_allocate :: "ptr \<Rightarrow> slam \<Rightarrow> (ptr \<times> bool \<times> slam) option" where
  "slam_allocate page s = do {
     k \<leftarrow> lock_acquire (sl_partialLock s);
     (ok, needPage, s) \<leftarrow>
       (if sl_partial s = None then do {
          kf \<leftarrow> lock_acquire (sl_freeLock s);
          s' \<leftarrow> (case sl_free s of None \<Rightarrow> Some s | Some f \<Rightarrow> do { nxt \<leftarrow> sl_objs s f; Some (s\<lparr>sl_free := nxt\<rparr>) });
          let tmp = (if sl_free s = None then page else sl_free s);
          case tmp of
            None \<Rightarrow> Some (False, sl_free s = None, s')
          | Some p \<Rightarrow> Some (True, sl_free s = None,
              s'\<lparr>sl_partial := Some p, sl_objs := slam_break (unat (sl_perPageBlocks s - 1)) (unat (sl_objSize s)) p (sl_objs s)\<rparr>)
        }
        else Some (True, False, s));
     if \<not> ok then Some (None, needPage, s\<lparr>sl_partialLock := lock_release\<rparr>)
     else do {
       a \<leftarrow> sl_partial s;
       nxt \<leftarrow> sl_objs s a;
       Some (Some a, needPage, s\<lparr>sl_partial := nxt, sl_objs := (sl_objs s)(a := None), sl_partialLock := lock_release\<rparr>)
     }
   }"

definition slam_freeObj :: "ptr \<Rightarrow> slam \<Rightarrow> slam option" where
  "slam_freeObj p s =
     (case p of
        None \<Rightarrow> Some s
      | Some a \<Rightarrow> do {
          k \<leftarrow> lock_acquire (sl_partialLock s);
          Some (s\<lparr>sl_objs := (sl_objs s)(a \<mapsto> sl_partial s), sl_partial := Some a, sl_partialLock := lock_release\<rparr>)
        })"

definition slam_detangle :: "slam \<Rightarrow> status_t \<times> slam" where
  "slam_detangle s = (0, s)"

text \<open>\<open>flush\<close> releases the pages of the free list; it returns them, in order, and does not change the list itself.\<close>

fun slam_flushLoop :: "nat \<Rightarrow> ptr \<Rightarrow> (addr \<Rightarrow> ptr option) \<Rightarrow> addr list option" where
  "slam_flushLoop fuel None h = Some []"
| "slam_flushLoop 0 (Some a) h = None"
| "slam_flushLoop (Suc fuel) (Some a) h = do { nxt \<leftarrow> h a; ps \<leftarrow> slam_flushLoop fuel nxt h; Some (a # ps) }"

definition slam_flush :: "nat \<Rightarrow> slam \<Rightarrow> (nat \<times> addr list \<times> slam) option" where
  "slam_flush fuel s = do {
     k \<leftarrow> lock_acquire (sl_freeLock s);
     ps \<leftarrow> slam_flushLoop fuel (sl_free s) (sl_objs s);
     Some (length ps, ps, s\<lparr>sl_freeLock := lock_release\<rparr>)
   }"

section \<open>Lists of free objects\<close>

fun chain :: "(addr \<Rightarrow> ptr option) \<Rightarrow> ptr \<Rightarrow> addr list \<Rightarrow> bool" where
  "chain h p [] \<longleftrightarrow> p = None"
| "chain h p (a # xs) \<longleftrightarrow> p = Some a \<and> (\<exists>nxt. h a = Some nxt \<and> chain h nxt xs)"

lemma chain_frame: "(\<And>a. a \<in> set xs \<Longrightarrow> h' a = h a) \<Longrightarrow> chain h' p xs = chain h p xs"
  by (induction xs arbitrary: p) auto

lemma chain_upd [simp]: "a \<notin> set xs \<Longrightarrow> chain (h(a := v)) p xs = chain h p xs"
  by (rule chain_frame) auto

lemma chain_None: "chain h None xs \<longleftrightarrow> xs = []"
  by (cases xs) auto

lemma chain_Some: "chain h (Some a) xs \<longleftrightarrow> (\<exists>ys nxt. xs = a # ys \<and> h a = Some nxt \<and> chain h nxt ys)"
  by (cases xs) auto

section \<open>The objects of a page\<close>

definition slots :: "nat \<Rightarrow> nat \<Rightarrow> addr \<Rightarrow> addr list" where
  "slots sz n p = map (\<lambda>i. p + i * sz) [0..<n]"

lemma slots_Suc: "slots sz (Suc n) p = p # slots sz n (p + sz)"
  by (rule nth_equalityI) (auto simp: slots_def nth_Cons simp del: upt_Suc split: nat.split)

lemma distinct_slots: "0 < sz \<Longrightarrow> distinct (slots sz n p)"
  by (auto simp: slots_def distinct_map inj_on_def)

lemma slam_break_outside: "a \<notin> set (slots sz (Suc n) p) \<Longrightarrow> p + n * sz < 2 ^ 32 \<Longrightarrow> slam_break n sz p h a = h a"
proof (induction n arbitrary: p h)
  case (Suc n)
  then show ?case by (simp add: slots_Suc [of sz "Suc n"] Let_def)
qed (simp add: slots_def)

lemma slam_break_chain: "0 < sz \<Longrightarrow> p + n * sz < 2 ^ 32 \<Longrightarrow> chain (slam_break n sz p h) (Some p) (slots sz (Suc n) p)"
proof (induction n arbitrary: p h)
  case (Suc n)
  have lt: "p + sz + n * sz < 2 ^ 32" "p + sz < 2 ^ 32" using Suc.prems by simp_all
  have "p \<notin> set (slots sz (Suc n) (p + sz))" using Suc.prems(1) by (auto simp: slots_def)
  then have "slam_break n sz (p + sz) (h(p \<mapsto> Some (p + sz))) p = Some (Some (p + sz))" using slam_break_outside [of p sz n "p + sz"] lt(1) by simp
  moreover have "chain (slam_break n sz (p + sz) (h(p \<mapsto> Some (p + sz)))) (Some (p + sz)) (slots sz (Suc n) (p + sz))"
    by (rule Suc.IH [OF Suc.prems(1) lt(1)])
  ultimately show ?case using lt(2) by (simp add: slots_Suc [of sz "Suc n"] Let_def)
qed (simp add: slots_def)

definition page_ok :: "addr \<Rightarrow> bool" where
  "page_ok p \<longleftrightarrow> 4096 dvd p \<and> p + 4096 \<le> 2 ^ 32"

lemma slot_bounds:
  assumes "a \<in> set (slots sz n p)" "n * sz \<le> 4096"
  shows "p \<le> a" "a + sz \<le> p + 4096"
proof -
  obtain i where i: "i < n" "a = p + i * sz" using assms(1) by (auto simp: slots_def)
  then have "Suc i * sz \<le> n * sz" by (intro mult_le_mono1) simp
  then show "p \<le> a" "a + sz \<le> p + 4096" using i assms(2) by simp_all
qed

lemma slot_page:
  assumes "a \<in> set (slots sz n p)" "n * sz \<le> 4096" "0 < sz" "page_ok p"
  shows "a div 4096 * 4096 = p"
proof -
  obtain k where k: "p = 4096 * k" using assms(4) by (auto simp: page_ok_def elim: dvdE)
  have "4096 * k \<le> a" "a < 4096 * Suc k" using slot_bounds [OF assms(1,2)] assms(3) k by simp_all
  then have "a div 4096 = k" by (intro div_nat_eqI) simp_all
  then show ?thesis using k by simp
qed

lemma page_slot: "0 < n \<Longrightarrow> p \<in> set (slots sz n p)"
  by (auto simp: slots_def image_iff)

text \<open>Two objects do not overlap.\<close>

definition apart :: "nat \<Rightarrow> addr \<Rightarrow> addr \<Rightarrow> bool" where
  "apart sz a b \<longleftrightarrow> a + sz \<le> b \<or> b + sz \<le> a"

lemma slots_apart:
  assumes "a \<in> set (slots sz n p)" "b \<in> set (slots sz n q)" "a \<noteq> b" and n: "n * sz \<le> 4096" "0 < sz" and pq: "page_ok p" "page_ok q"
  shows "apart sz a b"
proof (cases "p = q")
  case True
  then obtain i j where ij: "a = p + i * sz" "b = p + j * sz" using assms(1,2) by (auto simp: slots_def)
  then have "i \<noteq> j" using assms(3) by auto
  then consider "Suc i \<le> j" | "Suc j \<le> i" by linarith
  then show ?thesis
  proof cases
    case 1
    then have "Suc i * sz \<le> j * sz" by (rule mult_le_mono1)
    then show ?thesis using ij by (simp add: apart_def)
  next
    case 2
    then have "Suc j * sz \<le> i * sz" by (rule mult_le_mono1)
    then show ?thesis using ij by (simp add: apart_def)
  qed
next
  case False
  obtain k l where kl: "p = 4096 * k" "q = 4096 * l" using pq by (auto simp: page_ok_def elim!: dvdE)
  then consider "Suc k \<le> l" | "Suc l \<le> k" using False by fastforce
  then show ?thesis using slot_bounds [OF assms(1) n(1)] slot_bounds [OF assms(2) n(1)] kl by cases (auto simp: apart_def)
qed

section \<open>Invariant\<close>

text \<open>\<open>P\<close> are the pages of the cache, \<open>L\<close> the objects clients hold.\<close>

definition slam_sizes :: "slam \<Rightarrow> bool" where
  "slam_sizes s \<longleftrightarrow> 4 \<le> unat (sl_objSize s) \<and> unat (sl_objSize s) \<le> 4096 \<and> unat (sl_perPageBlocks s) = 4096 div unat (sl_objSize s)"

definition slam_slots :: "slam \<Rightarrow> addr \<Rightarrow> addr list" where
  "slam_slots s p = slots (unat (sl_objSize s)) (unat (sl_perPageBlocks s)) p"

definition slam_rep :: "slam \<Rightarrow> addr list \<Rightarrow> addr list \<Rightarrow> addr set \<Rightarrow> addr set \<Rightarrow> bool" where
  "slam_rep s xs ys B L \<longleftrightarrow> slam_sizes s \<and> \<not> sl_partialLock s \<and> \<not> sl_freeLock s \<and>
     chain (sl_objs s) (sl_partial s) xs \<and> distinct xs \<and> chain (sl_objs s) (sl_free s) ys \<and> distinct ys \<and>
     (\<forall>p \<in> B \<union> set ys. page_ok p) \<and> set ys \<inter> B = {} \<and>
     set xs \<inter> L = {} \<and> set xs \<union> L = (\<Union>p \<in> B. set (slam_slots s p)) \<and> dom (sl_objs s) = set xs \<union> set ys"

definition slam_inv :: "slam \<Rightarrow> addr set \<Rightarrow> addr set \<Rightarrow> bool" where
  "slam_inv s P L \<longleftrightarrow> (\<exists>xs ys B. slam_rep s xs ys B L \<and> P = B \<union> set ys)"

lemma slam_sizesD: "slam_sizes s \<Longrightarrow> 0 < unat (sl_objSize s) \<and> 0 < unat (sl_perPageBlocks s) \<and> unat (sl_perPageBlocks s) * unat (sl_objSize s) \<le> 4096"
  by (auto simp: slam_sizes_def div_greater_zero_iff)

lemma slam_rep_slot:
  assumes "slam_rep s xs ys B L" "a \<in> set xs \<union> L"
  shows "\<exists>p \<in> B. page_ok p \<and> a \<in> set (slam_slots s p)"
  using assms unfolding slam_rep_def by blast

lemma slam_rep_page:
  assumes r: "slam_rep s xs ys B L" and a: "a \<in> set xs \<union> L" and p: "p \<notin> B" "page_ok p"
  shows "a \<notin> set (slam_slots s p)"
proof
  assume "a \<in> set (slam_slots s p)"
  moreover obtain q where "q \<in> B" "page_ok q" "a \<in> set (slam_slots s q)" using slam_rep_slot [OF r a] by blast
  moreover have "slam_sizes s" using r by (simp add: slam_rep_def)
  ultimately show False using slot_page [of a "unat (sl_objSize s)" "unat (sl_perPageBlocks s)"] slam_sizesD [of s] p unfolding slam_slots_def by metis
qed

lemma slam_new_inv: "unat objSize \<le> 4096 \<Longrightarrow> slam_inv (slam_new objSize) {} {}"
proof -
  assume sz: "unat objSize \<le> 4096"
  let ?sz = "if objSize < 4 then 4 else objSize"
  have "4 \<le> unat ?sz" "unat ?sz \<le> 4096" using sz by (auto simp: word_less_nat_alt)
  moreover have "unat (4096 div ?sz) = 4096 div unat ?sz" by (simp add: unat_div)
  ultimately show ?thesis by (simp add: slam_inv_def slam_rep_def slam_new_def slam_sizes_def Let_def)
qed

text \<open>Taking the first object of the partial list.\<close>

lemma slam_take:
  assumes r: "slam_rep s (a # xs) ys B L"
  shows "\<exists>nxt. sl_partial s = Some a \<and> sl_objs s a = Some nxt \<and>
    slam_rep (s\<lparr>sl_partial := nxt, sl_objs := (sl_objs s)(a := None), sl_partialLock := False\<rparr>) xs ys B (insert a L) \<and> a \<notin> L"
proof -
  obtain nxt where n: "sl_partial s = Some a" "sl_objs s a = Some nxt" "chain (sl_objs s) nxt xs" "a \<notin> set xs" using r by (auto simp: slam_rep_def)
  have ys: "a \<notin> set ys"
  proof
    assume "a \<in> set ys"
    then have "a \<notin> B" "page_ok a" "0 < unat (sl_perPageBlocks s)" using r slam_sizesD [of s] by (auto simp: slam_rep_def)
    then show False using slam_rep_page [OF r, of a a] page_slot unfolding slam_slots_def by simp
  qed
  have f: "chain ((sl_objs s)(a := None)) nxt xs" "chain ((sl_objs s)(a := None)) (sl_free s) ys"
    using n(3,4) ys r by (simp_all add: slam_rep_def)
  have "dom ((sl_objs s)(a := None)) = set xs \<union> set ys" using r n(4) ys by (auto simp: slam_rep_def)
  then show ?thesis using n f r unfolding slam_rep_def slam_slots_def slam_sizes_def by simp
qed

text \<open>Cutting a page into objects.\<close>

lemma slam_cut:
  assumes r: "slam_rep s [] ys B L" and p: "page_ok p" "p \<notin> B"
    and h: "ys' = ys \<and> p \<notin> set ys \<and> fr = sl_free s \<or> ys = p # ys' \<and> sl_objs s p = Some fr"
  shows "slam_rep (s\<lparr>sl_free := fr, sl_partial := Some p, sl_objs := slam_break (unat (sl_perPageBlocks s - 1)) (unat (sl_objSize s)) p (sl_objs s)\<rparr>)
    (slam_slots s p) ys' (insert p B) L"
proof -
  have z: "slam_sizes s" using r by (simp add: slam_rep_def)
  let ?sz = "unat (sl_objSize s)" and ?n = "unat (sl_perPageBlocks s)"
  have sz: "0 < ?sz" "0 < ?n" "?n * ?sz \<le> 4096" using slam_sizesD [OF z] by simp_all
  then obtain m where m: "?n = Suc m" "unat (sl_perPageBlocks s - 1) = m" using unat_pred [of "?n - 1" "sl_perPageBlocks s"] by (cases ?n) auto
  have lt: "p + m * ?sz < 2 ^ 32" using sz m(1) p(1) by (auto simp: page_ok_def)
  let ?h = "slam_break m ?sz p (sl_objs s)"
  have c: "chain ?h (Some p) (slam_slots s p)" "distinct (slam_slots s p)"
    using slam_break_chain [OF sz(1) lt] distinct_slots [OF sz(1)] unfolding slam_slots_def m(1) by simp_all
  have out: "?h a = sl_objs s a" if "a \<notin> set (slam_slots s p)" for a
    using slam_break_outside [OF _ lt] that unfolding slam_slots_def m(1) by simp
  have ok: "page_ok q" if "q \<in> set ys" for q using that r by (auto simp: slam_rep_def)
  have pq: "q \<notin> set (slam_slots s p)" if "q \<in> set ys'" for q
  proof
    assume q: "q \<in> set (slam_slots s p)"
    have "q \<noteq> p" "page_ok q" using that h ok r by (auto simp: slam_rep_def)
    moreover have "q div 4096 * 4096 = p" using slot_page [OF _ sz(3,1) p(1)] q unfolding slam_slots_def by simp
    ultimately show False by (auto simp: page_ok_def elim!: dvdE)
  qed
  have "chain (sl_objs s) fr ys'" using h r by (auto simp: slam_rep_def)
  then have cy: "chain ?h fr ys'" using chain_frame [of ys' ?h "sl_objs s"] out pq by simp
  have "p \<in> set (slam_slots s p)" using page_slot [OF sz(2)] by (simp add: slam_slots_def)
  then have yy: "set ys - set (slam_slots s p) = set ys'" using h pq slam_rep_def by auto
  have "dom ?h - set (slam_slots s p) = dom (sl_objs s) - set (slam_slots s p)" using out by (auto simp: dom_def)
  moreover have "set (slam_slots s p) \<subseteq> dom ?h"
  proof -
    have "chain g q xs \<Longrightarrow> set xs \<subseteq> dom g" for g q xs by (induction xs arbitrary: q) auto
    then show ?thesis using c(1) by blast
  qed
  moreover have "dom (sl_objs s) = set ys" using r by (simp add: slam_rep_def)
  ultimately have d: "dom ?h = set (slam_slots s p) \<union> set ys'" using yy by blast
  have L: "L = (\<Union>q \<in> B. set (slam_slots s q))" using r by (simp add: slam_rep_def)
  have "set (slam_slots s p) \<inter> L = {}" using slam_rep_page [OF r _ p(2,1)] by auto
  then show ?thesis using r c cy d L h p unfolding slam_rep_def m(2) slam_sizes_def slam_slots_def by auto
qed

section \<open>Allocation and release\<close>

lemma slam_allocate_inv:
  assumes inv: "slam_inv s P L" and pg: "\<And>p. page = Some p \<Longrightarrow> page_ok p \<and> p \<notin> P"
  shows "\<exists>r np s'. slam_allocate page s = Some (r, np, s') \<and> (np \<longrightarrow> sl_partial s = None \<and> sl_free s = None) \<and> sl_objSize s' = sl_objSize s \<and>
    (case r of None \<Rightarrow> np \<and> page = None \<and> s' = s | Some a \<Rightarrow> (np \<longrightarrow> page \<noteq> None) \<and> a \<notin> L \<and> slam_inv s' (if np then insert (the page) P else P) (insert a L))"
proof -
  obtain xs ys B where r: "slam_rep s xs ys B L" and P: "P = B \<union> set ys" using inv by (auto simp: slam_inv_def)
  have k: "\<not> sl_partialLock s" "\<not> sl_freeLock s" and c: "chain (sl_objs s) (sl_partial s) xs" "chain (sl_objs s) (sl_free s) ys" using r by (auto simp: slam_rep_def)
  show ?thesis
  proof (cases xs)
    case (Cons a xs')
    from slam_take [OF r [unfolded Cons]] obtain nxt where "sl_partial s = Some a" "sl_objs s a = Some nxt" "a \<notin> L"
      "slam_rep (s\<lparr>sl_partial := nxt, sl_objs := (sl_objs s)(a := None), sl_partialLock := False\<rparr>) xs' ys B (insert a L)" by blast
    then show ?thesis using k P by (auto simp: slam_allocate_def slam_inv_def)
  next
    case Nil
    then have pn: "sl_partial s = None" using c(1) by simp
    have cut: ?thesis if p: "page_ok p" "p \<notin> B" and h: "ys' = ys \<and> p \<notin> set ys \<and> fr = sl_free s \<or> ys = p # ys' \<and> sl_objs s p = Some fr"
      and e: "(case sl_free s of None \<Rightarrow> Some s | Some f \<Rightarrow> do { nxt \<leftarrow> sl_objs s f; Some (s\<lparr>sl_free := nxt\<rparr>) }) = Some (s\<lparr>sl_free := fr\<rparr>)"
      and t: "(if sl_free s = None then page else sl_free s) = Some p" and P': "(if sl_free s = None then insert (the page) P else P) = insert p B \<union> set ys'" for p ys' fr
    proof -
      let ?s = "s\<lparr>sl_free := fr, sl_partial := Some p, sl_objs := slam_break (unat (sl_perPageBlocks s - 1)) (unat (sl_objSize s)) p (sl_objs s)\<rparr>"
      have R: "slam_rep ?s (slam_slots s p) ys' (insert p B) L" using slam_cut [OF r [unfolded Nil] p h] .
      have "0 < unat (sl_perPageBlocks s)" using r slam_sizesD [of s] by (simp add: slam_rep_def)
      then obtain zs where zs: "slam_slots s p = p # zs" unfolding slam_slots_def by (cases "unat (sl_perPageBlocks s)") (simp_all add: slots_Suc)
      from slam_take [OF R [unfolded zs]] obtain nxt where T: "sl_objs ?s p = Some nxt" "p \<notin> L"
        "slam_rep (?s\<lparr>sl_partial := nxt, sl_objs := (sl_objs ?s)(p := None), sl_partialLock := False\<rparr>) zs ys' (insert p B) (insert p L)" by blast
      have "slam_allocate page s = Some (Some p, sl_free s = None, ?s\<lparr>sl_partial := nxt, sl_objs := (sl_objs ?s)(p := None), sl_partialLock := False\<rparr>)"
        using k pn e t T(1) by (simp add: slam_allocate_def)
      then show ?thesis using T(2,3) pn P' t unfolding slam_inv_def by (auto split: if_splits)
    qed
    show ?thesis
    proof (cases "sl_free s")
      case None
      then have ys: "ys = []" using c(2) by (simp add: chain_None)
      show ?thesis
      proof (cases page)
        case None
        then have "slam_allocate page s = Some (None, True, s)" using k pn \<open>sl_free s = None\<close> by (simp add: slam_allocate_def)
        then show ?thesis using None pn \<open>sl_free s = None\<close> by auto
      next
        case (Some p)
        show ?thesis by (rule cut [of p ys None]) (use Some pg [of p] P ys \<open>sl_free s = None\<close> in auto)
      qed
    next
      case (Some f)
      then obtain ys' nxt where ys: "ys = f # ys'" "sl_objs s f = Some nxt" using c(2) by (auto simp: chain_Some)
      have "page_ok f" "f \<notin> B" using r ys(1) by (auto simp: slam_rep_def)
      then show ?thesis by (rule cut [of f ys' nxt]) (use Some ys P in auto)
    qed
  qed
qed

lemma slam_free_inv:
  assumes inv: "slam_inv s P L" and a: "a \<in> L"
  shows "slam_freeObj (Some a) s = Some (s\<lparr>sl_objs := (sl_objs s)(a \<mapsto> sl_partial s), sl_partial := Some a\<rparr>)"
    "slam_inv (s\<lparr>sl_objs := (sl_objs s)(a \<mapsto> sl_partial s), sl_partial := Some a\<rparr>) P (L - {a})" "sl_objs s a = None"
proof -
  obtain xs ys B where r: "slam_rep s xs ys B L" and P: "P = B \<union> set ys" using inv by (auto simp: slam_inv_def)
  have "\<not> sl_partialLock s" using r by (simp add: slam_rep_def)
  then show "slam_freeObj (Some a) s = Some (s\<lparr>sl_objs := (sl_objs s)(a \<mapsto> sl_partial s), sl_partial := Some a\<rparr>)" by (simp add: slam_freeObj_def)
  have ys: "a \<notin> set ys"
  proof
    assume "a \<in> set ys"
    then have "a \<notin> B" "page_ok a" "0 < unat (sl_perPageBlocks s)" using r slam_sizesD [of s] by (auto simp: slam_rep_def)
    then show False using slam_rep_page [OF r, of a a] page_slot a unfolding slam_slots_def by simp
  qed
  have xs: "a \<notin> set xs" using r a by (auto simp: slam_rep_def)
  show "sl_objs s a = None" using r xs ys by (auto simp: slam_rep_def dom_def)
  have U: "insert a (set xs \<union> (L - {a})) = set xs \<union> L" using a by auto
  have "slam_rep (s\<lparr>sl_objs := (sl_objs s)(a \<mapsto> sl_partial s), sl_partial := Some a\<rparr>) (a # xs) ys B (L - {a})"
    using r xs ys a U unfolding slam_rep_def slam_slots_def slam_sizes_def by simp blast
  then show "slam_inv (s\<lparr>sl_objs := (sl_objs s)(a \<mapsto> sl_partial s), sl_partial := Some a\<rparr>) P (L - {a})" using P by (auto simp: slam_inv_def)
qed

lemma slam_inv_apart:
  assumes inv: "slam_inv s P L"
  shows "a \<in> L \<Longrightarrow> \<exists>p \<in> P. p \<le> a \<and> a + unat (sl_objSize s) \<le> p + 4096" "a \<in> L \<Longrightarrow> b \<in> L \<Longrightarrow> a \<noteq> b \<Longrightarrow> apart (unat (sl_objSize s)) a b"
proof -
  obtain xs ys B where r: "slam_rep s xs ys B L" and P: "P = B \<union> set ys" using inv by (auto simp: slam_inv_def)
  have sz: "0 < unat (sl_objSize s)" "unat (sl_perPageBlocks s) * unat (sl_objSize s) \<le> 4096" using r slam_sizesD [of s] by (auto simp: slam_rep_def)
  show "\<exists>p \<in> P. p \<le> a \<and> a + unat (sl_objSize s) \<le> p + 4096" if "a \<in> L"
    using slam_rep_slot [OF r, of a] that slot_bounds [OF _ sz(2)] P unfolding slam_slots_def by blast
  show "apart (unat (sl_objSize s)) a b" if ab: "a \<in> L" "b \<in> L" "a \<noteq> b"
  proof -
    have "\<exists>p. page_ok p \<and> c \<in> set (slam_slots s p)" if "c \<in> L" for c using slam_rep_slot [OF r, of c] that by blast
    then obtain p q where "page_ok p" "a \<in> set (slam_slots s p)" "page_ok q" "b \<in> set (slam_slots s q)" using ab by metis
    then show ?thesis using slots_apart [OF _ _ ab(3) sz(2,1)] unfolding slam_slots_def by blast
  qed
qed

section \<open>The interface of an object cache\<close>

text \<open>What a client relies on: an object that is handed out is not in use, and an object that was given back can be handed out again.
  The set of pages and the set of objects in use are ghosts.\<close>

locale object_cache =
  fixes cinv :: "'s \<Rightarrow> addr set \<Rightarrow> addr set \<Rightarrow> bool"
    and allocate :: "ptr \<Rightarrow> 's \<Rightarrow> (ptr \<times> bool \<times> 's) option"
    and free :: "addr \<Rightarrow> 's \<Rightarrow> 's option"
    and valid_page :: "addr \<Rightarrow> bool"
  assumes allocate_law: "cinv s P L \<Longrightarrow> (\<And>p. page = Some p \<Longrightarrow> valid_page p \<and> p \<notin> P) \<Longrightarrow>
      \<exists>r np s'. allocate page s = Some (r, np, s') \<and>
        (case r of None \<Rightarrow> np \<and> page = None \<and> s' = s | Some a \<Rightarrow> (np \<longrightarrow> page \<noteq> None) \<and> a \<notin> L \<and> cinv s' (if np then insert (the page) P else P) (insert a L))"
    and free_law: "cinv s P L \<Longrightarrow> a \<in> L \<Longrightarrow> \<exists>s'. free a s = Some s' \<and> cinv s' P (L - {a})"
begin

inductive reach :: "'s \<Rightarrow> 's \<Rightarrow> addr set \<Rightarrow> addr set \<Rightarrow> bool" for s0 where
  init: "reach s0 s0 {} {}"
| alloc: "reach s0 s P L \<Longrightarrow> (\<And>p. page = Some p \<Longrightarrow> valid_page p \<and> p \<notin> P) \<Longrightarrow> allocate page s = Some (r, np, s') \<Longrightarrow>
    reach s0 s' (if np \<and> page \<noteq> None then insert (the page) P else P) (case r of None \<Rightarrow> L | Some a \<Rightarrow> insert a L)"
| free: "reach s0 s P L \<Longrightarrow> a \<in> L \<Longrightarrow> free a s = Some s' \<Longrightarrow> reach s0 s' P (L - {a})"

lemma reach_inv: "reach s0 s P L \<Longrightarrow> cinv s0 {} {} \<Longrightarrow> cinv s P L"
proof (induction rule: reach.induct)
  case (alloc s P L page r np s')
  obtain r' np' s'' where A: "allocate page s = Some (r', np', s'')"
    "case r' of None \<Rightarrow> np' \<and> page = None \<and> s'' = s | Some a \<Rightarrow> (np' \<longrightarrow> page \<noteq> None) \<and> a \<notin> L \<and> cinv s'' (if np' then insert (the page) P else P) (insert a L)"
    using allocate_law [OF alloc.IH [OF alloc.prems], of page] alloc.hyps(2) by blast
  then have eq: "r' = r" "np' = np" "s'' = s'" using alloc.hyps(3) by simp_all
  show ?case
  proof (cases r)
    case None
    then show ?thesis using A(2) eq alloc.IH [OF alloc.prems] by simp
  next
    case (Some a)
    then show ?thesis using A(2) eq by (cases np) auto
  qed
next
  case (free s P L a s')
  then show ?case using free_law [of s P L a] by auto
qed

end

interpretation sc: object_cache slam_inv slam_allocate "\<lambda>a. slam_freeObj (Some a)" page_ok
proof
  fix s P L page a
  show "slam_inv s P L \<Longrightarrow> (\<And>p. page = Some p \<Longrightarrow> page_ok p \<and> p \<notin> P) \<Longrightarrow> \<exists>r np s'. slam_allocate page s = Some (r, np, s') \<and>
    (case r of None \<Rightarrow> np \<and> page = None \<and> s' = s
     | Some a \<Rightarrow> (np \<longrightarrow> page \<noteq> None) \<and> a \<notin> L \<and> slam_inv s' (if np then insert (the page) P else P) (insert a L))"
    using slam_allocate_inv [of s P L page] by blast
  show "slam_inv s P L \<Longrightarrow> a \<in> L \<Longrightarrow> \<exists>s'. slam_freeObj (Some a) s = Some s' \<and> slam_inv s' P (L - {a})"
    using slam_free_inv [of s P L a] by blast
qed

section \<open>Properties\<close>

lemma slam_reach_size: "sc.reach s0 s P L \<Longrightarrow> slam_inv s0 {} {} \<Longrightarrow> sl_objSize s = sl_objSize s0"
proof (induction rule: sc.reach.induct)
  case (alloc s P L page r np s')
  then show ?case using slam_allocate_inv [OF sc.reach_inv [OF alloc.hyps(1) alloc.prems], of page] by auto
next
  case (free s P L a s')
  then show ?case by (auto simp: slam_freeObj_def lock_acquire_def split: if_splits)
qed simp

text \<open>C21: after any sequence of allocations and releases (of objects in use), with pages that are aligned and that the cache does not own yet:
  the objects in use lie inside the pages of the cache and do not overlap.  The next allocation does not
  fault; it returns an object that overlaps none in use, or NULL when no object is left and there is no new page.  A release does not
  fault.\<close>

theorem slam_objects_disjoint:
  assumes "unat objSize \<le> 4096" "sc.reach (slam_new objSize) s P L" "\<forall>p. page = Some p \<longrightarrow> page_ok p \<and> p \<notin> P"
  shows "(\<forall>a \<in> L. \<exists>p \<in> P. p \<le> a \<and> a + unat objSize \<le> p + 4096) \<and> (\<forall>a \<in> L. \<forall>b \<in> L. a \<noteq> b \<longrightarrow> apart (unat objSize) a b) \<and>
    (\<exists>r np s'. slam_allocate page s = Some (r, np, s') \<and>
      (case r of None \<Rightarrow> page = None \<and> sl_partial s = None \<and> sl_free s = None | Some a \<Rightarrow> a \<notin> L \<and> (\<forall>b \<in> L. apart (unat objSize) a b))) \<and>
    (\<forall>a \<in> L. slam_freeObj (Some a) s \<noteq> None)"
proof -
  have new: "slam_inv (slam_new objSize) {} {}" by (rule slam_new_inv [OF assms(1)])
  have inv: "slam_inv s P L" by (rule sc.reach_inv [OF assms(2) new])
  have "sl_objSize s = (if objSize < 4 then 4 else objSize)" using slam_reach_size [OF assms(2) new] by (simp add: slam_new_def Let_def)
  then have sz: "unat objSize \<le> unat (sl_objSize s)" by (auto simp: word_less_nat_alt)
  have smaller: "apart (unat (sl_objSize s)) a b \<Longrightarrow> apart (unat objSize) a b" for a b using sz by (auto simp: apart_def)
  obtain r np s' where A: "slam_allocate page s = Some (r, np, s')" "np \<longrightarrow> sl_partial s = None \<and> sl_free s = None" "sl_objSize s' = sl_objSize s"
    "case r of None \<Rightarrow> np \<and> page = None \<and> s' = s | Some a \<Rightarrow> (np \<longrightarrow> page \<noteq> None) \<and> a \<notin> L \<and> slam_inv s' (if np then insert (the page) P else P) (insert a L)"
    using slam_allocate_inv [OF inv, of page] assms(3) by blast
  have "case r of None \<Rightarrow> page = None \<and> sl_partial s = None \<and> sl_free s = None | Some a \<Rightarrow> a \<notin> L \<and> (\<forall>b \<in> L. apart (unat objSize) a b)"
  proof (cases r)
    case (Some a)
    then have "a \<notin> L" "slam_inv s' (if np then insert (the page) P else P) (insert a L)" using A(4) by simp_all
    then show ?thesis using slam_inv_apart(2) [of s' _ "insert a L" a] A(3) smaller Some by auto
  qed (use A(2,4) in simp)
  moreover have "\<exists>p \<in> P. p \<le> a \<and> a + unat objSize \<le> p + 4096" if "a \<in> L" for a using slam_inv_apart(1) [OF inv that] sz by force
  ultimately show ?thesis using slam_inv_apart(2) [OF inv] smaller slam_free_inv(1) [OF inv] A(1) by (intro conjI ballI impI) auto
qed

lemma slam_objects_disjoint_witness:
  "\<exists>r np s'. slam_allocate (Some 4096) (slam_new 12) = Some (r, np, s') \<and> (case r of None \<Rightarrow> False | Some a \<Rightarrow> a \<notin> {})"
proof -
  have "page_ok 4096" by (simp add: page_ok_def)
  then show ?thesis using slam_objects_disjoint [of 12 "slam_new 12" "{}" "{}" "Some 4096", OF _ sc.reach.init]
    by (auto split: option.splits)
qed

text \<open>releasing an object and allocating again returns that object and restores the cache exactly.\<close>

theorem slam_free_allocate:
  assumes "unat objSize \<le> 4096" "sc.reach (slam_new objSize) s P L" "a \<in> L"
  shows "do { s1 \<leftarrow> slam_freeObj (Some a) s; slam_allocate page s1 } = Some (Some a, False, s)"
proof -
  have inv: "slam_inv s P L" by (rule sc.reach_inv [OF assms(2) slam_new_inv [OF assms(1)]])
  have "\<not> sl_partialLock s" using inv by (auto simp: slam_inv_def slam_rep_def)
  then show ?thesis using slam_free_inv(1,3) [OF inv assms(3)] by (simp add: slam_allocate_def fun_upd_idem)
qed

lemma slam_free_allocate_witness:
  "\<exists>a s. slam_allocate (Some 4096) (slam_new 12) = Some (Some a, True, s) \<and> do { s1 \<leftarrow> slam_freeObj (Some a) s; slam_allocate None s1 } = Some (Some a, False, s)"
proof -
  have ok: "page_ok 4096" by (simp add: page_ok_def)
  obtain a s where A: "slam_allocate (Some 4096) (slam_new 12) = Some (Some a, True, s)"
    using slam_allocate_inv [OF slam_new_inv [of 12], of "Some 4096"] ok
    by (auto simp: slam_allocate_def slam_new_def bind_eq_Some_conv split: option.splits)
  have "sc.reach (slam_new 12) s (if True \<and> Some (4096::nat) \<noteq> None then insert (the (Some 4096)) {} else {}) (case Some a of None \<Rightarrow> {} | Some a \<Rightarrow> insert a {})"
    by (rule sc.reach.alloc [OF sc.reach.init _ A]) (use ok in simp)
  then show ?thesis using slam_free_allocate [of 12 s _ _ a None] A by simp
qed

end
