(* ===== verification/X86Bus.thy ===== *)
theory X86Bus
  imports X86MulDiv "HOL-Library.State_Monad"
begin

text \<open>
  What the instructions of the emulator are written with: the state monad over the machine, the
  memory and port accessors (\<open>sys.c\<close>, \<open>x86EmuAuxFuncs.cpp\<close>), the registers a ModRM byte can
  name, the stack (\<open>prim_ops.c\<close>) and the mode word of \<open>regs.h\<close>.

  The accessors are function pointers that \<open>ibmPcBios::initialize\<close> sets, before anything runs, to
  those of \<open>x86EmuAuxFuncs.cpp\<close>; \<open>sys_rdb\<close> and its siblings below are these.  The checked
  accessors that \<open>sys.c\<close> sets at start-up are modelled beside them.
\<close>

section \<open>Computations on the machine\<close>

type_synonym 'a emu = "(x86, 'a) state"

definition gets :: "(x86 \<Rightarrow> 'a) \<Rightarrow> 'a emu" where
  "gets f = State (\<lambda>m. (f m, m))"

definition upd :: "(x86 \<Rightarrow> x86) \<Rightarrow> unit emu" where
  "upd f = State (\<lambda>m. ((), f m))"

definition emu_when :: "bool \<Rightarrow> unit emu \<Rightarrow> unit emu" where
  "emu_when c a = (if c then a else State_Monad.return ())"

definition exec :: "'a emu \<Rightarrow> x86 \<Rightarrow> x86" where
  "exec c m = snd (run_state c m)"

named_theorems emu_run \<open>running a step of the emulator\<close>

lemma run_basic [emu_run]:
  "run_state (gets f) m = (f m, m)" "run_state (upd g) m = ((), g m)"
  "run_state (emu_when c a) m = (if c then run_state a m else ((), m))"
  by (simp_all add: gets_def upd_def emu_when_def)

section \<open>The mode word\<close>

definition SYSMODE_SEG_DS_SS :: u32 where "SYSMODE_SEG_DS_SS = 0x1"
definition SYSMODE_SEGOVR_CS :: u32 where "SYSMODE_SEGOVR_CS = 0x2"
definition SYSMODE_SEGOVR_DS :: u32 where "SYSMODE_SEGOVR_DS = 0x4"
definition SYSMODE_SEGOVR_ES :: u32 where "SYSMODE_SEGOVR_ES = 0x8"
definition SYSMODE_SEGOVR_FS :: u32 where "SYSMODE_SEGOVR_FS = 0x10"
definition SYSMODE_SEGOVR_GS :: u32 where "SYSMODE_SEGOVR_GS = 0x20"
definition SYSMODE_SEGOVR_SS :: u32 where "SYSMODE_SEGOVR_SS = 0x40"
definition SYSMODE_PREFIX_REPE :: u32 where "SYSMODE_PREFIX_REPE = 0x80"
definition SYSMODE_PREFIX_REPNE :: u32 where "SYSMODE_PREFIX_REPNE = 0x100"
definition SYSMODE_PREFIX_DATA :: u32 where "SYSMODE_PREFIX_DATA = 0x200"
definition SYSMODE_PREFIX_ADDR :: u32 where "SYSMODE_PREFIX_ADDR = 0x400"

definition SYSMODE_SEGMASK :: u32 where
  "SYSMODE_SEGMASK = SYSMODE_SEG_DS_SS OR SYSMODE_SEGOVR_CS OR SYSMODE_SEGOVR_DS OR SYSMODE_SEGOVR_ES OR
     SYSMODE_SEGOVR_FS OR SYSMODE_SEGOVR_GS OR SYSMODE_SEGOVR_SS"

definition SYSMODE_CLRMASK :: u32 where
  "SYSMODE_CLRMASK = SYSMODE_SEGMASK OR SYSMODE_PREFIX_DATA OR SYSMODE_PREFIX_ADDR"

lemmas sysmode_defs = SYSMODE_SEG_DS_SS_def SYSMODE_SEGOVR_CS_def SYSMODE_SEGOVR_DS_def
  SYSMODE_SEGOVR_ES_def SYSMODE_SEGOVR_FS_def SYSMODE_SEGOVR_GS_def SYSMODE_SEGOVR_SS_def
  SYSMODE_PREFIX_REPE_def SYSMODE_PREFIX_REPNE_def SYSMODE_PREFIX_DATA_def SYSMODE_PREFIX_ADDR_def

lemma sysmode_masks: "SYSMODE_SEGMASK = mask 7" "SYSMODE_CLRMASK = 0x67F"
  by (simp_all add: SYSMODE_SEGMASK_def SYSMODE_CLRMASK_def sysmode_defs mask_eq_exp_minus_1)

definition mode_is :: "u32 \<Rightarrow> x86 \<Rightarrow> bool" where
  "mode_is f m \<longleftrightarrow> mode m AND f \<noteq> 0"

definition mode_set :: "u32 \<Rightarrow> unit emu" where
  "mode_set f = upd (\<lambda>m. m\<lparr>mode := mode m OR f\<rparr>)"

definition mode_clear :: "u32 \<Rightarrow> unit emu" where
  "mode_clear f = upd (\<lambda>m. m\<lparr>mode := mode m AND NOT f\<rparr>)"

definition DECODE_CLEAR_SEGOVR :: "unit emu" where
  "DECODE_CLEAR_SEGOVR = mode_clear SYSMODE_CLRMASK"

definition X86EMU_halt_sys :: "x86 \<Rightarrow> x86" where
  "X86EMU_halt_sys m = m\<lparr>intr := intr m OR INTR_HALTED\<rparr>"

definition HALT_SYS :: "unit emu" where
  "HALT_SYS = upd X86EMU_halt_sys"

text \<open>The processor that runs the kernel traps: nothing the emulator does after that is observable.\<close>

definition emu_trap :: "unit emu" where
  "emu_trap = upd (\<lambda>m. m\<lparr>fault := True\<rparr>)"

lemma run_mode [emu_run]:
  "run_state (mode_set f) m = ((), m\<lparr>mode := mode m OR f\<rparr>)"
  "run_state (mode_clear f) m = ((), m\<lparr>mode := mode m AND NOT f\<rparr>)"
  "run_state DECODE_CLEAR_SEGOVR m = ((), m\<lparr>mode := mode m AND NOT SYSMODE_CLRMASK\<rparr>)"
  "run_state HALT_SYS m = ((), m\<lparr>intr := intr m OR INTR_HALTED\<rparr>)"
  "run_state emu_trap m = ((), m\<lparr>fault := True\<rparr>)"
  by (simp_all add: emu_run mode_set_def mode_clear_def DECODE_CLEAR_SEGOVR_def HALT_SYS_def emu_trap_def
      X86EMU_halt_sys_def)

section \<open>Memory\<close>

text \<open>Little endian words and longs of the byte array; addresses wrap at 32 bits.\<close>

definition mem8 :: "x86 \<Rightarrow> u32 \<Rightarrow> u8" where
  "mem8 m a = ram m a"

definition mem16 :: "x86 \<Rightarrow> u32 \<Rightarrow> u16" where
  "mem16 m a = ucast (ram m a) OR push_bit 8 (ucast (ram m (a + 1)))"

definition mem32 :: "x86 \<Rightarrow> u32 \<Rightarrow> u32" where
  "mem32 m a = ucast (ram m a) OR push_bit 8 (ucast (ram m (a + 1))) OR
     push_bit 16 (ucast (ram m (a + 2))) OR push_bit 24 (ucast (ram m (a + 3)))"

definition put8 :: "u32 \<Rightarrow> u8 \<Rightarrow> x86 \<Rightarrow> x86" where
  "put8 a v m = m\<lparr>ram := (ram m)(a := v)\<rparr>"

definition put16 :: "u32 \<Rightarrow> u16 \<Rightarrow> x86 \<Rightarrow> x86" where
  "put16 a v m = m\<lparr>ram := (ram m)(a := ucast v, a + 1 := ucast (drop_bit 8 v))\<rparr>"

definition put32 :: "u32 \<Rightarrow> u32 \<Rightarrow> x86 \<Rightarrow> x86" where
  "put32 a v m = m\<lparr>ram := (ram m)(a := ucast v, a + 1 := ucast (drop_bit 8 v),
     a + 2 := ucast (drop_bit 16 v), a + 3 := ucast (drop_bit 24 v))\<rparr>"

text \<open>What was stored is read back, and the other bytes keep their values.\<close>

lemma succ_ne [simp]:
  "(a :: u32) + 1 \<noteq> a" "a + 2 \<noteq> a" "a + 3 \<noteq> a" "a \<noteq> a + 1" "a \<noteq> a + 2" "a \<noteq> a + 3"
  "a + 2 \<noteq> a + 1" "a + 3 \<noteq> a + 1" "a + 3 \<noteq> a + 2" "a + 1 \<noteq> a + 2" "a + 1 \<noteq> a + 3" "a + 2 \<noteq> a + 3"
  by simp_all

lemma mem_put [simp]: "mem8 (put8 a v m) a = v" "mem16 (put16 a w m) a = w" "mem32 (put32 a l m) a = l"
proof -
  show "mem8 (put8 a v m) a = v" by (simp add: mem8_def put8_def)
  show "mem16 (put16 a w m) a = w"
    by (rule bit_word_eqI) (auto simp: mem16_def put16_def bit_simps)
  show "mem32 (put32 a l m) a = l"
  proof (rule bit_word_eqI)
    fix n assume "n < LENGTH(32)"
    then show "bit (mem32 (put32 a l m) a) n = bit l n"
      by (cases "n < 24"; cases "n < 16"; auto simp: mem32_def put32_def bit_simps)
  qed
qed

lemma ram_put:
  "ram (put8 a v m) = (ram m)(a := v)"
  "ram (put16 a w m) = (ram m)(a := ucast w, a + 1 := ucast (drop_bit 8 w))"
  "ram (put32 a l m) = (ram m)(a := ucast l, a + 1 := ucast (drop_bit 8 l),
     a + 2 := ucast (drop_bit 16 l), a + 3 := ucast (drop_bit 24 l))"
  by (simp_all add: put8_def put16_def put32_def)

subsection \<open>The kernel's accessors\<close>

definition x86Emu_read8 :: "u32 \<Rightarrow> u8 emu" where "x86Emu_read8 a = gets (\<lambda>m. mem8 m a)"
definition x86Emu_read16 :: "u32 \<Rightarrow> u16 emu" where "x86Emu_read16 a = gets (\<lambda>m. mem16 m a)"
definition x86Emu_read32 :: "u32 \<Rightarrow> u32 emu" where "x86Emu_read32 a = gets (\<lambda>m. mem32 m a)"
definition x86Emu_write8 :: "u32 \<Rightarrow> u8 \<Rightarrow> unit emu" where "x86Emu_write8 a v = upd (put8 a v)"
definition x86Emu_write16 :: "u32 \<Rightarrow> u16 \<Rightarrow> unit emu" where "x86Emu_write16 a v = upd (put16 a v)"
definition x86Emu_write32 :: "u32 \<Rightarrow> u32 \<Rightarrow> unit emu" where "x86Emu_write32 a v = upd (put32 a v)"

abbreviation sys_rdb :: "u32 \<Rightarrow> u8 emu" where "sys_rdb \<equiv> x86Emu_read8"
abbreviation sys_rdw :: "u32 \<Rightarrow> u16 emu" where "sys_rdw \<equiv> x86Emu_read16"
abbreviation sys_rdl :: "u32 \<Rightarrow> u32 emu" where "sys_rdl \<equiv> x86Emu_read32"
abbreviation sys_wrb :: "u32 \<Rightarrow> u8 \<Rightarrow> unit emu" where "sys_wrb \<equiv> x86Emu_write8"
abbreviation sys_wrw :: "u32 \<Rightarrow> u16 \<Rightarrow> unit emu" where "sys_wrw \<equiv> x86Emu_write16"
abbreviation sys_wrl :: "u32 \<Rightarrow> u32 \<Rightarrow> unit emu" where "sys_wrl \<equiv> x86Emu_write32"

lemma run_bus [emu_run]:
  "run_state (sys_rdb a) m = (mem8 m a, m)" "run_state (sys_rdw a) m = (mem16 m a, m)"
  "run_state (sys_rdl a) m = (mem32 m a, m)"
  "run_state (sys_wrb a v) m = ((), put8 a v m)" "run_state (sys_wrw a w) m = ((), put16 a w m)"
  "run_state (sys_wrl a l) m = ((), put32 a l m)"
  by (simp_all add: emu_run x86Emu_read8_def x86Emu_read16_def x86Emu_read32_def
      x86Emu_write8_def x86Emu_write16_def x86Emu_write32_def)

subsection \<open>The default accessors\<close>

text \<open>They compare with \<open>M.mem_size\<close>, halt the machine out of range, and make the access all the same.\<close>

definition rdb :: "u32 \<Rightarrow> u8 emu" where
  "rdb addr = do {
     size \<leftarrow> gets mem_size;
     emu_when (addr > size - 1) HALT_SYS;
     gets (\<lambda>m. mem8 m addr) }"

definition rdw :: "u32 \<Rightarrow> u16 emu" where
  "rdw addr = do {
     size \<leftarrow> gets mem_size;
     emu_when (addr > size - 2) HALT_SYS;
     gets (\<lambda>m. mem16 m addr) }"

definition rdl :: "u32 \<Rightarrow> u32 emu" where
  "rdl addr = do {
     size \<leftarrow> gets mem_size;
     emu_when (addr > size - 4) HALT_SYS;
     gets (\<lambda>m. mem32 m addr) }"

definition wrb :: "u32 \<Rightarrow> u8 \<Rightarrow> unit emu" where
  "wrb addr val = do {
     size \<leftarrow> gets mem_size;
     emu_when (addr > size - 1) HALT_SYS;
     upd (put8 addr val) }"

definition wrw :: "u32 \<Rightarrow> u16 \<Rightarrow> unit emu" where
  "wrw addr val = do {
     size \<leftarrow> gets mem_size;
     emu_when (addr > size - 2) HALT_SYS;
     upd (put16 addr val) }"

definition wrl :: "u32 \<Rightarrow> u32 \<Rightarrow> unit emu" where
  "wrl addr val = do {
     size \<leftarrow> gets mem_size;
     emu_when (addr > size - 4) HALT_SYS;
     upd (put32 addr val) }"

section \<open>Ports\<close>

definition port_in :: "nat \<Rightarrow> u16 \<Rightarrow> u32 emu" where
  "port_in w p = State (\<lambda>m. let v = io_dev m (io_log m) p w in (v, m\<lparr>io_log := IoIn p w v # io_log m\<rparr>))"

definition port_out :: "nat \<Rightarrow> u16 \<Rightarrow> u32 \<Rightarrow> unit emu" where
  "port_out w p v = upd (\<lambda>m. m\<lparr>io_log := IoOut p w v # io_log m\<rparr>)"

definition sys_inb :: "u16 \<Rightarrow> u8 emu" where
  "sys_inb p = do { v \<leftarrow> port_in 1 p; State_Monad.return (ucast v) }"
definition sys_inw :: "u16 \<Rightarrow> u16 emu" where
  "sys_inw p = do { v \<leftarrow> port_in 2 p; State_Monad.return (ucast v) }"
definition sys_inl :: "u16 \<Rightarrow> u32 emu" where
  "sys_inl p = port_in 4 p"
definition sys_outb :: "u16 \<Rightarrow> u8 \<Rightarrow> unit emu" where
  "sys_outb p v = port_out 1 p (ucast v)"
definition sys_outw :: "u16 \<Rightarrow> u16 \<Rightarrow> unit emu" where
  "sys_outw p v = port_out 2 p (ucast v)"
definition sys_outl :: "u16 \<Rightarrow> u32 \<Rightarrow> unit emu" where
  "sys_outl p v = port_out 4 p v"

lemma run_ports [emu_run]:
  "run_state (port_in w p) m =
     (io_dev m (io_log m) p w, m\<lparr>io_log := IoIn p w (io_dev m (io_log m) p w) # io_log m\<rparr>)"
  "run_state (port_out w p v) m = ((), m\<lparr>io_log := IoOut p w v # io_log m\<rparr>)"
  by (simp_all add: emu_run port_in_def port_out_def Let_def)

section \<open>Registers\<close>

datatype reg8 = rAL | rCL | rDL | rBL | rAH | rCH | rDH | rBH
datatype greg = rEAX | rECX | rEDX | rEBX | rESP | rEBP | rESI | rEDI
datatype sreg = rES | rCS | rSS | rDS | rFS | rGS

primrec rd32 :: "greg \<Rightarrow> x86 \<Rightarrow> u32" where
  "rd32 rEAX m = gA m" | "rd32 rECX m = gC m" | "rd32 rEDX m = gD m" | "rd32 rEBX m = gB m"
| "rd32 rESP m = gSP m" | "rd32 rEBP m = gBP m" | "rd32 rESI m = gSI m" | "rd32 rEDI m = gDI m"

primrec wr32 :: "greg \<Rightarrow> u32 \<Rightarrow> x86 \<Rightarrow> x86" where
  "wr32 rEAX v m = m\<lparr>gA := v\<rparr>" | "wr32 rECX v m = m\<lparr>gC := v\<rparr>" | "wr32 rEDX v m = m\<lparr>gD := v\<rparr>"
| "wr32 rEBX v m = m\<lparr>gB := v\<rparr>" | "wr32 rESP v m = m\<lparr>gSP := v\<rparr>" | "wr32 rEBP v m = m\<lparr>gBP := v\<rparr>"
| "wr32 rESI v m = m\<lparr>gSI := v\<rparr>" | "wr32 rEDI v m = m\<lparr>gDI := v\<rparr>"

definition rd16 :: "greg \<Rightarrow> x86 \<Rightarrow> u16" where "rd16 r m = lo16 (rd32 r m)"
definition wr16 :: "greg \<Rightarrow> u16 \<Rightarrow> x86 \<Rightarrow> x86" where "wr16 r v m = wr32 r (put_lo16 v (rd32 r m)) m"

primrec rd8 :: "reg8 \<Rightarrow> x86 \<Rightarrow> u8" where
  "rd8 rAL m = lo8 (gA m)" | "rd8 rCL m = lo8 (gC m)" | "rd8 rDL m = lo8 (gD m)" | "rd8 rBL m = lo8 (gB m)"
| "rd8 rAH m = hi8 (gA m)" | "rd8 rCH m = hi8 (gC m)" | "rd8 rDH m = hi8 (gD m)" | "rd8 rBH m = hi8 (gB m)"

primrec wr8 :: "reg8 \<Rightarrow> u8 \<Rightarrow> x86 \<Rightarrow> x86" where
  "wr8 rAL v m = m\<lparr>gA := put_lo8 v (gA m)\<rparr>" | "wr8 rCL v m = m\<lparr>gC := put_lo8 v (gC m)\<rparr>"
| "wr8 rDL v m = m\<lparr>gD := put_lo8 v (gD m)\<rparr>" | "wr8 rBL v m = m\<lparr>gB := put_lo8 v (gB m)\<rparr>"
| "wr8 rAH v m = m\<lparr>gA := put_hi8 v (gA m)\<rparr>" | "wr8 rCH v m = m\<lparr>gC := put_hi8 v (gC m)\<rparr>"
| "wr8 rDH v m = m\<lparr>gD := put_hi8 v (gD m)\<rparr>" | "wr8 rBH v m = m\<lparr>gB := put_hi8 v (gB m)\<rparr>"

primrec rdsr :: "sreg \<Rightarrow> x86 \<Rightarrow> u16" where
  "rdsr rES m = R_ES m" | "rdsr rCS m = R_CS m" | "rdsr rSS m = R_SS m"
| "rdsr rDS m = R_DS m" | "rdsr rFS m = R_FS m" | "rdsr rGS m = R_GS m"

primrec wrsr :: "sreg \<Rightarrow> u16 \<Rightarrow> x86 \<Rightarrow> x86" where
  "wrsr rES v m = m\<lparr>R_ES := v\<rparr>" | "wrsr rCS v m = m\<lparr>R_CS := v\<rparr>" | "wrsr rSS v m = m\<lparr>R_SS := v\<rparr>"
| "wrsr rDS v m = m\<lparr>R_DS := v\<rparr>" | "wrsr rFS v m = m\<lparr>R_FS := v\<rparr>" | "wrsr rGS v m = m\<lparr>R_GS := v\<rparr>"

abbreviation set_SP :: "u16 \<Rightarrow> x86 \<Rightarrow> x86" where "set_SP v m \<equiv> m\<lparr>gSP := put_lo16 v (gSP m)\<rparr>"
abbreviation set_IP :: "u16 \<Rightarrow> x86 \<Rightarrow> x86" where "set_IP v m \<equiv> m\<lparr>gIP := put_lo16 v (gIP m)\<rparr>"

lemma reg_read_write [simp]:
  "rd32 r (wr32 r v m) = v" "rd16 r (wr16 r w m) = w" "rd8 q (wr8 q b m) = b" "rdsr s (wrsr s w m) = w"
proof -
  show l: "rd32 r (wr32 r v m) = v" for r v by (cases r) simp_all
  show "rd16 r (wr16 r w m) = w" by (simp add: rd16_def wr16_def l)
  show "rd8 q (wr8 q b m) = b" by (cases q) simp_all
  show "rdsr s (wrsr s w m) = w" by (cases s) simp_all
qed

lemma reg_read_write_other:
  "r \<noteq> r' \<Longrightarrow> rd32 r (wr32 r' v m) = rd32 r m" "r \<noteq> r' \<Longrightarrow> rd16 r (wr16 r' w m) = rd16 r m"
  "q \<noteq> q' \<Longrightarrow> rd8 q (wr8 q' b m) = rd8 q m" "s \<noteq> s' \<Longrightarrow> rdsr s (wrsr s' w m) = rdsr s m"
proof -
  show l: "r \<noteq> r' \<Longrightarrow> rd32 r (wr32 r' v m) = rd32 r m" for r r' v by (cases r; cases r'; simp)
  show "r \<noteq> r' \<Longrightarrow> rd16 r (wr16 r' w m) = rd16 r m" by (simp add: rd16_def wr16_def l)
  show "q \<noteq> q' \<Longrightarrow> rd8 q (wr8 q' b m) = rd8 q m" by (cases q; cases q'; simp)
  show "s \<noteq> s' \<Longrightarrow> rdsr s (wrsr s' w m) = rdsr s m" by (cases s; cases s'; simp)
qed

text \<open>Writing a word register twice, and with its own value.\<close>

lemma put_lo16_simps [simp]: "put_lo16 v (put_lo16 w r) = put_lo16 v r" "put_lo16 (lo16 r) r = r"
  unfolding put_lo16_def lo16_def view_masks
  by (rule bit_word_eqI, auto simp: bit_simps dest: bit_imp_le_length)+

section \<open>The stack\<close>

definition stack_addr :: "x86 \<Rightarrow> u32" where
  "stack_addr m = push_bit 4 (ucast (R_SS m)) + ucast (R_SP m)"

definition push_word :: "u16 \<Rightarrow> unit emu" where
  "push_word w = do {
     upd (\<lambda>m. set_SP (R_SP m - 2) m);
     a \<leftarrow> gets stack_addr;
     sys_wrw a w }"

definition push_long :: "u32 \<Rightarrow> unit emu" where
  "push_long w = do {
     upd (\<lambda>m. set_SP (R_SP m - 4) m);
     a \<leftarrow> gets stack_addr;
     sys_wrl a w }"

definition pop_word :: "u16 emu" where
  "pop_word = do {
     a \<leftarrow> gets stack_addr;
     res \<leftarrow> sys_rdw a;
     upd (\<lambda>m. set_SP (R_SP m + 2) m);
     State_Monad.return res }"

definition pop_long :: "u32 emu" where
  "pop_long = do {
     a \<leftarrow> gets stack_addr;
     res \<leftarrow> sys_rdl a;
     upd (\<lambda>m. set_SP (R_SP m + 4) m);
     State_Monad.return res }"

definition mem_access_word :: "u32 \<Rightarrow> u16 emu" where
  "mem_access_word addr = sys_rdw addr"

lemma run_stack [emu_run]:
  "run_state (push_word w) m = ((), put16 (stack_addr (set_SP (R_SP m - 2) m)) w (set_SP (R_SP m - 2) m))"
  "run_state (push_long v) m = ((), put32 (stack_addr (set_SP (R_SP m - 4) m)) v (set_SP (R_SP m - 4) m))"
  "run_state pop_word m = (mem16 m (stack_addr m), set_SP (R_SP m + 2) m)"
  "run_state pop_long m = (mem32 m (stack_addr m), set_SP (R_SP m + 4) m)"
  "run_state (mem_access_word a) m = (mem16 m a, m)"
  by (simp_all add: emu_run push_word_def push_long_def pop_word_def pop_long_def mem_access_word_def)

lemma put_fields [simp]:
  "R_SS (put16 a w m) = R_SS m" "gSP (put16 a w m) = gSP m" "FLAGS (put16 a w m) = FLAGS m"
  "R_CS (put16 a w m) = R_CS m" "gIP (put16 a w m) = gIP m" "intr (put16 a w m) = intr m"
  "fault (put16 a w m) = fault m" "debug (put16 a w m) = debug m" "mode (put16 a w m) = mode m"
  by (simp_all add: put16_def)

lemma put_update [simp]:
  "put16 a w (m\<lparr>gSP := v\<rparr>) = (put16 a w m)\<lparr>gSP := v\<rparr>" "put16 a w (m\<lparr>FLAGS := v\<rparr>) = (put16 a w m)\<lparr>FLAGS := v\<rparr>"
  "put16 a w (m\<lparr>R_CS := s\<rparr>) = (put16 a w m)\<lparr>R_CS := s\<rparr>" "put16 a w (m\<lparr>R_SS := s\<rparr>) = (put16 a w m)\<lparr>R_SS := s\<rparr>"
  "put16 a w (m\<lparr>gIP := v\<rparr>) = (put16 a w m)\<lparr>gIP := v\<rparr>"
  by (simp_all add: put16_def)

lemma mem_update [simp]:
  "mem16 (m\<lparr>gSP := v\<rparr>) a = mem16 m a" "mem16 (m\<lparr>FLAGS := v\<rparr>) a = mem16 m a" "mem16 (m\<lparr>R_CS := s\<rparr>) a = mem16 m a"
  "mem16 (m\<lparr>R_SS := s\<rparr>) a = mem16 m a" "mem16 (m\<lparr>gIP := v\<rparr>) a = mem16 m a" "mem16 (m\<lparr>intr := v\<rparr>) a = mem16 m a"
  by (simp_all add: mem16_def)

lemma mem16_other:
  "b \<noteq> a \<Longrightarrow> b \<noteq> a + 1 \<Longrightarrow> b + 1 \<noteq> a \<Longrightarrow> mem16 (put16 a w m) b = mem16 m b"
  by (simp add: mem16_def put16_def)

text \<open>
  The entry into a real mode interrupt handler through the vector table, as \<open>X86EMU_prepareForInt\<close>,
  \<open>x86emu_intr_handle\<close> and the instructions INT write it out.
\<close>

definition enter_interrupt :: "u8 \<Rightarrow> unit emu" where
  "enter_interrupt num = do {
     flg \<leftarrow> gets FLAGS;
     push_word (ucast flg);
     upd (CLEAR_FLAG F_IF);
     upd (CLEAR_FLAG F_TF);
     cs \<leftarrow> gets R_CS;
     push_word cs;
     cs' \<leftarrow> mem_access_word (ucast num * 4 + 2);
     upd (\<lambda>m. m\<lparr>R_CS := cs'\<rparr>);
     ip \<leftarrow> gets R_IP;
     push_word ip;
     ip' \<leftarrow> mem_access_word (ucast num * 4);
     upd (set_IP ip') }"

definition X86EMU_prepareForInt :: "u8 \<Rightarrow> unit emu" where
  "X86EMU_prepareForInt num = do {
     enter_interrupt num;
     upd (\<lambda>m. m\<lparr>intr := 0\<rparr>) }"

section \<open>CPUID\<close>

text \<open>
  On the machines the kernel is built for, the header that declares \<open>hw_cpuid\<close> defines the macro
  \<open>x86EMU_HAS_HW_CPUID\<close> (small x) unless the code is position independent, so that \<open>cpuid\<close> is
  compiled without the hardware's values.
\<close>

definition cpuid :: "unit emu" where
  "cpuid = do {
     feature \<leftarrow> gets gA;
     (if feature = 0 then
        upd (\<lambda>m. m\<lparr>gA := 1, gB := 0x756e6547, gD := 0x49656e69, gC := 0x6c65746e\<rparr>)
      else if feature = 1 then
        upd (\<lambda>m. m\<lparr>gA := 0x00000480, gB := 0, gC := 0, gD := 2\<rparr>)
      else upd (\<lambda>m. m\<lparr>gA := 0, gB := 0, gC := 0, gD := 0\<rparr>)) }"

end
