(* ===== verification/X86Decode.thy ===== *)
theory X86Decode
  imports X86Bus
begin

text \<open>
  Instruction fetch, segment selection, data access and the decoding of ModRM and SIB bytes
  (\<open>decode.c\<close>).  A register pointer of the C code is the name of the register here; register
  fields have three bits, so the error branch after the register switches (fields of 8 and more)
  is unreachable and has no counterpart, except for the two codes that name no segment register.
\<close>

section \<open>Instruction fetch\<close>

definition code_addr :: "x86 \<Rightarrow> u32" where
  "code_addr m = push_bit 4 (ucast (R_CS m)) + ucast (R_IP m)"

definition fetch_byte_imm :: "u8 emu" where
  "fetch_byte_imm = do {
     a \<leftarrow> gets code_addr;
     upd (\<lambda>m. set_IP (R_IP m + 1) m);
     sys_rdb a }"

definition fetch_word_imm :: "u16 emu" where
  "fetch_word_imm = do {
     a \<leftarrow> gets code_addr;
     fetched \<leftarrow> sys_rdw a;
     upd (\<lambda>m. set_IP (R_IP m + 2) m);
     State_Monad.return fetched }"

definition fetch_long_imm :: "u32 emu" where
  "fetch_long_imm = do {
     a \<leftarrow> gets code_addr;
     fetched \<leftarrow> sys_rdl a;
     upd (\<lambda>m. set_IP (R_IP m + 4) m);
     State_Monad.return fetched }"

definition fetch_decode_modrm :: "(nat \<times> nat \<times> nat) emu" where
  "fetch_decode_modrm = do {
     fetched \<leftarrow> fetch_byte_imm;
     State_Monad.return (unat (drop_bit 6 fetched AND 3), unat (drop_bit 3 fetched AND 7), unat (fetched AND 7)) }"

section \<open>Data access\<close>

definition get_data_segment :: "u32 emu" where
  "get_data_segment = do {
     seg \<leftarrow> gets (\<lambda>m. mode m AND SYSMODE_SEGMASK);
     (if seg = 0 \<or> seg = SYSMODE_SEGOVR_DS \<or> seg = SYSMODE_SEGOVR_DS OR SYSMODE_SEG_DS_SS
      then gets (\<lambda>m. ucast (R_DS m))
      else if seg = SYSMODE_SEG_DS_SS then gets (\<lambda>m. ucast (R_SS m))
      else if seg = SYSMODE_SEGOVR_CS \<or> seg = SYSMODE_SEGOVR_CS OR SYSMODE_SEG_DS_SS
      then gets (\<lambda>m. ucast (R_CS m))
      else if seg = SYSMODE_SEGOVR_ES \<or> seg = SYSMODE_SEGOVR_ES OR SYSMODE_SEG_DS_SS
      then gets (\<lambda>m. ucast (R_ES m))
      else if seg = SYSMODE_SEGOVR_FS \<or> seg = SYSMODE_SEGOVR_FS OR SYSMODE_SEG_DS_SS
      then gets (\<lambda>m. ucast (R_FS m))
      else if seg = SYSMODE_SEGOVR_GS \<or> seg = SYSMODE_SEGOVR_GS OR SYSMODE_SEG_DS_SS
      then gets (\<lambda>m. ucast (R_GS m))
      else if seg = SYSMODE_SEGOVR_SS \<or> seg = SYSMODE_SEGOVR_SS OR SYSMODE_SEG_DS_SS
      then gets (\<lambda>m. ucast (R_SS m))
      else do { HALT_SYS; State_Monad.return 0 }) }"

definition fetch_data_byte :: "u32 \<Rightarrow> u8 emu" where
  "fetch_data_byte offset = do { s \<leftarrow> get_data_segment; sys_rdb (push_bit 4 s + offset) }"

definition fetch_data_word :: "u32 \<Rightarrow> u16 emu" where
  "fetch_data_word offset = do { s \<leftarrow> get_data_segment; sys_rdw (push_bit 4 s + offset) }"

definition fetch_data_long :: "u32 \<Rightarrow> u32 emu" where
  "fetch_data_long offset = do { s \<leftarrow> get_data_segment; sys_rdl (push_bit 4 s + offset) }"

definition fetch_data_byte_abs :: "u16 \<Rightarrow> u32 \<Rightarrow> u8 emu" where
  "fetch_data_byte_abs segment offset = sys_rdb (push_bit 4 (ucast segment) + offset)"

definition fetch_data_word_abs :: "u16 \<Rightarrow> u32 \<Rightarrow> u16 emu" where
  "fetch_data_word_abs segment offset = sys_rdw (push_bit 4 (ucast segment) + offset)"

definition fetch_data_long_abs :: "u16 \<Rightarrow> u32 \<Rightarrow> u32 emu" where
  "fetch_data_long_abs segment offset = sys_rdl (push_bit 4 (ucast segment) + offset)"

definition store_data_byte :: "u32 \<Rightarrow> u8 \<Rightarrow> unit emu" where
  "store_data_byte offset val = do { s \<leftarrow> get_data_segment; sys_wrb (push_bit 4 s + offset) val }"

definition store_data_word :: "u32 \<Rightarrow> u16 \<Rightarrow> unit emu" where
  "store_data_word offset val = do { s \<leftarrow> get_data_segment; sys_wrw (push_bit 4 s + offset) val }"

definition store_data_long :: "u32 \<Rightarrow> u32 \<Rightarrow> unit emu" where
  "store_data_long offset val = do { s \<leftarrow> get_data_segment; sys_wrl (push_bit 4 s + offset) val }"

definition store_data_byte_abs :: "u16 \<Rightarrow> u32 \<Rightarrow> u8 \<Rightarrow> unit emu" where
  "store_data_byte_abs segment offset val = sys_wrb (push_bit 4 (ucast segment) + offset) val"

definition store_data_word_abs :: "u16 \<Rightarrow> u32 \<Rightarrow> u16 \<Rightarrow> unit emu" where
  "store_data_word_abs segment offset val = sys_wrw (push_bit 4 (ucast segment) + offset) val"

definition store_data_long_abs :: "u16 \<Rightarrow> u32 \<Rightarrow> u32 \<Rightarrow> unit emu" where
  "store_data_long_abs segment offset val = sys_wrl (push_bit 4 (ucast segment) + offset) val"

section \<open>Registers named by the instruction\<close>

definition decode_rm_byte_register :: "nat \<Rightarrow> reg8" where
  "decode_rm_byte_register reg = [rAL, rCL, rDL, rBL, rAH, rCH, rDH, rBH] ! reg"

definition decode_rm_word_register :: "nat \<Rightarrow> greg" where
  "decode_rm_word_register reg = [rEAX, rECX, rEDX, rEBX, rESP, rEBP, rESI, rEDI] ! reg"

definition decode_rm_long_register :: "nat \<Rightarrow> greg" where
  "decode_rm_long_register reg = [rEAX, rECX, rEDX, rEBX, rESP, rEBP, rESI, rEDI] ! reg"

text \<open>The two codes without a segment register halt the machine and give the null pointer.\<close>

definition decode_rm_seg_register :: "nat \<Rightarrow> sreg option emu" where
  "decode_rm_seg_register reg =
     (if reg < 6 then State_Monad.return (Some ([rES, rCS, rSS, rDS, rFS, rGS] ! reg))
      else do { HALT_SYS; State_Monad.return None })"

section \<open>Effective addresses\<close>

definition sext8 :: "u8 \<Rightarrow> 'a::len word" where "sext8 b = scast b"

definition decode_sib_address :: "u8 \<Rightarrow> nat \<Rightarrow> u32 emu" where
  "decode_sib_address sib md = do {
     base \<leftarrow> (let b = unat (sib AND 7) in
       if b = 4 then do { r \<leftarrow> gets gSP; mode_set SYSMODE_SEG_DS_SS; State_Monad.return r }
       else if b = 5 then
         (if md = 0 then fetch_long_imm
          else do { r \<leftarrow> gets gSP; mode_set SYSMODE_SEG_DS_SS; State_Monad.return r })
       else gets (rd32 (decode_rm_long_register b)));
     i \<leftarrow> (let x = unat (drop_bit 3 sib AND 7) in
       if x = 4 then State_Monad.return 0 else gets (rd32 (decode_rm_long_register x)));
     State_Monad.return (base + i * push_bit (unat (drop_bit 6 sib AND 3)) 1) }"

text \<open>The 16 bit sums are made in 32 bit integers and cut with \<open>0xffff\<close>.\<close>

definition cut16 :: "u32 \<Rightarrow> u32" where "cut16 x = x AND 0xFFFF"

definition decode_rm00_address :: "nat \<Rightarrow> u32 emu" where
  "decode_rm00_address rm = do {
     long \<leftarrow> gets (mode_is SYSMODE_PREFIX_ADDR);
     (if long then
        (if rm = 4 then do { sib \<leftarrow> fetch_byte_imm; decode_sib_address sib 0 }
         else if rm = 5 then fetch_long_imm
         else gets (rd32 (decode_rm_long_register rm)))
      else if rm = 0 then gets (\<lambda>m. cut16 (ucast (R_BX m) + ucast (R_SI m)))
      else if rm = 1 then gets (\<lambda>m. cut16 (ucast (R_BX m) + ucast (R_DI m)))
      else if rm = 2 then do { mode_set SYSMODE_SEG_DS_SS; gets (\<lambda>m. cut16 (ucast (R_BP m) + ucast (R_SI m))) }
      else if rm = 3 then do { mode_set SYSMODE_SEG_DS_SS; gets (\<lambda>m. cut16 (ucast (R_BP m) + ucast (R_DI m))) }
      else if rm = 4 then gets (\<lambda>m. ucast (R_SI m))
      else if rm = 5 then gets (\<lambda>m. ucast (R_DI m))
      else if rm = 6 then do { offset \<leftarrow> fetch_word_imm; State_Monad.return (ucast offset) }
      else gets (\<lambda>m. ucast (R_BX m))) }"

definition rm16_sum :: "nat \<Rightarrow> u32 \<Rightarrow> u32 emu" where
  "rm16_sum rm disp =
     (if rm = 0 then gets (\<lambda>m. cut16 (ucast (R_BX m) + ucast (R_SI m) + disp))
      else if rm = 1 then gets (\<lambda>m. cut16 (ucast (R_BX m) + ucast (R_DI m) + disp))
      else if rm = 2 then do { mode_set SYSMODE_SEG_DS_SS;
                               gets (\<lambda>m. cut16 (ucast (R_BP m) + ucast (R_SI m) + disp)) }
      else if rm = 3 then do { mode_set SYSMODE_SEG_DS_SS;
                               gets (\<lambda>m. cut16 (ucast (R_BP m) + ucast (R_DI m) + disp)) }
      else if rm = 4 then gets (\<lambda>m. cut16 (ucast (R_SI m) + disp))
      else if rm = 5 then gets (\<lambda>m. cut16 (ucast (R_DI m) + disp))
      else if rm = 6 then do { mode_set SYSMODE_SEG_DS_SS; gets (\<lambda>m. cut16 (ucast (R_BP m) + disp)) }
      else gets (\<lambda>m. cut16 (ucast (R_BX m) + disp)))"

definition decode_rm01_address :: "nat \<Rightarrow> u32 emu" where
  "decode_rm01_address rm = do {
     long \<leftarrow> gets (mode_is SYSMODE_PREFIX_ADDR);
     (if long then
        (if rm = 4 then do {
           sib \<leftarrow> fetch_byte_imm; disp \<leftarrow> fetch_byte_imm;
           a \<leftarrow> decode_sib_address sib 1; State_Monad.return (a + sext8 disp) }
         else do { disp \<leftarrow> fetch_byte_imm; gets (\<lambda>m. rd32 (decode_rm_long_register rm) m + sext8 disp) })
      else do { disp \<leftarrow> fetch_byte_imm; rm16_sum rm (sext8 disp) }) }"

definition decode_rm10_address :: "nat \<Rightarrow> u32 emu" where
  "decode_rm10_address rm = do {
     long \<leftarrow> gets (mode_is SYSMODE_PREFIX_ADDR);
     (if long then
        (if rm = 4 then do {
           sib \<leftarrow> fetch_byte_imm; disp \<leftarrow> fetch_long_imm;
           a \<leftarrow> decode_sib_address sib 2; State_Monad.return (a + disp) }
         else do {
           disp \<leftarrow> fetch_long_imm;
           emu_when (rm = 2) (mode_set SYSMODE_SEG_DS_SS);
           gets (\<lambda>m. rd32 (decode_rm_long_register rm) m + disp) })
      else do { disp \<leftarrow> fetch_word_imm; rm16_sum rm (ucast disp) }) }"

text \<open>The handlers choose among the three by the mod field; mod 3 names a register.\<close>

definition decode_rm_address :: "nat \<Rightarrow> nat \<Rightarrow> u32 emu" where
  "decode_rm_address md rm =
     (if md = 0 then decode_rm00_address rm else if md = 1 then decode_rm01_address rm
      else decode_rm10_address rm)"

lemma run_fetch [emu_run]:
  "run_state fetch_byte_imm m = (mem8 m (code_addr m), set_IP (R_IP m + 1) m)"
  "run_state fetch_word_imm m = (mem16 m (code_addr m), set_IP (R_IP m + 2) m)"
  "run_state fetch_long_imm m = (mem32 m (code_addr m), set_IP (R_IP m + 4) m)"
  by (simp_all add: emu_run fetch_byte_imm_def fetch_word_imm_def fetch_long_imm_def mem8_def mem16_def mem32_def)

end
