(* ===== verification/X86Operand.thy ===== *)
theory X86Operand
  imports X86Decode
begin

text \<open>
  The shapes in which the instructions of \<open>ops.c\<close> and \<open>ops2.c\<close> use a ModRM operand.  The C code
  writes each shape out once per operation, operand size and mod field; here it is one definition
  over the accessors of an operand size, and the handlers are its instances.
\<close>

section \<open>Operand sizes\<close>

record 'w operand =
  o_fetch :: "u32 \<Rightarrow> 'w emu"
  o_store :: "u32 \<Rightarrow> 'w \<Rightarrow> unit emu"
  o_rd :: "nat \<Rightarrow> x86 \<Rightarrow> 'w"
  o_wr :: "nat \<Rightarrow> 'w \<Rightarrow> x86 \<Rightarrow> x86"
  o_imm :: "'w emu"

definition byte_operand :: "u8 operand" where
  "byte_operand = \<lparr>o_fetch = fetch_data_byte, o_store = store_data_byte,
     o_rd = (\<lambda>r. rd8 (decode_rm_byte_register r)), o_wr = (\<lambda>r. wr8 (decode_rm_byte_register r)),
     o_imm = fetch_byte_imm\<rparr>"

definition word_operand :: "u16 operand" where
  "word_operand = \<lparr>o_fetch = fetch_data_word, o_store = store_data_word,
     o_rd = (\<lambda>r. rd16 (decode_rm_word_register r)), o_wr = (\<lambda>r. wr16 (decode_rm_word_register r)),
     o_imm = fetch_word_imm\<rparr>"

definition long_operand :: "u32 operand" where
  "long_operand = \<lparr>o_fetch = fetch_data_long, o_store = store_data_long,
     o_rd = (\<lambda>r. rd32 (decode_rm_long_register r)), o_wr = (\<lambda>r. wr32 (decode_rm_long_register r)),
     o_imm = fetch_long_imm\<rparr>"

text \<open>The operand size prefix selects longs in place of words.\<close>

definition sized :: "'a emu \<Rightarrow> 'a emu \<Rightarrow> 'a emu" where
  "sized l w = do { long \<leftarrow> gets (mode_is SYSMODE_PREFIX_DATA); (if long then l else w) }"

type_synonym modrm = "nat \<times> nat \<times> nat"
type_synonym 'w alu = "'w \<Rightarrow> 'w \<Rightarrow> x86 \<Rightarrow> 'w \<times> x86"

section \<open>Reading and writing the operand\<close>

text \<open>The value of the operand that the mod and rm fields name.\<close>

definition read_rm :: "'w operand \<Rightarrow> nat \<Rightarrow> nat \<Rightarrow> 'w emu" where
  "read_rm w md rl =
     (if md < 3 then do { offset \<leftarrow> decode_rm_address md rl; o_fetch w offset }
      else gets (o_rd w rl))"

text \<open>The operand is replaced by what \<open>f\<close> makes of it.\<close>

definition modify_rm :: "'w operand \<Rightarrow> nat \<Rightarrow> nat \<Rightarrow> ('w \<Rightarrow> 'w emu) \<Rightarrow> unit emu" where
  "modify_rm w md rl f =
     (if md < 3 then do {
        destoffset \<leftarrow> decode_rm_address md rl;
        destval \<leftarrow> o_fetch w destoffset;
        res \<leftarrow> f destval;
        o_store w destoffset res }
      else do {
        destval \<leftarrow> gets (o_rd w rl);
        res \<leftarrow> f destval;
        upd (o_wr w rl res) })"

text \<open>The value that \<open>v\<close> gives, after the address is decoded, becomes the operand.\<close>

definition write_rm :: "'w operand \<Rightarrow> nat \<Rightarrow> nat \<Rightarrow> 'w emu \<Rightarrow> unit emu" where
  "write_rm w md rl v =
     (if md < 3 then do {
        destoffset \<leftarrow> decode_rm_address md rl;
        val \<leftarrow> v;
        o_store w destoffset val }
      else do { val \<leftarrow> v; upd (o_wr w rl val) })"

section \<open>Arithmetic shapes\<close>

definition op_RM_R :: "'w operand \<Rightarrow> 'w alu \<Rightarrow> modrm \<Rightarrow> unit emu" where
  "op_RM_R w f = (\<lambda>(md, rh, rl).
     modify_rm w md rl (\<lambda>destval. do { s \<leftarrow> gets (o_rd w rh); State (f destval s) }))"

definition op_R_RM :: "'w operand \<Rightarrow> 'w alu \<Rightarrow> modrm \<Rightarrow> unit emu" where
  "op_R_RM w f = (\<lambda>(md, rh, rl). do {
     srcval \<leftarrow> read_rm w md rl;
     d \<leftarrow> gets (o_rd w rh);
     res \<leftarrow> State (f d srcval);
     upd (o_wr w rh res) })"

text \<open>CMP and TEST set the flags only.\<close>

definition flags_RM_R :: "'w operand \<Rightarrow> ('w \<Rightarrow> 'w \<Rightarrow> x86 \<Rightarrow> x86) \<Rightarrow> modrm \<Rightarrow> unit emu" where
  "flags_RM_R w f = (\<lambda>(md, rh, rl). do {
     destval \<leftarrow> read_rm w md rl;
     s \<leftarrow> gets (o_rd w rh);
     upd (f destval s) })"

definition flags_R_RM :: "'w operand \<Rightarrow> ('w \<Rightarrow> 'w \<Rightarrow> x86 \<Rightarrow> x86) \<Rightarrow> modrm \<Rightarrow> unit emu" where
  "flags_R_RM w f = (\<lambda>(md, rh, rl). do {
     srcval \<leftarrow> read_rm w md rl;
     d \<leftarrow> gets (o_rd w rh);
     upd (f d srcval) })"

text \<open>The accumulator with an immediate.\<close>

definition op_A_IMM :: "'w operand \<Rightarrow> 'w alu \<Rightarrow> unit emu" where
  "op_A_IMM w f = do {
     srcval \<leftarrow> o_imm w;
     d \<leftarrow> gets (o_rd w 0);
     res \<leftarrow> State (f d srcval);
     upd (o_wr w 0 res) }"

definition flags_A_IMM :: "'w operand \<Rightarrow> ('w \<Rightarrow> 'w \<Rightarrow> x86 \<Rightarrow> x86) \<Rightarrow> unit emu" where
  "flags_A_IMM w f = do {
     srcval \<leftarrow> o_imm w;
     d \<leftarrow> gets (o_rd w 0);
     upd (f d srcval) }"

text \<open>A group: operation \<open>rh\<close> of a table on the operand and an immediate; operation 7 is CMP.\<close>

definition op_RM_IMM :: "'w operand \<Rightarrow> 'w alu list \<Rightarrow> 'w emu \<Rightarrow> modrm \<Rightarrow> unit emu" where
  "op_RM_IMM w ops imm = (\<lambda>(md, rh, rl).
     if md < 3 then do {
       destoffset \<leftarrow> decode_rm_address md rl;
       destval \<leftarrow> o_fetch w destoffset;
       i \<leftarrow> imm;
       res \<leftarrow> State ((ops ! rh) destval i);
       emu_when (rh \<noteq> 7) (o_store w destoffset res) }
     else do {
       i \<leftarrow> imm;
       destval \<leftarrow> gets (o_rd w rl);
       res \<leftarrow> State ((ops ! rh) destval i);
       emu_when (rh \<noteq> 7) (upd (o_wr w rl res)) })"

text \<open>A shift group: the count comes from \<open>amt\<close>, read after the address is decoded.\<close>

definition shift_RM :: "'w operand \<Rightarrow> ('w \<Rightarrow> u8 \<Rightarrow> x86 \<Rightarrow> 'w \<times> x86) list \<Rightarrow> u8 emu \<Rightarrow> modrm \<Rightarrow> unit emu" where
  "shift_RM w ops amt = (\<lambda>(md, rh, rl).
     if md < 3 then do {
       destoffset \<leftarrow> decode_rm_address md rl;
       a \<leftarrow> amt;
       destval \<leftarrow> o_fetch w destoffset;
       res \<leftarrow> State ((ops ! rh) destval a);
       o_store w destoffset res }
     else do {
       a \<leftarrow> amt;
       destval \<leftarrow> gets (o_rd w rl);
       res \<leftarrow> State ((ops ! rh) destval a);
       upd (o_wr w rl res) })"

section \<open>Data movement shapes\<close>

definition xchg_RM_R :: "'w operand \<Rightarrow> modrm \<Rightarrow> unit emu" where
  "xchg_RM_R w = (\<lambda>(md, rh, rl).
     if md < 3 then do {
       destoffset \<leftarrow> decode_rm_address md rl;
       destval \<leftarrow> o_fetch w destoffset;
       tmp \<leftarrow> gets (o_rd w rh);
       upd (o_wr w rh destval);
       o_store w destoffset tmp }
     else do {
       tmp \<leftarrow> gets (o_rd w rh);
       d \<leftarrow> gets (o_rd w rl);
       upd (o_wr w rh d);
       upd (o_wr w rl tmp) })"

definition mov_RM_R :: "'w operand \<Rightarrow> modrm \<Rightarrow> unit emu" where
  "mov_RM_R w = (\<lambda>(md, rh, rl). write_rm w md rl (gets (o_rd w rh)))"

definition mov_R_RM :: "'w operand \<Rightarrow> modrm \<Rightarrow> unit emu" where
  "mov_R_RM w = (\<lambda>(md, rh, rl). do { srcval \<leftarrow> read_rm w md rl; upd (o_wr w rh srcval) })"

text \<open>A far pointer from memory into a word register and a segment register.\<close>

definition load_far :: "sreg \<Rightarrow> modrm \<Rightarrow> unit emu" where
  "load_far s = (\<lambda>(md, rh, rl).
     emu_when (md < 3) (do {
       srcoffset \<leftarrow> decode_rm_address md rl;
       v \<leftarrow> fetch_data_word srcoffset;
       upd (wr16 (decode_rm_word_register rh) v);
       v' \<leftarrow> fetch_data_word (srcoffset + 2);
       upd (wrsr s v') }))"

section \<open>Whole instructions\<close>

text \<open>The operand is decoded, the body runs, the prefixes are forgotten.\<close>

definition instr :: "unit emu \<Rightarrow> unit emu" where
  "instr body = do { body; DECODE_CLEAR_SEGOVR }"

definition instr_rm :: "(modrm \<Rightarrow> unit emu) \<Rightarrow> unit emu" where
  "instr_rm body = instr (do { x \<leftarrow> fetch_decode_modrm; body x })"

definition instr_rm_sized :: "(modrm \<Rightarrow> unit emu) \<Rightarrow> (modrm \<Rightarrow> unit emu) \<Rightarrow> unit emu" where
  "instr_rm_sized l w = instr (do { x \<leftarrow> fetch_decode_modrm; sized (l x) (w x) })"

definition only_snd :: "('w \<Rightarrow> 'w \<Rightarrow> x86 \<Rightarrow> 'w \<times> x86) \<Rightarrow> 'w \<Rightarrow> 'w \<Rightarrow> x86 \<Rightarrow> x86" where
  "only_snd f d s m = snd (f d s m)"

end
