(* ===== verification/X86Ops.thy ===== *)
theory X86Ops
  imports X86Operand
begin

text \<open>
  The handlers of \<open>ops.c\<close> that compute and move data, one definition per handler under its C name;
  the opcode argument of the C functions is unused there and left out.  Handlers that the C file
  repeats for each operation, size and register are instances of the shapes of \<open>X86Operand\<close>.
\<close>

section \<open>Arithmetic and logic with a ModRM operand\<close>

definition x86emuOp_add_byte_RM_R :: "unit emu" where
  "x86emuOp_add_byte_RM_R = instr_rm (op_RM_R byte_operand add_byte)"

definition x86emuOp_add_word_RM_R :: "unit emu" where
  "x86emuOp_add_word_RM_R = instr_rm_sized (op_RM_R long_operand add_long) (op_RM_R word_operand add_word)"

definition x86emuOp_add_byte_R_RM :: "unit emu" where
  "x86emuOp_add_byte_R_RM = instr_rm (op_R_RM byte_operand add_byte)"

definition x86emuOp_add_word_R_RM :: "unit emu" where
  "x86emuOp_add_word_R_RM = instr_rm_sized (op_R_RM long_operand add_long) (op_R_RM word_operand add_word)"

definition x86emuOp_add_byte_AL_IMM :: "unit emu" where
  "x86emuOp_add_byte_AL_IMM = instr (op_A_IMM byte_operand add_byte)"

definition x86emuOp_add_word_AX_IMM :: "unit emu" where
  "x86emuOp_add_word_AX_IMM = instr (sized (op_A_IMM long_operand add_long) (op_A_IMM word_operand add_word))"

definition x86emuOp_or_byte_RM_R :: "unit emu" where
  "x86emuOp_or_byte_RM_R = instr_rm (op_RM_R byte_operand or_byte)"

definition x86emuOp_or_word_RM_R :: "unit emu" where
  "x86emuOp_or_word_RM_R = instr_rm_sized (op_RM_R long_operand or_long) (op_RM_R word_operand or_word)"

definition x86emuOp_or_byte_R_RM :: "unit emu" where
  "x86emuOp_or_byte_R_RM = instr_rm (op_R_RM byte_operand or_byte)"

definition x86emuOp_or_word_R_RM :: "unit emu" where
  "x86emuOp_or_word_R_RM = instr_rm_sized (op_R_RM long_operand or_long) (op_R_RM word_operand or_word)"

definition x86emuOp_or_byte_AL_IMM :: "unit emu" where
  "x86emuOp_or_byte_AL_IMM = instr (op_A_IMM byte_operand or_byte)"

definition x86emuOp_or_word_AX_IMM :: "unit emu" where
  "x86emuOp_or_word_AX_IMM = instr (sized (op_A_IMM long_operand or_long) (op_A_IMM word_operand or_word))"

definition x86emuOp_adc_byte_RM_R :: "unit emu" where
  "x86emuOp_adc_byte_RM_R = instr_rm (op_RM_R byte_operand adc_byte)"

definition x86emuOp_adc_word_RM_R :: "unit emu" where
  "x86emuOp_adc_word_RM_R = instr_rm_sized (op_RM_R long_operand adc_long) (op_RM_R word_operand adc_word)"

definition x86emuOp_adc_byte_R_RM :: "unit emu" where
  "x86emuOp_adc_byte_R_RM = instr_rm (op_R_RM byte_operand adc_byte)"

definition x86emuOp_adc_word_R_RM :: "unit emu" where
  "x86emuOp_adc_word_R_RM = instr_rm_sized (op_R_RM long_operand adc_long) (op_R_RM word_operand adc_word)"

definition x86emuOp_adc_byte_AL_IMM :: "unit emu" where
  "x86emuOp_adc_byte_AL_IMM = instr (op_A_IMM byte_operand adc_byte)"

definition x86emuOp_adc_word_AX_IMM :: "unit emu" where
  "x86emuOp_adc_word_AX_IMM = instr (sized (op_A_IMM long_operand adc_long) (op_A_IMM word_operand adc_word))"

definition x86emuOp_sbb_byte_RM_R :: "unit emu" where
  "x86emuOp_sbb_byte_RM_R = instr_rm (op_RM_R byte_operand sbb_byte)"

definition x86emuOp_sbb_word_RM_R :: "unit emu" where
  "x86emuOp_sbb_word_RM_R = instr_rm_sized (op_RM_R long_operand sbb_long) (op_RM_R word_operand sbb_word)"

definition x86emuOp_sbb_byte_R_RM :: "unit emu" where
  "x86emuOp_sbb_byte_R_RM = instr_rm (op_R_RM byte_operand sbb_byte)"

definition x86emuOp_sbb_word_R_RM :: "unit emu" where
  "x86emuOp_sbb_word_R_RM = instr_rm_sized (op_R_RM long_operand sbb_long) (op_R_RM word_operand sbb_word)"

definition x86emuOp_sbb_byte_AL_IMM :: "unit emu" where
  "x86emuOp_sbb_byte_AL_IMM = instr (op_A_IMM byte_operand sbb_byte)"

definition x86emuOp_sbb_word_AX_IMM :: "unit emu" where
  "x86emuOp_sbb_word_AX_IMM = instr (sized (op_A_IMM long_operand sbb_long) (op_A_IMM word_operand sbb_word))"

definition x86emuOp_and_byte_RM_R :: "unit emu" where
  "x86emuOp_and_byte_RM_R = instr_rm (op_RM_R byte_operand and_byte)"

definition x86emuOp_and_word_RM_R :: "unit emu" where
  "x86emuOp_and_word_RM_R = instr_rm_sized (op_RM_R long_operand and_long) (op_RM_R word_operand and_word)"

definition x86emuOp_and_byte_R_RM :: "unit emu" where
  "x86emuOp_and_byte_R_RM = instr_rm (op_R_RM byte_operand and_byte)"

definition x86emuOp_and_word_R_RM :: "unit emu" where
  "x86emuOp_and_word_R_RM = instr_rm_sized (op_R_RM long_operand and_long) (op_R_RM word_operand and_word)"

definition x86emuOp_and_byte_AL_IMM :: "unit emu" where
  "x86emuOp_and_byte_AL_IMM = instr (op_A_IMM byte_operand and_byte)"

definition x86emuOp_and_word_AX_IMM :: "unit emu" where
  "x86emuOp_and_word_AX_IMM = instr (sized (op_A_IMM long_operand and_long) (op_A_IMM word_operand and_word))"

definition x86emuOp_sub_byte_RM_R :: "unit emu" where
  "x86emuOp_sub_byte_RM_R = instr_rm (op_RM_R byte_operand sub_byte)"

definition x86emuOp_sub_word_RM_R :: "unit emu" where
  "x86emuOp_sub_word_RM_R = instr_rm_sized (op_RM_R long_operand sub_long) (op_RM_R word_operand sub_word)"

definition x86emuOp_sub_byte_R_RM :: "unit emu" where
  "x86emuOp_sub_byte_R_RM = instr_rm (op_R_RM byte_operand sub_byte)"

definition x86emuOp_sub_word_R_RM :: "unit emu" where
  "x86emuOp_sub_word_R_RM = instr_rm_sized (op_R_RM long_operand sub_long) (op_R_RM word_operand sub_word)"

definition x86emuOp_sub_byte_AL_IMM :: "unit emu" where
  "x86emuOp_sub_byte_AL_IMM = instr (op_A_IMM byte_operand sub_byte)"

definition x86emuOp_sub_word_AX_IMM :: "unit emu" where
  "x86emuOp_sub_word_AX_IMM = instr (sized (op_A_IMM long_operand sub_long) (op_A_IMM word_operand sub_word))"

definition x86emuOp_xor_byte_RM_R :: "unit emu" where
  "x86emuOp_xor_byte_RM_R = instr_rm (op_RM_R byte_operand xor_byte)"

definition x86emuOp_xor_word_RM_R :: "unit emu" where
  "x86emuOp_xor_word_RM_R = instr_rm_sized (op_RM_R long_operand xor_long) (op_RM_R word_operand xor_word)"

definition x86emuOp_xor_byte_R_RM :: "unit emu" where
  "x86emuOp_xor_byte_R_RM = instr_rm (op_R_RM byte_operand xor_byte)"

definition x86emuOp_xor_word_R_RM :: "unit emu" where
  "x86emuOp_xor_word_R_RM = instr_rm_sized (op_R_RM long_operand xor_long) (op_R_RM word_operand xor_word)"

definition x86emuOp_xor_byte_AL_IMM :: "unit emu" where
  "x86emuOp_xor_byte_AL_IMM = instr (op_A_IMM byte_operand xor_byte)"

definition x86emuOp_xor_word_AX_IMM :: "unit emu" where
  "x86emuOp_xor_word_AX_IMM = instr (sized (op_A_IMM long_operand xor_long) (op_A_IMM word_operand xor_word))"

definition x86emuOp_cmp_byte_RM_R :: "unit emu" where
  "x86emuOp_cmp_byte_RM_R = instr_rm (flags_RM_R byte_operand (only_snd cmp_byte))"

definition x86emuOp_cmp_word_RM_R :: "unit emu" where
  "x86emuOp_cmp_word_RM_R = instr_rm_sized (flags_RM_R long_operand (only_snd cmp_long)) (flags_RM_R word_operand (only_snd cmp_word))"

definition x86emuOp_cmp_byte_R_RM :: "unit emu" where
  "x86emuOp_cmp_byte_R_RM = instr_rm (flags_R_RM byte_operand (only_snd cmp_byte))"

definition x86emuOp_cmp_word_R_RM :: "unit emu" where
  "x86emuOp_cmp_word_R_RM = instr_rm_sized (flags_R_RM long_operand (only_snd cmp_long)) (flags_R_RM word_operand (only_snd cmp_word))"

definition x86emuOp_cmp_byte_AL_IMM :: "unit emu" where
  "x86emuOp_cmp_byte_AL_IMM = instr (flags_A_IMM byte_operand (only_snd cmp_byte))"

definition x86emuOp_cmp_word_AX_IMM :: "unit emu" where
  "x86emuOp_cmp_word_AX_IMM = instr (sized (flags_A_IMM long_operand (only_snd cmp_long)) (flags_A_IMM word_operand (only_snd cmp_word)))"

section \<open>Prefixes\<close>

definition x86emuOp_segovr_ES :: "unit emu" where
  "x86emuOp_segovr_ES = mode_set SYSMODE_SEGOVR_ES"

definition x86emuOp_segovr_CS :: "unit emu" where
  "x86emuOp_segovr_CS = mode_set SYSMODE_SEGOVR_CS"

definition x86emuOp_segovr_SS :: "unit emu" where
  "x86emuOp_segovr_SS = mode_set SYSMODE_SEGOVR_SS"

definition x86emuOp_segovr_DS :: "unit emu" where
  "x86emuOp_segovr_DS = mode_set SYSMODE_SEGOVR_DS"

definition x86emuOp_segovr_FS :: "unit emu" where
  "x86emuOp_segovr_FS = mode_set SYSMODE_SEGOVR_FS"

definition x86emuOp_segovr_GS :: "unit emu" where
  "x86emuOp_segovr_GS = mode_set SYSMODE_SEGOVR_GS"

definition x86emuOp_prefix_data :: "unit emu" where
  "x86emuOp_prefix_data = mode_set SYSMODE_PREFIX_DATA"

definition x86emuOp_prefix_addr :: "unit emu" where
  "x86emuOp_prefix_addr = mode_set SYSMODE_PREFIX_ADDR"

text \<open>These two forget the other prefixes seen so far.\<close>

definition x86emuOp_repne :: "unit emu" where
  "x86emuOp_repne = instr (mode_set SYSMODE_PREFIX_REPNE)"

definition x86emuOp_repe :: "unit emu" where
  "x86emuOp_repe = instr (mode_set SYSMODE_PREFIX_REPE)"

section \<open>Decimal adjustment, increment and decrement\<close>

definition x86emuOp_daa :: "unit emu" where
  "x86emuOp_daa = instr (do { al \<leftarrow> gets R_AL; r \<leftarrow> State (daa_byte al); upd (wr8 rAL r) })"

definition x86emuOp_das :: "unit emu" where
  "x86emuOp_das = instr (do { al \<leftarrow> gets R_AL; r \<leftarrow> State (das_byte al); upd (wr8 rAL r) })"

definition x86emuOp_aaa :: "unit emu" where
  "x86emuOp_aaa = instr (do { ax \<leftarrow> gets R_AX; r \<leftarrow> State (aaa_word ax); upd (wr16 rEAX r) })"

definition x86emuOp_aas :: "unit emu" where
  "x86emuOp_aas = instr (do { ax \<leftarrow> gets R_AX; r \<leftarrow> State (aas_word ax); upd (wr16 rEAX r) })"

definition x86emuOp_aam :: "unit emu" where
  "x86emuOp_aam = instr (do {
     a \<leftarrow> fetch_byte_imm;
     emu_when (a \<noteq> 10) HALT_SYS;
     al \<leftarrow> gets R_AL; r \<leftarrow> State (aam_word al); upd (wr16 rEAX r) })"

definition x86emuOp_aad :: "unit emu" where
  "x86emuOp_aad = instr (do {
     a \<leftarrow> fetch_byte_imm;
     emu_when (a \<noteq> 10) HALT_SYS;
     ax \<leftarrow> gets R_AX; r \<leftarrow> State (aad_word ax); upd (wr16 rEAX r) })"

definition unary_reg :: "greg \<Rightarrow> (u32 \<Rightarrow> x86 \<Rightarrow> u32 \<times> x86) \<Rightarrow> (u16 \<Rightarrow> x86 \<Rightarrow> u16 \<times> x86) \<Rightarrow> unit emu" where
  "unary_reg r fl fw = instr (sized
     (do { d \<leftarrow> gets (rd32 r); v \<leftarrow> State (fl d); upd (wr32 r v) })
     (do { d \<leftarrow> gets (rd16 r); v \<leftarrow> State (fw d); upd (wr16 r v) }))"

definition x86emuOp_inc_AX :: "unit emu" where
  "x86emuOp_inc_AX = unary_reg rEAX inc_long inc_word"

definition x86emuOp_inc_CX :: "unit emu" where
  "x86emuOp_inc_CX = unary_reg rECX inc_long inc_word"

definition x86emuOp_inc_DX :: "unit emu" where
  "x86emuOp_inc_DX = unary_reg rEDX inc_long inc_word"

definition x86emuOp_inc_BX :: "unit emu" where
  "x86emuOp_inc_BX = unary_reg rEBX inc_long inc_word"

definition x86emuOp_inc_SP :: "unit emu" where
  "x86emuOp_inc_SP = unary_reg rESP inc_long inc_word"

definition x86emuOp_inc_BP :: "unit emu" where
  "x86emuOp_inc_BP = unary_reg rEBP inc_long inc_word"

definition x86emuOp_inc_SI :: "unit emu" where
  "x86emuOp_inc_SI = unary_reg rESI inc_long inc_word"

definition x86emuOp_inc_DI :: "unit emu" where
  "x86emuOp_inc_DI = unary_reg rEDI inc_long inc_word"

definition x86emuOp_dec_AX :: "unit emu" where
  "x86emuOp_dec_AX = unary_reg rEAX dec_long dec_word"

definition x86emuOp_dec_CX :: "unit emu" where
  "x86emuOp_dec_CX = unary_reg rECX dec_long dec_word"

definition x86emuOp_dec_DX :: "unit emu" where
  "x86emuOp_dec_DX = unary_reg rEDX dec_long dec_word"

definition x86emuOp_dec_BX :: "unit emu" where
  "x86emuOp_dec_BX = unary_reg rEBX dec_long dec_word"

definition x86emuOp_dec_SP :: "unit emu" where
  "x86emuOp_dec_SP = unary_reg rESP dec_long dec_word"

definition x86emuOp_dec_BP :: "unit emu" where
  "x86emuOp_dec_BP = unary_reg rEBP dec_long dec_word"

definition x86emuOp_dec_SI :: "unit emu" where
  "x86emuOp_dec_SI = unary_reg rESI dec_long dec_word"

definition x86emuOp_dec_DI :: "unit emu" where
  "x86emuOp_dec_DI = unary_reg rEDI dec_long dec_word"

section \<open>Multiplication by a given factor\<close>

text \<open>The low half of the product; the flags say whether the high half is not zero.\<close>

definition imul_trunc_long :: "u32 \<Rightarrow> u32 \<Rightarrow> x86 \<Rightarrow> u32 \<times> x86" where
  "imul_trunc_long d s = (\<lambda>m. let (lo, hi) = imul_long_direct d s in (lo, set_CF_OF (hi \<noteq> 0) m))"

definition imul_trunc_word :: "u16 \<Rightarrow> u16 \<Rightarrow> x86 \<Rightarrow> u16 \<times> x86" where
  "imul_trunc_word d s = (\<lambda>m. let res = scast d * scast s :: u32 in (ucast res, set_CF_OF (res > 0xFFFF) m))"

definition imul_R_RM_IMM :: "'w operand \<Rightarrow> 'w alu \<Rightarrow> 'w emu \<Rightarrow> modrm \<Rightarrow> unit emu" where
  "imul_R_RM_IMM w f imm = (\<lambda>(md, rh, rl). do {
     srcval \<leftarrow> read_rm w md rl;
     i \<leftarrow> imm;
     res \<leftarrow> State (f srcval i);
     upd (o_wr w rh res) })"

definition x86emuOp_imul_word_IMM :: "unit emu" where
  "x86emuOp_imul_word_IMM = instr_rm_sized (imul_R_RM_IMM long_operand imul_trunc_long fetch_long_imm)
     (imul_R_RM_IMM word_operand imul_trunc_word fetch_word_imm)"

definition fetch_sext_imm :: "('w::len word) emu" where
  "fetch_sext_imm = do { b \<leftarrow> fetch_byte_imm; State_Monad.return (sext8 b) }"

definition x86emuOp_imul_byte_IMM :: "unit emu" where
  "x86emuOp_imul_byte_IMM = instr_rm_sized (imul_R_RM_IMM long_operand imul_trunc_long fetch_sext_imm)
     (imul_R_RM_IMM word_operand imul_trunc_word fetch_sext_imm)"

section \<open>Immediate groups\<close>

definition opc80_byte_operation :: "u8 alu list" where
  "opc80_byte_operation = [add_byte, or_byte, adc_byte, sbb_byte, and_byte, sub_byte, xor_byte, cmp_byte]"

definition opc81_word_operation :: "u16 alu list" where
  "opc81_word_operation = [add_word, or_word, adc_word, sbb_word, and_word, sub_word, xor_word, cmp_word]"

definition opc81_long_operation :: "u32 alu list" where
  "opc81_long_operation = [add_long, or_long, adc_long, sbb_long, and_long, sub_long, xor_long, cmp_long]"

definition opc82_byte_operation :: "u8 alu list" where
  "opc82_byte_operation = [add_byte, or_byte, adc_byte, sbb_byte, and_byte, sub_byte, xor_byte, cmp_byte]"

definition opc83_word_operation :: "u16 alu list" where
  "opc83_word_operation = [add_word, or_word, adc_word, sbb_word, and_word, sub_word, xor_word, cmp_word]"

definition opc83_long_operation :: "u32 alu list" where
  "opc83_long_operation = [add_long, or_long, adc_long, sbb_long, and_long, sub_long, xor_long, cmp_long]"

definition x86emuOp_opc80_byte_RM_IMM :: "unit emu" where
  "x86emuOp_opc80_byte_RM_IMM = instr_rm (op_RM_IMM byte_operand opc80_byte_operation fetch_byte_imm)"

definition x86emuOp_opc81_word_RM_IMM :: "unit emu" where
  "x86emuOp_opc81_word_RM_IMM = instr_rm_sized (op_RM_IMM long_operand opc81_long_operation fetch_long_imm)
     (op_RM_IMM word_operand opc81_word_operation fetch_word_imm)"

definition x86emuOp_opc82_byte_RM_IMM :: "unit emu" where
  "x86emuOp_opc82_byte_RM_IMM = instr_rm (op_RM_IMM byte_operand opc82_byte_operation fetch_byte_imm)"

definition x86emuOp_opc83_word_RM_IMM :: "unit emu" where
  "x86emuOp_opc83_word_RM_IMM = instr_rm_sized (op_RM_IMM long_operand opc83_long_operation fetch_sext_imm)
     (op_RM_IMM word_operand opc83_word_operation fetch_sext_imm)"

definition x86emuOp_test_byte_RM_R :: "unit emu" where
  "x86emuOp_test_byte_RM_R = instr_rm (flags_RM_R byte_operand test_byte)"

definition x86emuOp_test_word_RM_R :: "unit emu" where
  "x86emuOp_test_word_RM_R = instr_rm_sized (flags_RM_R long_operand test_long) (flags_RM_R word_operand test_word)"

definition x86emuOp_test_AL_IMM :: "unit emu" where
  "x86emuOp_test_AL_IMM = instr (flags_A_IMM byte_operand test_byte)"

definition x86emuOp_test_AX_IMM :: "unit emu" where
  "x86emuOp_test_AX_IMM = instr (sized (flags_A_IMM long_operand test_long) (flags_A_IMM word_operand test_word))"

section \<open>Moves and exchanges\<close>

definition x86emuOp_xchg_byte_RM_R :: "unit emu" where
  "x86emuOp_xchg_byte_RM_R = instr_rm (xchg_RM_R byte_operand)"

definition x86emuOp_xchg_word_RM_R :: "unit emu" where
  "x86emuOp_xchg_word_RM_R = instr_rm_sized (xchg_RM_R long_operand) (xchg_RM_R word_operand)"

definition x86emuOp_mov_byte_RM_R :: "unit emu" where
  "x86emuOp_mov_byte_RM_R = instr_rm (mov_RM_R byte_operand)"

definition x86emuOp_mov_word_RM_R :: "unit emu" where
  "x86emuOp_mov_word_RM_R = instr_rm_sized (mov_RM_R long_operand) (mov_RM_R word_operand)"

definition x86emuOp_mov_byte_R_RM :: "unit emu" where
  "x86emuOp_mov_byte_R_RM = instr_rm (mov_R_RM byte_operand)"

definition x86emuOp_mov_word_R_RM :: "unit emu" where
  "x86emuOp_mov_word_R_RM = instr_rm_sized (mov_R_RM long_operand) (mov_R_RM word_operand)"

text \<open>A segment register that does not exist is the null pointer, which the next statement dereferences.\<close>

definition x86emuOp_mov_word_RM_SR :: "unit emu" where
  "x86emuOp_mov_word_RM_SR = instr_rm (\<lambda>(md, rh, rl).
     if md < 3 then do {
       destoffset \<leftarrow> decode_rm_address md rl;
       srcreg \<leftarrow> decode_rm_seg_register rh;
       (case srcreg of
          None \<Rightarrow> emu_trap
        | Some s \<Rightarrow> do { v \<leftarrow> gets (rdsr s); store_data_word destoffset v }) }
     else do {
       srcreg \<leftarrow> decode_rm_seg_register rh;
       (case srcreg of
          None \<Rightarrow> emu_trap
        | Some s \<Rightarrow> do { v \<leftarrow> gets (rdsr s); upd (wr16 (decode_rm_word_register rl) v) }) })"

text \<open>LEA takes its size from the address size prefix.\<close>

definition x86emuOp_lea_word_R_M :: "unit emu" where
  "x86emuOp_lea_word_R_M = instr_rm (\<lambda>(md, rh, rl).
     emu_when (md < 3) (do {
       long \<leftarrow> gets (mode_is SYSMODE_PREFIX_ADDR);
       destoffset \<leftarrow> decode_rm_address md rl;
       (if long then upd (wr32 (decode_rm_long_register rh) destoffset)
        else upd (wr16 (decode_rm_word_register rh) (ucast destoffset))) }))"

definition x86emuOp_mov_word_SR_RM :: "unit emu" where
  "x86emuOp_mov_word_SR_RM = instr_rm (\<lambda>(md, rh, rl). do {
     destreg \<leftarrow> decode_rm_seg_register rh;
     srcval \<leftarrow> read_rm word_operand md rl;
     (case destreg of None \<Rightarrow> emu_trap | Some s \<Rightarrow> upd (wrsr s srcval)) })"

definition x86emuOp_pop_RM :: "unit emu" where
  "x86emuOp_pop_RM = instr (do {
     (md, rh, rl) \<leftarrow> fetch_decode_modrm;
     emu_when (rh \<noteq> 0) HALT_SYS;
     sized (write_rm long_operand md rl pop_long) (write_rm word_operand md rl pop_word) })"

definition x86emuOp_nop :: "unit emu" where
  "x86emuOp_nop = instr (State_Monad.return ())"

definition xchg_AX :: "greg \<Rightarrow> unit emu" where
  "xchg_AX r = instr (sized
     (do { tmp \<leftarrow> gets gA; v \<leftarrow> gets (rd32 r); upd (wr32 rEAX v); upd (wr32 r tmp) })
     (do { tmp \<leftarrow> gets R_AX; v \<leftarrow> gets (rd16 r); upd (wr16 rEAX v); upd (wr16 r tmp) }))"

definition x86emuOp_xchg_word_AX_CX :: "unit emu" where
  "x86emuOp_xchg_word_AX_CX = xchg_AX rECX"

definition x86emuOp_xchg_word_AX_DX :: "unit emu" where
  "x86emuOp_xchg_word_AX_DX = xchg_AX rEDX"

definition x86emuOp_xchg_word_AX_BX :: "unit emu" where
  "x86emuOp_xchg_word_AX_BX = xchg_AX rEBX"

definition x86emuOp_xchg_word_AX_SP :: "unit emu" where
  "x86emuOp_xchg_word_AX_SP = xchg_AX rESP"

definition x86emuOp_xchg_word_AX_BP :: "unit emu" where
  "x86emuOp_xchg_word_AX_BP = xchg_AX rEBP"

definition x86emuOp_xchg_word_AX_SI :: "unit emu" where
  "x86emuOp_xchg_word_AX_SI = xchg_AX rESI"

definition x86emuOp_xchg_word_AX_DI :: "unit emu" where
  "x86emuOp_xchg_word_AX_DI = xchg_AX rEDI"

definition x86emuOp_cbw :: "unit emu" where
  "x86emuOp_cbw = instr (sized
     (upd (\<lambda>m. m\<lparr>gA := (if R_AX m AND 0x8000 \<noteq> 0 then gA m OR 0xFFFF0000 else gA m AND 0x0000FFFF)\<rparr>))
     (upd (\<lambda>m. wr8 rAH (if R_AL m AND 0x80 \<noteq> 0 then 0xFF else 0) m)))"

definition x86emuOp_cwd :: "unit emu" where
  "x86emuOp_cwd = instr (sized
     (upd (\<lambda>m. m\<lparr>gD := (if gA m AND 0x80000000 \<noteq> 0 then 0xFFFFFFFF else 0)\<rparr>))
     (upd (\<lambda>m. wr16 rEDX (if R_AX m AND 0x8000 \<noteq> 0 then 0xFFFF else 0) m)))"

definition x86emuOp_sahf :: "unit emu" where
  "x86emuOp_sahf = instr (upd (\<lambda>m. m\<lparr>FLAGS := (FLAGS m AND 0xFFFFFF00) OR ucast (R_AH m)\<rparr>))"

definition x86emuOp_lahf :: "unit emu" where
  "x86emuOp_lahf = instr (upd (\<lambda>m. wr8 rAH (ucast (FLAGS m AND 0xFF) OR 2) m))"

definition x86emuOp_mov_AL_M_IMM :: "unit emu" where
  "x86emuOp_mov_AL_M_IMM = instr (do { offset \<leftarrow> fetch_word_imm; v \<leftarrow> fetch_data_byte (ucast offset); upd (wr8 rAL v) })"

definition x86emuOp_mov_AX_M_IMM :: "unit emu" where
  "x86emuOp_mov_AX_M_IMM = instr (do {
     offset \<leftarrow> fetch_word_imm;
     sized (do { v \<leftarrow> fetch_data_long (ucast offset); upd (wr32 rEAX v) })
       (do { v \<leftarrow> fetch_data_word (ucast offset); upd (wr16 rEAX v) }) })"

definition x86emuOp_mov_M_AL_IMM :: "unit emu" where
  "x86emuOp_mov_M_AL_IMM = instr (do { offset \<leftarrow> fetch_word_imm; v \<leftarrow> gets R_AL; store_data_byte (ucast offset) v })"

definition x86emuOp_mov_M_AX_IMM :: "unit emu" where
  "x86emuOp_mov_M_AX_IMM = instr (do {
     offset \<leftarrow> fetch_word_imm;
     sized (do { v \<leftarrow> gets gA; store_data_long (ucast offset) v })
       (do { v \<leftarrow> gets R_AX; store_data_word (ucast offset) v }) })"

definition x86emuOp_mov_byte_AL_IMM :: "unit emu" where
  "x86emuOp_mov_byte_AL_IMM = instr (do { imm \<leftarrow> fetch_byte_imm; upd (wr8 rAL imm) })"

definition x86emuOp_mov_byte_CL_IMM :: "unit emu" where
  "x86emuOp_mov_byte_CL_IMM = instr (do { imm \<leftarrow> fetch_byte_imm; upd (wr8 rCL imm) })"

definition x86emuOp_mov_byte_DL_IMM :: "unit emu" where
  "x86emuOp_mov_byte_DL_IMM = instr (do { imm \<leftarrow> fetch_byte_imm; upd (wr8 rDL imm) })"

definition x86emuOp_mov_byte_BL_IMM :: "unit emu" where
  "x86emuOp_mov_byte_BL_IMM = instr (do { imm \<leftarrow> fetch_byte_imm; upd (wr8 rBL imm) })"

definition x86emuOp_mov_byte_AH_IMM :: "unit emu" where
  "x86emuOp_mov_byte_AH_IMM = instr (do { imm \<leftarrow> fetch_byte_imm; upd (wr8 rAH imm) })"

definition x86emuOp_mov_byte_CH_IMM :: "unit emu" where
  "x86emuOp_mov_byte_CH_IMM = instr (do { imm \<leftarrow> fetch_byte_imm; upd (wr8 rCH imm) })"

definition x86emuOp_mov_byte_DH_IMM :: "unit emu" where
  "x86emuOp_mov_byte_DH_IMM = instr (do { imm \<leftarrow> fetch_byte_imm; upd (wr8 rDH imm) })"

definition x86emuOp_mov_byte_BH_IMM :: "unit emu" where
  "x86emuOp_mov_byte_BH_IMM = instr (do { imm \<leftarrow> fetch_byte_imm; upd (wr8 rBH imm) })"

definition mov_reg_IMM :: "greg \<Rightarrow> unit emu" where
  "mov_reg_IMM r = instr (sized (do { v \<leftarrow> fetch_long_imm; upd (wr32 r v) })
     (do { v \<leftarrow> fetch_word_imm; upd (wr16 r v) }))"

definition x86emuOp_mov_word_AX_IMM :: "unit emu" where
  "x86emuOp_mov_word_AX_IMM = mov_reg_IMM rEAX"

definition x86emuOp_mov_word_CX_IMM :: "unit emu" where
  "x86emuOp_mov_word_CX_IMM = mov_reg_IMM rECX"

definition x86emuOp_mov_word_DX_IMM :: "unit emu" where
  "x86emuOp_mov_word_DX_IMM = mov_reg_IMM rEDX"

definition x86emuOp_mov_word_BX_IMM :: "unit emu" where
  "x86emuOp_mov_word_BX_IMM = mov_reg_IMM rEBX"

definition x86emuOp_mov_word_SP_IMM :: "unit emu" where
  "x86emuOp_mov_word_SP_IMM = mov_reg_IMM rESP"

definition x86emuOp_mov_word_BP_IMM :: "unit emu" where
  "x86emuOp_mov_word_BP_IMM = mov_reg_IMM rEBP"

definition x86emuOp_mov_word_SI_IMM :: "unit emu" where
  "x86emuOp_mov_word_SI_IMM = mov_reg_IMM rESI"

definition x86emuOp_mov_word_DI_IMM :: "unit emu" where
  "x86emuOp_mov_word_DI_IMM = mov_reg_IMM rEDI"

definition x86emuOp_mov_byte_RM_IMM :: "unit emu" where
  "x86emuOp_mov_byte_RM_IMM = instr_rm (\<lambda>(md, rh, rl). do {
     emu_when (rh \<noteq> 0) HALT_SYS;
     write_rm byte_operand md rl fetch_byte_imm })"

definition x86emuOp_mov_word_RM_IMM :: "unit emu" where
  "x86emuOp_mov_word_RM_IMM = instr (do {
     (md, rh, rl) \<leftarrow> fetch_decode_modrm;
     emu_when (rh \<noteq> 0) HALT_SYS;
     sized (write_rm long_operand md rl fetch_long_imm) (write_rm word_operand md rl fetch_word_imm) })"

definition x86emuOp_les_R_IMM :: "unit emu" where
  "x86emuOp_les_R_IMM = instr_rm (load_far rES)"

definition x86emuOp_lds_R_IMM :: "unit emu" where
  "x86emuOp_lds_R_IMM = instr_rm (load_far rDS)"

definition x86emuOp_xlat :: "unit emu" where
  "x86emuOp_xlat = instr (do {
     addr \<leftarrow> gets (\<lambda>m. R_BX m + ucast (R_AL m));
     v \<leftarrow> fetch_data_byte (ucast addr);
     upd (wr8 rAL v) })"

section \<open>Shift groups\<close>

definition opcD0_byte_operation :: "(u8 \<Rightarrow> u8 \<Rightarrow> x86 \<Rightarrow> u8 \<times> x86) list" where
  "opcD0_byte_operation = [rol_byte, ror_byte, rcl_byte, rcr_byte, shl_byte, shr_byte, shl_byte, sar_byte]"

definition opcD1_word_operation :: "(u16 \<Rightarrow> u8 \<Rightarrow> x86 \<Rightarrow> u16 \<times> x86) list" where
  "opcD1_word_operation = [rol_word, ror_word, rcl_word, rcr_word, shl_word, shr_word, shl_word, sar_word]"

definition opcD1_long_operation :: "(u32 \<Rightarrow> u8 \<Rightarrow> x86 \<Rightarrow> u32 \<times> x86) list" where
  "opcD1_long_operation = [rol_long, ror_long, rcl_long, rcr_long, shl_long, shr_long, shl_long, sar_long]"

definition x86emuOp_opcC0_byte_RM_MEM :: "unit emu" where
  "x86emuOp_opcC0_byte_RM_MEM = instr_rm (shift_RM byte_operand opcD0_byte_operation fetch_byte_imm)"

definition x86emuOp_opcC1_word_RM_MEM :: "unit emu" where
  "x86emuOp_opcC1_word_RM_MEM = instr_rm_sized (shift_RM long_operand opcD1_long_operation fetch_byte_imm)
     (shift_RM word_operand opcD1_word_operation fetch_byte_imm)"

definition x86emuOp_opcD0_byte_RM_1 :: "unit emu" where
  "x86emuOp_opcD0_byte_RM_1 = instr_rm (shift_RM byte_operand opcD0_byte_operation (State_Monad.return 1))"

definition x86emuOp_opcD1_word_RM_1 :: "unit emu" where
  "x86emuOp_opcD1_word_RM_1 = instr_rm_sized (shift_RM long_operand opcD1_long_operation (State_Monad.return 1))
     (shift_RM word_operand opcD1_word_operation (State_Monad.return 1))"

definition x86emuOp_opcD2_byte_RM_CL :: "unit emu" where
  "x86emuOp_opcD2_byte_RM_CL = instr_rm (shift_RM byte_operand opcD0_byte_operation (gets (rd8 rCL)))"

definition x86emuOp_opcD3_word_RM_CL :: "unit emu" where
  "x86emuOp_opcD3_word_RM_CL = instr_rm_sized (shift_RM long_operand opcD1_long_operation (gets (rd8 rCL)))
     (shift_RM word_operand opcD1_word_operation (gets (rd8 rCL)))"

section \<open>Unary groups\<close>

text \<open>The immediate of TEST is fetched before the operand is read.\<close>

definition test_RM_IMM :: "'w operand \<Rightarrow> ('w \<Rightarrow> 'w \<Rightarrow> x86 \<Rightarrow> x86) \<Rightarrow> nat \<Rightarrow> nat \<Rightarrow> unit emu" where
  "test_RM_IMM w f = (\<lambda>md rl.
     if md < 3 then do {
       destoffset \<leftarrow> decode_rm_address md rl;
       srcval \<leftarrow> o_imm w;
       destval \<leftarrow> o_fetch w destoffset;
       upd (f destval srcval) }
     else do {
       srcval \<leftarrow> o_imm w;
       destval \<leftarrow> gets (o_rd w rl);
       upd (f destval srcval) })"

definition use_RM :: "'w operand \<Rightarrow> ('w \<Rightarrow> x86 \<Rightarrow> x86) \<Rightarrow> nat \<Rightarrow> nat \<Rightarrow> unit emu" where
  "use_RM w f = (\<lambda>md rl. do { v \<leftarrow> read_rm w md rl; upd (f v) })"

text \<open>Signed division with overflow traps in the kernel.\<close>

definition idiv_word_or_trap :: "u16 \<Rightarrow> x86 \<Rightarrow> x86" where
  "idiv_word_or_trap v m = (case idiv_word v m of None \<Rightarrow> m\<lparr>fault := True\<rparr> | Some m' \<Rightarrow> m')"

definition x86emuOp_opcF6_byte_RM :: "unit emu" where
  "x86emuOp_opcF6_byte_RM = instr_rm (\<lambda>(md, rh, rl).
        (if rh = 0 then test_RM_IMM byte_operand test_byte md rl
        else if rh = 1 then HALT_SYS
        else if rh = 2 then modify_rm byte_operand md rl (\<lambda>v. State_Monad.return (not_byte v))
        else if rh = 3 then modify_rm byte_operand md rl (\<lambda>v. State (neg_byte v))
        else if rh = 4 then use_RM byte_operand mul_byte md rl
        else if rh = 5 then use_RM byte_operand imul_byte md rl
        else if rh = 6 then use_RM byte_operand div_byte md rl
        else use_RM byte_operand idiv_byte md rl))"

definition x86emuOp_opcF7_word_RM :: "unit emu" where
  "x86emuOp_opcF7_word_RM = instr_rm_sized (\<lambda>(md, rh, rl).
        (if rh = 0 then test_RM_IMM long_operand test_long md rl
        else if rh = 1 then HALT_SYS
        else if rh = 2 then modify_rm long_operand md rl (\<lambda>v. State_Monad.return (not_long v))
        else if rh = 3 then modify_rm long_operand md rl (\<lambda>v. State (neg_long v))
        else if rh = 4 then use_RM long_operand mul_long md rl
        else if rh = 5 then use_RM long_operand imul_long md rl
        else if rh = 6 then use_RM long_operand div_long md rl
        else use_RM long_operand idiv_long md rl))
     (\<lambda>(md, rh, rl).
        (if rh = 0 then test_RM_IMM word_operand test_word md rl
        else if rh = 1 then HALT_SYS
        else if rh = 2 then modify_rm word_operand md rl (\<lambda>v. State_Monad.return (not_word v))
        else if rh = 3 then modify_rm word_operand md rl (\<lambda>v. State (neg_word v))
        else if rh = 4 then use_RM word_operand mul_word md rl
        else if rh = 5 then use_RM word_operand imul_word md rl
        else if rh = 6 then use_RM word_operand div_word md rl
        else use_RM word_operand idiv_word_or_trap md rl))"

definition x86emuOp_opcFE_byte_RM :: "unit emu" where
  "x86emuOp_opcFE_byte_RM = instr_rm (\<lambda>(md, rh, rl).
     if rh = 0 then modify_rm byte_operand md rl (\<lambda>v. State (inc_byte v))
     else if rh = 1 then modify_rm byte_operand md rl (\<lambda>v. State (dec_byte v))
     else emu_when (md < 3) (do { _ \<leftarrow> decode_rm_address md rl; State_Monad.return () }))"

definition call_near_to :: "u16 \<Rightarrow> unit emu" where
  "call_near_to v = do { ip \<leftarrow> gets R_IP; push_word ip; upd (set_IP v) }"

definition x86emuOp_opcFF_word_RM :: "unit emu" where
  "x86emuOp_opcFF_word_RM = instr (do {
     (md, rh, rl) \<leftarrow> fetch_decode_modrm;
     (if md < 3 then do {
        destoffset \<leftarrow> decode_rm_address md rl;
        (if rh = 0 then sized
           (do { v \<leftarrow> fetch_data_long destoffset; r \<leftarrow> State (inc_long v); store_data_long destoffset r })
           (do { v \<leftarrow> fetch_data_word destoffset; r \<leftarrow> State (inc_word v); store_data_word destoffset r })
         else if rh = 1 then sized
           (do { v \<leftarrow> fetch_data_long destoffset; r \<leftarrow> State (dec_long v); store_data_long destoffset r })
           (do { v \<leftarrow> fetch_data_word destoffset; r \<leftarrow> State (dec_word v); store_data_word destoffset r })
         else if rh = 2 then do { destval \<leftarrow> fetch_data_word destoffset; call_near_to destval }
         else if rh = 3 then do {
           destval \<leftarrow> fetch_data_word destoffset;
           destval2 \<leftarrow> fetch_data_word (destoffset + 2);
           cs \<leftarrow> gets R_CS; push_word cs; upd (wrsr rCS destval2);
           call_near_to destval }
         else if rh = 4 then do { destval \<leftarrow> fetch_data_word destoffset; upd (set_IP destval) }
         else if rh = 5 then do {
           destval \<leftarrow> fetch_data_word destoffset;
           destval2 \<leftarrow> fetch_data_word (destoffset + 2);
           upd (set_IP destval); upd (wrsr rCS destval2) }
         else if rh = 6 then sized
           (do { v \<leftarrow> fetch_data_long destoffset; push_long v })
           (do { v \<leftarrow> fetch_data_word destoffset; push_word v })
         else State_Monad.return ()) }
      else if rh = 0 then sized (modify_rm long_operand 3 rl (\<lambda>v. State (inc_long v)))
        (modify_rm word_operand 3 rl (\<lambda>v. State (inc_word v)))
      else if rh = 1 then sized (modify_rm long_operand 3 rl (\<lambda>v. State (dec_long v)))
        (modify_rm word_operand 3 rl (\<lambda>v. State (dec_word v)))
      else if rh = 2 then do {
        ip \<leftarrow> gets R_IP; push_word ip;
        v \<leftarrow> gets (rd16 (decode_rm_word_register rl)); upd (set_IP v) }
      else if rh = 3 \<or> rh = 5 then HALT_SYS
      else if rh = 4 then do { v \<leftarrow> gets (rd16 (decode_rm_word_register rl)); upd (set_IP v) }
      else if rh = 6 then sized
        (do { v \<leftarrow> gets (rd32 (decode_rm_long_register rl)); push_long v })
        (do { v \<leftarrow> gets (rd16 (decode_rm_word_register rl)); push_word v })
      else State_Monad.return ()) })"

end
