(* ===== verification/X86Ops2.thy ===== *)
theory X86Ops2
  imports X86Ops
begin

text \<open>
  The handlers of the instructions with the prefix byte 0x0F (\<open>ops2.c\<close>).  Those that the table
  installs for several opcodes take the second opcode byte.
\<close>

text \<open>The 16 conditions of the long jumps and of SETcc, as the C code writes them for each.\<close>

definition xorl :: "bool \<Rightarrow> bool \<Rightarrow> bool" where
  "xorl a b = ((a \<and> \<not> b) \<or> (\<not> a \<and> b))"

definition long_jump_cond :: "nat \<Rightarrow> x86 \<Rightarrow> bool" where
  "long_jump_cond c m = (if c = 0 then ACCESS_FLAG F_OF m
      else if c = 1 then \<not> ACCESS_FLAG F_OF m
      else if c = 2 then ACCESS_FLAG F_CF m
      else if c = 3 then \<not> ACCESS_FLAG F_CF m
      else if c = 4 then ACCESS_FLAG F_ZF m
      else if c = 5 then \<not> ACCESS_FLAG F_ZF m
      else if c = 6 then ACCESS_FLAG F_CF m \<or> ACCESS_FLAG F_ZF m
      else if c = 7 then \<not> (ACCESS_FLAG F_CF m \<or> ACCESS_FLAG F_ZF m)
      else if c = 8 then ACCESS_FLAG F_SF m
      else if c = 9 then \<not> ACCESS_FLAG F_SF m
      else if c = 10 then ACCESS_FLAG F_PF m
      else if c = 11 then \<not> ACCESS_FLAG F_PF m
      else if c = 12 then xorl (ACCESS_FLAG F_SF m) (ACCESS_FLAG F_OF m)
      else if c = 13 then \<not> xorl (ACCESS_FLAG F_SF m) (ACCESS_FLAG F_OF m)
      else if c = 14 then xorl (ACCESS_FLAG F_SF m) (ACCESS_FLAG F_OF m) \<or> ACCESS_FLAG F_ZF m
      else \<not> (xorl (ACCESS_FLAG F_SF m) (ACCESS_FLAG F_OF m) \<or> ACCESS_FLAG F_ZF m))"

definition set_byte_cond :: "nat \<Rightarrow> x86 \<Rightarrow> bool" where
  "set_byte_cond c m = (if c = 0 then ACCESS_FLAG F_OF m
      else if c = 1 then \<not> ACCESS_FLAG F_OF m
      else if c = 2 then ACCESS_FLAG F_CF m
      else if c = 3 then \<not> ACCESS_FLAG F_CF m
      else if c = 4 then ACCESS_FLAG F_ZF m
      else if c = 5 then \<not> ACCESS_FLAG F_ZF m
      else if c = 6 then ACCESS_FLAG F_CF m \<or> ACCESS_FLAG F_ZF m
      else if c = 7 then \<not> (ACCESS_FLAG F_CF m \<or> ACCESS_FLAG F_ZF m)
      else if c = 8 then ACCESS_FLAG F_SF m
      else if c = 9 then \<not> ACCESS_FLAG F_SF m
      else if c = 10 then ACCESS_FLAG F_PF m
      else if c = 11 then \<not> ACCESS_FLAG F_PF m
      else if c = 12 then xorl (ACCESS_FLAG F_SF m) (ACCESS_FLAG F_OF m)
      else if c = 13 then xorl (ACCESS_FLAG F_SF m) (ACCESS_FLAG F_OF m)
      else if c = 14 then xorl (ACCESS_FLAG F_SF m) (ACCESS_FLAG F_OF m) \<or> ACCESS_FLAG F_ZF m
      else \<not> (xorl (ACCESS_FLAG F_SF m) (ACCESS_FLAG F_OF m) \<or> ACCESS_FLAG F_ZF m))"

definition x86emuOp2_illegal_op :: "unit emu" where
  "x86emuOp2_illegal_op = HALT_SYS"

definition x86emuOp2_rdtsc :: "unit emu" where
  "x86emuOp2_rdtsc = instr (upd (\<lambda>m. m\<lparr>tsc := tsc m + 0x10000, gA := tsc m + 0x10000, gD := 0\<rparr>))"

definition x86emuOp2_long_jump :: "u8 \<Rightarrow> unit emu" where
  "x86emuOp2_long_jump op2 = instr (do {
     cond \<leftarrow> gets (long_jump_cond (unat (op2 AND 0xF)));
     w \<leftarrow> fetch_word_imm;
     target \<leftarrow> gets (\<lambda>m. w + R_IP m);
     emu_when cond (upd (set_IP target)) })"

definition x86emuOp2_set_byte :: "u8 \<Rightarrow> unit emu" where
  "x86emuOp2_set_byte op2 = instr (do {
     cond \<leftarrow> gets (set_byte_cond (unat (op2 AND 0xF)));
     (md, rh, rl) \<leftarrow> fetch_decode_modrm;
     write_rm byte_operand md rl (State_Monad.return (if cond then 1 else 0)) })"

definition x86emuOp2_push_FS :: "unit emu" where
  "x86emuOp2_push_FS = instr (do { v \<leftarrow> gets (rdsr rFS); push_word v })"

definition x86emuOp2_pop_FS :: "unit emu" where
  "x86emuOp2_pop_FS = instr (do { v \<leftarrow> pop_word; upd (wrsr rFS v) })"

definition x86emuOp2_push_GS :: "unit emu" where
  "x86emuOp2_push_GS = instr (do { v \<leftarrow> gets (rdsr rGS); push_word v })"

definition x86emuOp2_pop_GS :: "unit emu" where
  "x86emuOp2_pop_GS = instr (do { v \<leftarrow> pop_word; upd (wrsr rGS v) })"

definition x86emuOp2_cpuid :: "unit emu" where
  "x86emuOp2_cpuid = instr cpuid"

section \<open>Bit tests\<close>

text \<open>
  The bit number is taken modulo the operand size; the rest of the register, shifted as a signed
  16 bit number, is added to the offset as it is, in bytes.  \<open>f\<close> says what becomes of the operand.
\<close>

definition bit_RM :: "'w::len word operand \<Rightarrow> nat \<Rightarrow> ('w word \<Rightarrow> u16) \<Rightarrow> ('w word \<Rightarrow> 'w word \<Rightarrow> 'w word) option \<Rightarrow> modrm \<Rightarrow> unit emu" where
  "bit_RM w lg idx f = (\<lambda>(md, rh, rl).
     if md < 3 then do {
       srcoffset \<leftarrow> decode_rm_address md rl;
       shiftreg \<leftarrow> gets (o_rd w rh);
       disp \<leftarrow> State_Monad.return (scast (signed_drop_bit lg (idx shiftreg)) :: u32);
       srcval \<leftarrow> o_fetch w (srcoffset + disp);
       mask \<leftarrow> State_Monad.return (push_bit (unat (idx shiftreg AND mask lg)) 1);
       upd (CONDITIONAL_SET_FLAG (srcval AND mask \<noteq> 0) F_CF);
       (case f of None \<Rightarrow> State_Monad.return () | Some g \<Rightarrow> o_store w (srcoffset + disp) (g srcval mask)) }
     else do {
       shiftreg \<leftarrow> gets (o_rd w rh);
       srcval \<leftarrow> gets (o_rd w rl);
       mask \<leftarrow> State_Monad.return (push_bit (unat (idx shiftreg AND mask lg)) 1);
       upd (CONDITIONAL_SET_FLAG (srcval AND mask \<noteq> 0) F_CF);
       (case f of None \<Rightarrow> State_Monad.return () | Some g \<Rightarrow> upd (o_wr w rl (g srcval mask))) })"

definition x86emuOp2_bt_R :: "unit emu" where
  "x86emuOp2_bt_R = instr_rm_sized (bit_RM long_operand 5 ucast None) (bit_RM word_operand 4 id None)"

definition x86emuOp2_bts_R :: "unit emu" where
  "x86emuOp2_bts_R = instr_rm_sized (bit_RM long_operand 5 ucast (Some (\<lambda>v k. v OR k))) (bit_RM word_operand 4 id (Some (\<lambda>v k. v OR k)))"

definition x86emuOp2_btr_R :: "unit emu" where
  "x86emuOp2_btr_R = instr_rm_sized (bit_RM long_operand 5 ucast (Some (\<lambda>v k. v AND NOT k))) (bit_RM word_operand 4 id (Some (\<lambda>v k. v AND NOT k)))"

definition x86emuOp2_btc_R :: "unit emu" where
  "x86emuOp2_btc_R = instr_rm_sized (bit_RM long_operand 5 ucast (Some (\<lambda>v k. v XOR k))) (bit_RM word_operand 4 id (Some (\<lambda>v k. v XOR k)))"

definition bit_RM_IMM :: "'w::len word operand \<Rightarrow> nat \<Rightarrow> modrm \<Rightarrow> unit emu" where
  "bit_RM_IMM w lg = (\<lambda>(md, rh, rl).
     if md < 3 then do {
       srcoffset \<leftarrow> decode_rm_address md rl;
       shift \<leftarrow> fetch_byte_imm;
       srcval \<leftarrow> o_fetch w srcoffset;
       mask \<leftarrow> State_Monad.return (push_bit (unat (shift AND mask lg)) 1);
       upd (CONDITIONAL_SET_FLAG (srcval AND mask \<noteq> 0) F_CF);
       (if rh = 5 then o_store w srcoffset (srcval OR mask)
        else if rh = 6 then o_store w srcoffset (srcval AND NOT mask)
        else if rh = 7 then o_store w srcoffset (srcval XOR mask)
        else State_Monad.return ()) }
     else do {
       shift \<leftarrow> fetch_byte_imm;
       srcval \<leftarrow> gets (o_rd w rl);
       mask \<leftarrow> State_Monad.return (push_bit (unat (shift AND mask lg)) 1);
       upd (CONDITIONAL_SET_FLAG (srcval AND mask \<noteq> 0) F_CF);
       (if rh = 5 then upd (o_wr w rl (srcval OR mask))
        else if rh = 6 then upd (o_wr w rl (srcval AND NOT mask))
        else if rh = 7 then upd (o_wr w rl (srcval XOR mask))
        else State_Monad.return ()) })"

definition x86emuOp2_btX_I :: "unit emu" where
  "x86emuOp2_btX_I = instr (do {
     (md, rh, rl) \<leftarrow> fetch_decode_modrm;
     emu_when (rh < 4) HALT_SYS;
     sized (bit_RM_IMM long_operand 5 (md, rh, rl)) (bit_RM_IMM word_operand 4 (md, rh, rl)) })"

section \<open>Bit scans\<close>

text \<open>The destination register is the loop variable of the C code: it ends at the size, or at 0, when no bit is found.\<close>

primrec bsf_from :: "nat \<Rightarrow> nat \<Rightarrow> 'w::len word \<Rightarrow> nat" where
  "bsf_from 0 i v = i"
| "bsf_from (Suc k) i v = (if bit v i then i else bsf_from k (Suc i) v)"

primrec bsr_from :: "nat \<Rightarrow> 'w::len word \<Rightarrow> nat" where
  "bsr_from 0 v = 0"
| "bsr_from (Suc i) v = (if bit v (Suc i) then Suc i else bsr_from i v)"

definition scan_R_RM :: "'w::len word operand \<Rightarrow> ('w word \<Rightarrow> nat) \<Rightarrow> modrm \<Rightarrow> unit emu" where
  "scan_R_RM w f = (\<lambda>(md, rh, rl). do {
     srcval \<leftarrow> read_rm w md rl;
     upd (CONDITIONAL_SET_FLAG (srcval = 0) F_ZF);
     upd (o_wr w rh (word_of_nat (f srcval))) })"

definition x86emuOp2_bsf :: "unit emu" where
  "x86emuOp2_bsf = instr_rm_sized (scan_R_RM long_operand (bsf_from 32 0)) (scan_R_RM word_operand (bsf_from 16 0))"

definition x86emuOp2_bsr :: "unit emu" where
  "x86emuOp2_bsr = instr_rm_sized (scan_R_RM long_operand (bsr_from 31)) (scan_R_RM word_operand (bsr_from 15))"

section \<open>Double shifts, multiplication, far pointers, extensions\<close>

definition dshift_RM_R :: "'w operand \<Rightarrow> ('w \<Rightarrow> 'w \<Rightarrow> u8 \<Rightarrow> x86 \<Rightarrow> 'w \<times> x86) \<Rightarrow> u8 emu \<Rightarrow> modrm \<Rightarrow> unit emu" where
  "dshift_RM_R w f amt = (\<lambda>(md, rh, rl).
     if md < 3 then do {
       destoffset \<leftarrow> decode_rm_address md rl;
       shift \<leftarrow> amt;
       destval \<leftarrow> o_fetch w destoffset;
       shiftreg \<leftarrow> gets (o_rd w rh);
       res \<leftarrow> State (f destval shiftreg shift);
       o_store w destoffset res }
     else do {
       shift \<leftarrow> amt;
       destval \<leftarrow> gets (o_rd w rl);
       shiftreg \<leftarrow> gets (o_rd w rh);
       res \<leftarrow> State (f destval shiftreg shift);
       upd (o_wr w rl res) })"

definition x86emuOp2_shld_IMM :: "unit emu" where
  "x86emuOp2_shld_IMM = instr_rm_sized (dshift_RM_R long_operand shld_long fetch_byte_imm)
     (dshift_RM_R word_operand shld_word fetch_byte_imm)"

definition x86emuOp2_shld_CL :: "unit emu" where
  "x86emuOp2_shld_CL = instr_rm_sized (dshift_RM_R long_operand shld_long (gets (rd8 rCL)))
     (dshift_RM_R word_operand shld_word (gets (rd8 rCL)))"

definition x86emuOp2_shrd_IMM :: "unit emu" where
  "x86emuOp2_shrd_IMM = instr_rm_sized (dshift_RM_R long_operand shrd_long fetch_byte_imm)
     (dshift_RM_R word_operand shrd_word fetch_byte_imm)"

definition x86emuOp2_shrd_CL :: "unit emu" where
  "x86emuOp2_shrd_CL = instr_rm_sized (dshift_RM_R long_operand shrd_long (gets (rd8 rCL)))
     (dshift_RM_R word_operand shrd_word (gets (rd8 rCL)))"

definition x86emuOp2_imul_R_RM :: "unit emu" where
  "x86emuOp2_imul_R_RM = instr_rm_sized (op_R_RM long_operand imul_trunc_long) (op_R_RM word_operand imul_trunc_word)"

definition x86emuOp2_lss_R_IMM :: "unit emu" where
  "x86emuOp2_lss_R_IMM = instr_rm (load_far rSS)"

definition x86emuOp2_lfs_R_IMM :: "unit emu" where
  "x86emuOp2_lfs_R_IMM = instr_rm (load_far rFS)"

definition x86emuOp2_lgs_R_IMM :: "unit emu" where
  "x86emuOp2_lgs_R_IMM = instr_rm (load_far rGS)"

definition extend_R_RM :: "'v operand \<Rightarrow> ('v \<Rightarrow> 'w) \<Rightarrow> 'w operand \<Rightarrow> modrm \<Rightarrow> unit emu" where
  "extend_R_RM src ext w = (\<lambda>(md, rh, rl). do { srcval \<leftarrow> read_rm src md rl; upd (o_wr w rh (ext srcval)) })"

definition x86emuOp2_movzx_byte_R_RM :: "unit emu" where
  "x86emuOp2_movzx_byte_R_RM = instr_rm_sized (extend_R_RM byte_operand ucast long_operand) (extend_R_RM byte_operand ucast word_operand)"

definition x86emuOp2_movzx_word_R_RM :: "unit emu" where
  "x86emuOp2_movzx_word_R_RM = instr_rm (extend_R_RM word_operand ucast long_operand)"

definition x86emuOp2_movsx_byte_R_RM :: "unit emu" where
  "x86emuOp2_movsx_byte_R_RM = instr_rm_sized (extend_R_RM byte_operand scast long_operand) (extend_R_RM byte_operand scast word_operand)"

definition x86emuOp2_movsx_word_R_RM :: "unit emu" where
  "x86emuOp2_movsx_word_R_RM = instr_rm (extend_R_RM word_operand scast long_operand)"

definition bswap_32 :: "u32 \<Rightarrow> u32" where
  "bswap_32 x = drop_bit 24 (x AND 0xFF000000) OR drop_bit 8 (x AND 0x00FF0000) OR
     push_bit 8 (x AND 0x0000FF00) OR push_bit 24 (x AND 0x000000FF)"

definition x86emuOp2_bswap :: "u8 \<Rightarrow> unit emu" where
  "x86emuOp2_bswap op2 = instr (upd (\<lambda>m. wr32 (decode_rm_long_register (unat (op2 AND 7))) (bswap_32 (rd32 (decode_rm_long_register (unat (op2 AND 7))) m)) m))"

end
