(* ===== verification/X86Ctl.thy ===== *)
theory X86Ctl
  imports X86Operand
begin

text \<open>
  The handlers of \<open>ops.c\<close> for the stack, control transfer, flags, ports and strings, with \<open>ins\<close> and
  \<open>outs\<close> of \<open>prim_ops.c\<close>, and the coprocessor escapes of \<open>fpu.c\<close>.
\<close>

section \<open>Stack\<close>

definition push_sreg :: "sreg \<Rightarrow> unit emu" where
  "push_sreg s = instr (do { v \<leftarrow> gets (rdsr s); push_word v })"

definition pop_sreg :: "sreg \<Rightarrow> unit emu" where
  "pop_sreg s = instr (do { v \<leftarrow> pop_word; upd (wrsr s v) })"

definition x86emuOp_push_ES :: "unit emu" where
  "x86emuOp_push_ES = push_sreg rES"

definition x86emuOp_push_CS :: "unit emu" where
  "x86emuOp_push_CS = push_sreg rCS"

definition x86emuOp_push_SS :: "unit emu" where
  "x86emuOp_push_SS = push_sreg rSS"

definition x86emuOp_push_DS :: "unit emu" where
  "x86emuOp_push_DS = push_sreg rDS"

definition x86emuOp_pop_ES :: "unit emu" where
  "x86emuOp_pop_ES = pop_sreg rES"

definition x86emuOp_pop_SS :: "unit emu" where
  "x86emuOp_pop_SS = pop_sreg rSS"

definition x86emuOp_pop_DS :: "unit emu" where
  "x86emuOp_pop_DS = pop_sreg rDS"

definition push_reg :: "greg \<Rightarrow> unit emu" where
  "push_reg r = instr (sized (do { v \<leftarrow> gets (rd32 r); push_long v }) (do { v \<leftarrow> gets (rd16 r); push_word v }))"

definition pop_reg :: "greg \<Rightarrow> unit emu" where
  "pop_reg r = instr (sized (do { v \<leftarrow> pop_long; upd (wr32 r v) }) (do { v \<leftarrow> pop_word; upd (wr16 r v) }))"

definition x86emuOp_push_AX :: "unit emu" where
  "x86emuOp_push_AX = push_reg rEAX"

definition x86emuOp_push_CX :: "unit emu" where
  "x86emuOp_push_CX = push_reg rECX"

definition x86emuOp_push_DX :: "unit emu" where
  "x86emuOp_push_DX = push_reg rEDX"

definition x86emuOp_push_BX :: "unit emu" where
  "x86emuOp_push_BX = push_reg rEBX"

definition x86emuOp_push_SP :: "unit emu" where
  "x86emuOp_push_SP = push_reg rESP"

definition x86emuOp_push_BP :: "unit emu" where
  "x86emuOp_push_BP = push_reg rEBP"

definition x86emuOp_push_SI :: "unit emu" where
  "x86emuOp_push_SI = push_reg rESI"

definition x86emuOp_push_DI :: "unit emu" where
  "x86emuOp_push_DI = push_reg rEDI"

definition x86emuOp_pop_AX :: "unit emu" where
  "x86emuOp_pop_AX = pop_reg rEAX"

definition x86emuOp_pop_CX :: "unit emu" where
  "x86emuOp_pop_CX = pop_reg rECX"

definition x86emuOp_pop_DX :: "unit emu" where
  "x86emuOp_pop_DX = pop_reg rEDX"

definition x86emuOp_pop_BX :: "unit emu" where
  "x86emuOp_pop_BX = pop_reg rEBX"

definition x86emuOp_pop_SP :: "unit emu" where
  "x86emuOp_pop_SP = pop_reg rESP"

definition x86emuOp_pop_BP :: "unit emu" where
  "x86emuOp_pop_BP = pop_reg rEBP"

definition x86emuOp_pop_SI :: "unit emu" where
  "x86emuOp_pop_SI = pop_reg rESI"

definition x86emuOp_pop_DI :: "unit emu" where
  "x86emuOp_pop_DI = pop_reg rEDI"

primrec push_longs :: "u32 list \<Rightarrow> unit emu" where
  "push_longs [] = State_Monad.return ()"
| "push_longs (v # vs) = do { push_long v; push_longs vs }"

primrec push_words :: "u16 list \<Rightarrow> unit emu" where
  "push_words [] = State_Monad.return ()"
| "push_words (v # vs) = do { push_word v; push_words vs }"

text \<open>The registers are pushed as they are before the instruction, which none of the pushes changes but SP.\<close>

definition x86emuOp_push_all :: "unit emu" where
  "x86emuOp_push_all = instr (sized
     (do { m \<leftarrow> State_Monad.get;
           push_longs [gA m, gC m, gD m, gB m, gSP m, gBP m, gSI m, gDI m] })
     (do { m \<leftarrow> State_Monad.get;
           push_words [R_AX m, R_CX m, R_DX m, R_BX m, R_SP m, R_BP m, R_SI m, R_DI m] }))"

definition x86emuOp_pop_all :: "unit emu" where
  "x86emuOp_pop_all = instr (sized
     (do { v \<leftarrow> pop_long; upd (wr32 rEDI v); v \<leftarrow> pop_long; upd (wr32 rESI v);
           v \<leftarrow> pop_long; upd (wr32 rEBP v); upd (\<lambda>m. m\<lparr>gSP := gSP m + 4\<rparr>);
           v \<leftarrow> pop_long; upd (wr32 rEBX v); v \<leftarrow> pop_long; upd (wr32 rEDX v);
           v \<leftarrow> pop_long; upd (wr32 rECX v); v \<leftarrow> pop_long; upd (wr32 rEAX v) })
     (do { v \<leftarrow> pop_word; upd (wr16 rEDI v); v \<leftarrow> pop_word; upd (wr16 rESI v);
           v \<leftarrow> pop_word; upd (wr16 rEBP v); upd (\<lambda>m. set_SP (R_SP m + 2) m);
           v \<leftarrow> pop_word; upd (wr16 rEBX v); v \<leftarrow> pop_word; upd (wr16 rEDX v);
           v \<leftarrow> pop_word; upd (wr16 rECX v); v \<leftarrow> pop_word; upd (wr16 rEAX v) }))"

definition x86emuOp_push_word_IMM :: "unit emu" where
  "x86emuOp_push_word_IMM = instr (sized (do { imm \<leftarrow> fetch_long_imm; push_long imm }) (do { imm \<leftarrow> fetch_word_imm; push_word imm }))"

definition x86emuOp_push_byte_IMM :: "unit emu" where
  "x86emuOp_push_byte_IMM = instr (do {
     b \<leftarrow> fetch_byte_imm;
     sized (push_long (sext8 b)) (push_word (sext8 b)) })"

definition F_MSK :: "u32" where
  "F_MSK = F_CF OR F_PF OR F_AF OR F_ZF OR F_SF OR F_TF OR F_IF OR F_DF OR F_OF"

definition F_ALWAYS_ON :: "u32" where
  "F_ALWAYS_ON = 0x0002"

definition x86emuOp_pushf_word :: "unit emu" where
  "x86emuOp_pushf_word = instr (do {
     flags \<leftarrow> gets (\<lambda>m. (FLAGS m AND F_MSK) OR F_ALWAYS_ON);
     sized (push_long flags) (push_word (ucast flags)) })"

definition x86emuOp_popf_word :: "unit emu" where
  "x86emuOp_popf_word = instr (sized (do { v \<leftarrow> pop_long; upd (\<lambda>m. m\<lparr>FLAGS := v\<rparr>) })
     (do { v \<leftarrow> pop_word; upd (\<lambda>m. m\<lparr>FLAGS := ucast v\<rparr>) }))"

primrec repeat_emu :: "nat \<Rightarrow> unit emu \<Rightarrow> unit emu" where
  "repeat_emu 0 body = State_Monad.return ()"
| "repeat_emu (Suc n) body = do { body; repeat_emu n body }"

text \<open>The level loop of ENTER runs \<open>nesting - 1\<close> times.\<close>

definition x86emuOp_enter :: "unit emu" where
  "x86emuOp_enter = instr (do {
     local \<leftarrow> fetch_word_imm;
     nesting \<leftarrow> fetch_byte_imm;
     bp \<leftarrow> gets R_BP; push_word bp;
     frame_pointer \<leftarrow> gets R_SP;
     emu_when (nesting > 0) (do {
       repeat_emu (unat nesting - 1) (do {
         upd (\<lambda>m. wr16 rEBP (R_BP m - 2) m);
         ss \<leftarrow> gets R_SS; bp \<leftarrow> gets R_BP;
         v \<leftarrow> fetch_data_word_abs ss (ucast bp);
         push_word v });
       push_word frame_pointer });
     upd (wr16 rEBP frame_pointer);
     upd (\<lambda>m. set_SP (R_SP m - local) m) })"

definition x86emuOp_leave :: "unit emu" where
  "x86emuOp_leave = instr (do {
     upd (\<lambda>m. set_SP (R_BP m) m);
     v \<leftarrow> pop_word; upd (wr16 rEBP v) })"

section \<open>Transfer of control\<close>

text \<open>A jump to a byte distance, taken when the condition holds of the flags.\<close>

definition jump_near_if :: "(x86 \<Rightarrow> bool) \<Rightarrow> unit emu" where
  "jump_near_if cond = instr (do {
     offset \<leftarrow> fetch_byte_imm;
     target \<leftarrow> gets (\<lambda>m. R_IP m + sext8 offset);
     c \<leftarrow> gets cond;
     emu_when c (upd (set_IP target)) })"

definition x86emuOp_jump_near_O :: "unit emu" where
  "x86emuOp_jump_near_O = jump_near_if (\<lambda>m. ACCESS_FLAG F_OF m)"

definition x86emuOp_jump_near_NO :: "unit emu" where
  "x86emuOp_jump_near_NO = jump_near_if (\<lambda>m. \<not> ACCESS_FLAG F_OF m)"

definition x86emuOp_jump_near_B :: "unit emu" where
  "x86emuOp_jump_near_B = jump_near_if (\<lambda>m. ACCESS_FLAG F_CF m)"

definition x86emuOp_jump_near_NB :: "unit emu" where
  "x86emuOp_jump_near_NB = jump_near_if (\<lambda>m. \<not> ACCESS_FLAG F_CF m)"

definition x86emuOp_jump_near_Z :: "unit emu" where
  "x86emuOp_jump_near_Z = jump_near_if (\<lambda>m. ACCESS_FLAG F_ZF m)"

definition x86emuOp_jump_near_NZ :: "unit emu" where
  "x86emuOp_jump_near_NZ = jump_near_if (\<lambda>m. \<not> ACCESS_FLAG F_ZF m)"

definition x86emuOp_jump_near_BE :: "unit emu" where
  "x86emuOp_jump_near_BE = jump_near_if (\<lambda>m. ACCESS_FLAG F_CF m \<or> ACCESS_FLAG F_ZF m)"

definition x86emuOp_jump_near_NBE :: "unit emu" where
  "x86emuOp_jump_near_NBE = jump_near_if (\<lambda>m. \<not> (ACCESS_FLAG F_CF m \<or> ACCESS_FLAG F_ZF m))"

definition x86emuOp_jump_near_S :: "unit emu" where
  "x86emuOp_jump_near_S = jump_near_if (\<lambda>m. ACCESS_FLAG F_SF m)"

definition x86emuOp_jump_near_NS :: "unit emu" where
  "x86emuOp_jump_near_NS = jump_near_if (\<lambda>m. \<not> ACCESS_FLAG F_SF m)"

definition x86emuOp_jump_near_P :: "unit emu" where
  "x86emuOp_jump_near_P = jump_near_if (\<lambda>m. ACCESS_FLAG F_PF m)"

definition x86emuOp_jump_near_NP :: "unit emu" where
  "x86emuOp_jump_near_NP = jump_near_if (\<lambda>m. \<not> ACCESS_FLAG F_PF m)"

definition x86emuOp_jump_near_L :: "unit emu" where
  "x86emuOp_jump_near_L = jump_near_if (\<lambda>m. ACCESS_FLAG F_SF m \<noteq> ACCESS_FLAG F_OF m)"

definition x86emuOp_jump_near_NL :: "unit emu" where
  "x86emuOp_jump_near_NL = jump_near_if (\<lambda>m. ACCESS_FLAG F_SF m = ACCESS_FLAG F_OF m)"

definition x86emuOp_jump_near_LE :: "unit emu" where
  "x86emuOp_jump_near_LE = jump_near_if (\<lambda>m. ACCESS_FLAG F_SF m \<noteq> ACCESS_FLAG F_OF m \<or> ACCESS_FLAG F_ZF m)"

definition x86emuOp_jump_near_NLE :: "unit emu" where
  "x86emuOp_jump_near_NLE = jump_near_if (\<lambda>m. ACCESS_FLAG F_SF m = ACCESS_FLAG F_OF m \<and> \<not> ACCESS_FLAG F_ZF m)"

definition loop_if :: "(x86 \<Rightarrow> bool) \<Rightarrow> unit emu" where
  "loop_if cond = instr (do {
     b \<leftarrow> fetch_byte_imm;
     ip \<leftarrow> gets (\<lambda>m. sext8 b + R_IP m);
     upd (\<lambda>m. wr16 rECX (R_CX m - 1) m);
     c \<leftarrow> gets (\<lambda>m. R_CX m \<noteq> 0 \<and> cond m);
     emu_when c (upd (set_IP ip)) })"

definition x86emuOp_loopne :: "unit emu" where
  "x86emuOp_loopne = loop_if (\<lambda>m. \<not> ACCESS_FLAG F_ZF m)"

definition x86emuOp_loope :: "unit emu" where
  "x86emuOp_loope = loop_if (\<lambda>m. ACCESS_FLAG F_ZF m)"

definition x86emuOp_loop :: "unit emu" where
  "x86emuOp_loop = loop_if (\<lambda>m. True)"

definition x86emuOp_jcxz :: "unit emu" where
  "x86emuOp_jcxz = jump_near_if (\<lambda>m. R_CX m = 0)"

definition x86emuOp_jump_byte_IMM :: "unit emu" where
  "x86emuOp_jump_byte_IMM = jump_near_if (\<lambda>m. True)"

definition x86emuOp_jump_near_IMM :: "unit emu" where
  "x86emuOp_jump_near_IMM = instr (do { w \<leftarrow> fetch_word_imm; upd (\<lambda>m. set_IP (w + R_IP m) m) })"

definition x86emuOp_jump_far_IMM :: "unit emu" where
  "x86emuOp_jump_far_IMM = instr (do {
     ip \<leftarrow> fetch_word_imm;
     cs \<leftarrow> fetch_word_imm;
     upd (set_IP ip); upd (wrsr rCS cs) })"

definition x86emuOp_call_near_IMM :: "unit emu" where
  "x86emuOp_call_near_IMM = instr (do {
     w \<leftarrow> fetch_word_imm;
     target \<leftarrow> gets (\<lambda>m. w + R_IP m);
     ip \<leftarrow> gets R_IP; push_word ip;
     upd (set_IP target) })"

definition x86emuOp_call_far_IMM :: "unit emu" where
  "x86emuOp_call_far_IMM = instr (do {
     faroff \<leftarrow> fetch_word_imm;
     farseg \<leftarrow> fetch_word_imm;
     cs \<leftarrow> gets R_CS; push_word cs; upd (wrsr rCS farseg);
     ip \<leftarrow> gets R_IP; push_word ip; upd (set_IP faroff) })"

definition x86emuOp_ret_near_IMM :: "unit emu" where
  "x86emuOp_ret_near_IMM = instr (do {
     imm \<leftarrow> fetch_word_imm;
     ip \<leftarrow> pop_word; upd (set_IP ip);
     upd (\<lambda>m. set_SP (R_SP m + imm) m) })"

definition x86emuOp_ret_near :: "unit emu" where
  "x86emuOp_ret_near = instr (do { ip \<leftarrow> pop_word; upd (set_IP ip) })"

definition x86emuOp_ret_far_IMM :: "unit emu" where
  "x86emuOp_ret_far_IMM = instr (do {
     imm \<leftarrow> fetch_word_imm;
     ip \<leftarrow> pop_word; upd (set_IP ip);
     cs \<leftarrow> pop_word; upd (wrsr rCS cs);
     upd (\<lambda>m. set_SP (R_SP m + imm) m) })"

definition x86emuOp_ret_far :: "unit emu" where
  "x86emuOp_ret_far = instr (do {
     ip \<leftarrow> pop_word; upd (set_IP ip);
     cs \<leftarrow> pop_word; upd (wrsr rCS cs) })"

text \<open>No interrupt hook is ever set in \<open>_X86EMU_intrTab\<close>, so the instructions always go through the vector table.\<close>

definition x86emuOp_int3 :: "unit emu" where
  "x86emuOp_int3 = instr (enter_interrupt 3)"

definition x86emuOp_int_IMM :: "unit emu" where
  "x86emuOp_int_IMM = instr (do { intnum \<leftarrow> fetch_byte_imm; enter_interrupt intnum })"

definition x86emuOp_into :: "unit emu" where
  "x86emuOp_into = instr (do { ovf \<leftarrow> gets (ACCESS_FLAG F_OF); emu_when ovf (enter_interrupt 4) })"

definition x86emuOp_iret :: "unit emu" where
  "x86emuOp_iret = instr (do {
     ip \<leftarrow> pop_word; upd (set_IP ip);
     cs \<leftarrow> pop_word; upd (wrsr rCS cs);
     flg \<leftarrow> pop_word; upd (\<lambda>m. m\<lparr>FLAGS := ucast flg\<rparr>) })"

section \<open>Flags, halt and the rest\<close>

definition x86emuOp_cmc :: "unit emu" where
  "x86emuOp_cmc = instr (upd (TOGGLE_FLAG F_CF))"

definition x86emuOp_clc :: "unit emu" where
  "x86emuOp_clc = instr (upd (CLEAR_FLAG F_CF))"

definition x86emuOp_stc :: "unit emu" where
  "x86emuOp_stc = instr (upd (SET_FLAG F_CF))"

definition x86emuOp_cli :: "unit emu" where
  "x86emuOp_cli = instr (upd (CLEAR_FLAG F_IF))"

definition x86emuOp_sti :: "unit emu" where
  "x86emuOp_sti = instr (upd (SET_FLAG F_IF))"

definition x86emuOp_cld :: "unit emu" where
  "x86emuOp_cld = instr (upd (CLEAR_FLAG F_DF))"

definition x86emuOp_std :: "unit emu" where
  "x86emuOp_std = instr (upd (SET_FLAG F_DF))"

definition x86emuOp_halt :: "unit emu" where
  "x86emuOp_halt = instr HALT_SYS"

definition x86emuOp_wait :: "unit emu" where
  "x86emuOp_wait = instr (State_Monad.return ())"

definition x86emuOp_lock :: "unit emu" where
  "x86emuOp_lock = instr (State_Monad.return ())"

text \<open>Both branches of the C code halt the machine.\<close>

definition x86emuOp_illegal_op :: "unit emu" where
  "x86emuOp_illegal_op = HALT_SYS"

section \<open>Ports\<close>

definition x86emuOp_in_byte_AL_IMM :: "unit emu" where
  "x86emuOp_in_byte_AL_IMM = instr (do { port \<leftarrow> fetch_byte_imm; v \<leftarrow> sys_inb (ucast port); upd (wr8 rAL v) })"

definition x86emuOp_in_word_AX_IMM :: "unit emu" where
  "x86emuOp_in_word_AX_IMM = instr (do {
     port \<leftarrow> fetch_byte_imm;
     sized (do { v \<leftarrow> sys_inl (ucast port); upd (wr32 rEAX v) })
       (do { v \<leftarrow> sys_inw (ucast port); upd (wr16 rEAX v) }) })"

definition x86emuOp_out_byte_IMM_AL :: "unit emu" where
  "x86emuOp_out_byte_IMM_AL = instr (do { port \<leftarrow> fetch_byte_imm; v \<leftarrow> gets R_AL; sys_outb (ucast port) v })"

definition x86emuOp_out_word_IMM_AX :: "unit emu" where
  "x86emuOp_out_word_IMM_AX = instr (do {
     port \<leftarrow> fetch_byte_imm;
     sized (do { v \<leftarrow> gets gA; sys_outl (ucast port) v })
       (do { v \<leftarrow> gets R_AX; sys_outw (ucast port) v }) })"

definition x86emuOp_in_byte_AL_DX :: "unit emu" where
  "x86emuOp_in_byte_AL_DX = instr (do { dx \<leftarrow> gets R_DX; v \<leftarrow> sys_inb dx; upd (wr8 rAL v) })"

definition x86emuOp_in_word_AX_DX :: "unit emu" where
  "x86emuOp_in_word_AX_DX = instr (do {
     dx \<leftarrow> gets R_DX;
     sized (do { v \<leftarrow> sys_inl dx; upd (wr32 rEAX v) }) (do { v \<leftarrow> sys_inw dx; upd (wr16 rEAX v) }) })"

definition x86emuOp_out_byte_DX_AL :: "unit emu" where
  "x86emuOp_out_byte_DX_AL = instr (do { dx \<leftarrow> gets R_DX; v \<leftarrow> gets R_AL; sys_outb dx v })"

definition x86emuOp_out_word_DX_AX :: "unit emu" where
  "x86emuOp_out_word_DX_AX = instr (do {
     dx \<leftarrow> gets R_DX;
     sized (do { v \<leftarrow> gets gA; sys_outl dx v }) (do { v \<leftarrow> gets R_AX; sys_outw dx v }) })"

section \<open>String instructions\<close>

text \<open>The step of SI and DI: the element size, downwards when the direction flag is set.\<close>

definition str_inc :: "nat \<Rightarrow> x86 \<Rightarrow> u16" where
  "str_inc sz m = (if ACCESS_FLAG F_DF m then - word_of_nat sz else word_of_nat sz)"

definition add_SI :: "u16 \<Rightarrow> unit emu" where
  "add_SI inc = upd (\<lambda>m. wr16 rESI (R_SI m + inc) m)"

definition add_DI :: "u16 \<Rightarrow> unit emu" where
  "add_DI inc = upd (\<lambda>m. wr16 rEDI (R_DI m + inc) m)"

definition dec_CX :: "unit emu" where
  "dec_CX = upd (\<lambda>m. wr16 rECX (R_CX m - 1) m)"

definition SYSMODE_REP :: "u32" where
  "SYSMODE_REP = SYSMODE_PREFIX_REPE OR SYSMODE_PREFIX_REPNE"

text \<open>\<open>MOVS\<close>, \<open>STOS\<close> of words and \<open>LODS\<close> of words take the count from CX, clear CX, and loop on the count.\<close>

definition rep_count :: "unit emu \<Rightarrow> unit emu" where
  "rep_count body = do {
     rep \<leftarrow> gets (mode_is SYSMODE_REP);
     (if rep then do {
        count \<leftarrow> gets R_CX;
        upd (wr16 rECX 0);
        mode_clear SYSMODE_REP;
        repeat_emu (unat count) body }
      else body) }"

text \<open>
  The others loop while CX is not zero, and those that compare stop on the zero flag.  The loop in the
  source has no bound of its own.  The model gives it as many iterations as CX counts at the start, and
  a loop that is not over by then is one that never ends, since only a body that does not count CX down
  gets there: the emulator is marked as stuck by \<open>fault\<close>, the mark of a run that does not come back.
  That no handler gets there is part of \<open>X86Flow.x86_repeat_ends\<close>.
\<close>

primrec rep_cx :: "nat \<Rightarrow> unit emu \<Rightarrow> (x86 \<Rightarrow> bool) \<Rightarrow> unit emu" where
  "rep_cx 0 body stop = do { cx \<leftarrow> gets R_CX; emu_when (cx \<noteq> 0) emu_trap }"
| "rep_cx (Suc n) body stop = do {
     cx \<leftarrow> gets R_CX;
     (if cx = 0 then State_Monad.return ()
      else do { body; c \<leftarrow> gets stop; (if c then State_Monad.return () else rep_cx n body stop) }) }"

definition rep_while :: "unit emu \<Rightarrow> (x86 \<Rightarrow> bool) \<Rightarrow> unit emu" where
  "rep_while body stop = do { cx \<leftarrow> gets R_CX; rep_cx (unat cx) body stop }"

definition x86emuOp_movs_byte :: "unit emu" where
  "x86emuOp_movs_byte = instr (do {
     inc \<leftarrow> gets (str_inc 1);
     rep_count (do {
       si \<leftarrow> gets R_SI; val \<leftarrow> fetch_data_byte (ucast si);
       es \<leftarrow> gets R_ES; di \<leftarrow> gets R_DI; store_data_byte_abs es (ucast di) val;
       add_SI inc; add_DI inc }) })"

definition x86emuOp_movs_word :: "unit emu" where
  "x86emuOp_movs_word = instr (do {
     inc \<leftarrow> sized (gets (str_inc 4)) (gets (str_inc 2));
     rep_count (do {
       si \<leftarrow> gets R_SI; es \<leftarrow> gets R_ES; di \<leftarrow> gets R_DI;
       sized (do { val \<leftarrow> fetch_data_long (ucast si); store_data_long_abs es (ucast di) val })
         (do { val \<leftarrow> fetch_data_word (ucast si); store_data_word_abs es (ucast di) val });
       add_SI inc; add_DI inc }) })"

text \<open>One comparison of CMPS and of SCAS.\<close>

definition cmps_byte_item :: "unit emu" where
  "cmps_byte_item = do {
     si \<leftarrow> gets R_SI; val1 \<leftarrow> fetch_data_byte (ucast si);
     es \<leftarrow> gets R_ES; di \<leftarrow> gets R_DI; val2 \<leftarrow> fetch_data_byte_abs es (ucast di);
     upd (only_snd cmp_byte val1 val2) }"

definition cmps_word_item :: "unit emu" where
  "cmps_word_item = do {
     si \<leftarrow> gets R_SI; es \<leftarrow> gets R_ES; di \<leftarrow> gets R_DI;
     sized (do { val1 \<leftarrow> fetch_data_long (ucast si); val2 \<leftarrow> fetch_data_long_abs es (ucast di);
                 upd (only_snd cmp_long val1 val2) })
       (do { val1 \<leftarrow> fetch_data_word (ucast si); val2 \<leftarrow> fetch_data_word_abs es (ucast di);
             upd (only_snd cmp_word val1 val2) }) }"

definition scas_byte_item :: "unit emu" where
  "scas_byte_item = do {
     es \<leftarrow> gets R_ES; di \<leftarrow> gets R_DI; val2 \<leftarrow> fetch_data_byte_abs es (ucast di);
     al \<leftarrow> gets R_AL; upd (only_snd cmp_byte al val2) }"

definition scas_word_item :: "unit emu" where
  "scas_word_item = do {
     es \<leftarrow> gets R_ES; di \<leftarrow> gets R_DI;
     sized (do { val \<leftarrow> fetch_data_long_abs es (ucast di); a \<leftarrow> gets gA; upd (only_snd cmp_long a val) })
       (do { val \<leftarrow> fetch_data_word_abs es (ucast di); a \<leftarrow> gets R_AX; upd (only_snd cmp_word a val) }) }"

definition rep_compare :: "unit emu \<Rightarrow> unit emu \<Rightarrow> unit emu" where
  "rep_compare item step = do {
     repe \<leftarrow> gets (mode_is SYSMODE_PREFIX_REPE);
     repne \<leftarrow> gets (mode_is SYSMODE_PREFIX_REPNE);
     (if repe then do {
        rep_while (do { item; dec_CX; step }) (\<lambda>m. \<not> ACCESS_FLAG F_ZF m);
        mode_clear SYSMODE_PREFIX_REPE }
      else if repne then do {
        rep_while (do { item; dec_CX; step }) (ACCESS_FLAG F_ZF);
        mode_clear SYSMODE_PREFIX_REPNE }
      else do { item; step }) }"

definition x86emuOp_cmps_byte :: "unit emu" where
  "x86emuOp_cmps_byte = instr (do {
     inc \<leftarrow> gets (str_inc 1);
     rep_compare cmps_byte_item (do { add_SI inc; add_DI inc }) })"

definition x86emuOp_cmps_word :: "unit emu" where
  "x86emuOp_cmps_word = instr (do {
     inc \<leftarrow> sized (gets (str_inc 4)) (gets (str_inc 2));
     rep_compare cmps_word_item (do { add_SI inc; add_DI inc }) })"

definition x86emuOp_scas_byte :: "unit emu" where
  "x86emuOp_scas_byte = instr (do { inc \<leftarrow> gets (str_inc 1); rep_compare scas_byte_item (add_DI inc) })"

definition x86emuOp_scas_word :: "unit emu" where
  "x86emuOp_scas_word = instr (do {
     inc \<leftarrow> sized (gets (str_inc 4)) (gets (str_inc 2));
     rep_compare scas_word_item (add_DI inc) })"

definition rep_plain :: "unit emu \<Rightarrow> unit emu \<Rightarrow> unit emu" where
  "rep_plain item step = do {
     rep \<leftarrow> gets (mode_is SYSMODE_REP);
     (if rep then do {
        rep_while (do { item; dec_CX; step }) (\<lambda>m. False);
        mode_clear SYSMODE_REP }
      else do { item; step }) }"

definition stos_byte_item :: "unit emu" where
  "stos_byte_item = do { es \<leftarrow> gets R_ES; di \<leftarrow> gets R_DI; al \<leftarrow> gets R_AL; store_data_byte_abs es (ucast di) al }"

definition lods_byte_item :: "unit emu" where
  "lods_byte_item = do { si \<leftarrow> gets R_SI; v \<leftarrow> fetch_data_byte (ucast si); upd (wr8 rAL v) }"

definition x86emuOp_stos_byte :: "unit emu" where
  "x86emuOp_stos_byte = instr (do { inc \<leftarrow> gets (str_inc 1); rep_plain stos_byte_item (add_DI inc) })"

definition x86emuOp_stos_word :: "unit emu" where
  "x86emuOp_stos_word = instr (do {
     inc \<leftarrow> sized (gets (str_inc 4)) (gets (str_inc 2));
     rep_count (do {
       es \<leftarrow> gets R_ES; di \<leftarrow> gets R_DI;
       sized (do { a \<leftarrow> gets gA; store_data_long_abs es (ucast di) a })
         (do { a \<leftarrow> gets R_AX; store_data_word_abs es (ucast di) a });
       add_DI inc }) })"

definition x86emuOp_lods_byte :: "unit emu" where
  "x86emuOp_lods_byte = instr (do { inc \<leftarrow> gets (str_inc 1); rep_plain lods_byte_item (add_SI inc) })"

definition x86emuOp_lods_word :: "unit emu" where
  "x86emuOp_lods_word = instr (do {
     inc \<leftarrow> sized (gets (str_inc 4)) (gets (str_inc 2));
     rep_count (do {
       si \<leftarrow> gets R_SI;
       sized (do { v \<leftarrow> fetch_data_long (ucast si); upd (wr32 rEAX v) })
         (do { v \<leftarrow> fetch_data_word (ucast si); upd (wr16 rEAX v) });
       add_SI inc }) })"

text \<open>Port strings: one element, and the loop.  The loop of the four byte size leaves after one element.\<close>

definition ins_item :: "nat \<Rightarrow> unit emu" where
  "ins_item sz = do {
     es \<leftarrow> gets R_ES; di \<leftarrow> gets R_DI; dx \<leftarrow> gets R_DX;
     (if sz = 1 then do { v \<leftarrow> sys_inb dx; store_data_byte_abs es (ucast di) v }
      else if sz = 2 then do { v \<leftarrow> sys_inw dx; store_data_word_abs es (ucast di) v }
      else do { v \<leftarrow> sys_inl dx; store_data_long_abs es (ucast di) v }) }"

definition outs_item :: "nat \<Rightarrow> unit emu" where
  "outs_item sz = do {
     es \<leftarrow> gets R_ES; si \<leftarrow> gets R_SI; dx \<leftarrow> gets R_DX;
     (if sz = 1 then do { v \<leftarrow> fetch_data_byte_abs es (ucast si); sys_outb dx v }
      else if sz = 2 then do { v \<leftarrow> fetch_data_word_abs es (ucast si); sys_outw dx v }
      else do { v \<leftarrow> fetch_data_long_abs es (ucast si); sys_outl dx v }) }"

definition rep_port :: "nat \<Rightarrow> unit emu \<Rightarrow> unit emu \<Rightarrow> unit emu" where
  "rep_port sz body step = do {
     rep \<leftarrow> gets (mode_is SYSMODE_REP);
     (if rep then do {
        count \<leftarrow> sized (gets gC) (gets (\<lambda>m. ucast (R_CX m)));
        (if sz = 4 then emu_when (count \<noteq> 0) (do { body; step })
         else repeat_emu (unat count) (do { body; step }));
        upd (wr16 rECX 0);
        sized (upd (wr32 rECX 0)) (State_Monad.return ());
        mode_clear SYSMODE_REP }
      else do { body; step }) }"

definition ins :: "nat \<Rightarrow> unit emu" where
  "ins sz = do {
     inc \<leftarrow> gets (str_inc sz);
     rep_port sz (ins_item sz) (add_DI inc) }"

definition outs :: "nat \<Rightarrow> unit emu" where
  "outs sz = do {
     inc \<leftarrow> gets (str_inc sz);
     rep_port sz (outs_item sz) (add_SI inc) }"

definition x86emuOp_ins_byte :: "unit emu" where
  "x86emuOp_ins_byte = instr (ins 1)"

definition x86emuOp_ins_word :: "unit emu" where
  "x86emuOp_ins_word = instr (sized (ins 4) (ins 2))"

definition x86emuOp_outs_byte :: "unit emu" where
  "x86emuOp_outs_byte = instr (outs 1)"

definition x86emuOp_outs_word :: "unit emu" where
  "x86emuOp_outs_word = instr (sized (outs 4) (outs 2))"

section \<open>Coprocessor escapes\<close>

text \<open>Without the macro \<open>X86EMU_FPU_PRESENT\<close> the escapes only skip their operand, and the first not even that.\<close>

definition x86emuOp_esc_coprocess_d8 :: "unit emu" where
  "x86emuOp_esc_coprocess_d8 = instr (State_Monad.return ())"

definition skip_operand :: "modrm \<Rightarrow> unit emu" where
  "skip_operand = (\<lambda>(md, rh, rl). emu_when (md < 3) (do { _ \<leftarrow> decode_rm_address md rl; State_Monad.return () }))"

definition x86emuOp_esc_coprocess_d9 :: "unit emu" where
  "x86emuOp_esc_coprocess_d9 = instr_rm skip_operand"

definition x86emuOp_esc_coprocess_da :: "unit emu" where
  "x86emuOp_esc_coprocess_da = instr_rm skip_operand"

definition x86emuOp_esc_coprocess_db :: "unit emu" where
  "x86emuOp_esc_coprocess_db = instr_rm skip_operand"

definition x86emuOp_esc_coprocess_dc :: "unit emu" where
  "x86emuOp_esc_coprocess_dc = instr_rm skip_operand"

definition x86emuOp_esc_coprocess_dd :: "unit emu" where
  "x86emuOp_esc_coprocess_dd = instr_rm skip_operand"

definition x86emuOp_esc_coprocess_de :: "unit emu" where
  "x86emuOp_esc_coprocess_de = instr_rm skip_operand"

definition x86emuOp_esc_coprocess_df :: "unit emu" where
  "x86emuOp_esc_coprocess_df = instr_rm skip_operand"

end
