(* ===== verification/X86Addr.thy ===== *)
theory X86Addr
  imports X86Operand
begin

text \<open>Which byte of memory a ModRM operand names.\<close>

section \<open>Reference\<close>

text \<open>The table of 16 bit addressing forms, and the displacement that follows the ModRM byte.\<close>

definition ea16 :: "nat \<Rightarrow> x86 \<Rightarrow> u16" where
  "ea16 rm m = [R_BX m + R_SI m, R_BX m + R_DI m, R_BP m + R_SI m, R_BP m + R_DI m,
     R_SI m, R_DI m, R_BP m, R_BX m] ! rm"

definition disp16 :: "nat \<Rightarrow> x86 \<Rightarrow> u16" where
  "disp16 md m = (if md = 0 then 0 else if md = 1 then scast (mem8 m (code_addr m)) else mem16 m (code_addr m))"

text \<open>Forms with BP use the stack segment.\<close>

definition ea16_stack :: "nat \<Rightarrow> nat \<Rightarrow> bool" where
  "ea16_stack md rm \<longleftrightarrow> rm = 2 \<or> rm = 3 \<or> (rm = 6 \<and> md \<noteq> 0)"

definition ea16_offset :: "nat \<Rightarrow> nat \<Rightarrow> x86 \<Rightarrow> u16" where
  "ea16_offset md rm m = (if md = 0 \<and> rm = 6 then mem16 m (code_addr m) else ea16 rm m + disp16 md m)"

definition ea16_length :: "nat \<Rightarrow> nat \<Rightarrow> u16" where
  "ea16_length md rm = (if md = 0 \<and> rm = 6 then 2 else word_of_nat md)"

definition after_ea16 :: "nat \<Rightarrow> nat \<Rightarrow> x86 \<Rightarrow> x86" where
  "after_ea16 md rm m = m\<lparr>gIP := put_lo16 (R_IP m + ea16_length md rm) (gIP m),
     mode := (if ea16_stack md rm then mode m OR SYSMODE_SEG_DS_SS else mode m)\<rparr>"

section \<open>The decoder computes it\<close>

lemma cut16_eq: "cut16 x = ucast (ucast x :: u16)"
  unfolding cut16_def low_masks by (rule bit_word_eqI) (auto simp: bit_simps)

lemma ucast16_add: "(ucast (x + y :: u32) :: u16) = ucast x + ucast y"
proof -
  have "take_bit 16 (take_bit 32 a + take_bit 32 b) = take_bit 16 (a + b)" for a b :: int
    using take_bit_add [of 16 "take_bit 32 a" "take_bit 32 b"] take_bit_add [of 16 a b]
    by (simp add: take_bit_take_bit)
  then show ?thesis by transfer (simp add: take_bit_take_bit)
qed

lemma ucast16_back: "(ucast (ucast a :: u32) :: u16) = a" "(ucast (scast (e :: u8) :: u32) :: u16) = scast e"
  by (rule bit_word_eqI, simp add: bit_simps, rule bit_word_eqI, auto simp: bit_simps)

lemma cut16_sums:
  "cut16 (ucast (a :: u16) + ucast (b :: u16)) = ucast (a + b)"
  "cut16 (ucast a + ucast b + ucast (d :: u16)) = ucast (a + b + d)"
  "cut16 (ucast a + ucast b + scast (e :: u8)) = ucast (a + b + scast e)"
  "cut16 (ucast a + scast e) = ucast (a + scast e)"
  by (simp_all add: cut16_eq ucast16_add ucast16_back)

lemma less_8: "(rm :: nat) < 8 \<Longrightarrow> rm = 0 \<or> rm = 1 \<or> rm = 2 \<or> rm = 3 \<or> rm = 4 \<or> rm = 5 \<or> rm = 6 \<or> rm = 7"
  by auto

lemma decode16:
  assumes "\<not> mode_is SYSMODE_PREFIX_ADDR m" "md < 3" "rm < 8"
  shows "run_state (decode_rm_address md rm) m = (ucast (ea16_offset md rm m), after_ea16 md rm m)"
proof -
  from \<open>md < 3\<close> consider "md = 0" | "md = 1" | "md = 2" by linarith
  then show ?thesis
  proof cases
    case 1
    with assms show ?thesis
      using less_8 [OF assms(3)]
      by (auto simp: decode_rm_address_def decode_rm00_address_def emu_run ea16_offset_def after_ea16_def ea16_def disp16_def
        ea16_length_def ea16_stack_def cut16_sums)
  next
    case 2
    with assms show ?thesis
      using less_8 [OF assms(3)]
      by (auto simp: decode_rm_address_def decode_rm01_address_def rm16_sum_def sext8_def emu_run ea16_offset_def after_ea16_def ea16_def disp16_def
        ea16_length_def ea16_stack_def cut16_sums)
  next
    case 3
    with assms show ?thesis
      using less_8 [OF assms(3)]
      by (auto simp: decode_rm_address_def decode_rm10_address_def rm16_sum_def emu_run ea16_offset_def after_ea16_def ea16_def disp16_def
        ea16_length_def ea16_stack_def cut16_sums)
  qed
qed

section \<open>Segments\<close>

primrec override_bit :: "sreg \<Rightarrow> u32" where
  "override_bit rES = SYSMODE_SEGOVR_ES" | "override_bit rCS = SYSMODE_SEGOVR_CS" | "override_bit rSS = SYSMODE_SEGOVR_SS"
| "override_bit rDS = SYSMODE_SEGOVR_DS" | "override_bit rFS = SYSMODE_SEGOVR_FS" | "override_bit rGS = SYSMODE_SEGOVR_GS"

text \<open>The mode word after the prefixes of an instruction with at most one segment override.\<close>

definition seg_prefix :: "sreg option \<Rightarrow> x86 \<Rightarrow> bool" where
  "seg_prefix ov m \<longleftrightarrow> mode m AND SYSMODE_SEGMASK = (case ov of None \<Rightarrow> 0 | Some s \<Rightarrow> override_bit s)"

definition operand_seg :: "sreg option \<Rightarrow> bool \<Rightarrow> x86 \<Rightarrow> u16" where
  "operand_seg ov stack m = (case ov of Some s \<Rightarrow> rdsr s m | None \<Rightarrow> if stack then R_SS m else R_DS m)"

lemma override_numbers:
  "override_bit s = 0x8 \<and> s = rES \<or> override_bit s = 0x2 \<and> s = rCS \<or> override_bit s = 0x40 \<and> s = rSS \<or>
   override_bit s = 0x4 \<and> s = rDS \<or> override_bit s = 0x10 \<and> s = rFS \<or> override_bit s = 0x20 \<and> s = rGS"
  by (cases s) (simp_all add: sysmode_defs)

lemma segment_selected:
  assumes "mode m AND SYSMODE_SEGMASK =
    (case ov of None \<Rightarrow> 0 | Some s \<Rightarrow> override_bit s) OR (if st then SYSMODE_SEG_DS_SS else 0)"
  shows "run_state get_data_segment m = (ucast (operand_seg ov st m), m)"
proof (cases ov)
  case None
  with assms show ?thesis
    by (cases st) (simp_all add: get_data_segment_def emu_run operand_seg_def sysmode_defs)
next
  case (Some s)
  with assms show ?thesis
    by (cases st; cases s; simp add: get_data_segment_def emu_run operand_seg_def sysmode_defs)
qed

lemma segment_after_ea16:
  assumes "seg_prefix ov m"
  shows "run_state get_data_segment (after_ea16 md rm m) = (ucast (operand_seg ov (ea16_stack md rm) m), after_ea16 md rm m)"
proof -
  have "SYSMODE_SEG_DS_SS AND SYSMODE_SEGMASK = SYSMODE_SEG_DS_SS" by (simp add: sysmode_masks sysmode_defs mask_eq_exp_minus_1)
  with assms have "mode (after_ea16 md rm m) AND SYSMODE_SEGMASK =
    (case ov of None \<Rightarrow> 0 | Some s \<Rightarrow> override_bit s) OR (if ea16_stack md rm then SYSMODE_SEG_DS_SS else 0)"
    by (simp add: seg_prefix_def after_ea16_def and.commute [of _ SYSMODE_SEGMASK] bit.conj_disj_distrib)
  from segment_selected [OF this] show ?thesis
    by (cases ov) (simp_all add: operand_seg_def after_ea16_def, cases "the ov", simp_all)
qed

definition operand_addr :: "sreg option \<Rightarrow> nat \<Rightarrow> nat \<Rightarrow> x86 \<Rightarrow> u32" where
  "operand_addr ov md rm m = push_bit 4 (ucast (operand_seg ov (ea16_stack md rm) m)) + ucast (ea16_offset md rm m)"

text \<open>A 16 bit memory operand with at most one segment override.\<close>

definition mem_operand :: "sreg option \<Rightarrow> nat \<Rightarrow> nat \<Rightarrow> x86 \<Rightarrow> bool" where
  "mem_operand ov md rm m \<longleftrightarrow> \<not> mode_is SYSMODE_PREFIX_ADDR m \<and> seg_prefix ov m \<and> md < 3 \<and> rm < 8"

lemma run_if: "run_state (if c then a else b) m = (if c then run_state a m else run_state b m)"
  by simp

lemma segment_flags_update:
  "run_state get_data_segment (m\<lparr>FLAGS := f\<rparr>) = apsnd (\<lambda>m. m\<lparr>FLAGS := f\<rparr>) (run_state get_data_segment m)"
  unfolding get_data_segment_def by (simp add: emu_run run_if if_distrib [of "apsnd _"] cong: if_cong)

lemma segment_only_flags:
  assumes "only_flags m m'" "run_state get_data_segment m = (s, m)"
  shows "run_state get_data_segment m' = (s, m')"
proof -
  from assms(1) obtain f where "m' = m\<lparr>FLAGS := f\<rparr>" unfolding only_flags_def by blast
  with assms(2) show ?thesis by (simp add: segment_flags_update)
qed

section \<open>Operand sizes\<close>

text \<open>An operation that computes from its operands and the flags, and changes the flags only.\<close>

definition alu_flags :: "('v \<Rightarrow> 'w \<Rightarrow> x86 \<Rightarrow> 'u \<times> x86) \<Rightarrow> bool" where
  "alu_flags f \<longleftrightarrow> (\<forall>d s m. only_flags m (snd (f d s m)))"

text \<open>
  What an operand size provides: its accessors reach memory at the selected segment, and its
  registers can be read independently of the instruction pointer, the mode and the flags.
\<close>

locale operand_size =
  fixes w :: "'w operand" and ld :: "x86 \<Rightarrow> u32 \<Rightarrow> 'w" and st :: "u32 \<Rightarrow> 'w \<Rightarrow> x86 \<Rightarrow> x86"
  assumes fetch_mem: "run_state get_data_segment m = (s, m) \<Longrightarrow> run_state (o_fetch w off) m = (ld m (push_bit 4 s + off), m)"
    and store_mem: "run_state get_data_segment m = (s, m) \<Longrightarrow> run_state (o_store w off v) m = ((), st (push_bit 4 s + off) v m)"
    and ld_ram: "ram m = ram m' \<Longrightarrow> ld m = ld m'"
    and ld_st: "ld (st a v m) a = v"
    and reg_view: "o_rd w r (m\<lparr>gIP := x, mode := y\<rparr>) = o_rd w r m"
    and reg_wr: "r < 8 \<Longrightarrow> o_rd w r (o_wr w r v m) = v"
begin

lemma ld_after: "ld (after_ea16 md rm m) = ld m"
  by (rule ld_ram) (simp add: after_ea16_def)

lemma rd_after: "o_rd w r (after_ea16 md rm m) = o_rd w r m"
  by (simp add: after_ea16_def reg_view)

lemma read_mem:
  assumes "mem_operand ov md rm m"
  shows "run_state (read_rm w md rm) m = (ld m (operand_addr ov md rm m), after_ea16 md rm m)"
  using assms decode16 [of m md rm] fetch_mem [OF segment_after_ea16 [of ov m md rm]]
  by (simp add: mem_operand_def read_rm_def operand_addr_def ld_after)

lemma write_mem:
  assumes "mem_operand ov md rm m"
  shows "run_state (write_rm w md rm (State_Monad.return v)) m =
    ((), st (operand_addr ov md rm m) v (after_ea16 md rm m))"
  using assms decode16 [of m md rm] store_mem [OF segment_after_ea16 [of ov m md rm]]
  by (simp add: mem_operand_def write_rm_def operand_addr_def)

lemma op_RM_R_mem:
  assumes "mem_operand ov md rl m" "alu_flags f"
    and f: "f (ld m (operand_addr ov md rl m)) (o_rd w rh m) (after_ea16 md rl m) = (r, m2)"
  shows "run_state (op_RM_R w f (md, rh, rl)) m = ((), st (operand_addr ov md rl m) r m2)"
proof -
  have seg: "run_state get_data_segment (after_ea16 md rl m) =
      (ucast (operand_seg ov (ea16_stack md rl) m), after_ea16 md rl m)"
    using assms(1) by (intro segment_after_ea16) (simp add: mem_operand_def)
  from assms(2) f have "only_flags (after_ea16 md rl m) m2"
    unfolding alu_flags_def by (metis snd_conv)
  from store_mem [OF segment_only_flags [OF this seg]] fetch_mem [OF seg]
  show ?thesis
    using assms(1) f decode16 [of m md rl]
    by (simp add: mem_operand_def op_RM_R_def modify_rm_def operand_addr_def ld_after rd_after emu_run)
qed

lemma op_R_RM_mem:
  assumes "mem_operand ov md rl m"
    and "f (o_rd w rh m) (ld m (operand_addr ov md rl m)) (after_ea16 md rl m) = (r, m2)"
  shows "run_state (op_R_RM w f (md, rh, rl)) m = ((), o_wr w rh r m2)"
  using assms by (simp add: op_R_RM_def read_mem rd_after emu_run)

end

lemma rd_IP_mode:
  "rd32 r (m\<lparr>gIP := x, mode := y\<rparr>) = rd32 r m" "rd16 r (m\<lparr>gIP := x, mode := y\<rparr>) = rd16 r m"
  "rd8 q (m\<lparr>gIP := x, mode := y\<rparr>) = rd8 q m"
proof -
  show l: "rd32 r (m\<lparr>gIP := x, mode := y\<rparr>) = rd32 r m" by (cases r) simp_all
  show "rd16 r (m\<lparr>gIP := x, mode := y\<rparr>) = rd16 r m" by (simp add: rd16_def l)
  show "rd8 q (m\<lparr>gIP := x, mode := y\<rparr>) = rd8 q m" by (cases q) simp_all
qed

lemma mem_ram: "ram m = ram m' \<Longrightarrow> mem8 m = mem8 m'" "ram m = ram m' \<Longrightarrow> mem16 m = mem16 m'"
  "ram m = ram m' \<Longrightarrow> mem32 m = mem32 m'"
  by (simp_all add: fun_eq_iff mem8_def mem16_def mem32_def)

interpretation byte: operand_size byte_operand mem8 put8
  by unfold_locales (simp_all add: byte_operand_def fetch_data_byte_def store_data_byte_def emu_run rd_IP_mode, erule mem_ram)

interpretation word: operand_size word_operand mem16 put16
  by unfold_locales (simp_all add: word_operand_def fetch_data_word_def store_data_word_def emu_run rd_IP_mode, erule mem_ram)

interpretation long: operand_size long_operand mem32 put32
  by unfold_locales (simp_all add: long_operand_def fetch_data_long_def store_data_long_def emu_run rd_IP_mode, erule mem_ram)

section \<open>Properties\<close>

text \<open>
  C30: For each of the 24 memory forms of 16 bit addressing, with at most one segment override, the decoder
  returns the offset of the reference table, steps over exactly the displacement, and an operand of any size is
  read and written at sixteen times the selected segment (the override, else SS for the forms with BP, else DS)
  plus that offset.
\<close>

theorem x86_memory_operand:
  assumes "mem_operand ov md rm m"
  shows "run_state (decode_rm_address md rm) m = (ucast (ea16_offset md rm m), after_ea16 md rm m) \<and>
    run_state (read_rm byte_operand md rm) m = (mem8 m (operand_addr ov md rm m), after_ea16 md rm m) \<and>
    run_state (read_rm word_operand md rm) m = (mem16 m (operand_addr ov md rm m), after_ea16 md rm m) \<and>
    run_state (read_rm long_operand md rm) m = (mem32 m (operand_addr ov md rm m), after_ea16 md rm m) \<and>
    run_state (write_rm byte_operand md rm (State_Monad.return b)) m = ((), put8 (operand_addr ov md rm m) b (after_ea16 md rm m)) \<and>
    run_state (write_rm word_operand md rm (State_Monad.return v)) m = ((), put16 (operand_addr ov md rm m) v (after_ea16 md rm m)) \<and>
    run_state (write_rm long_operand md rm (State_Monad.return l)) m = ((), put32 (operand_addr ov md rm m) l (after_ea16 md rm m))"
  using assms decode16 [of m md rm] byte.read_mem [OF assms] word.read_mem [OF assms] long.read_mem [OF assms]
    byte.write_mem [OF assms] word.write_mem [OF assms] long.write_mem [OF assms]
  by (simp add: mem_operand_def)

text \<open>ES override, form [BP+SI+disp8] with displacement -2: the offset wraps below zero within the segment.\<close>

theorem x86_memory_operand_witness:
  "let m = x86_zero\<lparr>gBP := 1, R_ES := 0x1000, R_SS := 0x2000, ram := (\<lambda>_. 0xFE), mode := SYSMODE_SEGOVR_ES\<rparr> in
   fst (run_state (decode_rm_address 1 2) m) = 0xFFFF \<and>
   fst (run_state (read_rm byte_operand 1 2) m) = mem8 m 0x1FFFF"
proof -
  let ?m = "x86_zero\<lparr>gBP := 1, R_ES := 0x1000, R_SS := 0x2000, ram := (\<lambda>_. 0xFE), mode := SYSMODE_SEGOVR_ES\<rparr>"
  have "mem_operand (Some rES) 1 2 ?m"
    by (simp add: mem_operand_def mode_is_def seg_prefix_def sysmode_defs sysmode_masks mask_eq_exp_minus_1)
  note t = x86_memory_operand [OF this]
  have e: "ea16_offset 1 2 ?m = 0xFFFF" by code_simp
  then have "operand_addr (Some rES) 1 2 ?m = 0x1FFFF"
    by (simp add: operand_addr_def operand_seg_def)
  with t e show ?thesis by (simp add: Let_def)
qed

text \<open>The 32 bit forms deviate from the processor: a SIB base of EBP takes ESP, a 32 bit displacement on EDX
  selects the stack segment, and one on EBP selects the data segment.
\<close>

theorem x86_addr32_deviations:
  "run_state (decode_sib_address 0x25 1) m = (gSP m, m\<lparr>mode := mode m OR SYSMODE_SEG_DS_SS\<rparr>) \<and>
   mode (snd (run_state (decode_rm10_address 2) (m\<lparr>mode := SYSMODE_PREFIX_ADDR\<rparr>))) = SYSMODE_PREFIX_ADDR OR SYSMODE_SEG_DS_SS \<and>
   mode (snd (run_state (decode_rm10_address 5) (m\<lparr>mode := SYSMODE_PREFIX_ADDR\<rparr>))) = SYSMODE_PREFIX_ADDR \<and>
   mode (snd (run_state (decode_rm01_address 5) (m\<lparr>mode := SYSMODE_PREFIX_ADDR\<rparr>))) = SYSMODE_PREFIX_ADDR"
  by (simp add: decode_sib_address_def decode_rm10_address_def decode_rm01_address_def emu_run mode_is_def sysmode_defs Let_def)

end
