(* ===== verification/X86Instr.thy ===== *)
theory X86Instr
  imports X86Exec X86Addr
begin

text \<open>What the instructions do: arithmetic with a memory operand, comparison and branch, the stack.\<close>

section \<open>Arithmetic with a memory operand\<close>

definition end_instr :: "x86 \<Rightarrow> x86" where
  "end_instr m = m\<lparr>mode := mode m AND NOT SYSMODE_CLRMASK\<rparr>"

lemma exec_instr: "exec (instr b) m = end_instr (exec b m)"
  by (simp add: exec_def instr_def emu_run end_instr_def split: prod.split)

text \<open>The opcodes below 0x38 are the seven operations of the immediate group in six forms.\<close>

lemma less_7: "(k :: nat) < 7 \<Longrightarrow> k = 0 \<or> k = 1 \<or> k = 2 \<or> k = 3 \<or> k = 4 \<or> k = 5 \<or> k = 6"
  by auto

lemmas alu_handlers =
  x86emuOp_add_byte_RM_R_def x86emuOp_add_word_RM_R_def x86emuOp_add_byte_R_RM_def x86emuOp_add_word_R_RM_def
  x86emuOp_or_byte_RM_R_def x86emuOp_or_word_RM_R_def x86emuOp_or_byte_R_RM_def x86emuOp_or_word_R_RM_def
  x86emuOp_adc_byte_RM_R_def x86emuOp_adc_word_RM_R_def x86emuOp_adc_byte_R_RM_def x86emuOp_adc_word_R_RM_def
  x86emuOp_sbb_byte_RM_R_def x86emuOp_sbb_word_RM_R_def x86emuOp_sbb_byte_R_RM_def x86emuOp_sbb_word_R_RM_def
  x86emuOp_and_byte_RM_R_def x86emuOp_and_word_RM_R_def x86emuOp_and_byte_R_RM_def x86emuOp_and_word_R_RM_def
  x86emuOp_sub_byte_RM_R_def x86emuOp_sub_word_RM_R_def x86emuOp_sub_byte_R_RM_def x86emuOp_sub_word_R_RM_def
  x86emuOp_xor_byte_RM_R_def x86emuOp_xor_word_RM_R_def x86emuOp_xor_byte_R_RM_def x86emuOp_xor_word_R_RM_def

lemma optab_alu:
  assumes "k < 7"
  shows "x86emu_optab ! (8 * k) = instr_rm (op_RM_R byte_operand (opc80_byte_operation ! k))"
    "x86emu_optab ! (8 * k + 1) = instr_rm_sized (op_RM_R long_operand (opc81_long_operation ! k))
       (op_RM_R word_operand (opc81_word_operation ! k))"
    "x86emu_optab ! (8 * k + 2) = instr_rm (op_R_RM byte_operand (opc80_byte_operation ! k))"
    "x86emu_optab ! (8 * k + 3) = instr_rm_sized (op_R_RM long_operand (opc81_long_operation ! k))
       (op_R_RM word_operand (opc81_word_operation ! k))"
  using less_7 [OF assms]
  by (auto simp: x86emu_optab_def opc80_byte_operation_def opc81_long_operation_def opc81_word_operation_def alu_handlers)

lemma alu_only_flags:
  assumes "k < 7"
  shows "alu_flags (opc80_byte_operation ! k)" "alu_flags (opc81_word_operation ! k)" "alu_flags (opc81_long_operation ! k)"
proof -
  have "alu_flags add_byte" "alu_flags or_byte" "alu_flags adc_byte" "alu_flags sbb_byte" "alu_flags and_byte"
    "alu_flags sub_byte" "alu_flags xor_byte"
    unfolding alu_flags_def add_byte_def or_byte_def adc_byte_def sbb_byte_def and_byte_def sub_byte_def xor_byte_def
    by (simp_all add: flag_simps Let_def)
  with less_7 [OF assms] show "alu_flags (opc80_byte_operation ! k)" by (auto simp: opc80_byte_operation_def)
  have "alu_flags add_word" "alu_flags or_word" "alu_flags adc_word" "alu_flags sbb_word" "alu_flags and_word"
    "alu_flags sub_word" "alu_flags xor_word"
    unfolding alu_flags_def add_word_def or_word_def adc_word_def sbb_word_def and_word_def sub_word_def xor_word_def
    by (simp_all add: flag_simps Let_def)
  with less_7 [OF assms] show "alu_flags (opc81_word_operation ! k)" by (auto simp: opc81_word_operation_def)
  have "alu_flags add_long" "alu_flags or_long" "alu_flags adc_long" "alu_flags sbb_long" "alu_flags and_long"
    "alu_flags sub_long" "alu_flags xor_long"
    unfolding alu_flags_def add_long_def or_long_def adc_long_def sbb_long_def and_long_def sub_long_def xor_long_def
    by (simp_all add: flag_simps Let_def)
  with less_7 [OF assms] show "alu_flags (opc81_long_operation ! k)" by (auto simp: opc81_long_operation_def)
qed

text \<open>
  C31: The opcodes ADD, OR, ADC, SBB, AND, SUB and XOR with a memory operand of 16 bit addressing, in their four
  ModRM forms: the byte, word or long (by the operand size prefix) at the effective address and the register that
  the ModRM byte names are combined by the operation of that size, in the order of the form; the result goes to
  memory or to the register, the flags are those of the operation, and the prefixes are forgotten.
\<close>

theorem x86_alu_instructions:
  assumes "k < 7" and modrm: "run_state fetch_decode_modrm m0 = ((md, rh, rl), m)" and op: "mem_operand ov md rl m"
  defines "a \<equiv> operand_addr ov md rl m" and "m1 \<equiv> after_ea16 md rl m"
  shows "exec (x86emu_optab ! (8 * k)) m0 =
      (case (opc80_byte_operation ! k) (mem8 m a) (rd8 (decode_rm_byte_register rh) m) m1 of (r, m2) \<Rightarrow> end_instr (put8 a r m2)) \<and>
    exec (x86emu_optab ! (8 * k + 1)) m0 = (if mode_is SYSMODE_PREFIX_DATA m
      then case (opc81_long_operation ! k) (mem32 m a) (rd32 (decode_rm_long_register rh) m) m1 of (r, m2) \<Rightarrow> end_instr (put32 a r m2)
      else case (opc81_word_operation ! k) (mem16 m a) (rd16 (decode_rm_word_register rh) m) m1 of (r, m2) \<Rightarrow> end_instr (put16 a r m2)) \<and>
    exec (x86emu_optab ! (8 * k + 2)) m0 =
      (case (opc80_byte_operation ! k) (rd8 (decode_rm_byte_register rh) m) (mem8 m a) m1 of (r, m2) \<Rightarrow>
         end_instr (wr8 (decode_rm_byte_register rh) r m2)) \<and>
    exec (x86emu_optab ! (8 * k + 3)) m0 = (if mode_is SYSMODE_PREFIX_DATA m
      then case (opc81_long_operation ! k) (rd32 (decode_rm_long_register rh) m) (mem32 m a) m1 of (r, m2) \<Rightarrow>
         end_instr (wr32 (decode_rm_long_register rh) r m2)
      else case (opc81_word_operation ! k) (rd16 (decode_rm_word_register rh) m) (mem16 m a) m1 of (r, m2) \<Rightarrow>
         end_instr (wr16 (decode_rm_word_register rh) r m2))"
proof -
  note f = alu_only_flags [OF assms(1)] and o = optab_alu [OF assms(1)]
  have s: "run_state (sized l w) m = run_state (if mode_is SYSMODE_PREFIX_DATA m then l else w) m" for l w :: "unit emu"
    by (simp add: sized_def emu_run)
  note d = instr_rm_def instr_rm_sized_def exec_instr a_def m1_def
  show ?thesis
    unfolding o d exec_def [of "State_Monad.bind _ _"]
    using byte.op_RM_R_mem [OF op f(1)] word.op_RM_R_mem [OF op f(2)] long.op_RM_R_mem [OF op f(3)]
      byte.op_R_RM_mem [OF op] word.op_R_RM_mem [OF op] long.op_R_RM_mem [OF op]
    by (simp add: modrm s byte_operand_def word_operand_def long_operand_def split: prod.split)
qed

text \<open>ADD with the word at [BX] in DS: opcode 0x01, ModRM byte 0x07 (memory [BX], register AX).\<close>

theorem x86_alu_instructions_witness:
  "let m0 = x86_zero\<lparr>gA := 5, gB := 0x20, R_DS := 0x10, ram := (\<lambda>a. if a = 0x120 then 3 else 7)\<rparr> in
   mem16 (exec (x86emu_optab ! 1) m0) 0x120 = 0x0708"
proof -
  let ?start = "x86_zero\<lparr>gA := 5, gB := 0x20, R_DS := 0x10, ram := (\<lambda>a. if a = 0x120 then 3 else 7)\<rparr>"
  let ?next = "?start\<lparr>gIP := 1\<rparr>"
  have f: "run_state fetch_decode_modrm ?start = ((0, 0, 7), ?next)"
    by (simp add: fetch_decode_modrm_def emu_run x86_zero_def mem8_def code_addr_def lo16_def put_lo16_def)
  have o: "mem_operand None 0 7 ?next"
    by (simp add: mem_operand_def mode_is_def seg_prefix_def x86_zero_def)
  have a: "operand_addr None 0 7 ?next = 0x120"
    by (simp add: operand_addr_def operand_seg_def ea16_stack_def ea16_offset_def ea16_def disp16_def x86_zero_def lo16_def)
  have v: "mem16 ?next 0x120 = 0x703" "rd16 (decode_rm_word_register 0) ?next = 5"
    by (simp_all add: mem16_def rd16_def decode_rm_word_register_def lo16_def)
  obtain r m2 where r: "add_word 0x703 5 (after_ea16 0 7 ?next) = (r, m2)" by fastforce
  then have r': "r = 0x708" by (simp add: add_word_def Let_def)
  have nd: "\<not> mode_is SYSMODE_PREFIX_DATA ?next" by (simp add: mode_is_def x86_zero_def)
  have w: "opc81_word_operation ! 0 = add_word" by (simp add: opc81_word_operation_def)
  have "exec (x86emu_optab ! (8 * 0 + 1)) ?start = end_instr (put16 0x120 r m2)"
    using x86_alu_instructions [of 0, OF _ f o] nd a v r w by simp
  moreover have "mem16 (end_instr (put16 0x120 r m2)) 0x120 = r"
    using mem_put(2) [of "0x120" r m2] by (simp add: mem16_def end_instr_def)
  ultimately show ?thesis using r' by (simp add: Let_def)
qed

section \<open>Comparison and branch\<close>

lemma sub_signed:
  fixes d s :: "'a::len word"
  shows "(sint (d - s) < 0) \<noteq> (sint (d - s) \<noteq> sint d - sint s) \<longleftrightarrow> sint d < sint s"
proof -
  define N where "N = (2 :: int) ^ (LENGTH('a) - 1)"
  have N: "2 ^ LENGTH('a) = 2 * N" unfolding N_def by (metis len_gt_0 power_eq_if not_gr0)
  have b: "- N \<le> sint w" "sint w < N" for w :: "'a word"
    using sint_range_size [of w] by (auto simp: word_size N_def)
  have "sint (d - s) mod 2 ^ LENGTH('a) = uint (d - s)" by (simp only: uint_sint take_bit_eq_mod)
  also have "\<dots> = (uint d - uint s) mod 2 ^ LENGTH('a)" by (rule uint_word_ariths)
  also have "\<dots> = (sint d - sint s) mod 2 ^ LENGTH('a)" by (simp only: uint_sint take_bit_eq_mod mod_diff_eq)
  finally have "sint (d - s) mod (2 * N) = (sint d - sint s) mod (2 * N)" by (simp only: N)
  then obtain k where k: "sint (d - s) = sint d - sint s + 2 * N * k" by (metis mod_eqE add.commute)
  have N0: "N > 0" by (simp add: N_def)
  have "2 * N * k < 2 * N * 2" "2 * N * (- 2) < 2 * N * k"
    using b [of d] b [of s] b [of "d - s"] k by linarith+
  moreover have "0 < 2 * N" using N0 by simp
  ultimately have "k < 2" "- 2 < k" by (simp_all only: mult_less_cancel_left_pos)
  then consider "k = 0" | "k = 1" | "k = -1" by linarith
  then show ?thesis using b [of d] b [of s] b [of "d - s"] k N0 by cases auto
qed

text \<open>The conditions of the processor's branches, after a comparison.\<close>

lemma sub_conditions:
  fixes d s :: "'a::len word"
  assumes "sub_ok d s False m (r, m')"
  shows "ACCESS_FLAG F_CF m' \<longleftrightarrow> d < s" "ACCESS_FLAG F_ZF m' \<longleftrightarrow> d = s"
    "(ACCESS_FLAG F_SF m' \<noteq> ACCESS_FLAG F_OF m') \<longleftrightarrow> sint d < sint s"
  using assms sub_signed [of d s]
  by (auto simp: sub_ok_def result_flags_def word_less_def)

lemma exec_jump:
  "exec (jump_near_if c) m = end_instr (set_IP (R_IP m + 1 + (if c (set_IP (R_IP m + 1) m) then sext8 (mem8 m (code_addr m)) else 0)) m)"
  by (simp add: jump_near_if_def exec_instr) (simp add: exec_def emu_run)

lemma access_set_IP [simp]: "ACCESS_FLAG f (m\<lparr>gIP := v\<rparr>) = ACCESS_FLAG f m" by (simp add: ACCESS_FLAG_def)

text \<open>Where a conditional jump continues: past its operand, and by the signed distance further when it is taken.\<close>

definition jumps :: "unit emu \<Rightarrow> x86 \<Rightarrow> bool \<Rightarrow> bool" where
  "jumps h m taken \<longleftrightarrow> R_IP (exec h m) = R_IP m + 1 + (if taken then sext8 (mem8 m (code_addr m)) else 0)"

lemma jumps_if: "c (set_IP (R_IP m + 1) m) = t \<Longrightarrow> jumps (jump_near_if c) m t"
  by (simp add: jumps_def exec_jump end_instr_def)

lemmas jcc_handlers = x86emuOp_jump_near_Z_def x86emuOp_jump_near_NZ_def x86emuOp_jump_near_B_def
  x86emuOp_jump_near_NB_def x86emuOp_jump_near_BE_def x86emuOp_jump_near_NBE_def x86emuOp_jump_near_L_def
  x86emuOp_jump_near_NL_def x86emuOp_jump_near_LE_def x86emuOp_jump_near_NLE_def

text \<open>Each conditional jump is taken when the compared values stand in the relation its mnemonic names.\<close>

definition branches_on :: "'a::len word \<Rightarrow> 'a word \<Rightarrow> x86 \<Rightarrow> bool" where
  "branches_on d s m \<longleftrightarrow>
     jumps x86emuOp_jump_near_Z m (d = s) \<and> jumps x86emuOp_jump_near_NZ m (d \<noteq> s) \<and>
     jumps x86emuOp_jump_near_B m (d < s) \<and> jumps x86emuOp_jump_near_NB m (s \<le> d) \<and>
     jumps x86emuOp_jump_near_BE m (d \<le> s) \<and> jumps x86emuOp_jump_near_NBE m (s < d) \<and>
     jumps x86emuOp_jump_near_L m (sint d < sint s) \<and> jumps x86emuOp_jump_near_NL m (sint s \<le> sint d) \<and>
     jumps x86emuOp_jump_near_LE m (sint d \<le> sint s) \<and> jumps x86emuOp_jump_near_NLE m (sint s < sint d)"

lemma branch_after_sub:
  fixes d s :: "'a::len word"
  assumes "sub_ok d s False m rm"
  shows "branches_on d s (snd rm)"
proof (cases rm)
  case (Pair r m')
  with assms have "sub_ok d s False m (r, m')" by simp
  from sub_conditions [OF this] signed_word_eqI [of d s, where 'a = int] signed_word_eqI [of s d, where 'a = int]
  show ?thesis unfolding branches_on_def jcc_handlers Pair
    by (auto intro!: jumps_if simp: not_less order_le_less)
qed

text \<open>
  C32: After CMP of two operands of any of the three sizes, the ten conditional jumps on carry, zero, sign and
  overflow are taken exactly when the operands stand in the relation the mnemonic names, unsigned or signed, and
  then continue by the signed byte distance.
\<close>

theorem x86_compare_and_branch:
  "branches_on d8 s8 (only_snd cmp_byte d8 s8 m) \<and> branches_on d16 s16 (only_snd cmp_word d16 s16 m) \<and>
   branches_on d32 s32 (only_snd cmp_long d32 s32 m)"
  using branch_after_sub [OF sub_byte_ok, of d8 s8 m] branch_after_sub [OF sub_word_ok, of d16 s16 m]
    branch_after_sub [OF sub_long_ok, of d32 s32 m]
  by (simp add: only_snd_def cmp_byte_sub cmp_word_sub cmp_long_sub)

text \<open>The condition of SETNL is that of SETL: the code lacks the negation that the long jump has, so SETNL stores 1
  exactly when the less-than condition holds; the other 15 conditions agree with those of the long jumps.
\<close>

theorem x86_setnl_inverted:
  "set_byte_cond 13 m = (\<not> long_jump_cond 13 m) \<and> set_byte_cond 13 m = set_byte_cond 12 m \<and>
   list_all (\<lambda>c. set_byte_cond c m = long_jump_cond c m) [0, 1, 2, 3, 4, 5, 6, 7, 8, 9, 10, 11, 12, 14, 15]"
  by (simp add: set_byte_cond_def long_jump_cond_def xorl_def)

end
