(* ===== verification/X86Safe.thy ===== *)
theory X86Safe
  imports X86Exec
begin

text \<open>
  What every instruction keeps.  A relation between the machine before and after that is reflexive
  and transitive and allows each elementary update of the emulator holds across every handler; the
  handlers are gone through once, inside a locale for such relations.
\<close>

named_theorems keep_intros \<open>rules that carry a relation over a step of the emulator\<close>

lemma modrm_fields:
  "case fst (run_state fetch_decode_modrm m) of (md, rh, rl) \<Rightarrow> md < 4 \<and> rh < 8 \<and> rl < 8"
proof -
  have "unat (drop_bit 6 b AND 3) < 4" "unat (drop_bit 3 b AND 7) < 8" "unat (b AND 7) < 8" for b :: u8
    using word_and_le1 [of "drop_bit 6 b" 3] word_and_le1 [of "drop_bit 3 b" 7] word_and_le1 [of b 7]
    by (simp_all add: word_le_nat_alt)
  then show ?thesis by (simp add: fetch_decode_modrm_def split: prod.split)
qed

lemmas ops_handlers =
  x86emuOp_add_byte_RM_R_def x86emuOp_add_word_RM_R_def x86emuOp_add_byte_R_RM_def x86emuOp_add_word_R_RM_def
  x86emuOp_add_byte_AL_IMM_def x86emuOp_add_word_AX_IMM_def x86emuOp_or_byte_RM_R_def x86emuOp_or_word_RM_R_def
  x86emuOp_or_byte_R_RM_def x86emuOp_or_word_R_RM_def x86emuOp_or_byte_AL_IMM_def x86emuOp_or_word_AX_IMM_def
  x86emuOp_adc_byte_RM_R_def x86emuOp_adc_word_RM_R_def x86emuOp_adc_byte_R_RM_def x86emuOp_adc_word_R_RM_def
  x86emuOp_adc_byte_AL_IMM_def x86emuOp_adc_word_AX_IMM_def x86emuOp_sbb_byte_RM_R_def
  x86emuOp_sbb_word_RM_R_def x86emuOp_sbb_byte_R_RM_def x86emuOp_sbb_word_R_RM_def x86emuOp_sbb_byte_AL_IMM_def
  x86emuOp_sbb_word_AX_IMM_def x86emuOp_and_byte_RM_R_def x86emuOp_and_word_RM_R_def x86emuOp_and_byte_R_RM_def
  x86emuOp_and_word_R_RM_def x86emuOp_and_byte_AL_IMM_def x86emuOp_and_word_AX_IMM_def
  x86emuOp_sub_byte_RM_R_def x86emuOp_sub_word_RM_R_def x86emuOp_sub_byte_R_RM_def x86emuOp_sub_word_R_RM_def
  x86emuOp_sub_byte_AL_IMM_def x86emuOp_sub_word_AX_IMM_def x86emuOp_xor_byte_RM_R_def
  x86emuOp_xor_word_RM_R_def x86emuOp_xor_byte_R_RM_def x86emuOp_xor_word_R_RM_def x86emuOp_xor_byte_AL_IMM_def
  x86emuOp_xor_word_AX_IMM_def x86emuOp_cmp_byte_RM_R_def x86emuOp_cmp_word_RM_R_def x86emuOp_cmp_byte_R_RM_def
  x86emuOp_cmp_word_R_RM_def x86emuOp_cmp_byte_AL_IMM_def x86emuOp_cmp_word_AX_IMM_def x86emuOp_segovr_ES_def
  x86emuOp_segovr_CS_def x86emuOp_segovr_SS_def x86emuOp_segovr_DS_def x86emuOp_segovr_FS_def
  x86emuOp_segovr_GS_def x86emuOp_prefix_data_def x86emuOp_prefix_addr_def x86emuOp_repne_def x86emuOp_repe_def
  x86emuOp_daa_def x86emuOp_das_def x86emuOp_aaa_def x86emuOp_aas_def x86emuOp_aam_def x86emuOp_aad_def
  x86emuOp_inc_AX_def x86emuOp_inc_CX_def x86emuOp_inc_DX_def x86emuOp_inc_BX_def x86emuOp_inc_SP_def
  x86emuOp_inc_BP_def x86emuOp_inc_SI_def x86emuOp_inc_DI_def x86emuOp_dec_AX_def x86emuOp_dec_CX_def
  x86emuOp_dec_DX_def x86emuOp_dec_BX_def x86emuOp_dec_SP_def x86emuOp_dec_BP_def x86emuOp_dec_SI_def
  x86emuOp_dec_DI_def x86emuOp_imul_word_IMM_def x86emuOp_imul_byte_IMM_def x86emuOp_opc80_byte_RM_IMM_def
  x86emuOp_opc81_word_RM_IMM_def x86emuOp_opc82_byte_RM_IMM_def x86emuOp_opc83_word_RM_IMM_def
  x86emuOp_test_byte_RM_R_def x86emuOp_test_word_RM_R_def x86emuOp_test_AL_IMM_def x86emuOp_test_AX_IMM_def
  x86emuOp_xchg_byte_RM_R_def x86emuOp_xchg_word_RM_R_def x86emuOp_mov_byte_RM_R_def x86emuOp_mov_word_RM_R_def
  x86emuOp_mov_byte_R_RM_def x86emuOp_mov_word_R_RM_def x86emuOp_mov_word_RM_SR_def x86emuOp_lea_word_R_M_def
  x86emuOp_mov_word_SR_RM_def x86emuOp_pop_RM_def x86emuOp_nop_def x86emuOp_xchg_word_AX_CX_def
  x86emuOp_xchg_word_AX_DX_def x86emuOp_xchg_word_AX_BX_def x86emuOp_xchg_word_AX_SP_def
  x86emuOp_xchg_word_AX_BP_def x86emuOp_xchg_word_AX_SI_def x86emuOp_xchg_word_AX_DI_def x86emuOp_cbw_def
  x86emuOp_cwd_def x86emuOp_sahf_def x86emuOp_lahf_def x86emuOp_mov_AL_M_IMM_def x86emuOp_mov_AX_M_IMM_def
  x86emuOp_mov_M_AL_IMM_def x86emuOp_mov_M_AX_IMM_def x86emuOp_mov_byte_AL_IMM_def x86emuOp_mov_byte_CL_IMM_def
  x86emuOp_mov_byte_DL_IMM_def x86emuOp_mov_byte_BL_IMM_def x86emuOp_mov_byte_AH_IMM_def
  x86emuOp_mov_byte_CH_IMM_def x86emuOp_mov_byte_DH_IMM_def x86emuOp_mov_byte_BH_IMM_def
  x86emuOp_mov_word_AX_IMM_def x86emuOp_mov_word_CX_IMM_def x86emuOp_mov_word_DX_IMM_def
  x86emuOp_mov_word_BX_IMM_def x86emuOp_mov_word_SP_IMM_def x86emuOp_mov_word_BP_IMM_def
  x86emuOp_mov_word_SI_IMM_def x86emuOp_mov_word_DI_IMM_def x86emuOp_mov_byte_RM_IMM_def
  x86emuOp_mov_word_RM_IMM_def x86emuOp_les_R_IMM_def x86emuOp_lds_R_IMM_def x86emuOp_xlat_def
  x86emuOp_opcC0_byte_RM_MEM_def x86emuOp_opcC1_word_RM_MEM_def x86emuOp_opcD0_byte_RM_1_def
  x86emuOp_opcD1_word_RM_1_def x86emuOp_opcD2_byte_RM_CL_def x86emuOp_opcD3_word_RM_CL_def
  x86emuOp_opcF6_byte_RM_def x86emuOp_opcF7_word_RM_def x86emuOp_opcFE_byte_RM_def x86emuOp_opcFF_word_RM_def

lemmas ctl_handlers =
  x86emuOp_push_ES_def x86emuOp_push_CS_def x86emuOp_push_SS_def x86emuOp_push_DS_def x86emuOp_pop_ES_def
  x86emuOp_pop_SS_def x86emuOp_pop_DS_def x86emuOp_push_AX_def x86emuOp_push_CX_def x86emuOp_push_DX_def
  x86emuOp_push_BX_def x86emuOp_push_SP_def x86emuOp_push_BP_def x86emuOp_push_SI_def x86emuOp_push_DI_def
  x86emuOp_pop_AX_def x86emuOp_pop_CX_def x86emuOp_pop_DX_def x86emuOp_pop_BX_def x86emuOp_pop_SP_def
  x86emuOp_pop_BP_def x86emuOp_pop_SI_def x86emuOp_pop_DI_def x86emuOp_push_all_def x86emuOp_pop_all_def
  x86emuOp_push_word_IMM_def x86emuOp_push_byte_IMM_def x86emuOp_pushf_word_def x86emuOp_popf_word_def
  x86emuOp_enter_def x86emuOp_leave_def x86emuOp_jump_near_O_def x86emuOp_jump_near_NO_def
  x86emuOp_jump_near_B_def x86emuOp_jump_near_NB_def x86emuOp_jump_near_Z_def x86emuOp_jump_near_NZ_def
  x86emuOp_jump_near_BE_def x86emuOp_jump_near_NBE_def x86emuOp_jump_near_S_def x86emuOp_jump_near_NS_def
  x86emuOp_jump_near_P_def x86emuOp_jump_near_NP_def x86emuOp_jump_near_L_def x86emuOp_jump_near_NL_def
  x86emuOp_jump_near_LE_def x86emuOp_jump_near_NLE_def x86emuOp_loopne_def x86emuOp_loope_def x86emuOp_loop_def
  x86emuOp_jcxz_def x86emuOp_jump_byte_IMM_def x86emuOp_jump_near_IMM_def x86emuOp_jump_far_IMM_def
  x86emuOp_call_near_IMM_def x86emuOp_call_far_IMM_def x86emuOp_ret_near_IMM_def x86emuOp_ret_near_def
  x86emuOp_ret_far_IMM_def x86emuOp_ret_far_def x86emuOp_int3_def x86emuOp_int_IMM_def x86emuOp_into_def
  x86emuOp_iret_def x86emuOp_cmc_def x86emuOp_clc_def x86emuOp_stc_def x86emuOp_cli_def x86emuOp_sti_def
  x86emuOp_cld_def x86emuOp_std_def x86emuOp_halt_def x86emuOp_wait_def x86emuOp_lock_def
  x86emuOp_illegal_op_def x86emuOp_in_byte_AL_IMM_def x86emuOp_in_word_AX_IMM_def x86emuOp_out_byte_IMM_AL_def
  x86emuOp_out_word_IMM_AX_def x86emuOp_in_byte_AL_DX_def x86emuOp_in_word_AX_DX_def
  x86emuOp_out_byte_DX_AL_def x86emuOp_out_word_DX_AX_def x86emuOp_movs_byte_def x86emuOp_movs_word_def
  x86emuOp_cmps_byte_def x86emuOp_cmps_word_def x86emuOp_scas_byte_def x86emuOp_scas_word_def
  x86emuOp_stos_byte_def x86emuOp_stos_word_def x86emuOp_lods_byte_def x86emuOp_lods_word_def
  x86emuOp_ins_byte_def x86emuOp_ins_word_def x86emuOp_outs_byte_def x86emuOp_outs_word_def
  x86emuOp_esc_coprocess_d8_def x86emuOp_esc_coprocess_d9_def x86emuOp_esc_coprocess_da_def
  x86emuOp_esc_coprocess_db_def x86emuOp_esc_coprocess_dc_def x86emuOp_esc_coprocess_dd_def
  x86emuOp_esc_coprocess_de_def x86emuOp_esc_coprocess_df_def

lemmas ops2_handlers =
  x86emuOp2_illegal_op_def x86emuOp2_rdtsc_def x86emuOp2_long_jump_def x86emuOp2_set_byte_def
  x86emuOp2_push_FS_def x86emuOp2_pop_FS_def x86emuOp2_push_GS_def x86emuOp2_pop_GS_def x86emuOp2_cpuid_def
  x86emuOp2_bt_R_def x86emuOp2_bts_R_def x86emuOp2_btr_R_def x86emuOp2_btc_R_def x86emuOp2_btX_I_def
  x86emuOp2_bsf_def x86emuOp2_bsr_def x86emuOp2_shld_IMM_def x86emuOp2_shld_CL_def x86emuOp2_shrd_IMM_def
  x86emuOp2_shrd_CL_def x86emuOp2_imul_R_RM_def x86emuOp2_lss_R_IMM_def x86emuOp2_lfs_R_IMM_def
  x86emuOp2_lgs_R_IMM_def x86emuOp2_movzx_byte_R_RM_def x86emuOp2_movzx_word_R_RM_def
  x86emuOp2_movsx_byte_R_RM_def x86emuOp2_movsx_word_R_RM_def x86emuOp2_bswap_def

locale emu_relation =
  fixes R :: "x86 \<Rightarrow> x86 \<Rightarrow> bool"
  assumes R_refl: "R m m"
    and R_trans: "R m1 m2 \<Longrightarrow> R m2 m3 \<Longrightarrow> R m1 m3"
    and R_regs: "R m (m\<lparr>gA := v\<rparr>)" "R m (m\<lparr>gB := v\<rparr>)" "R m (m\<lparr>gC := v\<rparr>)" "R m (m\<lparr>gD := v\<rparr>)"
      "R m (m\<lparr>gSP := v\<rparr>)" "R m (m\<lparr>gBP := v\<rparr>)" "R m (m\<lparr>gSI := v\<rparr>)" "R m (m\<lparr>gDI := v\<rparr>)"
      "R m (m\<lparr>gIP := v\<rparr>)" "R m (m\<lparr>FLAGS := v\<rparr>)"
    and R_segs: "R m (m\<lparr>R_CS := s\<rparr>)" "R m (m\<lparr>R_DS := s\<rparr>)" "R m (m\<lparr>R_SS := s\<rparr>)" "R m (m\<lparr>R_ES := s\<rparr>)"
      "R m (m\<lparr>R_FS := s\<rparr>)" "R m (m\<lparr>R_GS := s\<rparr>)"
    and R_rest: "R m (m\<lparr>mode := v\<rparr>)" "R m (m\<lparr>ram := f\<rparr>)" "R m (m\<lparr>tsc := v\<rparr>)"
      "R m (m\<lparr>intno := b\<rparr>)" "R m (m\<lparr>intr := intr m OR v\<rparr>)" "R m (m\<lparr>fault := True\<rparr>)"
      "R m (m\<lparr>io_log := e # io_log m\<rparr>)"
begin

lemma R_step:
  "R m m' \<Longrightarrow> R m (m'\<lparr>gA := v\<rparr>)" "R m m' \<Longrightarrow> R m (m'\<lparr>gB := v\<rparr>)" "R m m' \<Longrightarrow> R m (m'\<lparr>gC := v\<rparr>)"
  "R m m' \<Longrightarrow> R m (m'\<lparr>gD := v\<rparr>)" "R m m' \<Longrightarrow> R m (m'\<lparr>gSP := v\<rparr>)" "R m m' \<Longrightarrow> R m (m'\<lparr>gBP := v\<rparr>)"
  "R m m' \<Longrightarrow> R m (m'\<lparr>gSI := v\<rparr>)" "R m m' \<Longrightarrow> R m (m'\<lparr>gDI := v\<rparr>)" "R m m' \<Longrightarrow> R m (m'\<lparr>gIP := v\<rparr>)"
  "R m m' \<Longrightarrow> R m (m'\<lparr>FLAGS := v\<rparr>)" "R m m' \<Longrightarrow> R m (m'\<lparr>R_CS := s\<rparr>)" "R m m' \<Longrightarrow> R m (m'\<lparr>R_DS := s\<rparr>)"
  "R m m' \<Longrightarrow> R m (m'\<lparr>R_SS := s\<rparr>)" "R m m' \<Longrightarrow> R m (m'\<lparr>R_ES := s\<rparr>)" "R m m' \<Longrightarrow> R m (m'\<lparr>R_FS := s\<rparr>)"
  "R m m' \<Longrightarrow> R m (m'\<lparr>R_GS := s\<rparr>)" "R m m' \<Longrightarrow> R m (m'\<lparr>mode := v\<rparr>)" "R m m' \<Longrightarrow> R m (m'\<lparr>ram := f\<rparr>)"
  "R m m' \<Longrightarrow> R m (m'\<lparr>tsc := v\<rparr>)" "R m m' \<Longrightarrow> R m (m'\<lparr>fault := True\<rparr>)"
  by (erule R_trans, (rule R_regs R_segs R_rest))+

lemma R_flags:
  "R m m' \<Longrightarrow> R m (SET_FLAG f m')" "R m m' \<Longrightarrow> R m (CLEAR_FLAG f m')" "R m m' \<Longrightarrow> R m (TOGGLE_FLAG f m')"
  "R m m' \<Longrightarrow> R m (CONDITIONAL_SET_FLAG c f m')" "R m m' \<Longrightarrow> R m (set_CF_OF c m')"
  by (simp_all add: SET_FLAG_def CLEAR_FLAG_def TOGGLE_FLAG_def CONDITIONAL_SET_FLAG_def set_CF_OF_def R_step)

lemma R_raise: "R m m' \<Longrightarrow> R m (x86emu_intr_raise n m')"
proof -
  assume "R m m'"
  moreover have "R m' (m'\<lparr>intno := n\<rparr>)" by (rule R_rest)
  moreover have "R (m'\<lparr>intno := n\<rparr>) (x86emu_intr_raise n m')"
    using R_rest(5) [of "m'\<lparr>intno := n\<rparr>" INTR_SYNCH] by (simp add: x86emu_intr_raise_def)
  ultimately show ?thesis by (blast intro: R_trans)
qed

lemmas R_intros = R_refl R_step R_flags R_raise

subsection \<open>Control structure\<close>

lemma keep_upd: "(\<And>m. R m (u m)) \<Longrightarrow> state_io_rel R (upd u)"
  by (simp add: state_io_rel_def emu_run)

lemma keep_State: "(\<And>m. R m (snd (f m))) \<Longrightarrow> state_io_rel R (State f)"
  by (simp add: state_io_rel_def)

lemma keep_bind [keep_intros]:
  "state_io_rel R c \<Longrightarrow> (\<And>x. state_io_rel R (k x)) \<Longrightarrow> state_io_rel R (State_Monad.bind c k)"
  unfolding state_io_rel_def by (auto split: prod.split) (metis R_trans snd_conv)

lemma keep_ctrl [keep_intros]:
  "state_io_rel R (State_Monad.return x)" "state_io_rel R (gets g)" "state_io_rel R State_Monad.get"
  "state_io_rel R a \<Longrightarrow> state_io_rel R (emu_when c a)"
  "state_io_rel R d \<Longrightarrow> state_io_rel R d' \<Longrightarrow> state_io_rel R (if c then d else d')"
  "state_io_rel R d \<Longrightarrow> (\<And>x. state_io_rel R (k x)) \<Longrightarrow> state_io_rel R (case z of None \<Rightarrow> d | Some x \<Rightarrow> k x)"
  "(\<And>x y. state_io_rel R (g2 x y)) \<Longrightarrow> state_io_rel R (case q of (x, y) \<Rightarrow> g2 x y)"
  "state_io_rel R (l t) \<Longrightarrow> state_io_rel R (let x = t in l x)"
  by (auto simp: state_io_rel_def emu_run R_refl split: option.split prod.split)

lemma keep_sized [keep_intros]: "state_io_rel R l \<Longrightarrow> state_io_rel R w \<Longrightarrow> state_io_rel R (sized l w)"
  unfolding sized_def by (intro keep_intros)

lemma keep_repeat [keep_intros]: "state_io_rel R b \<Longrightarrow> state_io_rel R (repeat_emu n b)"
  by (induction n) (auto intro!: keep_intros)

subsection \<open>Elementary steps\<close>

lemma R_reg_write:
  "R m m' \<Longrightarrow> R m (wr32 r v m')" "R m m' \<Longrightarrow> R m (wr16 r w m')" "R m m' \<Longrightarrow> R m (wr8 q b m')"
  "R m m' \<Longrightarrow> R m (wrsr s w m')"
proof -
  show l: "R m m' \<Longrightarrow> R m (wr32 r v m')" for v by (cases r) (auto intro: R_step)
  show "R m m' \<Longrightarrow> R m (wr16 r w m')" by (simp add: wr16_def l)
  show "R m m' \<Longrightarrow> R m (wr8 q b m')" by (cases q) (auto intro: R_step)
  show "R m m' \<Longrightarrow> R m (wrsr s w m')" by (cases s) (auto intro: R_step)
qed

lemma R_mem_write:
  "R m m' \<Longrightarrow> R m (put8 a b m')" "R m m' \<Longrightarrow> R m (put16 a w m')" "R m m' \<Longrightarrow> R m (put32 a v m')"
  by (simp_all add: put8_def put16_def put32_def R_step)

lemma keep_updates [keep_intros]:
  "state_io_rel R (upd (\<lambda>m. wr32 r (f32 m) m))" "state_io_rel R (upd (\<lambda>m. wr16 r (f16 m) m))"
  "state_io_rel R (upd (\<lambda>m. wr8 q (f8 m) m))" "state_io_rel R (upd (wr32 r v))" "state_io_rel R (upd (wr16 r w))"
  "state_io_rel R (upd (wr8 q b))" "state_io_rel R (upd (wrsr s w))"
  "state_io_rel R (upd (set_IP w))" "state_io_rel R (upd (\<lambda>m. set_IP (f16 m) m))"
  "state_io_rel R (upd (\<lambda>m. set_SP (f16 m) m))" "state_io_rel R (upd (\<lambda>m. m\<lparr>R_CS := w\<rparr>))"
  "state_io_rel R (upd (\<lambda>m. m\<lparr>gA := f32 m\<rparr>))" "state_io_rel R (upd (\<lambda>m. m\<lparr>gD := f32 m\<rparr>))"
  "state_io_rel R (upd (\<lambda>m. m\<lparr>gSP := f32 m\<rparr>))" "state_io_rel R (upd (\<lambda>m. m\<lparr>FLAGS := f32 m\<rparr>))"
  "state_io_rel R (upd (CLEAR_FLAG g))" "state_io_rel R (upd (SET_FLAG g))" "state_io_rel R (upd (TOGGLE_FLAG g))"
  "state_io_rel R (upd (CONDITIONAL_SET_FLAG c g))"
  by (rule keep_upd, rule R_reg_write R_step R_flags, rule R_refl)+

lemma keep_bus [keep_intros]:
  "state_io_rel R (sys_rdb a)" "state_io_rel R (sys_rdw a)" "state_io_rel R (sys_rdl a)"
  "state_io_rel R (sys_wrb a b)" "state_io_rel R (sys_wrw a w)" "state_io_rel R (sys_wrl a v)"
  by (simp_all add: state_io_rel_def emu_run R_refl R_mem_write)

lemma keep_mode [keep_intros]:
  "state_io_rel R (mode_set v)" "state_io_rel R (mode_clear v)" "state_io_rel R DECODE_CLEAR_SEGOVR"
  "state_io_rel R HALT_SYS" "state_io_rel R emu_trap"
  by (simp_all add: state_io_rel_def emu_run R_rest)

lemma keep_ports [keep_intros]:
  "state_io_rel R (port_in n p)" "state_io_rel R (port_out n p v)"
  by (simp_all add: state_io_rel_def emu_run R_rest)

subsection \<open>Decoding\<close>

lemma keep_decode [keep_intros]:
  "state_io_rel R fetch_byte_imm" "state_io_rel R fetch_word_imm" "state_io_rel R fetch_long_imm"
  "state_io_rel R get_data_segment"
  unfolding fetch_byte_imm_def fetch_word_imm_def fetch_long_imm_def get_data_segment_def
  by (intro keep_intros)+

lemma keep_fetch [keep_intros]:
  "state_io_rel R fetch_decode_modrm" "state_io_rel R fetch_sext_imm"
  "state_io_rel R (fetch_data_byte a)" "state_io_rel R (fetch_data_word a)" "state_io_rel R (fetch_data_long a)"
  "state_io_rel R (fetch_data_byte_abs g a)" "state_io_rel R (fetch_data_word_abs g a)"
  "state_io_rel R (fetch_data_long_abs g a)"
  "state_io_rel R (store_data_byte a b)" "state_io_rel R (store_data_word a w)" "state_io_rel R (store_data_long a v)"
  "state_io_rel R (store_data_byte_abs g a b)" "state_io_rel R (store_data_word_abs g a w)"
  "state_io_rel R (store_data_long_abs g a v)"
  unfolding fetch_decode_modrm_def fetch_sext_imm_def fetch_data_byte_def fetch_data_word_def fetch_data_long_def
    fetch_data_byte_abs_def fetch_data_word_abs_def fetch_data_long_abs_def store_data_byte_def store_data_word_def
    store_data_long_def store_data_byte_abs_def store_data_word_abs_def store_data_long_abs_def
  by (intro keep_intros)+

lemma keep_address [keep_intros]: "state_io_rel R (decode_rm_address md rl)"
proof -
  have sib [keep_intros]: "state_io_rel R (decode_sib_address b n)" for b n
    unfolding decode_sib_address_def by (intro keep_intros)
  have sum [keep_intros]: "state_io_rel R (rm16_sum n d)" for n d
    unfolding rm16_sum_def by (intro keep_intros)
  show ?thesis
    unfolding decode_rm_address_def decode_rm00_address_def decode_rm01_address_def decode_rm10_address_def
    by (intro keep_intros)
qed

lemma keep_stack [keep_intros]:
  "state_io_rel R (push_word w)" "state_io_rel R (push_long v)" "state_io_rel R pop_word" "state_io_rel R pop_long"
  "state_io_rel R (decode_rm_seg_register n)" "state_io_rel R (mem_access_word a)"
  unfolding push_word_def push_long_def pop_word_def pop_long_def decode_rm_seg_register_def mem_access_word_def
  by (intro keep_intros)+

subsection \<open>Operands\<close>

definition operand_ok :: "'w operand \<Rightarrow> bool" where
  "operand_ok w \<longleftrightarrow> (\<forall>a. state_io_rel R (o_fetch w a)) \<and> (\<forall>a v. state_io_rel R (o_store w a v)) \<and>
     state_io_rel R (o_imm w) \<and> (\<forall>r v m. R m (o_wr w r v m))"

lemma operands_ok [keep_intros]: "operand_ok byte_operand" "operand_ok word_operand" "operand_ok long_operand"
  unfolding operand_ok_def byte_operand_def word_operand_def long_operand_def
  by (auto intro: keep_intros R_reg_write R_refl)

lemma operand_okD [keep_intros]:
  "operand_ok w \<Longrightarrow> state_io_rel R (o_fetch w a)" "operand_ok w \<Longrightarrow> state_io_rel R (o_store w a v)"
  "operand_ok w \<Longrightarrow> state_io_rel R (o_imm w)" "operand_ok w \<Longrightarrow> state_io_rel R (upd (o_wr w r v))"
  by (auto simp: operand_ok_def intro: keep_upd)

lemma keep_rm [keep_intros]:
  "operand_ok w \<Longrightarrow> state_io_rel R (read_rm w md rl)"
  "operand_ok w \<Longrightarrow> (\<And>v. state_io_rel R (f v)) \<Longrightarrow> state_io_rel R (modify_rm w md rl f)"
  "operand_ok w \<Longrightarrow> state_io_rel R c \<Longrightarrow> state_io_rel R (write_rm w md rl c)"
  unfolding read_rm_def modify_rm_def write_rm_def by (intro keep_intros | assumption)+

text \<open>An operation on values that keeps the relation.\<close>

definition alu1_ok :: "('v \<Rightarrow> x86 \<Rightarrow> 'w \<times> x86) \<Rightarrow> bool" where
  "alu1_ok f \<longleftrightarrow> (\<forall>d m. R m (snd (f d m)))"

definition alu_ok :: "('v \<Rightarrow> 'w \<Rightarrow> x86 \<Rightarrow> 'v \<times> x86) \<Rightarrow> bool" where
  "alu_ok f \<longleftrightarrow> (\<forall>d s m. R m (snd (f d s m)))"

definition fl_ok :: "('v \<Rightarrow> 'w \<Rightarrow> x86 \<Rightarrow> x86) \<Rightarrow> bool" where
  "fl_ok f \<longleftrightarrow> (\<forall>d s m. R m (f d s m))"

definition use_ok :: "('v \<Rightarrow> x86 \<Rightarrow> x86) \<Rightarrow> bool" where
  "use_ok f \<longleftrightarrow> (\<forall>d m. R m (f d m))"

lemma keep_alu [keep_intros]:
  "alu1_ok f1 \<Longrightarrow> state_io_rel R (State (f1 d))" "alu_ok f \<Longrightarrow> state_io_rel R (State (f d s))"
  "fl_ok g \<Longrightarrow> state_io_rel R (upd (g d s))" "use_ok h \<Longrightarrow> state_io_rel R (upd (h d))"
  "alu_ok f2 \<Longrightarrow> fl_ok (only_snd f2)"
  by (auto simp: alu1_ok_def alu_ok_def fl_ok_def use_ok_def only_snd_def intro: keep_State keep_upd)

lemma keep_shapes [keep_intros]:
  "operand_ok w \<Longrightarrow> alu_ok f \<Longrightarrow> state_io_rel R (op_RM_R w f x)"
  "operand_ok w \<Longrightarrow> alu_ok f \<Longrightarrow> state_io_rel R (op_R_RM w f x)"
  "operand_ok w \<Longrightarrow> fl_ok g \<Longrightarrow> state_io_rel R (flags_RM_R w g x)"
  "operand_ok w \<Longrightarrow> fl_ok g \<Longrightarrow> state_io_rel R (flags_R_RM w g x)"
  "operand_ok w \<Longrightarrow> alu_ok f \<Longrightarrow> state_io_rel R (op_A_IMM w f)"
  "operand_ok w \<Longrightarrow> fl_ok g \<Longrightarrow> state_io_rel R (flags_A_IMM w g)"
  "operand_ok w \<Longrightarrow> state_io_rel R (xchg_RM_R w x)"
  "operand_ok w \<Longrightarrow> state_io_rel R (mov_RM_R w x)"
  "operand_ok w \<Longrightarrow> state_io_rel R (mov_R_RM w x)"
  "state_io_rel R (load_far s x)"
  unfolding op_RM_R_def op_R_RM_def flags_RM_R_def flags_R_RM_def op_A_IMM_def flags_A_IMM_def xchg_RM_R_def
    mov_RM_R_def mov_R_RM_def load_far_def
  by (intro keep_intros | assumption)+

subsection \<open>The operations of \<open>prim_ops.c\<close>\<close>

lemma keep_binary [keep_intros]:
  "alu_ok add_byte" "alu_ok add_word" "alu_ok add_long" "alu_ok or_byte" "alu_ok or_word" "alu_ok or_long"
  "alu_ok adc_byte" "alu_ok adc_word" "alu_ok adc_long" "alu_ok sbb_byte" "alu_ok sbb_word" "alu_ok sbb_long"
  "alu_ok and_byte" "alu_ok and_word" "alu_ok and_long" "alu_ok sub_byte" "alu_ok sub_word" "alu_ok sub_long"
  "alu_ok xor_byte" "alu_ok xor_word" "alu_ok xor_long" "alu_ok cmp_byte" "alu_ok cmp_word" "alu_ok cmp_long"
  unfolding alu_ok_def
    add_byte_def add_word_def add_long_def or_byte_def or_word_def or_long_def adc_byte_def adc_word_def
    adc_long_def sbb_byte_def sbb_word_def sbb_long_def and_byte_def and_word_def and_long_def sub_byte_def
    sub_word_def sub_long_def xor_byte_def xor_word_def xor_long_def cmp_byte_def cmp_word_def cmp_long_def
  by (simp_all add: Let_def R_intros)

lemma keep_unary [keep_intros]:
  "alu1_ok inc_byte" "alu1_ok inc_word" "alu1_ok inc_long" "alu1_ok dec_byte" "alu1_ok dec_word"
  "alu1_ok dec_long" "alu1_ok neg_byte" "alu1_ok neg_word" "alu1_ok neg_long" "alu1_ok daa_byte"
  "alu1_ok das_byte" "alu1_ok aaa_word" "alu1_ok aas_word" "alu1_ok aad_word" "alu1_ok aam_word"
  unfolding alu1_ok_def
    inc_byte_def inc_word_def inc_long_def dec_byte_def dec_word_def dec_long_def neg_byte_def neg_word_def
    neg_long_def daa_byte_def das_byte_def aaa_word_def aas_word_def aad_word_def aam_word_def
  by (auto simp: Let_def intro!: R_intros)

lemma keep_test [keep_intros]:
  "fl_ok test_byte" "fl_ok test_word" "fl_ok test_long"
  unfolding fl_ok_def
    test_byte_def test_word_def test_long_def
  by (simp_all add: Let_def R_intros)

lemma keep_shift [keep_intros]:
  "alu_ok rol_byte" "alu_ok rol_word" "alu_ok rol_long" "alu_ok ror_byte" "alu_ok ror_word" "alu_ok ror_long"
  "alu_ok rcl_byte" "alu_ok rcl_word" "alu_ok rcl_long" "alu_ok rcr_byte" "alu_ok rcr_word" "alu_ok rcr_long"
  "alu_ok shl_byte" "alu_ok shl_word" "alu_ok shl_long" "alu_ok shr_byte" "alu_ok shr_word" "alu_ok shr_long"
  "alu_ok sar_byte" "alu_ok sar_word" "alu_ok sar_long"
  unfolding alu_ok_def
    rol_byte_def rol_word_def rol_long_def ror_byte_def ror_word_def ror_long_def rcl_byte_def rcl_word_def
    rcl_long_def rcr_byte_def rcr_word_def rcr_long_def shl_byte_def shl_word_def shl_long_def shr_byte_def
    shr_word_def shr_long_def sar_byte_def sar_word_def sar_long_def
  by (auto simp: Let_def intro!: R_intros)

lemma keep_muldiv [keep_intros]:
  "use_ok mul_byte" "use_ok mul_word" "use_ok mul_long" "use_ok imul_byte" "use_ok imul_word" "use_ok imul_long"
  "use_ok div_byte" "use_ok div_word" "use_ok div_long" "use_ok idiv_byte" "use_ok idiv_long"
  "use_ok idiv_word_or_trap" "alu_ok imul_trunc_long" "alu_ok imul_trunc_word"
  unfolding use_ok_def alu_ok_def mul_byte_def mul_word_def mul_long_def imul_byte_def imul_word_def imul_long_def
    div_byte_def div_word_def div_long_def idiv_byte_def idiv_long_def idiv_word_or_trap_def idiv_word_def
    imul_trunc_long_def imul_trunc_word_def
  by (auto simp: Let_def intro!: R_intros split: prod.split)

subsection \<open>The shapes of the handlers\<close>

lemma keep_instr [keep_intros]:
  "state_io_rel R b \<Longrightarrow> state_io_rel R (instr b)"
  "(\<And>md rh rl. md < 4 \<Longrightarrow> rh < 8 \<Longrightarrow> rl < 8 \<Longrightarrow> state_io_rel R (k (md, rh, rl))) \<Longrightarrow> state_io_rel R (instr_rm k)"
  "(\<And>md rh rl. md < 4 \<Longrightarrow> rh < 8 \<Longrightarrow> rl < 8 \<Longrightarrow> state_io_rel R (l (md, rh, rl))) \<Longrightarrow>
   (\<And>md rh rl. md < 4 \<Longrightarrow> rh < 8 \<Longrightarrow> rl < 8 \<Longrightarrow> state_io_rel R (w (md, rh, rl))) \<Longrightarrow>
   state_io_rel R (instr_rm_sized l w)"
proof -
  show i: "state_io_rel R (instr b)" if "state_io_rel R b" for b
    unfolding instr_def by (intro keep_intros that)
  have f: "state_io_rel R (do { x \<leftarrow> fetch_decode_modrm; g x })"
    if g: "\<And>md rh rl. md < 4 \<Longrightarrow> rh < 8 \<Longrightarrow> rl < 8 \<Longrightarrow> state_io_rel R (g (md, rh, rl))" for g :: "modrm \<Rightarrow> unit emu"
  proof -
    have "state_io_rel R (g (fst (run_state fetch_decode_modrm m)))" for m
      using modrm_fields [of m] by (cases "run_state fetch_decode_modrm m") (auto intro: g)
    with keep_fetch(1) show ?thesis
      unfolding state_io_rel_def by (auto split: prod.split) (metis R_trans fst_conv snd_conv)
  qed
  show "state_io_rel R (instr_rm k)"
    if "\<And>md rh rl. md < 4 \<Longrightarrow> rh < 8 \<Longrightarrow> rl < 8 \<Longrightarrow> state_io_rel R (k (md, rh, rl))"
    unfolding instr_rm_def by (intro i f that)
  show "state_io_rel R (instr_rm_sized l w)"
    if "\<And>md rh rl. md < 4 \<Longrightarrow> rh < 8 \<Longrightarrow> rl < 8 \<Longrightarrow> state_io_rel R (l (md, rh, rl))"
      "\<And>md rh rl. md < 4 \<Longrightarrow> rh < 8 \<Longrightarrow> rl < 8 \<Longrightarrow> state_io_rel R (w (md, rh, rl))"
    unfolding instr_rm_sized_def by (intro i f keep_sized that)
qed

lemma keep_tables [keep_intros]:
  "operand_ok w \<Longrightarrow> list_all alu_ok ops \<Longrightarrow> length ops = 8 \<Longrightarrow> state_io_rel R imm \<Longrightarrow> rh < 8 \<Longrightarrow>
     state_io_rel R (op_RM_IMM w ops imm (md, rh, rl))"
  "operand_ok w \<Longrightarrow> list_all alu_ok ops' \<Longrightarrow> length ops' = 8 \<Longrightarrow> state_io_rel R amt \<Longrightarrow> rh < 8 \<Longrightarrow>
     state_io_rel R (shift_RM w ops' amt (md, rh, rl))"
proof -
  assume o: "operand_ok w" and n: "rh < 8"
  show "state_io_rel R (op_RM_IMM w ops imm (md, rh, rl))"
    if l: "list_all alu_ok ops" "length ops = 8" "state_io_rel R imm"
  proof -
    from l n have "alu_ok (ops ! rh)" by (simp add: list_all_length)
    with o l show ?thesis unfolding op_RM_IMM_def prod.case by (intro keep_intros)
  qed
  show "state_io_rel R (shift_RM w ops' amt (md, rh, rl))"
    if l: "list_all alu_ok ops'" "length ops' = 8" "state_io_rel R amt"
  proof -
    from l n have "alu_ok (ops' ! rh)" by (simp add: list_all_length)
    with o l show ?thesis unfolding shift_RM_def prod.case by (intro keep_intros)
  qed
qed

lemma table_lists [keep_intros]:
  "list_all alu_ok opc80_byte_operation" "list_all alu_ok opc81_word_operation" "list_all alu_ok opc81_long_operation"
  "list_all alu_ok opc82_byte_operation" "list_all alu_ok opc83_word_operation" "list_all alu_ok opc83_long_operation"
  "list_all alu_ok opcD0_byte_operation" "list_all alu_ok opcD1_word_operation" "list_all alu_ok opcD1_long_operation"
  "length opc80_byte_operation = 8" "length opc81_word_operation = 8" "length opc81_long_operation = 8"
  "length opc82_byte_operation = 8" "length opc83_word_operation = 8" "length opc83_long_operation = 8"
  "length opcD0_byte_operation = 8" "length opcD1_word_operation = 8" "length opcD1_long_operation = 8"
  unfolding opc80_byte_operation_def opc81_word_operation_def opc81_long_operation_def
    opc82_byte_operation_def opc83_word_operation_def opc83_long_operation_def
    opcD0_byte_operation_def opcD1_word_operation_def opcD1_long_operation_def
  by (simp_all add: keep_binary keep_shift)

lemma keep_more [keep_intros]:
  "alu1_ok f32 \<Longrightarrow> alu1_ok f16 \<Longrightarrow> state_io_rel R (unary_reg r f32 f16)"
  "operand_ok w \<Longrightarrow> alu_ok f \<Longrightarrow> state_io_rel R imm \<Longrightarrow> state_io_rel R (imul_R_RM_IMM w f imm x)"
  "state_io_rel R (xchg_AX r)" "state_io_rel R (mov_reg_IMM r)"
  "operand_ok w \<Longrightarrow> fl_ok g \<Longrightarrow> state_io_rel R (test_RM_IMM w g md rl)"
  "operand_ok w \<Longrightarrow> use_ok h \<Longrightarrow> state_io_rel R (use_RM w h md rl)"
  "state_io_rel R (call_near_to v)"
  unfolding unary_reg_def imul_R_RM_IMM_def xchg_AX_def mov_reg_IMM_def test_RM_IMM_def use_RM_def call_near_to_def
  by (intro keep_intros | assumption)+

lemma keep_ctl [keep_intros]:
  "state_io_rel R (push_sreg s)" "state_io_rel R (pop_sreg s)" "state_io_rel R (push_reg r)" "state_io_rel R (pop_reg r)"
  "state_io_rel R (push_longs ls)" "state_io_rel R (push_words ws)"
  "state_io_rel R (jump_near_if cond)" "state_io_rel R (loop_if cond)" "state_io_rel R (enter_interrupt n)"
  "state_io_rel R (add_SI w)" "state_io_rel R (add_DI w)" "state_io_rel R dec_CX"
proof -
  show "state_io_rel R (push_longs ls)" by (induction ls) (auto intro!: keep_intros)
  show "state_io_rel R (push_words ws)" by (induction ws) (auto intro!: keep_intros)
qed (unfold push_sreg_def pop_sreg_def push_reg_def pop_reg_def jump_near_if_def loop_if_def enter_interrupt_def
       add_SI_def add_DI_def dec_CX_def, (intro keep_intros)+)

lemma keep_ports_sized [keep_intros]:
  "state_io_rel R (sys_inb p)" "state_io_rel R (sys_inw p)" "state_io_rel R (sys_inl p)"
  "state_io_rel R (sys_outb p b)" "state_io_rel R (sys_outw p w)" "state_io_rel R (sys_outl p v)"
  unfolding sys_inb_def sys_inw_def sys_inl_def sys_outb_def sys_outw_def sys_outl_def
  by (intro keep_intros)+

lemma keep_rep_cx [keep_intros]: "state_io_rel R b \<Longrightarrow> state_io_rel R (rep_cx n b stop)"
  by (induction n) (auto intro!: keep_intros)

lemma keep_strings [keep_intros]:
  "state_io_rel R b \<Longrightarrow> state_io_rel R (rep_count b)"
  "state_io_rel R a \<Longrightarrow> state_io_rel R b \<Longrightarrow> state_io_rel R (rep_compare a b)"
  "state_io_rel R a \<Longrightarrow> state_io_rel R b \<Longrightarrow> state_io_rel R (rep_plain a b)"
  "state_io_rel R a \<Longrightarrow> state_io_rel R b \<Longrightarrow> state_io_rel R (rep_port n a b)"
  "state_io_rel R cmps_byte_item" "state_io_rel R cmps_word_item" "state_io_rel R scas_byte_item"
  "state_io_rel R scas_word_item" "state_io_rel R stos_byte_item" "state_io_rel R lods_byte_item"
  "state_io_rel R (ins_item n)" "state_io_rel R (outs_item n)" "state_io_rel R (skip_operand x)"
  unfolding rep_count_def rep_compare_def rep_plain_def rep_port_def rep_while_def cmps_byte_item_def
    cmps_word_item_def scas_byte_item_def scas_word_item_def stos_byte_item_def lods_byte_item_def ins_item_def
    outs_item_def skip_operand_def
  by (intro keep_intros | assumption)+

lemma keep_io [keep_intros]: "state_io_rel R (ins n)" "state_io_rel R (outs n)" "state_io_rel R cpuid"
proof -
  show "state_io_rel R (ins n)" "state_io_rel R (outs n)"
    unfolding ins_def outs_def by (intro keep_intros)+
  show "state_io_rel R cpuid"
    by (simp add: cpuid_def state_io_rel_def emu_run R_step R_refl)
qed

lemma keep_ops [keep_intros]:
  "state_io_rel R x86emuOp_add_byte_RM_R" "state_io_rel R x86emuOp_add_word_RM_R"
  "state_io_rel R x86emuOp_add_byte_R_RM" "state_io_rel R x86emuOp_add_word_R_RM"
  "state_io_rel R x86emuOp_add_byte_AL_IMM" "state_io_rel R x86emuOp_add_word_AX_IMM"
  "state_io_rel R x86emuOp_or_byte_RM_R" "state_io_rel R x86emuOp_or_word_RM_R"
  "state_io_rel R x86emuOp_or_byte_R_RM" "state_io_rel R x86emuOp_or_word_R_RM"
  "state_io_rel R x86emuOp_or_byte_AL_IMM" "state_io_rel R x86emuOp_or_word_AX_IMM"
  "state_io_rel R x86emuOp_adc_byte_RM_R" "state_io_rel R x86emuOp_adc_word_RM_R"
  "state_io_rel R x86emuOp_adc_byte_R_RM" "state_io_rel R x86emuOp_adc_word_R_RM"
  "state_io_rel R x86emuOp_adc_byte_AL_IMM" "state_io_rel R x86emuOp_adc_word_AX_IMM"
  "state_io_rel R x86emuOp_sbb_byte_RM_R" "state_io_rel R x86emuOp_sbb_word_RM_R"
  "state_io_rel R x86emuOp_sbb_byte_R_RM" "state_io_rel R x86emuOp_sbb_word_R_RM"
  "state_io_rel R x86emuOp_sbb_byte_AL_IMM" "state_io_rel R x86emuOp_sbb_word_AX_IMM"
  "state_io_rel R x86emuOp_and_byte_RM_R" "state_io_rel R x86emuOp_and_word_RM_R"
  "state_io_rel R x86emuOp_and_byte_R_RM" "state_io_rel R x86emuOp_and_word_R_RM"
  "state_io_rel R x86emuOp_and_byte_AL_IMM" "state_io_rel R x86emuOp_and_word_AX_IMM"
  "state_io_rel R x86emuOp_sub_byte_RM_R" "state_io_rel R x86emuOp_sub_word_RM_R"
  "state_io_rel R x86emuOp_sub_byte_R_RM" "state_io_rel R x86emuOp_sub_word_R_RM"
  "state_io_rel R x86emuOp_sub_byte_AL_IMM" "state_io_rel R x86emuOp_sub_word_AX_IMM"
  "state_io_rel R x86emuOp_xor_byte_RM_R" "state_io_rel R x86emuOp_xor_word_RM_R"
  "state_io_rel R x86emuOp_xor_byte_R_RM" "state_io_rel R x86emuOp_xor_word_R_RM"
  "state_io_rel R x86emuOp_xor_byte_AL_IMM" "state_io_rel R x86emuOp_xor_word_AX_IMM"
  "state_io_rel R x86emuOp_cmp_byte_RM_R" "state_io_rel R x86emuOp_cmp_word_RM_R"
  "state_io_rel R x86emuOp_cmp_byte_R_RM" "state_io_rel R x86emuOp_cmp_word_R_RM"
  "state_io_rel R x86emuOp_cmp_byte_AL_IMM" "state_io_rel R x86emuOp_cmp_word_AX_IMM"
  "state_io_rel R x86emuOp_segovr_ES" "state_io_rel R x86emuOp_segovr_CS" "state_io_rel R x86emuOp_segovr_SS"
  "state_io_rel R x86emuOp_segovr_DS" "state_io_rel R x86emuOp_segovr_FS" "state_io_rel R x86emuOp_segovr_GS"
  "state_io_rel R x86emuOp_prefix_data" "state_io_rel R x86emuOp_prefix_addr" "state_io_rel R x86emuOp_repne"
  "state_io_rel R x86emuOp_repe" "state_io_rel R x86emuOp_daa" "state_io_rel R x86emuOp_das"
  "state_io_rel R x86emuOp_aaa" "state_io_rel R x86emuOp_aas" "state_io_rel R x86emuOp_aam"
  "state_io_rel R x86emuOp_aad" "state_io_rel R x86emuOp_inc_AX" "state_io_rel R x86emuOp_inc_CX"
  "state_io_rel R x86emuOp_inc_DX" "state_io_rel R x86emuOp_inc_BX" "state_io_rel R x86emuOp_inc_SP"
  "state_io_rel R x86emuOp_inc_BP" "state_io_rel R x86emuOp_inc_SI" "state_io_rel R x86emuOp_inc_DI"
  "state_io_rel R x86emuOp_dec_AX" "state_io_rel R x86emuOp_dec_CX" "state_io_rel R x86emuOp_dec_DX"
  "state_io_rel R x86emuOp_dec_BX" "state_io_rel R x86emuOp_dec_SP" "state_io_rel R x86emuOp_dec_BP"
  "state_io_rel R x86emuOp_dec_SI" "state_io_rel R x86emuOp_dec_DI" "state_io_rel R x86emuOp_imul_word_IMM"
  "state_io_rel R x86emuOp_imul_byte_IMM" "state_io_rel R x86emuOp_opc80_byte_RM_IMM"
  "state_io_rel R x86emuOp_opc81_word_RM_IMM" "state_io_rel R x86emuOp_opc82_byte_RM_IMM"
  "state_io_rel R x86emuOp_opc83_word_RM_IMM" "state_io_rel R x86emuOp_test_byte_RM_R"
  "state_io_rel R x86emuOp_test_word_RM_R" "state_io_rel R x86emuOp_test_AL_IMM"
  "state_io_rel R x86emuOp_test_AX_IMM" "state_io_rel R x86emuOp_xchg_byte_RM_R"
  "state_io_rel R x86emuOp_xchg_word_RM_R" "state_io_rel R x86emuOp_mov_byte_RM_R"
  "state_io_rel R x86emuOp_mov_word_RM_R" "state_io_rel R x86emuOp_mov_byte_R_RM"
  "state_io_rel R x86emuOp_mov_word_R_RM" "state_io_rel R x86emuOp_mov_word_RM_SR"
  "state_io_rel R x86emuOp_lea_word_R_M" "state_io_rel R x86emuOp_mov_word_SR_RM"
  "state_io_rel R x86emuOp_pop_RM" "state_io_rel R x86emuOp_nop" "state_io_rel R x86emuOp_xchg_word_AX_CX"
  "state_io_rel R x86emuOp_xchg_word_AX_DX" "state_io_rel R x86emuOp_xchg_word_AX_BX"
  "state_io_rel R x86emuOp_xchg_word_AX_SP" "state_io_rel R x86emuOp_xchg_word_AX_BP"
  "state_io_rel R x86emuOp_xchg_word_AX_SI" "state_io_rel R x86emuOp_xchg_word_AX_DI"
  "state_io_rel R x86emuOp_cbw" "state_io_rel R x86emuOp_cwd" "state_io_rel R x86emuOp_sahf"
  "state_io_rel R x86emuOp_lahf" "state_io_rel R x86emuOp_mov_AL_M_IMM" "state_io_rel R x86emuOp_mov_AX_M_IMM"
  "state_io_rel R x86emuOp_mov_M_AL_IMM" "state_io_rel R x86emuOp_mov_M_AX_IMM"
  "state_io_rel R x86emuOp_mov_byte_AL_IMM" "state_io_rel R x86emuOp_mov_byte_CL_IMM"
  "state_io_rel R x86emuOp_mov_byte_DL_IMM" "state_io_rel R x86emuOp_mov_byte_BL_IMM"
  "state_io_rel R x86emuOp_mov_byte_AH_IMM" "state_io_rel R x86emuOp_mov_byte_CH_IMM"
  "state_io_rel R x86emuOp_mov_byte_DH_IMM" "state_io_rel R x86emuOp_mov_byte_BH_IMM"
  "state_io_rel R x86emuOp_mov_word_AX_IMM" "state_io_rel R x86emuOp_mov_word_CX_IMM"
  "state_io_rel R x86emuOp_mov_word_DX_IMM" "state_io_rel R x86emuOp_mov_word_BX_IMM"
  "state_io_rel R x86emuOp_mov_word_SP_IMM" "state_io_rel R x86emuOp_mov_word_BP_IMM"
  "state_io_rel R x86emuOp_mov_word_SI_IMM" "state_io_rel R x86emuOp_mov_word_DI_IMM"
  "state_io_rel R x86emuOp_mov_byte_RM_IMM" "state_io_rel R x86emuOp_mov_word_RM_IMM"
  "state_io_rel R x86emuOp_les_R_IMM" "state_io_rel R x86emuOp_lds_R_IMM" "state_io_rel R x86emuOp_xlat"
  "state_io_rel R x86emuOp_opcC0_byte_RM_MEM" "state_io_rel R x86emuOp_opcC1_word_RM_MEM"
  "state_io_rel R x86emuOp_opcD0_byte_RM_1" "state_io_rel R x86emuOp_opcD1_word_RM_1"
  "state_io_rel R x86emuOp_opcD2_byte_RM_CL" "state_io_rel R x86emuOp_opcD3_word_RM_CL"
  "state_io_rel R x86emuOp_opcF6_byte_RM" "state_io_rel R x86emuOp_opcF7_word_RM"
  "state_io_rel R x86emuOp_opcFE_byte_RM" "state_io_rel R x86emuOp_opcFF_word_RM"
  unfolding ops_handlers by (intro keep_intros | assumption)+

lemma keep_ctls [keep_intros]:
  "state_io_rel R x86emuOp_push_ES" "state_io_rel R x86emuOp_push_CS" "state_io_rel R x86emuOp_push_SS"
  "state_io_rel R x86emuOp_push_DS" "state_io_rel R x86emuOp_pop_ES" "state_io_rel R x86emuOp_pop_SS"
  "state_io_rel R x86emuOp_pop_DS" "state_io_rel R x86emuOp_push_AX" "state_io_rel R x86emuOp_push_CX"
  "state_io_rel R x86emuOp_push_DX" "state_io_rel R x86emuOp_push_BX" "state_io_rel R x86emuOp_push_SP"
  "state_io_rel R x86emuOp_push_BP" "state_io_rel R x86emuOp_push_SI" "state_io_rel R x86emuOp_push_DI"
  "state_io_rel R x86emuOp_pop_AX" "state_io_rel R x86emuOp_pop_CX" "state_io_rel R x86emuOp_pop_DX"
  "state_io_rel R x86emuOp_pop_BX" "state_io_rel R x86emuOp_pop_SP" "state_io_rel R x86emuOp_pop_BP"
  "state_io_rel R x86emuOp_pop_SI" "state_io_rel R x86emuOp_pop_DI" "state_io_rel R x86emuOp_push_all"
  "state_io_rel R x86emuOp_pop_all" "state_io_rel R x86emuOp_push_word_IMM"
  "state_io_rel R x86emuOp_push_byte_IMM" "state_io_rel R x86emuOp_pushf_word"
  "state_io_rel R x86emuOp_popf_word" "state_io_rel R x86emuOp_enter" "state_io_rel R x86emuOp_leave"
  "state_io_rel R x86emuOp_jump_near_O" "state_io_rel R x86emuOp_jump_near_NO"
  "state_io_rel R x86emuOp_jump_near_B" "state_io_rel R x86emuOp_jump_near_NB"
  "state_io_rel R x86emuOp_jump_near_Z" "state_io_rel R x86emuOp_jump_near_NZ"
  "state_io_rel R x86emuOp_jump_near_BE" "state_io_rel R x86emuOp_jump_near_NBE"
  "state_io_rel R x86emuOp_jump_near_S" "state_io_rel R x86emuOp_jump_near_NS"
  "state_io_rel R x86emuOp_jump_near_P" "state_io_rel R x86emuOp_jump_near_NP"
  "state_io_rel R x86emuOp_jump_near_L" "state_io_rel R x86emuOp_jump_near_NL"
  "state_io_rel R x86emuOp_jump_near_LE" "state_io_rel R x86emuOp_jump_near_NLE"
  "state_io_rel R x86emuOp_loopne" "state_io_rel R x86emuOp_loope" "state_io_rel R x86emuOp_loop"
  "state_io_rel R x86emuOp_jcxz" "state_io_rel R x86emuOp_jump_byte_IMM" "state_io_rel R x86emuOp_jump_near_IMM"
  "state_io_rel R x86emuOp_jump_far_IMM" "state_io_rel R x86emuOp_call_near_IMM"
  "state_io_rel R x86emuOp_call_far_IMM" "state_io_rel R x86emuOp_ret_near_IMM"
  "state_io_rel R x86emuOp_ret_near" "state_io_rel R x86emuOp_ret_far_IMM" "state_io_rel R x86emuOp_ret_far"
  "state_io_rel R x86emuOp_int3" "state_io_rel R x86emuOp_int_IMM" "state_io_rel R x86emuOp_into"
  "state_io_rel R x86emuOp_iret" "state_io_rel R x86emuOp_cmc" "state_io_rel R x86emuOp_clc"
  "state_io_rel R x86emuOp_stc" "state_io_rel R x86emuOp_cli" "state_io_rel R x86emuOp_sti"
  "state_io_rel R x86emuOp_cld" "state_io_rel R x86emuOp_std" "state_io_rel R x86emuOp_halt"
  "state_io_rel R x86emuOp_wait" "state_io_rel R x86emuOp_lock" "state_io_rel R x86emuOp_illegal_op"
  "state_io_rel R x86emuOp_in_byte_AL_IMM" "state_io_rel R x86emuOp_in_word_AX_IMM"
  "state_io_rel R x86emuOp_out_byte_IMM_AL" "state_io_rel R x86emuOp_out_word_IMM_AX"
  "state_io_rel R x86emuOp_in_byte_AL_DX" "state_io_rel R x86emuOp_in_word_AX_DX"
  "state_io_rel R x86emuOp_out_byte_DX_AL" "state_io_rel R x86emuOp_out_word_DX_AX"
  "state_io_rel R x86emuOp_movs_byte" "state_io_rel R x86emuOp_movs_word" "state_io_rel R x86emuOp_cmps_byte"
  "state_io_rel R x86emuOp_cmps_word" "state_io_rel R x86emuOp_scas_byte" "state_io_rel R x86emuOp_scas_word"
  "state_io_rel R x86emuOp_stos_byte" "state_io_rel R x86emuOp_stos_word" "state_io_rel R x86emuOp_lods_byte"
  "state_io_rel R x86emuOp_lods_word" "state_io_rel R x86emuOp_ins_byte" "state_io_rel R x86emuOp_ins_word"
  "state_io_rel R x86emuOp_outs_byte" "state_io_rel R x86emuOp_outs_word"
  "state_io_rel R x86emuOp_esc_coprocess_d8" "state_io_rel R x86emuOp_esc_coprocess_d9"
  "state_io_rel R x86emuOp_esc_coprocess_da" "state_io_rel R x86emuOp_esc_coprocess_db"
  "state_io_rel R x86emuOp_esc_coprocess_dc" "state_io_rel R x86emuOp_esc_coprocess_dd"
  "state_io_rel R x86emuOp_esc_coprocess_de" "state_io_rel R x86emuOp_esc_coprocess_df"
  unfolding ctl_handlers by (intro keep_intros | assumption)+

lemma keep_dshift [keep_intros]:
  "operand_ok w \<Longrightarrow> (\<And>s. alu_ok (\<lambda>d n. f d s n)) \<Longrightarrow> state_io_rel R amt \<Longrightarrow> state_io_rel R (dshift_RM_R w f amt x)"
  "alu_ok (\<lambda>d n. shld_word d s16 n)" "alu_ok (\<lambda>d n. shld_long d s32 n)"
  "alu_ok (\<lambda>d n. shrd_word d s16 n)" "alu_ok (\<lambda>d n. shrd_long d s32 n)"
proof -
  assume "operand_ok w" "\<And>s. alu_ok (\<lambda>d n. f d s n)" "state_io_rel R amt"
  moreover from this(2) have "state_io_rel R (State (f d s n))" for d s n
    by (auto simp: alu_ok_def intro: keep_State)
  ultimately show "state_io_rel R (dshift_RM_R w f amt x)"
    unfolding dshift_RM_R_def by (intro keep_intros | assumption)+
qed (unfold alu_ok_def shld_word_def shld_long_def shrd_word_def shrd_long_def,
     (auto simp: Let_def intro!: R_intros))

lemma keep_bits [keep_intros]:
  "operand_ok w \<Longrightarrow> state_io_rel R (bit_RM w n idx g x)" "operand_ok w \<Longrightarrow> state_io_rel R (bit_RM_IMM w n x)"
  "operand_ok w \<Longrightarrow> state_io_rel R (scan_R_RM w h x)"
  "operand_ok w' \<Longrightarrow> operand_ok w2 \<Longrightarrow> state_io_rel R (extend_R_RM w' e w2 x)"
  unfolding bit_RM_def bit_RM_IMM_def scan_R_RM_def extend_R_RM_def by (intro keep_intros | assumption)+

lemma keep_rdtsc: "state_io_rel R x86emuOp2_rdtsc"
  unfolding x86emuOp2_rdtsc_def by (rule keep_instr) (simp add: state_io_rel_def emu_run R_step R_refl)

lemma keep_ops2 [keep_intros]:
  "state_io_rel R x86emuOp2_illegal_op" "state_io_rel R x86emuOp2_rdtsc"
  "state_io_rel R (x86emuOp2_long_jump op2)" "state_io_rel R (x86emuOp2_set_byte op2)"
  "state_io_rel R x86emuOp2_push_FS" "state_io_rel R x86emuOp2_pop_FS" "state_io_rel R x86emuOp2_push_GS"
  "state_io_rel R x86emuOp2_pop_GS" "state_io_rel R x86emuOp2_cpuid" "state_io_rel R x86emuOp2_bt_R"
  "state_io_rel R x86emuOp2_bts_R" "state_io_rel R x86emuOp2_btr_R" "state_io_rel R x86emuOp2_btc_R"
  "state_io_rel R x86emuOp2_btX_I" "state_io_rel R x86emuOp2_bsf" "state_io_rel R x86emuOp2_bsr"
  "state_io_rel R x86emuOp2_shld_IMM" "state_io_rel R x86emuOp2_shld_CL" "state_io_rel R x86emuOp2_shrd_IMM"
  "state_io_rel R x86emuOp2_shrd_CL" "state_io_rel R x86emuOp2_imul_R_RM" "state_io_rel R x86emuOp2_lss_R_IMM"
  "state_io_rel R x86emuOp2_lfs_R_IMM" "state_io_rel R x86emuOp2_lgs_R_IMM"
  "state_io_rel R x86emuOp2_movzx_byte_R_RM" "state_io_rel R x86emuOp2_movzx_word_R_RM"
  "state_io_rel R x86emuOp2_movsx_byte_R_RM" "state_io_rel R x86emuOp2_movsx_word_R_RM"
  "state_io_rel R (x86emuOp2_bswap op2)"
  unfolding ops2_handlers by (intro keep_rdtsc [unfolded ops2_handlers] keep_intros | assumption)+

text \<open>Every entry of both tables keeps the relation.\<close>

lemma keep_optab2: "list_all (state_io_rel R) (x86emu_optab2 op2)"
  by (simp only: x86emu_optab2_def list.pred_inject keep_ops2 simp_thms)

lemma keep_two_byte: "state_io_rel R x86emuOp_two_byte"
proof -
  have "length (x86emu_optab2 b) = 256" for b by (simp add: x86emu_optab2_def)
  moreover have "unat b < 256" for b :: u8 using unat_bound [of b] by simp
  ultimately have "state_io_rel R (x86emu_optab2 b ! unat b)" for b
    using keep_optab2 [of b] by (simp add: list_all_length)
  then show ?thesis unfolding x86emuOp_two_byte_def by (intro keep_intros)
qed

lemma keep_optab: "list_all (state_io_rel R) x86emu_optab"
  by (simp only: x86emu_optab_def list.pred_inject keep_ops keep_ctls keep_two_byte simp_thms)

lemma keep_opcode: "state_io_rel R (x86emu_optab ! unat (op1 :: u8))"
proof -
  have "length x86emu_optab = 256" by (simp add: x86emu_optab_def)
  moreover have "unat op1 < 256" using unat_bound [of op1] by simp
  ultimately show ?thesis using keep_optab by (simp add: list_all_length)
qed

end

subsection \<open>The whole loop\<close>

text \<open>Relations that also allow what the loop itself does to the machine.\<close>

locale emu_round_relation = emu_relation +
  assumes R_intr: "R m (m\<lparr>intr := 0\<rparr>)"
begin

lemma keep_round: "R m (exec exec_round m)"
proof -
  have z: "state_io_rel R (upd (\<lambda>m. m\<lparr>intr := 0\<rparr>))" by (rule keep_upd) (rule R_intr)
  have "state_io_rel R x86emu_intr_handle"
    unfolding x86emu_intr_handle_def by (intro keep_bind keep_ctrl keep_ctl z)
  then have "state_io_rel R exec_round"
    unfolding exec_round_def by (intro keep_bind keep_ctrl keep_decode keep_opcode)
  then show ?thesis by (simp add: state_io_rel_def exec_def)
qed

end

locale emu_loop_relation = emu_round_relation +
  assumes R_debug: "R m (m\<lparr>debug := debug m AND NOT DEBUG_EXIT\<rparr>)"
begin

lemma keep_loop: "exec_loop m = Some m' \<Longrightarrow> R m m'"
proof (erule exec_loop.raw_induct [rotated])
  fix loop and m m' :: x86
  assume IH: "\<And>x y. loop x = Some y \<Longrightarrow> R x y"
  assume "(if intr m AND INTR_HALTED \<noteq> 0 then Some m
      else let m1 = exec exec_round m in
        if fault m1 then Some m1
        else if debug m1 AND DEBUG_EXIT \<noteq> 0 then Some (m1\<lparr>debug := debug m1 AND NOT DEBUG_EXIT\<rparr>)
        else loop m1) = Some m'"
  then show "R m m'"
    by (auto simp: Let_def R_refl split: if_splits
        intro: keep_round R_trans [OF keep_round IH] R_trans [OF keep_round R_debug])
qed

lemma keep_exec: "X86EMU_exec m = Some m' \<Longrightarrow> R m m'"
  unfolding X86EMU_exec_def by (blast intro: R_trans R_intr keep_loop)

end

section \<open>The relations\<close>

definition halt_kept :: "x86 \<Rightarrow> x86 \<Rightarrow> bool" where
  "halt_kept m m' \<longleftrightarrow> (intr m AND INTR_HALTED \<noteq> 0 \<longrightarrow> intr m' AND INTR_HALTED \<noteq> 0)"

definition debug_kept :: "x86 \<Rightarrow> x86 \<Rightarrow> bool" where
  "debug_kept m m' \<longleftrightarrow> debug m' = debug m"

text \<open>The port accesses made so far stay recorded, the devices and the memory size are the same, and a trap stays a trap.\<close>

definition world_kept :: "x86 \<Rightarrow> x86 \<Rightarrow> bool" where
  "world_kept m m' \<longleftrightarrow> (\<exists>es. io_log m' = es @ io_log m) \<and> io_dev m' = io_dev m \<and>
     mem_size m' = mem_size m \<and> (fault m \<longrightarrow> fault m')"

lemma or_keeps_bits: "(a :: u32) AND k \<noteq> 0 \<Longrightarrow> (a OR v) AND k \<noteq> 0"
  by (auto simp: bit_eq_iff bit_simps)

interpretation halt: emu_relation halt_kept
  by unfold_locales (simp_all add: halt_kept_def or_keeps_bits)

interpretation dbg: emu_round_relation debug_kept
  by unfold_locales (simp_all add: debug_kept_def)

interpretation world: emu_loop_relation world_kept
  by unfold_locales (auto simp: world_kept_def)

lemma exec_loop_stopped:
  assumes "exec_loop m = Some m'" and "debug m AND DEBUG_EXIT = 0"
  shows "intr m' AND INTR_HALTED \<noteq> 0 \<or> fault m'"
proof -
  have "debug m AND DEBUG_EXIT = 0 \<longrightarrow> intr m' AND INTR_HALTED \<noteq> 0 \<or> fault m'"
    using assms(1)
  proof (rule exec_loop.raw_induct [rotated])
    fix loop :: "x86 \<Rightarrow> x86 option" and m m' :: x86
    assume IH: "\<And>x y. loop x = Some y \<Longrightarrow> debug x AND DEBUG_EXIT = 0 \<longrightarrow> intr y AND INTR_HALTED \<noteq> 0 \<or> fault y"
    assume "(if intr m AND INTR_HALTED \<noteq> 0 then Some m
        else let m1 = exec exec_round m in
          if fault m1 then Some m1
          else if debug m1 AND DEBUG_EXIT \<noteq> 0 then Some (m1\<lparr>debug := debug m1 AND NOT DEBUG_EXIT\<rparr>)
          else loop m1) = Some m'"
    with dbg.keep_round [of m] IH
    show "debug m AND DEBUG_EXIT = 0 \<longrightarrow> intr m' AND INTR_HALTED \<noteq> 0 \<or> fault m'"
      by (auto simp: Let_def debug_kept_def split: if_splits)
  qed
  with assms(2) show ?thesis by blast
qed

text \<open>No opcode revives a halted machine or touches the debugger's flags: once HLT has run, the loop is left.\<close>

lemma opcode_keeps_halt:
  "halt_kept m (exec (x86emu_optab ! unat (op1 :: u8)) m) \<and> debug_kept m (exec (x86emu_optab ! unat op1) m)"
  using halt.keep_opcode [of op1] dbg.keep_opcode [of op1]
  by (simp add: state_io_rel_def exec_def)

end
