(* ===== verification/X86Run.thy ===== *)
theory X86Run
  imports X86Safe
begin

text \<open>
  Running the emulated machine: single rounds of the execution loop, how \<open>X86EMU_exec\<close> returns, and a BIOS
  interrupt from the driver's call to its return.
\<close>

section \<open>Running single rounds\<close>

lemma round_no_intr:
  assumes "intr m = 0"
  shows "exec exec_round m = exec (x86emu_optab ! unat (mem8 m (code_addr m))) (set_IP (R_IP m + 1) m)"
  using assms by (simp add: exec_round_def emu_run exec_def)

lemma loop_round:
  assumes "intr m = 0" "exec (x86emu_optab ! unat (mem8 m (code_addr m))) (set_IP (R_IP m + 1) m) = m1"
    "\<not> fault m1" "debug m1 AND DEBUG_EXIT = 0"
  shows "exec_loop m = exec_loop m1"
  using assms by (subst exec_loop.simps) (simp add: round_no_intr Let_def)

lemma loop_halted: "intr m AND INTR_HALTED \<noteq> 0 \<Longrightarrow> exec_loop m = Some m"
  by (subst exec_loop.simps) simp

lemma optab_halt: "x86emu_optab ! 0xF4 = x86emuOp_halt" "x86emu_optab ! 0xCF = x86emuOp_iret"
  by (simp_all add: x86emu_optab_def)

lemma loop_hlt:
  assumes "intr m = 0" "mem8 m (code_addr m) = 0xF4" "\<not> fault m" "debug m AND DEBUG_EXIT = 0"
  shows "exec_loop m = Some ((set_IP (R_IP m + 1) m)\<lparr>intr := INTR_HALTED, mode := mode m AND NOT SYSMODE_CLRMASK\<rparr>)"
proof -
  have "exec (x86emu_optab ! unat (mem8 m (code_addr m))) (set_IP (R_IP m + 1) m) =
      (set_IP (R_IP m + 1) m)\<lparr>intr := INTR_HALTED, mode := mode m AND NOT SYSMODE_CLRMASK\<rparr>"
    using assms by (simp add: optab_halt x86emuOp_halt_def instr_def emu_run exec_def)
  from loop_round [OF assms(1) this] assms show ?thesis
    by (simp add: loop_halted INTR_HALTED_def)
qed

text \<open>When \<open>X86EMU_exec\<close> returns to a caller that did not set the debugger's exit flag, the emulated machine
  is halted or the kernel's processor trapped; no port access made before the call is lost.
\<close>

theorem x86_exec_returns_halted:
  assumes "X86EMU_exec m = Some m'" and "debug m AND DEBUG_EXIT = 0"
  shows "(intr m' AND INTR_HALTED \<noteq> 0 \<or> fault m') \<and> world_kept m m'"
  using assms exec_loop_stopped [of "m\<lparr>intr := 0\<rparr>" m'] world.keep_exec [of m m']
  by (simp add: X86EMU_exec_def)

theorem x86_exec_returns_halted_witness:
  "let m = x86_zero\<lparr>ram := (\<lambda>_. 0xF4)\<rparr>; m' = m\<lparr>gIP := 1, intr := 4\<rparr> in
   X86EMU_exec m = Some m' \<and> (intr m' AND INTR_HALTED \<noteq> 0 \<or> fault m') \<and> world_kept m m'"
proof -
  let ?m = "x86_zero\<lparr>ram := (\<lambda>_. 0xF4)\<rparr>"
  have "X86EMU_exec ?m = Some (?m\<lparr>gIP := 1, intr := 4\<rparr>)"
    unfolding X86EMU_exec_def
    by (subst loop_hlt) (simp_all add: x86_zero_def mem8_def INTR_HALTED_def lo16_def put_lo16_def)
  moreover have "debug ?m AND DEBUG_EXIT = 0" by (simp add: x86_zero_def)
  ultimately show ?thesis using x86_exec_returns_halted [of ?m] by (simp add: Let_def)
qed

lemma exec_iret:
  assumes "R_SS m = 0" "R_SP m = 0x7DFA"
  shows "exec x86emuOp_iret m =
    m\<lparr>gIP := put_lo16 (mem16 m 0x7DFA) (gIP m), R_CS := mem16 m 0x7DFC, FLAGS := ucast (mem16 m 0x7DFE),
      gSP := put_lo16 0x7E00 (gSP m), mode := mode m AND NOT SYSMODE_CLRMASK\<rparr>"
  using assms
  by (simp add: x86emuOp_iret_def instr_def emu_run exec_def stack_addr_def mem16_def)

section \<open>Running an interrupt handler\<close>

text \<open>Rounds of the loop that neither halt the machine nor leave the loop.\<close>

inductive rounds :: "x86 \<Rightarrow> x86 \<Rightarrow> bool" where
  rounds_refl: "rounds m m"
| rounds_step: "intr m AND INTR_HALTED = 0 \<Longrightarrow> \<not> fault (exec exec_round m) \<Longrightarrow>
    debug (exec exec_round m) AND DEBUG_EXIT = 0 \<Longrightarrow> rounds (exec exec_round m) m' \<Longrightarrow> rounds m m'"

inductive_cases rounds_cases: "rounds m m'"

lemma rounds_loop: "rounds m m' \<Longrightarrow> exec_loop m = exec_loop m'"
proof (induction rule: rounds.induct)
  case (rounds_step m m')
  then show ?case by (subst exec_loop.simps) (simp add: Let_def)
qed simp

text \<open>The machine as \<open>executeInterrupt\<close> hands it to the loop.\<close>

definition handler_entry :: "u8 \<Rightarrow> x86 \<Rightarrow> x86" where
  "handler_entry n m = (exec (X86EMU_prepareForInt n)
     ((put32 0x500 0xF4F4F4F4 m)\<lparr>R_CS := 0, gIP := 0x500, R_SS := 0, gSP := 0x7E00\<rparr>))\<lparr>intr := 0\<rparr>"

text \<open>A handler is about to return: it is at an IRET, and its stack frame and the halt instruction are in place.\<close>

definition at_return :: "x86 \<Rightarrow> bool" where
  "at_return m \<longleftrightarrow> intr m = 0 \<and> \<not> fault m \<and> debug m AND DEBUG_EXIT = 0 \<and> mem8 m (code_addr m) = 0xCF \<and>
     R_SS m = 0 \<and> R_SP m = 0x7DFA \<and> mem16 m 0x7DFA = 0x500 \<and> mem16 m 0x7DFC = 0 \<and> mem8 m 0x500 = 0xF4"

lemma code_addr_sp [simp]: "code_addr (m\<lparr>gSP := v\<rparr>) = code_addr m" by (simp add: code_addr_def)

lemma loop_return:
  assumes "at_return m"
  shows "exec_loop m = Some (m\<lparr>R_CS := 0, gIP := put_lo16 0x501 (gIP m), FLAGS := ucast (mem16 m 0x7DFE),
    gSP := put_lo16 0x7E00 (gSP m), intr := INTR_HALTED, mode := mode m AND NOT SYSMODE_CLRMASK\<rparr>)"
proof -
  let ?m0 = "set_IP (R_IP m + 1) m"
  let ?m1 = "m\<lparr>gIP := put_lo16 0x500 (gIP m), R_CS := 0, FLAGS := ucast (mem16 m 0x7DFE),
      gSP := put_lo16 0x7E00 (gSP m), mode := mode m AND NOT SYSMODE_CLRMASK\<rparr>"
  note r = assms [unfolded at_return_def]
  have "exec (x86emu_optab ! unat (mem8 m (code_addr m))) ?m0 = ?m1"
    using r exec_iret [of ?m0] by (simp add: optab_halt mem16_def)
  from loop_round [OF _ this] r have "exec_loop m = exec_loop ?m1" by simp
  also have "\<dots> = Some ((set_IP (R_IP ?m1 + 1) ?m1)\<lparr>intr := INTR_HALTED, mode := mode ?m1 AND NOT SYSMODE_CLRMASK\<rparr>)"
    by (rule loop_hlt) (use r in \<open>simp_all add: code_addr_def mem8_def\<close>)
  finally show ?thesis by (simp add: and.assoc)
qed

text \<open>
  C29: A BIOS interrupt returns: whatever the handler does, once its rounds of the execution loop have led from
  its entry to an IRET with the frame of the call still on its stack, \<open>executeInterrupt\<close> returns, with the
  machine halted at the HLT instruction the driver planted at 0x500, the stack pointer back at 0x7E00, the flags
  taken from the frame, and every other register, the memory and the ports as the handler left them.
\<close>

theorem x86_interrupt_returns:
  assumes "rounds (handler_entry n m) m'" and "at_return m'"
  shows "ibmPcBios_executeInterrupt n m =
    Some (m'\<lparr>R_CS := 0, gIP := put_lo16 0x501 (gIP m'), FLAGS := ucast (mem16 m' 0x7DFE),
      gSP := put_lo16 0x7E00 (gSP m'), intr := INTR_HALTED, mode := mode m' AND NOT SYSMODE_CLRMASK\<rparr>)"
  using rounds_loop [OF assms(1)] loop_return [OF assms(2)]
  by (simp add: ibmPcBios_executeInterrupt_def X86EMU_exec_def handler_entry_def)

lemma entry_numbers [simp]:
  "lo16 0x7E00 = 0x7E00" "lo16 0x500 = 0x500" "put_lo16 0x7DFA 0x7E00 = 0x7DFA"
  by code_simp+

text \<open>The stack of the three pushes and the halt instruction, and where the handler starts.\<close>

definition entry_mem :: "x86 \<Rightarrow> x86" where
  "entry_mem m = put16 0x7DFC 0 (put16 0x7DFE (ucast (FLAGS m)) (put32 0x500 0xF4F4F4F4 m))"

lemma FLAGS_put32: "FLAGS (put32 a v m) = FLAGS m" by (simp add: put32_def)

lemma entry_state:
  "handler_entry n m = (put16 0x7DFA 0x500 (entry_mem m))\<lparr>R_SS := 0, gSP := 0x7DFA,
     R_CS := mem16 (entry_mem m) (ucast n * 4 + 2),
     gIP := put_lo16 (mem16 (put16 0x7DFA 0x500 (entry_mem m)) (ucast n * 4)) 0x500,
     FLAGS := (FLAGS m AND NOT F_IF) AND NOT F_TF, intr := 0\<rparr>"
  by (simp add: handler_entry_def X86EMU_prepareForInt_def enter_interrupt_def exec_def emu_run
    stack_addr_def CLEAR_FLAG_def entry_mem_def FLAGS_put32)

lemma vector_addr:
  "(ucast (n :: u8) * 4 :: u32) < 0x400" "(ucast n * 4 + 1 :: u32) < 0x400"
  "(ucast n * 4 + 2 :: u32) < 0x400" "(ucast n * 4 + 3 :: u32) < 0x400"
proof -
  have "unat n < 256" using unat_bound [of n] by simp
  then show "(ucast n * 4 :: u32) < 0x400" "(ucast n * 4 + 1 :: u32) < 0x400"
    "(ucast n * 4 + 2 :: u32) < 0x400" "(ucast n * 4 + 3 :: u32) < 0x400"
    by (simp_all add: word_less_nat_alt unat_word_ariths unsigned_ucast_eq take_bit_nat_eq_self)
qed

lemma ram_entry:
  "a < 0x500 \<or> (0x504 \<le> a \<and> a < 0x7DFA) \<or> 0x7E00 \<le> a \<Longrightarrow> ram (put16 0x7DFA 0x500 (entry_mem m)) a = ram m a"
  "a < 0x500 \<or> (0x504 \<le> a \<and> a < 0x7DFA) \<or> 0x7E00 \<le> a \<Longrightarrow> ram (entry_mem m) a = ram m a"
  by (auto simp: entry_mem_def put16_def put32_def)

lemma entry_vector:
  "mem16 (entry_mem m) (ucast n * 4 + 2) = mem16 m (ucast n * 4 + 2)"
  "mem16 (put16 0x7DFA 0x500 (entry_mem m)) (ucast n * 4) = mem16 m (ucast n * 4)" for n :: u8
proof -
  have "(a :: u32) < 0x400 \<Longrightarrow> a < 0x500" for a by (simp add: word_less_nat_alt)
  with vector_addr [of n] ram_entry [of _ m]
  show "mem16 (entry_mem m) (ucast n * 4 + 2) = mem16 m (ucast n * 4 + 2)"
    "mem16 (put16 0x7DFA 0x500 (entry_mem m)) (ucast n * 4) = mem16 m (ucast n * 4)"
    by (simp_all add: mem16_def add.assoc)
qed

lemma handler_entry_eq:
  "handler_entry n m = (put16 0x7DFA 0x500 (entry_mem m))\<lparr>R_SS := 0, gSP := 0x7DFA,
     R_CS := mem16 m (ucast n * 4 + 2), gIP := put_lo16 (mem16 m (ucast n * 4)) 0x500,
     FLAGS := (FLAGS m AND NOT F_IF) AND NOT F_TF, intr := 0\<rparr>"
  by (simp add: entry_state entry_vector)

lemma entry_frame:
  "mem16 (put16 0x7DFA 0x500 (entry_mem m)) 0x7DFA = 0x500" "mem16 (put16 0x7DFA 0x500 (entry_mem m)) 0x7DFC = 0"
  "mem16 (put16 0x7DFA 0x500 (entry_mem m)) 0x7DFE = ucast (FLAGS m)"
  "mem8 (put16 0x7DFA 0x500 (entry_mem m)) 0x500 = 0xF4"
  by (simp_all add: entry_mem_def mem16_other) (simp add: mem8_def put16_def put32_def)

definition bios_stub :: x86 where
  "bios_stub = x86_zero\<lparr>ram := (\<lambda>a. if a = 0x41 then 0x06 else if a = 0x600 then 0xB8 else if a = 0x601 then 0x34
     else if a = 0x602 then 0x12 else if a = 0x603 then 0xCF else 0)\<rparr>"


lemma stub_state:
  defines "e \<equiv> put16 0x7DFA 0x500 (entry_mem bios_stub)"
  shows "handler_entry 0x10 bios_stub = e\<lparr>R_SS := 0, gSP := 0x7DFA, R_CS := 0, gIP := 0x600, FLAGS := 0, intr := 0\<rparr>"
    "ram e 0x600 = 0xB8" "ram e 0x601 = 0x34" "ram e 0x602 = 0x12" "ram e 0x603 = 0xCF"
    "mode e = 0" "fault e = False" "debug e = 0" "gA e = 0"
proof -
  have v: "mem16 bios_stub 0x42 = 0" "mem16 bios_stub 0x40 = 0x600" "put_lo16 0x600 0x500 = 0x600"
    by (simp_all add: bios_stub_def mem16_def) code_simp
  show "handler_entry 0x10 bios_stub = e\<lparr>R_SS := 0, gSP := 0x7DFA, R_CS := 0, gIP := 0x600, FLAGS := 0, intr := 0\<rparr>"
    using v by (simp add: handler_entry_eq e_def) (simp add: bios_stub_def x86_zero_def)
  show "ram e 0x600 = 0xB8" "ram e 0x601 = 0x34" "ram e 0x602 = 0x12" "ram e 0x603 = 0xCF"
    unfolding e_def by (subst ram_entry, simp, simp add: bios_stub_def)+
  show "mode e = 0" "fault e = False" "debug e = 0" "gA e = 0"
    by (simp_all add: e_def entry_mem_def put16_def put32_def bios_stub_def x86_zero_def)
qed

theorem x86_interrupt_returns_witness:
  "\<exists>m'. ibmPcBios_executeInterrupt 0x10 bios_stub = Some m' \<and> gA m' = 0x1234 \<and> gSP m' = 0x7E00 \<and> R_CS m' = 0"
proof -
  let ?e = "put16 0x7DFA 0x500 (entry_mem bios_stub)"
  let ?h = "handler_entry 0x10 bios_stub"
  let ?m = "?h\<lparr>gIP := 0x603, gA := 0x1234\<rparr>"
  have n: "lo16 0x600 = 0x600" "lo16 0x601 = 0x601" "lo16 0x603 = 0x603" "put_lo16 0x601 0x600 = 0x601" "put_lo16 0x603 0x601 = 0x603"
    "put_lo16 0x603 0x600 = 0x603" "put_lo16 0x1234 0 = 0x1234" "lo16 0x7DFA = 0x7DFA" "put_lo16 0x7E00 0x7DFA = 0x7E00"
    by code_simp+
  have o: "x86emu_optab ! 0xB8 = x86emuOp_mov_word_AX_IMM" by (simp add: x86emu_optab_def)
  have "exec exec_round ?h = exec x86emuOp_mov_word_AX_IMM (?h\<lparr>gIP := 0x601\<rparr>)"
    using stub_state n o by (simp add: round_no_intr code_addr_def mem8_def)
  also have "\<dots> = ?m"
    using stub_state n
    by (simp add: x86emuOp_mov_word_AX_IMM_def mov_reg_IMM_def instr_def sized_def mode_is_def emu_run exec_def
        code_addr_def mem16_def wr16_def)
  finally have r: "exec exec_round ?h = ?m" .
  have "rounds ?h ?m" 
    by (rule rounds_step) (use stub_state r in \<open>simp_all add: rounds_refl INTR_HALTED_def\<close>)
  moreover have "at_return ?m"
    using stub_state n entry_frame [of bios_stub] by (simp add: at_return_def code_addr_def mem8_def mem16_def)
  ultimately show ?thesis
    using x86_interrupt_returns [of "0x10" bios_stub ?m] stub_state n by simp
qed

end
