(* ===== verification/X86Flow.thy ===== *)
theory X86Flow
  imports X86Instr X86Run
begin

text \<open>
  Prefixes, the stack and the string instructions: how long a prefix lasts, which instructions undo each
  other, and that the repeated string instructions end with what the processor's manual promises.
\<close>

section \<open>Prefixes\<close>

text \<open>The instruction ends with no segment, operand size or address size prefix left, or the machine is halted.\<close>

definition settles :: "unit emu \<Rightarrow> bool" where
  "settles c \<longleftrightarrow> (\<forall>m. mode (exec c m) AND SYSMODE_CLRMASK = 0 \<or> intr (exec c m) AND INTR_HALTED \<noteq> 0)"

lemma and_not_and: "(x AND NOT k) AND k = (0 :: u32)"
  by (rule bit_word_eqI) (auto simp: bit_simps)

lemma settles_instr: "settles (instr b)" "settles (instr_rm k)" "settles (instr_rm_sized l w)"
  by (simp_all add: settles_def instr_rm_def instr_rm_sized_def exec_instr end_instr_def and_not_and)

lemma settles_halt: "settles HALT_SYS"
proof -
  have "(x OR INTR_HALTED) AND INTR_HALTED \<noteq> 0" for x
  proof -
    have "bit ((x OR INTR_HALTED) AND INTR_HALTED) 2" by (simp add: INTR_HALTED_def bit_simps)
    then show ?thesis by fastforce
  qed
  then show ?thesis by (simp add: settles_def exec_def emu_run)
qed

lemmas shape_handlers = unary_reg_def xchg_AX_def mov_reg_IMM_def push_sreg_def pop_sreg_def push_reg_def
  pop_reg_def jump_near_if_def loop_if_def

lemma settles_ops2: "i < 256 \<Longrightarrow> settles (x86emu_optab2 op2 ! i)"
proof -
  have "list_all settles (x86emu_optab2 op2)"
    unfolding x86emu_optab2_def by (simp add: ops2_handlers shape_handlers settles_instr settles_halt)
  moreover have "length (x86emu_optab2 op2) = 256" by (simp add: x86emu_optab2_def)
  ultimately show "i < 256 \<Longrightarrow> settles (x86emu_optab2 op2 ! i)" by (simp add: list_all_length)
qed

lemma settles_two_byte: "settles x86emuOp_two_byte"
proof -
  have "exec x86emuOp_two_byte m = exec (x86emu_optab2 (mem8 m (code_addr m)) ! unat (mem8 m (code_addr m))) (set_IP (R_IP m + 1) m)" for m
    by (simp add: x86emuOp_two_byte_def exec_def emu_run)
  moreover have "unat (b :: u8) < 256" for b using unsigned_less [of b, where 'a = nat] by simp
  ultimately show ?thesis using settles_ops2 unfolding settles_def by simp
qed

definition prefix_opcodes :: "nat list" where
  "prefix_opcodes = [0x26, 0x2E, 0x36, 0x3E, 0x64, 0x65, 0x66, 0x67]"

text \<open>
  C37: The eight prefixes for segments, operand size and address size end with the instruction they belong to:
  every opcode but these eight themselves, and every opcode behind 0x0F, leaves the machine with none of the eight
  set, or halted.  This is not so for REPE and REPNE, which only string instructions clear
  (\<open>x86_rep_prefix_order\<close> below).
\<close>

theorem x86_prefixes_end:
  "list_all (\<lambda>i. i \<in> set prefix_opcodes \<or> settles (x86emu_optab ! i)) [0..<256]"
proof -
  have "list_all (\<lambda>(i, c). i \<in> set prefix_opcodes \<or> settles c) (List.enumerate 0 x86emu_optab)"
    unfolding x86emu_optab_def
    by (simp add: ops_handlers ctl_handlers shape_handlers settles_instr settles_halt settles_two_byte prefix_opcodes_def)
  moreover have "length x86emu_optab = 256" by (simp add: x86emu_optab_def)
  ultimately show ?thesis by (auto simp: list_all_iff in_set_enumerate_eq)
qed


text \<open>The repeat prefixes take part in no such order: REPE and REPNE end an instruction themselves and drop a segment
  or size prefix in front of them, and since only string instructions clear them, a repeat prefix in front of any
  other instruction (F3 90, the encoding of PAUSE) stays set and repeats the next string instruction.
\<close>

theorem x86_rep_prefix_order:
  "mode (exec x86emuOp_repe (exec x86emuOp_segovr_ES x86_zero)) = SYSMODE_PREFIX_REPE \<and>
   mode (exec x86emuOp_segovr_ES (exec x86emuOp_repe x86_zero)) = SYSMODE_PREFIX_REPE OR SYSMODE_SEGOVR_ES \<and>
   mode_is SYSMODE_PREFIX_REPE (exec x86emuOp_nop (exec x86emuOp_repe x86_zero))"
  by (simp add: x86emuOp_repe_def x86emuOp_segovr_ES_def x86emuOp_nop_def exec_instr)
    (simp add: exec_def emu_run end_instr_def mode_is_def x86_zero_def sysmode_defs SYSMODE_CLRMASK_def SYSMODE_SEGMASK_def)

section \<open>The stack\<close>

text \<open>Words of one stack at offsets of the same parity do not overlap, also where the stack pointer wraps.\<close>

definition stack_base :: "x86 \<Rightarrow> u32" where
  "stack_base m = push_bit 4 (ucast (R_SS m))"

lemma stack_addr_base: "stack_addr m = stack_base m + ucast (R_SP m)"
  by (simp add: stack_addr_def stack_base_def)

lemma stack_base_simps [simp]:
  "stack_base (put16 a w m) = stack_base m" "stack_base (m\<lparr>gSP := v\<rparr>) = stack_base m"
  by (simp_all add: stack_base_def)

lemma ucast_ucast_id_16: "ucast (ucast x :: u32) = (x :: u16)"
  by (rule bit_word_eqI) (simp add: bit_simps)

lemma mem16_slot:
  fixes i j :: u16
  assumes "even (i - j)" and "i \<noteq> j"
  shows "mem16 (put16 (b + ucast i) w m) (b + ucast j) = mem16 m (b + ucast j)"
proof -
  have p: "even (ucast x :: u32) \<longleftrightarrow> even x" for x :: u16
    using bit_unsigned_iff [where 'a = u32 and 'b = 16, of x 0] by (simp add: bit_0)
  have "ucast i \<noteq> (ucast j :: u32)" using assms(2) by (metis ucast_ucast_id_16)
  moreover have "even i \<longleftrightarrow> even j" using assms(1) by simp
  then have "ucast i \<noteq> (ucast j :: u32) + 1" "ucast j \<noteq> (ucast i :: u32) + 1"
    using p even_plus_one_iff by metis+
  ultimately show ?thesis
    by (intro mem16_other) (auto simp: add.assoc)
qed



lemma stack_base_other [simp]:
  "stack_base (m\<lparr>FLAGS := f\<rparr>) = stack_base m" "stack_base (m\<lparr>R_CS := s\<rparr>) = stack_base m"
  "stack_base (m\<lparr>gIP := v\<rparr>) = stack_base m"
  by (simp_all add: stack_base_def)

definition stack_slot :: "x86 \<Rightarrow> u16 \<Rightarrow> u32" where
  "stack_slot m k = stack_base m + ucast (R_SP m - k)"

lemma mem16_slots:
  assumes "even (k - l)" "k \<noteq> l"
  shows "mem16 (put16 (stack_slot m k) w m') (stack_slot m l) = mem16 m' (stack_slot m l)"
proof -
  have "R_SP m - k - (R_SP m - l) = - (k - l)" by (simp add: algebra_simps)
  with assms show ?thesis unfolding stack_slot_def by (intro mem16_slot) auto
qed

lemma exec_enter_frame:
  obtains cs ip where "exec (enter_interrupt n) m =
    (put16 (stack_slot m 6) (R_IP m) (put16 (stack_slot m 4) (R_CS m) (put16 (stack_slot m 2) (ucast (FLAGS m)) m)))
      \<lparr>FLAGS := (FLAGS m AND NOT F_IF) AND NOT F_TF, R_CS := cs, gSP := put_lo16 (R_SP m - 6) (gSP m), gIP := put_lo16 ip (gIP m)\<rparr>"
proof -
  have "\<exists>cs ip. exec (enter_interrupt n) m =
    (put16 (stack_slot m 6) (R_IP m) (put16 (stack_slot m 4) (R_CS m) (put16 (stack_slot m 2) (ucast (FLAGS m)) m)))
      \<lparr>FLAGS := (FLAGS m AND NOT F_IF) AND NOT F_TF, R_CS := cs, gSP := put_lo16 (R_SP m - 6) (gSP m), gIP := put_lo16 ip (gIP m)\<rparr>"
    by (rule exI, rule exI) (simp add: exec_def enter_interrupt_def emu_run CLEAR_FLAG_def stack_addr_base stack_slot_def)
  with that show ?thesis by blast
qed

lemma exec_iret_frame:
  "exec x86emuOp_iret m = end_instr (m\<lparr>gIP := put_lo16 (mem16 m (stack_slot m 0)) (gIP m), R_CS := mem16 m (stack_slot m (- 2)),
     gSP := put_lo16 (R_SP m + 6) (gSP m), FLAGS := ucast (mem16 m (stack_slot m (- 4)))\<rparr>)"
  by (simp add: x86emuOp_iret_def exec_instr) (simp add: exec_def emu_run stack_slot_def stack_addr_base add.commute)


lemma slot_above: "R_SP m' = R_SP m - d \<Longrightarrow> stack_base m' = stack_base m \<Longrightarrow> stack_slot m' k = stack_slot m (d + k)"
  by (simp add: stack_slot_def diff_diff_add)

text \<open>The machine without its memory.\<close>

definition cpu :: "x86 \<Rightarrow> x86" where
  "cpu m = m\<lparr>ram := (\<lambda>_. 0)\<rparr>"

lemma cpu_simps [simp]:
  "cpu (put16 a w m) = cpu m" "cpu (m\<lparr>gSP := v\<rparr>) = (cpu m)\<lparr>gSP := v\<rparr>" "cpu (m\<lparr>gIP := v\<rparr>) = (cpu m)\<lparr>gIP := v\<rparr>"
  "cpu (m\<lparr>R_CS := s\<rparr>) = (cpu m)\<lparr>R_CS := s\<rparr>" "cpu (m\<lparr>FLAGS := v\<rparr>) = (cpu m)\<lparr>FLAGS := v\<rparr>"
  "cpu (m\<lparr>mode := v\<rparr>) = (cpu m)\<lparr>mode := v\<rparr>"
  by (simp_all add: cpu_def put16_def)

lemma cpu_wr16 [simp]: "cpu (wr16 r w m) = wr16 r w (cpu m)"
  by (cases r) (simp_all add: cpu_def wr16_def)

lemma cpu_same: "(cpu m)\<lparr>gSP := gSP m\<rparr> = cpu m" "(cpu m)\<lparr>R_CS := R_CS m\<rparr> = cpu m" "(cpu m)\<lparr>mode := mode m\<rparr> = cpu m"
  by (simp_all add: cpu_def)

text \<open>Between instructions, no prefix is set.\<close>

definition idle :: "x86 \<Rightarrow> bool" where
  "idle m \<longleftrightarrow> mode m AND SYSMODE_CLRMASK = 0"

lemma idle_mode: "idle m \<Longrightarrow> mode m AND NOT SYSMODE_CLRMASK = mode m"
  unfolding idle_def by (rule bit_word_eqI) (auto simp: bit_simps bit_eq_iff)

lemma idle_sized: "idle m \<Longrightarrow> run_state (sized l w) m = run_state w m"
proof -
  assume "idle m"
  then have "(mode m AND SYSMODE_CLRMASK) AND SYSMODE_PREFIX_DATA = 0" by (simp add: idle_def)
  then have "\<not> mode_is SYSMODE_PREFIX_DATA m"
    by (simp add: mode_is_def sysmode_masks(2) SYSMODE_PREFIX_DATA_def and.assoc)
  then show ?thesis by (simp add: sized_def emu_run)
qed

lemma idle_simps [simp]:
  "idle (put16 a w m) = idle m" "idle (m\<lparr>gSP := v\<rparr>) = idle m" "idle (m\<lparr>gIP := v\<rparr>) = idle m" "idle (m\<lparr>R_CS := s\<rparr>) = idle m"
  "idle (m\<lparr>FLAGS := v\<rparr>) = idle m" "idle (wr16 r u m) = idle m"
  by (cases r; simp add: idle_def wr16_def)+

lemma cpu_end: "idle m \<Longrightarrow> cpu (end_instr m) = cpu m"
  by (simp add: end_instr_def idle_mode cpu_same)

lemma idle_end [simp]: "idle m \<Longrightarrow> end_instr m = m"
  by (simp add: end_instr_def idle_mode)

lemma rd16_stack [simp]: "rd16 r (put16 a w m) = rd16 r m"
  by (cases r) (simp_all add: rd16_def put16_def)

text \<open>An interrupt that returns at once leaves the processor as it was, but for the upper half of the flags.\<close>

lemma iret_undoes_interrupt:
  assumes "idle m"
  shows "cpu (exec x86emuOp_iret (exec (enter_interrupt n) m)) = (cpu m)\<lparr>FLAGS := ucast (ucast (FLAGS m) :: u16)\<rparr>"
proof -
  obtain cs ip where e: "exec (enter_interrupt n) m =
    (put16 (stack_slot m 6) (R_IP m) (put16 (stack_slot m 4) (R_CS m) (put16 (stack_slot m 2) (ucast (FLAGS m)) m)))
      \<lparr>FLAGS := (FLAGS m AND NOT F_IF) AND NOT F_TF, R_CS := cs, gSP := put_lo16 (R_SP m - 6) (gSP m), gIP := put_lo16 ip (gIP m)\<rparr>"
    (is "_ = ?f") by (rule exec_enter_frame)
  have s: "stack_slot ?f k = stack_slot m (6 + k)" for k by (rule slot_above) simp_all
  show ?thesis unfolding e exec_iret_frame s
    using assms by (simp add: mem16_slots) (simp add: cpu_def)
qed

lemma push_pop_word:
  assumes "idle m"
  shows "cpu (exec (pop_reg q') (exec (push_reg q) m)) = wr16 q' (rd16 q m) (cpu m)"
proof -
  let ?f = "(put16 (stack_slot m 2) (rd16 q m) m)\<lparr>gSP := put_lo16 (R_SP m - 2) (gSP m)\<rparr>"
  have p: "exec (push_reg q) m = ?f"
    unfolding push_reg_def exec_instr using assms
    by (simp add: exec_def emu_run stack_addr_base stack_slot_def idle_sized)
  show ?thesis unfolding p pop_reg_def exec_instr using assms
    by (simp add: exec_def emu_run stack_addr_base stack_slot_def idle_sized cpu_same)
qed

lemma call_ret:
  assumes "idle m"
  shows "cpu (exec x86emuOp_ret_near (exec x86emuOp_call_near_IMM m)) = set_IP (R_IP m + 2) (cpu m)"
    and "cpu (exec x86emuOp_ret_far (exec x86emuOp_call_far_IMM m)) = set_IP (R_IP m + 4) (cpu m)"
  using assms
  by (simp_all add: x86emuOp_ret_near_def x86emuOp_call_near_IMM_def x86emuOp_ret_far_def x86emuOp_call_far_IMM_def exec_instr)
    (simp_all add: exec_def emu_run stack_addr_base cpu_same mem16_slot, simp_all add: cpu_def add.commute)

lemma exec_push_words:
  "run_state (push_words [a, b, c, d, e, f, g, h]) m = ((),
    (put16 (stack_slot m 16) h (put16 (stack_slot m 14) g (put16 (stack_slot m 12) f (put16 (stack_slot m 10) e
      (put16 (stack_slot m 8) d (put16 (stack_slot m 6) c (put16 (stack_slot m 4) b (put16 (stack_slot m 2) a m))))))))
      \<lparr>gSP := put_lo16 (R_SP m - 16) (gSP m)\<rparr>)"
  by (simp add: emu_run stack_addr_base stack_slot_def)

lemma wr16_other [simp]:
  "mem16 (wr16 r w m) a = mem16 m a" "stack_base (wr16 r w m) = stack_base m" "r \<noteq> rESP \<Longrightarrow> gSP (wr16 r w m) = gSP m"
  by (cases r; simp add: wr16_def mem16_def stack_base_def)+

lemma wr16_gSP: "r \<noteq> rESP \<Longrightarrow> wr16 r w (m\<lparr>gSP := v\<rparr>) = (wr16 r w m)\<lparr>gSP := v\<rparr>"
  by (cases r) (simp_all add: wr16_def)

lemma exec_pop_all:
  assumes "idle m"
  shows "exec x86emuOp_pop_all m =
    (wr16 rEAX (mem16 m (stack_slot m (- 14))) (wr16 rECX (mem16 m (stack_slot m (- 12))) (wr16 rEDX (mem16 m (stack_slot m (- 10)))
    (wr16 rEBX (mem16 m (stack_slot m (- 8))) (wr16 rEBP (mem16 m (stack_slot m (- 4))) (wr16 rESI (mem16 m (stack_slot m (- 2)))
    (wr16 rEDI (mem16 m (stack_slot m 0)) m)))))))\<lparr>gSP := put_lo16 (R_SP m + 16) (gSP m)\<rparr>"
  unfolding x86emuOp_pop_all_def exec_instr using assms
  by (simp add: exec_def idle_sized emu_run stack_addr_base stack_slot_def wr16_gSP add.commute)

lemma wr16_same: "wr16 r (rd16 r m) m = m"
  by (cases r) (simp_all add: wr16_def rd16_def)

lemma pusha_popa:
  assumes "idle m"
  shows "cpu (exec x86emuOp_pop_all (exec x86emuOp_push_all m)) = cpu m"
proof -
  let ?f = "(put16 (stack_slot m 16) (R_DI m) (put16 (stack_slot m 14) (R_SI m) (put16 (stack_slot m 12) (R_BP m) (put16 (stack_slot m 10) (R_SP m)
      (put16 (stack_slot m 8) (R_BX m) (put16 (stack_slot m 6) (R_DX m) (put16 (stack_slot m 4) (R_CX m) (put16 (stack_slot m 2) (R_AX m) m))))))))
      \<lparr>gSP := put_lo16 (R_SP m - 16) (gSP m)\<rparr>"
  have p: "exec x86emuOp_push_all m = ?f"
    unfolding x86emuOp_push_all_def exec_instr using assms
    by (simp add: exec_def idle_sized exec_push_words del: push_words.simps)
  have s: "stack_slot ?f k = stack_slot m (16 + k)" for k by (rule slot_above) simp_all
  have i: "idle ?f" using assms by simp
  show ?thesis unfolding p exec_pop_all [OF i] s
    by (simp add: mem16_slots) (simp add: cpu_def wr16_def)
qed

text \<open>
  C33: Instructions that undo each other, wherever the stack lies, also when SP is odd or wraps: between instructions,
  a word register pushed is popped into any register, POPA restores what PUSHA saved, the near and the far return
  continue behind their call, and IRET undoes the entry into an interrupt handler up to the upper half of the flags.
  The processor is otherwise as before.
\<close>

theorem x86_stack_roundtrips:
  assumes "idle m"
  shows "cpu (exec (pop_reg q') (exec (push_reg q) m)) = wr16 q' (rd16 q m) (cpu m) \<and>
    cpu (exec x86emuOp_pop_all (exec x86emuOp_push_all m)) = cpu m \<and>
    cpu (exec x86emuOp_ret_near (exec x86emuOp_call_near_IMM m)) = set_IP (R_IP m + 2) (cpu m) \<and>
    cpu (exec x86emuOp_ret_far (exec x86emuOp_call_far_IMM m)) = set_IP (R_IP m + 4) (cpu m) \<and>
    cpu (exec x86emuOp_iret (exec (enter_interrupt n) m)) = (cpu m)\<lparr>FLAGS := ucast (ucast (FLAGS m) :: u16)\<rparr>"
  using assms by (simp add: push_pop_word pusha_popa call_ret iret_undoes_interrupt)

text \<open>PUSH AX, POP CX with the stack pointer at 1, so that the pushed word lies at the end of the segment.\<close>

theorem x86_stack_roundtrips_witness:
  "let m = x86_zero\<lparr>gA := 0x1234, gSP := 1\<rparr> in cpu (exec (pop_reg rECX) (exec (push_reg rEAX) m)) = (cpu m)\<lparr>gC := 0x1234\<rparr>"
proof -
  let ?m = "x86_zero\<lparr>gA := 0x1234, gSP := 1\<rparr>"
  have "idle ?m" by (simp add: idle_def x86_zero_def)
  from x86_stack_roundtrips [OF this, of rECX rEAX] show ?thesis
    by (simp add: Let_def cpu_def wr16_def rd16_def x86_zero_def lo16_def put_lo16_def)
qed

section \<open>Repeated string instructions\<close>

text \<open>A loop body that counts down CX.\<close>

definition counts_down :: "unit emu \<Rightarrow> bool" where
  "counts_down b \<longleftrightarrow> (\<forall>m. R_CX (exec b m) = R_CX m - 1)"

lemma run_rep_cx_Suc:
  "run_state (rep_cx (Suc n) b stop) m = (if R_CX m = 0 then ((), m)
    else if stop (exec b m) then ((), exec b m) else run_state (rep_cx n b stop) (exec b m))"
  by (cases "run_state b m") (simp add: emu_run exec_def)

lemma run_rep_cx_0 [simp]: "R_CX m = 0 \<Longrightarrow> run_state (rep_cx 0 b stop) m = ((), m)"
  by (simp add: emu_run)

declare rep_cx.simps(1) [simp del]

lemma run_rep_while: "run_state (rep_while b stop) m = run_state (rep_cx (unat (R_CX m)) b stop) m"
  by (simp add: rep_while_def emu_run)

lemma counts_down_less: "counts_down b \<Longrightarrow> unat (R_CX m) = Suc k \<Longrightarrow> unat (R_CX (exec b m)) = k"
  by (metis counts_down_def unat_minus_one diff_Suc_1 unat_eq_0 nat.distinct(1))

lemma rep_cx_enough:
  assumes "counts_down b" "unat (R_CX m) \<le> n"
  shows "run_state (rep_cx n b stop) m = run_state (rep_while b stop) m"
  using assms(2)
proof (induction n arbitrary: m)
  case 0
  then show ?case by (simp add: run_rep_while del: rep_cx.simps)
next
  case (Suc n)
  show ?case
  proof (cases "unat (R_CX m)")
    case 0
    then have "R_CX m = 0" by (simp add: unat_eq_0)
    then show ?thesis by (simp add: run_rep_while run_rep_cx_Suc del: rep_cx.simps(2))
  next
    case (Suc k)
    with counts_down_less [OF assms(1) Suc] Suc.prems Suc.IH [of "exec b m"]
    show ?thesis by (simp add: run_rep_while run_rep_cx_Suc del: rep_cx.simps(2))
  qed
qed

text \<open>The loop behaves as the one in the source: it tests CX, runs the body, tests the flag, and goes on.\<close>

lemma rep_while_unfold:
  assumes "counts_down b"
  shows "run_state (rep_while b stop) m = (if R_CX m = 0 then ((), m)
    else if stop (exec b m) then ((), exec b m) else run_state (rep_while b stop) (exec b m))"
proof (cases "unat (R_CX m)")
  case 0
  then have "R_CX m = 0" by (simp add: unat_eq_0)
  then show ?thesis by (simp add: run_rep_while)
next
  case (Suc k)
  with rep_cx_enough [OF assms, of "exec b m" k stop] counts_down_less [OF assms Suc]
  show ?thesis unfolding run_rep_while [of b stop m] Suc run_rep_cx_Suc by simp
qed

lemma rep_while_ends:
  assumes "counts_down b"
  shows "R_CX (exec (rep_while b stop) m) = 0 \<or> stop (exec (rep_while b stop) m)"
proof (induction "unat (R_CX m)" arbitrary: m)
  case 0
  then have "R_CX m = 0" by (simp add: unat_eq_0)
  then show ?case using rep_while_unfold [OF assms, of stop m] by (simp add: exec_def)
next
  case (Suc k)
  then have nz: "R_CX m \<noteq> 0" by auto
  have "unat (R_CX (exec b m)) = k" using Suc.hyps(2) assms unat_minus_one [OF nz] by (simp add: counts_down_def)
  with Suc.hyps(1) [of "exec b m"] show ?case
    using rep_while_unfold [OF assms, of stop m] nz by (simp add: exec_def)
qed


lemma data_segment_keeps:
  "gC (snd (run_state get_data_segment m)) = gC m" "gSI (snd (run_state get_data_segment m)) = gSI m"
  "gDI (snd (run_state get_data_segment m)) = gDI m" "fault (snd (run_state get_data_segment m)) = fault m"
  by (simp_all add: get_data_segment_def emu_run)

lemma flags_keep_regs [simp]:
  "gC (SET_FLAG f m) = gC m" "gC (CLEAR_FLAG f m) = gC m" "gC (CONDITIONAL_SET_FLAG c f m) = gC m"
  "gSI (SET_FLAG f m) = gSI m" "gSI (CLEAR_FLAG f m) = gSI m" "gSI (CONDITIONAL_SET_FLAG c f m) = gSI m"
  "gDI (SET_FLAG f m) = gDI m" "gDI (CLEAR_FLAG f m) = gDI m" "gDI (CONDITIONAL_SET_FLAG c f m) = gDI m"
  "fault (SET_FLAG f m) = fault m" "fault (CLEAR_FLAG f m) = fault m" "fault (CONDITIONAL_SET_FLAG c f m) = fault m"
  by (simp_all add: SET_FLAG_def CLEAR_FLAG_def CONDITIONAL_SET_FLAG_def)

text \<open>Comparing, storing or loading one element leaves the count, both pointers and the trap alone.\<close>

definition counters_kept :: "x86 \<Rightarrow> x86 \<Rightarrow> bool" where
  "counters_kept m m' \<longleftrightarrow> gC m' = gC m \<and> gSI m' = gSI m \<and> gDI m' = gDI m \<and> fault m' = fault m"

lemma cmp_keeps_counters:
  "counters_kept m (snd (cmp_byte d s m))" "counters_kept m (snd (cmp_word d16 s16 m))" "counters_kept m (snd (cmp_long d32 s32 m))"
  by (simp_all add: counters_kept_def cmp_byte_def cmp_word_def cmp_long_def Let_def)

lemmas string_access = fetch_data_byte_def fetch_data_word_def fetch_data_long_def fetch_data_byte_abs_def
  fetch_data_word_abs_def fetch_data_long_abs_def store_data_byte_abs_def

lemma string_items_keep:
  "counters_kept m (exec cmps_byte_item m)" "counters_kept m (exec cmps_word_item m)" "counters_kept m (exec scas_byte_item m)"
  "counters_kept m (exec scas_word_item m)" "counters_kept m (exec stos_byte_item m)" "counters_kept m (exec lods_byte_item m)"
  using data_segment_keeps [of m] cmp_keeps_counters [unfolded counters_kept_def]
  by (auto simp: counters_kept_def cmps_byte_item_def cmps_word_item_def scas_byte_item_def scas_word_item_def stos_byte_item_def
      lods_byte_item_def string_access sized_def exec_def emu_run only_snd_def put8_def split: prod.split)

text \<open>\<open>k\<close> elements were handled: CX is reduced by \<open>k\<close>, the pointers in use moved by \<open>k\<close> steps, and nothing trapped.\<close>

definition string_moved :: "bool \<Rightarrow> bool \<Rightarrow> u16 \<Rightarrow> nat \<Rightarrow> x86 \<Rightarrow> x86 \<Rightarrow> bool" where
  "string_moved si di inc k m m' \<longleftrightarrow> R_CX m' = R_CX m - of_nat k \<and> fault m' = fault m \<and>
     R_SI m' = (if si then R_SI m + of_nat k * inc else R_SI m) \<and>
     R_DI m' = (if di then R_DI m + of_nat k * inc else R_DI m)"

lemma string_moved_add:
  "string_moved si di inc j m m1 \<Longrightarrow> string_moved si di inc k m1 m2 \<Longrightarrow> string_moved si di inc (j + k) m m2"
  by (auto simp: string_moved_def algebra_simps)

lemma string_body:
  fixes item step :: "unit emu"
  assumes "\<And>m. counters_kept m (exec item m)"
    and "\<And>m. gC (exec step m) = gC m \<and> fault (exec step m) = fault m \<and>
      R_SI (exec step m) = (if si then R_SI m + inc else R_SI m) \<and> R_DI (exec step m) = (if di then R_DI m + inc else R_DI m)"
  shows "string_moved si di inc 1 m (exec (do { item; dec_CX; step }) m)"
proof -
  let ?m = "exec item m" let ?n = "?m\<lparr>gC := put_lo16 (R_CX ?m - 1) (gC ?m)\<rparr>"
  have "exec (do { item; dec_CX; step }) m = exec step ?n"
    by (simp add: exec_def emu_run dec_CX_def wr16_def split: prod.split)
  then show ?thesis using assms(1) [of m] assms(2) [of ?n] by (simp add: string_moved_def counters_kept_def)
qed

lemma rep_while_moves:
  assumes b: "\<And>m. string_moved si di inc 1 m (exec b m)"
  shows "\<exists>k \<le> unat (R_CX m). string_moved si di inc k m (exec (rep_while b stop) m) \<and>
    (k < unat (R_CX m) \<longrightarrow> stop (exec (rep_while b stop) m))"
proof (induction "unat (R_CX m)" arbitrary: m)
  case 0
  then have "R_CX m = 0" by (simp add: unat_eq_0)
  then show ?case by (simp add: exec_def run_rep_while string_moved_def)
next
  case (Suc n)
  have cd: "counts_down b" using b by (simp add: counts_down_def string_moved_def)
  have n: "unat (R_CX (exec b m)) = n" using counts_down_less [OF cd Suc.hyps(2) [symmetric]] .
  have nz: "R_CX m \<noteq> 0" using Suc.hyps(2) by auto
  let ?r = "exec (rep_while b stop) m"
  show ?case
  proof (cases "stop (exec b m)")
    case True
    then have "?r = exec b m" using rep_while_unfold [OF cd, of stop m] nz by (simp add: exec_def)
    then show ?thesis using b [of m] True Suc.hyps(2) by (intro exI [of _ 1]) simp
  next
    case False
    then have r: "?r = exec (rep_while b stop) (exec b m)"
      using rep_while_unfold [OF cd, of stop m] nz by (simp add: exec_def)
    from Suc.hyps(1) [OF n [symmetric]] obtain k where k: "k \<le> n" "string_moved si di inc k (exec b m) ?r" "k < n \<longrightarrow> stop ?r"
      unfolding n r by blast
    then show ?thesis using string_moved_add [OF b k(2)] Suc.hyps(2) [symmetric] by (intro exI [of _ "Suc k"]) simp
  qed
qed

text \<open>The prefix the handler goes by, and what a handler does under it.\<close>

definition repeat_prefix :: "x86 \<Rightarrow> u32" where
  "repeat_prefix m = (if mode_is SYSMODE_PREFIX_REPE m then SYSMODE_PREFIX_REPE else SYSMODE_PREFIX_REPNE)"

definition repeat_ends :: "bool \<Rightarrow> bool \<Rightarrow> u16 \<Rightarrow> bool \<Rightarrow> x86 \<Rightarrow> x86 \<Rightarrow> bool" where
  "repeat_ends si di inc compares m m' \<longleftrightarrow> \<not> mode_is (repeat_prefix m) m' \<and>
     (\<exists>k \<le> unat (R_CX m). string_moved si di inc k m m' \<and>
       (k < unat (R_CX m) \<longrightarrow> compares \<and> (ACCESS_FLAG F_ZF m' \<longleftrightarrow> \<not> mode_is SYSMODE_PREFIX_REPE m)))"

lemma string_moved_mode [simp]: "string_moved si di inc k m (m'\<lparr>mode := v\<rparr>) = string_moved si di inc k m m'"
  by (simp add: string_moved_def)

lemma mode_rep: "mode_is SYSMODE_REP m \<longleftrightarrow> mode_is SYSMODE_PREFIX_REPE m \<or> mode_is SYSMODE_PREFIX_REPNE m"
  unfolding mode_is_def SYSMODE_REP_def by (simp add: bit.conj_disj_distrib or_eq_0_iff)

lemma repeat_prefix_cleared:
  "\<not> mode_is (repeat_prefix m) (m'\<lparr>mode := (x AND NOT (repeat_prefix m)) AND NOT k\<rparr>)"
  "\<not> mode_is (repeat_prefix m) (m'\<lparr>mode := (x AND NOT SYSMODE_REP) AND NOT k\<rparr>)"
  by (auto simp: mode_is_def repeat_prefix_def SYSMODE_REP_def intro!: bit_word_eqI simp: bit_simps)

lemma rep_compare_ends:
  assumes "mode_is SYSMODE_REP m" and b: "\<And>m. string_moved si di inc 1 m (exec (do { item; dec_CX; step }) m)"
  shows "repeat_ends si di inc True m (end_instr (exec (rep_compare item step) m))"
proof -
  let ?l = "\<lambda>stop. exec (rep_while (do { item; dec_CX; step }) stop) m"
  let ?ze = "\<lambda>m'. mode_is SYSMODE_PREFIX_REPE m \<longleftrightarrow> \<not> ACCESS_FLAG F_ZF m'"
  have "exec (rep_compare item step) m = (?l ?ze)\<lparr>mode := mode (?l ?ze) AND NOT (repeat_prefix m)\<rparr>"
    using assms(1) by (auto simp: mode_rep rep_compare_def repeat_prefix_def exec_def emu_run split: prod.split)
  then show ?thesis using rep_while_moves [OF b, of m ?ze] 
    by (auto simp: repeat_ends_def end_instr_def repeat_prefix_cleared ACCESS_FLAG_def)
qed

lemma rep_plain_ends:
  assumes "mode_is SYSMODE_REP m" and b: "\<And>m. string_moved si di inc 1 m (exec (do { item; dec_CX; step }) m)"
  shows "repeat_ends si di inc False m (end_instr (exec (rep_plain item step) m))"
proof -
  let ?l = "exec (rep_while (do { item; dec_CX; step }) (\<lambda>m. False)) m"
  have "exec (rep_plain item step) m = ?l\<lparr>mode := mode ?l AND NOT SYSMODE_REP\<rparr>"
    using assms(1) by (simp add: rep_plain_def exec_def emu_run split: prod.split)
  then show ?thesis using rep_while_moves [OF b, of m "\<lambda>m. False"]
    by (auto simp: repeat_ends_def end_instr_def repeat_prefix_cleared)
qed

lemma string_steps:
  "gC (exec (add_SI inc) m) = gC m" "gC (exec (add_DI inc) m) = gC m"
  "exec (do { add_SI inc; add_DI inc }) m = exec (add_DI inc) (exec (add_SI inc) m)"
  "exec (add_SI inc) m = m\<lparr>gSI := put_lo16 (R_SI m + inc) (gSI m)\<rparr>"
  "exec (add_DI inc) m = m\<lparr>gDI := put_lo16 (R_DI m + inc) (gDI m)\<rparr>"
  by (simp_all add: add_SI_def add_DI_def exec_def emu_run wr16_def)

lemma string_bodies:
  "string_moved True True inc 1 m (exec (do { cmps_byte_item; dec_CX; add_SI inc; add_DI inc }) m)"
  "string_moved True True inc 1 m (exec (do { cmps_word_item; dec_CX; add_SI inc; add_DI inc }) m)"
  "string_moved False True inc 1 m (exec (do { scas_byte_item; dec_CX; add_DI inc }) m)"
  "string_moved False True inc 1 m (exec (do { scas_word_item; dec_CX; add_DI inc }) m)"
  "string_moved False True inc 1 m (exec (do { stos_byte_item; dec_CX; add_DI inc }) m)"
  "string_moved True False inc 1 m (exec (do { lods_byte_item; dec_CX; add_SI inc }) m)"
  by (rule string_body; simp add: string_items_keep string_steps)+

lemma optab_strings:
  "x86emu_optab ! 0xA6 = x86emuOp_cmps_byte" "x86emu_optab ! 0xA7 = x86emuOp_cmps_word"
  "x86emu_optab ! 0xAA = x86emuOp_stos_byte" "x86emu_optab ! 0xAC = x86emuOp_lods_byte"
  "x86emu_optab ! 0xAE = x86emuOp_scas_byte" "x86emu_optab ! 0xAF = x86emuOp_scas_word"
  by (simp_all add: x86emu_optab_def)

definition word_inc :: "x86 \<Rightarrow> u16" where
  "word_inc m = str_inc (if mode_is SYSMODE_PREFIX_DATA m then 4 else 2) m"

lemma exec_inc:
  "exec (do { inc \<leftarrow> gets (str_inc n); c inc }) m = exec (c (str_inc n m)) m"
  "exec (do { inc \<leftarrow> sized (gets (str_inc 4)) (gets (str_inc 2)); c inc }) m = exec (c (word_inc m)) m"
  by (simp_all add: exec_def emu_run sized_def word_inc_def)

text \<open>
  C34: CMPSB, CMPSW, STOSB, LODSB, SCASB and SCASW (opcodes 0xA6, 0xA7, 0xAA, 0xAC, 0xAE, 0xAF of the table) end
  under a repeat prefix, from any state: for some number \<open>k\<close> of elements, at most the value of CX, the handler
  has reduced CX by \<open>k\<close>, moved the pointers it uses (SI, DI or both) by \<open>k\<close> elements in the direction of the
  direction flag and cleared the prefix, and the loop has not run on for ever.  It stops before CX is used up only if
  it compares, and then because the last elements differed under REPE or were equal under REPNE.
\<close>

theorem x86_repeat_ends:
  assumes "mode_is SYSMODE_REP m"
  shows "repeat_ends True True (str_inc 1 m) True m (exec (x86emu_optab ! 0xA6) m) \<and>
    repeat_ends True True (word_inc m) True m (exec (x86emu_optab ! 0xA7) m) \<and>
    repeat_ends False True (str_inc 1 m) False m (exec (x86emu_optab ! 0xAA) m) \<and>
    repeat_ends True False (str_inc 1 m) False m (exec (x86emu_optab ! 0xAC) m) \<and>
    repeat_ends False True (str_inc 1 m) True m (exec (x86emu_optab ! 0xAE) m) \<and>
    repeat_ends False True (word_inc m) True m (exec (x86emu_optab ! 0xAF) m)"
  unfolding optab_strings x86emuOp_cmps_byte_def x86emuOp_cmps_word_def x86emuOp_stos_byte_def x86emuOp_lods_byte_def
    x86emuOp_scas_byte_def x86emuOp_scas_word_def exec_instr exec_inc
  by (intro conjI rep_compare_ends rep_plain_ends assms string_bodies)

text \<open>REP STOSB with a count of three: CX is zero afterwards, DI three bytes on, and the prefix is gone.\<close>

theorem x86_repeat_ends_witness:
  "let m = x86_zero\<lparr>gC := 3, gDI := 0x10, mode := SYSMODE_PREFIX_REPE\<rparr>; m' = exec (x86emu_optab ! 0xAA) m
   in R_CX m' = 0 \<and> R_DI m' = 0x13 \<and> R_SI m' = 0 \<and> \<not> fault m' \<and> \<not> mode_is SYSMODE_PREFIX_REPE m'"
proof -
  let ?m = "x86_zero\<lparr>gC := 3, gDI := 0x10, mode := SYSMODE_PREFIX_REPE\<rparr>"
  have r: "mode_is SYSMODE_REP ?m" "mode_is SYSMODE_PREFIX_REPE ?m" by (simp_all add: mode_is_def SYSMODE_REP_def sysmode_defs)
  have i: "str_inc 1 ?m = 1" by (simp add: str_inc_def ACCESS_FLAG_def x86_zero_def)
  have z: "fault ?m = False" "R_CX ?m = 3" "R_DI ?m = 0x10" "R_SI ?m = 0" by (simp_all add: x86_zero_def lo16_def)
  have e: "repeat_ends False True 1 False ?m (exec (x86emu_optab ! 0xAA) ?m)" using x86_repeat_ends [OF r(1)] unfolding i by simp
  show ?thesis using e r(2) z unfolding repeat_ends_def string_moved_def repeat_prefix_def Let_def by auto
qed

subsection \<open>Searching a byte\<close>

text \<open>The bytes a string instruction meets: from an offset of a segment in steps of \<open>inc\<close>, within the segment.\<close>

primrec string_bytes :: "nat \<Rightarrow> u32 \<Rightarrow> u16 \<Rightarrow> u16 \<Rightarrow> (u32 \<Rightarrow> u8) \<Rightarrow> u8 list" where
  "string_bytes 0 seg off inc r = []"
| "string_bytes (Suc n) seg off inc r = r (seg + ucast off) # string_bytes n seg (off + inc) inc r"

definition data_seg :: "u16 \<Rightarrow> u32" where
  "data_seg s = push_bit 4 (ucast s)"

lemma cmp_byte_flags:
  obtains f where "snd (cmp_byte d s m) = m\<lparr>FLAGS := f\<rparr>" "f AND F_ZF \<noteq> 0 \<longleftrightarrow> d = s"
proof -
  let ?m' = "snd (sub_byte d s m)"
  have "sub_ok d s False m (fst (sub_byte d s m), ?m')" using sub_byte_ok [of d s m] by simp
  then have "only_flags m ?m'" "ACCESS_FLAG F_ZF ?m' \<longleftrightarrow> d = s"
    using sub_conditions(2) [of d s m] by (auto simp: sub_ok_def keeps_flags_def)
  then show thesis using that [of "FLAGS ?m'"] by (simp add: cmp_byte_sub only_flags_def ACCESS_FLAG_def)
qed

lemma exec_scas_body:
  obtains f where "exec (do { scas_byte_item; dec_CX; add_DI inc }) m =
     m\<lparr>FLAGS := f, gC := put_lo16 (R_CX m - 1) (gC m), gDI := put_lo16 (R_DI m + inc) (gDI m)\<rparr>"
    "f AND F_ZF \<noteq> 0 \<longleftrightarrow> R_AL m = ram m (data_seg (R_ES m) + ucast (R_DI m))"
proof -
  obtain f where f: "snd (cmp_byte (R_AL m) (ram m (data_seg (R_ES m) + ucast (R_DI m))) m) = m\<lparr>FLAGS := f\<rparr>"
    "f AND F_ZF \<noteq> 0 \<longleftrightarrow> R_AL m = ram m (data_seg (R_ES m) + ucast (R_DI m))" by (rule cmp_byte_flags)
  show thesis
    by (rule that [OF _ f(2)])
      (simp add: scas_byte_item_def string_access dec_CX_def add_DI_def exec_def emu_run only_snd_def mem8_def wr16_def
        f(1) [unfolded data_seg_def])
qed

definition found_at :: "u8 \<Rightarrow> u8 list \<Rightarrow> nat" where
  "found_at b bs = length (takeWhile (\<lambda>x. x \<noteq> b) bs) + of_bool (b \<in> set bs)"

lemma found_at_simps [simp]:
  "found_at b [] = 0" "found_at b (x # bs) = (if b = x then 1 else Suc (found_at b bs))"
  by (simp_all add: found_at_def)

lemma scas_loop:
  assumes "unat (R_CX m) = n" and "bs = string_bytes n (data_seg (R_ES m)) (R_DI m) inc (ram m)"
  shows "\<exists>f. exec (rep_while (do { scas_byte_item; dec_CX; add_DI inc }) (ACCESS_FLAG F_ZF)) m =
      m\<lparr>FLAGS := f, gC := put_lo16 (R_CX m - of_nat (found_at (R_AL m) bs)) (gC m),
        gDI := put_lo16 (R_DI m + of_nat (found_at (R_AL m) bs) * inc) (gDI m)\<rparr> \<and>
    (f AND F_ZF \<noteq> 0 \<longleftrightarrow> (if n = 0 then FLAGS m AND F_ZF \<noteq> 0 else R_AL m \<in> set bs))"
  using assms
proof (induction n arbitrary: m bs)
  case 0
  then have "R_CX m = 0" by (simp add: unat_eq_0)
  then show ?case using 0 put_lo16_simps(2) [of "gC m"] by (intro exI [of _ "FLAGS m"]) (simp add: run_rep_while exec_def)
next
  case (Suc n)
  let ?b = "do { scas_byte_item; dec_CX; add_DI inc }"
  have cd: "counts_down ?b" using string_bodies(3) by (simp add: counts_down_def string_moved_def)
  obtain f where f: "exec ?b m = m\<lparr>FLAGS := f, gC := put_lo16 (R_CX m - 1) (gC m), gDI := put_lo16 (R_DI m + inc) (gDI m)\<rparr>"
    "f AND F_ZF \<noteq> 0 \<longleftrightarrow> R_AL m = ram m (data_seg (R_ES m) + ucast (R_DI m))" by (rule exec_scas_body)
  have nz: "R_CX m \<noteq> 0" using Suc.prems(1) by auto
  have u: "exec (rep_while ?b (ACCESS_FLAG F_ZF)) m = (if f AND F_ZF \<noteq> 0 then exec ?b m else exec (rep_while ?b (ACCESS_FLAG F_ZF)) (exec ?b m))"
    using rep_while_unfold [OF cd, of "ACCESS_FLAG F_ZF" m] nz f(1) by (simp add: exec_def ACCESS_FLAG_def)
  show ?case
  proof (cases "f AND F_ZF = 0")
    case False
    then show ?thesis using u f Suc.prems(2) by (intro exI [of _ f]) simp
  next
    case True
    let ?m = "exec ?b m"
    have "unat (R_CX ?m) = n" using counts_down_less [OF cd Suc.prems(1)] .
    from Suc.IH [OF this refl] show ?thesis using u True f Suc.prems(2)
      by (cases n) (auto simp: algebra_simps)
  qed
qed


lemma mode_is_keep [simp]: "mode_is k (m\<lparr>FLAGS := f\<rparr>) = mode_is k m"
  by (simp add: mode_is_def)

text \<open>
  C36: REPNE SCASB is a search: among the CX bytes of the segment ES from DI on, in the direction of the direction
  flag, it stops behind the first that equals AL, or behind the last.  CX is reduced and DI moved by the number of
  bytes read, the zero flag says whether the byte was found, the prefixes are cleared, and only the flags, CX, DI and
  the mode change.
\<close>

theorem x86_repne_scasb_searches:
  assumes "mode_is SYSMODE_PREFIX_REPNE m" "\<not> mode_is SYSMODE_PREFIX_REPE m"
  defines "inc \<equiv> str_inc 1 m"
  defines "bs \<equiv> string_bytes (unat (R_CX m)) (data_seg (R_ES m)) (R_DI m) inc (ram m)"
  shows "\<exists>f. exec x86emuOp_scas_byte m =
      m\<lparr>FLAGS := f, gC := put_lo16 (R_CX m - of_nat (found_at (R_AL m) bs)) (gC m),
        gDI := put_lo16 (R_DI m + of_nat (found_at (R_AL m) bs) * inc) (gDI m),
        mode := mode m AND NOT SYSMODE_PREFIX_REPNE AND NOT SYSMODE_CLRMASK\<rparr> \<and>
    (f AND F_ZF \<noteq> 0 \<longleftrightarrow> (if R_CX m = 0 then FLAGS m AND F_ZF \<noteq> 0 else R_AL m \<in> set bs))"
proof -
  let ?l = "rep_while (do { scas_byte_item; dec_CX; add_DI inc }) (ACCESS_FLAG F_ZF)"
  obtain f where f: "exec ?l m = m\<lparr>FLAGS := f, gC := put_lo16 (R_CX m - of_nat (found_at (R_AL m) bs)) (gC m),
        gDI := put_lo16 (R_DI m + of_nat (found_at (R_AL m) bs) * inc) (gDI m)\<rparr>"
    "f AND F_ZF \<noteq> 0 \<longleftrightarrow> (if unat (R_CX m) = 0 then FLAGS m AND F_ZF \<noteq> 0 else R_AL m \<in> set bs)"
    using scas_loop [OF refl, of bs m inc] by (auto simp: bs_def)
  have "exec x86emuOp_scas_byte m = end_instr ((exec ?l m)\<lparr>mode := mode (exec ?l m) AND NOT SYSMODE_PREFIX_REPNE\<rparr>)"
    unfolding x86emuOp_scas_byte_def exec_instr using assms(1,2)
    by (simp add: exec_def emu_run rep_compare_def inc_def split: prod.split)
  then show ?thesis using f by (intro exI [of _ f]) (simp add: end_instr_def unat_eq_0 and.assoc)
qed

text \<open>A scan of five bytes for 7, which stands at the third place: DI stops behind it, with two bytes left.\<close>

theorem x86_repne_scasb_searches_witness:
  "let m = x86_zero\<lparr>gA := 7, gC := 5, gDI := 0x10, R_ES := 0x100, mode := SYSMODE_PREFIX_REPNE, ram := (\<lambda>a. if a = 0x1012 then 7 else 1)\<rparr>;
       m' = exec x86emuOp_scas_byte m
   in gC m' = 2 \<and> gDI m' = 0x13 \<and> ACCESS_FLAG F_ZF m' \<and> mode m' = 0"
proof -
  let ?m = "x86_zero\<lparr>gA := 7, gC := 5, gDI := 0x10, R_ES := 0x100, mode := SYSMODE_PREFIX_REPNE, ram := (\<lambda>a. if a = 0x1012 then 7 else 1)\<rparr>"
  have i: "str_inc 1 ?m = 1" by (simp add: str_inc_def ACCESS_FLAG_def x86_zero_def)
  have n: "unat (R_CX ?m) = Suc (Suc (Suc (Suc (Suc 0))))" by (simp add: lo16_def)
  have bs: "string_bytes (unat (R_CX ?m)) (data_seg (R_ES ?m)) (R_DI ?m) (str_inc 1 ?m) (ram ?m) = [1, 1, 7, 1, 1]"
    unfolding i n by (simp add: lo16_def data_seg_def)
  obtain f where "exec x86emuOp_scas_byte ?m =
      ?m\<lparr>FLAGS := f, gC := put_lo16 (R_CX ?m - of_nat (found_at (R_AL ?m) [1, 1, 7, 1, 1])) (gC ?m),
        gDI := put_lo16 (R_DI ?m + of_nat (found_at (R_AL ?m) [1, 1, 7, 1, 1]) * str_inc 1 ?m) (gDI ?m),
        mode := mode ?m AND NOT SYSMODE_PREFIX_REPNE AND NOT SYSMODE_CLRMASK\<rparr>"
    "f AND F_ZF \<noteq> 0"
    using x86_repne_scasb_searches [of ?m, unfolded bs] by (auto simp: mode_is_def sysmode_defs lo16_def lo8_def)
  then show ?thesis
    by (simp add: Let_def i [simplified] lo16_def lo8_def put_lo16_def ACCESS_FLAG_def)
      (simp add: str_inc_def x86_zero_def ACCESS_FLAG_def sysmode_masks sysmode_defs)
qed


subsection \<open>Copying a block\<close>

text \<open>The addresses of the bytes of a string, and one byte after the other moved between two such lists.\<close>

definition string_addrs :: "nat \<Rightarrow> u32 \<Rightarrow> u16 \<Rightarrow> u16 \<Rightarrow> u32 list" where
  "string_addrs n seg off inc = map (\<lambda>i. seg + ucast (off + of_nat i * inc)) [0..<n]"

lemma string_addrs_Suc:
  "string_addrs (Suc n) seg off inc = (seg + ucast off) # string_addrs n seg (off + inc) inc"
  unfolding string_addrs_def by (simp add: map_upt_Suc algebra_simps del: upt_Suc)

lemma string_bytes_addrs: "string_bytes n seg off inc r = map r (string_addrs n seg off inc)"
  by (induction n arbitrary: off) (simp_all add: string_addrs_Suc, simp add: string_addrs_def)

lemma len_numeral_16: "LENGTH(16) = 16" by simp

lemma distinct_string_addrs:
  assumes "inc = 1 \<or> inc = - 1" "n \<le> 2 ^ 16"
  shows "distinct (string_addrs n seg off inc)"
proof -
  have "inj_on (\<lambda>i. seg + ucast (off + of_nat i * inc)) {0..<n}"
  proof (rule inj_onI)
    fix i j assume ij: "i \<in> {0..<n}" "j \<in> {0..<n}" "seg + ucast (off + of_nat i * inc) = seg + ucast (off + of_nat j * inc)"
    then have "off + of_nat i * inc = off + of_nat j * inc" by (metis add_left_cancel ucast_ucast_id_16)
    then have "(of_nat i :: u16) = of_nat j" using assms(1) by auto
    then have "i mod 2 ^ 16 = j mod 2 ^ 16" by (metis unat_of_nat len_numeral_16)
    then show "i = j" using ij(1,2) assms(2) by simp
  qed
  then show ?thesis by (simp add: string_addrs_def distinct_map)
qed

fun move_bytes :: "u32 list \<Rightarrow> u32 list \<Rightarrow> (u32 \<Rightarrow> u8) \<Rightarrow> u32 \<Rightarrow> u8" where
  "move_bytes (s # ss) (d # ds) r = move_bytes ss ds (r(d := r s))"
| "move_bytes _ _ r = r"

lemma move_bytes_other: "a \<notin> set ds \<Longrightarrow> move_bytes ss ds r a = r a"
  by (induction ss ds r rule: move_bytes.induct) auto

lemma move_bytes_copies:
  "length ss = length ds \<Longrightarrow> distinct ds \<Longrightarrow> set ss \<inter> set ds = {} \<Longrightarrow> map (move_bytes ss ds r) ds = map r ss"
proof (induction ss ds r rule: move_bytes.induct)
  case (1 s ss d ds r)
  then have "map (r(d := r s)) ss = map r ss" by auto
  with 1 show ?case by (simp add: move_bytes_other del: fun_upd_apply map_eq_conv) simp
qed auto


definition movs_byte_item :: "u16 \<Rightarrow> unit emu" where
  "movs_byte_item inc = do {
     si \<leftarrow> gets R_SI; val \<leftarrow> fetch_data_byte (ucast si);
     es \<leftarrow> gets R_ES; di \<leftarrow> gets R_DI; store_data_byte_abs es (ucast di) val;
     add_SI inc; add_DI inc }"

lemma run_movs_item:
  assumes "seg_prefix ov m"
  shows "run_state (movs_byte_item inc) m = ((), m\<lparr>gSI := put_lo16 (R_SI m + inc) (gSI m), gDI := put_lo16 (R_DI m + inc) (gDI m),
    ram := (ram m)(data_seg (R_ES m) + ucast (R_DI m) := ram m (data_seg (operand_seg ov False m) + ucast (R_SI m)))\<rparr>)"
proof -
  have "run_state get_data_segment m = (ucast (operand_seg ov False m), m)"
    by (rule segment_selected) (use assms in \<open>simp add: seg_prefix_def\<close>)
  then show ?thesis
    by (simp add: movs_byte_item_def fetch_data_byte_def store_data_byte_abs_def add_SI_def add_DI_def emu_run wr16_def
        put8_def mem8_def data_seg_def)
qed

lemma operand_seg_cong:
  assumes "R_ES m' = R_ES m" "R_CS m' = R_CS m" "R_SS m' = R_SS m" "R_DS m' = R_DS m" "R_FS m' = R_FS m" "R_GS m' = R_GS m"
  shows "operand_seg ov st m' = operand_seg ov st m"
proof (cases ov)
  case (Some s)
  with assms show ?thesis by (cases s) (simp_all add: operand_seg_def)
qed (simp add: assms operand_seg_def)

lemma repeat_movs:
  assumes "seg_prefix ov m"
  shows "exec (repeat_emu n (movs_byte_item inc)) m =
    m\<lparr>gSI := put_lo16 (R_SI m + of_nat n * inc) (gSI m), gDI := put_lo16 (R_DI m + of_nat n * inc) (gDI m),
      ram := move_bytes (string_addrs n (data_seg (operand_seg ov False m)) (R_SI m) inc) (string_addrs n (data_seg (R_ES m)) (R_DI m) inc) (ram m)\<rparr>"
  using assms
proof (induction n arbitrary: m)
  case 0
  then show ?case by (simp add: string_addrs_def exec_def)
next
  case (Suc n)
  let ?m = "m\<lparr>gSI := put_lo16 (R_SI m + inc) (gSI m), gDI := put_lo16 (R_DI m + inc) (gDI m),
    ram := (ram m)(data_seg (R_ES m) + ucast (R_DI m) := ram m (data_seg (operand_seg ov False m) + ucast (R_SI m)))\<rparr>"
  have sp: "seg_prefix ov ?m" using Suc.prems by (simp add: seg_prefix_def)
  have os: "operand_seg ov False ?m = operand_seg ov False m" by (rule operand_seg_cong) simp_all
  have e: "exec (repeat_emu (Suc n) (movs_byte_item inc)) m = exec (repeat_emu n (movs_byte_item inc)) ?m"
    by (simp add: exec_def run_movs_item [OF Suc.prems] del: fun_upd_apply)
  show ?case unfolding e Suc.IH [OF sp] os string_addrs_Suc
    by (simp add: distrib_right add.assoc del: fun_upd_apply)
qed

lemma seg_prefix_rep: "seg_prefix ov (m\<lparr>gC := v, mode := mode m AND NOT SYSMODE_REP\<rparr>) = seg_prefix ov m"
proof -
  have "NOT SYSMODE_REP AND SYSMODE_SEGMASK = SYSMODE_SEGMASK"
    by (simp add: SYSMODE_REP_def sysmode_masks sysmode_defs mask_eq_exp_minus_1)
  then show ?thesis by (simp add: seg_prefix_def and.assoc)
qed

text \<open>
  C35: REP MOVSB copies a block.  With any segment override, in the direction of the direction flag, and for CX bytes
  whose source and destination do not overlap, the destination holds afterwards what the source held before, no other
  byte of memory changes, SI and DI have moved by the length, CX is zero, and the repeat prefix is cleared with
  the others.
\<close>

theorem x86_rep_movsb_copies:
  assumes "mode_is SYSMODE_REP m" and "seg_prefix ov m"
  defines "n \<equiv> unat (R_CX m)" and "inc \<equiv> str_inc 1 m"
  defines "src \<equiv> string_addrs n (data_seg (operand_seg ov False m)) (R_SI m) inc" and "dst \<equiv> string_addrs n (data_seg (R_ES m)) (R_DI m) inc"
  assumes "set src \<inter> set dst = {}"
  shows "\<exists>r. exec x86emuOp_movs_byte m =
      m\<lparr>gC := put_lo16 0 (gC m), gSI := put_lo16 (R_SI m + of_nat n * inc) (gSI m), gDI := put_lo16 (R_DI m + of_nat n * inc) (gDI m),
        mode := mode m AND NOT SYSMODE_REP AND NOT SYSMODE_CLRMASK, ram := r\<rparr> \<and>
    map r dst = map (ram m) src \<and> (\<forall>a. a \<notin> set dst \<longrightarrow> r a = ram m a)"
proof -
  let ?m = "m\<lparr>gC := put_lo16 0 (gC m), mode := mode m AND NOT SYSMODE_REP\<rparr>"
  let ?r = "move_bytes src dst (ram m)"
  have i: "inc = 1 \<or> inc = - 1" by (simp add: inc_def str_inc_def)
  have s: "operand_seg ov False ?m = operand_seg ov False m"
    by (rule operand_seg_cong) simp_all
  have "n \<le> 2 ^ 16" unfolding n_def using unsigned_less [of "R_CX m", where 'a = nat] by simp
  then have "map ?r dst = map (ram m) src"
    using assms(7) by (intro move_bytes_copies) (simp_all add: dst_def distinct_string_addrs [OF i], simp add: src_def string_addrs_def)
  moreover have "exec x86emuOp_movs_byte m = end_instr (exec (repeat_emu n (movs_byte_item inc)) ?m)"
    unfolding x86emuOp_movs_byte_def exec_instr movs_byte_item_def using assms(1)
    by (simp add: exec_def emu_run rep_count_def n_def inc_def wr16_def)
  moreover have "exec (repeat_emu n (movs_byte_item inc)) ?m =
      ?m\<lparr>gSI := put_lo16 (R_SI m + of_nat n * inc) (gSI m), gDI := put_lo16 (R_DI m + of_nat n * inc) (gDI m), ram := ?r\<rparr>"
    using repeat_movs [of ov ?m n inc] assms(2) by (simp add: seg_prefix_rep s src_def dst_def)
  ultimately show ?thesis
    by (intro exI [of _ ?r]) (simp add: end_instr_def and.assoc move_bytes_other)
qed


text \<open>Two bytes from DS:0010 to ES:0020.\<close>

theorem x86_rep_movsb_copies_witness:
  "let m = x86_zero\<lparr>gC := 2, gSI := 0x10, gDI := 0x20, R_DS := 0x100, R_ES := 0x200, mode := SYSMODE_PREFIX_REPE,
         ram := (\<lambda>a. if a = 0x1010 then 5 else if a = 0x1011 then 6 else 0)\<rparr>;
       m' = exec x86emuOp_movs_byte m
   in ram m' 0x2020 = 5 \<and> ram m' 0x2021 = 6 \<and> ram m' 0x2022 = 0 \<and> gC m' = 0 \<and> gSI m' = 0x12 \<and> gDI m' = 0x22"
proof -
  let ?m = "x86_zero\<lparr>gC := 2, gSI := 0x10, gDI := 0x20, R_DS := 0x100, R_ES := 0x200, mode := SYSMODE_PREFIX_REPE,
    ram := (\<lambda>a. if a = 0x1010 then 5 else if a = 0x1011 then 6 else 0)\<rparr>"
  have i: "str_inc 1 ?m = 1" by (simp add: str_inc_def ACCESS_FLAG_def x86_zero_def)
  have n: "unat (R_CX ?m) = 2" by (simp add: lo16_def)
  have rep: "mode_is SYSMODE_REP ?m" by (simp add: mode_is_def SYSMODE_REP_def sysmode_defs)
  have seg: "seg_prefix None ?m" by (simp add: seg_prefix_def sysmode_masks sysmode_defs mask_eq_exp_minus_1)
  have src: "string_addrs 2 (data_seg (operand_seg None False ?m)) (R_SI ?m) 1 = [0x1010, 0x1011]"
    by (simp add: string_addrs_def data_seg_def operand_seg_def lo16_def upt_rec)
  have dst: "string_addrs 2 (data_seg (R_ES ?m)) (R_DI ?m) 1 = [0x2020, 0x2021]"
    by (simp add: string_addrs_def data_seg_def lo16_def upt_rec)
  obtain r where "exec x86emuOp_movs_byte ?m =
      ?m\<lparr>gC := put_lo16 0 (gC ?m), gSI := put_lo16 (R_SI ?m + of_nat 2 * 1) (gSI ?m), gDI := put_lo16 (R_DI ?m + of_nat 2 * 1) (gDI ?m),
        mode := mode ?m AND NOT SYSMODE_REP AND NOT SYSMODE_CLRMASK, ram := r\<rparr>"
    "map r [0x2020, 0x2021] = map (ram ?m) [0x1010, 0x1011]" "\<forall>a. a \<notin> set [0x2020, 0x2021] \<longrightarrow> r a = ram ?m a"
    using x86_rep_movsb_copies [OF rep seg, unfolded i n src dst] by auto
  then show ?thesis by (simp add: Let_def lo16_def put_lo16_def)
qed

end
