(* ===== verification/PList.thy ===== *)
theory PList
  imports Prelude
begin

text \<open>
  \<open>List<T>\<close> (\<open>include/__kclasses/list.h\<close>): a singly linked list whose items carry the link in themselves.  The
  items of one class are a store from addresses to link and object; the list keeps head, tail, counter and lock.
  Pointers are addresses, 0 is NULL.  The kernel heap keeps its chunks, free blocks and allocations in such lists.
\<close>

section \<open>State\<close>

record 'a plnode =
  ln_next :: u32
  ln_obj :: 'a

type_synonym 'a lstore = "u32 \<Rightarrow> 'a plnode option"

record plist =
  pl_head :: u32
  pl_tail :: u32
  pl_nItems :: u32
  pl_lock :: bool

definition pl_new :: plist where
  "pl_new = \<lparr>pl_head = 0, pl_tail = 0, pl_nItems = 0, pl_lock = False\<rparr>"

definition pl_initialize :: "plist \<Rightarrow> error_t \<times> plist" where
  "pl_initialize l = (ERROR_SUCCESS, l)"

text \<open>Access to an item; NULL and addresses without an item of the class fault.\<close>

definition l_get :: "'a lstore \<Rightarrow> u32 \<Rightarrow> 'a plnode option" where
  "l_get h a = (if a = 0 then None else h a)"

definition setNextItem :: "'a lstore \<Rightarrow> u32 \<Rightarrow> u32 \<Rightarrow> 'a lstore option" where
  "setNextItem h a q = do { n \<leftarrow> l_get h a; Some (h(a \<mapsto> n\<lparr>ln_next := q\<rparr>)) }"

definition pl_acquire :: "bool \<Rightarrow> plist \<Rightarrow> plist option" where
  "pl_acquire unlocked l = (if unlocked then Some l else do { k \<leftarrow> lock_acquire (pl_lock l); Some (l\<lparr>pl_lock := k\<rparr>) })"

definition pl_release :: "bool \<Rightarrow> plist \<Rightarrow> plist" where
  "pl_release unlocked l = (if unlocked then l else l\<lparr>pl_lock := lock_release\<rparr>)"

section \<open>Operations\<close>

text \<open>The flag \<open>OP_FLAGS_UNLOCKED\<close> is the argument \<open>unlocked\<close>.\<close>

definition pl_insert :: "bool \<Rightarrow> u32 \<Rightarrow> 'a lstore \<Rightarrow> plist \<Rightarrow> ('a lstore \<times> plist) option" where
  "pl_insert unlocked item h l = do {
     h \<leftarrow> setNextItem h item 0;
     l \<leftarrow> pl_acquire unlocked l;
     (h, l) \<leftarrow> (if pl_tail l = 0 then Some (h, l\<lparr>pl_head := item, pl_tail := item\<rparr>)
                else do { h \<leftarrow> setNextItem h (pl_tail l) item; Some (h, l\<lparr>pl_tail := item\<rparr>) });
     Some (h, pl_release unlocked (l\<lparr>pl_nItems := pl_nItems l + 1\<rparr>))
   }"

partial_function (option) pl_sortedLoop :: "u32 \<Rightarrow> u32 \<Rightarrow> u32 \<Rightarrow> 'a lstore \<Rightarrow> plist \<Rightarrow> ('a lstore \<times> plist) option" where
  "pl_sortedLoop item prev cur h l =
     (if cur = 0 then do {
        h \<leftarrow> setNextItem h (pl_tail l) item;
        Some (h, l\<lparr>pl_tail := item, pl_nItems := pl_nItems l + 1\<rparr>)
      }
      else if item \<le> cur then do {
        h \<leftarrow> setNextItem h item cur;
        (h, l) \<leftarrow> (if prev = 0 then Some (h, l\<lparr>pl_head := item\<rparr>) else do { h \<leftarrow> setNextItem h prev item; Some (h, l) });
        Some (h, l\<lparr>pl_nItems := pl_nItems l + 1\<rparr>)
      }
      else do { n \<leftarrow> l_get h cur; pl_sortedLoop item cur (ln_next n) h l })"

definition pl_sortedInsert :: "bool \<Rightarrow> u32 \<Rightarrow> 'a lstore \<Rightarrow> plist \<Rightarrow> ('a lstore \<times> plist) option" where
  "pl_sortedInsert unlocked item h l = do {
     h \<leftarrow> setNextItem h item 0;
     l \<leftarrow> pl_acquire unlocked l;
     (h, l) \<leftarrow> (if pl_tail l = 0 then Some (h, l\<lparr>pl_tail := item, pl_head := item, pl_nItems := pl_nItems l + 1\<rparr>)
                else pl_sortedLoop item 0 (pl_head l) h l);
     Some (h, pl_release unlocked l)
   }"

partial_function (option) pl_removeLoop :: "u32 \<Rightarrow> u32 \<Rightarrow> u32 \<Rightarrow> 'a lstore \<Rightarrow> plist \<Rightarrow> (bool \<times> 'a lstore \<times> plist) option" where
  "pl_removeLoop item prev it h l =
     (if it = 0 then Some (False, h, l)
      else if it \<noteq> item then do { n \<leftarrow> l_get h it; pl_removeLoop item it (ln_next n) h l }
      else do {
        (h, l) \<leftarrow>
          (if pl_head l = pl_tail l then Some (h, l\<lparr>pl_head := 0, pl_tail := 0\<rparr>)
           else if prev = 0 then do { n \<leftarrow> l_get h (pl_head l); Some (h, l\<lparr>pl_head := ln_next n\<rparr>) }
           else do {
             let l = (if item = pl_tail l then l\<lparr>pl_tail := prev\<rparr> else l);
             n \<leftarrow> l_get h it;
             h \<leftarrow> setNextItem h prev (ln_next n);
             Some (h, l)
           });
        Some (True, h, l\<lparr>pl_nItems := pl_nItems l - 1\<rparr>)
      })"

definition pl_remove :: "u32 \<Rightarrow> 'a lstore \<Rightarrow> plist \<Rightarrow> (bool \<times> 'a lstore \<times> plist) option" where
  "pl_remove item h l = do {
     l \<leftarrow> pl_acquire False l;
     (r, h, l) \<leftarrow> pl_removeLoop item 0 (pl_head l) h l;
     Some (r, h, pl_release False l)
   }"

definition pl_pop :: "'a lstore \<Rightarrow> plist \<Rightarrow> (u32 \<times> plist) option" where
  "pl_pop h l = do {
     l \<leftarrow> pl_acquire False l;
     if pl_head l = 0 then Some (0, pl_release False l)
     else do {
       let l = (if pl_tail l = pl_head l then l\<lparr>pl_tail := 0\<rparr> else l);
       let ret = pl_head l;
       n \<leftarrow> l_get h (pl_head l);
       Some (ret, pl_release False (l\<lparr>pl_head := ln_next n, pl_nItems := pl_nItems l - 1\<rparr>))
     }
   }"

fun pl_getLoop :: "nat \<Rightarrow> u32 \<Rightarrow> 'a lstore \<Rightarrow> u32 option" where
  "pl_getLoop 0 cur h = Some cur"
| "pl_getLoop (Suc num) cur h = (if cur = 0 then Some cur else do { n \<leftarrow> l_get h cur; pl_getLoop num (ln_next n) h })"

definition pl_getItem :: "u32 \<Rightarrow> 'a lstore \<Rightarrow> plist \<Rightarrow> u32 option" where
  "pl_getItem num h l = do { l \<leftarrow> pl_acquire False l; pl_getLoop (unat num) (pl_head l) h }"

partial_function (option) pl_findLoop :: "u32 \<Rightarrow> u32 \<Rightarrow> 'a lstore \<Rightarrow> bool option" where
  "pl_findLoop item it h =
     (if it = 0 then Some False
      else if it = item then Some True
      else do { n \<leftarrow> l_get h it; pl_findLoop item (ln_next n) h })"

definition pl_find :: "bool \<Rightarrow> u32 \<Rightarrow> 'a lstore \<Rightarrow> plist \<Rightarrow> bool option" where
  "pl_find unlocked item h l = do { l \<leftarrow> pl_acquire unlocked l; pl_findLoop item (pl_head l) h }"

definition pl_getNItems :: "bool \<Rightarrow> plist \<Rightarrow> u32 option" where
  "pl_getNItems unlocked l = do { l \<leftarrow> pl_acquire unlocked l; Some (pl_nItems l) }"

section \<open>Refinement to lists of addresses\<close>

text \<open>The chain of links from \<open>p\<close> to \<open>q\<close>.\<close>

fun lpath :: "'a lstore \<Rightarrow> u32 \<Rightarrow> u32 list \<Rightarrow> u32 \<Rightarrow> bool" where
  "lpath h p [] q \<longleftrightarrow> p = q"
| "lpath h p (a # as) q \<longleftrightarrow> p = a \<and> a \<noteq> 0 \<and> (\<exists>n. h a = Some n \<and> lpath h (ln_next n) as q)"

definition pl_rep :: "'a lstore \<Rightarrow> plist \<Rightarrow> u32 list \<Rightarrow> bool" where
  "pl_rep h l xs \<longleftrightarrow> lpath h (pl_head l) xs 0 \<and> distinct xs \<and> pl_tail l = (if xs = [] then 0 else last xs) \<and>
     pl_nItems l = of_nat (length xs)"

lemma lpath_append: "lpath h p (xs @ ys) q \<longleftrightarrow> (\<exists>r. lpath h p xs r \<and> lpath h r ys q)"
  by (induction xs arbitrary: p) auto

lemma lpath_frame: "(\<And>a. a \<in> set xs \<Longrightarrow> h' a = h a) \<Longrightarrow> lpath h' p xs q \<longleftrightarrow> lpath h p xs q"
  by (induction xs arbitrary: p) auto

text \<open>Only the links matter.\<close>

definition same_obj :: "'a lstore \<Rightarrow> 'a lstore \<Rightarrow> bool" where
  "same_obj h h' \<longleftrightarrow> (\<forall>a. map_option ln_obj (h' a) = map_option ln_obj (h a))"

lemma lpath_nonzero: "lpath h p xs q \<Longrightarrow> a \<in> set xs \<Longrightarrow> a \<noteq> 0 \<and> (\<exists>n. h a = Some n)"
  by (induction xs arbitrary: p) auto

lemma lpath_upd: "a \<notin> set xs \<Longrightarrow> lpath (h(a \<mapsto> n)) p xs q \<longleftrightarrow> lpath h p xs q"
  by (rule lpath_frame) auto

lemma lpath_hd: "lpath h p xs 0 \<Longrightarrow> p = (if xs = [] then 0 else hd xs)"
  by (cases xs) auto

lemma setNextItem_Some: "a \<noteq> 0 \<Longrightarrow> h a = Some n \<Longrightarrow> setNextItem h a q = Some (h(a \<mapsto> n\<lparr>ln_next := q\<rparr>))"
  by (simp add: setNextItem_def l_get_def)

lemma same_obj_refl [simp, intro]: "same_obj h h" by (simp add: same_obj_def)

lemma same_obj_trans: "same_obj h h' \<Longrightarrow> same_obj h' h'' \<Longrightarrow> same_obj h h''" by (simp add: same_obj_def)

lemma same_obj_upd: "h a = Some n \<Longrightarrow> same_obj h (h(a \<mapsto> n\<lparr>ln_next := q\<rparr>))"
  by (simp add: same_obj_def)

text \<open>Redirecting the end of a chain.\<close>

lemma lpath_redirect:
  assumes "lpath h p (xs @ [a]) q" "distinct (xs @ [a])"
  obtains n where "h a = Some n" "a \<noteq> 0" "lpath (h(a \<mapsto> n\<lparr>ln_next := r\<rparr>)) p (xs @ [a]) r"
proof -
  from assms(1) obtain n where n: "h a = Some n" "a \<noteq> 0" "lpath h p xs a" by (auto simp: lpath_append)
  moreover have "lpath (h(a \<mapsto> n\<lparr>ln_next := r\<rparr>)) p xs a" using n(3) assms(2) by (simp add: lpath_upd)
  ultimately show thesis using that by (simp add: lpath_append)
qed

text \<open>What an operation that turns the list into \<open>ys\<close> may change: links of the items in \<open>K\<close>.\<close>

definition pl_to :: "u32 set \<Rightarrow> 'a lstore \<Rightarrow> plist \<Rightarrow> u32 list \<Rightarrow> 'a lstore \<times> plist \<Rightarrow> bool" where
  "pl_to K h l ys r \<longleftrightarrow> (case r of (h', l') \<Rightarrow> pl_rep h' l' ys \<and> same_obj h h' \<and> pl_lock l' = pl_lock l \<and> (\<forall>a. a \<notin> K \<longrightarrow> h' a = h a))"

lemma pl_lock_cases: "unlocked \<or> \<not> pl_lock l \<Longrightarrow>
    pl_acquire unlocked l = Some (if unlocked then l else l\<lparr>pl_lock := True\<rparr>)"
  by (auto simp: pl_acquire_def)

lemma pl_rep_lock [simp]: "pl_rep h (l\<lparr>pl_lock := k\<rparr>) xs = pl_rep h l xs"
  by (simp add: pl_rep_def)

lemma pl_to_release:
  "unlocked \<or> \<not> pl_lock l \<Longrightarrow> pl_to K h (if unlocked then l else l\<lparr>pl_lock := True\<rparr>) ys (h', l') \<Longrightarrow>
   pl_to K h l ys (h', pl_release unlocked l')"
  by (auto simp: pl_to_def pl_release_def split: if_splits)

lemma pl_insert_rep:
  assumes r: "pl_rep h l xs" and i: "item \<notin> set xs" "item \<noteq> 0" "h item = Some n" and k: "unlocked \<or> \<not> pl_lock l"
  shows "\<exists>r. pl_insert unlocked item h l = Some r \<and> pl_to (set (item # xs)) h l (xs @ [item]) r"
proof -
  let ?l = "if unlocked then l else l\<lparr>pl_lock := True\<rparr>"
  let ?h = "h(item \<mapsto> n\<lparr>ln_next := 0\<rparr>)"
  have "\<exists>h' l'. (if pl_tail ?l = 0 then Some (?h, ?l\<lparr>pl_head := item, pl_tail := item\<rparr>)
      else do { h \<leftarrow> setNextItem ?h (pl_tail ?l) item; Some (h, ?l\<lparr>pl_tail := item\<rparr>) }) = Some (h', l') \<and>
      pl_to (set (item # xs)) h ?l (xs @ [item]) (h', l'\<lparr>pl_nItems := pl_nItems l' + 1\<rparr>)"
  proof (cases "xs = []")
    case True
    with r i show ?thesis by (auto simp: pl_rep_def pl_to_def same_obj_def)
  next
    case False
    then obtain ys t where xs: "xs = ys @ [t]" by (metis rev_exhaust)
    with r i have p: "lpath ?h (pl_head l) (ys @ [t]) 0" "distinct (ys @ [t])" by (auto simp: pl_rep_def lpath_upd)
    from lpath_redirect [OF p] obtain m where m: "?h t = Some m" "t \<noteq> 0" "lpath (?h(t \<mapsto> m\<lparr>ln_next := item\<rparr>)) (pl_head l) (ys @ [t]) item" .
    have t: "pl_tail l = t" "t \<noteq> item" using r xs i by (auto simp: pl_rep_def)
    have "same_obj h (?h(t \<mapsto> m\<lparr>ln_next := item\<rparr>))" using m(1) t i by (auto simp: same_obj_def)
    with m t r i xs show ?thesis
      by (auto simp: pl_rep_def pl_to_def setNextItem_Some lpath_append)
  qed
  then obtain h' l' where e: "(if pl_tail ?l = 0 then Some (?h, ?l\<lparr>pl_head := item, pl_tail := item\<rparr>)
      else do { h \<leftarrow> setNextItem ?h (pl_tail ?l) item; Some (h, ?l\<lparr>pl_tail := item\<rparr>) }) = Some (h', l')"
    and t: "pl_to (set (item # xs)) h ?l (xs @ [item]) (h', l'\<lparr>pl_nItems := pl_nItems l' + 1\<rparr>)" by blast
  show ?thesis
    unfolding pl_insert_def setNextItem_Some [where h = h and a = item and n = n, OF i(2,3)] pl_lock_cases [OF k] Option.bind.simps e
    using pl_to_release [OF k t] by simp
qed

lemma pl_sortedLoop_rep:
  assumes "lpath h (pl_head l) (ys @ zs) 0" "distinct (ys @ zs)" "pl_tail l = last (ys @ zs)" "ys @ zs \<noteq> []"
    and "pl_nItems l = of_nat (length (ys @ zs))"
    and "\<forall>y\<in>set ys. \<not> item \<le> y" and i: "item \<notin> set (ys @ zs)" "item \<noteq> 0" "h item = Some n" "ln_next n = 0"
    and "prev = (if ys = [] then 0 else last ys)" and "cur = (if zs = [] then 0 else hd zs)"
  shows "\<exists>r. pl_sortedLoop item prev cur h l = Some r \<and> pl_to (set (item # ys @ zs)) h l (ys @ insort item zs) r"
  using assms
proof (induction zs arbitrary: ys prev cur)
  case Nil
  then obtain vs t where ys: "ys = vs @ [t]" by (metis append_Nil2 rev_exhaust)
  from Nil.prems(1,2) ys lpath_redirect [of h "pl_head l" vs t 0 item] obtain m where
    m: "h t = Some m" "t \<noteq> 0" "lpath (h(t \<mapsto> m\<lparr>ln_next := item\<rparr>)) (pl_head l) (vs @ [t]) item" by auto
  moreover have "t \<noteq> item" using Nil.prems ys by auto
  moreover have "same_obj h (h(t \<mapsto> m\<lparr>ln_next := item\<rparr>))" using m(1) by (rule same_obj_upd)
  ultimately show ?case using Nil.prems ys
    by (subst pl_sortedLoop.simps) (auto simp: setNextItem_Some pl_to_def pl_rep_def lpath_append)
next
  case (Cons z zs)
  from Cons.prems(1) obtain m where m: "lpath h (pl_head l) ys z" "z \<noteq> 0" "h z = Some m" "lpath h (ln_next m) zs 0"
    by (auto simp: lpath_append)
  show ?case
  proof (cases "item \<le> z")
    case True
    let ?h = "h(item \<mapsto> n\<lparr>ln_next := z\<rparr>)"
    have so: "same_obj h ?h" using i(3) by (rule same_obj_upd)
    have tail: "lpath ?h item (item # z # zs) 0" using m i Cons.prems by (auto simp: lpath_upd)
    show ?thesis
    proof (cases "ys = []")
      case True
      with \<open>item \<le> z\<close> Cons.prems i tail so show ?thesis
        by (subst pl_sortedLoop.simps) (auto simp: setNextItem_Some pl_to_def pl_rep_def)
    next
      case False
      then obtain vs t where ys: "ys = vs @ [t]" by (metis rev_exhaust)
      from m(1) ys Cons.prems have "lpath ?h (pl_head l) (vs @ [t]) z" "distinct (vs @ [t])" by (auto simp: lpath_upd)
      from lpath_redirect [OF this, of item] obtain k where
        k: "?h t = Some k" "t \<noteq> 0" "lpath (?h(t \<mapsto> k\<lparr>ln_next := item\<rparr>)) (pl_head l) (vs @ [t]) item" .
      have "t \<notin> set (item # z # zs)" using Cons.prems ys by auto
      then have "lpath (?h(t \<mapsto> k\<lparr>ln_next := item\<rparr>)) item (item # z # zs) 0"
        using tail by (rule lpath_upd [THEN iffD2])
      with k(3) have p: "lpath (?h(t \<mapsto> k\<lparr>ln_next := item\<rparr>)) (pl_head l) (ys @ item # z # zs) 0"
        unfolding ys by (auto simp only: lpath_append)
      have "same_obj h (?h(t \<mapsto> k\<lparr>ln_next := item\<rparr>))"
        using so same_obj_upd [where h = ?h and a = t and n = k, OF k(1)] by (rule same_obj_trans)
      with True k ys p Cons.prems i show ?thesis
        by (subst pl_sortedLoop.simps) (auto simp: setNextItem_Some pl_to_def pl_rep_def)
    qed
  next
    case False
    have "\<exists>r. pl_sortedLoop item z (ln_next m) h l = Some r \<and> pl_to (set (item # (ys @ [z]) @ zs)) h l ((ys @ [z]) @ insort item zs) r"
      by (rule Cons.IH) (use Cons.prems False m lpath_hd [OF m(4)] in auto)
    with False m Cons.prems show ?thesis
      by (subst pl_sortedLoop.simps) (auto simp: l_get_def)
  qed
qed

lemma pl_sortedInsert_rep:
  assumes r: "pl_rep h l xs" and i: "item \<notin> set xs" "item \<noteq> 0" "h item = Some n" and k: "unlocked \<or> \<not> pl_lock l"
  shows "\<exists>r. pl_sortedInsert unlocked item h l = Some r \<and> pl_to (set (item # xs)) h l (insort item xs) r"
proof -
  let ?l = "if unlocked then l else l\<lparr>pl_lock := True\<rparr>"
  let ?h = "h(item \<mapsto> n\<lparr>ln_next := 0\<rparr>)"
  have so: "same_obj h ?h" using i(3) by (rule same_obj_upd)
  have r': "pl_rep ?h ?l xs" using r i by (auto simp: pl_rep_def lpath_upd)
  have "\<exists>h' l'. (if pl_tail ?l = 0 then Some (?h, ?l\<lparr>pl_tail := item, pl_head := item, pl_nItems := pl_nItems ?l + 1\<rparr>)
      else pl_sortedLoop item 0 (pl_head ?l) ?h ?l) = Some (h', l') \<and> pl_to (set (item # xs)) h ?l (insort item xs) (h', l')"
  proof (cases "xs = []")
    case True
    with r i so show ?thesis by (auto simp: pl_rep_def pl_to_def)
  next
    case False
    have "\<exists>r. pl_sortedLoop item 0 (pl_head ?l) ?h ?l = Some r \<and> pl_to (set (item # [] @ xs)) ?h ?l ([] @ insort item xs) r"
      by (rule pl_sortedLoop_rep [where n = "n\<lparr>ln_next := 0\<rparr>"])
        (use False r' i lpath_hd [of ?h "pl_head ?l" xs] in \<open>auto simp: pl_rep_def\<close>)
    moreover have "pl_tail ?l \<noteq> 0" using r' False lpath_nonzero [of ?h "pl_head ?l" xs 0 "last xs"] by (auto simp: pl_rep_def)
    ultimately show ?thesis using so by (auto simp: pl_to_def intro: same_obj_trans)
  qed
  then obtain h' l' where e: "(if pl_tail ?l = 0 then Some (?h, ?l\<lparr>pl_tail := item, pl_head := item, pl_nItems := pl_nItems ?l + 1\<rparr>)
      else pl_sortedLoop item 0 (pl_head ?l) ?h ?l) = Some (h', l')"
    and t: "pl_to (set (item # xs)) h ?l (insort item xs) (h', l')" by blast
  show ?thesis
    unfolding pl_sortedInsert_def setNextItem_Some [where h = h and a = item and n = n, OF i(2,3)] pl_lock_cases [OF k] Option.bind.simps e
    using pl_to_release [OF k t] by simp
qed


lemma pl_removeLoop_rep:
  assumes "lpath h (pl_head l) (ys @ zs) 0" "distinct (ys @ zs)" "pl_tail l = (if ys @ zs = [] then 0 else last (ys @ zs))"
    and "pl_nItems l = of_nat (length (ys @ zs))" and "item \<notin> set ys" "item \<noteq> 0"
    and "prev = (if ys = [] then 0 else last ys)" and "it = (if zs = [] then 0 else hd zs)"
  shows "\<exists>r. pl_removeLoop item prev it h l = Some (item \<in> set zs, r) \<and> pl_to (set (ys @ zs)) h l (ys @ remove1 item zs) r"
  using assms
proof (induction zs arbitrary: ys prev it)
  case Nil
  then show ?case by (subst pl_removeLoop.simps) (auto simp: pl_to_def pl_rep_def)
next
  case (Cons z zs)
  from Cons.prems(1) obtain m where m: "lpath h (pl_head l) ys z" "z \<noteq> 0" "h z = Some m" "lpath h (ln_next m) zs 0"
    by (auto simp: lpath_append)
  show ?case
  proof (cases "z = item")
    case False
    have "\<exists>r. pl_removeLoop item z (ln_next m) h l = Some (item \<in> set zs, r) \<and>
        pl_to (set ((ys @ [z]) @ zs)) h l ((ys @ [z]) @ remove1 item zs) r"
      by (rule Cons.IH) (use Cons.prems False m lpath_hd [OF m(4)] in auto)
    with False m Cons.prems show ?thesis
      by (subst pl_removeLoop.simps) (auto simp: l_get_def)
  next
    case z: True
    show ?thesis
    proof (cases "ys = []")
      case True
      have "pl_head l = z" using m(1) True by simp
      moreover have "zs = [] \<longleftrightarrow> z = last (z # zs)" using Cons.prems(2) by auto
      ultimately show ?thesis using z True m Cons.prems
        by (subst pl_removeLoop.simps) (auto simp: l_get_def pl_to_def pl_rep_def split: if_splits)
    next
      case False
      then obtain vs t where ys: "ys = vs @ [t]" by (metis rev_exhaust)
      from m(1) ys Cons.prems have "lpath h (pl_head l) (vs @ [t]) z" "distinct (vs @ [t])" by auto
      from lpath_redirect [OF this, of "ln_next m"] obtain k where
        k: "h t = Some k" "t \<noteq> 0" "lpath (h(t \<mapsto> k\<lparr>ln_next := ln_next m\<rparr>)) (pl_head l) (vs @ [t]) (ln_next m)" .
      have hd: "pl_head l \<in> set ys" using m(1) ys by (cases vs) auto
      then have ne: "pl_head l \<noteq> last (z # zs)" using Cons.prems(2) by (metis disjoint_iff distinct_append last_in_set list.distinct(1))
      have "t \<notin> set zs" using Cons.prems(2) ys by auto
      then have "lpath (h(t \<mapsto> k\<lparr>ln_next := ln_next m\<rparr>)) (ln_next m) zs 0"
        using m(4) by (rule lpath_upd [THEN iffD2])
      with k(3) have p: "lpath (h(t \<mapsto> k\<lparr>ln_next := ln_next m\<rparr>)) (pl_head l) (ys @ zs) 0"
        unfolding ys by (auto simp only: lpath_append)
      have so: "same_obj h (h(t \<mapsto> k\<lparr>ln_next := ln_next m\<rparr>))" using k(1) by (rule same_obj_upd)
      have tl: "item = last (z # zs) \<longleftrightarrow> zs = []" using z Cons.prems(2) by auto
      show ?thesis using z k ys p so Cons.prems ne tl m
        by (subst pl_removeLoop.simps) (auto simp: setNextItem_Some l_get_def pl_to_def pl_rep_def Let_def)
    qed
  qed
qed

lemma pl_remove_rep:
  assumes r: "pl_rep h l xs" and "item \<noteq> 0" and k: "\<not> pl_lock l"
  shows "\<exists>r. pl_remove item h l = Some (item \<in> set xs, r) \<and> pl_to (set xs) h l (remove1 item xs) r"
proof -
  let ?l = "l\<lparr>pl_lock := True\<rparr>"
  have "\<exists>r. pl_removeLoop item 0 (pl_head ?l) h ?l = Some (item \<in> set xs, r) \<and> pl_to (set ([] @ xs)) h ?l ([] @ remove1 item xs) r"
    by (rule pl_removeLoop_rep) (use assms lpath_hd [of h "pl_head l" xs] in \<open>auto simp: pl_rep_def\<close>)
  then show ?thesis using k pl_to_release [of False l "set xs" h "remove1 item xs"]
    by (auto simp: pl_remove_def pl_lock_cases)
qed

lemma pl_pop_rep:
  assumes "pl_rep h l xs" "\<not> pl_lock l"
  shows "\<exists>l'. pl_pop h l = Some (case xs of [] \<Rightarrow> 0 | x # _ \<Rightarrow> x, l') \<and> pl_rep h l' (tl xs) \<and> \<not> pl_lock l'"
proof (cases xs)
  case Nil
  with assms show ?thesis by (auto simp: pl_pop_def pl_lock_cases pl_release_def pl_rep_def)
next
  case (Cons x ys)
  with assms(1) obtain n where n: "pl_head l = x" "x \<noteq> 0" "h x = Some n" "lpath h (ln_next n) ys 0" by (auto simp: pl_rep_def)
  moreover have "x = last xs \<longleftrightarrow> ys = []" using assms(1) Cons by (auto simp: pl_rep_def)
  ultimately show ?thesis using assms Cons
    by (auto simp: pl_pop_def pl_lock_cases pl_release_def pl_rep_def l_get_def Let_def)
qed

lemma pl_getLoop_rep: "lpath h p xs 0 \<Longrightarrow> pl_getLoop k p h = Some (if k < length xs then xs ! k else 0)"
proof (induction xs arbitrary: p k)
  case Nil
  then show ?case by (cases k) auto
next
  case (Cons x xs)
  then show ?case by (cases k) (auto simp: l_get_def)
qed

lemma pl_getItem_rep:
  "pl_rep h l xs \<Longrightarrow> \<not> pl_lock l \<Longrightarrow> pl_getItem num h l = Some (if unat num < length xs then xs ! unat num else 0)"
  by (simp add: pl_getItem_def pl_lock_cases pl_rep_def pl_getLoop_rep)

lemma pl_findLoop_rep: "lpath h p xs 0 \<Longrightarrow> item \<noteq> 0 \<Longrightarrow> pl_findLoop item p h = Some (item \<in> set xs)"
proof (induction xs arbitrary: p)
  case Nil
  then show ?case by (simp add: pl_findLoop.simps)
next
  case (Cons x xs)
  then show ?case by (subst pl_findLoop.simps) (auto simp: l_get_def)
qed

lemma pl_find_rep:
  "pl_rep h l xs \<Longrightarrow> item \<noteq> 0 \<Longrightarrow> unlocked \<or> \<not> pl_lock l \<Longrightarrow> pl_find unlocked item h l = Some (item \<in> set xs)"
  by (auto simp: pl_find_def pl_lock_cases pl_rep_def pl_findLoop_rep)

end
