(* ===== verification/Heap.thy ===== *)
theory Heap
  imports PList
begin

text \<open>
  The kernel heap (\<open>__kclasses/heap.cpp\<close>, \<open>include/__kclasses/heap.h\<close>): chunks of memory whose free parts are headed by blocks, the
  given parts by allocation headers, all inside the memory that is managed.  Each class of headers is a store; constructing a header
  destroys every header whose bytes it overwrites, also one of which it overwrites only a part.  A block header of 40 bytes
  constructed over an allocation header of 76 leaves the rest of the old header, with its magic, in memory; the model counts every later use of such
  a remnant as a fault, which is the stricter reading: what is proved to return never looks at one.  The contents of given memory are bytes
  of their own, apart from the headers; no property claims that the headers leave them alone.
\<close>

section \<open>State\<close>

abbreviation (input) OPT_GUARD_PAGED :: u32 where "OPT_GUARD_PAGED \<equiv> 1"
abbreviation (input) OPT_CHECK_ALLOCS_ON_FREE :: u32 where "OPT_CHECK_ALLOCS_ON_FREE \<equiv> 2"
abbreviation (input) OPT_CHECK_HEAP_RANGES_ON_FREE :: u32 where "OPT_CHECK_HEAP_RANGES_ON_FREE \<equiv> 4"
abbreviation (input) OPT_CHECK_BLOCK_MAGIC_PASSIVELY :: u32 where "OPT_CHECK_BLOCK_MAGIC_PASSIVELY \<equiv> 8"

abbreviation (input) ERROR_DUPLICATE :: error_t where "ERROR_DUPLICATE \<equiv> - 5"

definition HEAP_CHUNK_MAGIC :: string where "HEAP_CHUNK_MAGIC = ''##Zambesii heap chunk##''"
definition HEAP_BLOCK_MAGIC :: string where "HEAP_BLOCK_MAGIC = ''##Zambesii heap block##''"
definition HEAP_ALLOC_MAGIC :: string where "HEAP_ALLOC_MAGIC = ''##Zambesii heap alloc##''"

record chunk =
  ck_nAllocations :: u32
  ck_blocks :: plist
  ck_magic :: string

record block =
  bk_parent :: u32
  bk_freedBy :: u32
  bk_nBytes :: u32
  bk_magic :: string

record allocation =
  al_allocatedBy :: u32
  al_description :: string
  al_parent :: u32
  al_nBytes :: u32
  al_gapSize :: u32
  al_magic :: string

record heap =
  hp_chunkSize :: u32
  hp_pageSize :: u32
  hp_options :: u32
  hp_stream :: bool
  hp_allocList :: plist
  hp_chunkList :: plist
  hp_chunks :: "chunk lstore"
  hp_blocks :: "block lstore"
  hp_allocs :: "allocation lstore"
  hp_guards :: "u32 set"
  hp_mem :: "u32 \<Rightarrow> u8"

text \<open>What the heap takes from outside: the size the compiler gives to \<open>Chunk\<close> (it holds a lock), whether the page tables confirm
  the change of a guard page, and the old contents of memory where a header is constructed without setting its link.\<close>

record heap_env =
  he_sizeofChunk :: u32
  he_walker :: "u32 \<Rightarrow> bool"
  he_junk :: u32

abbreviation (input) sizeof_Block :: u32 where "sizeof_Block \<equiv> 40"
abbreviation (input) sizeof_Allocation :: u32 where "sizeof_Allocation \<equiv> 76"

definition opt :: "u32 \<Rightarrow> heap \<Rightarrow> bool" where
  "opt k h \<longleftrightarrow> hp_options h AND k \<noteq> 0"

section \<open>Headers in memory\<close>

definition overlap :: "u32 \<Rightarrow> u32 \<Rightarrow> u32 \<Rightarrow> u32 \<Rightarrow> bool" where
  "overlap x m a n \<longleftrightarrow> a - x < m \<or> x - a < n"

definition wipe :: "u32 \<Rightarrow> u32 \<Rightarrow> u32 \<Rightarrow> 'a lstore \<Rightarrow> 'a lstore" where
  "wipe m a n s x = (if overlap x m a n then None else s x)"

definition overwrite :: "heap_env \<Rightarrow> u32 \<Rightarrow> u32 \<Rightarrow> heap \<Rightarrow> heap" where
  "overwrite e a n h = h\<lparr>hp_chunks := wipe (he_sizeofChunk e) a n (hp_chunks h),
     hp_blocks := wipe sizeof_Block a n (hp_blocks h), hp_allocs := wipe sizeof_Allocation a n (hp_allocs h)\<rparr>"

definition new_Chunk :: "heap_env \<Rightarrow> u32 \<Rightarrow> heap \<Rightarrow> heap option" where
  "new_Chunk e a h = (if a = 0 then None else
     let h = overwrite e a (he_sizeofChunk e) h in
     Some (h\<lparr>hp_chunks := (hp_chunks h)(a \<mapsto> \<lparr>ln_next = he_junk e,
       ln_obj = \<lparr>ck_nAllocations = 0, ck_blocks = pl_new, ck_magic = HEAP_CHUNK_MAGIC\<rparr>\<rparr>)\<rparr>))"

definition new_Block :: "heap_env \<Rightarrow> u32 \<Rightarrow> u32 \<Rightarrow> u32 \<Rightarrow> u32 \<Rightarrow> heap \<Rightarrow> heap option" where
  "new_Block e a parent nBytes freedBy h = (if a = 0 then None else
     let h = overwrite e a sizeof_Block h in
     Some (h\<lparr>hp_blocks := (hp_blocks h)(a \<mapsto> \<lparr>ln_next = he_junk e,
       ln_obj = \<lparr>bk_parent = parent, bk_freedBy = freedBy, bk_nBytes = nBytes, bk_magic = HEAP_BLOCK_MAGIC\<rparr>\<rparr>)\<rparr>))"

text \<open>The description is cut to 31 characters.\<close>

definition new_Allocation :: "heap_env \<Rightarrow> u32 \<Rightarrow> u32 \<Rightarrow> u32 \<Rightarrow> u32 \<Rightarrow> u32 \<Rightarrow> string option \<Rightarrow> heap \<Rightarrow> heap option" where
  "new_Allocation e a parent gapSize nBytes allocatedBy desc h = (if a = 0 then None else
     let h = overwrite e a sizeof_Allocation h in
     Some (h\<lparr>hp_allocs := (hp_allocs h)(a \<mapsto> \<lparr>ln_next = he_junk e,
       ln_obj = \<lparr>al_allocatedBy = allocatedBy, al_description = (case desc of None \<Rightarrow> [] | Some d \<Rightarrow> take 31 d),
         al_parent = parent, al_nBytes = nBytes, al_gapSize = gapSize, al_magic = HEAP_ALLOC_MAGIC\<rparr>\<rparr>)\<rparr>))"

definition upd_Chunk :: "u32 \<Rightarrow> (chunk \<Rightarrow> chunk) \<Rightarrow> heap \<Rightarrow> heap option" where
  "upd_Chunk a f h = do { n \<leftarrow> l_get (hp_chunks h) a; Some (h\<lparr>hp_chunks := (hp_chunks h)(a \<mapsto> n\<lparr>ln_obj := f (ln_obj n)\<rparr>)\<rparr>) }"

definition upd_Block :: "u32 \<Rightarrow> (block \<Rightarrow> block) \<Rightarrow> heap \<Rightarrow> heap option" where
  "upd_Block a f h = do { n \<leftarrow> l_get (hp_blocks h) a; Some (h\<lparr>hp_blocks := (hp_blocks h)(a \<mapsto> n\<lparr>ln_obj := f (ln_obj n)\<rparr>)\<rparr>) }"

definition upd_Allocation :: "u32 \<Rightarrow> (allocation \<Rightarrow> allocation) \<Rightarrow> heap \<Rightarrow> heap option" where
  "upd_Allocation a f h = do { n \<leftarrow> l_get (hp_allocs h) a; Some (h\<lparr>hp_allocs := (hp_allocs h)(a \<mapsto> n\<lparr>ln_obj := f (ln_obj n)\<rparr>)\<rparr>) }"

definition del_Chunk :: "u32 \<Rightarrow> heap \<Rightarrow> heap option" where
  "del_Chunk a = upd_Chunk a (ck_magic_update (\<lambda>_. []))"

definition del_Block :: "u32 \<Rightarrow> heap \<Rightarrow> heap option" where
  "del_Block a = upd_Block a (bk_magic_update (\<lambda>_. []))"

definition del_Allocation :: "u32 \<Rightarrow> heap \<Rightarrow> heap option" where
  "del_Allocation a = upd_Allocation a (al_magic_update (\<lambda>_. []))"

section \<open>Initialisation and guard pages\<close>

definition heap_new :: "u32 \<Rightarrow> bool \<Rightarrow> u32 \<Rightarrow> (u32 \<Rightarrow> u8) \<Rightarrow> heap" where
  "heap_new chunkSize stream options mem = \<lparr>hp_chunkSize = chunkSize, hp_pageSize = 0, hp_options = options, hp_stream = stream,
     hp_allocList = pl_new, hp_chunkList = pl_new, hp_chunks = Map.empty, hp_blocks = Map.empty, hp_allocs = Map.empty,
     hp_guards = {}, hp_mem = mem\<rparr>"

definition heap_initialize :: "heap \<Rightarrow> error_t \<times> heap" where
  "heap_initialize h =
     (let h = h\<lparr>hp_pageSize := 4096\<rparr>;
          (ret, al) = pl_initialize (hp_allocList h);
          h = h\<lparr>hp_allocList := al\<rparr> in
      if ret \<noteq> ERROR_SUCCESS then (ret, h)
      else (let (ret, cl) = pl_initialize (hp_chunkList h) in (ret, h\<lparr>hp_chunkList := cl\<rparr>)))"

text \<open>The page is made inaccessible, or readable again; when the page tables do not show the change, the kernel panics.\<close>

definition setGuardPage :: "heap_env \<Rightarrow> u32 \<Rightarrow> heap \<Rightarrow> (error_t \<times> heap) option" where
  "setGuardPage e vaddr h = (if he_walker e vaddr then Some (ERROR_SUCCESS, h\<lparr>hp_guards := insert vaddr (hp_guards h)\<rparr>) else None)"

definition unsetGuardPage :: "heap_env \<Rightarrow> u32 \<Rightarrow> heap \<Rightarrow> (error_t \<times> heap) option" where
  "unsetGuardPage e vaddr h = (if he_walker e vaddr then Some (ERROR_SUCCESS, h\<lparr>hp_guards := hp_guards h - {vaddr}\<rparr>) else None)"

section \<open>Chunks\<close>

text \<open>\<open>blocks.remove\<close> and \<open>blocks.sortedInsert\<close> of a chunk.\<close>

definition blocks_remove :: "u32 \<Rightarrow> u32 \<Rightarrow> heap \<Rightarrow> heap option" where
  "blocks_remove this b h = do {
     c \<leftarrow> l_get (hp_chunks h) this;
     (_, bs, l) \<leftarrow> pl_remove b (hp_blocks h) (ck_blocks (ln_obj c));
     upd_Chunk this (ck_blocks_update (\<lambda>_. l)) (h\<lparr>hp_blocks := bs\<rparr>)
   }"

definition blocks_sortedInsert :: "u32 \<Rightarrow> u32 \<Rightarrow> heap \<Rightarrow> heap option" where
  "blocks_sortedInsert this b h = do {
     c \<leftarrow> l_get (hp_chunks h) this;
     (bs, l) \<leftarrow> pl_sortedInsert False b (hp_blocks h) (ck_blocks (ln_obj c));
     upd_Chunk this (ck_blocks_update (\<lambda>_. l)) (h\<lparr>hp_blocks := bs\<rparr>)
   }"

definition gapRequirement :: "heap \<Rightarrow> u32 \<Rightarrow> u32" where
  "gapRequirement h sz = (if opt OPT_GUARD_PAGED h then hp_pageSize h - (sz AND (hp_pageSize h - 1)) else 0)"

text \<open>The body of the loop of \<open>Chunk::malloc\<close> for a block that is large enough.\<close>

definition chunk_take :: "heap_env \<Rightarrow> u32 \<Rightarrow> u32 \<Rightarrow> u32 \<Rightarrow> u32 \<Rightarrow> string option \<Rightarrow> u32 \<Rightarrow> heap \<Rightarrow> (u32 \<times> heap) option" where
  "chunk_take e this gap sz allocatedBy desc cur h = do {
     n \<leftarrow> l_get (hp_blocks h) cur;
     let nb = bk_nBytes (ln_obj n);
     (gap, h) \<leftarrow>
       (if nb - sizeof_Block \<le> gap + sz then do {
          h \<leftarrow> blocks_remove this cur h;
          Some (gap + (nb - (gap + sz)), h)
        }
        else do {
          let dest = cur + (gap + sz);
          if opt OPT_GUARD_PAGED h \<and> dest AND (hp_pageSize h - 1) \<noteq> 0 then None
          else do {
            h \<leftarrow> new_Block e dest this (nb - gap - sz) (bk_freedBy (ln_obj n)) h;
            h \<leftarrow> blocks_remove this cur h;
            h \<leftarrow> blocks_sortedInsert this dest h;
            Some (gap, h)
          }
        });
     h \<leftarrow> new_Allocation e (cur + gap) this gap sz allocatedBy desc h;
     h \<leftarrow> upd_Chunk this (\<lambda>c. c\<lparr>ck_nAllocations := ck_nAllocations c + 1\<rparr>) h;
     Some (cur + gap, h)
   }"

partial_function (option) chunk_mallocLoop ::
    "heap_env \<Rightarrow> u32 \<Rightarrow> u32 \<Rightarrow> u32 \<Rightarrow> u32 \<Rightarrow> string option \<Rightarrow> u32 \<Rightarrow> heap \<Rightarrow> (u32 \<times> heap) option" where
  "chunk_mallocLoop e this gap sz allocatedBy desc it h =
     (if it = 0 then Some (0, h)
      else if opt OPT_GUARD_PAGED h \<and> it AND (hp_pageSize h - 1) \<noteq> 0 then None
      else do {
        n \<leftarrow> l_get (hp_blocks h) it;
        if bk_parent (ln_obj n) \<noteq> this then None
        else if opt OPT_CHECK_BLOCK_MAGIC_PASSIVELY h \<and> bk_magic (ln_obj n) \<noteq> HEAP_BLOCK_MAGIC then None
        else if gap + sz > bk_nBytes (ln_obj n) then chunk_mallocLoop e this gap sz allocatedBy desc (ln_next n) h
        else chunk_take e this gap sz allocatedBy desc it h
      })"

definition chunk_malloc :: "heap_env \<Rightarrow> u32 \<Rightarrow> u32 \<Rightarrow> u32 \<Rightarrow> string option \<Rightarrow> heap \<Rightarrow> (u32 \<times> heap) option" where
  "chunk_malloc e this sz allocatedBy desc h = do {
     c \<leftarrow> l_get (hp_chunks h) this;
     chunk_mallocLoop e this (gapRequirement h sz) sz allocatedBy desc (pl_head (ck_blocks (ln_obj c))) h
   }"

definition appendAndCoalesce :: "u32 \<Rightarrow> u32 \<Rightarrow> u32 \<Rightarrow> heap \<Rightarrow> heap option" where
  "appendAndCoalesce this block alloc h = do {
     a \<leftarrow> l_get (hp_allocs h) alloc;
     h \<leftarrow> upd_Block block (\<lambda>b. b\<lparr>bk_nBytes := bk_nBytes b + (al_gapSize (ln_obj a) + al_nBytes (ln_obj a))\<rparr>) h;
     h \<leftarrow> del_Allocation alloc h;
     b \<leftarrow> l_get (hp_blocks h) block;
     let nextBlock = ln_next b;
     if nextBlock = 0 then Some h
     else if block + (bk_nBytes (ln_obj b) - 1) + 1 \<noteq> nextBlock then Some h
     else do {
       n \<leftarrow> l_get (hp_blocks h) nextBlock;
       h \<leftarrow> upd_Block block (\<lambda>b. b\<lparr>bk_nBytes := bk_nBytes b + bk_nBytes (ln_obj n)\<rparr>) h;
       h \<leftarrow> blocks_remove this nextBlock h;
       del_Block nextBlock h
     }
   }"

definition prependAndCoalesce :: "heap_env \<Rightarrow> u32 \<Rightarrow> u32 \<Rightarrow> u32 \<Rightarrow> u32 \<Rightarrow> u32 \<Rightarrow> heap \<Rightarrow> heap option" where
  "prependAndCoalesce e this block prevBlock alloc freedBy h = do {
     a \<leftarrow> l_get (hp_allocs h) alloc;
     b \<leftarrow> l_get (hp_blocks h) block;
     let newBlock = alloc - al_gapSize (ln_obj a);
     h \<leftarrow> new_Block e newBlock this (al_gapSize (ln_obj a) + al_nBytes (ln_obj a) + bk_nBytes (ln_obj b)) freedBy h;
     h \<leftarrow> blocks_remove this block h;
     h \<leftarrow> del_Block block h;
     if prevBlock = 0 then blocks_sortedInsert this newBlock h
     else do {
       p \<leftarrow> l_get (hp_blocks h) prevBlock;
       if prevBlock + (bk_nBytes (ln_obj p) - 1) + 1 \<noteq> newBlock then blocks_sortedInsert this newBlock h
       else do {
         n \<leftarrow> l_get (hp_blocks h) newBlock;
         h \<leftarrow> upd_Block prevBlock (\<lambda>p. p\<lparr>bk_nBytes := bk_nBytes p + bk_nBytes (ln_obj n)\<rparr>) h;
         del_Block newBlock h
       }
     }
   }"

text \<open>The loop of \<open>Chunk::free\<close>, which ends with \<open>Some h\<close> when the allocation was merged with a block and with \<open>None\<close> when a new block has to be
  made.\<close>

partial_function (option) chunk_freeLoop :: "heap_env \<Rightarrow> u32 \<Rightarrow> u32 \<Rightarrow> u32 \<Rightarrow> u32 \<Rightarrow> u32 \<Rightarrow> heap \<Rightarrow> heap option option" where
  "chunk_freeLoop e this alloc freedBy prev it h =
     (if it = 0 then Some None
      else do {
        a \<leftarrow> l_get (hp_allocs h) alloc;
        b \<leftarrow> l_get (hp_blocks h) it;
        prevEnd \<leftarrow> (if prev = 0 then Some 0 else do { p \<leftarrow> l_get (hp_blocks h) prev; Some (prev + (bk_nBytes (ln_obj p) - 1)) });
        if alloc + (al_nBytes (ln_obj a) - 1) + 1 = it then map_option Some (prependAndCoalesce e this it prev alloc freedBy h)
        else if it + (bk_nBytes (ln_obj b) - 1) + 1 = alloc - al_gapSize (ln_obj a) then map_option Some (appendAndCoalesce this it alloc h)
        else if (prev = 0 \<and> alloc < it) \<or> (alloc > prevEnd \<and> alloc < it) then Some None
        else chunk_freeLoop e this alloc freedBy it (ln_next b) h
      })"

definition chunk_free :: "heap_env \<Rightarrow> u32 \<Rightarrow> u32 \<Rightarrow> u32 \<Rightarrow> heap \<Rightarrow> heap option" where
  "chunk_free e this alloc freedBy h = do {
     c \<leftarrow> l_get (hp_chunks h) this;
     a \<leftarrow> l_get (hp_allocs h) alloc;
     r \<leftarrow> chunk_freeLoop e this alloc freedBy 0 (pl_head (ck_blocks (ln_obj c))) h;
     h \<leftarrow> (case r of Some h \<Rightarrow> Some h
       | None \<Rightarrow> do {
           let newBlock = alloc - al_gapSize (ln_obj a);
           h \<leftarrow> new_Block e newBlock this (al_gapSize (ln_obj a) + al_nBytes (ln_obj a)) freedBy h;
           blocks_sortedInsert this newBlock h
         });
     upd_Chunk this (\<lambda>c. c\<lparr>ck_nAllocations := ck_nAllocations c - 1\<rparr>) h
   }"

section \<open>The heap\<close>

text \<open>\<open>mem\<close> is what \<open>memAlloc\<close> of the stream returns; the constructor runs before the test for NULL.\<close>

definition releaseChunk :: "u32 \<Rightarrow> heap \<Rightarrow> heap option" where
  "releaseChunk chunk h = del_Chunk chunk h"

definition getNewChunk :: "heap_env \<Rightarrow> u32 \<Rightarrow> heap \<Rightarrow> (error_t \<times> u32 \<times> heap) option" where
  "getNewChunk e mem h =
     (if \<not> hp_stream h then Some (ERROR_UNINITIALIZED, 0, h)
      else do {
        h \<leftarrow> new_Chunk e mem h;
        if mem = 0 then Some (ERROR_MEMORY_NOMEM, 0, h)
        else do {
          c \<leftarrow> l_get (hp_chunks h) mem;
          let (ret, l) = pl_initialize (ck_blocks (ln_obj c));
          h \<leftarrow> upd_Chunk mem (ck_blocks_update (\<lambda>_. l)) h;
          if ret \<noteq> ERROR_SUCCESS then do { h \<leftarrow> releaseChunk mem h; Some (ret, 0, h) }
          else do {
            let b = mem + he_sizeofChunk e;
            let firstBlock = (if opt OPT_GUARD_PAGED h \<and> b AND (hp_pageSize h - 1) \<noteq> 0
              then (b + hp_pageSize h) AND NOT (hp_pageSize h - 1) else b);
            h \<leftarrow> new_Block e firstBlock mem (hp_chunkSize h - (firstBlock - mem)) 0 h;
            h \<leftarrow> blocks_sortedInsert mem firstBlock h;
            Some (ERROR_SUCCESS, mem, h)
          }
        }
      })"

definition heap_lock :: "heap \<Rightarrow> heap option" where
  "heap_lock h = do { k \<leftarrow> lock_acquire (pl_lock (hp_chunkList h)); Some (h\<lparr>hp_chunkList := (hp_chunkList h)\<lparr>pl_lock := k\<rparr>\<rparr>) }"

definition heap_unlock :: "heap \<Rightarrow> heap" where
  "heap_unlock h = h\<lparr>hp_chunkList := (hp_chunkList h)\<lparr>pl_lock := lock_release\<rparr>\<rparr>"

partial_function (option) heap_mallocLoop ::
    "heap_env \<Rightarrow> u32 \<Rightarrow> u32 \<Rightarrow> string option \<Rightarrow> u32 \<Rightarrow> heap \<Rightarrow> (u32 \<times> heap) option" where
  "heap_mallocLoop e sz allocatedBy desc it h =
     (if it = 0 then Some (0, h)
      else do {
        c \<leftarrow> l_get (hp_chunks h) it;
        if ck_magic (ln_obj c) \<noteq> HEAP_CHUNK_MAGIC then None
        else do {
          (ret, h) \<leftarrow> chunk_malloc e it sz allocatedBy desc h;
          if ret \<noteq> 0 then Some (ret, h)
          else do { c \<leftarrow> l_get (hp_chunks h) it; heap_mallocLoop e sz allocatedBy desc (ln_next c) h }
        }
      })"

text \<open>What follows once a chunk gave the memory.\<close>

definition heap_finish :: "heap_env \<Rightarrow> u32 \<Rightarrow> heap \<Rightarrow> (u32 \<times> heap) option" where
  "heap_finish e ret h = do {
     let h = heap_unlock h;
     a \<leftarrow> l_get (hp_allocs h) ret;
     (err, h) \<leftarrow> (if opt OPT_GUARD_PAGED h then setGuardPage e (ret + al_nBytes (ln_obj a) - hp_pageSize h) h else Some (ERROR_SUCCESS, h));
     if err \<noteq> ERROR_SUCCESS then Some (0, h)
     else do {
       (as, l) \<leftarrow> pl_insert False ret (hp_allocs h) (hp_allocList h);
       Some (ret + sizeof_Allocation, h\<lparr>hp_allocs := as, hp_allocList := l\<rparr>)
     }
   }"

text \<open>The passes: \<open>mems\<close> are the answers of \<open>memAlloc\<close>, one for each pass.\<close>

fun heap_passes :: "heap_env \<Rightarrow> u32 list \<Rightarrow> u32 \<Rightarrow> u32 \<Rightarrow> string option \<Rightarrow> heap \<Rightarrow> (u32 \<times> heap) option" where
  "heap_passes e [] sz allocatedBy desc h = Some (0, heap_unlock h)"
| "heap_passes e (mem # mems) sz allocatedBy desc h = do {
     (ret, h) \<leftarrow> heap_mallocLoop e sz allocatedBy desc (pl_head (hp_chunkList h)) h;
     if ret \<noteq> 0 then heap_finish e ret h
     else do {
       (err, c, h) \<leftarrow> getNewChunk e mem h;
       if err \<noteq> ERROR_SUCCESS then Some (0, heap_unlock h)
       else do {
         (cs, l) \<leftarrow> pl_insert True c (hp_chunks h) (hp_chunkList h);
         heap_passes e mems sz allocatedBy desc (h\<lparr>hp_chunks := cs, hp_chunkList := l\<rparr>)
       }
     }
   }"

definition heap_size :: "heap \<Rightarrow> u32 \<Rightarrow> u32" where
  "heap_size h sz =
     (let sz = sz + sizeof_Allocation;
          sz = (if opt OPT_GUARD_PAGED h then sz + hp_pageSize h else sz) in
      if sz AND (4 - 1) \<noteq> 0 then (sz + 4) AND NOT (4 - 1) else sz)"

definition heap_malloc :: "heap_env \<Rightarrow> u32 \<Rightarrow> u32 \<Rightarrow> u32 \<Rightarrow> u32 \<Rightarrow> string option \<Rightarrow> heap \<Rightarrow> (u32 \<times> heap) option" where
  "heap_malloc e mem1 mem2 sz allocatedBy desc h =
     (if sz = 0 then None
      else do {
        h \<leftarrow> heap_lock h;
        heap_passes e [mem1, mem2] (heap_size h sz) allocatedBy desc h
      })"

partial_function (option) allocIsWithinLoop :: "u32 \<Rightarrow> u32 \<Rightarrow> heap \<Rightarrow> u32 option option" where
  "allocIsWithinLoop alloc it h =
     (if it = 0 then Some None
      else if alloc < it \<or> alloc \<ge> it + hp_chunkSize h then do { c \<leftarrow> l_get (hp_chunks h) it; allocIsWithinLoop alloc (ln_next c) h }
      else Some (Some it))"

text \<open>\<open>Some c\<close>: the address lies in the chunk \<open>c\<close>; the \<open>None\<close> inside: it lies in no chunk.\<close>

definition allocIsWithinHeap :: "u32 \<Rightarrow> heap \<Rightarrow> u32 option option" where
  "allocIsWithinHeap alloc h = allocIsWithinLoop alloc (pl_head (hp_chunkList h)) h"

definition check_aligned :: "allocation \<Rightarrow> u32 \<Rightarrow> heap \<Rightarrow> bool" where
  "check_aligned a alloc h \<longleftrightarrow> (alloc - al_gapSize a) AND (hp_pageSize h - 1) = 0 \<and>
     (alloc + al_nBytes a - 1 + 1) AND (hp_pageSize h - 1) = 0"

definition heap_free :: "heap_env \<Rightarrow> u32 \<Rightarrow> u32 \<Rightarrow> heap \<Rightarrow> heap option" where
  "heap_free e p freedBy h = do {
     let alloc = p - sizeof_Allocation;
     n \<leftarrow> l_get (hp_allocs h) alloc;
     let a = ln_obj n;
     if opt OPT_GUARD_PAGED h \<and> \<not> check_aligned a alloc h then None
     else do {
       within \<leftarrow> (if opt OPT_CHECK_HEAP_RANGES_ON_FREE h then do { h \<leftarrow> heap_lock h; allocIsWithinHeap alloc h } else Some (Some 0));
       if within = None then None
       else if al_magic a \<noteq> HEAP_ALLOC_MAGIC then None
       else if al_nBytes a = 0 then None
       else do {
         found \<leftarrow> (if opt OPT_CHECK_ALLOCS_ON_FREE h then pl_find False alloc (hp_allocs h) (hp_allocList h) else Some True);
         if \<not> found then None
         else do {
           parent \<leftarrow> pl_find False (al_parent a) (hp_chunks h) (hp_chunkList h);
           if \<not> parent then None
           else do {
             (_, as, l) \<leftarrow> pl_remove alloc (hp_allocs h) (hp_allocList h);
             let h = h\<lparr>hp_allocs := as, hp_allocList := l\<rparr>;
             (err, h) \<leftarrow> (if opt OPT_GUARD_PAGED h then unsetGuardPage e (alloc + al_nBytes a - hp_pageSize h) h else Some (ERROR_SUCCESS, h));
             if err \<noteq> ERROR_SUCCESS then Some h
             else do {
               h \<leftarrow> heap_lock h;
               h \<leftarrow> chunk_free e (al_parent a) alloc freedBy h;
               Some (heap_unlock h)
             }
           }
         }
       }
     }
   }"

definition memcpy :: "u32 \<Rightarrow> u32 \<Rightarrow> u32 \<Rightarrow> (u32 \<Rightarrow> u8) \<Rightarrow> u32 \<Rightarrow> u8" where
  "memcpy dest src n m x = (if x - dest < n then m (src + (x - dest)) else m x)"

definition heap_realloc :: "heap_env \<Rightarrow> u32 \<Rightarrow> u32 \<Rightarrow> u32 \<Rightarrow> u32 \<Rightarrow> u32 \<Rightarrow> heap \<Rightarrow> (u32 \<times> heap) option" where
  "heap_realloc e mem1 mem2 caller p sz h =
     (if p = 0 then
        (if sz = 0 then do { h \<leftarrow> heap_free e p caller h; Some (0, h) }
         else heap_malloc e mem1 mem2 sz caller None h)
      else do {
        let alloc = p - sizeof_Allocation;
        n \<leftarrow> l_get (hp_allocs h) alloc;
        let a = ln_obj n;
        if al_magic a \<noteq> HEAP_ALLOC_MAGIC then None
        else do {
          found \<leftarrow> (if opt OPT_CHECK_ALLOCS_ON_FREE h then pl_find False alloc (hp_allocs h) (hp_allocList h) else Some True);
          if \<not> found then None
          else if al_nBytes a - sizeof_Allocation - hp_pageSize h \<ge> sz then Some (p, h)
          else if sz = 0 then do { h \<leftarrow> heap_free e p caller h; Some (0, h) }
          else do {
            (newmem, h) \<leftarrow> heap_malloc e mem1 mem2 sz caller None h;
            if newmem = 0 then Some (0, h)
            else do {
              n \<leftarrow> l_get (hp_allocs h) alloc;
              let h = h\<lparr>hp_mem := memcpy newmem p (al_nBytes (ln_obj n) - sizeof_Allocation - hp_pageSize h) (hp_mem h)\<rparr>;
              h \<leftarrow> heap_free e p caller h;
              Some (newmem, h)
            }
          }
        }
      })"

section \<open>Consistency checks\<close>

definition check_block :: "u32 \<Rightarrow> u32 \<Rightarrow> u32 \<Rightarrow> heap \<Rightarrow> error_t option" where
  "check_block c prev cur h = do {
     n \<leftarrow> l_get (hp_blocks h) cur;
     let b = ln_obj n;
     if bk_magic b \<noteq> HEAP_BLOCK_MAGIC then Some ERROR_UNKNOWN
     else if bk_parent b \<noteq> c then Some ERROR_UNKNOWN
     else if cur + bk_nBytes b > c + hp_chunkSize h then Some ERROR_LIMIT_OVERFLOWED
     else if prev \<noteq> 0 \<and> cur < prev then Some ERROR_GENERAL
     else if prev \<noteq> 0 \<and> cur = prev then Some ERROR_DUPLICATE
     else if prev \<noteq> 0 then do {
       p \<leftarrow> l_get (hp_blocks h) prev;
       Some (if prev + bk_nBytes (ln_obj p) \<ge> cur then ERROR_UNKNOWN else ERROR_SUCCESS)
     }
     else Some ERROR_SUCCESS
   }"

partial_function (option) check_blockLoop :: "u32 \<Rightarrow> u32 \<Rightarrow> u32 \<Rightarrow> heap \<Rightarrow> error_t option" where
  "check_blockLoop c prev it h =
     (if it = 0 then Some ERROR_SUCCESS
      else do {
        err \<leftarrow> check_block c prev it h;
        if err \<noteq> ERROR_SUCCESS then Some err
        else do { n \<leftarrow> l_get (hp_blocks h) it; check_blockLoop c it (ln_next n) h }
      })"

partial_function (option) check_chunkLoop :: "u32 \<Rightarrow> heap \<Rightarrow> error_t option" where
  "check_chunkLoop it h =
     (if it = 0 then Some ERROR_SUCCESS
      else do {
        c \<leftarrow> l_get (hp_chunks h) it;
        err \<leftarrow> check_blockLoop it 0 (pl_head (ck_blocks (ln_obj c))) h;
        if err \<noteq> ERROR_SUCCESS then Some err else check_chunkLoop (ln_next c) h
      })"

definition checkBlocks :: "heap \<Rightarrow> (error_t \<times> heap) option" where
  "checkBlocks h = do {
     h \<leftarrow> heap_lock h;
     err \<leftarrow> check_chunkLoop (pl_head (hp_chunkList h)) h;
     Some (err, heap_unlock h)
   }"

partial_function (option) count_allocs :: "u32 \<Rightarrow> u32 \<Rightarrow> heap \<Rightarrow> u32 option option" where
  "count_allocs it tot h =
     (if it = 0 then Some (Some tot)
      else do {
        c \<leftarrow> l_get (hp_chunks h) it;
        if ck_magic (ln_obj c) \<noteq> HEAP_CHUNK_MAGIC then Some None
        else count_allocs (ln_next c) (tot + ck_nAllocations (ln_obj c)) h
      })"

text \<open>The inner \<open>None\<close> is \<open>ERROR_FATAL\<close>, otherwise the number of allocations in the list is returned.\<close>

partial_function (option) check_allocLoop :: "u32 \<Rightarrow> u32 \<Rightarrow> heap \<Rightarrow> u32 option option" where
  "check_allocLoop it k h =
     (if it = 0 then Some (Some k)
      else do {
        d \<leftarrow> allocIsWithinHeap it h;
        case d of None \<Rightarrow> Some None
        | Some detected \<Rightarrow> do {
            n \<leftarrow> l_get (hp_allocs h) it;
            if al_magic (ln_obj n) \<noteq> HEAP_ALLOC_MAGIC then Some None
            else do {
              found \<leftarrow> pl_find True (al_parent (ln_obj n)) (hp_chunks h) (hp_chunkList h);
              if \<not> found \<or> al_parent (ln_obj n) \<noteq> detected then Some None
              else check_allocLoop (ln_next n) (k + 1) h
            }
          }
      })"

definition checkAllocations :: "heap \<Rightarrow> (error_t \<times> heap) option" where
  "checkAllocations h = do {
     h \<leftarrow> heap_lock h;
     t \<leftarrow> count_allocs (pl_head (hp_chunkList h)) 0 h;
     case t of None \<Rightarrow> Some (ERROR_FATAL, heap_unlock h)
     | Some tot \<Rightarrow> do {
         k \<leftarrow> lock_acquire (pl_lock (hp_allocList h));
         let h = h\<lparr>hp_allocList := (hp_allocList h)\<lparr>pl_lock := k\<rparr>\<rparr>;
         r \<leftarrow> check_allocLoop (pl_head (hp_allocList h)) 0 h;
         let h = heap_unlock (h\<lparr>hp_allocList := (hp_allocList h)\<lparr>pl_lock := lock_release\<rparr>\<rparr>);
         Some (if r = Some tot then ERROR_SUCCESS else ERROR_FATAL, h)
       }
   }"

end
