(* ===== verification/HeapSeg.thy ===== *)
theory HeapSeg
  imports Heap
begin

text \<open>
  The abstract view of a chunk: a list of segments, free ones and given ones with the gap in front of the header, which tile the chunk.
  The invariant of a chunk and of the heap says that headers and lists are those of the segments.
\<close>

section \<open>Segments\<close>

datatype seg = Free nat | Used nat nat

primrec seg_len :: "seg \<Rightarrow> nat" where
  "seg_len (Free n) = n"
| "seg_len (Used g n) = g + n"

definition seg_total :: "seg list \<Rightarrow> nat" where
  "seg_total ss = sum_list (map seg_len ss)"

lemma seg_total_simps [simp]:
  "seg_total [] = 0" "seg_total (s # ss) = seg_len s + seg_total ss" "seg_total (xs @ ys) = seg_total xs + seg_total ys"
  by (simp_all add: seg_total_def)

text \<open>Addresses of the block headers and of the allocation headers.\<close>

fun free_at :: "nat \<Rightarrow> seg list \<Rightarrow> nat list" where
  "free_at p [] = []"
| "free_at p (Free n # ss) = p # free_at (p + n) ss"
| "free_at p (Used g n # ss) = free_at (p + g + n) ss"

fun used_at :: "nat \<Rightarrow> seg list \<Rightarrow> nat list" where
  "used_at p [] = []"
| "used_at p (Free n # ss) = used_at (p + n) ss"
| "used_at p (Used g n # ss) = (p + g) # used_at (p + g + n) ss"

fun is_free :: "seg \<Rightarrow> bool" where
  "is_free (Free n) = True"
| "is_free (Used g n) = False"

fun no_adj :: "seg list \<Rightarrow> bool" where
  "no_adj (s # t # ss) \<longleftrightarrow> \<not> (is_free s \<and> is_free t) \<and> no_adj (t # ss)"
| "no_adj _ \<longleftrightarrow> True"

lemma free_at_append [simp]: "free_at p (xs @ ys) = free_at p xs @ free_at (p + seg_total xs) ys"
  by (induction p xs rule: free_at.induct) (auto simp: algebra_simps)

lemma used_at_append [simp]: "used_at p (xs @ ys) = used_at p xs @ used_at (p + seg_total xs) ys"
  by (induction p xs rule: used_at.induct) (auto simp: algebra_simps)

lemma no_adj_append: "no_adj (xs @ ys) \<longleftrightarrow> no_adj xs \<and> no_adj ys \<and> (xs \<noteq> [] \<and> ys \<noteq> [] \<longrightarrow> \<not> (is_free (last xs) \<and> is_free (hd ys)))"
  by (induction xs rule: no_adj.induct; cases ys; auto)

section \<open>Numbers and words\<close>

abbreviation (input) w32 :: "nat \<Rightarrow> u32" where "w32 \<equiv> of_nat"

lemma mask_down: "x AND NOT (mask k) = w32 (unat x div 2 ^ k * 2 ^ k)" for x :: u32
proof -
  have "x AND NOT (mask k) = push_bit k (drop_bit k x)" by (rule bit_word_eqI) (auto simp: bit_simps)
  moreover have "drop_bit k x = w32 (unat (drop_bit k x))" by simp
  moreover have "unat (drop_bit k x) = drop_bit k (unat x)"
    using unsigned_less [of x, where 'a = nat] by (simp add: unsigned_drop_bit_eq take_bit_nat_eq_self)
  then have "unat (drop_bit k x) = unat x div 2 ^ k" by (simp add: drop_bit_eq_div)
  ultimately show ?thesis by (simp add: push_bit_eq_mult)
qed

lemma unat_w32: "a < 2 ^ 32 \<Longrightarrow> unat (w32 a) = a"
  by (simp add: unat_of_nat take_bit_nat_eq_self)

lemma w32_eq_iff: "a < 2 ^ 32 \<Longrightarrow> b < 2 ^ 32 \<Longrightarrow> (w32 a = w32 b) = (a = b)"
  by (metis unat_w32)

lemma w32_less_iff: "a < 2 ^ 32 \<Longrightarrow> b < 2 ^ 32 \<Longrightarrow> (w32 a < w32 b) = (a < b)"
  by (simp add: word_less_nat_alt unat_w32)

lemma w32_le_iff: "a < 2 ^ 32 \<Longrightarrow> b < 2 ^ 32 \<Longrightarrow> (w32 a \<le> w32 b) = (a \<le> b)"
  by (simp add: word_le_nat_alt unat_w32)

lemma w32_zero_iff: "a < 2 ^ 32 \<Longrightarrow> (w32 a = 0) = (a = 0)"
  using w32_eq_iff [of a 0] by simp

lemma w32_diff: "b \<le> a \<Longrightarrow> w32 a - w32 b = w32 (a - b)"
  by (simp add: of_nat_diff)

lemmas w32_iffs = w32_eq_iff w32_less_iff w32_le_iff w32_zero_iff

lemma w32_diff_wrap: "v < u \<Longrightarrow> u < 2 ^ 32 \<Longrightarrow> w32 v - w32 u = w32 (2 ^ 32 - u + v)"
  by (simp add: of_nat_diff)

lemma w32_apart:
  assumes "u + k \<le> 2 ^ 32" "v < 2 ^ 32" "v < u \<or> u + k \<le> v" "0 < k"
  shows "\<not> w32 v - w32 u < w32 k"
proof (cases "v < u")
  case True
  have b: "2 ^ 32 - u + v < 2 ^ 32" "k < 2 ^ 32" "\<not> 2 ^ 32 - u + v < k" "u < 2 ^ 32" using True assms by linarith+
  show ?thesis unfolding w32_diff_wrap [OF True b(4)] w32_less_iff [OF b(1,2)] by (rule b(3))
next
  case False
  have b: "v - u < 2 ^ 32" "k < 2 ^ 32" "\<not> v - u < k" "u \<le> v" using False assms by linarith+
  show ?thesis unfolding w32_diff [OF b(4)] w32_less_iff [OF b(1,2)] by (rule b(3))
qed

lemma not_overlap:
  assumes "x + m \<le> a \<or> a + n \<le> x" "x + m \<le> 2 ^ 32" "a + n \<le> 2 ^ 32" "0 < m" "0 < n"
  shows "\<not> overlap (w32 x) (w32 m) (w32 a) (w32 n)"
proof -
  have *: "a < x \<or> x + m \<le> a" "x < a \<or> a + n \<le> x" "a < 2 ^ 32" "x < 2 ^ 32" using assms by linarith+
  have "\<not> w32 a - w32 x < w32 m" using assms * by (intro w32_apart)
  moreover have "\<not> w32 x - w32 a < w32 n" using assms * by (intro w32_apart)
  ultimately show ?thesis by (simp add: overlap_def)
qed


section \<open>The invariant of a chunk\<close>

definition blk :: "heap \<Rightarrow> nat \<Rightarrow> block option" where
  "blk h p = map_option ln_obj (hp_blocks h (w32 p))"

definition alc :: "heap \<Rightarrow> nat \<Rightarrow> allocation option" where
  "alc h p = map_option ln_obj (hp_allocs h (w32 p))"

abbreviation (input) guarded :: "heap \<Rightarrow> bool" where "guarded h \<equiv> opt OPT_GUARD_PAGED h"

text \<open>What an allocation header and, in a guarded heap, the guard page take.\<close>

definition overhead :: "heap \<Rightarrow> nat" where
  "overhead h = (if guarded h then 76 + 4096 else 76)"

fun seg_ok :: "heap \<Rightarrow> nat \<Rightarrow> nat \<Rightarrow> seg \<Rightarrow> bool" where
  "seg_ok h c p (Free n) \<longleftrightarrow> 40 \<le> n \<and> (guarded h \<longrightarrow> 4096 dvd p \<and> 4096 dvd p + n) \<and>
     (\<exists>b. blk h p = Some b \<and> bk_parent b = w32 c \<and> bk_nBytes b = w32 n \<and> bk_magic b = HEAP_BLOCK_MAGIC)"
| "seg_ok h c p (Used g n) \<longleftrightarrow> overhead h < n \<and> (guarded h \<longrightarrow> 4096 dvd p \<and> 4096 dvd p + g + n) \<and>
     (\<exists>a. alc h (p + g) = Some a \<and> al_parent a = w32 c \<and> al_nBytes a = w32 n \<and> al_gapSize a = w32 g \<and> al_magic a = HEAP_ALLOC_MAGIC)"

fun segs_ok :: "heap \<Rightarrow> nat \<Rightarrow> nat \<Rightarrow> seg list \<Rightarrow> bool" where
  "segs_ok h c p [] \<longleftrightarrow> True"
| "segs_ok h c p (s # ss) \<longleftrightarrow> seg_ok h c p s \<and> segs_ok h c (p + seg_len s) ss"

lemma segs_ok_append [simp]: "segs_ok h c p (xs @ ys) \<longleftrightarrow> segs_ok h c p xs \<and> segs_ok h c (p + seg_total xs) ys"
  by (induction xs arbitrary: p) (auto simp: algebra_simps)

abbreviation csize :: "heap \<Rightarrow> nat" where "csize h \<equiv> unat (hp_chunkSize h)"
abbreviation hdsize :: "heap_env \<Rightarrow> nat" where "hdsize e \<equiv> unat (he_sizeofChunk e)"

text \<open>Where the first block of a chunk starts.\<close>

definition first_at :: "heap_env \<Rightarrow> heap \<Rightarrow> nat \<Rightarrow> nat" where
  "first_at e h c = (let b = c + hdsize e in if guarded h \<and> \<not> 4096 dvd b then (b div 4096 + 1) * 4096 else b)"

lemma round_up_bounds: "0 < k \<Longrightarrow> b \<le> (b div k + 1) * k \<and> (b div k + 1) * k \<le> b + k" for b k :: nat
proof -
  have *: "r < k \<Longrightarrow> q * k + r = b \<Longrightarrow> b \<le> (q + 1) * k \<and> (q + 1) * k \<le> b + k" for q r :: nat by auto
  show "0 < k \<Longrightarrow> ?thesis"
    using * [of "b mod k" "b div k"] by (simp only: mod_less_divisor div_mult_mod_eq simp_thms)
qed

lemma first_at_bounds: "c + hdsize e \<le> first_at e h c" "first_at e h c \<le> c + hdsize e + 4096"
  using round_up_bounds [of 4096 "c + hdsize e"] by (auto simp: first_at_def Let_def)

text \<open>The header of the chunk with its number of allocations and its blocks.\<close>

definition chunk_hd :: "heap \<Rightarrow> nat \<Rightarrow> nat \<Rightarrow> u32 list \<Rightarrow> bool" where
  "chunk_hd h c k bs \<longleftrightarrow> (\<exists>n. hp_chunks h (w32 c) = Some n \<and> ck_magic (ln_obj n) = HEAP_CHUNK_MAGIC \<and>
     ck_nAllocations (ln_obj n) = of_nat k \<and> \<not> pl_lock (ck_blocks (ln_obj n)) \<and> pl_rep (hp_blocks h) (ck_blocks (ln_obj n)) bs)"

definition chunk_ok :: "heap_env \<Rightarrow> heap \<Rightarrow> nat \<Rightarrow> seg list \<Rightarrow> bool" where
  "chunk_ok e h c ss \<longleftrightarrow> 0 < c \<and> c + csize h < 2 ^ 32 \<and> first_at e h c + seg_total ss = c + csize h \<and> no_adj ss \<and>
     segs_ok h c (first_at e h c) ss \<and>
     chunk_hd h c (length (used_at (first_at e h c) ss)) (map w32 (free_at (first_at e h c) ss))"

text \<open>Fixed parameters of a heap in use.\<close>

definition heap_geom :: "heap_env \<Rightarrow> heap \<Rightarrow> bool" where
  "heap_geom e h \<longleftrightarrow> hp_pageSize h = 4096 \<and> 0 < hdsize e"

lemma free_at_bounds: "segs_ok h c p ss \<Longrightarrow> x \<in> set (free_at p ss) \<Longrightarrow> p \<le> x \<and> x + 40 \<le> p + seg_total ss"
proof (induction p ss rule: free_at.induct)
  case (2 p n ss)
  then show ?case by (auto simp: algebra_simps)
next
  case (3 p g n ss)
  then show ?case by (auto simp: algebra_simps)
qed auto

lemma used_at_bounds: "segs_ok h c p ss \<Longrightarrow> x \<in> set (used_at p ss) \<Longrightarrow> p \<le> x \<and> x + overhead h < p + seg_total ss"
proof (induction p ss rule: used_at.induct)
  case (2 p n ss)
  then show ?case by (auto simp: algebra_simps)
next
  case (3 p g n ss)
  then show ?case by (auto simp: algebra_simps)
qed auto

lemma free_at_sorted: "segs_ok h c p ss \<Longrightarrow> sorted (free_at p ss) \<and> distinct (free_at p ss)"
proof (induction p ss rule: free_at.induct)
  case (2 p n ss)
  then have "\<forall>x\<in>set (free_at (p + n) ss). p < x" using free_at_bounds [of h c "p + n" ss] by fastforce
  with 2 show ?case by (auto simp: less_imp_le)
qed (auto simp: algebra_simps)


section \<open>What the operations of a chunk change\<close>

text \<open>\<open>eff e c lo hi h h'\<close>: on the way from \<open>h\<close> to \<open>h'\<close> headers are written between \<open>lo\<close> and \<open>hi\<close> only, links of blocks in the chunk \<open>c\<close> only, and the
  header of \<open>c\<close> keeps its place in the list of chunks.\<close>

definition eff :: "heap_env \<Rightarrow> nat \<Rightarrow> nat \<Rightarrow> nat \<Rightarrow> heap \<Rightarrow> heap \<Rightarrow> bool" where
  "eff e c lo hi h h' \<longleftrightarrow>
     hp_chunkSize h' = hp_chunkSize h \<and> hp_pageSize h' = hp_pageSize h \<and> hp_options h' = hp_options h \<and> hp_stream h' = hp_stream h \<and>
     hp_allocList h' = hp_allocList h \<and> hp_chunkList h' = hp_chunkList h \<and> hp_guards h' = hp_guards h \<and> hp_mem h' = hp_mem h \<and>
     map_option ln_next (hp_chunks h' (w32 c)) = map_option ln_next (hp_chunks h (w32 c)) \<and>
     (\<forall>x. x + hdsize e \<le> 2 ^ 32 \<and> x \<noteq> c \<and> (x + hdsize e \<le> lo \<or> hi \<le> x) \<longrightarrow> hp_chunks h' (w32 x) = hp_chunks h (w32 x)) \<and>
     (\<forall>x. x + 40 \<le> 2 ^ 32 \<and> (x + 40 \<le> c \<or> c + csize h \<le> x) \<longrightarrow> hp_blocks h' (w32 x) = hp_blocks h (w32 x)) \<and>
     (\<forall>x. x + 40 \<le> 2 ^ 32 \<and> (x + 40 \<le> lo \<or> hi \<le> x) \<longrightarrow> blk h' x = blk h x) \<and>
     (\<forall>x. x + 76 \<le> 2 ^ 32 \<and> (x + 76 \<le> lo \<or> hi \<le> x) \<longrightarrow> hp_allocs h' (w32 x) = hp_allocs h (w32 x))"

lemma eff_refl [simp]: "eff e c lo hi h h"
  by (simp add: eff_def)

lemma eff_trans: "eff e c lo hi h h' \<Longrightarrow> eff e c lo hi h' h'' \<Longrightarrow> eff e c lo hi h h''"
  unfolding eff_def by simp

lemma eff_mono: "eff e c lo hi h h' \<Longrightarrow> lo' \<le> lo \<Longrightarrow> hi \<le> hi' \<Longrightarrow> eff e c lo' hi' h h'"
  unfolding eff_def by (auto dest: le_trans)

lemma eff_fields:
  assumes "eff e c lo hi h h'"
  shows "csize h' = csize h" "hp_pageSize h' = hp_pageSize h" "hp_options h' = hp_options h" "opt k h' = opt k h"
    "overhead h' = overhead h" "first_at e h' c' = first_at e h c'" "heap_geom e h' = heap_geom e h"
  using assms by (simp_all add: eff_def opt_def overhead_def first_at_def heap_geom_def)

lemma eff_alc: "eff e c lo hi h h' \<Longrightarrow> x + 76 \<le> 2 ^ 32 \<Longrightarrow> x + 76 \<le> lo \<or> hi \<le> x \<Longrightarrow> alc h' x = alc h x"
  by (simp add: eff_def alc_def)

lemma seg_ok_eff:
  assumes "eff e c lo hi h h'" "seg_ok h d p s" "p + seg_len s \<le> lo \<or> hi \<le> p" "p + seg_len s < 2 ^ 32"
  shows "seg_ok h' d p s"
proof (cases s)
  case (Free n)
  with assms have "blk h' p = blk h p" by (auto simp: eff_def)
  with assms(2) Free show ?thesis by (simp add: eff_fields [OF assms(1)])
next
  case (Used g n)
  with assms have "alc h' (p + g) = alc h (p + g)"
    by (intro eff_alc [OF assms(1)]) (auto simp: overhead_def split: if_splits)
  with assms(2) Used show ?thesis by (simp add: eff_fields [OF assms(1)])
qed

lemma segs_ok_eff:
  "eff e c lo hi h h' \<Longrightarrow> segs_ok h d p ss \<Longrightarrow> p + seg_total ss \<le> lo \<or> hi \<le> p \<Longrightarrow> p + seg_total ss < 2 ^ 32 \<Longrightarrow> segs_ok h' d p ss"
proof (induction ss arbitrary: p)
  case (Cons s ss)
  then have "seg_ok h' d p s" by (intro seg_ok_eff [OF Cons.prems(1)]) auto
  moreover have "segs_ok h' d (p + seg_len s) ss" using Cons.prems by (intro Cons.IH) auto
  ultimately show ?case by simp
qed simp

lemma chunk_hd_eff:
  assumes "eff e c lo hi h h'" "chunk_hd h d k bs" "d \<noteq> c" "d + hdsize e \<le> 2 ^ 32" "d + hdsize e \<le> lo \<or> hi \<le> d"
    and "\<And>b. b \<in> set bs \<Longrightarrow> \<exists>x. b = w32 x \<and> x + 40 \<le> 2 ^ 32 \<and> (x + 40 \<le> c \<or> c + csize h \<le> x)"
  shows "chunk_hd h' d k bs"
proof -
  have "hp_chunks h' (w32 d) = hp_chunks h (w32 d)" using assms by (simp add: eff_def)
  moreover have "hp_blocks h' b = hp_blocks h b" if "b \<in> set bs" for b
    using assms(1) assms(6) [OF that] by (auto simp: eff_def)
  ultimately show ?thesis using assms(2) lpath_frame [of bs "hp_blocks h'" "hp_blocks h"]
    by (auto simp: chunk_hd_def pl_rep_def)
qed

text \<open>A chunk is not touched by what happens in another one.\<close>

lemma chunk_ok_other:
  assumes "eff e c lo hi h h'" "chunk_ok e h d ss" "c + csize h \<le> d \<or> d + csize h \<le> c" "c \<le> lo" "hi \<le> c + csize h" "0 < csize h"
  shows "chunk_ok e h' d ss"
proof -
  let ?p = "first_at e h d"
  have ok: "0 < d" "d + csize h < 2 ^ 32" "?p + seg_total ss = d + csize h" "segs_ok h d ?p ss"
    "chunk_hd h d (length (used_at ?p ss)) (map w32 (free_at ?p ss))" using assms(2) by (simp_all add: chunk_ok_def)
  have b: "d + hdsize e \<le> ?p" by (rule first_at_bounds)
  have "segs_ok h' d ?p ss" using ok b assms by (intro segs_ok_eff [OF assms(1)]) auto
  moreover have "chunk_hd h' d (length (used_at ?p ss)) (map w32 (free_at ?p ss))"
  proof (rule chunk_hd_eff [OF assms(1) ok(5)])
    fix y assume "y \<in> set (map w32 (free_at ?p ss))"
    then obtain x where "y = w32 x" "x \<in> set (free_at ?p ss)" by auto
    moreover from this free_at_bounds [OF ok(4)] have "?p \<le> x" "x + 40 \<le> ?p + seg_total ss" by auto
    ultimately show "\<exists>x. y = w32 x \<and> x + 40 \<le> 2 ^ 32 \<and> (x + 40 \<le> c \<or> c + csize h \<le> x)"
      using ok b assms(3) by (intro exI [of _ x]) linarith
  qed (use ok b assms in linarith)+
  ultimately show ?thesis using assms(2) by (simp add: chunk_ok_def eff_fields [OF assms(1)])
qed


section \<open>Elementary steps\<close>

lemma w32_nz: "0 < a \<Longrightarrow> a < 2 ^ 32 \<Longrightarrow> w32 a \<noteq> 0"
  by (simp add: w32_zero_iff)

lemma w32_unat [simp]: "w32 (unat x) = x" for x :: u32
  by simp

text \<open>A header is written at \<open>a\<close>: every other header of the three classes stays if it does not overlap.\<close>

lemma wipe_apart:
  "x + m \<le> a \<or> a + n \<le> x \<Longrightarrow> x + m \<le> 2 ^ 32 \<Longrightarrow> a + n \<le> 2 ^ 32 \<Longrightarrow> 0 < m \<Longrightarrow> 0 < n \<Longrightarrow>
   wipe (w32 m) (w32 a) (w32 n) s (w32 x) = s (w32 x)"
  by (simp add: wipe_def not_overlap)

lemma wipe_headers:
  assumes "x + m \<le> a \<or> a + n \<le> x" "x + m \<le> 2 ^ 32" "a + n \<le> 2 ^ 32" "0 < m"
  shows "n = 40 \<Longrightarrow> m = 40 \<Longrightarrow> wipe 40 (w32 a) 40 s (w32 x) = s (w32 x)"
    "n = 40 \<Longrightarrow> m = 76 \<Longrightarrow> wipe 76 (w32 a) 40 s (w32 x) = s (w32 x)"
    "n = 40 \<Longrightarrow> wipe (w32 m) (w32 a) 40 s (w32 x) = s (w32 x)"
    "n = 76 \<Longrightarrow> m = 40 \<Longrightarrow> wipe 40 (w32 a) 76 s (w32 x) = s (w32 x)"
    "n = 76 \<Longrightarrow> m = 76 \<Longrightarrow> wipe 76 (w32 a) 76 s (w32 x) = s (w32 x)"
    "n = 76 \<Longrightarrow> wipe (w32 m) (w32 a) 76 s (w32 x) = s (w32 x)"
  using wipe_apart [OF assms, of s] by simp_all

text \<open>Room for a header of size \<open>n\<close> between \<open>lo\<close> and \<open>hi\<close> in the chunk \<open>c\<close>.\<close>

definition room :: "heap_env \<Rightarrow> heap \<Rightarrow> nat \<Rightarrow> nat \<Rightarrow> nat \<Rightarrow> bool" where
  "room e h c lo hi \<longleftrightarrow> 0 < c \<and> 0 < hdsize e \<and> c + hdsize e \<le> lo \<and> lo \<le> hi \<and> hi \<le> c + csize h \<and> c + csize h < 2 ^ 32"

definition same_cfg :: "heap \<Rightarrow> heap \<Rightarrow> bool" where
  "same_cfg h h' \<longleftrightarrow> hp_chunkSize h' = hp_chunkSize h \<and> hp_pageSize h' = hp_pageSize h \<and> hp_options h' = hp_options h \<and> hp_stream h' = hp_stream h \<and>
     hp_allocList h' = hp_allocList h \<and> hp_chunkList h' = hp_chunkList h \<and> hp_guards h' = hp_guards h \<and> hp_mem h' = hp_mem h"

lemma eff_place:
  assumes "room e h c lo hi" "lo \<le> a" "a + n \<le> hi" "same_cfg h h'"
    and "\<And>x. x + 40 \<le> 2 ^ 32 \<Longrightarrow> x + 40 \<le> a \<or> a + n \<le> x \<Longrightarrow> hp_blocks h' (w32 x) = hp_blocks h (w32 x)"
    and "\<And>x. x + 76 \<le> 2 ^ 32 \<Longrightarrow> x + 76 \<le> a \<or> a + n \<le> x \<Longrightarrow> hp_allocs h' (w32 x) = hp_allocs h (w32 x)"
    and "\<And>x. x + hdsize e \<le> 2 ^ 32 \<Longrightarrow> x + hdsize e \<le> a \<or> a + n \<le> x \<Longrightarrow> hp_chunks h' (w32 x) = hp_chunks h (w32 x)"
  shows "eff e c lo hi h h'" "hp_chunks h' (w32 c) = hp_chunks h (w32 c)"
proof -
  show c: "hp_chunks h' (w32 c) = hp_chunks h (w32 c)" using assms(1-3) by (intro assms(7)) (auto simp: room_def)
  have "hp_chunks h' (w32 x) = hp_chunks h (w32 x)" if "x + hdsize e \<le> 2 ^ 32" "x + hdsize e \<le> lo \<or> hi \<le> x" for x
    using that assms(2,3) by (intro assms(7)) auto
  moreover have "hp_blocks h' (w32 x) = hp_blocks h (w32 x)" if "x + 40 \<le> 2 ^ 32" "x + 40 \<le> c \<or> c + csize h \<le> x" for x
    using that assms(1-3) by (intro assms(5)) (auto simp: room_def)
  moreover have "blk h' x = blk h x" if "x + 40 \<le> 2 ^ 32" "x + 40 \<le> lo \<or> hi \<le> x" for x
    unfolding blk_def using that assms(2,3) by (intro arg_cong [where f = "map_option ln_obj"] assms(5)) auto
  moreover have "hp_allocs h' (w32 x) = hp_allocs h (w32 x)" if "x + 76 \<le> 2 ^ 32" "x + 76 \<le> lo \<or> hi \<le> x" for x
    using that assms(2,3) by (intro assms(6)) auto
  ultimately show "eff e c lo hi h h'" using assms(4) c by (simp add: eff_def same_cfg_def)
qed

lemma new_Block_step:
  assumes r: "room e h c lo hi" and a: "lo \<le> a" "a + 40 \<le> hi"
  obtains h' where "new_Block e (w32 a) par nb fr h = Some h'" "eff e c lo hi h h'"
    "hp_blocks h' (w32 a) = Some \<lparr>ln_next = he_junk e, ln_obj = \<lparr>bk_parent = par, bk_freedBy = fr, bk_nBytes = nb, bk_magic = HEAP_BLOCK_MAGIC\<rparr>\<rparr>"
    "hp_chunks h' (w32 c) = hp_chunks h (w32 c)"
    "\<forall>x. x + 40 \<le> 2 ^ 32 \<and> (x + 40 \<le> a \<or> a + 40 \<le> x) \<longrightarrow> hp_blocks h' (w32 x) = hp_blocks h (w32 x)"
proof -
  let ?n = "\<lparr>ln_next = he_junk e, ln_obj = \<lparr>bk_parent = par, bk_freedBy = fr, bk_nBytes = nb, bk_magic = HEAP_BLOCK_MAGIC\<rparr>\<rparr>"
  let ?o = "overwrite e (w32 a) sizeof_Block h"
  let ?h = "?o\<lparr>hp_blocks := (hp_blocks ?o)(w32 a \<mapsto> ?n)\<rparr>"
  have b: "0 < a" "a < 2 ^ 32" "a + 40 \<le> 2 ^ 32" using r a by (auto simp: room_def)
  have blocks: "hp_blocks ?h (w32 x) = hp_blocks h (w32 x)" if "x + 40 \<le> 2 ^ 32" "x + 40 \<le> a \<or> a + 40 \<le> x" for x
  proof -
    have "w32 x \<noteq> w32 a" using that b by (subst w32_eq_iff) auto
    with that b show ?thesis by (simp add: overwrite_def wipe_headers [where m = 40 and n = 40])
  qed
  have allocs: "hp_allocs ?h (w32 x) = hp_allocs h (w32 x)" if "x + 76 \<le> 2 ^ 32" "x + 76 \<le> a \<or> a + 40 \<le> x" for x
    using that b by (simp add: overwrite_def wipe_headers [where m = 76 and n = 40])
  have chunks: "hp_chunks ?h (w32 x) = hp_chunks h (w32 x)" if "x + hdsize e \<le> 2 ^ 32" "x + hdsize e \<le> a \<or> a + 40 \<le> x" for x
    using that b r wipe_headers(3) [where m = "hdsize e" and n = 40 and x = x and a = a and s = "hp_chunks h"]
    by (simp add: overwrite_def room_def)
  have cfg: "same_cfg h ?h" by (simp add: same_cfg_def overwrite_def)
  note e = eff_place [OF r a cfg blocks allocs chunks]
  have new: "new_Block e (w32 a) par nb fr h = Some ?h" using w32_nz [OF b(1,2)] by (simp add: new_Block_def Let_def)
  have bl: "\<forall>x. x + 40 \<le> 2 ^ 32 \<and> (x + 40 \<le> a \<or> a + 40 \<le> x) \<longrightarrow> hp_blocks ?h (w32 x) = hp_blocks h (w32 x)"
    using blocks by blast
  have at: "hp_blocks ?h (w32 a) = Some ?n" by simp
  show thesis by (rule that [OF new e(1) at e(2) bl])
qed

lemma new_Allocation_step:
  assumes r: "room e h c lo hi" and a: "lo \<le> a" "a + 76 \<le> hi"
  obtains h' where "new_Allocation e (w32 a) par g nb ab desc h = Some h'" "eff e c lo hi h h'"
    "alc h' a = Some \<lparr>al_allocatedBy = ab, al_description = (case desc of None \<Rightarrow> [] | Some d \<Rightarrow> take 31 d), al_parent = par,
       al_nBytes = nb, al_gapSize = g, al_magic = HEAP_ALLOC_MAGIC\<rparr>"
    "hp_chunks h' (w32 c) = hp_chunks h (w32 c)"
    "\<forall>x. x + 40 \<le> 2 ^ 32 \<and> (x + 40 \<le> a \<or> a + 76 \<le> x) \<longrightarrow> hp_blocks h' (w32 x) = hp_blocks h (w32 x)"
proof -
  let ?n = "\<lparr>ln_next = he_junk e, ln_obj = \<lparr>al_allocatedBy = ab, al_description = (case desc of None \<Rightarrow> [] | Some d \<Rightarrow> take 31 d),
     al_parent = par, al_nBytes = nb, al_gapSize = g, al_magic = HEAP_ALLOC_MAGIC\<rparr>\<rparr>"
  let ?o = "overwrite e (w32 a) sizeof_Allocation h"
  let ?h = "?o\<lparr>hp_allocs := (hp_allocs ?o)(w32 a \<mapsto> ?n)\<rparr>"
  have b: "0 < a" "a < 2 ^ 32" "a + 76 \<le> 2 ^ 32" using r a by (auto simp: room_def)
  have allocs: "hp_allocs ?h (w32 x) = hp_allocs h (w32 x)" if "x + 76 \<le> 2 ^ 32" "x + 76 \<le> a \<or> a + 76 \<le> x" for x
  proof -
    have "w32 x \<noteq> w32 a" using that b by (subst w32_eq_iff) auto
    with that b show ?thesis by (simp add: overwrite_def wipe_headers [where m = 76 and n = 76])
  qed
  have blocks: "hp_blocks ?h (w32 x) = hp_blocks h (w32 x)" if "x + 40 \<le> 2 ^ 32" "x + 40 \<le> a \<or> a + 76 \<le> x" for x
    using that b by (simp add: overwrite_def wipe_headers [where m = 40 and n = 76])
  have chunks: "hp_chunks ?h (w32 x) = hp_chunks h (w32 x)" if "x + hdsize e \<le> 2 ^ 32" "x + hdsize e \<le> a \<or> a + 76 \<le> x" for x
    using that b r wipe_headers(6) [where m = "hdsize e" and n = 76 and x = x and a = a and s = "hp_chunks h"]
    by (simp add: overwrite_def room_def)
  have cfg: "same_cfg h ?h" by (simp add: same_cfg_def overwrite_def)
  note e = eff_place [OF r a cfg blocks allocs chunks]
  have new: "new_Allocation e (w32 a) par g nb ab desc h = Some ?h" using w32_nz [OF b(1,2)] by (simp add: new_Allocation_def Let_def)
  have bl: "\<forall>x. x + 40 \<le> 2 ^ 32 \<and> (x + 40 \<le> a \<or> a + 76 \<le> x) \<longrightarrow> hp_blocks ?h (w32 x) = hp_blocks h (w32 x)"
    using blocks by blast
  have at: "alc ?h a = Some (ln_obj ?n)" by (simp add: alc_def)
  show thesis by (rule that [OF new e(1) at [simplified plnode.simps] e(2) bl])
qed


text \<open>The list operations of a chunk: the objects stay, links change inside the chunk only.\<close>

definition in_chunk :: "heap \<Rightarrow> nat \<Rightarrow> u32 list \<Rightarrow> bool" where
  "in_chunk h c bs \<longleftrightarrow> (\<forall>b\<in>set bs. c < unat b \<and> unat b + 40 \<le> c + csize h)"

lemma eff_links:
  assumes h': "h' = h\<lparr>hp_blocks := bs', hp_chunks := (hp_chunks h)(w32 c \<mapsto> n\<lparr>ln_obj := ob\<rparr>)\<rparr>"
    and n: "hp_chunks h (w32 c) = Some n" and c: "c + csize h < 2 ^ 32" and so: "same_obj (hp_blocks h) bs'"
    and out: "\<And>a. c \<le> unat a \<and> unat a + 40 \<le> c + csize h \<or> bs' a = hp_blocks h a" and hd: "0 < hdsize e"
  shows "eff e c lo hi h h'"
proof -
  have "hp_chunks h' (w32 x) = hp_chunks h (w32 x)" if "x + hdsize e \<le> 2 ^ 32" "x \<noteq> c" for x
  proof -
    have "w32 x \<noteq> w32 c" using that c hd by (subst w32_eq_iff) auto
    then show ?thesis by (simp add: h')
  qed
  moreover have "hp_blocks h' (w32 x) = hp_blocks h (w32 x)" if "x + 40 \<le> 2 ^ 32" "x + 40 \<le> c \<or> c + csize h \<le> x" for x
  proof -
    have "x < 2 ^ 32" using that(1) by linarith
    then show ?thesis using out [of "w32 x"] that c by (auto simp: h' unat_w32)
  qed
  moreover have "blk h' x = blk h x" for x using so by (simp add: blk_def h' same_obj_def)
  ultimately show ?thesis using n by (simp add: eff_def h')
qed

lemma blocks_list_step:
  assumes hd: "chunk_hd h c k bs" and c: "0 < c" "c + csize h < 2 ^ 32" "0 < hdsize e"
    and to: "\<And>n. hp_chunks h (w32 c) = Some n \<Longrightarrow> pl_to K (hp_blocks h) (ck_blocks (ln_obj n)) bs' (st, l)"
    and K: "\<And>a. a \<in> K \<Longrightarrow> c \<le> unat a \<and> unat a + 40 \<le> c + csize h"
  obtains h' where "upd_Chunk (w32 c) (ck_blocks_update (\<lambda>_. l)) (h\<lparr>hp_blocks := st\<rparr>) = Some h'" "eff e c lo hi h h'"
    "chunk_hd h' c k bs'" "hp_allocs h' = hp_allocs h" "\<forall>x. blk h' x = blk h x"
proof -
  from hd obtain n where n: "hp_chunks h (w32 c) = Some n" "ck_magic (ln_obj n) = HEAP_CHUNK_MAGIC"
    "ck_nAllocations (ln_obj n) = of_nat k" "\<not> pl_lock (ck_blocks (ln_obj n))" by (auto simp: chunk_hd_def)
  let ?h = "h\<lparr>hp_blocks := st, hp_chunks := (hp_chunks h)(w32 c \<mapsto> n\<lparr>ln_obj := (ln_obj n)\<lparr>ck_blocks := l\<rparr>\<rparr>)\<rparr>"
  have "w32 c \<noteq> 0" using c by (intro w32_nz) linarith+
  with n have u: "upd_Chunk (w32 c) (ck_blocks_update (\<lambda>_. l)) (h\<lparr>hp_blocks := st\<rparr>) = Some ?h"
    by (simp add: upd_Chunk_def l_get_def)
  from to [OF n(1)] have t: "pl_rep st l bs'" "same_obj (hp_blocks h) st" "\<not> pl_lock l" "\<And>a. a \<notin> K \<Longrightarrow> st a = hp_blocks h a"
    using n by (auto simp: pl_to_def)
  have "eff e c lo hi h ?h" by (rule eff_links [OF refl n(1) c(2) t(2) _ c(3)]) (use t(4) K in blast)
  moreover have "chunk_hd ?h c k bs'" using n t by (simp add: chunk_hd_def)
  moreover have "\<forall>x. blk ?h x = blk h x" using t(2) by (simp add: blk_def same_obj_def)
  ultimately show thesis by (intro that [OF u]) auto
qed

lemma blocks_remove_step:
  assumes hd: "chunk_hd h c k bs" and c: "0 < c" "c + csize h < 2 ^ 32" "0 < hdsize e" and i: "in_chunk h c bs" and b: "b \<noteq> 0"
  obtains h' where "blocks_remove (w32 c) b h = Some h'" "eff e c lo hi h h'" "chunk_hd h' c k (remove1 b bs)"
    "hp_allocs h' = hp_allocs h" "\<forall>x. blk h' x = blk h x"
proof -
  from hd obtain n where n: "hp_chunks h (w32 c) = Some n" "\<not> pl_lock (ck_blocks (ln_obj n))" "pl_rep (hp_blocks h) (ck_blocks (ln_obj n)) bs"
    by (auto simp: chunk_hd_def)
  from pl_remove_rep [OF n(3) b n(2)] obtain st l where
    r: "pl_remove b (hp_blocks h) (ck_blocks (ln_obj n)) = Some (b \<in> set bs, st, l)"
      "pl_to (set bs) (hp_blocks h) (ck_blocks (ln_obj n)) (remove1 b bs) (st, l)" by auto
  have to: "pl_to (set bs) (hp_blocks h) (ck_blocks (ln_obj m)) (remove1 b bs) (st, l)" if "hp_chunks h (w32 c) = Some m" for m
    using that n r by simp
  have K: "c \<le> unat a \<and> unat a + 40 \<le> c + csize h" if "a \<in> set bs" for a using i that by (auto simp: in_chunk_def less_imp_le)
  obtain h' where
    "upd_Chunk (w32 c) (ck_blocks_update (\<lambda>_. l)) (h\<lparr>hp_blocks := st\<rparr>) = Some h'" "eff e c lo hi h h'"
    "chunk_hd h' c k (remove1 b bs)" "hp_allocs h' = hp_allocs h" "\<forall>x. blk h' x = blk h x"
    by (rule blocks_list_step [where lo = lo and hi = hi, OF hd c to K])
  moreover have "w32 c \<noteq> 0" using c by (intro w32_nz) linarith+
  ultimately show thesis using n r by (intro that [of h']) (simp_all add: blocks_remove_def l_get_def)
qed

lemma blocks_sortedInsert_step:
  assumes hd: "chunk_hd h c k bs" and c: "0 < c" "c + csize h < 2 ^ 32" "0 < hdsize e" and i: "in_chunk h c (b # bs)"
    and b: "b \<notin> set bs" "hp_blocks h b \<noteq> None"
  obtains h' where "blocks_sortedInsert (w32 c) b h = Some h'" "eff e c lo hi h h'" "chunk_hd h' c k (insort b bs)"
    "hp_allocs h' = hp_allocs h" "\<forall>x. blk h' x = blk h x"
proof -
  from hd obtain n where n: "hp_chunks h (w32 c) = Some n" "\<not> pl_lock (ck_blocks (ln_obj n))" "pl_rep (hp_blocks h) (ck_blocks (ln_obj n)) bs"
    by (auto simp: chunk_hd_def)
  from b(2) obtain m where m: "hp_blocks h b = Some m" by auto
  have "b \<noteq> 0" using i by (auto simp: in_chunk_def)
  from pl_sortedInsert_rep [OF n(3) b(1) this m, of False] n(2) obtain st l where
    r: "pl_sortedInsert False b (hp_blocks h) (ck_blocks (ln_obj n)) = Some (st, l)"
      "pl_to (set (b # bs)) (hp_blocks h) (ck_blocks (ln_obj n)) (insort b bs) (st, l)" by auto
  have to: "pl_to (set (b # bs)) (hp_blocks h) (ck_blocks (ln_obj m)) (insort b bs) (st, l)" if "hp_chunks h (w32 c) = Some m" for m
    using that n r by simp
  have K: "c \<le> unat a \<and> unat a + 40 \<le> c + csize h" if "a \<in> set (b # bs)" for a using i that by (auto simp: in_chunk_def less_imp_le)
  obtain h' where
    "upd_Chunk (w32 c) (ck_blocks_update (\<lambda>_. l)) (h\<lparr>hp_blocks := st\<rparr>) = Some h'" "eff e c lo hi h h'"
    "chunk_hd h' c k (insort b bs)" "hp_allocs h' = hp_allocs h" "\<forall>x. blk h' x = blk h x"
    by (rule blocks_list_step [where lo = lo and hi = hi, OF hd c to K])
  moreover have "w32 c \<noteq> 0" using c by (intro w32_nz) linarith+
  ultimately show thesis using n r by (intro that [of h']) (simp_all add: blocks_sortedInsert_def l_get_def)
qed

text \<open>Updates of one header.\<close>

lemma upd_count_step:
  assumes hd: "chunk_hd h c k bs" and c: "0 < c" "c + csize h < 2 ^ 32" "0 < hdsize e"
    and f: "\<And>ck. ck_magic (f ck) = ck_magic ck \<and> ck_blocks (f ck) = ck_blocks ck \<and> ck_nAllocations (f ck) = g (ck_nAllocations ck)"
    and g: "g (of_nat k) = of_nat k'"
  obtains h' where "upd_Chunk (w32 c) f h = Some h'" "eff e c lo hi h h'" "chunk_hd h' c k' bs"
    "hp_allocs h' = hp_allocs h" "\<forall>x. blk h' x = blk h x"
proof -
  from hd obtain n where n: "hp_chunks h (w32 c) = Some n" "ck_nAllocations (ln_obj n) = of_nat k" by (auto simp: chunk_hd_def)
  let ?h = "h\<lparr>hp_chunks := (hp_chunks h)(w32 c \<mapsto> n\<lparr>ln_obj := f (ln_obj n)\<rparr>)\<rparr>"
  have "?h = h\<lparr>hp_blocks := hp_blocks h, hp_chunks := (hp_chunks h)(w32 c \<mapsto> n\<lparr>ln_obj := f (ln_obj n)\<rparr>)\<rparr>" by simp
  then have "eff e c lo hi h ?h" by (rule eff_links [OF _ n(1) c(2) _ _ c(3)]) simp_all
  moreover have "chunk_hd ?h c k' bs" using hd n f g by (auto simp: chunk_hd_def)
  moreover have "w32 c \<noteq> 0" using c by (intro w32_nz) linarith+
  ultimately show thesis using n by (intro that [of ?h]) (simp_all add: upd_Chunk_def l_get_def blk_def)
qed


lemma lpath_links: "(\<And>a. map_option ln_next (h' a) = map_option ln_next (h a)) \<Longrightarrow> lpath h' p xs q \<Longrightarrow> lpath h p xs q"
proof (induction xs arbitrary: p)
  case (Cons a xs)
  from Cons.prems(2) obtain n where n: "p = a" "a \<noteq> 0" "h' a = Some n" "lpath h' (ln_next n) xs q" by auto
  with Cons.prems(1) [of a] obtain m where "h a = Some m" "ln_next m = ln_next n" by (cases "h a") auto
  with n Cons.IH [OF Cons.prems(1) n(4)] show ?case by auto
qed simp

lemma upd_Block_step:
  assumes r: "room e h c lo hi" and a: "lo \<le> a" "a + 40 \<le> hi" and b: "blk h a = Some b" and hd: "chunk_hd h c k bs"
  obtains h' where "upd_Block (w32 a) f h = Some h'" "eff e c lo hi h h'" "chunk_hd h' c k bs" "hp_allocs h' = hp_allocs h"
    "blk h' a = Some (f b)" "\<forall>x. w32 x \<noteq> w32 a \<longrightarrow> blk h' x = blk h x" "\<forall>x. map_option ln_next (hp_blocks h' x) = map_option ln_next (hp_blocks h x)"
proof -
  from b obtain n where n: "hp_blocks h (w32 a) = Some n" "ln_obj n = b" by (auto simp: blk_def)
  let ?h = "h\<lparr>hp_blocks := (hp_blocks h)(w32 a \<mapsto> n\<lparr>ln_obj := f b\<rparr>)\<rparr>"
  have a': "0 < a" "a < 2 ^ 32" "a + 40 \<le> 2 ^ 32" using r a by (auto simp: room_def)
  have blocks: "hp_blocks ?h (w32 x) = hp_blocks h (w32 x)" if "x + 40 \<le> 2 ^ 32" "x + 40 \<le> a \<or> a + 40 \<le> x" for x
  proof -
    have "w32 x \<noteq> w32 a" using that a' by (subst w32_eq_iff) auto
    then show ?thesis by simp
  qed
  have cfg: "same_cfg h ?h" by (simp add: same_cfg_def)
  have e: "eff e c lo hi h ?h" by (rule eff_place(1) [OF r a cfg blocks]) simp_all
  have l: "\<forall>x. map_option ln_next (hp_blocks ?h x) = map_option ln_next (hp_blocks h x)" using n by simp
  have hd': "chunk_hd ?h c k bs" using hd l lpath_links [of "hp_blocks h" "hp_blocks ?h"] by (auto simp: chunk_hd_def pl_rep_def)
  have u: "upd_Block (w32 a) f h = Some ?h" using n w32_nz [OF a'(1,2)] by (simp add: upd_Block_def l_get_def)
  show thesis by (rule that [OF u e hd' _ _ _ l]) (auto simp: blk_def)
qed

lemma del_Allocation_step:
  assumes r: "room e h c lo hi" and a: "lo \<le> a" "a + 76 \<le> hi" and b: "alc h a = Some b" and hd: "chunk_hd h c k bs"
  obtains h' where "del_Allocation (w32 a) h = Some h'" "eff e c lo hi h h'" "chunk_hd h' c k bs" "hp_blocks h' = hp_blocks h"
proof -
  from b obtain n where n: "hp_allocs h (w32 a) = Some n" "ln_obj n = b" by (auto simp: alc_def)
  let ?h = "h\<lparr>hp_allocs := (hp_allocs h)(w32 a \<mapsto> n\<lparr>ln_obj := b\<lparr>al_magic := []\<rparr>\<rparr>)\<rparr>"
  have a': "0 < a" "a < 2 ^ 32" "a + 76 \<le> 2 ^ 32" using r a by (auto simp: room_def)
  have allocs: "hp_allocs ?h (w32 x) = hp_allocs h (w32 x)" if "x + 76 \<le> 2 ^ 32" "x + 76 \<le> a \<or> a + 76 \<le> x" for x
  proof -
    have "w32 x \<noteq> w32 a" using that a' by (subst w32_eq_iff) auto
    then show ?thesis by simp
  qed
  have cfg: "same_cfg h ?h" by (simp add: same_cfg_def)
  have e: "eff e c lo hi h ?h" by (rule eff_place(1) [OF r a cfg _ allocs]) simp_all
  have hd': "chunk_hd ?h c k bs" using hd by (simp add: chunk_hd_def)
  have u: "del_Allocation (w32 a) h = Some ?h" using n w32_nz [OF a'(1,2)] by (simp add: del_Allocation_def upd_Allocation_def l_get_def)
  show thesis by (rule that [OF u e hd']) simp
qed

section \<open>Replacing segments\<close>

lemma no_adj_Cons: "no_adj (s # ss) \<longleftrightarrow> no_adj ss \<and> (ss \<noteq> [] \<longrightarrow> \<not> (is_free s \<and> is_free (hd ss)))"
  by (cases ss) auto

lemma free_words:
  assumes so: "segs_ok h c p ss" and b: "p + seg_total ss < 2 ^ 32"
  shows "sorted (map w32 (free_at p ss))" "distinct (map w32 (free_at p ss))"
proof -
  let ?fs = "free_at p ss"
  have fs: "sorted ?fs" "distinct ?fs" "\<And>x. x \<in> set ?fs \<Longrightarrow> x < 2 ^ 32"
    using free_at_sorted [OF so] free_at_bounds [OF so] b by auto fastforce
  then show "sorted (map w32 ?fs)" "distinct (map w32 ?fs)"
    using fs by (auto simp only: sorted_map distinct_map inj_on_def w32_eq_iff intro!: sorted_wrt_mono_rel [OF _ fs(1) [unfolded sorted_wrt_map]])
      (auto simp: w32_le_iff)
qed

lemma chunk_ok_replace:
  assumes ok: "chunk_ok e h c (pre @ mid @ post)" and p: "p = first_at e h c + seg_total pre"
    and ef: "eff e c p (p + seg_total mid) h h'" and t: "seg_total mid' = seg_total mid" and mid: "segs_ok h' c p mid'"
    and adj: "no_adj (pre @ mid' @ post)" and hd: "chunk_hd h' c k bs" "k = length (used_at (first_at e h c) (pre @ mid' @ post))"
    and bs: "sorted bs" "set bs = w32 ` set (free_at (first_at e h c) (pre @ mid' @ post))"
  shows "chunk_ok e h' c (pre @ mid' @ post)"
proof -
  let ?f = "first_at e h c"
  have b: "0 < c" "c + csize h < 2 ^ 32" "?f + seg_total (pre @ mid @ post) = c + csize h" "segs_ok h c ?f (pre @ mid @ post)"
    using ok by (simp_all add: chunk_ok_def)
  have "segs_ok h' c ?f pre" using b p by (intro segs_ok_eff [OF ef]) auto
  moreover have "segs_ok h' c (p + seg_total mid) post" using b p by (intro segs_ok_eff [OF ef]) (auto simp: algebra_simps)
  ultimately have so: "segs_ok h' c ?f (pre @ mid' @ post)" using mid p t by (simp add: algebra_simps)
  let ?fs = "free_at ?f (pre @ mid' @ post)"
  have "sorted (map w32 ?fs)" "distinct (map w32 ?fs)"
    by (rule free_words [OF so]; use b t in simp)+
  moreover have "distinct bs" using hd(1) by (auto simp: chunk_hd_def pl_rep_def)
  ultimately have "bs = map w32 ?fs" using bs by (intro sorted_distinct_set_unique) auto
  then show ?thesis using b so adj hd t by (simp add: chunk_ok_def eff_fields [OF ef] algebra_simps)
qed

end
