(* ===== verification/HeapChunk.thy ===== *)
theory HeapChunk
  imports HeapSeg
begin

text \<open>
  Allocation and release inside one chunk: what \<open>Chunk::malloc\<close> and \<open>Chunk::free\<close> do to the segments.
\<close>

section \<open>Allocation\<close>

definition seg_take :: "nat \<Rightarrow> nat \<Rightarrow> nat \<Rightarrow> seg list" where
  "seg_take g sz n = (if n - 40 \<le> g + sz then [Used (n - sz) sz] else [Used g sz, Free (n - (g + sz))])"

definition take_gap :: "nat \<Rightarrow> nat \<Rightarrow> nat \<Rightarrow> nat" where
  "take_gap g sz n = (if n - 40 \<le> g + sz then n - sz else g)"

lemma seg_take_total: "g + sz \<le> n \<Longrightarrow> seg_total (seg_take g sz n) = n"
  by (auto simp: seg_take_def)

lemma no_adj_take: "no_adj (pre @ Free n # post) \<Longrightarrow> no_adj (pre @ seg_take g sz n @ post)"
  by (auto simp: seg_take_def no_adj_append no_adj_Cons)

lemma chunk_room:
  assumes "chunk_ok e h c (pre @ mid @ post)" "heap_geom e h" "p = first_at e h c + seg_total pre"
  shows "room e h c p (p + seg_total mid)"
  using assms first_at_bounds(1) [of c e h] by (simp add: chunk_ok_def room_def heap_geom_def)

lemma chunk_in_chunk:
  assumes "chunk_ok e h c ss" "heap_geom e h"
  shows "in_chunk h c (map w32 (free_at (first_at e h c) ss))"
proof -
  have ok: "c + csize h < 2 ^ 32" "first_at e h c + seg_total ss = c + csize h" "segs_ok h c (first_at e h c) ss"
    using assms by (auto simp: chunk_ok_def)
  have "c < x \<and> x + 40 \<le> c + csize h \<and> x < 2 ^ 32" if "x \<in> set (free_at (first_at e h c) ss)" for x
    using free_at_bounds [OF ok(3) that] ok(1,2) first_at_bounds(1) [of c e h] assms(2) by (auto simp: heap_geom_def)
  then show ?thesis by (auto simp: in_chunk_def unat_w32)
qed

lemma in_chunk_remove1: "in_chunk h c bs \<Longrightarrow> in_chunk h c (remove1 b bs)"
  by (auto simp: in_chunk_def dest: notin_set_remove1 [rotated])


text \<open>The last steps of an allocation: the header is written and counted.\<close>

lemma chunk_take_finish:
  assumes r: "room e h c p hi" and g: "p + g + 76 \<le> hi" and hd: "chunk_hd h c k bs"
    and bs: "\<And>b. b \<in> set bs \<Longrightarrow> unat b + 40 \<le> p \<or> p + g + 76 \<le> unat b \<and> unat b + 40 \<le> 2 ^ 32"
  obtains h' where "do { h \<leftarrow> new_Allocation e (w32 (p + g)) (w32 c) gap sz ab desc h;
       h \<leftarrow> upd_Chunk (w32 c) (\<lambda>c. c\<lparr>ck_nAllocations := ck_nAllocations c + 1\<rparr>) h;
       Some (w32 (p + g), h) } = Some (w32 (p + g), h')" "eff e c p hi h h'" "chunk_hd h' c (Suc k) bs"
    "alc h' (p + g) = Some \<lparr>al_allocatedBy = ab, al_description = (case desc of None \<Rightarrow> [] | Some d \<Rightarrow> take 31 d), al_parent = w32 c,
       al_nBytes = sz, al_gapSize = gap, al_magic = HEAP_ALLOC_MAGIC\<rparr>"
    "\<forall>x. x + 40 \<le> 2 ^ 32 \<and> p + g + 76 \<le> x \<longrightarrow> blk h' x = blk h x"
proof -
  have p: "p \<le> p + g" by simp
  obtain h1 where h1: "new_Allocation e (w32 (p + g)) (w32 c) gap sz ab desc h = Some h1" "eff e c p hi h h1"
    "alc h1 (p + g) = Some \<lparr>al_allocatedBy = ab, al_description = (case desc of None \<Rightarrow> [] | Some d \<Rightarrow> take 31 d), al_parent = w32 c,
       al_nBytes = sz, al_gapSize = gap, al_magic = HEAP_ALLOC_MAGIC\<rparr>"
    "hp_chunks h1 (w32 c) = hp_chunks h (w32 c)"
    "\<forall>x. x + 40 \<le> 2 ^ 32 \<and> (x + 40 \<le> p + g \<or> p + g + 76 \<le> x) \<longrightarrow> hp_blocks h1 (w32 x) = hp_blocks h (w32 x)"
    by (rule new_Allocation_step [OF r p g])
  have "hp_blocks h1 b = hp_blocks h b" if "b \<in> set bs" for b
    using h1(5) [rule_format, of "unat b"] bs [OF that] r by (auto simp: room_def)
  then have hd1: "chunk_hd h1 c k bs" using hd h1(4) lpath_frame [of bs "hp_blocks h1" "hp_blocks h"]
    by (auto simp: chunk_hd_def pl_rep_def)
  have c: "0 < c" "c + csize h1 < 2 ^ 32" "0 < hdsize e" using r eff_fields(1) [OF h1(2)] by (auto simp: room_def)
  obtain h2 where h2: "upd_Chunk (w32 c) (\<lambda>c. c\<lparr>ck_nAllocations := ck_nAllocations c + 1\<rparr>) h1 = Some h2" "eff e c p hi h1 h2"
    "chunk_hd h2 c (Suc k) bs" "hp_allocs h2 = hp_allocs h1" "\<forall>x. blk h2 x = blk h1 x"
    by (rule upd_count_step [OF hd1 c, where f = "\<lambda>c. c\<lparr>ck_nAllocations := ck_nAllocations c + 1\<rparr>" and g = "\<lambda>n. n + 1"
      and k' = "Suc k" and lo = p and hi = hi]) simp_all
  show thesis
  proof (rule that [of h2])
    show "eff e c p hi h h2" using h1(2) h2(2) by (rule eff_trans)
    show "\<forall>x. x + 40 \<le> 2 ^ 32 \<and> p + g + 76 \<le> x \<longrightarrow> blk h2 x = blk h x" using h2(5) h1(5) by (simp add: blk_def)
  qed (use h1 h2 in \<open>simp_all add: alc_def\<close>)
qed

text \<open>A free segment and its block; the other blocks of the chunk lie outside of it.\<close>

lemma free_seg_block:
  assumes ok: "chunk_ok e h c (pre @ [Free n] @ post)" and geo: "heap_geom e h" and p: "p = first_at e h c + seg_total pre"
  obtains nd where "hp_blocks h (w32 p) = Some nd" "bk_nBytes (ln_obj nd) = w32 n" "bk_parent (ln_obj nd) = w32 c"
    "bk_magic (ln_obj nd) = HEAP_BLOCK_MAGIC" "40 \<le> n" "guarded h \<longrightarrow> 4096 dvd p \<and> 4096 dvd p + n"
    "room e h c p (p + n)" "w32 p \<noteq> 0" "p + n < 2 ^ 32"
proof -
  have r: "room e h c p (p + n)" using chunk_room [OF ok geo p] by simp
  then have lt: "p + n < 2 ^ 32" "0 < p" by (auto simp: room_def)
  then have "w32 p \<noteq> 0" by (intro w32_nz) auto
  from ok p obtain bb where bb: "blk h p = Some bb" "bk_nBytes bb = w32 n" "bk_parent bb = w32 c" "bk_magic bb = HEAP_BLOCK_MAGIC"
    "40 \<le> n" "guarded h \<longrightarrow> 4096 dvd p \<and> 4096 dvd p + n" by (auto simp: chunk_ok_def)
  then obtain nd where "hp_blocks h (w32 p) = Some nd" "ln_obj nd = bb" by (auto simp: blk_def)
  with bb lt(1) \<open>w32 p \<noteq> 0\<close> r show thesis by (intro that [of nd]) simp_all
qed

lemma chunk_blocks_apart:
  assumes ok: "chunk_ok e h c (pre @ mid @ post)" and p: "p = first_at e h c + seg_total pre"
    and y: "y \<in> w32 ` set (free_at (first_at e h c) (pre @ mid @ post))" "y \<notin> w32 ` set (free_at p mid)"
  shows "unat y + 40 \<le> p \<or> p + seg_total mid \<le> unat y \<and> unat y + 40 \<le> 2 ^ 32"
proof -
  let ?f = "first_at e h c"
  have b: "c + csize h < 2 ^ 32" "?f + seg_total (pre @ mid @ post) = c + csize h" "segs_ok h c ?f pre" "segs_ok h c (p + seg_total mid) post"
    using ok p by (auto simp: chunk_ok_def add.assoc)
  from y obtain x where x: "y = w32 x" "x \<in> set (free_at ?f (pre @ mid @ post))" "x \<notin> set (free_at p mid)" by auto
  then consider "x \<in> set (free_at ?f pre)" | "x \<in> set (free_at (p + seg_total mid) post)" using p by (auto simp: add.assoc)
  then have "x + 40 \<le> p \<or> p + seg_total mid \<le> x \<and> x + 40 \<le> c + csize h"
    using free_at_bounds [OF b(3)] free_at_bounds [OF b(4)] b(2) p by cases (auto simp: add.assoc)
  then show ?thesis using x(1) b(1,2) p by (auto simp: unat_w32)
qed

lemma chunk_blocks_words:
  assumes "chunk_ok e h c ss"
  shows "sorted (map w32 (free_at (first_at e h c) ss))" "distinct (map w32 (free_at (first_at e h c) ss))"
  by (rule free_words [of h c]; use assms in \<open>simp add: chunk_ok_def\<close>)+

lemma chunk_take_whole:
  assumes ok: "chunk_ok e h c (pre @ [Free n] @ post)" and geo: "heap_geom e h" and p: "p = first_at e h c + seg_total pre"
    and sz: "g + sz \<le> n" "overhead h < sz" "n - 40 \<le> g + sz"
  obtains h' where "chunk_take e (w32 c) (w32 g) (w32 sz) ab desc (w32 p) h = Some (w32 (p + (n - sz)), h')"
    "eff e c p (p + n) h h'" "chunk_ok e h' c (pre @ [Used (n - sz) sz] @ post)"
proof -
  let ?f = "first_at e h c"
  let ?bs = "map w32 (free_at ?f (pre @ [Free n] @ post))"
  let ?k = "length (used_at ?f (pre @ [Free n] @ post))"
  have b: "0 < c" "c + csize h < 2 ^ 32" "no_adj (pre @ [Free n] @ post)" "chunk_hd h c ?k ?bs" using ok unfolding chunk_ok_def by blast+
  obtain nd where nd: "hp_blocks h (w32 p) = Some nd" "bk_nBytes (ln_obj nd) = w32 n" "bk_parent (ln_obj nd) = w32 c"
    "bk_magic (ln_obj nd) = HEAP_BLOCK_MAGIC" "40 \<le> n" "guarded h \<longrightarrow> 4096 dvd p \<and> 4096 dvd p + n"
    "room e h c p (p + n)" "w32 p \<noteq> 0" "p + n < 2 ^ 32" by (rule free_seg_block [OF ok geo p])
  have hd0: "0 < hdsize e" using geo by (simp add: heap_geom_def)
  obtain h1 where h1: "blocks_remove (w32 c) (w32 p) h = Some h1" "eff e c p (p + n) h h1" "chunk_hd h1 c ?k (remove1 (w32 p) ?bs)"
    "hp_allocs h1 = hp_allocs h" "\<forall>x. blk h1 x = blk h x"
    by (rule blocks_remove_step [OF b(4,1,2) hd0 chunk_in_chunk [OF ok geo] nd(8), where lo = p and hi = "p + n"])
  have oh: "76 \<le> overhead h" by (simp add: overhead_def)
  have r1: "room e h1 c p (p + n)" using nd(7) eff_fields(1) [OF h1(2)] by (simp add: room_def)
  note bs = chunk_blocks_words [OF ok]
  have g: "p + (n - sz) + 76 \<le> p + n" using sz oh by simp
  have other: "unat y + 40 \<le> p \<or> p + (n - sz) + 76 \<le> unat y \<and> unat y + 40 \<le> 2 ^ 32" if "y \<in> set (remove1 (w32 p) ?bs)" for y
    using chunk_blocks_apart [OF ok p, of y] that g by (auto simp only: set_remove1_eq [OF bs(2)] set_map) (auto simp: p)
  obtain h2 where h2: "do { h \<leftarrow> new_Allocation e (w32 (p + (n - sz))) (w32 c) (w32 (n - sz)) (w32 sz) ab desc h1;
       h \<leftarrow> upd_Chunk (w32 c) (\<lambda>c. c\<lparr>ck_nAllocations := ck_nAllocations c + 1\<rparr>) h;
       Some (w32 (p + (n - sz)), h) } = Some (w32 (p + (n - sz)), h2)" "eff e c p (p + n) h1 h2" "chunk_hd h2 c (Suc ?k) (remove1 (w32 p) ?bs)"
    "alc h2 (p + (n - sz)) = Some \<lparr>al_allocatedBy = ab, al_description = (case desc of None \<Rightarrow> [] | Some d \<Rightarrow> take 31 d), al_parent = w32 c,
       al_nBytes = w32 sz, al_gapSize = w32 (n - sz), al_magic = HEAP_ALLOC_MAGIC\<rparr>"
    by (rule chunk_take_finish [OF r1 g h1(3) other])
  have ef: "eff e c p (p + n) h h2" using h1(2) h2(2) by (rule eff_trans)
  have gap: "w32 g + (w32 n - (w32 g + w32 sz)) = w32 (n - sz)" using sz by (simp add: of_nat_diff)
  have "w32 n - sizeof_Block = w32 (n - 40)" using nd(5) by (simp add: of_nat_diff)
  moreover have "w32 (n - 40) \<le> w32 (g + sz)" using sz nd(9) by (subst w32_le_iff) auto
  ultimately have le: "w32 n - sizeof_Block \<le> w32 g + w32 sz" by simp
  have run: "chunk_take e (w32 c) (w32 g) (w32 sz) ab desc (w32 p) h = Some (w32 (p + (n - sz)), h2)"
    using nd le h1(1) h2(1) gap unfolding chunk_take_def l_get_def by (simp flip: of_nat_add)
  have "chunk_ok e h2 c (pre @ [Used (n - sz) sz] @ post)"
  proof (rule chunk_ok_replace [OF ok p _ _ _ _ h2(3)])
    show "eff e c p (p + seg_total [Free n]) h h2" using ef by simp
    show "segs_ok h2 c p [Used (n - sz) sz]" using sz h2(4) nd(6) by (simp add: eff_fields [OF ef])
    show "no_adj (pre @ [Used (n - sz) sz] @ post)" using b(3) by (auto simp: no_adj_append no_adj_Cons)
    show "sorted (remove1 (w32 p) ?bs)" using bs(1) by (rule sorted_remove1)
    show "set (remove1 (w32 p) ?bs) = w32 ` set (free_at ?f (pre @ [Used (n - sz) sz] @ post))"
      using bs(2) sz p by (auto simp: add.assoc)
  qed (use sz in auto)
  with run ef show thesis by (rule that)
qed

lemma chunk_take_split:
  assumes ok: "chunk_ok e h c (pre @ [Free n] @ post)" and geo: "heap_geom e h" and p: "p = first_at e h c + seg_total pre"
    and sz: "g + sz \<le> n" "overhead h < sz" "\<not> n - 40 \<le> g + sz" and al: "guarded h \<longrightarrow> 4096 dvd g + sz"
  obtains h' where "chunk_take e (w32 c) (w32 g) (w32 sz) ab desc (w32 p) h = Some (w32 (p + g), h')"
    "eff e c p (p + n) h h'" "chunk_ok e h' c (pre @ [Used g sz, Free (n - (g + sz))] @ post)"
proof -
  let ?f = "first_at e h c"
  let ?bs = "map w32 (free_at ?f (pre @ [Free n] @ post))"
  let ?k = "length (used_at ?f (pre @ [Free n] @ post))"
  let ?d = "p + (g + sz)"
  have b: "0 < c" "c + csize h < 2 ^ 32" "no_adj (pre @ [Free n] @ post)" "chunk_hd h c ?k ?bs" using ok unfolding chunk_ok_def by blast+
  obtain nd where nd: "hp_blocks h (w32 p) = Some nd" "bk_nBytes (ln_obj nd) = w32 n" "bk_parent (ln_obj nd) = w32 c"
    "bk_magic (ln_obj nd) = HEAP_BLOCK_MAGIC" "40 \<le> n" "guarded h \<longrightarrow> 4096 dvd p \<and> 4096 dvd p + n"
    "room e h c p (p + n)" "w32 p \<noteq> 0" "p + n < 2 ^ 32" by (rule free_seg_block [OF ok geo p])
  have hd0: "0 < hdsize e" using geo by (simp add: heap_geom_def)
  have oh: "76 \<le> overhead h" by (simp add: overhead_def)
  note bs = chunk_blocks_words [OF ok]
  have d: "p \<le> ?d" "?d + 40 \<le> p + n" "p + 40 \<le> ?d" "?d < 2 ^ 32" using sz oh nd(9) by auto
  obtain h1 where h1: "new_Block e (w32 ?d) (w32 c) (w32 n - w32 g - w32 sz) (bk_freedBy (ln_obj nd)) h = Some h1" "eff e c p (p + n) h h1"
    "hp_blocks h1 (w32 ?d) = Some \<lparr>ln_next = he_junk e, ln_obj = \<lparr>bk_parent = w32 c, bk_freedBy = bk_freedBy (ln_obj nd),
       bk_nBytes = w32 n - w32 g - w32 sz, bk_magic = HEAP_BLOCK_MAGIC\<rparr>\<rparr>"
    "hp_chunks h1 (w32 c) = hp_chunks h (w32 c)"
    "\<forall>x. x + 40 \<le> 2 ^ 32 \<and> (x + 40 \<le> ?d \<or> ?d + 40 \<le> x) \<longrightarrow> hp_blocks h1 (w32 x) = hp_blocks h (w32 x)"
    by (rule new_Block_step [OF nd(7) d(1,2)])
  have apart: "unat y + 40 \<le> ?d \<or> p + n \<le> unat y \<and> unat y + 40 \<le> 2 ^ 32" if "y \<in> set ?bs" for y
  proof (cases "y = w32 p")
    case True
    then show ?thesis using d nd(9) by (auto simp: unat_w32)
  next
    case False
    then show ?thesis using chunk_blocks_apart [OF ok p, of y] that d by (simp only: set_map) (auto simp: p)
  qed
  have "hp_blocks h1 y = hp_blocks h y" if "y \<in> set ?bs" for y
    using h1(5) [rule_format, of "unat y"] apart [OF that] d by auto
  then have hd1: "chunk_hd h1 c ?k ?bs" using b(4) h1(4) lpath_frame [of ?bs "hp_blocks h1" "hp_blocks h"]
    unfolding chunk_hd_def pl_rep_def by simp
  have c1: "csize h1 = csize h" by (rule eff_fields(1) [OF h1(2)])
  then have i1: "in_chunk h1 c ?bs" using chunk_in_chunk [OF ok geo] by (simp only: in_chunk_def)
  obtain h2 where h2: "blocks_remove (w32 c) (w32 p) h1 = Some h2" "eff e c p (p + n) h1 h2" "chunk_hd h2 c ?k (remove1 (w32 p) ?bs)"
    "hp_allocs h2 = hp_allocs h1" "\<forall>x. blk h2 x = blk h1 x"
    by (rule blocks_remove_step [OF hd1 b(1) _ hd0 i1 nd(8), where lo = p and hi = "p + n"]) (use b c1 in simp)
  have c2: "csize h2 = csize h" using c1 eff_fields(1) [OF h2(2)] by simp
  have ud: "unat (w32 ?d) = ?d" using d(4) by (rule unat_w32)
  have i2: "in_chunk h2 c (w32 ?d # remove1 (w32 p) ?bs)"
    using in_chunk_remove1 [OF i1, of "w32 p"] nd(7) d ud c1 c2 hd0 by (auto simp: in_chunk_def room_def)
  have nin: "w32 ?d \<notin> set (remove1 (w32 p) ?bs)" using apart [of "w32 ?d"] d(2) ud notin_set_remove1 by fastforce
  have "blk h2 ?d = Some \<lparr>bk_parent = w32 c, bk_freedBy = bk_freedBy (ln_obj nd), bk_nBytes = w32 n - w32 g - w32 sz, bk_magic = HEAP_BLOCK_MAGIC\<rparr>"
    using h2(5) [rule_format, of ?d] h1(3) by (simp add: blk_def del: of_nat_add)
  then have bd: "blk h2 ?d = Some \<lparr>bk_parent = w32 c, bk_freedBy = bk_freedBy (ln_obj nd), bk_nBytes = w32 (n - (g + sz)), bk_magic = HEAP_BLOCK_MAGIC\<rparr>"
    using sz(1) by (simp add: of_nat_diff diff_diff_eq)
  then have nn: "hp_blocks h2 (w32 ?d) \<noteq> None" by (auto simp: blk_def)
  have b2: "c + csize h2 < 2 ^ 32" using b(2) c2 by simp
  obtain h3 where h3: "blocks_sortedInsert (w32 c) (w32 ?d) h2 = Some h3" "eff e c p (p + n) h2 h3"
      "chunk_hd h3 c ?k (insort (w32 ?d) (remove1 (w32 p) ?bs))" "hp_allocs h3 = hp_allocs h2" "\<forall>x. blk h3 x = blk h2 x"
    by (rule blocks_sortedInsert_step [OF h2(3) b(1) b2 hd0 i2 nin nn, where lo = p and hi = "p + n"])
  have e3: "eff e c p (p + n) h h3" using h1(2) h2(2) h3(2) by (blast intro: eff_trans)
  have r3: "room e h3 c p (p + n)" using nd(7) eff_fields(1) [OF e3] by (simp add: room_def)
  have gg: "p + g + 76 \<le> p + n" using sz oh by simp
  have other: "unat y + 40 \<le> p \<or> p + g + 76 \<le> unat y \<and> unat y + 40 \<le> 2 ^ 32" if "y \<in> set (insort (w32 ?d) (remove1 (w32 p) ?bs))" for y
  proof (cases "y = w32 ?d")
    case True
    then show ?thesis using ud sz oh d nd(9) by simp
  next
    case False
    then have "y \<in> set (remove1 (w32 p) ?bs)" using that by (simp add: set_insort_key)
    then show ?thesis using chunk_blocks_apart [OF ok p, of y] gg by (auto simp only: set_remove1_eq [OF bs(2)] set_map) (auto simp: p)
  qed
  obtain h4 where h4: "do { h \<leftarrow> new_Allocation e (w32 (p + g)) (w32 c) (w32 g) (w32 sz) ab desc h3;
       h \<leftarrow> upd_Chunk (w32 c) (\<lambda>c. c\<lparr>ck_nAllocations := ck_nAllocations c + 1\<rparr>) h;
       Some (w32 (p + g), h) } = Some (w32 (p + g), h4)" "eff e c p (p + n) h3 h4" "chunk_hd h4 c (Suc ?k) (insort (w32 ?d) (remove1 (w32 p) ?bs))"
    "alc h4 (p + g) = Some \<lparr>al_allocatedBy = ab, al_description = (case desc of None \<Rightarrow> [] | Some d \<Rightarrow> take 31 d), al_parent = w32 c,
       al_nBytes = w32 sz, al_gapSize = w32 g, al_magic = HEAP_ALLOC_MAGIC\<rparr>"
    "\<forall>x. x + 40 \<le> 2 ^ 32 \<and> p + g + 76 \<le> x \<longrightarrow> blk h4 x = blk h3 x"
    by (rule chunk_take_finish [OF r3 gg h3(3) other])
  have ef: "eff e c p (p + n) h h4" using e3 h4(2) by (rule eff_trans)
  have "w32 n - sizeof_Block = w32 (n - 40)" using nd(5) by (simp add: of_nat_diff)
  moreover have "\<not> w32 (n - 40) \<le> w32 (g + sz)" using sz nd(9) by (subst w32_le_iff) auto
  ultimately have le: "\<not> w32 n - sizeof_Block \<le> w32 g + w32 sz" by simp
  have dvd: "guarded h \<longrightarrow> 4096 dvd ?d" using al nd(6) by auto
  then have pg: "\<not> (guarded h \<and> w32 ?d AND (hp_pageSize h - 1) \<noteq> 0)" using geo page_aligned [of "w32 ?d"] ud by (auto simp: heap_geom_def)
  have run: "chunk_take e (w32 c) (w32 g) (w32 sz) ab desc (w32 p) h = Some (w32 (p + g), h4)"
    using nd(1,2,8) le h1(1) h2(1) h3(1) h4(1) pg unfolding chunk_take_def l_get_def by (simp add: Let_def)
  have "blk h4 ?d = blk h2 ?d" using h4(5) h3(5) d sz oh nd(9) by simp
  note bd4 = this [unfolded bd]
  have "chunk_ok e h4 c (pre @ [Used g sz, Free (n - (g + sz))] @ post)"
  proof (rule chunk_ok_replace [OF ok p _ _ _ _ h4(3)])
    show "eff e c p (p + seg_total [Free n]) h h4" using ef by simp
    show "segs_ok h4 c p [Used g sz, Free (n - (g + sz))]" using sz h4(4) bd4 nd(6) dvd by (simp add: eff_fields [OF ef] add.assoc)
    show "no_adj (pre @ [Used g sz, Free (n - (g + sz))] @ post)" using b(3) by (auto simp: no_adj_append no_adj_Cons)
    show "sorted (insort (w32 ?d) (remove1 (w32 p) ?bs))" using bs(1) by (simp add: sorted_insort sorted_remove1)
    show "set (insort (w32 ?d) (remove1 (w32 p) ?bs)) = w32 ` set (free_at ?f (pre @ [Used g sz, Free (n - (g + sz))] @ post))"
      using bs(2) sz p by (auto simp: set_insort_key add.assoc)
  qed (use sz in \<open>auto simp: add.assoc\<close>)
  with run ef show thesis by (rule that)
qed


text \<open>First fit on segments.\<close>

fun seg_malloc :: "nat \<Rightarrow> nat \<Rightarrow> nat \<Rightarrow> seg list \<Rightarrow> (nat \<times> seg list) option" where
  "seg_malloc g sz p [] = None"
| "seg_malloc g sz p (Free n # ss) =
     (if g + sz \<le> n then Some (p + take_gap g sz n, seg_take g sz n @ ss)
      else map_option (\<lambda>(a, ss). (a, Free n # ss)) (seg_malloc g sz (p + n) ss))"
| "seg_malloc g sz p (Used g' n # ss) = map_option (\<lambda>(a, ss). (a, Used g' n # ss)) (seg_malloc g sz (p + g' + n) ss)"

text \<open>The headers that \<open>keep\<close> names are not touched, and nothing outside the chunk.\<close>

definition chunk_step :: "heap_env \<Rightarrow> nat \<Rightarrow> nat set \<Rightarrow> heap \<Rightarrow> heap \<Rightarrow> bool" where
  "chunk_step e c keep h h' \<longleftrightarrow> eff e c (first_at e h c) (c + csize h) h h' \<and> (\<forall>x\<in>keep. hp_allocs h' (w32 x) = hp_allocs h (w32 x))"

lemma chunk_step_eff:
  assumes ok: "chunk_ok e h c (pre @ mid @ post)" and p: "p = first_at e h c + seg_total pre" and ef: "eff e c p (p + seg_total mid) h h'"
  shows "chunk_step e c (set (used_at (first_at e h c) pre) \<union> set (used_at (p + seg_total mid) post)) h h'"
proof -
  let ?f = "first_at e h c"
  have b: "c + csize h < 2 ^ 32" "?f + seg_total (pre @ mid @ post) = c + csize h" "segs_ok h c ?f pre" "segs_ok h c (p + seg_total mid) post"
    using ok p by (auto simp: chunk_ok_def add.assoc)
  have oh: "76 \<le> overhead h" by (simp add: overhead_def)
  have "hp_allocs h' (w32 x) = hp_allocs h (w32 x)" if "x \<in> set (used_at ?f pre) \<or> x \<in> set (used_at (p + seg_total mid) post)" for x
  proof -
    from that have "x + 76 \<le> p \<or> p + seg_total mid \<le> x \<and> x + 76 \<le> c + csize h"
      using used_at_bounds [OF b(3), of x] used_at_bounds [OF b(4), of x] b(2) p oh by auto
    then have "x + 76 \<le> 2 ^ 32" "x + 76 \<le> p \<or> p + seg_total mid \<le> x" using b(1,2) p by auto
    then show ?thesis using ef unfolding eff_def by blast
  qed
  moreover have "eff e c ?f (c + csize h) h h'" by (rule eff_mono [OF ef]) (use b(2) p in auto)
  ultimately show ?thesis by (auto simp: chunk_step_def)
qed

definition chunk_req :: "heap \<Rightarrow> nat \<Rightarrow> nat \<Rightarrow> bool" where
  "chunk_req h g sz \<longleftrightarrow> overhead h < sz \<and> g + sz < 2 ^ 32 \<and> (guarded h \<longrightarrow> 4096 dvd g + sz)"

lemma chunk_take_ok:
  assumes ok: "chunk_ok e h c (pre @ [Free n] @ post)" and geo: "heap_geom e h" and p: "p = first_at e h c + seg_total pre"
    and sz: "g + sz \<le> n" and rq: "chunk_req h g sz"
  obtains h' where "chunk_take e (w32 c) (w32 g) (w32 sz) ab desc (w32 p) h = Some (w32 (p + take_gap g sz n), h')"
    "eff e c p (p + n) h h'" "chunk_ok e h' c (pre @ seg_take g sz n @ post)"
proof (cases "n - 40 \<le> g + sz")
  case True
  show thesis
    by (rule chunk_take_whole [OF ok geo p sz _ True]) (use rq that True in \<open>auto simp: seg_take_def take_gap_def chunk_req_def\<close>)
next
  case False
  show thesis
    by (rule chunk_take_split [OF ok geo p sz _ False]) (use rq that False in \<open>auto simp: seg_take_def take_gap_def chunk_req_def\<close>)
qed

lemma chunk_ok_path:
  assumes "chunk_ok e h c ss"
  obtains n where "hp_chunks h (w32 c) = Some n" "ck_magic (ln_obj n) = HEAP_CHUNK_MAGIC" "w32 c \<noteq> 0"
    "lpath (hp_blocks h) (pl_head (ck_blocks (ln_obj n))) (map w32 (free_at (first_at e h c) ss)) 0"
proof -
  have "w32 c \<noteq> 0" using assms by (intro w32_nz) (auto simp: chunk_ok_def)
  moreover from assms have "chunk_hd h c (length (used_at (first_at e h c) ss)) (map w32 (free_at (first_at e h c) ss))" by (simp add: chunk_ok_def)
  ultimately show thesis using that by (auto simp: chunk_hd_def pl_rep_def)
qed

text \<open>The address of the first block.\<close>

abbreviation first_block :: "nat \<Rightarrow> seg list \<Rightarrow> u32" where
  "first_block p ss \<equiv> (case free_at p ss of [] \<Rightarrow> 0 | x # _ \<Rightarrow> w32 x)"

lemma lpath_first: "lpath h q (map w32 xs) 0 \<Longrightarrow> q = (case xs of [] \<Rightarrow> 0 | x # _ \<Rightarrow> w32 x)"
  by (cases xs) auto

lemma chunk_next:
  assumes "chunk_ok e h c (pre @ [Free n] @ rest)" "p = first_at e h c + seg_total pre" "hp_blocks h (w32 p) = Some nd"
  shows "ln_next nd = first_block (p + n) rest"
proof -
  obtain ck where "hp_chunks h (w32 c) = Some ck" "ck_magic (ln_obj ck) = HEAP_CHUNK_MAGIC" "w32 c \<noteq> 0"
    and l: "lpath (hp_blocks h) (pl_head (ck_blocks (ln_obj ck))) (map w32 (free_at (first_at e h c) (pre @ [Free n] @ rest))) 0"
    by (rule chunk_ok_path [OF assms(1)])
  from l have "lpath (hp_blocks h) (pl_head (ck_blocks (ln_obj ck)))
      (map w32 (free_at (first_at e h c) pre) @ w32 p # map w32 (free_at (p + n) rest)) 0" by (simp only: free_at_append free_at.simps seg_total_simps
        seg_len.simps add_0_right map_append list.map append_Nil append_Cons assms(2))
  then have "lpath (hp_blocks h) (ln_next nd) (map w32 (free_at (p + n) rest)) 0" using assms(3) by (auto simp: lpath_append)
  then show ?thesis by (rule lpath_first)
qed

lemma chunk_mallocLoop_ok:
  assumes "chunk_ok e h c (pre @ rest)" and geo: "heap_geom e h" and rq: "chunk_req h g sz" and "p = first_at e h c + seg_total pre"
    and "it = first_block p rest"
  shows "case seg_malloc g sz p rest of
      None \<Rightarrow> chunk_mallocLoop e (w32 c) (w32 g) (w32 sz) ab desc it h = Some (0, h)
    | Some (a, rest') \<Rightarrow> \<exists>h'. chunk_mallocLoop e (w32 c) (w32 g) (w32 sz) ab desc it h = Some (w32 a, h') \<and> chunk_ok e h' c (pre @ rest') \<and>
        chunk_step e c (set (used_at (first_at e h c) (pre @ rest))) h h'"
  using assms
proof (induction rest arbitrary: pre p it)
  case Nil
  then show ?case by (subst chunk_mallocLoop.simps) simp
next
  case (Cons s rest)
  have IH: "case seg_malloc g sz (p + seg_len s) rest of
      None \<Rightarrow> chunk_mallocLoop e (w32 c) (w32 g) (w32 sz) ab desc (first_block (p + seg_len s) rest) h = Some (0, h)
    | Some (a, rest') \<Rightarrow> \<exists>h'. chunk_mallocLoop e (w32 c) (w32 g) (w32 sz) ab desc (first_block (p + seg_len s) rest) h =
          Some (w32 a, h') \<and> chunk_ok e h' c ((pre @ [s]) @ rest') \<and> chunk_step e c (set (used_at (first_at e h c) ((pre @ [s]) @ rest))) h h'"
    by (rule Cons.IH [OF _ geo rq]) (use Cons.prems in simp_all)
  show ?case
  proof (cases s)
    case (Used g' n)
    then have "it = (first_block (p + seg_len s) rest)" using Cons.prems(5) by (simp add: add.assoc)
    with IH Used show ?thesis by (auto split: option.splits simp: add.assoc)
  next
    case (Free n)
    have ok: "chunk_ok e h c (pre @ [Free n] @ rest)" using Cons.prems(1) Free by simp
    obtain nd where nd: "hp_blocks h (w32 p) = Some nd" "bk_nBytes (ln_obj nd) = w32 n" "bk_parent (ln_obj nd) = w32 c"
      "bk_magic (ln_obj nd) = HEAP_BLOCK_MAGIC" "40 \<le> n" "guarded h \<longrightarrow> 4096 dvd p \<and> 4096 dvd p + n"
      "room e h c p (p + n)" "w32 p \<noteq> 0" "p + n < 2 ^ 32" by (rule free_seg_block [OF ok geo Cons.prems(4)])
    have it: "it = w32 p" using Cons.prems(5) Free by simp
    have up: "unat (w32 p) = p" using nd(9) by (intro unat_w32) simp
    then have pg: "\<not> (guarded h \<and> w32 p AND (hp_pageSize h - 1) \<noteq> 0)" using geo page_aligned [of "w32 p"] nd(6) by (auto simp: heap_geom_def)
    have gt: "w32 g + w32 sz > w32 n \<longleftrightarrow> \<not> g + sz \<le> n" using rq nd(9) w32_less_iff [of n "g + sz"] by (auto simp: chunk_req_def)
    show ?thesis
    proof (cases "g + sz \<le> n")
      case True
      obtain h' where h': "chunk_take e (w32 c) (w32 g) (w32 sz) ab desc (w32 p) h = Some (w32 (p + take_gap g sz n), h')"
        "eff e c p (p + n) h h'" "chunk_ok e h' c (pre @ seg_take g sz n @ rest)"
        by (rule chunk_take_ok [OF ok geo Cons.prems(4) True rq])
      have "chunk_step e c (set (used_at (first_at e h c) (pre @ s # rest))) h h'"
        using chunk_step_eff [OF ok Cons.prems(4), of h'] h'(2) Free Cons.prems(4) by (simp add: add.assoc)
      moreover have "chunk_mallocLoop e (w32 c) (w32 g) (w32 sz) ab desc it h = Some (w32 (p + take_gap g sz n), h')"
        unfolding it using nd pg gt True h'(1) by (subst chunk_mallocLoop.simps) (simp add: l_get_def)
      ultimately show ?thesis using Free True h'(3) by simp
    next
      case False
      have "ln_next nd = first_block (p + n) rest" by (rule chunk_next [OF ok Cons.prems(4) nd(1)])
      then have "chunk_mallocLoop e (w32 c) (w32 g) (w32 sz) ab desc it h =
          chunk_mallocLoop e (w32 c) (w32 g) (w32 sz) ab desc (first_block (p + n) rest) h"
        unfolding it using nd pg gt False by (subst chunk_mallocLoop.simps) (auto simp: l_get_def)
      with IH Free False show ?thesis by (auto split: option.splits)
    qed
  qed
qed


definition seg_gap :: "heap \<Rightarrow> nat \<Rightarrow> nat" where
  "seg_gap h sz = (if guarded h then 4096 - sz mod 4096 else 0)"

lemma seg_gap_aligned: "guarded h \<Longrightarrow> 4096 dvd seg_gap h sz + sz"
proof -
  have "sz mod 4096 \<le> 4096" by (simp add: less_imp_le)
  then have "4096 - sz mod 4096 + sz = 4096 + (sz - sz mod 4096)" by (metis Nat.add_diff_assoc2 Nat.diff_add_assoc add.commute mod_less_eq_dividend)
  also have "4096 dvd \<dots>" by (intro dvd_add dvd_minus_mod) simp
  finally show "guarded h \<Longrightarrow> ?thesis" by (simp add: seg_gap_def)
qed

lemma gapRequirement_eq: "heap_geom e h \<Longrightarrow> sz < 2 ^ 32 \<Longrightarrow> gapRequirement h (w32 sz) = w32 (seg_gap h sz)"
proof -
  assume h: "heap_geom e h" "sz < 2 ^ 32"
  have "w32 sz AND 4095 = take_bit 12 (w32 sz)" by (simp add: take_bit_eq_mask mask_eq_exp_minus_1)
  also have "\<dots> = w32 (take_bit 12 sz)" by (simp add: take_bit_of_nat)
  also have "take_bit 12 sz = sz mod 4096" by (simp add: take_bit_eq_mod)
  finally have "w32 sz AND 4095 = w32 (sz mod 4096)" .
  moreover have "sz mod 4096 \<le> 4096" by (simp add: less_imp_le)
  ultimately show ?thesis using h by (simp add: gapRequirement_def seg_gap_def heap_geom_def of_nat_diff)
qed

lemma chunk_malloc_ok:
  assumes ok: "chunk_ok e h c ss" and geo: "heap_geom e h" and sz: "overhead h < sz" "seg_gap h sz + sz < 2 ^ 32"
  shows "case seg_malloc (seg_gap h sz) sz (first_at e h c) ss of
      None \<Rightarrow> chunk_malloc e (w32 c) (w32 sz) ab desc h = Some (0, h)
    | Some (a, ss') \<Rightarrow> \<exists>h'. chunk_malloc e (w32 c) (w32 sz) ab desc h = Some (w32 a, h') \<and> chunk_ok e h' c ss' \<and>
        chunk_step e c (set (used_at (first_at e h c) ss)) h h'"
proof -
  obtain ck where ck: "hp_chunks h (w32 c) = Some ck" "ck_magic (ln_obj ck) = HEAP_CHUNK_MAGIC" "w32 c \<noteq> 0"
    "lpath (hp_blocks h) (pl_head (ck_blocks (ln_obj ck))) (map w32 (free_at (first_at e h c) ss)) 0"
    by (rule chunk_ok_path [OF ok])
  have "chunk_req h (seg_gap h sz) sz" using sz seg_gap_aligned by (simp add: chunk_req_def)
  moreover have "gapRequirement h (w32 sz) = w32 (seg_gap h sz)" using sz(2) by (intro gapRequirement_eq [OF geo]) simp
  ultimately show ?thesis
    using chunk_mallocLoop_ok [of e h c "[]" ss "seg_gap h sz" sz "first_at e h c" _ ab desc, OF _ geo _ _ lpath_first [OF ck(4)]] ok ck(1,3)
    by (auto simp: chunk_malloc_def l_get_def split: option.splits)
qed

end
