(* ===== verification/HeapFree.thy ===== *)
theory HeapFree
  imports HeapChunk
begin

text \<open>
  \<open>Chunk::free\<close>: the loop stops at the place of the allocation, and the three ways to give the memory back amount to marking the
  segment free and merging it with its free neighbours.
\<close>

section \<open>The search for the place\<close>

lemma used_seg_alloc:
  assumes ok: "chunk_ok e h c (pre @ [Used g n] @ post)" and geo: "heap_geom e h" and a: "a = first_at e h c + seg_total pre + g"
  obtains nd where "hp_allocs h (w32 a) = Some nd" "al_nBytes (ln_obj nd) = w32 n" "al_gapSize (ln_obj nd) = w32 g" "al_parent (ln_obj nd) = w32 c"
    "al_magic (ln_obj nd) = HEAP_ALLOC_MAGIC" "overhead h < n" "a + n < 2 ^ 32" "w32 a \<noteq> 0" "g < a"
    "guarded h \<longrightarrow> 4096 dvd a - g \<and> 4096 dvd a + n"
proof -
  from ok a obtain al where al: "alc h a = Some al" "al_nBytes al = w32 n" "al_gapSize al = w32 g" "al_parent al = w32 c"
    "al_magic al = HEAP_ALLOC_MAGIC" "overhead h < n" "guarded h \<longrightarrow> 4096 dvd a - g \<and> 4096 dvd a + n" by (auto simp: chunk_ok_def)
  have r: "room e h c (first_at e h c + seg_total pre) (first_at e h c + seg_total pre + seg_total [Used g n])"
    using chunk_room [OF ok geo refl] .
  then have b: "g < a" "a + n < 2 ^ 32" "0 < a" "a < 2 ^ 32" using a by (auto simp: room_def)
  then have "w32 a \<noteq> 0" by (intro w32_nz)
  moreover from al(1) obtain nd where "hp_allocs h (w32 a) = Some nd" "ln_obj nd = al" by (auto simp: alc_def)
  ultimately show thesis using al b by (intro that [of nd]) simp_all
qed

abbreviation last_block :: "nat \<Rightarrow> seg list \<Rightarrow> u32" where
  "last_block p ss \<equiv> (if free_at p ss = [] then 0 else w32 (last (free_at p ss)))"

text \<open>The last free segment of a prefix.\<close>

lemma last_block_split:
  assumes "free_at p ss \<noteq> []"
  obtains u m v where "ss = u @ [Free m] @ v" "last (free_at p ss) = p + seg_total u" "\<forall>s\<in>set v. \<not> is_free s"
  using assms
proof (induction ss arbitrary: thesis rule: rev_induct)
  case (snoc s ss)
  show ?case
  proof (cases s)
    case (Free m)
    then show ?thesis by (intro snoc.prems(1) [of ss m "[]"]) auto
  next
    case (Used g m)
    with snoc.prems(2) obtain u k v where "ss = u @ [Free k] @ v" "last (free_at p ss) = p + seg_total u" "\<forall>s\<in>set v. \<not> is_free s"
      by (auto intro: snoc.IH)
    with Used show ?thesis by (intro snoc.prems(1) [of u k "v @ [Used g m]"]) auto
  qed
qed simp

lemma prev_block:
  assumes ok: "chunk_ok e h c (pre @ post)" and geo: "heap_geom e h" and ne: "free_at (first_at e h c) pre \<noteq> []"
  obtains nd m x where "last_block (first_at e h c) pre = w32 x" "w32 x \<noteq> 0" "hp_blocks h (w32 x) = Some nd" "bk_nBytes (ln_obj nd) = w32 m"
    "0 < m" "x + m \<le> first_at e h c + seg_total pre" "\<not> is_free (last pre) \<longrightarrow> x + m < first_at e h c + seg_total pre" "0 < x" "x + m < 2 ^ 32"
proof -
  obtain u m v where u: "pre = u @ [Free m] @ v" "last (free_at (first_at e h c) pre) = first_at e h c + seg_total u" "\<forall>s\<in>set v. \<not> is_free s"
    by (rule last_block_split [OF ne])
  have ok': "chunk_ok e h c (u @ [Free m] @ (v @ post))" using ok u(1) by simp
  let ?x = "first_at e h c + seg_total u"
  obtain nd where nd: "hp_blocks h (w32 ?x) = Some nd" "bk_nBytes (ln_obj nd) = w32 m" "bk_parent (ln_obj nd) = w32 c"
    "bk_magic (ln_obj nd) = HEAP_BLOCK_MAGIC" "40 \<le> m" "guarded h \<longrightarrow> 4096 dvd ?x \<and> 4096 dvd ?x + m"
    "room e h c ?x (?x + m)" "w32 ?x \<noteq> 0" "?x + m < 2 ^ 32" by (rule free_seg_block [OF ok' geo refl])
  have "?x + m < first_at e h c + seg_total pre" if "\<not> is_free (last pre)"
  proof -
    from that u obtain s w where v: "v = s # w" by (cases v) auto
    with u(3) obtain g k where "s = Used g k" by (cases s) auto
    with v ok' have "0 < k" by (auto simp: chunk_ok_def)
    with u v \<open>s = Used g k\<close> show ?thesis by simp
  qed
  moreover have "0 < ?x" using nd(7) by (auto simp: room_def)
  ultimately show thesis using nd u ne by (intro that [of ?x nd m]) auto
qed

text \<open>One round of the loop, with the end of the previous block computed.\<close>

definition prev_end :: "heap \<Rightarrow> u32 \<Rightarrow> u32 option" where
  "prev_end h prev = (if prev = 0 then Some 0 else do { p \<leftarrow> l_get (hp_blocks h) prev; Some (prev + (bk_nBytes (ln_obj p) - 1)) })"

lemma chunk_freeLoop_round:
  assumes "it \<noteq> 0" "l_get (hp_allocs h) alloc = Some a" "l_get (hp_blocks h) it = Some b" "prev_end h prev = Some pe"
  shows "chunk_freeLoop e this alloc fr prev it h =
    (if alloc + (al_nBytes (ln_obj a) - 1) + 1 = it then map_option Some (prependAndCoalesce e this it prev alloc fr h)
     else if it + (bk_nBytes (ln_obj b) - 1) + 1 = alloc - al_gapSize (ln_obj a) then map_option Some (appendAndCoalesce this it alloc h)
     else if (prev = 0 \<and> alloc < it) \<or> (alloc > pe \<and> alloc < it) then Some None
     else chunk_freeLoop e this alloc fr it (ln_next b) h)"
  by (subst chunk_freeLoop.simps) (simp only: assms if_False Option.bind.simps prev_end_def [symmetric])

lemma prev_end_ok:
  assumes ok: "chunk_ok e h c (pre @ post)" and geo: "heap_geom e h"
  obtains pe where "prev_end h (last_block (first_at e h c) pre) = Some pe" "last_block (first_at e h c) pre \<noteq> 0 \<longrightarrow> unat pe < first_at e h c + seg_total pre"
proof (cases "free_at (first_at e h c) pre = []")
  case True
  then show thesis by (intro that [of 0]) (simp_all add: prev_end_def)
next
  case False
  obtain nd m x where x: "last_block (first_at e h c) pre = w32 x" "w32 x \<noteq> 0" "hp_blocks h (w32 x) = Some nd" "bk_nBytes (ln_obj nd) = w32 m"
    "0 < m" "x + m \<le> first_at e h c + seg_total pre" "0 < x" "x + m < 2 ^ 32"
    by (rule prev_block [OF ok geo False])
  have "w32 x + (w32 m - 1) = w32 (x + (m - 1))" using x(5) by (simp add: of_nat_diff)
  moreover have "unat (w32 (x + (m - 1))) = x + (m - 1)" using x by (intro unat_w32) simp
  ultimately show thesis using x by (intro that [of "w32 (x + (m - 1))"]) (simp_all add: prev_end_def l_get_def)
qed

lemma freeLoop_skip:
  assumes "chunk_ok e h c (u @ v @ rest)" and geo: "heap_geom e h"
    and a: "hp_allocs h (w32 a) = Some al" "al_nBytes (ln_obj al) = w32 n" "al_gapSize (ln_obj al) = w32 g" "w32 a \<noteq> 0" "g < a" "0 < n" "a + n < 2 ^ 32"
    and "first_at e h c + seg_total (u @ v) \<le> a - g" "v \<noteq> [] \<Longrightarrow> \<not> is_free (last v)"
  shows "chunk_freeLoop e (w32 c) (w32 a) fr (last_block (first_at e h c) u) (first_block (first_at e h c + seg_total u) (v @ rest)) h =
    chunk_freeLoop e (w32 c) (w32 a) fr (last_block (first_at e h c) (u @ v)) (first_block (first_at e h c + seg_total (u @ v)) rest) h"
  using assms(1,10,11)
proof (induction v arbitrary: u)
  case Nil
  then show ?case by simp
next
  case (Cons s v)
  let ?f = "first_at e h c"
  let ?x = "?f + seg_total u"
  have IH: "chunk_freeLoop e (w32 c) (w32 a) fr (last_block ?f (u @ [s])) (first_block (?f + seg_total (u @ [s])) (v @ rest)) h =
    chunk_freeLoop e (w32 c) (w32 a) fr (last_block ?f ((u @ [s]) @ v)) (first_block (?f + seg_total ((u @ [s]) @ v)) rest) h"
    by (rule Cons.IH) (use Cons.prems in auto)
  show ?case
  proof (cases s)
    case (Used g' n')
    have 1: "last_block ?f (u @ [s]) = last_block ?f u" using Used by simp
    have 2: "first_block (?f + seg_total (u @ [s])) (v @ rest) = first_block (?f + seg_total u) ((s # v) @ rest)" using Used by (simp add: add.assoc)
    show ?thesis using IH unfolding 1 2 by (simp only: append_assoc append_Cons append_Nil)
  next
    case (Free m)
    have ok: "chunk_ok e h c (u @ [Free m] @ (v @ rest))" using Cons.prems(1) Free by simp
    obtain nd where nd: "hp_blocks h (w32 ?x) = Some nd" "bk_nBytes (ln_obj nd) = w32 m" "bk_parent (ln_obj nd) = w32 c"
      "bk_magic (ln_obj nd) = HEAP_BLOCK_MAGIC" "40 \<le> m" "guarded h \<longrightarrow> 4096 dvd ?x \<and> 4096 dvd ?x + m"
      "room e h c ?x (?x + m)" "w32 ?x \<noteq> 0" "?x + m < 2 ^ 32" by (rule free_seg_block [OF ok geo refl])
    from Cons.prems(3) Free obtain s' v' where v: "v = s' # v'" by (cases v) auto
    have "\<not> is_free s'" using ok v by (auto simp: chunk_ok_def no_adj_append)
    then obtain g' n' where s': "s' = Used g' n'" by (cases s') auto
    have "0 < n'" using ok v s' by (auto simp: chunk_ok_def)
    then have lt: "?x + m < a - g" using Cons.prems(2) Free v s' by simp
    obtain pe where pe: "prev_end h (last_block ?f u) = Some pe" by (rule prev_end_ok [OF Cons.prems(1) geo])
    have ne: "w32 a + (w32 n - 1) + 1 \<noteq> w32 ?x" using w32_eq_iff [of "a + n" ?x] lt a(7) by simp
    have "w32 ?x + (w32 m - 1) + 1 = w32 (?x + m)" by simp
    moreover have "w32 a - w32 g = w32 (a - g)" using a(5) by (simp add: of_nat_diff)
    moreover have "w32 (?x + m) \<noteq> w32 (a - g)" using lt a(7) by (subst w32_eq_iff) auto
    ultimately have na: "w32 ?x + (w32 m - 1) + 1 \<noteq> w32 a - w32 g" by (simp add: add.assoc)
    have nb: "\<not> w32 a < w32 ?x" using lt a(7) by (subst w32_less_iff) auto
    have l: "l_get (hp_allocs h) (w32 a) = Some al" "l_get (hp_blocks h) (w32 ?x) = Some nd" using a(1,4) nd(1,8) by (simp_all only: l_get_def if_False)
    have "chunk_freeLoop e (w32 c) (w32 a) fr (last_block ?f u) (w32 ?x) h =
        chunk_freeLoop e (w32 c) (w32 a) fr (w32 ?x) (first_block (?x + m) (v @ rest)) h"
      unfolding chunk_next [OF ok refl nd(1), symmetric]
      by (simp only: chunk_freeLoop_round [OF nd(8) l pe] a(2,3) nd(2) ne na nb if_False simp_thms)
    moreover have "last_block ?f (u @ [s]) = w32 ?x" "first_block ?x ((s # v) @ rest) = w32 ?x"
      "?f + seg_total (u @ [s]) = ?x + m" using Free by (simp_all add: add.assoc)
    ultimately show ?thesis using IH by (simp only: append_assoc append_Cons append_Nil)
  qed
qed


section \<open>Giving a segment back\<close>

text \<open>Once the memory of \<open>mid\<close> is one block, the allocation is no longer counted.\<close>

lemma chunk_free_finish:
  assumes ok: "chunk_ok e h c (pre @ mid @ post)" and geo: "heap_geom e h" and q: "q = first_at e h c + seg_total pre"
    and ef: "eff e c q (q + seg_total mid) h h1" and one: "length (used_at q mid) = 1"
    and b: "blk h1 q = Some b" "bk_parent b = w32 c" "bk_nBytes b = w32 (seg_total mid)" "bk_magic b = HEAP_BLOCK_MAGIC" "40 \<le> seg_total mid"
    and al: "guarded h \<longrightarrow> 4096 dvd q \<and> 4096 dvd q + seg_total mid"
    and hd: "chunk_hd h1 c (length (used_at (first_at e h c) (pre @ mid @ post))) bs" "sorted bs"
      "set bs = w32 ` set (free_at (first_at e h c) (pre @ [Free (seg_total mid)] @ post))"
    and adj: "no_adj (pre @ [Free (seg_total mid)] @ post)"
  obtains h2 where "upd_Chunk (w32 c) (\<lambda>c. c\<lparr>ck_nAllocations := ck_nAllocations c - 1\<rparr>) h1 = Some h2"
    "chunk_ok e h2 c (pre @ [Free (seg_total mid)] @ post)"
    "chunk_step e c (set (used_at (first_at e h c) pre) \<union> set (used_at (q + seg_total mid) post)) h h2"
proof -
  let ?f = "first_at e h c" and ?T = "seg_total mid"
  let ?k = "length (used_at ?f (pre @ [Free ?T] @ post))"
  have k: "length (used_at ?f (pre @ mid @ post)) = Suc ?k" using one q by (simp add: add.assoc)
  have c: "0 < c" "c + csize h1 < 2 ^ 32" "0 < hdsize e" using ok geo by (auto simp: chunk_ok_def heap_geom_def eff_fields [OF ef])
  obtain h2 where h2: "upd_Chunk (w32 c) (\<lambda>c. c\<lparr>ck_nAllocations := ck_nAllocations c - 1\<rparr>) h1 = Some h2" "eff e c q (q + ?T) h1 h2"
    "chunk_hd h2 c ?k bs" "hp_allocs h2 = hp_allocs h1" "\<forall>x. blk h2 x = blk h1 x"
    by (rule upd_count_step [OF hd(1) [unfolded k] c, where f = "\<lambda>c. c\<lparr>ck_nAllocations := ck_nAllocations c - 1\<rparr>" and g = "\<lambda>n. n - 1"
      and k' = ?k and lo = q and hi = "q + ?T"]) simp_all
  have e2: "eff e c q (q + ?T) h h2" using ef h2(2) by (rule eff_trans)
  have "chunk_ok e h2 c (pre @ [Free ?T] @ post)"
  proof (rule chunk_ok_replace [OF ok q e2 _ _ adj h2(3) refl hd(2,3)])
    show "segs_ok h2 c q [Free ?T]" using b h2(5) al by (simp add: eff_fields [OF e2])
  qed simp
  then show thesis using h2(1) chunk_step_eff [OF ok q e2] by (intro that)
qed

lemma seg_bounds:
  assumes "chunk_ok e h c (pre @ mid @ post)" "heap_geom e h" "q = first_at e h c + seg_total pre"
  shows "0 < q" "q + seg_total mid < 2 ^ 32" "c < q" "q + seg_total mid \<le> c + csize h"
  using chunk_room [OF assms] by (auto simp: room_def)

text \<open>No block nearby: a new one is made.\<close>

lemma chunk_free_new:
  assumes ok: "chunk_ok e h c (pre @ [Used g n] @ post)" and geo: "heap_geom e h" and q: "q = first_at e h c + seg_total pre"
    and nb: "pre \<noteq> [] \<Longrightarrow> \<not> is_free (last pre)" "post \<noteq> [] \<Longrightarrow> \<not> is_free (hd post)"
  obtains h2 where "do { h \<leftarrow> new_Block e (w32 q) (w32 c) (w32 (g + n)) fr h; h \<leftarrow> blocks_sortedInsert (w32 c) (w32 q) h;
      upd_Chunk (w32 c) (\<lambda>c. c\<lparr>ck_nAllocations := ck_nAllocations c - 1\<rparr>) h } = Some h2"
    "chunk_ok e h2 c (pre @ [Free (g + n)] @ post)"
    "chunk_step e c (set (used_at (first_at e h c) pre) \<union> set (used_at (q + (g + n)) post)) h h2"
proof -
  let ?f = "first_at e h c"
  let ?bs = "map w32 (free_at ?f (pre @ [Used g n] @ post))" and ?k = "length (used_at ?f (pre @ [Used g n] @ post))"
  have T: "seg_total [Used g n] = g + n" by simp
  have b: "0 < c" "c + csize h < 2 ^ 32" "no_adj (pre @ [Used g n] @ post)" "chunk_hd h c ?k ?bs" using ok unfolding chunk_ok_def by blast+
  have us: "overhead h < n" "guarded h \<longrightarrow> 4096 dvd q \<and> 4096 dvd q + (g + n)" using ok q by (auto simp: chunk_ok_def add.assoc)
  have oh: "76 \<le> overhead h" by (simp add: overhead_def)
  have hd0: "0 < hdsize e" using geo by (simp add: heap_geom_def)
  note sb = seg_bounds [OF ok geo q, unfolded T]
  note bs = chunk_blocks_words [OF ok]
  have uq: "unat (w32 q) = q" using sb(2) by (intro unat_w32) simp
  have r: "q \<le> q" "q + 40 \<le> q + (g + n)" using us(1) oh by auto
  obtain h1 where h1: "new_Block e (w32 q) (w32 c) (w32 (g + n)) fr h = Some h1" "eff e c q (q + (g + n)) h h1"
    "hp_blocks h1 (w32 q) = Some \<lparr>ln_next = he_junk e, ln_obj = \<lparr>bk_parent = w32 c, bk_freedBy = fr, bk_nBytes = w32 (g + n), bk_magic = HEAP_BLOCK_MAGIC\<rparr>\<rparr>"
    "hp_chunks h1 (w32 c) = hp_chunks h (w32 c)"
    "\<forall>x. x + 40 \<le> 2 ^ 32 \<and> (x + 40 \<le> q \<or> q + 40 \<le> x) \<longrightarrow> hp_blocks h1 (w32 x) = hp_blocks h (w32 x)"
    by (rule new_Block_step [OF chunk_room [OF ok geo q, unfolded T] r])
  have apart: "unat y + 40 \<le> q \<or> q + 40 \<le> unat y \<and> unat y + 40 \<le> 2 ^ 32" if "y \<in> set ?bs" for y
    using chunk_blocks_apart [OF ok q, of y] that us(1) oh by (simp only: set_map) fastforce
  have "hp_blocks h1 y = hp_blocks h y" if "y \<in> set ?bs" for y
    using h1(5) [rule_format, of "unat y"] apart [OF that] sb(2) by auto
  then have hd1: "chunk_hd h1 c ?k ?bs" using b(4) h1(4) lpath_frame [of ?bs "hp_blocks h1" "hp_blocks h"]
    unfolding chunk_hd_def pl_rep_def by simp
  have c1: "csize h1 = csize h" by (rule eff_fields(1) [OF h1(2)])
  have i1: "in_chunk h1 c (w32 q # ?bs)" using chunk_in_chunk [OF ok geo] c1 uq sb us oh by (auto simp only: in_chunk_def set_simps ball_simps)
  have nin: "w32 q \<notin> set ?bs" using apart [of "w32 q"] uq by fastforce
  have b1: "c + csize h1 < 2 ^ 32" using b(2) c1 by simp
  have nn: "hp_blocks h1 (w32 q) \<noteq> None" using h1(3) by simp
  obtain h2 where h2: "blocks_sortedInsert (w32 c) (w32 q) h1 = Some h2" "eff e c q (q + (g + n)) h1 h2" "chunk_hd h2 c ?k (insort (w32 q) ?bs)"
    "hp_allocs h2 = hp_allocs h1" "\<forall>x. blk h2 x = blk h1 x"
    by (rule blocks_sortedInsert_step [OF hd1 b(1) b1 hd0 i1 nin nn, where lo = q and hi = "q + (g + n)"])
  have e2: "eff e c q (q + (g + n)) h h2" using h1(2) h2(2) by (rule eff_trans)
  have bq: "blk h2 q = Some \<lparr>bk_parent = w32 c, bk_freedBy = fr, bk_nBytes = w32 (g + n), bk_magic = HEAP_BLOCK_MAGIC\<rparr>"
    using h2(5) h1(3) by (simp add: blk_def del: of_nat_add)
  have so: "sorted (insort (w32 q) ?bs)" using bs(1) by (simp add: sorted_insort)
  have se: "set (insort (w32 q) ?bs) = w32 ` set (free_at ?f (pre @ [Free (g + n)] @ post))" using q by (simp add: set_insort_key add.assoc) blast
  have adj: "no_adj (pre @ [Free (g + n)] @ post)" using b(3) nb by (auto simp: no_adj_append no_adj_Cons)
  obtain h3 where "upd_Chunk (w32 c) (\<lambda>c. c\<lparr>ck_nAllocations := ck_nAllocations c - 1\<rparr>) h2 = Some h3"
    "chunk_ok e h3 c (pre @ [Free (g + n)] @ post)"
    "chunk_step e c (set (used_at (first_at e h c) pre) \<union> set (used_at (q + (g + n)) post)) h h3"
    by (rule chunk_free_finish [OF ok geo q e2 [folded T] _ bq, unfolded T, OF _ _ _ _ _ us(2) h2(3) so se adj]) (use us oh in simp_all)
  then show thesis using h1(1) h2(1) by (intro that [of h3]) simp_all
qed


text \<open>A block in front: it grows by the allocation.\<close>

lemma append_start:
  assumes ok: "chunk_ok e h c (pre @ (Free l # Used g n # R) @ post)" and geo: "heap_geom e h" and q: "q = first_at e h c + seg_total pre"
    and T: "T = seg_total (Free l # Used g n # R)"
    and a: "a = q + l + g" "hp_allocs h (w32 a) = Some al" "al_nBytes (ln_obj al) = w32 n" "al_gapSize (ln_obj al) = w32 g" "w32 a \<noteq> 0"
  obtains h2 nb where "appendAndCoalesce (w32 c) (w32 q) (w32 a) h =
      (if ln_next nb = 0 then Some h2
       else if w32 (q + l + g + n) \<noteq> ln_next nb then Some h2
       else do {
         m \<leftarrow> l_get (hp_blocks h2) (ln_next nb);
         h \<leftarrow> upd_Block (w32 q) (\<lambda>b. b\<lparr>bk_nBytes := bk_nBytes b + bk_nBytes (ln_obj m)\<rparr>) h2;
         h \<leftarrow> blocks_remove (w32 c) (ln_next nb) h;
         del_Block (ln_next nb) h
       })"
    "eff e c q (q + T) h h2" "hp_blocks h2 (w32 q) = Some nb" "bk_parent (ln_obj nb) = w32 c" "bk_nBytes (ln_obj nb) = w32 (l + g + n)"
    "bk_magic (ln_obj nb) = HEAP_BLOCK_MAGIC" "ln_next nb = first_block (q + l + g + n) (R @ post)"
    "chunk_hd h2 c (length (used_at (first_at e h c) (pre @ (Free l # Used g n # R) @ post)))
       (map w32 (free_at (first_at e h c) (pre @ (Free l # Used g n # R) @ post)))"
    "\<forall>x. w32 x \<noteq> w32 q \<longrightarrow> blk h2 x = blk h x"
proof -
  let ?mid = "Free l # Used g n # R"
  let ?f = "first_at e h c" and ?k = "length (used_at (first_at e h c) (pre @ ?mid @ post))" and ?bs = "map w32 (free_at (first_at e h c) (pre @ ?mid @ post))"
  have hd: "chunk_hd h c ?k ?bs" using ok unfolding chunk_ok_def by blast
  have r: "room e h c q (q + T)" using chunk_room [OF ok geo q] T by simp
  have ok': "chunk_ok e h c (pre @ [Free l] @ (Used g n # R) @ post)" using ok by simp
  obtain nd where nd: "hp_blocks h (w32 q) = Some nd" "bk_nBytes (ln_obj nd) = w32 l" "bk_parent (ln_obj nd) = w32 c"
    "bk_magic (ln_obj nd) = HEAP_BLOCK_MAGIC" "40 \<le> l" "guarded h \<longrightarrow> 4096 dvd q \<and> 4096 dvd q + l"
    "room e h c q (q + l)" "w32 q \<noteq> 0" "q + l < 2 ^ 32" by (rule free_seg_block [OF ok' geo q])
  have us: "overhead h < n" using ok by (simp add: chunk_ok_def)
  have oh: "76 \<le> overhead h" by (simp add: overhead_def)
  let ?F = "\<lambda>b. b\<lparr>bk_nBytes := bk_nBytes b + (w32 g + w32 n)\<rparr>"
  have b: "blk h q = Some (ln_obj nd)" using nd(1) by (simp add: blk_def)
  have q40: "q + 40 \<le> q + T" "q \<le> q" using T nd(5) by auto
  obtain h1 where h1: "upd_Block (w32 q) ?F h = Some h1" "eff e c q (q + T) h h1" "chunk_hd h1 c ?k ?bs" "hp_allocs h1 = hp_allocs h"
    "blk h1 q = Some (?F (ln_obj nd))" "\<forall>x. w32 x \<noteq> w32 q \<longrightarrow> blk h1 x = blk h x" "\<forall>x. map_option ln_next (hp_blocks h1 x) = map_option ln_next (hp_blocks h x)"
    by (rule upd_Block_step [OF r q40(2,1) b hd, where f = ?F])
  have r1: "room e h1 c q (q + T)" using r eff_fields(1) [OF h1(2)] by (simp add: room_def)
  have aa: "q \<le> a" "a + 76 \<le> q + T" using a(1) T us oh by auto
  have al: "alc h1 a = Some (ln_obj al)" using a(2) h1(4) by (simp add: alc_def)
  obtain h2 where h2: "del_Allocation (w32 a) h1 = Some h2" "eff e c q (q + T) h1 h2" "chunk_hd h2 c ?k ?bs" "hp_blocks h2 = hp_blocks h1"
    by (rule del_Allocation_step [OF r1 aa al h1(3)])
  from h1(5) h2(4) obtain nb where nb: "hp_blocks h2 (w32 q) = Some nb" "ln_obj nb = ?F (ln_obj nd)" by (auto simp: blk_def)
  from h1(7) [rule_format, of "w32 q"] nb(1) nd(1) h2(4) have ln: "ln_next nb = ln_next nd" by simp
  have nx: "ln_next nd = first_block (q + l) ((Used g n # R) @ post)" by (rule chunk_next [OF ok' q nd(1)])
  have e2: "eff e c q (q + T) h h2" using h1(2) h2(2) by (rule eff_trans)
  have lg: "l_get (hp_allocs h) (w32 a) = Some al" "l_get (hp_blocks h2) (w32 q) = Some nb" using a(2,5) nb(1) nd(8) by (simp_all add: l_get_def)
  have be: "w32 q + (bk_nBytes (ln_obj nb) - 1) + 1 = w32 (q + l + g + n)" using nb(2) nd(2) by (simp add: algebra_simps)
  show thesis
  proof (rule that [OF _ e2 nb(1) _ _ _ _ h2(3)])
    show "\<forall>x. w32 x \<noteq> w32 q \<longrightarrow> blk h2 x = blk h x" using h1(6) h2(4) by (simp add: blk_def)
    show "ln_next nb = first_block (q + l + g + n) (R @ post)" using ln nx by (simp add: add.assoc)
    show "appendAndCoalesce (w32 c) (w32 q) (w32 a) h =
      (if ln_next nb = 0 then Some h2 else if w32 (q + l + g + n) \<noteq> ln_next nb then Some h2
       else do { m \<leftarrow> l_get (hp_blocks h2) (ln_next nb); h \<leftarrow> upd_Block (w32 q) (\<lambda>b. b\<lparr>bk_nBytes := bk_nBytes b + bk_nBytes (ln_obj m)\<rparr>) h2;
         h \<leftarrow> blocks_remove (w32 c) (ln_next nb) h; del_Block (ln_next nb) h })"
      by (simp only: appendAndCoalesce_def lg a(3,4) h1(1) h2(1) Option.bind.simps Let_def be)
  qed (use nb(2) nd in \<open>simp_all add: add.assoc\<close>)
qed


lemma free_at_split:
  assumes "x \<in> set (free_at p ss)"
  obtains pre m post where "ss = pre @ [Free m] @ post" "x = p + seg_total pre"
  using assms
proof (induction p ss arbitrary: thesis rule: free_at.induct)
  case (2 p n ss)
  show ?case
  proof (cases "x = p")
    case True
    then show ?thesis by (intro 2(2) [of "[]" n ss]) auto
  next
    case False
    with 2(3) obtain pre m post where "ss = pre @ [Free m] @ post" "x = p + n + seg_total pre" by (auto intro: 2(1))
    then show ?thesis by (intro 2(2) [of "Free n # pre" m post]) auto
  qed
next
  case (3 p g n ss)
  from 3(3) obtain pre m post where "ss = pre @ [Free m] @ post" "x = p + g + n + seg_total pre" by (auto intro: 3(1))
  then show ?case by (intro 3(2) [of "Used g n # pre" m post]) auto
qed simp

lemma first_block_far:
  assumes ok: "chunk_ok e h c (pre @ post)" and geo: "heap_geom e h" and q: "q = first_at e h c + seg_total pre" and nf: "post \<noteq> [] \<longrightarrow> \<not> is_free (hd post)"
  shows "first_block q post = 0 \<or> (\<exists>x m nd. first_block q post = w32 x \<and> q < x \<and> x + m < 2 ^ 32 \<and> hp_blocks h (w32 x) = Some nd \<and> bk_nBytes (ln_obj nd) = w32 m)"
proof (cases "free_at q post")
  case (Cons x xs)
  then obtain u m v where u: "post = u @ [Free m] @ v" "x = q + seg_total u" by (auto intro: free_at_split [of x q post])
  with nf obtain s w where w: "u = s # w" by (cases u) auto
  with nf u(1) have "\<not> is_free s" by simp
  moreover have "seg_ok h c q s" using ok q u(1) w by (auto simp: chunk_ok_def)
  ultimately have "0 < seg_len s" by (cases s) auto
  then have "q < x" using u(2) w by simp
  moreover have ok': "chunk_ok e h c ((pre @ u) @ [Free m] @ v)" "x = first_at e h c + seg_total (pre @ u)" using ok u q by (simp_all add: add.assoc)
  obtain nd where "hp_blocks h (w32 x) = Some nd" "bk_nBytes (ln_obj nd) = w32 m" "bk_parent (ln_obj nd) = w32 c"
    "bk_magic (ln_obj nd) = HEAP_BLOCK_MAGIC" "40 \<le> m" "guarded h \<longrightarrow> 4096 dvd x \<and> 4096 dvd x + m"
    "room e h c x (x + m)" "w32 x \<noteq> 0" "x + m < 2 ^ 32" by (rule free_seg_block [OF ok'(1) geo ok'(2)])
  ultimately show ?thesis using Cons by auto
qed simp

lemma chunk_free_append:
  assumes ok: "chunk_ok e h c (pre @ [Free l, Used g n] @ post)" and geo: "heap_geom e h" and q: "q = first_at e h c + seg_total pre"
    and a: "a = q + l + g" "hp_allocs h (w32 a) = Some al" "al_nBytes (ln_obj al) = w32 n" "al_gapSize (ln_obj al) = w32 g" "w32 a \<noteq> 0"
    and nb: "post \<noteq> [] \<Longrightarrow> \<not> is_free (hd post)"
  obtains h2 where "do { h \<leftarrow> appendAndCoalesce (w32 c) (w32 q) (w32 a) h;
      upd_Chunk (w32 c) (\<lambda>c. c\<lparr>ck_nAllocations := ck_nAllocations c - 1\<rparr>) h } = Some h2"
    "chunk_ok e h2 c (pre @ [Free (l + (g + n))] @ post)"
    "chunk_step e c (set (used_at (first_at e h c) pre) \<union> set (used_at (q + (l + (g + n))) post)) h h2"
proof -
  let ?mid = "[Free l, Used g n]"
  let ?f = "first_at e h c"
  let ?bs = "map w32 (free_at ?f (pre @ ?mid @ post))" and ?k = "length (used_at ?f (pre @ ?mid @ post))"
  have T: "seg_total ?mid = l + (g + n)" by simp
  have b: "no_adj (pre @ ?mid @ post)" "40 \<le> l" "guarded h \<longrightarrow> 4096 dvd q \<and> 4096 dvd q + (l + (g + n))"
    using ok q by (auto simp: chunk_ok_def add.assoc)
  obtain h1 nx where h1: "appendAndCoalesce (w32 c) (w32 q) (w32 a) h =
      (if ln_next nx = 0 then Some h1 else if w32 (q + l + g + n) \<noteq> ln_next nx then Some h1
       else do { m \<leftarrow> l_get (hp_blocks h1) (ln_next nx); h \<leftarrow> upd_Block (w32 q) (\<lambda>b. b\<lparr>bk_nBytes := bk_nBytes b + bk_nBytes (ln_obj m)\<rparr>) h1;
         h \<leftarrow> blocks_remove (w32 c) (ln_next nx) h; del_Block (ln_next nx) h })"
    "eff e c q (q + (l + (g + n))) h h1" "hp_blocks h1 (w32 q) = Some nx" "bk_parent (ln_obj nx) = w32 c" "bk_nBytes (ln_obj nx) = w32 (l + g + n)"
    "bk_magic (ln_obj nx) = HEAP_BLOCK_MAGIC" "ln_next nx = first_block (q + l + g + n) ([] @ post)" "chunk_hd h1 c ?k ?bs"
    "\<forall>x. w32 x \<noteq> w32 q \<longrightarrow> blk h1 x = blk h x"
    by (rule append_start [OF ok geo q T [symmetric] a])
  have lt: "q + l + g + n < 2 ^ 32" using seg_bounds(2) [OF ok geo q] by (simp add: add.assoc)
  have "first_block (q + l + g + n) post = 0 \<or>
      (\<exists>x m nd. first_block (q + l + g + n) post = w32 x \<and> q + l + g + n < x \<and> x + m < 2 ^ 32 \<and> hp_blocks h (w32 x) = Some nd \<and> bk_nBytes (ln_obj nd) = w32 m)"
    by (rule first_block_far [of e h c "pre @ ?mid", OF _ geo]) (use ok q nb in \<open>simp_all add: add.assoc\<close>)
  then have "ln_next nx = 0 \<or> w32 (q + l + g + n) \<noteq> ln_next nx"
  proof (elim disjE exE conjE)
    fix x m nd assume "first_block (q + l + g + n) post = w32 x" "q + l + g + n < x" "x + m < 2 ^ 32"
    moreover from this have "w32 (q + l + g + n) \<noteq> w32 x" using lt by (subst w32_eq_iff) auto
    ultimately show ?thesis using h1(7) by simp
  qed (use h1(7) in simp)
  with h1(1) have run: "appendAndCoalesce (w32 c) (w32 q) (w32 a) h = Some h1" by (simp only: simp_thms if_True split: if_splits)
  have bq: "blk h1 q = Some (ln_obj nx)" using h1(3) by (simp add: blk_def)
  have so: "sorted ?bs" by (rule chunk_blocks_words [OF ok])
  have se: "set ?bs = w32 ` set (free_at ?f (pre @ [Free (l + (g + n))] @ post))" by (simp add: add.assoc image_Un)
  have adj: "no_adj (pre @ [Free (l + (g + n))] @ post)" using b(1) nb by (auto simp: no_adj_append no_adj_Cons)
  obtain h3 where "upd_Chunk (w32 c) (\<lambda>c. c\<lparr>ck_nAllocations := ck_nAllocations c - 1\<rparr>) h1 = Some h3"
    "chunk_ok e h3 c (pre @ [Free (l + (g + n))] @ post)"
    "chunk_step e c (set (used_at (first_at e h c) pre) \<union> set (used_at (q + (l + (g + n))) post)) h h3"
    by (rule chunk_free_finish [OF ok geo q h1(2) [folded T] _ bq h1(4), unfolded T, OF _ _ h1(6) _ b(3) h1(8) so se adj])
      (use h1(5) b(2) in \<open>simp_all add: add.assoc\<close>)
  then show thesis using run by (intro that [of h3]) simp_all
qed


text \<open>Blocks on both sides: the one in front takes the allocation and the block behind it.\<close>

lemma del_Block_step:
  assumes r: "room e h c lo hi" and x: "lo \<le> x" "x + 40 \<le> hi" "blk h x = Some b" and hd: "chunk_hd h c k bs"
  obtains h' where "del_Block (w32 x) h = Some h'" "eff e c lo hi h h'" "chunk_hd h' c k bs" "hp_allocs h' = hp_allocs h"
    "\<forall>y. w32 y \<noteq> w32 x \<longrightarrow> blk h' y = blk h y" "\<forall>y. map_option ln_next (hp_blocks h' y) = map_option ln_next (hp_blocks h y)"
  unfolding del_Block_def by (rule upd_Block_step [OF r x hd, where f = "bk_magic_update (\<lambda>_. [])"])

lemma chunk_free_append_next:
  assumes ok: "chunk_ok e h c (pre @ [Free l, Used g n, Free r] @ post)" and geo: "heap_geom e h" and q: "q = first_at e h c + seg_total pre"
    and a: "a = q + l + g" "hp_allocs h (w32 a) = Some al" "al_nBytes (ln_obj al) = w32 n" "al_gapSize (ln_obj al) = w32 g" "w32 a \<noteq> 0"
  obtains h2 where "do { h \<leftarrow> appendAndCoalesce (w32 c) (w32 q) (w32 a) h;
      upd_Chunk (w32 c) (\<lambda>c. c\<lparr>ck_nAllocations := ck_nAllocations c - 1\<rparr>) h } = Some h2"
    "chunk_ok e h2 c (pre @ [Free (l + (g + n + r))] @ post)"
    "chunk_step e c (set (used_at (first_at e h c) pre) \<union> set (used_at (q + (l + (g + n + r))) post)) h h2"
proof -
  let ?mid = "[Free l, Used g n, Free r]"
  let ?f = "first_at e h c" and ?T = "l + (g + n + r)" and ?x = "q + l + g + n"
  let ?bs = "map w32 (free_at ?f (pre @ ?mid @ post))" and ?k = "length (used_at ?f (pre @ ?mid @ post))"
  have T: "seg_total ?mid = ?T" by simp
  have b: "0 < c" "c + csize h < 2 ^ 32" "no_adj (pre @ ?mid @ post)" "40 \<le> l" "40 \<le> r" "guarded h \<longrightarrow> 4096 dvd q \<and> 4096 dvd q + ?T"
    "overhead h < n" using ok q by (auto simp: chunk_ok_def add.assoc)
  have hd0: "0 < hdsize e" using geo by (simp add: heap_geom_def)
  note sb = seg_bounds [OF ok geo q, unfolded T]
  obtain h1 nx where h1: "appendAndCoalesce (w32 c) (w32 q) (w32 a) h =
      (if ln_next nx = 0 then Some h1 else if w32 ?x \<noteq> ln_next nx then Some h1
       else do { m \<leftarrow> l_get (hp_blocks h1) (ln_next nx); h \<leftarrow> upd_Block (w32 q) (\<lambda>b. b\<lparr>bk_nBytes := bk_nBytes b + bk_nBytes (ln_obj m)\<rparr>) h1;
         h \<leftarrow> blocks_remove (w32 c) (ln_next nx) h; del_Block (ln_next nx) h })"
    "eff e c q (q + ?T) h h1" "hp_blocks h1 (w32 q) = Some nx" "bk_parent (ln_obj nx) = w32 c" "bk_nBytes (ln_obj nx) = w32 (l + g + n)"
    "bk_magic (ln_obj nx) = HEAP_BLOCK_MAGIC" "ln_next nx = first_block ?x ([Free r] @ post)" "chunk_hd h1 c ?k ?bs"
    "\<forall>x. w32 x \<noteq> w32 q \<longrightarrow> blk h1 x = blk h x"
    by (rule append_start [OF ok geo q T [symmetric] a])
  have ok': "chunk_ok e h c ((pre @ [Free l, Used g n]) @ [Free r] @ post)" and xx: "?x = ?f + seg_total (pre @ [Free l, Used g n])"
    using ok q by (simp_all add: add.assoc)
  obtain nd where nd: "hp_blocks h (w32 ?x) = Some nd" "bk_nBytes (ln_obj nd) = w32 r" "bk_parent (ln_obj nd) = w32 c"
    "bk_magic (ln_obj nd) = HEAP_BLOCK_MAGIC" "40 \<le> r" "guarded h \<longrightarrow> 4096 dvd ?x \<and> 4096 dvd ?x + r"
    "room e h c ?x (?x + r)" "w32 ?x \<noteq> 0" "?x + r < 2 ^ 32" by (rule free_seg_block [OF ok' geo xx])
  have nxt: "ln_next nx = w32 ?x" using h1(7) by simp
  have ne: "w32 ?x \<noteq> w32 q" using b(4) nd(9) by (subst w32_eq_iff) auto
  have bx: "blk h1 ?x = Some (ln_obj nd)" using h1(9) ne nd(1) by (simp add: blk_def del: of_nat_add)
  then obtain m where m: "hp_blocks h1 (w32 ?x) = Some m" "ln_obj m = ln_obj nd" by (auto simp: blk_def simp del: of_nat_add)
  let ?F = "\<lambda>b. b\<lparr>bk_nBytes := bk_nBytes b + bk_nBytes (ln_obj m)\<rparr>"
  have r1: "room e h1 c q (q + ?T)" using chunk_room [OF ok geo q] eff_fields(1) [OF h1(2)] by (simp add: room_def)
  have q40: "q \<le> q" "q + 40 \<le> q + ?T" using b(4) by auto
  have bq: "blk h1 q = Some (ln_obj nx)" using h1(3) by (simp add: blk_def)
  obtain h2 where h2: "upd_Block (w32 q) ?F h1 = Some h2" "eff e c q (q + ?T) h1 h2" "chunk_hd h2 c ?k ?bs" "hp_allocs h2 = hp_allocs h1"
    "blk h2 q = Some (?F (ln_obj nx))" "\<forall>x. w32 x \<noteq> w32 q \<longrightarrow> blk h2 x = blk h1 x"
    "\<forall>x. map_option ln_next (hp_blocks h2 x) = map_option ln_next (hp_blocks h1 x)"
    by (rule upd_Block_step [OF r1 q40 bq h1(8), where f = ?F])
  have e2: "eff e c q (q + ?T) h h2" using h1(2) h2(2) by (rule eff_trans)
  have b2: "c + csize h2 < 2 ^ 32" "in_chunk h2 c ?bs" using b(2) chunk_in_chunk [OF ok geo] by (simp_all only: eff_fields(1) [OF e2] in_chunk_def)
  obtain h3 where h3: "blocks_remove (w32 c) (w32 ?x) h2 = Some h3" "eff e c q (q + ?T) h2 h3" "chunk_hd h3 c ?k (remove1 (w32 ?x) ?bs)"
    "hp_allocs h3 = hp_allocs h2" "\<forall>x. blk h3 x = blk h2 x"
    by (rule blocks_remove_step [OF h2(3) b(1) b2(1) hd0 b2(2) nd(8), where lo = q and hi = "q + ?T"])
  have e3: "eff e c q (q + ?T) h h3" using e2 h3(2) by (rule eff_trans)
  have r3: "room e h3 c q (q + ?T)" using chunk_room [OF ok geo q] eff_fields(1) [OF e3] by (simp add: room_def)
  have bx3: "blk h3 ?x = Some (ln_obj nd)" using bx h2(6) h3(5) ne by (simp del: of_nat_add)
  have x40: "q \<le> ?x" "?x + 40 \<le> q + ?T" using b(5) by auto
  obtain h4 where h4: "del_Block (w32 ?x) h3 = Some h4" "eff e c q (q + ?T) h3 h4" "chunk_hd h4 c ?k (remove1 (w32 ?x) ?bs)"
    "hp_allocs h4 = hp_allocs h3" "\<forall>y. w32 y \<noteq> w32 ?x \<longrightarrow> blk h4 y = blk h3 y" "\<forall>y. map_option ln_next (hp_blocks h4 y) = map_option ln_next (hp_blocks h3 y)"
    by (rule del_Block_step [OF r3 x40 bx3 h3(3)])
  have e4: "eff e c q (q + ?T) h h4" using e3 h4(2) by (rule eff_trans)
  have "blk h4 q = Some (?F (ln_obj nx))" using h4(5) h3(5) h2(5) ne by (metis (no_types))
  then have b4: "blk h4 q = Some ((ln_obj nx)\<lparr>bk_nBytes := w32 ?T\<rparr>)" using h1(5) m(2) nd(2) by (simp add: algebra_simps)
  have lg: "l_get (hp_blocks h1) (w32 ?x) = Some m" using m(1) nd(8) by (simp only: l_get_def if_False)
  have run: "appendAndCoalesce (w32 c) (w32 q) (w32 a) h = Some h4"
    by (simp only: h1(1) nxt nd(8) simp_thms if_False lg Option.bind.simps h2(1) h3(1) h4(1))
  note ws = chunk_blocks_words [OF ok]
  have so: "sorted (remove1 (w32 ?x) ?bs)" using ws(1) by (rule sorted_remove1)
  let ?S = "set (free_at ?f pre) \<union> {q} \<union> set (free_at (?x + r) post)"
  have "w32 ?x \<notin> w32 ` ?S" using ws(2) q by (auto simp: add.assoc)
  moreover have "set ?bs = insert (w32 ?x) (w32 ` ?S)" using q by (simp add: add.assoc image_Un insert_commute)
  moreover have "set (free_at ?f (pre @ [Free ?T] @ post)) = ?S" using q by (simp add: add.assoc)
  ultimately have se: "set (remove1 (w32 ?x) ?bs) = w32 ` set (free_at ?f (pre @ [Free ?T] @ post))"
    unfolding set_remove1_eq [OF ws(2)] by (simp only: Diff_insert_absorb simp_thms)
  have adj: "no_adj (pre @ [Free ?T] @ post)" using b(3) by (auto simp: no_adj_append no_adj_Cons)
  obtain h5 where "upd_Chunk (w32 c) (\<lambda>c. c\<lparr>ck_nAllocations := ck_nAllocations c - 1\<rparr>) h4 = Some h5"
    "chunk_ok e h5 c (pre @ [Free ?T] @ post)"
    "chunk_step e c (set (used_at (first_at e h c) pre) \<union> set (used_at (q + ?T) post)) h h5"
    by (rule chunk_free_finish [OF ok geo q e4 [folded T] _ b4, unfolded T, OF _ _ _ _ _ b(6) h4(3) so se adj])
      (use h1(4,6) b(4) in simp_all)
  then show thesis using run by (intro that [of h5]) simp_all
qed


text \<open>A block behind and none in front: a new block takes both.\<close>

lemma chunk_free_prepend:
  assumes ok: "chunk_ok e h c (pre @ [Used g n, Free r] @ post)" and geo: "heap_geom e h" and q: "q = first_at e h c + seg_total pre"
    and a: "a = q + g" "hp_allocs h (w32 a) = Some al" "al_nBytes (ln_obj al) = w32 n" "al_gapSize (ln_obj al) = w32 g" "w32 a \<noteq> 0"
    and nb: "pre \<noteq> [] \<Longrightarrow> \<not> is_free (last pre)"
  obtains h2 where "do { h \<leftarrow> prependAndCoalesce e (w32 c) (w32 (a + n)) (last_block (first_at e h c) pre) (w32 a) fr h;
      upd_Chunk (w32 c) (\<lambda>c. c\<lparr>ck_nAllocations := ck_nAllocations c - 1\<rparr>) h } = Some h2"
    "chunk_ok e h2 c (pre @ [Free (g + n + r)] @ post)"
    "chunk_step e c (set (used_at (first_at e h c) pre) \<union> set (used_at (q + (g + n + r)) post)) h h2"
proof -
  let ?mid = "[Used g n, Free r]"
  let ?f = "first_at e h c" and ?T = "g + n + r" and ?x = "a + n"
  let ?bs = "map w32 (free_at ?f (pre @ ?mid @ post))" and ?k = "length (used_at ?f (pre @ ?mid @ post))"
  have T: "seg_total ?mid = ?T" by simp
  have b: "0 < c" "c + csize h < 2 ^ 32" "no_adj (pre @ ?mid @ post)" "40 \<le> r" "guarded h \<longrightarrow> 4096 dvd q \<and> 4096 dvd q + ?T"
    "overhead h < n" "chunk_hd h c ?k ?bs" using ok q by (auto simp: chunk_ok_def add.assoc)
  have oh: "76 \<le> overhead h" by (simp add: overhead_def)
  have hd0: "0 < hdsize e" using geo by (simp add: heap_geom_def)
  note sb = seg_bounds [OF ok geo q, unfolded T]
  note ws = chunk_blocks_words [OF ok]
  have uq: "unat (w32 q) = q" using sb(2) by (intro unat_w32) simp
  have ok': "chunk_ok e h c ((pre @ [Used g n]) @ [Free r] @ post)" and xx: "?x = ?f + seg_total (pre @ [Used g n])"
    using ok q a(1) by (simp_all add: add.assoc)
  obtain nd where nd: "hp_blocks h (w32 ?x) = Some nd" "bk_nBytes (ln_obj nd) = w32 r" "bk_parent (ln_obj nd) = w32 c"
    "bk_magic (ln_obj nd) = HEAP_BLOCK_MAGIC" "40 \<le> r" "guarded h \<longrightarrow> 4096 dvd ?x \<and> 4096 dvd ?x + r"
    "room e h c ?x (?x + r)" "w32 ?x \<noteq> 0" "?x + r < 2 ^ 32" by (rule free_seg_block [OF ok' geo xx])
  have q40: "q \<le> q" "q + 40 \<le> q + ?T" using b(4) by auto
  obtain h1 where h1: "new_Block e (w32 q) (w32 c) (w32 ?T) fr h = Some h1" "eff e c q (q + ?T) h h1"
    "hp_blocks h1 (w32 q) = Some \<lparr>ln_next = he_junk e, ln_obj = \<lparr>bk_parent = w32 c, bk_freedBy = fr, bk_nBytes = w32 ?T, bk_magic = HEAP_BLOCK_MAGIC\<rparr>\<rparr>"
    "hp_chunks h1 (w32 c) = hp_chunks h (w32 c)"
    "\<forall>x. x + 40 \<le> 2 ^ 32 \<and> (x + 40 \<le> q \<or> q + 40 \<le> x) \<longrightarrow> hp_blocks h1 (w32 x) = hp_blocks h (w32 x)"
    by (rule new_Block_step [OF chunk_room [OF ok geo q, unfolded T] q40])
  have apart: "unat y + 40 \<le> q \<or> q + 40 \<le> unat y \<and> unat y + 40 \<le> 2 ^ 32" if "y \<in> set ?bs" for y
  proof (cases "y = w32 ?x")
    case True
    then show ?thesis using nd(9) unat_w32 [of ?x] a(1) b(4,6) oh by simp
  next
    case False
    then show ?thesis using chunk_blocks_apart [OF ok q, of y] that q40 a(1) by (simp only: set_map) (auto simp: add.assoc)
  qed
  have same: "hp_blocks h1 y = hp_blocks h y" if "y \<in> set ?bs" for y
    using h1(5) [rule_format, of "unat y"] apart [OF that] sb(2) by auto
  then have hd1: "chunk_hd h1 c ?k ?bs" using b(7) h1(4) lpath_frame [of ?bs "hp_blocks h1" "hp_blocks h"]
    unfolding chunk_hd_def pl_rep_def by simp
  have b1: "c + csize h1 < 2 ^ 32" "in_chunk h1 c ?bs" using b(2) chunk_in_chunk [OF ok geo] by (simp_all only: eff_fields(1) [OF h1(2)] in_chunk_def)
  obtain h2 where h2: "blocks_remove (w32 c) (w32 ?x) h1 = Some h2" "eff e c q (q + ?T) h1 h2" "chunk_hd h2 c ?k (remove1 (w32 ?x) ?bs)"
    "hp_allocs h2 = hp_allocs h1" "\<forall>x. blk h2 x = blk h1 x"
    by (rule blocks_remove_step [OF hd1 b(1) b1(1) hd0 b1(2) nd(8), where lo = q and hi = "q + ?T"])
  have e2: "eff e c q (q + ?T) h h2" using h1(2) h2(2) by (rule eff_trans)
  have r2: "room e h2 c q (q + ?T)" using chunk_room [OF ok geo q] eff_fields(1) [OF e2] by (simp add: room_def)
  have xb: "w32 ?x \<in> set ?bs" using q a(1) by (simp add: add.assoc)
  have bx: "blk h2 ?x = Some (ln_obj nd)" using h2(5) same [OF xb] nd(1) by (simp add: blk_def del: of_nat_add)
  have x40: "q \<le> ?x" "?x + 40 \<le> q + ?T" using b(4) a(1) by auto
  obtain h3 where h3: "del_Block (w32 ?x) h2 = Some h3" "eff e c q (q + ?T) h2 h3" "chunk_hd h3 c ?k (remove1 (w32 ?x) ?bs)"
    "hp_allocs h3 = hp_allocs h2" "\<forall>y. w32 y \<noteq> w32 ?x \<longrightarrow> blk h3 y = blk h2 y" "\<forall>y. map_option ln_next (hp_blocks h3 y) = map_option ln_next (hp_blocks h2 y)"
    by (rule del_Block_step [OF r2 x40 bx h2(3)])
  have e3: "eff e c q (q + ?T) h h3" using e2 h3(2) by (rule eff_trans)
  have ne: "w32 q \<noteq> w32 ?x" using nd(9) a(1) b(6) oh by (subst w32_eq_iff) auto
  have bq: "blk h3 q = Some \<lparr>bk_parent = w32 c, bk_freedBy = fr, bk_nBytes = w32 ?T, bk_magic = HEAP_BLOCK_MAGIC\<rparr>"
    using h3(5) h2(5) h1(3) ne by (simp add: blk_def del: of_nat_add)
  have nin: "w32 q \<notin> set (remove1 (w32 ?x) ?bs)" using apart [of "w32 q"] uq notin_set_remove1 by fastforce
  have b3: "c + csize h3 < 2 ^ 32" "in_chunk h3 c (w32 q # remove1 (w32 ?x) ?bs)"
    using b(2) in_chunk_remove1 [OF b1(2), of "w32 ?x"] uq sb q40 by (simp_all add: eff_fields(1) [OF e3] eff_fields(1) [OF h1(2)] in_chunk_def)
  have nn: "hp_blocks h3 (w32 q) \<noteq> None" using bq by (auto simp: blk_def)
  obtain h4 where h4: "blocks_sortedInsert (w32 c) (w32 q) h3 = Some h4" "eff e c q (q + ?T) h3 h4" "chunk_hd h4 c ?k (insort (w32 q) (remove1 (w32 ?x) ?bs))"
    "hp_allocs h4 = hp_allocs h3" "\<forall>x. blk h4 x = blk h3 x"
    by (rule blocks_sortedInsert_step [OF h3(3) b(1) b3(1) hd0 b3(2) nin nn, where lo = q and hi = "q + ?T"])
  have e4: "eff e c q (q + ?T) h h4" using e3 h4(2) by (rule eff_trans)
  have lg: "l_get (hp_allocs h) (w32 a) = Some al" "l_get (hp_blocks h) (w32 ?x) = Some nd" using a(2,5) nd(1,8) by (simp_all only: l_get_def if_False)
  have st: "w32 a - w32 g = w32 q" "w32 g + w32 n + w32 r = w32 ?T" using a(1) by simp_all
  have prev: "(if last_block ?f pre = 0 then X else do { p \<leftarrow> l_get (hp_blocks h3) (last_block ?f pre);
      if last_block ?f pre + (bk_nBytes (ln_obj p) - 1) + 1 \<noteq> w32 q then X else Y p }) = X" for X :: "heap option" and Y
  proof (cases "free_at ?f pre = []")
    case False
    obtain ndp m z where z: "last_block ?f pre = w32 z" "w32 z \<noteq> 0" "hp_blocks h (w32 z) = Some ndp" "bk_nBytes (ln_obj ndp) = w32 m"
      "0 < m" "z + m \<le> ?f + seg_total pre" "\<not> is_free (last pre) \<longrightarrow> z + m < ?f + seg_total pre" "0 < z" "z + m < 2 ^ 32"
      by (rule prev_block [OF ok geo False])
    have "pre \<noteq> []" using False by auto
    then have zq: "z + m < q" using z(7) nb q by simp
    have "z \<in> set (free_at ?f pre)" using False z(1,9) last_in_set [OF False] free_at_bounds [of h c ?f pre "last (free_at ?f pre)"] ok sb(2) q
      w32_eq_iff [of "last (free_at ?f pre)" z] by (auto simp: chunk_ok_def)
    then have "w32 z \<in> set ?bs" by simp
    moreover have "w32 z \<noteq> w32 ?x" using zq nd(9) a(1) z(5) by (subst w32_eq_iff) auto
    ultimately have "blk h3 z = Some (ln_obj ndp)" using h3(5) h2(5) same [of "w32 z"] z(3) by (simp add: blk_def del: of_nat_add)
    then obtain p where p: "l_get (hp_blocks h3) (w32 z) = Some p" "ln_obj p = ln_obj ndp" using z(2) by (auto simp: blk_def l_get_def)
    have "w32 (z + m) \<noteq> w32 q" using zq sb(2) by (subst w32_eq_iff) auto
    then show ?thesis using p z(1,2,4) by simp
  qed simp
  have run: "prependAndCoalesce e (w32 c) (w32 ?x) (last_block ?f pre) (w32 a) fr h = Some h4"
    unfolding prependAndCoalesce_def lg a(3,4) nd(2) st Let_def Option.bind.simps h1(1) h2(1) h3(1) prev by (rule h4(1))
  have so: "sorted (insort (w32 q) (remove1 (w32 ?x) ?bs))" using ws(1) by (simp add: sorted_insort sorted_remove1)
  let ?S = "set (free_at ?f pre) \<union> set (free_at (?x + r) post)"
  have "w32 ?x \<notin> w32 ` ?S" using ws(2) q a(1) by (auto simp: add.assoc)
  moreover have "set ?bs = insert (w32 ?x) (w32 ` ?S)" using q a(1) by (simp add: add.assoc image_Un)
  moreover have "set (free_at ?f (pre @ [Free ?T] @ post)) = insert q ?S" using q a(1) by (simp add: add.assoc)
  ultimately have se: "set (insort (w32 q) (remove1 (w32 ?x) ?bs)) = w32 ` set (free_at ?f (pre @ [Free ?T] @ post))"
    unfolding set_insort_key set_remove1_eq [OF ws(2)] by (simp only: Diff_insert_absorb image_insert simp_thms)
  have adj: "no_adj (pre @ [Free ?T] @ post)" using b(3) nb by (auto simp: no_adj_append no_adj_Cons)
  obtain h5 where "upd_Chunk (w32 c) (\<lambda>c. c\<lparr>ck_nAllocations := ck_nAllocations c - 1\<rparr>) h4 = Some h5"
    "chunk_ok e h5 c (pre @ [Free ?T] @ post)"
    "chunk_step e c (set (used_at (first_at e h c) pre) \<union> set (used_at (q + ?T) post)) h h5"
    by (rule chunk_free_finish [OF ok geo q e4 [folded T] _ _, where b = "\<lparr>bk_parent = w32 c, bk_freedBy = fr, bk_nBytes = w32 ?T, bk_magic = HEAP_BLOCK_MAGIC\<rparr>",
        unfolded T, OF _ _ _ _ _ _ b(5) h4(3) so se adj])
      (use bq h4(5) b(4) in simp_all)
  then show thesis using run by (intro that [of h5]) simp_all
qed


section \<open>Release of an allocation\<close>

text \<open>Mark the segment free and merge free neighbours.\<close>

fun coalesce :: "seg list \<Rightarrow> seg list" where
  "coalesce [] = []"
| "coalesce (Used g n # ss) = Used g n # coalesce ss"
| "coalesce (Free n # ss) = (case coalesce ss of Free m # ts \<Rightarrow> Free (n + m) # ts | ts \<Rightarrow> Free n # ts)"

fun seg_mark :: "nat \<Rightarrow> nat \<Rightarrow> seg list \<Rightarrow> seg list" where
  "seg_mark p a [] = []"
| "seg_mark p a (Free n # ss) = Free n # seg_mark (p + n) a ss"
| "seg_mark p a (Used g n # ss) = (if p + g = a then Free (g + n) # ss else Used g n # seg_mark (p + g + n) a ss)"

definition seg_free :: "nat \<Rightarrow> nat \<Rightarrow> seg list \<Rightarrow> seg list" where
  "seg_free p a ss = coalesce (seg_mark p a ss)"

lemma coalesce_append:
  "no_adj pre \<Longrightarrow> (pre \<noteq> [] \<and> coalesce ss \<noteq> [] \<Longrightarrow> \<not> (is_free (last pre) \<and> is_free (hd (coalesce ss)))) \<Longrightarrow> coalesce (pre @ ss) = pre @ coalesce ss"
proof (induction pre)
  case (Cons s pre)
  then have IH: "coalesce (pre @ ss) = pre @ coalesce ss" by (auto simp: no_adj_Cons split: if_splits)
  show ?case
  proof (cases s)
    case (Free n)
    have nf: "\<not> is_free (hd (pre @ coalesce ss))" if "pre @ coalesce ss \<noteq> []"
      using Cons.prems Free that by (cases pre) (auto simp: no_adj_Cons)
    show ?thesis
    proof (cases "pre @ coalesce ss")
      case (Cons t ts)
      with nf obtain g k where "t = Used g k" by (cases t) auto
      with Cons Free IH show ?thesis by simp
    qed (use Free IH in simp)
  qed (use IH in simp)
qed simp

lemma coalesce_no_adj: "no_adj ss \<Longrightarrow> coalesce ss = ss"
  using coalesce_append [of ss "[]"] by simp

lemma seg_mark_append: "\<forall>x\<in>set (used_at p pre). x < a \<Longrightarrow> seg_mark p a (pre @ ss) = pre @ seg_mark (p + seg_total pre) a ss"
  by (induction p pre rule: used_at.induct) (auto simp: add.assoc)

lemma used_at_split:
  assumes "a \<in> set (used_at p ss)"
  obtains pre g n post where "ss = pre @ [Used g n] @ post" "a = p + seg_total pre + g"
  using assms
proof (induction p ss arbitrary: thesis rule: used_at.induct)
  case (2 p n ss)
  from 2(3) obtain pre g k post where "ss = pre @ [Used g k] @ post" "a = p + n + seg_total pre + g" by (auto intro: 2(1))
  then show ?case by (intro 2(2) [of "Free n # pre" g k post]) auto
next
  case (3 p g n ss)
  show ?case
  proof (cases "a = p + g")
    case True
    then show ?thesis by (intro 3(2) [of "[]" g n ss]) auto
  next
    case False
    with 3(3) obtain pre g' k post where "ss = pre @ [Used g' k] @ post" "a = p + g + n + seg_total pre + g'" by (auto intro: 3(1))
    then show ?thesis by (intro 3(2) [of "Used g n # pre" g' k post]) auto
  qed
qed simp

lemma seg_mark_at:
  assumes "segs_ok h c p (pre @ [Used g n] @ post)" "a = p + seg_total pre + g"
  shows "seg_mark p a (pre @ [Used g n] @ post) = pre @ [Free (g + n)] @ post"
proof -
  have "\<forall>x\<in>set (used_at p pre). x < a" using assms used_at_bounds [of h c p pre] by fastforce
  then show ?thesis using assms(2) by (simp add: seg_mark_append)
qed

text \<open>The neighbourhood of an allocation.\<close>

lemma seg_free_cases:
  assumes ok: "no_adj (pre @ [Used g n] @ post)"
  shows "coalesce (pre @ [Free (g + n)] @ post) =
    (if pre \<noteq> [] \<and> is_free (last pre) then butlast pre else pre) @
    [Free ((if pre \<noteq> [] \<and> is_free (last pre) then seg_len (last pre) else 0) + (g + n) + (if post \<noteq> [] \<and> is_free (hd post) then seg_len (hd post) else 0))] @
    (if post \<noteq> [] \<and> is_free (hd post) then tl post else post)"
proof -
  have na: "no_adj pre" "no_adj post" using ok by (auto simp: no_adj_append no_adj_Cons)
  have right: "coalesce (Free k # post) = Free (k + (if post \<noteq> [] \<and> is_free (hd post) then seg_len (hd post) else 0)) #
      (if post \<noteq> [] \<and> is_free (hd post) then tl post else post)" for k
    using coalesce_no_adj [OF na(2)] by (cases post; cases "hd post") auto
  show ?thesis
  proof (cases "pre \<noteq> [] \<and> is_free (last pre)")
    case False
    then show ?thesis using coalesce_append [of pre "Free (g + n) # post"] na right by auto
  next
    case True
    then obtain u l where u: "pre = u @ [Free l]" by (metis append_butlast_last_id is_free.elims(2))
    have two: "coalesce (Free l # Free (g + n) # post) = Free (l + (g + n + (if post \<noteq> [] \<and> is_free (hd post) then seg_len (hd post) else 0))) #
      (if post \<noteq> [] \<and> is_free (hd post) then tl post else post)" using right by simp
    have "no_adj u" "u \<noteq> [] \<Longrightarrow> \<not> is_free (last u)" using na(1) u by (auto simp: no_adj_append)
    then have "coalesce (u @ (Free l # Free (g + n) # post)) = u @ coalesce (Free l # Free (g + n) # post)" by (intro coalesce_append) auto
    then show ?thesis using True u two by (simp add: add.assoc)
  qed
qed


text \<open>Where the loop stops, for each neighbourhood.\<close>

lemma free_loop_start:
  assumes ok: "chunk_ok e h c (pre @ rest)" and geo: "heap_geom e h" and nf: "pre \<noteq> [] \<longrightarrow> \<not> is_free (last pre)"
    and a: "hp_allocs h (w32 a) = Some al" "al_nBytes (ln_obj al) = w32 n" "al_gapSize (ln_obj al) = w32 g" "w32 a \<noteq> 0" "g < a" "0 < n" "a + n < 2 ^ 32"
    and le: "first_at e h c + seg_total pre \<le> a - g"
  shows "chunk_freeLoop e (w32 c) (w32 a) fr 0 (first_block (first_at e h c) (pre @ rest)) h =
    chunk_freeLoop e (w32 c) (w32 a) fr (last_block (first_at e h c) pre) (first_block (first_at e h c + seg_total pre) rest) h"
  using freeLoop_skip [of e h c "[]" pre rest a al n g fr] assms by simp

lemma free_loop_append:
  assumes ok: "chunk_ok e h c (pre @ [Free l] @ Used g n # post)" and geo: "heap_geom e h" and q: "q = first_at e h c + seg_total pre" "a = q + l + g"
    and a: "hp_allocs h (w32 a) = Some al" "al_nBytes (ln_obj al) = w32 n" "al_gapSize (ln_obj al) = w32 g" "w32 a \<noteq> 0" "g < a" "0 < n" "a + n < 2 ^ 32"
  shows "chunk_freeLoop e (w32 c) (w32 a) fr 0 (first_block (first_at e h c) (pre @ [Free l] @ Used g n # post)) h =
    map_option Some (appendAndCoalesce (w32 c) (w32 q) (w32 a) h)"
proof -
  obtain nd where nd: "hp_blocks h (w32 q) = Some nd" "bk_nBytes (ln_obj nd) = w32 l" "bk_parent (ln_obj nd) = w32 c"
    "bk_magic (ln_obj nd) = HEAP_BLOCK_MAGIC" "40 \<le> l" "guarded h \<longrightarrow> 4096 dvd q \<and> 4096 dvd q + l"
    "room e h c q (q + l)" "w32 q \<noteq> 0" "q + l < 2 ^ 32" by (rule free_seg_block [OF ok geo q(1)])
  have nf: "pre \<noteq> [] \<longrightarrow> \<not> is_free (last pre)" using ok by (auto simp: chunk_ok_def no_adj_append)
  obtain pe where pe: "prev_end h (last_block (first_at e h c) pre) = Some pe" by (rule prev_end_ok [OF ok geo])
  have l: "l_get (hp_allocs h) (w32 a) = Some al" "l_get (hp_blocks h) (w32 q) = Some nd" using a(1,4) nd(1,8) by (simp_all only: l_get_def if_False)
  have ne: "w32 a + (w32 n - 1) + 1 \<noteq> w32 q" using w32_eq_iff [of "a + n" q] nd(9) q(2) a(6,7) by simp
  have eq: "w32 q + (w32 l - 1) + 1 = w32 a - w32 g" using q(2) by simp
  have le: "first_at e h c + seg_total pre \<le> a - g" using q by simp
  have fb: "first_block (first_at e h c + seg_total pre) ([Free l] @ Used g n # post) = w32 q" using q(1) by simp
  show ?thesis
    unfolding free_loop_start [OF ok geo nf a le] fb chunk_freeLoop_round [OF nd(8) l pe] a(2,3) nd(2)
    by (simp only: ne eq if_False if_True simp_thms)
qed

lemma free_loop_prepend:
  assumes ok: "chunk_ok e h c (pre @ [Used g n] @ Free r # post)" and geo: "heap_geom e h" and q: "q = first_at e h c + seg_total pre" "a = q + g"
    and nf: "pre \<noteq> [] \<longrightarrow> \<not> is_free (last pre)"
    and a: "hp_allocs h (w32 a) = Some al" "al_nBytes (ln_obj al) = w32 n" "al_gapSize (ln_obj al) = w32 g" "w32 a \<noteq> 0" "g < a" "0 < n" "a + n < 2 ^ 32"
  shows "chunk_freeLoop e (w32 c) (w32 a) fr 0 (first_block (first_at e h c) (pre @ [Used g n] @ Free r # post)) h =
    map_option Some (prependAndCoalesce e (w32 c) (w32 (a + n)) (last_block (first_at e h c) pre) (w32 a) fr h)"
proof -
  have ok': "chunk_ok e h c ((pre @ [Used g n]) @ [Free r] @ post)" and xx: "a + n = first_at e h c + seg_total (pre @ [Used g n])"
    using ok q by (simp_all add: add.assoc)
  obtain nd where nd: "hp_blocks h (w32 (a + n)) = Some nd" "bk_nBytes (ln_obj nd) = w32 r" "bk_parent (ln_obj nd) = w32 c"
    "bk_magic (ln_obj nd) = HEAP_BLOCK_MAGIC" "40 \<le> r" "guarded h \<longrightarrow> 4096 dvd a + n \<and> 4096 dvd a + n + r"
    "room e h c (a + n) (a + n + r)" "w32 (a + n) \<noteq> 0" "a + n + r < 2 ^ 32" by (rule free_seg_block [OF ok' geo xx])
  obtain pe where pe: "prev_end h (last_block (first_at e h c) pre) = Some pe" by (rule prev_end_ok [OF ok geo])
  have l: "l_get (hp_allocs h) (w32 a) = Some al" "l_get (hp_blocks h) (w32 (a + n)) = Some nd" using a(1,4) nd(1,8) by (simp_all only: l_get_def if_False)
  have eq: "w32 a + (w32 n - 1) + 1 = w32 (a + n)" by simp
  have le: "first_at e h c + seg_total pre \<le> a - g" using q by simp
  have fb: "first_block (first_at e h c + seg_total pre) ([Used g n] @ Free r # post) = w32 (a + n)" using q by simp
  show ?thesis
    unfolding free_loop_start [OF ok geo nf a le] fb chunk_freeLoop_round [OF nd(8) l pe] a(2,3) nd(2)
    by (simp only: eq if_True simp_thms)
qed

lemma free_loop_none:
  assumes ok: "chunk_ok e h c (pre @ [Used g n] @ post)" and geo: "heap_geom e h" and q: "q = first_at e h c + seg_total pre" "a = q + g"
    and nf: "pre \<noteq> [] \<longrightarrow> \<not> is_free (last pre)" "post \<noteq> [] \<longrightarrow> \<not> is_free (hd post)"
    and a: "hp_allocs h (w32 a) = Some al" "al_nBytes (ln_obj al) = w32 n" "al_gapSize (ln_obj al) = w32 g" "w32 a \<noteq> 0" "g < a" "0 < n" "a + n < 2 ^ 32"
  shows "chunk_freeLoop e (w32 c) (w32 a) fr 0 (first_block (first_at e h c) (pre @ [Used g n] @ post)) h = Some None"
proof -
  let ?f = "first_at e h c"
  obtain pe where pe: "prev_end h (last_block ?f pre) = Some pe" "last_block ?f pre \<noteq> 0 \<longrightarrow> unat pe < ?f + seg_total pre"
    by (rule prev_end_ok [OF ok geo])
  have le: "?f + seg_total pre \<le> a - g" using q by simp
  have fb: "first_block (?f + seg_total pre) ([Used g n] @ post) = first_block (a + n) post" using q by (simp add: add.assoc)
  have "first_block (a + n) post = 0 \<or> 
      (\<exists>x m nd. first_block (a + n) post = w32 x \<and> a + n < x \<and> x + m < 2 ^ 32 \<and> hp_blocks h (w32 x) = Some nd \<and> bk_nBytes (ln_obj nd) = w32 m)"
    by (rule first_block_far [of e h c "pre @ [Used g n]", OF _ geo]) (use ok q nf(2) in \<open>simp_all add: add.assoc\<close>)
  then have "chunk_freeLoop e (w32 c) (w32 a) fr (last_block ?f pre) (first_block (a + n) post) h = Some None"
  proof (elim disjE exE conjE)
    assume "first_block (a + n) post = 0"
    then show ?thesis by (subst chunk_freeLoop.simps) simp
  next
    fix x m nd assume x: "first_block (a + n) post = w32 x" "a + n < x" "x + m < 2 ^ 32" "hp_blocks h (w32 x) = Some nd" "bk_nBytes (ln_obj nd) = w32 m"
    have nz: "w32 x \<noteq> 0" using x by (intro w32_nz) auto
    have l: "l_get (hp_allocs h) (w32 a) = Some al" "l_get (hp_blocks h) (w32 x) = Some nd" using a(1,4) x(4) nz by (simp_all only: l_get_def if_False)
    have ne: "w32 a + (w32 n - 1) + 1 \<noteq> w32 x" using w32_eq_iff [of "a + n" x] a(7) x(2,3) by simp
    have "a < 2 ^ 32" "x < 2 ^ 32" "a < x" using x(2,3) a(7) by linarith+
    then have "w32 a < w32 x" by (simp only: w32_less_iff)
    have "w32 a - w32 g = w32 (a - g)" using a(5) by (simp add: of_nat_diff)
    moreover have "w32 (x + m) \<noteq> w32 (a - g)" using x(2,3) a(7) by (subst w32_eq_iff) auto
    ultimately have ax: "w32 x + (bk_nBytes (ln_obj nd) - 1) + 1 \<noteq> w32 a - w32 g" using x(5) by simp
    have "unat (w32 a) = a" using a(7) by (intro unat_w32) simp
    moreover have "last_block ?f pre = 0 \<or> unat pe < a" using pe(2) le by linarith
    ultimately have "last_block ?f pre = 0 \<or> w32 a > pe" by (simp only: word_less_nat_alt)
    then have "(last_block ?f pre = 0 \<and> w32 a < w32 x) \<or> (w32 a > pe \<and> w32 a < w32 x)" using \<open>w32 a < w32 x\<close> by blast
    then show ?thesis unfolding x(1) chunk_freeLoop_round [OF nz l pe(1)] a(2,3) by (simp only: ne ax if_False if_True)
  qed
  then show ?thesis unfolding free_loop_start [OF ok geo nf(1) a le] fb .
qed


lemma chunk_free_run:
  assumes ok: "chunk_ok e h c ss" and a: "l_get (hp_allocs h) (w32 a) = Some al" "al_nBytes (ln_obj al) = w32 n" "al_gapSize (ln_obj al) = w32 g"
  shows "chunk_free e (w32 c) (w32 a) fr h = do {
     r \<leftarrow> chunk_freeLoop e (w32 c) (w32 a) fr 0 (first_block (first_at e h c) ss) h;
     h \<leftarrow> (case r of Some h \<Rightarrow> Some h
       | None \<Rightarrow> do { h \<leftarrow> new_Block e (w32 a - w32 g) (w32 c) (w32 g + w32 n) fr h; blocks_sortedInsert (w32 c) (w32 a - w32 g) h });
     upd_Chunk (w32 c) (\<lambda>c. c\<lparr>ck_nAllocations := ck_nAllocations c - 1\<rparr>) h }"
proof -
  obtain ck where ck: "hp_chunks h (w32 c) = Some ck" "ck_magic (ln_obj ck) = HEAP_CHUNK_MAGIC" "w32 c \<noteq> 0"
    "lpath (hp_blocks h) (pl_head (ck_blocks (ln_obj ck))) (map w32 (free_at (first_at e h c) ss)) 0" by (rule chunk_ok_path [OF ok])
  have l: "l_get (hp_chunks h) (w32 c) = Some ck" using ck(1,3) by (simp only: l_get_def if_False)
  show ?thesis unfolding chunk_free_def l a Option.bind.simps lpath_first [OF ck(4)] Let_def ..
qed

lemma chunk_free_ok:
  assumes ok: "chunk_ok e h c ss" and geo: "heap_geom e h" and a: "a \<in> set (used_at (first_at e h c) ss)"
  shows "\<exists>h'. chunk_free e (w32 c) (w32 a) fr h = Some h' \<and> chunk_ok e h' c (seg_free (first_at e h c) a ss) \<and>
    chunk_step e c (set (used_at (first_at e h c) (seg_free (first_at e h c) a ss))) h h'"
proof -
  let ?f = "first_at e h c"
  obtain pre g n post where ss: "ss = pre @ [Used g n] @ post" and aa: "a = ?f + seg_total pre + g" by (rule used_at_split [OF a])
  note ok1 = ok [unfolded ss]
  obtain al where al: "hp_allocs h (w32 a) = Some al" "al_nBytes (ln_obj al) = w32 n" "al_gapSize (ln_obj al) = w32 g" "al_parent (ln_obj al) = w32 c"
    "al_magic (ln_obj al) = HEAP_ALLOC_MAGIC" "overhead h < n" "a + n < 2 ^ 32" "w32 a \<noteq> 0" "g < a"
    "guarded h \<longrightarrow> 4096 dvd a - g \<and> 4096 dvd a + n" by (rule used_seg_alloc [OF ok1 geo aa])
  have n0: "0 < n" using al(6) by simp
  note A = al(1-3,8,9) n0 al(7)
  have lg: "l_get (hp_allocs h) (w32 a) = Some al" using al(1,8) by (simp only: l_get_def if_False)
  note run = chunk_free_run [OF ok lg al(2,3)]
  have adj: "no_adj (pre @ [Used g n] @ post)" "segs_ok h c ?f (pre @ [Used g n] @ post)" using ok1 unfolding chunk_ok_def by blast+
  have free: "seg_free ?f a ss = coalesce (pre @ [Free (g + n)] @ post)" unfolding seg_free_def ss seg_mark_at [OF adj(2) aa] ..
  note cs = seg_free_cases [OF adj(1)]
  show ?thesis
  proof (cases "pre \<noteq> [] \<and> is_free (last pre)")
    case True
    then obtain u l where u: "pre = u @ [Free l]" by (metis append_butlast_last_id is_free.elims(2))
    let ?q = "?f + seg_total u"
    have aq: "a = ?q + l + g" using aa u by simp
    note loop = free_loop_append [of e h c u l g n post, OF _ geo refl aq A, of fr]
    show ?thesis
    proof (cases "post \<noteq> [] \<and> is_free (hd post)")
      case post: True
      then obtain r v where v: "post = Free r # v" by (metis is_free.elims(2) list.exhaust_sel)
      have ok2: "chunk_ok e h c (u @ [Free l, Used g n, Free r] @ v)" using ok1 u v by simp
      obtain h2 where "do { h \<leftarrow> appendAndCoalesce (w32 c) (w32 ?q) (w32 a) h;
          upd_Chunk (w32 c) (\<lambda>c. c\<lparr>ck_nAllocations := ck_nAllocations c - 1\<rparr>) h } = Some h2"
        "chunk_ok e h2 c (u @ [Free (l + (g + n + r))] @ v)"
        "chunk_step e c (set (used_at ?f u) \<union> set (used_at (?q + (l + (g + n + r))) v)) h h2"
        by (rule chunk_free_append_next [OF ok2 geo refl aq al(1-3,8)])
      then show ?thesis using loop ok2 ss u v cs unfolding run free by (auto simp: bind_eq_Some_conv add.assoc)
    next
      case False
      have ok2: "chunk_ok e h c (u @ [Free l, Used g n] @ post)" using ok1 u by simp
      obtain h2 where "do { h \<leftarrow> appendAndCoalesce (w32 c) (w32 ?q) (w32 a) h;
          upd_Chunk (w32 c) (\<lambda>c. c\<lparr>ck_nAllocations := ck_nAllocations c - 1\<rparr>) h } = Some h2"
        "chunk_ok e h2 c (u @ [Free (l + (g + n))] @ post)"
        "chunk_step e c (set (used_at ?f u) \<union> set (used_at (?q + (l + (g + n))) post)) h h2"
        by (rule chunk_free_append [OF ok2 geo refl aq al(1-3,8)]) (use False in auto)
      then show ?thesis using loop ok2 ss u False cs unfolding run free by (auto simp: bind_eq_Some_conv add.assoc)
    qed
  next
    case pre: False
    let ?q = "?f + seg_total pre"
    show ?thesis
    proof (cases "post \<noteq> [] \<and> is_free (hd post)")
      case True
      then obtain r v where v: "post = Free r # v" by (metis is_free.elims(2) list.exhaust_sel)
      have ok2: "chunk_ok e h c (pre @ [Used g n, Free r] @ v)" using ok1 v by simp
      note loop = free_loop_prepend [of e h c pre g n r v, OF _ geo refl aa _ A, of fr]
      obtain h2 where "do { h \<leftarrow> prependAndCoalesce e (w32 c) (w32 (a + n)) (last_block ?f pre) (w32 a) fr h;
          upd_Chunk (w32 c) (\<lambda>c. c\<lparr>ck_nAllocations := ck_nAllocations c - 1\<rparr>) h } = Some h2"
        "chunk_ok e h2 c (pre @ [Free (g + n + r)] @ v)"
        "chunk_step e c (set (used_at ?f pre) \<union> set (used_at (?q + (g + n + r)) v)) h h2"
        by (rule chunk_free_prepend [OF ok2 geo refl aa al(1-3,8), of fr]) (use pre in auto)
      then show ?thesis using loop ok2 ss v pre cs unfolding run free by (auto simp: bind_eq_Some_conv add.assoc)
    next
      case False
      note loop = free_loop_none [of e h c pre g n post, OF ok1 geo refl aa _ _ A, of fr]
      obtain h2 where h2: "do { h \<leftarrow> new_Block e (w32 ?q) (w32 c) (w32 (g + n)) fr h; h \<leftarrow> blocks_sortedInsert (w32 c) (w32 ?q) h;
          upd_Chunk (w32 c) (\<lambda>c. c\<lparr>ck_nAllocations := ck_nAllocations c - 1\<rparr>) h } = Some h2"
        "chunk_ok e h2 c (pre @ [Free (g + n)] @ post)"
        "chunk_step e c (set (used_at ?f pre) \<union> set (used_at (?q + (g + n)) post)) h h2"
        by (rule chunk_free_new [OF ok1 geo refl, of fr]) (use pre False in auto)
      have "w32 a - w32 g = w32 ?q" "w32 g + w32 n = w32 (g + n)" using aa by simp_all
      then show ?thesis using h2 loop pre False cs ss unfolding run free by (auto simp: bind_eq_Some_conv add.assoc simp del: of_nat_add)
    qed
  qed
qed

end
