(* ===== verification/HeapInv.thy ===== *)
theory HeapInv
  imports HeapFree
begin

text \<open>
  The invariant of the whole heap: the chunks do not overlap, each is tiled by its segments, and the list of allocations and the guard pages are those of
  the segments in use.
\<close>

section \<open>The invariant\<close>

fun live_at :: "nat \<Rightarrow> seg list \<Rightarrow> (nat \<times> nat) list" where
  "live_at p [] = []"
| "live_at p (Free n # ss) = live_at (p + n) ss"
| "live_at p (Used g n # ss) = (p + g, n) # live_at (p + g + n) ss"

lemma used_at_live: "used_at p ss = map fst (live_at p ss)"
  by (induction p ss rule: live_at.induct) auto

lemma live_at_append [simp]: "live_at p (xs @ ys) = live_at p xs @ live_at (p + seg_total xs) ys"
  by (induction p xs rule: live_at.induct) (auto simp: algebra_simps)

type_synonym heap_abs = "(nat \<times> seg list) list"

text \<open>The allocations in use: address of the header, and size.\<close>

definition heap_live :: "heap_env \<Rightarrow> heap \<Rightarrow> heap_abs \<Rightarrow> (nat \<times> nat) set" where
  "heap_live e h A = (\<Union>(c, ss)\<in>set A. set (live_at (first_at e h c) ss))"

text \<open>Those that are in the list; \<open>X\<close> are headers that are being taken in or out.\<close>

definition listed :: "heap_env \<Rightarrow> heap \<Rightarrow> heap_abs \<Rightarrow> nat set \<Rightarrow> (nat \<times> nat) set" where
  "listed e h A X = {l \<in> heap_live e h A. fst l \<notin> X}"

definition guard_of :: "nat \<times> nat \<Rightarrow> u32" where
  "guard_of l = w32 (fst l + snd l - 4096)"

definition apart :: "heap \<Rightarrow> nat \<Rightarrow> nat \<Rightarrow> bool" where
  "apart h c d \<longleftrightarrow> c + csize h \<le> d \<or> d + csize h \<le> c"

definition heap_inv :: "heap_env \<Rightarrow> heap \<Rightarrow> heap_abs \<Rightarrow> nat set \<Rightarrow> bool \<Rightarrow> bool" where
  "heap_inv e h A X lk \<longleftrightarrow> heap_geom e h \<and> hdsize e + 4136 \<le> csize h \<and>
     pl_rep (hp_chunks h) (hp_chunkList h) (map (w32 \<circ> fst) A) \<and> pl_lock (hp_chunkList h) = lk \<and> \<not> pl_lock (hp_allocList h) \<and>
     (\<forall>(c, ss)\<in>set A. chunk_ok e h c ss) \<and> (\<forall>c\<in>set (map fst A). \<forall>d\<in>set (map fst A). c \<noteq> d \<longrightarrow> apart h c d) \<and>
     (\<exists>xs. pl_rep (hp_allocs h) (hp_allocList h) xs \<and> set xs = (w32 \<circ> fst) ` listed e h A X) \<and>
     hp_guards h = (if guarded h then guard_of ` listed e h A X else {})"

abbreviation heap_ok :: "heap_env \<Rightarrow> heap \<Rightarrow> heap_abs \<Rightarrow> bool" where
  "heap_ok e h A \<equiv> heap_inv e h A {} False"

lemma heap_invD:
  assumes "heap_inv e h A X lk"
  shows "heap_geom e h" "pl_rep (hp_chunks h) (hp_chunkList h) (map (w32 \<circ> fst) A)" "pl_lock (hp_chunkList h) = lk" "\<not> pl_lock (hp_allocList h)"
    "(c, ss) \<in> set A \<Longrightarrow> chunk_ok e h c ss" "c \<in> set (map fst A) \<Longrightarrow> d \<in> set (map fst A) \<Longrightarrow> c \<noteq> d \<Longrightarrow> apart h c d" "hdsize e + 4136 \<le> csize h"
proof -
  have i: "\<forall>(c, ss)\<in>set A. chunk_ok e h c ss" "\<forall>c\<in>set (map fst A). \<forall>d\<in>set (map fst A). c \<noteq> d \<longrightarrow> apart h c d"
    by (insert assms [unfolded heap_inv_def]; elim conjE; assumption)+
  show "(c, ss) \<in> set A \<Longrightarrow> chunk_ok e h c ss" using i(1) by auto
  show "c \<in> set (map fst A) \<Longrightarrow> d \<in> set (map fst A) \<Longrightarrow> c \<noteq> d \<Longrightarrow> apart h c d" using i(2) by blast
  show "heap_geom e h" "pl_rep (hp_chunks h) (hp_chunkList h) (map (w32 \<circ> fst) A)" "pl_lock (hp_chunkList h) = lk" "\<not> pl_lock (hp_allocList h)"
    "hdsize e + 4136 \<le> csize h" by (insert assms [unfolded heap_inv_def]; elim conjE; assumption)+
qed

text \<open>The bounds of a chunk in use, and of the allocations in it.\<close>

lemma chunk_bounds:
  assumes "chunk_ok e h c ss"
  shows "0 < c" "c + csize h < 2 ^ 32" "c + hdsize e \<le> first_at e h c" "first_at e h c \<le> c + csize h"
  using assms first_at_bounds(1) [of c e h] by (auto simp: chunk_ok_def)

lemma live_bounds:
  assumes "chunk_ok e h c ss" "(a, n) \<in> set (live_at (first_at e h c) ss)"
  shows "first_at e h c \<le> a" "a + n \<le> c + csize h" "overhead h < n"
proof -
  have "p \<le> a \<and> a + n \<le> p + seg_total ss \<and> overhead h < n" if "segs_ok h c p ss" "(a, n) \<in> set (live_at p ss)" for p
    using that by (induction p ss rule: live_at.induct) (auto simp: add.assoc)
  from this [OF _ assms(2)] assms(1) show "first_at e h c \<le> a" "a + n \<le> c + csize h" "overhead h < n" by (auto simp: chunk_ok_def)
qed

lemma heap_live_bounds:
  assumes "heap_inv e h A X lk" "(a, n) \<in> heap_live e h A"
  obtains c ss where "(c, ss) \<in> set A" "(a, n) \<in> set (live_at (first_at e h c) ss)" "first_at e h c \<le> a" "a + n \<le> c + csize h" "overhead h < n"
    "a + n < 2 ^ 32" "0 < a"
proof -
  from assms(2) obtain c ss where c: "(c, ss) \<in> set A" "(a, n) \<in> set (live_at (first_at e h c) ss)" by (auto simp: heap_live_def)
  have ok: "chunk_ok e h c ss" by (rule heap_invD(5) [OF assms(1) c(1)])
  note lb = live_bounds [OF ok c(2)] and cb = chunk_bounds [OF ok]
  have "a + n < 2 ^ 32" "0 < a" using lb cb by linarith+
  then show thesis using that [OF c lb] by blast
qed

section \<open>Steps of a chunk seen from the heap\<close>

lemma lpath_links_on:
  "(\<And>a. a \<in> set xs \<Longrightarrow> map_option ln_next (h' a) = map_option ln_next (h a)) \<Longrightarrow> lpath h p xs q \<Longrightarrow> lpath h' p xs q"
proof (induction xs arbitrary: p)
  case (Cons a xs)
  from Cons.prems(2) obtain n where n: "p = a" "a \<noteq> 0" "h a = Some n" "lpath h (ln_next n) xs q" by auto
  with Cons.prems(1) [of a] obtain m where "h' a = Some m" "ln_next m = ln_next n" by (cases "h' a") auto
  with n Cons.IH [OF _ n(4)] Cons.prems(1) show ?case by auto
qed simp

lemma heap_chunk_step:
  assumes inv: "heap_inv e h (B @ (c, ss) # C) X lk" and ok: "chunk_ok e h' c ss'" and st: "chunk_step e c keep h h'"
    and keep: "\<And>a n. (a, n) \<in> set (live_at (first_at e h c) ss) \<Longrightarrow> a \<notin> X \<Longrightarrow> a \<in> keep"
    and same: "listed e h (B @ (c, ss') # C) X' = listed e h (B @ (c, ss) # C) X"
  shows "heap_inv e h' (B @ (c, ss') # C) X' lk"
proof -
  let ?A = "B @ (c, ss) # C"
  note I = heap_invD [OF inv]
  have ef: "eff e c (first_at e h c) (c + csize h) h h'" using st by (simp add: chunk_step_def)
  note fl = eff_fields [OF ef]
  have cin: "(c, ss) \<in> set ?A" by simp
  note cb = chunk_bounds [OF I(5) [OF cin]]
  have dist: "distinct (map (w32 \<circ> fst) ?A)" using I(2) by (simp add: pl_rep_def)
  have other: "d \<noteq> c" "apart h c d" "chunk_ok e h d ts" if "(d, ts) \<in> set B \<union> set C" for d ts
  proof -
    show "d \<noteq> c" using that dist by (force simp: image_iff)
    have "d \<in> set (map fst ?A)" using that by force
    then show "apart h c d" using I(6) [of c d] \<open>d \<noteq> c\<close> by simp
    show "chunk_ok e h d ts" using I(5) that by auto
  qed
  have ok': "chunk_ok e h' d ts" if "(d, ts) \<in> set B \<union> set C" for d ts
    by (rule chunk_ok_other [OF ef other(3) [OF that]]) (use other [OF that] cb I(7) in \<open>auto simp: apart_def\<close>)
  have links: "map_option ln_next (hp_chunks h' (w32 d)) = map_option ln_next (hp_chunks h (w32 d))" if "(d, ts) \<in> set ?A" for d ts
  proof (cases "d = c")
    case False
    then have d: "(d, ts) \<in> set B \<union> set C" using that by auto
    have "d + hdsize e \<le> 2 ^ 32" "d + hdsize e \<le> first_at e h c \<or> c + csize h \<le> d"
      using other(2) [OF d] chunk_bounds [OF other(3) [OF d]] cb by (auto simp: apart_def)
    then show ?thesis using ef False by (simp add: eff_def)
  qed (use ef in \<open>simp add: eff_def\<close>)
  have chunks: "pl_rep (hp_chunks h') (hp_chunkList h') (map (w32 \<circ> fst) (B @ (c, ss') # C))"
  proof -
    have "map_option ln_next (hp_chunks h' a) = map_option ln_next (hp_chunks h a)" if "a \<in> set (map (w32 \<circ> fst) ?A)" for a
      using that links unfolding set_map by fastforce
    then have "lpath (hp_chunks h') (pl_head (hp_chunkList h)) (map (w32 \<circ> fst) ?A) 0"
      by (rule lpath_links_on) (use I(2) in \<open>simp_all add: pl_rep_def\<close>)
    then show ?thesis using I(2) ef by (auto simp: pl_rep_def eff_def)
  qed
  have alloc: "hp_allocs h' (w32 a) = hp_allocs h (w32 a)" if "(a, n) \<in> listed e h ?A X" for a n
  proof -
    from that obtain d ts where d: "(d, ts) \<in> set ?A" "(a, n) \<in> set (live_at (first_at e h d) ts)" "a \<notin> X" by (auto simp: listed_def heap_live_def)
    show ?thesis
    proof (cases "d = c")
      case True
      then have "(d, ts) \<notin> set B \<union> set C" using other(1) by blast
      then have "ts = ss" using d(1) by simp
      with True keep d have "a \<in> keep" by blast
      then show ?thesis using st by (simp add: chunk_step_def)
    next
      case False
      then have d': "(d, ts) \<in> set B \<union> set C" using d(1) by auto
      have "76 \<le> overhead h" by (simp add: overhead_def)
      then have "a + 76 \<le> 2 ^ 32" "a + 76 \<le> first_at e h c \<or> c + csize h \<le> a"
        using live_bounds [OF other(3) [OF d'] d(2)] chunk_bounds [OF other(3) [OF d']] other(2) [OF d'] cb by (auto simp: apart_def)
      then show ?thesis using ef by (simp add: eff_def)
    qed
  qed
  obtain xs where xs: "pl_rep (hp_allocs h) (hp_allocList h) xs" "set xs = (w32 \<circ> fst) ` listed e h ?A X" using inv unfolding heap_inv_def by blast
  have "hp_allocs h' y = hp_allocs h y" if "y \<in> set xs" for y using that xs(2) alloc by auto
  then have "pl_rep (hp_allocs h') (hp_allocList h') xs" using xs(1) ef lpath_frame [of xs "hp_allocs h'" "hp_allocs h"] by (simp add: pl_rep_def eff_def)
  moreover have ls: "listed e h' D Y = listed e h D Y" for D Y by (simp add: listed_def heap_live_def fl)
  moreover have "\<forall>(d, ts)\<in>set (B @ (c, ss') # C). chunk_ok e h' d ts" using ok ok' by auto
  moreover have "map fst (B @ (c, ss') # C) = map fst ?A" by simp
  moreover have "\<forall>d\<in>set (map fst ?A). \<forall>d'\<in>set (map fst ?A). d \<noteq> d' \<longrightarrow> apart h' d d'" using I(6) unfolding apart_def fl by blast
  moreover have "hp_guards h' = (if guarded h' then guard_of ` listed e h ?A X else {})" using inv ef by (simp add: heap_inv_def eff_def fl)
  moreover have "pl_lock (hp_chunkList h') = lk" "\<not> pl_lock (hp_allocList h')" "heap_geom e h'" "hdsize e + 4136 \<le> csize h'" using I ef by (simp_all add: eff_def fl)
  ultimately show ?thesis using chunks xs(2) unfolding heap_inv_def ls same by (simp only: simp_thms) blast
qed


section \<open>Allocation\<close>

text \<open>The first chunk with room gives the memory.\<close>

fun abs_alloc :: "heap_env \<Rightarrow> heap \<Rightarrow> nat \<Rightarrow> heap_abs \<Rightarrow> (nat \<times> heap_abs) option" where
  "abs_alloc e h sz [] = None"
| "abs_alloc e h sz ((c, ss) # A) =
     (case seg_malloc (seg_gap h sz) sz (first_at e h c) ss of
        Some (a, ss') \<Rightarrow> Some (a, (c, ss') # A)
      | None \<Rightarrow> map_option (\<lambda>(a, A). (a, (c, ss) # A)) (abs_alloc e h sz A))"

lemma seg_malloc_live:
  "seg_malloc g sz p ss = Some (a, ss') \<Longrightarrow>
   set (live_at p ss') = insert (a, sz) (set (live_at p ss)) \<and> seg_total ss' = seg_total ss"
proof (induction g sz p ss arbitrary: a ss' rule: seg_malloc.induct)
  case (2 g sz p n ss)
  then show ?case by (auto simp: seg_take_def take_gap_def algebra_simps split: if_splits)
qed (auto simp: algebra_simps)

lemma seg_malloc_new:
  "seg_malloc g sz p ss = Some (a, ss') \<Longrightarrow> segs_ok h c p ss \<Longrightarrow> 0 < sz \<Longrightarrow> a \<notin> set (used_at p ss) \<and> p \<le> a \<and> a < p + seg_total ss"
proof (induction g sz p ss arbitrary: a ss' rule: seg_malloc.induct)
  case (2 g sz p n ss)
  show ?case
  proof (cases "g + sz \<le> n")
    case True
    then have "a < p + n" "p \<le> a" using 2(2,4) by (auto simp: take_gap_def split: if_splits)
    moreover have "segs_ok h c (p + n) ss" using 2(3) by simp
    ultimately show ?thesis using used_at_bounds [of h c "p + n" ss a] by auto
  next
    case False
    with 2 show ?thesis by (fastforce simp: algebra_simps)
  qed
next
  case (3 g sz p g' n ss)
  from 3(2) obtain ss0 where s: "seg_malloc g sz (p + g' + n) ss = Some (a, ss0)" by auto
  with 3 have "a \<notin> set (used_at (p + g' + n) ss) \<and> p + g' + n \<le> a \<and> a < p + g' + n + seg_total ss" by (auto simp: add.assoc)
  moreover have "0 < n" using 3(3) by auto
  ultimately show ?case by auto
qed simp

lemma first_chunk: "pl_rep hs l (map (w32 \<circ> fst) A) \<Longrightarrow> pl_head l = (case A of [] \<Rightarrow> 0 | (c, ss) # _ \<Rightarrow> w32 c)"
  by (cases A) (auto simp: pl_rep_def)

lemma heap_chunk_next:
  assumes "heap_inv e h (B @ (c, ss) # C) X lk"
  obtains n where "l_get (hp_chunks h) (w32 c) = Some n" "ck_magic (ln_obj n) = HEAP_CHUNK_MAGIC" "w32 c \<noteq> 0"
    "ln_next n = (case C of [] \<Rightarrow> 0 | (d, ts) # _ \<Rightarrow> w32 d)"
proof -
  have ok: "chunk_ok e h c ss" by (rule heap_invD(5) [OF assms]) simp
  obtain n where n: "hp_chunks h (w32 c) = Some n" "ck_magic (ln_obj n) = HEAP_CHUNK_MAGIC" "w32 c \<noteq> 0"
    "lpath (hp_blocks h) (pl_head (ck_blocks (ln_obj n))) (map w32 (free_at (first_at e h c) ss)) 0" by (rule chunk_ok_path [OF ok])
  have "lpath (hp_chunks h) (pl_head (hp_chunkList h)) (map (w32 \<circ> fst) B @ w32 c # map (w32 \<circ> fst) C) 0"
    using heap_invD(2) [OF assms] by (simp add: pl_rep_def)
  then have "lpath (hp_chunks h) (ln_next n) (map (w32 \<circ> fst) C) 0" using n(1) by (auto simp: lpath_append)
  then have "ln_next n = (case C of [] \<Rightarrow> 0 | (d, ts) # _ \<Rightarrow> w32 d)" by (cases C) auto
  then show thesis using that n by (simp add: l_get_def)
qed

lemma listed_chunk:
  "listed e h (B @ (c, ss) # C) X = {l \<in> heap_live e h (B @ C). fst l \<notin> X} \<union> {l \<in> set (live_at (first_at e h c) ss). fst l \<notin> X}"
  by (auto simp: listed_def heap_live_def)

lemma heap_live_chunk: "heap_live e h (B @ (c, ss) # C) = heap_live e h (B @ C) \<union> set (live_at (first_at e h c) ss)"
  by (auto simp: heap_live_def)

text \<open>An address of one chunk is not an allocation of another.\<close>

lemma heap_live_elsewhere:
  assumes inv: "heap_inv e h (B @ (c, ss) # C) X lk" and a: "first_at e h c \<le> a" "a < c + csize h"
  shows "l \<in> heap_live e h (B @ C) \<Longrightarrow> fst l \<noteq> a"
proof -
  assume "l \<in> heap_live e h (B @ C)"
  then obtain d ts where d: "(d, ts) \<in> set B \<union> set C" "l \<in> set (live_at (first_at e h d) ts)" by (auto simp: heap_live_def)
  have "distinct (map (w32 \<circ> fst) (B @ (c, ss) # C))" using heap_invD(2) [OF inv] by (simp add: pl_rep_def)
  then have "d \<noteq> c" using d(1) by (force simp: image_iff)
  moreover have "d \<in> set (map fst (B @ (c, ss) # C))" "c \<in> set (map fst (B @ (c, ss) # C))" using d(1) by force+
  ultimately have ap: "apart h c d" using heap_invD(6) [OF inv] by blast
  have ok: "chunk_ok e h d ts" "chunk_ok e h c ss" using d(1) heap_invD(5) [OF inv] by auto
  obtain b n where l: "l = (b, n)" by (cases l)
  show "fst l \<noteq> a" using live_bounds [OF ok(1) d(2) [unfolded l]] chunk_bounds [OF ok(1)] chunk_bounds [OF ok(2)] ap a l by (auto simp: apart_def)
qed

lemma heap_mallocLoop_ok:
  assumes "heap_inv e h (B @ A) {} lk" and sz: "overhead h < sz" "seg_gap h sz + sz < 2 ^ 32" and "it = (case A of [] \<Rightarrow> 0 | (c, ss) # _ \<Rightarrow> w32 c)"
  shows "case abs_alloc e h sz A of
      None \<Rightarrow> heap_mallocLoop e (w32 sz) ab desc it h = Some (0, h)
    | Some (a, A') \<Rightarrow> \<exists>h' c. heap_mallocLoop e (w32 sz) ab desc it h = Some (w32 a, h') \<and> heap_inv e h' (B @ A') {a} lk \<and>
        heap_live e h (B @ A') = insert (a, sz) (heap_live e h (B @ A)) \<and> (\<forall>l\<in>heap_live e h (B @ A). fst l \<noteq> a) \<and>
        eff e c (first_at e h c) (c + csize h) h h'"
  using assms(1,4)
proof (induction A arbitrary: B it)
  case Nil
  then show ?case by (subst heap_mallocLoop.simps) simp
next
  case (Cons ch A)
  obtain c ss where ch: "ch = (c, ss)" by (cases ch)
  note inv = Cons.prems(1) [unfolded ch]
  have ok: "chunk_ok e h c ss" by (rule heap_invD(5) [OF inv]) simp
  have so: "segs_ok h c (first_at e h c) ss" "first_at e h c + seg_total ss = c + csize h" using ok by (auto simp: chunk_ok_def)
  obtain n where n: "l_get (hp_chunks h) (w32 c) = Some n" "ck_magic (ln_obj n) = HEAP_CHUNK_MAGIC" "w32 c \<noteq> 0"
    "ln_next n = (case A of [] \<Rightarrow> 0 | (d, ts) # _ \<Rightarrow> w32 d)" by (rule heap_chunk_next [OF inv])
  have it: "it = w32 c" using Cons.prems(2) ch by simp
  note cm = chunk_malloc_ok [OF ok heap_invD(1) [OF inv] sz, of ab desc]
  show ?case
  proof (cases "seg_malloc (seg_gap h sz) sz (first_at e h c) ss")
    case None
    have IH: "case abs_alloc e h sz A of
      None \<Rightarrow> heap_mallocLoop e (w32 sz) ab desc (ln_next n) h = Some (0, h)
    | Some (a, A') \<Rightarrow> \<exists>h' c'. heap_mallocLoop e (w32 sz) ab desc (ln_next n) h = Some (w32 a, h') \<and> heap_inv e h' ((B @ [(c, ss)]) @ A') {a} lk \<and>
        heap_live e h ((B @ [(c, ss)]) @ A') = insert (a, sz) (heap_live e h ((B @ [(c, ss)]) @ A)) \<and>
        (\<forall>l\<in>heap_live e h ((B @ [(c, ss)]) @ A). fst l \<noteq> a) \<and> eff e c' (first_at e h c') (c' + csize h) h h'"
      by (rule Cons.IH) (use inv n(4) in simp_all)
    have "heap_mallocLoop e (w32 sz) ab desc it h = heap_mallocLoop e (w32 sz) ab desc (ln_next n) h"
      using n cm None unfolding it by (subst heap_mallocLoop.simps) simp
    with IH None ch show ?thesis by (auto split: option.splits)
  next
    case (Some r)
    obtain a ss' where r: "r = (a, ss')" by (cases r)
    from cm Some r obtain h' where h': "chunk_malloc e (w32 c) (w32 sz) ab desc h = Some (w32 a, h')" "chunk_ok e h' c ss'"
      "chunk_step e c (set (used_at (first_at e h c) ss)) h h'" by auto
    note lv = seg_malloc_live [OF Some [unfolded r]]
    have nw: "a \<notin> set (used_at (first_at e h c) ss)" "first_at e h c \<le> a" "a < c + csize h"
      using seg_malloc_new [OF Some [unfolded r] so(1)] sz so(2) by auto
    have new: "\<forall>l\<in>heap_live e h (B @ (c, ss) # A). fst l \<noteq> a"
      using heap_live_elsewhere [OF inv nw(2,3)] nw(1) by (auto simp: heap_live_chunk used_at_live)
    have "listed e h (B @ (c, ss') # A) {a} = listed e h (B @ (c, ss) # A) {}"
      using new lv unfolding listed_chunk heap_live_chunk by auto
    then have inv': "heap_inv e h' (B @ (c, ss') # A) {a} lk"
      by (rule heap_chunk_step [OF inv h'(2,3), rotated]) (auto simp: used_at_live intro: rev_image_eqI)
    have live: "heap_live e h (B @ (c, ss') # A) = insert (a, sz) (heap_live e h (B @ (c, ss) # A))" using lv by (auto simp: heap_live_chunk)
    have "w32 a \<noteq> 0" using nw chunk_bounds [OF ok] by (intro w32_nz) auto
    then have "heap_mallocLoop e (w32 sz) ab desc it h = Some (w32 a, h')"
      using n h'(1) unfolding it by (subst heap_mallocLoop.simps) simp
    then show ?thesis using Some r ch inv' live new h'(3) by (auto simp: chunk_step_def)
  qed
qed

end
