(* ===== verification/HeapAlloc.thy ===== *)
theory HeapAlloc
  imports HeapInv
begin

text \<open>
  \<open>Heap::malloc\<close>: a new chunk, the two passes, and what the caller gets.
\<close>

section \<open>Changes outside the segments\<close>

text \<open>The invariant of a chunk does not depend on list links of chunks and allocations, on locks and on guard pages.\<close>

lemma chunk_ok_cong:
  assumes "hp_chunkSize h' = hp_chunkSize h" "hp_options h' = hp_options h" "hp_blocks h' = hp_blocks h" "\<And>x. alc h' x = alc h x"
    and "map_option ln_obj (hp_chunks h' (w32 c)) = map_option ln_obj (hp_chunks h (w32 c))"
  shows "chunk_ok e h' c ss = chunk_ok e h c ss"
proof -
  have o: "opt k h' = opt k h" for k using assms(2) by (simp add: opt_def)
  have s: "seg_ok h' d p s = seg_ok h d p s" for d p s by (cases s) (simp_all add: assms o overhead_def blk_def)
  then have ss: "segs_ok h' d p ts = segs_ok h d p ts" for d p ts by (induction ts arbitrary: p) simp_all
  have f: "first_at e h' d = first_at e h d" for d by (simp add: first_at_def o)
  have "chunk_hd h' c k bs = chunk_hd h c k bs" for k bs
    using assms(3,5) unfolding chunk_hd_def by (cases "hp_chunks h' (w32 c)"; cases "hp_chunks h (w32 c)") simp_all
  then show ?thesis unfolding chunk_ok_def f ss assms(1) by simp
qed

lemma listed_cong: "hp_options h' = hp_options h \<Longrightarrow> listed e h' A X = listed e h A X"
  by (simp add: listed_def heap_live_def first_at_def opt_def)

lemma heap_live_cong: "hp_options h' = hp_options h \<Longrightarrow> heap_live e h' A = heap_live e h A"
  by (simp add: heap_live_def first_at_def opt_def)

text \<open>Locking.\<close>

lemma heap_inv_lock [simp]: "heap_inv e (h\<lparr>hp_chunkList := (hp_chunkList h)\<lparr>pl_lock := k\<rparr>\<rparr>) A X k \<longleftrightarrow> heap_inv e h A X (pl_lock (hp_chunkList h))"
proof -
  let ?h = "h\<lparr>hp_chunkList := (hp_chunkList h)\<lparr>pl_lock := k\<rparr>\<rparr>"
  have "chunk_ok e ?h c ss = chunk_ok e h c ss" for c ss by (rule chunk_ok_cong) (simp_all add: alc_def)
  moreover have "listed e ?h A X = listed e h A X" by (rule listed_cong) simp
  ultimately show ?thesis by (simp add: heap_inv_def heap_geom_def apart_def opt_def)
qed

lemma heap_lock_ok: "heap_inv e h A X False \<Longrightarrow> \<exists>h'. heap_lock h = Some h' \<and> heap_inv e h' A X True \<and> hp_options h' = hp_options h \<and> hp_chunkSize h' = hp_chunkSize h \<and>
    heap_unlock h' = h \<and> hp_mem h' = hp_mem h \<and> hp_stream h' = hp_stream h"
  using heap_invD(3) [of e h A X False] by (simp add: heap_lock_def heap_unlock_def)

lemma heap_unlock_ok: "heap_inv e h A X lk \<Longrightarrow> heap_inv e (heap_unlock h) A X False"
  using heap_invD(3) [of e h A X lk] by (simp add: heap_unlock_def)

section \<open>A new chunk\<close>

lemma round_down: "x AND NOT 4095 = w32 (unat x div 4096 * 4096)" for x :: u32
  using mask_down [of x 12] by (simp add: mask_eq_exp_minus_1)

lemma first_block_word:
  assumes "heap_geom e h" "c + csize h < 2 ^ 32" "hdsize e + 4136 \<le> csize h"
  shows "(let b = w32 c + he_sizeofChunk e in
      if opt OPT_GUARD_PAGED h \<and> b AND (hp_pageSize h - 1) \<noteq> 0 then (b + hp_pageSize h) AND NOT (hp_pageSize h - 1) else b) = w32 (first_at e h c)"
proof -
  let ?b = "c + hdsize e"
  have b: "w32 c + he_sizeofChunk e = w32 ?b" by simp
  have u: "unat (w32 ?b) = ?b" "unat (w32 (?b + 4096)) = ?b + 4096" using assms by (intro unat_w32; simp)+
  have pg: "hp_pageSize h = 4096" using assms(1) by (simp add: heap_geom_def)
  have "w32 ?b + 4096 = w32 (?b + 4096)" by simp
  then have r: "(w32 ?b + 4096) AND NOT 4095 = w32 ((?b div 4096 + 1) * 4096)" by (simp only: round_down u div_add_self2 [of 4096 ?b] zero_neq_numeral [symmetric] not_False_eq_True)
  show ?thesis unfolding Let_def b first_at_def pg using page_aligned [of "w32 ?b"] u(1) r by (simp del: of_nat_add)
qed

text \<open>A chunk header is constructed: live headers elsewhere stay.\<close>

lemma new_Chunk_step:
  assumes c: "0 < c" "c + csize h < 2 ^ 32" "0 < hdsize e" "hdsize e \<le> csize h"
  obtains h1 h0 where "new_Chunk e (w32 c) h = Some h1" "h0 = h\<lparr>hp_chunks := (hp_chunks h)(w32 c := hp_chunks h1 (w32 c))\<rparr>"
    "eff e c c (c + csize h) h0 h1" "chunk_hd h1 c 0 []"
proof -
  let ?n = "\<lparr>ln_next = he_junk e, ln_obj = \<lparr>ck_nAllocations = 0, ck_blocks = pl_new, ck_magic = HEAP_CHUNK_MAGIC\<rparr>\<rparr>"
  let ?o = "overwrite e (w32 c) (he_sizeofChunk e) h"
  let ?h1 = "?o\<lparr>hp_chunks := (hp_chunks ?o)(w32 c \<mapsto> ?n)\<rparr>"
  let ?h0 = "h\<lparr>hp_chunks := (hp_chunks h)(w32 c := hp_chunks ?h1 (w32 c))\<rparr>"
  have ch: "hp_chunks ?h1 (w32 x) = hp_chunks ?h0 (w32 x)" if "x + hdsize e \<le> 2 ^ 32" "x + hdsize e \<le> c \<or> c + csize h \<le> x" for x
  proof -
    have "x + hdsize e \<le> c \<or> c + hdsize e \<le> x" using that c by linarith
    then show ?thesis using wipe_apart [of x "hdsize e" c "hdsize e" "hp_chunks h"] that c by (simp add: overwrite_def)
  qed
  have bl: "hp_blocks ?h1 (w32 x) = hp_blocks ?h0 (w32 x)" if "x + 40 \<le> 2 ^ 32" "x + 40 \<le> c \<or> c + csize h \<le> x" for x
  proof -
    have "x + 40 \<le> c \<or> c + hdsize e \<le> x" using that c by linarith
    then show ?thesis using wipe_apart [of x 40 c "hdsize e" "hp_blocks h"] that c by (simp add: overwrite_def)
  qed
  have al: "hp_allocs ?h1 (w32 x) = hp_allocs ?h0 (w32 x)" if "x + 76 \<le> 2 ^ 32" "x + 76 \<le> c \<or> c + csize h \<le> x" for x
  proof -
    have "x + 76 \<le> c \<or> c + hdsize e \<le> x" using that c by linarith
    then show ?thesis using wipe_apart [of x 76 c "hdsize e" "hp_allocs h"] that c by (simp add: overwrite_def)
  qed
  have "blk ?h1 x = blk ?h0 x" if "x + 40 \<le> 2 ^ 32" "x + 40 \<le> c \<or> c + csize h \<le> x" for x
    using bl [OF that] by (simp add: blk_def)
  moreover have "hp_chunks ?h1 (w32 c) = hp_chunks ?h0 (w32 c)" by simp
  moreover have cfg: "same_cfg ?h0 ?h1" "csize ?h0 = csize h" by (simp_all add: same_cfg_def overwrite_def)
  ultimately have ef: "eff e c c (c + csize h) ?h0 ?h1" unfolding eff_def same_cfg_def cfg(2) using ch bl al cfg(1) [unfolded same_cfg_def]
    by (simp del: heap.simps)
  have "w32 c \<noteq> 0" using c by (intro w32_nz) auto
  then have new: "new_Chunk e (w32 c) h = Some ?h1" by (simp add: new_Chunk_def Let_def)
  have "chunk_hd ?h1 c 0 []" by (simp add: chunk_hd_def pl_rep_def pl_new_def)
  then show thesis using that [OF new refl ef] by blast
qed


lemma getNewChunk_run:
  assumes st: "hp_stream h" and c: "0 < c" "c + csize h < 2 ^ 32" and al: "guarded h \<longrightarrow> 4096 dvd c + csize h" and geo: "heap_geom e h" "hdsize e + 4136 \<le> csize h"
  obtains h' h0 where "getNewChunk e (w32 c) h = Some (ERROR_SUCCESS, w32 c, h')"
    "h0 = h\<lparr>hp_chunks := (hp_chunks h)(w32 c := hp_chunks h0 (w32 c))\<rparr>" "eff e c c (c + csize h) h0 h'"
    "chunk_ok e h' c [Free (c + csize h - first_at e h c)]"
proof -
  have hd0: "0 < hdsize e" "hdsize e \<le> csize h" using geo by (auto simp: heap_geom_def)
  obtain h1 h0 where h1: "new_Chunk e (w32 c) h = Some h1" and h0: "h0 = h\<lparr>hp_chunks := (hp_chunks h)(w32 c := hp_chunks h1 (w32 c))\<rparr>"
    and e1: "eff e c c (c + csize h) h0 h1" and hd1: "chunk_hd h1 c 0 []" by (rule new_Chunk_step [OF c hd0])
  let ?f = "first_at e h c" and ?n = "c + csize h - first_at e h c"
  have fb: "c + hdsize e \<le> ?f" "?f + 40 \<le> c + csize h" using first_at_bounds [where c = c and e = e and h = h] geo(2) by auto
  have cs: "csize h0 = csize h" "opt k h0 = opt k h" "first_at e h0 c = ?f" "hp_pageSize h0 = hp_pageSize h" "hp_chunkSize h0 = hp_chunkSize h" for k
    by (simp_all add: h0 opt_def first_at_def)
  note f1 = eff_fields [OF e1, unfolded cs]
  have nz: "w32 c \<noteq> 0" using c by (intro w32_nz) auto
  obtain ck where ck: "hp_chunks h1 (w32 c) = Some ck" "\<not> pl_lock (ck_blocks (ln_obj ck))" using hd1 by (auto simp: chunk_hd_def)
  have "upd_Chunk (w32 c) (ck_blocks_update (\<lambda>_. ck_blocks (ln_obj ck))) h1 = Some (h1\<lparr>hp_chunks := (hp_chunks h1)(w32 c \<mapsto> ck)\<rparr>)"
    using ck nz by (simp add: upd_Chunk_def l_get_def)
  moreover have "(hp_chunks h1)(w32 c \<mapsto> ck) = hp_chunks h1" using ck(1) by auto
  ultimately have u1: "upd_Chunk (w32 c) (ck_blocks_update (\<lambda>_. ck_blocks (ln_obj ck))) h1 = Some h1" by simp
  have r: "room e h1 c ?f (c + csize h)" using c fb hd0 by (simp add: room_def f1)
  obtain h2 where h2: "new_Block e (w32 ?f) (w32 c) (w32 ?n) 0 h1 = Some h2" "eff e c ?f (c + csize h) h1 h2"
    "hp_blocks h2 (w32 ?f) = Some \<lparr>ln_next = he_junk e, ln_obj = \<lparr>bk_parent = w32 c, bk_freedBy = 0, bk_nBytes = w32 ?n, bk_magic = HEAP_BLOCK_MAGIC\<rparr>\<rparr>"
    "hp_chunks h2 (w32 c) = hp_chunks h1 (w32 c)"
    "\<forall>x. x + 40 \<le> 2 ^ 32 \<and> (x + 40 \<le> ?f \<or> ?f + 40 \<le> x) \<longrightarrow> hp_blocks h2 (w32 x) = hp_blocks h1 (w32 x)"
    by (rule new_Block_step [OF r order_refl fb(2)])
  note f2 = eff_fields [OF h2(2), unfolded f1]
  have hd2: "chunk_hd h2 c 0 []" using hd1 h2(4) by (simp add: chunk_hd_def pl_rep_def)
  have uf: "unat (w32 ?f) = ?f" using fb c by (intro unat_w32) simp
  have i2: "in_chunk h2 c [w32 ?f]" using fb hd0 uf by (simp add: in_chunk_def f2)
  have c2: "c + csize h2 < 2 ^ 32" using c by (simp add: f2)
  obtain h3 where h3: "blocks_sortedInsert (w32 c) (w32 ?f) h2 = Some h3" "eff e c ?f (c + csize h) h2 h3" "chunk_hd h3 c 0 (insort (w32 ?f) [])"
    "hp_allocs h3 = hp_allocs h2" "\<forall>x. blk h3 x = blk h2 x"
    by (rule blocks_sortedInsert_step [OF hd2 c(1) c2 hd0(1) i2, where lo = ?f and hi = "c + csize h"]) (use h2(3) in simp_all)
  note f3 = eff_fields [OF h3(2), unfolded f2]
  have e3: "eff e c ?f (c + csize h) h1 h3" using h2(2) h3(2) by (rule eff_trans)
  have "eff e c c (c + csize h) h1 h3" by (rule eff_mono [OF e3]) (use fb in auto)
  then have ef: "eff e c c (c + csize h) h0 h3" by (rule eff_trans [OF e1])
  have sz: "hp_chunkSize h1 - (w32 ?f - w32 c) = w32 ?n"
  proof -
    have "hp_chunkSize h1 = w32 (csize h)" using e1 by (simp add: eff_def cs)
    then show ?thesis using fb hd0 by (simp add: of_nat_diff)
  qed
  have fw: "(let b = w32 c + he_sizeofChunk e in
      if opt OPT_GUARD_PAGED h1 \<and> b AND (hp_pageSize h1 - 1) \<noteq> 0 then (b + hp_pageSize h1) AND NOT (hp_pageSize h1 - 1) else b) = w32 ?f"
    unfolding f1 by (rule first_block_word [OF geo(1) c(2) geo(2)])
  have lg: "l_get (hp_chunks h1) (w32 c) = Some ck" using ck(1) nz by (simp add: l_get_def)
  have run: "getNewChunk e (w32 c) h = Some (ERROR_SUCCESS, w32 c, h3)"
    using st nz fw [unfolded Let_def] unfolding getNewChunk_def
    by (simp only: h1 lg u1 Option.bind.simps pl_initialize_def Let_def prod.case simp_thms if_False sz h2(1) h3(1) if_True)
  have "guarded h \<longrightarrow> 4096 dvd ?f" by (auto simp: first_at_def Let_def)
  then have "chunk_ok e h3 c [Free ?n]" using al c fb h3(3,5) h2(3) by (simp add: chunk_ok_def f3 cs blk_def)
  moreover have "h0 = h\<lparr>hp_chunks := (hp_chunks h)(w32 c := hp_chunks h0 (w32 c))\<rparr>" by (simp add: h0)
  ultimately show thesis using run ef by (intro that)
qed


text \<open>Memory for a chunk: above the null page, not in use, and ending at a page boundary if the heap is guarded.\<close>

definition fresh_chunk :: "heap \<Rightarrow> heap_abs \<Rightarrow> nat \<Rightarrow> bool" where
  "fresh_chunk h A c \<longleftrightarrow> 0 < c \<and> c + csize h < 2 ^ 32 \<and> (guarded h \<longrightarrow> 4096 dvd c + csize h) \<and> (\<forall>d\<in>set (map fst A). apart h c d)"

text \<open>The segments of a new chunk.\<close>

abbreviation new_segs :: "heap_env \<Rightarrow> heap \<Rightarrow> nat \<Rightarrow> seg list" where
  "new_segs e h c \<equiv> [Free (c + csize h - first_at e h c)]"

lemma heap_new_chunk:
  assumes inv: "heap_inv e h A X True" and st: "hp_stream h" and fr: "fresh_chunk h A c"
  obtains h1 cs l where "getNewChunk e (w32 c) h = Some (ERROR_SUCCESS, w32 c, h1)" "pl_insert True (w32 c) (hp_chunks h1) (hp_chunkList h1) = Some (cs, l)"
    "heap_inv e (h1\<lparr>hp_chunks := cs, hp_chunkList := l\<rparr>) (A @ [(c, new_segs e h c)]) X True"
    "hp_options h1 = hp_options h" "hp_chunkSize h1 = hp_chunkSize h" "hp_stream h1 = hp_stream h" "hp_mem h1 = hp_mem h"
proof -
  note I = heap_invD [OF inv]
  have c: "0 < c" "c + csize h < 2 ^ 32" "guarded h \<longrightarrow> 4096 dvd c + csize h" "\<And>d. d \<in> set (map fst A) \<Longrightarrow> apart h c d"
    using fr by (auto simp: fresh_chunk_def)
  obtain h1 h0 where h1: "getNewChunk e (w32 c) h = Some (ERROR_SUCCESS, w32 c, h1)"
    and h0: "h0 = h\<lparr>hp_chunks := (hp_chunks h)(w32 c := hp_chunks h0 (w32 c))\<rparr>" and ef: "eff e c c (c + csize h) h0 h1"
    and ok: "chunk_ok e h1 c (new_segs e h c)" by (rule getNewChunk_run [OF st c(1-3) I(1,7)])
  have cfg: "hp_chunkSize h0 = hp_chunkSize h" "hp_options h0 = hp_options h" "hp_stream h0 = hp_stream h" "hp_mem h0 = hp_mem h"
    "hp_blocks h0 = hp_blocks h" "hp_allocs h0 = hp_allocs h" "hp_chunkList h0 = hp_chunkList h" "hp_allocList h0 = hp_allocList h"
    "hp_guards h0 = hp_guards h" "hp_pageSize h0 = hp_pageSize h" by (subst h0; simp)+
  have cfg1: "hp_chunkSize h1 = hp_chunkSize h" "hp_options h1 = hp_options h" "hp_stream h1 = hp_stream h" "hp_mem h1 = hp_mem h"
    "hp_chunkList h1 = hp_chunkList h" "hp_allocList h1 = hp_allocList h" "hp_guards h1 = hp_guards h" "hp_pageSize h1 = hp_pageSize h"
    using ef by (simp_all add: eff_def cfg)
  have geo0: "heap_geom e h0" using I(1) by (simp add: heap_geom_def cfg)
  have other: "chunk_ok e h1 d ts" "w32 d \<noteq> w32 c" "hp_chunks h1 (w32 d) = hp_chunks h (w32 d)" if "(d, ts) \<in> set A" for d ts
  proof -
    have okd: "chunk_ok e h d ts" by (rule I(5) [OF that])
    have ap: "apart h c d" by (rule c(4)) (use that in force)
    have ne: "d \<noteq> c" using ap I(7) by (auto simp: apart_def)
    show wne: "w32 d \<noteq> w32 c" using ne c(2) chunk_bounds(2) [OF okd] by (subst w32_eq_iff) auto
    have h0d: "hp_chunks h0 (w32 d) = hp_chunks h (w32 d)" using wne by (subst h0) simp
    have "chunk_ok e h0 d ts" using okd by (subst chunk_ok_cong [of h0 h]) (simp_all add: cfg h0d alc_def)
    then show "chunk_ok e h1 d ts"
      by (rule chunk_ok_other [OF ef]) (use ap I(7) in \<open>auto simp: apart_def cfg\<close>)
    have "d + hdsize e \<le> 2 ^ 32" "d + hdsize e \<le> c \<or> c + csize h \<le> d" using ap I(7) chunk_bounds(2) [OF okd] by (auto simp: apart_def)
    then show "hp_chunks h1 (w32 d) = hp_chunks h (w32 d)" using ef ne h0d by (simp add: eff_def)
  qed
  have rep1: "pl_rep (hp_chunks h1) (hp_chunkList h1) (map (w32 \<circ> fst) A)"
    using I(2) lpath_frame [of "map (w32 \<circ> fst) A" "hp_chunks h1" "hp_chunks h"] other(3) unfolding pl_rep_def cfg1 by fastforce
  have nin: "w32 c \<notin> set (map (w32 \<circ> fst) A)" using other(2) by fastforce
  have nz: "w32 c \<noteq> 0" using c by (intro w32_nz) auto
  obtain ck where ck: "hp_chunks h1 (w32 c) = Some ck" using ok by (auto simp: chunk_ok_def chunk_hd_def)
  from pl_insert_rep [OF rep1 nin nz ck, of True] obtain cs l where ins: "pl_insert True (w32 c) (hp_chunks h1) (hp_chunkList h1) = Some (cs, l)"
    "pl_to (set (w32 c # map (w32 \<circ> fst) A)) (hp_chunks h1) (hp_chunkList h1) (map (w32 \<circ> fst) A @ [w32 c]) (cs, l)" by auto
  let ?h2 = "h1\<lparr>hp_chunks := cs, hp_chunkList := l\<rparr>" and ?A = "A @ [(c, new_segs e h c)]"
  have to: "pl_rep cs l (map (w32 \<circ> fst) ?A)" "same_obj (hp_chunks h1) cs" "pl_lock l = True" using ins(2) I(3) by (auto simp: pl_to_def cfg1)
  have ok2: "chunk_ok e ?h2 d ts = chunk_ok e h1 d ts" for d ts
    using to(2) by (intro chunk_ok_cong) (simp_all add: alc_def same_obj_def)
  have chunks: "\<forall>(d, ts)\<in>set ?A. chunk_ok e ?h2 d ts" using other(1) ok unfolding ok2 by auto
  have ap2: "\<forall>d\<in>set (map fst ?A). \<forall>d'\<in>set (map fst ?A). d \<noteq> d' \<longrightarrow> apart ?h2 d d'"
    using I(6) c(4) by (auto simp: apart_def cfg1)
  have f2: "first_at e ?h2 d = first_at e h d" for d by (simp add: first_at_def opt_def cfg1)
  have ls: "listed e ?h2 ?A X = listed e h A X" by (auto simp: listed_def heap_live_def f2)
  obtain xs where xs: "pl_rep (hp_allocs h) (hp_allocList h) xs" "set xs = (w32 \<circ> fst) ` listed e h A X" using inv unfolding heap_inv_def by blast
  have "hp_allocs h1 y = hp_allocs h y" if "y \<in> set xs" for y
  proof -
    from that xs(2) obtain a n where y: "y = w32 a" "(a, n) \<in> heap_live e h A" by (auto simp: listed_def)
    from y(2) obtain d ts where d: "(d, ts) \<in> set A" "(a, n) \<in> set (live_at (first_at e h d) ts)" by (auto simp: heap_live_def)
    have okd: "chunk_ok e h d ts" by (rule I(5) [OF d(1)])
    have ap: "apart h c d" by (rule c(4)) (use d(1) in force)
    have "76 \<le> overhead h" by (simp add: overhead_def)
    then have "a + 76 \<le> 2 ^ 32" "a + 76 \<le> c \<or> c + csize h \<le> a"
      using live_bounds [OF okd d(2)] chunk_bounds [OF okd] ap by (auto simp: apart_def)
    then show ?thesis using ef y(1) by (simp add: eff_def cfg)
  qed
  then have al: "pl_rep (hp_allocs ?h2) (hp_allocList ?h2) xs" using xs(1) lpath_frame [of xs "hp_allocs h1" "hp_allocs h"] by (simp add: pl_rep_def cfg1)
  have gd: "hp_guards ?h2 = (if guarded ?h2 then guard_of ` listed e h A X else {})" using inv by (simp add: heap_inv_def cfg1 opt_def)
  have cfg2: "heap_geom e ?h2" "hdsize e + 4136 \<le> csize ?h2" "pl_lock (hp_chunkList ?h2) = True" "\<not> pl_lock (hp_allocList ?h2)"
    using I to(3) by (simp_all add: heap_geom_def cfg1)
  have "pl_rep (hp_chunks ?h2) (hp_chunkList ?h2) (map (w32 \<circ> fst) ?A)" using to(1) by simp
  then have "heap_inv e ?h2 ?A X True" unfolding heap_inv_def ls using chunks ap2 al gd cfg2 xs(2) by blast
  then show thesis using that [OF h1 ins(1)] cfg1 by blast
qed


section \<open>The result of an allocation\<close>

lemma live_at_split:
  assumes "(a, n) \<in> set (live_at p ss)"
  obtains pre g post where "ss = pre @ [Used g n] @ post" "a = p + seg_total pre + g"
  using assms
proof (induction p ss arbitrary: thesis rule: live_at.induct)
  case (2 p k ss)
  from 2(3) obtain pre g post where "ss = pre @ [Used g n] @ post" "a = p + k + seg_total pre + g" by (auto intro: 2(1))
  then show ?case by (intro 2(2) [of "Free k # pre" g post]) auto
next
  case (3 p g k ss)
  show ?case
  proof (cases "(a, n) = (p + g, k)")
    case True
    then show ?thesis by (intro 3(2) [of "[]" g ss]) auto
  next
    case False
    with 3(3) obtain pre g' post where "ss = pre @ [Used g' n] @ post" "a = p + g + k + seg_total pre + g'" by (auto intro: 3(1))
    then show ?thesis by (intro 3(2) [of "Used g k # pre" g' post]) auto
  qed
qed simp

lemma live_header:
  assumes inv: "heap_inv e h A X lk" and l: "(a, n) \<in> heap_live e h A"
  obtains c ss al where "(c, ss) \<in> set A" "(a, n) \<in> set (live_at (first_at e h c) ss)" "l_get (hp_allocs h) (w32 a) = Some al"
    "al_nBytes (ln_obj al) = w32 n" "al_parent (ln_obj al) = w32 c" "al_magic (ln_obj al) = HEAP_ALLOC_MAGIC" "overhead h < n" "a + n < 2 ^ 32" "w32 a \<noteq> 0"
    "guarded h \<longrightarrow> check_aligned (ln_obj al) (w32 a) h"
proof -
  from l obtain c ss where c: "(c, ss) \<in> set A" "(a, n) \<in> set (live_at (first_at e h c) ss)" by (auto simp: heap_live_def)
  have ok: "chunk_ok e h c ss" by (rule heap_invD(5) [OF inv c(1)])
  obtain pre g post where ss: "ss = pre @ [Used g n] @ post" "a = first_at e h c + seg_total pre + g" by (rule live_at_split [OF c(2)])
  have geo: "heap_geom e h" by (rule heap_invD(1) [OF inv])
  obtain al where al: "hp_allocs h (w32 a) = Some al" "al_nBytes (ln_obj al) = w32 n" "al_gapSize (ln_obj al) = w32 g" "al_parent (ln_obj al) = w32 c"
    "al_magic (ln_obj al) = HEAP_ALLOC_MAGIC" "overhead h < n" "a + n < 2 ^ 32" "w32 a \<noteq> 0" "g < a"
    "guarded h \<longrightarrow> 4096 dvd a - g \<and> 4096 dvd a + n" by (rule used_seg_alloc [OF ok [unfolded ss(1)] geo ss(2)])
  have lg: "l_get (hp_allocs h) (w32 a) = Some al" using al(1,8) by (simp only: l_get_def if_False)
  have "w32 a - w32 g = w32 (a - g)" "w32 a + w32 n - 1 + 1 = w32 (a + n)" using al(9) by (simp_all add: of_nat_diff)
  moreover have "unat (w32 (a - g)) = a - g" "unat (w32 (a + n)) = a + n" using al(7) by (intro unat_w32; simp)+
  ultimately have "guarded h \<longrightarrow> check_aligned (ln_obj al) (w32 a) h"
    using al(2,3,10) geo page_aligned [of "w32 (a - g)"] page_aligned [of "w32 (a + n)"] by (simp add: check_aligned_def heap_geom_def del: of_nat_add)
  then show thesis using that [OF c lg al(2,4,5,6,7,8)] by blast
qed

text \<open>Live headers have different addresses.\<close>

lemma live_unique:
  assumes inv: "heap_inv e h A X lk" and l: "(a, n) \<in> heap_live e h A" "(a, m) \<in> heap_live e h A"
  shows "m = n"
proof -
  obtain c ss al where n: "l_get (hp_allocs h) (w32 a) = Some al" "al_nBytes (ln_obj al) = w32 n" "a + n < 2 ^ 32" by (rule live_header [OF inv l(1)])
  obtain c' ss' al' where m: "l_get (hp_allocs h) (w32 a) = Some al'" "al_nBytes (ln_obj al') = w32 m" "a + m < 2 ^ 32" by (rule live_header [OF inv l(2)])
  have "w32 m = w32 n" using n m by simp
  then show ?thesis using n(3) m(3) by (subst (asm) w32_eq_iff) auto
qed

lemma listed_insert:
  assumes "heap_inv e h A X lk" "(a, n) \<in> heap_live e h A"
  shows "listed e h A {} = insert (a, n) (listed e h A {a})"
proof -
  have u: "snd l = n" if "l \<in> heap_live e h A" "fst l = a" for l
    by (rule live_unique [OF assms]) (use that in \<open>cases l, simp\<close>)
  show ?thesis
  proof (rule set_eqI)
    fix l
    show "l \<in> listed e h A {} \<longleftrightarrow> l \<in> insert (a, n) (listed e h A {a})"
      using u [of l] assms(2) by (cases l) (auto simp: listed_def)
  qed
qed

text \<open>The list of allocations and the guard pages change together.\<close>

lemma heap_invI:
  assumes "heap_geom e h" "hdsize e + 4136 \<le> csize h" "pl_rep (hp_chunks h) (hp_chunkList h) (map (w32 \<circ> fst) A)" "pl_lock (hp_chunkList h) = lk"
    "\<not> pl_lock (hp_allocList h)" "\<And>c ss. (c, ss) \<in> set A \<Longrightarrow> chunk_ok e h c ss"
    "\<And>c d. c \<in> set (map fst A) \<Longrightarrow> d \<in> set (map fst A) \<Longrightarrow> c \<noteq> d \<Longrightarrow> apart h c d"
    "pl_rep (hp_allocs h) (hp_allocList h) xs" "set xs = (w32 \<circ> fst) ` listed e h A X" "hp_guards h = (if guarded h then guard_of ` listed e h A X else {})"
  shows "heap_inv e h A X lk"
  unfolding heap_inv_def
proof (intro conjI exI [of _ xs])
  show "\<forall>(c, ss)\<in>set A. chunk_ok e h c ss" using assms(6) by auto
  show "\<forall>c\<in>set (map fst A). \<forall>d\<in>set (map fst A). c \<noteq> d \<longrightarrow> apart h c d" using assms(7) by blast
qed (fact assms)+

lemma heap_inv_listed:
  assumes inv: "heap_inv e h A X lk" and to: "pl_to K (hp_allocs h) (hp_allocList h) ys (as, l)" and ys: "set ys = (w32 \<circ> fst) ` listed e h A X'"
    and gs: "gs = (if guarded h then guard_of ` listed e h A X' else {})"
  shows "heap_inv e (h\<lparr>hp_guards := gs, hp_allocs := as, hp_allocList := l\<rparr>) A X' lk"
proof -
  let ?h = "h\<lparr>hp_guards := gs, hp_allocs := as, hp_allocList := l\<rparr>"
  have t: "pl_rep as l ys" "same_obj (hp_allocs h) as" "pl_lock l = pl_lock (hp_allocList h)" using to by (auto simp: pl_to_def)
  have ok: "chunk_ok e ?h c ss = chunk_ok e h c ss" for c ss using t(2) by (intro chunk_ok_cong) (simp_all add: alc_def same_obj_def)
  have ls: "listed e ?h A X' = listed e h A X'" by (rule listed_cong) simp
  have cf: "heap_geom e ?h = heap_geom e h" "apart ?h = apart h" "csize ?h = csize h" "hp_chunks ?h = hp_chunks h" "hp_chunkList ?h = hp_chunkList h" "opt k ?h = opt k h" for k
    by (simp_all add: heap_geom_def apart_def opt_def fun_eq_iff)
  have al: "\<not> pl_lock (hp_allocList ?h)" "pl_rep (hp_allocs ?h) (hp_allocList ?h) ys" "hp_guards ?h = gs" using t heap_invD(4) [OF inv] by simp_all
  note I = heap_invD [OF inv]
  show ?thesis by (rule heap_invI [where xs = ys]; (unfold cf ok ls al(3))?) (fact I al ys gs)+
qed

lemma heap_finish_ok:
  assumes inv: "heap_inv e h A {a} lk" and l: "(a, n) \<in> heap_live e h A" and walk: "\<And>x. he_walker e x"
  obtains h' where "heap_finish e (w32 a) h = Some (w32 (a + 76), h')" "heap_ok e h' A" "hp_options h' = hp_options h" "hp_chunkSize h' = hp_chunkSize h"
    "hp_stream h' = hp_stream h" "hp_mem h' = hp_mem h"
proof -
  let ?h = "heap_unlock h"
  have u: "hp_options ?h = hp_options h" "hp_chunkSize ?h = hp_chunkSize h" "hp_allocs ?h = hp_allocs h" "hp_stream ?h = hp_stream h" "hp_mem ?h = hp_mem h"
    by (simp_all add: heap_unlock_def)
  have inv1: "heap_inv e ?h A {a} False" by (rule heap_unlock_ok [OF inv])
  have l1: "(a, n) \<in> heap_live e ?h A" using l heap_live_cong [OF u(1)] by simp
  obtain c ss al where al: "(c, ss) \<in> set A" "(a, n) \<in> set (live_at (first_at e ?h c) ss)" "l_get (hp_allocs ?h) (w32 a) = Some al"
    "al_nBytes (ln_obj al) = w32 n" "al_parent (ln_obj al) = w32 c" "al_magic (ln_obj al) = HEAP_ALLOC_MAGIC" "overhead ?h < n" "a + n < 2 ^ 32" "w32 a \<noteq> 0"
    "guarded ?h \<longrightarrow> check_aligned (ln_obj al) (w32 a) ?h" by (rule live_header [OF inv1 l1])
  note I = heap_invD [OF inv1]
  obtain xs where xs: "pl_rep (hp_allocs ?h) (hp_allocList ?h) xs" "set xs = (w32 \<circ> fst) ` listed e ?h A {a}" using inv1 unfolding heap_inv_def by blast
  have nin: "w32 a \<notin> set xs"
  proof
    assume "w32 a \<in> set xs"
    then obtain b m where b: "(b, m) \<in> heap_live e ?h A" "b \<noteq> a" "w32 a = w32 b" using xs(2) by (auto simp: listed_def)
    obtain c' ss' where "b + m < 2 ^ 32" by (rule heap_live_bounds [OF inv1 b(1)])
    then show False using b al(8) by (simp add: w32_eq_iff)
  qed
  have aa: "hp_allocs ?h (w32 a) = Some al" using al(3,9) by (simp add: l_get_def)
  from pl_insert_rep [OF xs(1) nin al(9) aa, of False] I(4) obtain as li where ins: "pl_insert False (w32 a) (hp_allocs ?h) (hp_allocList ?h) = Some (as, li)"
    "pl_to (set (w32 a # xs)) (hp_allocs ?h) (hp_allocList ?h) (xs @ [w32 a]) (as, li)" by auto
  have li: "listed e ?h A {} = insert (a, n) (listed e ?h A {a})" by (rule listed_insert [OF inv1 l1])
  let ?gs = "if guarded ?h then guard_of ` listed e ?h A {} else {}"
  let ?h' = "?h\<lparr>hp_guards := ?gs, hp_allocs := as, hp_allocList := li\<rparr>"
  have ok: "heap_ok e ?h' A" by (rule heap_inv_listed [OF inv1 ins(2)]) (use xs(2) li in auto)
  have gd: "hp_guards ?h = (if guarded ?h then guard_of ` listed e ?h A {a} else {})" using inv1 unfolding heap_inv_def by blast
  have pg: "hp_pageSize ?h = 4096" using I(1) by (simp add: heap_geom_def)
  have "guard_of (a, n) = w32 a + w32 n - 4096" if "guarded ?h"
    using al(7) that by (simp add: guard_of_def overhead_def of_nat_diff)
  then have run: "heap_finish e (w32 a) h = Some (w32 (a + 76), ?h')"
    using al(3,4) gd li walk ins(1) pg by (cases "guarded ?h") (simp_all add: heap_finish_def Let_def setGuardPage_def)
  then show thesis using ok by (rule that) (simp_all add: u)
qed

end
