(* ===== verification/HeapOps.thy ===== *)
theory HeapOps
  imports HeapAlloc
begin

text \<open>
  The operations of the heap against their abstract counterparts: \<open>malloc\<close>, \<open>free\<close>, \<open>realloc\<close> and the two consistency checks.
\<close>

section \<open>Sizes\<close>

text \<open>The size that is taken from a chunk: header, guard page, rounded to words.\<close>

definition heap_need :: "heap \<Rightarrow> nat \<Rightarrow> nat" where
  "heap_need h sz = (let x = sz + overhead h in if 4 dvd x then x else (x div 4 + 1) * 4)"

lemma heap_need_bounds: "sz + overhead h \<le> heap_need h sz" "heap_need h sz \<le> sz + overhead h + 4"
  using round_up_bounds [of 4 "sz + overhead h"] by (auto simp: heap_need_def Let_def)

lemma heap_size_eq:
  assumes "heap_geom e h" "sz + 4176 < 2 ^ 32"
  shows "heap_size h (w32 sz) = w32 (heap_need h sz)"
proof -
  let ?x = "sz + overhead h"
  have x: "(if opt OPT_GUARD_PAGED h then w32 sz + sizeof_Allocation + hp_pageSize h else w32 sz + sizeof_Allocation) = w32 ?x"
    using assms(1) by (simp add: overhead_def heap_geom_def)
  have lt: "?x + 4 < 2 ^ 32" using assms(2) by (simp add: overhead_def)
  then have u: "unat (w32 ?x) = ?x" "unat (w32 (?x + 4)) = ?x + 4" by (intro unat_w32; simp)+
  have m: "(4 - 1 :: u32) = mask 2" by (simp add: mask_eq_exp_minus_1)
  have "w32 ?x + 4 = w32 (?x + 4)" by simp
  then have "(w32 ?x + 4) AND NOT (mask 2) = w32 ((?x + 4) div 2 ^ 2 * 2 ^ 2)" by (simp only: mask_down u)
  also have "(?x + 4) div 2 ^ 2 * 2 ^ 2 = (?x div 4 + 1) * 4" using div_add_self2 [of 4 ?x] by simp
  finally have r: "(w32 ?x + 4) AND NOT (mask 2) = w32 ((?x div 4 + 1) * 4)" .
  have a: "w32 ?x AND mask 2 = 0 \<longleftrightarrow> 4 dvd ?x" using mask_aligned [of 2 "w32 ?x"] u(1) by simp
  show ?thesis unfolding heap_size_def Let_def x m r a heap_need_def by simp
qed

section \<open>Allocation\<close>

fun abs_passes :: "heap_env \<Rightarrow> heap \<Rightarrow> nat \<Rightarrow> nat list \<Rightarrow> heap_abs \<Rightarrow> nat option \<times> heap_abs" where
  "abs_passes e h sz [] A = (None, A)"
| "abs_passes e h sz (c # cs) A =
     (case abs_alloc e h sz A of Some (a, A') \<Rightarrow> (Some a, A') | None \<Rightarrow> abs_passes e h sz cs (A @ [(c, new_segs e h c)]))"

text \<open>The chunks offered do not overlap each other or those in use.\<close>

fun fresh_chunks :: "heap \<Rightarrow> heap_abs \<Rightarrow> nat list \<Rightarrow> bool" where
  "fresh_chunks h A [] \<longleftrightarrow> True"
| "fresh_chunks h A (c # cs) \<longleftrightarrow> fresh_chunk h A c \<and> fresh_chunks h (A @ [(c, [])]) cs"

definition same_params :: "heap \<Rightarrow> heap \<Rightarrow> bool" where
  "same_params h h' \<longleftrightarrow> hp_options h' = hp_options h \<and> hp_chunkSize h' = hp_chunkSize h \<and> hp_stream h' = hp_stream h \<and> hp_mem h' = hp_mem h"

lemma same_paramsD:
  assumes "same_params h h'"
  shows "opt k h' = opt k h" "csize h' = csize h" "first_at e h' c = first_at e h c" "overhead h' = overhead h" "seg_gap h' sz = seg_gap h sz"
    "heap_need h' n = heap_need h n" "apart h' = apart h" "hp_stream h' = hp_stream h"
  using assms by (simp_all add: same_params_def opt_def first_at_def overhead_def seg_gap_def heap_need_def apart_def fun_eq_iff)

lemma abs_alloc_params: "same_params h h' \<Longrightarrow> abs_alloc e h' sz A = abs_alloc e h sz A"
  by (induction A) (auto simp: same_paramsD split: option.split)

lemma abs_passes_params: "same_params h h' \<Longrightarrow> abs_passes e h' sz cs A = abs_passes e h sz cs A"
  by (induction cs arbitrary: A) (simp_all add: abs_alloc_params same_paramsD split: option.split)

lemma fresh_chunks_cong: "map fst A = map fst B \<Longrightarrow> same_params h h' \<Longrightarrow> fresh_chunks h' A cs = fresh_chunks h B cs"
proof (induction cs arbitrary: A B)
  case (Cons c cs)
  from Cons.prems have "fresh_chunk h' A c = fresh_chunk h B c" by (simp only: fresh_chunk_def same_paramsD)
  moreover have "fresh_chunks h' (A @ [(c, [])]) cs = fresh_chunks h (B @ [(c, [])]) cs" by (rule Cons.IH) (use Cons.prems in auto)
  ultimately show ?case by simp
qed simp

text \<open>What an allocation has done to the segments.\<close>

definition alloc_result :: "heap_env \<Rightarrow> heap \<Rightarrow> nat \<Rightarrow> heap_abs \<Rightarrow> nat option \<Rightarrow> heap_abs \<Rightarrow> bool" where
  "alloc_result e h n A r A' \<longleftrightarrow> (case r of
      None \<Rightarrow> heap_live e h A' = heap_live e h A
    | Some a \<Rightarrow> heap_live e h A' = insert (a, n) (heap_live e h A) \<and> (\<forall>l\<in>heap_live e h A. fst l \<noteq> a))"

lemma heap_live_params: "same_params h h' \<Longrightarrow> heap_live e h' A = heap_live e h A"
  by (rule heap_live_cong) (simp add: same_params_def)

lemma heap_passes_ok:
  assumes "heap_inv e h A {} True" "hp_stream h" "fresh_chunks h A cs" and walk: "\<And>x. he_walker e x"
    and sz: "overhead h < sz" "seg_gap h sz + sz < 2 ^ 32" and r: "abs_passes e h sz cs A = (r, A')"
  shows "\<exists>h'. heap_passes e (map w32 cs) (w32 sz) ab desc h = Some (case r of None \<Rightarrow> 0 | Some a \<Rightarrow> w32 (a + 76), h') \<and>
    heap_ok e h' A' \<and> same_params h h' \<and> alloc_result e h sz A r A'"
  using assms(1-3) sz r
proof (induction cs arbitrary: h A)
  case Nil
  then show ?case using heap_unlock_ok [OF Nil.prems(1)] by (auto simp: alloc_result_def same_params_def heap_unlock_def)
next
  case (Cons c cs)
  note inv = Cons.prems(1) and sz = Cons.prems(4,5)
  let ?it = "pl_head (hp_chunkList h)"
  have ml: "case abs_alloc e h sz A of
      None \<Rightarrow> heap_mallocLoop e (w32 sz) ab desc ?it h = Some (0, h)
    | Some (a, A') \<Rightarrow> \<exists>h' c. heap_mallocLoop e (w32 sz) ab desc ?it h = Some (w32 a, h') \<and> heap_inv e h' ([] @ A') {a} True \<and>
        heap_live e h ([] @ A') = insert (a, sz) (heap_live e h ([] @ A)) \<and> (\<forall>l\<in>heap_live e h ([] @ A). fst l \<noteq> a) \<and>
        eff e c (first_at e h c) (c + csize h) h h'"
    by (rule heap_mallocLoop_ok) (use inv sz first_chunk [OF heap_invD(2) [OF inv]] in simp_all)
  show ?case
  proof (cases "abs_alloc e h sz A")
    case (Some p)
    obtain a A1 where p: "p = (a, A1)" by (cases p)
    with ml Some obtain h1 c1 where h1: "heap_mallocLoop e (w32 sz) ab desc ?it h = Some (w32 a, h1)" "heap_inv e h1 A1 {a} True"
      "heap_live e h A1 = insert (a, sz) (heap_live e h A)" "\<forall>l\<in>heap_live e h A. fst l \<noteq> a" "eff e c1 (first_at e h c1) (c1 + csize h) h h1" by auto
    have pr: "same_params h h1" using h1(5) by (simp add: eff_def same_params_def)
    have l: "(a, sz) \<in> heap_live e h1 A1" using h1(3) heap_live_params [OF pr] by simp
    obtain h2 where h2: "heap_finish e (w32 a) h1 = Some (w32 (a + 76), h2)" "heap_ok e h2 A1" "hp_options h2 = hp_options h1" "hp_chunkSize h2 = hp_chunkSize h1"
      "hp_stream h2 = hp_stream h1" "hp_mem h2 = hp_mem h1" by (rule heap_finish_ok [OF h1(2) l walk])
    obtain c' ss' where "a + sz < 2 ^ 32" "0 < a" by (rule heap_live_bounds [OF h1(2) l])
    then have "w32 a \<noteq> 0" by (intro w32_nz) auto
    then have "heap_passes e (map w32 (c # cs)) (w32 sz) ab desc h = Some (w32 (a + 76), h2)" using h1(1) h2(1) by simp
    moreover have "same_params h h2" using pr h2(3-6) by (simp add: same_params_def)
    ultimately show ?thesis using Cons.prems(6) Some p h1(3,4) h2(2) by (auto simp: alloc_result_def)
  next
    case None
    obtain h1 cl l where h1: "getNewChunk e (w32 c) h = Some (ERROR_SUCCESS, w32 c, h1)" "pl_insert True (w32 c) (hp_chunks h1) (hp_chunkList h1) = Some (cl, l)"
      "heap_inv e (h1\<lparr>hp_chunks := cl, hp_chunkList := l\<rparr>) (A @ [(c, new_segs e h c)]) {} True"
      "hp_options h1 = hp_options h" "hp_chunkSize h1 = hp_chunkSize h" "hp_stream h1 = hp_stream h" "hp_mem h1 = hp_mem h"
      by (rule heap_new_chunk [OF inv Cons.prems(2)]) (use Cons.prems(3) in auto)
    let ?h2 = "h1\<lparr>hp_chunks := cl, hp_chunkList := l\<rparr>" and ?A = "A @ [(c, new_segs e h c)]"
    have pr: "same_params h ?h2" using h1(4-7) by (simp add: same_params_def)
    have "\<exists>h'. heap_passes e (map w32 cs) (w32 sz) ab desc ?h2 = Some (case r of None \<Rightarrow> 0 | Some a \<Rightarrow> w32 (a + 76), h') \<and>
        heap_ok e h' A' \<and> same_params ?h2 h' \<and> alloc_result e ?h2 sz ?A r A'"
    proof (rule Cons.IH [OF h1(3)])
      show "fresh_chunks ?h2 ?A cs" using Cons.prems(3) fresh_chunks_cong [of ?A "A @ [(c, [])]" h ?h2 cs] pr by simp
      show "abs_passes e ?h2 sz cs ?A = (r, A')" using Cons.prems(6) None abs_passes_params [OF pr] by simp
    qed (use Cons.prems sz same_paramsD [OF pr] in simp_all)
    then obtain h' where h': "heap_passes e (map w32 cs) (w32 sz) ab desc ?h2 = Some (case r of None \<Rightarrow> 0 | Some a \<Rightarrow> w32 (a + 76), h')"
      "heap_ok e h' A'" "same_params ?h2 h'" "alloc_result e ?h2 sz ?A r A'" by blast
    have "heap_passes e (map w32 (c # cs)) (w32 sz) ab desc h = Some (case r of None \<Rightarrow> 0 | Some a \<Rightarrow> w32 (a + 76), h')"
      using ml None h1(1,2) h'(1) by simp
    moreover have "heap_live e h ?A = heap_live e h A" by (simp add: heap_live_def)
    then have "alloc_result e h sz A r A'" using h'(4) by (simp only: alloc_result_def heap_live_params [OF pr])
    moreover have "same_params h h'" using pr h'(3) by (simp add: same_params_def)
    ultimately show ?thesis using h'(2) by blast
  qed
qed


lemma heap_malloc_ok:
  assumes inv: "heap_ok e h A" and st: "hp_stream h" and fr: "fresh_chunks h A [c1, c2]" and walk: "\<And>x. he_walker e x"
    and sz: "0 < sz" "sz + 8272 < 2 ^ 32" and r: "abs_passes e h (heap_need h sz) [c1, c2] A = (r, A')"
  shows "\<exists>h'. heap_malloc e (w32 c1) (w32 c2) (w32 sz) ab desc h = Some (case r of None \<Rightarrow> 0 | Some a \<Rightarrow> w32 (a + 76), h') \<and>
    heap_ok e h' A' \<and> same_params h h' \<and> alloc_result e h (heap_need h sz) A r A'"
proof -
  from heap_lock_ok [OF inv] obtain h1 where h1: "heap_lock h = Some h1" "heap_inv e h1 A {} True" "hp_options h1 = hp_options h"
    "hp_chunkSize h1 = hp_chunkSize h" "heap_unlock h1 = h" "hp_mem h1 = hp_mem h" "hp_stream h1 = hp_stream h" by blast
  have pr: "same_params h h1" using h1 by (simp add: same_params_def)
  note P = same_paramsD [OF pr]
  have ov: "overhead h \<le> 4172" by (simp add: overhead_def)
  have gp: "seg_gap h k \<le> 4096" for k by (simp add: seg_gap_def)
  note nb = heap_need_bounds [where sz = sz and h = h]
  have "\<exists>h'. heap_passes e (map w32 [c1, c2]) (w32 (heap_need h sz)) ab desc h1 = Some (case r of None \<Rightarrow> 0 | Some a \<Rightarrow> w32 (a + 76), h') \<and>
      heap_ok e h' A' \<and> same_params h1 h' \<and> alloc_result e h1 (heap_need h sz) A r A'"
  proof (rule heap_passes_ok [OF h1(2) _ _ walk])
    show "hp_stream h1" using st P by simp
    show "fresh_chunks h1 A [c1, c2]" using fr unfolding fresh_chunks_cong [OF refl pr] .
    show "overhead h1 < heap_need h sz" using nb(1) sz(1) unfolding P by linarith
    show "seg_gap h1 (heap_need h sz) + heap_need h sz < 2 ^ 32" using nb(2) gp [of "heap_need h sz"] sz(2) ov unfolding P by linarith
    show "abs_passes e h1 (heap_need h sz) [c1, c2] A = (r, A')" using r unfolding abs_passes_params [OF pr] .
  qed
  then obtain h' where h': "heap_passes e [w32 c1, w32 c2] (w32 (heap_need h sz)) ab desc h1 = Some (case r of None \<Rightarrow> 0 | Some a \<Rightarrow> w32 (a + 76), h')"
    "heap_ok e h' A'" "same_params h1 h'" "alloc_result e h1 (heap_need h sz) A r A'" by auto
  have hs: "heap_size h1 (w32 sz) = w32 (heap_need h sz)"
    using heap_size_eq [OF heap_invD(1) [OF h1(2)], of sz] sz(2) by (simp add: P)
  have "w32 sz \<noteq> 0" using sz by (intro w32_nz) auto
  then have "heap_malloc e (w32 c1) (w32 c2) (w32 sz) ab desc h = Some (case r of None \<Rightarrow> 0 | Some a \<Rightarrow> w32 (a + 76), h')"
    using h1(1) h'(1) hs by (simp only: heap_malloc_def if_False Option.bind.simps)
  moreover have "alloc_result e h (heap_need h sz) A r A'" using h'(4) by (simp only: alloc_result_def heap_live_params [OF pr])
  moreover have "same_params h h'" using pr h'(3) by (simp add: same_params_def)
  ultimately show ?thesis using h'(2) by blast
qed

text \<open>A request that fits in an empty chunk is met.\<close>

definition chunk_room_for :: "heap_env \<Rightarrow> heap \<Rightarrow> nat \<Rightarrow> bool" where
  "chunk_room_for e h sz \<longleftrightarrow> seg_gap h (heap_need h sz) + heap_need h sz + hdsize e + 4096 \<le> csize h"

lemma abs_alloc_append_new:
  assumes "abs_alloc e h n A = None" "seg_gap h n + n + hdsize e + 4096 \<le> csize h"
  shows "abs_alloc e h n (A @ [(c, new_segs e h c)]) \<noteq> None"
  using assms(1)
proof (induction A)
  case Nil
  have "first_at e h c \<le> c + hdsize e + 4096" by (rule first_at_bounds)
  then show ?case using assms(2) by simp
next
  case (Cons x A)
  then show ?case by (cases x) (auto split: option.splits)
qed

lemma abs_passes_succeeds:
  assumes "chunk_room_for e h sz"
  shows "\<exists>a A'. abs_passes e h (heap_need h sz) [c1, c2] A = (Some a, A')"
proof (cases "abs_alloc e h (heap_need h sz) A")
  case None
  with assms show ?thesis using abs_alloc_append_new [OF None, of c1] by (auto simp: chunk_room_for_def)
qed auto

section \<open>Release\<close>

definition abs_free :: "heap_env \<Rightarrow> heap \<Rightarrow> nat \<Rightarrow> heap_abs \<Rightarrow> heap_abs" where
  "abs_free e h a A = map (\<lambda>(c, ss). (c, if a \<in> set (used_at (first_at e h c) ss) then seg_free (first_at e h c) a ss else ss)) A"

lemma live_coalesce: "live_at p (coalesce ss) = live_at p ss"
proof (induction ss arbitrary: p)
  case (Cons s ss)
  then show ?case
  proof (cases s)
    case (Free n)
    have "live_at (p + n) (coalesce ss) = live_at (p + n) ss" by (rule Cons.IH)
    then show ?thesis using Free by (auto split: list.split seg.split simp: add.assoc)
  qed simp
qed simp

lemma live_seg_free:
  assumes "segs_ok h c p ss" "(a, n) \<in> set (live_at p ss)"
  shows "set (live_at p (seg_free p a ss)) = {l \<in> set (live_at p ss). fst l \<noteq> a}"
proof -
  obtain pre g post where s: "ss = pre @ [Used g n] @ post" "a = p + seg_total pre + g" by (rule live_at_split [OF assms(2)])
  have m: "seg_mark p a ss = pre @ [Free (g + n)] @ post" using seg_mark_at [of h c p pre g n post a] assms(1) s by simp
  have b: "overhead h < n" "segs_ok h c p pre" "segs_ok h c (p + seg_total pre + g + n) post" using assms(1) s(1) by (auto simp: add.assoc)
  have "x < a" if "x \<in> set (used_at p pre)" for x using used_at_bounds [OF b(2) that] s(2) by simp
  moreover have "a < x" if "x \<in> set (used_at (p + seg_total pre + g + n) post)" for x using used_at_bounds [OF b(3) that] s(2) b(1) by simp
  ultimately have "\<forall>l\<in>set (live_at p pre) \<union> set (live_at (p + seg_total pre + g + n) post). fst l \<noteq> a" by (fastforce simp: used_at_live)
  then show ?thesis unfolding seg_free_def live_coalesce m unfolding s(1) by (auto simp: s(2) add.assoc)
qed

text \<open>The chunk an address lies in.\<close>

lemma allocIsWithinLoop_ok:
  assumes "heap_inv e h (B @ C) X lk" "(c, ss) \<in> set C" "c \<le> a" "a < c + csize h" "it = (case C of [] \<Rightarrow> 0 | (d, ts) # _ \<Rightarrow> w32 d)"
  shows "allocIsWithinLoop (w32 a) it h = Some (Some (w32 c))"
  using assms
proof (induction C arbitrary: B it)
  case (Cons ch C)
  obtain d ts where ch: "ch = (d, ts)" by (cases ch)
  have inv: "heap_inv e h (B @ (d, ts) # C) X lk" using Cons.prems(1) ch by simp
  obtain n where n: "l_get (hp_chunks h) (w32 d) = Some n" "ck_magic (ln_obj n) = HEAP_CHUNK_MAGIC" "w32 d \<noteq> 0"
    "ln_next n = (case C of [] \<Rightarrow> 0 | (d, ts) # _ \<Rightarrow> w32 d)" by (rule heap_chunk_next [OF inv])
  have okc: "chunk_ok e h c ss" and okd: "chunk_ok e h d ts" using heap_invD(5) [OF Cons.prems(1)] Cons.prems(2) ch by auto
  note cb = chunk_bounds [OF okc] and db = chunk_bounds [OF okd]
  have w: "w32 d + hp_chunkSize h = w32 (d + csize h)" by simp
  have inn: "(w32 a < w32 d \<or> w32 a \<ge> w32 d + hp_chunkSize h) \<longleftrightarrow> (a < d \<or> d + csize h \<le> a)"
    unfolding w using cb(2) db(2) Cons.prems(4) by (simp add: w32_less_iff w32_le_iff del: of_nat_add)
  show ?case
  proof (cases "d = c")
    case True
    then show ?thesis using Cons.prems(3,4,5) ch n(3) inn by (subst allocIsWithinLoop.simps) simp
  next
    case False
    then have "(c, ss) \<in> set C" using Cons.prems(2) ch by simp
    moreover have "c \<in> set (map fst (B @ (d, ts) # C))" "d \<in> set (map fst (B @ (d, ts) # C))" using calculation by force+
    then have "apart h c d" using heap_invD(6) [OF inv] False by blast
    then have "a < d \<or> d + csize h \<le> a" using Cons.prems(3,4) by (auto simp: apart_def)
    moreover have "allocIsWithinLoop (w32 a) (ln_next n) h = Some (Some (w32 c))"
      by (rule Cons.IH [of "B @ [(d, ts)]"]) (use inv calculation(1) Cons.prems(3,4) n(4) in simp_all)
    ultimately show ?thesis using Cons.prems(5) ch n inn by (subst allocIsWithinLoop.simps) simp
  qed
qed simp


lemma abs_free_chunk:
  assumes inv: "heap_inv e h (B @ (c, ss) # C) X lk" and a: "(a, n) \<in> set (live_at (first_at e h c) ss)"
  shows "abs_free e h a (B @ (c, ss) # C) = B @ (c, seg_free (first_at e h c) a ss) # C"
proof -
  have ok: "chunk_ok e h c ss" by (rule heap_invD(5) [OF inv]) simp
  have b: "first_at e h c \<le> a" "a < c + csize h" using live_bounds [OF ok a] by auto
  have "a \<notin> set (used_at (first_at e h d) ts)" if "(d, ts) \<in> set B \<union> set C" for d ts
  proof
    assume "a \<in> set (used_at (first_at e h d) ts)"
    then obtain m where "(a, m) \<in> set (live_at (first_at e h d) ts)" by (auto simp: used_at_live)
    then have "(a, m) \<in> heap_live e h (B @ C)" using that by (auto simp: heap_live_def)
    from heap_live_elsewhere [OF inv b this] show False by simp
  qed
  moreover have "a \<in> set (used_at (first_at e h c) ss)" using a by (force simp: used_at_live)
  ultimately show ?thesis by (auto simp: abs_free_def intro!: map_idI)
qed

text \<open>Everything \<open>free\<close> checks holds for an allocation in use.\<close>

lemma heap_free_checks:
  assumes inv: "heap_ok e h A" and l: "(a, n) \<in> heap_live e h A"
  obtains c ss al where "(c, ss) \<in> set A" "(a, n) \<in> set (live_at (first_at e h c) ss)" "l_get (hp_allocs h) (w32 a) = Some al" "al_parent (ln_obj al) = w32 c"
    "al_nBytes (ln_obj al) = w32 n" "heap_free e (w32 (a + 76)) fr h =
      do { (_, as, l) \<leftarrow> pl_remove (w32 a) (hp_allocs h) (hp_allocList h);
           let h = h\<lparr>hp_allocs := as, hp_allocList := l\<rparr>;
           (err, h) \<leftarrow> (if opt OPT_GUARD_PAGED h then unsetGuardPage e (w32 a + w32 n - hp_pageSize h) h else Some (ERROR_SUCCESS, h));
           if err \<noteq> ERROR_SUCCESS then Some h
           else do { h \<leftarrow> heap_lock h; h \<leftarrow> chunk_free e (w32 c) (w32 a) fr h; Some (heap_unlock h) } }"
proof -
  obtain c ss al where al: "(c, ss) \<in> set A" "(a, n) \<in> set (live_at (first_at e h c) ss)" "l_get (hp_allocs h) (w32 a) = Some al"
    "al_nBytes (ln_obj al) = w32 n" "al_parent (ln_obj al) = w32 c" "al_magic (ln_obj al) = HEAP_ALLOC_MAGIC" "overhead h < n" "a + n < 2 ^ 32" "w32 a \<noteq> 0"
    "guarded h \<longrightarrow> check_aligned (ln_obj al) (w32 a) h" by (rule live_header [OF inv l])
  note I = heap_invD [OF inv]
  have ok: "chunk_ok e h c ss" by (rule I(5) [OF al(1)])
  have b: "c \<le> a" "a < c + csize h" using live_bounds [OF ok al(2)] chunk_bounds(3) [OF ok] by auto
  have nz: "w32 n \<noteq> 0" using al(7,8) by (intro w32_nz) auto
  have cz: "w32 c \<noteq> 0" using chunk_bounds [OF ok] by (intro w32_nz) auto
  obtain w where within: "(if opt OPT_CHECK_HEAP_RANGES_ON_FREE h then do { h \<leftarrow> heap_lock h; allocIsWithinHeap (w32 a) h } else Some (Some 0)) = Some (Some w)"
  proof -
    from heap_lock_ok [OF inv] obtain h1 where h1: "heap_lock h = Some h1" "heap_inv e h1 A {} True" "hp_chunkSize h1 = hp_chunkSize h" by blast
    have "allocIsWithinHeap (w32 a) h1 = Some (Some (w32 c))"
      unfolding allocIsWithinHeap_def
      by (rule allocIsWithinLoop_ok [of e h1 "[]" A _ _ c ss]) (use h1 al(1) b first_chunk [OF heap_invD(2) [OF h1(2)]] in simp_all)
    then show thesis using that [of "if opt OPT_CHECK_HEAP_RANGES_ON_FREE h then w32 c else 0"] h1(1) by simp
  qed
  obtain xs where xs: "pl_rep (hp_allocs h) (hp_allocList h) xs" "set xs = (w32 \<circ> fst) ` listed e h A {}" using inv unfolding heap_inv_def by blast
  have "(a, n) \<in> listed e h A {}" using l by (simp add: listed_def)
  then have "w32 a \<in> set xs" using xs(2) by force
  then have f1: "(if opt OPT_CHECK_ALLOCS_ON_FREE h then pl_find False (w32 a) (hp_allocs h) (hp_allocList h) else Some True) = Some True" using pl_find_rep [OF xs(1) al(9), of False] I(4) by simp
  have "w32 c \<in> set (map (w32 \<circ> fst) A)" using al(1) by force
  then have f2: "pl_find False (w32 c) (hp_chunks h) (hp_chunkList h) = Some True" using pl_find_rep [OF I(2) cz, of False] I(3) by simp
  have p: "w32 (a + 76) - sizeof_Allocation = w32 a" by simp
  have gu: "(opt OPT_GUARD_PAGED h \<and> \<not> check_aligned (ln_obj al) (w32 a) h) = False" using al(10) by simp
  show thesis
  proof (rule that [OF al(1,2,3,5,4)])
    show "heap_free e (w32 (a + 76)) fr h =
      do { (_, as, l) \<leftarrow> pl_remove (w32 a) (hp_allocs h) (hp_allocList h);
           let h = h\<lparr>hp_allocs := as, hp_allocList := l\<rparr>;
           (err, h) \<leftarrow> (if opt OPT_GUARD_PAGED h then unsetGuardPage e (w32 a + w32 n - hp_pageSize h) h else Some (ERROR_SUCCESS, h));
           if err \<noteq> ERROR_SUCCESS then Some h
           else do { h \<leftarrow> heap_lock h; h \<leftarrow> chunk_free e (w32 c) (w32 a) fr h; Some (heap_unlock h) } }"
      by (simp only: heap_free_def p Let_def al(3) Option.bind.simps al(4,5,6) within f1 f2 gu nz option.distinct simp_thms if_False if_True)
  qed
qed


text \<open>Allocations in use do not overlap.\<close>

lemma live_at_disjoint:
  "segs_ok h c p ss \<Longrightarrow> (a, n) \<in> set (live_at p ss) \<Longrightarrow> (b, m) \<in> set (live_at p ss) \<Longrightarrow> a \<noteq> b \<Longrightarrow> a + n \<le> b \<or> b + m \<le> a"
proof (induction p ss rule: live_at.induct)
  case (3 p g k ss)
  have "p + g + k \<le> x" if "(x, y) \<in> set (live_at (p + g + k) ss)" for x y
  proof -
    have "x \<in> set (used_at (p + g + k) ss)" using that by (force simp: used_at_live)
    then show ?thesis using used_at_bounds [of h c "p + g + k" ss x] 3(2) by (simp add: add.assoc)
  qed
  with 3 show ?case by (auto simp: add.assoc)
qed auto

lemma heap_live_disjoint:
  assumes inv: "heap_inv e h A X lk" and l: "(a, n) \<in> heap_live e h A" "(b, m) \<in> heap_live e h A" "a \<noteq> b"
  shows "a + n \<le> b \<or> b + m \<le> a"
proof -
  obtain c ss where c: "(c, ss) \<in> set A" "(a, n) \<in> set (live_at (first_at e h c) ss)" using l(1) by (auto simp: heap_live_def)
  obtain d ts where d: "(d, ts) \<in> set A" "(b, m) \<in> set (live_at (first_at e h d) ts)" using l(2) by (auto simp: heap_live_def)
  have okc: "chunk_ok e h c ss" and okd: "chunk_ok e h d ts" using heap_invD(5) [OF inv] c(1) d(1) by auto
  show ?thesis
  proof (cases "c = d")
    case True
    have "distinct (map fst A)" using heap_invD(2) [OF inv] by (auto simp: pl_rep_def distinct_map inj_on_def)
    then have "ss = ts" using c(1) d(1) True by (metis eq_key_imp_eq_value)
    then show ?thesis using live_at_disjoint [of h c "first_at e h c" ss] okc c(2) d(2) l(3) True by (simp add: chunk_ok_def)
  next
    case False
    have "c \<in> set (map fst A)" "d \<in> set (map fst A)" using c(1) d(1) by force+
    then have "apart h c d" using heap_invD(6) [OF inv] False by blast
    then show ?thesis using live_bounds [OF okc c(2)] live_bounds [OF okd d(2)] chunk_bounds [OF okc] chunk_bounds [OF okd] by (auto simp: apart_def)
  qed
qed

lemma guard_of_other:
  assumes inv: "heap_inv e h A X lk" and g: "guarded h" and l: "(a, n) \<in> heap_live e h A" "(b, m) \<in> heap_live e h A" "a \<noteq> b"
  shows "guard_of (b, m) \<noteq> guard_of (a, n)"
proof -
  obtain c ss where a: "overhead h < n" "a + n < 2 ^ 32" by (rule heap_live_bounds [OF inv l(1)])
  obtain d ts where b: "overhead h < m" "b + m < 2 ^ 32" by (rule heap_live_bounds [OF inv l(2)])
  have "a + n - 4096 \<noteq> b + m - 4096" using heap_live_disjoint [OF inv l] a b g by (auto simp: overhead_def)
  then show ?thesis using a b by (simp add: guard_of_def w32_eq_iff)
qed

lemma guards_remove:
  assumes inv: "heap_inv e h A {} lk" and l: "(a, n) \<in> heap_live e h A" and g: "guarded h"
  shows "hp_guards h - {guard_of (a, n)} = guard_of ` listed e h A {a}"
proof -
  have "hp_guards h = guard_of ` listed e h A {}" using inv g unfolding heap_inv_def by simp
  moreover have "guard_of (a, n) \<notin> guard_of ` listed e h A {a}"
    using guard_of_other [OF inv g l] by (auto simp: listed_def) blast
  ultimately show ?thesis unfolding listed_insert [OF inv l] by auto
qed

lemma heap_free_ok:
  assumes inv: "heap_ok e h A" and l: "(a, n) \<in> heap_live e h A" and walk: "\<And>x. he_walker e x"
  shows "\<exists>h'. heap_free e (w32 (a + 76)) fr h = Some h' \<and> heap_ok e h' (abs_free e h a A) \<and> same_params h h' \<and>
    heap_live e h (abs_free e h a A) = heap_live e h A - {(a, n)}"
proof -
  obtain c ss al where al: "(c, ss) \<in> set A" "(a, n) \<in> set (live_at (first_at e h c) ss)" "l_get (hp_allocs h) (w32 a) = Some al" "al_parent (ln_obj al) = w32 c"
    "al_nBytes (ln_obj al) = w32 n" and run: "heap_free e (w32 (a + 76)) fr h =
      do { (_, as, l) \<leftarrow> pl_remove (w32 a) (hp_allocs h) (hp_allocList h);
           let h = h\<lparr>hp_allocs := as, hp_allocList := l\<rparr>;
           (err, h) \<leftarrow> (if opt OPT_GUARD_PAGED h then unsetGuardPage e (w32 a + w32 n - hp_pageSize h) h else Some (ERROR_SUCCESS, h));
           if err \<noteq> ERROR_SUCCESS then Some h
           else do { h \<leftarrow> heap_lock h; h \<leftarrow> chunk_free e (w32 c) (w32 a) fr h; Some (heap_unlock h) } }"
    by (rule heap_free_checks [OF inv l])
  note I = heap_invD [OF inv]
  obtain d ts where bn: "overhead h < n" "a + n < 2 ^ 32" "0 < a" by (rule heap_live_bounds [OF inv l])
  obtain xs where xs: "pl_rep (hp_allocs h) (hp_allocList h) xs" "set xs = (w32 \<circ> fst) ` listed e h A {}" using inv unfolding heap_inv_def by blast
  have az: "w32 a \<noteq> 0" using bn by (intro w32_nz) auto
  from pl_remove_rep [OF xs(1) az I(4)] obtain as li where rm: "pl_remove (w32 a) (hp_allocs h) (hp_allocList h) = Some (w32 a \<in> set xs, as, li)"
    "pl_to (set xs) (hp_allocs h) (hp_allocList h) (remove1 (w32 a) xs) (as, li)" by auto
  have "w32 a \<notin> (w32 \<circ> fst) ` listed e h A {a}"
  proof
    assume "w32 a \<in> (w32 \<circ> fst) ` listed e h A {a}"
    then obtain b m where b: "(b, m) \<in> heap_live e h A" "b \<noteq> a" "w32 a = w32 b" by (auto simp: listed_def)
    obtain d ts where "b + m < 2 ^ 32" by (rule heap_live_bounds [OF inv b(1)])
    then show False using b bn by (simp add: w32_eq_iff)
  qed
  moreover have "set xs = insert (w32 a) ((w32 \<circ> fst) ` listed e h A {a})" unfolding xs(2) listed_insert [OF inv l] by simp
  moreover have "distinct xs" using xs(1) by (simp add: pl_rep_def)
  ultimately have ys: "set (remove1 (w32 a) xs) = (w32 \<circ> fst) ` listed e h A {a}" by (simp add: set_remove1_eq)
  let ?gs = "if guarded h then guard_of ` listed e h A {a} else {}"
  let ?h1 = "h\<lparr>hp_guards := ?gs, hp_allocs := as, hp_allocList := li\<rparr>"
  have inv1: "heap_inv e ?h1 A {a} False" by (rule heap_inv_listed [OF inv rm(2) ys refl])
  have pr1: "same_params h ?h1" by (simp add: same_params_def)
  have hg: "\<not> guarded h \<Longrightarrow> hp_guards h = {}" using inv unfolding heap_inv_def by simp
  have pg: "hp_pageSize h = 4096" using I(1) by (simp add: heap_geom_def)
  have go: "guard_of (a, n) = w32 a + w32 n - 4096" if "guarded h" using bn(1) that by (simp add: guard_of_def overhead_def of_nat_diff)
  have un: "(if opt OPT_GUARD_PAGED (h\<lparr>hp_allocs := as, hp_allocList := li\<rparr>)
      then unsetGuardPage e (w32 a + w32 n - hp_pageSize (h\<lparr>hp_allocs := as, hp_allocList := li\<rparr>)) (h\<lparr>hp_allocs := as, hp_allocList := li\<rparr>)
      else Some (ERROR_SUCCESS, h\<lparr>hp_allocs := as, hp_allocList := li\<rparr>)) = Some (ERROR_SUCCESS, ?h1)"
  proof (cases "guarded h")
    case True
    then show ?thesis using guards_remove [OF inv l True] go walk pg by (simp add: unsetGuardPage_def opt_def)
  next
    case False
    then show ?thesis using hg by (simp add: opt_def)
  qed
  from heap_lock_ok [OF inv1] obtain h2 where h2: "heap_lock ?h1 = Some h2" "heap_inv e h2 A {a} True" "hp_options h2 = hp_options ?h1"
    "hp_chunkSize h2 = hp_chunkSize ?h1" "hp_mem h2 = hp_mem ?h1" "hp_stream h2 = hp_stream ?h1" by blast
  have pr2: "same_params h h2" using h2 by (simp add: same_params_def)
  note P = same_paramsD [OF pr2]
  obtain B C where A: "A = B @ (c, ss) # C" using al(1) by (meson split_list)
  have ok: "chunk_ok e h2 c ss" by (rule heap_invD(5) [OF h2(2) al(1)])
  have "a \<in> set (used_at (first_at e h2 c) ss)" using al(2) by (force simp: used_at_live P)
  from chunk_free_ok [OF ok heap_invD(1) [OF h2(2)] this, of fr] obtain h3 where h3: "chunk_free e (w32 c) (w32 a) fr h2 = Some h3"
    "chunk_ok e h3 c (seg_free (first_at e h c) a ss)" "chunk_step e c (set (used_at (first_at e h2 c) (seg_free (first_at e h c) a ss))) h2 h3"
    unfolding P by blast
  have so: "segs_ok h2 c (first_at e h c) ss" using ok by (simp add: chunk_ok_def P)
  note lv = live_seg_free [OF so al(2)]
  have el: "\<forall>x\<in>heap_live e h2 (B @ C). fst x \<noteq> a"
    using heap_live_elsewhere [OF h2(2) [unfolded A], of a] live_bounds [OF ok, of a n] al(2) bn(1) by (auto simp: P)
  have "listed e h2 (B @ (c, seg_free (first_at e h c) a ss) # C) {} = listed e h2 (B @ (c, ss) # C) {a}"
    using el lv unfolding listed_chunk P by auto
  then have "heap_inv e h3 (B @ (c, seg_free (first_at e h c) a ss) # C) {} True"
    by (rule heap_chunk_step [OF h2(2) [unfolded A] h3(2,3), rotated]) (use lv in \<open>force simp: used_at_live P\<close>)
  from heap_unlock_ok [OF this] have ok4: "heap_ok e (heap_unlock h3) (abs_free e h a A)"
    unfolding A by (simp only: abs_free_chunk [OF inv [unfolded A] al(2)])
  have "heap_live e h (abs_free e h a A) = heap_live e h A - {(a, n)}"
  proof -
    have "x = (a, n)" if "x \<in> heap_live e h A" "fst x = a" for x using live_unique [OF inv l, of "snd x"] that by (cases x) auto
    moreover have "\<forall>x\<in>heap_live e h (B @ C). fst x \<noteq> a" using el heap_live_params [OF pr2] by simp
    ultimately show ?thesis unfolding A abs_free_chunk [OF inv [unfolded A] al(2)] heap_live_chunk lv using A by (auto simp: heap_live_chunk)
  qed
  moreover have "heap_free e (w32 (a + 76)) fr h = Some (heap_unlock h3)"
    unfolding run rm(1) Option.bind.simps prod.case Let_def un h2(1) h3(1) by simp
  moreover have "same_params h (heap_unlock h3)" using pr2 h3(3) by (simp add: same_params_def chunk_step_def eff_def heap_unlock_def)
  ultimately show ?thesis using ok4 by blast
qed

end
