(* ===== verification/HeapCheck.thy ===== *)
theory HeapCheck
  imports HeapOps
begin

text \<open>
  The consistency checks of the heap succeed, and allocating and releasing are inverse on the segments.
\<close>

section \<open>Consistency checks\<close>

lemma check_blockLoop_ok:
  assumes "chunk_ok e h c (pre @ rest)" and geo: "heap_geom e h" and "p = first_at e h c + seg_total pre"
    and "it = first_block p rest"
  shows "check_blockLoop (w32 c) (last_block (first_at e h c) pre) it h = Some ERROR_SUCCESS"
  using assms(1,3,4)
proof (induction rest arbitrary: pre p it)
  case Nil
  then show ?case by (subst check_blockLoop.simps) simp
next
  case (Cons s rest)
  let ?f = "first_at e h c"
  have IH: "check_blockLoop (w32 c) (last_block ?f (pre @ [s])) (first_block (p + seg_len s) rest) h = Some ERROR_SUCCESS"
    by (rule Cons.IH) (use Cons.prems in simp_all)
  show ?case
  proof (cases s)
    case (Used g n)
    then have "last_block ?f (pre @ [s]) = last_block ?f pre" "first_block (p + seg_len s) rest = it" using Cons.prems by (simp_all add: add.assoc)
    then show ?thesis using IH by simp
  next
    case (Free n)
    have ok: "chunk_ok e h c (pre @ [Free n] @ rest)" using Cons.prems(1) Free by simp
    obtain nd where nd: "hp_blocks h (w32 p) = Some nd" "bk_nBytes (ln_obj nd) = w32 n" "bk_parent (ln_obj nd) = w32 c"
      "bk_magic (ln_obj nd) = HEAP_BLOCK_MAGIC" "40 \<le> n" "guarded h \<longrightarrow> 4096 dvd p \<and> 4096 dvd p + n"
      "room e h c p (p + n)" "w32 p \<noteq> 0" "p + n < 2 ^ 32" by (rule free_seg_block [OF ok geo Cons.prems(2)])
    have it: "it = w32 p" using Cons.prems(3) Free by simp
    have lg: "l_get (hp_blocks h) (w32 p) = Some nd" using nd(1,8) by (simp only: l_get_def if_False)
    have nx: "ln_next nd = first_block (p + n) rest" by (rule chunk_next [OF ok Cons.prems(2) nd(1)])
    have cs: "c + csize h < 2 ^ 32" "p + n \<le> c + csize h" using nd(7) by (auto simp: room_def)
    have w: "w32 p + w32 n = w32 (p + n)" "w32 c + hp_chunkSize h = w32 (c + csize h)" by simp_all
    have le: "\<not> w32 p + w32 n > w32 c + hp_chunkSize h" unfolding w using cs by (subst w32_less_iff) auto
    have pv: "(if last_block ?f pre \<noteq> 0 \<and> w32 p < last_block ?f pre then Some ERROR_GENERAL
      else if last_block ?f pre \<noteq> 0 \<and> w32 p = last_block ?f pre then Some ERROR_DUPLICATE
      else if last_block ?f pre \<noteq> 0 then do { q \<leftarrow> l_get (hp_blocks h) (last_block ?f pre);
        Some (if last_block ?f pre + bk_nBytes (ln_obj q) \<ge> w32 p then ERROR_UNKNOWN else ERROR_SUCCESS) }
      else Some ERROR_SUCCESS) = Some ERROR_SUCCESS"
    proof (cases "free_at ?f pre = []")
      case False
      obtain ndp m z where z: "last_block ?f pre = w32 z" "w32 z \<noteq> 0" "hp_blocks h (w32 z) = Some ndp" "bk_nBytes (ln_obj ndp) = w32 m"
        "0 < m" "z + m \<le> ?f + seg_total pre" "\<not> is_free (last pre) \<longrightarrow> z + m < ?f + seg_total pre" "0 < z" "z + m < 2 ^ 32"
        by (rule prev_block [OF ok geo False])
      have "pre \<noteq> []" using False by auto
      then have "\<not> is_free (last pre)" using ok by (auto simp: chunk_ok_def no_adj_append)
      then have zp: "z + m < p" using z(7) Cons.prems(2) by simp
      have zl: "z < 2 ^ 32" "p < 2 ^ 32" "z < p" using zp nd(9) by linarith+
      have lz: "l_get (hp_blocks h) (w32 z) = Some ndp" using z(2,3) by (simp only: l_get_def if_False)
      have wz: "w32 z + w32 m = w32 (z + m)" by simp
      have c1: "\<not> w32 p < w32 z" "w32 p \<noteq> w32 z" using zl by (simp_all add: w32_less_iff w32_eq_iff)
      have c2: "\<not> w32 p \<le> w32 z + w32 m" unfolding wz using zp z(9) zl by (subst w32_le_iff) auto
      show ?thesis unfolding z(1) using z(2,4) lz c1 c2 by simp
    qed simp
    have "check_block (w32 c) (last_block ?f pre) (w32 p) h = Some ERROR_SUCCESS"
      unfolding check_block_def lg Option.bind.simps Let_def nd(2,3,4) using le pv by simp
    moreover have "last_block ?f (pre @ [s]) = w32 p" "p + seg_len s = p + n" using Free Cons.prems(2) by simp_all
    ultimately show ?thesis using IH nd(8) lg nx unfolding it by (subst check_blockLoop.simps) simp
  qed
qed

lemma check_chunkLoop_ok:
  assumes "heap_inv e h (B @ C) X lk" "it = (case C of [] \<Rightarrow> 0 | (d, ts) # _ \<Rightarrow> w32 d)"
  shows "check_chunkLoop it h = Some ERROR_SUCCESS"
  using assms
proof (induction C arbitrary: B it)
  case Nil
  then show ?case by (subst check_chunkLoop.simps) simp
next
  case (Cons ch C)
  obtain d ts where ch: "ch = (d, ts)" by (cases ch)
  have inv: "heap_inv e h (B @ (d, ts) # C) X lk" using Cons.prems(1) ch by simp
  have ok: "chunk_ok e h d ts" by (rule heap_invD(5) [OF inv]) simp
  obtain n where n: "hp_chunks h (w32 d) = Some n" "ck_magic (ln_obj n) = HEAP_CHUNK_MAGIC" "w32 d \<noteq> 0"
    "lpath (hp_blocks h) (pl_head (ck_blocks (ln_obj n))) (map w32 (free_at (first_at e h d) ts)) 0" by (rule chunk_ok_path [OF ok])
  obtain n' where n': "l_get (hp_chunks h) (w32 d) = Some n'" "ck_magic (ln_obj n') = HEAP_CHUNK_MAGIC" "w32 d \<noteq> 0"
    "ln_next n' = (case C of [] \<Rightarrow> 0 | (d, ts) # _ \<Rightarrow> w32 d)" by (rule heap_chunk_next [OF inv])
  have "n' = n" using n n' by (simp add: l_get_def)
  have bl: "check_blockLoop (w32 d) 0 (pl_head (ck_blocks (ln_obj n))) h = Some ERROR_SUCCESS"
    using check_blockLoop_ok [of e h d "[]" ts, OF _ heap_invD(1) [OF inv] _ lpath_first [OF n(4)]] ok by simp
  have "check_chunkLoop (ln_next n) h = Some ERROR_SUCCESS"
    by (rule Cons.IH [of "B @ [(d, ts)]"]) (use inv n'(4) \<open>n' = n\<close> in simp_all)
  then show ?case using Cons.prems(2) ch n n'(1) \<open>n' = n\<close> bl by (subst check_chunkLoop.simps) simp
qed

lemma checkBlocks_ok:
  assumes "heap_ok e h A"
  shows "checkBlocks h = Some (ERROR_SUCCESS, h)"
proof -
  from heap_lock_ok [OF assms] obtain h1 where h1: "heap_lock h = Some h1" "heap_inv e h1 A {} True" "heap_unlock h1 = h" by blast
  have "check_chunkLoop (pl_head (hp_chunkList h1)) h1 = Some ERROR_SUCCESS"
    by (rule check_chunkLoop_ok [of e h1 "[]" A]) (use h1(2) first_chunk [OF heap_invD(2) [OF h1(2)]] in simp_all)
  then show ?thesis using h1 by (simp add: checkBlocks_def)
qed

lemma count_allocs_ok:
  assumes "heap_inv e h (B @ C) X lk" "it = (case C of [] \<Rightarrow> 0 | (d, ts) # _ \<Rightarrow> w32 d)"
  shows "count_allocs it k h = Some (Some (k + of_nat (length (concat (map (\<lambda>(c, ss). live_at (first_at e h c) ss) C)))))"
  using assms
proof (induction C arbitrary: B it k)
  case Nil
  then show ?case by (subst count_allocs.simps) simp
next
  case (Cons ch C)
  obtain d ts where ch: "ch = (d, ts)" by (cases ch)
  have inv: "heap_inv e h (B @ (d, ts) # C) X lk" using Cons.prems(1) ch by simp
  have ok: "chunk_ok e h d ts" by (rule heap_invD(5) [OF inv]) simp
  obtain n where n: "l_get (hp_chunks h) (w32 d) = Some n" "ck_magic (ln_obj n) = HEAP_CHUNK_MAGIC" "w32 d \<noteq> 0"
    "ln_next n = (case C of [] \<Rightarrow> 0 | (d, ts) # _ \<Rightarrow> w32 d)" by (rule heap_chunk_next [OF inv])
  have "chunk_hd h d (length (used_at (first_at e h d) ts)) (map w32 (free_at (first_at e h d) ts))" using ok by (simp add: chunk_ok_def)
  then have na: "ck_nAllocations (ln_obj n) = of_nat (length (live_at (first_at e h d) ts))"
    using n(1,3) by (auto simp: chunk_hd_def l_get_def used_at_live)
  have "count_allocs (ln_next n) (k + ck_nAllocations (ln_obj n)) h =
      Some (Some (k + ck_nAllocations (ln_obj n) + of_nat (length (concat (map (\<lambda>(c, ss). live_at (first_at e h c) ss) C)))))"
    by (rule Cons.IH [of "B @ [(d, ts)]"]) (use inv n(4) in simp_all)
  then show ?case using Cons.prems(2) ch n(1-3) na by (subst count_allocs.simps) (simp add: algebra_simps)
qed


abbreviation live_list :: "heap_env \<Rightarrow> heap \<Rightarrow> heap_abs \<Rightarrow> (nat \<times> nat) list" where
  "live_list e h C \<equiv> concat (map (\<lambda>(c, ss). live_at (first_at e h c) ss) C)"

lemma set_live_list: "set (live_list e h C) = heap_live e h C"
  by (auto simp: heap_live_def)

lemma live_at_distinct: "segs_ok h c p ss \<Longrightarrow> distinct (live_at p ss)"
proof (induction p ss rule: live_at.induct)
  case (3 p g n ss)
  have "0 < n" "segs_ok h c (p + g + n) ss" using 3(2) by (auto simp: add.assoc)
  moreover have "p + g + n \<le> x" if "(x, y) \<in> set (live_at (p + g + n) ss)" for x y
    using used_at_bounds [OF calculation(2), of x] that by (force simp: used_at_live)
  ultimately show ?case using 3(1) by fastforce
qed auto

lemma live_list_distinct:
  assumes "heap_inv e h (B @ C) X lk"
  shows "distinct (live_list e h C)"
  using assms
proof (induction C arbitrary: B)
  case (Cons ch C)
  obtain d ts where ch: "ch = (d, ts)" by (cases ch)
  have inv: "heap_inv e h (B @ (d, ts) # C) X lk" using Cons.prems(1) ch by simp
  have ok: "chunk_ok e h d ts" by (rule heap_invD(5) [OF inv]) simp
  have "distinct (live_list e h C)" by (rule Cons.IH [of "B @ [(d, ts)]"]) (use inv in simp)
  moreover have "distinct (live_at (first_at e h d) ts)" by (rule live_at_distinct [of h d]) (use ok in \<open>simp add: chunk_ok_def\<close>)
  moreover have "set (live_at (first_at e h d) ts) \<inter> heap_live e h C = {}"
  proof (rule ccontr)
    assume "set (live_at (first_at e h d) ts) \<inter> heap_live e h C \<noteq> {}"
    then obtain a n where an: "(a, n) \<in> set (live_at (first_at e h d) ts)" "(a, n) \<in> heap_live e h C" by auto
    then have "(a, n) \<in> heap_live e h (B @ C)" by (auto simp: heap_live_def)
    then show False using heap_live_elsewhere [OF inv, of a "(a, n)"] live_bounds [OF ok an(1)] by simp
  qed
  ultimately show ?case using ch by (simp add: set_live_list [symmetric])
qed simp

lemma live_inj:
  assumes "heap_inv e h A X lk"
  shows "inj_on (w32 \<circ> fst) (heap_live e h A)"
proof (rule inj_onI)
  fix x y assume x: "x \<in> heap_live e h A" and y: "y \<in> heap_live e h A" and eq: "(w32 \<circ> fst) x = (w32 \<circ> fst) y"
  obtain a n b m where ab: "x = (a, n)" "y = (b, m)" by (cases x, cases y)
  obtain c ss where "a + n < 2 ^ 32" by (rule heap_live_bounds [OF assms x [unfolded ab]])
  moreover obtain d ts where "b + m < 2 ^ 32" by (rule heap_live_bounds [OF assms y [unfolded ab]])
  ultimately have "a = b" using eq ab by (simp add: w32_eq_iff)
  then show "x = y" using live_unique [OF assms, of a n m] x y ab by simp
qed

text \<open>The search for the chunk does not look at the list of allocations.\<close>

lemma allocIsWithinLoop_frame:
  "allocIsWithinLoop a it h = Some r \<Longrightarrow> allocIsWithinLoop a it (h\<lparr>hp_allocList := l\<rparr>) = Some r"
proof (induction a it h r rule: allocIsWithinLoop.raw_induct [rotated, consumes 1])
  case (1 loop a it h r)
  then show ?case by (subst allocIsWithinLoop.simps) (auto split: if_splits simp: bind_eq_Some_conv)
qed

lemma check_allocLoop_ok:
  assumes inv: "heap_inv e h A {} lk" and "lpath (hp_allocs h) it xs 0" "set xs \<subseteq> (w32 \<circ> fst) ` heap_live e h A"
  shows "check_allocLoop it k (h\<lparr>hp_allocList := l\<rparr>) = Some (Some (k + of_nat (length xs)))"
  using assms(2,3)
proof (induction xs arbitrary: it k)
  case Nil
  then show ?case by (subst check_allocLoop.simps) simp
next
  case (Cons x xs)
  from Cons.prems(1) obtain nd where nd: "it = x" "x \<noteq> 0" "hp_allocs h x = Some nd" "lpath (hp_allocs h) (ln_next nd) xs 0" by auto
  from Cons.prems(2) obtain a n where a: "x = w32 a" "(a, n) \<in> heap_live e h A" by auto
  obtain c ss al where al: "(c, ss) \<in> set A" "(a, n) \<in> set (live_at (first_at e h c) ss)" "l_get (hp_allocs h) (w32 a) = Some al"
    "al_nBytes (ln_obj al) = w32 n" "al_parent (ln_obj al) = w32 c" "al_magic (ln_obj al) = HEAP_ALLOC_MAGIC" "overhead h < n" "a + n < 2 ^ 32" "w32 a \<noteq> 0"
    "guarded h \<longrightarrow> check_aligned (ln_obj al) (w32 a) h" by (rule live_header [OF inv a(2)])
  note I = heap_invD [OF inv]
  have ok: "chunk_ok e h c ss" by (rule I(5) [OF al(1)])
  have b: "c \<le> a" "a < c + csize h" using live_bounds [OF ok al(2)] chunk_bounds(3) [OF ok] by auto
  have "allocIsWithinLoop (w32 a) (pl_head (hp_chunkList h)) h = Some (Some (w32 c))"
    by (rule allocIsWithinLoop_ok [of e h "[]" A _ _ c ss]) (use inv al(1) b first_chunk [OF I(2)] in simp_all)
  from allocIsWithinLoop_frame [OF this, of l] have wi: "allocIsWithinHeap (w32 a) (h\<lparr>hp_allocList := l\<rparr>) = Some (Some (w32 c))"
    by (simp add: allocIsWithinHeap_def)
  have cz: "w32 c \<noteq> 0" using chunk_bounds [OF ok] by (intro w32_nz) auto
  have "w32 c \<in> set (map (w32 \<circ> fst) A)" using al(1) by force
  then have fi: "pl_find True (w32 c) (hp_chunks h) (hp_chunkList h) = Some True" using pl_find_rep [OF I(2) cz, of True] by simp
  have "check_allocLoop (ln_next nd) (k + 1) (h\<lparr>hp_allocList := l\<rparr>) = Some (Some (k + 1 + of_nat (length xs)))"
    by (rule Cons.IH [OF nd(4)]) (use Cons.prems(2) in simp)
  moreover have "al = nd" using al(3,9) nd(3) a(1) by (simp add: l_get_def)
  ultimately show ?case using nd(1,2) a(1) wi al(3,5,6) fi by (subst check_allocLoop.simps) (simp add: algebra_simps)
qed

lemma checkAllocations_ok:
  assumes "heap_ok e h A"
  shows "checkAllocations h = Some (ERROR_SUCCESS, h)"
proof -
  from heap_lock_ok [OF assms] obtain h1 where h1: "heap_lock h = Some h1" "heap_inv e h1 A {} True" "heap_unlock h1 = h" by blast
  note I = heap_invD [OF h1(2)]
  have ct: "count_allocs (pl_head (hp_chunkList h1)) 0 h1 = Some (Some (of_nat (length (live_list e h1 A))))"
    using count_allocs_ok [of e h1 "[]" A "{}" True "pl_head (hp_chunkList h1)" 0] h1(2) first_chunk [OF I(2)] by simp
  obtain xs where xs: "pl_rep (hp_allocs h1) (hp_allocList h1) xs" "set xs = (w32 \<circ> fst) ` listed e h1 A {}" using h1(2) unfolding heap_inv_def by blast
  have li: "listed e h1 A {} = heap_live e h1 A" by (simp add: listed_def)
  have "length xs = card (set xs)" using xs(1) by (simp add: pl_rep_def distinct_card)
  also have "\<dots> = card (heap_live e h1 A)" unfolding xs(2) li by (rule card_image [OF live_inj [OF h1(2)]])
  also have "\<dots> = length (live_list e h1 A)" unfolding set_live_list [symmetric]
    by (rule distinct_card) (use live_list_distinct [of e h1 "[]" A "{}" True] h1(2) in simp)
  finally have len: "length xs = length (live_list e h1 A)" .
  let ?h2 = "h1\<lparr>hp_allocList := (hp_allocList h1)\<lparr>pl_lock := True\<rparr>\<rparr>"
  have "check_allocLoop (pl_head (hp_allocList h1)) 0 ?h2 = Some (Some (0 + of_nat (length xs)))"
    by (rule check_allocLoop_ok [OF h1(2)]) (use xs li in \<open>auto simp: pl_rep_def\<close>)
  moreover have "(hp_allocList h1)\<lparr>pl_lock := False\<rparr> = hp_allocList h1" using I(4) by (cases "hp_allocList h1") simp
  then have eq: "h1\<lparr>hp_allocList := (hp_allocList h1)\<lparr>pl_lock := False\<rparr>\<rparr> = h1" by simp
  ultimately show ?thesis using h1(1,3) ct I(4) len by (simp add: checkAllocations_def Let_def eq)
qed


section \<open>Allocating and releasing\<close>

text \<open>Releasing what was just allocated restores the segments.\<close>

lemma seg_malloc_free:
  assumes "seg_malloc g sz p ss = Some (a, ss')" "segs_ok h c p ss" "no_adj ss" "0 < sz"
  shows "seg_free p a ss' = ss"
proof -
  have "\<exists>pre n post. ss = pre @ [Free n] @ post \<and> g + sz \<le> n \<and> ss' = pre @ seg_take g sz n @ post \<and> a = p + seg_total pre + take_gap g sz n"
    using assms(1)
  proof (induction g sz p ss arbitrary: a ss' rule: seg_malloc.induct)
    case (2 g sz p n ss)
    show ?case
    proof (cases "g + sz \<le> n")
      case True
      then show ?thesis using 2(2) by (intro exI [of _ "[]"]) auto
    next
      case False
      with 2(2) obtain ss1 where s: "seg_malloc g sz (p + n) ss = Some (a, ss1)" "ss' = Free n # ss1" by auto
      from 2(1) [OF False s(1)] obtain pre m post where "ss = pre @ [Free m] @ post" "g + sz \<le> m" "ss1 = pre @ seg_take g sz m @ post"
        "a = p + n + seg_total pre + take_gap g sz m" by blast
      with s(2) show ?thesis by (intro exI [of _ "Free n # pre"]) auto
    qed
  next
    case (3 g sz p g' n ss)
    from 3(2) obtain ss1 where s: "seg_malloc g sz (p + g' + n) ss = Some (a, ss1)" "ss' = Used g' n # ss1" by auto
    from 3(1) [OF s(1)] obtain pre m post where "ss = pre @ [Free m] @ post" "g + sz \<le> m" "ss1 = pre @ seg_take g sz m @ post"
      "a = p + g' + n + seg_total pre + take_gap g sz m" by blast
    with s(2) show ?case by (intro exI [of _ "Used g' n # pre"]) auto
  qed simp
  then obtain pre n post where s: "ss = pre @ [Free n] @ post" "g + sz \<le> n" "ss' = pre @ seg_take g sz n @ post" "a = p + seg_total pre + take_gap g sz n" by blast
  have "segs_ok h c p pre" using assms(2) s(1) by simp
  then have lt: "\<forall>x\<in>set (used_at p pre). x < a" using used_at_bounds [of h c p pre] s(4) by fastforce
  have na: "no_adj pre" "no_adj post" "pre \<noteq> [] \<Longrightarrow> \<not> is_free (last pre)" "post \<noteq> [] \<Longrightarrow> \<not> is_free (hd post)"
    using assms(3) s(1) by (auto simp: no_adj_append no_adj_Cons)
  have "seg_mark p a ss' = pre @ seg_mark (p + seg_total pre) a (seg_take g sz n @ post)" unfolding s(3) by (rule seg_mark_append [OF lt])
  moreover have "coalesce (seg_mark (p + seg_total pre) a (seg_take g sz n @ post)) = Free n # post"
    using s(2,4) na(2,4) coalesce_no_adj [OF na(2)] by (cases post; cases "hd post") (auto simp: seg_take_def take_gap_def)
  ultimately show ?thesis unfolding seg_free_def s(1) using coalesce_append [OF na(1)] na(3) by simp
qed

lemma abs_alloc_new:
  assumes "abs_alloc e h n A = Some (a, A')" "heap_inv e h (B @ A) X lk" "0 < n"
  shows "\<forall>l\<in>heap_live e h (B @ A). fst l \<noteq> a"
  using assms(1,2)
proof (induction A arbitrary: A' B)
  case (Cons ch A)
  obtain c ss where ch: "ch = (c, ss)" by (cases ch)
  have inv: "heap_inv e h (B @ (c, ss) # A) X lk" using Cons.prems(2) ch by simp
  have ok: "chunk_ok e h c ss" by (rule heap_invD(5) [OF inv]) simp
  then have so: "segs_ok h c (first_at e h c) ss" "first_at e h c + seg_total ss = c + csize h" by (auto simp: chunk_ok_def)
  show ?case
  proof (cases "seg_malloc (seg_gap h n) n (first_at e h c) ss")
    case (Some r)
    then obtain ss' where s: "seg_malloc (seg_gap h n) n (first_at e h c) ss = Some (a, ss')" using Cons.prems(1) ch by (cases r) auto
    have nw: "a \<notin> set (used_at (first_at e h c) ss)" "first_at e h c \<le> a" "a < c + csize h" using seg_malloc_new [OF s so(1) assms(3)] so(2) by auto
    show ?thesis using heap_live_elsewhere [OF inv nw(2,3)] nw(1) ch by (auto simp: heap_live_chunk used_at_live)
  next
    case None
    with Cons.prems(1) ch obtain A1 where "abs_alloc e h n A = Some (a, A1)" by auto
    from Cons.IH [OF this, of "B @ [(c, ss)]"] inv ch show ?thesis by simp
  qed
qed simp

lemma used_live: "a \<in> set (used_at (first_at e h c) ss) \<Longrightarrow> (c, ss) \<in> set A \<Longrightarrow> \<exists>m. (a, m) \<in> heap_live e h A"
  by (auto simp: used_at_live heap_live_def) force

lemma abs_alloc_free:
  assumes "abs_alloc e h n A = Some (a, A')" "heap_inv e h (B @ A) X lk" "0 < n"
  shows "abs_free e h a A' = A"
  using assms(1,2)
proof (induction A arbitrary: A' B)
  case (Cons ch A)
  obtain c ss where ch: "ch = (c, ss)" by (cases ch)
  have inv: "heap_inv e h (B @ (c, ss) # A) X lk" using Cons.prems(2) ch by simp
  have ok: "chunk_ok e h c ss" by (rule heap_invD(5) [OF inv]) simp
  then have so: "segs_ok h c (first_at e h c) ss" "no_adj ss" by (auto simp: chunk_ok_def)
  note new = abs_alloc_new [OF Cons.prems assms(3)]
  have nu: "a \<notin> set (used_at (first_at e h d) ts)" if "(d, ts) \<in> set (ch # A)" for d ts
  proof
    assume "a \<in> set (used_at (first_at e h d) ts)"
    from used_live [OF this, of "B @ ch # A"] that obtain m where "(a, m) \<in> heap_live e h (B @ ch # A)" by auto
    then show False using new by force
  qed
  show ?case
  proof (cases "seg_malloc (seg_gap h n) n (first_at e h c) ss")
    case (Some r)
    then obtain ss' where s: "seg_malloc (seg_gap h n) n (first_at e h c) ss = Some (a, ss')" and A': "A' = (c, ss') # A" using Cons.prems(1) ch by (cases r) auto
    have "a \<in> set (used_at (first_at e h c) ss')" using seg_malloc_live [OF s] by (force simp: used_at_live)
    moreover have "seg_free (first_at e h c) a ss' = ss" by (rule seg_malloc_free [OF s so assms(3)])
    ultimately show ?thesis using A' ch nu by (auto simp: abs_free_def intro!: map_idI)
  next
    case None
    with Cons.prems(1) ch obtain A1 where A1: "abs_alloc e h n A = Some (a, A1)" "A' = (c, ss) # A1" by auto
    have "abs_free e h a A1 = A" by (rule Cons.IH [OF A1(1), of "B @ [(c, ss)]"]) (use inv in simp)
    then show ?thesis using A1(2) ch nu [of c ss] by (simp add: abs_free_def)
  qed
qed simp

text \<open>When nothing is in use, every chunk is one block.\<close>

lemma live_at_empty: "segs_ok h c p ss \<Longrightarrow> no_adj ss \<Longrightarrow> live_at p ss = [] \<Longrightarrow> ss = [] \<or> (\<exists>n. ss = [Free n])"
proof (cases ss)
  case (Cons s ts)
  assume a: "segs_ok h c p ss" "no_adj ss" "live_at p ss = []"
  then obtain n where n: "s = Free n" using Cons by (cases s) auto
  show ?thesis
  proof (cases ts)
    case (Cons t us)
    then show ?thesis using \<open>ss = s # ts\<close> n a by (cases t) auto
  qed (use \<open>ss = s # ts\<close> n in simp)
qed simp

lemma heap_all_free:
  assumes inv: "heap_ok e h A" and "heap_live e h A = {}" and "(c, ss) \<in> set A"
  shows "ss = new_segs e h c"
proof -
  have ok: "chunk_ok e h c ss" by (rule heap_invD(5) [OF inv assms(3)])
  have f: "first_at e h c + 40 \<le> c + csize h" using first_at_bounds(2) [of e h c] heap_invD(7) [OF inv] by linarith
  have "live_at (first_at e h c) ss = []" using assms(2,3) by (fastforce simp: heap_live_def)
  with live_at_empty [of h c "first_at e h c" ss] ok f show ?thesis by (auto simp: chunk_ok_def)
qed

end
