(* ===== verification/HeapProps.thy ===== *)
theory HeapProps
  imports HeapCheck
begin

text \<open>
  The heap as its clients see it: areas of memory that are handed out and given back.  The locale states the contract; the heap and
  every sequence of calls meet it.
\<close>

section \<open>The contract of an allocator\<close>

text \<open>\<open>holds s U\<close>: in state \<open>s\<close> the areas \<open>U\<close> (address and usable size) are in use.  \<open>offer\<close> is what the allocator may take from its source.\<close>

locale memory_allocator =
  fixes holds :: "'s \<Rightarrow> (nat \<times> nat) set \<Rightarrow> bool"
    and offer :: "'m \<Rightarrow> 's \<Rightarrow> bool"
    and get :: "'m \<Rightarrow> nat \<Rightarrow> 's \<Rightarrow> (nat \<times> 's) option"
    and put :: "nat \<Rightarrow> 's \<Rightarrow> 's option"
    and limit :: nat
  assumes get_law: "holds s U \<Longrightarrow> offer m s \<Longrightarrow> 0 < n \<Longrightarrow> n < limit \<Longrightarrow>
      \<exists>p s'. get m n s = Some (p, s') \<and>
        (if p = 0 then holds s' U else (\<exists>k\<ge>n. holds s' (insert (p, k) U)) \<and> p \<notin> fst ` U)"
    and put_law: "holds s U \<Longrightarrow> (p, k) \<in> U \<Longrightarrow> \<exists>s'. put p s = Some s' \<and> holds s' (U - {(p, k)})"
    and areas_law: "holds s U \<Longrightarrow> (p, k) \<in> U \<Longrightarrow> 0 < p \<and> 0 < k \<and> p + k < 2 ^ 32"
    and disjoint_law: "holds s U \<Longrightarrow> (p, k) \<in> U \<Longrightarrow> (q, l) \<in> U \<Longrightarrow> p \<noteq> q \<Longrightarrow> p + k \<le> q \<or> q + l \<le> p"
begin

text \<open>A new area lies apart from all others.\<close>

lemma get_disjoint:
  assumes "holds s U" "offer m s" "0 < n" "n < limit" "get m n s = Some (p, s')" "p \<noteq> 0" "(q, l) \<in> U"
  shows "p + n \<le> q \<or> q + l \<le> p"
proof -
  from get_law [OF assms(1-4)] assms(5,6) obtain k where k: "n \<le> k" "holds s' (insert (p, k) U)" "p \<notin> fst ` U" by auto
  moreover have "p \<noteq> q" using k(3) assms(7) by force
  ultimately have "p + k \<le> q \<or> q + l \<le> p" using disjoint_law [OF k(2), of p k q l] assms(7) by simp
  with k(1) show ?thesis by linarith
qed

text \<open>Giving a new area back leads to the same areas in use.\<close>

lemma get_put:
  assumes "holds s U" "offer m s" "0 < n" "n < limit" "get m n s = Some (p, s')" "p \<noteq> 0"
  shows "\<exists>s''. put p s' = Some s'' \<and> holds s'' U"
proof -
  from get_law [OF assms(1-4)] assms(5,6) obtain k where k: "holds s' (insert (p, k) U)" "p \<notin> fst ` U" by auto
  then have "(p, k) \<notin> U" by force
  with put_law [OF k(1), of p k] show ?thesis by auto
qed

text \<open>Areas can be given back in any order, whatever was asked for since.\<close>

lemma put_all:
  assumes "holds s U" "set ps = U" "distinct ps"
  shows "\<exists>s'. foldl (\<lambda>r p. Option.bind r (put (fst p))) (Some s) ps = Some s' \<and> holds s' {}"
  using assms
proof (induction ps arbitrary: s U)
  case (Cons p ps)
  obtain q k where p: "p = (q, k)" by (cases p)
  with Cons.prems put_law [of s U q k] obtain s1 where s1: "put q s = Some s1" "holds s1 (U - {(q, k)})" by auto
  moreover have "set ps = U - {(q, k)}" using Cons.prems p by auto
  ultimately have "\<exists>s'. foldl (\<lambda>r p. Option.bind r (put (fst p))) (Some s1) ps = Some s' \<and> holds s' {}" using Cons.prems(3) by (intro Cons.IH) auto
  then show ?case using s1(1) p by simp
qed auto

end

section \<open>The heap meets the contract\<close>

definition area :: "heap \<Rightarrow> nat \<times> nat \<Rightarrow> nat \<times> nat" where
  "area h l = (fst l + 76, snd l - overhead h)"

definition heap_holds :: "heap_env \<Rightarrow> heap \<Rightarrow> (nat \<times> nat) set \<Rightarrow> bool" where
  "heap_holds e h U \<longleftrightarrow> (\<forall>x. he_walker e x) \<and> hp_stream h \<and> (\<exists>A. heap_ok e h A \<and> U = area h ` heap_live e h A)"

text \<open>The chunks of a heap, and memory that may become the next two: not in use, and ending at a page boundary.\<close>

definition chunk_addrs :: "heap \<Rightarrow> nat set" where
  "chunk_addrs h = {c. c < 2 ^ 32 \<and> (\<exists>xs. pl_rep (hp_chunks h) (hp_chunkList h) xs \<and> w32 c \<in> set xs)}"

definition heap_offer :: "nat \<times> nat \<Rightarrow> heap \<Rightarrow> bool" where
  "heap_offer m h \<longleftrightarrow> (case m of (c1, c2) \<Rightarrow> 0 < c1 \<and> 0 < c2 \<and> c1 + csize h < 2 ^ 32 \<and> c2 + csize h < 2 ^ 32 \<and>
     4096 dvd c1 + csize h \<and> 4096 dvd c2 + csize h \<and> apart h c1 c2 \<and> (\<forall>d\<in>chunk_addrs h. apart h c1 d \<and> apart h c2 d))"

lemma lpath_unique: "lpath h p xs 0 \<Longrightarrow> lpath h p ys 0 \<Longrightarrow> xs = ys"
proof (induction xs arbitrary: p ys)
  case Nil
  then show ?case by (cases ys) auto
next
  case (Cons x xs)
  then show ?case by (cases ys) auto
qed

lemma chunk_addrs_eq:
  assumes "heap_inv e h A X lk"
  shows "chunk_addrs h = set (map fst A)"
proof -
  have rep: "pl_rep (hp_chunks h) (hp_chunkList h) (map (w32 \<circ> fst) A)" by (rule heap_invD(2) [OF assms])
  have lt: "c < 2 ^ 32" if "c \<in> set (map fst A)" for c
  proof -
    from that obtain ss where "(c, ss) \<in> set A" by auto
    from chunk_bounds(2) [OF heap_invD(5) [OF assms this]] show ?thesis by simp
  qed
  have "xs = map (w32 \<circ> fst) A" if "pl_rep (hp_chunks h) (hp_chunkList h) xs" for xs
    using that rep lpath_unique by (auto simp: pl_rep_def)
  then have "chunk_addrs h = {c. c < 2 ^ 32 \<and> w32 c \<in> set (map (w32 \<circ> fst) A)}" using rep unfolding chunk_addrs_def by blast
  also have "\<dots> = set (map fst A)"
  proof (intro subset_antisym subsetI)
    fix c assume c: "c \<in> {c. c < 2 ^ 32 \<and> w32 c \<in> set (map (w32 \<circ> fst) A)}"
    then obtain d where d: "d \<in> set (map fst A)" "w32 c = w32 d" by auto
    with lt [OF d(1)] c show "c \<in> set (map fst A)" by (simp add: w32_eq_iff)
  next
    fix c assume "c \<in> set (map fst A)"
    then show "c \<in> {c. c < 2 ^ 32 \<and> w32 c \<in> set (map (w32 \<circ> fst) A)}" using lt by force
  qed
  finally show ?thesis .
qed

lemma heap_offer_fresh:
  assumes "heap_inv e h A X lk" "heap_offer (c1, c2) h"
  shows "fresh_chunks h A [c1, c2]"
  using assms(2) unfolding heap_offer_def chunk_addrs_eq [OF assms(1)] by (auto simp: fresh_chunk_def apart_def)

lemma area_params: "same_params h h' \<Longrightarrow> area h' = area h"
  by (simp add: area_def fun_eq_iff same_paramsD)

lemma area_inj:
  assumes "heap_inv e h A X lk"
  shows "inj_on (area h) (heap_live e h A)"
proof (rule inj_onI)
  fix x y assume x: "x \<in> heap_live e h A" and y: "y \<in> heap_live e h A" and eq: "area h x = area h y"
  obtain a n b m where ab: "x = (a, n)" "y = (b, m)" by (cases x, cases y)
  with eq have "a = b" by (simp add: area_def)
  then show "x = y" using live_unique [OF assms, of a n m] x y ab by simp
qed

lemma heap_get_law:
  assumes hh: "heap_holds e h U" and o: "heap_offer (c1, c2) h" and n: "0 < n" "n < 2 ^ 32 - 8272"
  shows "\<exists>p h'. heap_malloc e (w32 c1) (w32 c2) (w32 n) ab desc h = Some (p, h') \<and> same_params h h' \<and>
    (if unat p = 0 then heap_holds e h' U else (\<exists>k\<ge>n. heap_holds e h' (insert (unat p, k) U)) \<and> unat p \<notin> fst ` U)"
proof -
  from hh obtain A where A: "heap_ok e h A" "U = area h ` heap_live e h A" "hp_stream h" "\<And>x. he_walker e x" by (auto simp: heap_holds_def)
  obtain r A' where r: "abs_passes e h (heap_need h n) [c1, c2] A = (r, A')" by (cases "abs_passes e h (heap_need h n) [c1, c2] A")
  have sz: "n + 8272 < 2 ^ 32" using n by simp
  from heap_malloc_ok [OF A(1,3) heap_offer_fresh [OF A(1) o] A(4) n(1) sz r, of ab desc] obtain h' where
    h': "heap_malloc e (w32 c1) (w32 c2) (w32 n) ab desc h = Some (case r of None \<Rightarrow> 0 | Some a \<Rightarrow> w32 (a + 76), h')"
      "heap_ok e h' A'" "same_params h h'" "alloc_result e h (heap_need h n) A r A'" by blast
  have st: "hp_stream h'" using A(3) h'(3) by (simp add: same_params_def)
  note P = area_params [OF h'(3)] heap_live_params [OF h'(3)]
  show ?thesis
  proof (cases r)
    case None
    then have "heap_live e h A' = heap_live e h A" using h'(4) by (simp add: alloc_result_def)
    then have "U = area h' ` heap_live e h' A'" using A(2) by (simp add: P)
    then have "heap_holds e h' U" using A(4) h'(2) st unfolding heap_holds_def by blast
    then show ?thesis using h'(1,3) None by simp
  next
    case (Some a)
    have lv: "heap_live e h A' = insert (a, heap_need h n) (heap_live e h A)" "\<forall>l\<in>heap_live e h A. fst l \<noteq> a" using h'(4) Some by (auto simp: alloc_result_def)
    then have "(a, heap_need h n) \<in> heap_live e h' A'" by (simp add: P)
    then obtain c ss where b: "a + heap_need h n < 2 ^ 32" "0 < a" by (rule heap_live_bounds [OF h'(2)])
    note nb = heap_need_bounds(1) [of n h]
    have oh: "76 \<le> overhead h" by (simp add: overhead_def)
    have u: "unat (w32 (a + 76)) = a + 76" using b nb oh by (intro unat_w32) linarith
    have "insert (a + 76, heap_need h n - overhead h) U = area h' ` heap_live e h' A'" unfolding P lv(1) A(2) by (simp add: area_def)
    then have "heap_holds e h' (insert (a + 76, heap_need h n - overhead h) U)" using A(4) h'(2) st unfolding heap_holds_def by blast
    moreover have "a + 76 \<notin> fst ` U" using lv(2) A(2) by (auto simp: area_def)
    moreover have "n \<le> heap_need h n - overhead h" using nb by simp
    ultimately have "(\<exists>k\<ge>n. heap_holds e h' (insert (a + 76, k) U)) \<and> a + 76 \<notin> fst ` U" by blast
    then show ?thesis using h'(1,3) Some u by (intro exI [of _ "w32 (a + 76)"] exI [of _ h']) simp
  qed
qed

lemma heap_put_law:
  assumes hh: "heap_holds e h U" and pk: "(p, k) \<in> U"
  shows "\<exists>h'. heap_free e (w32 p) fr h = Some h' \<and> same_params h h' \<and> heap_holds e h' (U - {(p, k)})"
proof -
  from hh obtain A where A: "heap_ok e h A" "U = area h ` heap_live e h A" "hp_stream h" "\<And>x. he_walker e x" by (auto simp: heap_holds_def)
  from pk A(2) obtain a n where l: "(a, n) \<in> heap_live e h A" "p = a + 76" "k = n - overhead h" by (auto simp: area_def)
  from heap_free_ok [OF A(1) l(1) A(4), of fr] obtain h' where h': "heap_free e (w32 (a + 76)) fr h = Some h'" "heap_ok e h' (abs_free e h a A)" "same_params h h'"
    "heap_live e h (abs_free e h a A) = heap_live e h A - {(a, n)}" by blast
  note P = area_params [OF h'(3)] heap_live_params [OF h'(3)]
  have "area h ` (heap_live e h A - {(a, n)}) = area h ` heap_live e h A - area h ` {(a, n)}"
    by (rule inj_on_image_set_diff [OF area_inj [OF A(1)]]) (use l(1) in auto)
  also have "\<dots> = U - {(p, k)}" using A(2) l by (simp add: area_def)
  finally have "area h ` (heap_live e h A - {(a, n)}) = U - {(p, k)}" .
  then have "U - {(p, k)} = area h' ` heap_live e h' (abs_free e h a A)" by (simp add: P h'(4))
  moreover have "hp_stream h'" using A(3) h'(3) by (simp add: same_params_def)
  ultimately have "heap_holds e h' (U - {(p, k)})" using A(4) h'(2) unfolding heap_holds_def by blast
  then show ?thesis using h'(1,3) l(2) by blast
qed

lemma heap_areas_law:
  assumes hh: "heap_holds e h U" and pk: "(p, k) \<in> U"
  shows "0 < p \<and> 0 < k \<and> p + k < 2 ^ 32"
proof -
  from hh obtain A where A: "heap_ok e h A" "U = area h ` heap_live e h A" by (auto simp: heap_holds_def)
  from pk A(2) obtain a n where l: "(a, n) \<in> heap_live e h A" "p = a + 76" "k = n - overhead h" by (auto simp: area_def)
  obtain c ss where "overhead h < n" "a + n < 2 ^ 32" "0 < a" by (rule heap_live_bounds [OF A(1) l(1)])
  then show ?thesis using l by (auto simp: overhead_def split: if_splits)
qed

lemma heap_disjoint_law:
  assumes hh: "heap_holds e h U" and pk: "(p, k) \<in> U" "(q, l) \<in> U" "p \<noteq> q"
  shows "p + k \<le> q \<or> q + l \<le> p"
proof -
  from hh obtain A where A: "heap_ok e h A" "U = area h ` heap_live e h A" by (auto simp: heap_holds_def)
  from pk(1) A(2) obtain a n where a: "(a, n) \<in> heap_live e h A" "p = a + 76" "k = n - overhead h" by (auto simp: area_def)
  from pk(2) A(2) obtain b m where b: "(b, m) \<in> heap_live e h A" "q = b + 76" "l = m - overhead h" by (auto simp: area_def)
  have "a \<noteq> b" using pk(3) a b by simp
  moreover obtain c ss where "overhead h < n" by (rule heap_live_bounds [OF A(1) a(1)])
  moreover obtain d ts where "overhead h < m" by (rule heap_live_bounds [OF A(1) b(1)])
  ultimately show ?thesis using heap_live_disjoint [OF A(1) a(1) b(1)] a b by (auto simp: overhead_def split: if_splits)
qed

interpretation hp: memory_allocator "heap_holds e" heap_offer
    "\<lambda>(c1, c2) n h. map_option (\<lambda>(p, h). (unat p, h)) (heap_malloc e (w32 c1) (w32 c2) (w32 n) ab desc h)"
    "\<lambda>p h. heap_free e (w32 p) fr h" "2 ^ 32 - 8272" for e ab desc fr
proof (unfold_locales, goal_cases)
  case (1 h U m n)
  obtain c1 c2 where m: "m = (c1, c2)" by (cases m)
  from heap_get_law [OF 1(1) 1(2) [unfolded m] 1(3,4), of ab desc] obtain p h' where
    "heap_malloc e (w32 c1) (w32 c2) (w32 n) ab desc h = Some (p, h')"
    "if unat p = 0 then heap_holds e h' U else (\<exists>k\<ge>n. heap_holds e h' (insert (unat p, k) U)) \<and> unat p \<notin> fst ` U" by blast
  then show ?case unfolding m by (intro exI [of _ "unat p"] exI [of _ h']) simp
next
  case (2 h U p k)
  then show ?case using heap_put_law by blast
next
  case (3 h U p k)
  then show ?case by (rule heap_areas_law)
next
  case (4 h U p k q l)
  then show ?case by (rule heap_disjoint_law)
qed


section \<open>Sequences of calls\<close>

definition heap_start :: "u32 \<Rightarrow> u32 \<Rightarrow> (u32 \<Rightarrow> u8) \<Rightarrow> heap" where
  "heap_start chunkSize options mem = snd (heap_initialize (heap_new chunkSize True options mem))"

text \<open>A heap in use and the areas its clients own, with the sizes they asked for.\<close>

inductive heap_run :: "heap_env \<Rightarrow> heap \<Rightarrow> (nat \<times> nat) set \<Rightarrow> bool" for e where
  run_start: "0 < hdsize e \<Longrightarrow> hdsize e + 4136 \<le> unat chunkSize \<Longrightarrow> heap_run e (heap_start chunkSize options mem) {}"
| run_malloc: "heap_run e h U \<Longrightarrow> heap_offer (c1, c2) h \<Longrightarrow> 0 < n \<Longrightarrow> n < 2 ^ 32 - 8272 \<Longrightarrow>
    heap_malloc e (w32 c1) (w32 c2) (w32 n) ab desc h = Some (p, h') \<Longrightarrow> heap_run e h' (if p = 0 then U else insert (unat p, n) U)"
| run_free: "heap_run e h U \<Longrightarrow> (p, n) \<in> U \<Longrightarrow> heap_free e (w32 p) fr h = Some h' \<Longrightarrow> heap_run e h' (U - {(p, n)})"

lemma heap_start_ok:
  assumes "0 < hdsize e" "hdsize e + 4136 \<le> unat chunkSize"
  shows "heap_ok e (heap_start chunkSize options mem) []"
proof -
  have "heap_start chunkSize options mem = (heap_new chunkSize True options mem)\<lparr>hp_pageSize := 4096\<rparr>"
    by (simp add: heap_start_def heap_initialize_def pl_initialize_def heap_new_def)
  then show ?thesis using assms
    by (intro heap_invI [where xs = "[]"]) (simp_all add: heap_new_def heap_geom_def pl_rep_def pl_new_def listed_def heap_live_def)
qed

text \<open>The areas of the clients are those of the heap, except that they may be smaller.\<close>

definition owned_by :: "(nat \<times> nat) set \<Rightarrow> (nat \<times> nat) set \<Rightarrow> bool" where
  "owned_by V U \<longleftrightarrow> fst ` U = fst ` V \<and> inj_on fst U \<and> inj_on fst V \<and> (\<forall>(p, n)\<in>U. 0 < n \<and> (\<exists>k\<ge>n. (p, k) \<in> V))"

lemma owned_byD: "owned_by V U \<Longrightarrow> (p, n) \<in> U \<Longrightarrow> 0 < n \<and> (\<exists>k\<ge>n. (p, k) \<in> V)"
  by (auto simp: owned_by_def)

lemma owned_insert: "owned_by V U \<Longrightarrow> p \<notin> fst ` V \<Longrightarrow> 0 < n \<Longrightarrow> n \<le> k \<Longrightarrow> owned_by (insert (p, k) V) (insert (p, n) U)"
  unfolding owned_by_def by (intro conjI; force simp: inj_on_def image_iff)

lemma inj_fst_remove: "inj_on fst U \<Longrightarrow> (p, n) \<in> U \<Longrightarrow> fst ` (U - {(p, n)}) = fst ` U - {p}"
  using inj_on_image_set_diff [of fst U U "{(p, n)}"] by auto

lemma owned_remove:
  assumes "owned_by V U" "(p, n) \<in> U" "(p, k) \<in> V"
  shows "owned_by (V - {(p, k)}) (U - {(p, n)})"
proof -
  have i: "inj_on fst U" "inj_on fst V" "fst ` U = fst ` V" using assms(1) by (auto simp: owned_by_def)
  have "\<exists>l\<ge>m. (q, l) \<in> V - {(p, k)}" "0 < m" if "(q, m) \<in> U - {(p, n)}" for q m
  proof -
    have "q \<noteq> p" using that assms(2) inj_onD [OF i(1), of "(q, m)" "(p, n)"] by auto
    then show "\<exists>l\<ge>m. (q, l) \<in> V - {(p, k)}" "0 < m" using owned_byD [OF assms(1), of q m] that by auto
  qed
  then show ?thesis unfolding owned_by_def using i inj_fst_remove [OF i(1) assms(2)] inj_fst_remove [OF i(2) assms(3)]
    by (auto intro: inj_on_subset)
qed

lemma heap_holds_inj:
  assumes "heap_holds e h V"
  shows "inj_on fst V"
proof -
  obtain A where A: "heap_ok e h A" "V = area h ` heap_live e h A" using assms by (auto simp: heap_holds_def)
  show ?thesis
  proof (rule inj_onI)
    fix x y assume "x \<in> V" "y \<in> V" "fst x = fst y"
    then obtain a n m where "x = area h (a, n)" "y = area h (a, m)" "(a, n) \<in> heap_live e h A" "(a, m) \<in> heap_live e h A" using A(2) by (auto simp: area_def)
    then show "x = y" using live_unique [OF A(1), of a n m] by simp
  qed
qed

lemma heap_run_holds:
  assumes "heap_run e h U" and walk: "\<forall>x. he_walker e x"
  shows "\<exists>V. heap_holds e h V \<and> owned_by V U"
  using assms(1)
proof induction
  case (run_start chunkSize options mem)
  have "hp_stream (heap_start chunkSize options mem)" by (simp add: heap_start_def heap_initialize_def pl_initialize_def heap_new_def)
  with heap_start_ok [OF run_start, of options mem] walk have "heap_holds e (heap_start chunkSize options mem) {}"
    unfolding heap_holds_def by (intro conjI exI [of _ "[]"]) (simp_all add: heap_live_def)
  then show ?case by (intro exI [of _ "{}"]) (simp add: owned_by_def)
next
  case (run_malloc h U c1 c2 n ab desc p h')
  then obtain V where V: "heap_holds e h V" "owned_by V U" by blast
  from heap_get_law [OF V(1) run_malloc.hyps(2-4), of ab desc] run_malloc.hyps(5)
  have r: "if unat p = 0 then heap_holds e h' V else (\<exists>k\<ge>n. heap_holds e h' (insert (unat p, k) V)) \<and> unat p \<notin> fst ` V" by auto
  show ?case
  proof (cases "p = 0")
    case True
    then show ?thesis using r V(2) by auto
  next
    case False
    then have "unat p \<noteq> 0" by (simp add: unat_eq_0)
    then obtain k where k: "n \<le> k" "heap_holds e h' (insert (unat p, k) V)" "unat p \<notin> fst ` V" using r by auto
    then show ?thesis using owned_insert [OF V(2) k(3) run_malloc.hyps(3) k(1)] False by auto
  qed
next
  case (run_free h U p n fr h')
  then obtain V where V: "heap_holds e h V" "owned_by V U" by blast
  then obtain k where k: "(p, k) \<in> V" using owned_byD [OF V(2) run_free.hyps(2)] by blast
  from heap_put_law [OF V(1) k, of fr] run_free.hyps(3) have "heap_holds e h' (V - {(p, k)})" by auto
  then show ?case using owned_remove [OF V(2) run_free.hyps(2) k] by blast
qed

lemma guards_apart:
  assumes "heap_holds e h V" "(p, k) \<in> V" "g \<in> hp_guards h"
  shows "p + k \<le> unat g \<or> unat g + 4096 \<le> p"
proof -
  obtain A where A: "heap_ok e h A" "V = area h ` heap_live e h A" using assms(1) by (auto simp: heap_holds_def)
  have gd: "hp_guards h = (if guarded h then guard_of ` listed e h A {} else {})" using A(1) unfolding heap_inv_def by blast
  then have g: "guarded h" using assms(3) by (auto split: if_splits)
  then obtain b m where b: "(b, m) \<in> heap_live e h A" "g = guard_of (b, m)" using gd assms(3) by (auto simp: listed_def)
  from assms(2) A(2) obtain a n where a: "(a, n) \<in> heap_live e h A" "p = a + 76" "k = n - overhead h" by (auto simp: area_def)
  obtain c ss where n: "overhead h < n" by (rule heap_live_bounds [OF A(1) a(1)])
  obtain d ts where m: "overhead h < m" "b + m < 2 ^ 32" by (rule heap_live_bounds [OF A(1) b(1)])
  have ov: "overhead h = 4172" using g by (simp add: overhead_def)
  have "unat g = b + m - 4096" unfolding b(2) guard_of_def fst_conv snd_conv using m ov by (intro unat_w32) linarith
  moreover have "a + n \<le> b \<or> b + m \<le> a \<or> (a = b \<and> n = m)" using heap_live_disjoint [OF A(1) a(1) b(1)] live_unique [OF A(1), of b m n] a(1) b(1) by blast
  ultimately show ?thesis using a n m ov by linarith
qed


section \<open>Reallocation\<close>

lemma holds_mem: "heap_holds e (h\<lparr>hp_mem := m\<rparr>) U = heap_holds e h U"
proof -
  let ?h = "h\<lparr>hp_mem := m\<rparr>"
  have ok: "chunk_ok e ?h c ss = chunk_ok e h c ss" for c ss by (rule chunk_ok_cong) (simp_all add: alc_def)
  have ls: "listed e ?h A {} = listed e h A {}" "heap_live e ?h A = heap_live e h A" for A by (rule listed_cong heap_live_cong, simp)+
  have "area ?h = area h" by (simp add: area_def overhead_def opt_def fun_eq_iff)
  moreover have "heap_ok e ?h A = heap_ok e h A" for A unfolding heap_inv_def ok ls by (simp add: heap_geom_def apart_def opt_def)
  ultimately show ?thesis by (simp add: heap_holds_def ls)
qed

lemma holds_header:
  assumes "heap_holds e h U" "(p, k) \<in> U"
  obtains a n al where "p = a + 76" "k = n - overhead h" "w32 p - sizeof_Allocation = w32 a" "l_get (hp_allocs h) (w32 a) = Some al" "al_nBytes (ln_obj al) = w32 n"
    "al_magic (ln_obj al) = HEAP_ALLOC_MAGIC" "overhead h < n" "a + n < 2 ^ 32" "w32 p \<noteq> 0"
    "(if opt OPT_CHECK_ALLOCS_ON_FREE h then pl_find False (w32 a) (hp_allocs h) (hp_allocList h) else Some True) = Some True" "hp_pageSize h = 4096"
proof -
  obtain A where A: "heap_ok e h A" "U = area h ` heap_live e h A" using assms(1) by (auto simp: heap_holds_def)
  from assms(2) A(2) obtain a n where a: "(a, n) \<in> heap_live e h A" "p = a + 76" "k = n - overhead h" by (auto simp: area_def)
  obtain c ss al where al: "(c, ss) \<in> set A" "(a, n) \<in> set (live_at (first_at e h c) ss)" "l_get (hp_allocs h) (w32 a) = Some al"
    "al_nBytes (ln_obj al) = w32 n" "al_parent (ln_obj al) = w32 c" "al_magic (ln_obj al) = HEAP_ALLOC_MAGIC" "overhead h < n" "a + n < 2 ^ 32" "w32 a \<noteq> 0"
    "guarded h \<longrightarrow> check_aligned (ln_obj al) (w32 a) h" by (rule live_header [OF A(1) a(1)])
  obtain xs where xs: "pl_rep (hp_allocs h) (hp_allocList h) xs" "set xs = (w32 \<circ> fst) ` listed e h A {}" using A(1) unfolding heap_inv_def by blast
  have "(a, n) \<in> listed e h A {}" using a by (simp add: listed_def)
  then have "w32 a \<in> set xs" using xs(2) by force
  then have f: "(if opt OPT_CHECK_ALLOCS_ON_FREE h then pl_find False (w32 a) (hp_allocs h) (hp_allocList h) else Some True) = Some True"
    using pl_find_rep [OF xs(1) al(9), of False] heap_invD(4) [OF A(1)] by simp
  have "76 \<le> overhead h" by (simp add: overhead_def)
  then have "w32 p \<noteq> 0" using a al by (intro w32_nz) auto
  moreover have "hp_pageSize h = 4096" using heap_invD(1) [OF A(1)] by (simp add: heap_geom_def)
  moreover have "w32 p - sizeof_Allocation = w32 a" using a(2) by simp
  ultimately show thesis using that [OF a(2,3) _ al(3,4,6,7,8)] f by blast
qed

lemma memcpy_in: "i < n \<Longrightarrow> n < 2 ^ 32 \<Longrightarrow> memcpy d s (w32 n) m (d + w32 i) = m (s + w32 i)"
  by (simp add: memcpy_def w32_less_iff)

lemma realloc_fits:
  assumes "heap_holds e h U" "(p, k) \<in> U" "guarded h" "sz \<le> k"
  shows "heap_realloc e m1 m2 caller (w32 p) (w32 sz) h = Some (w32 p, h)"
proof -
  obtain a n al where h: "p = a + 76" "k = n - overhead h" "w32 p - sizeof_Allocation = w32 a" "l_get (hp_allocs h) (w32 a) = Some al" "al_nBytes (ln_obj al) = w32 n"
    "al_magic (ln_obj al) = HEAP_ALLOC_MAGIC" "overhead h < n" "a + n < 2 ^ 32" "w32 p \<noteq> 0"
    "(if opt OPT_CHECK_ALLOCS_ON_FREE h then pl_find False (w32 a) (hp_allocs h) (hp_allocList h) else Some True) = Some True" "hp_pageSize h = 4096"
    by (rule holds_header [OF assms(1,2)])
  have ov: "overhead h = 4172" using assms(3) by (simp add: overhead_def)
  have "w32 n - sizeof_Allocation - 4096 = w32 k" using h(2,7) ov by (simp add: of_nat_diff)
  moreover have "w32 sz \<le> w32 k" using assms(4) h(2,8) by (subst w32_le_iff) auto
  ultimately have "al_nBytes (ln_obj al) - sizeof_Allocation - hp_pageSize h \<ge> w32 sz" using h(5,11) by simp
  then show ?thesis unfolding heap_realloc_def Let_def h(3,4) using h(6,9,10) by simp
qed


lemma realloc_moves:
  assumes hh: "heap_holds e h U" and pk: "(p, k) \<in> U" and g: "guarded h" and sz: "k < sz" "sz < 2 ^ 32 - 8272" and of: "heap_offer (c1, c2) h"
  shows "\<exists>q h'. heap_realloc e (w32 c1) (w32 c2) caller (w32 p) (w32 sz) h = Some (w32 q, h') \<and>
    (if q = 0 then heap_holds e h' U
     else (\<exists>l\<ge>sz. heap_holds e h' (insert (q, l) (U - {(p, k)}))) \<and> (\<forall>i<k. hp_mem h' (w32 (q + i)) = hp_mem h (w32 (p + i))))"
proof -
  obtain a n al where h: "p = a + 76" "k = n - overhead h" "w32 p - sizeof_Allocation = w32 a" "l_get (hp_allocs h) (w32 a) = Some al" "al_nBytes (ln_obj al) = w32 n"
    "al_magic (ln_obj al) = HEAP_ALLOC_MAGIC" "overhead h < n" "a + n < 2 ^ 32" "w32 p \<noteq> 0"
    "(if opt OPT_CHECK_ALLOCS_ON_FREE h then pl_find False (w32 a) (hp_allocs h) (hp_allocList h) else Some True) = Some True" "hp_pageSize h = 4096"
    by (rule holds_header [OF hh pk])
  have ov: "overhead h = 4172" using g by (simp add: overhead_def)
  have wk: "w32 n - sizeof_Allocation - 4096 = w32 k" using h(2,7) ov by (simp add: of_nat_diff)
  have small: "\<not> w32 n - sizeof_Allocation - hp_pageSize h \<ge> w32 sz" unfolding h(11) wk using sz h(2,8) by (subst w32_le_iff) auto
  have sz0: "w32 sz \<noteq> 0" "0 < sz" using sz by (auto simp: w32_zero_iff)
  from heap_get_law [OF hh of sz0(2) sz(2), of caller None] obtain q h1 where q: "heap_malloc e (w32 c1) (w32 c2) (w32 sz) caller None h = Some (q, h1)"
    "if unat q = 0 then heap_holds e h1 U else (\<exists>l\<ge>sz. heap_holds e h1 (insert (unat q, l) U)) \<and> unat q \<notin> fst ` U" "same_params h h1" by blast
  have run: "heap_realloc e (w32 c1) (w32 c2) caller (w32 p) (w32 sz) h =
      (if q = 0 then Some (0, h1) else do {
         n \<leftarrow> l_get (hp_allocs h1) (w32 a);
         h2 \<leftarrow> heap_free e (w32 p) caller (h1\<lparr>hp_mem := memcpy q (w32 p) (al_nBytes (ln_obj n) - sizeof_Allocation - hp_pageSize h1) (hp_mem h1)\<rparr>);
         Some (q, h2) })"
    unfolding heap_realloc_def Let_def h(3,4) using h(5,6,9,10) small sz0(1) q(1) by simp
  show ?thesis
  proof (cases "q = 0")
    case True
    then show ?thesis using run q(2) by (intro exI [of _ 0] exI [of _ h1]) simp
  next
    case False
    then obtain l where l: "sz \<le> l" "heap_holds e h1 (insert (unat q, l) U)" "unat q \<notin> fst ` U" using q(2) by (auto simp: unat_eq_0)
    have in1: "(p, k) \<in> insert (unat q, l) U" using pk by simp
    obtain a1 n1 al1 where h1: "p = a1 + 76" "k = n1 - overhead h1" "w32 p - sizeof_Allocation = w32 a1" "l_get (hp_allocs h1) (w32 a1) = Some al1" "al_nBytes (ln_obj al1) = w32 n1"
      "al_magic (ln_obj al1) = HEAP_ALLOC_MAGIC" "overhead h1 < n1" "a1 + n1 < 2 ^ 32" "w32 p \<noteq> 0"
      "(if opt OPT_CHECK_ALLOCS_ON_FREE h1 then pl_find False (w32 a1) (hp_allocs h1) (hp_allocList h1) else Some True) = Some True" "hp_pageSize h1 = 4096"
      by (rule holds_header [OF l(2) in1])
    have pr: "hp_options h1 = hp_options h" "hp_mem h1 = hp_mem h" using q(3) by (simp_all add: same_params_def)
    have ov1: "overhead h1 = 4172" using ov pr(1) by (simp add: overhead_def opt_def)
    have aa: "a1 = a" using h(1) h1(1) by simp
    have wk1: "al_nBytes (ln_obj al1) - sizeof_Allocation - hp_pageSize h1 = w32 k" using h1(2,5,7,11) ov1 by (simp add: of_nat_diff)
    let ?m = "memcpy q (w32 p) (w32 k) (hp_mem h1)"
    have "heap_holds e (h1\<lparr>hp_mem := ?m\<rparr>) (insert (unat q, l) U)" using l(2) by (simp add: holds_mem)
    from heap_put_law [OF this in1, of caller] obtain h2 where h2: "heap_free e (w32 p) caller (h1\<lparr>hp_mem := ?m\<rparr>) = Some h2"
      "heap_holds e h2 (insert (unat q, l) U - {(p, k)})" "same_params (h1\<lparr>hp_mem := ?m\<rparr>) h2" by blast
    have "p \<noteq> unat q" using l(3) pk by force
    then have "heap_holds e h2 (insert (unat q, l) (U - {(p, k)}))" using h2(2) by (simp add: insert_Diff_if)
    moreover have "hp_mem h2 (w32 (unat q + i)) = hp_mem h (w32 (p + i))" if "i < k" for i
    proof -
      have "hp_mem h2 (q + w32 i) = ?m (q + w32 i)" using h2(3) by (simp add: same_params_def)
      also have "\<dots> = hp_mem h (w32 p + w32 i)" using memcpy_in [OF that, of q "w32 p" "hp_mem h"] h(2,8) pr(2) by simp
      finally show ?thesis by simp
    qed
    ultimately show ?thesis using run False h1(4) aa wk1 h2(1) l(1) by (intro exI [of _ "unat q"] exI [of _ h2]) (auto simp: unat_eq_0)
  qed
qed


section \<open>Properties\<close>

text \<open>An example: the configuration of the kernel's own heap, with a chunk header of 60 bytes.\<close>

definition env0 :: heap_env where
  "env0 = \<lparr>he_sizeofChunk = 60, he_walker = (\<lambda>_. True), he_junk = 0\<rparr>"

abbreviation heap0 :: heap where "heap0 \<equiv> heap_start 0x200000 15 (\<lambda>_. 0)"

lemma env0_simps: "hdsize env0 = 60" "he_walker env0 x" "csize heap0 = 0x200000" "hp_stream heap0" "guarded heap0" "chunk_addrs heap0 = {}"
proof -
  have ok: "heap_ok env0 heap0 []" by (rule heap_start_ok) (simp_all add: env0_def)
  show "chunk_addrs heap0 = {}" using chunk_addrs_eq [OF ok] by simp
qed (simp_all add: env0_def heap_start_def heap_initialize_def heap_new_def pl_initialize_def opt_def)

lemma heap0_run: "heap_run env0 heap0 {}"
  by (rule run_start) (simp_all add: env0_simps)

lemma heap0_offer: "heap_offer (0x400000, 0x800000) heap0"
  by (simp add: heap_offer_def env0_simps apart_def)

text \<open>A first call on the example succeeds.\<close>

lemma malloc_room:
  assumes hh: "heap_holds e h V" and of: "heap_offer (c1, c2) h" and n: "0 < n" "n < 2 ^ 32 - 8272" and room: "chunk_room_for e h n"
  shows "\<exists>p h'. heap_malloc e (w32 c1) (w32 c2) (w32 n) ab desc h = Some (p, h') \<and> p \<noteq> 0"
proof -
  from hh obtain A where A: "heap_ok e h A" "hp_stream h" "\<And>x. he_walker e x" by (auto simp: heap_holds_def)
  obtain a A' where r: "abs_passes e h (heap_need h n) [c1, c2] A = (Some a, A')" using abs_passes_succeeds [OF room] by blast
  have sz: "n + 8272 < 2 ^ 32" using n by simp
  from heap_malloc_ok [OF A(1,2) heap_offer_fresh [OF A(1) of] A(3) n(1) sz r, of ab desc] obtain h' where
    h': "heap_malloc e (w32 c1) (w32 c2) (w32 n) ab desc h = Some (w32 (a + 76), h')" "heap_ok e h' A'" "same_params h h'" "alloc_result e h (heap_need h n) A (Some a) A'" by auto
  have "(a, heap_need h n) \<in> heap_live e h' A'" using h'(4) by (simp add: alloc_result_def heap_live_params [OF h'(3)])
  then obtain c ss where "overhead h' < heap_need h n" "a + heap_need h n < 2 ^ 32" by (rule heap_live_bounds [OF h'(2)])
  then have "w32 (a + 76) \<noteq> 0" by (intro w32_nz) (auto simp: overhead_def split: if_splits)
  then show ?thesis using h'(1) by blast
qed

lemma heap0_malloc: "\<exists>p h. heap_malloc env0 (w32 0x400000) (w32 0x800000) (w32 100) 0 None heap0 = Some (p, h) \<and> p \<noteq> 0 \<and> heap_run env0 h {(unat p, 100)}"
proof -
  from heap_run_holds [OF heap0_run] obtain V where V: "heap_holds env0 heap0 V" by (auto simp: env0_simps)
  have "seg_gap heap0 (heap_need heap0 100) \<le> 4096" by (simp add: seg_gap_def)
  with heap_need_bounds(2) [where sz = 100 and h = heap0] have "chunk_room_for env0 heap0 100" by (simp add: chunk_room_for_def env0_simps overhead_def)
  from malloc_room [OF V heap0_offer _ _ this, of 0 None] obtain p h where
    p: "heap_malloc env0 (w32 0x400000) (w32 0x800000) (w32 100) 0 None heap0 = Some (p, h)" "p \<noteq> 0" by auto
  from run_malloc [OF heap0_run heap0_offer _ _ p(1)] p show ?thesis by auto
qed

text \<open>C11: Whatever sequence of calls to \<open>malloc\<close> and \<open>free\<close> led to a state of the heap, the areas its clients own do not overlap each other
  and do not touch a guard page (\<open>Heap::malloc\<close>, \<open>Heap::free\<close>).\<close>

theorem heap_run_safe:
  assumes "heap_run e h U" "\<forall>x. he_walker e x" "(p, n) \<in> U"
  shows "(\<forall>q m. (q, m) \<in> U \<and> (q, m) \<noteq> (p, n) \<longrightarrow> p + n \<le> q \<or> q + m \<le> p) \<and>
    (\<forall>g\<in>hp_guards h. p + n \<le> unat g \<or> unat g + 4096 \<le> p) \<and> p + n < 2 ^ 32"
proof -
  obtain V where V: "heap_holds e h V" "owned_by V U" using heap_run_holds [OF assms(1,2)] by blast
  obtain k where k: "n \<le> k" "(p, k) \<in> V" using owned_byD [OF V(2) assms(3)] by blast
  have "p + n \<le> q \<or> q + m \<le> p" if q: "(q, m) \<in> U" "(q, m) \<noteq> (p, n)" for q m
  proof -
    obtain l where l: "m \<le> l" "(q, l) \<in> V" using owned_byD [OF V(2) q(1)] by blast
    have "p \<noteq> q" using q assms(3) V(2) inj_onD [of fst U "(q, m)" "(p, n)"] by (auto simp: owned_by_def)
    from hp.disjoint_law [OF V(1) k(2) l(2) this] k(1) l(1) show ?thesis by linarith
  qed
  moreover have "p + n \<le> unat g \<or> unat g + 4096 \<le> p" if "g \<in> hp_guards h" for g
    using guards_apart [OF V(1) k(2) that] k(1) by linarith
  moreover have "p + n < 2 ^ 32" using hp.areas_law [OF V(1) k(2)] k(1) by linarith
  ultimately show ?thesis by blast
qed

theorem heap_run_safe_witness:
  "\<exists>h p. heap_run env0 h {(p, 100)} \<and> (\<forall>g\<in>hp_guards h. p + 100 \<le> unat g \<or> unat g + 4096 \<le> p) \<and> p + 100 < 2 ^ 32"
proof -
  obtain p h where r: "heap_malloc env0 (w32 0x400000) (w32 0x800000) (w32 100) 0 None heap0 = Some (p, h)" "p \<noteq> 0" "heap_run env0 h {(unat p, 100)}"
    using heap0_malloc by blast
  from heap_run_safe [OF r(3), of "unat p" 100] r(3) show ?thesis by (intro exI [of _ h] exI [of _ "unat p"]) (simp add: env0_simps)
qed

text \<open>C12: In every state reached by calls to \<open>malloc\<close> and \<open>free\<close>, giving back an owned area returns, a request returns, and it is met with
  enough memory if it fits into an empty chunk and memory for a chunk can be had.\<close>

theorem heap_run_progress:
  assumes "heap_run e h U" "\<forall>x. he_walker e x"
  shows "((p, n) \<in> U \<longrightarrow> (\<exists>h'. heap_free e (w32 p) fr h = Some h' \<and> heap_run e h' (U - {(p, n)}))) \<and>
    (heap_offer (c1, c2) h \<and> 0 < m \<and> m < 2 ^ 32 - 8272 \<longrightarrow>
      (\<exists>q h'. heap_malloc e (w32 c1) (w32 c2) (w32 m) ab desc h = Some (q, h') \<and>
        (chunk_room_for e h m \<longrightarrow> q \<noteq> 0 \<and> heap_run e h' (insert (unat q, m) U))))"
proof -
  obtain V where V: "heap_holds e h V" "owned_by V U" using heap_run_holds [OF assms] by blast
  have "\<exists>h'. heap_free e (w32 p) fr h = Some h' \<and> heap_run e h' (U - {(p, n)})" if pn: "(p, n) \<in> U"
  proof -
    obtain k where k: "n \<le> k" "(p, k) \<in> V" using owned_byD [OF V(2) pn] by blast
    from hp.put_law [OF V(1) k(2), of fr] obtain h' where "heap_free e (w32 p) fr h = Some h'" by blast
    with run_free [OF assms(1) pn] show ?thesis by blast
  qed
  moreover have "\<exists>q h'. heap_malloc e (w32 c1) (w32 c2) (w32 m) ab desc h = Some (q, h') \<and>
      (chunk_room_for e h m \<longrightarrow> q \<noteq> 0 \<and> heap_run e h' (insert (unat q, m) U))" if o: "heap_offer (c1, c2) h" "0 < m" "m < 2 ^ 32 - 8272"
  proof -
    from hp.get_law [OF V(1) o, of ab desc] obtain q h' where q: "heap_malloc e (w32 c1) (w32 c2) (w32 m) ab desc h = Some (q, h')" by auto
    have "q \<noteq> 0" if "chunk_room_for e h m" using malloc_room [OF V(1) o that, of ab desc] q by auto
    with run_malloc [OF assms(1) o q] q show ?thesis by auto
  qed
  ultimately show ?thesis by blast
qed

text \<open>The heap of the example after the first call: one chunk, its first page the header, then the allocation with its guard page.\<close>

lemma env0_need: "heap_need heap0 100 = 4272" "seg_gap heap0 4272 = 3920" "first_at env0 heap0 0x400000 = 0x401000" "first_at env0 heap0 0x800000 = 0x801000"
  by (simp_all add: heap_need_def overhead_def env0_simps seg_gap_def first_at_def Let_def)

lemma heap1_ex: "\<exists>h. heap_malloc env0 0x400000 0x800000 100 0 None heap0 = Some (0x401F9C, h) \<and>
    heap_ok env0 h [(0x400000, [Used 3920 4272, Free 0x1FD000])] \<and> same_params heap0 h"
proof -
  have ok: "heap_ok env0 heap0 []" by (rule heap_start_ok) (simp_all add: env0_def)
  have r: "abs_passes env0 heap0 (heap_need heap0 100) [0x400000, 0x800000] [] = (Some 0x401F50, [(0x400000, [Used 3920 4272, Free 0x1FD000])])"
    by (simp add: env0_need env0_simps seg_take_def take_gap_def)
  from heap_malloc_ok [OF ok _ heap_offer_fresh [OF ok heap0_offer] _ _ _ r, of 0 None] show ?thesis by (auto simp: env0_simps)
qed

text \<open>A request that is too large for a chunk fails and leaves two new chunks.\<close>

lemma heap2_ex: "\<exists>h. heap_malloc env0 0x400000 0x800000 0x300000 0 None heap0 = Some (0, h) \<and>
    heap_ok env0 h [(0x400000, [Free 0x1FF000]), (0x800000, [Free 0x1FF000])] \<and> same_params heap0 h"
proof -
  have ok: "heap_ok env0 heap0 []" by (rule heap_start_ok) (simp_all add: env0_def)
  have r: "abs_passes env0 heap0 (heap_need heap0 0x300000) [0x400000, 0x800000] [] = (None, [(0x400000, [Free 0x1FF000]), (0x800000, [Free 0x1FF000])])"
    by (simp add: env0_need env0_simps heap_need_def overhead_def)
  from heap_malloc_ok [OF ok _ heap_offer_fresh [OF ok heap0_offer] _ _ _ r, of 0 None] show ?thesis by (auto simp: env0_simps)
qed

lemma heap1_facts:
  assumes "heap_ok env0 h [(0x400000, [Used 3920 4272, Free 0x1FD000])]" "same_params heap0 h"
  shows "heap_live env0 h [(0x400000, [Used 3920 4272, Free 0x1FD000])] = {(0x401F50, 4272)}" "heap_holds env0 h {(0x401F9C, 100)}" "guarded h"
    "heap_offer (0x800000, 0xA00000) h"
proof -
  note P = same_paramsD [OF assms(2)]
  show l: "heap_live env0 h [(0x400000, [Used 3920 4272, Free 0x1FD000])] = {(0x401F50, 4272)}" by (simp add: heap_live_def P(3) env0_need)
  show g: "guarded h" by (simp add: P(1) env0_simps)
  have st: "hp_stream h" by (simp add: P(8) env0_simps)
  have "{(0x401F9C, 100)} = area h ` heap_live env0 h [(0x400000, [Used 3920 4272, Free 0x1FD000])]"
    unfolding l area_def overhead_def using g by simp
  then show "heap_holds env0 h {(0x401F9C, 100)}" unfolding heap_holds_def using st assms(1) env0_simps(2) by blast
  have c: "csize h = 0x200000" by (simp only: P(2) env0_simps)
  show "heap_offer (0x800000, 0xA00000) h" unfolding heap_offer_def apart_def c chunk_addrs_eq [OF assms(1)] by simp
qed

text \<open>C13: The heap implements first fit on the segments of its chunks: \<open>malloc\<close> answers what the abstract search answers, with at most two new chunks, and
  \<open>free\<close> joins the segment with its free neighbours; the headers in memory describe the resulting segments (\<open>Heap::malloc\<close>, \<open>Heap::free\<close>).\<close>

theorem heap_refines_first_fit:
  assumes "heap_ok e h A" "hp_stream h" "\<forall>x. he_walker e x"
  shows "(heap_offer (c1, c2) h \<and> 0 < sz \<and> sz < 2 ^ 32 - 8272 \<longrightarrow>
      (case abs_passes e h (heap_need h sz) [c1, c2] A of (r, A') \<Rightarrow>
        \<exists>h'. heap_malloc e (w32 c1) (w32 c2) (w32 sz) allocatedBy desc h = Some (case r of None \<Rightarrow> 0 | Some a \<Rightarrow> w32 (a + 76), h') \<and> heap_ok e h' A' \<and> same_params h h')) \<and>
    ((a, n) \<in> heap_live e h A \<longrightarrow> (\<exists>h'. heap_free e (w32 (a + 76)) freedBy h = Some h' \<and> heap_ok e h' (abs_free e h a A) \<and> same_params h h'))"
proof -
  have "\<exists>h'. heap_malloc e (w32 c1) (w32 c2) (w32 sz) allocatedBy desc h = Some (case r of None \<Rightarrow> 0 | Some a \<Rightarrow> w32 (a + 76), h') \<and> heap_ok e h' A' \<and> same_params h h'"
    if o: "heap_offer (c1, c2) h" "0 < sz" "sz < 2 ^ 32 - 8272" and r: "abs_passes e h (heap_need h sz) [c1, c2] A = (r, A')" for r A'
  proof -
    have sz: "sz + 8272 < 2 ^ 32" using o(3) by simp
    from heap_malloc_ok [OF assms(1,2) heap_offer_fresh [OF assms(1) o(1)] assms(3) [rule_format] o(2) sz r, of allocatedBy desc] show ?thesis by blast
  qed
  moreover have "\<exists>h'. heap_free e (w32 (a + 76)) freedBy h = Some h' \<and> heap_ok e h' (abs_free e h a A) \<and> same_params h h'" if l: "(a, n) \<in> heap_live e h A"
    using heap_free_ok [OF assms(1) l assms(3) [rule_format], of freedBy] by blast
  ultimately show ?thesis by (auto split: prod.split)
qed

theorem heap_refines_first_fit_witness:
  "\<exists>h h'. heap_ok env0 h [(0x400000, [Used 3920 4272, Free 0x1FD000])] \<and>
     heap_free env0 0x401F9C 0 h = Some h' \<and> heap_ok env0 h' [(0x400000, [Free 0x1FF000])]"
proof -
  obtain h where h: "heap_malloc env0 0x400000 0x800000 100 0 None heap0 = Some (0x401F9C, h)" "heap_ok env0 h [(0x400000, [Used 3920 4272, Free 0x1FD000])]" "same_params heap0 h"
    using heap1_ex by blast
  note F = heap1_facts [OF h(2,3)]
  have st: "hp_stream h" by (simp add: same_paramsD [OF h(3)] env0_simps)
  have f: "abs_free env0 h 0x401F50 [(0x400000, [Used 3920 4272, Free 0x1FD000])] = [(0x400000, [Free 0x1FF000])]"
    by (simp add: abs_free_def same_paramsD(3) [OF h(3)] env0_need seg_free_def)
  have w: "\<forall>x. he_walker env0 x" by (simp add: env0_simps)
  from heap_refines_first_fit [OF h(2) st w, THEN conjunct2, of "0x401F50" 4272 0] show ?thesis
    unfolding F(1) f using h(2) by auto
qed

text \<open>On the segments, releasing what a search has found undoes it, but for a chunk that had to be added.\<close>

lemma abs_passes_free:
  assumes ok: "heap_ok e h A" "hp_stream h" "fresh_chunks h A [c1, c2]" and n: "0 < n" and r: "abs_passes e h n [c1, c2] A = (Some a, A')"
  shows "abs_free e h a A' = (if abs_alloc e h n A = None then A @ [(c1, new_segs e h c1)] else A)"
proof (cases "abs_alloc e h n A")
  case (Some x)
  then have "abs_alloc e h n A = Some (a, A')" using r by (cases x) simp
  from abs_alloc_free [OF this, of "[]" "{}" False] show ?thesis using ok(1) n Some by simp
next
  case None
  then have al: "abs_alloc e h n (A @ [(c1, new_segs e h c1)]) = Some (a, A')" using r by (auto split: option.splits)
  from heap_lock_ok [OF ok(1)] obtain h1 where h1: "heap_inv e h1 A {} True" "hp_options h1 = hp_options h" "hp_chunkSize h1 = hp_chunkSize h"
    "hp_mem h1 = hp_mem h" "hp_stream h1 = hp_stream h" by blast
  have pr: "same_params h h1" using h1 by (simp add: same_params_def)
  have st: "hp_stream h1" and f: "fresh_chunk h1 A c1" using ok(2,3) h1(5) fresh_chunks_cong [OF refl pr, of A "[c1, c2]"] by simp_all
  obtain h2 cl l where h2: "heap_inv e (h2\<lparr>hp_chunks := cl, hp_chunkList := l\<rparr>) (A @ [(c1, new_segs e h1 c1)]) {} True"
    "hp_options h2 = hp_options h1" "hp_chunkSize h2 = hp_chunkSize h1" "hp_stream h2 = hp_stream h1" "hp_mem h2 = hp_mem h1"
    by (rule heap_new_chunk [OF h1(1) st]) (use f in auto)
  let ?h = "h2\<lparr>hp_chunks := cl, hp_chunkList := l\<rparr>"
  have pr2: "same_params h ?h" using h1 h2 by (simp add: same_params_def)
  have "abs_free e ?h a A' = A @ [(c1, new_segs e h c1)]"
    by (rule abs_alloc_free [of _ _ _ _ _ _ "[]"]) (use al abs_alloc_params [OF pr2] h2(1) n same_paramsD(2,3) [OF pr] in simp_all)
  moreover have "abs_free e ?h a A' = abs_free e h a A'" by (simp only: abs_free_def same_paramsD(3) [OF pr2])
  ultimately show ?thesis using None by simp
qed

text \<open>
  C14: Releasing an allocation at once undoes it: after any request that is met (below the sizes for which the
  size computation wraps), \<open>free\<close> returns and the chunks have again
  the blocks they had before, whether the allocation had taken a block as a whole or split it.  If no chunk could meet the
  request and a chunk had to be added for it, that chunk stays, as one free block of its full size (\<open>Heap::malloc\<close>,
  \<open>Heap::free\<close>).
\<close>

theorem heap_malloc_free_restores:
  assumes "heap_ok e h A" "hp_stream h" "\<forall>x. he_walker e x" "heap_offer (c1, c2) h" "0 < sz" "sz < 2 ^ 32 - 8272"
    and run: "heap_malloc e (w32 c1) (w32 c2) (w32 sz) allocatedBy desc h = Some (p, h1)" "p \<noteq> 0"
  shows "\<exists>h2. heap_free e p freedBy h1 = Some h2 \<and>
    heap_ok e h2 (if abs_alloc e h (heap_need h sz) A = None then A @ [(c1, [Free (c1 + csize h - first_at e h c1)])] else A)"
proof -
  obtain r A' where r: "abs_passes e h (heap_need h sz) [c1, c2] A = (r, A')" by (cases "abs_passes e h (heap_need h sz) [c1, c2] A")
  have sz: "sz + 8272 < 2 ^ 32" using assms(6) by simp
  have fr: "fresh_chunks h A [c1, c2]" by (rule heap_offer_fresh [OF assms(1,4)])
  from heap_malloc_ok [OF assms(1,2) fr assms(3) [rule_format] assms(5) sz r, of allocatedBy desc] run obtain a where
    a: "r = Some a" "p = w32 (a + 76)" "heap_ok e h1 A'" "same_params h h1" "alloc_result e h (heap_need h sz) A (Some a) A'"
    by (cases r) auto
  have "(a, heap_need h sz) \<in> heap_live e h1 A'" using a(5) by (simp add: alloc_result_def heap_live_params [OF a(4)])
  from heap_free_ok [OF a(3) this assms(3) [rule_format], of freedBy] obtain h2 where
    h2: "heap_free e p freedBy h1 = Some h2" "heap_ok e h2 (abs_free e h1 a A')" unfolding a(2) by blast
  have "0 < heap_need h sz" using heap_need_bounds(1) [of sz h] assms(5) by linarith
  from abs_passes_free [OF assms(1,2) fr this r [unfolded a(1)]]
  have "abs_free e h1 a A' = (if abs_alloc e h (heap_need h sz) A = None then A @ [(c1, new_segs e h c1)] else A)"
    by (simp only: abs_free_def same_paramsD(3) [OF a(4)])
  then show ?thesis using h2 by auto
qed

text \<open>The first request of all, which takes a new chunk, and one more, which an existing chunk meets.\<close>

theorem heap_malloc_free_restores_witness:
  "\<exists>h h1 h2 p k k2. heap_malloc env0 0x400000 0x800000 100 0 None heap0 = Some (0x401F9C, h) \<and>
     heap_free env0 0x401F9C 0 h = Some k \<and> heap_ok env0 k [(0x400000, [Free 0x1FF000])] \<and>
     heap_ok env0 h [(0x400000, [Used 3920 4272, Free 0x1FD000])] \<and> heap_malloc env0 0x800000 0xA00000 100 0 None h = Some (p, h1) \<and> p \<noteq> 0 \<and>
     heap_free env0 p 0 h1 = Some h2 \<and> heap_ok env0 h2 [(0x400000, [Used 3920 4272, Free 0x1FD000])]"
proof -
  obtain h where h: "heap_malloc env0 0x400000 0x800000 100 0 None heap0 = Some (0x401F9C, h)" "heap_ok env0 h [(0x400000, [Used 3920 4272, Free 0x1FD000])]" "same_params heap0 h"
    using heap1_ex by blast
  note P = same_paramsD [OF h(3)]
  have w: "\<forall>x. he_walker env0 x" by (simp add: env0_simps)
  have ok: "heap_ok env0 heap0 []" by (rule heap_start_ok) (simp_all add: env0_def)
  have m: "heap_malloc env0 (w32 0x400000) (w32 0x800000) (w32 100) 0 None heap0 = Some (0x401F9C, h)" using h(1) by simp
  from heap_malloc_free_restores [OF ok env0_simps(4) w heap0_offer _ _ m, of 0] obtain k where
    k: "heap_free env0 0x401F9C 0 h = Some k" "heap_ok env0 k [(0x400000, [Free 0x1FF000])]" by (auto simp: env0_need env0_simps)
  have st: "hp_stream h" by (simp add: P env0_simps)
  let ?A = "[(0x400000, [Used 3920 4272, Free 0x1FD000])]"
  have al: "abs_alloc env0 h (heap_need h 100) ?A = Some (0x403F50, [(0x400000, [Used 3920 4272, Used 3920 4272, Free 0x1FB000])])"
    by (simp add: P(3,5,6) env0_need seg_take_def take_gap_def)
  then have r: "abs_passes env0 h (heap_need h 100) [0x800000, 0xA00000] ?A = (Some 0x403F50, [(0x400000, [Used 3920 4272, Used 3920 4272, Free 0x1FB000])])" by simp
  note of = heap1_facts(4) [OF h(2,3)]
  from heap_malloc_ok [OF h(2) st heap_offer_fresh [OF h(2) of] w [rule_format] _ _ r, of 0 None] obtain h1 where
    h1: "heap_malloc env0 (w32 0x800000) (w32 0xA00000) (w32 100) 0 None h = Some (0x403F9C, h1)" by auto
  from heap_malloc_free_restores [OF h(2) st w of _ _ h1, of 0, unfolded al] obtain h2 where "heap_free env0 0x403F9C 0 h1 = Some h2" "heap_ok env0 h2 ?A" by auto
  then show ?thesis using h k h1 by (intro exI [of _ h] exI [of _ h1] exI [of _ h2] exI [of _ "0x403F9C"] exI [of _ k]) simp
qed

text \<open>C15: In every state reached by calls to \<open>malloc\<close> and \<open>free\<close> the heap passes its own consistency checks: \<open>checkBlocks\<close> and \<open>checkAllocations\<close>
  return success, and all blocks, magics, parents, ranges and counters are as they demand.\<close>

theorem heap_run_checked:
  assumes "heap_run e h U" "\<forall>x. he_walker e x"
  shows "checkBlocks h = Some (ERROR_SUCCESS, h) \<and> checkAllocations h = Some (ERROR_SUCCESS, h)"
proof -
  obtain A where A: "heap_ok e h A" using heap_run_holds [OF assms] by (auto simp: heap_holds_def)
  show ?thesis using checkBlocks_ok [OF A] checkAllocations_ok [OF A] by simp
qed

theorem heap_run_checked_witness:
  "\<exists>h p. heap_run env0 h {(p, 100)} \<and> checkBlocks h = Some (ERROR_SUCCESS, h) \<and> checkAllocations h = Some (ERROR_SUCCESS, h)"
proof -
  obtain p h where r: "heap_malloc env0 (w32 0x400000) (w32 0x800000) (w32 100) 0 None heap0 = Some (p, h)" "p \<noteq> 0" "heap_run env0 h {(unat p, 100)}"
    using heap0_malloc by blast
  from heap_run_checked [OF r(3)] r(3) show ?thesis by (auto simp: env0_simps)
qed

theorem heap_run_progress_witness:
  "\<exists>h p h'. heap_run env0 h {(p, 100)} \<and> heap_free env0 (w32 p) 0 h = Some h' \<and> heap_run env0 h' {}"
proof -
  obtain p h where r: "heap_malloc env0 (w32 0x400000) (w32 0x800000) (w32 100) 0 None heap0 = Some (p, h)" "p \<noteq> 0" "heap_run env0 h {(unat p, 100)}"
    using heap0_malloc by blast
  have w: "\<forall>x. he_walker env0 x" by (simp add: env0_simps)
  from heap_run_progress [OF r(3) w, THEN conjunct1, of "unat p" 100 0] obtain h' where "heap_free env0 (w32 (unat p)) 0 h = Some h'" "heap_run env0 h' {}" by auto
  with r(3) show ?thesis by blast
qed

text \<open>C16: Once everything is given back, in whatever order, no fragmentation is left: every chunk is again one block of its full size.\<close>

theorem heap_run_no_fragments:
  assumes "heap_run e h {}" "\<forall>x. he_walker e x"
  shows "\<exists>A. heap_ok e h A \<and> (\<forall>c ss. (c, ss) \<in> set A \<longrightarrow> ss = [Free (c + csize h - first_at e h c)])"
proof -
  obtain V where V: "heap_holds e h V" "owned_by V {}" using heap_run_holds [OF assms] by blast
  then obtain A where A: "heap_ok e h A" "V = area h ` heap_live e h A" by (auto simp: heap_holds_def)
  have "V = {}" using V(2) by (auto simp: owned_by_def)
  then have "heap_live e h A = {}" using A(2) by simp
  from heap_all_free [OF A(1) this] show ?thesis using A(1) by blast
qed

theorem heap_run_no_fragments_witness:
  "\<exists>h A. heap_run env0 h {} \<and> 0x400000 \<in> set (map fst A) \<and> heap_ok env0 h A \<and> (\<forall>c ss. (c, ss) \<in> set A \<longrightarrow> ss = [Free (c + csize h - first_at env0 h c)])"
proof -
  obtain h where h: "heap_malloc env0 0x400000 0x800000 0x300000 0 None heap0 = Some (0, h)"
    "heap_ok env0 h [(0x400000, [Free 0x1FF000]), (0x800000, [Free 0x1FF000])]" "same_params heap0 h" using heap2_ex by blast
  have run: "heap_run env0 h {}" using run_malloc [OF heap0_run heap0_offer, of "0x300000" 0 None 0 h] h(1) by simp
  from heap_run_no_fragments [OF run] obtain A where A: "heap_ok env0 h A" "\<forall>c ss. (c, ss) \<in> set A \<longrightarrow> ss = [Free (c + csize h - first_at env0 h c)]"
    by (auto simp: env0_simps)
  have "set (map fst A) = chunk_addrs h" by (rule chunk_addrs_eq [OF A(1), symmetric])
  also have "\<dots> = {0x400000, 0x800000}" by (simp add: chunk_addrs_eq [OF h(2)])
  finally have "0x400000 \<in> set (map fst A)" by blast
  with run A show ?thesis by blast
qed

text \<open>C17: \<open>realloc\<close> in a heap with guard pages: when the area is large enough it is returned as it is; otherwise the contents are moved to a new area of
  the requested size and the old one is given back, or NULL is returned and the old area is kept.\<close>

theorem heap_realloc_guarded:
  assumes "heap_holds e h U" "(p, k) \<in> U" "guarded h"
  shows "(sz \<le> k \<longrightarrow> heap_realloc e m1 m2 caller (w32 p) (w32 sz) h = Some (w32 p, h)) \<and>
    (k < sz \<and> sz < 2 ^ 32 - 8272 \<and> heap_offer (c1, c2) h \<longrightarrow>
      (\<exists>q h'. heap_realloc e (w32 c1) (w32 c2) caller (w32 p) (w32 sz) h = Some (w32 q, h') \<and>
        (if q = 0 then heap_holds e h' U
         else (\<exists>l\<ge>sz. heap_holds e h' (insert (q, l) (U - {(p, k)}))) \<and> (\<forall>i<k. hp_mem h' (w32 (q + i)) = hp_mem h (w32 (p + i))))))"
  using realloc_fits [OF assms] realloc_moves [OF assms] by blast

theorem heap_realloc_guarded_witness:
  "\<exists>h. heap_holds env0 h {(0x401F9C, 100)} \<and> heap_realloc env0 0 0 0 0x401F9C 50 h = Some (0x401F9C, h) \<and>
     (\<exists>q h'. heap_realloc env0 0x800000 0xA00000 0 0x401F9C 200 h = Some (w32 q, h'))"
proof -
  obtain h where h: "heap_malloc env0 0x400000 0x800000 100 0 None heap0 = Some (0x401F9C, h)" "heap_ok env0 h [(0x400000, [Used 3920 4272, Free 0x1FD000])]" "same_params heap0 h"
    using heap1_ex by blast
  note F = heap1_facts [OF h(2,3)]
  have m: "(0x401F9C, 100) \<in> {(0x401F9C :: nat, 100 :: nat)}" by simp
  from heap_realloc_guarded [OF F(2) m F(3), of 50 0 0 0] heap_realloc_guarded [OF F(2) m F(3), of 200 0 0 0 "0x800000" "0xA00000"] F(2,4)
  show ?thesis by (intro exI [of _ h]) auto
qed

text \<open>C18: \<open>realloc\<close> with size 0 never releases the area: it is returned unchanged.  Without guard pages the size of a page is subtracted all the same and the
  difference wraps, so that an area of less than a page is returned as large enough for nearly every size.\<close>

theorem heap_realloc_defects:
  assumes "heap_holds e h U" "(p, k) \<in> U"
  shows "heap_realloc e m1 m2 caller (w32 p) 0 h = Some (w32 p, h) \<and>
    (\<not> guarded h \<and> k < 4096 \<and> sz \<le> 2 ^ 32 - 4096 \<longrightarrow> heap_realloc e m1 m2 caller (w32 p) (w32 sz) h = Some (w32 p, h))"
proof -
  obtain a n al where h: "p = a + 76" "k = n - overhead h" "w32 p - sizeof_Allocation = w32 a" "l_get (hp_allocs h) (w32 a) = Some al" "al_nBytes (ln_obj al) = w32 n"
    "al_magic (ln_obj al) = HEAP_ALLOC_MAGIC" "overhead h < n" "a + n < 2 ^ 32" "w32 p \<noteq> 0"
    "(if opt OPT_CHECK_ALLOCS_ON_FREE h then pl_find False (w32 a) (hp_allocs h) (hp_allocList h) else Some True) = Some True" "hp_pageSize h = 4096"
    by (rule holds_header [OF assms])
  have ret: "heap_realloc e m1 m2 caller (w32 p) z h = Some (w32 p, h)" if "z \<le> w32 n - sizeof_Allocation - 4096" for z
    unfolding heap_realloc_def Let_def h(3,4) using h(5,6,9,10,11) that by simp
  have "w32 sz \<le> w32 n - sizeof_Allocation - 4096" if "\<not> guarded h" "k < 4096" "sz \<le> 2 ^ 32 - 4096"
  proof -
    have ov: "overhead h = 76" using that(1) by (simp add: overhead_def)
    have nk: "n = k + 76" using h(2,7) ov by simp
    have "w32 n - sizeof_Allocation - 4096 = w32 k - 4096" unfolding nk by simp
    also have "\<dots> = w32 (2 ^ 32 - 4096 + k)" by simp
    finally have eq: "w32 n - sizeof_Allocation - 4096 = w32 (2 ^ 32 - 4096 + k)" .
    show ?thesis unfolding eq using that by (subst w32_le_iff) simp_all
  qed
  then show ?thesis using ret by simp
qed

text \<open>The kernel's heap with the guard pages switched off.\<close>

abbreviation heap0u :: heap where "heap0u \<equiv> heap_start 0x200000 14 (\<lambda>_. 0)"

theorem heap_realloc_defects_witness:
  "\<exists>h. heap_holds env0 h {(0x400088, 100)} \<and> \<not> guarded h \<and> heap_realloc env0 0 0 0 0x400088 0 h = Some (0x400088, h) \<and>
     heap_realloc env0 0 0 0 0x400088 1000000 h = Some (0x400088, h)"
proof -
  have S: "csize heap0u = 0x200000" "hp_stream heap0u" "\<not> guarded heap0u"
    by (simp_all add: env0_def heap_start_def heap_initialize_def heap_new_def pl_initialize_def opt_def)
  have ok: "heap_ok env0 heap0u []" by (rule heap_start_ok) (simp_all add: env0_def)
  have of: "heap_offer (0x400000, 0x800000) heap0u" unfolding heap_offer_def apart_def S(1) chunk_addrs_eq [OF ok] by simp
  have V: "overhead heap0u = 76" "first_at env0 heap0u 0x400000 = 0x40003C" "heap_need heap0u 100 = 176" "seg_gap heap0u 176 = 0"
    using S(3) by (simp_all add: overhead_def first_at_def heap_need_def seg_gap_def Let_def env0_simps)
  have r: "abs_passes env0 heap0u (heap_need heap0u 100) [0x400000, 0x800000] [] = (Some 0x40003C, [(0x400000, [Used 0 176, Free 0x1FFF14])])"
    unfolding V(3) by (simp add: V(2,4) S(1) seg_take_def take_gap_def)
  from heap_malloc_ok [OF ok S(2) heap_offer_fresh [OF ok of] _ _ _ r, of 0 None] obtain h where
    h: "heap_ok env0 h [(0x400000, [Used 0 176, Free 0x1FFF14])]" "same_params heap0u h" by (auto simp: env0_simps)
  note P = same_paramsD [OF h(2)]
  have st: "hp_stream h" "\<not> guarded h" using S P by simp_all
  have "{(0x400088, 100)} = area h ` heap_live env0 h [(0x400000, [Used 0 176, Free 0x1FFF14])]" by (simp add: heap_live_def P(3,4) V area_def)
  then have hh: "heap_holds env0 h {(0x400088, 100)}" unfolding heap_holds_def using st(1) h(1) env0_simps(2) by blast
  have m: "(0x400088, 100) \<in> {(0x400088 :: nat, 100 :: nat)}" by simp
  from heap_realloc_defects [OF hh m, of 0 0 0 1000000] hh st(2) show ?thesis by (intro exI [of _ h]) simp
qed

text \<open>The sum of size, header and guard page wraps: the largest sizes become requests for no memory at all.\<close>

lemma heap_size_wraps: "\<not> guarded h \<Longrightarrow> heap_size h (- 76) = 0"
  by (simp add: heap_size_def Let_def)

end
