(* ===== verification/MemReservoir.thy ===== *)
theory MemReservoir
  imports HeapProps
begin

text \<open>
  The memory reservoir behind the kernel's \<open>new\<close> and \<open>delete\<close> (\<open>__kclasses/memReservoir.cpp\<close>, \<open>include/__kclasses/memReservoir.h\<close>): small requests go
  to the kernel heap, large ones and those the heap cannot meet to the memory stream.  A word in front of each area tells where it came from.
\<close>

section \<open>State\<close>

abbreviation (input) RESERVOIR_MAGIC :: u32 where "RESERVOIR_MAGIC \<equiv> 0x2b2A1100"
abbreviation (input) RESERVOIR_FLAGS_KBOG :: u32 where "RESERVOIR_FLAGS_KBOG \<equiv> 1"
abbreviation (input) RESERVOIR_FLAGS_STREAM :: u32 where "RESERVOIR_FLAGS_STREAM \<equiv> 2"
abbreviation (input) RESERVOIR_FLAGS_MASK :: u32 where "RESERVOIR_FLAGS_MASK \<equiv> 0xF"
abbreviation (input) CHIPSET_MEMORY_KBOG_SIZE :: u32 where "CHIPSET_MEMORY_KBOG_SIZE \<equiv> 0x200000"
abbreviation (input) sizeof_Header :: u32 where "sizeof_Header \<equiv> 4"

text \<open>The calls of \<open>memFree\<close> on the source stream are recorded.\<close>

record reservoir =
  mr_kheap :: heap
  mr_ptrs :: u32
  mr_nHeaps :: u32
  mr_memFreed :: "u32 list"

text \<open>Words in memory, the low byte first.\<close>

definition read32 :: "(u32 \<Rightarrow> u8) \<Rightarrow> u32 \<Rightarrow> u32" where
  "read32 m a = ucast (m a) OR push_bit 8 (ucast (m (a + 1))) OR push_bit 16 (ucast (m (a + 2))) OR push_bit 24 (ucast (m (a + 3)))"

definition write32 :: "u32 \<Rightarrow> u32 \<Rightarrow> (u32 \<Rightarrow> u8) \<Rightarrow> u32 \<Rightarrow> u8" where
  "write32 a v m = m(a := ucast v, a + 1 := ucast (drop_bit 8 v), a + 2 := ucast (drop_bit 16 v), a + 3 := ucast (drop_bit 24 v))"

definition mr_poke :: "((u32 \<Rightarrow> u8) \<Rightarrow> u32 \<Rightarrow> u8) \<Rightarrow> reservoir \<Rightarrow> reservoir" where
  "mr_poke f r = r\<lparr>mr_kheap := (mr_kheap r)\<lparr>hp_mem := f (hp_mem (mr_kheap r))\<rparr>\<rparr>"

section \<open>Operations\<close>

definition mr_new :: "bool \<Rightarrow> (u32 \<Rightarrow> u8) \<Rightarrow> reservoir" where
  "mr_new sourceStream mem = \<lparr>mr_kheap = heap_new CHIPSET_MEMORY_KBOG_SIZE sourceStream
       (OPT_GUARD_PAGED OR OPT_CHECK_ALLOCS_ON_FREE OR OPT_CHECK_BLOCK_MAGIC_PASSIVELY OR OPT_CHECK_HEAP_RANGES_ON_FREE) mem,
     mr_ptrs = 0, mr_nHeaps = 0, mr_memFreed = []\<rparr>"

text \<open>\<open>page\<close> is the answer of \<open>memAlloc\<close>; the notification of the chipset at the end does not concern the reservoir.\<close>

definition mr_initialize :: "u32 \<Rightarrow> reservoir \<Rightarrow> error_t \<times> reservoir" where
  "mr_initialize page r =
     (let (ret, h) = heap_initialize (mr_kheap r); r = r\<lparr>mr_kheap := h\<rparr> in
      if ret \<noteq> ERROR_SUCCESS then (ret, r)
      else let r = r\<lparr>mr_ptrs := page\<rparr> in
        if page = 0 then (ERROR_MEMORY_NOMEM, r)
        else (ERROR_SUCCESS, mr_poke (\<lambda>m x. if x - page < 4096 then 0 else m x) r))"

text \<open>\<open>mem1\<close> and \<open>mem2\<close> are what the stream offers the heap, \<open>smem\<close> what it offers the reservoir itself.\<close>

definition mr_allocate :: "heap_env \<Rightarrow> u32 \<Rightarrow> u32 \<Rightarrow> u32 \<Rightarrow> u32 \<Rightarrow> u32 \<Rightarrow> reservoir \<Rightarrow> (u32 \<times> reservoir) option" where
  "mr_allocate e mem1 mem2 smem caller nBytes r =
     (if nBytes = 0 then None
      else do {
        let nBytes = nBytes + sizeof_Header;
        (ret, h) \<leftarrow> (if nBytes \<le> hp_chunkSize (mr_kheap r) then heap_malloc e mem1 mem2 nBytes caller None (mr_kheap r) else Some (0, mr_kheap r));
        let r = r\<lparr>mr_kheap := h\<rparr>;
        if ret \<noteq> 0 then Some (ret + sizeof_Header, mr_poke (write32 ret (RESERVOIR_MAGIC OR RESERVOIR_FLAGS_KBOG)) r)
        else if smem \<noteq> 0 then Some (smem + sizeof_Header, mr_poke (write32 smem (RESERVOIR_MAGIC OR RESERVOIR_FLAGS_STREAM)) r)
        else Some (0, r)
      })"

definition mr_magicOk :: "u32 \<Rightarrow> bool" where
  "mr_magicOk m \<longleftrightarrow> drop_bit 4 m = drop_bit 4 RESERVOIR_MAGIC"

definition mr_reallocate :: "heap_env \<Rightarrow> u32 \<Rightarrow> u32 \<Rightarrow> u32 \<Rightarrow> u32 \<Rightarrow> u32 \<Rightarrow> reservoir \<Rightarrow> (u32 \<times> reservoir) option" where
  "mr_reallocate e mem1 mem2 caller old nBytes r =
     (let nBytes = nBytes + sizeof_Header; resHdr = old - sizeof_Header in
      if \<not> mr_magicOk (read32 (hp_mem (mr_kheap r)) resHdr) then None
      else do {
        (p, h) \<leftarrow> heap_realloc e mem1 mem2 caller old nBytes (mr_kheap r);
        Some (p, r\<lparr>mr_kheap := h\<rparr>)
      })"

definition mr_free :: "heap_env \<Rightarrow> u32 \<Rightarrow> u32 \<Rightarrow> reservoir \<Rightarrow> reservoir option" where
  "mr_free e caller mem r =
     (if mem = 0 then Some r
      else do {
        let mem = mem - sizeof_Header;
        let magic = read32 (hp_mem (mr_kheap r)) mem;
        if \<not> mr_magicOk magic then Some r
        else if (magic AND RESERVOIR_FLAGS_MASK) AND RESERVOIR_FLAGS_STREAM \<noteq> 0 then Some (r\<lparr>mr_memFreed := mr_memFreed r @ [mem]\<rparr>)
        else if (magic AND RESERVOIR_FLAGS_MASK) AND RESERVOIR_FLAGS_KBOG \<noteq> 0 then do {
          h \<leftarrow> heap_free e mem caller (mr_kheap r);
          Some (r\<lparr>mr_kheap := h\<rparr>)
        }
        else Some r
      })"

section \<open>Words and ranges\<close>

lemma word_offset_neq: "0 < k \<Longrightarrow> k < 2 ^ 32 \<Longrightarrow> a + w32 k \<noteq> a"
  by (simp add: w32_zero_iff)

lemma join_byte: "take_bit k v OR push_bit k (ucast (ucast (drop_bit k v) :: u8)) = take_bit (k + 8) v" for v :: u32
  by (rule bit_word_eqI) (auto simp: bit_simps)

lemma read_write32: "read32 (write32 a v m) a = v"
proof -
  have n: "a \<noteq> a + 1" "a \<noteq> a + 2" "a \<noteq> a + 3" by simp_all
  have "read32 (write32 a v m) a = ((ucast (ucast v :: u8) OR push_bit 8 (ucast (ucast (drop_bit 8 v) :: u8))) OR
      push_bit 16 (ucast (ucast (drop_bit 16 v) :: u8))) OR push_bit 24 (ucast (ucast (drop_bit 24 v) :: u8))"
    using n by (simp add: read32_def write32_def or.assoc)
  also have "ucast (ucast v :: u8) = take_bit 8 v" using join_byte [of 0 v] by simp
  finally show ?thesis using join_byte [of 8 v] join_byte [of 16 v] join_byte [of 24 v] take_bit_word_eq_self [of 32 v] by simp
qed

lemma read32_cong:
  assumes "\<And>i. i < 4 \<Longrightarrow> m (a + w32 i) = m' (a + w32 i)"
  shows "read32 m a = read32 m' a"
  using assms [of 0] assms [of 1] assms [of 2] assms [of 3] by (simp add: read32_def)

lemma write32_other:
  assumes "a + 4 \<le> 2 ^ 32" "x < 2 ^ 32" "x < a \<or> a + 4 \<le> x"
  shows "write32 (w32 a) v m (w32 x) = m (w32 x)"
proof -
  have "w32 x \<noteq> w32 a + w32 i" if "i < 4" for i
    unfolding of_nat_add [symmetric] using assms that by (subst w32_eq_iff) auto
  from this [of 0] this [of 1] this [of 2] this [of 3] show ?thesis unfolding write32_def by simp
qed

section \<open>Further facts about the heap\<close>

lemma abs_alloc_fst: "abs_alloc e h n A = Some (a, A') \<Longrightarrow> map fst A' = map fst A"
  by (induction A arbitrary: A') (auto split: option.splits prod.splits)

lemma abs_passes_fst: "abs_passes e h n cs A = (r, A') \<Longrightarrow> set (map fst A') \<subseteq> set (map fst A) \<union> set cs"
proof (induction cs arbitrary: A)
  case (Cons c cs)
  show ?case
  proof (cases "abs_alloc e h n A")
    case None
    then show ?thesis using Cons.IH [of "A @ [(c, new_segs e h c)]"] Cons.prems by auto
  next
    case (Some x)
    then obtain a where "abs_alloc e h n A = Some (a, A')" using Cons.prems by (cases x) auto
    from abs_alloc_fst [OF this] show ?thesis by auto
  qed
qed simp

text \<open>A call to \<open>malloc\<close> adds no chunks but those offered, a call to \<open>free\<close> none.\<close>

lemma malloc_chunks:
  assumes hh: "heap_holds e h V" and o: "heap_offer (c1, c2) h" and n: "0 < n" "n < 2 ^ 32 - 8272"
    and run: "heap_malloc e (w32 c1) (w32 c2) (w32 n) caller desc h = Some (p, h')"
  shows "chunk_addrs h' \<subseteq> chunk_addrs h \<union> {c1, c2}"
proof -
  from hh obtain A where A: "heap_ok e h A" "hp_stream h" "\<And>x. he_walker e x" by (auto simp: heap_holds_def)
  obtain r A' where r: "abs_passes e h (heap_need h n) [c1, c2] A = (r, A')" by (cases "abs_passes e h (heap_need h n) [c1, c2] A")
  have sz: "n + 8272 < 2 ^ 32" using n by simp
  from heap_malloc_ok [OF A(1,2) heap_offer_fresh [OF A(1) o] A(3) n(1) sz r, of caller desc] run have ok: "heap_ok e h' A'" by auto
  show ?thesis using abs_passes_fst [OF r] unfolding chunk_addrs_eq [OF A(1)] chunk_addrs_eq [OF ok] by auto
qed

lemma free_chunks:
  assumes hh: "heap_holds e h V" and pk: "(p, k) \<in> V" and run: "heap_free e (w32 p) caller h = Some h'"
  shows "chunk_addrs h' = chunk_addrs h"
proof -
  from hh obtain A where A: "heap_ok e h A" "V = area h ` heap_live e h A" "\<And>x. he_walker e x" by (auto simp: heap_holds_def)
  from pk A(2) obtain a n where l: "(a, n) \<in> heap_live e h A" "p = a + 76" by (auto simp: area_def)
  from heap_free_ok [OF A(1) l(1) A(3), of caller] run l(2) have ok: "heap_ok e h' (abs_free e h a A)" by auto
  have "fst ` set (abs_free e h a A) = fst ` set A" by (force simp: abs_free_def)
  then show ?thesis unfolding chunk_addrs_eq [OF A(1)] chunk_addrs_eq [OF ok] by simp
qed

lemma holds_in_chunk:
  assumes "heap_holds e h V" "(p, k) \<in> V"
  shows "\<exists>d\<in>chunk_addrs h. d \<le> p \<and> p + k \<le> d + csize h"
proof -
  from assms(1) obtain A where A: "heap_ok e h A" "V = area h ` heap_live e h A" by (auto simp: heap_holds_def)
  from assms(2) A(2) obtain a n where l: "(a, n) \<in> heap_live e h A" "p = a + 76" "k = n - overhead h" by (auto simp: area_def)
  obtain c ss where b: "(c, ss) \<in> set A" "first_at e h c \<le> a" "a + n \<le> c + csize h" "overhead h < n" by (rule heap_live_bounds [OF A(1) l(1)])
  have "c \<in> chunk_addrs h" unfolding chunk_addrs_eq [OF A(1)] using b(1) by force
  moreover have "c \<le> first_at e h c" using first_at_bounds(1) [of c e h] by linarith
  moreover have "76 \<le> overhead h" by (simp add: overhead_def)
  ultimately show ?thesis using b l by (intro bexI [of _ c]) linarith+
qed

text \<open>Given an address that it did not hand out, \<open>realloc\<close> does not return.\<close>

lemma realloc_unknown:
  assumes hh: "heap_holds e h V" and o: "opt OPT_CHECK_ALLOCS_ON_FREE h" and q: "0 < q" "q < 2 ^ 32" "q \<notin> fst ` V"
  shows "heap_realloc e m1 m2 caller (w32 q) sz h = None"
proof -
  let ?a = "w32 q - sizeof_Allocation"
  have q0: "w32 q \<noteq> 0" using q by (simp add: w32_zero_iff)
  show ?thesis
  proof (cases "l_get (hp_allocs h) ?a")
    case None
    then show ?thesis using q0 by (simp add: heap_realloc_def)
  next
    case (Some n)
    from hh obtain A where A: "heap_ok e h A" "V = area h ` heap_live e h A" by (auto simp: heap_holds_def)
    obtain xs where xs: "pl_rep (hp_allocs h) (hp_allocList h) xs" "set xs = (w32 \<circ> fst) ` listed e h A {}" using A(1) unfolding heap_inv_def by blast
    have "?a \<notin> set xs"
    proof
      assume "?a \<in> set xs"
      then obtain b m where b: "(b, m) \<in> heap_live e h A" "?a = w32 b" using xs(2) by (auto simp: listed_def)
      obtain c ss where bd: "b + m < 2 ^ 32" "overhead h < m" by (rule heap_live_bounds [OF A(1) b(1)])
      have "w32 q = w32 (b + 76)" using b(2) by (simp add: diff_eq_eq)
      moreover have "b + 76 < 2 ^ 32" using bd by (simp add: overhead_def split: if_splits)
      ultimately have "q = b + 76" using q(2) by (simp only: w32_eq_iff)
      then have "q \<in> fst ` V" using b(1) A(2) by (force simp: area_def)
      then show False using q(3) by contradiction
    qed
    moreover have "?a \<noteq> 0" using Some by (auto simp: l_get_def split: if_splits)
    ultimately have "pl_find False ?a (hp_allocs h) (hp_allocList h) = Some False"
      using pl_find_rep [OF xs(1), of ?a False] heap_invD(4) [OF A(1)] by simp
    then show ?thesis using q0 Some o by (simp add: heap_realloc_def Let_def)
  qed
qed

section \<open>Sequences of calls\<close>

text \<open>Areas are named by the address of their header word and the size the client asked for; the client's bytes follow the header.\<close>

definition sep :: "nat \<Rightarrow> nat \<Rightarrow> nat \<Rightarrow> nat \<Rightarrow> bool" where
  "sep a k b l \<longleftrightarrow> a + k \<le> b \<or> b + l \<le> a"

text \<open>What the memory stream offers in a call: chunks for the heap and memory for the area itself, none of it in use.\<close>

definition mr_offer :: "nat \<Rightarrow> nat \<Rightarrow> nat \<Rightarrow> nat \<Rightarrow> reservoir \<Rightarrow> (nat \<times> nat) set \<Rightarrow> bool" where
  "mr_offer c1 c2 sm n r U \<longleftrightarrow> heap_offer (c1, c2) (mr_kheap r) \<and> sm + n + 4 < 2 ^ 32 \<and>
     (\<forall>(a, m)\<in>U. \<forall>d\<in>{c1, c2}. sep a (m + 4) d (csize (mr_kheap r))) \<and>
     (sm \<noteq> 0 \<longrightarrow> (\<forall>(a, m)\<in>U. sep sm (n + 4) a (m + 4)) \<and> (\<forall>d\<in>chunk_addrs (mr_kheap r) \<union> {c1, c2}. sep sm (n + 4) d (csize (mr_kheap r))))"

text \<open>
  Clients allocate, release, and write into their own areas.  \<open>H\<close> are the areas in use that the heap supplied, \<open>S\<close> those that
  came from the stream, which are those at the address the stream offered.
\<close>

definition from_stream :: "nat \<Rightarrow> u32 \<Rightarrow> bool" where
  "from_stream sm p \<longleftrightarrow> sm \<noteq> 0 \<and> p = w32 (sm + 4)"

inductive mr_run :: "heap_env \<Rightarrow> reservoir \<Rightarrow> (nat \<times> nat) set \<Rightarrow> (nat \<times> nat) set \<Rightarrow> bool" for e where
  mr_start: "0 < hdsize e \<Longrightarrow> hdsize e + 4136 \<le> 0x200000 \<Longrightarrow> mr_run e (snd (mr_initialize page (mr_new True mem))) {} {}"
| mr_alloc: "mr_run e r H S \<Longrightarrow> mr_offer c1 c2 sm n r (H \<union> S) \<Longrightarrow> 0 < n \<Longrightarrow> n < 2 ^ 32 - 8276 \<Longrightarrow>
    mr_allocate e (w32 c1) (w32 c2) (w32 sm) caller (w32 n) r = Some (p, r') \<Longrightarrow>
    mr_run e r' (if p = 0 \<or> from_stream sm p then H else insert (unat (p - 4), n) H) (if from_stream sm p then insert (sm, n) S else S)"
| mr_release: "mr_run e r H S \<Longrightarrow> (a, n) \<in> H \<union> S \<Longrightarrow> mr_free e caller (w32 (a + 4)) r = Some r' \<Longrightarrow>
    mr_run e r' (H - {(a, n)}) (S - {(a, n)})"
| mr_write: "mr_run e r H S \<Longrightarrow> (a, n) \<in> H \<union> S \<Longrightarrow> i < n \<Longrightarrow> mr_run e (mr_poke (\<lambda>m. m(w32 (a + 4 + i) := v)) r) H S"

abbreviation with_header :: "nat \<times> nat \<Rightarrow> nat \<times> nat" where "with_header x \<equiv> (fst x, snd x + 4)"

lemma with_header_remove: "with_header ` (H - {(a, n)}) = with_header ` H - {(a, n + 4)}"
  by (rule subset_antisym) (force simp: prod_eq_iff)+

text \<open>\<open>V\<close> are the areas in the heap's own records.\<close>

definition mr_areas :: "heap_env \<Rightarrow> heap \<Rightarrow> (nat \<times> nat) set \<Rightarrow> (nat \<times> nat) set \<Rightarrow> (nat \<times> nat) set \<Rightarrow> bool" where
  "mr_areas e h V H S \<longleftrightarrow> heap_holds e h V \<and> owned_by V (with_header ` H) \<and> hp_options h = 15 \<and>
     (\<forall>(a, n)\<in>S. 0 < n \<and> 0 < a \<and> a + n + 4 < 2 ^ 32) \<and> (\<forall>(a, n)\<in>H. 0 < n) \<and>
     (\<forall>x\<in>S. \<forall>y\<in>S. x \<noteq> y \<longrightarrow> sep (fst x) (snd x + 4) (fst y) (snd y + 4)) \<and> (\<forall>(a, n)\<in>S. \<forall>d\<in>chunk_addrs h. sep a (n + 4) d (csize h))"

definition mr_tags :: "(u32 \<Rightarrow> u8) \<Rightarrow> (nat \<times> nat) set \<Rightarrow> u32 \<Rightarrow> bool" where
  "mr_tags m X k \<longleftrightarrow> (\<forall>(a, n)\<in>X. read32 m (w32 a) = RESERVOIR_MAGIC OR k)"

definition mr_inv :: "heap_env \<Rightarrow> reservoir \<Rightarrow> (nat \<times> nat) set \<Rightarrow> (nat \<times> nat) set \<Rightarrow> bool" where
  "mr_inv e r H S \<longleftrightarrow> (\<exists>V. mr_areas e (mr_kheap r) V H S \<and>
     mr_tags (hp_mem (mr_kheap r)) H RESERVOIR_FLAGS_KBOG \<and> mr_tags (hp_mem (mr_kheap r)) S RESERVOIR_FLAGS_STREAM)"

lemma mr_areasD:
  assumes "mr_areas e h V H S"
  shows "heap_holds e h V" "owned_by V (with_header ` H)" "hp_options h = 15"
    "(a, n) \<in> S \<Longrightarrow> 0 < n \<and> 0 < a \<and> a + n + 4 < 2 ^ 32" "(a, n) \<in> H \<Longrightarrow> 0 < n"
    "x \<in> S \<Longrightarrow> y \<in> S \<Longrightarrow> x \<noteq> y \<Longrightarrow> sep (fst x) (snd x + 4) (fst y) (snd y + 4)"
    "(a, n) \<in> S \<Longrightarrow> d \<in> chunk_addrs h \<Longrightarrow> sep a (n + 4) d (csize h)"
  using assms unfolding mr_areas_def by blast+

lemma mr_heap_area:
  assumes "mr_areas e h V H S" "(a, n) \<in> H"
  shows "\<exists>k\<ge>n + 4. (a, k) \<in> V" "0 < a \<and> a + n + 4 < 2 ^ 32"
proof -
  have "(a, n + 4) \<in> with_header ` H" using assms(2) by force
  with owned_byD [OF mr_areasD(2) [OF assms(1)] this] obtain k where k: "n + 4 \<le> k" "(a, k) \<in> V" by blast
  then show "\<exists>k\<ge>n + 4. (a, k) \<in> V" by blast
  show "0 < a \<and> a + n + 4 < 2 ^ 32" using hp.areas_law [OF mr_areasD(1) [OF assms(1)] k(2)] k(1) by linarith
qed

lemma mr_bounds: "mr_areas e h V H S \<Longrightarrow> (a, n) \<in> H \<union> S \<Longrightarrow> 0 < n \<and> 0 < a \<and> a + n + 4 < 2 ^ 32"
  by (auto dest: mr_heap_area(2) mr_areasD(4,5))

lemma mr_sep:
  assumes P: "mr_areas e h V H S" and x: "(a, n) \<in> H \<union> S" "(b, m) \<in> H \<union> S" "(a, n) \<noteq> (b, m)"
  shows "sep a (n + 4) b (m + 4)"
proof -
  have HS: "sep a (n + 4) b (m + 4)" if s: "(a, n) \<in> S" "(b, m) \<in> H" for a n b m
  proof -
    obtain k where k: "m + 4 \<le> k" "(b, k) \<in> V" using mr_heap_area [OF P s(2)] by blast
    obtain d where "d \<in> chunk_addrs h" "d \<le> b" "b + k \<le> d + csize h" using holds_in_chunk [OF mr_areasD(1) [OF P] k(2)] by blast
    with mr_areasD(7) [OF P s(1) this(1)] k(1) show ?thesis unfolding sep_def by linarith
  qed
  have HH: "sep a (n + 4) b (m + 4)" if s: "(a, n) \<in> H" "(b, m) \<in> H"
  proof -
    obtain k l where k: "n + 4 \<le> k" "(a, k) \<in> V" "m + 4 \<le> l" "(b, l) \<in> V" using mr_heap_area [OF P s(1)] mr_heap_area [OF P s(2)] by blast
    have "inj_on fst (with_header ` H)" using mr_areasD(2) [OF P] by (simp add: owned_by_def)
    moreover have "(a, n + 4) \<in> with_header ` H" "(b, m + 4) \<in> with_header ` H" using s by force+
    ultimately have "a \<noteq> b" using x(3) inj_onD [of fst "with_header ` H" "(a, n + 4)" "(b, m + 4)"] by auto
    from hp.disjoint_law [OF mr_areasD(1) [OF P] k(2,4) this] k(1,3) show ?thesis unfolding sep_def by linarith
  qed
  consider "(a, n) \<in> H" "(b, m) \<in> H" | "(a, n) \<in> S" "(b, m) \<in> H" | "(a, n) \<in> H" "(b, m) \<in> S" | "(a, n) \<in> S" "(b, m) \<in> S" using x by blast
  then show ?thesis
  proof cases
    case 3
    then show ?thesis using HS [of b m a n] by (auto simp: sep_def)
  next
    case 4
    then show ?thesis using mr_areasD(6) [OF P, of "(a, n)" "(b, m)"] x(3) by simp
  qed (use HS HH in blast)+
qed

lemma mr_areas_mem: "mr_areas e (h\<lparr>hp_mem := m\<rparr>) V H S = mr_areas e h V H S"
  by (simp add: mr_areas_def holds_mem chunk_addrs_def)

text \<open>The header words survive a change of other memory.\<close>

lemma mr_tags_keep:
  assumes "mr_tags m X k" "\<And>a n i. (a, n) \<in> X \<Longrightarrow> i < 4 \<Longrightarrow> m' (w32 (a + i)) = m (w32 (a + i))"
  shows "mr_tags m' X k"
proof -
  have "read32 m' (w32 a) = read32 m (w32 a)" if "(a, n) \<in> X" for a n by (rule read32_cong) (use assms(2) [OF that] in simp)
  then show ?thesis using assms(1) by (auto simp: mr_tags_def)
qed

lemma mr_tags_new:
  assumes "mr_tags m X k" "b + 4 \<le> 2 ^ 32" "\<And>a n. (a, n) \<in> X \<Longrightarrow> a + 4 \<le> 2 ^ 32 \<and> sep a 4 b 4"
  shows "mr_tags (write32 (w32 b) v m) X k"
proof (rule mr_tags_keep [OF assms(1)])
  fix a n i :: nat assume "(a, n) \<in> X" "i < 4"
  with assms(3) [OF this(1)] show "write32 (w32 b) v m (w32 (a + i)) = m (w32 (a + i))" by (intro write32_other [OF assms(2)]) (auto simp: sep_def)
qed

lemma mr_tags_insert: "mr_tags m (insert (a, n) X) k \<longleftrightarrow> read32 m (w32 a) = RESERVOIR_MAGIC OR k \<and> mr_tags m X k"
  by (auto simp: mr_tags_def)

lemma mr_tags_mono: "mr_tags m X k \<Longrightarrow> Y \<subseteq> X \<Longrightarrow> mr_tags m Y k"
  by (auto simp: mr_tags_def)

text \<open>A new area with its header.\<close>

lemma mr_new_area:
  assumes old: "mr_tags m H KB" "mr_tags m S ST" and new: "mr_areas e h V H' S'" and m: "hp_mem h = m"
    and cs: "H' = insert (a, n) H \<and> S' = S \<and> k = KB \<or> H' = H \<and> S' = insert (a, n) S \<and> k = ST" and fresh: "(a, n) \<notin> H \<union> S"
  shows "mr_tags (write32 (w32 a) (RESERVOIR_MAGIC OR k) m) H' KB \<and> mr_tags (write32 (w32 a) (RESERVOIR_MAGIC OR k) m) S' ST"
proof -
  have mem: "(a, n) \<in> H' \<union> S'" "H \<union> S \<subseteq> H' \<union> S'" using cs by auto
  have b: "a + 4 \<le> 2 ^ 32" using mr_bounds [OF new mem(1)] by simp
  have o: "b + 4 \<le> 2 ^ 32 \<and> sep b 4 a 4" if "(b, l) \<in> H \<union> S" for b l
  proof -
    have "(b, l) \<in> H' \<union> S'" "(b, l) \<noteq> (a, n)" using that mem fresh by auto
    with mr_sep [OF new this(1) mem(1)] mr_bounds [OF new this(1)] show ?thesis by (auto simp: sep_def)
  qed
  have "mr_tags (write32 (w32 a) (RESERVOIR_MAGIC OR k) m) H KB" "mr_tags (write32 (w32 a) (RESERVOIR_MAGIC OR k) m) S ST"
    using mr_tags_new [OF old(1) b] mr_tags_new [OF old(2) b] o by blast+
  then show ?thesis using cs by (auto simp: mr_tags_insert read_write32)
qed

section \<open>The invariant\<close>

lemma mr_kheap_poke [simp]: "mr_kheap (mr_poke f r) = (mr_kheap r)\<lparr>hp_mem := f (hp_mem (mr_kheap r))\<rparr>"
  by (simp add: mr_poke_def)

lemma mr_areas_step:
  assumes P: "mr_areas e h V H S" and h': "same_params h h'" "heap_holds e h' V'" "owned_by V' (with_header ` H')" "\<And>a n. (a, n) \<in> H' \<Longrightarrow> 0 < n"
    "chunk_addrs h' \<subseteq> chunk_addrs h \<union> C" "\<And>a n d. (a, n) \<in> S \<Longrightarrow> d \<in> C \<Longrightarrow> sep a (n + 4) d (csize h)"
  shows "mr_areas e h' V' H' S"
proof -
  have "csize h' = csize h" "hp_options h' = hp_options h" using h'(1) by (simp_all add: same_params_def)
  moreover have "sep a (n + 4) d (csize h)" if "(a, n) \<in> S" "d \<in> chunk_addrs h'" for a n d
    using that h'(5,6) mr_areasD(7) [OF P that(1)] by blast
  ultimately show ?thesis using P h'(2-4) unfolding mr_areas_def by auto
qed

lemma mr_areas_stream:
  assumes P: "mr_areas e h V H S" and n: "0 < n" "0 < a" "a + n + 4 < 2 ^ 32"
    and o: "\<And>b m. (b, m) \<in> S \<Longrightarrow> sep a (n + 4) b (m + 4)" "\<And>d. d \<in> chunk_addrs h \<Longrightarrow> sep a (n + 4) d (csize h)"
  shows "mr_areas e h V H (insert (a, n) S)"
proof -
  have "sep (fst x) (snd x + 4) (fst y) (snd y + 4)" if xy: "x \<in> insert (a, n) S" "y \<in> insert (a, n) S" "x \<noteq> y" for x y
  proof -
    consider "x = (a, n)" "y \<in> S" | "y = (a, n)" "x \<in> S" | "x \<in> S" "y \<in> S" using xy by blast
    then show ?thesis
    proof cases
      case 1
      then show ?thesis using o(1) [of "fst y" "snd y"] by simp
    next
      case 2
      then show ?thesis using o(1) [of "fst x" "snd x"] by (auto simp: sep_def)
    qed (use xy mr_areasD(6) [OF P] in blast)
  qed
  then show ?thesis using P n o(2) unfolding mr_areas_def by auto
qed

text \<open>What the heap answers to the reservoir.\<close>

lemma mr_heap_answer:
  assumes hh: "heap_holds e h V" and o: "heap_offer (c1, c2) h" and n: "0 < n" "n < 2 ^ 32 - 8276"
  shows "\<exists>ret h'. (if w32 n + 4 \<le> hp_chunkSize h then heap_malloc e (w32 c1) (w32 c2) (w32 n + 4) caller None h else Some (0, h)) = Some (ret, h') \<and>
    same_params h h' \<and> chunk_addrs h' \<subseteq> chunk_addrs h \<union> {c1, c2} \<and>
    (if ret = 0 then heap_holds e h' V else (\<exists>k\<ge>n + 4. heap_holds e h' (insert (unat ret, k) V)) \<and> unat ret \<notin> fst ` V)"
proof -
  have w: "w32 n + 4 = w32 (n + 4)" by simp
  have n4: "0 < n + 4" "n + 4 < 2 ^ 32 - 8272" using n by simp_all
  from heap_get_law [OF hh o n4, of caller None] obtain ret h' where
    r: "heap_malloc e (w32 c1) (w32 c2) (w32 (n + 4)) caller None h = Some (ret, h')" "same_params h h'"
      "if unat ret = 0 then heap_holds e h' V else (\<exists>k\<ge>n + 4. heap_holds e h' (insert (unat ret, k) V)) \<and> unat ret \<notin> fst ` V" by blast
  show ?thesis
  proof (cases "w32 n + 4 \<le> hp_chunkSize h")
    case True
    then show ?thesis unfolding w using r malloc_chunks [OF hh o n4 r(1)] by (intro exI [of _ ret] exI [of _ h']) (simp add: unat_eq_0)
  next
    case False
    then show ?thesis using hh by (auto simp: same_params_def)
  qed
qed

lemma mr_inv_heap_area:
  assumes P: "mr_areas e h V H S" and T: "mr_tags (hp_mem h) H 1" "mr_tags (hp_mem h) S 2" and r: "mr_kheap r = h'" "hp_mem h' = hp_mem h"
    and k: "n + 4 \<le> k" "heap_holds e h' (insert (a, k) V)" "a \<notin> fst ` V" and P': "mr_areas e h' (insert (a, k) V) (insert (a, n) H) S"
  shows "mr_inv e (mr_poke (write32 (w32 a) (RESERVOIR_MAGIC OR 1)) r) (insert (a, n) H) S \<and> a + n + 4 < 2 ^ 32"
proof -
  have H: "(a, n) \<notin> H" using k(3) mr_heap_area(1) [OF P] by force
  have S: "(a, n) \<notin> S"
  proof
    assume s: "(a, n) \<in> S"
    obtain d where "d \<in> chunk_addrs h'" "d \<le> a" "a + k \<le> d + csize h'" using holds_in_chunk [OF k(2), of a k] by auto
    with mr_areasD(7) [OF P' s this(1)] k(1) show False unfolding sep_def by linarith
  qed
  have "mr_tags (write32 (w32 a) (RESERVOIR_MAGIC OR 1) (hp_mem h)) (insert (a, n) H) 1 \<and> mr_tags (write32 (w32 a) (RESERVOIR_MAGIC OR 1) (hp_mem h)) S 2"
    by (rule mr_new_area [OF T P' r(2)]) (use H S in auto)
  then have "mr_inv e (mr_poke (write32 (w32 a) (RESERVOIR_MAGIC OR 1)) r) (insert (a, n) H) S"
    unfolding mr_inv_def using P' r by (intro exI [of _ "insert (a, k) V"]) (simp add: mr_areas_mem)
  then show ?thesis using mr_bounds [OF P', of a n] by simp
qed

lemma mr_inv_stream_area:
  assumes T: "mr_tags (hp_mem h) H 1" "mr_tags (hp_mem h) S 2" and r: "mr_kheap r = h'" "hp_mem h' = hp_mem h"
    and P': "mr_areas e h' V H (insert (a, n) S)" and f: "(a, n) \<notin> H \<union> S"
  shows "mr_inv e (mr_poke (write32 (w32 a) (RESERVOIR_MAGIC OR 2)) r) H (insert (a, n) S)"
proof -
  have "mr_tags (write32 (w32 a) (RESERVOIR_MAGIC OR 2) (hp_mem h)) H 1 \<and> mr_tags (write32 (w32 a) (RESERVOIR_MAGIC OR 2) (hp_mem h)) (insert (a, n) S) 2"
    by (rule mr_new_area [OF T P' r(2)]) (use f in auto)
  then show ?thesis unfolding mr_inv_def using P' r
    by (intro exI [of _ V]) (simp add: mr_areas_mem)
qed

text \<open>Whenever the stream has memory for the area itself, the request is met.\<close>

lemma mr_alloc_inv:
  assumes inv: "mr_inv e r H S" and o: "mr_offer c1 c2 sm n r (H \<union> S)" and n: "0 < n" "n < 2 ^ 32 - 8276"
  shows "\<exists>p r'. mr_allocate e (w32 c1) (w32 c2) (w32 sm) caller (w32 n) r = Some (p, r') \<and>
    mr_inv e r' (if p = 0 \<or> from_stream sm p then H else insert (unat (p - 4), n) H) (if from_stream sm p then insert (sm, n) S else S) \<and>
    (sm \<noteq> 0 \<longrightarrow> p \<noteq> 0)"
proof -
  let ?h = "mr_kheap r"
  from inv obtain V where P: "mr_areas e ?h V H S" and T: "mr_tags (hp_mem ?h) H 1" "mr_tags (hp_mem ?h) S 2" by (auto simp: mr_inv_def)
  have O: "heap_offer (c1, c2) ?h" "sm + n + 4 < 2 ^ 32" "\<And>a m d. (a, m) \<in> H \<union> S \<Longrightarrow> d \<in> {c1, c2} \<Longrightarrow> sep a (m + 4) d (csize ?h)"
    "\<And>a m. sm \<noteq> 0 \<Longrightarrow> (a, m) \<in> H \<union> S \<Longrightarrow> sep sm (n + 4) a (m + 4)"
    "\<And>d. sm \<noteq> 0 \<Longrightarrow> d \<in> chunk_addrs ?h \<union> {c1, c2} \<Longrightarrow> sep sm (n + 4) d (csize ?h)" using o unfolding mr_offer_def by blast+
  from mr_heap_answer [OF mr_areasD(1) [OF P] O(1) n, of caller] obtain ret h' where
    a: "(if w32 n + 4 \<le> hp_chunkSize ?h then heap_malloc e (w32 c1) (w32 c2) (w32 n + 4) caller None ?h else Some (0, ?h)) = Some (ret, h')"
      "same_params ?h h'" "chunk_addrs h' \<subseteq> chunk_addrs ?h \<union> {c1, c2}"
      "if ret = 0 then heap_holds e h' V else (\<exists>k\<ge>n + 4. heap_holds e h' (insert (unat ret, k) V)) \<and> unat ret \<notin> fst ` V" by blast
  have m: "hp_mem h' = hp_mem ?h" and c: "csize h' = csize ?h" using a(2) by (simp_all add: same_params_def)
  have n0: "w32 n \<noteq> 0" using n by (intro w32_nz) auto
  let ?r = "r\<lparr>mr_kheap := h'\<rparr>"
  have run: "mr_allocate e (w32 c1) (w32 c2) (w32 sm) caller (w32 n) r =
      (if ret \<noteq> 0 then Some (ret + 4, mr_poke (write32 ret (RESERVOIR_MAGIC OR 1)) ?r)
       else if w32 sm \<noteq> 0 then Some (w32 sm + 4, mr_poke (write32 (w32 sm) (RESERVOIR_MAGIC OR 2)) ?r) else Some (0, ?r))"
    unfolding mr_allocate_def Let_def a(1) using n0 by simp
  note step = mr_areas_step [OF P a(2) _ _ _ a(3)]
  consider "ret \<noteq> 0" | "ret = 0" "sm = 0" | "ret = 0" "sm \<noteq> 0" by blast
  then show ?thesis
  proof cases
    case 1
    then obtain k where k: "n + 4 \<le> k" "heap_holds e h' (insert (unat ret, k) V)" "unat ret \<notin> fst ` V" using a(4) by auto
    have ow: "owned_by (insert (unat ret, k) V) (with_header ` insert (unat ret, n) H)" using owned_insert [OF mr_areasD(2) [OF P] k(3) _ k(1)] by simp
    have P': "mr_areas e h' (insert (unat ret, k) V) (insert (unat ret, n) H) S" by (rule step [OF k(2) ow]) (use n(1) mr_areasD(5) [OF P] O(3) in auto)
    note i = mr_inv_heap_area [OF P T _ m k P', of ?r]
    then have "ret + 4 \<noteq> 0" using w32_nz [of "unat ret + 4"] by simp
    moreover have "\<not> from_stream sm (ret + 4)"
    proof
      assume "from_stream sm (ret + 4)"
      then have sm: "sm \<noteq> 0" "ret = w32 sm" by (simp_all add: from_stream_def)
      then have "unat ret = sm" using O(2) unat_w32 [of sm] by simp
      moreover obtain d where "d \<in> chunk_addrs h'" "d \<le> unat ret" "unat ret + k \<le> d + csize h'" using holds_in_chunk [OF k(2), of "unat ret" k] by auto
      moreover have "sep sm (n + 4) d (csize h')" using O(5) [OF sm(1), of d] a(3) c \<open>d \<in> chunk_addrs h'\<close> by auto
      ultimately show False using k(1) unfolding sep_def by linarith
    qed
    ultimately show ?thesis using run 1 i by simp
  next
    case 2
    then have "mr_areas e h' V H S" by (intro step) (use a(4) mr_areasD(2,5) [OF P] O(3) in auto)
    then have "mr_inv e ?r H S" unfolding mr_inv_def using T m by (intro exI [of _ V]) simp
    then show ?thesis using run 2 by (simp add: from_stream_def)
  next
    case 3
    then have "mr_areas e h' V H S" by (intro step) (use a(4) mr_areasD(2,5) [OF P] O(3) in auto)
    then have P': "mr_areas e h' V H (insert (sm, n) S)" by (rule mr_areas_stream [OF _ n(1)]) (use 3 O(2,4,5) a(3) c in auto)
    have "(sm, n) \<notin> H \<union> S" using O(4) [OF 3(2), of sm n] n(1) by (auto simp: sep_def)
    note i = mr_inv_stream_area [OF T _ m P' this, of ?r]
    have "w32 sm \<noteq> 0" "w32 sm + 4 \<noteq> 0" "unat (w32 sm) = sm" using 3(2) O(2) w32_nz [of sm] w32_nz [of "sm + 4"] unat_w32 [of sm] by simp_all
    then show ?thesis using run 3 i by (simp add: from_stream_def)
  qed
qed

lemma mr_release_inv:
  assumes inv: "mr_inv e r H S" and a: "(a, n) \<in> H \<union> S"
  shows "H \<inter> S = {} \<and> (\<exists>r'. mr_free e caller (w32 (a + 4)) r = Some r' \<and> mr_inv e r' (H - {(a, n)}) (S - {(a, n)}) \<and>
    (if (a, n) \<in> S then mr_memFreed r' = mr_memFreed r @ [w32 a] \<and> mr_kheap r' = mr_kheap r
     else heap_free e (w32 a) caller (mr_kheap r) = Some (mr_kheap r') \<and> mr_memFreed r' = mr_memFreed r))"
proof -
  let ?h = "mr_kheap r"
  from inv obtain V where P: "mr_areas e ?h V H S" and T: "mr_tags (hp_mem ?h) H 1" "mr_tags (hp_mem ?h) S 2" by (auto simp: mr_inv_def)
  have b: "0 < n" "0 < a" "a + n + 4 < 2 ^ 32" using mr_bounds [OF P] a by blast+
  have z: "w32 (a + 4) \<noteq> 0" "w32 (a + 4) - 4 = w32 a" using b w32_nz [of "a + 4"] by simp_all
  have mg: "mr_magicOk (RESERVOIR_MAGIC OR 1)" "mr_magicOk (RESERVOIR_MAGIC OR 2)" by (simp_all add: mr_magicOk_def)
  have dis: "H \<inter> S = {}"
  proof (rule ccontr)
    assume "H \<inter> S \<noteq> {}"
    then obtain b l where bl: "(b, l) \<in> H" "(b, l) \<in> S" by auto
    then have "read32 (hp_mem ?h) (w32 b) = RESERVOIR_MAGIC OR 1" "read32 (hp_mem ?h) (w32 b) = RESERVOIR_MAGIC OR 2" using T unfolding mr_tags_def by blast+
    then show False by simp
  qed
  show ?thesis
  proof (cases "(a, n) \<in> H")
    case True
    then have t: "read32 (hp_mem ?h) (w32 a) = RESERVOIR_MAGIC OR 1" using T by (auto simp: mr_tags_def)
    obtain k where k: "(a, k) \<in> V" using mr_heap_area(1) [OF P True] by blast
    from heap_put_law [OF mr_areasD(1) [OF P] k, of caller] obtain h' where
      h': "heap_free e (w32 a) caller ?h = Some h'" "same_params ?h h'" "heap_holds e h' (V - {(a, k)})" by blast
    have "(a, n + 4) \<in> with_header ` H" using True by force
    from owned_remove [OF mr_areasD(2) [OF P] this k] have ow: "owned_by (V - {(a, k)}) (with_header ` (H - {(a, n)}))"
      by (simp only: with_header_remove)
    have P': "mr_areas e h' (V - {(a, k)}) (H - {(a, n)}) S"
      by (rule mr_areas_step [OF P h'(2,3) ow, of "{}"]) (use mr_areasD(5) [OF P] free_chunks [OF mr_areasD(1) [OF P] k h'(1)] in auto)
    have m: "hp_mem h' = hp_mem ?h" using h'(2) by (simp add: same_params_def)
    have "S - {(a, n)} = S" "(a, n) \<notin> S" using dis True by blast+
    then have "mr_inv e (r\<lparr>mr_kheap := h'\<rparr>) (H - {(a, n)}) (S - {(a, n)})" unfolding mr_inv_def
      using P' mr_tags_mono [OF T(1), of "H - {(a, n)}"] T(2) m by (intro exI [of _ "V - {(a, k)}"]) simp
    then show ?thesis using z t mg h'(1) dis \<open>(a, n) \<notin> S\<close> by (intro conjI exI [of _ "r\<lparr>mr_kheap := h'\<rparr>"]) (simp_all add: mr_free_def)
  next
    case False
    then have s: "(a, n) \<in> S" using a by simp
    then have t: "read32 (hp_mem ?h) (w32 a) = RESERVOIR_MAGIC OR 2" using T by (auto simp: mr_tags_def)
    have "mr_areas e ?h V H (S - {(a, n)})" using P unfolding mr_areas_def by blast
    moreover have "H - {(a, n)} = H" using False by blast
    ultimately have "mr_inv e (r\<lparr>mr_memFreed := mr_memFreed r @ [w32 a]\<rparr>) (H - {(a, n)}) (S - {(a, n)})" unfolding mr_inv_def
      using T(1) mr_tags_mono [OF T(2), of "S - {(a, n)}"] by (intro exI [of _ V]) simp
    then show ?thesis using z t mg s dis by (intro conjI exI [of _ "r\<lparr>mr_memFreed := mr_memFreed r @ [w32 a]\<rparr>"]) (simp_all add: mr_free_def)
  qed
qed

lemma mr_write_inv:
  assumes inv: "mr_inv e r H S" and a: "(a, n) \<in> H \<union> S" "i < n"
  shows "mr_inv e (mr_poke (\<lambda>m. m(w32 (a + 4 + i) := v)) r) H S"
proof -
  let ?h = "mr_kheap r" and ?f = "\<lambda>m. m(w32 (a + 4 + i) := v)"
  from inv obtain V where P: "mr_areas e ?h V H S" and T: "mr_tags (hp_mem ?h) H 1" "mr_tags (hp_mem ?h) S 2" by (auto simp: mr_inv_def)
  have k: "?f (hp_mem ?h) (w32 (b + j)) = hp_mem ?h (w32 (b + j))" if "(b, m) \<in> H \<union> S" "j < 4" for b m j
  proof -
    have "b + j \<noteq> a + 4 + i" "b + j < 2 ^ 32" "a + 4 + i < 2 ^ 32"
      using mr_sep [OF P, of a n b m] mr_bounds [OF P, of a n] mr_bounds [OF P, of b m] that a by (cases "(a, n) = (b, m)"; auto simp: sep_def)+
    then have "w32 (b + j) \<noteq> w32 (a + 4 + i)" by (simp only: w32_eq_iff not_False_eq_True)
    then show ?thesis by (simp only: fun_upd_apply if_False)
  qed
  have "mr_tags (?f (hp_mem ?h)) H 1" "mr_tags (?f (hp_mem ?h)) S 2"
    by (rule mr_tags_keep [OF T(1) k] mr_tags_keep [OF T(2) k]; auto)+
  then show ?thesis unfolding mr_inv_def using P by (intro exI [of _ V]) (simp add: mr_areas_mem)
qed

lemma mr_run_inv:
  assumes "mr_run e r H S" and walk: "\<forall>x. he_walker e x"
  shows "mr_inv e r H S"
  using assms(1)
proof induction
  case (mr_start page mem)
  let ?h = "heap_start 0x200000 15 mem"
  obtain m where r: "mr_kheap (snd (mr_initialize page (mr_new True mem))) = ?h\<lparr>hp_mem := m\<rparr>"
    by (cases "page = 0") (auto simp: mr_initialize_def mr_new_def heap_start_def heap_initialize_def pl_initialize_def heap_new_def mr_poke_def Let_def)
  have "heap_run e ?h {}" by (rule run_start) (use mr_start in simp_all)
  then obtain V where "heap_holds e ?h V" "owned_by V {}" using heap_run_holds walk by blast
  moreover have "hp_options ?h = 15" by (simp add: heap_start_def heap_initialize_def pl_initialize_def heap_new_def)
  ultimately have "mr_areas e ?h V {} {}" by (simp add: mr_areas_def)
  then show ?case unfolding mr_inv_def r by (intro exI [of _ V]) (simp add: mr_areas_mem mr_tags_def)
next
  case (mr_alloc r H S c1 c2 sm n caller p r')
  from mr_alloc_inv [OF mr_alloc.IH mr_alloc.hyps(2-4), of caller] show ?case unfolding mr_alloc.hyps(5) option.inject prod.inject by blast
next
  case (mr_release r H S a n caller r')
  from mr_release_inv [OF mr_release.IH mr_release.hyps(2), of caller] show ?case unfolding mr_release.hyps(3) option.inject by blast
next
  case (mr_write r H S a n i v)
  then show ?case using mr_write_inv by blast
qed

section \<open>Properties\<close>

text \<open>
  C19: Memory from the reservoir, in every state that allocations, releases and writes of clients into their own areas lead
  to, where \<open>H\<close> are the areas that came from the heap and \<open>S\<close> those that came from the stream: no area is of both kinds,
  and the areas in use lie apart from each other together with their header words.  Releasing an area returns and hands it
  back where it came from: an area of the stream is passed to \<open>memFree\<close> of the stream and the heap is left alone, an area
  of the heap is freed by the heap and nothing is passed to the stream.  A request returns, and it is met whenever the
  stream has memory for it (\<open>MemReservoir::allocate\<close>, \<open>MemReservoir::free\<close>).
\<close>

theorem reservoir_safe:
  assumes "mr_run e r H S" "\<forall>x. he_walker e x" "(a, n) \<in> H \<union> S"
  shows "H \<inter> S = {} \<and> (\<forall>b m. (b, m) \<in> H \<union> S \<and> (b, m) \<noteq> (a, n) \<longrightarrow> a + 4 + n \<le> b \<or> b + 4 + m \<le> a) \<and>
    (\<exists>r'. mr_free e caller (w32 (a + 4)) r = Some r' \<and> mr_run e r' (H - {(a, n)}) (S - {(a, n)}) \<and>
      (if (a, n) \<in> S then mr_memFreed r' = mr_memFreed r @ [w32 a] \<and> mr_kheap r' = mr_kheap r
       else heap_free e (w32 a) caller (mr_kheap r) = Some (mr_kheap r') \<and> mr_memFreed r' = mr_memFreed r)) \<and>
    (mr_offer c1 c2 sm k r (H \<union> S) \<and> 0 < k \<and> k < 2 ^ 32 - 8276 \<longrightarrow>
      (\<exists>p r'. mr_allocate e (w32 c1) (w32 c2) (w32 sm) caller (w32 k) r = Some (p, r') \<and> (sm \<noteq> 0 \<longrightarrow> p \<noteq> 0)))"
proof -
  have inv: "mr_inv e r H S" by (rule mr_run_inv [OF assms(1,2)])
  then obtain V where P: "mr_areas e (mr_kheap r) V H S" by (auto simp: mr_inv_def)
  have "a + 4 + n \<le> b \<or> b + 4 + m \<le> a" if "(b, m) \<in> H \<union> S" "(b, m) \<noteq> (a, n)" for b m
    using mr_sep [OF P, of a n b m] that assms(3) by (auto simp: sep_def)
  moreover from mr_release_inv [OF inv assms(3), of caller] obtain r' where r': "H \<inter> S = {}" "mr_free e caller (w32 (a + 4)) r = Some r'"
      "if (a, n) \<in> S then mr_memFreed r' = mr_memFreed r @ [w32 a] \<and> mr_kheap r' = mr_kheap r
       else heap_free e (w32 a) caller (mr_kheap r) = Some (mr_kheap r') \<and> mr_memFreed r' = mr_memFreed r" by blast
  moreover note mr_release [OF assms(1,3) r'(2)]
  ultimately show ?thesis using mr_alloc_inv [OF inv, of c1 c2 sm k caller] by blast
qed

text \<open>C20: \<open>reallocate\<close> never returns for memory of the reservoir: it hands the address behind its own header to the heap, which looks for the header
  of the allocation in the wrong place and panics or faults (\<open>MemReservoir::reallocate\<close>).\<close>

theorem reservoir_reallocate_fails:
  assumes "mr_run e r H S" "\<forall>x. he_walker e x" "(a, n) \<in> H \<union> S"
  shows "mr_reallocate e m1 m2 caller (w32 (a + 4)) sz r = None"
proof -
  let ?h = "mr_kheap r"
  from mr_run_inv [OF assms(1,2)] obtain V where P: "mr_areas e ?h V H S" by (auto simp: mr_inv_def)
  have b: "0 < n" "0 < a" "a + n + 4 < 2 ^ 32" using mr_bounds [OF P] assms(3) by blast+
  have "(a + 4, l) \<notin> V" for l
  proof
    assume l: "(a + 4, l) \<in> V"
    have l0: "0 < l" using hp.areas_law [OF mr_areasD(1) [OF P] l] by blast
    show False
    proof (cases "(a, n) \<in> H")
      case True
      then obtain k where k: "n + 4 \<le> k" "(a, k) \<in> V" using mr_heap_area(1) [OF P] by blast
      from hp.disjoint_law [OF mr_areasD(1) [OF P] k(2) l] k(1) b l0 show False by linarith
    next
      case False
      then have s: "(a, n) \<in> S" using assms(3) by simp
      obtain d where "d \<in> chunk_addrs ?h" "d \<le> a + 4" "a + 4 + l \<le> d + csize ?h" using holds_in_chunk [OF mr_areasD(1) [OF P] l] by blast
      with mr_areasD(7) [OF P s this(1)] b show False unfolding sep_def by linarith
    qed
  qed
  then have "a + 4 \<notin> fst ` V" by force
  moreover have "opt OPT_CHECK_ALLOCS_ON_FREE ?h" using mr_areasD(3) [OF P] by (simp add: opt_def)
  ultimately have "heap_realloc e m1 m2 caller (w32 (a + 4)) (sz + 4) ?h = None" by (intro realloc_unknown [OF mr_areasD(1) [OF P]]) (use b in simp_all)
  then show ?thesis by (simp add: mr_reallocate_def Let_def)
qed

text \<open>An example: a first request of 100 bytes, which the heap meets, and one of three megabytes, which is too large for it.\<close>

abbreviation reservoir0 :: reservoir where "reservoir0 \<equiv> snd (mr_initialize 0x1000 (mr_new True (\<lambda>_. 0)))"

lemma reservoir0_facts:
  "mr_run env0 reservoir0 {} {}" "csize (mr_kheap reservoir0) = 0x200000" "hp_chunkSize (mr_kheap reservoir0) = 0x200000"
  "mr_offer 0x400000 0x800000 0 100 reservoir0 ({} \<union> {})" "mr_offer 0x400000 0x800000 0x10000000 0x300000 reservoir0 ({} \<union> {})"
proof -
  have h: "mr_kheap reservoir0 = heap0\<lparr>hp_mem := hp_mem (mr_kheap reservoir0)\<rparr>"
    by (simp add: mr_initialize_def mr_new_def heap_start_def heap_initialize_def pl_initialize_def heap_new_def Let_def)
  have c: "chunk_addrs (mr_kheap reservoir0) = {}" using env0_simps(6) by (subst h, simp add: chunk_addrs_def)
  show s: "csize (mr_kheap reservoir0) = 0x200000" using env0_simps(3) by (subst h, simp)
  show "hp_chunkSize (mr_kheap reservoir0) = 0x200000" by (subst h, simp add: heap_start_def heap_initialize_def pl_initialize_def heap_new_def)
  show "mr_offer 0x400000 0x800000 0 100 reservoir0 ({} \<union> {})" "mr_offer 0x400000 0x800000 0x10000000 0x300000 reservoir0 ({} \<union> {})"
    using c s by (simp_all add: mr_offer_def heap_offer_def apart_def sep_def)
  show "mr_run env0 reservoir0 {} {}" by (rule mr_start) (simp_all add: env0_simps)
qed

lemma reservoir_heap_ex: "\<exists>r a. mr_run env0 r {(a, 100)} {}"
proof -
  let ?h = "mr_kheap reservoir0"
  have "mr_inv env0 reservoir0 {} {}" using mr_run_inv [OF reservoir0_facts(1)] by (simp add: env0_simps)
  then obtain V where V: "heap_holds env0 ?h V" by (auto simp: mr_inv_def mr_areas_def)
  have o: "heap_offer (0x400000, 0x800000) ?h" using reservoir0_facts(4) by (simp add: mr_offer_def)
  have "seg_gap ?h (heap_need ?h 104) \<le> 4096" by (simp add: seg_gap_def)
  with heap_need_bounds(2) [where sz = 104 and h = ?h] have "chunk_room_for env0 ?h 104"
    by (auto simp: chunk_room_for_def env0_simps overhead_def reservoir0_facts(2) split: if_splits)
  from malloc_room [OF V o _ _ this, of 0 None] obtain p h where p: "heap_malloc env0 (w32 0x400000) (w32 0x800000) (w32 104) 0 None ?h = Some (p, h)" "p \<noteq> 0" by auto
  then obtain r where r: "mr_allocate env0 (w32 0x400000) (w32 0x800000) (w32 0) 0 (w32 100) reservoir0 = Some (p + 4, r)"
    by (simp add: mr_allocate_def reservoir0_facts(3))
  from heap_get_law [OF V o, of 104 0 None] p obtain k where k: "104 \<le> k" "heap_holds env0 h (insert (unat p, k) V)" by (auto simp: unat_eq_0)
  then have "unat p + 4 < 2 ^ 32" using hp.areas_law [OF k(2), of "unat p" k] by simp
  then have "p + 4 \<noteq> 0" using w32_nz [of "unat p + 4"] by simp
  then show ?thesis using mr_alloc [OF reservoir0_facts(1,4) _ _ r] by (auto simp: from_stream_def)
qed

lemma reservoir_stream_ex: "\<exists>r. mr_run env0 r {} {(0x10000000, 0x300000)}"
proof -
  obtain r where "mr_allocate env0 (w32 0x400000) (w32 0x800000) (w32 0x10000000) 0 (w32 0x300000) reservoir0 = Some (w32 (0x10000000 + 4), r)"
    by (simp add: mr_allocate_def reservoir0_facts(3))
  from mr_alloc [OF reservoir0_facts(1,5) _ _ this] show ?thesis by (auto simp: from_stream_def)
qed

theorem reservoir_safe_witness:
  "(\<exists>r a r'. mr_run env0 r {(a, 100)} {} \<and> mr_free env0 0 (w32 (a + 4)) r = Some r' \<and> mr_run env0 r' {} {} \<and>
      heap_free env0 (w32 a) 0 (mr_kheap r) = Some (mr_kheap r') \<and> mr_memFreed r' = mr_memFreed r) \<and>
   (\<exists>r r'. mr_run env0 r {} {(0x10000000, 0x300000)} \<and> mr_free env0 0 (w32 (0x10000000 + 4)) r = Some r' \<and> mr_run env0 r' {} {} \<and>
      mr_memFreed r' = mr_memFreed r @ [w32 0x10000000] \<and> mr_kheap r' = mr_kheap r)"
proof -
  obtain r a where r: "mr_run env0 r {(a, 100)} {}" using reservoir_heap_ex by blast
  obtain k where k: "mr_run env0 k {} {(0x10000000, 0x300000)}" using reservoir_stream_ex by blast
  have k0: "(0x10000000, 0x300000) \<in> {} \<union> {(0x10000000 :: nat, 0x300000 :: nat)}" by simp
  have w: "\<forall>x. he_walker env0 x" by (simp add: env0_simps)
  have "\<exists>r'. mr_free env0 0 (w32 (a + 4)) r = Some r' \<and> mr_run env0 r' {} {} \<and>
      heap_free env0 (w32 a) 0 (mr_kheap r) = Some (mr_kheap r') \<and> mr_memFreed r' = mr_memFreed r"
    using reservoir_safe [OF r w, of a 100 0, THEN conjunct2, THEN conjunct2, THEN conjunct1] by simp
  moreover have "\<exists>r'. mr_free env0 0 (w32 (0x10000000 + 4)) k = Some r' \<and> mr_run env0 r' {} {} \<and>
      mr_memFreed r' = mr_memFreed k @ [w32 0x10000000] \<and> mr_kheap r' = mr_kheap k"
    using reservoir_safe [OF k w k0, of 0, THEN conjunct2, THEN conjunct2, THEN conjunct1] by auto
  ultimately show ?thesis using r k by blast
qed

theorem reservoir_reallocate_fails_witness: "\<exists>r a. mr_run env0 r {(a, 100)} {} \<and> mr_reallocate env0 0 0 0 (w32 (a + 4)) 200 r = None"
proof -
  obtain r a where r: "mr_run env0 r {(a, 100)} {}" using reservoir_heap_ex by blast
  from reservoir_reallocate_fails [OF r, of a 100 0 0 0 200] r show ?thesis by (auto simp: env0_simps)
qed

end
