(* ===== verification/Spec2Isabelle.thy ===== *)
theory Spec2Isabelle
  imports SortedDList MemBmp X86MulDiv RwLock VSwamp SchedProps SlamCache X86Flow MemReservoir
begin

text \<open>
  \<^bold>\<open>Zambesii kernel: verification of core components.\<close>

  Zambesii is a kernel for NUMA machines, written in C++ for 32-bit x86.  Its common part (\<open>src/__kcore/kernel/common\<close>) is organised in
  tributaries (one global service each: tasks, memory, CPUs, timers, processes) and streams (the part of a tributary that belongs to one CPU
  or process), on top of a library of containers and allocators (\<open>src/__kcore/include/__kclasses\<close>, \<open>src/__kcore/__kclasses\<close>).  A port of
  the x86emu real-mode emulator (\<open>src/__kcore/firmware/ibmPcBios\<close>) executes BIOS services.  Nothing below depends on hardware: device
  access, page tables and context switches are outside the model.

  \<^bold>\<open>Execution model.\<close>  Machine integers are words of their width.  Objects reached through pointers live in stores, maps from addresses to records;
  a pointer is an optional address, or an address with 0 as NULL.  Every operation of the kernel runs in the option monad, \<open>None\<close> meaning that the code
  does not return normally: a null or stale pointer is followed, an array is left, an assertion or \<open>panic\<close> fires, or a \<open>WaitLock\<close> is taken again by
  its holder.  The emulator runs in a state monad over the machine with its memory and ports; a halted machine is a flag of the emulator, and
  \<open>fault\<close> marks a state in which the emulator itself does not go on (the host traps, or a loop does not end).  Error codes are integers as in \<open>__kerror.h\<close>.  Allocators, build options, ports and firmware are arguments;
  what is assumed of them is a hypothesis of the theorems (an allocator returns memory that is not in use, or fails).

  \<^bold>\<open>Theories.\<close>

  \<^item> \<open>Prelude\<close>: machine types, error codes, pointers and stores, locks, the counting loop \<open>word_for\<close> and its rule.  \<open>Simulation\<close>: data refinement of
    an operation set as a locale, extended by a locale for operations that fail exactly when a condition is broken; used for the run queues.

  \<^item> \<open>Dll\<close>, \<open>HeapDoubleList\<close>, \<open>SortedDList\<close>: the doubly linked lists (\<open>heapDoubleList.h\<close>, \<open>sortedHeapDoubleList.h\<close>) as nodes in a store, refined to
    lists of items.  Appending and draining is first-in first-out, removal is \<open>remove1\<close>; sorted insertion adds exactly the new entry, and the
    condition under which it keeps the order is exact (it is not always met).

  \<^item> \<open>BitOps\<close>, \<open>IndexSet\<close>, \<open>KBitmap\<close>: the bit macros (\<open>__kbitManipulation.h\<close>, \<open>__kmath.h\<close>), the search for a run of free bits, and the class \<open>Bitmap\<close>
    (\<open>bitmap.cpp\<close>) as a set of numbers behind the locale of \<open>IndexSet\<close>.

  \<^item> \<open>MemBmp\<close>: the bitmap of physical frames (\<open>memBmp.cpp\<close>).  Allocation returns free frames of the bank and marks exactly those, from any state; it can fail to return
    only while the last frame is free.  Mapping
    and releasing change exactly the frames of the range; the off-by-one errors at the end of a bank are proved as such.

  \<^item> \<open>PrioQueue\<close>: the array of FIFO queues with the number of the first one in use (\<open>prioQueue.h\<close>), refined to a list of lists.  Every sequence of
    operations whose removals name existing priorities answers as the lists do and does not fault, with or without memory for nodes; any other sequence
    faults; draining returns smaller priority numbers first.

  \<^item> \<open>Scheduler\<close>: threads and their scheduling attributes (\<open>thread.h\<close>, \<open>thread.cpp\<close>), the task stream of a CPU (\<open>taskStream.cpp\<close>), the placement of threads
    (\<open>taskTrib.cpp\<close>, \<open>numaCpuBank.cpp\<close>) and the calls block, unblock, yield, wake and dormant, in the debug and the release build.  \<open>SchedInv\<close>: the
    invariant that ties thread states to queue contents and current threads, and its preservation by every call.  \<open>SchedProps\<close>: the invariant over
    all sequences of calls (a step relation, with the conditions on allocator and caller that the code needs), the choice of the next thread, the choice of the CPU, and three behaviours against the
    comments of the code.  The loop of \<open>pullFromQ\<close> need not end for threads flagged as waiting and is a partial function; no code sets the flag, the
    invariant excludes it, and then the loop is proved to return.

  \<^item> \<open>SlamCache\<close>: the allocator of objects of one size (\<open>slamCache.cpp\<close>).  The locale \<open>object_cache\<close> states what clients rely on; objects in use
    never overlap, and releasing and allocating are inverse.

  \<^item> \<open>PList\<close>: the singly linked list without nodes of its own (\<open>list.h\<close>), refined to lists of addresses.  \<open>Heap\<close>: the kernel heap on top of it
    (\<open>heap.cpp\<close>, \<open>heap.h\<close>), with its headers as stores in which a new header destroys those it overwrites.  \<open>HeapSeg\<close>: a chunk as a sequence of free and
    used segments, and what a header in memory has to say about each.  \<open>HeapChunk\<close>, \<open>HeapFree\<close>: first fit in a chunk, and release with its merges,
    against the same operations on segments.  \<open>HeapInv\<close>, \<open>HeapAlloc\<close>, \<open>HeapOps\<close>: the invariant of the whole heap, new chunks, \<open>malloc\<close> and \<open>free\<close>.
    \<open>HeapCheck\<close>: the consistency checks of the code succeed under the invariant; allocating and releasing are inverse.  \<open>HeapProps\<close>: the contract of
    an allocator as a locale, met by the heap; all sequences of calls (a step relation); \<open>realloc\<close> and its two defects.

  \<^item> \<open>MemReservoir\<close>: the allocator behind \<open>new\<close> and \<open>delete\<close> (\<open>memReservoir.cpp\<close>), which puts a word in front of each area and takes memory from the heap
    or from the stream.  Clients that allocate, release and write into their own areas never meet, and a released area goes back to the source it came from;
    \<open>reallocate\<close> never returns.

  \<^item> \<open>X86State\<close>, \<open>CarryChain\<close>, \<open>X86Arith\<close>, \<open>X86Shift\<close>, \<open>X86MulDiv\<close>: the machine state and the arithmetic primitives of the emulator (\<open>regs.h\<close>, \<open>prim_ops.c\<close>) with every
    flag, against the instructions they stand for; counts and operands for which they deviate are proved.

  \<^item> \<open>Locks\<close>, \<open>RwLock\<close>: the spin locks (\<open>waitLock\<close>, \<open>recursiveLock\<close>, \<open>multipleReaderLock\<close>) as step relations of several CPUs, one step per access
    to the lock word: mutual exclusion, the interrupt state after a release, who gets in, and a schedule in which a reader and a writer wait for each other for ever.

  \<^item> \<open>VSwamp\<close>: the allocator of virtual pages (\<open>vSwamp.cpp\<close>) with its list of holes.

  \<^item> \<open>X86Bus\<close>, \<open>X86Decode\<close>, \<open>X86Operand\<close>, \<open>X86Ops\<close>, \<open>X86Ctl\<close>, \<open>X86Ops2\<close>, \<open>X86Exec\<close>: the emulator itself.  Bus access and the BIOS memory window (\<open>besys.c\<close>), fetching and
    addressing (\<open>decode.c\<close>), the handlers of the one-byte opcodes (\<open>ops.c\<close>) and of the two-byte ones (\<open>ops2.c\<close>), both opcode tables, the execution loop
    and the entry point \<open>executeInterrupt\<close> of the BIOS driver.

  \<^item> \<open>X86Addr\<close>, \<open>X86Instr\<close>: the addressing modes against one formula per mode, and whole instructions, from the bytes of the code stream to registers, flags
    and memory.  \<open>X86Safe\<close>: relations between machine states that every handler respects (a locale, interpreted for three relations).  \<open>X86Run\<close>: a BIOS call returns when
    its handler does, with the registers restored.  \<open>X86Flow\<close>: prefixes, stack round trips and the repeated string
    instructions: each of them ends after at most CX rounds, REPNE SCASB is a search, REP MOVSB a copy.

  \<^bold>\<open>Fuel.\<close>  The loops over doubly linked lists take the item counter of the list as fuel; the invariants make it the length of the list, so they end
  before it runs out.  Loops that need not end are partial functions of the option monad (\<open>pullFromQ\<close>, the walks over \<open>List\<close>, the execution loop of the emulator); that they return is
  proved where the code relies on it.  A repeated string instruction takes the value of CX at its start as its bound, and is marked as faulted should the bound be used up
  with CX not zero; \<open>X86Flow.x86_repeat_ends\<close> shows of the handlers that this does not happen.  All other loops are structural, bounded by a word (\<open>word_for\<close>)
  or have a termination proof.

  \<^bold>\<open>Not modelled.\<close>  Locks are concurrent objects only in their own theories; everywhere else an operation runs alone and interleaving is between operations.
  Timers, messages, processes, interrupts, the file system and the driver framework of the kernel are left out, as are the
  debugger of the emulator, architecture and chipset support, table parsers, run-time libraries and host programs: most of it is hardware
  access, third-party code or tools.
\<close>

end
